(* ===== verification/Gw_Prelude.thy ===== *)
theory Gw_Prelude
  imports Complex_Main "HOL-Library.Word"
begin

text \<open>
  Shared vocabulary of the development. A Node.js \<open>Buffer\<close> is a list of 8-bit words;
  \<open>subarray\<close>, \<open>indexOf\<close>, \<open>readUIntLE/BE\<close> and \<open>writeUIntLE/BE\<close> are modelled here once,
  with their round-trip and bound lemmas in the collection \<open>wire\<close>. JavaScript integers
  that stay within the safe range are \<open>nat\<close> or \<open>int\<close>.
\<close>

unbundle bit_operations_syntax

named_theorems wire \<open>codec equations for byte buffers\<close>

type_synonym byte = "8 word"
type_synonym bytes = "byte list"

section \<open>Slices and searches\<close>

definition slice :: "nat \<Rightarrow> nat \<Rightarrow> 'a list \<Rightarrow> 'a list" where
  "slice i j xs = take (j - i) (drop i xs)"

lemma slice_length [simp]: "length (slice i j xs) = min (j - i) (length xs - i)"
  by (simp add: slice_def min.commute)

lemma slice_append_left: "j \<le> length xs \<Longrightarrow> slice i j (xs @ ys) = slice i j xs"
  by (cases "i \<le> length xs") (simp_all add: slice_def)

lemma slice_append_right: "length xs \<le> i \<Longrightarrow> slice i j (xs @ ys) = slice (i - length xs) (j - length xs) ys"
  by (simp add: slice_def)

lemma slice_0 [simp]: "slice 0 j xs = take j xs"
  by (simp add: slice_def)

definition starts_with :: "'a list \<Rightarrow> 'a list \<Rightarrow> bool" where
  "starts_with pat xs \<longleftrightarrow> take (length pat) xs = pat"

lemma starts_with_append [simp]: "starts_with pat (pat @ xs)"
  by (simp add: starts_with_def)

lemma starts_with_length: "starts_with pat xs \<Longrightarrow> length pat \<le> length xs"
  unfolding starts_with_def by (metis length_take min.cobounded1 min.commute)

lemma starts_with_extend: "starts_with pat xs \<Longrightarrow> starts_with pat (xs @ ys)"
  using starts_with_length [of pat xs] by (simp add: starts_with_def)

lemma starts_with_restrict: "starts_with pat (xs @ ys) \<Longrightarrow> length pat \<le> length xs \<Longrightarrow> starts_with pat xs"
  by (simp add: starts_with_def)

text \<open>\<open>Buffer.indexOf\<close>: the least offset at which the pattern occurs.\<close>

fun find_sub :: "'a list \<Rightarrow> 'a list \<Rightarrow> nat option" where
  "find_sub pat [] = (if pat = [] then Some 0 else None)"
| "find_sub pat (x # xs) =
     (if starts_with pat (x # xs) then Some 0 else map_option Suc (find_sub pat xs))"

lemma find_sub_Some:
  "find_sub pat xs = Some i \<Longrightarrow> i \<le> length xs \<and> starts_with pat (drop i xs)"
  by (induction pat xs arbitrary: i rule: find_sub.induct)
     (auto simp: starts_with_def split: if_splits)

lemma find_sub_least:
  "find_sub pat xs = Some i \<Longrightarrow> j < i \<Longrightarrow> \<not> starts_with pat (drop j xs)"
proof (induction pat xs arbitrary: i j rule: find_sub.induct)
  case (2 pat x xs)
  then show ?case by (cases j) (auto split: if_splits)
qed (auto split: if_splits)

lemma find_sub_None:
  "find_sub pat xs = None \<Longrightarrow> \<not> starts_with pat (drop j xs)"
proof (induction pat xs arbitrary: j rule: find_sub.induct)
  case (1 pat)
  then show ?case by (auto simp: starts_with_def split: if_splits)
next
  case (2 pat x xs)
  then show ?case by (cases j) (auto split: if_splits)
qed

lemma find_sub_unique:
  assumes "i \<le> length xs" "starts_with pat (drop i xs)" "\<And>j. j < i \<Longrightarrow> \<not> starts_with pat (drop j xs)"
  shows "find_sub pat xs = Some i"
proof (cases "find_sub pat xs")
  case None
  then show ?thesis using find_sub_None assms(2) by blast
next
  case (Some k)
  then have "\<not> k < i" "\<not> i < k"
    using find_sub_Some find_sub_least assms by blast+
  then show ?thesis using Some by simp
qed

lemma find_sub_bound: "find_sub pat xs = Some i \<Longrightarrow> i + length pat \<le> length xs"
  using find_sub_Some [of pat xs i] starts_with_length [of pat "drop i xs"] by auto

lemma find_sub_append:
  assumes "find_sub pat xs = Some i"
  shows "find_sub pat (xs @ ys) = Some i"
proof (rule find_sub_unique)
  have b: "i + length pat \<le> length xs" by (rule find_sub_bound [OF assms])
  show "i \<le> length (xs @ ys)" using b by simp
  show "starts_with pat (drop i (xs @ ys))"
    using find_sub_Some [OF assms] starts_with_extend by fastforce
  fix j assume j: "j < i"
  have "\<not> starts_with pat (drop j xs)" by (rule find_sub_least [OF assms j])
  moreover have "length pat \<le> length (drop j xs)" "j \<le> length xs" using b j by simp_all
  ultimately show "\<not> starts_with pat (drop j (xs @ ys))"
    using starts_with_restrict [of pat "drop j xs" ys] by auto
qed

lemma find_sub_at_start: "starts_with pat xs \<Longrightarrow> find_sub pat xs = Some 0"
  by (cases xs) (auto simp: starts_with_def)

section \<open>Little and big endian integers\<close>

fun le_nat :: "bytes \<Rightarrow> nat" where
  "le_nat [] = 0"
| "le_nat (b # bs) = unat b + 256 * le_nat bs"

fun le_bytes :: "nat \<Rightarrow> nat \<Rightarrow> bytes" where
  "le_bytes 0 v = []"
| "le_bytes (Suc n) v = word_of_nat v # le_bytes n (v div 256)"

definition be_nat :: "bytes \<Rightarrow> nat" where
  "be_nat bs = le_nat (rev bs)"

definition be_bytes :: "nat \<Rightarrow> nat \<Rightarrow> bytes" where
  "be_bytes n v = rev (le_bytes n v)"

lemma length_le_bytes [simp]: "length (le_bytes n v) = n"
  by (induction n v rule: le_bytes.induct) simp_all

lemma le_bytes_numeral [simp]:
  "le_bytes (numeral k) v = word_of_nat v # le_bytes (pred_numeral k) (v div 256)"
  unfolding numeral_eq_Suc [of k] by simp

lemma length_be_bytes [simp]: "length (be_bytes n v) = n"
  by (simp add: be_bytes_def)

lemma unat_byte_bound: "unat (b :: byte) < 256"
  using unsigned_less [of b] by simp

lemma unat_byte_of_nat: "unat (word_of_nat v :: byte) = v mod 256"
  by (simp add: unat_of_nat)

lemma le_nat_bound: "le_nat bs < 256 ^ length bs"
proof (induction bs)
  case (Cons b bs)
  then have "unat b + 256 * le_nat bs < 256 * Suc (le_nat bs)"
    using unat_byte_bound [of b] by simp
  also have "\<dots> \<le> 256 * 256 ^ length bs" using Cons by simp
  finally show ?case by simp
qed simp

lemma le_nat_le_bytes [wire]: "le_nat (le_bytes n v) = v mod 256 ^ n"
proof (induction n v rule: le_bytes.induct)
  case (2 n v)
  have "v mod (256 * 256 ^ n) = v mod 256 + 256 * (v div 256 mod 256 ^ n)"
    by (simp add: mod_mult2_eq)
  then show ?case using 2 by (simp add: unat_byte_of_nat)
qed simp

lemma be_nat_be_bytes [wire]: "be_nat (be_bytes n v) = v mod 256 ^ n"
  by (simp add: be_nat_def be_bytes_def le_nat_le_bytes)

lemma le_bytes_le_nat [wire]: "le_bytes (length bs) (le_nat bs) = bs"
proof (induction bs)
  case (Cons b bs)
  have "word_of_nat (unat b + 256 * le_nat bs) = b"
  proof -
    have "unat (word_of_nat (unat b + 256 * le_nat bs) :: byte) = unat b"
      using unat_byte_bound [of b] by (simp only: unat_byte_of_nat) simp
    then show ?thesis by (simp only: unsigned_word_eqI)
  qed
  moreover have "(unat b + 256 * le_nat bs) div 256 = le_nat bs"
    using unat_byte_bound [of b] by simp
  ultimately show ?case using Cons by simp
qed simp

definition u16le :: "bytes \<Rightarrow> nat \<Rightarrow> nat" where
  "u16le bs i = le_nat (slice i (i + 2) bs)"

definition u32le :: "bytes \<Rightarrow> nat \<Rightarrow> nat" where
  "u32le bs i = le_nat (slice i (i + 4) bs)"

definition u16be :: "bytes \<Rightarrow> nat \<Rightarrow> nat" where
  "u16be bs i = be_nat (slice i (i + 2) bs)"

definition u32be :: "bytes \<Rightarrow> nat \<Rightarrow> nat" where
  "u32be bs i = be_nat (slice i (i + 4) bs)"

text \<open>Signed reads: two's complement of the width read.\<close>

definition i16le :: "bytes \<Rightarrow> nat \<Rightarrow> int" where
  "i16le bs i = (let v = int (u16le bs i) in if v < 32768 then v else v - 65536)"

definition i32le :: "bytes \<Rightarrow> nat \<Rightarrow> int" where
  "i32le bs i = (let v = int (u32le bs i) in if v < 2147483648 then v else v - 4294967296)"

lemma le_nat_bound_ge: "length bs \<le> n \<Longrightarrow> le_nat bs < 256 ^ n"
  by (rule less_le_trans [OF le_nat_bound]) (simp add: power_increasing)

lemma u16le_bound: "u16le bs i < 65536"
  using le_nat_bound_ge [of "slice i (i + 2) bs" 2] by (simp add: u16le_def)

lemma u32le_bound: "u32le bs i < 4294967296"
  using le_nat_bound_ge [of "slice i (i + 4) bs" 4] by (simp add: u32le_def)

lemma u16be_bound: "u16be bs i < 65536"
  using le_nat_bound_ge [of "rev (slice i (i + 2) bs)" 2] by (simp add: u16be_def be_nat_def)

lemma u32be_bound: "u32be bs i < 4294967296"
  using le_nat_bound_ge [of "rev (slice i (i + 4) bs)" 4] by (simp add: u32be_def be_nat_def)

text \<open>Bit masks of the low bits of a natural number, as the code writes them.\<close>

lemma nat_and_mask: "(n :: nat) AND (2 ^ k - 1) = n mod 2 ^ k"
  by (simp only: mask_eq_exp_minus_1 [symmetric] take_bit_eq_mask [symmetric] take_bit_eq_mod)

lemma nat_and_31 [wire]: "(n :: nat) AND 31 = n mod 32"
  using nat_and_mask [of n 5] by simp

lemma nat_and_15 [wire]: "(n :: nat) AND 15 = n mod 16"
  using nat_and_mask [of n 4] by simp

lemma nat_and_1 [wire]: "(n :: nat) AND 1 = n mod 2"
  using nat_and_mask [of n 1] by simp

lemma nat_and_1023 [wire]: "(n :: nat) AND 1023 = n mod 1024"
  using nat_and_mask [of n 10] by simp

lemma nat_and_65535 [wire]: "(n :: nat) AND 65535 = n mod 65536"
  using nat_and_mask [of n 16] by simp

text \<open>An OR of disjoint bit fields is a sum.\<close>

lemma nat_or_add: "b < 2 ^ k \<Longrightarrow> (a * 2 ^ k) OR b = a * 2 ^ k + (b :: nat)"
proof -
  assume "b < 2 ^ k"
  then have "take_bit k b = b" by (simp add: take_bit_nat_eq_self)
  have "(a * 2 ^ k) AND b = 0"
  proof -
    have "push_bit k a AND take_bit k b = 0"
      by (rule bit_eqI) (auto simp: bit_simps)
    then show ?thesis using \<open>take_bit k b = b\<close> by (simp add: push_bit_eq_mult)
  qed
  then show ?thesis by (metis disjunctive_add_eq_or)
qed
section \<open>Decimal text\<close>

text \<open>A number in a template string: its decimal digits.\<close>

fun nat_str :: "nat \<Rightarrow> string" where
  "nat_str n = (if n < 10 then [char_of (48 + n)] else nat_str (n div 10) @ [char_of (48 + n mod 10)])"

declare nat_str.simps [simp del]

definition int_str :: "int \<Rightarrow> string" where
  "int_str i = (if i < 0 then CHR ''-'' # nat_str (nat (- i)) else nat_str (nat i))"

definition is_digit :: "char \<Rightarrow> bool" where
  "is_digit c \<longleftrightarrow> 48 \<le> (of_char c :: nat) \<and> (of_char c :: nat) \<le> 57"

definition digits_value :: "string \<Rightarrow> nat" where
  "digits_value s = foldl (\<lambda>n c. n * 10 + (of_char c - 48)) 0 s"

lemma of_char_digit [simp]: "n < 10 \<Longrightarrow> of_char (char_of (48 + n :: nat)) = (48 + n :: nat)"
  by (simp add: of_char_of)

lemma is_digit_char [simp]: "n < 10 \<Longrightarrow> is_digit (char_of (48 + n :: nat))"
  by (simp add: is_digit_def)

lemma nat_str_digits: "list_all is_digit (nat_str n)"
proof (induction n rule: nat_str.induct)
  case (1 n)
  then show ?case by (subst nat_str.simps) auto
qed

lemma digits_value_nat_str [simp]: "digits_value (nat_str n) = n"
proof (induction n rule: nat_str.induct)
  case (1 n)
  then show ?case by (subst nat_str.simps) (auto simp: digits_value_def)
qed

lemma nat_str_not_Nil [simp]: "nat_str n \<noteq> []"
  by (subst nat_str.simps) simp

section \<open>Hexadecimal text\<close>

definition hex_value :: "char \<Rightarrow> nat option" where
  "hex_value c =
     (let n = of_char c in
      if 48 \<le> n \<and> n \<le> 57 then Some (n - 48) else if 97 \<le> n \<and> n \<le> 102 then Some (n - 87)
      else if 65 \<le> n \<and> n \<le> 70 then Some (n - 55) else None)"

text \<open>\<open>Buffer.from(value, "hex")\<close>: pairs of digits up to the first character that is none.\<close>

fun hex_bytes :: "string \<Rightarrow> bytes" where
  "hex_bytes (a # b # cs) =
     (case (hex_value a, hex_value b) of
        (Some x, Some y) \<Rightarrow> word_of_nat (16 * x + y) # hex_bytes cs
      | _ \<Rightarrow> [])"
| "hex_bytes _ = []"

section \<open>JavaScript numbers\<close>

text \<open>\<open>Math.round\<close>: the nearest integer, halves upwards.\<close>

definition js_round :: "real \<Rightarrow> int" where
  "js_round x = \<lfloor>x + 1 / 2\<rfloor>"


text \<open>\<open>Number.isSafeInteger\<close> on values already known to be integers.\<close>

definition max_safe_integer :: int where
  "max_safe_integer = 9007199254740991"

definition safe_int :: "int \<Rightarrow> bool" where
  "safe_int n \<longleftrightarrow> - max_safe_integer \<le> n \<and> n \<le> max_safe_integer"

end
