(* ===== verification/Js_Map.thy ===== *)
theory Js_Map
  imports Gw_Prelude "HOL-Library.AList" "HOL-Library.Multiset"
begin

text \<open>
  A JavaScript \<open>Map\<close> is an association list in insertion order without duplicate keys:
  \<open>set\<close> overwrites in place or appends (\<open>AList.update\<close>), \<open>delete\<close> removes
  (\<open>AList.delete\<close>), \<open>get\<close> is \<open>map_of\<close>. The locale \<open>keyed_store\<close> is the interface the
  components rely on (lookup laws and the accounting of a total over the entries); it is
  interpreted on the association-list model, and its facts carry every byte and entry
  budget of the development.
\<close>

type_synonym ('k, 'v) jsmap = "('k \<times> 'v) list"

definition js_wf :: "('k, 'v) jsmap \<Rightarrow> bool" where
  "js_wf m \<longleftrightarrow> distinct (map fst m)"

definition js_total :: "('v \<Rightarrow> nat) \<Rightarrow> ('k, 'v) jsmap \<Rightarrow> nat" where
  "js_total f m = (\<Sum>(k, v) \<leftarrow> m. f v)"

lemma js_total_simps [simp]:
  "js_total f [] = 0"
  "js_total f ((k, v) # m) = f v + js_total f m"
  "js_total f (m @ m') = js_total f m + js_total f m'"
  by (simp_all add: js_total_def)

lemma js_wf_Nil [simp]: "js_wf []"
  by (simp add: js_wf_def)

lemma js_wf_Cons [simp]: "js_wf ((k, v) # m) \<longleftrightarrow> k \<notin> fst ` set m \<and> js_wf m"
  by (simp add: js_wf_def)

lemma js_wf_update [simp]: "js_wf m \<Longrightarrow> js_wf (AList.update k v m)"
  by (simp add: js_wf_def distinct_update)

lemma js_wf_delete [simp]: "js_wf m \<Longrightarrow> js_wf (AList.delete k m)"
  by (simp add: js_wf_def distinct_delete)

lemma js_get_update: "map_of (AList.update k v m) k' = (if k' = k then Some v else map_of m k')"
  by (simp add: update_conv')

lemma js_get_delete: "map_of (AList.delete k m) k' = (if k' = k then None else map_of m k')"
  by (simp add: delete_conv')

lemma js_total_const: "js_total (\<lambda>_. 1) m = length m"
  by (induction m) auto

lemma js_update_fresh: "map_of m k = None \<Longrightarrow> AList.update k v m = m @ [(k, v)]"
  by (induction m) (auto split: if_splits)

lemma js_delete_absent: "map_of m k = None \<Longrightarrow> AList.delete k m = m"
  by (induction m) (auto simp: AList.delete_eq split: if_splits)

lemma js_total_fresh: "map_of m k = None \<Longrightarrow> js_total f (AList.update k v m) = js_total f m + f v"
  by (simp add: js_update_fresh)

lemma js_total_delete:
  "js_wf m \<Longrightarrow> map_of m k = Some v \<Longrightarrow> js_total f m = js_total f (AList.delete k m) + f v"
proof (induction m)
  case (Cons e m)
  show ?case
  proof (cases "fst e = k")
    case True
    with Cons.prems have "map_of m k = None"
      by (cases e) (auto simp: map_of_eq_None_iff)
    with True Cons.prems show ?thesis
      by (cases e) (auto simp: js_delete_absent)
  next
    case False
    with Cons show ?thesis by (cases e) auto
  qed
qed simp

lemma js_total_bound: "\<forall>e\<in>set m. f (snd e) \<le> b \<Longrightarrow> js_total f m \<le> length m * b"
  by (induction m) (auto intro: add_mono)

section \<open>The interface\<close>

locale keyed_store =
  fixes wf :: "'s \<Rightarrow> bool"
    and lookup :: "'s \<Rightarrow> 'k \<Rightarrow> 'v option"
    and put :: "'k \<Rightarrow> 'v \<Rightarrow> 's \<Rightarrow> 's"
    and del :: "'k \<Rightarrow> 's \<Rightarrow> 's"
    and total :: "('v \<Rightarrow> nat) \<Rightarrow> 's \<Rightarrow> nat"
  assumes wf_put: "wf s \<Longrightarrow> wf (put k v s)"
    and wf_del: "wf s \<Longrightarrow> wf (del k s)"
    and lookup_put: "lookup (put k v s) k' = (if k' = k then Some v else lookup s k')"
    and lookup_del: "lookup (del k s) k' = (if k' = k then None else lookup s k')"
    and total_fresh: "wf s \<Longrightarrow> lookup s k = None \<Longrightarrow> total f (put k v s) = total f s + f v"
    and total_del: "wf s \<Longrightarrow> lookup s k = Some v \<Longrightarrow> total f s = total f (del k s) + f v"
    and total_replace: "wf s \<Longrightarrow> lookup s k = Some w \<Longrightarrow> total f (put k v s) + f w = total f s + f v"
begin

lemma total_member: "wf s \<Longrightarrow> lookup s k = Some v \<Longrightarrow> f v \<le> total f s"
  using total_del [of s k v f] by simp

lemma total_del_minus: "wf s \<Longrightarrow> lookup s k = Some v \<Longrightarrow> total f (del k s) = total f s - f v"
  using total_del [of s k v f] by simp

lemma total_put_le: "wf s \<Longrightarrow> total f (put k v s) \<le> total f s + f v"
  using total_fresh [of s k f v] total_replace [of s k _ f v]
  by (cases "lookup s k") (simp, metis le_add1)

lemma total_del_le: "wf s \<Longrightarrow> lookup s k = Some v \<Longrightarrow> total f (del k s) \<le> total f s"
  using total_del [of s k v f] by simp

lemma total_move:
  "wf s \<Longrightarrow> lookup s k = Some v \<Longrightarrow> f w = f v \<Longrightarrow> total f (put k w s) = total f s"
  using total_replace [of s k v f w] by simp

end

lemma js_total_replace:
  "map_of m k = Some w \<Longrightarrow> js_total f (AList.update k v m) + f w = js_total f m + f v"
  by (induction m) (auto split: if_splits)

interpretation js: keyed_store js_wf map_of AList.update AList.delete js_total
  by unfold_locales
     (simp_all add: js_get_update js_get_delete js_total_fresh js_total_delete js_total_replace)

lemma js_length_update: "length (AList.update k v m) = (if map_of m k = None then Suc (length m) else length m)"
  by (induction m) (auto split: if_splits)

lemma js_length_delete: "js_wf m \<Longrightarrow> map_of m k \<noteq> None \<Longrightarrow> Suc (length (AList.delete k m)) = length m"
  using js.total_del [of m k "the (map_of m k)" "\<lambda>_. 1"] by (auto simp: js_total_const simp del: One_nat_def)

lemma js_in_set: "js_wf m \<Longrightarrow> (k, v) \<in> set m \<longleftrightarrow> map_of m k = Some v"
  by (simp add: js_wf_def)

lemma js_hd_lookup: "js_wf m \<Longrightarrow> m \<noteq> [] \<Longrightarrow> map_of m (fst (hd m)) = Some (snd (hd m))"
  by (cases m) auto

lemma js_total_dom:
  "js_wf m \<Longrightarrow> js_total f m = (\<Sum>k\<in>dom (map_of m). f (the (map_of m k)))"
proof (induction m)
  case (Cons e m)
  obtain k v where e: "e = (k, v)" by (cases e)
  then have k: "k \<notin> dom (map_of m)" "js_wf m" using Cons.prems by (auto simp: dom_map_of_conv_image_fst)
  have "(\<Sum>j\<in>dom (map_of m). f (the (map_of (e # m) j))) = (\<Sum>j\<in>dom (map_of m). f (the (map_of m j)))"
    by (rule sum.cong) (use k(1) e in auto)
  moreover have "dom (map_of (e # m)) = insert k (dom (map_of m))" using e by auto
  ultimately show ?case using Cons.IH k e by (simp add: finite_dom_map_of del: map_of.simps) simp
qed simp

lemma js_length_dom: "js_wf m \<Longrightarrow> length m = card (dom (map_of m))"
  using js_total_dom [of m "\<lambda>_. 1"] by (simp add: js_total_const del: One_nat_def)

text \<open>The values of a map as a multiset, for conservation statements.\<close>

definition js_values :: "('k, 'v) jsmap \<Rightarrow> 'v multiset" where
  "js_values m = mset (map snd m)"

lemma js_values_delete:
  "js_wf m \<Longrightarrow> map_of m k = Some v \<Longrightarrow> js_values m = add_mset v (js_values (AList.delete k m))"
proof (induction m)
  case (Cons e m)
  show ?case
  proof (cases "fst e = k")
    case True
    with Cons.prems have "map_of m k = None"
      by (cases e) (auto simp: map_of_eq_None_iff)
    with True Cons.prems show ?thesis
      by (cases e) (auto simp: js_delete_absent js_values_def)
  next
    case False
    with Cons show ?thesis by (cases e) (auto simp: js_values_def)
  qed
qed simp

end
