(* ===== verification/Machine.thy ===== *)
theory Machine
  imports Gw_Prelude
begin

text \<open>
  Components of the gateway are driven by a sequence of calls, timer expiries and
  callbacks. Each is a step function from a state and an event to the next state and the
  outputs produced; \<open>run\<close> composes the steps of an event sequence. Three interfaces are
  shared: an invariant kept by every admissible event (\<open>invariant_machine\<close>), outputs that
  satisfy a predicate whenever the invariant holds (\<open>output_machine\<close>), and byte-stream
  parsers whose output does not depend on how the stream is cut (\<open>chunk_parser\<close>).
\<close>

fun run :: "('s \<Rightarrow> 'e \<Rightarrow> 's \<times> 'o list) \<Rightarrow> 's \<Rightarrow> 'e list \<Rightarrow> 's \<times> 'o list" where
  "run step s [] = (s, [])"
| "run step s (e # es) =
     (let (s1, o1) = step s e; (s2, o2) = run step s1 es in (s2, o1 @ o2))"

abbreviation run_state :: "('s \<Rightarrow> 'e \<Rightarrow> 's \<times> 'o list) \<Rightarrow> 's \<Rightarrow> 'e list \<Rightarrow> 's" where
  "run_state step s es \<equiv> fst (run step s es)"

abbreviation run_out :: "('s \<Rightarrow> 'e \<Rightarrow> 's \<times> 'o list) \<Rightarrow> 's \<Rightarrow> 'e list \<Rightarrow> 'o list" where
  "run_out step s es \<equiv> snd (run step s es)"

lemma run_state_Cons: "run_state step s (e # es) = run_state step (fst (step s e)) es"
  by (simp add: split_beta Let_def)

lemma run_out_Cons: "run_out step s (e # es) = snd (step s e) @ run_out step (fst (step s e)) es"
  by (simp add: split_beta Let_def)

lemma run_append:
  "run step s (es @ fs) =
     (run_state step (run_state step s es) fs, run_out step s es @ run_out step (run_state step s es) fs)"
  by (induction es arbitrary: s) (simp_all add: split_beta Let_def)

lemma run_single [simp]: "run step s [e] = step s e"
  by (simp add: split_beta Let_def)

text \<open>Operations in sequence, and one operation over a list, their outputs appended.\<close>

definition seq_do :: "'s \<times> 'o list \<Rightarrow> ('s \<Rightarrow> 's \<times> 'o list) \<Rightarrow> 's \<times> 'o list" where
  "seq_do r g = (let (s1, o1) = r; (s2, o2) = g s1 in (s2, o1 @ o2))"

fun each_do :: "('a \<Rightarrow> 's \<Rightarrow> 's \<times> 'o list) \<Rightarrow> 'a list \<Rightarrow> 's \<Rightarrow> 's \<times> 'o list" where
  "each_do g [] s = (s, [])"
| "each_do g (x # xs) s = seq_do (g x s) (each_do g xs)"

lemma fst_seq_do: "fst (seq_do r g) = fst (g (fst r))" and snd_seq_do: "snd (seq_do r g) = snd r @ snd (g (fst r))"
  by (simp_all add: seq_do_def split_beta Let_def)

locale invariant_machine =
  fixes step :: "'s \<Rightarrow> 'e \<Rightarrow> 's \<times> 'o list"
    and inv :: "'s \<Rightarrow> bool"
    and ok :: "'e \<Rightarrow> bool"
  assumes step_inv: "inv s \<Longrightarrow> ok e \<Longrightarrow> inv (fst (step s e))"
begin

lemma run_inv: "inv s \<Longrightarrow> \<forall>e\<in>set es. ok e \<Longrightarrow> inv (run_state step s es)"
  by (induction es arbitrary: s) (simp_all only: run_state_Cons step_inv list.set_intros set_ConsD, auto intro: step_inv)

end

locale output_machine = invariant_machine step inv ok
  for step :: "'s \<Rightarrow> 'e \<Rightarrow> 's \<times> 'o list" and inv ok +
  fixes good :: "'o \<Rightarrow> bool"
  assumes step_good: "inv s \<Longrightarrow> ok e \<Longrightarrow> w \<in> set (snd (step s e)) \<Longrightarrow> good w"
begin

lemma run_good: "inv s \<Longrightarrow> \<forall>e\<in>set es. ok e \<Longrightarrow> w \<in> set (run_out step s es) \<Longrightarrow> good w"
proof (induction es arbitrary: s)
  case (Cons e es)
  then have "inv (fst (step s e))" by (simp add: step_inv)
  with Cons show ?case by (auto simp: run_out_Cons simp del: run.simps dest: step_good)
qed simp

end

text \<open>
  A transitive effect of the outputs on the state: what every step relates, every run relates.
\<close>

locale effect_machine = invariant_machine step inv ok
  for step :: "'s \<Rightarrow> 'e \<Rightarrow> 's \<times> 'o list" and inv ok +
  fixes effect :: "'s \<Rightarrow> 'o list \<Rightarrow> 's \<Rightarrow> bool"
  assumes effect_refl: "inv s \<Longrightarrow> effect s [] s"
    and effect_trans: "effect s os t \<Longrightarrow> effect t os' u \<Longrightarrow> effect s (os @ os') u"
    and step_effect: "inv s \<Longrightarrow> ok e \<Longrightarrow> effect s (snd (step s e)) (fst (step s e))"
begin

lemma run_effect: "inv s \<Longrightarrow> \<forall>e\<in>set es. ok e \<Longrightarrow> effect s (run_out step s es) (run_state step s es)"
proof (induction es arbitrary: s)
  case Nil
  then show ?case by (simp add: effect_refl)
next
  case (Cons e es)
  then have "inv (fst (step s e))" by (simp add: step_inv)
  with Cons show ?case
    by (auto simp: run_out_Cons run_state_Cons simp del: run.simps intro: effect_trans step_effect)
qed

end

text \<open>
  A parser fed with pieces of a stream: feeding two pieces is feeding their concatenation,
  for the streams it accepts (\<open>ok\<close>; a parser that repairs damage within one piece need not
  be independent of the cut on damaged streams).
\<close>

locale chunk_parser =
  fixes feed :: "'s \<Rightarrow> 'a list \<Rightarrow> 's \<times> 'o list"
    and rest :: "'s \<Rightarrow> bool"
    and ok :: "'s \<Rightarrow> 'a list \<Rightarrow> bool"
  assumes feed_nil: "rest s \<Longrightarrow> feed s [] = (s, [])"
    and feed_rest: "rest s \<Longrightarrow> ok s xs \<Longrightarrow> rest (fst (feed s xs))"
    and ok_prefix: "rest s \<Longrightarrow> ok s (xs @ ys) \<Longrightarrow> ok s xs"
    and ok_suffix: "rest s \<Longrightarrow> ok s (xs @ ys) \<Longrightarrow> ok (fst (feed s xs)) ys"
    and feed_append: "rest s \<Longrightarrow> ok s (xs @ ys) \<Longrightarrow>
      feed s (xs @ ys) = (fst (feed (fst (feed s xs)) ys), snd (feed s xs) @ snd (feed (fst (feed s xs)) ys))"
begin

lemma run_concat: "rest s \<Longrightarrow> ok s (concat xss) \<Longrightarrow> run feed s xss = feed s (concat xss)"
proof (induction xss arbitrary: s)
  case Nil
  then show ?case by (simp add: feed_nil)
next
  case (Cons xs xss)
  then have o: "ok s (xs @ concat xss)" by simp
  have "run feed (fst (feed s xs)) xss = feed (fst (feed s xs)) (concat xss)"
    using Cons.prems(1) o by (intro Cons.IH feed_rest ok_suffix) (auto intro: ok_prefix)
  then show ?case by (simp add: split_beta Let_def feed_append [OF Cons.prems(1) o])
qed

lemma chunking_irrelevant:
  "rest s \<Longrightarrow> ok s (concat xss) \<Longrightarrow> concat xss = concat yss \<Longrightarrow> run feed s xss = run feed s yss"
  using run_concat [of s xss] run_concat [of s yss] by simp

end

text \<open>A parser that accepts every stream is an invariant machine.\<close>

locale total_chunk_parser = chunk_parser feed rest "\<lambda>_ _. True"
  for feed :: "'s \<Rightarrow> 'a list \<Rightarrow> 's \<times> 'o list" and rest
begin

lemma any_chunking: "rest s \<Longrightarrow> run feed s xss = feed s (concat xss)"
  by (rule run_concat) simp_all

sublocale invariant_machine feed rest "\<lambda>_. True"
  by unfold_locales (simp add: feed_rest)

end

end
