(* ===== verification/Ppcs_Reorder.thy ===== *)
theory Ppcs_Reorder
  imports Js_Map Machine
begin

text \<open>
  The datagram reorder buffer of \<open>stream/first-party-ppcs.ts\<close>
  (\<open>ppcsSequenceDisposition\<close>, \<open>PpcsDatagramReorderBuffer\<close>). Sequence numbers are the 16-bit
  words of the wire; \<open>(a - b) & 0xffff\<close> is word subtraction. A callback into the owner may
  close the buffer: \<open>cl\<close> says on which emission it does. A timer is the delay it was armed
  with; its expiry is an event. The section on ordered delivery states the contract as a
  step relation on the emissions and proves that the buffer implements it.
\<close>

section \<open>Sequence classification\<close>

datatype disposition = DFirst | DNext | DGap | DDuplicate | DStale | DRestart

definition PPCS_SEQUENCE_LOOKBACK :: nat where "PPCS_SEQUENCE_LOOKBACK = 0x8000"
definition PPCS_STALE_RETRANSMIT_DEPTH :: nat where "PPCS_STALE_RETRANSMIT_DEPTH = 1024"

definition ppcsSequenceDisposition :: "16 word option \<Rightarrow> 16 word \<Rightarrow> disposition" where
  "ppcsSequenceDisposition previous current =
     (case previous of
        None \<Rightarrow> DFirst
      | Some p \<Rightarrow>
          (let advance = unat (current - p) in
           if advance = 0 then DDuplicate
           else if advance > PPCS_SEQUENCE_LOOKBACK then
             (if 0x10000 - advance > PPCS_STALE_RETRANSMIT_DEPTH then DRestart else DStale)
           else if advance = 1 then DNext else DGap))"

section \<open>Channel state\<close>

record chan =
  rc_last :: "16 word"
  rc_held :: "(16 word, bytes) jsmap"
  rc_bytes :: int
  rc_timer :: "nat option"

datatype skip_reason = SkipGap | SkipRestart
datatype repeat_reason = RepDuplicate | RepStale

datatype ro_out =
    RoDeliver bytes "16 word" nat
  | RoSkip nat skip_reason
  | RoRepeat repeat_reason

definition ch_new :: "16 word \<Rightarrow> chan" where
  "ch_new seq = \<lparr> rc_last = seq, rc_held = [], rc_bytes = 0, rc_timer = None \<rparr>"

definition ch_clear_timer :: "chan \<Rightarrow> chan" where
  "ch_clear_timer c = c\<lparr>rc_timer := None\<rparr>"

definition ch_arm :: "nat \<Rightarrow> nat \<Rightarrow> chan \<Rightarrow> chan" where
  "ch_arm wait type c =
     (if rc_timer c \<noteq> None \<or> rc_held c = [] then c
      else c\<lparr>rc_timer := Some (if type = 1 then wait else 250)\<rparr>)"

text \<open>One removal from the retained packets, as the loop body of \<open>#drain\<close> does it.\<close>

definition ch_take :: "bytes \<Rightarrow> chan \<Rightarrow> chan" where
  "ch_take data c =
     (let nxt = rc_last c + 1 in
      c\<lparr>rc_held := AList.delete nxt (rc_held c),
        rc_bytes := rc_bytes c - int (length data),
        rc_last := nxt\<rparr>)"

lemma delete_shrinks: "map_of m k = Some v \<Longrightarrow> length (AList.delete k m) < length m"
proof -
  assume "map_of m k = Some v"
  then have "(k, v) \<in> set m" by (rule map_of_SomeD)
  then show ?thesis
    by (auto simp: AList.delete_eq intro!: length_filter_less)
qed

text \<open>The \<open>while\<close> loop of \<open>#drain\<close>: emissions, channel, and whether the owner closed the buffer.\<close>

function drain_loop :: "(ro_out \<Rightarrow> bool) \<Rightarrow> nat \<Rightarrow> chan \<Rightarrow> ro_out list \<times> chan \<times> bool" where
  "drain_loop cl type c =
     (case map_of (rc_held c) (rc_last c + 1) of
        None \<Rightarrow> ([], c, False)
      | Some data \<Rightarrow>
          (let out = RoDeliver data (rc_last c + 1) type; c' = ch_take data c in
           if cl out then ([out], c', True)
           else (let (outs, c'', halted) = drain_loop cl type c' in (out # outs, c'', halted))))"
  by pat_completeness auto
termination
  by (relation "measure (\<lambda>(cl, type, c). length (rc_held c))")
     (auto simp: ch_take_def Let_def delete_shrinks)

declare drain_loop.simps [simp del]

definition ch_drain :: "nat \<Rightarrow> (ro_out \<Rightarrow> bool) \<Rightarrow> nat \<Rightarrow> chan \<Rightarrow> ro_out list \<times> chan \<times> bool" where
  "ch_drain wait cl type c =
     (let (outs, c', halted) = drain_loop cl type (ch_clear_timer c) in
      (outs, if halted then c' else ch_arm wait type c', halted))"

definition ch_earliest :: "chan \<Rightarrow> 16 word option" where
  "ch_earliest c =
     (case sort_key (\<lambda>k. unat (k - rc_last c)) (map fst (rc_held c)) of
        [] \<Rightarrow> None | k # _ \<Rightarrow> Some k)"

definition ch_abandon :: "nat \<Rightarrow> (ro_out \<Rightarrow> bool) \<Rightarrow> nat \<Rightarrow> chan \<Rightarrow> ro_out list \<times> chan \<times> bool" where
  "ch_abandon wait cl type c =
     (let c = ch_clear_timer c in
      case ch_earliest c of
        None \<Rightarrow> ([], c, False)
      | Some e \<Rightarrow>
          (let skip = RoSkip type SkipGap; c = c\<lparr>rc_last := e - 1\<rparr> in
           if cl skip then ([skip], c, True)
           else (let (outs, c', halted) = ch_drain wait cl type c in (skip # outs, c', halted))))"

section \<open>Evidence\<close>

record seq_evidence =
  ev_receivedFirst :: "16 word"
  ev_receivedLast :: "16 word"
  ev_receivedCount :: nat
  ev_acceptedFirst :: "16 word option"
  ev_acceptedLast :: "16 word option"
  ev_acceptedCount :: nat
  ev_staleFirst :: "16 word option"
  ev_staleLast :: "16 word option"
  ev_staleCount :: nat
  ev_staleBehindMin :: "nat option"
  ev_staleBehindMax :: "nat option"
  ev_previousBehind :: "nat option"
  ev_advancingRun :: nat
  ev_contiguousRun :: nat
  ev_maxAdvancingRun :: nat
  ev_maxContiguousRun :: nat

definition ev_new :: "16 word \<Rightarrow> seq_evidence" where
  "ev_new s = \<lparr> ev_receivedFirst = s, ev_receivedLast = s, ev_receivedCount = 0,
     ev_acceptedFirst = None, ev_acceptedLast = None, ev_acceptedCount = 0,
     ev_staleFirst = None, ev_staleLast = None, ev_staleCount = 0,
     ev_staleBehindMin = None, ev_staleBehindMax = None, ev_previousBehind = None,
     ev_advancingRun = 0, ev_contiguousRun = 0, ev_maxAdvancingRun = 0, ev_maxContiguousRun = 0 \<rparr>"

definition ev_stale :: "16 word \<Rightarrow> nat \<Rightarrow> seq_evidence \<Rightarrow> seq_evidence" where
  "ev_stale s behind e =
     (let adv = (case ev_previousBehind e of
                   Some pb \<Rightarrow> if behind < pb then ev_advancingRun e + 1 else 1 | None \<Rightarrow> 1);
          con = (case ev_previousBehind e of
                   Some pb \<Rightarrow> if int behind = int pb - 1 then ev_contiguousRun e + 1 else 1 | None \<Rightarrow> 1)
      in e\<lparr>ev_staleFirst := (case ev_staleFirst e of None \<Rightarrow> Some s | Some f \<Rightarrow> Some f),
           ev_staleLast := Some s,
           ev_staleCount := ev_staleCount e + 1,
           ev_staleBehindMin := Some (min (case ev_staleBehindMin e of None \<Rightarrow> behind | Some b \<Rightarrow> b) behind),
           ev_staleBehindMax := Some (max (case ev_staleBehindMax e of None \<Rightarrow> behind | Some b \<Rightarrow> b) behind),
           ev_advancingRun := adv,
           ev_contiguousRun := con,
           ev_maxAdvancingRun := max (ev_maxAdvancingRun e) adv,
           ev_maxContiguousRun := max (ev_maxContiguousRun e) con,
           ev_previousBehind := Some behind\<rparr>)"

definition ev_arrival :: "16 word \<Rightarrow> 16 word option \<Rightarrow> seq_evidence \<Rightarrow> seq_evidence" where
  "ev_arrival s previous e0 =
     (let e = e0\<lparr>ev_receivedLast := s, ev_receivedCount := ev_receivedCount e0 + 1\<rparr> in
      case previous of
        None \<Rightarrow> e\<lparr>ev_previousBehind := None, ev_advancingRun := 0, ev_contiguousRun := 0\<rparr>
      | Some p \<Rightarrow>
          if ppcsSequenceDisposition (Some p) s \<noteq> DStale
          then e\<lparr>ev_previousBehind := None, ev_advancingRun := 0, ev_contiguousRun := 0\<rparr>
          else ev_stale s (unat (p - s)) e)"

definition ev_accept :: "16 word \<Rightarrow> seq_evidence \<Rightarrow> seq_evidence" where
  "ev_accept s e =
     e\<lparr>ev_acceptedFirst := (case ev_acceptedFirst e of None \<Rightarrow> Some s | Some f \<Rightarrow> Some f),
       ev_acceptedLast := Some s, ev_acceptedCount := ev_acceptedCount e + 1\<rparr>"

section \<open>The buffer\<close>

record reorder =
  rb_channels :: "(nat, chan) jsmap"
  rb_evidence :: "(nat, seq_evidence) jsmap"
  rb_closed :: bool

definition rb_new :: reorder where
  "rb_new = \<lparr> rb_channels = [], rb_evidence = [], rb_closed = False \<rparr>"

definition rb_close :: "reorder \<Rightarrow> reorder" where
  "rb_close b = b\<lparr>rb_closed := True, rb_channels := [], rb_evidence := []\<rparr>"

definition rb_record_arrival :: "nat \<Rightarrow> 16 word \<Rightarrow> 16 word option \<Rightarrow> reorder \<Rightarrow> reorder" where
  "rb_record_arrival type s previous b =
     (if type > 255 then b
      else (let e = (case map_of (rb_evidence b) type of None \<Rightarrow> ev_new s | Some e \<Rightarrow> e) in
        b\<lparr>rb_evidence := AList.update type (ev_arrival s previous e) (rb_evidence b)\<rparr>))"

text \<open>The bookkeeping part of \<open>#deliver\<close> for every delivery among the emissions.\<close>

fun rb_accept :: "ro_out \<Rightarrow> reorder \<Rightarrow> reorder" where
  "rb_accept (RoDeliver data s type) b =
     (case if type > 255 then None else map_of (rb_evidence b) type of
        None \<Rightarrow> b
      | Some e \<Rightarrow> b\<lparr>rb_evidence := AList.update type (ev_accept s e) (rb_evidence b)\<rparr>)"
| "rb_accept (RoSkip _ _) b = b"
| "rb_accept (RoRepeat _) b = b"

text \<open>Write back the channel object a call worked on, unless a callback closed the buffer.\<close>

definition rb_commit :: "nat \<Rightarrow> reorder \<Rightarrow> ro_out list \<times> chan \<times> bool \<Rightarrow> reorder \<times> ro_out list" where
  "rb_commit type b r =
     (case r of (outs, c, halted) \<Rightarrow>
        (if halted then rb_close b
         else (fold rb_accept outs b)\<lparr>rb_channels := AList.update type c (rb_channels b)\<rparr>,
         outs))"

definition ch_push :: "nat \<Rightarrow> (ro_out \<Rightarrow> bool) \<Rightarrow> nat \<Rightarrow> bytes \<Rightarrow> 16 word \<Rightarrow> chan \<Rightarrow> ro_out list \<times> chan \<times> bool" where
  "ch_push wait cl type data s c =
     (case ppcsSequenceDisposition (Some (rc_last c)) s of
        DDuplicate \<Rightarrow> ([RoRepeat RepDuplicate], c, cl (RoRepeat RepDuplicate))
      | DStale \<Rightarrow> ([RoRepeat RepStale], c, cl (RoRepeat RepStale))
      | DRestart \<Rightarrow>
          ([RoSkip type SkipRestart, RoDeliver data s type],
           (ch_clear_timer c)\<lparr>rc_held := [], rc_bytes := 0, rc_last := s\<rparr>,
           cl (RoSkip type SkipRestart) \<or> cl (RoDeliver data s type))
      | DGap \<Rightarrow>
          (if map_of (rc_held c) s \<noteq> None then ([RoRepeat RepDuplicate], c, cl (RoRepeat RepDuplicate))
           else
             (let c = c\<lparr>rc_held := AList.update s data (rc_held c),
                        rc_bytes := rc_bytes c + int (length data)\<rparr> in
              if length (rc_held c) \<ge> 128 \<or> rc_bytes c \<ge> 2 * 1024 * 1024
              then ch_abandon wait cl type c
              else ([], ch_arm wait type c, False)))
      | _ \<Rightarrow>
          (let out = RoDeliver data s type; c = c\<lparr>rc_last := s\<rparr> in
           if cl out then ([out], ch_clear_timer c, True)
           else (let (outs, c', halted) = ch_drain wait cl type c in (out # outs, c', halted))))"

definition rb_push :: "nat \<Rightarrow> (ro_out \<Rightarrow> bool) \<Rightarrow> reorder \<Rightarrow> bytes \<Rightarrow> 16 word \<Rightarrow> nat \<Rightarrow> reorder \<times> ro_out list" where
  "rb_push wait cl b data s type =
     (if rb_closed b then (b, [])
      else
        (let channel = map_of (rb_channels b) type;
             b = rb_record_arrival type s (map_option rc_last channel) b in
         case channel of
           None \<Rightarrow> rb_commit type b ([RoDeliver data s type], ch_new s, cl (RoDeliver data s type))
         | Some c \<Rightarrow> rb_commit type b (ch_push wait cl type data s c)))"

definition rb_expire :: "nat \<Rightarrow> (ro_out \<Rightarrow> bool) \<Rightarrow> reorder \<Rightarrow> nat \<Rightarrow> reorder \<times> ro_out list" where
  "rb_expire wait cl b type =
     (case map_of (rb_channels b) type of
        None \<Rightarrow> (b, [])
      | Some c \<Rightarrow>
          if rc_timer c = None then (b, []) else rb_commit type b (ch_abandon wait cl type c))"

datatype ro_event = RoPush bytes "16 word" nat | RoTimer nat | RoClose

fun rb_step :: "nat \<Rightarrow> (ro_out \<Rightarrow> bool) \<Rightarrow> reorder \<Rightarrow> ro_event \<Rightarrow> reorder \<times> ro_out list" where
  "rb_step wait cl b (RoPush data s type) = rb_push wait cl b data s type"
| "rb_step wait cl b (RoTimer type) = rb_expire wait cl b type"
| "rb_step wait cl b RoClose = (rb_close b, [])"

section \<open>Invariant\<close>

definition ch_off :: "chan \<Rightarrow> 16 word \<Rightarrow> nat" where
  "ch_off c k = unat (k - rc_last c)"

text \<open>Held packets lie ahead of the cursor, and the byte count is exact.\<close>

definition chan_core :: "chan \<Rightarrow> bool" where
  "chan_core c \<longleftrightarrow> js_wf (rc_held c) \<and> rc_bytes c = int (js_total length (rc_held c)) \<and>
     (\<forall>k v. map_of (rc_held c) k = Some v \<longrightarrow> 1 \<le> ch_off c k \<and> ch_off c k \<le> 32768)"

text \<open>Between calls: the next packet is missing, and a timer runs exactly while a hole is held.\<close>

definition chan_rest :: "chan \<Rightarrow> bool" where
  "chan_rest c \<longleftrightarrow> chan_core c \<and> map_of (rc_held c) (rc_last c + 1) = None \<and>
     (rc_timer c \<noteq> None \<longleftrightarrow> rc_held c \<noteq> []) \<and> length (rc_held c) < 128"

definition rb_inv :: "reorder \<Rightarrow> bool" where
  "rb_inv b \<longleftrightarrow> js_wf (rb_channels b) \<and> (rb_closed b \<longrightarrow> rb_channels b = []) \<and>
     (\<forall>t c. map_of (rb_channels b) t = Some c \<longrightarrow> chan_rest c)"

lemma off_zero: "unat (k - l :: 16 word) = 0 \<longleftrightarrow> k = l"
  by (simp add: unat_eq_0)

lemma off_one: "unat (k - l :: 16 word) = 1 \<longleftrightarrow> k = l + 1"
proof -
  have "unat (k - l) = 1 \<longleftrightarrow> k - l = 1"
    by (metis unsigned_1 unsigned_word_eqI)
  then show ?thesis by (auto simp: algebra_simps)
qed

lemma off_succ: "k \<noteq> l \<Longrightarrow> unat (k - (l + 1) :: 16 word) = unat (k - l) - 1"
proof -
  assume "k \<noteq> l"
  then have "k - l \<noteq> 0" by simp
  then have "unat (k - l - 1) = unat (k - l) - 1" by (rule unat_minus_one)
  then show ?thesis by (simp add: algebra_simps)
qed

lemma off_jump:
  assumes "unat (e - l :: 16 word) \<le> unat (k - l)" "unat (k - l) \<le> 32768" "1 \<le> unat (e - l)"
  shows "unat (k - (e - 1)) = unat (k - l) - unat (e - l) + 1"
proof -
  have d: "unat ((k - l) - (e - l)) = unat (k - l) - unat (e - l)"
    using assms(1) by (intro unat_sub) (simp add: word_le_nat_alt)
  have eq: "k - (e - 1) = ((k - l) - (e - l)) + 1" by simp
  have s: "unat (((k - l) - (e - l)) + 1) = unat ((k - l) - (e - l)) + 1"
    using d assms by (subst unat_add_lem [THEN iffD1]) simp_all
  show ?thesis unfolding eq s d ..
qed

lemma ch_take_core:
  assumes "chan_core c" "map_of (rc_held c) (rc_last c + 1) = Some data"
  shows "chan_core (ch_take data c)"
proof -
  have "1 \<le> unat (k - (rc_last c + 1)) \<and> unat (k - (rc_last c + 1)) \<le> 32768"
    if "k \<noteq> rc_last c + 1" "map_of (rc_held c) k = Some v" for k v
  proof -
    have b: "1 \<le> unat (k - rc_last c)" "unat (k - rc_last c) \<le> 32768"
      using assms(1) that(2) by (auto simp: chan_core_def ch_off_def)
    then have "k \<noteq> rc_last c" "unat (k - rc_last c) \<noteq> 1"
      using that(1) off_one [of k "rc_last c"] by auto
    then show ?thesis using b off_succ [of k "rc_last c"] by linarith
  qed
  with assms show ?thesis
    using js.total_del [of "rc_held c" "rc_last c + 1" data length]
    by (auto simp: chan_core_def ch_off_def ch_take_def Let_def js_get_delete split: if_splits)
qed

lemma drain_loop_keeps:
  "chan_core c \<Longrightarrow> drain_loop cl type c = (outs, c', halted) \<Longrightarrow>
     chan_core c' \<and> rc_timer c' = rc_timer c \<and> length (rc_held c') \<le> length (rc_held c) \<and>
     (\<not> halted \<longrightarrow> map_of (rc_held c') (rc_last c' + 1) = None)"
proof (induction cl type c arbitrary: outs rule: drain_loop.induct)
  case (1 cl type c)
  show ?case
  proof (cases "map_of (rc_held c) (rc_last c + 1)")
    case None
    with 1(2,3) show ?thesis by (auto simp: drain_loop.simps [of cl type c])
  next
    case (Some data)
    have t: "chan_core (ch_take data c)" "rc_timer (ch_take data c) = rc_timer c"
      "length (rc_held (ch_take data c)) \<le> length (rc_held c)"
      using ch_take_core [OF 1(2) Some] delete_shrinks [OF Some]
      by (simp_all add: ch_take_def Let_def)
    show ?thesis
    proof (cases "cl (RoDeliver data (rc_last c + 1) type)")
      case True
      with 1(3) Some t show ?thesis by (auto simp: drain_loop.simps [of cl type c] Let_def)
    next
      case False
      with 1(3) Some obtain outs' where
        "drain_loop cl type (ch_take data c) = (outs', c', halted)"
        by (auto simp: drain_loop.simps [of cl type c] Let_def split: prod.splits)
      from 1(1) [OF Some refl refl False t(1) this] t show ?thesis by auto
    qed
  qed
qed

lemma ch_drain_rest:
  assumes "chan_core c" "length (rc_held c) < 128" "ch_drain wait cl type c = (outs, c', halted)" "\<not> halted"
  shows "chan_rest c'"
proof -
  have "chan_core (ch_clear_timer c)" using assms(1)
    by (simp add: ch_clear_timer_def chan_core_def ch_off_def)
  moreover obtain c1 where c1: "drain_loop cl type (ch_clear_timer c) = (outs, c1, halted)"
    and c': "c' = ch_arm wait type c1"
    using assms(3,4) by (auto simp: ch_drain_def Let_def split: prod.splits)
  ultimately have "chan_core c1" "rc_timer c1 = None" "length (rc_held c1) < 128"
    "map_of (rc_held c1) (rc_last c1 + 1) = None"
    using drain_loop_keeps [OF _ c1] assms(2,4) by (auto simp: ch_clear_timer_def)
  then show ?thesis
    by (auto simp: c' chan_rest_def ch_arm_def chan_core_def ch_off_def)
qed

lemma ch_earliest_Some:
  "ch_earliest c = Some e \<Longrightarrow> (\<exists>v. map_of (rc_held c) e = Some v) \<and>
     (\<forall>k v. map_of (rc_held c) k = Some v \<longrightarrow> ch_off c e \<le> ch_off c k)"
proof -
  let ?ks = "sort_key (\<lambda>k. unat (k - rc_last c)) (map fst (rc_held c))"
  assume "ch_earliest c = Some e"
  then obtain ks where ks: "?ks = e # ks" by (auto simp: ch_earliest_def split: list.splits)
  have set: "set (e # ks) = fst ` set (rc_held c)" unfolding ks [symmetric] by simp
  have "sorted (map (\<lambda>k. unat (k - rc_last c)) (e # ks))" unfolding ks [symmetric] by simp
  then have "\<forall>k\<in>set (e # ks). ch_off c e \<le> ch_off c k" by (auto simp: ch_off_def)
  moreover have "k \<in> set (e # ks) \<longleftrightarrow> (\<exists>v. map_of (rc_held c) k = Some v)" for k
    unfolding set by (metis map_of_eq_None_iff not_Some_eq option.exhaust)
  ultimately show ?thesis by (metis list.set_intros(1))
qed

lemma ch_earliest_None: "ch_earliest c = None \<longleftrightarrow> rc_held c = []"
proof -
  have "length (sort_key (\<lambda>k. unat (k - rc_last c)) (map fst (rc_held c))) = length (rc_held c)" by simp
  then show ?thesis
    unfolding ch_earliest_def by (cases "rc_held c") (auto split: list.splits)
qed

lemma ch_jump_core:
  assumes "chan_core c" "ch_earliest c = Some e"
  shows "chan_core (c\<lparr>rc_last := e - 1\<rparr>)"
proof -
  have "1 \<le> unat (k - (e - 1)) \<and> unat (k - (e - 1)) \<le> 32768" if "map_of (rc_held c) k = Some v" for k v
  proof -
    have "unat (e - rc_last c) \<le> unat (k - rc_last c)" "unat (k - rc_last c) \<le> 32768" "1 \<le> unat (e - rc_last c)"
      using ch_earliest_Some [OF assms(2)] that assms(1) by (auto simp: chan_core_def ch_off_def)
    with off_jump [OF this] show ?thesis by linarith
  qed
  with assms(1) show ?thesis by (auto simp: chan_core_def ch_off_def)
qed

lemma ch_abandon_rest:
  assumes "chan_core c" "length (rc_held c) \<le> 128" "ch_abandon wait cl type c = (outs, c', halted)" "\<not> halted"
  shows "chan_rest c'"
proof (cases "ch_earliest (ch_clear_timer c)")
  case None
  then have "c' = ch_clear_timer c" using assms(3) by (simp add: ch_abandon_def Let_def)
  moreover have "rc_held c = []" using None by (simp add: ch_earliest_None ch_clear_timer_def)
  ultimately show ?thesis using assms(1)
    by (simp add: chan_rest_def ch_clear_timer_def chan_core_def ch_off_def)
next
  case (Some e)
  define c0 where "c0 = (ch_clear_timer c)\<lparr>rc_last := e - 1\<rparr>"
  have c0: "rc_held c0 = rc_held c" "rc_last c0 + 1 = e" "ch_clear_timer c0 = c0" "rc_timer c0 = None"
    by (simp_all add: c0_def ch_clear_timer_def)
  have core: "chan_core (ch_clear_timer c)" using assms(1)
    by (simp add: ch_clear_timer_def chan_core_def ch_off_def)
  have jump: "chan_core c0" unfolding c0_def by (rule ch_jump_core [OF core Some])
  obtain v where v: "map_of (rc_held c) e = Some v"
    using ch_earliest_Some [OF Some] by (auto simp: ch_clear_timer_def)
  obtain outs' where d: "ch_drain wait cl type c0 = (outs', c', halted)"
    using assms(3,4) Some by (auto simp: ch_abandon_def Let_def c0_def split: if_splits prod.splits)
  then obtain c1 where c1: "drain_loop cl type c0 = (outs', c1, halted)" and c': "c' = ch_arm wait type c1"
    using assms(4) by (auto simp: ch_drain_def c0 split: prod.splits)
  obtain outs1 where r: "drain_loop cl type (ch_take v c0) = (outs1, c1, halted)"
    using c1 v assms(4)
    by (auto simp: drain_loop.simps [of cl type c0] Let_def c0 split: if_splits prod.splits)
  have "chan_core (ch_take v c0)" using ch_take_core [OF jump] v by (simp add: c0)
  from drain_loop_keeps [OF this r] delete_shrinks [OF v] assms(2)
  have "length (rc_held c1) < 128" by (simp add: ch_take_def Let_def c0)
  with drain_loop_keeps [OF jump c1] assms(4) show ?thesis
    by (auto simp: c' c0 chan_rest_def ch_arm_def chan_core_def ch_off_def)
qed

lemma disposition_iff:
  "ppcsSequenceDisposition (Some p) s = DDuplicate \<longleftrightarrow> s = p"
  "ppcsSequenceDisposition (Some p) s = DNext \<longleftrightarrow> s = p + 1"
  "ppcsSequenceDisposition (Some p) s = DGap \<longleftrightarrow> 2 \<le> unat (s - p) \<and> unat (s - p) \<le> 32768"
  "ppcsSequenceDisposition (Some p) s = DRestart \<longleftrightarrow>
     32768 < unat (s - p) \<and> 1024 < 65536 - unat (s - p)"
  "ppcsSequenceDisposition (Some p) s = DStale \<longleftrightarrow>
     32768 < unat (s - p) \<and> 65536 - unat (s - p) \<le> 1024"
  "ppcsSequenceDisposition (Some p) s \<noteq> DFirst"
  unfolding ppcsSequenceDisposition_def PPCS_SEQUENCE_LOOKBACK_def PPCS_STALE_RETRANSMIT_DEPTH_def
  using off_zero [of s p] off_one [of s p] by (auto simp: Let_def)

lemma ch_insert_core:
  assumes "chan_core c" "map_of (rc_held c) s = None" "2 \<le> unat (s - rc_last c)" "unat (s - rc_last c) \<le> 32768"
  shows "chan_core (c\<lparr>rc_held := AList.update s data (rc_held c), rc_bytes := rc_bytes c + int (length data)\<rparr>)"
  using assms by (auto simp: chan_core_def ch_off_def js_get_update js_total_fresh split: if_splits)

lemma chan_core_next:
  assumes "chan_rest c"
  shows "chan_core (c\<lparr>rc_last := rc_last c + 1\<rparr>)"
proof -
  have "1 \<le> unat (k - (rc_last c + 1)) \<and> unat (k - (rc_last c + 1)) \<le> 32768"
    if "map_of (rc_held c) k = Some v" for k v
  proof -
    have "1 \<le> unat (k - rc_last c)" "unat (k - rc_last c) \<le> 32768" "k \<noteq> rc_last c + 1"
      using assms that by (auto simp: chan_rest_def chan_core_def ch_off_def)
    then show ?thesis
      using off_succ [of k "rc_last c"] off_one [of k "rc_last c"] off_zero [of k "rc_last c"] by linarith
  qed
  with assms show ?thesis by (auto simp: chan_rest_def chan_core_def ch_off_def)
qed

lemma ch_push_rest:
  assumes "chan_rest c" "ch_push wait cl type data s c = (outs, c', halted)" "\<not> halted"
  shows "chan_rest c'"
proof (cases "ppcsSequenceDisposition (Some (rc_last c)) s")
  case DNext
  let ?c = "c\<lparr>rc_last := s\<rparr>"
  have "chan_core ?c" "length (rc_held ?c) < 128"
    using assms(1) DNext chan_core_next by (auto simp: disposition_iff chan_rest_def)
  then show ?thesis
    using assms DNext ch_drain_rest [of ?c wait cl type]
    by (auto simp: ch_push_def Let_def split: if_splits prod.splits)
next
  case DGap
  let ?c = "c\<lparr>rc_held := AList.update s data (rc_held c), rc_bytes := rc_bytes c + int (length data)\<rparr>"
  show ?thesis
  proof (cases "map_of (rc_held c) s")
    case None
    have g: "2 \<le> unat (s - rc_last c)" "unat (s - rc_last c) \<le> 32768" using DGap by (auto simp: disposition_iff)
    have core: "chan_core ?c"
      by (rule ch_insert_core [OF _ None g]) (use assms(1) in \<open>simp add: chan_rest_def\<close>)
    have len: "length (rc_held ?c) \<le> 128" using assms(1) None by (simp add: js_length_update chan_rest_def)
    show ?thesis
    proof (cases "length (rc_held ?c) \<ge> 128 \<or> rc_bytes ?c \<ge> 2 * 1024 * 1024")
      case True
      then show ?thesis using assms(2,3) DGap None ch_abandon_rest [OF core len]
        by (auto simp: ch_push_def Let_def split: if_splits)
    next
      case False
      have "s \<noteq> rc_last c + 1" using DGap disposition_iff(2) [of "rc_last c" s] by auto
      with False core assms DGap None show ?thesis
        by (auto simp: ch_push_def Let_def chan_rest_def ch_arm_def js_get_update chan_core_def
            ch_off_def js_update_fresh split: if_splits)
    qed
  qed (use assms DGap in \<open>auto simp: ch_push_def\<close>)
qed (use assms in \<open>auto simp: ch_push_def chan_rest_def chan_core_def ch_clear_timer_def disposition_iff(6)\<close>)

lemma rb_accept_channels [simp]: "rb_channels (rb_accept w b) = rb_channels b"
  "rb_closed (rb_accept w b) = rb_closed b"
  by (cases w; simp split: option.splits)+

lemma rb_accept_fold [simp]: "rb_channels (fold rb_accept ws b) = rb_channels b"
  "rb_closed (fold rb_accept ws b) = rb_closed b"
  by (induction ws arbitrary: b) simp_all

lemma rb_arrival_channels [simp]: "rb_channels (rb_record_arrival type s p b) = rb_channels b"
  "rb_closed (rb_record_arrival type s p b) = rb_closed b"
  by (simp_all add: rb_record_arrival_def Let_def)

lemma rb_close_inv [simp]: "rb_inv (rb_close b)"
  by (simp add: rb_inv_def rb_close_def)

lemma rb_commit_inv:
  assumes "rb_inv b" "\<not> rb_closed b" "\<not> snd (snd r) \<longrightarrow> chan_rest (fst (snd r))"
  shows "rb_inv (fst (rb_commit type b r))"
  using assms by (cases r) (auto simp: rb_commit_def rb_inv_def js_get_update rb_close_def split: if_splits)

lemma chan_rest_new: "chan_rest (ch_new s)"
  by (simp add: chan_rest_def ch_new_def chan_core_def)

lemma rb_step_inv: "rb_inv b \<Longrightarrow> rb_inv (fst (rb_step wait cl b e))"
proof (cases e)
  case (RoPush data s type)
  assume i: "rb_inv b"
  then have i': "rb_inv (rb_record_arrival type s p b)" for p by (simp add: rb_inv_def)
  show ?thesis
  proof (cases "map_of (rb_channels b) type")
    case (Some c)
    then have "chan_rest c" using i by (simp add: rb_inv_def)
    then have "\<not> snd (snd (ch_push wait cl type data s c)) \<longrightarrow> chan_rest (fst (snd (ch_push wait cl type data s c)))"
      by (metis ch_push_rest prod.collapse)
    with i i' Some RoPush show ?thesis by (simp add: rb_push_def Let_def rb_commit_inv)
  qed (use i i' RoPush in \<open>simp add: rb_push_def Let_def rb_commit_inv chan_rest_new\<close>)
next
  case (RoTimer type)
  assume i: "rb_inv b"
  show ?thesis
  proof (cases "map_of (rb_channels b) type")
    case (Some c)
    then have r: "chan_rest c" and o: "\<not> rb_closed b" using i by (auto simp: rb_inv_def)
    then have "\<not> snd (snd (ch_abandon wait cl type c)) \<longrightarrow> chan_rest (fst (snd (ch_abandon wait cl type c)))"
      using ch_abandon_rest [of c wait cl type] by (metis chan_rest_def less_imp_le prod.collapse)
    with i o Some RoTimer show ?thesis by (simp add: rb_expire_def rb_commit_inv)
  qed (use i RoTimer in \<open>simp add: rb_expire_def\<close>)
qed simp

lemma rb_inv_new: "rb_inv rb_new"
  by (simp add: rb_inv_def rb_new_def)

interpretation rb: invariant_machine "rb_step wait cl" rb_inv "\<lambda>_. True" for wait cl
  by unfold_locales (rule rb_step_inv)

section \<open>The ordered-delivery contract\<close>

text \<open>
  What one channel may emit: a first datagram, then successors of the last one, unless a
  skip is announced first. After a gap skip the next datagram lies ahead of the cursor and
  leaves something out; after a restart skip it lies more than 1,024 numbers behind.
\<close>

datatype cursor = Unset | At "16 word" | Skipped "16 word" skip_reason

fun on_channel :: "nat \<Rightarrow> ro_out \<Rightarrow> bool" where
  "on_channel t (RoDeliver _ _ t') = (t' = t)"
| "on_channel t (RoSkip t' _) = (t' = t)"
| "on_channel t (RoRepeat _) = False"

inductive ord_step :: "nat \<Rightarrow> cursor \<Rightarrow> ro_out \<Rightarrow> cursor \<Rightarrow> bool" for t where
  ord_first: "ord_step t Unset (RoDeliver d s t) (At s)"
| ord_next: "ord_step t (At s) (RoDeliver d (s + 1) t) (At (s + 1))"
| ord_skip: "ord_step t (At s) (RoSkip t r) (Skipped s r)"
| ord_gap: "2 \<le> unat (s' - s) \<Longrightarrow> unat (s' - s) \<le> 32768 \<Longrightarrow>
     ord_step t (Skipped s SkipGap) (RoDeliver d s' t) (At s')"
| ord_restart: "32768 < unat (s' - s) \<Longrightarrow> 1024 < 65536 - unat (s' - s) \<Longrightarrow>
     ord_step t (Skipped s SkipRestart) (RoDeliver d s' t) (At s')"
| ord_other: "\<not> on_channel t w \<Longrightarrow> ord_step t c w c"

inductive ord_trace :: "nat \<Rightarrow> cursor \<Rightarrow> ro_out list \<Rightarrow> cursor \<Rightarrow> bool" for t where
  ord_nil: "ord_trace t c [] c"
| ord_cons: "ord_step t c w c' \<Longrightarrow> ord_trace t c' ws c'' \<Longrightarrow> ord_trace t c (w # ws) c''"

inductive_cases ord_step_deliverE: "ord_step t c (RoDeliver d s t) c'"
inductive_simps ord_trace_nil_iff [simp]: "ord_trace t c [] c'"
inductive_simps ord_trace_cons_iff: "ord_trace t c (w # ws) c'"

lemmas ord_intros = ord_first ord_next ord_skip ord_gap ord_restart ord_other

lemma ord_trace_append: "ord_trace t c ws c' \<Longrightarrow> ord_trace t c' vs c'' \<Longrightarrow> ord_trace t c (ws @ vs) c''"
  by (induction rule: ord_trace.induct) (auto intro: ord_cons)

lemma ord_trace_other: "\<forall>w\<in>set ws. \<not> on_channel t w \<Longrightarrow> ord_trace t c ws c"
  by (induction ws) (auto intro: ord_cons ord_other)

lemma drain_loop_ordered:
  "drain_loop cl type c = (outs, c', halted) \<Longrightarrow> ord_trace type (At (rc_last c)) outs (At (rc_last c'))"
proof (induction cl type c arbitrary: outs rule: drain_loop.induct)
  case (1 cl type c)
  show ?case
  proof (cases "map_of (rc_held c) (rc_last c + 1)")
    case None
    with 1(2) show ?thesis by (simp add: drain_loop.simps [of cl type c])
  next
    case (Some data)
    have n: "ord_step type (At (rc_last c)) (RoDeliver data (rc_last c + 1) type) (At (rc_last (ch_take data c)))"
      using ord_next by (simp add: ch_take_def Let_def)
    show ?thesis
    proof (cases "cl (RoDeliver data (rc_last c + 1) type)")
      case True
      with 1(2) Some n show ?thesis
        by (auto simp: drain_loop.simps [of cl type c] Let_def ord_trace_cons_iff)
    next
      case False
      with 1(2) Some obtain outs' where o: "outs = RoDeliver data (rc_last c + 1) type # outs'"
        "drain_loop cl type (ch_take data c) = (outs', c', halted)"
        by (auto simp: drain_loop.simps [of cl type c] Let_def split: prod.splits)
      from ord_cons [OF n 1(1) [OF Some refl refl False o(2)]] o(1) show ?thesis by simp
    qed
  qed
qed

lemma ch_drain_ordered:
  "ch_drain wait cl type c = (outs, c', halted) \<Longrightarrow> ord_trace type (At (rc_last c)) outs (At (rc_last c'))"
  using drain_loop_ordered [of cl type "ch_clear_timer c"]
  by (auto simp: ch_drain_def ch_clear_timer_def ch_arm_def split: prod.splits if_splits)

text \<open>After a jump to the packet before the earliest one held, the drain starts with that packet.\<close>

lemma ch_drain_jump_ordered:
  assumes "ch_drain wait cl type (c\<lparr>rc_last := e - 1\<rparr>) = (outs, c', halted)"
    "map_of (rc_held c) e = Some v" "2 \<le> unat (e - rc_last c)" "unat (e - rc_last c) \<le> 32768"
  shows "ord_trace type (Skipped (rc_last c) SkipGap) outs (At (rc_last c'))"
proof -
  have t: "ord_trace type (At (e - 1)) outs (At (rc_last c'))"
    using ch_drain_ordered [OF assms(1)] by simp
  obtain outs' where o: "outs = RoDeliver v e type # outs'"
    using assms(1,2)
    by (auto simp: ch_drain_def ch_clear_timer_def drain_loop.simps [where c = "c\<lparr>rc_last := e - 1, rc_timer := None\<rparr>"]
        drain_loop.simps [where c = "c\<lparr>rc_timer := None, rc_last := e - 1\<rparr>"] Let_def split: prod.splits if_splits)
  with t obtain k where "ord_step type (At (e - 1)) (RoDeliver v e type) k" "ord_trace type k outs' (At (rc_last c'))"
    by (auto simp: ord_trace_cons_iff)
  then have "ord_trace type (At e) outs' (At (rc_last c'))"
    by (auto elim: ord_step_deliverE)
  with o assms(3,4) show ?thesis by (auto simp: ord_trace_cons_iff intro: ord_gap)
qed

lemma ch_abandon_ordered:
  assumes "chan_core c" "map_of (rc_held c) (rc_last c + 1) = None" "ch_abandon wait cl type c = (outs, c', halted)"
  shows "\<exists>k. ord_trace type (At (rc_last c)) outs k \<and> (\<not> halted \<longrightarrow> k = At (rc_last c'))"
proof (cases "ch_earliest (ch_clear_timer c)")
  case None
  with assms(3) show ?thesis by (auto simp: ch_abandon_def Let_def ch_clear_timer_def)
next
  case (Some e)
  define c0 where "c0 = ch_clear_timer c"
  have h: "rc_held c0 = rc_held c" "rc_last c0 = rc_last c" by (simp_all add: c0_def ch_clear_timer_def)
  obtain v where v: "map_of (rc_held c0) e = Some v"
    using ch_earliest_Some [OF Some] by (auto simp: c0_def)
  then have b: "1 \<le> unat (e - rc_last c0)" "unat (e - rc_last c0) \<le> 32768" "e \<noteq> rc_last c0 + 1"
    using assms(1,2) by (auto simp: chan_core_def ch_off_def h)
  then have two: "2 \<le> unat (e - rc_last c0)" using off_one [of e "rc_last c0"] by linarith
  show ?thesis
  proof (cases "cl (RoSkip type SkipGap)")
    case True
    with assms(3) Some show ?thesis
      by (auto simp: ch_abandon_def Let_def ord_trace_cons_iff
          intro!: exI [of _ "Skipped (rc_last c) SkipGap"] ord_skip)
  next
    case False
    with assms(3) Some obtain outs' where o: "outs = RoSkip type SkipGap # outs'"
      "ch_drain wait cl type (c0\<lparr>rc_last := e - 1\<rparr>) = (outs', c', halted)"
      by (auto simp: ch_abandon_def Let_def c0_def split: prod.splits)
    from ch_drain_jump_ordered [OF o(2) v two b(2)] o(1) show ?thesis
      by (auto simp: h ord_trace_cons_iff intro: ord_skip)
  qed
qed

lemma ch_push_ordered:
  assumes "chan_rest c" "ch_push wait cl type data s c = (outs, c', halted)"
  shows "\<exists>k. ord_trace type (At (rc_last c)) outs k \<and> (\<not> halted \<longrightarrow> k = At (rc_last c'))"
proof (cases "ppcsSequenceDisposition (Some (rc_last c)) s")
  case DNext
  then have s: "s = rc_last c + 1" by (simp add: disposition_iff)
  show ?thesis
  proof (cases "cl (RoDeliver data s type)")
    case True
    with assms DNext s show ?thesis
      by (auto simp: ch_push_def Let_def ord_trace_cons_iff
          intro!: exI [of _ "At (rc_last c + 1)"] ord_next)
  next
    case False
    with assms DNext obtain outs' where "outs = RoDeliver data s type # outs'"
      "ch_drain wait cl type (c\<lparr>rc_last := s\<rparr>) = (outs', c', halted)"
      by (auto simp: ch_push_def Let_def split: prod.splits)
    with ch_drain_ordered [of wait cl type "c\<lparr>rc_last := s\<rparr>"] s show ?thesis
      by (auto simp: ord_trace_cons_iff intro: ord_next)
  qed
next
  case DGap
  let ?c = "c\<lparr>rc_held := AList.update s data (rc_held c), rc_bytes := rc_bytes c + int (length data)\<rparr>"
  show ?thesis
  proof (cases "map_of (rc_held c) s")
    case None
    have g: "2 \<le> unat (s - rc_last c)" "unat (s - rc_last c) \<le> 32768" using DGap by (auto simp: disposition_iff)
    have core: "chan_core ?c"
      by (rule ch_insert_core [OF _ None g]) (use assms(1) in \<open>simp add: chan_rest_def\<close>)
    have "s \<noteq> rc_last c + 1" using DGap disposition_iff(2) [of "rc_last c" s] by auto
    then have "map_of (rc_held ?c) (rc_last ?c + 1) = None"
      using assms(1) by (simp add: chan_rest_def js_get_update)
    from ch_abandon_ordered [OF core this, of wait cl type] assms(2) DGap None show ?thesis
      by (fastforce simp: ch_push_def Let_def ch_arm_def split: if_splits)
  qed (use assms DGap in \<open>auto simp: ch_push_def ord_trace_cons_iff intro!: exI [of _ "At (rc_last c)"] ord_other\<close>)
next
  case DRestart
  then have "32768 < unat (s - rc_last c)" "1024 < 65536 - unat (s - rc_last c)"
    by (simp_all add: disposition_iff)
  then have "ord_trace type (At (rc_last c)) [RoSkip type SkipRestart, RoDeliver data s type] (At s)"
    by (intro ord_cons [OF ord_skip] ord_cons [OF ord_restart] ord_nil)
  with assms DRestart show ?thesis by (auto simp: ch_push_def)
qed (use assms in \<open>auto simp: ch_push_def disposition_iff(6) ord_trace_cons_iff intro!: exI [of _ "At (rc_last c)"] ord_other\<close>)

text \<open>Only the channel of the call emits.\<close>

lemma ch_emits_only:
  "drain_loop cl type c = (outs, c', halted) \<Longrightarrow> w \<in> set outs \<Longrightarrow> t \<noteq> type \<Longrightarrow> \<not> on_channel t w"
proof (induction cl type c arbitrary: outs rule: drain_loop.induct)
  case (1 cl type c)
  from 1(2) show ?case unfolding drain_loop.simps [of cl type c]
    using 1(1,3,4) by (fastforce simp: Let_def split: option.splits if_splits prod.splits)
qed

lemma ch_abandon_only:
  "ch_abandon wait cl type c = (outs, c', halted) \<Longrightarrow> w \<in> set outs \<Longrightarrow> t \<noteq> type \<Longrightarrow> \<not> on_channel t w"
  by (auto simp: ch_abandon_def ch_drain_def Let_def dest: ch_emits_only split: option.splits if_splits prod.splits)

lemma ch_push_only:
  "ch_push wait cl type data s c = (outs, c', halted) \<Longrightarrow> w \<in> set outs \<Longrightarrow> t \<noteq> type \<Longrightarrow> \<not> on_channel t w"
  by (auto simp: ch_push_def ch_drain_def Let_def dest: ch_emits_only ch_abandon_only
      split: disposition.splits if_splits prod.splits)

definition rb_cursor :: "nat \<Rightarrow> reorder \<Rightarrow> cursor" where
  "rb_cursor t b = (case map_of (rb_channels b) t of None \<Rightarrow> Unset | Some c \<Rightarrow> At (rc_last c))"

lemma rb_commit_ordered:
  assumes "\<forall>t w. w \<in> set outs \<longrightarrow> t \<noteq> type \<longrightarrow> \<not> on_channel t w"
    and "\<exists>k. ord_trace type (rb_cursor type b) outs k \<and> (\<not> halted \<longrightarrow> k = At (rc_last c'))"
  shows "\<exists>k. ord_trace t (rb_cursor t b) (snd (rb_commit type b (outs, c', halted))) k \<and>
    (\<not> rb_closed (fst (rb_commit type b (outs, c', halted))) \<longrightarrow>
      k = rb_cursor t (fst (rb_commit type b (outs, c', halted))))"
proof (cases "t = type")
  case True
  with assms(2) show ?thesis
    by (fastforce simp: rb_commit_def rb_cursor_def js_get_update rb_close_def)
next
  case False
  with assms(1) have "ord_trace t (rb_cursor t b) outs (rb_cursor t b)"
    by (intro ord_trace_other) blast
  with False show ?thesis
    by (auto simp: rb_commit_def rb_cursor_def js_get_update rb_close_def intro!: exI [of _ "rb_cursor t b"])
qed

lemma rb_arrival_cursor [simp]: "rb_cursor t (rb_record_arrival type s p b) = rb_cursor t b"
  by (simp add: rb_cursor_def)

lemma rb_step_ordered:
  assumes "rb_inv b"
  shows "\<exists>k. ord_trace t (rb_cursor t b) (snd (rb_step wait cl b e)) k \<and>
    (\<not> rb_closed (fst (rb_step wait cl b e)) \<longrightarrow> k = rb_cursor t (fst (rb_step wait cl b e)))"
proof (cases e)
  case (RoPush data s type)
  show ?thesis
  proof (cases "rb_closed b")
    case False
    let ?b = "rb_record_arrival type s (map_option rc_last (map_of (rb_channels b) type)) b"
    obtain outs c' halted where r: "(case map_of (rb_channels b) type of
        None \<Rightarrow> ([RoDeliver data s type], ch_new s, cl (RoDeliver data s type))
      | Some c \<Rightarrow> ch_push wait cl type data s c) = (outs, c', halted)"
      by (rule prod_cases3)
    then have e: "rb_step wait cl b e = rb_commit type ?b (outs, c', halted)"
      using False RoPush by (auto simp: rb_push_def Let_def split: option.splits)
    have 1: "\<forall>t w. w \<in> set outs \<longrightarrow> t \<noteq> type \<longrightarrow> \<not> on_channel t w"
      using r by (auto split: option.splits dest: ch_push_only)
    have "chan_rest c" if "map_of (rb_channels b) type = Some c" for c
      using assms that by (simp add: rb_inv_def)
    then have 2: "\<exists>k. ord_trace type (rb_cursor type ?b) outs k \<and> (\<not> halted \<longrightarrow> k = At (rc_last c'))"
      using r ch_push_ordered [of _ wait cl type data s outs c' halted]
      by (auto simp: rb_cursor_def ord_trace_cons_iff ch_new_def intro!: exI [of _ "At s"] ord_first split: option.splits)
    from rb_commit_ordered [OF 1 2, of t]
    show ?thesis by (simp only: e rb_arrival_cursor)
  qed (simp add: RoPush rb_push_def)
next
  case (RoTimer type)
  show ?thesis
  proof (cases "map_of (rb_channels b) type")
    case (Some c)
    then have c: "chan_rest c" using assms by (simp add: rb_inv_def)
    obtain outs c' halted where r: "ch_abandon wait cl type c = (outs, c', halted)"
      by (rule prod_cases3)
    have 1: "\<forall>t w. w \<in> set outs \<longrightarrow> t \<noteq> type \<longrightarrow> \<not> on_channel t w"
      using r by (auto dest: ch_abandon_only)
    have 2: "\<exists>k. ord_trace type (rb_cursor type b) outs k \<and> (\<not> halted \<longrightarrow> k = At (rc_last c'))"
      using ch_abandon_ordered [OF _ _ r] c Some by (auto simp: rb_cursor_def chan_rest_def)
    from rb_commit_ordered [OF 1 2, of t]
    show ?thesis
      using Some RoTimer r by (auto simp: rb_expire_def intro!: exI [of _ "rb_cursor t b"] ord_nil)
  qed (simp add: RoTimer rb_expire_def)
qed (simp add: rb_close_def)

lemma rb_closed_silent: "rb_inv b \<Longrightarrow> rb_closed b \<Longrightarrow>
    rb_closed (fst (rb_step wait cl b e)) \<and> snd (rb_step wait cl b e) = []"
  by (cases e) (auto simp: rb_push_def rb_expire_def rb_inv_def rb_close_def)

lemma rb_run_silent: "rb_inv b \<Longrightarrow> rb_closed b \<Longrightarrow> run_out (rb_step wait cl) b es = []"
proof (induction es arbitrary: b)
  case (Cons e es)
  then show ?case
    using rb_closed_silent [of b wait cl e] rb_step_inv [of b wait cl e]
    by (simp only: run_out_Cons) simp
qed simp

lemma rb_run_ordered:
  "rb_inv b \<Longrightarrow> \<exists>k. ord_trace t (rb_cursor t b) (run_out (rb_step wait cl) b es) k"
proof (induction es arbitrary: b)
  case (Cons e es)
  let ?b = "fst (rb_step wait cl b e)"
  obtain k where k: "ord_trace t (rb_cursor t b) (snd (rb_step wait cl b e)) k"
    "\<not> rb_closed ?b \<longrightarrow> k = rb_cursor t ?b"
    using rb_step_ordered [OF Cons.prems] by blast
  have i: "rb_inv ?b" by (rule rb_step_inv [OF Cons.prems])
  have "\<exists>k'. ord_trace t k (run_out (rb_step wait cl) ?b es) k'"
    using k(2) Cons.IH [OF i] rb_run_silent [OF i] by (cases "rb_closed ?b") (auto intro: ord_nil)
  with k(1) show ?case by (simp only: run_out_Cons) (blast intro: ord_trace_append)
qed (auto intro: ord_nil)

section \<open>Nothing retained is lost or stuck\<close>

fun delivered :: "ro_out list \<Rightarrow> bytes list" where
  "delivered [] = []"
| "delivered (RoDeliver d _ _ # ws) = d # delivered ws"
| "delivered (RoSkip _ _ # ws) = delivered ws"
| "delivered (RoRepeat _ # ws) = delivered ws"

lemma delivered_append [simp]: "delivered (ws @ vs) = delivered ws @ delivered vs"
  by (induction ws rule: delivered.induct) simp_all

abbreviation never :: "ro_out \<Rightarrow> bool" where
  "never \<equiv> (\<lambda>_. False)"

lemma drain_loop_never:
  "drain_loop never type c =
     (case map_of (rc_held c) (rc_last c + 1) of
        None \<Rightarrow> ([], c, False)
      | Some data \<Rightarrow>
          (let (outs, c'', halted) = drain_loop never type (ch_take data c) in
           (RoDeliver data (rc_last c + 1) type # outs, c'', halted)))"
  by (subst drain_loop.simps) (simp add: Let_def split: option.splits)

lemma drain_loop_conserves:
  "chan_core c \<Longrightarrow> drain_loop never type c = (outs, c', halted) \<Longrightarrow>
     \<not> halted \<and> js_values (rc_held c) = mset (delivered outs) + js_values (rc_held c')"
proof (induction never type c arbitrary: outs rule: drain_loop.induct)
  case (1 type c)
  show ?case
  proof (cases "map_of (rc_held c) (rc_last c + 1)")
    case None
    with 1(3) show ?thesis by (simp add: drain_loop_never [of type c])
  next
    case (Some data)
    then obtain outs' where o: "outs = RoDeliver data (rc_last c + 1) type # outs'"
      "drain_loop never type (ch_take data c) = (outs', c', halted)"
      using 1(3) by (auto simp: drain_loop_never [of type c] split: prod.splits)
    have "js_values (rc_held c) = add_mset data (js_values (rc_held (ch_take data c)))"
      using 1(2) Some by (simp add: js_values_delete chan_core_def ch_take_def Let_def)
    with 1(1) [OF Some refl refl _ ch_take_core [OF 1(2) Some] o(2)] o(1) show ?thesis by simp
  qed
qed

lemma ch_drain_never:
  assumes "chan_core c" "ch_drain wait never type c = (outs, c', halted)"
  shows "\<not> halted" "js_values (rc_held c) = mset (delivered outs) + js_values (rc_held c')"
proof -
  have core: "chan_core (ch_clear_timer c)"
    using assms(1) by (simp add: ch_clear_timer_def chan_core_def ch_off_def)
  obtain outs' c'' halted' where r: "drain_loop never type (ch_clear_timer c) = (outs', c'', halted')"
    by (rule prod_cases3)
  from drain_loop_conserves [OF core r] r assms(2)
  show "\<not> halted" "js_values (rc_held c) = mset (delivered outs) + js_values (rc_held c')"
    by (auto simp: ch_drain_def ch_clear_timer_def ch_arm_def)
qed

lemma ch_abandon_progress:
  assumes "chan_rest c" "rc_held c \<noteq> []" "ch_abandon wait never type c = (outs, c', halted)"
  shows "\<not> halted" "js_values (rc_held c) = mset (delivered outs) + js_values (rc_held c')"
    "delivered outs \<noteq> []"
proof -
  define c0 where "c0 = ch_clear_timer c"
  have h: "rc_held c0 = rc_held c" "rc_timer c0 = None" by (simp_all add: c0_def ch_clear_timer_def)
  have core: "chan_core c0"
    using assms(1) by (simp add: chan_rest_def c0_def ch_clear_timer_def chan_core_def ch_off_def)
  obtain e where e: "ch_earliest c0 = Some e"
    using assms(2) ch_earliest_None [of c0] by (auto simp: h)
  obtain v where v: "map_of (rc_held c0) e = Some v" using ch_earliest_Some [OF e] by auto
  obtain outs' where o: "outs = RoSkip type SkipGap # outs'"
    and d: "ch_drain wait never type (c0\<lparr>rc_last := e - 1\<rparr>) = (outs', c', halted)"
    using assms(3) e by (auto simp: ch_abandon_def Let_def c0_def split: prod.splits)
  from ch_drain_never [OF ch_jump_core [OF core e] d] o
  show "\<not> halted" "js_values (rc_held c) = mset (delivered outs) + js_values (rc_held c')"
    by (simp_all add: h)
  define c1 where "c1 = c0\<lparr>rc_last := e - 1\<rparr>"
  have "ch_clear_timer c1 = c1" "map_of (rc_held c1) (rc_last c1 + 1) = Some v"
    using v by (simp_all add: c1_def ch_clear_timer_def h)
  with d o show "delivered outs \<noteq> []"
    by (auto simp: c1_def [symmetric] ch_drain_def drain_loop_never [of type c1] split: prod.splits)
qed

definition rb_held :: "nat \<Rightarrow> reorder \<Rightarrow> bytes multiset" where
  "rb_held t b = (case map_of (rb_channels b) t of None \<Rightarrow> {#} | Some c \<Rightarrow> js_values (rc_held c))"

lemma rb_expire_progress:
  assumes "rb_inv b"
  shows "rb_held t b = mset (delivered (snd (rb_expire wait never b t))) + rb_held t (fst (rb_expire wait never b t))"
    "rb_held t b \<noteq> {#} \<Longrightarrow> delivered (snd (rb_expire wait never b t)) \<noteq> []"
proof -
  have "rb_held t b = mset (delivered (snd (rb_expire wait never b t))) + rb_held t (fst (rb_expire wait never b t)) \<and>
    (rb_held t b \<noteq> {#} \<longrightarrow> delivered (snd (rb_expire wait never b t)) \<noteq> [])"
  proof (cases "map_of (rb_channels b) t")
    case (Some c)
    then have c: "chan_rest c" using assms by (simp add: rb_inv_def)
    show ?thesis
    proof (cases "rc_held c = []")
      case False
      obtain outs c' halted where r: "ch_abandon wait never t c = (outs, c', halted)" by (rule prod_cases3)
      from ch_abandon_progress [OF c False r] Some r c False show ?thesis
        by (auto simp: rb_expire_def rb_held_def rb_commit_def js_get_update chan_rest_def)
    qed (use Some c in \<open>auto simp: rb_expire_def rb_held_def chan_rest_def js_values_def\<close>)
  qed (simp add: rb_expire_def rb_held_def)
  then show "rb_held t b = mset (delivered (snd (rb_expire wait never b t))) + rb_held t (fst (rb_expire wait never b t))"
    "rb_held t b \<noteq> {#} \<Longrightarrow> delivered (snd (rb_expire wait never b t)) \<noteq> []" by blast+
qed

lemma rb_expiries_flush:
  "rb_inv b \<Longrightarrow> size (rb_held t b) \<le> n \<Longrightarrow>
     mset (delivered (run_out (rb_step wait never) b (replicate n (RoTimer t)))) = rb_held t b \<and>
     rb_held t (run_state (rb_step wait never) b (replicate n (RoTimer t))) = {#}"
proof (induction n arbitrary: b)
  case (Suc n)
  let ?b = "fst (rb_expire wait never b t)" and ?w = "snd (rb_expire wait never b t)"
  note p = rb_expire_progress [OF Suc.prems(1), of t wait]
  have "size (rb_held t b) = length (delivered ?w) + size (rb_held t ?b)"
    using arg_cong [OF p(1), of size] by simp
  then have "size (rb_held t ?b) \<le> n"
    using p(2) Suc.prems(2) by (cases "delivered ?w"; cases "rb_held t b = {#}") auto
  moreover have "rb_inv ?b" using rb_step_inv [OF Suc.prems(1), of wait never "RoTimer t"] by simp
  ultimately show ?case
    using Suc.IH [of ?b] p(1) by (simp add: run_state_Cons run_out_Cons del: run.simps)
qed simp

section \<open>Reordering within the window is repaired\<close>

text \<open>
  The numbers \<open>s0 + 1 .. s0 + n\<close> arrive in any order. \<open>seen s0 d S k c\<close>: of the offsets \<open>S\<close>
  that arrived, \<open>1 .. k\<close> are delivered and the rest are held.
\<close>

definition seen :: "16 word \<Rightarrow> (nat \<Rightarrow> bytes) \<Rightarrow> nat set \<Rightarrow> nat \<Rightarrow> chan \<Rightarrow> bool" where
  "seen s0 d S k c \<longleftrightarrow> rc_last c = s0 + of_nat k \<and> {1..k} \<subseteq> S \<and>
     (\<forall>w v. map_of (rc_held c) w = Some v \<longleftrightarrow> (\<exists>i\<in>S. k < i \<and> w = s0 + of_nat i \<and> v = d i))"

abbreviation deliveries :: "16 word \<Rightarrow> (nat \<Rightarrow> bytes) \<Rightarrow> nat \<Rightarrow> nat list \<Rightarrow> ro_out list" where
  "deliveries s0 d t is \<equiv> List.map (\<lambda>i. RoDeliver (d i) (s0 + of_nat i) t) is"

lemma offset_inj: "i \<le> 128 \<Longrightarrow> j \<le> 128 \<Longrightarrow> (s0 :: 16 word) + of_nat i = s0 + of_nat j \<longleftrightarrow> i = j"
  by (simp add: word_of_nat_eq_iff take_bit_nat_eq_self)

lemma seen_take:
  assumes "seen s0 d S k c" "S \<subseteq> {1..n}" "n \<le> 128" "map_of (rc_held c) (rc_last c + 1) = Some v"
  shows "v = d (Suc k)" "seen s0 d S (Suc k) (ch_take v c)"
proof -
  have l: "rc_last c + 1 = s0 + of_nat (Suc k)" using assms(1) by (simp add: seen_def)
  obtain i where i: "i \<in> S" "k < i" "rc_last c + 1 = s0 + of_nat i" "v = d i"
    using assms(1,4) by (auto simp: seen_def)
  have "i = Suc k" using i(1,2) assms(2,3) offset_inj [of "Suc k" i s0] l i(3) by auto
  with i show v: "v = d (Suc k)" by simp
  have eq: "s0 + of_nat j = rc_last c + 1 \<longleftrightarrow> j = Suc k" if "j \<in> S" for j
  proof -
    have "j \<le> 128" "Suc k \<le> 128" using that i(1) \<open>i = Suc k\<close> assms(2,3) by auto
    then show ?thesis unfolding l by (rule offset_inj)
  qed
  have "{1..Suc k} \<subseteq> S" using assms(1) i(1) \<open>i = Suc k\<close> by (auto simp: seen_def le_Suc_eq)
  moreover have "map_of (rc_held (ch_take v c)) w = Some u \<longleftrightarrow>
      (\<exists>i\<in>S. Suc k < i \<and> w = s0 + of_nat i \<and> u = d i)" for w u
  proof -
    have "map_of (rc_held (ch_take v c)) w = Some u \<longleftrightarrow>
        w \<noteq> rc_last c + 1 \<and> (\<exists>i\<in>S. k < i \<and> w = s0 + of_nat i \<and> u = d i)"
      using assms(1) by (simp add: ch_take_def Let_def js_get_delete seen_def)
    also have "\<dots> \<longleftrightarrow> (\<exists>i\<in>S. Suc k < i \<and> w = s0 + of_nat i \<and> u = d i)"
      using eq by (metis Suc_lessI Suc_lessD nat_neq_iff)
    finally show ?thesis .
  qed
  moreover have "rc_last (ch_take v c) = s0 + of_nat (Suc k)"
    using l by (simp add: ch_take_def Let_def)
  ultimately show "seen s0 d S (Suc k) (ch_take v c)" unfolding seen_def by blast
qed

lemma drain_loop_seen:
  "seen s0 d S k c \<Longrightarrow> S \<subseteq> {1..n} \<Longrightarrow> n \<le> 128 \<Longrightarrow> drain_loop never t c = (outs, c', halted) \<Longrightarrow>
     \<exists>k'\<ge>k. seen s0 d S k' c' \<and> Suc k' \<notin> S \<and> outs = deliveries s0 d t [Suc k..<Suc k'] \<and> \<not> halted"
proof (induction never t c arbitrary: outs k rule: drain_loop.induct)
  case (1 t c)
  show ?case
  proof (cases "map_of (rc_held c) (rc_last c + 1)")
    case None
    have "Suc k \<notin> S"
    proof
      assume "Suc k \<in> S"
      then have "map_of (rc_held c) (s0 + of_nat (Suc k)) = Some (d (Suc k))"
        using 1(2) unfolding seen_def by blast
      moreover have "rc_last c + 1 = s0 + of_nat (Suc k)" using 1(2) by (simp add: seen_def)
      ultimately have "map_of (rc_held c) (rc_last c + 1) = Some (d (Suc k))" by (simp only:)
      with None show False by simp
    qed
    with None 1(2,5) show ?thesis by (auto simp: drain_loop_never [of t c] intro!: exI [of _ k])
  next
    case (Some v)
    then obtain outs' where o: "outs = RoDeliver v (rc_last c + 1) t # outs'"
      "drain_loop never t (ch_take v c) = (outs', c', halted)"
      using 1(5) by (auto simp: drain_loop_never [of t c] split: prod.splits)
    note s = seen_take [OF 1(2-4) Some]
    obtain k' where k': "Suc k \<le> k'" "seen s0 d S k' c'" "Suc k' \<notin> S"
      "outs' = deliveries s0 d t [Suc (Suc k)..<Suc k']" "\<not> halted"
      using 1(1) [OF Some refl refl _ s(2) 1(3,4) o(2)] by auto
    have "rc_last c + 1 = s0 + of_nat (Suc k)" using 1(2) by (simp add: seen_def)
    then have "outs = deliveries s0 d t [Suc k..<Suc k']"
      using o(1) k'(1,4) s(1) upt_conv_Cons [of "Suc k" "Suc k'"] by simp
    with k' show ?thesis by (auto intro: exI [of _ k'])
  qed
qed

lemma seen_budget:
  assumes "seen s0 d S k c" "chan_core c" "S \<subseteq> {1..n}" "n \<le> 128" "Suc k \<notin> S"
    "(\<Sum>i = 1..n. length (d i)) < 2 * 1024 * 1024"
  shows "length (rc_held c) < 128" "rc_bytes c < 2 * 1024 * 1024"
proof -
  let ?T = "{i\<in>S. k < i}" and ?f = "\<lambda>i. s0 + of_nat i"
  have dom: "dom (map_of (rc_held c)) = ?f ` ?T"
  proof (rule set_eqI)
    fix w
    have "(\<exists>v. map_of (rc_held c) w = Some v) \<longleftrightarrow> (\<exists>i\<in>S. k < i \<and> w = ?f i)"
      using assms(1) unfolding seen_def by blast
    then show "w \<in> dom (map_of (rc_held c)) \<longleftrightarrow> w \<in> ?f ` ?T" by (auto simp: dom_def)
  qed
  have inj: "inj_on ?f ?T"
  proof (rule inj_onI)
    fix i j assume "i \<in> ?T" "j \<in> ?T" "?f i = ?f j"
    moreover from this have "i \<le> 128" "j \<le> 128" using assms(3,4) by auto
    ultimately show "i = j" by (simp only: offset_inj)
  qed
  have fin: "finite ?T" using assms(3) by (auto intro: finite_subset)
  have wf: "js_wf (rc_held c)" using assms(2) by (simp add: chan_core_def)
  have "?T \<subseteq> {1..n} - {Suc k}" using assms(3,5) by auto
  moreover have "n \<noteq> 0 \<Longrightarrow> ?T \<subseteq> {1..n} - {1}"
  proof -
    have "1 \<notin> ?T" using assms(5) by (cases k) auto
    then show "?T \<subseteq> {1..n} - {1}" using assms(3) by auto
  qed
  ultimately have "card ?T \<le> n - 1"
    using card_mono [of "{1..n} - {1}" ?T] by (cases "n = 0") auto
  then have "card ?T < 128" using assms(4) by linarith
  then show "length (rc_held c) < 128"
    using js_length_dom [OF wf] dom card_image [OF inj] by simp
  have "js_total length (rc_held c) = (\<Sum>i\<in>?T. length (the (map_of (rc_held c) (?f i))))"
    using js_total_dom [OF wf, of length] dom inj by (simp add: sum.reindex)
  also have "\<dots> = (\<Sum>i\<in>?T. length (d i))"
  proof (rule sum.cong [OF refl])
    fix i assume "i \<in> ?T"
    then have "map_of (rc_held c) (?f i) = Some (d i)" using assms(1) unfolding seen_def by blast
    then show "length (the (map_of (rc_held c) (?f i))) = length (d i)" by simp
  qed
  also have "\<dots> \<le> (\<Sum>i = 1..n. length (d i))"
    by (rule sum_mono2) (use assms(3) in auto)
  finally show "rc_bytes c < 2 * 1024 * 1024" using assms(2,6) by (simp add: chan_core_def)
qed

lemma seen_cong: "rc_last c' = rc_last c \<Longrightarrow> rc_held c' = rc_held c \<Longrightarrow> seen s0 d S k c' = seen s0 d S k c"
  by (simp add: seen_def)

lemma seen_off: "i \<le> 128 \<Longrightarrow> k < i \<Longrightarrow> unat (((s0 :: 16 word) + of_nat i) - (s0 + of_nat k)) = i - k"
proof -
  assume i: "i \<le> 128" "k < i"
  have eq: "(s0 + of_nat i) - (s0 + of_nat k) = (of_nat (i - k) :: 16 word)"
    using i by (simp add: of_nat_diff)
  show ?thesis unfolding eq using i by (subst unat_of_nat) simp
qed

text \<open>One more arrival of the window: the step delivers exactly the run it completes.\<close>

lemma ch_push_seen:
  assumes s: "seen s0 d S k c" and rest: "chan_rest c" and S: "S \<subseteq> {1..n}" "n \<le> 128" "Suc k \<notin> S"
    and i: "i \<in> {1..n}" "i \<notin> S" and sz: "(\<Sum>i = 1..n. length (d i)) < 2 * 1024 * 1024"
    and r: "ch_push wait never t (d i) (s0 + of_nat i) c = (outs, c', halted)"
  shows "\<exists>k'\<ge>k. seen s0 d (insert i S) k' c' \<and> Suc k' \<notin> insert i S \<and>
     outs = deliveries s0 d t [Suc k..<Suc k'] \<and> \<not> halted"
proof -
  have "k < i"
  proof (rule ccontr)
    assume "\<not> k < i" then have "i \<in> {1..k}" using i by auto
    then show False using s i(2) by (auto simp: seen_def)
  qed
  have l: "rc_last c = s0 + of_nat k" using s by (simp add: seen_def)
  have off: "unat ((s0 + of_nat i) - rc_last c) = i - k"
    unfolding l by (rule seen_off) (use i S \<open>k < i\<close> in auto)
  show ?thesis
  proof (cases "i = Suc k")
    case True
    define c0 where "c0 = c\<lparr>rc_last := s0 + of_nat i, rc_timer := None\<rparr>"
    have "ppcsSequenceDisposition (Some (rc_last c)) (s0 + of_nat i) = DNext"
      using l True by (simp add: disposition_iff)
    then obtain outs' c1 where o: "outs = RoDeliver (d i) (s0 + of_nat i) t # outs'"
      "drain_loop never t c0 = (outs', c1, halted)" "c' = (if halted then c1 else ch_arm wait t c1)"
      using r by (auto simp: ch_push_def ch_drain_def ch_clear_timer_def c0_def split: prod.splits)
    have "seen s0 d (insert i S) i c0"
    proof -
      have "{1..i} \<subseteq> insert i S" using s True by (auto simp: seen_def le_Suc_eq)
      moreover have "map_of (rc_held c) w = Some v \<longleftrightarrow> (\<exists>j\<in>insert i S. i < j \<and> w = s0 + of_nat j \<and> v = d j)" for w v
      proof -
        have "j \<in> S \<Longrightarrow> k < j \<longleftrightarrow> i < j" for j using True S(3) by (metis Suc_lessD Suc_lessI)
        moreover have "map_of (rc_held c) w = Some v \<longleftrightarrow> (\<exists>j\<in>S. k < j \<and> w = s0 + of_nat j \<and> v = d j)"
          using s unfolding seen_def by blast
        ultimately show ?thesis by blast
      qed
      ultimately show ?thesis by (simp add: seen_def c0_def)
    qed
    from drain_loop_seen [OF this _ S(2) o(2)] S(1) i obtain k' where
      k': "i \<le> k'" "seen s0 d (insert i S) k' c1" "Suc k' \<notin> insert i S"
        "outs' = deliveries s0 d t [Suc i..<Suc k']" "\<not> halted" by auto
    have "outs = deliveries s0 d t [Suc k..<Suc k']"
      using o(1) k'(1,4) True upt_conv_Cons [of "Suc k" "Suc k'"] by simp
    moreover have "seen s0 d (insert i S) k' c'"
      using k'(2,5) o(3) seen_cong [of c' c1] by (simp add: ch_arm_def)
    moreover have "k \<le> k'" using k'(1) True by linarith
    ultimately show ?thesis using k'(3,5) by (intro exI [of _ k'] conjI)
  next
    case False
    have "i \<le> n" using i(1) by simp
    then have rng: "2 \<le> i - k" "i - k \<le> 32768" using False \<open>k < i\<close> S(2) by linarith+
    then have gap: "ppcsSequenceDisposition (Some (rc_last c)) (s0 + of_nat i) = DGap"
      using off by (simp add: disposition_iff)
    have fresh: "map_of (rc_held c) (s0 + of_nat i) = None"
    proof (rule ccontr)
      assume "map_of (rc_held c) (s0 + of_nat i) \<noteq> None"
      then obtain j where "j \<in> S" "s0 + of_nat i = s0 + of_nat j"
        using s unfolding seen_def by blast
      then show False using offset_inj [of i j s0] S i by fastforce
    qed
    let ?c = "c\<lparr>rc_held := AList.update (s0 + of_nat i) (d i) (rc_held c),
        rc_bytes := rc_bytes c + int (length (d i))\<rparr>"
    have core: "chan_core ?c"
      by (rule ch_insert_core) (use rest fresh off rng in \<open>auto simp: chan_rest_def\<close>)
    have sn: "seen s0 d (insert i S) k ?c"
    proof -
      have "map_of (rc_held ?c) w = Some v \<longleftrightarrow> (\<exists>j\<in>insert i S. k < j \<and> w = s0 + of_nat j \<and> v = d j)" for w v
      proof (cases "w = s0 + of_nat i")
        case True
        have "\<not> (\<exists>j\<in>S. k < j \<and> w = s0 + of_nat j)"
          using s fresh True unfolding seen_def by (metis option.distinct(1))
        with True \<open>k < i\<close> show ?thesis by (auto simp: js_get_update)
      next
        case False
        have "map_of (rc_held c) w = Some v \<longleftrightarrow> (\<exists>j\<in>S. k < j \<and> w = s0 + of_nat j \<and> v = d j)"
          using s unfolding seen_def by blast
        with False show ?thesis by (simp add: js_get_update)
      qed
      moreover have "{1..k} \<subseteq> insert i S" using s unfolding seen_def by blast
      ultimately show ?thesis using l by (simp add: seen_def)
    qed
    have out: "Suc k \<notin> insert i S" using S(3) False by auto
    have "insert i S \<subseteq> {1..n}" using S i by auto
    from seen_budget [OF sn core this S(2) out sz]
    have "outs = []" "c' = ch_arm wait t ?c" "\<not> halted"
      using r gap fresh by (auto simp: ch_push_def Let_def)
    moreover from this have "seen s0 d (insert i S) k c'"
      using sn seen_cong [of c' ?c] by (simp add: ch_arm_def)
    ultimately show ?thesis using out by (intro exI [of _ k]) simp
  qed
qed

lemma ch_pushes_seen:
  assumes "rb_inv b" "\<not> rb_closed b" "map_of (rb_channels b) t = Some c" "seen s0 d S k c" "Suc k \<notin> S"
    "S \<subseteq> {1..n}" "n \<le> 128" "distinct is" "set is \<subseteq> {1..n} - S"
    "(\<Sum>i = 1..n. length (d i)) < 2 * 1024 * 1024"
  shows "\<exists>k'\<ge>k. run_out (rb_step wait never) b (List.map (\<lambda>i. RoPush (d i) (s0 + of_nat i) t) is) =
      deliveries s0 d t [Suc k..<Suc k'] \<and> {1..k'} \<subseteq> S \<union> set is \<and> Suc k' \<notin> S \<union> set is"
  using assms
proof (induction "is" arbitrary: b c S k)
  case Nil
  then show ?case by (auto simp: seen_def intro!: exI [of _ k])
next
  case (Cons i "is")
  have rest: "chan_rest c" using Cons.prems(1,3) by (simp add: rb_inv_def)
  obtain outs c' halted where r: "ch_push wait never t (d i) (s0 + of_nat i) c = (outs, c', halted)"
    by (rule prod_cases3)
  have i: "i \<in> {1..n}" "i \<notin> S" using Cons.prems(9) by auto
  obtain k1 where k1: "k \<le> k1" "seen s0 d (insert i S) k1 c'" "Suc k1 \<notin> insert i S"
    "outs = deliveries s0 d t [Suc k..<Suc k1]" "\<not> halted"
    using ch_push_seen [OF Cons.prems(4) rest Cons.prems(6,7,5) i Cons.prems(10) r] by blast
  let ?e = "RoPush (d i) (s0 + of_nat i) t"
  let ?b = "fst (rb_step wait never b ?e)"
  have st: "snd (rb_step wait never b ?e) = outs" "\<not> rb_closed ?b" "map_of (rb_channels ?b) t = Some c'"
    using Cons.prems(2,3) r k1(5) by (auto simp: rb_push_def Let_def rb_commit_def js_get_update)
  obtain k' where k': "k1 \<le> k'"
    "run_out (rb_step wait never) ?b (List.map (\<lambda>i. RoPush (d i) (s0 + of_nat i) t) is) = deliveries s0 d t [Suc k1..<Suc k']"
    "{1..k'} \<subseteq> insert i S \<union> set is" "Suc k' \<notin> insert i S \<union> set is"
    using Cons.IH [OF rb_step_inv [OF Cons.prems(1)] st(2,3) k1(2,3) _ Cons.prems(7) _ _ Cons.prems(10)]
      Cons.prems(6,8,9) i by auto
  have "[Suc k..<Suc k'] = [Suc k..<Suc k1] @ [Suc k1..<Suc k']"
    using k1(1) k'(1) upt_add_eq_append [of "Suc k" "Suc k1" "k' - k1"] by simp
  then have "run_out (rb_step wait never) b (List.map (\<lambda>i. RoPush (d i) (s0 + of_nat i) t) (i # is)) =
      deliveries s0 d t [Suc k..<Suc k']"
    using st(1) k1(4) k'(2) by (simp only: list.map run_out_Cons map_append)
  then show ?case using k1(1) k'(1,3,4) by (intro exI [of _ k']) auto
qed

lemma rb_reachable: "rb_inv (run_state (rb_step wait cl) rb_new es)"
  by (rule rb.run_inv [OF rb_inv_new]) simp

section \<open>Properties\<close>

text \<open>C15: Whatever datagrams arrive, whenever timers expire and whenever the owner closes the
  buffer (also from inside a callback), the emissions on each channel follow the
  ordered-delivery contract, numbers counted modulo 65,536: after the first datagram each one delivered is the successor of the one before, unless a
  skip was announced in between. After a gap skip the next one lies 2 to 32,768 numbers ahead, so that something
  was really left out; after a restart skip it lies more than 1,024 numbers back (the sender counts anew, and numbers that
  were delivered before may come again). Nothing at most 1,024 numbers back is ever delivered.\<close>

theorem reorder_ordered_delivery:
  "\<exists>k. ord_trace t Unset (run_out (rb_step wait cl) rb_new es) k"
  using rb_run_ordered [OF rb_inv_new, of t wait cl es] by (simp add: rb_cursor_def rb_new_def)

text \<open>In every reachable state each channel retains fewer than 128 packets, all ahead of its
  cursor with the next one missing, its byte count is the sum of the retained lengths, its
  gap timer runs exactly while something is retained, and a halted buffer holds no channel.\<close>

theorem reorder_state_invariant:
  "rb_inv (run_state (rb_step wait cl) rb_new es)"
  by (rule rb_reachable)

text \<open>A datagram held behind a hole is never stuck: from any reachable state, as many timer
  expiries as packets are retained deliver exactly the retained packets and leave none.\<close>

theorem reorder_timers_flush:
  "let b = run_state (rb_step wait never) rb_new es;
       flush = replicate (size (rb_held t b)) (RoTimer t)
   in mset (delivered (run_out (rb_step wait never) b flush)) = rb_held t b \<and>
      rb_held t (run_state (rb_step wait never) b flush) = {#}"
  unfolding Let_def by (rule rb_expiries_flush [OF rb_reachable order_refl])

text \<open>Datagrams that arrive out of order within the window are repaired: once a channel has
  delivered a datagram and retains nothing, the next \<open>n \<le> 128\<close> datagrams of less than
  2 MiB together are delivered in sequence order, without a skip, for every order of arrival.\<close>

theorem reorder_repairs_window:
  assumes "rb_inv b" "map_of (rb_channels b) t = Some c" "rc_held c = []"
    and "mset is = mset [1..<Suc n]" "n \<le> 128" "(\<Sum>i = 1..n. length (d i)) < 2 * 1024 * 1024"
  shows "run_out (rb_step wait never) b (List.map (\<lambda>i. RoPush (d i) (rc_last c + of_nat i) t) is) =
    List.map (\<lambda>i. RoDeliver (d i) (rc_last c + of_nat i) t) [1..<Suc n]"
proof -
  have set: "set is = {1..n}"
    unfolding mset_eq_setD [OF assms(4)] by (simp only: set_upt atLeastLessThanSuc_atLeastAtMost)
  have dist: "distinct is"
    unfolding mset_eq_imp_distinct_iff [OF assms(4)] by (rule distinct_upt)
  have open_b: "\<not> rb_closed b" using assms(1,2) by (auto simp: rb_inv_def)
  have "seen (rc_last c) d {} 0 c" using assms(3) by (simp add: seen_def)
  from ch_pushes_seen [OF assms(1) open_b assms(2) this _ _ assms(5) dist _ assms(6), of wait]
  obtain k' where k': "run_out (rb_step wait never) b (List.map (\<lambda>i. RoPush (d i) (rc_last c + of_nat i) t) is) =
      deliveries (rc_last c) d t [Suc 0..<Suc k']" "{1..k'} \<subseteq> {1..n}" "Suc k' \<notin> {1..n}"
    unfolding set by auto
  from k'(2,3) have "k' = n" by (cases k') auto
  with k'(1) show ?thesis by simp
qed

lemma reorder_repairs_window_witness:
  "let b = fst (rb_step 250 never rb_new (RoPush [] 65534 0)) in
   run_out (rb_step 250 never) b (List.map (\<lambda>i. RoPush (replicate i 7) (65534 + of_nat i) 0) [3, 1, 2]) =
     [RoDeliver [7] 65535 0, RoDeliver [7, 7] (65535 + 1) 0, RoDeliver [7, 7, 7] (65535 + 2) 0]"
proof -
  let ?b = "fst (rb_step 250 never rb_new (RoPush [] 65534 0))"
  have b: "rb_inv ?b" "map_of (rb_channels ?b) 0 = Some (ch_new 65534)"
    by (rule rb_step_inv [OF rb_inv_new])
       (simp add: rb_push_def rb_new_def rb_commit_def rb_record_arrival_def Let_def)
  have "run_out (rb_step 250 never) ?b
      (List.map (\<lambda>i. RoPush (replicate i 7) (rc_last (ch_new 65534) + of_nat i) 0) [3, 1, 2]) =
      List.map (\<lambda>i. RoDeliver (replicate i 7) (rc_last (ch_new 65534) + of_nat i) 0) [1..<Suc 3]"
  proof (rule reorder_repairs_window [OF b])
    show "(\<Sum>i = 1..3. length (replicate i (7 :: byte))) < 2 * 1024 * 1024"
      by (simp add: numeral_3_eq_3)
  qed (simp_all add: ch_new_def upt_rec numeral_2_eq_2 numeral_3_eq_3 add_mset_commute)
  then show ?thesis
    by (simp add: ch_new_def upt_rec Let_def numeral_2_eq_2 numeral_3_eq_3 del: run.simps rb_step.simps)
qed

end
