(* ===== verification/Ppcs_Framing.thy ===== *)
theory Ppcs_Framing
  imports Js_Map Machine
begin

text \<open>
  XZYH command framing of \<open>stream/first-party-ppcs.ts\<close>: \<open>PpcsStream.#consumeData\<close> with its
  per-type pending state, \<open>ppcsPartialCommandPrefix\<close>, \<open>ppcsCommandMagicOffset\<close>,
  \<open>ppcsFrameChannel\<close> and \<open>#updatePendingBytes\<close>. The frames handed to \<open>#handleFrame\<close> are the
  outputs. The theorems relate any cutting of an undamaged stream into datagrams to the
  parse of the whole stream.
\<close>

definition MAGIC :: bytes where
  "MAGIC = [0x58, 0x5A, 0x59, 0x48]"

lemma length_MAGIC [simp]: "length MAGIC = 4"
  by (simp add: MAGIC_def)

definition MAX_COMMAND_BYTES :: nat where
  "MAX_COMMAND_BYTES = 16 * 1024 * 1024"

definition ppcsFrameChannel :: "bytes \<Rightarrow> byte option" where
  "ppcsFrameChannel frame =
     (if length frame \<ge> 16 \<and> take 4 frame = MAGIC then Some (frame ! 12) else None)"

text \<open>The longest suffix of the data, of at most \<open>n\<close> bytes, that is a proper start of the magic.\<close>

fun magic_suffix :: "nat \<Rightarrow> bytes \<Rightarrow> bytes option" where
  "magic_suffix 0 data = None"
| "magic_suffix (Suc n) data =
     (if drop (length data - Suc n) data = take (Suc n) MAGIC
      then Some (drop (length data - Suc n) data) else magic_suffix n data)"

definition ppcsPartialCommandPrefix :: "bytes \<Rightarrow> bytes option" where
  "ppcsPartialCommandPrefix data =
     (if length data = 0 \<or> length data \<ge> 16 then None
      else if length data \<ge> 4 \<and> take 4 data = MAGIC then Some data
      else magic_suffix (min (length data) 4) data)"

definition ppcsCommandMagicOffset :: "bytes \<Rightarrow> nat option" where
  "ppcsCommandMagicOffset data = find_sub MAGIC data"

section \<open>Per-type parser\<close>

datatype pending = PendingHeader bytes bytes | PendingPrefix bytes

text \<open>The inner loop: complete frames, then why it stopped.\<close>

datatype loop_end = Oversize bytes | Partial bytes bytes | Leftover bytes

function frames_loop :: "bytes \<Rightarrow> (bytes \<times> bytes) list \<times> loop_end" where
  "frames_loop body =
     (if length body \<ge> 16 \<and> take 4 body = MAGIC then
        (let header = take 16 body; size = u32le header 6; payload = drop 16 body in
         if size > MAX_COMMAND_BYTES then ([], Oversize header)
         else if length payload < size then ([], Partial header payload)
         else (let (frames, e) = frames_loop (drop (16 + size) body) in
               ((header, take size payload) # frames, e)))
      else ([], Leftover body))"
  by pat_completeness auto
termination
  by (relation "measure length") auto

declare frames_loop.simps [simp del]

lemma frames_loop_stop: "\<not> (length body \<ge> 16 \<and> take 4 body = MAGIC) \<Longrightarrow> frames_loop body = ([], Leftover body)"
  by (subst frames_loop.simps) auto

lemma frames_loop_header:
  "length body \<ge> 16 \<Longrightarrow> take 4 body = MAGIC \<Longrightarrow>
     frames_loop body =
       (let size = u32le (take 16 body) 6 in
        if size > MAX_COMMAND_BYTES then ([], Oversize (take 16 body))
        else if length body < 16 + size then ([], Partial (take 16 body) (drop 16 body))
        else ((take 16 body, take size (drop 16 body)) # fst (frames_loop (drop (16 + size) body)),
              snd (frames_loop (drop (16 + size) body))))"
  by (subst frames_loop.simps) (auto simp: Let_def split_beta)

fun end_headers :: "loop_end \<Rightarrow> bytes list" where
  "end_headers (Oversize h) = [h]"
| "end_headers (Partial h p) = [h]"
| "end_headers (Leftover r) = []"

text \<open>What one datagram changes: frames handled, headers inspected, the new pending state, and
  the parser statistics.\<close>

record consumed =
  co_frames :: "(bytes \<times> bytes) list"
  co_headers :: "bytes list"
  co_pending :: "pending option"
  co_resyncs :: nat
  co_blocked :: bool

definition consume_leftover :: "bytes \<Rightarrow> consumed" where
  "consume_leftover body =
     (case ppcsPartialCommandPrefix body of
        Some prefix \<Rightarrow> \<lparr> co_frames = [], co_headers = [], co_pending = Some (PendingPrefix prefix),
                        co_resyncs = 0, co_blocked = False \<rparr>
      | None \<Rightarrow> \<lparr> co_frames = [], co_headers = [], co_pending = None,
                 co_resyncs = 1, co_blocked = True \<rparr>)"

function consume_body :: "bool \<Rightarrow> bytes \<Rightarrow> consumed" where
  "consume_body resynced body =
     (case frames_loop body of (frames, e) \<Rightarrow>
       (let headers = List.map fst frames @ end_headers e;
            quiet = \<lparr> co_frames = frames, co_headers = headers, co_pending = None,
                      co_resyncs = 0, co_blocked = False \<rparr> in
        case e of
          Oversize h \<Rightarrow> quiet
        | Partial h p \<Rightarrow> quiet\<lparr>co_pending := Some (PendingHeader h p)\<rparr>
        | Leftover rest \<Rightarrow>
            if rest = [] then quiet
            else (let (more, extra) =
                    (case ppcsCommandMagicOffset rest of
                       Some offset \<Rightarrow>
                         if offset > 0 \<and> \<not> resynced then (consume_body True (drop offset rest), 1)
                         else (consume_leftover rest, 0)
                     | None \<Rightarrow> (consume_leftover rest, 0))
                  in \<lparr> co_frames = frames @ co_frames more, co_headers = headers @ co_headers more,
                       co_pending = co_pending more, co_resyncs = extra + co_resyncs more,
                       co_blocked = co_blocked more \<rparr>)))"
  by pat_completeness auto
termination
  by (relation "measure (\<lambda>(resynced, body). if resynced then 0 else 1)") auto

declare consume_body.simps [simp del]

definition consume :: "pending option \<Rightarrow> bytes \<Rightarrow> consumed" where
  "consume carried data =
     (case carried of
        None \<Rightarrow> consume_body False data
      | Some (PendingPrefix p) \<Rightarrow> consume_body False (p @ data)
      | Some (PendingHeader header p) \<Rightarrow>
          (let size = u32le header 6; payload = p @ data in
           if length payload < size then
             \<lparr> co_frames = [], co_headers = [], co_pending = Some (PendingHeader header payload),
               co_resyncs = 0, co_blocked = False \<rparr>
           else (let r = consume_body False (drop size payload) in
                 r\<lparr>co_frames := (header, take size payload) # co_frames r\<rparr>)))"

section \<open>Session state\<close>

record demux =
  dm_pending :: "(nat, pending) jsmap"
  dm_pendingBytes :: nat
  dm_commands :: "nat list"
  dm_responseLengths :: "nat list"
  dm_parserResyncs :: nat
  dm_parserBlocked :: bool

definition dm_new :: demux where
  "dm_new = \<lparr> dm_pending = [], dm_pendingBytes = 0, dm_commands = [], dm_responseLengths = [],
     dm_parserResyncs = 0, dm_parserBlocked = False \<rparr>"

fun pending_bytes :: "pending \<Rightarrow> nat" where
  "pending_bytes (PendingHeader h p) = length h + length p"
| "pending_bytes (PendingPrefix p) = length p"

definition dm_updatePendingBytes :: "demux \<Rightarrow> demux" where
  "dm_updatePendingBytes s = s\<lparr>dm_pendingBytes := js_total pending_bytes (dm_pending s)\<rparr>"

definition dm_note_header :: "bytes \<Rightarrow> demux \<Rightarrow> demux" where
  "dm_note_header header s =
     (let command = u16le header 4; size = u32le header 6;
          s = (if length (dm_commands s) < 20 then s\<lparr>dm_commands := dm_commands s @ [command]\<rparr> else s) in
      if command = 1350 \<and> length (dm_responseLengths s) < 5
      then s\<lparr>dm_responseLengths := dm_responseLengths s @ [size]\<rparr> else s)"

definition dm_consumeData :: "demux \<Rightarrow> bytes \<Rightarrow> nat \<Rightarrow> demux \<times> (bytes \<times> bytes) list" where
  "dm_consumeData s data type =
     (let carried = map_of (dm_pending s) type;
          cleared = AList.delete type (dm_pending s);
          r = consume carried data;
          s = fold dm_note_header (co_headers r) s
      in (dm_updatePendingBytes
            (s\<lparr>dm_pending := (case co_pending r of None \<Rightarrow> cleared | Some p \<Rightarrow> AList.update type p cleared),
               dm_parserResyncs := dm_parserResyncs s + co_resyncs r,
               dm_parserBlocked := (dm_parserBlocked s \<or> co_blocked r)\<rparr>),
          co_frames r))"

text \<open>The reorder buffer's \<open>onSkip\<close> callback of the session.\<close>

definition dm_skip :: "demux \<Rightarrow> nat \<Rightarrow> demux" where
  "dm_skip s type = dm_updatePendingBytes (s\<lparr>dm_pending := AList.delete type (dm_pending s)\<rparr>)"

section \<open>Undamaged streams\<close>

fun loop_rest :: "loop_end \<Rightarrow> bytes" where
  "loop_rest (Oversize h) = []"
| "loop_rest (Partial h p) = h @ p"
| "loop_rest (Leftover r) = r"

fun pending_of :: "loop_end \<Rightarrow> pending option" where
  "pending_of (Oversize h) = None"
| "pending_of (Partial h p) = Some (PendingHeader h p)"
| "pending_of (Leftover r) = (if r = [] then None else Some (PendingPrefix r))"

fun carried_bytes :: "pending option \<Rightarrow> bytes" where
  "carried_bytes None = []"
| "carried_bytes (Some (PendingHeader h p)) = h @ p"
| "carried_bytes (Some (PendingPrefix p)) = p"

definition header_start :: "bytes \<Rightarrow> bool" where
  "header_start r \<longleftrightarrow> length r < 16 \<and> take 4 r = take (length r) MAGIC"

fun pending_ok :: "pending option \<Rightarrow> bool" where
  "pending_ok None = True"
| "pending_ok (Some (PendingHeader h p)) =
     (length h = 16 \<and> take 4 h = MAGIC \<and> u32le h 6 \<le> MAX_COMMAND_BYTES \<and> length p < u32le h 6)"
| "pending_ok (Some (PendingPrefix p)) = (p \<noteq> [] \<and> header_start p)"

definition undamaged :: "bytes \<Rightarrow> bool" where
  "undamaged u \<longleftrightarrow> (case snd (frames_loop u) of
     Oversize h \<Rightarrow> False | Partial h p \<Rightarrow> True | Leftover r \<Rightarrow> header_start r)"

lemma magic_suffix_length: "n \<le> length data \<Longrightarrow> magic_suffix n data = Some s \<Longrightarrow> length s \<le> n"
  by (induction n) (auto split: if_splits)

lemma partial_prefix_self:
  "ppcsPartialCommandPrefix r = Some r \<longleftrightarrow> r \<noteq> [] \<and> header_start r"
proof (cases "length r = 0 \<or> length r \<ge> 16")
  case False
  then have r: "r \<noteq> []" "length r < 16" by auto
  show ?thesis
  proof (cases "length r \<ge> 4")
    case True
    have "magic_suffix 4 r = Some r \<Longrightarrow> take 4 r = MAGIC"
    proof -
      assume m: "magic_suffix 4 r = Some r"
      then have l: "length r = 4" using magic_suffix_length [of 4 r r] True by simp
      then show "take 4 r = MAGIC"
        using m magic_suffix_length [of 3 r r] by (auto simp: eval_nat_numeral split: if_splits)
    qed
    with True r show ?thesis
      by (auto simp: ppcsPartialCommandPrefix_def header_start_def min_def)
  next
    case False
    then obtain n where n: "length r = Suc n" using r by (cases r) auto
    have "magic_suffix (length r) r = Some r \<longleftrightarrow> r = take (length r) MAGIC"
      using magic_suffix_length [of n r r] n by (auto simp: n split: if_splits)
    with False r show ?thesis
      by (auto simp: ppcsPartialCommandPrefix_def header_start_def min_def)
  qed
qed (auto simp: ppcsPartialCommandPrefix_def header_start_def)

lemma header_start_prefix: "header_start (u @ v) \<Longrightarrow> header_start u"
proof -
  assume h: "header_start (u @ v)"
  show "header_start u"
  proof (cases "length u \<ge> 4")
    case False
    then have u: "take 4 u = u" "take (length u) (take 4 (u @ v)) = u" by simp_all
    have "length u < 16" using False by simp
    have "take 4 (u @ v) = take (length (u @ v)) MAGIC" using h by (simp only: header_start_def)
    with u(2) have "u = take (length u) (take (length (u @ v)) MAGIC)" by (simp only:)
    then have "u = take (length u) MAGIC" by simp
    with \<open>length u < 16\<close> u(1) show ?thesis by (simp only: header_start_def)
  qed (use h in \<open>simp add: header_start_def\<close>)
qed

lemma header_start_magic: "take 4 (u @ v) = MAGIC \<Longrightarrow> length u < 16 \<Longrightarrow> header_start u"
proof -
  assume m: "take 4 (u @ v) = MAGIC" and l: "length u < 16"
  have "take (length u) (take 4 (u @ v)) = take (length u) MAGIC" by (simp only: m)
  with l show ?thesis by (simp add: header_start_def min_def split: if_splits)
qed

text \<open>A leftover that starts a header has no magic further on.\<close>

lemma header_start_offset: "header_start r \<Longrightarrow> ppcsCommandMagicOffset r = Some n \<Longrightarrow> n = 0"
proof -
  assume h: "header_start r" and o: "ppcsCommandMagicOffset r = Some n"
  then have "length r \<ge> 4" using find_sub_bound [of MAGIC r n] by (simp add: ppcsCommandMagicOffset_def)
  then have "starts_with MAGIC r" using h by (simp add: header_start_def starts_with_def)
  with o show "n = 0" by (simp add: ppcsCommandMagicOffset_def find_sub_at_start)
qed

lemma frames_loop_leftover:
  "snd (frames_loop u) = Leftover r \<Longrightarrow> length r < 16 \<or> take 4 r \<noteq> MAGIC"
  by (induction u rule: frames_loop.induct)
     (subst (asm) (2) frames_loop.simps, auto simp: Let_def split: if_splits prod.splits)

lemma frames_loop_partial:
  "snd (frames_loop u) = Partial h p \<Longrightarrow> pending_ok (Some (PendingHeader h p))"
proof (induction u rule: frames_loop.induct)
  case (1 body)
  then show ?case
    by (subst (asm) (2) frames_loop.simps) (auto simp: Let_def split: if_splits prod.splits)
qed

lemma pending_of_ok: "undamaged u \<Longrightarrow> pending_ok (pending_of (snd (frames_loop u)))"
  using frames_loop_partial [of u] by (cases "snd (frames_loop u)") (auto simp: undamaged_def)

lemma pending_of_bytes: "carried_bytes (pending_of e) = loop_rest e"
  by (cases e) auto

lemma consume_body_undamaged:
  assumes "undamaged body"
  shows "co_frames (consume_body b body) = fst (frames_loop body)"
    "co_pending (consume_body b body) = pending_of (snd (frames_loop body))"
    "co_resyncs (consume_body b body) = 0" "\<not> co_blocked (consume_body b body)"
proof -
  obtain fs e where f: "frames_loop body = (fs, e)" by (cases "frames_loop body")
  have "e = Leftover r \<Longrightarrow> r \<noteq> [] \<Longrightarrow> ppcsPartialCommandPrefix r = Some r \<and>
      (\<forall>n. ppcsCommandMagicOffset r = Some n \<longrightarrow> n = 0)" for r
    using assms f partial_prefix_self [of r] header_start_offset [of r]
    by (auto simp: undamaged_def)
  with f assms show "co_frames (consume_body b body) = fst (frames_loop body)"
    "co_pending (consume_body b body) = pending_of (snd (frames_loop body))"
    "co_resyncs (consume_body b body) = 0" "\<not> co_blocked (consume_body b body)"
    by (cases e; auto simp: consume_body.simps [of b body] undamaged_def Let_def consume_leftover_def
        split: option.splits)+
qed

text \<open>The parse of a stream resumes from what the parse of its first part left over.\<close>

lemma frames_loop_append:
  "\<not> (\<exists>h. snd (frames_loop u) = Oversize h) \<Longrightarrow>
     frames_loop (u @ v) =
       (fst (frames_loop u) @ fst (frames_loop (loop_rest (snd (frames_loop u)) @ v)),
        snd (frames_loop (loop_rest (snd (frames_loop u)) @ v)))"
proof (induction u rule: frames_loop.induct)
  case (1 body)
  show ?case
  proof (cases "length body \<ge> 16 \<and> take 4 body = MAGIC")
    case False
    from frames_loop_stop [OF False] show ?thesis by simp
  next
    case True
    let ?size = "u32le (take 16 body) 6"
    have pre: "length (body @ v) \<ge> 16" "take 4 (body @ v) = MAGIC" "take 16 (body @ v) = take 16 body"
      using True by auto
    show ?thesis
    proof (cases "?size > MAX_COMMAND_BYTES \<or> length (drop 16 body) < ?size")
      case True
      with 1(2) \<open>length body \<ge> 16 \<and> _\<close> have "frames_loop body = ([], Partial (take 16 body) (drop 16 body))"
        by (auto simp: frames_loop.simps [of body] Let_def split: if_splits)
      then show ?thesis by simp
    next
      case False
      then have fit: "\<not> ?size > MAX_COMMAND_BYTES" "\<not> length (drop 16 body) < ?size" by auto
      obtain fs e where r: "frames_loop (drop (16 + ?size) body) = (fs, e)" by fastforce
      have u: "frames_loop body = ((take 16 body, take ?size (drop 16 body)) # fs, e)"
        using True fit r by (simp add: frames_loop.simps [of body] Let_def)
      have d: "drop (16 + ?size) (body @ v) = drop (16 + ?size) body @ v"
        using True fit by (auto simp: le_diff_conv)
      have "frames_loop (drop (16 + ?size) body @ v) =
          (fs @ fst (frames_loop (loop_rest e @ v)), snd (frames_loop (loop_rest e @ v)))"
        using 1(1) [OF True refl refl refl fit] 1(2) r u by simp
      moreover have "take ?size (drop 16 (body @ v)) = take ?size (drop 16 body)" using fit True by simp
      ultimately show ?thesis
        using pre fit u d by (simp add: frames_loop.simps [of "body @ v"] Let_def del: drop_append take_append)
    qed
  qed
qed

lemma frames_loop_oversize: "snd (frames_loop u) = Oversize h \<Longrightarrow> snd (frames_loop (u @ v)) = Oversize h"
proof (induction u rule: frames_loop.induct)
  case (1 body)
  then have True: "length body \<ge> 16 \<and> take 4 body = MAGIC"
    by (auto simp: frames_loop.simps [of body] split: if_splits)
  let ?size = "u32le (take 16 body) 6"
  have pre: "length (body @ v) \<ge> 16" "take 4 (body @ v) = MAGIC" "take 16 (body @ v) = take 16 body"
    using True by auto
  show ?case
  proof (cases "?size > MAX_COMMAND_BYTES")
    case True
    with 1(2) pre \<open>length body \<ge> 16 \<and> _\<close> show ?thesis
      by (simp add: frames_loop.simps [of body] frames_loop.simps [of "body @ v"] Let_def del: take_append)
  next
    case False
    then have fit: "\<not> length (drop 16 body) < ?size"
      using 1(2) True by (auto simp: frames_loop.simps [of body] Let_def split: if_splits)
    have d: "drop (16 + ?size) (body @ v) = drop (16 + ?size) body @ v"
      using True fit by (auto simp: le_diff_conv)
    have "snd (frames_loop (drop (16 + ?size) body)) = Oversize h"
      using 1(2) True False fit by (auto simp: frames_loop.simps [of body] Let_def split: prod.splits)
    from 1(1) [OF True refl refl refl False fit this] pre False fit d show ?thesis
      by (simp add: frames_loop.simps [of "body @ v"] Let_def split_beta del: drop_append take_append)
  qed
qed

lemma undamaged_prefix: "undamaged (u @ v) \<Longrightarrow> undamaged u"
proof -
  assume d: "undamaged (u @ v)"
  show "undamaged u"
  proof (cases "snd (frames_loop u)")
    case (Oversize h)
    with d frames_loop_oversize [OF this, of v] show ?thesis by (simp add: undamaged_def)
  next
    case (Leftover r)
    have "header_start r"
    proof (cases "length r < 16")
      case True
      have e: "snd (frames_loop (u @ v)) = snd (frames_loop (r @ v))"
        using frames_loop_append [of u v] Leftover by simp
      show ?thesis
      proof (cases "length (r @ v) \<ge> 16 \<and> take 4 (r @ v) = MAGIC")
        case True
        then show ?thesis using header_start_magic \<open>length r < 16\<close> by blast
      next
        case False
        from frames_loop_stop [OF False] have "snd (frames_loop (r @ v)) = Leftover (r @ v)" by simp
        with d e have "header_start (r @ v)" by (simp add: undamaged_def)
        then show ?thesis by (rule header_start_prefix)
      qed
    next
      case False
      then have m: "take 4 r \<noteq> MAGIC" using frames_loop_leftover [OF Leftover] by auto
      then have "snd (frames_loop (r @ v)) = Leftover (r @ v)"
        using False by (simp add: frames_loop_stop)
      then have "snd (frames_loop (u @ v)) = Leftover (r @ v)"
        using frames_loop_append [of u v] Leftover by simp
      with d False show ?thesis by (simp add: undamaged_def header_start_def)
    qed
    with Leftover show ?thesis by (simp add: undamaged_def)
  qed (simp add: undamaged_def)
qed

section \<open>Cutting does not matter\<close>

definition xz_feed :: "pending option \<Rightarrow> bytes \<Rightarrow> pending option \<times> (bytes \<times> bytes) list" where
  "xz_feed carried data = (co_pending (consume carried data), co_frames (consume carried data))"

lemma xz_feed_parse:
  assumes "pending_ok p" "undamaged (carried_bytes p @ c)"
  shows "xz_feed p c = (pending_of (snd (frames_loop (carried_bytes p @ c))), fst (frames_loop (carried_bytes p @ c)))"
proof (cases p)
  case None
  with consume_body_undamaged [of c] assms(2) show ?thesis by (simp add: xz_feed_def consume_def)
next
  case (Some q)
  show ?thesis
  proof (cases q)
    case (PendingPrefix r)
    with Some assms(2) consume_body_undamaged [of "r @ c"] show ?thesis
      by (simp add: xz_feed_def consume_def)
  next
    case (PendingHeader h r)
    have h: "length h = 16" "take 4 h = MAGIC" "u32le h 6 \<le> MAX_COMMAND_BYTES"
      using assms(1) Some PendingHeader by auto
    let ?b = "h @ r @ c"
    have pre: "length ?b \<ge> 16" "take 4 ?b = MAGIC" "take 16 ?b = h" "drop 16 ?b = r @ c"
      "\<And>n. drop (16 + n) ?b = drop n (r @ c)"
      using h by auto
    show ?thesis
    proof (cases "length (r @ c) < u32le h 6")
      case True
      with pre h have "frames_loop ?b = ([], Partial h (r @ c))"
        by (simp add: frames_loop.simps [of ?b] Let_def del: take_append drop_append length_append)
      with True Some PendingHeader show ?thesis by (simp add: xz_feed_def consume_def Let_def)
    next
      case False
      let ?rest = "drop (u32le h 6) (r @ c)"
      obtain fs e where f: "frames_loop ?rest = (fs, e)" by fastforce
      have b: "frames_loop ?b = ((h, take (u32le h 6) (r @ c)) # fs, e)"
        using pre h False f
        by (simp add: frames_loop.simps [of ?b] Let_def del: take_append drop_append length_append)
      have "undamaged ?rest" using assms(2) Some PendingHeader b f by (simp add: undamaged_def)
      from consume_body_undamaged [OF this] f have
        "co_frames (consume_body False ?rest) = fs" "co_pending (consume_body False ?rest) = pending_of e"
        by auto
      with False b Some PendingHeader show ?thesis
        by (simp add: xz_feed_def consume_def Let_def del: drop_append take_append)
    qed
  qed
qed

lemma frames_loop_carried: "pending_ok p \<Longrightarrow> frames_loop (carried_bytes p) =
    ([], case p of None \<Rightarrow> Leftover [] | Some (PendingHeader h q) \<Rightarrow> Partial h q | Some (PendingPrefix q) \<Rightarrow> Leftover q)"
proof (cases p rule: pending_ok.cases)
  case (2 h q)
  assume "pending_ok p"
  with 2 show ?thesis by (simp add: frames_loop_header Let_def)
qed (auto simp: frames_loop_stop header_start_def)

lemma undamaged_carried: "pending_ok p \<Longrightarrow> undamaged (carried_bytes p)"
  using frames_loop_carried [of p]
  by (cases p rule: pending_ok.cases) (auto simp: undamaged_def header_start_def)

interpretation xz: chunk_parser xz_feed pending_ok "\<lambda>p c. undamaged (carried_bytes p @ c)"
proof unfold_locales
  fix p :: "pending option" and xs ys
  assume p: "pending_ok p"
  show "xz_feed p [] = (p, [])"
    using xz_feed_parse [OF p, of "[]"] undamaged_carried [OF p] frames_loop_carried [OF p] p
    by (cases p rule: pending_ok.cases) auto
  assume ok: "undamaged (carried_bytes p @ xs @ ys)"
  then have ok1: "undamaged (carried_bytes p @ xs)" using undamaged_prefix [of "carried_bytes p @ xs" ys] by simp
  then show "undamaged (carried_bytes p @ xs)" .
  let ?e = "snd (frames_loop (carried_bytes p @ xs))"
  have no: "\<not> (\<exists>h. ?e = Oversize h)" using ok1 by (auto simp: undamaged_def)
  note app = frames_loop_append [OF no, of ys]
  have f1: "fst (xz_feed p xs) = pending_of ?e" "carried_bytes (fst (xz_feed p xs)) = loop_rest ?e"
    using xz_feed_parse [OF p ok1] by (simp_all add: pending_of_bytes)
  show ok2: "undamaged (carried_bytes (fst (xz_feed p xs)) @ ys)"
    using ok app by (simp add: f1 undamaged_def pending_of_bytes)
  have p2: "pending_ok (fst (xz_feed p xs))" unfolding f1 by (rule pending_of_ok [OF ok1])
  show "xz_feed p (xs @ ys) = (fst (xz_feed (fst (xz_feed p xs)) ys),
      snd (xz_feed p xs) @ snd (xz_feed (fst (xz_feed p xs)) ys))"
    using xz_feed_parse [OF p, of "xs @ ys"] xz_feed_parse [OF p2 ok2] xz_feed_parse [OF p ok1] ok app
    by (simp add: f1 pending_of_bytes)
next
  fix p :: "pending option" and xs
  assume "pending_ok p" "undamaged (carried_bytes p @ xs)"
  then show "pending_ok (fst (xz_feed p xs))" by (simp add: xz_feed_parse pending_of_ok)
qed

section \<open>Well-formed frames\<close>

definition frame_ok :: "bytes \<times> bytes \<Rightarrow> bool" where
  "frame_ok f \<longleftrightarrow> (case f of (h, p) \<Rightarrow> length h = 16 \<and> take 4 h = MAGIC \<and>
     u32le h 6 = length p \<and> length p \<le> MAX_COMMAND_BYTES)"

definition frames_wire :: "(bytes \<times> bytes) list \<Rightarrow> bytes" where
  "frames_wire fs = concat (List.map (\<lambda>(h, p). h @ p) fs)"

lemma frames_wire_simps [simp]: "frames_wire [] = []" "frames_wire ((h, p) # fs) = h @ p @ frames_wire fs"
  by (simp_all add: frames_wire_def)

lemma frames_loop_wire: "\<forall>f\<in>set fs. frame_ok f \<Longrightarrow> frames_loop (frames_wire fs) = (fs, Leftover [])"
proof (induction fs)
  case Nil
  then show ?case by (simp add: frames_loop_stop)
next
  case (Cons f fs)
  obtain h p where f: "f = (h, p)" by (cases f)
  with Cons.prems have ok: "length h = 16" "take 4 h = MAGIC" "u32le h 6 = length p" "length p \<le> MAX_COMMAND_BYTES"
    by (auto simp: frame_ok_def)
  with Cons f show ?case by (simp add: frames_loop_header Let_def)
qed

lemma undamaged_wire: "\<forall>f\<in>set fs. frame_ok f \<Longrightarrow> undamaged (frames_wire fs)"
  by (simp add: undamaged_def frames_loop_wire header_start_def)

lemma xz_run_wire:
  assumes "\<forall>f\<in>set fs. frame_ok f" "concat cs = frames_wire fs"
  shows "run xz_feed None cs = (None, fs)"
proof -
  have u: "undamaged (concat cs)" unfolding assms(2) by (rule undamaged_wire [OF assms(1)])
  have "run xz_feed None cs = xz_feed None (concat cs)"
    by (rule xz.run_concat) (simp_all add: u)
  then show ?thesis using xz_feed_parse [of None "concat cs"] u assms frames_loop_wire [OF assms(1)] by simp
qed

section \<open>Interleaved types\<close>

fun dm_step :: "demux \<Rightarrow> bytes \<times> nat \<Rightarrow> demux \<times> (nat \<times> bytes \<times> bytes) list" where
  "dm_step s (data, type) =
     (let (s', frames) = dm_consumeData s data type in (s', List.map (Pair type) frames))"

definition of_type :: "nat \<Rightarrow> (nat \<times> 'a) list \<Rightarrow> 'a list" where
  "of_type t ws = List.map snd (filter (\<lambda>w. fst w = t) ws)"

definition data_of :: "nat \<Rightarrow> (bytes \<times> nat) list \<Rightarrow> bytes list" where
  "data_of t evs = List.map fst (filter (\<lambda>e. snd e = t) evs)"

lemma dm_note_headers [simp]:
  "dm_pending (fold dm_note_header hs s) = dm_pending s"
  by (induction hs arbitrary: s) (simp_all add: dm_note_header_def Let_def)

lemma dm_consume_own:
  "map_of (dm_pending (fst (dm_consumeData s data t))) t = fst (xz_feed (map_of (dm_pending s) t) data)"
  "snd (dm_consumeData s data t) = snd (xz_feed (map_of (dm_pending s) t) data)"
  by (simp_all add: dm_consumeData_def xz_feed_def Let_def dm_updatePendingBytes_def
      js_get_update js_get_delete split: option.splits)

lemma dm_consume_other:
  "t \<noteq> type \<Longrightarrow> map_of (dm_pending (fst (dm_consumeData s data type))) t = map_of (dm_pending s) t"
  by (simp add: dm_consumeData_def Let_def dm_updatePendingBytes_def js_get_update js_get_delete split: option.splits)

lemma dm_run_projects:
  "run xz_feed (map_of (dm_pending s) t) (data_of t evs) =
     (map_of (dm_pending (run_state dm_step s evs)) t, of_type t (run_out dm_step s evs))"
proof (induction evs arbitrary: s)
  case (Cons e evs)
  obtain data type where e: "e = (data, type)" by (cases e)
  show ?case
  proof (cases "type = t")
    case True
    with Cons [of "fst (dm_step s e)"] dm_consume_own [of s data t] e show ?thesis
      by (simp add: data_of_def of_type_def split_beta Let_def filter_map o_def)
  next
    case False
    with Cons [of "fst (dm_step s e)"] dm_consume_other [of t type s data] e show ?thesis
      by (simp add: data_of_def of_type_def split_beta Let_def filter_map o_def)
  qed
qed (simp add: data_of_def of_type_def)

section \<open>Bounds\<close>

definition dm_inv :: "demux \<Rightarrow> bool" where
  "dm_inv s \<longleftrightarrow> js_wf (dm_pending s) \<and> dm_pendingBytes s = js_total pending_bytes (dm_pending s) \<and>
     length (dm_commands s) \<le> 20 \<and> length (dm_responseLengths s) \<le> 5 \<and>
     (\<forall>t p. map_of (dm_pending s) t = Some p \<longrightarrow> pending_ok (Some p))"

lemma magic_suffix_is_start: "magic_suffix n data = Some s \<Longrightarrow> n \<le> 4 \<Longrightarrow> s \<noteq> [] \<and> header_start s"
proof (induction n)
  case (Suc n)
  show ?case
  proof (cases "drop (length data - Suc n) data = take (Suc n) MAGIC")
    case True
    with Suc.prems have s: "s = take (Suc n) MAGIC" by simp
    then have "length s = Suc n" using Suc.prems(2) by simp
    then have "s \<noteq> []" by auto
    with s \<open>length s = Suc n\<close> Suc.prems(2) show ?thesis by (simp add: header_start_def min_def)
  qed (use Suc in auto)
qed simp

lemma partial_prefix_is_start: "ppcsPartialCommandPrefix data = Some s \<Longrightarrow> s \<noteq> [] \<and> header_start s"
  using magic_suffix_is_start [of "min (length data) 4" data s]
  by (auto simp: ppcsPartialCommandPrefix_def header_start_def split: if_splits)

lemma consume_leftover_ok: "pending_ok (co_pending (consume_leftover body))"
  using partial_prefix_is_start by (auto simp: consume_leftover_def split: option.splits)

lemma consume_body_ok: "pending_ok (co_pending (consume_body b body))"
proof (induction b body rule: consume_body.induct)
  case (1 b body)
  obtain fs e where f: "frames_loop body = (fs, e)" by fastforce
  show ?case
  proof (cases e)
    case (Partial h p)
    then show ?thesis using f frames_loop_partial [of body h p]
      by (simp add: consume_body.simps [of b body])
  next
    case (Leftover r)
    have "pending_ok (co_pending (consume_body True (drop n r)))" if "r \<noteq> []" "ppcsCommandMagicOffset r = Some n" "0 < n \<and> \<not> b" for n
      using 1 [OF f [symmetric] refl refl Leftover that(1,2)] that(3) by blast
    with f Leftover consume_leftover_ok show ?thesis
      by (auto simp: consume_body.simps [of b body] Let_def split: option.splits)
  qed (use f in \<open>simp add: consume_body.simps [of b body]\<close>)
qed

lemma consume_ok: "pending_ok p \<Longrightarrow> pending_ok (co_pending (consume p data))"
  by (cases p rule: pending_ok.cases) (auto simp: consume_def Let_def consume_body_ok)

lemma dm_note_bounds:
  "length (dm_commands s) \<le> 20 \<Longrightarrow> length (dm_commands (fold dm_note_header hs s)) \<le> 20"
  "length (dm_responseLengths s) \<le> 5 \<Longrightarrow> length (dm_responseLengths (fold dm_note_header hs s)) \<le> 5"
  by (induction hs arbitrary: s) (simp_all add: dm_note_header_def Let_def)

lemma dm_step_inv: "dm_inv s \<Longrightarrow> dm_inv (fst (dm_step s e))"
proof -
  assume i: "dm_inv s"
  obtain data t where e: "e = (data, t)" by (cases e)
  have "pending_ok (map_of (dm_pending s) t)"
    using i by (cases "map_of (dm_pending s) t") (auto simp: dm_inv_def)
  then have c: "pending_ok (co_pending (consume (map_of (dm_pending s) t) data))" by (rule consume_ok)
  with i show ?thesis
    by (auto simp: e dm_consumeData_def Let_def dm_inv_def dm_updatePendingBytes_def dm_note_bounds
        js_get_update js_get_delete split: option.splits if_splits)
qed

lemma dm_skip_inv: "dm_inv s \<Longrightarrow> dm_inv (dm_skip s t)"
  by (auto simp: dm_skip_def dm_updatePendingBytes_def dm_inv_def js_get_delete)

interpretation dm: invariant_machine dm_step dm_inv "\<lambda>_. True"
  by unfold_locales (rule dm_step_inv)

lemma pending_bytes_bound: "pending_ok (Some p) \<Longrightarrow> pending_bytes p < MAX_COMMAND_BYTES + 16"
  by (cases p) (auto simp: header_start_def MAX_COMMAND_BYTES_def)

lemma dm_inv_bound: "dm_inv s \<Longrightarrow> dm_pendingBytes s \<le> length (dm_pending s) * (MAX_COMMAND_BYTES + 15)"
proof -
  assume i: "dm_inv s"
  then have "\<forall>e\<in>set (dm_pending s). pending_bytes (snd e) \<le> MAX_COMMAND_BYTES + 15"
    using pending_bytes_bound js_in_set [of "dm_pending s"] by (fastforce simp: dm_inv_def)
  from js_total_bound [OF this] i show ?thesis by (simp add: dm_inv_def)
qed

lemma consume_resync:
  assumes fs: "\<forall>f\<in>set fs. frame_ok f" "fs \<noteq> []" and g: "g \<noteq> []"
    and first: "ppcsCommandMagicOffset (g @ frames_wire fs) = Some (length g)"
  shows "consume None (g @ frames_wire fs) =
    \<lparr> co_frames = fs, co_headers = List.map fst fs, co_pending = None, co_resyncs = 1, co_blocked = False \<rparr>"
proof -
  let ?b = "g @ frames_wire fs"
  have "take 4 ?b \<noteq> MAGIC"
  proof
    assume "take 4 ?b = MAGIC"
    then have "starts_with MAGIC ?b" by (simp add: starts_with_def)
    then show False using first g find_sub_at_start by (fastforce simp: ppcsCommandMagicOffset_def)
  qed
  then have l: "frames_loop ?b = ([], Leftover ?b)" by (simp add: frames_loop_stop)
  have w: "consume_body True (frames_wire fs) =
      \<lparr> co_frames = fs, co_headers = List.map fst fs, co_pending = None, co_resyncs = 0, co_blocked = False \<rparr>"
    by (simp add: consume_body.simps frames_loop_wire [OF fs(1)])
  from l first g w show ?thesis
    by (simp add: consume_def consume_body.simps [of False ?b])
qed

section \<open>Properties\<close>

text \<open>C16: However one peer cuts its command streams into datagrams, and however the datagrams of
  several data types interleave, the frames handled for a type are exactly the frames sent on
  it, in order and complete, and nothing is left pending for that type.\<close>

theorem frames_survive_cutting:
  assumes "\<forall>f\<in>set fs. frame_ok f" "concat (data_of t evs) = frames_wire fs"
  shows "of_type t (run_out dm_step dm_new evs) = fs \<and>
    map_of (dm_pending (run_state dm_step dm_new evs)) t = None"
  using dm_run_projects [of dm_new t evs] xz_run_wire [OF assms] by (simp add: dm_new_def)

lemma frames_survive_cutting_witness:
  "let h = MAGIC @ [0x14, 0x05, 2, 0, 0, 0, 0, 0, 0, 0, 0, 0];
       evs = [(take 3 h, 0), ([9, 9], 1), (drop 3 h @ [7], 0), ([], 0), ([8], 0)]
   in of_type 0 (run_out dm_step dm_new evs) = [(h, [7, 8])] \<and>
      map_of (dm_pending (run_state dm_step dm_new evs)) 0 = None"
proof -
  let ?h = "MAGIC @ [0x14, 0x05, 2, 0, 0, 0, 0, 0, 0, 0, 0, 0]"
  let ?evs = "[(take 3 ?h, 0), ([9, 9], 1), (drop 3 ?h @ [7], 0), ([], 0), ([8], 0)]"
  have "\<forall>f\<in>set [(?h, [7, 8])]. frame_ok f"
    by (simp add: frame_ok_def MAGIC_def u32le_def slice_def MAX_COMMAND_BYTES_def)
  moreover have "concat (data_of 0 ?evs) = frames_wire [(?h, [7, 8])]"
    by (simp add: data_of_def MAGIC_def)
  ultimately show ?thesis unfolding Let_def by (rule frames_survive_cutting)
qed

text \<open>Unexpected bytes before a complete XZYH marker are skipped once per datagram: the frames
  that follow them in the same datagram are all recovered, one resync is counted and nothing
  is blocked or retained.\<close>

theorem resync_recovers_frames:
  assumes "\<forall>f\<in>set fs. frame_ok f" "fs \<noteq> []" "g \<noteq> []"
    and "ppcsCommandMagicOffset (g @ frames_wire fs) = Some (length g)"
    and "map_of (dm_pending s) t = None"
  shows "let (s', frames) = dm_consumeData s (g @ frames_wire fs) t in
    frames = fs \<and> dm_parserResyncs s' = dm_parserResyncs s + 1 \<and>
    dm_parserBlocked s' = dm_parserBlocked s \<and> map_of (dm_pending s') t = None"
proof -
  have "dm_parserResyncs (fold dm_note_header hs u) = dm_parserResyncs u \<and>
      dm_parserBlocked (fold dm_note_header hs u) = dm_parserBlocked u" for hs u
    by (induction hs arbitrary: u) (simp_all add: dm_note_header_def Let_def)
  then show ?thesis
    by (simp add: dm_consumeData_def assms(5) consume_resync [OF assms(1-4)] Let_def
        dm_updatePendingBytes_def js_get_delete)
qed

lemma resync_recovers_frames_witness:
  "let h = MAGIC @ [0x14, 0x05, 1, 0, 0, 0, 0, 0, 0, 0, 0, 0];
       (s', frames) = dm_consumeData dm_new ([1, 0x58, 2] @ frames_wire [(h, [7])]) 0
   in frames = [(h, [7])] \<and> dm_parserResyncs s' = dm_parserResyncs dm_new + 1 \<and>
      dm_parserBlocked s' = dm_parserBlocked dm_new \<and> map_of (dm_pending s') 0 = None"
proof -
  let ?h = "MAGIC @ [0x14, 0x05, 1, 0, 0, 0, 0, 0, 0, 0, 0, 0]"
  have "\<forall>f\<in>set [(?h, [7])]. frame_ok f"
    by (simp add: frame_ok_def MAGIC_def u32le_def slice_def MAX_COMMAND_BYTES_def)
  moreover have "ppcsCommandMagicOffset ([1, 0x58, 2] @ frames_wire [(?h, [7])]) = Some (length [1, 0x58, 2 :: byte])"
    by (simp add: ppcsCommandMagicOffset_def MAGIC_def starts_with_def)
  moreover have "map_of (dm_pending dm_new) 0 = None" by (simp add: dm_new_def)
  ultimately show ?thesis
    using resync_recovers_frames [of "[(?h, [7])]" "[1, 0x58, 2]" dm_new 0] by (simp add: Let_def)
qed

text \<open>Whatever bytes arrive, the retained partial frames are well formed (a complete header with
  an admissible size and fewer payload bytes than it declares, or a start of a header), the
  byte counter is their exact total, at most 16 MiB and 15 bytes for each data type, and the
  diagnostic lists stay within 20 and 5 entries.\<close>

theorem pending_state_bounded:
  "let s = run_state dm_step dm_new evs in
   dm_inv s \<and> dm_pendingBytes s \<le> length (dm_pending s) * (16 * 1024 * 1024 + 15)"
proof -
  have "dm_inv (run_state dm_step dm_new evs)"
    by (rule dm.run_inv) (simp_all add: dm_inv_def dm_new_def)
  with dm_inv_bound [OF this] show ?thesis by (simp add: MAX_COMMAND_BYTES_def)
qed

end
