(* ===== verification/Ppcs_Normalizer.thy ===== *)
theory Ppcs_Normalizer
  imports Machine
begin

text \<open>
  \<open>PpcsVideoStreamNormalizer\<close> of \<open>stream/first-party-ppcs.ts\<close>: one camera's video byte
  stream becomes Annex-B framing, with the framing chosen from the first usable bytes and
  the NAL evidence of the emitted bytes. Property theorems: pass-through, the conversion of
  length-prefixed streams for every cutting whose first piece shows a NAL header, the
  bounds of the evidence, and the framing decision that a first piece of exactly four
  bytes takes wrongly.
\<close>

definition ANNEX_B_START_CODE :: bytes where
  "ANNEX_B_START_CODE = [0, 0, 0, 1]"

definition MAX_NAL_UNIT_BYTES :: nat where
  "MAX_NAL_UNIT_BYTES = 16 * 1024 * 1024"

definition beginsWithAnnexB :: "bytes \<Rightarrow> bool" where
  "beginsWithAnnexB payload \<longleftrightarrow> length payload \<ge> 4 \<and> payload ! 0 = 0 \<and> payload ! 1 = 0 \<and>
     (payload ! 2 = 1 \<or> payload ! 2 = 0 \<and> payload ! 3 = 1)"

datatype framing = FUnknown | FAnnexB | FLengthPrefixed

datatype video_codec = H264 | H265

record normalizer =
  nz_mode :: framing
  nz_prefix :: bytes
  nz_remaining :: nat
  nz_tail :: bytes
  nz_headers :: "byte list"
  nz_declared :: "video_codec option"

definition nz_new :: normalizer where
  "nz_new = \<lparr> nz_mode = FUnknown, nz_prefix = [], nz_remaining = 0, nz_tail = [],
     nz_headers = [], nz_declared = None \<rparr>"

section \<open>NAL evidence\<close>

text \<open>The scanner of \<open>#recordNalTypes\<close>: the bytes that follow start codes, in order.\<close>

function nal_scan :: "bytes \<Rightarrow> byte list" where
  "nal_scan data =
     (if length data \<le> 3 then []
      else if data ! 0 \<noteq> 0 \<or> data ! 1 \<noteq> 0 then nal_scan (drop 1 data)
      else
        (let startLength = (if data ! 2 = 1 then 3 else if data ! 2 = 0 \<and> data ! 3 = 1 then 4 else 0) in
         if startLength = 0 then nal_scan (drop 1 data)
         else if startLength \<ge> length data then []
         else data ! startLength # nal_scan (drop (startLength + 1) data)))"
  by pat_completeness auto
termination
  by (relation "measure length") auto

declare nal_scan.simps [simp del]

definition note_header :: "byte \<Rightarrow> byte list \<Rightarrow> byte list" where
  "note_header b hs = (if b \<notin> set hs \<and> length hs < 16 then hs @ [b] else hs)"

definition recordNalTypes :: "bytes \<Rightarrow> normalizer \<Rightarrow> normalizer" where
  "recordNalTypes output s =
     (let data = nz_tail s @ output in
      s\<lparr>nz_headers := fold note_header (nal_scan data) (nz_headers s),
        nz_tail := drop (length data - 4) data\<rparr>)"

definition nz_codec :: "normalizer \<Rightarrow> video_codec option" where
  "nz_codec s =
     (let h264Types = set (List.map (\<lambda>b. b AND 0x1f) (nz_headers s)) in
      if 7 \<in> h264Types \<and> 8 \<in> h264Types then Some H264
      else if list_ex (\<lambda>b. b AND 1 = 0 \<and> (drop_bit 1 b AND 0x3f) \<in> {32, 33, 34}) (nz_headers s) then Some H265
      else if list_ex (\<lambda>b. b AND 0x1f = 7 \<or> b AND 0x1f = 8) (nz_headers s) then Some H264
      else nz_declared s)"

definition nz_nalTypes :: "normalizer \<Rightarrow> byte list" where
  "nz_nalTypes s =
     rev (remdups (rev (List.map (\<lambda>b. if nz_codec s = Some H265 then drop_bit 1 b AND 0x3f else b AND 0x1f)
       (nz_headers s))))"

section \<open>Conversion\<close>

text \<open>The loop over a length-prefixed stream: output, bytes of the NAL still missing, and the
  incomplete prefix.\<close>

function lp_loop :: "nat \<Rightarrow> bytes \<Rightarrow> bytes \<times> nat \<times> bytes" where
  "lp_loop remaining data =
     (if data = [] then ([], remaining, [])
      else if remaining > 0 then
        (let carried = min remaining (length data);
             (out, r, p) = lp_loop (remaining - carried) (drop carried data) in
         (take carried data @ out, r, p))
      else if length data < 4 then ([], 0, data)
      else
        (let len = u32be data 0 in
         if len = 0 \<or> len > MAX_NAL_UNIT_BYTES then (data, 0, [])
         else (let (out, r, p) = lp_loop len (drop 4 data) in (ANNEX_B_START_CODE @ out, r, p))))"
  by pat_completeness auto
termination
  by (relation "measure (\<lambda>(remaining, data). length data)") auto

declare lp_loop.simps [simp del]

text \<open>\<open>push\<close>: the mode decision, then pass-through or conversion.\<close>

definition nz_decide :: "bytes \<Rightarrow> framing" where
  "nz_decide data =
     (if beginsWithAnnexB data then FAnnexB
      else
        (let len = u32be data 0 in
         if len = 0 \<or> len > MAX_NAL_UNIT_BYTES \<or> length data \<le> 4 \<or>
            data ! 4 AND 0x80 \<noteq> 0 \<or> data ! 4 AND 0x1f = 0
         then FAnnexB else FLengthPrefixed))"

definition nz_convert :: "bytes \<Rightarrow> normalizer \<Rightarrow> normalizer \<times> bytes" where
  "nz_convert data s =
     (if nz_mode s = FAnnexB then (recordNalTypes data s, data)
      else
        (let (out, r, p) = lp_loop (nz_remaining s) data;
             s = s\<lparr>nz_remaining := r, nz_prefix := p\<rparr> in
         if out = [] then (s, []) else (recordNalTypes out s, out)))"

definition nz_push :: "normalizer \<Rightarrow> bytes \<Rightarrow> video_codec option \<Rightarrow> normalizer \<times> bytes" where
  "nz_push s payload declared =
     (let s = (if nz_declared s = None then s\<lparr>nz_declared := declared\<rparr> else s);
          data = nz_prefix s @ payload;
          s = s\<lparr>nz_prefix := []\<rparr> in
      if nz_mode s = FUnknown then
        (if length data < 4 then (s\<lparr>nz_prefix := data\<rparr>, [])
         else nz_convert data (s\<lparr>nz_mode := nz_decide data\<rparr>))
      else nz_convert data s)"

fun nz_step :: "normalizer \<Rightarrow> bytes \<times> video_codec option \<Rightarrow> normalizer \<times> byte list" where
  "nz_step s (payload, declared) = nz_push s payload declared"

section \<open>The conversion loop does not depend on the cut\<close>

text \<open>A length field that is zero or too large: the code then emits the rest of the piece raw.\<close>

function lp_bad :: "nat \<Rightarrow> bytes \<Rightarrow> bool" where
  "lp_bad remaining data =
     (if data = [] then False
      else if remaining > 0 then
        (let carried = min remaining (length data) in lp_bad (remaining - carried) (drop carried data))
      else if length data < 4 then False
      else (let len = u32be data 0 in
         len = 0 \<or> len > MAX_NAL_UNIT_BYTES \<or> lp_bad len (drop 4 data)))"
  by pat_completeness auto
termination
  by (relation "measure (\<lambda>(remaining, data). length data)") auto

declare lp_bad.simps [simp del]

fun lp_rest :: "nat \<times> bytes \<Rightarrow> bool" where
  "lp_rest (r, p) = (length p < 4 \<and> (r > 0 \<longrightarrow> p = []))"

fun lp_feed :: "nat \<times> bytes \<Rightarrow> bytes \<Rightarrow> (nat \<times> bytes) \<times> byte list" where
  "lp_feed (r, p) data = (let (out, r', p') = lp_loop r (p @ data) in ((r', p'), out))"

lemma u32be_append: "length xs \<ge> 4 \<Longrightarrow> u32be (xs @ ys) 0 = u32be xs 0"
  by (simp add: u32be_def)

lemma lp_loop_rest: "lp_loop r data = (out, r', p') \<Longrightarrow> lp_rest (r', p')"
proof (induction r data arbitrary: out rule: lp_loop.induct)
  case (1 r data)
  show ?case
  proof (cases "data = []")
    case True
    with 1(3) show ?thesis by (simp add: lp_loop.simps)
  next
    case False
    show ?thesis
    proof (cases "r > 0")
      case True
      with False 1(1) [OF False True refl] 1(3) show ?thesis
        by (auto simp: lp_loop.simps [of _ data] Let_def split: prod.splits)
    next
      case r: False
      show ?thesis
      proof (cases "length data < 4 \<or> u32be data 0 = 0 \<or> u32be data 0 > MAX_NAL_UNIT_BYTES")
        case True
        with False r 1(3) show ?thesis
          by (auto simp: lp_loop.simps [of _ data] Let_def split: if_splits)
      next
        case n: False
        with False r 1(2) [OF False r _ refl] 1(3) show ?thesis
          by (auto simp: lp_loop.simps [of _ data] Let_def split: prod.splits)
      qed
    qed
  qed
qed

lemma lp_loop_append:
  "\<not> lp_bad r xs \<Longrightarrow> lp_loop r xs = (out, r', p') \<Longrightarrow>
     lp_loop r (xs @ ys) = (let (out2, r2, p2) = lp_loop r' (p' @ ys) in (out @ out2, r2, p2)) \<and>
     (lp_bad r (xs @ ys) \<longleftrightarrow> lp_bad r' (p' @ ys))"
proof (induction r xs arbitrary: out rule: lp_loop.induct)
  case (1 r data)
  show ?case
  proof (cases "data = []")
    case True
    with 1(4) have "out = []" "r' = r" "p' = []" by (simp_all add: lp_loop.simps [of r "[]"])
    with True show ?thesis by (simp split: prod.splits)
  next
    case False
    show ?thesis
    proof (cases "r > 0")
      case True
      let ?c = "min r (length data)"
      obtain o2 where o2: "lp_loop (r - ?c) (drop ?c data) = (o2, r', p')" "out = take ?c data @ o2"
        using False True 1(4) by (auto simp: lp_loop.simps [of _ data] Let_def split: prod.splits)
      have nb: "\<not> lp_bad (r - ?c) (drop ?c data)"
        using False True 1(3) by (simp add: lp_bad.simps [of _ data] Let_def)
      have IH: "lp_loop (r - ?c) (drop ?c data @ ys) = (let (out2, r2, p2) = lp_loop r' (p' @ ys) in (o2 @ out2, r2, p2))"
        "lp_bad (r - ?c) (drop ?c data @ ys) \<longleftrightarrow> lp_bad r' (p' @ ys)"
        using 1(1) [OF False True refl nb o2(1)] by auto
      show ?thesis
      proof (cases "r \<le> length data")
        case le: True
        then have "lp_loop r (data @ ys) = (let (out2, r2, p2) = lp_loop 0 (drop r data @ ys) in (take r data @ out2, r2, p2))"
          "lp_bad r (data @ ys) \<longleftrightarrow> lp_bad 0 (drop r data @ ys)"
          using True False by (simp_all add: lp_loop.simps [of _ "data @ ys"] lp_bad.simps [of _ "data @ ys"] Let_def min_def)
        with IH o2(2) le show ?thesis by (simp add: split_beta Let_def min_def)
      next
        case False
        then have c: "?c = length data" by simp
        with o2 have e: "o2 = []" "r' = r - length data" "p' = []" "out = data"
          by (simp_all add: lp_loop.simps [of _ "[]"])
        show ?thesis
        proof (cases "ys = []")
          case True
          with e 1(3,4) show ?thesis by (simp add: lp_loop.simps [of _ "[]"] lp_bad.simps [of _ "[]"])
        next
          case ys: False
          let ?d = "min (r - length data) (length ys)"
          have m: "min r (length (data @ ys)) = length data + ?d" using False by auto
          have "lp_loop r (data @ ys) = (let (out2, r2, p2) = lp_loop (r - (length data + ?d)) (drop ?d ys) in (data @ take ?d ys @ out2, r2, p2))"
            "lp_bad r (data @ ys) \<longleftrightarrow> lp_bad (r - (length data + ?d)) (drop ?d ys)"
            using True ys by (simp_all add: lp_loop.simps [of _ "data @ ys"] lp_bad.simps [of _ "data @ ys"] Let_def m del: length_append)
          moreover have "lp_loop (r - length data) ys = (let (out2, r2, p2) = lp_loop (r - length data - ?d) (drop ?d ys) in (take ?d ys @ out2, r2, p2))"
            "lp_bad (r - length data) ys \<longleftrightarrow> lp_bad (r - length data - ?d) (drop ?d ys)"
            using False ys by (simp_all add: lp_loop.simps [of "r - length data" ys] lp_bad.simps [of "r - length data" ys] Let_def)
          ultimately show ?thesis using e by (simp add: split_beta Let_def)
        qed
      qed
    next
      case r: False
      show ?thesis
      proof (cases "length data < 4")
        case True
        with False r 1(4) have "out = []" "r' = 0" "p' = data" by (simp_all add: lp_loop.simps [of _ data])
        with r show ?thesis by (simp split: prod.splits)
      next
        case len: False
        have ok: "u32be data 0 \<noteq> 0" "\<not> u32be data 0 > MAX_NAL_UNIT_BYTES" "\<not> lp_bad (u32be data 0) (drop 4 data)"
          using False r len 1(3) by (auto simp: lp_bad.simps [of _ data] Let_def)
        then obtain o2 where o2: "lp_loop (u32be data 0) (drop 4 data) = (o2, r', p')" "out = ANNEX_B_START_CODE @ o2"
          using False r len 1(4) by (auto simp: lp_loop.simps [of _ data] Let_def split: prod.splits)
        have IH: "lp_loop (u32be data 0) (drop 4 data @ ys) = (let (out2, r2, p2) = lp_loop r' (p' @ ys) in (o2 @ out2, r2, p2))"
          "lp_bad (u32be data 0) (drop 4 data @ ys) \<longleftrightarrow> lp_bad r' (p' @ ys)"
          using 1(2) [OF False r len refl _ ok(3) o2(1)] ok by auto
        have "lp_loop r (data @ ys) = (let (out2, r2, p2) = lp_loop (u32be data 0) (drop 4 data @ ys) in (ANNEX_B_START_CODE @ out2, r2, p2))"
          "lp_bad r (data @ ys) \<longleftrightarrow> lp_bad (u32be data 0) (drop 4 data @ ys)"
          using False r len ok
          by (simp_all add: lp_loop.simps [of _ "data @ ys"] lp_bad.simps [of _ "data @ ys"] u32be_append Let_def)
        with IH o2(2) show ?thesis by (simp add: split_beta Let_def)
      qed
    qed
  qed
qed

lemma lp_bad_prefix: "\<not> lp_bad r (xs @ ys) \<Longrightarrow> \<not> lp_bad r xs"
proof (induction r xs rule: lp_bad.induct)
  case (1 r data)
  show ?case
  proof (cases "data = []")
    case False
    show ?thesis
    proof (cases "r > 0")
      case True
      show ?thesis
      proof (cases "r \<le> length data")
        case le: True
        with True False 1(1) [OF False True refl] 1(3) show ?thesis
          by (simp add: lp_bad.simps [of _ data] lp_bad.simps [of _ "data @ ys"] Let_def min_def)
      next
        case le: False
        with True False show ?thesis
          by (simp add: lp_bad.simps [of _ data] lp_bad.simps [of _ "[]"] Let_def min_def)
      qed
    next
      case r: False
      show ?thesis
      proof (cases "length data < 4")
        case len: False
        then have "u32be data 0 \<noteq> 0" "u32be data 0 \<le> MAX_NAL_UNIT_BYTES" "\<not> lp_bad (u32be data 0) (drop 4 data @ ys)"
          using 1(3) False r by (auto simp: lp_bad.simps [of _ "data @ ys"] u32be_append Let_def)
        with False r len 1(2) [OF False r len refl] show ?thesis
          by (auto simp: lp_bad.simps [of _ data] Let_def)
      qed (use False r in \<open>simp add: lp_bad.simps\<close>)
    qed
  qed (simp add: lp_bad.simps)
qed

fun lp_ok :: "nat \<times> bytes \<Rightarrow> bytes \<Rightarrow> bool" where
  "lp_ok (r, p) data = (\<not> lp_bad r (p @ data))"

lemma lp_feed_nil: "lp_rest s \<Longrightarrow> lp_feed s [] = (s, [])"
  by (cases s) (auto simp: lp_loop.simps)

interpretation lp: chunk_parser lp_feed lp_rest lp_ok
proof unfold_locales
  fix s xs ys
  assume s: "lp_rest s"
  obtain r p where rp: "s = (r, p)" by (cases s)
  show "lp_feed s [] = (s, [])" by (rule lp_feed_nil [OF s])
  assume ok: "lp_ok s (xs @ ys)"
  then show ok1: "lp_ok s xs" using lp_bad_prefix [of r "p @ xs" ys] by (simp add: rp)
  obtain out r' p' where l: "lp_loop r (p @ xs) = (out, r', p')" by (rule prod_cases3)
  have nb: "\<not> lp_bad r (p @ xs)" using ok1 by (simp add: rp)
  note app = lp_loop_append [OF nb l, of ys]
  from app ok show "lp_ok (fst (lp_feed s xs)) ys" by (simp add: rp l)
  from app show "lp_feed s (xs @ ys) = (fst (lp_feed (fst (lp_feed s xs)) ys), snd (lp_feed s xs) @ snd (lp_feed (fst (lp_feed s xs)) ys))"
    by (simp add: rp l split_beta Let_def)
next
  fix s xs
  assume "lp_rest s" "lp_ok s xs"
  show "lp_rest (fst (lp_feed s xs))"
    using lp_loop_rest [of "fst s" "snd s @ xs"] by (cases s) (auto simp: Let_def split: prod.splits)
qed

section \<open>Whole streams\<close>

lemma nz_record_fields [simp]:
  "nz_mode (recordNalTypes out s) = nz_mode s" "nz_prefix (recordNalTypes out s) = nz_prefix s"
  "nz_remaining (recordNalTypes out s) = nz_remaining s" "nz_declared (recordNalTypes out s) = nz_declared s"
  by (simp_all add: recordNalTypes_def Let_def)

lemma nz_push_annexb:
  "nz_mode s = FAnnexB \<Longrightarrow> snd (nz_push s c d) = nz_prefix s @ c \<and>
     nz_mode (fst (nz_push s c d)) = FAnnexB \<and> nz_prefix (fst (nz_push s c d)) = []"
  by (simp add: nz_push_def nz_convert_def Let_def)

lemma nz_run_annexb:
  "nz_mode s = FAnnexB \<Longrightarrow> nz_prefix s = [] \<Longrightarrow> run_out nz_step s evs = concat (List.map fst evs)"
proof (induction evs arbitrary: s)
  case (Cons e evs)
  obtain c d where e: "e = (c, d)" by (cases e)
  from nz_push_annexb [OF Cons.prems(1), of c d] Cons show ?case
    by (simp add: e run_out_Cons del: run.simps)
qed simp

lemma nz_push_length:
  assumes "nz_mode s = FLengthPrefixed"
  shows "snd (nz_push s c d) = snd (lp_feed (nz_remaining s, nz_prefix s) c) \<and>
     nz_mode (fst (nz_push s c d)) = FLengthPrefixed \<and>
     (nz_remaining (fst (nz_push s c d)), nz_prefix (fst (nz_push s c d))) =
       fst (lp_feed (nz_remaining s, nz_prefix s) c)"
  using assms by (auto simp: nz_push_def nz_convert_def Let_def split: prod.splits)

lemma nz_run_length:
  "nz_mode s = FLengthPrefixed \<Longrightarrow>
     run_out nz_step s evs = snd (run lp_feed (nz_remaining s, nz_prefix s) (List.map fst evs))"
proof (induction evs arbitrary: s)
  case (Cons e evs)
  obtain c d where e: "e = (c, d)" by (cases e)
  from nz_push_length [OF Cons.prems, of c d] Cons.IH [of "fst (nz_push s c d)"] show ?case
    by (simp add: e split_beta Let_def)
qed simp

definition nals_wire :: "bytes list \<Rightarrow> bytes" where
  "nals_wire ns = concat (List.map (\<lambda>n. be_bytes 4 (length n) @ n) ns)"

definition nals_annexb :: "bytes list \<Rightarrow> bytes" where
  "nals_annexb ns = concat (List.map (\<lambda>n. ANNEX_B_START_CODE @ n) ns)"

lemma u32be_prefix: "n < 2 ^ 32 \<Longrightarrow> u32be (be_bytes 4 n @ xs) 0 = n"
  by (simp add: u32be_def be_nat_be_bytes)

lemma lp_loop_nal:
  assumes "0 < length n" "length n \<le> MAX_NAL_UNIT_BYTES"
  shows "lp_loop 0 (be_bytes 4 (length n) @ n @ xs) =
      (let (out, r, p) = lp_loop 0 xs in (ANNEX_B_START_CODE @ n @ out, r, p))"
    "lp_bad 0 (be_bytes 4 (length n) @ n @ xs) \<longleftrightarrow> lp_bad 0 xs"
proof -
  let ?b = "be_bytes 4 (length n)"
  have u: "u32be (?b @ n @ xs) 0 = length n"
    by (rule u32be_prefix) (use assms(2) in \<open>simp add: MAX_NAL_UNIT_BYTES_def\<close>)
  have ne: "?b @ n @ xs \<noteq> []" "\<not> length (?b @ n @ xs) < 4" using assms(1) by auto
  have d: "drop 4 (?b @ n @ xs) = n @ xs" by simp
  have "lp_loop (length n) (n @ xs) = (let (out, r, p) = lp_loop 0 xs in (n @ out, r, p))"
    "lp_bad (length n) (n @ xs) \<longleftrightarrow> lp_bad 0 xs"
    using assms(1) by (simp_all add: lp_loop.simps [of _ "n @ xs"] lp_bad.simps [of _ "n @ xs"])
  then show "lp_loop 0 (?b @ n @ xs) = (let (out, r, p) = lp_loop 0 xs in (ANNEX_B_START_CODE @ n @ out, r, p))"
    "lp_bad 0 (?b @ n @ xs) \<longleftrightarrow> lp_bad 0 xs"
    using assms u ne d
    by (simp_all add: lp_loop.simps [of _ "?b @ n @ xs"] lp_bad.simps [of _ "?b @ n @ xs"] split_beta Let_def
        del: append_is_Nil_conv length_append drop_append)
qed

lemma lp_loop_wire:
  "\<forall>n\<in>set ns. 0 < length n \<and> length n \<le> MAX_NAL_UNIT_BYTES \<Longrightarrow>
     lp_loop 0 (nals_wire ns) = (nals_annexb ns, 0, []) \<and> \<not> lp_bad 0 (nals_wire ns)"
proof (induction ns)
  case Nil
  then show ?case by (simp add: nals_wire_def nals_annexb_def lp_loop.simps lp_bad.simps)
next
  case (Cons n ns)
  with lp_loop_nal [of n "nals_wire ns"] show ?case by (simp add: nals_wire_def nals_annexb_def)
qed

lemma u32be_nth: "length d \<ge> 4 \<Longrightarrow>
    u32be d 0 = unat (d ! 0) * 16777216 + unat (d ! 1) * 65536 + unat (d ! 2) * 256 + unat (d ! 3)"
proof -
  assume "length d \<ge> 4"
  then obtain a b c e xs where "d = a # b # c # e # xs"
    by (cases d; cases "tl d"; cases "tl (tl d)"; cases "tl (tl (tl d))") auto
  then show ?thesis by (simp add: u32be_def slice_def be_nat_def)
qed

text \<open>Only a length of 1 or of 256 to 511 looks like a start code.\<close>

definition reads_as_start_code :: "nat \<Rightarrow> bool" where
  "reads_as_start_code len \<longleftrightarrow> len = 1 \<or> 256 \<le> len \<and> len \<le> 511"

lemma annexb_length:
  assumes "length d \<ge> 4"
  shows "beginsWithAnnexB d \<longleftrightarrow> reads_as_start_code (u32be d 0)"
proof -
  note b = unat_byte_bound [of "d ! 0"] unat_byte_bound [of "d ! 1"] unat_byte_bound [of "d ! 2"] unat_byte_bound [of "d ! 3"]
  have z: "d ! i = 0 \<longleftrightarrow> unat (d ! i) = 0" "d ! i = 1 \<longleftrightarrow> unat (d ! i) = 1" for i
    by (simp_all add: word_unat_eq_iff)
  have sum: "(w * 16777216 + x * 65536 + y * 256 + v = 1 \<or> 256 \<le> w * 16777216 + x * 65536 + y * 256 + v \<and> w * 16777216 + x * 65536 + y * 256 + v \<le> 511) =
      (w = 0 \<and> x = 0 \<and> (y = 1 \<or> y = 0 \<and> v = 1))" if "v < 256" for w x y v :: nat
    using that by (cases w; cases x; cases y; cases "y - 1") auto
  show ?thesis using b(4) assms
    unfolding beginsWithAnnexB_def reads_as_start_code_def u32be_nth [OF assms] z sum [OF b(4)] by simp
qed

text \<open>The first unit decides: its length must not read as a start code, and its header byte must have the forbidden
  bit clear and not be zero in its low five bits.\<close>

definition converts :: "bytes \<Rightarrow> bool" where
  "converts n \<longleftrightarrow> \<not> reads_as_start_code (length n) \<and> n ! 0 AND 0x80 = 0 \<and> n ! 0 AND 0x1f \<noteq> 0"

lemma nz_decide_first:
  assumes "0 < length n" "length n \<le> MAX_NAL_UNIT_BYTES" "length c \<ge> 5" "c @ cs = be_bytes 4 (length n) @ n @ xs"
  shows "nz_decide c = (if converts n then FLengthPrefixed else FAnnexB)"
proof -
  have u: "u32be c 0 = length n"
  proof -
    have "u32be c 0 = u32be (c @ cs) 0" using assms(3) by (simp add: u32be_append)
    also have "\<dots> = length n" unfolding assms(4)
      by (rule u32be_prefix) (use assms(2) in \<open>simp add: MAX_NAL_UNIT_BYTES_def\<close>)
    finally show ?thesis .
  qed
  have "c ! 4 = (c @ cs) ! 4" using assms(3) by (simp add: nth_append)
  also have "\<dots> = n ! 0" unfolding assms(4) using assms(1) by (simp add: nth_append)
  finally have h: "c ! 4 = n ! 0" .
  show ?thesis using annexb_length [of c] u h assms by (auto simp: nz_decide_def converts_def Let_def)
qed

lemma nz_run_unknown_annexb:
  "nz_mode s = FUnknown \<Longrightarrow> length (nz_prefix s) < 4 \<Longrightarrow>
     beginsWithAnnexB (nz_prefix s @ concat (List.map fst evs)) \<Longrightarrow>
     run_out nz_step s evs = nz_prefix s @ concat (List.map fst evs)"
proof (induction evs arbitrary: s)
  case Nil
  then show ?case by (simp add: beginsWithAnnexB_def)
next
  case (Cons e evs)
  obtain c d where e: "e = (c, d)" by (cases e)
  let ?d = "nz_prefix s @ c"
  show ?case
  proof (cases "length ?d < 4")
    case True
    then have "snd (nz_push s c d) = []" "nz_mode (fst (nz_push s c d)) = FUnknown"
      "nz_prefix (fst (nz_push s c d)) = ?d"
      using Cons.prems(1) by (auto simp: nz_push_def Let_def)
    with Cons.IH [of "fst (nz_push s c d)"] Cons.prems(3) True show ?thesis
      by (simp add: e run_out_Cons del: run.simps)
  next
    case False
    have "beginsWithAnnexB ?d"
      using Cons.prems(3) False by (auto simp: beginsWithAnnexB_def e nth_append split: if_splits)
    then have "nz_decide ?d = FAnnexB" by (simp add: nz_decide_def)
    then have "snd (nz_push s c d) = ?d" "nz_mode (fst (nz_push s c d)) = FAnnexB" "nz_prefix (fst (nz_push s c d)) = []"
      using Cons.prems(1) False by (auto simp: nz_push_def nz_convert_def Let_def)
    with nz_run_annexb show ?thesis by (simp add: e run_out_Cons del: run.simps)
  qed
qed

section \<open>State bounds\<close>

definition nz_inv :: "normalizer \<Rightarrow> bool" where
  "nz_inv s \<longleftrightarrow> lp_rest (nz_remaining s, nz_prefix s) \<and> nz_remaining s \<le> MAX_NAL_UNIT_BYTES \<and>
     length (nz_tail s) \<le> 4 \<and> distinct (nz_headers s) \<and> length (nz_headers s) \<le> 16"

lemma note_headers_bounds:
  "distinct hs \<and> length hs \<le> 16 \<Longrightarrow>
     distinct (fold note_header bs hs) \<and> length (fold note_header bs hs) \<le> 16"
  by (induction bs arbitrary: hs) (auto simp: note_header_def)

lemma nz_record_inv: "nz_inv s \<Longrightarrow> nz_inv (recordNalTypes out s)"
  using note_headers_bounds [of "nz_headers s"] by (auto simp: nz_inv_def recordNalTypes_def Let_def)

lemma lp_loop_remaining: "r \<le> MAX_NAL_UNIT_BYTES \<Longrightarrow> fst (snd (lp_loop r data)) \<le> MAX_NAL_UNIT_BYTES"
proof (induction r data rule: lp_loop.induct)
  case (1 r data)
  then show ?case
    by (subst lp_loop.simps) (auto simp: Let_def split_beta)
qed

lemma nz_convert_inv: "nz_inv s \<Longrightarrow> nz_inv (fst (nz_convert data s))"
proof (cases "nz_mode s = FAnnexB")
  case False
  assume i: "nz_inv s"
  obtain out r p where l: "lp_loop (nz_remaining s) data = (out, r, p)" by (rule prod_cases3)
  have "nz_inv (s\<lparr>nz_remaining := r, nz_prefix := p\<rparr>)"
    using i lp_loop_rest [OF l] lp_loop_remaining [of "nz_remaining s" data] l by (simp add: nz_inv_def)
  with False l show ?thesis by (simp add: nz_convert_def Let_def nz_record_inv)
qed (simp add: nz_convert_def nz_record_inv)

lemma nz_step_inv: "nz_inv s \<Longrightarrow> nz_mode s = FUnknown \<longrightarrow> nz_remaining s = 0 \<Longrightarrow>
    nz_inv (fst (nz_step s e)) \<and> (nz_mode (fst (nz_step s e)) = FUnknown \<longrightarrow> nz_remaining (fst (nz_step s e)) = 0)"
proof -
  assume i: "nz_inv s" "nz_mode s = FUnknown \<longrightarrow> nz_remaining s = 0"
  obtain c d where e: "e = (c, d)" by (cases e)
  define s1 where "s1 = (if nz_declared s = None then s\<lparr>nz_declared := d\<rparr> else s)"
  have s1: "nz_inv (s1\<lparr>nz_prefix := [], nz_mode := m\<rparr>)" "nz_mode s1 = nz_mode s" "nz_remaining s1 = nz_remaining s"
    "nz_prefix s1 = nz_prefix s" "nz_inv (s1\<lparr>nz_prefix := []\<rparr>)" for m
    using i by (auto simp: s1_def nz_inv_def)
  have m: "nz_mode (fst (nz_convert x u)) = nz_mode u" for x u
    by (simp add: nz_convert_def split_beta Let_def)
  have dm: "nz_decide x \<noteq> FUnknown" for x by (simp add: nz_decide_def Let_def)
  show ?thesis
  proof (cases "nz_mode s = FUnknown \<and> length (nz_prefix s @ c) < 4")
    case True
    with i show ?thesis by (auto simp: e nz_push_def Let_def nz_inv_def)
  next
    case False
    then have "fst (nz_step s e) = fst (nz_convert (nz_prefix s @ c)
        (if nz_mode s = FUnknown then s1\<lparr>nz_prefix := [], nz_mode := nz_decide (nz_prefix s @ c)\<rparr> else s1\<lparr>nz_prefix := []\<rparr>))"
      by (auto simp: e nz_push_def s1_def Let_def)
    with s1 m dm i show ?thesis by (auto intro!: nz_convert_inv)
  qed
qed

interpretation nz: invariant_machine nz_step
  "\<lambda>s. nz_inv s \<and> (nz_mode s = FUnknown \<longrightarrow> nz_remaining s = 0)" "\<lambda>_. True"
  by unfold_locales (use nz_step_inv in blast)

section \<open>Properties\<close>

text \<open>C21: What happens to a four-byte length-prefixed stream of NAL units, for every cutting into pieces whose first piece
  shows the first NAL header (five bytes). When the first unit's length does not read as a start code (it is not 1 and not 256 to 511)
  and its header byte has the forbidden bit clear and is not zero in its low five bits, the stream is converted to Annex-B exactly: one start code for
  each unit and every payload byte kept. Otherwise the whole stream is passed on unconverted; so is an H.265 stream
  that begins with a video parameter set, whose header byte 0x40 is zero in its low five bits.\<close>

theorem length_prefixed_converted:
  assumes "\<forall>m\<in>set (n # ns). 0 < length m \<and> length m \<le> MAX_NAL_UNIT_BYTES"
    and "length c \<ge> 5" "concat (c # List.map fst evs) = nals_wire (n # ns)"
  shows "run_out nz_step nz_new ((c, d) # evs) = (if converts n then nals_annexb (n # ns) else nals_wire (n # ns))"
proof -
  have w: "c @ concat (List.map fst evs) = be_bytes 4 (length n) @ n @ nals_wire ns"
    using assms(3) by (simp add: nals_wire_def)
  have dec: "nz_decide c = (if converts n then FLengthPrefixed else FAnnexB)"
    by (rule nz_decide_first [OF _ _ assms(2) w]) (use assms(1) in auto)
  show ?thesis
  proof (cases "converts n")
    case True
    define s1 where "s1 = nz_new\<lparr>nz_declared := d, nz_mode := FLengthPrefixed\<rparr>"
    have p: "nz_push nz_new c d = nz_convert c s1"
      using assms(2) dec True by (simp add: nz_push_def nz_new_def s1_def Let_def)
    have s1: "nz_mode s1 = FLengthPrefixed" "(nz_remaining s1, nz_prefix s1) = (0, [])"
      by (simp_all add: s1_def nz_new_def)
    have q: "nz_push s1 c d = nz_convert c s1"
      by (cases d) (simp_all add: nz_push_def s1_def nz_new_def Let_def)
    have "run_out nz_step nz_new ((c, d) # evs) = run_out nz_step s1 ((c, d) # evs)"
      by (simp add: run_out_Cons p q del: run.simps)
    also have "\<dots> = snd (run lp_feed (0, []) (c # List.map fst evs))"
      using nz_run_length [OF s1(1), of "(c, d) # evs"] s1(2) by simp
    also have "\<dots> = snd (lp_feed (0, []) (nals_wire (n # ns)))"
      using lp.run_concat [of "(0, [])" "c # List.map fst evs"] lp_loop_wire [OF assms(1)] assms(3) by simp
    also have "\<dots> = nals_annexb (n # ns)" using lp_loop_wire [OF assms(1)] by simp
    finally show ?thesis using True by simp
  next
    case False
    then have "snd (nz_push nz_new c d) = c" "nz_mode (fst (nz_push nz_new c d)) = FAnnexB" "nz_prefix (fst (nz_push nz_new c d)) = []"
      using assms(2) dec by (auto simp: nz_push_def nz_convert_def nz_new_def Let_def)
    with nz_run_annexb show ?thesis using assms(3) False by (simp add: run_out_Cons del: run.simps)
  qed
qed

lemma length_prefixed_converted_witness:
  "run_out nz_step nz_new [([0, 0, 0, 2, 0x67], None), ([9, 0, 0], None), ([0, 1, 0x65], None)] =
     [0, 0, 0, 1, 0x67, 9, 0, 0, 0, 1, 0x65] \<and>
   run_out nz_step nz_new [([0, 0, 0, 2, 0x40], None), ([1, 0, 0], None), ([0, 1, 0x26], None)] =
     [0, 0, 0, 2, 0x40, 1, 0, 0, 0, 1, 0x26]"
proof -
  have w: "nals_wire [[0x67, 9], [0x65]] = [0, 0, 0, 2, 0x67, 9, 0, 0, 0, 1, 0x65]" "nals_wire [[0x40, 1], [0x26]] = [0, 0, 0, 2, 0x40, 1, 0, 0, 0, 1, 0x26]"
    by (simp_all add: nals_wire_def be_bytes_def)
  have c: "converts [0x67, 9]" "\<not> converts [0x40, 1]" by (simp_all add: converts_def reads_as_start_code_def)
  show ?thesis
    using length_prefixed_converted [of "[0x67, 9]" "[[0x65]]" "[0, 0, 0, 2, 0x67]" "[([9, 0, 0], None), ([0, 1, 0x65], None)]" None]
      length_prefixed_converted [of "[0x40, 1]" "[[0x26]]" "[0, 0, 0, 2, 0x40]" "[([1, 0, 0], None), ([0, 1, 0x26], None)]" None] w c
    by (simp add: MAX_NAL_UNIT_BYTES_def nals_annexb_def ANNEX_B_START_CODE_def del: run.simps)
qed

text \<open>A stream that begins with an Annex-B start code passes through byte for byte, however it
  is cut, also when the start code itself is divided between pieces.\<close>

theorem annexb_passes_through:
  assumes "beginsWithAnnexB (concat (List.map fst evs))"
  shows "run_out nz_step nz_new evs = concat (List.map fst evs)"
  using nz_run_unknown_annexb [of nz_new evs] assms by (simp add: nz_new_def)

lemma annexb_passes_through_witness:
  "run_out nz_step nz_new [([0, 0], None), ([0, 1, 0x65], None)] = [0, 0, 0, 1, 0x65]"
  using annexb_passes_through [of "[([0, 0], None), ([0, 1, 0x65], None)]"]
  by (simp add: beginsWithAnnexB_def del: run.simps)

text \<open>C26: When the first piece holds exactly four bytes, the stream is passed on raw for the whole
  session, whatever it is: a length-prefixed stream whose prefix arrives alone is never
  converted, although the same bytes in one piece are.\<close>

theorem four_byte_piece_never_converted:
  assumes "length c = 4"
  shows "run_out nz_step nz_new ((c, d) # evs) = c @ concat (List.map fst evs)"
proof -
  have dec: "nz_decide c = FAnnexB" using assms by (simp add: nz_decide_def Let_def)
  then have "snd (nz_push nz_new c d) = c" "nz_mode (fst (nz_push nz_new c d)) = FAnnexB"
    "nz_prefix (fst (nz_push nz_new c d)) = []"
    using assms by (auto simp: nz_push_def nz_convert_def nz_new_def Let_def)
  with nz_run_annexb show ?thesis by (simp add: run_out_Cons del: run.simps)
qed

lemma four_byte_piece_never_converted_witness:
  "run_out nz_step nz_new [([0, 0, 0, 2], None), ([0x67, 9], None)] = [0, 0, 0, 2, 0x67, 9] \<and>
   run_out nz_step nz_new [([0, 0, 0, 2, 0x67, 9], None)] = [0, 0, 0, 1, 0x67, 9]"
proof
  show "run_out nz_step nz_new [([0, 0, 0, 2], None), ([0x67, 9], None)] = [0, 0, 0, 2, 0x67, 9]"
    using four_byte_piece_never_converted [of "[0, 0, 0, 2]" None "[([0x67, 9], None)]"]
    by (simp del: run.simps)
  have "lp_loop 0 [0, 0, 0, 2, 0x67, 9] = ([0, 0, 0, 1, 0x67, 9], 0, [])"
    using lp_loop_wire [of "[[0x67, 9]]"]
    by (simp add: nals_wire_def nals_annexb_def be_bytes_def MAX_NAL_UNIT_BYTES_def ANNEX_B_START_CODE_def)
  then show "run_out nz_step nz_new [([0, 0, 0, 2, 0x67, 9], None)] = [0, 0, 0, 1, 0x67, 9]"
    by (simp add: nz_push_def nz_new_def nz_decide_def beginsWithAnnexB_def nz_convert_def u32be_def
        slice_def be_nat_def MAX_NAL_UNIT_BYTES_def)
qed

text \<open>Whatever arrives, the normalizer retains fewer than four prefix bytes, none while a NAL
  body is open, a body count of at most 16 MiB, a scan tail of at most four bytes and at most
  sixteen distinct NAL header bytes.\<close>

theorem normalizer_state_bounded:
  "nz_inv (run_state nz_step nz_new evs)"
  using nz.run_inv [of nz_new evs] by (simp add: nz_inv_def nz_new_def)

end
