(* ===== verification/Ppcs_Audio.thy ===== *)
theory Ppcs_Audio
  imports Gw_Prelude
begin

text \<open>
  ADTS validation of \<open>stream/ppcs-audio.ts\<close>: \<open>parseAdtsAccessUnits\<close> and \<open>decodePpcsAac\<close>.
  Shifts and masks of a byte are quotients and remainders of its value, and an OR of
  disjoint bit fields is their sum. \<open>adts_encode\<close> is the specification side: the wire form
  of one frame, which the parser inverts.
\<close>

record adts_unit =
  au_payload :: bytes
  au_sampleRate :: nat
  au_channels :: nat
  au_configuration :: nat
  au_samples :: nat

definition adts_rates :: "nat list" where
  "adts_rates = [96000, 88200, 64000, 48000, 44100, 32000, 24000, 22050, 16000, 12000, 11025, 8000, 7350]"

definition adts_frequency :: "bytes \<Rightarrow> nat" where
  "adts_frequency h = unat (h ! 2) div 4 mod 16"

definition adts_channels :: "bytes \<Rightarrow> nat" where
  "adts_channels h = unat (h ! 2) mod 2 * 4 + unat (h ! 3) div 64"

definition adts_size :: "bytes \<Rightarrow> nat" where
  "adts_size h = unat (h ! 3) mod 4 * 2048 + unat (h ! 4) * 8 + unat (h ! 5) div 32"

definition adts_minimum :: "bytes \<Rightarrow> nat" where
  "adts_minimum h = (if unat (h ! 1) mod 2 = 1 then 7 else 9)"

definition adts_sync :: "bytes \<Rightarrow> bool" where
  "adts_sync h \<longleftrightarrow> h ! 0 = 0xff \<and> (h ! 1 AND 0xf6) = 0xf0"

definition adts_accepts :: "bytes \<Rightarrow> bool" where
  "adts_accepts h \<longleftrightarrow> \<not> (adts_frequency h > 12 \<or> adts_channels h < 1 \<or> adts_channels h > 2 \<or>
     adts_size h \<le> adts_minimum h \<or> adts_size h > length h)"

definition adts_unit_of :: "bytes \<Rightarrow> adts_unit" where
  "adts_unit_of h =
     \<lparr> au_payload = slice (adts_minimum h) (adts_size h) h,
       au_sampleRate = adts_rates ! adts_frequency h,
       au_channels = adts_channels h,
       au_configuration = (unat (h ! 2) div 64 + 1) * 2048 + adts_frequency h * 128 + adts_channels h * 8,
       au_samples = 1024 * (unat (h ! 6) mod 4 + 1) \<rparr>"

text \<open>The loop over the batch; \<open>h\<close> is the rest of the audio from the current offset.\<close>

function adts_loop :: "bytes \<Rightarrow> adts_unit list option" where
  "adts_loop h =
     (if h = [] then Some []
      else if length h < 7 then None
      else if \<not> adts_sync h then None
      else if \<not> adts_accepts h then None
      else map_option ((#) (adts_unit_of h)) (adts_loop (drop (adts_size h) h)))"
  by pat_completeness auto
termination
  by (relation "measure length") (auto simp: adts_accepts_def adts_minimum_def split: if_splits)

declare adts_loop.simps [simp del]

definition parseAdtsAccessUnits :: "bytes \<Rightarrow> adts_unit list option" where
  "parseAdtsAccessUnits audio =
     (case adts_loop audio of None \<Rightarrow> None | Some units \<Rightarrow> if units = [] then None else Some units)"

definition decodePpcsAac :: "bytes \<Rightarrow> bytes option" where
  "decodePpcsAac frame =
     (if length frame < 23 \<or> length frame > 65552 \<or> frame ! 5 \<notin> {0, 1} then None
      else if u32le frame 0 \<noteq> length frame - 16 then None
      else (case parseAdtsAccessUnits (drop 16 frame) of None \<Rightarrow> None | Some _ \<Rightarrow> Some (drop 16 frame)))"

section \<open>The wire form\<close>

record adts_frame =
  af_profile :: nat
  af_frequency :: nat
  af_channels :: nat
  af_blocks :: nat
  af_payload :: bytes

definition adts_frame_ok :: "adts_frame \<Rightarrow> bool" where
  "adts_frame_ok f \<longleftrightarrow> af_profile f < 4 \<and> af_frequency f \<le> 12 \<and> 1 \<le> af_channels f \<and> af_channels f \<le> 2 \<and>
     af_blocks f < 4 \<and> af_payload f \<noteq> [] \<and> length (af_payload f) + 7 < 8192"

definition adts_encode :: "adts_frame \<Rightarrow> bytes" where
  "adts_encode f =
     (let size = length (af_payload f) + 7 in
      [0xff, 0xf1,
       word_of_nat (af_profile f * 64 + af_frequency f * 4),
       word_of_nat (af_channels f * 64 + size div 2048),
       word_of_nat (size div 8 mod 256),
       word_of_nat (size mod 8 * 32 + 31),
       word_of_nat (252 + af_blocks f)] @ af_payload f)"

definition adts_expected :: "adts_frame \<Rightarrow> adts_unit" where
  "adts_expected f =
     \<lparr> au_payload = af_payload f,
       au_sampleRate = adts_rates ! af_frequency f,
       au_channels = af_channels f,
       au_configuration = (af_profile f + 1) * 2048 + af_frequency f * 128 + af_channels f * 8,
       au_samples = 1024 * (af_blocks f + 1) \<rparr>"

lemma unat_small: "v < 256 \<Longrightarrow> unat (word_of_nat v :: byte) = v"
  by (simp add: unat_byte_of_nat)

lemma mod4: "q < 4 \<Longrightarrow> (a * 64 + q) mod 4 = (q :: nat)"
  using mod_mult_self1 [of q "a * 16" 4] by (simp add: add.commute mult.commute)

lemma adts_encode_fields:
  assumes "adts_frame_ok f"
  shows "adts_sync (adts_encode f @ xs)"
    "adts_frequency (adts_encode f @ xs) = af_frequency f"
    "adts_channels (adts_encode f @ xs) = af_channels f"
    "adts_size (adts_encode f @ xs) = length (af_payload f) + 7"
    "adts_minimum (adts_encode f @ xs) = 7"
    "adts_unit_of (adts_encode f @ xs) = adts_expected f"
    "length (adts_encode f @ xs) = length (af_payload f) + 7 + length xs"
proof -
  let ?n = "length (af_payload f) + 7"
  have f: "af_profile f < 4" "af_frequency f \<le> 12" "1 \<le> af_channels f" "af_channels f \<le> 2" "af_blocks f < 4" "?n < 8192"
    using assms by (simp_all add: adts_frame_ok_def)
  define B2 :: byte where "B2 = word_of_nat (af_profile f * 64 + af_frequency f * 4)"
  define B3 :: byte where "B3 = word_of_nat (af_channels f * 64 + ?n div 2048)"
  define B4 :: byte where "B4 = word_of_nat (?n div 8 mod 256)"
  define B5 :: byte where "B5 = word_of_nat (?n mod 8 * 32 + 31)"
  define B6 :: byte where "B6 = word_of_nat (252 + af_blocks f)"
  have b2: "unat B2 = af_profile f * 64 + af_frequency f * 4"
    unfolding B2_def by (rule unat_small) (use f in linarith)
  have "?n div 2048 < 4" using f(6) by (simp add: less_mult_imp_div_less)
  then have b3: "unat B3 = af_channels f * 64 + ?n div 2048"
    unfolding B3_def by (intro unat_small) (use f in linarith)
  have b4: "unat B4 = ?n div 8 mod 256"
    unfolding B4_def by (rule unat_small) simp
  have "?n mod 8 < 8" by simp
  then have b5: "unat B5 = ?n mod 8 * 32 + 31"
    unfolding B5_def by (intro unat_small) linarith
  have b6: "unat B6 = 252 + af_blocks f"
    unfolding B6_def by (rule unat_small) (use f in linarith)
  have h: "adts_encode f @ xs = [0xff, 0xf1, B2, B3, B4, B5, B6] @ af_payload f @ xs"
    unfolding adts_encode_def Let_def B2_def B3_def B4_def B5_def B6_def by simp
  show "adts_sync (adts_encode f @ xs)" unfolding h by (simp add: adts_sync_def)
  show fr: "adts_frequency (adts_encode f @ xs) = af_frequency f"
    unfolding h adts_frequency_def using f by (simp add: b2)
  show ch: "adts_channels (adts_encode f @ xs) = af_channels f"
    unfolding h adts_channels_def using f \<open>?n div 2048 < 4\<close> by (simp add: b2 b3)
  show sz: "adts_size (adts_encode f @ xs) = ?n"
  proof -
    have "adts_size (adts_encode f @ xs) =
        (af_channels f * 64 + ?n div 2048) mod 4 * 2048 + (?n div 8 mod 256) * 8 + (?n mod 8 * 32 + 31) div 32"
      unfolding h adts_size_def by (simp add: b3 b4 b5)
    also have "(af_channels f * 64 + ?n div 2048) mod 4 = ?n div 2048"
      using \<open>?n div 2048 < 4\<close> by (rule mod4)
    also have "(?n mod 8 * 32 + 31) div 32 = ?n mod 8" by simp
    also have "?n div 2048 = ?n div 8 div 256" by (simp add: div_mult2_eq [symmetric])
    finally have "adts_size (adts_encode f @ xs) = (?n div 8 div 256 * 256 + ?n div 8 mod 256) * 8 + ?n mod 8"
      by (simp only: distrib_right mult.assoc add.assoc)
    then show ?thesis by (simp only: div_mult_mod_eq)
  qed
  show mn: "adts_minimum (adts_encode f @ xs) = 7" unfolding h adts_minimum_def by simp
  have p: "slice 7 ?n (adts_encode f @ xs) = af_payload f" unfolding h by (simp add: slice_def)
  have n2: "unat ((adts_encode f @ xs) ! 2) div 64 = af_profile f" unfolding h using f by (simp add: b2)
  have n6: "unat ((adts_encode f @ xs) ! 6) mod 4 = af_blocks f"
  proof -
    have "(252 + af_blocks f) mod 4 = af_blocks f" using f(5) by presburger
    then show ?thesis unfolding h by (simp add: b6)
  qed
  show "adts_unit_of (adts_encode f @ xs) = adts_expected f"
    by (simp only: adts_unit_of_def adts_expected_def fr ch sz mn p n2 n6)
  show "length (adts_encode f @ xs) = ?n + length xs" by (simp add: adts_encode_def Let_def)
qed

lemma adts_loop_encode:
  assumes "adts_frame_ok f"
  shows "adts_loop (adts_encode f @ xs) = map_option ((#) (adts_expected f)) (adts_loop xs)"
proof -
  note e = adts_encode_fields [OF assms, of xs]
  have "adts_accepts (adts_encode f @ xs)"
    using assms e by (simp add: adts_accepts_def adts_frame_ok_def)
  moreover have "drop (length (af_payload f) + 7) (adts_encode f @ xs) = xs"
  proof -
    have "length (adts_encode f) = length (af_payload f) + 7" by (simp add: adts_encode_def Let_def)
    moreover have "drop (length (adts_encode f)) (adts_encode f @ xs) = xs" by simp
    ultimately show ?thesis by (simp only:)
  qed
  moreover have "adts_encode f @ xs \<noteq> []" by (simp add: adts_encode_def Let_def)
  ultimately show ?thesis
    using e by (simp add: adts_loop.simps [of "adts_encode f @ xs"] del: drop_append append_is_Nil_conv)
qed

lemma adts_loop_batch:
  "\<forall>f\<in>set fs. adts_frame_ok f \<Longrightarrow>
     adts_loop (concat (List.map adts_encode fs)) = Some (List.map adts_expected fs)"
proof (induction fs)
  case Nil
  then show ?case by (simp add: adts_loop.simps)
next
  case (Cons f fs)
  then show ?case using adts_loop_encode [of f "concat (List.map adts_encode fs)"] by simp
qed

text \<open>Soundness: what the parser accepts is a whole number of frames with nonempty payloads.\<close>

lemma adts_loop_sound:
  "adts_loop audio = Some units \<Longrightarrow>
     \<exists>fs. concat fs = audio \<and> length fs = length units \<and>
       (\<forall>i < length units. 7 \<le> length (fs ! i) \<and> au_payload (units ! i) \<noteq> [] \<and>
          (\<exists>hd. fs ! i = hd @ au_payload (units ! i) \<and> (length hd = 7 \<or> length hd = 9)) \<and>
          au_sampleRate (units ! i) \<in> set adts_rates \<and> au_channels (units ! i) \<in> {1, 2})"
proof (induction audio arbitrary: units rule: adts_loop.induct)
  case (1 h)
  show ?case
  proof (cases "h = []")
    case True
    with 1(2) show ?thesis by (simp add: adts_loop.simps)
  next
    case False
    then have c: "\<not> length h < 7" "adts_sync h" "adts_accepts h"
      using 1(2) by (auto simp: adts_loop.simps [of h] split: if_splits)
    then obtain us where us: "adts_loop (drop (adts_size h) h) = Some us" "units = adts_unit_of h # us"
      using 1(2) False by (auto simp: adts_loop.simps [of h])
    from 1(1) [OF False c(1)] c(2,3) us(1) obtain fs where fs:
      "concat fs = drop (adts_size h) h" "length fs = length us"
      "\<forall>i < length us. 7 \<le> length (fs ! i) \<and> au_payload (us ! i) \<noteq> [] \<and>
          (\<exists>hd. fs ! i = hd @ au_payload (us ! i) \<and> (length hd = 7 \<or> length hd = 9)) \<and>
          au_sampleRate (us ! i) \<in> set adts_rates \<and> au_channels (us ! i) \<in> {1, 2}"
      by blast
    let ?f = "take (adts_size h) h"
    have m: "adts_minimum h < adts_size h" "adts_size h \<le> length h" "adts_frequency h < length adts_rates"
      "adts_channels h \<in> {1, 2}" "adts_minimum h = 7 \<or> adts_minimum h = 9"
      using c(3) by (auto simp: adts_accepts_def adts_rates_def adts_minimum_def)
    have p: "?f = take (adts_minimum h) h @ au_payload (adts_unit_of h)"
      using m(1,2) by (simp add: adts_unit_of_def slice_def take_drop [symmetric])
        (metis append_take_drop_id le_add_diff_inverse less_imp_le take_add)
    have "7 \<le> length ?f \<and> au_payload (adts_unit_of h) \<noteq> [] \<and>
          (\<exists>hd. ?f = hd @ au_payload (adts_unit_of h) \<and> (length hd = 7 \<or> length hd = 9)) \<and>
          au_sampleRate (adts_unit_of h) \<in> set adts_rates \<and> au_channels (adts_unit_of h) \<in> {1, 2}"
    proof (intro conjI)
      show "7 \<le> length ?f" using m by auto
      show "au_payload (adts_unit_of h) \<noteq> []" using m by (auto simp: adts_unit_of_def slice_def)
      show "\<exists>hd. ?f = hd @ au_payload (adts_unit_of h) \<and> (length hd = 7 \<or> length hd = 9)"
        by (rule exI [of _ "take (adts_minimum h) h"]) (use p m in auto)
    qed (use m in \<open>auto simp: adts_unit_of_def\<close>)
    with fs us(2) have "\<forall>i < length units. 7 \<le> length ((?f # fs) ! i) \<and> au_payload (units ! i) \<noteq> [] \<and>
          (\<exists>hd. (?f # fs) ! i = hd @ au_payload (units ! i) \<and> (length hd = 7 \<or> length hd = 9)) \<and>
          au_sampleRate (units ! i) \<in> set adts_rates \<and> au_channels (units ! i) \<in> {1, 2}"
      by (simp add: All_less_Suc2)
    then show ?thesis using fs(1,2) us(2) by (intro exI [of _ "?f # fs"]) simp
  qed
qed

section \<open>Properties\<close>

text \<open>The ADTS parser inverts the wire form: a nonempty batch of frames with an admissible
  profile, sampling frequency, one or two channels and a payload that fits the 13-bit size is
  parsed into exactly those frames, each with its payload, rate, configuration and samples.\<close>

theorem adts_round_trip:
  assumes "\<forall>f\<in>set fs. adts_frame_ok f" "fs \<noteq> []"
  shows "parseAdtsAccessUnits (concat (List.map adts_encode fs)) = Some (List.map adts_expected fs)"
  using assms by (simp add: parseAdtsAccessUnits_def adts_loop_batch)

lemma adts_round_trip_witness:
  "parseAdtsAccessUnits (concat (List.map adts_encode
      [\<lparr> af_profile = 1, af_frequency = 8, af_channels = 1, af_blocks = 0, af_payload = [1, 2] \<rparr>])) =
   Some [\<lparr> au_payload = [1, 2], au_sampleRate = 16000, au_channels = 1, au_configuration = 5128, au_samples = 1024 \<rparr>]"
  using adts_round_trip [of "[\<lparr> af_profile = 1, af_frequency = 8, af_channels = 1, af_blocks = 0, af_payload = [1, 2] \<rparr>]"]
  by (simp add: adts_frame_ok_def adts_expected_def adts_rates_def)

end
