(* ===== verification/Access_Units.thy ===== *)
theory Access_Units
  imports Machine
begin

text \<open>
  \<open>stream/ppcs-access-unit-assembler.ts\<close>: station-split command-1300 payloads become
  access units. \<open>decode\<close> is the transport decoder the caller passes in. Emitted units and
  drop notifications are the outputs. The theorems: no byte is invented or lost unreported,
  a split unit is reassembled, the retained unit stays bounded.
\<close>

definition PPCS_STATION_CHUNK_BYTES :: nat where "PPCS_STATION_CHUNK_BYTES = 64000"
definition MAX_ACCESS_UNIT_BYTES :: nat where "MAX_ACCESS_UNIT_BYTES = 16 * 1024 * 1024"
definition VIDEO_FRAME_HEADER_BYTES :: nat where "VIDEO_FRAME_HEADER_BYTES = 22"

record frame_header =
  fh_payloadLength :: nat
  fh_keyframe :: bool
  fh_streamType :: nat
  fh_sequence :: nat
  fh_width :: int
  fh_height :: int
  fh_timestamp :: nat

record access_unit =
  un_timestamp :: nat
  un_keyframe :: bool
  un_streamType :: nat
  un_width :: int
  un_height :: int
  un_data :: bytes

definition parsePpcsVideoFrameHeader :: "bytes \<Rightarrow> frame_header option" where
  "parsePpcsVideoFrameHeader payload =
     (if length payload < VIDEO_FRAME_HEADER_BYTES then None
      else Some \<lparr> fh_payloadLength = u32le payload 0,
                  fh_keyframe = (payload ! 4 AND 1 = 1),
                  fh_streamType = unat (payload ! 5),
                  fh_sequence = u16le payload 6,
                  fh_width = i16le payload 10,
                  fh_height = i16le payload 12,
                  fh_timestamp = u32le payload 14 \<rparr>)"

record open_unit =
  ou_header :: frame_header
  ou_chunks :: "bytes list"
  ou_carriedBytes :: nat

record assembler =
  as_open :: "open_unit option"
  as_totalDropped :: nat

datatype au_out = AuEmit access_unit | AuDropped nat nat nat

definition as_new :: assembler where
  "as_new = \<lparr> as_open = None, as_totalDropped = 0 \<rparr>"

definition sameAccessUnit :: "frame_header \<Rightarrow> frame_header \<Rightarrow> bool" where
  "sameAccessUnit a b \<longleftrightarrow> fh_sequence a = fh_sequence b \<and> fh_timestamp a = fh_timestamp b"

definition beginsAccessUnit :: "bytes \<Rightarrow> bool" where
  "beginsAccessUnit body \<longleftrightarrow> length body \<ge> 4 \<and> body ! 0 = 0 \<and> body ! 1 = 0 \<and>
     (body ! 2 = 1 \<or> body ! 2 = 0 \<and> body ! 3 = 1)"

definition unitOf :: "frame_header \<Rightarrow> bytes \<Rightarrow> access_unit" where
  "unitOf h data =
     \<lparr> un_timestamp = fh_timestamp h, un_keyframe = fh_keyframe h, un_streamType = fh_streamType h,
       un_width = fh_width h, un_height = fh_height h, un_data = data \<rparr>"

definition as_discard :: "assembler \<Rightarrow> assembler \<times> au_out list" where
  "as_discard s =
     (case as_open s of
        None \<Rightarrow> (s, [])
      | Some u \<Rightarrow> (\<lparr> as_open = None, as_totalDropped = as_totalDropped s + 1 \<rparr>,
                  [AuDropped (ou_carriedBytes u) (length (ou_chunks u)) (as_totalDropped s + 1)]))"

text \<open>The tail of \<open>push\<close> after a discard: open a full chunk, or emit a unit on its own.\<close>

definition as_begin :: "frame_header \<Rightarrow> bytes \<Rightarrow> assembler \<times> au_out list \<Rightarrow> assembler \<times> au_out list" where
  "as_begin h body r =
     (case r of (s, outs) \<Rightarrow>
        if fh_payloadLength h = PPCS_STATION_CHUNK_BYTES
        then (s\<lparr>as_open := Some \<lparr> ou_header = h, ou_chunks = [body], ou_carriedBytes = length body \<rparr>\<rparr>, outs)
        else (s, outs @ [AuEmit (unitOf h body)]))"

definition as_push :: "bool \<Rightarrow> (bytes \<Rightarrow> bytes option) \<Rightarrow> assembler \<Rightarrow> bytes \<Rightarrow> assembler \<times> au_out list" where
  "as_push emitChunks decode s payload =
     (case parsePpcsVideoFrameHeader payload of
        None \<Rightarrow> as_discard s
      | Some h \<Rightarrow>
          (case decode payload of
             None \<Rightarrow> as_discard s
           | Some body \<Rightarrow>
               if body = [] then as_discard s
               else if emitChunks then (case as_discard s of (s, outs) \<Rightarrow> (s, outs @ [AuEmit (unitOf h body)]))
               else
                 (case as_open s of
                    None \<Rightarrow> as_begin h body (as_discard s)
                  | Some u \<Rightarrow>
                      if sameAccessUnit (ou_header u) h \<and> \<not> beginsAccessUnit body then
                        (let nextBytes = ou_carriedBytes u + length body in
                         if nextBytes > MAX_ACCESS_UNIT_BYTES then as_begin h body (as_discard s)
                         else if fh_payloadLength h = PPCS_STATION_CHUNK_BYTES then
                           (s\<lparr>as_open := Some (u\<lparr>ou_chunks := ou_chunks u @ [body], ou_carriedBytes := nextBytes\<rparr>)\<rparr>, [])
                         else (s\<lparr>as_open := None\<rparr>, [AuEmit (unitOf (ou_header u) (concat (ou_chunks u @ [body])))]))
                      else as_begin h body (as_discard s))))"

datatype au_event = AuPush bytes | AuReset

fun as_step :: "bool \<Rightarrow> (bytes \<Rightarrow> bytes option) \<Rightarrow> assembler \<Rightarrow> au_event \<Rightarrow> assembler \<times> au_out list" where
  "as_step emitChunks decode s (AuPush payload) = as_push emitChunks decode s payload"
| "as_step emitChunks decode s AuReset = as_discard s"

section \<open>Accounting\<close>

text \<open>The decoded bytes a payload contributes.\<close>

definition decoded_bytes :: "(bytes \<Rightarrow> bytes option) \<Rightarrow> au_event \<Rightarrow> nat" where
  "decoded_bytes decode e =
     (case e of AuReset \<Rightarrow> 0
      | AuPush p \<Rightarrow> if parsePpcsVideoFrameHeader p = None then 0
                   else (case decode p of None \<Rightarrow> 0 | Some body \<Rightarrow> length body))"

fun out_bytes :: "au_out \<Rightarrow> nat" where
  "out_bytes (AuEmit u) = length (un_data u)"
| "out_bytes (AuDropped carried _ _) = carried"

definition outs_bytes :: "au_out list \<Rightarrow> nat" where
  "outs_bytes ws = sum_list (List.map out_bytes ws)"

definition open_bytes :: "assembler \<Rightarrow> nat" where
  "open_bytes s = (case as_open s of None \<Rightarrow> 0 | Some u \<Rightarrow> ou_carriedBytes u)"

fun is_drop :: "au_out \<Rightarrow> bool" where
  "is_drop (AuDropped _ _ _) = True"
| "is_drop (AuEmit _) = False"

definition as_inv :: "nat \<Rightarrow> assembler \<Rightarrow> bool" where
  "as_inv L s \<longleftrightarrow> (\<forall>u. as_open s = Some u \<longrightarrow>
     ou_chunks u \<noteq> [] \<and> ou_carriedBytes u = length (concat (ou_chunks u)) \<and>
     fh_payloadLength (ou_header u) = PPCS_STATION_CHUNK_BYTES \<and>
     ou_carriedBytes u \<le> max MAX_ACCESS_UNIT_BYTES L)"

lemma outs_bytes_simps [simp]:
  "outs_bytes [] = 0" "outs_bytes (w # ws) = out_bytes w + outs_bytes ws"
  "outs_bytes (ws @ vs) = outs_bytes ws + outs_bytes vs"
  by (simp_all add: outs_bytes_def)

lemmas as_defs = as_push_def as_begin_def as_discard_def unitOf_def Let_def

lemma as_step_inv:
  "as_inv L s \<Longrightarrow> decoded_bytes decode e \<le> L \<Longrightarrow> as_inv L (fst (as_step b decode s e))"
  by (cases e) (auto simp: as_defs as_inv_def decoded_bytes_def split: option.splits if_splits)

lemma as_step_accounts:
  "as_inv L s \<Longrightarrow> open_bytes s + decoded_bytes decode e =
     outs_bytes (snd (as_step b decode s e)) + open_bytes (fst (as_step b decode s e))"
  by (cases e) (auto simp: as_defs as_inv_def decoded_bytes_def open_bytes_def split: option.splits if_splits)

lemma as_step_drops:
  "as_totalDropped (fst (as_step b decode s e)) =
     as_totalDropped s + length (filter is_drop (snd (as_step b decode s e)))"
  by (cases e) (auto simp: as_defs split: option.splits if_splits)

interpretation au: invariant_machine "as_step b decode" "as_inv L" "\<lambda>e. decoded_bytes decode e \<le> L"
  for b decode L
  by unfold_locales (rule as_step_inv)

lemma as_run_accounts:
  "as_inv L s \<Longrightarrow> \<forall>e\<in>set es. decoded_bytes decode e \<le> L \<Longrightarrow>
     open_bytes s + sum_list (List.map (decoded_bytes decode) es) =
       outs_bytes (run_out (as_step b decode) s es) + open_bytes (run_state (as_step b decode) s es)"
proof (induction es arbitrary: s)
  case (Cons e es)
  have i: "as_inv L (fst (as_step b decode s e))"
    using Cons.prems by (intro as_step_inv) auto
  show ?case
    using Cons.IH [OF i] Cons.prems as_step_accounts [OF Cons.prems(1), of decode e b]
    by (simp add: run_out_Cons run_state_Cons del: run.simps)
qed simp

lemma as_run_drops:
  "as_totalDropped (run_state (as_step b decode) s es) =
     as_totalDropped s + length (filter is_drop (run_out (as_step b decode) s es))"
  by (induction es arbitrary: s) (simp_all add: run_out_Cons run_state_Cons as_step_drops del: run.simps(2))

lemma as_inv_new: "as_inv L as_new"
  by (simp add: as_inv_def as_new_def)

section \<open>Reassembly\<close>

text \<open>The payloads of one unit: full chunks, then a shorter tail, all with one identity.\<close>

definition chunk_of :: "(bytes \<Rightarrow> bytes option) \<Rightarrow> nat \<Rightarrow> nat \<Rightarrow> bool \<Rightarrow> bytes \<Rightarrow> bytes \<Rightarrow> bool" where
  "chunk_of decode sq ts full p body \<longleftrightarrow> decode p = Some body \<and> body \<noteq> [] \<and>
     (\<exists>h. parsePpcsVideoFrameHeader p = Some h \<and> fh_sequence h = sq \<and> fh_timestamp h = ts \<and>
        (fh_payloadLength h = PPCS_STATION_CHUNK_BYTES \<longleftrightarrow> full))"

lemma as_continue:
  assumes "as_open s = Some u" "ou_carriedBytes u = length (concat (ou_chunks u))"
    "fh_sequence (ou_header u) = sq" "fh_timestamp (ou_header u) = ts"
    "list_all2 (chunk_of decode sq ts True) ps bs" "chunk_of decode sq ts False q c"
    "\<forall>x\<in>set (bs @ [c]). \<not> beginsAccessUnit x"
    "length (concat (ou_chunks u)) + length (concat bs) + length c \<le> MAX_ACCESS_UNIT_BYTES"
  shows "run (as_step False decode) s (List.map AuPush (ps @ [q])) =
    (s\<lparr>as_open := None\<rparr>, [AuEmit (unitOf (ou_header u) (concat (ou_chunks u @ bs @ [c])))])"
  using assms
proof (induction ps arbitrary: s u bs)
  case Nil
  then show ?case
    by (auto simp: chunk_of_def as_push_def sameAccessUnit_def Let_def)
next
  case (Cons p ps)
  then obtain b bs' where bs: "bs = b # bs'" "chunk_of decode sq ts True p b" "list_all2 (chunk_of decode sq ts True) ps bs'"
    by (auto simp: list_all2_Cons1)
  let ?u = "u\<lparr>ou_chunks := ou_chunks u @ [b], ou_carriedBytes := ou_carriedBytes u + length b\<rparr>"
  have st: "as_push False decode s p = (s\<lparr>as_open := Some ?u\<rparr>, [])"
    using Cons.prems bs by (auto simp: chunk_of_def as_push_def sameAccessUnit_def Let_def)
  have "run (as_step False decode) (s\<lparr>as_open := Some ?u\<rparr>) (List.map AuPush (ps @ [q])) =
    (s\<lparr>as_open := Some ?u\<rparr>\<lparr>as_open := None\<rparr>, [AuEmit (unitOf (ou_header ?u) (concat (ou_chunks ?u @ bs' @ [c])))])"
    by (rule Cons.IH) (use Cons.prems bs in auto)
  with st bs(1) show ?case by (simp add: Let_def)
qed

section \<open>Properties\<close>

text \<open>C19: In strict mode (no chunk delivery), a unit that the station splits into full 64,000-byte chunks and a shorter tail is
  emitted once, when the tail arrives, with the metadata of its first chunk and exactly the decoded bytes of all
  chunks in order, provided the chunks arrive one after the other, each is decoded to some bytes, the continuation chunks carry the first one's
  sequence and timestamp and do not begin with a start code, and together they hold at most the unit limit. A
  unit left open before, of which the first chunk is not a continuation, is dropped and reported first; nothing is left open.\<close>

theorem split_unit_reassembled:
  assumes "case as_open s of None \<Rightarrow> True | Some u \<Rightarrow> \<not> sameAccessUnit (ou_header u) h \<or> beginsAccessUnit b"
    and "parsePpcsVideoFrameHeader p = Some h" "decode p = Some b" "b \<noteq> []"
    and "fh_payloadLength h = PPCS_STATION_CHUNK_BYTES"
    and "list_all2 (chunk_of decode (fh_sequence h) (fh_timestamp h) True) ps bs"
    and "chunk_of decode (fh_sequence h) (fh_timestamp h) False q c"
    and "\<forall>x\<in>set (bs @ [c]). \<not> beginsAccessUnit x"
    and "length b + length (concat bs) + length c \<le> MAX_ACCESS_UNIT_BYTES"
  shows "run (as_step False decode) s (List.map AuPush (p # ps @ [q])) =
    (\<lparr> as_open = None, as_totalDropped = as_totalDropped s + (if as_open s = None then 0 else 1) \<rparr>,
     (case as_open s of None \<Rightarrow> [] | Some u \<Rightarrow> [AuDropped (ou_carriedBytes u) (length (ou_chunks u)) (as_totalDropped s + 1)]) @
     [AuEmit (unitOf h (b @ concat bs @ c))])"
proof -
  let ?u = "\<lparr> ou_header = h, ou_chunks = [b], ou_carriedBytes = length b \<rparr>"
  obtain t w where d: "as_discard s = (t, w)" "as_open t = None" by (cases "as_open s") (auto simp: as_discard_def)
  have "as_push False decode s p = (t\<lparr>as_open := Some ?u\<rparr>, w)"
    using assms(1-5) d by (auto simp: as_push_def as_begin_def split: option.splits)
  moreover have "run (as_step False decode) (t\<lparr>as_open := Some ?u\<rparr>) (List.map AuPush (ps @ [q])) =
    (t\<lparr>as_open := Some ?u\<rparr>\<lparr>as_open := None\<rparr>, [AuEmit (unitOf h (concat ([b] @ bs @ [c])))])"
    using as_continue [of "t\<lparr>as_open := Some ?u\<rparr>" ?u "fh_sequence h" "fh_timestamp h" decode ps bs q c] assms
    by simp
  moreover have "w = (case as_open s of None \<Rightarrow> [] | Some u \<Rightarrow> [AuDropped (ou_carriedBytes u) (length (ou_chunks u)) (as_totalDropped s + 1)])"
    "t\<lparr>as_open := None\<rparr> = \<lparr> as_open = None, as_totalDropped = as_totalDropped s + (if as_open s = None then 0 else 1) \<rparr>"
    using d(1) by (auto simp: as_discard_def split: option.splits)
  ultimately show ?thesis by (simp add: Let_def)
qed

lemma split_unit_reassembled_witness:
  "let full = [0, 250, 0, 0, 1, 0, 7, 0, 0, 0, 64, 1, 240, 0, 5, 0, 0, 0, 0, 0, 0, 0, 65];
       tail = [1, 0, 0, 0, 0, 0, 7, 0, 0, 0, 64, 1, 240, 0, 5, 0, 0, 0, 0, 0, 0, 0, 66];
       decode = (\<lambda>p. Some (drop 22 p))
   in run (as_step False decode) as_new [AuPush full, AuPush full, AuPush tail] =
      (as_new, [AuEmit \<lparr> un_timestamp = 5, un_keyframe = True, un_streamType = 0,
                         un_width = 320, un_height = 240, un_data = [65, 65, 66] \<rparr>])"
proof -
  let ?full = "[0, 250, 0, 0, 1, 0, 7, 0, 0, 0, 64, 1, 240, 0, 5, 0, 0, 0, 0, 0, 0, 0, 65] :: bytes"
  let ?tail = "[1, 0, 0, 0, 0, 0, 7, 0, 0, 0, 64, 1, 240, 0, 5, 0, 0, 0, 0, 0, 0, 0, 66] :: bytes"
  let ?h = "\<lparr> fh_payloadLength = 64000, fh_keyframe = True, fh_streamType = 0, fh_sequence = 7,
              fh_width = 320, fh_height = 240, fh_timestamp = 5 \<rparr>"
  have h: "parsePpcsVideoFrameHeader ?full = Some ?h"
    "parsePpcsVideoFrameHeader ?tail = Some (?h\<lparr>fh_payloadLength := 1, fh_keyframe := False\<rparr>)"
    by (simp_all add: parsePpcsVideoFrameHeader_def VIDEO_FRAME_HEADER_BYTES_def u32le_def u16le_def
        i16le_def slice_def)
  have "run (as_step False (\<lambda>p. Some (drop 22 p))) as_new (List.map AuPush (?full # [?full] @ [?tail])) =
      (\<lparr> as_open = None, as_totalDropped = as_totalDropped as_new + (if as_open as_new = None then 0 else 1) \<rparr>,
       (case as_open as_new of None \<Rightarrow> [] | Some u \<Rightarrow> [AuDropped (ou_carriedBytes u) (length (ou_chunks u)) (as_totalDropped as_new + 1)]) @
       [AuEmit (unitOf ?h ([65] @ concat [[65]] @ [66]))])"
    by (rule split_unit_reassembled)
       (auto simp: h as_new_def chunk_of_def beginsAccessUnit_def PPCS_STATION_CHUNK_BYTES_def MAX_ACCESS_UNIT_BYTES_def)
  then show ?thesis by (simp add: unitOf_def as_new_def Let_def del: run.simps)
qed

text \<open>Every decoded byte is accounted for: what was decoded is what was emitted in units, what
  was reported as dropped, and what the open unit still carries; the drop counter is the
  number of reported drops. In either delivery mode and with resets anywhere.\<close>

theorem assembler_conserves_bytes:
  "sum_list (List.map (decoded_bytes decode) es) =
     outs_bytes (run_out (as_step b decode) as_new es) + open_bytes (run_state (as_step b decode) as_new es) \<and>
   as_totalDropped (run_state (as_step b decode) as_new es) =
     length (filter is_drop (run_out (as_step b decode) as_new es))"
proof
  have "\<forall>e\<in>set es. decoded_bytes decode e \<le> sum_list (List.map (decoded_bytes decode) es)"
    by (auto intro: member_le_sum_list)
  from as_run_accounts [OF as_inv_new this, of b]
  show "sum_list (List.map (decoded_bytes decode) es) =
     outs_bytes (run_out (as_step b decode) as_new es) + open_bytes (run_state (as_step b decode) as_new es)"
    by (simp add: open_bytes_def as_new_def)
  show "as_totalDropped (run_state (as_step b decode) as_new es) =
     length (filter is_drop (run_out (as_step b decode) as_new es))"
    using as_run_drops [of b decode as_new es] by (simp add: as_new_def)
qed

text \<open>The assembler retains at most 16 MiB of a unit, or one decoded chunk if that is longer, and
  its byte count is the length of the retained chunks.\<close>

theorem assembler_retention_bounded:
  assumes "\<forall>e\<in>set es. decoded_bytes decode e \<le> L"
  shows "as_inv L (run_state (as_step b decode) as_new es)"
  using assms by (intro au.run_inv as_inv_new)

lemma assembler_retention_bounded_witness:
  "as_inv 1 (run_state (as_step False (\<lambda>p. Some (drop 22 p))) as_new [AuPush (replicate 23 0), AuReset])"
  by (rule assembler_retention_bounded)
     (simp add: decoded_bytes_def parsePpcsVideoFrameHeader_def VIDEO_FRAME_HEADER_BYTES_def)

end
