(* ===== verification/Ppcs_Decode.thy ===== *)
theory Ppcs_Decode
  imports Ppcs_Audio
begin

text \<open>
  Video payload protection: \<open>decodeLegacyPpcsVideoFrame\<close> and \<open>PpcsVideoFrameDecoder\<close> of
  \<open>stream/first-party-ppcs.ts\<close>, \<open>unwrapAuthenticatedMediaKey\<close> of \<open>crypto/media-key.ts\<close>.
  The primitives of node:crypto (ECDH, HMAC-SHA256, AES) and the RSA unwrap callback are
  the fields of a \<open>crypto\<close> record, with None where the call throws. The theorems say which
  bytes may leave the decoder as video and when a media key may be retained.
\<close>

datatype unwrap_result = UnwrapThrows | UnwrapNone | UnwrapKey bytes

record crypto =
  cr_ecdh :: "bytes \<Rightarrow> bytes \<Rightarrow> bytes option"
  cr_hmac :: "bytes \<Rightarrow> bytes \<Rightarrow> bytes"
  cr_cbc :: "bytes \<Rightarrow> bytes \<Rightarrow> bytes \<Rightarrow> bytes option"
  cr_ecb :: "bytes \<Rightarrow> bytes \<Rightarrow> bytes option"
  cr_gcm :: "bytes \<Rightarrow> bytes \<Rightarrow> bytes \<Rightarrow> bytes \<Rightarrow> bytes \<Rightarrow> bytes option"
  cr_unwrapLegacy :: "bytes \<Rightarrow> unwrap_result"

text \<open>\<open>setAAD(Buffer.from("eufy security"))\<close>\<close>

definition eufy_aad :: bytes where
  "eufy_aad = [0x65, 0x75, 0x66, 0x79, 0x20, 0x73, 0x65, 0x63, 0x75, 0x72, 0x69, 0x74, 0x79]"

section \<open>ECC media key envelope\<close>

definition ECIES :: bytes where "ECIES = [0x45, 0x43, 0x49, 0x45, 0x53]"

text \<open>The derivation loop, at most \<open>n\<close> rounds: SHA-256 gives 32 bytes a round, so two are enough.\<close>

fun ecies_derive :: "(bytes \<Rightarrow> bytes \<Rightarrow> bytes) \<Rightarrow> bytes \<Rightarrow> nat \<Rightarrow> bytes \<Rightarrow> bytes \<Rightarrow> bytes option" where
  "ecies_derive hmac shared n previous derived =
     (if length derived \<ge> 48 then Some derived
      else (case n of 0 \<Rightarrow> None
            | Suc n \<Rightarrow> (let previous = hmac shared previous in
                ecies_derive hmac shared n previous (derived @ hmac shared (previous @ ECIES)))))"

declare ecies_derive.simps [simp del]

definition unwrapAuthenticatedMediaKey :: "crypto \<Rightarrow> bytes \<Rightarrow> bytes \<Rightarrow> bytes option" where
  "unwrapAuthenticatedMediaKey cr envelope privateKey =
     (if length envelope \<noteq> 129 then None
      else
        (case cr_ecdh cr privateKey (take 33 envelope) of
           None \<Rightarrow> None
         | Some shared \<Rightarrow>
             (case ecies_derive (cr_hmac cr) shared 2 ECIES [] of
                None \<Rightarrow> None
              | Some derived \<Rightarrow>
                  if cr_hmac cr (slice 16 48 derived) (slice 33 97 envelope) \<noteq> slice 97 129 envelope then None
                  else
                    (case cr_cbc cr (take 16 derived) (slice 33 49 envelope) (slice 49 97 envelope) of
                       None \<Rightarrow> None
                     | Some plain \<Rightarrow> if length plain = 32 then Some plain else None))))"

text \<open>With 32-byte HMAC outputs the two rounds suffice and the derived material has 64 bytes.\<close>

lemma ecies_derive_returns:
  assumes "\<And>k d. length (hmac k d) = 32"
  shows "ecies_derive hmac shared 2 ECIES [] =
    Some (hmac shared (hmac shared ECIES @ ECIES) @ hmac shared (hmac shared (hmac shared ECIES) @ ECIES))"
  using assms by (simp add: ecies_derive.simps numeral_2_eq_2 Let_def)

section \<open>Legacy frames\<close>

datatype decode_failure =
    ShortFrame | ClearLength | AuthenticatedShort | LegacyLength | LegacyKeyUnwrap
  | LegacyKeyUnavailable | LegacyKeySize | LegacyDecrypt

definition decodeLegacyPpcsVideoFrame :: "crypto \<Rightarrow> bytes \<Rightarrow> nat \<Rightarrow> decode_failure + bytes" where
  "decodeLegacyPpcsVideoFrame cr frame signCode =
     (if length frame < 22 then Inl ShortFrame
      else
        (let len = u32le frame 0 in
         if signCode = 0 \<or> len < 128 then
           (if length frame < 22 + len then Inl ClearLength else Inr (slice 22 (22 + len) frame))
         else if length frame < 151 + 128 then Inl LegacyLength
         else
           (let legacyMediaEnd = 151 + len;
                mediaEnd = (if length frame \<ge> legacyMediaEnd then legacyMediaEnd else length frame) in
            case cr_unwrapLegacy cr (slice 22 150 frame) of
              UnwrapThrows \<Rightarrow> Inl LegacyKeyUnwrap
            | UnwrapNone \<Rightarrow> Inl LegacyKeyUnavailable
            | UnwrapKey key \<Rightarrow>
                if length key \<noteq> 16 \<and> length key \<noteq> 32 then Inl LegacyKeySize
                else (case cr_ecb cr key (slice 151 (151 + 128) frame) of
                        None \<Rightarrow> Inl LegacyDecrypt
                      | Some clear \<Rightarrow> Inr (clear @ slice (151 + 128) mediaEnd frame)))))"

section \<open>The decoder\<close>

datatype protection = PClear | PRsaEcb | PEccGcm

record decoder =
  vd_eccPrivateKey :: "bytes option"
  vd_mediaKey :: "bytes option"
  vd_lastFailure :: "decode_failure option"

definition vd_new :: decoder where
  "vd_new = \<lparr> vd_eccPrivateKey = None, vd_mediaKey = None, vd_lastFailure = None \<rparr>"

definition setEccPrivateKey :: "string \<Rightarrow> decoder \<Rightarrow> decoder" where
  "setEccPrivateKey value d =
     (let key = hex_bytes value in
      d\<lparr>vd_eccPrivateKey := (if length key = 32 then Some key else None), vd_mediaKey := None\<rparr>)"

definition decodeRecordingAudio :: "crypto \<Rightarrow> decoder \<Rightarrow> bytes \<Rightarrow> bytes option" where
  "decodeRecordingAudio cr d frame =
     (case vd_mediaKey d of
        None \<Rightarrow> None
      | Some key \<Rightarrow>
          if length frame < 44 \<or> frame ! 5 \<noteq> 0 \<or> u32le frame 0 \<noteq> length frame - 44 then None
          else
            (case cr_gcm cr key (slice 32 44 frame) eufy_aad (slice 16 32 frame) (drop 44 frame) of
               None \<Rightarrow> None
             | Some clear \<Rightarrow> decodePpcsAac (take 16 frame @ clear)))"

definition is_keyframe :: "bytes \<Rightarrow> bool" where
  "is_keyframe frame \<longleftrightarrow> frame ! 4 AND 1 = 1"

definition decodeAuthenticated :: "crypto \<Rightarrow> decoder \<Rightarrow> bytes \<Rightarrow> decoder \<times> bytes option" where
  "decodeAuthenticated cr d frame =
     (case vd_eccPrivateKey d of
        None \<Rightarrow> (d, None)
      | Some priv \<Rightarrow>
          if length frame < 179 then (d, None)
          else
            (case (if is_keyframe frame then unwrapAuthenticatedMediaKey cr (slice 22 151 frame) priv
                   else vd_mediaKey d) of
               None \<Rightarrow> (d, None)
             | Some key \<Rightarrow>
                 (case cr_gcm cr key (slice 167 179 frame) eufy_aad (slice 151 167 frame) (drop 179 frame) of
                    None \<Rightarrow> (d, None)
                  | Some data \<Rightarrow>
                      (if is_keyframe frame then d\<lparr>vd_mediaKey := Some key\<rparr> else d,
                       if length data > 0 then Some data else None))))"

definition legacy_result :: "protection \<Rightarrow> decoder \<Rightarrow> decode_failure + bytes \<Rightarrow> decoder \<times> (bytes \<times> protection) option" where
  "legacy_result p d r =
     (case r of
        Inl failure \<Rightarrow> (d\<lparr>vd_lastFailure := Some failure\<rparr>, None)
      | Inr data \<Rightarrow> (d\<lparr>vd_lastFailure := None\<rparr>, Some (data, p)))"

definition decodeFrame :: "crypto \<Rightarrow> decoder \<Rightarrow> bytes \<Rightarrow> nat \<Rightarrow> decoder \<times> (bytes \<times> protection) option" where
  "decodeFrame cr d0 frame signCode =
     (let d = d0\<lparr>vd_lastFailure := None\<rparr> in
      if signCode = 0 then legacy_result PClear d (decodeLegacyPpcsVideoFrame cr frame signCode)
      else
        (case decodeAuthenticated cr d frame of
           (d, Some data) \<Rightarrow> (d, Some (data, PEccGcm))
         | (d, None) \<Rightarrow>
             if length frame \<ge> 4 \<and> u32le frame 0 < 128 then (d\<lparr>vd_lastFailure := Some AuthenticatedShort\<rparr>, None)
             else legacy_result PRsaEcb d (decodeLegacyPpcsVideoFrame cr frame signCode)))"

datatype vd_event = VdKey string | VdFrame bytes nat

fun vd_step :: "crypto \<Rightarrow> decoder \<Rightarrow> vd_event \<Rightarrow> decoder \<times> (bytes \<times> protection) list" where
  "vd_step cr d (VdKey value) = (setEccPrivateKey value d, [])"
| "vd_step cr d (VdFrame frame signCode) =
     (case decodeFrame cr d frame signCode of (d, r) \<Rightarrow> (d, case r of None \<Rightarrow> [] | Some x \<Rightarrow> [x]))"

section \<open>What a key or a frame must have passed\<close>

lemma unwrap_authenticated:
  "unwrapAuthenticatedMediaKey cr envelope priv = Some key \<Longrightarrow>
     length key = 32 \<and>
     (\<exists>shared derived. cr_ecdh cr priv (take 33 envelope) = Some shared \<and>
        ecies_derive (cr_hmac cr) shared 2 ECIES [] = Some derived \<and>
        cr_hmac cr (slice 16 48 derived) (slice 33 97 envelope) = slice 97 129 envelope)"
  by (auto simp: unwrapAuthenticatedMediaKey_def split: if_splits option.splits)

text \<open>\<open>authentic cr d frame key data\<close>: the GCM tag of the frame verified under the key it selects.\<close>

definition authentic :: "crypto \<Rightarrow> decoder \<Rightarrow> bytes \<Rightarrow> bytes \<Rightarrow> bytes \<Rightarrow> bool" where
  "authentic cr d frame key data \<longleftrightarrow> length frame \<ge> 179 \<and>
     (if is_keyframe frame
      then (\<exists>priv. vd_eccPrivateKey d = Some priv \<and> unwrapAuthenticatedMediaKey cr (slice 22 151 frame) priv = Some key)
      else vd_mediaKey d = Some key) \<and>
     cr_gcm cr key (slice 167 179 frame) eufy_aad (slice 151 167 frame) (drop 179 frame) = Some data"

lemma decodeAuthenticated_data:
  "decodeAuthenticated cr d frame = (d', Some data) \<Longrightarrow> data \<noteq> [] \<and> (\<exists>key. authentic cr d frame key data)"
  by (auto simp: decodeAuthenticated_def authentic_def split: option.splits if_splits)

lemma decodeAuthenticated_key:
  "decodeAuthenticated cr d frame = (d', r) \<Longrightarrow>
     vd_eccPrivateKey d' = vd_eccPrivateKey d \<and> vd_lastFailure d' = vd_lastFailure d \<and>
     (vd_mediaKey d' = vd_mediaKey d \<or>
      (\<exists>key data. vd_mediaKey d' = Some key \<and> is_keyframe frame \<and> authentic cr d frame key data))"
  by (auto simp: decodeAuthenticated_def authentic_def split: option.splits if_splits)

lemma authentic_failure [simp]: "authentic cr (d\<lparr>vd_lastFailure := x\<rparr>) = authentic cr d"
  by (simp add: authentic_def fun_eq_iff)

lemma decodeFrame_key:
  "decodeFrame cr d frame signCode = (d', r) \<Longrightarrow> vd_mediaKey d' \<noteq> vd_mediaKey d \<Longrightarrow>
     signCode > 0 \<and> is_keyframe frame \<and> (\<exists>key data. vd_mediaKey d' = Some key \<and> authentic cr d frame key data)"
proof -
  assume r: "decodeFrame cr d frame signCode = (d', r)" and ne: "vd_mediaKey d' \<noteq> vd_mediaKey d"
  let ?d = "d\<lparr>vd_lastFailure := None\<rparr>"
  show ?thesis
  proof (cases "signCode = 0")
    case True
    with r ne show ?thesis by (auto simp: decodeFrame_def legacy_result_def Let_def split: sum.splits)
  next
    case False
    obtain d1 r1 where a: "decodeAuthenticated cr ?d frame = (d1, r1)" by fastforce
    have "vd_mediaKey d' = vd_mediaKey d1"
      using r a False by (auto simp: decodeFrame_def legacy_result_def Let_def split: option.splits if_splits sum.splits)
    with decodeAuthenticated_key [OF a] ne False show ?thesis by auto
  qed
qed

lemma decodeFrame_data:
  "decodeFrame cr d frame signCode = (d', Some (data, p)) \<Longrightarrow>
     (case p of
        PClear \<Rightarrow> signCode = 0
      | PEccGcm \<Rightarrow> signCode > 0 \<and> data \<noteq> [] \<and> (\<exists>key. authentic cr d frame key data)
      | PRsaEcb \<Rightarrow> signCode > 0 \<and> length frame \<ge> 279 \<and> u32le frame 0 \<ge> 128 \<and>
          (\<exists>key clear. cr_unwrapLegacy cr (slice 22 150 frame) = UnwrapKey key \<and>
             cr_ecb cr key (slice 151 279 frame) = Some clear \<and>
             (\<exists>rest. data = clear @ rest)))"
proof -
  assume r: "decodeFrame cr d frame signCode = (d', Some (data, p))"
  show ?thesis
  proof (cases "signCode = 0")
    case True
    with r show ?thesis by (auto simp: decodeFrame_def legacy_result_def Let_def split: sum.splits)
  next
    case False
    let ?d = "d\<lparr>vd_lastFailure := None\<rparr>"
    obtain d1 r1 where a: "decodeAuthenticated cr ?d frame = (d1, r1)" by fastforce
    show ?thesis
    proof (cases r1)
      case (Some x)
      with r a False decodeAuthenticated_data [of cr ?d frame d1 x] show ?thesis
        by (auto simp: decodeFrame_def Let_def)
    next
      case None
      with r a False have "p = PRsaEcb" "decodeLegacyPpcsVideoFrame cr frame signCode = Inr data"
        "\<not> (length frame \<ge> 4 \<and> u32le frame 0 < 128)"
        by (auto simp: decodeFrame_def legacy_result_def Let_def split: if_splits sum.splits)
      with False show ?thesis
        by (auto simp: decodeLegacyPpcsVideoFrame_def Let_def split: if_splits option.splits unwrap_result.splits)
    qed
  qed
qed

section \<open>Properties\<close>

text \<open>C20: Bytes leave the decoder as video only when their protection was satisfied: clear only for
  an unsigned frame; ECC only when the GCM tag verified under the key the frame selects; RSA
  only for a signed frame long enough to carry the encrypted prefix, decrypted under the
  unwrapped key. A signed frame that declares fewer than 128 bytes never falls back.\<close>

theorem decoded_video_is_protected:
  assumes "decodeFrame cr d frame signCode = (d', Some (data, p))"
  shows "case p of
        PClear \<Rightarrow> signCode = 0
      | PEccGcm \<Rightarrow> signCode > 0 \<and> data \<noteq> [] \<and> (\<exists>key. authentic cr d frame key data)
      | PRsaEcb \<Rightarrow> signCode > 0 \<and> length frame \<ge> 279 \<and> u32le frame 0 \<ge> 128 \<and>
          (\<exists>key clear. cr_unwrapLegacy cr (slice 22 150 frame) = UnwrapKey key \<and>
             cr_ecb cr key (slice 151 279 frame) = Some clear \<and>
             (\<exists>rest. data = clear @ rest))"
  by (rule decodeFrame_data [OF assms])

definition toy_crypto :: crypto where
  "toy_crypto = \<lparr> cr_ecdh = (\<lambda>_ _. Some [1]), cr_hmac = (\<lambda>_ _. replicate 32 2), cr_cbc = (\<lambda>_ _ _. Some (replicate 32 3)),
     cr_ecb = (\<lambda>k d. Some (rev d)), cr_gcm = (\<lambda>k n a t c. if t = replicate 16 (last k) then Some c else None),
     cr_unwrapLegacy = (\<lambda>w. UnwrapKey (replicate 16 0)) \<rparr>"

lemma decoded_video_is_protected_witness:
  "\<exists>key. authentic toy_crypto \<lparr> vd_eccPrivateKey = Some [7], vd_mediaKey = Some [5], vd_lastFailure = None \<rparr>
      (replicate 151 0 @ replicate 28 5 @ [9]) key [9]"
proof -
  let ?d = "\<lparr> vd_eccPrivateKey = Some [7], vd_mediaKey = Some [5], vd_lastFailure = None \<rparr>"
  let ?f = "replicate 151 0 @ replicate 28 5 @ [9 :: byte]"
  have n: "?f ! 4 = 0" by (simp add: nth_append)
  have s: "slice 151 167 ?f = replicate 16 5" "drop 179 ?f = [9]" by (simp_all add: slice_def)
  have "decodeFrame toy_crypto ?d ?f 1 = (?d, Some ([9], PEccGcm))"
    by (simp add: decodeFrame_def decodeAuthenticated_def is_keyframe_def n s toy_crypto_def Let_def
        del: drop_append append_assoc)
  from decoded_video_is_protected [OF this] show ?thesis by simp
qed

text \<open>The retained media key changes only to a key whose own keyframe authenticated: a damaged
  or forged keyframe, an unsigned frame or a delta frame never replaces it.\<close>

theorem media_key_commits_after_authentication:
  assumes "decodeFrame cr d frame signCode = (d', r)" "vd_mediaKey d' \<noteq> vd_mediaKey d"
  shows "signCode > 0 \<and> is_keyframe frame \<and>
    (\<exists>key data. vd_mediaKey d' = Some key \<and> length key = 32 \<and> authentic cr d frame key data)"
proof -
  from decodeFrame_key [OF assms] obtain key data where
    k: "signCode > 0" "is_keyframe frame" "vd_mediaKey d' = Some key" "authentic cr d frame key data" by blast
  then have "length key = 32" using unwrap_authenticated by (auto simp: authentic_def)
  with k show ?thesis by blast
qed

lemma media_key_commits_after_authentication_witness:
  "\<exists>key data. length key = 32 \<and> authentic toy_crypto \<lparr> vd_eccPrivateKey = Some [7], vd_mediaKey = None, vd_lastFailure = None \<rparr>
      (replicate 22 1 @ replicate 129 2 @ replicate 28 3 @ [9]) key data"
proof -
  let ?d = "\<lparr> vd_eccPrivateKey = Some [7], vd_mediaKey = None, vd_lastFailure = None \<rparr>"
  let ?f = "replicate 22 1 @ replicate 129 2 @ replicate 28 3 @ [9 :: byte]"
  have n: "?f ! 4 = 1" by (simp add: nth_append)
  have s: "slice 22 151 ?f = replicate 129 2" "slice 151 167 ?f = replicate 16 3" "drop 179 ?f = [9]"
    by (simp_all add: slice_def)
  have "ecies_derive (cr_hmac toy_crypto) [1] 2 ECIES [] = Some (replicate 32 2 @ replicate 32 2)"
    by (subst ecies_derive_returns) (simp_all add: toy_crypto_def)
  then have u: "unwrapAuthenticatedMediaKey toy_crypto (replicate 129 2) [7] = Some (replicate 32 3)"
    by (simp add: unwrapAuthenticatedMediaKey_def toy_crypto_def slice_def)
  have "decodeFrame toy_crypto ?d ?f 1 = (?d\<lparr>vd_mediaKey := Some (replicate 32 3)\<rparr>, Some ([9], PEccGcm))"
    by (simp add: decodeFrame_def decodeAuthenticated_def is_keyframe_def n s u Let_def
        del: drop_append append_assoc) (simp add: toy_crypto_def)
  note commit = media_key_commits_after_authentication [OF this]
  have "vd_mediaKey (?d\<lparr>vd_mediaKey := Some (replicate 32 3)\<rparr>) \<noteq> vd_mediaKey ?d" by simp
  from commit [OF this] show ?thesis by blast
qed

end
