(* ===== verification/Nvr_Ptcs.thy ===== *)
theory Nvr_Ptcs
  imports Js_Map Machine
begin

text \<open>
  PTCS fragments: the sender \<open>nvrPackets\<close> of \<open>stream/nvr-protocol.ts\<close> and the bounded
  reassembler \<open>NvrPtcsReassembler\<close> of \<open>stream/nvr-ptcs-reassembly.ts\<close>. A frame key is the
  text \<open>channel:sequence:timestamp\<close>, here a constructor of the three numbers. Zstandard is a parameter (\<open>zstd frame limit\<close>, None
  where it throws); a clock that runs backwards throws, so \<open>expire\<close> and \<open>push\<close> are partial.
  The theorems: budgets, replay and poison rejection, and the round trip from the sender
  in any order of arrival, among any other traffic.
\<close>

definition PACKET_BYTES :: nat where "PACKET_BYTES = 1028"
definition HEADER_BYTES :: nat where "HEADER_BYTES = 28"
definition FRAGMENT_BYTES :: nat where "FRAGMENT_BYTES = 1000"

definition PTCS :: bytes where "PTCS = [0x50, 0x54, 0x43, 0x53]"

record limits =
  lm_maxFrameBytes :: nat
  lm_maxBufferedBytes :: nat
  lm_maxPendingFrames :: nat
  lm_maxFragmentsPerFrame :: nat
  lm_maxRetainedFragments :: nat
  lm_maxDecompressedBytes :: nat
  lm_maxCompletedTombstones :: nat
  lm_expiryMilliseconds :: nat

definition default_limits :: limits where
  "default_limits = \<lparr> lm_maxFrameBytes = 4 * 1024 * 1024, lm_maxBufferedBytes = 8 * 1024 * 1024,
     lm_maxPendingFrames = 64, lm_maxFragmentsPerFrame = 8192, lm_maxRetainedFragments = 32768,
     lm_maxDecompressedBytes = 1572864, lm_maxCompletedTombstones = 256, lm_expiryMilliseconds = 1000 \<rparr>"

text \<open>The constructor's check (the values are natural, so only zero and the sizes remain).\<close>

definition limits_ok :: "limits \<Rightarrow> bool" where
  "limits_ok l \<longleftrightarrow>
     (\<forall>v\<in>set [lm_maxFrameBytes l, lm_maxBufferedBytes l, lm_maxPendingFrames l, lm_maxFragmentsPerFrame l,
              lm_maxRetainedFragments l, lm_maxDecompressedBytes l, lm_maxCompletedTombstones l, lm_expiryMilliseconds l].
        0 < v \<and> int v \<le> max_safe_integer) \<and>
     FRAGMENT_BYTES \<le> lm_maxFrameBytes l \<and> lm_maxFrameBytes l \<le> lm_maxBufferedBytes l"

datatype rejection =
    RjGeometry | RjMagic | RjType | RjFlags | RjLength | RjIndex | RjFinalMarker | RjChannel
  | RjFrameTooLarge | RjMetadata | RjDuplicate | RjDecompression | RjReplay | RjCapacity | RjPoisoned

datatype frame_key = FrameKey nat nat nat

datatype ptcs_result =
    Incomplete
  | Rejected rejection
  | Complete nat nat nat bytes

record pframe =
  pf_total :: nat
  pf_firstArrival :: int
  pf_compressed :: bool
  pf_keyframe :: bool
  pf_fragments :: "(nat, bytes \<times> bool) jsmap"
  pf_receivedBytes :: nat
  pf_finalIndex :: "nat option"

record tombstone =
  tb_firstArrival :: int
  tb_reason :: rejection

record ptcs =
  pt_pending :: "(frame_key, pframe) jsmap"
  pt_tombstones :: "(frame_key, tombstone) jsmap"
  pt_rejected :: "(rejection, int) jsmap"
  pt_bufferedBytes :: int
  pt_retainedFragments :: int
  pt_lastNow :: int

definition pt_new :: ptcs where
  "pt_new = \<lparr> pt_pending = [], pt_tombstones = [], pt_rejected = [], pt_bufferedBytes = 0,
     pt_retainedFragments = 0, pt_lastNow = 0 \<rparr>"

section \<open>Bookkeeping\<close>

definition pt_reject :: "ptcs \<Rightarrow> rejection \<Rightarrow> ptcs \<times> ptcs_result" where
  "pt_reject s r =
     (s\<lparr>pt_rejected := AList.update r
          (min max_safe_integer ((case map_of (pt_rejected s) r of None \<Rightarrow> 0 | Some n \<Rightarrow> n) + 1)) (pt_rejected s)\<rparr>,
      Rejected r)"

definition pt_release :: "frame_key \<Rightarrow> pframe \<Rightarrow> ptcs \<Rightarrow> ptcs" where
  "pt_release key p s =
     s\<lparr>pt_pending := AList.delete key (pt_pending s),
       pt_bufferedBytes := pt_bufferedBytes s - int (pf_total p),
       pt_retainedFragments := pt_retainedFragments s - int (length (pf_fragments p))\<rparr>"

text \<open>The scan for the oldest tombstone: the first entry with the least arrival.\<close>

fun oldest_tomb :: "(frame_key, tombstone) jsmap \<Rightarrow> (frame_key \<times> tombstone) option" where
  "oldest_tomb [] = None"
| "oldest_tomb ((k, t) # m) =
     (case oldest_tomb m of
        None \<Rightarrow> Some (k, t)
      | Some (k', t') \<Rightarrow> if tb_firstArrival t' < tb_firstArrival t then Some (k', t') else Some (k, t))"

definition pt_remember :: "limits \<Rightarrow> frame_key \<Rightarrow> tombstone \<Rightarrow> ptcs \<Rightarrow> ptcs" where
  "pt_remember l key t s =
     (let tombs =
        (if length (pt_tombstones s) \<ge> lm_maxCompletedTombstones l
         then (case oldest_tomb (pt_tombstones s) of
                 None \<Rightarrow> pt_tombstones s | Some (k, _) \<Rightarrow> AList.delete k (pt_tombstones s))
         else pt_tombstones s)
      in s\<lparr>pt_tombstones := AList.update key t tombs\<rparr>)"

definition pt_poison :: "limits \<Rightarrow> frame_key \<Rightarrow> pframe \<Rightarrow> rejection \<Rightarrow> ptcs \<Rightarrow> ptcs \<times> ptcs_result" where
  "pt_poison l key p r s =
     pt_reject (pt_remember l key \<lparr> tb_firstArrival = pf_firstArrival p, tb_reason = RjPoisoned \<rparr> (pt_release key p s)) r"

definition pt_clear :: "ptcs \<Rightarrow> ptcs" where
  "pt_clear s = s\<lparr>pt_pending := [], pt_tombstones := [], pt_bufferedBytes := 0, pt_retainedFragments := 0\<rparr>"

definition pt_expire :: "limits \<Rightarrow> int \<Rightarrow> ptcs \<Rightarrow> ptcs option" where
  "pt_expire l now s =
     (if \<not> safe_int now \<or> now < pt_lastNow s then None
      else
        (let s = s\<lparr>pt_lastNow := now\<rparr>;
             s = fold (\<lambda>(key, p) s. if now - pf_firstArrival p \<ge> int (lm_expiryMilliseconds l) then pt_release key p s else s)
                   (pt_pending s) s
         in Some (s\<lparr>pt_tombstones :=
              filter (\<lambda>(key, t). \<not> now - tb_firstArrival t \<ge> int (lm_expiryMilliseconds l)) (pt_tombstones s)\<rparr>)))"

section \<open>Packet validation\<close>

record fragment =
  fr_channel :: nat
  fr_sequence :: nat
  fr_timestamp :: nat
  fr_total :: nat
  fr_index :: nat
  fr_final :: bool
  fr_compressed :: bool
  fr_keyframe :: bool
  fr_part :: bytes

definition flag_bit :: "nat \<Rightarrow> nat \<Rightarrow> bool" where
  "flag_bit k flags \<longleftrightarrow> flags div 2 ^ k mod 2 = 1"

text \<open>The checks of \<open>push\<close> that depend only on the packet and the limits, in their order. The
  flag bits outside \<open>0x6fff\<close> are 12 and 15; \<open>0x4000\<close> is bit 14, \<open>0x2000\<close> bit 13,
  \<open>0x0800\<close> bit 11, \<open>0x0400\<close> bit 10.\<close>

definition ptcs_parse :: "limits \<Rightarrow> bytes \<Rightarrow> rejection + fragment" where
  "ptcs_parse l packet =
     (if length packet < HEADER_BYTES \<or> length packet > PACKET_BYTES then Inl RjGeometry
      else if take 4 packet \<noteq> PTCS then Inl RjMagic
      else if packet ! 4 \<noteq> 3 then Inl RjType
      else if unat (packet ! 5) > 5 then Inl RjChannel
      else
        (let total = u32le packet 12; index = u16le packet 16; flags = u16le packet 18 in
         if flag_bit 12 flags \<or> flag_bit 15 flags \<or> \<not> flag_bit 14 flags then Inl RjFlags
         else
           (let len = flags mod 1024; final = flag_bit 10 flags; exact = (length packet = HEADER_BYTES + len) in
            if len > FRAGMENT_BYTES then Inl RjLength
            else if \<not> exact \<and> length packet \<noteq> PACKET_BYTES then Inl RjGeometry
            else if \<not> exact \<and> \<not> final \<and> len \<noteq> FRAGMENT_BYTES then Inl RjLength
            else if len = 0 \<and> \<not> (total = 0 \<and> index = 0 \<and> final) then Inl RjLength
            else if total > lm_maxFrameBytes l then Inl RjFrameTooLarge
            else if index \<ge> lm_maxFragmentsPerFrame l then Inl RjIndex
            else Inr \<lparr> fr_channel = unat (packet ! 5), fr_sequence = u16le packet 6, fr_timestamp = u32le packet 8,
                       fr_total = total, fr_index = index, fr_final = final,
                       fr_compressed = flag_bit 11 flags, fr_keyframe = flag_bit 13 flags,
                       fr_part = slice HEADER_BYTES (HEADER_BYTES + len) packet \<rparr>)))"

section \<open>Storing a fragment\<close>

definition frag_key :: "fragment \<Rightarrow> frame_key" where
  "frag_key f = FrameKey (fr_channel f) (fr_sequence f) (fr_timestamp f)"

text \<open>The bytes of the fragments \<open>0 .. n\<close>, if none is missing.\<close>

definition frags_present :: "nat \<Rightarrow> (nat, bytes \<times> bool) jsmap \<Rightarrow> bool" where
  "frags_present n m \<longleftrightarrow> list_all (\<lambda>i. map_of m i \<noteq> None) [0..<Suc n]"

definition frags_concat :: "nat \<Rightarrow> (nat, bytes \<times> bool) jsmap \<Rightarrow> bytes" where
  "frags_concat n m = concat (List.map (\<lambda>i. fst (the (map_of m i))) [0..<Suc n])"

definition pt_complete :: "limits \<Rightarrow> (bytes \<Rightarrow> nat \<Rightarrow> bytes option) \<Rightarrow> fragment \<Rightarrow> pframe \<Rightarrow> nat \<Rightarrow> ptcs \<Rightarrow> ptcs \<times> ptcs_result" where
  "pt_complete l zstd f p n s =
     (let key = frag_key f; frame = frags_concat n (pf_fragments p); s = pt_release key p s;
          replay = \<lparr> tb_firstArrival = pf_firstArrival p, tb_reason = RjReplay \<rparr> in
      if pf_compressed p then
        (case zstd frame (lm_maxDecompressedBytes l) of
           None \<Rightarrow> pt_reject (pt_remember l key (replay\<lparr>tb_reason := RjPoisoned\<rparr>) s) RjDecompression
         | Some output \<Rightarrow> (pt_remember l key replay s, Complete (fr_channel f) (fr_sequence f) (fr_timestamp f) output))
      else (pt_remember l key replay s, Complete (fr_channel f) (fr_sequence f) (fr_timestamp f) frame))"

definition pf_put :: "fragment \<Rightarrow> pframe \<Rightarrow> pframe" where
  "pf_put f p = p\<lparr>pf_fragments := AList.update (fr_index f) (fr_part f, fr_final f) (pf_fragments p),
     pf_receivedBytes := pf_receivedBytes p + length (fr_part f)\<rparr>"

definition pf_mark :: "fragment \<Rightarrow> pframe \<Rightarrow> pframe" where
  "pf_mark f p = (if fr_final f then p\<lparr>pf_finalIndex := Some (fr_index f)\<rparr> else p)"

text \<open>The pending frame is an object shared with the map: every update is written back.\<close>

definition pt_set :: "frame_key \<Rightarrow> pframe \<Rightarrow> ptcs \<Rightarrow> ptcs" where
  "pt_set key p s = s\<lparr>pt_pending := AList.update key p (pt_pending s)\<rparr>"

text \<open>From the duplicate check on; \<open>p\<close> is the pending frame, present in the state.\<close>

definition pt_store :: "limits \<Rightarrow> (bytes \<Rightarrow> nat \<Rightarrow> bytes option) \<Rightarrow> fragment \<Rightarrow> pframe \<Rightarrow> ptcs \<Rightarrow> ptcs \<times> ptcs_result" where
  "pt_store l zstd f p s =
     (let key = frag_key f; index = fr_index f in
      if (case pf_finalIndex p of None \<Rightarrow> False | Some n \<Rightarrow> index > n \<or> fr_final f \<and> index \<noteq> n)
      then pt_poison l key p RjFinalMarker s
      else
        (case map_of (pf_fragments p) index of
           Some (bytes, final) \<Rightarrow>
             if final \<noteq> fr_final f \<or> bytes \<noteq> fr_part f then pt_poison l key p RjDuplicate s
             else (s, Incomplete)
         | None \<Rightarrow>
             if pt_retainedFragments s \<ge> int (lm_maxRetainedFragments l) then pt_poison l key p RjCapacity s
             else
               (let p = pf_put f p;
                    s = (pt_set key p s)\<lparr>pt_retainedFragments := pt_retainedFragments s + 1\<rparr> in
                if pf_receivedBytes p > fr_total f then pt_poison l key p RjLength s
                else
                  (let p = pf_mark f p; s = pt_set key p s in
                   if fr_final f \<and> list_ex (\<lambda>i. i > index) (List.map fst (pf_fragments p))
                   then pt_poison l key p RjFinalMarker s
                   else
                     (case pf_finalIndex p of
                        None \<Rightarrow> (s, Incomplete)
                      | Some n \<Rightarrow>
                          if \<not> frags_present n (pf_fragments p) then (s, Incomplete)
                          else if pf_receivedBytes p \<noteq> fr_total f then pt_poison l key p RjLength s
                          else pt_complete l zstd f p n s)))))"

definition pt_admit :: "limits \<Rightarrow> (bytes \<Rightarrow> nat \<Rightarrow> bytes option) \<Rightarrow> fragment \<Rightarrow> int \<Rightarrow> ptcs \<Rightarrow> ptcs \<times> ptcs_result" where
  "pt_admit l zstd f now s =
     (let key = frag_key f in
      case map_of (pt_tombstones s) key of
        Some t \<Rightarrow> pt_reject s (tb_reason t)
      | None \<Rightarrow>
          (case map_of (pt_pending s) key of
             Some p \<Rightarrow>
               if pf_total p \<noteq> fr_total f \<or> pf_compressed p \<noteq> fr_compressed f \<or> pf_keyframe p \<noteq> fr_keyframe f
               then pt_poison l key p RjMetadata s
               else pt_store l zstd f p s
           | None \<Rightarrow>
               if length (pt_pending s) \<ge> lm_maxPendingFrames l \<or>
                  int (fr_total f) > int (lm_maxBufferedBytes l) - pt_bufferedBytes s \<or>
                  pt_retainedFragments s \<ge> int (lm_maxRetainedFragments l)
               then pt_reject s RjCapacity
               else
                 (let p = \<lparr> pf_total = fr_total f, pf_firstArrival = now, pf_compressed = fr_compressed f,
                            pf_keyframe = fr_keyframe f, pf_fragments = [], pf_receivedBytes = 0, pf_finalIndex = None \<rparr>
                  in pt_store l zstd f p
                       (s\<lparr>pt_pending := AList.update key p (pt_pending s),
                          pt_bufferedBytes := pt_bufferedBytes s + int (fr_total f)\<rparr>))))"

definition pt_push :: "limits \<Rightarrow> (bytes \<Rightarrow> nat \<Rightarrow> bytes option) \<Rightarrow> ptcs \<Rightarrow> bytes \<Rightarrow> int \<Rightarrow> (ptcs \<times> ptcs_result) option" where
  "pt_push l zstd s packet now =
     (case pt_expire l now s of
        None \<Rightarrow> None
      | Some s \<Rightarrow> Some (case ptcs_parse l packet of Inl r \<Rightarrow> pt_reject s r | Inr f \<Rightarrow> pt_admit l zstd f now s))"

datatype pt_event = PtPush bytes int | PtExpire int | PtClear

text \<open>A call that throws leaves the state as it was.\<close>

fun pt_step :: "limits \<Rightarrow> (bytes \<Rightarrow> nat \<Rightarrow> bytes option) \<Rightarrow> ptcs \<Rightarrow> pt_event \<Rightarrow> ptcs \<times> ptcs_result list" where
  "pt_step l zstd s (PtPush packet now) =
     (case pt_push l zstd s packet now of None \<Rightarrow> (s, []) | Some (s', r) \<Rightarrow> (s', [r]))"
| "pt_step l zstd s (PtExpire now) = (case pt_expire l now s of None \<Rightarrow> (s, []) | Some s' \<Rightarrow> (s', []))"
| "pt_step l zstd s PtClear = (pt_clear s, [])"

section \<open>Budgets\<close>

definition pframe_ok :: "limits \<Rightarrow> int \<Rightarrow> pframe \<Rightarrow> bool" where
  "pframe_ok l now p \<longleftrightarrow> js_wf (pf_fragments p) \<and> pf_total p \<le> lm_maxFrameBytes l \<and>
     pf_receivedBytes p = js_total (\<lambda>e. length (fst e)) (pf_fragments p) \<and> pf_receivedBytes p \<le> pf_total p \<and>
     (\<forall>i e. map_of (pf_fragments p) i = Some e \<longrightarrow> i < lm_maxFragmentsPerFrame l \<and>
        length (fst e) \<le> FRAGMENT_BYTES \<and> (case pf_finalIndex p of None \<Rightarrow> \<not> snd e | Some n \<Rightarrow> i \<le> n)) \<and>
     (\<forall>n. pf_finalIndex p = Some n \<longrightarrow> \<not> frags_present n (pf_fragments p)) \<and>
     pf_firstArrival p \<le> now"

definition pt_counts :: "ptcs \<Rightarrow> bool" where
  "pt_counts s \<longleftrightarrow> pt_bufferedBytes s = int (js_total pf_total (pt_pending s)) \<and>
     pt_retainedFragments s = int (js_total (\<lambda>p. length (pf_fragments p)) (pt_pending s))"

definition pt_inv :: "limits \<Rightarrow> ptcs \<Rightarrow> bool" where
  "pt_inv l s \<longleftrightarrow> js_wf (pt_pending s) \<and> js_wf (pt_tombstones s) \<and> pt_counts s \<and>
     length (pt_pending s) \<le> lm_maxPendingFrames l \<and>
     pt_bufferedBytes s \<le> int (lm_maxBufferedBytes l) \<and>
     pt_retainedFragments s \<le> int (lm_maxRetainedFragments l) \<and>
     length (pt_tombstones s) \<le> lm_maxCompletedTombstones l \<and>
     (\<forall>k p. map_of (pt_pending s) k = Some p \<longrightarrow> pframe_ok l (pt_lastNow s) p \<and> map_of (pt_tombstones s) k = None) \<and>
     (\<forall>k t. map_of (pt_tombstones s) k = Some t \<longrightarrow> tb_reason t \<in> {RjReplay, RjPoisoned})"

lemma pt_reject_fields [simp]:
  "pt_pending (fst (pt_reject s r)) = pt_pending s" "pt_tombstones (fst (pt_reject s r)) = pt_tombstones s"
  "pt_bufferedBytes (fst (pt_reject s r)) = pt_bufferedBytes s"
  "pt_retainedFragments (fst (pt_reject s r)) = pt_retainedFragments s"
  "pt_lastNow (fst (pt_reject s r)) = pt_lastNow s" "snd (pt_reject s r) = Rejected r"
  by (simp_all add: pt_reject_def)

lemma pt_reject_inv [simp]: "pt_inv l (fst (pt_reject s r)) = pt_inv l s"
  by (simp add: pt_inv_def pt_counts_def)

lemma pt_release_fields [simp]:
  "pt_pending (pt_release k p s) = AList.delete k (pt_pending s)" "pt_tombstones (pt_release k p s) = pt_tombstones s"
  "pt_lastNow (pt_release k p s) = pt_lastNow s"
  by (simp_all add: pt_release_def)

lemma js_length_delete_le: "length (AList.delete k m) \<le> length m"
  by (simp add: AList.delete_eq)

lemma pt_release_inv:
  assumes "pt_inv l s" "map_of (pt_pending s) k = Some p"
  shows "pt_inv l (pt_release k p s)"
proof -
  have wf: "js_wf (pt_pending s)" using assms(1) by (simp add: pt_inv_def)
  have "pt_counts (pt_release k p s)"
    using assms(1) js.total_del [OF wf assms(2), of pf_total] js.total_del [OF wf assms(2), of "\<lambda>p. length (pf_fragments p)"]
    by (simp add: pt_inv_def pt_counts_def pt_release_def)
  with assms show ?thesis
    using js_length_delete_le [of k "pt_pending s"]
    by (auto simp: pt_inv_def js_get_delete pt_release_def)
qed

lemma oldest_tomb_in: "oldest_tomb m = Some (k, t) \<Longrightarrow> (k, t) \<in> set m"
  by (induction m arbitrary: k t rule: oldest_tomb.induct) (auto split: option.splits if_splits)

lemma oldest_tomb_None: "oldest_tomb m = None \<longleftrightarrow> m = []"
  by (cases m rule: oldest_tomb.cases) (auto split: option.splits)

lemma pt_remember_inv:
  assumes "pt_inv l s" "limits_ok l" "map_of (pt_pending s) k = None" "tb_reason t \<in> {RjReplay, RjPoisoned}"
  shows "pt_inv l (pt_remember l k t s)"
proof -
  define m where "m = (if length (pt_tombstones s) \<ge> lm_maxCompletedTombstones l
         then (case oldest_tomb (pt_tombstones s) of
                 None \<Rightarrow> pt_tombstones s | Some (k, _) \<Rightarrow> AList.delete k (pt_tombstones s))
         else pt_tombstones s)"
  have r: "pt_remember l k t s = s\<lparr>pt_tombstones := AList.update k t m\<rparr>"
    by (simp add: pt_remember_def m_def)
  have wf: "js_wf (pt_tombstones s)" and le: "length (pt_tombstones s) \<le> lm_maxCompletedTombstones l"
    using assms(1) by (simp_all add: pt_inv_def)
  have pos: "0 < lm_maxCompletedTombstones l" using assms(2) by (simp add: limits_ok_def)
  have sub: "map_of m k' = None \<or> map_of m k' = map_of (pt_tombstones s) k'" for k'
    by (auto simp: m_def js_get_delete split: option.splits)
  have wfm: "js_wf m" using wf by (auto simp: m_def split: option.splits)
  have len: "length m < lm_maxCompletedTombstones l"
  proof (cases "length (pt_tombstones s) \<ge> lm_maxCompletedTombstones l")
    case True
    then have "pt_tombstones s \<noteq> []" using pos by auto
    then obtain k0 t0 where o: "oldest_tomb (pt_tombstones s) = Some (k0, t0)"
      using oldest_tomb_None by fastforce
    then have "map_of (pt_tombstones s) k0 \<noteq> None"
      using oldest_tomb_in [OF o] js_in_set [OF wf] by auto
    with js_length_delete [OF wf this] o True le show ?thesis by (simp add: m_def)
  qed (simp add: m_def)
  have "js_wf (AList.update k t m)" "length (AList.update k t m) \<le> lm_maxCompletedTombstones l"
    using wfm len by (auto simp: js_length_update)
  moreover have "map_of (AList.update k t m) k' = None" if "map_of (pt_pending s) k' = Some p" for k' p
    using that assms(1,3) sub [of k'] by (auto simp: pt_inv_def js_get_update)
  moreover have "tb_reason t' \<in> {RjReplay, RjPoisoned}" if "map_of (AList.update k t m) k' = Some t'" for k' t'
    using that assms(1,4) sub [of k'] by (auto simp: pt_inv_def js_get_update split: if_splits)
  ultimately show ?thesis using assms(1) unfolding r by (simp add: pt_inv_def pt_counts_def)
qed

lemma pt_poison_inv:
  assumes "pt_inv l s" "limits_ok l" "map_of (pt_pending s) k = Some p"
  shows "pt_inv l (fst (pt_poison l k p r s))"
  using pt_remember_inv [OF pt_release_inv [OF assms(1,3)] assms(2)]
  by (simp add: pt_poison_def js_get_delete)

text \<open>The pending frame after a new fragment is stored, and the state holding it.\<close>

abbreviation pf_add :: "fragment \<Rightarrow> pframe \<Rightarrow> pframe" where
  "pf_add f p \<equiv> pf_mark f (pf_put f p)"

definition pt_stored :: "frame_key \<Rightarrow> pframe \<Rightarrow> ptcs \<Rightarrow> ptcs" where
  "pt_stored key p s = (pt_set key p s)\<lparr>pt_retainedFragments := pt_retainedFragments s + 1\<rparr>"

lemma pt_stored_again: "pt_set k q (pt_stored k p s) = pt_stored k q s"
  by (simp add: pt_stored_def pt_set_def)

lemma pf_put_fields [simp]:
  "pf_total (pf_put f p) = pf_total p" "pf_firstArrival (pf_put f p) = pf_firstArrival p"
  "pf_finalIndex (pf_put f p) = pf_finalIndex p" "pf_compressed (pf_put f p) = pf_compressed p"
  "pf_receivedBytes (pf_put f p) = pf_receivedBytes p + length (fr_part f)"
  "pf_fragments (pf_put f p) = AList.update (fr_index f) (fr_part f, fr_final f) (pf_fragments p)"
  "pf_keyframe (pf_put f p) = pf_keyframe p"
  by (simp_all add: pf_put_def)

lemma pf_mark_fields [simp]:
  "pf_total (pf_mark f p) = pf_total p" "pf_firstArrival (pf_mark f p) = pf_firstArrival p"
  "pf_compressed (pf_mark f p) = pf_compressed p" "pf_receivedBytes (pf_mark f p) = pf_receivedBytes p"
  "pf_fragments (pf_mark f p) = pf_fragments p" "pf_keyframe (pf_mark f p) = pf_keyframe p"
  "pf_finalIndex (pf_mark f p) = (if fr_final f then Some (fr_index f) else pf_finalIndex p)"
  by (simp_all add: pf_mark_def)

lemma pt_release_stored:
  "pf_total q = pf_total p \<Longrightarrow> length (pf_fragments q) = Suc (length (pf_fragments p)) \<Longrightarrow>
     pt_release k q (pt_stored k r s) = pt_release k p s"
  by (simp add: pt_release_def pt_stored_def pt_set_def delete_update_same)

lemma pt_poison_stored:
  "pf_total q = pf_total p \<Longrightarrow> length (pf_fragments q) = Suc (length (pf_fragments p)) \<Longrightarrow>
     pf_firstArrival q = pf_firstArrival p \<Longrightarrow> pt_poison l k q r (pt_stored k x s) = pt_poison l k p r s"
  using pt_release_stored [of q p k x s] by (simp add: pt_poison_def)

lemma pt_put_inv:
  assumes "pt_inv l s" "map_of (pt_pending s) k = Some p" "pf_total p' = pf_total p"
    "length (pf_fragments p') = Suc (length (pf_fragments p))" "pframe_ok l (pt_lastNow s) p'"
    "pt_retainedFragments s < int (lm_maxRetainedFragments l)"
  shows "pt_inv l (pt_stored k p' s)"
proof -
  have wf: "js_wf (pt_pending s)" using assms(1) by (simp add: pt_inv_def)
  have "js_total pf_total (AList.update k p' (pt_pending s)) = js_total pf_total (pt_pending s)"
    using js.total_replace [OF wf assms(2), of pf_total p'] assms(3) by simp
  moreover have "js_total (\<lambda>p. length (pf_fragments p)) (AList.update k p' (pt_pending s)) =
      Suc (js_total (\<lambda>p. length (pf_fragments p)) (pt_pending s))"
    using js.total_replace [OF wf assms(2), of "\<lambda>p. length (pf_fragments p)" p'] assms(4) by simp
  moreover have "length (AList.update k p' (pt_pending s)) = length (pt_pending s)"
    using assms(2) by (simp add: js_length_update)
  ultimately show ?thesis using assms
    by (auto simp: pt_inv_def pt_counts_def pt_stored_def pt_set_def js_get_update
        split: if_splits)
qed

definition fragment_ok :: "limits \<Rightarrow> fragment \<Rightarrow> bool" where
  "fragment_ok l f \<longleftrightarrow> fr_total f \<le> lm_maxFrameBytes l \<and> fr_index f < lm_maxFragmentsPerFrame l \<and>
     length (fr_part f) \<le> FRAGMENT_BYTES"

lemma ptcs_parse_ok: "ptcs_parse l packet = Inr f \<Longrightarrow> fragment_ok l f"
  by (auto simp: ptcs_parse_def fragment_ok_def Let_def split: if_splits)

lemma pt_store_new:
  assumes "map_of (pf_fragments p) (fr_index f) = None" "pf_total p = fr_total f"
    "\<not> (case pf_finalIndex p of None \<Rightarrow> False | Some n \<Rightarrow> fr_index f > n \<or> fr_final f \<and> fr_index f \<noteq> n)"
  shows "pt_store l zstd f p s =
    (let key = frag_key f; p' = pf_add f p; s' = pt_stored key p' s in
     if pt_retainedFragments s \<ge> int (lm_maxRetainedFragments l) then pt_poison l key p RjCapacity s
     else if pf_receivedBytes p' > pf_total p then pt_poison l key p RjLength s
     else if fr_final f \<and> list_ex (\<lambda>i. i > fr_index f) (List.map fst (pf_fragments p')) then pt_poison l key p RjFinalMarker s
     else (case pf_finalIndex p' of
             None \<Rightarrow> (s', Incomplete)
           | Some n \<Rightarrow>
               if \<not> frags_present n (pf_fragments p') then (s', Incomplete)
               else if pf_receivedBytes p' \<noteq> pf_total p then pt_poison l key p RjLength s
               else pt_complete l zstd f p' n s'))"
proof -
  have len: "length (pf_fragments (pf_put f p)) = Suc (length (pf_fragments p))"
    using assms(1) by (simp add: js_length_update)
  have poison: "pt_poison l k (pf_put f p) r (pt_stored k x s) = pt_poison l k p r s"
    "pt_poison l k (pf_add f p) r (pt_stored k x s) = pt_poison l k p r s" for k r x
    using len by (auto intro!: pt_poison_stored)
  show ?thesis
    unfolding pt_store_def Let_def pt_stored_def [symmetric] pt_stored_again poison
    using assms by (simp split: option.splits)
qed

lemma pf_add_ok:
  assumes "pframe_ok l now p" "fragment_ok l f" "map_of (pf_fragments p) (fr_index f) = None"
    "pf_receivedBytes (pf_add f p) \<le> pf_total p"
    "\<not> (case pf_finalIndex p of None \<Rightarrow> False | Some n \<Rightarrow> fr_index f > n \<or> fr_final f \<and> fr_index f \<noteq> n)"
    "\<not> (fr_final f \<and> list_ex (\<lambda>i. i > fr_index f) (List.map fst (pf_fragments (pf_add f p))))"
    "\<And>n. pf_finalIndex (pf_add f p) = Some n \<Longrightarrow> \<not> frags_present n (pf_fragments (pf_add f p))"
  shows "pframe_ok l now (pf_add f p)"
proof -
  have le: "i \<le> fr_index f" if "fr_final f" "map_of (pf_fragments (pf_add f p)) i = Some e" for i e
  proof -
    have "i \<in> set (List.map fst (pf_fragments (pf_add f p)))"
      using map_of_SomeD [OF that(2)] by force
    then show ?thesis using assms(6) that(1) by (auto simp: list_ex_iff not_less)
  qed
  have "\<forall>i e. map_of (pf_fragments (pf_add f p)) i = Some e \<longrightarrow> i < lm_maxFragmentsPerFrame l \<and>
        length (fst e) \<le> FRAGMENT_BYTES \<and> (case pf_finalIndex (pf_add f p) of None \<Rightarrow> \<not> snd e | Some n \<Rightarrow> i \<le> n)"
    using assms(1,2,5) le by (auto simp: pframe_ok_def fragment_ok_def js_get_update split: option.splits if_splits)
  with assms(1,3,4,7) show ?thesis
    by (simp add: pframe_ok_def js_total_fresh)
qed

lemma pt_complete_stored:
  assumes "map_of (pf_fragments p) (fr_index f) = None"
  shows "pt_complete l zstd f (pf_add f p) n (pt_stored (frag_key f) q s) =
    (let frame = frags_concat n (pf_fragments (pf_add f p)); s = pt_release (frag_key f) p s;
         replay = \<lparr> tb_firstArrival = pf_firstArrival p, tb_reason = RjReplay \<rparr> in
      if pf_compressed p then
        (case zstd frame (lm_maxDecompressedBytes l) of
           None \<Rightarrow> pt_reject (pt_remember l (frag_key f) (replay\<lparr>tb_reason := RjPoisoned\<rparr>) s) RjDecompression
         | Some output \<Rightarrow> (pt_remember l (frag_key f) replay s, Complete (fr_channel f) (fr_sequence f) (fr_timestamp f) output))
      else (pt_remember l (frag_key f) replay s, Complete (fr_channel f) (fr_sequence f) (fr_timestamp f) frame))"
proof -
  have "length (pf_fragments (pf_add f p)) = Suc (length (pf_fragments p))"
    using assms by (simp add: js_length_update)
  then have rel: "pt_release (frag_key f) (pf_add f p) (pt_stored (frag_key f) q s) = pt_release (frag_key f) p s"
    by (intro pt_release_stored) simp_all
  show ?thesis unfolding pt_complete_def Let_def rel pf_mark_fields pf_put_fields by (rule refl)
qed

lemma pt_store_inv:
  assumes inv: "pt_inv l s" and l: "limits_ok l" and f: "fragment_ok l f"
    and p: "map_of (pt_pending s) (frag_key f) = Some p" "pf_total p = fr_total f"
  shows "pt_inv l (fst (pt_store l zstd f p s))"
proof -
  have pok: "pframe_ok l (pt_lastNow s) p" using inv p(1) unfolding pt_inv_def by blast
  note poison = pt_poison_inv [OF inv l p(1)]
  show ?thesis
  proof (cases "case pf_finalIndex p of None \<Rightarrow> False | Some n \<Rightarrow> fr_index f > n \<or> fr_final f \<and> fr_index f \<noteq> n")
    case True
    then show ?thesis using poison by (simp add: pt_store_def)
  next
    case marker: False
    show ?thesis
    proof (cases "map_of (pf_fragments p) (fr_index f)")
      case (Some e)
      with marker poison inv show ?thesis by (cases e) (simp add: pt_store_def)
    next
      case None
      let ?p = "pf_add f p" and ?s = "pt_stored (frag_key f) (pf_add f p) s"
      have len: "length (pf_fragments ?p) = Suc (length (pf_fragments p))"
        using None by (simp add: js_length_update)
      have rel: "pt_inv l (pt_release (frag_key f) p s)" by (rule pt_release_inv [OF inv p(1)])
      then have rem: "tb_reason t \<in> {RjReplay, RjPoisoned} \<Longrightarrow> pt_inv l (pt_remember l (frag_key f) t (pt_release (frag_key f) p s))" for t
        by (rule pt_remember_inv [OF _ l]) (simp add: js_get_delete)
      have comp: "pt_inv l (fst (pt_complete l zstd f ?p n ?s))" for n
        using rem by (auto simp: pt_complete_stored [OF None] Let_def split: option.splits)
      have keep: "pt_inv l ?s"
        if "\<not> pt_retainedFragments s \<ge> int (lm_maxRetainedFragments l)" "\<not> pf_receivedBytes ?p > pf_total p"
          "\<not> (fr_final f \<and> list_ex (\<lambda>i. i > fr_index f) (List.map fst (pf_fragments ?p)))"
          "\<And>n. pf_finalIndex ?p = Some n \<Longrightarrow> \<not> frags_present n (pf_fragments ?p)"
      proof (rule pt_put_inv [OF inv p(1)])
        show "pframe_ok l (pt_lastNow s) ?p"
          by (rule pf_add_ok [OF pok f None _ marker that(3) that(4)]) (use that(2) in simp)
      qed (use len that(1) in auto)
      show ?thesis
        unfolding pt_store_new [OF None p(2) marker] Let_def
        using poison comp keep by (auto split: option.splits)
    qed
  qed
qed

lemma pt_admit_inv:
  assumes inv: "pt_inv l s" and l: "limits_ok l" and f: "fragment_ok l f" and now: "now = pt_lastNow s"
  shows "pt_inv l (fst (pt_admit l zstd f now s))"
proof (cases "map_of (pt_tombstones s) (frag_key f)")
  case (Some t)
  with inv show ?thesis by (simp add: pt_admit_def)
next
  case tomb: None
  show ?thesis
  proof (cases "map_of (pt_pending s) (frag_key f)")
    case (Some p)
    with tomb inv show ?thesis
      by (auto simp: pt_admit_def Let_def intro!: pt_poison_inv pt_store_inv l f)
  next
    case None
    let ?p = "\<lparr> pf_total = fr_total f, pf_firstArrival = now, pf_compressed = fr_compressed f,
                 pf_keyframe = fr_keyframe f, pf_fragments = [], pf_receivedBytes = 0, pf_finalIndex = None \<rparr>"
    let ?s = "s\<lparr>pt_pending := AList.update (frag_key f) ?p (pt_pending s), pt_bufferedBytes := pt_bufferedBytes s + int (fr_total f)\<rparr>"
    show ?thesis
    proof (cases "length (pt_pending s) \<ge> lm_maxPendingFrames l \<or>
                  int (fr_total f) > int (lm_maxBufferedBytes l) - pt_bufferedBytes s \<or>
                  pt_retainedFragments s \<ge> int (lm_maxRetainedFragments l)")
      case True
      with tomb None inv show ?thesis by (simp add: pt_admit_def Let_def)
    next
      case False
      have "pframe_ok l (pt_lastNow s) ?p" using f now by (simp add: pframe_ok_def fragment_ok_def)
      then have "pt_inv l ?s"
        using inv False None tomb
        by (auto simp: pt_inv_def pt_counts_def js_get_update js_total_fresh js_length_update
            split: if_splits)
      then have "pt_inv l (fst (pt_store l zstd f ?p ?s))"
        by (rule pt_store_inv [OF _ l f]) (simp_all add: js_get_update)
      with tomb None False show ?thesis by (simp add: pt_admit_def Let_def)
    qed
  qed
qed

definition pt_expire_entry :: "limits \<Rightarrow> int \<Rightarrow> frame_key \<times> pframe \<Rightarrow> ptcs \<Rightarrow> ptcs" where
  "pt_expire_entry l now e s =
     (if now - pf_firstArrival (snd e) \<ge> int (lm_expiryMilliseconds l) then pt_release (fst e) (snd e) s else s)"

lemma fold_expire_lastNow: "pt_lastNow (fold (pt_expire_entry l now) m u) = pt_lastNow u"
  by (induction m arbitrary: u) (simp_all add: pt_expire_entry_def)

lemma fold_expire_tombstones: "pt_tombstones (fold (pt_expire_entry l now) m u) = pt_tombstones u"
  by (induction m arbitrary: u) (simp_all add: pt_expire_entry_def)

lemma pt_expire_eq:
  "pt_expire l now s =
     (if \<not> safe_int now \<or> now < pt_lastNow s then None
      else Some ((fold (pt_expire_entry l now) (pt_pending s) (s\<lparr>pt_lastNow := now\<rparr>))
        \<lparr>pt_tombstones := filter (\<lambda>(key, t). \<not> now - tb_firstArrival t \<ge> int (lm_expiryMilliseconds l)) (pt_tombstones s)\<rparr>))"
proof -
  have "(\<lambda>(key, p) s. if now - pf_firstArrival p \<ge> int (lm_expiryMilliseconds l) then pt_release key p s else s) =
      pt_expire_entry l now"
    by (simp add: fun_eq_iff pt_expire_entry_def)
  then show ?thesis by (simp add: pt_expire_def Let_def fold_expire_tombstones)
qed

lemma pt_expire_fold_inv:
  "pt_inv l s \<Longrightarrow> js_wf m \<Longrightarrow> \<forall>k p. map_of m k = Some p \<longrightarrow> map_of (pt_pending s) k = Some p \<Longrightarrow>
     pt_inv l (fold (pt_expire_entry l now) m s)"
proof (induction m arbitrary: s)
  case (Cons e m)
  obtain k p where e: "e = (k, p)" by (cases e)
  have kp: "map_of (pt_pending s) k = Some p" using Cons.prems(3) e by simp
  have "k \<notin> fst ` set m" using Cons.prems(2) e by simp
  then have km: "map_of m k = None" by (simp add: map_of_eq_None_iff)
  let ?s = "pt_expire_entry l now e s"
  have "pt_inv l ?s" using pt_release_inv [OF Cons.prems(1) kp] Cons.prems(1) e by (simp add: pt_expire_entry_def)
  moreover have "\<forall>k' q. map_of m k' = Some q \<longrightarrow> map_of (pt_pending ?s) k' = Some q"
  proof (intro allI impI)
    fix k' q assume q: "map_of m k' = Some q"
    then have "k' \<noteq> k" using km by auto
    with Cons.prems(3) q e show "map_of (pt_pending ?s) k' = Some q"
      by (simp add: pt_expire_entry_def js_get_delete)
  qed
  ultimately show ?case using Cons.IH [of ?s] Cons.prems(2) e by simp
qed simp

lemma js_filter_lookup: "js_wf m \<Longrightarrow> map_of (filter f m) k = Some t \<Longrightarrow> map_of m k = Some t"
  using map_of_SomeD [of "filter f m" k t] js_in_set [of m k t] by simp

lemma pt_filter_inv:
  assumes "pt_inv l s"
  shows "pt_inv l (s\<lparr>pt_tombstones := filter f (pt_tombstones s)\<rparr>)"
proof -
  have wf: "js_wf (pt_tombstones s)" using assms by (simp add: pt_inv_def)
  note sub = js_filter_lookup [OF wf, of f]
  have none: "map_of (filter f (pt_tombstones s)) k = None" if "map_of (pt_tombstones s) k = None" for k
    using sub [of k] that by (cases "map_of (filter f (pt_tombstones s)) k") auto
  have "js_wf (filter f (pt_tombstones s))" using wf by (simp add: js_wf_def distinct_map_filter)
  moreover have "length (filter f (pt_tombstones s)) \<le> lm_maxCompletedTombstones l"
    by (rule order_trans [OF length_filter_le]) (use assms in \<open>simp add: pt_inv_def\<close>)
  ultimately show ?thesis
    using assms sub none unfolding pt_inv_def pt_counts_def by (simp, blast)
qed

lemma pt_expire_inv:
  assumes "pt_inv l s" "pt_expire l now s = Some s'"
  shows "pt_inv l s' \<and> pt_lastNow s' = now"
proof -
  let ?s0 = "s\<lparr>pt_lastNow := now\<rparr>"
  have now: "pt_lastNow s \<le> now" using assms(2) by (simp add: pt_expire_def Let_def split: if_splits)
  have i0: "pt_inv l ?s0"
  proof -
    have "pframe_ok l now p" if "map_of (pt_pending s) k = Some p" for k p
      using assms(1) that now by (force simp: pt_inv_def pframe_ok_def)
    with assms(1) show ?thesis by (simp add: pt_inv_def pt_counts_def)
  qed
  let ?s1 = "fold (pt_expire_entry l now) (pt_pending s) ?s0"
  have i1: "pt_inv l ?s1"
    using assms(1) by (intro pt_expire_fold_inv [OF i0]) (auto simp: pt_inv_def)
  let ?f = "\<lambda>(key :: frame_key, t). \<not> now - tb_firstArrival t \<ge> int (lm_expiryMilliseconds l)"
  have s': "s' = ?s1\<lparr>pt_tombstones := filter ?f (pt_tombstones s)\<rparr>"
    using assms(2) by (simp add: pt_expire_eq split: if_splits)
  have "pt_inv l s'"
    using pt_filter_inv [OF i1, of ?f] by (simp add: s' fold_expire_tombstones)
  then show ?thesis by (simp add: s' fold_expire_lastNow)
qed

lemma pt_step_inv: "limits_ok l \<Longrightarrow> pt_inv l s \<Longrightarrow> pt_inv l (fst (pt_step l zstd s e))"
proof (cases e)
  case (PtPush packet now)
  assume l: "limits_ok l" and i: "pt_inv l s"
  show ?thesis
  proof (cases "pt_expire l now s")
    case (Some s1)
    from pt_expire_inv [OF i Some] have i1: "pt_inv l s1" "now = pt_lastNow s1" by simp_all
    show ?thesis
    proof (cases "ptcs_parse l packet")
      case (Inl r)
      with Some i1 PtPush show ?thesis by (simp add: pt_push_def split_beta)
    next
      case (Inr f)
      with Some PtPush pt_admit_inv [OF i1(1) l ptcs_parse_ok [OF Inr] i1(2), of zstd] show ?thesis
        by (simp add: pt_push_def split_beta)
    qed
  qed (use i PtPush in \<open>simp add: pt_push_def\<close>)
next
  case (PtExpire now)
  assume "limits_ok l" "pt_inv l s"
  with PtExpire pt_expire_inv show ?thesis by (auto split: option.splits)
qed (auto simp: pt_clear_def pt_inv_def pt_counts_def)

lemma pt_inv_new: "pt_inv l pt_new"
  by (simp add: pt_inv_def pt_new_def pt_counts_def)

interpretation pt: invariant_machine "pt_step l zstd" "\<lambda>s. limits_ok l \<longrightarrow> pt_inv l s" "\<lambda>_. True" for l zstd
  by unfold_locales (simp add: pt_step_inv)

section \<open>Round trip with the sender\<close>

definition nvrPackets_count :: "bytes \<Rightarrow> nat" where
  "nvrPackets_count frame = max 1 ((length frame + 999) div 1000)"

definition nvrPacket :: "bytes \<Rightarrow> nat \<Rightarrow> nat \<Rightarrow> nat \<Rightarrow> nat \<Rightarrow> bytes" where
  "nvrPacket frame sq ts channel index =
     (let part = slice (index * 1000) ((index + 1) * 1000) frame;
          flags = 0x4000 + (if index = nvrPackets_count frame - 1 then 0x400 else 0) + length part in
      PTCS @ [3, word_of_nat channel] @ le_bytes 2 sq @ le_bytes 4 ts @ le_bytes 4 (length frame) @
      le_bytes 2 index @ le_bytes 2 flags @ replicate 8 0 @ part @ replicate (1000 - length part) 0)"

text \<open>\<open>nvrPackets\<close>; the flag bits and the part length below 1024 do not overlap, so their OR is a
  sum, and \<open>timestamp >>> 0\<close> keeps the low 32 bits.\<close>

definition nvrPackets :: "bytes \<Rightarrow> int \<Rightarrow> int \<Rightarrow> int \<Rightarrow> bytes list option" where
  "nvrPackets frame sq ts channel =
     (if length frame > 4 * 1024 * 1024 + 64 \<or> sq < 0 \<or> sq > 65535 \<or> channel < 0 \<or> channel > 5 \<or>
         \<not> safe_int ts \<or> ts < 0 then None
      else Some (List.map (nvrPacket frame (nat sq) (nat (ts mod 4294967296)) (nat channel))
             [0..<nvrPackets_count frame]))"

abbreviation part_of :: "bytes \<Rightarrow> nat \<Rightarrow> bytes" where
  "part_of frame i \<equiv> slice (i * 1000) ((i + 1) * 1000) frame"

lemma count_cases: "nvrPackets_count frame = n \<Longrightarrow>
    (frame = [] \<and> n = 1) \<or> (frame \<noteq> [] \<and> 1 \<le> n \<and> (n - 1) * 1000 < length frame \<and> length frame \<le> n * 1000)"
proof -
  assume n: "nvrPackets_count frame = n"
  show ?thesis
  proof (cases frame)
    case (Cons x xs)
    then have "n = (length frame + 999) div 1000" using n by (simp add: nvrPackets_count_def)
    then show ?thesis using Cons by auto
  qed (use n in \<open>simp add: nvrPackets_count_def\<close>)
qed

lemma parts_concat: "concat (List.map (part_of frame) [0..<n]) = take (n * 1000) frame"
proof (induction n)
  case (Suc n)
  have "take (n * 1000) frame @ part_of frame n = take (Suc n * 1000) frame"
    by (simp add: slice_def take_add [symmetric] add.commute)
  with Suc show ?case by simp
qed simp

definition fragment_of :: "bytes \<Rightarrow> nat \<Rightarrow> nat \<Rightarrow> nat \<Rightarrow> nat \<Rightarrow> fragment" where
  "fragment_of frame sq ts channel i =
     \<lparr> fr_channel = channel, fr_sequence = sq, fr_timestamp = ts, fr_total = length frame, fr_index = i,
       fr_final = (i = nvrPackets_count frame - 1), fr_compressed = False, fr_keyframe = False,
       fr_part = part_of frame i \<rparr>"

lemma sender_flags:
  assumes "n \<le> 1000"
  shows "\<not> flag_bit 12 (0x4000 + (if b then 0x400 else 0) + n)" "\<not> flag_bit 15 (0x4000 + (if b then 0x400 else 0) + n)"
    "flag_bit 14 (0x4000 + (if b then 0x400 else 0) + n)" "flag_bit 10 (0x4000 + (if b then 0x400 else 0) + n) = b"
    "\<not> flag_bit 11 (0x4000 + (if b then 0x400 else 0) + n)" "\<not> flag_bit 13 (0x4000 + (if b then 0x400 else 0) + n)"
    "(0x4000 + (if b then 0x400 else 0) + n) mod 1024 = n"
    "(0x4000 + (if b then 0x400 else 0) + n) mod 65536 = 0x4000 + (if b then 0x400 else 0) + n"
proof -
  have d: "(16384 + n) div 4096 = 4" "(16384 + n) div 32768 = 0" "(16384 + n) div 16384 = 1"
    "(16384 + n) div 1024 = 16" "(16384 + n) div 2048 = 8" "(16384 + n) div 8192 = 2"
    "(17408 + n) div 4096 = 4" "(17408 + n) div 32768 = 0" "(17408 + n) div 16384 = 1"
    "(17408 + n) div 1024 = 17" "(17408 + n) div 2048 = 8" "(17408 + n) div 8192 = 2"
    by (rule div_nat_eqI; use assms in simp)+
  have "(16 * 1024 + n) mod 1024 = n" "(17 * 1024 + n) mod 1024 = n"
    unfolding mod_mult_self3 using assms by simp_all
  then have m: "(16384 + n) mod 1024 = n" "(17408 + n) mod 1024 = n" by simp_all
  show "\<not> flag_bit 12 (0x4000 + (if b then 0x400 else 0) + n)" "\<not> flag_bit 15 (0x4000 + (if b then 0x400 else 0) + n)"
    "flag_bit 14 (0x4000 + (if b then 0x400 else 0) + n)" "flag_bit 10 (0x4000 + (if b then 0x400 else 0) + n) = b"
    "\<not> flag_bit 11 (0x4000 + (if b then 0x400 else 0) + n)" "\<not> flag_bit 13 (0x4000 + (if b then 0x400 else 0) + n)"
    "(0x4000 + (if b then 0x400 else 0) + n) mod 1024 = n"
    by (cases b; simp add: flag_bit_def d m)+
  show "(0x4000 + (if b then 0x400 else 0) + n) mod 65536 = 0x4000 + (if b then 0x400 else 0) + n"
    using assms by (cases b) simp_all
qed

lemma nvrPacket_fields:
  fixes frame i sq ts channel
  defines "packet \<equiv> nvrPacket frame sq ts channel i" and "len \<equiv> length (part_of frame i)"
  assumes bounds: "sq < 65536" "ts < 4294967296" "channel \<le> 5" "length frame < 4294967296" "i < 65536"
  shows "length packet = 1028" "take 4 packet = PTCS" "packet ! 4 = 3" "unat (packet ! 5) = channel"
    "u16le packet 6 = sq" "u32le packet 8 = ts" "u32le packet 12 = length frame" "u16le packet 16 = i"
    "u16le packet 18 = 0x4000 + (if i = nvrPackets_count frame - 1 then 0x400 else 0) + len"
    "slice 28 (28 + len) packet = part_of frame i"
proof -
  have len: "len \<le> 1000" unfolding len_def by simp
  define tail where "tail = part_of frame i @ replicate (1000 - len) 0"
  define flags where "flags = 0x4000 + (if i = nvrPackets_count frame - 1 then 0x400 else 0) + len"
  have fl: "flags mod 65536 = flags" unfolding flags_def by (rule sender_flags(8) [OF len])
  have p: "packet = PTCS @ [3, word_of_nat channel] @ le_bytes 2 sq @ le_bytes 4 ts @ le_bytes 4 (length frame) @
      le_bytes 2 i @ le_bytes 2 flags @ replicate 8 0 @ tail"
    by (simp add: packet_def nvrPacket_def Let_def flags_def tail_def len_def del: le_bytes_numeral slice_length)
  note calc = p PTCS_def slice_def u16le_def u32le_def le_nat_le_bytes
  show "length packet = 1028" using len by (simp add: p PTCS_def tail_def len_def del: le_bytes_numeral)
  show "take 4 packet = PTCS" "packet ! 4 = 3" by (simp_all add: calc del: le_bytes_numeral)
  show "unat (packet ! 5) = channel" using bounds by (simp add: calc unat_byte_of_nat del: le_bytes_numeral)
  show "u16le packet 6 = sq" "u32le packet 8 = ts" "u32le packet 12 = length frame" "u16le packet 16 = i"
    using bounds by (simp_all add: calc del: le_bytes_numeral)
  show "u16le packet 18 = 0x4000 + (if i = nvrPackets_count frame - 1 then 0x400 else 0) + len"
  proof -
    have "u16le packet 18 = flags mod 65536" by (simp add: calc del: le_bytes_numeral)
    then show ?thesis unfolding fl by (simp only: flags_def)
  qed
  have "drop 28 packet = tail" by (simp add: calc del: le_bytes_numeral)
  then have "slice 28 (28 + len) packet = take len tail" by (simp only: slice_def) simp
  then show "slice 28 (28 + len) packet = part_of frame i"
    by (simp add: tail_def len_def del: slice_length)
qed

lemma ptcs_parse_sender:
  assumes "sq < 65536" "ts < 4294967296" "channel \<le> 5" "length frame < 4294967296"
    and "i < nvrPackets_count frame" "nvrPackets_count frame \<le> 65536" "nvrPackets_count frame \<le> lm_maxFragmentsPerFrame l"
  shows "ptcs_parse l (nvrPacket frame sq ts channel i) =
    (if length frame > lm_maxFrameBytes l then Inl RjFrameTooLarge else Inr (fragment_of frame sq ts channel i))"
proof -
  let ?n = "nvrPackets_count frame" and ?len = "length (part_of frame i)"
  have i: "i < 65536" using assms(5,6) by simp
  note f = nvrPacket_fields [OF assms(1-4) i]
  have len: "?len \<le> 1000" by simp
  note b = sender_flags [OF len, of "i = ?n - 1"]
  have full: "i \<noteq> ?n - 1 \<Longrightarrow> ?len = 1000"
    using count_cases [OF refl, of frame] assms(5) by (auto simp: min_def)
  have empty: "?len = 0 \<Longrightarrow> length frame = 0 \<and> i = 0 \<and> i = ?n - 1"
    using count_cases [OF refl, of frame] assms(5) full by (auto simp: min_def split: if_splits)
  have c: "\<not> (1028 < (28 :: nat) \<or> 1028 > (1028 :: nat))" "\<not> (1028 \<noteq> 28 + ?len \<and> (1028 :: nat) \<noteq> 1028)"
    by simp_all
  have c': "\<not> channel > 5" "\<not> ?len > 1000" "\<not> i \<ge> lm_maxFragmentsPerFrame l"
    using len assms(3,5,7) by linarith+
  have c'': "\<not> (1028 \<noteq> 28 + ?len \<and> i \<noteq> ?n - 1 \<and> ?len \<noteq> 1000)"
    "\<not> (?len = 0 \<and> \<not> (length frame = 0 \<and> i = 0 \<and> i = ?n - 1))"
    using full empty by (blast, metis)
  show ?thesis
    unfolding ptcs_parse_def Let_def HEADER_BYTES_def PACKET_BYTES_def FRAGMENT_BYTES_def f b
    using b c c' c'' by (simp only: simp_thms if_False if_True fragment_of_def f(10))
qed

text \<open>The reassembler after the fragments \<open>S\<close> of one frame, first arrived at \<open>t0\<close>.\<close>

definition gathered :: "bytes \<Rightarrow> nat set \<Rightarrow> int \<Rightarrow> pframe \<Rightarrow> bool" where
  "gathered frame S t0 p \<longleftrightarrow> pf_total p = length frame \<and> pf_firstArrival p = t0 \<and> \<not> pf_compressed p \<and> \<not> pf_keyframe p \<and>
     (let n = nvrPackets_count frame in
      (\<forall>i. map_of (pf_fragments p) i = (if i \<in> S then Some (part_of frame i, i = n - 1) else None)) \<and>
      pf_receivedBytes p = (\<Sum>i\<in>S. length (part_of frame i)) \<and>
      pf_finalIndex p = (if n - 1 \<in> S then Some (n - 1) else None))"

lemma parts_total: "(\<Sum>i < nvrPackets_count frame. length (part_of frame i)) = length frame"
proof -
  let ?n = "nvrPackets_count frame"
  have "(\<Sum>i < ?n. length (part_of frame i)) = length (concat (List.map (part_of frame) [0..<?n]))"
    by (simp add: length_concat sum_list_sum_nth atLeast0LessThan o_def)
  also have "\<dots> = length frame"
    unfolding parts_concat using count_cases [OF refl, of frame] by auto
  finally show ?thesis .
qed

lemma gathered_add:
  assumes "gathered frame S t0 p" "finite S" "i \<notin> S"
  shows "gathered frame (insert i S) t0 (pf_add (fragment_of frame sq ts ch i) p)"
  using assms by (auto simp: gathered_def Let_def fragment_of_def js_get_update simp del: slice_length)

lemma pt_store_gathered:
  fixes sq ts ch :: nat
  assumes g: "gathered frame S t0 p" and S: "S \<subseteq> {..<nvrPackets_count frame}" and i: "i < nvrPackets_count frame" "i \<notin> S"
    and ret: "pt_retainedFragments s < int (lm_maxRetainedFragments l)"
  defines "f \<equiv> fragment_of frame sq ts ch i"
  shows "pt_store l zstd f p s =
    (if insert i S = {..<nvrPackets_count frame}
     then pt_complete l zstd f (pf_add f p) (nvrPackets_count frame - 1) (pt_stored (frag_key f) (pf_add f p) s)
     else (pt_stored (frag_key f) (pf_add f p) s, Incomplete))"
proof -
  let ?n = "nvrPackets_count frame" and ?q = "pf_add f p"
  have fin: "finite S" using S by (rule finite_subset) simp
  have q: "gathered frame (insert i S) t0 ?q" unfolding f_def by (rule gathered_add [OF g fin i(2)])
  have fresh: "map_of (pf_fragments p) (fr_index f) = None"
    using g i(2) by (simp add: gathered_def f_def fragment_of_def Let_def)
  have tot: "pf_total p = fr_total f" using g by (simp add: gathered_def f_def fragment_of_def)
  have marker: "\<not> (case pf_finalIndex p of None \<Rightarrow> False | Some m \<Rightarrow> fr_index f > m \<or> fr_final f \<and> fr_index f \<noteq> m)"
    using g i by (auto simp: gathered_def f_def fragment_of_def Let_def split: if_splits)
  have sub: "insert i S \<subseteq> {..<?n}" using S i by auto
  have "(\<Sum>j\<in>insert i S. length (part_of frame j)) \<le> (\<Sum>j\<in>{..<?n}. length (part_of frame j))"
    by (rule sum_mono2) (use sub in auto)
  then have rec: "\<not> pf_receivedBytes ?q > pf_total p"
    using q tot parts_total [of frame] g unfolding gathered_def Let_def by linarith
  have mark: "\<not> (fr_final f \<and> list_ex (\<lambda>j. j > fr_index f) (List.map fst (pf_fragments ?q)))"
  proof
    assume "fr_final f \<and> list_ex (\<lambda>j. j > fr_index f) (List.map fst (pf_fragments ?q))"
    then have "fr_final f" "\<exists>j\<in>fst ` set (pf_fragments ?q). j > fr_index f"
      by (simp_all only: list_ex_iff set_map)
    then obtain j where j: "fr_final f" "j \<in> fst ` set (pf_fragments ?q)" "j > fr_index f" by blast
    then have "map_of (pf_fragments ?q) j \<noteq> None" using map_of_eq_None_iff by metis
    then have "j \<in> insert i S" using q by (auto simp: gathered_def Let_def split: if_splits)
    with sub have "j < ?n" by auto
    with j show False by (simp add: f_def fragment_of_def)
  qed
  have present: "frags_present (?n - 1) (pf_fragments ?q) \<longleftrightarrow> insert i S = {..<?n}"
  proof -
    have "frags_present (?n - 1) (pf_fragments ?q) \<longleftrightarrow> (\<forall>j < ?n. j \<in> insert i S)"
      using q i by (auto simp: frags_present_def list_all_iff gathered_def Let_def)
    then show ?thesis using sub by auto
  qed
  have all: "insert i S = {..<?n} \<Longrightarrow> pf_receivedBytes ?q = pf_total p"
    using q parts_total [of frame] g by (simp add: gathered_def Let_def)
  have fi: "pf_finalIndex ?q = (if ?n - 1 \<in> insert i S then Some (?n - 1) else None)"
    using q unfolding gathered_def Let_def by blast
  have room: "\<not> pt_retainedFragments s \<ge> int (lm_maxRetainedFragments l)" using ret by simp
  note step = pt_store_new [OF fresh tot marker, of l zstd s, unfolded Let_def if_not_P [OF room] if_not_P [OF rec] if_not_P [OF mark]]
  show ?thesis
  proof (cases "insert i S = {..<?n}")
    case True
    then have "?n - 1 \<in> insert i S" using i(1) by auto
    then have "pf_finalIndex ?q = Some (?n - 1)" using fi by (simp only: if_True)
    moreover have "frags_present (?n - 1) (pf_fragments ?q)" using present True by blast
    ultimately show ?thesis
      unfolding step using all [OF True] True by (simp only: option.case simp_thms if_True if_False)
  next
    case False
    show ?thesis
    proof (cases "?n - 1 \<in> insert i S")
      case True
      then have "pf_finalIndex ?q = Some (?n - 1)" using fi by (simp only: if_True)
      moreover have "\<not> frags_present (?n - 1) (pf_fragments ?q)" using present False by blast
      ultimately show ?thesis
        unfolding step using False by (simp only: option.case simp_thms if_True if_False)
    next
      case no: False
      then have "pf_finalIndex ?q = None" using fi by (simp only: if_False)
      then show ?thesis unfolding step using False by (simp only: option.case simp_thms if_True if_False)
    qed
  qed
qed

lemma frags_concat_gathered:
  assumes "gathered frame {..<nvrPackets_count frame} t0 p"
  shows "frags_concat (nvrPackets_count frame - 1) (pf_fragments p) = frame"
proof -
  let ?n = "nvrPackets_count frame"
  have n: "Suc (?n - 1) = ?n" using count_cases [OF refl, of frame] by auto
  have "List.map (\<lambda>i. fst (the (map_of (pf_fragments p) i))) [0..<?n] = List.map (part_of frame) [0..<?n]"
    using assms by (auto simp: gathered_def Let_def)
  then have "frags_concat (?n - 1) (pf_fragments p) = take (?n * 1000) frame"
    unfolding frags_concat_def n by (simp only: parts_concat)
  then show ?thesis using count_cases [OF refl, of frame] by auto
qed

text \<open>A frame the sender can cut and the limits admit.\<close>

definition sendable :: "limits \<Rightarrow> bytes \<Rightarrow> nat \<Rightarrow> nat \<Rightarrow> nat \<Rightarrow> bool" where
  "sendable l frame sq ts ch \<longleftrightarrow> sq < 65536 \<and> ts < 4294967296 \<and> ch \<le> 5 \<and>
     length frame \<le> 4 * 1024 * 1024 + 64 \<and> length frame \<le> lm_maxFrameBytes l \<and>
     nvrPackets_count frame \<le> lm_maxFragmentsPerFrame l"

lemma sendable_parse:
  assumes "sendable l frame sq ts ch" "i < nvrPackets_count frame"
  shows "ptcs_parse l (nvrPacket frame sq ts ch i) = Inr (fragment_of frame sq ts ch i)"
proof -
  have "nvrPackets_count frame \<le> 65536"
    using assms(1) by (auto simp: sendable_def nvrPackets_count_def)
  then have "ptcs_parse l (nvrPacket frame sq ts ch i) =
      (if length frame > lm_maxFrameBytes l then Inl RjFrameTooLarge else Inr (fragment_of frame sq ts ch i))"
    using assms by (intro ptcs_parse_sender) (auto simp: sendable_def)
  then show ?thesis using assms(1) by (simp add: sendable_def)
qed

section \<open>One frame among other traffic\<close>

text \<open>Packets of other frames leave what is known of a key as it is.\<close>

lemma pt_set_other: "k \<noteq> K \<Longrightarrow> map_of (pt_pending (pt_set k p s)) K = map_of (pt_pending s) K" "pt_tombstones (pt_set k p s) = pt_tombstones s"
  by (simp_all add: pt_set_def js_get_update)

lemma pt_release_other: "k \<noteq> K \<Longrightarrow> map_of (pt_pending (pt_release k p s)) K = map_of (pt_pending s) K"
  by (simp add: js_get_delete)

lemma pt_remember_other:
  "pt_pending (pt_remember l k t s) = pt_pending s"
  "k \<noteq> K \<Longrightarrow> map_of (pt_tombstones s) K = None \<Longrightarrow> map_of (pt_tombstones (pt_remember l k t s)) K = None"
  by (simp_all add: pt_remember_def Let_def js_get_update js_get_delete split: option.splits prod.splits)

lemma pt_poison_other:
  assumes "k \<noteq> K"
  shows "map_of (pt_pending (fst (pt_poison l k p r s))) K = map_of (pt_pending s) K"
    "map_of (pt_tombstones s) K = None \<Longrightarrow> map_of (pt_tombstones (fst (pt_poison l k p r s))) K = None"
  using assms pt_remember_other(2) [of k K] by (simp_all add: pt_poison_def pt_remember_other(1) pt_release_other del: pt_release_fields(1))

lemma pt_complete_other:
  assumes "frag_key f \<noteq> K"
  shows "map_of (pt_pending (fst (pt_complete l zstd f p n s))) K = map_of (pt_pending s) K"
    "map_of (pt_tombstones s) K = None \<Longrightarrow> map_of (pt_tombstones (fst (pt_complete l zstd f p n s))) K = None"
  using assms by (simp_all add: pt_complete_def Let_def pt_remember_other pt_release_other del: pt_release_fields(1) split: option.splits)

lemma pt_store_other:
  assumes "frag_key f \<noteq> K"
  shows "map_of (pt_pending (fst (pt_store l zstd f p s))) K = map_of (pt_pending s) K"
    "map_of (pt_tombstones s) K = None \<Longrightarrow> map_of (pt_tombstones (fst (pt_store l zstd f p s))) K = None"
  using assms
  by (simp_all add: pt_store_def Let_def pt_poison_other pt_complete_other pt_set_other split: option.splits prod.splits)

lemma pt_admit_other:
  assumes "frag_key f \<noteq> K"
  shows "map_of (pt_pending (fst (pt_admit l zstd f now s))) K = map_of (pt_pending s) K"
    "map_of (pt_tombstones s) K = None \<Longrightarrow> map_of (pt_tombstones (fst (pt_admit l zstd f now s))) K = None"
  using assms
  by (simp_all add: pt_admit_def Let_def pt_poison_other pt_store_other js_get_update split: option.splits)

text \<open>What the reassembler knows of a key after the fragments \<open>S\<close> of its frame, first arrived at \<open>t0\<close>.\<close>

definition held :: "bytes \<Rightarrow> frame_key \<Rightarrow> nat set \<Rightarrow> int \<Rightarrow> ptcs \<Rightarrow> bool" where
  "held frame K S t0 s \<longleftrightarrow> map_of (pt_tombstones s) K = None \<and>
     (case map_of (pt_pending s) K of None \<Rightarrow> S = {} | Some p \<Rightarrow> S \<noteq> {} \<and> gathered frame S t0 p)"

lemma held_same:
  "held frame K S t0 s \<Longrightarrow> map_of (pt_pending s') K = map_of (pt_pending s) K \<Longrightarrow> map_of (pt_tombstones s') K = None \<Longrightarrow> held frame K S t0 s'"
  by (simp add: held_def)

lemma fold_expire_keeps:
  "\<forall>p. (K, p) \<in> set m \<longrightarrow> now - pf_firstArrival p < int (lm_expiryMilliseconds l) \<Longrightarrow>
     map_of (pt_pending (fold (pt_expire_entry l now) m u)) K = map_of (pt_pending u) K"
proof (induction m arbitrary: u)
  case (Cons e m)
  have "map_of (pt_pending (pt_expire_entry l now e u)) K = map_of (pt_pending u) K"
    using Cons.prems by (cases e) (auto simp: pt_expire_entry_def js_get_delete)
  with Cons show ?case by simp
qed simp

lemma held_expire:
  assumes "pt_inv l s" "held frame K S t0 s" "safe_int now" "pt_lastNow s \<le> now"
    and "S \<noteq> {} \<Longrightarrow> now - t0 < int (lm_expiryMilliseconds l)"
  obtains s1 where "pt_expire l now s = Some s1" "held frame K S t0 s1" "pt_inv l s1" "pt_lastNow s1 = now"
proof -
  obtain s1 where e: "pt_expire l now s = Some s1" using assms(3,4) by (simp add: pt_expire_eq)
  have wf: "js_wf (pt_pending s)" "js_wf (pt_tombstones s)" using assms(1) by (simp_all add: pt_inv_def)
  have "now - pf_firstArrival p < int (lm_expiryMilliseconds l)" if "(K, p) \<in> set (pt_pending s)" for p
    using that assms(2,5) js_in_set [OF wf(1)] by (auto simp: held_def gathered_def)
  then have "map_of (pt_pending s1) K = map_of (pt_pending s) K"
    using e assms(3,4) fold_expire_keeps [of K "pt_pending s" now l "s\<lparr>pt_lastNow := now\<rparr>"] by (auto simp: pt_expire_eq)
  moreover have "map_of (pt_tombstones s1) K = None"
  proof (cases "map_of (pt_tombstones s1) K")
    case (Some t)
    then have "map_of (pt_tombstones s) K = Some t"
      using e assms(3,4) js_filter_lookup [OF wf(2)] by (auto simp: pt_expire_eq)
    with assms(2) show ?thesis by (simp add: held_def)
  qed
  ultimately have "held frame K S t0 s1" by (rule held_same [OF assms(2)])
  then show ?thesis using that e pt_expire_inv [OF assms(1) e] by blast
qed

section \<open>Replay protection\<close>

lemma pt_remember_has: "map_of (pt_tombstones (pt_remember l k t s)) k = Some t"
  by (simp add: pt_remember_def Let_def js_get_update split: option.splits prod.splits)

lemma pt_complete_tombstone:
  "pt_complete l zstd f p n s = (s', Complete c sq ts frame) \<Longrightarrow>
     map_of (pt_tombstones s') (frag_key f) = Some \<lparr> tb_firstArrival = pf_firstArrival p, tb_reason = RjReplay \<rparr> \<and>
     FrameKey c sq ts = frag_key f"
  by (auto simp: pt_complete_def Let_def pt_remember_has frag_key_def pt_reject_def split: if_splits option.splits)

lemma pt_poison_rejects: "snd (pt_poison l k p r s) = Rejected r"
  by (simp add: pt_poison_def)

lemma pt_store_complete:
  assumes "pt_store l zstd f p s = (s', Complete c sq ts frame)"
  shows "\<exists>q n s1. pf_firstArrival q = pf_firstArrival p \<and> pt_complete l zstd f q n s1 = (s', Complete c sq ts frame)"
proof -
  have np: "pt_poison l k x r u \<noteq> (s', Complete c sq ts frame)" for k x r u
    using pt_poison_rejects [of l k x r u] by auto
  with assms show ?thesis
    by (auto simp: pt_store_def Let_def split: if_splits option.splits prod.splits)
      (use pf_mark_fields(2) pf_put_fields(2) in metis)+
qed

lemma pt_fields_lastNow [simp]:
  "pt_lastNow (pt_remember l k t s) = pt_lastNow s" "pt_lastNow (pt_set k p s) = pt_lastNow s"
  "pt_lastNow (fst (pt_poison l k p r s)) = pt_lastNow s"
  by (simp_all add: pt_remember_def pt_set_def pt_poison_def Let_def)

lemma pt_complete_lastNow [simp]: "pt_lastNow (fst (pt_complete l zstd f p n s)) = pt_lastNow s"
  by (simp add: pt_complete_def Let_def split: option.splits)

lemma pt_store_lastNow [simp]: "pt_lastNow (fst (pt_store l zstd f p s)) = pt_lastNow s"
  by (simp add: pt_store_def Let_def split: option.splits prod.splits)

lemma pt_admit_lastNow [simp]: "pt_lastNow (fst (pt_admit l zstd f now s)) = pt_lastNow s"
  by (simp add: pt_admit_def Let_def split: option.splits)

lemma pt_expire_tombstone:
  assumes "js_wf (pt_tombstones s)" "map_of (pt_tombstones s) k = Some t" "safe_int now" "pt_lastNow s \<le> now"
    "now - tb_firstArrival t < int (lm_expiryMilliseconds l)"
  shows "\<exists>s'. pt_expire l now s = Some s' \<and> map_of (pt_tombstones s') k = Some t"
proof -
  let ?f = "\<lambda>(key :: frame_key, t). \<not> now - tb_firstArrival t \<ge> int (lm_expiryMilliseconds l)"
  have "map_of (filter ?f (pt_tombstones s)) k = Some t"
  proof -
    have "(k, t) \<in> set (filter ?f (pt_tombstones s))"
      using map_of_SomeD [OF assms(2)] assms(5) by auto
    moreover have "distinct (List.map fst (filter ?f (pt_tombstones s)))"
      using assms(1) by (simp add: js_wf_def distinct_map_filter)
    ultimately show ?thesis by simp
  qed
  then show ?thesis using assms(3,4) by (simp add: pt_expire_eq)
qed

lemma pt_push_complete:
  assumes inv: "pt_inv l s" and l: "limits_ok l"
    and r: "pt_push l zstd s packet now = Some (s', Complete c sq ts frame)"
  shows "pt_inv l s' \<and> pt_lastNow s' = now \<and>
    (\<exists>t. map_of (pt_tombstones s') (FrameKey c sq ts) = Some t \<and> tb_reason t = RjReplay \<and> tb_firstArrival t \<le> now)"
proof -
  obtain s1 where e: "pt_expire l now s = Some s1"
    using r by (auto simp: pt_push_def split: option.splits)
  from pt_expire_inv [OF inv e] have i1: "pt_inv l s1" "now = pt_lastNow s1" by simp_all
  obtain f where f: "ptcs_parse l packet = Inr f" and a: "pt_admit l zstd f now s1 = (s', Complete c sq ts frame)"
    using r e by (auto simp: pt_push_def pt_reject_def split: sum.splits)
  have s': "pt_inv l s'" "pt_lastNow s' = now"
    using pt_admit_inv [OF i1(1) l ptcs_parse_ok [OF f] i1(2), of zstd] pt_admit_lastNow [of l zstd f now s1] i1(2)
    unfolding a by simp_all
  have np: "pt_poison l k x rr u \<noteq> (s', Complete c sq ts frame)" "pt_reject u rr \<noteq> (s', Complete c sq ts frame)" for k x rr u
    by (metis pt_poison_rejects ptcs_result.distinct(5) snd_conv, metis pt_reject_fields(6) ptcs_result.distinct(5) snd_conv)
  obtain p u where st: "pt_store l zstd f p u = (s', Complete c sq ts frame)" and fa: "pf_firstArrival p \<le> now"
  proof (cases "map_of (pt_pending s1) (frag_key f)")
    case (Some p)
    have "pf_firstArrival p \<le> now" using i1 Some by (auto simp: pt_inv_def pframe_ok_def)
    with that [of p s1] Some a np show ?thesis by (auto simp: pt_admit_def Let_def split: option.splits if_splits)
  next
    case None
    let ?p = "\<lparr> pf_total = fr_total f, pf_firstArrival = now, pf_compressed = fr_compressed f,
                pf_keyframe = fr_keyframe f, pf_fragments = [], pf_receivedBytes = 0, pf_finalIndex = None \<rparr>"
    from None a np have "pt_store l zstd f ?p (s1\<lparr>pt_pending := AList.update (frag_key f) ?p (pt_pending s1),
        pt_bufferedBytes := pt_bufferedBytes s1 + int (fr_total f)\<rparr>) = (s', Complete c sq ts frame)"
      by (auto simp: pt_admit_def Let_def split: option.splits if_splits)
    then show ?thesis by (rule that) simp
  qed
  from pt_store_complete [OF st] pt_complete_tombstone fa have
    "\<exists>t. map_of (pt_tombstones s') (FrameKey c sq ts) = Some t \<and> tb_reason t = RjReplay \<and> tb_firstArrival t \<le> now"
    by (fastforce)
  with s' show ?thesis by blast
qed

text \<open>An arriving packet of the frame itself.\<close>

lemma gathered_marker:
  assumes "gathered frame S t0 p" "i < nvrPackets_count frame"
  shows "\<not> (case pf_finalIndex p of None \<Rightarrow> False | Some m \<Rightarrow> fr_index (fragment_of frame sq ts ch i) > m \<or>
    fr_final (fragment_of frame sq ts ch i) \<and> fr_index (fragment_of frame sq ts ch i) \<noteq> m)"
  using assms by (auto simp: gathered_def fragment_of_def Let_def split: if_splits)

lemma pt_store_again:
  assumes "gathered frame S t0 p" "i \<in> S" "i < nvrPackets_count frame"
  shows "pt_store l zstd (fragment_of frame sq ts ch i) p s = (s, Incomplete)"
proof -
  have "map_of (pf_fragments p) (fr_index (fragment_of frame sq ts ch i)) = Some (part_of frame i, i = nvrPackets_count frame - 1)"
    using assms by (simp add: gathered_def fragment_of_def Let_def)
  then show ?thesis
    unfolding pt_store_def Let_def if_not_P [OF gathered_marker [OF assms(1, 3)]] by (simp add: fragment_of_def)
qed

lemma fragment_key: "frag_key (fragment_of frame sq ts ch i) = FrameKey ch sq ts"
  by (simp add: frag_key_def fragment_of_def)

lemma gathered_fresh: "gathered frame S t0 p \<Longrightarrow> i \<notin> S \<Longrightarrow> map_of (pf_fragments p) (fr_index (fragment_of frame sq ts ch i)) = None"
  by (simp add: gathered_def fragment_of_def Let_def)

lemma pt_store_held:
  fixes sq ts ch :: nat
  assumes g: "gathered frame S t0 p" and S: "S \<subset> {..<nvrPackets_count frame}" and i: "i < nvrPackets_count frame"
    and K: "K = FrameKey ch sq ts" "map_of (pt_tombstones s) K = None" "map_of (pt_pending s) K = Some p" and ne: "S \<noteq> {} \<or> i \<notin> S"
    and r: "pt_store l zstd (fragment_of frame sq ts ch i) p s = (s', r)" "r \<noteq> Rejected RjCapacity"
  shows "if insert i S = {..<nvrPackets_count frame}
    then r = Complete ch sq ts frame \<and> map_of (pt_pending s') K = None \<and>
      map_of (pt_tombstones s') K = Some \<lparr> tb_firstArrival = t0, tb_reason = RjReplay \<rparr>
    else r = Incomplete \<and> held frame K (insert i S) t0 s'"
proof (cases "i \<in> S")
  case True
  then have ii: "insert i S = S" by blast
  have "held frame K S t0 s" using K g True by (auto simp: held_def)
  then show ?thesis using r(1) pt_store_again [OF g True i, of l zstd sq ts ch s] S ii by auto
next
  case i': False
  let ?f = "fragment_of frame sq ts ch i"
  note fresh = gathered_fresh [OF g i', where sq = sq and ts = ts and ch = ch]
  have tot: "pf_total p = fr_total ?f" using g by (simp add: gathered_def fragment_of_def)
  have ret: "pt_retainedFragments s < int (lm_maxRetainedFragments l)"
  proof (rule ccontr)
    assume "\<not> pt_retainedFragments s < int (lm_maxRetainedFragments l)"
    then have "pt_retainedFragments s \<ge> int (lm_maxRetainedFragments l)" by simp
    then have "pt_store l zstd ?f p s = pt_poison l (frag_key ?f) p RjCapacity s"
      unfolding pt_store_new [OF fresh tot gathered_marker [OF g i]] Let_def by (simp only: if_True)
    then have "r = Rejected RjCapacity" using r(1) pt_poison_rejects by (metis snd_conv)
    with r(2) show False by simp
  qed
  have fin: "finite S" using S by (auto intro: finite_subset)
  have q: "gathered frame (insert i S) t0 (pf_add ?f p)" by (rule gathered_add [OF g fin i'])
  have k: "frag_key ?f = K" by (simp add: fragment_key K(1))
  have st: "pt_store l zstd ?f p s =
    (if insert i S = {..<nvrPackets_count frame}
     then pt_complete l zstd ?f (pf_add ?f p) (nvrPackets_count frame - 1) (pt_stored (frag_key ?f) (pf_add ?f p) s)
     else (pt_stored (frag_key ?f) (pf_add ?f p) s, Incomplete))"
    by (rule pt_store_gathered [OF g _ i i' ret]) (use S in blast)
  show ?thesis
  proof (cases "insert i S = {..<nvrPackets_count frame}")
    case True
    have c: "\<not> pf_compressed p" "pf_firstArrival p = t0" using g by (simp_all add: gathered_def)
    have frame: "frags_concat (nvrPackets_count frame - 1) (pf_fragments (pf_add ?f p)) = frame"
      using q unfolding True by (rule frags_concat_gathered)
    have n: "fr_channel ?f = ch" "fr_sequence ?f = sq" "fr_timestamp ?f = ts" by (simp_all add: fragment_of_def)
    have "pt_complete l zstd ?f (pf_add ?f p) (nvrPackets_count frame - 1) (pt_stored (frag_key ?f) (pf_add ?f p) s) =
        (pt_remember l K \<lparr> tb_firstArrival = t0, tb_reason = RjReplay \<rparr> (pt_release K p s), Complete ch sq ts frame)"
      using c pt_complete_stored [OF fresh, where l = l and zstd = zstd and n = "nvrPackets_count frame - 1" and q = "pf_add ?f p" and s = s] unfolding frame k n by simp
    then have "pt_store l zstd ?f p s = (pt_remember l K \<lparr> tb_firstArrival = t0, tb_reason = RjReplay \<rparr> (pt_release K p s), Complete ch sq ts frame)"
      unfolding st if_P [OF True] .
    then show ?thesis using r(1) True by (auto simp: pt_remember_has pt_remember_other(1) js_get_delete)
  next
    case False
    then have "s' = pt_stored K (pf_add ?f p) s" "r = Incomplete" using r(1) st k by simp_all
    then show ?thesis using False q K(2) by (simp add: held_def pt_stored_def pt_set_def js_get_update)
  qed
qed

lemma held_admit:
  fixes sq ts ch :: nat
  assumes h: "held frame K S t0 s" and S: "S \<subset> {..<nvrPackets_count frame}" and i: "i < nvrPackets_count frame"
    and K: "K = FrameKey ch sq ts" and t0: "S = {} \<Longrightarrow> t0 = now"
    and r: "pt_admit l zstd (fragment_of frame sq ts ch i) now s = (s', r)" "r \<noteq> Rejected RjCapacity"
  shows "if insert i S = {..<nvrPackets_count frame}
    then r = Complete ch sq ts frame \<and> map_of (pt_pending s') K = None \<and>
      map_of (pt_tombstones s') K = Some \<lparr> tb_firstArrival = t0, tb_reason = RjReplay \<rparr>
    else r = Incomplete \<and> held frame K (insert i S) t0 s'"
proof -
  let ?f = "fragment_of frame sq ts ch i"
  have k: "frag_key ?f = K" by (simp add: fragment_key K)
  have f: "fr_total ?f = length frame" "fr_compressed ?f = False" "fr_keyframe ?f = False" by (simp_all add: fragment_of_def)
  have tomb: "map_of (pt_tombstones s) K = None" using h by (simp add: held_def)
  show ?thesis
  proof (cases "map_of (pt_pending s) K")
    case (Some p)
    then have g: "gathered frame S t0 p" "S \<noteq> {}" using h by (simp_all add: held_def)
    have "pt_admit l zstd ?f now s = pt_store l zstd ?f p s"
      using g(1) by (simp add: pt_admit_def k f tomb Some gathered_def)
    with r have "pt_store l zstd ?f p s = (s', r)" by simp
    then show ?thesis using g(2) by (intro pt_store_held [OF g(1) S i K tomb Some _ _ r(2)]) simp_all
  next
    case None
    then have e: "S = {}" using h by (simp add: held_def)
    let ?p = "\<lparr> pf_total = length frame, pf_firstArrival = now, pf_compressed = False, pf_keyframe = False,
        pf_fragments = [], pf_receivedBytes = 0, pf_finalIndex = None \<rparr>"
    let ?s = "s\<lparr>pt_pending := AList.update K ?p (pt_pending s), pt_bufferedBytes := pt_bufferedBytes s + int (length frame)\<rparr>"
    have g: "gathered frame S t0 ?p" by (simp add: gathered_def e t0 [OF e])
    have "snd (pt_reject s RjCapacity) \<noteq> r" using r(2) by simp
    then have "pt_store l zstd ?f ?p ?s = (s', r)"
      using r(1) unfolding pt_admit_def k f tomb None Let_def option.case by (auto simp: pt_reject_def split: if_splits)
    then show ?thesis using tomb by (intro pt_store_held [OF g S i K _ _ _ _ r(2)]) (simp_all add: js_get_update e)
  qed
qed

text \<open>The arrivals at a reassembler as one frame sees them: a packet of the frame (its index among the sender's packets) or
  any other call. \<open>own_answers\<close> are the results of the frame's own packets.\<close>

datatype pt_arrival = OwnPacket nat int | OtherCall pt_event

primrec arrival_call :: "bytes list \<Rightarrow> pt_arrival \<Rightarrow> pt_event" where
  "arrival_call ps (OwnPacket i now) = PtPush (ps ! i) now"
| "arrival_call ps (OtherCall e) = e"

fun call_time :: "pt_event \<Rightarrow> int" where
  "call_time (PtPush _ now) = now"
| "call_time (PtExpire now) = now"
| "call_time PtClear = 0"

fun owned :: "pt_arrival list \<Rightarrow> (nat \<times> int) list" where
  "owned [] = []"
| "owned (OwnPacket i now # as) = (i, now) # owned as"
| "owned (OtherCall _ # as) = owned as"

fun own_answers :: "limits \<Rightarrow> (bytes \<Rightarrow> nat \<Rightarrow> bytes option) \<Rightarrow> bytes list \<Rightarrow> ptcs \<Rightarrow> pt_arrival list \<Rightarrow> ptcs_result list" where
  "own_answers l zstd ps s [] = []"
| "own_answers l zstd ps s (a # as) =
     (let (s', r) = pt_step l zstd s (arrival_call ps a) in
      (case a of OwnPacket _ _ \<Rightarrow> r | OtherCall _ \<Rightarrow> []) @ own_answers l zstd ps s' as)"

text \<open>A call that concerns another frame, or none.\<close>

definition foreign :: "limits \<Rightarrow> frame_key \<Rightarrow> pt_event \<Rightarrow> bool" where
  "foreign l K e \<longleftrightarrow>
     (case e of
        PtPush packet _ \<Rightarrow> (case ptcs_parse l packet of Inl _ \<Rightarrow> True | Inr f \<Rightarrow> frag_key f \<noteq> K)
      | PtExpire _ \<Rightarrow> True
      | PtClear \<Rightarrow> False)"

lemma owned_append: "owned (as @ bs) = owned as @ owned bs"
  by (induction as rule: owned.induct) simp_all

lemma own_answers_append:
  "own_answers l zstd ps s (as @ bs) =
     own_answers l zstd ps s as @ own_answers l zstd ps (run_state (pt_step l zstd) s (List.map (arrival_call ps) as)) bs"
  by (induction as arbitrary: s) (simp_all add: split_beta Let_def)

lemma step_time:
  assumes "e \<noteq> PtClear" "safe_int (call_time e)" "pt_lastNow s \<le> call_time e"
  shows "pt_lastNow (fst (pt_step l zstd s e)) = call_time e"
proof -
  have t: "pt_expire l (call_time e) s = Some s1 \<Longrightarrow> pt_lastNow s1 = call_time e" for s1
    using assms by (auto simp: pt_expire_eq fold_expire_lastNow)
  obtain s1 where "pt_expire l (call_time e) s = Some s1" using assms(2,3) by (simp add: pt_expire_eq)
  with t [OF this] assms(1) show ?thesis by (cases e) (auto simp: pt_push_def split_beta split: sum.splits)
qed

lemma held_foreign:
  assumes "pt_inv l s" "held frame K S t0 s" "foreign l K e" "safe_int (call_time e)" "pt_lastNow s \<le> call_time e"
    and "S \<noteq> {} \<Longrightarrow> call_time e - t0 < int (lm_expiryMilliseconds l)"
  shows "held frame K S t0 (fst (pt_step l zstd s e))"
proof -
  obtain s1 where s1: "pt_expire l (call_time e) s = Some s1" "held frame K S t0 s1"
    using held_expire [OF assms(1,2,4,5,6)] by metis
  have a: "held frame K S t0 (fst (pt_admit l zstd f now s1))" if "frag_key f \<noteq> K" for f now
    using s1(2) by (intro held_same [OF s1(2)] pt_admit_other that) (simp add: held_def)
  have r: "held frame K S t0 (fst (pt_reject s1 x))" for x using held_same [OF s1(2)] s1(2) by (simp add: held_def)
  show ?thesis using s1 assms(3) a r
    by (cases e) (auto simp: pt_push_def foreign_def split_beta split: sum.splits)
qed

lemma own_push:
  assumes "pt_inv l s" "held frame K S t0 s" "safe_int now" "pt_lastNow s \<le> now"
    and "S \<noteq> {} \<Longrightarrow> now - t0 < int (lm_expiryMilliseconds l)"
    and "ptcs_parse l packet = Inr f"
  obtains s1 where "held frame K S t0 s1" "pt_push l zstd s packet now = Some (pt_admit l zstd f now s1)"
proof -
  obtain s1 where "pt_expire l now s = Some s1" "held frame K S t0 s1" by (rule held_expire [OF assms(1-5)])
  then show ?thesis using that assms(6) by (simp add: pt_push_def)
qed

text \<open>As long as a fragment is missing, every own packet is answered \<open>Incomplete\<close>.\<close>

lemma held_run:
  assumes l: "limits_ok l" and sd: "sendable l frame sq ts ch" and K: "K = FrameKey ch sq ts"
    and ps: "\<And>i. i < nvrPackets_count frame \<Longrightarrow> ps ! i = nvrPacket frame sq ts ch i"
  shows "pt_inv l s \<Longrightarrow> held frame K S t0 s \<Longrightarrow> S \<union> fst ` set (owned as) \<subset> {..<nvrPackets_count frame} \<Longrightarrow>
    \<forall>e. OtherCall e \<in> set as \<longrightarrow> foreign l K e \<Longrightarrow> sorted (pt_lastNow s # List.map (call_time \<circ> arrival_call ps) as) \<Longrightarrow>
    \<forall>t\<in>set (List.map (call_time \<circ> arrival_call ps) as). safe_int t \<and> t - t0 < int (lm_expiryMilliseconds l) \<Longrightarrow>
    (S = {} \<longrightarrow> owned as = [] \<or> t0 = snd (hd (owned as))) \<Longrightarrow>
    Rejected RjCapacity \<notin> set (own_answers l zstd ps s as) \<Longrightarrow>
    own_answers l zstd ps s as = replicate (length (owned as)) Incomplete \<and>
    (let s' = run_state (pt_step l zstd) s (List.map (arrival_call ps) as) in
     held frame K (S \<union> fst ` set (owned as)) t0 s' \<and> pt_inv l s' \<and>
     pt_lastNow s' = last (pt_lastNow s # List.map (call_time \<circ> arrival_call ps) as))"
proof (induction as arbitrary: s S)
  case (Cons a as)
  let ?e = "arrival_call ps a" and ?n = "nvrPackets_count frame"
  define s1 where "s1 = fst (pt_step l zstd s ?e)"
  have t: "safe_int (call_time ?e)" "pt_lastNow s \<le> call_time ?e" "call_time ?e - t0 < int (lm_expiryMilliseconds l)"
    using Cons.prems(5,6) by auto
  have inv: "pt_inv l s1" unfolding s1_def by (rule pt_step_inv [OF l Cons.prems(1)])
  have ne: "?e \<noteq> PtClear" using Cons.prems(4) by (cases a) (auto simp: foreign_def)
  have now: "pt_lastNow s1 = call_time ?e" unfolding s1_def by (rule step_time [OF ne t(1,2)])
  have so: "sorted (pt_lastNow s1 # List.map (call_time \<circ> arrival_call ps) as)" using Cons.prems(5) now by (simp add: comp_def)
  have others: "\<forall>e. OtherCall e \<in> set as \<longrightarrow> foreign l K e" using Cons.prems(4) by simp
  have ts: "\<forall>t\<in>set (List.map (call_time \<circ> arrival_call ps) as). safe_int t \<and> t - t0 < int (lm_expiryMilliseconds l)"
    using Cons.prems(6) by simp
  have la: "last (pt_lastNow s # List.map (call_time \<circ> arrival_call ps) (a # as)) = last (pt_lastNow s1 # List.map (call_time \<circ> arrival_call ps) as)"
    using now by simp
  have ru: "run_state (pt_step l zstd) s (List.map (arrival_call ps) (a # as)) = run_state (pt_step l zstd) s1 (List.map (arrival_call ps) as)"
    by (simp add: s1_def split_beta)
  show ?case
  proof (cases a)
    case (OtherCall e)
    have h: "held frame K S t0 s1" unfolding s1_def OtherCall arrival_call.simps
      by (rule held_foreign [OF Cons.prems(1,2)]) (use Cons.prems(4) t OtherCall in auto)
    have ans: "own_answers l zstd ps s (a # as) = own_answers l zstd ps s1 as" by (simp add: s1_def split_beta OtherCall)
    have ow: "owned (a # as) = owned as" by (simp add: OtherCall)
    show ?thesis using Cons.prems(3,7,8) unfolding ru la ans ow by (intro Cons.IH [OF inv h _ others so ts])
  next
    case (OwnPacket i w)
    have i: "i < ?n" "insert i S \<subset> {..<?n}" "S \<subset> {..<?n}" using Cons.prems(3) by (auto simp: OwnPacket)
    have parse: "ptcs_parse l (ps ! i) = Inr (fragment_of frame sq ts ch i)"
      unfolding ps [OF i(1)] by (rule sendable_parse [OF sd i(1)])
    have t': "safe_int w" "pt_lastNow s \<le> w" "w - t0 < int (lm_expiryMilliseconds l)" using t by (simp_all add: OwnPacket)
    obtain u where u: "held frame K S t0 u" "pt_push l zstd s (ps ! i) w = Some (pt_admit l zstd (fragment_of frame sq ts ch i) w u)"
      by (rule own_push [OF Cons.prems(1,2) t'(1,2) _ parse]) (use t'(3) in auto)
    obtain v r where v: "pt_admit l zstd (fragment_of frame sq ts ch i) w u = (v, r)" by (rule prod.exhaust)
    have step: "pt_step l zstd s ?e = (v, [r])" by (simp add: OwnPacket u(2) v)
    then have v1: "v = s1" by (simp add: s1_def)
    have room: "r \<noteq> Rejected RjCapacity" using Cons.prems(8) step by (auto simp: OwnPacket)
    have first: "S = {} \<Longrightarrow> t0 = w" using Cons.prems(7) by (simp add: OwnPacket)
    have part: "insert i S \<noteq> {..<?n}" using i(2) by blast
    have x: "r = Incomplete" "held frame K (insert i S) t0 s1"
      using held_admit [OF u(1) i(3,1) K first v room] unfolding if_not_P [OF part] v1 by simp_all
    have ans: "own_answers l zstd ps s (a # as) = Incomplete # own_answers l zstd ps s1 as"
      using step v1 x(1) by (simp add: OwnPacket)
    have "insert i S \<union> fst ` set (owned as) \<subset> {..<?n}" using Cons.prems(3) by (simp add: OwnPacket)
    from Cons.IH [OF inv x(2) this others so ts] Cons.prems(8) show ?thesis
      unfolding ru la ans by (simp add: OwnPacket comp_def)
  qed
qed simp

text \<open>The sender's packets: their number and keys, and how the reassembler reads them.\<close>

lemma sender_packets:
  assumes "nvrPackets frame sq ts ch = Some ps"
  shows "length ps = nvrPackets_count frame" "nvrPackets_count frame \<le> 65536" "length frame \<le> 4 * 1024 * 1024 + 64"
    "nat sq < 65536" "nat (ts mod 4294967296) < 4294967296" "nat ch \<le> 5"
    "\<And>i. i < nvrPackets_count frame \<Longrightarrow> ps ! i = nvrPacket frame (nat sq) (nat (ts mod 4294967296)) (nat ch) i"
proof -
  have "ps = List.map (nvrPacket frame (nat sq) (nat (ts mod 4294967296)) (nat ch)) [0..<nvrPackets_count frame]"
    using assms by (simp add: nvrPackets_def split: if_splits)
  then show "length ps = nvrPackets_count frame"
    "\<And>i. i < nvrPackets_count frame \<Longrightarrow> ps ! i = nvrPacket frame (nat sq) (nat (ts mod 4294967296)) (nat ch) i" by simp_all
  show l: "length frame \<le> 4 * 1024 * 1024 + 64" "nat sq < 65536" "nat ch \<le> 5"
    using assms by (auto simp: nvrPackets_def split: if_splits)
  show "nvrPackets_count frame \<le> 65536" using l(1) by (simp add: nvrPackets_count_def)
  have "ts mod 4294967296 < 4294967296" by simp
  then show "nat (ts mod 4294967296) < 4294967296" by linarith
qed

lemma oversized_run:
  assumes "\<And>i. i < n \<Longrightarrow> ptcs_parse l (ps ! i) = Inl RjFrameTooLarge"
  shows "fst ` set (owned as) \<subseteq> {..<n} \<Longrightarrow> \<forall>e. OtherCall e \<in> set as \<longrightarrow> e \<noteq> PtClear \<Longrightarrow>
    sorted (pt_lastNow s # List.map (call_time \<circ> arrival_call ps) as) \<Longrightarrow>
    \<forall>t\<in>set (List.map (call_time \<circ> arrival_call ps) as). safe_int t \<Longrightarrow>
    own_answers l zstd ps s as = replicate (length (owned as)) (Rejected RjFrameTooLarge)"
proof (induction as arbitrary: s)
  case (Cons a as)
  let ?e = "arrival_call ps a" and ?s1 = "fst (pt_step l zstd s (arrival_call ps a))"
  have t: "safe_int (call_time ?e)" "pt_lastNow s \<le> call_time ?e" using Cons.prems(3,4) by auto
  have "?e \<noteq> PtClear" using Cons.prems(2) by (cases a) auto
  then have now: "pt_lastNow ?s1 = call_time ?e" using t by (rule step_time)
  have own: "fst ` set (owned as) \<subseteq> {..<n}" using Cons.prems(1) by (cases a) auto
  have IH: "own_answers l zstd ps ?s1 as = replicate (length (owned as)) (Rejected RjFrameTooLarge)"
    using Cons.prems(2-4) by (intro Cons.IH own) (simp_all add: now comp_def)
  show ?case
  proof (cases a)
    case (OwnPacket i w)
    then have "i < n" using Cons.prems(1) by simp
    moreover obtain s2 where "pt_expire l w s = Some s2" using t by (simp add: OwnPacket pt_expire_eq)
    ultimately have "snd (pt_step l zstd s ?e) = [Rejected RjFrameTooLarge]"
      using assms by (simp add: OwnPacket pt_push_def split_beta)
    then show ?thesis using IH by (simp add: OwnPacket split_beta)
  next
    case (OtherCall e)
    then show ?thesis using IH by (simp add: split_beta)
  qed
qed simp

section \<open>Properties\<close>

text \<open>C18: What the sender cuts into PTCS packets, the reassembler puts together, in the middle of any other traffic. After any
  calls that leave the frame's key (channel, sequence, timestamp) neither pending nor remembered, let the packets of the frame
  arrive in any order, repeated or not, among any calls for other frames, invalid packets and expiries, up to the arrival that
  makes them complete. The clock does not run backwards and stays within the expiry of the frame's first arrival, and no own
  packet is refused for lack of capacity. Then every own packet but the last is answered incomplete and the last yields the
  frame on its channel, with its sequence and timestamp; its entry is released (the counters are exactly those of the frames
  still pending) and a replay tombstone is left. A frame over maxFrameBytes (4 MiB by default; the sender allows 64 bytes
  more) is refused packet by packet as too large. No clear call and no foreign packet with the frame's own key falls into the
  run.\<close>

theorem ptcs_round_trip:
  fixes ps as bs l zstd s
  defines "answers \<equiv> own_answers l zstd ps s as" and "clocks \<equiv> List.map (call_time \<circ> arrival_call ps) as"
    and "first \<equiv> snd (hd (owned as))" and "final \<equiv> run_state (pt_step l zstd) s (List.map (arrival_call ps) as)"
  assumes "limits_ok l" "nvrPackets frame sq ts ch = Some ps" "length ps \<le> lm_maxFragmentsPerFrame l"
    and "K = FrameKey (nat ch) (nat sq) (nat (ts mod 4294967296))"
    and "s = run_state (pt_step l zstd) pt_new history" "map_of (pt_pending s) K = None" "map_of (pt_tombstones s) K = None"
    and "as = bs @ [OwnPacket j now]" "fst ` set (owned as) = {..<length ps}" "fst ` set (owned bs) \<noteq> {..<length ps}"
    and "\<forall>e. OtherCall e \<in> set as \<longrightarrow> foreign l K e"
    and "sorted (pt_lastNow s # clocks)" "\<forall>t\<in>set clocks. safe_int t \<and> t - first < int (lm_expiryMilliseconds l)"
    and "Rejected RjCapacity \<notin> set answers"
  shows "if length frame > lm_maxFrameBytes l then answers = replicate (length (owned as)) (Rejected RjFrameTooLarge)
    else answers = replicate (length (owned bs)) Incomplete @ [Complete (nat ch) (nat sq) (nat (ts mod 4294967296)) frame] \<and>
      map_of (pt_pending final) K = None \<and>
      map_of (pt_tombstones final) K = Some \<lparr> tb_firstArrival = first, tb_reason = RjReplay \<rparr> \<and>
      pt_bufferedBytes final = int (js_total pf_total (pt_pending final)) \<and>
      pt_retainedFragments final = int (js_total (\<lambda>p. length (pf_fragments p)) (pt_pending final))"
proof (cases "length frame > lm_maxFrameBytes l")
  case True
  note p = sender_packets [OF assms(6)]
  have "ptcs_parse l (ps ! i) = Inl RjFrameTooLarge" if "i < length ps" for i
    using ptcs_parse_sender [OF p(4,5,6) _ _ p(2), of i l] p(1,3,7) that assms(7) True by simp
  then have "own_answers l zstd ps s as = replicate (length (owned as)) (Rejected RjFrameTooLarge)"
    using assms(13,15-17) by (intro oversized_run [where n = "length ps"]) (auto simp: clocks_def foreign_def)
  then show ?thesis using True by (simp add: answers_def)
next
  case False
  let ?n = "nvrPackets_count frame" and ?run = "\<lambda>as. run_state (pt_step l zstd) s (List.map (arrival_call ps) as)"
  note p = sender_packets [OF assms(6)]
  define S where "S = fst ` set (owned bs)"
  have sd: "sendable l frame (nat sq) (nat (ts mod 4294967296)) (nat ch)"
    using p assms(7) False by (simp add: sendable_def)
  have ow: "owned as = owned bs @ [(j, now)]" by (simp add: assms(12) owned_append)
  have all: "insert j S = {..<?n}" and j: "j < ?n" "S \<subset> {..<?n}" using assms(13,14) by (auto simp: ow S_def p(1))
  have inv: "pt_inv l s" using pt.run_inv [of l pt_new history zstd] assms(5) pt_inv_new by (simp add: assms(9))
  have h: "held frame K {} first s" using assms(10,11) by (simp add: held_def)
  have ans: "answers = own_answers l zstd ps s bs @ own_answers l zstd ps (?run bs) [OwnPacket j now]"
    by (simp add: answers_def assms(12) own_answers_append)
  have sorted: "sorted (pt_lastNow s # List.map (call_time \<circ> arrival_call ps) bs)"
    "\<forall>t\<in>set (pt_lastNow s # List.map (call_time \<circ> arrival_call ps) bs). t \<le> now" and
    w: "safe_int now" "now - first < int (lm_expiryMilliseconds l)"
    using assms(16,17) by (auto simp: clocks_def assms(12) sorted_append sorted_simps)
  have upto: "last (pt_lastNow s # List.map (call_time \<circ> arrival_call ps) bs) \<le> now" by (rule bspec [OF sorted(2) last_in_set]) simp
  have fo: "\<forall>e. OtherCall e \<in> set bs \<longrightarrow> foreign l K e" using assms(15) by (simp add: assms(12))
  have sf: "\<forall>t\<in>set (List.map (call_time \<circ> arrival_call ps) bs). safe_int t \<and> t - first < int (lm_expiryMilliseconds l)"
    using assms(17) by (simp add: clocks_def assms(12))
  have fi: "({} :: nat set) = {} \<longrightarrow> owned bs = [] \<or> first = snd (hd (owned bs))" by (cases "owned bs") (simp_all add: first_def ow)
  have sub: "{} \<union> fst ` set (owned bs) \<subset> {..<?n}" using j(2) by (simp add: S_def)
  have cap: "Rejected RjCapacity \<notin> set (own_answers l zstd ps s bs)" using assms(18) by (simp add: ans)
  have run: "own_answers l zstd ps s bs = replicate (length (owned bs)) Incomplete"
    "held frame K S first (?run bs)" "pt_inv l (?run bs)" "pt_lastNow (?run bs) \<le> now"
    using held_run [OF assms(5) sd assms(8) p(7) inv h sub fo sorted(1) sf fi cap] upto
    unfolding Let_def S_def Un_empty_left by (simp_all del: last.simps)
  have parse: "ptcs_parse l (ps ! j) = Inr (fragment_of frame (nat sq) (nat (ts mod 4294967296)) (nat ch) j)"
    unfolding p(7) [OF j(1)] by (rule sendable_parse [OF sd j(1)])
  obtain u where u: "held frame K S first u" "pt_push l zstd (?run bs) (ps ! j) now =
      Some (pt_admit l zstd (fragment_of frame (nat sq) (nat (ts mod 4294967296)) (nat ch) j) now u)"
    by (rule own_push [OF run(3,2) w(1) run(4) w(2) parse])
  obtain v r where v: "pt_admit l zstd (fragment_of frame (nat sq) (nat (ts mod 4294967296)) (nat ch) j) now u = (v, r)" by (rule prod.exhaust)
  have step: "pt_step l zstd (?run bs) (PtPush (ps ! j) now) = (v, [r])" by (simp add: u(2) v)
  have fin: "final = v" using step by (simp add: final_def assms(12) run_append)
  have "r \<noteq> Rejected RjCapacity" using assms(18) step by (auto simp: ans)
  moreover have "S = {} \<Longrightarrow> first = now" by (simp add: S_def first_def ow)
  ultimately have x: "r = Complete (nat ch) (nat sq) (nat (ts mod 4294967296)) frame" "map_of (pt_pending final) K = None"
    "map_of (pt_tombstones final) K = Some \<lparr> tb_firstArrival = first, tb_reason = RjReplay \<rparr>"
    using held_admit [OF u(1) j(2,1) assms(8) _ v] unfolding if_P [OF all] fin by simp_all
  have "pt_inv l final" using pt_step_inv [OF assms(5) run(3), of zstd "PtPush (ps ! j) now"] step fin by simp
  then have "pt_counts final" by (simp add: pt_inv_def)
  then show ?thesis using x False step run(1) by (simp add: ans pt_counts_def)
qed

text \<open>A frame of two packets into a reassembler whose clock has run: the last packet first, then an invalid packet and an
  expiry, then the first packet.\<close>

lemma two_packets:
  defines "ps \<equiv> List.map (nvrPacket (replicate 1001 7) 5 9 2) [0, 1]"
  shows "own_answers default_limits (\<lambda>_ _. None) ps (run_state (pt_step default_limits (\<lambda>_ _. None)) pt_new [PtExpire 3])
      [OwnPacket 1 10, OtherCall (PtPush [1, 2] 11), OtherCall (PtExpire 11), OwnPacket 0 12] =
    [Incomplete, Complete 2 5 9 (replicate 1001 7)]"
proof -
  let ?l = default_limits and ?z = "\<lambda>(_ :: bytes) (_ :: nat). None :: bytes option" and ?F = "replicate 1001 7 :: bytes"
  have sd: "sendable ?l ?F 5 9 2" by (simp add: sendable_def default_limits_def nvrPackets_count_def)
  have n: "nvrPackets_count ?F = 2" by (simp add: nvrPackets_count_def)
  have parse: "ptcs_parse ?l (nvrPacket ?F 5 9 2 0) = Inr (fragment_of ?F 5 9 2 0)" "ptcs_parse ?l (nvrPacket ?F 5 9 2 1) = Inr (fragment_of ?F 5 9 2 1)"
    by (rule sendable_parse [OF sd]; simp add: n)+
  have f: "fragment_of ?F 5 9 2 0 = \<lparr> fr_channel = 2, fr_sequence = 5, fr_timestamp = 9, fr_total = 1001, fr_index = 0, fr_final = False,
      fr_compressed = False, fr_keyframe = False, fr_part = replicate 1000 7 \<rparr>"
    "fragment_of ?F 5 9 2 1 = \<lparr> fr_channel = 2, fr_sequence = 5, fr_timestamp = 9, fr_total = 1001, fr_index = 1, fr_final = True,
      fr_compressed = False, fr_keyframe = False, fr_part = [7] \<rparr>"
    by (simp_all add: fragment_of_def n slice_def)
  let ?p = "\<lparr> pf_total = 1001, pf_firstArrival = 10, pf_compressed = False, pf_keyframe = False,
      pf_fragments = [(1, ([7], True))], pf_receivedBytes = 1, pf_finalIndex = Some 1 \<rparr>"
  let ?s = "pt_new\<lparr>pt_pending := [(FrameKey 2 5 9, ?p)], pt_bufferedBytes := 1001, pt_retainedFragments := 1\<rparr>"
  note calc = default_limits_def safe_int_def max_safe_integer_def pt_new_def pt_expire_def Let_def
  have e: "pt_expire ?l 3 pt_new = Some (pt_new\<lparr>pt_lastNow := 3\<rparr>)"
    "pt_expire ?l 10 (pt_new\<lparr>pt_lastNow := 3\<rparr>) = Some (pt_new\<lparr>pt_lastNow := 10\<rparr>)"
    "pt_expire ?l 11 (?s\<lparr>pt_lastNow := 10\<rparr>) = Some (?s\<lparr>pt_lastNow := 11\<rparr>)"
    "pt_expire ?l 11 (?s\<lparr>pt_lastNow := 11, pt_rejected := [(RjGeometry, 1)]\<rparr>) = Some (?s\<lparr>pt_lastNow := 11, pt_rejected := [(RjGeometry, 1)]\<rparr>)"
    "pt_expire ?l 12 (?s\<lparr>pt_lastNow := 11, pt_rejected := [(RjGeometry, 1)]\<rparr>) = Some (?s\<lparr>pt_lastNow := 12, pt_rejected := [(RjGeometry, 1)]\<rparr>)"
    by (simp_all add: calc)
  note admit = pt_admit_def pt_store_def pt_new_def default_limits_def frag_key_def pf_put_def pf_mark_def pt_set_def Let_def
  have a: "pt_admit ?l ?z (fragment_of ?F 5 9 2 1) 10 (pt_new\<lparr>pt_lastNow := 10\<rparr>) = (?s\<lparr>pt_lastNow := 10\<rparr>, Incomplete)"
    unfolding f by (simp add: admit frags_present_def)
  have join: "replicate 1000 7 @ [7] = ?F" using replicate_append_same [of 1000 "7 :: byte"] replicate_Suc [of 1000 "7 :: byte"] by simp
  have b: "\<exists>s'. pt_admit ?l ?z (fragment_of ?F 5 9 2 0) 12 (?s\<lparr>pt_lastNow := 12, pt_rejected := [(RjGeometry, 1)]\<rparr>) = (s', Complete 2 5 9 ?F)"
    unfolding f by (simp add: admit frags_present_def frags_concat_def pt_complete_def join) blast
  have r: "ptcs_parse ?l [1, 2] = Inl RjGeometry" by (simp add: ptcs_parse_def HEADER_BYTES_def)
  have "pt_reject (?s\<lparr>pt_lastNow := 11\<rparr>) RjGeometry = (?s\<lparr>pt_lastNow := 11, pt_rejected := [(RjGeometry, 1)]\<rparr>, Rejected RjGeometry)"
    by (simp add: pt_reject_def pt_new_def max_safe_integer_def)
  then show ?thesis using b by (auto simp: ps_def e pt_push_def parse r a simp del: One_nat_def)
qed

lemma ptcs_round_trip_witness:
  "let ps = List.map (nvrPacket (replicate 1001 7) 5 9 2) [0, 1]; step = pt_step default_limits (\<lambda>_ _. None);
       as = [OwnPacket 1 10, OtherCall (PtPush [1, 2] 11), OtherCall (PtExpire 11), OwnPacket 0 12];
       s = run_state step pt_new [PtExpire 3]; final = run_state step s (List.map (arrival_call ps) as) in
   own_answers default_limits (\<lambda>_ _. None) ps s as = [Incomplete, Complete 2 5 9 (replicate 1001 7)] \<and>
   map_of (pt_pending final) (FrameKey 2 5 9) = None \<and>
   map_of (pt_tombstones final) (FrameKey 2 5 9) = Some \<lparr> tb_firstArrival = 10, tb_reason = RjReplay \<rparr>"
proof -
  let ?ps = "List.map (nvrPacket (replicate 1001 7) 5 9 2) [0, 1]"
  let ?bs = "[OwnPacket 1 10, OtherCall (PtPush [1, 2] 11), OtherCall (PtExpire 11)]" and ?z = "\<lambda>(_ :: bytes) (_ :: nat). None :: bytes option"
  let ?as = "?bs @ [OwnPacket 0 12]" and ?s = "run_state (pt_step default_limits ?z) pt_new [PtExpire 3]"
  let ?final = "run_state (pt_step default_limits ?z) ?s (List.map (arrival_call ?ps) ?as)"
  let ?K = "FrameKey (nat 2) (nat 5) (nat (9 mod 4294967296))"
  have l: "limits_ok default_limits" by (simp add: limits_ok_def default_limits_def FRAGMENT_BYTES_def max_safe_integer_def)
  have ps: "nvrPackets (replicate 1001 7) 5 9 2 = Some ?ps"
    by (simp add: nvrPackets_def safe_int_def max_safe_integer_def nvrPackets_count_def upt_rec)
  have s: "?s = pt_new\<lparr>pt_lastNow := 3\<rparr>" by (simp add: pt_expire_def safe_int_def max_safe_integer_def pt_new_def Let_def)
  have t: "length ?ps \<le> lm_maxFragmentsPerFrame default_limits" "\<not> length (replicate 1001 (7 :: byte)) > lm_maxFrameBytes default_limits"
    by (simp_all add: default_limits_def)
  have idle: "map_of (pt_pending ?s) ?K = None" "map_of (pt_tombstones ?s) ?K = None" unfolding s by (simp_all add: pt_new_def)
  have ow: "fst ` set (owned ?as) = {..<length ?ps}" "fst ` set (owned ?bs) \<noteq> {..<length ?ps}" "snd (hd (owned ?as)) = 10"
    by (auto simp: less_Suc_eq)
  have fo: "\<forall>e. OtherCall e \<in> set ?as \<longrightarrow> foreign default_limits ?K e"
    by (auto simp: foreign_def ptcs_parse_def HEADER_BYTES_def)
  have so: "sorted (pt_lastNow ?s # List.map (call_time \<circ> arrival_call ?ps) ?as)" unfolding s by simp
  have sf: "\<forall>t\<in>set (List.map (call_time \<circ> arrival_call ?ps) ?as). safe_int t \<and> t - snd (hd (owned ?as)) < int (lm_expiryMilliseconds default_limits)"
    by (simp add: safe_int_def max_safe_integer_def default_limits_def)
  have ans: "own_answers default_limits ?z ?ps ?s ?as = [Incomplete, Complete 2 5 9 (replicate 1001 7)]"
    using two_packets by (simp only: append.simps)
  have cap: "Rejected RjCapacity \<notin> set (own_answers default_limits ?z ?ps ?s ?as)" unfolding ans by simp
  have "own_answers default_limits ?z ?ps ?s ?as = [Incomplete, Complete 2 5 9 (replicate 1001 7)] \<and>
      map_of (pt_pending ?final) ?K = None \<and> map_of (pt_tombstones ?final) ?K = Some \<lparr> tb_firstArrival = 10, tb_reason = RjReplay \<rparr>"
    using ptcs_round_trip [OF l ps t(1) refl refl idle refl ow(1,2) fo so sf cap] ans unfolding if_not_P [OF t(2)] ow(3) by blast
  moreover have "?K = FrameKey 2 5 9" by simp
  ultimately show ?thesis unfolding Let_def by (simp only: append.simps)
qed

text \<open>In every reachable state the budgets hold: pending frames, reserved bytes, retained
  fragments and tombstones stay within their limits, the counters are the exact totals, every
  pending frame holds at most its declared bytes and is incomplete, and no key is both
  pending and remembered.\<close>

theorem ptcs_budgets_hold:
  assumes "limits_ok l"
  shows "pt_inv l (run_state (pt_step l zstd) pt_new es)"
  using pt.run_inv [of l pt_new es zstd] assms pt_inv_new by simp

lemma ptcs_budgets_hold_witness:
  "pt_inv default_limits (run_state (pt_step default_limits (\<lambda>_ _. None)) pt_new [PtPush [1, 2] 5, PtClear])"
  by (rule ptcs_budgets_hold) (simp add: limits_ok_def default_limits_def FRAGMENT_BYTES_def max_safe_integer_def)

text \<open>A completed frame is delivered once: until the expiry of its first arrival, every valid
  packet with its channel, sequence and timestamp is rejected as a replay.\<close>

theorem completed_frame_not_replayed:
  assumes "limits_ok l" "pt_inv l s" "pt_push l zstd s packet now = Some (s', Complete c sq ts frame)"
  shows "\<exists>t. map_of (pt_tombstones s') (FrameKey c sq ts) = Some t \<and> tb_firstArrival t \<le> now \<and>
    (\<forall>packet' f now'. ptcs_parse l packet' = Inr f \<longrightarrow> frag_key f = FrameKey c sq ts \<longrightarrow>
       safe_int now' \<longrightarrow> now \<le> now' \<longrightarrow> now' - tb_firstArrival t < int (lm_expiryMilliseconds l) \<longrightarrow>
       (\<exists>s''. pt_push l zstd s' packet' now' = Some (s'', Rejected RjReplay)))"
proof -
  obtain t where t: "map_of (pt_tombstones s') (FrameKey c sq ts) = Some t" "tb_reason t = RjReplay"
    "tb_firstArrival t \<le> now" and i: "pt_inv l s'" "pt_lastNow s' = now"
    using pt_push_complete [OF assms(2,1,3)] by blast
  have wf: "js_wf (pt_tombstones s')" using i by (simp add: pt_inv_def)
  have "\<exists>s''. pt_push l zstd s' packet' now' = Some (s'', Rejected RjReplay)"
    if h: "ptcs_parse l packet' = Inr f" "frag_key f = FrameKey c sq ts" "safe_int now'" "now \<le> now'"
      "now' - tb_firstArrival t < int (lm_expiryMilliseconds l)" for packet' f now'
  proof -
    obtain s1 where "pt_expire l now' s' = Some s1" "map_of (pt_tombstones s1) (FrameKey c sq ts) = Some t"
      using pt_expire_tombstone [OF wf t(1) h(3) _ h(5)] i(2) h(4) by blast
    with h(1,2) t(2) show ?thesis
      by (simp add: pt_push_def pt_admit_def) (metis pt_reject_fields(6) prod.collapse)
  qed
  with t(1,3) show ?thesis by blast
qed

lemma completed_frame_not_replayed_witness:
  "\<exists>s' s''. pt_push default_limits (\<lambda>_ _. None) pt_new (nvrPacket [7] 5 9 2 0) 10 = Some (s', Complete 2 5 9 [7]) \<and>
     pt_push default_limits (\<lambda>_ _. None) s' (nvrPacket [7] 5 9 2 0) 20 = Some (s'', Rejected RjReplay)"
proof -
  let ?l = default_limits and ?p = "nvrPacket [7] 5 9 2 0" and ?f = "fragment_of [7] 5 9 2 0"
  have l: "limits_ok ?l" by (simp add: limits_ok_def default_limits_def FRAGMENT_BYTES_def max_safe_integer_def)
  have parse: "ptcs_parse ?l ?p = Inr ?f"
    by (rule sendable_parse) (simp_all add: sendable_def default_limits_def nvrPackets_count_def)
  have e: "pt_expire ?l 10 pt_new = Some (pt_new\<lparr>pt_lastNow := 10\<rparr>)"
    by (simp add: pt_expire_def pt_new_def safe_int_def max_safe_integer_def)
  let ?s' = "pt_new\<lparr>pt_lastNow := 10, pt_tombstones := [(FrameKey 2 5 9, \<lparr> tb_firstArrival = 10, tb_reason = RjReplay \<rparr>)]\<rparr>"
  have f: "?f = \<lparr> fr_channel = 2, fr_sequence = 5, fr_timestamp = 9, fr_total = 1, fr_index = 0, fr_final = True,
      fr_compressed = False, fr_keyframe = False, fr_part = [7] \<rparr>"
    by (simp add: fragment_of_def nvrPackets_count_def slice_def)
  have push: "pt_push ?l (\<lambda>_ _. None) pt_new ?p 10 = Some (?s', Complete 2 5 9 [7])"
    unfolding pt_push_def e option.case parse sum.case
    by (simp add: f pt_admit_def pt_store_def pt_new_def default_limits_def frag_key_def pf_put_def pf_mark_def pt_set_def
        frags_present_def frags_concat_def pt_complete_def pt_release_def pt_remember_def Let_def)
      blast
  from completed_frame_not_replayed [OF l pt_inv_new this]
  have "\<exists>s''. pt_push ?l (\<lambda>_ _. None) ?s' ?p 20 = Some (s'', Rejected RjReplay)"
    using parse by (force simp: frag_key_def f safe_int_def max_safe_integer_def default_limits_def)
  with push show ?thesis by blast
qed

end
