(* ===== verification/Observations.thy ===== *)
theory Observations
  imports Js_Map Machine
begin

text \<open>
  What the provider makes of repeated and competing observations:
  \<open>PushEventDeduplicator\<close> (provider/push-event-deduplicator.ts), \<open>inventoryMotionOutcome\<close> and
  \<open>InventoryMotionClock\<close> (provider/inventory-motion.ts), \<open>ObservedStateRegistry\<close>
  (provider/observed-state-registry.ts). Times are milliseconds; cloud timestamps are real
  seconds rounded as the code rounds them. Each component is related to a specification:
  the deduplicator to one automaton per event, the clock to single publication, the
  registry to the maximum of what was observed.
\<close>

section \<open>Push deliveries\<close>

record push_seen =
  ps_observedAt :: int
  ps_pictureSeen :: bool

type_synonym dedup = "(string, push_seen) jsmap"

record push_decision =
  pd_handleState :: bool
  pd_retainPicture :: bool

record delivery =
  dv_cameraSerial :: string
  dv_eventId :: "string option"
  dv_eventType :: "int option"
  dv_hasPicture :: bool
  dv_now :: int

definition push_key :: "delivery \<Rightarrow> string \<Rightarrow> string" where
  "push_key e eventId = dv_cameraSerial e @ '':'' @ eventId @ '':'' @
     (case dv_eventType e of None \<Rightarrow> ''null'' | Some n \<Rightarrow> int_str n)"

definition dedup_observe :: "int \<Rightarrow> dedup \<Rightarrow> delivery \<Rightarrow> dedup \<times> push_decision list" where
  "dedup_observe window recent e =
     (case dv_eventId e of
        None \<Rightarrow> (recent, [\<lparr> pd_handleState = True, pd_retainPicture = dv_hasPicture e \<rparr>])
      | Some eventId \<Rightarrow>
          if eventId = [] then (recent, [\<lparr> pd_handleState = True, pd_retainPicture = dv_hasPicture e \<rparr>])
          else
            (let live = filter (\<lambda>(k, o'). \<not> dv_now e - ps_observedAt o' > window) recent;
                 key = push_key e eventId; previous = map_of live key;
                 seen = (case previous of None \<Rightarrow> False | Some o' \<Rightarrow> ps_pictureSeen o') in
             (AList.update key \<lparr> ps_observedAt = dv_now e, ps_pictureSeen = (dv_hasPicture e \<or> seen) \<rparr> live,
              [\<lparr> pd_handleState = (previous = None), pd_retainPicture = (dv_hasPicture e \<and> \<not> seen) \<rparr>])))"

text \<open>The specification: one automaton for one event key, blind to every other event.\<close>

definition event_key :: "delivery \<Rightarrow> string option" where
  "event_key e = (case dv_eventId e of None \<Rightarrow> None | Some i \<Rightarrow> if i = [] then None else Some (push_key e i))"

definition burst_step :: "int \<Rightarrow> (int \<times> bool) option \<Rightarrow> delivery \<Rightarrow> (int \<times> bool) option \<times> push_decision list" where
  "burst_step window st e =
     (let live = (case st of None \<Rightarrow> None | Some (t, p) \<Rightarrow> if dv_now e - t > window then None else Some p);
          seen = (live = Some True) in
      (Some (dv_now e, dv_hasPicture e \<or> seen),
       [\<lparr> pd_handleState = (live = None), pd_retainPicture = (dv_hasPicture e \<and> \<not> seen) \<rparr>]))"

text \<open>What the deduplicator knows of a key that is not expired at the given time.\<close>

definition known :: "int \<Rightarrow> int \<Rightarrow> dedup \<Rightarrow> string \<Rightarrow> (int \<times> bool) option" where
  "known window now m k =
     (case map_of m k of None \<Rightarrow> None
      | Some o' \<Rightarrow> if now - ps_observedAt o' > window then None else Some (ps_observedAt o', ps_pictureSeen o'))"

definition live_at :: "int \<Rightarrow> int \<Rightarrow> (int \<times> bool) option \<Rightarrow> (int \<times> bool) option" where
  "live_at window now st = (case st of None \<Rightarrow> None | Some (t, p) \<Rightarrow> if now - t > window then None else Some (t, p))"

lemma js_map_of_filter:
  "js_wf m \<Longrightarrow> map_of (filter (\<lambda>(k, v). P v) m) k = (case map_of m k of None \<Rightarrow> None | Some v \<Rightarrow> if P v then Some v else None)"
proof (induction m)
  case (Cons e m)
  then show ?case by (cases e) (auto split: option.splits simp: map_of_eq_None_iff)
qed simp

lemma js_wf_filter [simp]: "js_wf m \<Longrightarrow> js_wf (filter f m)"
  by (simp add: js_wf_def distinct_map_filter)

lemma dedup_wf: "js_wf m \<Longrightarrow> js_wf (fst (dedup_observe w m e))"
  by (simp add: dedup_observe_def Let_def split: option.splits)

text \<open>A step for another event leaves what is known of a key, once time has moved on.\<close>

lemma known_other:
  assumes "js_wf m" "event_key e \<noteq> Some k" "dv_now e \<le> now"
  shows "known w now (fst (dedup_observe w m e)) k = known w now m k"
proof (cases "event_key e")
  case None
  then show ?thesis by (auto simp: event_key_def dedup_observe_def split: option.splits if_splits)
next
  case (Some k')
  then obtain i where i: "dv_eventId e = Some i" "i \<noteq> []" "push_key e i = k'"
    by (auto simp: event_key_def split: option.splits if_splits)
  let ?live = "filter (\<lambda>(k, o'). \<not> dv_now e - ps_observedAt o' > w) m"
  have "map_of (fst (dedup_observe w m e)) k = map_of ?live k"
    using i Some assms(2) by (simp add: dedup_observe_def Let_def js_get_update)
  also have "\<dots> = (case map_of m k of None \<Rightarrow> None | Some v \<Rightarrow> if \<not> dv_now e - ps_observedAt v > w then Some v else None)"
    by (rule js_map_of_filter [OF assms(1)])
  finally show ?thesis using assms(3) by (auto simp: known_def split: option.splits)
qed

lemma known_own:
  assumes "js_wf m" "event_key e = Some k"
  shows "snd (dedup_observe w m e) = snd (burst_step w (known w (dv_now e) m k) e)"
    "map_of (fst (dedup_observe w m e)) k =
       Some \<lparr> ps_observedAt = dv_now e, ps_pictureSeen = snd (the (fst (burst_step w (known w (dv_now e) m k) e))) \<rparr>"
proof -
  obtain i where i: "dv_eventId e = Some i" "i \<noteq> []" "push_key e i = k"
    using assms(2) by (auto simp: event_key_def split: option.splits if_splits)
  let ?live = "filter (\<lambda>(k, o'). \<not> dv_now e - ps_observedAt o' > w) m"
  have l: "map_of ?live k = (case map_of m k of None \<Rightarrow> None | Some v \<Rightarrow> if \<not> dv_now e - ps_observedAt v > w then Some v else None)"
    by (rule js_map_of_filter [OF assms(1)])
  show "snd (dedup_observe w m e) = snd (burst_step w (known w (dv_now e) m k) e)"
    "map_of (fst (dedup_observe w m e)) k =
       Some \<lparr> ps_observedAt = dv_now e, ps_pictureSeen = snd (the (fst (burst_step w (known w (dv_now e) m k) e))) \<rparr>"
    using i l by (auto simp: dedup_observe_def burst_step_def known_def Let_def js_get_update split: option.splits)
qed

lemma burst_live: "snd (burst_step w st e) = snd (burst_step w (live_at w (dv_now e) st) e)"
  "fst (burst_step w st e) = fst (burst_step w (live_at w (dv_now e) st) e)"
  by (auto simp: burst_step_def live_at_def Let_def split: option.splits)

lemma burst_live_now: "live_at w t st = live_at w t st' \<Longrightarrow> t = dv_now e \<Longrightarrow> burst_step w st e = burst_step w st' e"
  using burst_live [of w st e] burst_live [of w st' e] by (simp add: prod_eq_iff)

text \<open>The decisions on the deliveries of one event.\<close>

fun decisions_on :: "int \<Rightarrow> string \<Rightarrow> dedup \<Rightarrow> delivery list \<Rightarrow> push_decision list" where
  "decisions_on w k m [] = []"
| "decisions_on w k m (e # es) =
     (case dedup_observe w m e of (m', ds) \<Rightarrow>
        (if event_key e = Some k then ds else []) @ decisions_on w k m' es)"

lemma dedup_refines_bursts:
  "js_wf m \<Longrightarrow> sorted (List.map dv_now es) \<Longrightarrow> \<forall>e\<in>set es. live_at w (dv_now e) st = known w (dv_now e) m k \<Longrightarrow>
     decisions_on w k m es = run_out (burst_step w) st (filter (\<lambda>e. event_key e = Some k) es)"
proof (induction es arbitrary: m st)
  case (Cons e es)
  let ?m = "fst (dedup_observe w m e)"
  have wf: "js_wf ?m" using Cons.prems(1) by (rule dedup_wf)
  have le: "\<forall>e'\<in>set es. dv_now e \<le> dv_now e'" and so: "sorted (List.map dv_now es)"
    using Cons.prems(2) by auto
  show ?case
  proof (cases "event_key e = Some k")
    case True
    have kn: "live_at w (dv_now e) st = known w (dv_now e) m k" using Cons.prems(3) by simp
    have own: "snd (dedup_observe w m e) = snd (burst_step w st e)"
      "map_of ?m k = Some \<lparr> ps_observedAt = dv_now e, ps_pictureSeen = snd (the (fst (burst_step w st e))) \<rparr>"
      using known_own [OF Cons.prems(1) True, of w] burst_live [of w st e] unfolding kn by simp_all
    obtain p where p: "fst (burst_step w st e) = Some (dv_now e, p)"
      by (simp add: burst_step_def Let_def)
    have "\<forall>e'\<in>set es. live_at w (dv_now e') (fst (burst_step w st e)) = known w (dv_now e') ?m k"
      by (simp add: p own(2) known_def live_at_def)
    from Cons.IH [OF wf so this] True own(1) show ?thesis
      by (simp add: split_beta run_out_Cons del: run.simps)
  next
    case False
    have "\<forall>e'\<in>set es. live_at w (dv_now e') st = known w (dv_now e') ?m k"
      using known_other [OF Cons.prems(1) False] le Cons.prems(3) by simp
    from Cons.IH [OF wf so this] False show ?thesis by (simp add: split_beta)
  qed
qed simp

section \<open>Cloud motion timestamps\<close>

datatype motion_outcome = MNone | MPushConfirmed | MCloudMotion

definition inventoryMotionOutcome :: "real option \<Rightarrow> real option \<Rightarrow> bool \<Rightarrow> int \<Rightarrow> motion_outcome" where
  "inventoryMotionOutcome previous current pushPending receivedAt =
     (case current of
        None \<Rightarrow> MNone
      | Some c \<Rightarrow>
          if receivedAt < 0 then MNone
          else
            (let milliseconds = js_round (c * 1000); age = receivedAt - milliseconds in
             if \<not> safe_int milliseconds \<or> age < - 2000 \<or> age > 60000 then MNone
             else
               (case previous of
                  None \<Rightarrow> if pushPending then MPushConfirmed else MNone
                | Some p \<Rightarrow> if milliseconds \<le> js_round (p * 1000) then MNone
                            else if pushPending then MPushConfirmed else MCloudMotion)))"

record motion_clock =
  mc_baseline :: "int option"
  mc_future :: "int list"
  mc_overflow :: bool

record reading =
  rd_seconds :: "real option"
  rd_pushPending :: bool
  rd_receivedAt :: int

definition mc_empty :: motion_clock where
  "mc_empty = \<lparr> mc_baseline = None, mc_future = [], mc_overflow = False \<rparr>"

text \<open>The set of future readings is a list without duplicates; a published outcome carries its
  timestamp, which the caller holds.\<close>

definition mc_observe :: "motion_clock \<Rightarrow> reading \<Rightarrow> motion_clock \<times> motion_outcome" where
  "mc_observe c r =
     (case rd_seconds r of
        None \<Rightarrow> (c, MNone)
      | Some s \<Rightarrow>
          if rd_receivedAt r < 0 then (c, MNone)
          else
            (let ms = js_round (s * 1000) in
             if \<not> safe_int ms \<or> ms < 946684800000 \<or> mc_overflow c then (c, MNone)
             else
               (let c = c\<lparr>mc_future := filter (\<lambda>t. \<not> t < rd_receivedAt r - 60000) (mc_future c)\<rparr> in
                if ms \<in> set (mc_future c) then (c, MNone)
                else if ms > rd_receivedAt r + 2000 then
                  (if length (mc_future c) \<ge> 32 then (c\<lparr>mc_overflow := True\<rparr>, MNone)
                   else (c\<lparr>mc_future := mc_future c @ [ms]\<rparr>, MNone))
                else
                  (case mc_baseline c of
                     None \<Rightarrow> (c\<lparr>mc_baseline := Some ms\<rparr>, MNone)
                   | Some previous \<Rightarrow>
                       if ms \<le> previous then (c, MNone)
                       else (c\<lparr>mc_baseline := Some ms\<rparr>,
                             inventoryMotionOutcome (Some (of_int previous / 1000)) (Some (of_int ms / 1000))
                               (rd_pushPending r) (rd_receivedAt r))))))"

definition mc_new :: "real option \<Rightarrow> int \<Rightarrow> motion_clock" where
  "mc_new initial receivedAt =
     fst (mc_observe mc_empty \<lparr> rd_seconds = initial, rd_pushPending = False, rd_receivedAt = receivedAt \<rparr>)"

definition mc_timestamp :: "reading \<Rightarrow> int option" where
  "mc_timestamp r = map_option (\<lambda>s. js_round (s * 1000)) (rd_seconds r)"

text \<open>Published timestamps of a sequence of readings.\<close>

definition mc_step :: "motion_clock \<Rightarrow> reading \<Rightarrow> motion_clock \<times> int list" where
  "mc_step c r = (case mc_observe c r of (c', out) \<Rightarrow> (c', if out = MNone then [] else [the (mc_timestamp r)]))"

lemma js_round_ms [simp]: "js_round (of_int n / 1000 * 1000) = n"
  by (simp add: js_round_def)

lemma js_round_of_int [simp]: "js_round (of_int n) = n"
  by (simp add: js_round_def)

definition base_ge :: "motion_clock \<Rightarrow> int \<Rightarrow> bool" where
  "base_ge c t \<longleftrightarrow> (case mc_baseline c of None \<Rightarrow> False | Some b \<Rightarrow> t \<le> b)"

text \<open>A publication is a fresh, strict advance of the baseline that is not in quarantine.\<close>

lemma mc_step_publishes:
  assumes "mc_step c r = (c', ts)" "ts \<noteq> []"
  shows "\<exists>t b. ts = [t] \<and> mc_baseline c = Some b \<and> b < t \<and> mc_baseline c' = Some t \<and>
    rd_receivedAt r - 60000 \<le> t \<and> t \<le> rd_receivedAt r + 2000 \<and> t \<notin> set (mc_future c) \<and> \<not> mc_overflow c"
proof -
  obtain out where o: "mc_observe c r = (c', out)" "out \<noteq> MNone" "ts = [the (mc_timestamp r)]"
    using assms by (auto simp: mc_step_def split: prod.splits if_splits)
  then show ?thesis
    by (auto simp: mc_observe_def inventoryMotionOutcome_def mc_timestamp_def Let_def split: option.splits if_splits)
qed

lemma mc_step_baseline: "mc_step c r = (c', ts) \<Longrightarrow> base_ge c t \<Longrightarrow> base_ge c' t"
  by (auto simp: mc_step_def mc_observe_def base_ge_def Let_def split: option.splits if_splits prod.splits)

lemma mc_step_silent_baseline:
  "mc_step c r = (c', []) \<Longrightarrow> mc_baseline c' = mc_baseline c \<or> (\<exists>t. mc_baseline c' = Some t \<and> (mc_baseline c = None \<or> base_ge c' (the (mc_baseline c))))"
  by (auto simp: mc_step_def mc_observe_def base_ge_def Let_def split: option.splits if_splits prod.splits)

lemma mc_run_increasing:
  "sorted_wrt (<) (run_out mc_step c rs) \<and> (\<forall>t\<in>set (run_out mc_step c rs). \<forall>b. base_ge c b \<longrightarrow> b < t)"
proof (induction rs arbitrary: c)
  case (Cons r rs)
  obtain c' ts where s: "mc_step c r = (c', ts)" by fastforce
  note IH = Cons.IH [of c']
  show ?case
  proof (cases "ts = []")
    case True
    with s IH mc_step_baseline [OF s] show ?thesis
      by (auto simp: run_out_Cons simp del: run.simps)
  next
    case False
    from mc_step_publishes [OF s False] obtain t b where t: "ts = [t]" "mc_baseline c = Some b" "b < t" "mc_baseline c' = Some t"
      by blast
    then have "base_ge c' t" by (simp add: base_ge_def)
    moreover have "\<forall>b'. base_ge c b' \<longrightarrow> b' < t" using t by (auto simp: base_ge_def)
    ultimately show ?thesis using s t(1) IH
      by (auto simp: run_out_Cons simp del: run.simps) force
  qed
qed simp

text \<open>Quarantine: a reading held back as future is never published later, for a forward clock.\<close>

definition held_back :: "motion_clock \<Rightarrow> int \<Rightarrow> int \<Rightarrow> bool" where
  "held_back c now t \<longleftrightarrow> mc_overflow c \<or> t \<in> set (mc_future c) \<or> t < now - 60000"

lemma held_back_step:
  assumes "held_back c now t" "now \<le> rd_receivedAt r" "mc_step c r = (c', ts)"
  shows "held_back c' (rd_receivedAt r) t" "t \<notin> set ts"
proof -
  show "held_back c' (rd_receivedAt r) t"
    using assms by (auto simp: held_back_def mc_step_def mc_observe_def Let_def split: option.splits if_splits prod.splits)
  show "t \<notin> set ts"
  proof
    assume "t \<in> set ts"
    then have "ts \<noteq> []" by auto
    with mc_step_publishes [OF assms(3)] \<open>t \<in> set ts\<close> assms(1,2) show False
      by (auto simp: held_back_def)
  qed
qed

lemma held_back_run:
  "held_back c now t \<Longrightarrow> sorted (now # List.map rd_receivedAt rs) \<Longrightarrow> t \<notin> set (run_out mc_step c rs)"
proof (induction rs arbitrary: c now)
  case (Cons r rs)
  obtain c' ts where s: "mc_step c r = (c', ts)" by fastforce
  have "now \<le> rd_receivedAt r" using Cons.prems(2) by simp
  from held_back_step [OF Cons.prems(1) this s] Cons.IH [of c' "rd_receivedAt r"] Cons.prems(2) s show ?case
    by (simp add: run_out_Cons del: run.simps)
qed simp

lemma mc_future_held:
  assumes "mc_observe c r = (c', out)" "mc_timestamp r = Some t" "t > rd_receivedAt r + 2000"
    "0 \<le> rd_receivedAt r" "safe_int t" "946684800000 \<le> t"
  shows "out = MNone \<and> held_back c' (rd_receivedAt r) t"
  using assms by (auto simp: mc_observe_def mc_timestamp_def held_back_def Let_def split: option.splits if_splits)

lemma mc_future_bound:
  assumes "length (mc_future c) \<le> 32"
  shows "length (mc_future (fst (mc_observe c r))) \<le> 32"
proof -
  have "length (filter (\<lambda>t. \<not> t < rd_receivedAt r - 60000) (mc_future c)) \<le> 32"
    by (rule order_trans [OF length_filter_le assms])
  with assms show ?thesis by (simp add: mc_observe_def Let_def split: option.split)
qed

definition mc_inv :: "motion_clock \<Rightarrow> bool" where
  "mc_inv c \<longleftrightarrow> length (mc_future c) \<le> 32 \<and> distinct (mc_future c)"

lemma mc_future_distinct: "distinct (mc_future c) \<Longrightarrow> distinct (mc_future (fst (mc_observe c r)))"
  by (simp add: mc_observe_def Let_def split: option.split)

lemma mc_step_fst: "fst (mc_step c r) = fst (mc_observe c r)"
  by (simp add: mc_step_def split: prod.split)

interpretation mc: invariant_machine mc_step mc_inv "\<lambda>_. True"
  by unfold_locales (simp add: mc_inv_def mc_step_fst mc_future_bound mc_future_distinct)

section \<open>Competing observations of one field\<close>

datatype observation_source = Inventory | Push | Ppcs

fun SOURCE_PRIORITY :: "observation_source \<Rightarrow> nat" where
  "SOURCE_PRIORITY Inventory = 1"
| "SOURCE_PRIORITY Push = 2"
| "SOURCE_PRIORITY Ppcs = 3"

instantiation observation_source :: linorder
begin

definition less_eq_observation_source :: "observation_source \<Rightarrow> observation_source \<Rightarrow> bool" where
  "a \<le> b \<longleftrightarrow> SOURCE_PRIORITY a \<le> SOURCE_PRIORITY b"

definition less_observation_source :: "observation_source \<Rightarrow> observation_source \<Rightarrow> bool" where
  "a < b \<longleftrightarrow> SOURCE_PRIORITY a < SOURCE_PRIORITY b"

lemma source_priority_inj: "SOURCE_PRIORITY a = SOURCE_PRIORITY b \<Longrightarrow> a = b"
  by (cases a; cases b) auto

instance
  by standard (auto simp: less_eq_observation_source_def less_observation_source_def intro: source_priority_inj)

end

record 'v observed =
  ob_value :: 'v
  ob_source :: observation_source
  ob_at :: int

type_synonym ('v) registry = "(string, (string, 'v observed) jsmap) jsmap"

record 'v observation =
  on_serial :: string
  on_field :: string
  on_value :: "'v option"
  on_source :: observation_source
  on_at :: int

definition reg_set :: "'v registry \<Rightarrow> 'v observation \<Rightarrow> 'v registry" where
  "reg_set m e =
     (case on_value e of
        None \<Rightarrow> m
      | Some v \<Rightarrow>
          (let fields = (case map_of m (on_serial e) of None \<Rightarrow> [] | Some fs \<Rightarrow> fs);
               put = AList.update (on_serial e)
                 (AList.update (on_field e) \<lparr> ob_value = v, ob_source = on_source e, ob_at = on_at e \<rparr> fields) m in
           (case map_of fields (on_field e) of
              None \<Rightarrow> put
            | Some x \<Rightarrow>
                if ob_at x > on_at e \<or> ob_at x = on_at e \<and> SOURCE_PRIORITY (ob_source x) \<ge> SOURCE_PRIORITY (on_source e)
                then m else put)))"

definition reg_get :: "'v registry \<Rightarrow> string \<Rightarrow> string \<Rightarrow> 'v observed option" where
  "reg_get m serial field = (case map_of m serial of None \<Rightarrow> None | Some fs \<Rightarrow> map_of fs field)"

definition reg_snapshot :: "'v registry \<Rightarrow> string \<Rightarrow> (string \<times> 'v) list" where
  "reg_snapshot m serial =
     map (\<lambda>(k, x). (k, ob_value x)) (case map_of m serial of None \<Rightarrow> [] | Some fs \<Rightarrow> fs)"

text \<open>The rank an observation competes with, and the observations of one field.\<close>

definition rank :: "'v observation \<Rightarrow> int \<times> observation_source" where
  "rank e = (on_at e, on_source e)"

definition rank_of :: "'v observed \<Rightarrow> int \<times> observation_source" where
  "rank_of x = (ob_at x, ob_source x)"

definition beats :: "int \<times> observation_source \<Rightarrow> int \<times> observation_source \<Rightarrow> bool" where
  "beats a b \<longleftrightarrow> fst b < fst a \<or> fst b = fst a \<and> snd b < snd a"

definition on_target :: "string \<Rightarrow> string \<Rightarrow> 'v observation list \<Rightarrow> 'v observation list" where
  "on_target s f es = filter (\<lambda>e. on_serial e = s \<and> on_field e = f \<and> on_value e \<noteq> None) es"

text \<open>The specification: the first of the observations that no other beats.\<close>

definition keep_best :: "'v observed option \<Rightarrow> 'v observation \<Rightarrow> 'v observed option" where
  "keep_best best e =
     (let new = \<lparr> ob_value = the (on_value e), ob_source = on_source e, ob_at = on_at e \<rparr> in
      case best of None \<Rightarrow> Some new | Some x \<Rightarrow> if beats (rank e) (rank_of x) then Some new else Some x)"

lemma reg_get_set:
  "reg_get (reg_set m e) s f =
     (if on_serial e = s \<and> on_field e = f \<and> on_value e \<noteq> None then keep_best (reg_get m s f) e else reg_get m s f)"
proof (cases "on_value e")
  case None
  then show ?thesis by (simp add: reg_set_def)
next
  case (Some v)
  let ?new = "\<lparr> ob_value = v, ob_source = on_source e, ob_at = on_at e \<rparr>"
  have b: "\<not> (ob_at x > on_at e \<or> ob_at x = on_at e \<and> SOURCE_PRIORITY (ob_source x) \<ge> SOURCE_PRIORITY (on_source e))
      \<longleftrightarrow> beats (rank e) (rank_of x)" for x :: "'a observed"
    by (auto simp: beats_def rank_def rank_of_def less_observation_source_def)
  show ?thesis
    by (simp add: reg_set_def reg_get_def keep_best_def Let_def Some js_get_update b [symmetric] split: option.split)
qed

lemma reg_get_sets: "reg_get (foldl reg_set m es) s f = foldl keep_best (reg_get m s f) (on_target s f es)"
  by (induction es arbitrary: m) (auto simp: reg_get_set on_target_def)

lemma beats_trans: "beats a b \<Longrightarrow> beats b c \<Longrightarrow> beats a c"
  by (auto simp: beats_def)

lemma not_beats_trans: "\<not> beats a b \<Longrightarrow> \<not> beats b c \<Longrightarrow> \<not> beats a c"
  by (auto simp: beats_def)

lemma beats_total: "\<not> beats a b \<Longrightarrow> \<not> beats b a \<Longrightarrow> a = b"
  by (cases a; cases b) (auto simp: beats_def)

lemma rank_new [simp]: "rank_of \<lparr> ob_value = v, ob_source = on_source e, ob_at = on_at e \<rparr> = rank e"
  by (simp add: rank_def rank_of_def)

lemma keep_best_if:
  "keep_best (Some x) e = Some (if beats (rank e) (rank_of x)
     then \<lparr> ob_value = the (on_value e), ob_source = on_source e, ob_at = on_at e \<rparr> else x)"
  by (simp add: keep_best_def)

lemma keep_best_Some: "\<exists>x. foldl keep_best (Some x0) es = Some x"
  by (induction es arbitrary: x0) (auto simp: keep_best_def Let_def)

lemma keep_best_max:
  "foldl keep_best (Some x0) es = Some x \<Longrightarrow>
     \<not> beats (rank_of x0) (rank_of x) \<and> (\<forall>e\<in>set es. \<not> beats (rank e) (rank_of x)) \<and>
     (x = x0 \<or> (\<exists>e\<in>set es. x = \<lparr> ob_value = the (on_value e), ob_source = on_source e, ob_at = on_at e \<rparr>))"
proof (induction es arbitrary: x0)
  case Nil
  then show ?case by (simp add: beats_def)
next
  case (Cons e es)
  let ?new = "\<lparr> ob_value = the (on_value e), ob_source = on_source e, ob_at = on_at e \<rparr>"
  let ?x1 = "if beats (rank e) (rank_of x0) then ?new else x0"
  have step: "foldl keep_best (Some ?x1) es = Some x"
    using Cons.prems unfolding foldl.simps keep_best_if .
  note ih = Cons.IH [OF step]
  have "\<not> beats (rank_of x0) (rank_of ?x1)" "\<not> beats (rank e) (rank_of ?x1)"
    by (auto simp: beats_def)
  note b = not_beats_trans [OF this(1) conjunct1 [OF ih]] not_beats_trans [OF this(2) conjunct1 [OF ih]]
  with ih b show ?case by (auto split: if_splits)
qed

text \<open>What is retained for a field is one of the observations made of it, and none beats it.\<close>

lemma registry_best:
  assumes "reg_get (foldl reg_set [] es) s f = Some x"
  shows "\<exists>e\<in>set (on_target s f es). x = \<lparr> ob_value = the (on_value e), ob_source = on_source e, ob_at = on_at e \<rparr> \<and>
    rank_of x = rank e \<and> (\<forall>e'\<in>set (on_target s f es). \<not> beats (rank e') (rank e))"
proof -
  let ?es = "on_target s f es"
  have g: "foldl keep_best None ?es = Some x"
    using assms by (simp add: reg_get_sets) (simp add: reg_get_def)
  then obtain e0 es' where es: "?es = e0 # es'" by (cases ?es) auto
  let ?x0 = "\<lparr> ob_value = the (on_value e0), ob_source = on_source e0, ob_at = on_at e0 \<rparr>"
  have "foldl keep_best (Some ?x0) es' = Some x" using g by (simp add: es keep_best_def)
  from keep_best_max [OF this] show ?thesis by (auto simp: es)
qed

lemma registry_some: "reg_get (foldl reg_set [] es) s f = None \<longleftrightarrow> on_target s f es = []"
proof -
  have "foldl keep_best None xs = None \<longleftrightarrow> xs = []" for xs :: "'a observation list"
  proof (cases xs)
    case (Cons e es')
    obtain y where "foldl keep_best (Some \<lparr> ob_value = the (on_value e), ob_source = on_source e, ob_at = on_at e \<rparr>) es' = Some y"
      using keep_best_Some by blast
    then show ?thesis by (simp add: Cons keep_best_def)
  qed simp
  then show ?thesis by (simp add: reg_get_sets) (simp add: reg_get_def)
qed

section \<open>Properties\<close>

text \<open>C25: Push deliveries handled in time order are classified per event as one automaton would classify
  them: whatever other traffic shares the cache, the deliveries of one camera, event and type pulse the
  entity once per burst (a burst ends after a silence longer than the window) and retain the picture
  once per burst, also when only a later delivery carries it.\<close>
theorem deliveries_pulse_once:
  assumes "sorted (List.map dv_now es)"
  shows "decisions_on w k [] es = run_out (burst_step w) None (filter (\<lambda>e. event_key e = Some k) es)"
  by (rule dedup_refines_bursts) (use assms in \<open>auto simp: live_at_def known_def\<close>)

lemma deliveries_pulse_once_witness:
  "decisions_on 60000 ''A:1:null'' []
     [\<lparr> dv_cameraSerial = ''A'', dv_eventId = Some ''1'', dv_eventType = None, dv_hasPicture = False, dv_now = 0 \<rparr>,
      \<lparr> dv_cameraSerial = ''A'', dv_eventId = Some ''2'', dv_eventType = None, dv_hasPicture = False, dv_now = 5 \<rparr>,
      \<lparr> dv_cameraSerial = ''A'', dv_eventId = Some ''1'', dv_eventType = None, dv_hasPicture = True, dv_now = 9 \<rparr>] =
   [\<lparr> pd_handleState = True, pd_retainPicture = False \<rparr>, \<lparr> pd_handleState = False, pd_retainPicture = True \<rparr>]"
  by (subst deliveries_pulse_once) (simp_all add: event_key_def push_key_def burst_step_def Let_def)

text \<open>A cloud motion clock publishes every instant at most once and in strictly increasing order, each
  one within the freshness window of its receipt, and a reading that was quarantined as lying in the
  future is never published later, while receipt times do not go backward; the quarantine holds at
  most 32 instants.\<close>
theorem cloud_motion_published_once:
  assumes "mc_inv c"
  shows "sorted_wrt (<) (run_out mc_step c rs) \<and> mc_inv (run_state mc_step c rs) \<and>
    (\<forall>now t. held_back c now t \<and> sorted (now # List.map rd_receivedAt rs) \<longrightarrow> t \<notin> set (run_out mc_step c rs))"
  using mc_run_increasing [of c rs] held_back_run [of c _ _ rs] mc.run_inv [OF assms, of rs] by blast

lemma cloud_motion_published_once_witness:
  "sorted_wrt (<) (run_out mc_step mc_empty
      [\<lparr> rd_seconds = Some 1700000000, rd_pushPending = False, rd_receivedAt = 1700000000500 \<rparr>,
       \<lparr> rd_seconds = Some 1700000001, rd_pushPending = False, rd_receivedAt = 1700000002000 \<rparr>])"
  by (rule conjunct1 [OF cloud_motion_published_once]) (simp add: mc_inv_def mc_empty_def)

text \<open>The registry keeps for each device field an observation that was made of that field and that no
  other observation beats (newer, or equally new from a more authoritative source); it has none only
  when none was made; and with distinct ranks the retained value does not depend on the order in which
  inventory, push and PPCS observations arrive.\<close>
theorem registry_keeps_freshest:
  assumes "mset es = mset es'" "inj_on rank (set (on_target s f es))"
  shows "reg_get (foldl reg_set [] es) s f = reg_get (foldl reg_set [] es') s f \<and>
    (reg_get (foldl reg_set [] es) s f = None \<longleftrightarrow> on_target s f es = []) \<and>
    (\<forall>x. reg_get (foldl reg_set [] es) s f = Some x \<longrightarrow>
       (\<exists>e\<in>set (on_target s f es). ob_value x = the (on_value e) \<and> rank_of x = rank e \<and>
          (\<forall>e'\<in>set (on_target s f es). \<not> beats (rank e') (rank e))))"
proof -
  have t: "set (on_target s f es') = set (on_target s f es)"
    using mset_eq_setD [OF assms(1)] by (simp add: on_target_def)
  have best: "reg_get (foldl reg_set [] es) s f = Some x \<Longrightarrow>
    (\<exists>e\<in>set (on_target s f es). ob_value x = the (on_value e) \<and> rank_of x = rank e \<and>
      (\<forall>e'\<in>set (on_target s f es). \<not> beats (rank e') (rank e)))" for x
    using registry_best [of es s f x] by fastforce
  have eq: "reg_get (foldl reg_set [] es) s f = reg_get (foldl reg_set [] es') s f"
  proof (cases "on_target s f es = []")
    case True
    with t have "on_target s f es' = []" by simp
    with True registry_some [of es s f] registry_some [of es' s f] show ?thesis by simp
  next
    case False
    with t have "on_target s f es' \<noteq> []" by auto
    with False obtain x x' where x: "reg_get (foldl reg_set [] es) s f = Some x"
      "reg_get (foldl reg_set [] es') s f = Some x'"
      using registry_some [of es s f] registry_some [of es' s f] by auto
    obtain e e' where e: "e \<in> set (on_target s f es)" "e' \<in> set (on_target s f es)"
      "x = \<lparr> ob_value = the (on_value e), ob_source = on_source e, ob_at = on_at e \<rparr>"
      "x' = \<lparr> ob_value = the (on_value e'), ob_source = on_source e', ob_at = on_at e' \<rparr>"
      "\<not> beats (rank e') (rank e)" "\<not> beats (rank e) (rank e')"
      using registry_best [OF x(1)] registry_best [OF x(2)] unfolding t by blast
    from beats_total [OF e(5,6)] e(1,2) assms(2) have "e = e'" by (auto dest: inj_onD)
    with e x show ?thesis by simp
  qed
  with best registry_some [of es s f] show ?thesis by blast
qed

lemma registry_keeps_freshest_witness:
  "reg_get (foldl reg_set []
      [\<lparr> on_serial = ''A'', on_field = ''battery'', on_value = Some (40::int), on_source = Push, on_at = 7 \<rparr>,
       \<lparr> on_serial = ''A'', on_field = ''battery'', on_value = Some 55, on_source = Ppcs, on_at = 7 \<rparr>]) ''A'' ''battery'' =
   reg_get (foldl reg_set []
      [\<lparr> on_serial = ''A'', on_field = ''battery'', on_value = Some (55::int), on_source = Ppcs, on_at = 7 \<rparr>,
       \<lparr> on_serial = ''A'', on_field = ''battery'', on_value = Some 40, on_source = Push, on_at = 7 \<rparr>]) ''A'' ''battery''"
  using registry_keeps_freshest [of
      "[\<lparr> on_serial = ''A'', on_field = ''battery'', on_value = Some (40::int), on_source = Push, on_at = 7 \<rparr>,
        \<lparr> on_serial = ''A'', on_field = ''battery'', on_value = Some 55, on_source = Ppcs, on_at = 7 \<rparr>]"
      "[\<lparr> on_serial = ''A'', on_field = ''battery'', on_value = Some (55::int), on_source = Ppcs, on_at = 7 \<rparr>,
        \<lparr> on_serial = ''A'', on_field = ''battery'', on_value = Some 40, on_source = Push, on_at = 7 \<rparr>]"
      "''A''" "''battery''"]
  by (simp add: on_target_def rank_def)

end
