(* ===== verification/Recording_Cache.thy ===== *)
theory Recording_Cache
  imports Js_Map Machine
begin

text \<open>
  \<open>RecordingCache\<close> and \<open>recordingByteRange\<close> of storage/recording-cache.ts. The clock is an argument of each
  call. The eviction loop of \<open>put\<close> takes the first key of an insertion-ordered map; on an empty map with
  bytes still over the limit the code would spin for ever, which is the value None of \<open>evict\<close>, and the
  invariant shows it is not reached.
\<close>

section \<open>The cache\<close>

record rec_item =
  ri_data :: bytes
  ri_expiresAt :: int

record rec_cache =
  rc_items :: "(string, rec_item) jsmap"
  rc_total :: int

definition rc_new :: rec_cache where
  "rc_new = \<lparr> rc_items = [], rc_total = 0 \<rparr>"

definition rc_delete :: "string \<Rightarrow> rec_cache \<Rightarrow> rec_cache" where
  "rc_delete key c =
     (case map_of (rc_items c) key of
        None \<Rightarrow> c
      | Some item \<Rightarrow> \<lparr> rc_items = AList.delete key (rc_items c), rc_total = rc_total c - int (length (ri_data item)) \<rparr>)"

function evict :: "rec_cache \<Rightarrow> rec_cache option" where
  "evict c =
     (if rc_total c > 64 * 1024 * 1024 \<or> length (rc_items c) > 4 then
        (case rc_items c of [] \<Rightarrow> None | (key, _) # _ \<Rightarrow> evict (rc_delete key c))
      else Some c)"
  by pat_completeness auto
termination
  by (relation "measure (\<lambda>c. length (rc_items c))")
     (auto simp: rc_delete_def AList.delete_eq intro: le_imp_less_Suc length_filter_le)

declare evict.simps [simp del]

datatype put_result = PutThrows | PutSpins | PutDone rec_cache

definition rc_put :: "string \<Rightarrow> bytes \<Rightarrow> int \<Rightarrow> rec_cache \<Rightarrow> put_result" where
  "rc_put key data now c =
     (if data = [] \<or> length data > 32 * 1024 * 1024 then PutThrows
      else
        (let c = rc_delete key c;
             c = \<lparr> rc_items = AList.update key \<lparr> ri_data = data, ri_expiresAt = now + 10 * 60000 \<rparr> (rc_items c),
                   rc_total = rc_total c + int (length data) \<rparr> in
         case evict c of None \<Rightarrow> PutSpins | Some c' \<Rightarrow> PutDone c'))"

definition rc_get :: "string \<Rightarrow> int \<Rightarrow> rec_cache \<Rightarrow> rec_cache \<times> bytes option" where
  "rc_get key now c =
     (case map_of (rc_items c) key of
        None \<Rightarrow> (c, None)
      | Some item \<Rightarrow> if ri_expiresAt item \<le> now then (rc_delete key c, None) else (c, Some (ri_data item)))"

definition rc_clear :: "rec_cache \<Rightarrow> rec_cache" where
  "rc_clear c = \<lparr> rc_items = [], rc_total = 0 \<rparr>"

datatype rec_event = RecPut string bytes int | RecGet string int | RecClear

text \<open>Outputs: what each \<open>get\<close> returned. A throwing put changes nothing.\<close>

fun rec_step :: "rec_cache \<Rightarrow> rec_event \<Rightarrow> rec_cache \<times> (string \<times> int \<times> bytes option) list" where
  "rec_step c (RecPut k d now) = (case rc_put k d now c of PutDone c' \<Rightarrow> (c', []) | _ \<Rightarrow> (c, []))"
| "rec_step c (RecGet k now) = (case rc_get k now c of (c', r) \<Rightarrow> (c', [(k, now, r)]))"
| "rec_step c RecClear = (rc_clear c, [])"

section \<open>Invariant\<close>

definition item_ok :: "rec_item \<Rightarrow> bool" where
  "item_ok it \<longleftrightarrow> ri_data it \<noteq> [] \<and> length (ri_data it) \<le> 32 * 1024 * 1024"

definition rc_core :: "rec_cache \<Rightarrow> bool" where
  "rc_core c \<longleftrightarrow> js_wf (rc_items c) \<and> rc_total c = int (js_total (\<lambda>it. length (ri_data it)) (rc_items c)) \<and>
     (\<forall>k it. map_of (rc_items c) k = Some it \<longrightarrow> item_ok it)"

definition rc_inv :: "rec_cache \<Rightarrow> bool" where
  "rc_inv c \<longleftrightarrow> rc_core c \<and> length (rc_items c) \<le> 4 \<and> rc_total c \<le> 64 * 1024 * 1024"

lemma rc_delete_core: "rc_core c \<Longrightarrow> rc_core (rc_delete k c)"
  by (auto simp: rc_core_def rc_delete_def js_get_delete js.total_del split: option.splits if_splits)

lemma rc_delete_get:
  "map_of (rc_items (rc_delete k c)) k' = (if k' = k then None else map_of (rc_items c) k')"
  by (auto simp: rc_delete_def js_get_delete split: option.splits)

lemma rc_delete_le: "rc_total (rc_delete k c) \<le> rc_total c" "length (rc_items (rc_delete k c)) \<le> length (rc_items c)"
  by (auto simp: rc_delete_def AList.delete_eq split: option.splits intro: length_filter_le)

text \<open>Eviction removes oldest entries; it keeps the newest one, and it ends.\<close>

lemma evict_keeps:
  "rc_core c \<Longrightarrow> rc_items c = m @ [(k, it)] \<Longrightarrow>
     \<exists>c'. evict c = Some c' \<and> rc_inv c' \<and> map_of (rc_items c') k = Some it \<and>
       (\<forall>k' v. map_of (rc_items c') k' = Some v \<longrightarrow> map_of (rc_items c) k' = Some v)"
proof (induction m arbitrary: c)
  case Nil
  have it: "item_ok it" using Nil by (auto simp: rc_core_def)
  have "rc_total c = int (length (ri_data it))" using Nil by (simp add: rc_core_def)
  then have "\<not> (rc_total c > 64 * 1024 * 1024 \<or> length (rc_items c) > 4)"
    using it Nil.prems(2) by (auto simp: item_ok_def)
  then show ?case using Nil by (auto simp: evict.simps [of c] rc_inv_def)
next
  case (Cons e m)
  show ?case
  proof (cases "rc_total c > 64 * 1024 * 1024 \<or> length (rc_items c) > 4")
    case True
    obtain k0 it0 where e: "e = (k0, it0)" by (cases e)
    have ev: "evict c = evict (rc_delete k0 c)"
      using True Cons.prems(2) e by (simp add: evict.simps [of c])
    have wf: "js_wf (rc_items c)" using Cons.prems(1) by (simp add: rc_core_def)
    then have fresh: "k0 \<notin> fst ` set (m @ [(k, it)])" unfolding Cons.prems(2) e by simp
    have "AList.delete k0 (rc_items c) = m @ [(k, it)]"
      unfolding Cons.prems(2) e using fresh by (simp add: js_delete_absent map_of_eq_None_iff del: image_insert)
    then have items: "rc_items (rc_delete k0 c) = m @ [(k, it)]"
      using Cons.prems(2) e by (simp add: rc_delete_def)
    from Cons.IH [OF rc_delete_core [OF Cons.prems(1)] items] obtain c' where c':
      "evict (rc_delete k0 c) = Some c'" "rc_inv c'" "map_of (rc_items c') k = Some it"
      "\<forall>k' v. map_of (rc_items c') k' = Some v \<longrightarrow> map_of (rc_items (rc_delete k0 c)) k' = Some v" by blast
    moreover have "map_of (rc_items c) k' = Some v" if "map_of (rc_items c') k' = Some v" for k' v
      using c'(4) that by (metis rc_delete_get option.distinct(1))
    ultimately show ?thesis using ev by auto
  next
    case False
    have "map_of (rc_items c) k = Some it"
      using js_in_set [of "rc_items c" k it] Cons.prems by (simp add: rc_core_def)
    with False Cons.prems(1) show ?thesis by (auto simp: evict.simps [of c] rc_inv_def)
  qed
qed

definition accepted :: "bytes \<Rightarrow> bool" where
  "accepted d \<longleftrightarrow> d \<noteq> [] \<and> length d \<le> 32 * 1024 * 1024"

lemma rc_put_done:
  assumes "rc_inv c" "accepted data"
  shows "\<exists>c'. rc_put k data now c = PutDone c' \<and> rc_inv c' \<and>
    map_of (rc_items c') k = Some \<lparr> ri_data = data, ri_expiresAt = now + 600000 \<rparr> \<and>
    (\<forall>k' v. map_of (rc_items c') k' = Some v \<longrightarrow> k' \<noteq> k \<longrightarrow> map_of (rc_items c) k' = Some v)"
proof -
  let ?it = "\<lparr> ri_data = data, ri_expiresAt = now + 600000 \<rparr>"
  let ?d = "rc_delete k c"
  let ?c = "\<lparr> rc_items = AList.update k ?it (rc_items ?d), rc_total = rc_total ?d + int (length data) \<rparr>"
  have a: "data \<noteq> []" "length data \<le> 32 * 1024 * 1024" using assms(2) by (simp_all add: accepted_def)
  have d: "rc_core ?d" using assms(1) by (simp add: rc_inv_def rc_delete_core)
  have fresh: "map_of (rc_items ?d) k = None" by (simp add: rc_delete_get)
  have items: "rc_items ?c = rc_items ?d @ [(k, ?it)]" by (simp add: js_update_fresh [OF fresh])
  have core: "rc_core ?c"
    using d a fresh by (auto simp: rc_core_def item_ok_def js_get_update js_total_fresh)
  obtain c' where c': "evict ?c = Some c'" "rc_inv c'" "map_of (rc_items c') k = Some ?it"
    "\<forall>k' v. map_of (rc_items c') k' = Some v \<longrightarrow> map_of (rc_items ?c) k' = Some v"
    using evict_keeps [OF core items] by blast
  have "rc_put k data now c = PutDone c'" using a c'(1) by (simp add: rc_put_def Let_def)
  moreover have "map_of (rc_items c) k' = Some v" if "map_of (rc_items c') k' = Some v" "k' \<noteq> k" for k' v
  proof -
    have "map_of (rc_items ?c) k' = Some v" using c'(4) that(1) by blast
    with that(2) show ?thesis by (simp add: js_get_update rc_delete_get)
  qed
  ultimately show ?thesis using c'(2,3) by blast
qed

text \<open>The specification: the last accepted put of each key since the last clear.\<close>

fun last_puts :: "(string \<Rightarrow> rec_item option) \<Rightarrow> rec_event list \<Rightarrow> string \<Rightarrow> rec_item option" where
  "last_puts p [] = p"
| "last_puts p (RecPut k d now # es) =
     last_puts (if accepted d then p(k \<mapsto> \<lparr> ri_data = d, ri_expiresAt = now + 600000 \<rparr>) else p) es"
| "last_puts p (RecGet k now # es) = last_puts p es"
| "last_puts p (RecClear # es) = last_puts (\<lambda>_. None) es"

definition held_in :: "rec_cache \<Rightarrow> (string \<Rightarrow> rec_item option) \<Rightarrow> bool" where
  "held_in c p \<longleftrightarrow> (\<forall>k v. map_of (rc_items c) k = Some v \<longrightarrow> p k = Some v)"

lemma rc_put_refused: "\<not> accepted d \<Longrightarrow> rc_put k d now c = PutThrows"
  by (auto simp: rc_put_def accepted_def)

lemma rec_step_inv: "rc_inv c \<Longrightarrow> rc_inv (fst (rec_step c e))"
proof (cases e)
  case (RecPut k d now)
  assume i: "rc_inv c"
  show ?thesis
  proof (cases "accepted d")
    case True
    with i obtain c' where "rc_put k d now c = PutDone c'" "rc_inv c'"
      using rc_put_done by blast
    with RecPut show ?thesis by simp
  qed (use i RecPut rc_put_refused in simp)
next
  case (RecGet k now)
  assume "rc_inv c"
  with RecGet rc_delete_le [of k c] show ?thesis
    by (auto simp: rc_inv_def rc_get_def rc_delete_core split: option.splits)
qed (simp add: rc_inv_def rc_core_def rc_clear_def)

interpretation rec: invariant_machine rec_step rc_inv "\<lambda>_. True"
  by unfold_locales (rule rec_step_inv)

lemma rec_step_within:
  assumes "rc_inv c" "held_in c p"
  shows "held_in (fst (rec_step c e)) (last_puts p [e])"
proof (cases e)
  case (RecPut k d now)
  show ?thesis
  proof (cases "accepted d")
    case True
    then obtain c' where "rc_put k d now c = PutDone c'"
        "map_of (rc_items c') k = Some \<lparr> ri_data = d, ri_expiresAt = now + 600000 \<rparr>"
        "\<And>k' v. map_of (rc_items c') k' = Some v \<Longrightarrow> k' \<noteq> k \<Longrightarrow> map_of (rc_items c) k' = Some v"
      using rc_put_done [OF assms(1), of d k now] by blast
    with RecPut assms(2) True show ?thesis by (simp add: held_in_def)
  qed (use assms RecPut rc_put_refused in simp)
next
  case (RecGet k now)
  with assms(2) show ?thesis
    by (auto simp: held_in_def rc_get_def rc_delete_get split: option.splits if_splits)
qed (simp add: held_in_def rc_clear_def)

lemma last_puts_append: "last_puts p (es @ fs) = last_puts (last_puts p es) fs"
  by (induction p es rule: last_puts.induct) auto

lemma rec_run_within: "rc_inv c \<Longrightarrow> held_in c p \<Longrightarrow> held_in (run_state rec_step c es) (last_puts p es)"
proof (induction es arbitrary: c p)
  case (Cons e es)
  have "last_puts p (e # es) = last_puts (last_puts p [e]) es"
    using last_puts_append [of p "[e]" es] by simp
  with Cons.IH [OF rec_step_inv [OF Cons.prems(1)] rec_step_within [OF Cons.prems]] show ?case
    by (simp only: run_state_Cons)
qed simp

lemma rc_new_inv: "rc_inv rc_new"
  by (simp add: rc_inv_def rc_core_def rc_new_def)

section \<open>Byte ranges\<close>

text \<open>The expression \<open>^bytes=[0-9]*-[0-9]*$\<close>, and the two parts around its only dash. A number of digits above
  the largest safe integer is rounded to a double that is not safe either.\<close>

definition range_shape :: "string \<Rightarrow> bool" where
  "range_shape v \<longleftrightarrow>
     (let rest = dropWhile is_digit (drop 6 v) in
      take 6 v = ''bytes='' \<and> rest \<noteq> [] \<and> hd rest = CHR ''-'' \<and> list_all is_digit (tl rest))"

definition recordingByteRange :: "string \<Rightarrow> int \<Rightarrow> (int \<times> int) option" where
  "recordingByteRange v sz =
     (if length v > 64 \<or> \<not> range_shape v \<or> sz \<le> 0 then None
      else
        (let left = takeWhile is_digit (drop 6 v); right = tl (dropWhile is_digit (drop 6 v)) in
         if left = [] \<and> right = [] then None
         else if left = [] then
           (let suffix = int (digits_value right) in
            if \<not> safe_int suffix \<or> suffix \<le> 0 then None
            else Some (max 0 (sz - suffix), sz - 1))
         else
           (let start = int (digits_value left);
                end' = (if right = [] then sz - 1 else int (digits_value right)) in
            if \<not> safe_int start \<or> \<not> safe_int end' \<or> start \<ge> sz \<or> end' < start then None
            else Some (start, min end' (sz - 1)))))"

lemma range_parts:
  assumes "list_all is_digit a" "list_all is_digit b"
  shows "range_shape (''bytes='' @ a @ ''-'' @ b)"
    "takeWhile is_digit (a @ ''-'' @ b) = a" "dropWhile is_digit (a @ ''-'' @ b) = CHR ''-'' # b"
proof -
  have d: "\<not> is_digit CHR ''-''" by (simp add: is_digit_def)
  have a: "\<forall>x\<in>set a. is_digit x" using assms(1) by (simp add: list_all_iff)
  show "takeWhile is_digit (a @ ''-'' @ b) = a" "dropWhile is_digit (a @ ''-'' @ b) = CHR ''-'' # b"
    using a d by (simp_all add: takeWhile_append2 dropWhile_append2)
  then show "range_shape (''bytes='' @ a @ ''-'' @ b)"
    using assms(2) by (simp add: range_shape_def Let_def)
qed

section \<open>Properties\<close>

text \<open>C30: In every sequence of puts, gets and clears the cache stays within four clips and 64 MiB with an exact
  byte count and never spins while evicting; a get answers with bytes only if they were the last
  accepted put of that key since the last clear and less than ten minutes old; and the clip just put
  is always there, whatever had to be evicted for it.\<close>
theorem recording_cache_correct:
  "rc_inv (run_state rec_step rc_new es) \<and>
   (\<forall>k d now. rc_put k d now (run_state rec_step rc_new es) \<noteq> PutSpins) \<and>
   (\<forall>k now data. snd (rc_get k now (run_state rec_step rc_new es)) = Some data \<longrightarrow>
      (\<exists>it. last_puts (\<lambda>_. None) es k = Some it \<and> ri_data it = data \<and> now < ri_expiresAt it)) \<and>
   (\<forall>k d t now. accepted d \<and> now < t + 600000 \<longrightarrow>
      snd (rc_get k now (run_state rec_step rc_new (es @ [RecPut k d t]))) = Some d)"
proof -
  let ?c = "run_state rec_step rc_new es"
  have i: "rc_inv ?c" by (rule rec.run_inv [OF rc_new_inv]) simp
  have h: "held_in ?c (last_puts (\<lambda>_. None) es)"
    by (rule rec_run_within [OF rc_new_inv]) (simp add: held_in_def rc_new_def)
  have put: "\<exists>c'. rc_put k d t ?c = PutDone c' \<and>
      map_of (rc_items c') k = Some \<lparr> ri_data = d, ri_expiresAt = t + 600000 \<rparr>" if "accepted d" for k d t
    using rc_put_done [OF i that] by blast
  have "rc_put k d t ?c \<noteq> PutSpins" for k d t
    using put [of d k t] rc_put_refused [of d k t ?c] by (cases "accepted d") auto
  moreover have "\<exists>it. last_puts (\<lambda>_. None) es k = Some it \<and> ri_data it = data \<and> now < ri_expiresAt it"
    if "snd (rc_get k now ?c) = Some data" for k now data
    using h that by (fastforce simp: rc_get_def held_in_def split: option.splits if_splits)
  moreover have "snd (rc_get k now (run_state rec_step rc_new (es @ [RecPut k d t]))) = Some d"
    if "accepted d" "now < t + 600000" for k d t now
    using put [OF that(1), of k t] that(2) by (auto simp: run_append rc_get_def)
  ultimately show ?thesis using i by blast
qed

lemma recording_cache_correct_witness:
  "snd (rc_get ''k'' 5 (run_state rec_step rc_new ([] @ [RecPut ''k'' [1, 2] 0]))) = Some [1, 2]"
proof -
  have "accepted [1, 2] \<and> 5 < (0 :: int) + 600000" by (simp add: accepted_def)
  with recording_cache_correct [of "[]"] show ?thesis by blast
qed

text \<open>A byte range is accepted only as an interval inside the clip; the forms
  \<open>bytes=a-b\<close>, \<open>bytes=a-\<close> and \<open>bytes=-n\<close> with decimal numbers mean exactly the bytes a to b cut
  at the end, the bytes from a on and the last n bytes, and the unsatisfiable ones are refused.\<close>
theorem byte_range_exact:
  "(\<forall>v s e. recordingByteRange v sz = Some (s, e) \<longrightarrow> 0 \<le> s \<and> s \<le> e \<and> e < sz) \<and>
   (\<forall>a b. length (nat_str a) + length (nat_str b) \<le> 57 \<and> 0 < sz \<and> safe_int (int a) \<and> safe_int (int b) \<longrightarrow>
      recordingByteRange (''bytes='' @ nat_str a @ ''-'' @ nat_str b) sz =
        (if int a < sz \<and> a \<le> b then Some (int a, min (int b) (sz - 1)) else None)) \<and>
   (\<forall>a. length (nat_str a) \<le> 57 \<and> safe_int (int a) \<and> safe_int (sz - 1) \<longrightarrow>
      recordingByteRange (''bytes='' @ nat_str a @ ''-'') sz = (if int a < sz then Some (int a, sz - 1) else None)) \<and>
   (\<forall>n. length (nat_str n) \<le> 57 \<and> safe_int (int n) \<and> 0 < sz \<longrightarrow>
      recordingByteRange (''bytes=-'' @ nat_str n) sz = (if n = 0 then None else Some (max 0 (sz - int n), sz - 1)))"
proof -
  have inside: "0 \<le> s \<and> s \<le> e \<and> e < sz" if "recordingByteRange v sz = Some (s, e)" for v s e
    using that by (auto simp: recordingByteRange_def Let_def split: if_splits)
  have two: "recordingByteRange (''bytes='' @ nat_str a @ ''-'' @ nat_str b) sz =
      (if int a < sz \<and> a \<le> b then Some (int a, min (int b) (sz - 1)) else None)"
    if "length (nat_str a) + length (nat_str b) \<le> 57" "0 < sz" "safe_int (int a)" "safe_int (int b)" for a b
    using that range_parts [of "nat_str a" "nat_str b"]
    by (simp add: recordingByteRange_def Let_def nat_str_digits digits_value_nat_str nat_str_not_Nil)
  have one: "recordingByteRange (''bytes='' @ nat_str a @ ''-'') sz = (if int a < sz then Some (int a, sz - 1) else None)"
    if "length (nat_str a) \<le> 57" "safe_int (int a)" "safe_int (sz - 1)" for a
    using that range_parts [of "nat_str a" "[]"]
    by (simp add: recordingByteRange_def Let_def nat_str_digits digits_value_nat_str nat_str_not_Nil)
  have last_n: "recordingByteRange (''bytes=-'' @ nat_str n) sz = (if n = 0 then None else Some (max 0 (sz - int n), sz - 1))"
    if "length (nat_str n) \<le> 57" "safe_int (int n)" "0 < sz" for n
    using that range_parts [of "[]" "nat_str n"]
    by (simp add: recordingByteRange_def Let_def nat_str_digits digits_value_nat_str nat_str_not_Nil)
  show ?thesis using inside two one last_n by blast
qed

lemma byte_range_exact_witness:
  "recordingByteRange (''bytes='' @ nat_str 2 @ ''-'' @ nat_str 90) 10 = Some (2, 9)"
proof -
  have "length (nat_str 2) + length (nat_str 90) \<le> 57 \<and> (0 :: int) < 10 \<and> safe_int (int 2) \<and> safe_int (int 90)"
    by (simp add: nat_str.simps safe_int_def max_safe_integer_def)
  with byte_range_exact [of 10] show ?thesis by fastforce
qed

end
