(* ===== verification/Media_Start.thy ===== *)
theory Media_Start
  imports Machine
begin

text \<open>
  \<open>PpcsMediaStart\<close> (stream/ppcs-media-start.ts): the tracker that repeats a startup datagram every 150 ms
  until it is acknowledged, answered, expired, stopped or closed. Its outputs are the packets handed to
  the owner's sender. The clock is an argument; the repeating timer is present or absent, and its
  callback is an event that only a present timer can raise.
\<close>

record pending_start =
  st_sequence :: int
  st_packet :: bytes
  st_deadline :: int

record media_start =
  ms_current :: "pending_start option"
  ms_displaced :: "pending_start option"
  ms_timer :: bool
  ms_closed :: bool
  ms_acknowledged :: nat
  ms_retransmitted :: nat
  ms_expired :: nat

definition ms_new :: media_start where
  "ms_new = \<lparr> ms_current = None, ms_displaced = None, ms_timer = False, ms_closed = False,
     ms_acknowledged = 0, ms_retransmitted = 0, ms_expired = 0 \<rparr>"

definition ms_pending :: "media_start \<Rightarrow> bool" where
  "ms_pending s \<longleftrightarrow> ms_current s \<noteq> None \<or> ms_displaced s \<noteq> None"

definition ms_retireTimer :: "media_start \<Rightarrow> media_start" where
  "ms_retireTimer s = (if ms_pending s then s else s\<lparr>ms_timer := False\<rparr>)"

datatype start_result = StartThrows | StartRefused | StartSent media_start

definition ms_start :: "int \<Rightarrow> bytes \<Rightarrow> int \<Rightarrow> media_start \<Rightarrow> start_result" where
  "ms_start sq packet now s =
     (if ms_closed s \<or> (ms_current s \<noteq> None \<and> ms_displaced s \<noteq> None) then StartRefused
      else if sq < 0 \<or> sq > 65535 \<or> length packet > 65539 then StartThrows
      else
        (let s = (if ms_current s \<noteq> None then s\<lparr>ms_displaced := ms_current s\<rparr> else s);
             entry = \<lparr> st_sequence = sq, st_packet = packet, st_deadline = now + 3000 \<rparr> in
         StartSent (s\<lparr>ms_current := Some entry, ms_timer := True\<rparr>)))"

fun has_sequence :: "int \<Rightarrow> pending_start option \<Rightarrow> bool" where
  "has_sequence sq None = False"
| "has_sequence sq (Some p) = (st_sequence p = sq)"

definition ms_acknowledge :: "int \<Rightarrow> media_start \<Rightarrow> media_start" where
  "ms_acknowledge sq s =
     ms_retireTimer
       (if has_sequence sq (ms_current s) then s\<lparr>ms_current := None, ms_acknowledged := ms_acknowledged s + 1\<rparr>
        else if has_sequence sq (ms_displaced s) then s\<lparr>ms_displaced := None, ms_acknowledged := ms_acknowledged s + 1\<rparr>
        else s)"

definition ms_mediaReceived :: "media_start \<Rightarrow> media_start" where
  "ms_mediaReceived s = ms_retireTimer (s\<lparr>ms_current := None, ms_displaced := None\<rparr>)"

definition ms_stop :: "media_start \<Rightarrow> media_start" where
  "ms_stop s = ms_retireTimer (s\<lparr>ms_current := None\<rparr>)"

definition ms_close :: "media_start \<Rightarrow> media_start" where
  "ms_close s = ms_mediaReceived (s\<lparr>ms_closed := True\<rparr>)"

definition ms_retry_displaced :: "int \<Rightarrow> media_start \<Rightarrow> media_start \<times> bytes list" where
  "ms_retry_displaced now s =
     (case ms_displaced s of
        None \<Rightarrow> (s, [])
      | Some p \<Rightarrow> if now \<ge> st_deadline p then (s\<lparr>ms_displaced := None, ms_expired := ms_expired s + 1\<rparr>, [])
                  else (s\<lparr>ms_retransmitted := ms_retransmitted s + 1\<rparr>, [st_packet p]))"

definition ms_retry_current :: "int \<Rightarrow> media_start \<Rightarrow> media_start \<times> bytes list" where
  "ms_retry_current now s =
     (case ms_current s of
        None \<Rightarrow> (s, [])
      | Some p \<Rightarrow> if now \<ge> st_deadline p then (s\<lparr>ms_current := None, ms_expired := ms_expired s + 1\<rparr>, [])
                  else (s\<lparr>ms_retransmitted := ms_retransmitted s + 1\<rparr>, [st_packet p]))"

definition ms_retry :: "int \<Rightarrow> media_start \<Rightarrow> media_start \<times> bytes list" where
  "ms_retry now s =
     (if ms_closed s then (s, [])
      else (let (s1, o1) = ms_retry_displaced now s; (s2, o2) = ms_retry_current now s1 in
            (ms_retireTimer s2, o1 @ o2)))"

datatype ms_event = MsStart int bytes int | MsAck int | MsMedia | MsStop | MsClose | MsTick int

fun ms_step :: "media_start \<Rightarrow> ms_event \<Rightarrow> media_start \<times> bytes list" where
  "ms_step s (MsStart sq p now) = (case ms_start sq p now s of StartSent s' \<Rightarrow> (s', [p]) | _ \<Rightarrow> (s, []))"
| "ms_step s (MsAck sq) = (ms_acknowledge sq s, [])"
| "ms_step s MsMedia = (ms_mediaReceived s, [])"
| "ms_step s MsStop = (ms_stop s, [])"
| "ms_step s MsClose = (ms_close s, [])"
| "ms_step s (MsTick now) = (if ms_timer s then ms_retry now s else (s, []))"

section \<open>Invariant and silence\<close>

definition start_ok :: "pending_start option \<Rightarrow> bool" where
  "start_ok p = (case p of None \<Rightarrow> True | Some p \<Rightarrow> 0 \<le> st_sequence p \<and> st_sequence p \<le> 65535 \<and> length (st_packet p) \<le> 65539)"

definition ms_inv :: "media_start \<Rightarrow> bool" where
  "ms_inv s \<longleftrightarrow> (ms_timer s \<longleftrightarrow> ms_pending s) \<and> (ms_closed s \<longrightarrow> \<not> ms_pending s) \<and>
     start_ok (ms_current s) \<and> start_ok (ms_displaced s)"

lemmas ms_ops = ms_start_def ms_acknowledge_def ms_mediaReceived_def ms_stop_def ms_close_def ms_retry_def
  ms_retry_displaced_def ms_retry_current_def ms_retireTimer_def ms_pending_def ms_inv_def start_ok_def

lemma ms_step_inv: "ms_inv s \<Longrightarrow> ms_inv (fst (ms_step s e))"
  by (cases e) (auto simp: ms_ops Let_def split: option.splits if_splits)

lemma ms_step_out: "ms_inv s \<Longrightarrow> w \<in> set (snd (ms_step s e)) \<Longrightarrow>
    \<not> ms_closed s \<and> length w \<le> 65539"
  by (cases e) (auto simp: ms_ops Let_def split: option.splits if_splits)

interpretation ms: output_machine ms_step ms_inv "\<lambda>_. True" "\<lambda>w. length w \<le> 65539"
  by unfold_locales (simp_all add: ms_step_inv ms_step_out)

lemma ms_closed_stays: "ms_closed s \<Longrightarrow> ms_closed (fst (ms_step s e))"
  by (cases e) (auto simp: ms_ops Let_def split: option.splits if_splits)

lemma ms_closed_silent: "ms_inv s \<Longrightarrow> ms_closed s \<Longrightarrow> run_out ms_step s es = []"
proof (induction es arbitrary: s)
  case (Cons e es)
  have "w \<notin> set (snd (ms_step s e))" for w using ms_step_out [OF Cons.prems(1), of w e] Cons.prems(2) by blast
  then have "snd (ms_step s e) = []" by (metis list.set_intros(1) neq_Nil_conv)
  with Cons.IH [OF ms_step_inv [OF Cons.prems(1)] ms_closed_stays [OF Cons.prems(2)]] show ?case
    by (simp add: run_out_Cons del: run.simps)
qed simp

lemma ms_new_inv: "ms_inv ms_new"
  by (simp add: ms_ops ms_new_def)

definition outstanding :: "media_start \<Rightarrow> pending_start list" where
  "outstanding s = (case ms_displaced s of None \<Rightarrow> [] | Some p \<Rightarrow> [p]) @ (case ms_current s of None \<Rightarrow> [] | Some p \<Rightarrow> [p])"

lemma ms_tick_outstanding:
  assumes "ms_inv s"
  shows "snd (ms_step s (MsTick now)) = map st_packet (filter (\<lambda>p. now < st_deadline p) (outstanding s))"
    "outstanding (fst (ms_step s (MsTick now))) = filter (\<lambda>p. now < st_deadline p) (outstanding s)"
  using assms by (auto simp: ms_ops outstanding_def Let_def split: option.splits if_splits)

lemma ms_ack_outstanding:
  assumes "distinct (map st_sequence (outstanding s))"
  shows "outstanding (fst (ms_step s (MsAck sq))) = filter (\<lambda>p. st_sequence p \<noteq> sq) (outstanding s)"
  using assms by (auto simp: ms_ops outstanding_def Let_def split: option.splits if_splits)

lemma timer_outstanding: "ms_inv s \<Longrightarrow> ms_timer s \<longleftrightarrow> outstanding s \<noteq> []"
  by (auto simp: ms_ops outstanding_def split: option.splits)

section \<open>Property\<close>

text \<open>C31: In every reachable state of the startup tracker the repair timer runs exactly while one or two
  datagrams are outstanding; each tick retransmits exactly the outstanding packets before their
  deadline, byte for byte in the order they were started, and gives up the others; an acknowledgement
  retires exactly its own sequence; and after close nothing is ever sent again.\<close>
theorem media_start_repair:
  fixes es :: "ms_event list"
  defines "s \<equiv> run_state ms_step ms_new es"
  shows "(ms_timer s \<longleftrightarrow> outstanding s \<noteq> []) \<and> length (outstanding s) \<le> 2 \<and>
    (\<forall>w\<in>set (run_out ms_step ms_new es). length w \<le> 65539) \<and>
    (\<forall>now. snd (ms_step s (MsTick now)) = map st_packet (filter (\<lambda>p. now < st_deadline p) (outstanding s)) \<and>
       outstanding (fst (ms_step s (MsTick now))) = filter (\<lambda>p. now < st_deadline p) (outstanding s)) \<and>
    (distinct (map st_sequence (outstanding s)) \<longrightarrow>
       (\<forall>sq. outstanding (fst (ms_step s (MsAck sq))) = filter (\<lambda>p. st_sequence p \<noteq> sq) (outstanding s))) \<and>
    (\<forall>fs. run_out ms_step (fst (ms_step s MsClose)) fs = [])"
proof -
  have i: "ms_inv s" unfolding s_def by (rule ms.run_inv [OF ms_new_inv]) simp
  have c: "ms_closed (fst (ms_step s MsClose))" by (simp add: ms_ops)
  have l: "length (outstanding s) \<le> 2" by (simp add: outstanding_def split: option.split)
  show ?thesis
    using timer_outstanding [OF i] l ms_tick_outstanding [OF i] ms_ack_outstanding [of s]
      ms_closed_silent [OF ms_step_inv [OF i] c] ms.run_good [OF ms_new_inv, of es] by blast
qed

lemma media_start_repair_witness:
  "let s = run_state ms_step ms_new [MsStart 3 [1] 0, MsStart 4 [2] 100] in
   outstanding (fst (ms_step s (MsAck 3))) = filter (\<lambda>p. st_sequence p \<noteq> 3) (outstanding s) \<and>
   map st_sequence (outstanding s) = [3, 4] \<and> snd (ms_step s (MsTick 3050)) = [[2]]"
proof -
  let ?s = "run_state ms_step ms_new [MsStart 3 [1] 0, MsStart 4 [2] 100]"
  have o: "map st_sequence (outstanding ?s) = [3, 4]" "snd (ms_step ?s (MsTick 3050)) = [[2]]"
    by (simp_all add: ms_ops ms_new_def outstanding_def)
  have "distinct (map st_sequence (outstanding ?s))" by (simp only: o) simp
  with media_start_repair [of "[MsStart 3 [1] 0, MsStart 4 [2] 100]"] o show ?thesis unfolding Let_def by blast
qed

end
