(* ===== verification/Doorbell_Rtp.thy ===== *)
theory Doorbell_Rtp
  imports Machine
begin

unbundle bit_operations_syntax

text \<open>
  \<open>DoorbellH264Assembler\<close> (stream/doorbell-rtp.ts): H.264 over RTP with single NAL units, STAP-A aggregates
  and FU-A fragments. Outputs are the discontinuity callback and the returned access units. The
  specification is a sender that packs a list of NAL units in any mixture of the three forms.
\<close>

section \<open>Assembler\<close>

record rtp_packet =
  rp_sequence :: int
  rp_timestamp :: int
  rp_marker :: bool
  rp_payload :: bytes

definition START :: bytes where "START = [0, 0, 0, 1]"
definition MAX_UNIT_BYTES :: nat where "MAX_UNIT_BYTES = 4 * 1024 * 1024"
definition MAX_NALS :: nat where "MAX_NALS = 256"

record rtp =
  rt_sequence :: "int option"
  rt_timestamp :: "int option"
  rt_discard :: bool
  rt_nals :: "bytes list"
  rt_fragment :: "bytes list option"
  rt_fragmentType :: byte
  rt_bytes :: nat

datatype rtp_out = RtpLost | RtpUnit bytes

definition rt_new :: rtp where
  "rt_new = \<lparr> rt_sequence = None, rt_timestamp = None, rt_discard = False, rt_nals = [], rt_fragment = None,
     rt_fragmentType = 0, rt_bytes = 0 \<rparr>"

definition rt_reset :: "rtp \<Rightarrow> rtp" where
  "rt_reset s = s\<lparr>rt_discard := False, rt_nals := [], rt_fragment := None, rt_bytes := 0\<rparr>"

definition rt_clear :: "rtp \<Rightarrow> rtp" where
  "rt_clear s = rt_reset (s\<lparr>rt_sequence := None, rt_timestamp := None\<rparr>)"

definition rt_poison :: "rtp \<Rightarrow> rtp \<times> rtp_out list" where
  "rt_poison s =
     (s\<lparr>rt_discard := True, rt_nals := [], rt_fragment := None, rt_bytes := 0\<rparr>, if rt_discard s then [] else [RtpLost])"

definition rt_append :: "bytes \<Rightarrow> rtp \<Rightarrow> rtp \<times> rtp_out list" where
  "rt_append nal s =
     (let s = s\<lparr>rt_bytes := rt_bytes s + length nal\<rparr> in
      if rt_bytes s > MAX_UNIT_BYTES \<or> length (rt_nals s) \<ge> MAX_NALS then rt_poison s
      else (s\<lparr>rt_nals := rt_nals s @ [nal]\<rparr>, []))"

text \<open>\<open>length\<close>, bit 7 and type of a NAL header byte.\<close>

definition nal_type :: "byte \<Rightarrow> nat" where
  "nal_type b = unat (b AND 31)"

definition forbidden :: "byte \<Rightarrow> bool" where
  "forbidden b \<longleftrightarrow> b AND 0x80 \<noteq> 0"

text \<open>The STAP-A loop over the bytes after the aggregate header.\<close>

function rt_aggregate :: "bytes \<Rightarrow> rtp \<Rightarrow> rtp \<times> rtp_out list" where
  "rt_aggregate rest s =
     (if rest = [] \<or> rt_discard s then (s, [])
      else if length rest < 2 then rt_poison s
      else
        (let n = u16be rest 0; body = drop 2 rest in
         if n = 0 \<or> length body < n then rt_poison s
         else
           (let nal = take n body; ty = nal_type (nal ! 0) in
            if forbidden (nal ! 0) \<or> ty < 1 \<or> ty > 23 then rt_poison s
            else (let (s1, o1) = rt_append nal s; (s2, o2) = rt_aggregate (drop n body) s1 in (s2, o1 @ o2)))))"
  by pat_completeness auto
termination
  by (relation "measure (\<lambda>(rest, s). length rest)") auto

declare rt_aggregate.simps [simp del]

definition rt_fua :: "bytes \<Rightarrow> rtp \<Rightarrow> rtp \<times> rtp_out list" where
  "rt_fua payload s =
     (let header = payload ! 1; start = (header AND 0x80 \<noteq> 0); fin = (header AND 0x40 \<noteq> 0); ty = header AND 31;
          whole = (payload ! 0 AND 0x60) OR ty in
      if header AND 0x20 \<noteq> 0 \<or> unat ty < 1 \<or> unat ty > 23 \<or> start \<and> fin then rt_poison s
      else if start then
        (if rt_fragment s \<noteq> None then rt_poison s
         else (s\<lparr>rt_fragmentType := whole, rt_fragment := Some [[whole], drop 2 payload],
                 rt_bytes := rt_bytes s + (length payload - 1)\<rparr>, []))
      else
        (case rt_fragment s of
           None \<Rightarrow> rt_poison s
         | Some pieces \<Rightarrow>
             if rt_fragmentType s \<noteq> whole then rt_poison s
             else
               (let pieces = pieces @ [drop 2 payload]; s = s\<lparr>rt_bytes := rt_bytes s + (length payload - 2)\<rparr> in
                if fin then (s\<lparr>rt_fragment := None, rt_nals := rt_nals s @ [concat pieces]\<rparr>, [])
                else (s\<lparr>rt_fragment := Some pieces\<rparr>, []))))"

definition rt_payload :: "bytes \<Rightarrow> rtp \<Rightarrow> rtp \<times> rtp_out list" where
  "rt_payload payload s =
     (let kind = nal_type (payload ! 0) in
      if 1 \<le> kind \<and> kind \<le> 23 then (if rt_fragment s \<noteq> None then rt_poison s else rt_append payload s)
      else if kind = 24 then (if rt_fragment s \<noteq> None then rt_poison s else rt_aggregate (drop 1 payload) s)
      else if kind = 28 \<and> length payload > 2 then rt_fua payload s
      else rt_poison s)"

definition rt_over :: "rtp \<Rightarrow> bool" where
  "rt_over s \<longleftrightarrow> rt_bytes s > MAX_UNIT_BYTES \<or> length (rt_nals s) > MAX_NALS \<or>
     (case rt_fragment s of None \<Rightarrow> False | Some pieces \<Rightarrow> length pieces > 8192)"

definition unit_bytes :: "bytes list \<Rightarrow> bytes" where
  "unit_bytes nals = concat (map (\<lambda>nal. START @ nal) nals)"

definition rt_finish :: "bool \<Rightarrow> rtp \<Rightarrow> rtp \<times> rtp_out list" where
  "rt_finish marker s =
     (if \<not> marker \<or> rt_discard s then (s, [])
      else if rt_fragment s \<noteq> None \<or> rt_nals s = [] then rt_poison s
      else (s\<lparr>rt_nals := [], rt_bytes := 0, rt_discard := True\<rparr>, [RtpUnit (unit_bytes (rt_nals s))]))"

definition rt_valid :: "rtp_packet \<Rightarrow> bool" where
  "rt_valid p \<longleftrightarrow> 0 \<le> rp_sequence p \<and> rp_sequence p \<le> 65535 \<and> 0 \<le> rp_timestamp p \<and> rp_timestamp p \<le> 0xffffffff \<and>
     rp_payload p \<noteq> [] \<and> length (rp_payload p) \<le> 65535"

text \<open>Sequence and timestamp bookkeeping before the payload is looked at.\<close>

definition rt_enter :: "rtp_packet \<Rightarrow> rtp \<Rightarrow> rtp \<times> rtp_out list" where
  "rt_enter p s =
     (let gap = (case rt_sequence s of None \<Rightarrow> False | Some q \<Rightarrow> rp_sequence p \<noteq> (q + 1) mod 65536);
          s = s\<lparr>rt_sequence := Some (rp_sequence p)\<rparr>;
          (s, o1) = (if rt_timestamp s \<noteq> Some (rp_timestamp p)
             then ((rt_reset s)\<lparr>rt_timestamp := Some (rp_timestamp p)\<rparr>,
                   if \<not> rt_discard s \<and> (rt_fragment s \<noteq> None \<or> rt_nals s \<noteq> []) then [RtpLost] else [])
             else (s, []));
          (s, o2) = (if gap then rt_poison s else (s, [])) in
      (s, o1 @ o2))"

definition rt_body :: "rtp_packet \<Rightarrow> rtp \<Rightarrow> rtp \<times> rtp_out list" where
  "rt_body p s =
     (if rt_discard s then (s, [])
      else if forbidden (rp_payload p ! 0) then rt_poison s
      else
        (let (s1, o1) = rt_payload (rp_payload p) s;
             (s2, o2) = (if rt_over s1 then rt_poison s1 else (s1, []));
             (s3, o3) = rt_finish (rp_marker p) s2 in
         (s3, o1 @ o2 @ o3)))"

definition rt_push :: "rtp \<Rightarrow> rtp_packet \<Rightarrow> rtp \<times> rtp_out list" where
  "rt_push s p =
     (if \<not> rt_valid p then rt_poison s
      else (let (s1, o1) = rt_enter p s; (s2, o2) = rt_body p s1 in (s2, o1 @ o2)))"

datatype rtp_event = RtpPush rtp_packet | RtpClear

fun rt_step :: "rtp \<Rightarrow> rtp_event \<Rightarrow> rtp \<times> rtp_out list" where
  "rt_step s (RtpPush p) = rt_push s p"
| "rt_step s RtpClear = (rt_clear s, [])"

section \<open>Bounds\<close>

definition pieces_bytes :: "bytes list \<Rightarrow> nat" where
  "pieces_bytes ps = (\<Sum>p\<leftarrow>ps. length p)"

lemma pieces_bytes_simps [simp]:
  "pieces_bytes [] = 0" "pieces_bytes (p # ps) = length p + pieces_bytes ps"
  "pieces_bytes (ps @ qs) = pieces_bytes ps + pieces_bytes qs"
  by (simp_all add: pieces_bytes_def)

definition held :: "rtp \<Rightarrow> nat" where
  "held s = pieces_bytes (rt_nals s) + (case rt_fragment s of None \<Rightarrow> 0 | Some ps \<Rightarrow> pieces_bytes ps)"

definition rt_inv :: "rtp \<Rightarrow> bool" where
  "rt_inv s \<longleftrightarrow> rt_bytes s = held s \<and> \<not> rt_over s \<and> (rt_discard s \<longrightarrow> rt_nals s = [] \<and> rt_fragment s = None)"

text \<open>Inside one packet the count is exact but a limit may be passed until the check after it.\<close>

definition rt_exact :: "rtp \<Rightarrow> bool" where
  "rt_exact s \<longleftrightarrow> rt_bytes s = held s \<and> (rt_discard s \<longrightarrow> rt_nals s = [] \<and> rt_fragment s = None)"

lemma poison_inv [simp]: "rt_inv (fst (rt_poison s))"
  by (simp add: rt_poison_def rt_inv_def rt_over_def held_def)

lemma poison_not_over [simp]: "\<not> rt_over (fst (rt_poison s))"
  by (simp add: rt_poison_def rt_over_def)

lemma poison_exact [simp]: "rt_exact (fst (rt_poison s))"
  by (simp add: rt_poison_def rt_exact_def held_def)

lemma pieces_concat: "length (concat ps) = pieces_bytes ps"
  by (induction ps) auto

lemma append_exact: "rt_exact s \<Longrightarrow> \<not> rt_discard s \<Longrightarrow> rt_exact (fst (rt_append nal s))"
  by (auto simp: rt_append_def Let_def) (auto simp: rt_exact_def held_def split: option.splits)

lemma aggregate_exact: "rt_exact s \<Longrightarrow> rt_exact (fst (rt_aggregate rest s))"
proof (induction rest s rule: rt_aggregate.induct)
  case (1 rest s)
  show ?case
    using 1 append_exact [OF 1(2)] by (subst rt_aggregate.simps) (auto simp: Let_def split_beta prod_eq_iff)
qed

lemma fua_exact: "rt_exact s \<Longrightarrow> \<not> rt_discard s \<Longrightarrow> length p > 2 \<Longrightarrow> rt_exact (fst (rt_fua p s))"
  by (auto simp: rt_fua_def Let_def split: option.split)
     (auto simp: rt_exact_def held_def pieces_concat split: option.splits)

lemma payload_exact: "rt_exact s \<Longrightarrow> \<not> rt_discard s \<Longrightarrow> rt_exact (fst (rt_payload p s))"
  by (simp add: rt_payload_def Let_def append_exact aggregate_exact fua_exact)

lemma finish_inv: "rt_inv s \<Longrightarrow> rt_inv (fst (rt_finish m s))"
  by (auto simp: rt_finish_def) (auto simp: rt_inv_def rt_over_def held_def)

lemma inv_exact: "rt_inv s \<longleftrightarrow> rt_exact s \<and> \<not> rt_over s"
  by (auto simp: rt_inv_def rt_exact_def)

lemma body_inv: "rt_inv s \<Longrightarrow> rt_inv (fst (rt_body p s))"
proof (cases "rt_discard s \<or> forbidden (rp_payload p ! 0)")
  case False
  assume i: "rt_inv s"
  let ?s1 = "fst (rt_payload (rp_payload p) s)"
  have e: "rt_exact ?s1" using i False by (intro payload_exact) (simp_all add: inv_exact)
  then have "rt_inv (fst (if rt_over ?s1 then rt_poison ?s1 else (?s1, [])))" by (simp add: inv_exact)
  from finish_inv [OF this, of "rp_marker p"] False show ?thesis
    by (simp add: rt_body_def split_beta Let_def)
qed (auto simp: rt_body_def)

lemma reset_inv: "rt_inv s \<Longrightarrow> rt_inv (s\<lparr>rt_sequence := q\<rparr>)" "rt_inv ((rt_reset s)\<lparr>rt_timestamp := ts\<rparr>)"
  by (simp_all add: rt_inv_def rt_over_def held_def rt_reset_def)

lemma enter_inv: "rt_inv s \<Longrightarrow> rt_inv (fst (rt_enter p s))"
  by (simp add: rt_enter_def Let_def reset_inv split_beta split: option.split)

lemma rt_step_inv: "rt_inv s \<Longrightarrow> rt_inv (fst (rt_step s e))"
proof (cases e)
  case (RtpPush p)
  assume "rt_inv s"
  with RtpPush body_inv [OF enter_inv] show ?thesis by (simp add: rt_push_def split_beta Let_def)
qed (simp add: rt_clear_def rt_reset_def rt_inv_def rt_over_def held_def)

interpretation rtp: invariant_machine rt_step rt_inv "\<lambda>_. True"
  by unfold_locales (rule rt_step_inv)

lemma rt_new_inv: "rt_inv rt_new"
  by (simp add: rt_inv_def rt_new_def rt_over_def held_def MAX_UNIT_BYTES_def)

section \<open>The sender\<close>

datatype nal_plan = PSingle bytes | PAggregate "bytes list" | PFragments byte "bytes list"

fun plan_nals :: "nal_plan \<Rightarrow> bytes list" where
  "plan_nals (PSingle nal) = [nal]"
| "plan_nals (PAggregate nals) = nals"
| "plan_nals (PFragments b pieces) = [b # concat pieces]"

definition fu_payload :: "byte \<Rightarrow> byte \<Rightarrow> bytes \<Rightarrow> bytes" where
  "fu_payload b bits piece = [(b AND 0x60) OR 28, bits OR (b AND 31)] @ piece"

definition fu_payloads :: "byte \<Rightarrow> bytes list \<Rightarrow> bytes list" where
  "fu_payloads b pieces =
     [fu_payload b 0x80 (hd pieces)] @ map (fu_payload b 0) (butlast (tl pieces)) @ [fu_payload b 0x40 (List.last pieces)]"

fun plan_payloads :: "nal_plan \<Rightarrow> bytes list" where
  "plan_payloads (PSingle nal) = [nal]"
| "plan_payloads (PAggregate nals) = [24 # concat (map (\<lambda>nal. be_bytes 2 (length nal) @ nal) nals)]"
| "plan_payloads (PFragments b pieces) = fu_payloads b pieces"

definition good_header :: "byte \<Rightarrow> bool" where
  "good_header b \<longleftrightarrow> \<not> forbidden b \<and> 1 \<le> nal_type b \<and> nal_type b \<le> 23"

fun plan_ok :: "nal_plan \<Rightarrow> bool" where
  "plan_ok (PSingle nal) = (nal \<noteq> [] \<and> good_header (nal ! 0) \<and> length nal \<le> 65535)"
| "plan_ok (PAggregate nals) =
     ((\<forall>nal\<in>set nals. nal \<noteq> [] \<and> good_header (nal ! 0) \<and> length nal \<le> 65535) \<and>
      length (concat (map (\<lambda>nal. be_bytes 2 (length nal) @ nal) nals)) < 65535)"
| "plan_ok (PFragments b pieces) =
     (good_header b \<and> 2 \<le> length pieces \<and> length pieces < 8192 \<and> (\<forall>p\<in>set pieces. p \<noteq> [] \<and> length p \<le> 65533))"

text \<open>Numbering: consecutive sequence numbers, one timestamp, the marker on the last packet.\<close>

fun number_packets :: "int \<Rightarrow> int \<Rightarrow> bytes list \<Rightarrow> rtp_event list" where
  "number_packets sq ts [] = []"
| "number_packets sq ts (p # ps) =
     RtpPush \<lparr> rp_sequence = sq, rp_timestamp = ts, rp_marker = (ps = []), rp_payload = p \<rparr> #
     number_packets ((sq + 1) mod 65536) ts ps"

section \<open>Round trip\<close>

lemma or_eq_zero: "(b AND 0x60) AND 31 = (0 :: byte)" "(b AND 0x60) AND 0x80 = (0 :: byte)"
  by (simp_all add: and.assoc)

lemma good_header_whole:
  assumes "good_header b"
  shows "(b AND 0x60) OR (b AND 31) = b"
proof -
  have "b AND 0x80 = 0" using assms by (simp add: good_header_def forbidden_def)
  moreover have "b = (b AND 0x7F) OR (b AND 0x80)"
  proof -
    have "(b AND 0x7F) OR (b AND 0x80) = b AND (0x7F OR 0x80)" by (simp only: bit.conj_disj_distrib)
    also have "\<dots> = take_bit 8 b" by (simp add: take_bit_eq_mask mask_eq_exp_minus_1)
    also have "\<dots> = b" by (rule take_bit_word_eq_self) simp
    finally show ?thesis ..
  qed
  ultimately have "b = b AND 0x7F" by simp
  then have "b AND (0x60 OR 31) = b" by simp
  then show ?thesis by (simp only: bit.conj_disj_distrib)
qed

lemma fu_indicator:
  "nal_type ((b AND 0x60) OR 28) = 28" "\<not> forbidden ((b AND 0x60) OR 28)"
  "((b AND 0x60) OR 28) AND 0x60 = b AND 0x60"
proof -
  have "((b AND 0x60) OR 28) AND 31 = 28" unfolding word_ao_dist or_eq_zero by simp
  then show "nal_type ((b AND 0x60) OR 28) = 28" by (simp add: nal_type_def)
  have "((b AND 0x60) OR 28) AND 0x80 = 0" unfolding word_ao_dist or_eq_zero by simp
  then show "\<not> forbidden ((b AND 0x60) OR 28)" by (simp add: forbidden_def)
  show "((b AND 0x60) OR 28) AND 0x60 = b AND 0x60" unfolding word_ao_dist by (simp add: and.assoc)
qed

lemma fu_header:
  "(0x80 OR (b AND 31)) AND 0x80 = (0x80 :: byte)" "(0x80 OR (b AND 31)) AND 0x40 = (0 :: byte)"
  "(0x80 OR (b AND 31)) AND 0x20 = (0 :: byte)" "(0x80 OR (b AND 31)) AND 31 = b AND (31 :: byte)"
  "(0x40 OR (b AND 31)) AND 0x80 = (0 :: byte)" "(0x40 OR (b AND 31)) AND 0x40 = (0x40 :: byte)"
  "(0x40 OR (b AND 31)) AND 0x20 = (0 :: byte)" "(0x40 OR (b AND 31)) AND 31 = b AND (31 :: byte)"
  "(b AND 31) AND 0x80 = (0 :: byte)" "(b AND 31) AND 0x40 = (0 :: byte)" "(b AND 31) AND 0x20 = (0 :: byte)"
  "(b AND 31) AND 31 = b AND (31 :: byte)"
  by (simp_all add: word_ao_dist and.assoc)

text \<open>A state that has collected some NAL units of an access unit, with no fragment open.\<close>

definition collecting :: "int option \<Rightarrow> int option \<Rightarrow> bytes list \<Rightarrow> rtp \<Rightarrow> bool" where
  "collecting sq ts nals s \<longleftrightarrow> rt_sequence s = sq \<and> rt_timestamp s = ts \<and> \<not> rt_discard s \<and> rt_nals s = nals \<and>
     rt_fragment s = None \<and> rt_bytes s = pieces_bytes nals"

definition fits :: "bytes list \<Rightarrow> bool" where
  "fits nals \<longleftrightarrow> pieces_bytes nals \<le> MAX_UNIT_BYTES \<and> length nals \<le> MAX_NALS"

lemma fits_append: "fits (xs @ ys) \<Longrightarrow> fits xs"
  by (simp add: fits_def)

lemma append_collects:
  "collecting sq ts nals s \<Longrightarrow> fits (nals @ [nal]) \<Longrightarrow>
     collecting sq ts (nals @ [nal]) (fst (rt_append nal s)) \<and> snd (rt_append nal s) = []"
  by (auto simp: collecting_def rt_append_def fits_def Let_def)

lemma be_bytes_2: "n < 65536 \<Longrightarrow> u16be (be_bytes 2 n @ xs) 0 = n"
  by (simp add: u16be_def slice_def be_nat_be_bytes)

lemma aggregate_collects:
  "collecting sq ts nals s \<Longrightarrow> fits (nals @ extra) \<Longrightarrow>
     (\<forall>nal\<in>set extra. nal \<noteq> [] \<and> good_header (nal ! 0) \<and> length nal \<le> 65535) \<Longrightarrow>
     collecting sq ts (nals @ extra) (fst (rt_aggregate (concat (map (\<lambda>nal. be_bytes 2 (length nal) @ nal) extra)) s)) \<and>
     snd (rt_aggregate (concat (map (\<lambda>nal. be_bytes 2 (length nal) @ nal) extra)) s) = []"
proof (induction extra arbitrary: nals s)
  case Nil
  then show ?case by (simp add: rt_aggregate.simps)
next
  case (Cons nal extra)
  let ?rest = "concat (map (\<lambda>nal. be_bytes 2 (length nal) @ nal) extra)"
  have n: "nal \<noteq> []" "good_header (nal ! 0)" "length nal \<le> 65535" using Cons.prems(3) by simp_all
  have d: "\<not> rt_discard s" using Cons.prems(1) by (simp add: collecting_def)
  have u: "u16be (be_bytes 2 (length nal) @ nal @ ?rest) 0 = length nal" using n(3) by (intro be_bytes_2) simp
  have l: "length (be_bytes 2 (length nal)) = 2" by simp
  have "fits (nals @ [nal])" using Cons.prems(2) fits_append [of "nals @ [nal]" extra] by simp
  note ap = append_collects [OF Cons.prems(1) this]
  have step: "rt_aggregate (be_bytes 2 (length nal) @ nal @ ?rest) s =
      (let (s1, o1) = rt_append nal s; (s2, o2) = rt_aggregate ?rest s1 in (s2, o1 @ o2))"
    using n d u l
    by (subst rt_aggregate.simps) (simp add: good_header_def Let_def nth_append)
  have "fits ((nals @ [nal]) @ extra)" using Cons.prems(2) by simp
  with Cons.IH [OF conjunct1 [OF ap] this] Cons.prems(3) ap show ?case
    by (simp add: step split_beta Let_def)
qed

text \<open>What the assembler holds in the middle of an access unit, and how one payload moves it.\<close>

datatype gathered = Gathered "bytes list" "(byte \<times> bytes list) option"

fun gathered_bytes :: "gathered \<Rightarrow> nat" where
  "gathered_bytes (Gathered nals None) = pieces_bytes nals"
| "gathered_bytes (Gathered nals (Some (b, ps))) = pieces_bytes nals + Suc (pieces_bytes ps)"

fun holds :: "int \<Rightarrow> int \<Rightarrow> gathered \<Rightarrow> rtp \<Rightarrow> bool" where
  "holds sq ts (Gathered nals None) s = collecting (Some sq) (Some ts) nals s"
| "holds sq ts (Gathered nals (Some (b, ps))) s =
     (rt_sequence s = Some sq \<and> rt_timestamp s = Some ts \<and> \<not> rt_discard s \<and> rt_nals s = nals \<and>
      rt_fragment s = Some ([b] # ps) \<and> rt_fragmentType s = b \<and> rt_bytes s = pieces_bytes nals + Suc (pieces_bytes ps))"

fun in_limits :: "gathered \<Rightarrow> bool" where
  "in_limits (Gathered nals frag) = (gathered_bytes (Gathered nals frag) \<le> MAX_UNIT_BYTES \<and> length nals \<le> MAX_NALS \<and>
     (case frag of None \<Rightarrow> True | Some (b, ps) \<Rightarrow> Suc (length ps) \<le> 8192))"

definition moves :: "bytes \<Rightarrow> gathered \<Rightarrow> gathered \<Rightarrow> bool" where
  "moves p a a' \<longleftrightarrow> p \<noteq> [] \<and> length p \<le> 65535 \<and> \<not> forbidden (p ! 0) \<and> in_limits a' \<and>
     (\<forall>sq ts s. holds sq ts a s \<longrightarrow> holds sq ts a' (fst (rt_payload p s)) \<and> snd (rt_payload p s) = [])"

fun path :: "gathered \<Rightarrow> bytes list \<Rightarrow> gathered \<Rightarrow> bool" where
  "path a [] a' = (a = a')"
| "path a (p # ps) a' = (\<exists>b. moves p a b \<and> path b ps a')"

lemma path_append: "path a ps b \<Longrightarrow> path b qs c \<Longrightarrow> path a (ps @ qs) c"
  by (induction ps arbitrary: a) auto

lemma path_snoc: "path a ps b \<Longrightarrow> moves q b c \<Longrightarrow> path a (ps @ [q]) c"
  by (rule path_append) auto

definition ready :: "int \<Rightarrow> int \<Rightarrow> gathered \<Rightarrow> rtp \<Rightarrow> bool" where
  "ready sq ts a s \<longleftrightarrow> (\<forall>m p. holds sq ts a (fst (rt_enter \<lparr> rp_sequence = sq, rp_timestamp = ts, rp_marker = m, rp_payload = p \<rparr> s)) \<and>
     snd (rt_enter \<lparr> rp_sequence = sq, rp_timestamp = ts, rp_marker = m, rp_payload = p \<rparr> s) = [])"

lemma holds_sequence:
  "holds sq ts a s \<Longrightarrow> rt_sequence s = Some sq \<and> rt_timestamp s = Some ts \<and> \<not> rt_discard s"
  "holds sq ts a s \<Longrightarrow> holds sq' ts a (s\<lparr>rt_sequence := Some sq'\<rparr>)"
  by (cases a; cases "case a of Gathered n f \<Rightarrow> f"; auto simp: collecting_def)+

lemma holds_ready: "holds q ts a s \<Longrightarrow> ready ((q + 1) mod 65536) ts a s"
  using holds_sequence [of q ts a s] by (simp add: ready_def rt_enter_def Let_def)

lemma holds_not_over: "holds sq ts a s \<Longrightarrow> in_limits a \<Longrightarrow> \<not> rt_over s"
  by (cases a; cases "case a of Gathered n f \<Rightarrow> f") (auto simp: collecting_def rt_over_def)

lemma body_move:
  assumes "holds sq ts a s" "moves (rp_payload p) a a'"
  shows "\<exists>s'. holds sq ts a' s' \<and> \<not> rt_over s' \<and> rt_body p s = rt_finish (rp_marker p) s'"
proof -
  let ?s' = "fst (rt_payload (rp_payload p) s)"
  have h: "holds sq ts a' ?s'" "snd (rt_payload (rp_payload p) s) = []" "in_limits a'" "\<not> forbidden (rp_payload p ! 0)"
    using assms by (auto simp: moves_def)
  have "\<not> rt_discard s" using holds_sequence(1) [OF assms(1)] by simp
  then have "rt_body p s = rt_finish (rp_marker p) ?s'"
    using h holds_not_over [OF h(1,3)] by (simp add: rt_body_def split_beta Let_def)
  with h(1) holds_not_over [OF h(1,3)] show ?thesis by blast
qed

lemma number_packets_run:
  assumes "path a ps (Gathered nals None)" "ps \<noteq> []" "ready sq ts a s" "nals \<noteq> []"
    "0 \<le> sq" "sq \<le> 65535" "0 \<le> ts" "ts \<le> 0xffffffff"
  shows "run_out rt_step s (number_packets sq ts ps) = [RtpUnit (unit_bytes nals)]"
  using assms
proof (induction ps arbitrary: a sq s)
  case (Cons p ps)
  obtain b where b: "moves p a b" "path b ps (Gathered nals None)" using Cons.prems(1) by auto
  let ?p = "\<lparr> rp_sequence = sq, rp_timestamp = ts, rp_marker = (ps = []), rp_payload = p \<rparr>"
  have v: "rt_valid ?p" using Cons.prems b(1) by (simp add: rt_valid_def moves_def)
  have e: "holds sq ts a (fst (rt_enter ?p s))" "snd (rt_enter ?p s) = []" using Cons.prems(3) by (simp_all add: ready_def)
  obtain s' where s': "holds sq ts b s'" "rt_body ?p (fst (rt_enter ?p s)) = rt_finish (ps = []) s'"
    using body_move [OF e(1), of ?p b] b(1) by auto
  have step: "rt_step s (RtpPush ?p) = rt_finish (ps = []) s'"
    using v e(2) s'(2) by (simp add: rt_push_def split_beta Let_def)
  show ?case
  proof (cases "ps = []")
    case True
    then have "b = Gathered nals None" using b(2) by simp
    with True s'(1) Cons.prems(4) step show ?thesis by (simp add: rt_finish_def collecting_def)
  next
    case False
    have "run_out rt_step s' (number_packets ((sq + 1) mod 65536) ts ps) = [RtpUnit (unit_bytes nals)]"
      using Cons.prems(4,7,8) by (intro Cons.IH [OF b(2) False holds_ready [OF s'(1)]]) simp_all
    with False step show ?thesis by (simp add: run_out_Cons rt_finish_def del: run.simps)
  qed
qed simp

section \<open>The payloads of a plan\<close>

lemma moves_single:
  assumes "nal \<noteq> []" "good_header (nal ! 0)" "length nal \<le> 65535" "fits (nals @ [nal])"
  shows "moves nal (Gathered nals None) (Gathered (nals @ [nal]) None)"
  using assms append_collects [OF _ assms(4)]
  by (auto simp: moves_def good_header_def rt_payload_def fits_def collecting_def)

lemma moves_aggregate:
  assumes "plan_ok (PAggregate extra)" "fits (nals @ extra)"
  shows "moves (24 # concat (map (\<lambda>nal. be_bytes 2 (length nal) @ nal) extra)) (Gathered nals None) (Gathered (nals @ extra) None)"
proof -
  have h: "nal_type 24 = 24" "\<not> forbidden 24" by (simp_all add: nal_type_def forbidden_def)
  have "holds sq ts (Gathered (nals @ extra) None) (fst (rt_payload (24 # concat (map (\<lambda>nal. be_bytes 2 (length nal) @ nal) extra)) s)) \<and>
      snd (rt_payload (24 # concat (map (\<lambda>nal. be_bytes 2 (length nal) @ nal) extra)) s) = []"
    if "holds sq ts (Gathered nals None) s" for sq ts s
  proof -
    have c: "collecting (Some sq) (Some ts) nals s" using that by simp
    from aggregate_collects [OF c assms(2)] assms(1) c h(1) show ?thesis by (simp add: rt_payload_def collecting_def)
  qed
  moreover have "length (concat (map (\<lambda>nal. be_bytes 2 (length nal) @ nal) extra)) < 65535" using assms(1) by simp
  ultimately show ?thesis using assms(2) h(2) unfolding moves_def by (simp add: fits_def)
qed

lemma rt_payload_fu:
  assumes "piece \<noteq> []"
  shows "rt_payload (fu_payload b bits piece) s = rt_fua (fu_payload b bits piece) s"
  using assms by (simp add: rt_payload_def fu_payload_def fu_indicator Let_def)

lemma good_header_type: "good_header b \<Longrightarrow> \<not> unat (b AND 31) < 1 \<and> \<not> unat (b AND 31) > 23"
  by (simp add: good_header_def nal_type_def)

lemmas fu_simps = fu_payload_def fu_header fu_indicator rt_fua_def Let_def

lemma moves_fu_start:
  assumes "good_header b" "piece \<noteq> []" "length piece \<le> 65533" "in_limits (Gathered nals (Some (b, [piece])))"
  shows "moves (fu_payload b 0x80 piece) (Gathered nals None) (Gathered nals (Some (b, [piece])))"
  using assms good_header_type [OF assms(1)] good_header_whole [OF assms(1)]
  unfolding moves_def rt_payload_fu [OF assms(2)]
  by (auto simp: fu_simps collecting_def simp del: in_limits.simps)

lemma moves_fu_middle:
  assumes "good_header b" "piece \<noteq> []" "length piece \<le> 65533" "in_limits (Gathered nals (Some (b, ps @ [piece])))"
  shows "moves (fu_payload b 0 piece) (Gathered nals (Some (b, ps))) (Gathered nals (Some (b, ps @ [piece])))"
  using assms good_header_type [OF assms(1)] good_header_whole [OF assms(1)]
  unfolding moves_def rt_payload_fu [OF assms(2)]
  by (auto simp: fu_simps simp del: in_limits.simps)

lemma moves_fu_end:
  assumes "good_header b" "piece \<noteq> []" "length piece \<le> 65533" "fits (nals @ [b # concat (ps @ [piece])])"
  shows "moves (fu_payload b 0x40 piece) (Gathered nals (Some (b, ps))) (Gathered (nals @ [b # concat (ps @ [piece])]) None)"
  using assms good_header_type [OF assms(1)] good_header_whole [OF assms(1)]
  unfolding moves_def rt_payload_fu [OF assms(2)]
  by (auto simp: fu_simps collecting_def fits_def pieces_concat)

lemma fu_limits:
  assumes "fits (nals @ [b # concat (ps @ qs)])" "length ps < 8192"
  shows "in_limits (Gathered nals (Some (b, ps)))"
  using assms by (simp add: fits_def pieces_concat)

lemma path_fu_middle:
  "good_header b \<Longrightarrow> (\<forall>p\<in>set qs. p \<noteq> [] \<and> length p \<le> 65533) \<Longrightarrow> length (ps @ qs) < 8192 \<Longrightarrow>
     fits (nals @ [b # concat (ps @ qs @ rest)]) \<Longrightarrow>
     path (Gathered nals (Some (b, ps))) (map (fu_payload b 0) qs) (Gathered nals (Some (b, ps @ qs)))"
proof (induction qs arbitrary: ps)
  case (Cons q qs)
  have l: "in_limits (Gathered nals (Some (b, ps @ [q])))"
    by (rule fu_limits [of _ _ _ "qs @ rest"]) (use Cons.prems(3,4) in simp_all)
  have "moves (fu_payload b 0 q) (Gathered nals (Some (b, ps))) (Gathered nals (Some (b, ps @ [q])))"
    using Cons.prems(2) by (intro moves_fu_middle [OF Cons.prems(1) _ _ l]) simp_all
  moreover have "path (Gathered nals (Some (b, ps @ [q]))) (map (fu_payload b 0) qs) (Gathered nals (Some (b, (ps @ [q]) @ qs)))"
    by (rule Cons.IH) (use Cons.prems in simp_all)
  ultimately show ?case by auto
qed simp

lemma path_fragments:
  assumes "plan_ok (PFragments b pieces)" "fits (nals @ [b # concat pieces])"
  shows "path (Gathered nals None) (fu_payloads b pieces) (Gathered (nals @ [b # concat pieces]) None)"
proof -
  obtain p q ps where ps: "pieces = p # ps @ [q]"
  proof -
    from assms(1) obtain p r where r: "pieces = p # r" "r \<noteq> []" by (cases pieces) (auto simp: Suc_le_eq)
    then have "pieces = p # butlast r @ [List.last r]" by simp
    then show thesis by (rule that)
  qed
  have g: "good_header b" and l: "\<forall>x\<in>set pieces. x \<noteq> [] \<and> length x \<le> 65533" "length pieces < 8192"
    using assms(1) by simp_all
  have lim: "in_limits (Gathered nals (Some (b, [p])))"
    by (rule fu_limits [of _ _ _ "ps @ [q]"]) (use assms(2) ps in simp_all)
  have "moves (fu_payload b 0x80 p) (Gathered nals None) (Gathered nals (Some (b, [p])))"
    using l(1) ps by (intro moves_fu_start [OF g _ _ lim]) simp_all
  moreover have "path (Gathered nals (Some (b, [p]))) (map (fu_payload b 0) ps) (Gathered nals (Some (b, [p] @ ps)))"
    by (rule path_fu_middle [OF g, where rest = "[q]"]) (use l assms(2) ps in simp_all)
  moreover have "moves (fu_payload b 0x40 q) (Gathered nals (Some (b, p # ps))) (Gathered (nals @ [b # concat ((p # ps) @ [q])]) None)"
    by (rule moves_fu_end [OF g]) (use l assms(2) ps in simp_all)
  ultimately show ?thesis
    by (auto simp: fu_payloads_def ps butlast_append intro!: path_append)
qed

lemma path_plan:
  "plan_ok pl \<Longrightarrow> fits (nals @ plan_nals pl) \<Longrightarrow> path (Gathered nals None) (plan_payloads pl) (Gathered (nals @ plan_nals pl) None)"
proof (cases pl)
  case (PFragments b pieces)
  assume "plan_ok pl" "fits (nals @ plan_nals pl)"
  with PFragments path_fragments [of b pieces nals] show ?thesis by (simp del: plan_ok.simps path.simps)
qed (auto intro: moves_single moves_aggregate simp del: plan_ok.simps(2))

lemma path_plans:
  "\<forall>pl\<in>set pls. plan_ok pl \<Longrightarrow> fits (nals @ concat (map plan_nals pls)) \<Longrightarrow>
     path (Gathered nals None) (concat (map plan_payloads pls)) (Gathered (nals @ concat (map plan_nals pls)) None)"
proof (induction pls arbitrary: nals)
  case (Cons pl pls)
  have f: "fits (nals @ plan_nals pl)" using Cons.prems(2) fits_append [of "nals @ plan_nals pl"] by simp
  have "path (Gathered nals None) (plan_payloads pl) (Gathered (nals @ plan_nals pl) None)"
    by (rule path_plan [OF _ f]) (use Cons.prems(1) in simp)
  moreover have "path (Gathered (nals @ plan_nals pl) None) (concat (map plan_payloads pls))
      (Gathered ((nals @ plan_nals pl) @ concat (map plan_nals pls)) None)"
    by (rule Cons.IH) (use Cons.prems in simp_all)
  ultimately show ?case using path_append by fastforce
qed simp

lemma plan_payloads_nonempty: "plan_payloads pl \<noteq> []"
  by (cases pl) (simp_all add: fu_payloads_def)

lemma ready_new_timestamp:
  assumes "rt_sequence s = None \<or> rt_sequence s = Some q \<and> sq = (q + 1) mod 65536" "rt_timestamp s \<noteq> Some ts"
    "rt_discard s \<or> rt_nals s = [] \<and> rt_fragment s = None"
  shows "ready sq ts (Gathered [] None) s"
  using assms by (auto simp: ready_def rt_enter_def rt_reset_def collecting_def Let_def)

section \<open>Loss\<close>

text \<open>While a timestamp is being discarded nothing but a new timestamp brings output.\<close>

lemma discard_silent:
  assumes "rt_discard s" "rt_timestamp s = Some (rp_timestamp p)"
  shows "snd (rt_step s (RtpPush p)) = []" "rt_discard (fst (rt_step s (RtpPush p)))"
    "rt_timestamp (fst (rt_step s (RtpPush p))) = rt_timestamp s"
  using assms by (auto simp: rt_push_def rt_enter_def rt_poison_def rt_body_def Let_def split: option.split)

lemma discard_run:
  "rt_discard s \<Longrightarrow> rt_timestamp s = Some ts \<Longrightarrow> \<forall>p\<in>set ps. rp_timestamp p = ts \<Longrightarrow>
     run_out rt_step s (map RtpPush ps) = []"
proof (induction ps arbitrary: s)
  case (Cons p ps)
  then have t: "rt_timestamp s = Some (rp_timestamp p)" by simp
  note d = discard_silent [OF Cons.prems(1) t]
  from Cons.IH [OF d(2)] Cons.prems d show ?case by (simp add: run_out_Cons del: run.simps rt_step.simps)
qed simp

lemma gap_discards:
  assumes "rt_sequence s = Some q" "rp_sequence p \<noteq> (q + 1) mod 65536" "rt_valid p"
  shows "rt_discard (fst (rt_step s (RtpPush p)))" "rt_timestamp (fst (rt_step s (RtpPush p))) = Some (rp_timestamp p)"
    "\<forall>u. RtpUnit u \<notin> set (snd (rt_step s (RtpPush p)))"
  using assms by (auto simp: rt_push_def rt_enter_def rt_poison_def rt_body_def rt_reset_def Let_def)

section \<open>Properties\<close>

text \<open>C27: Whatever mixture of single NAL packets, STAP-A aggregates and FU-A fragments a sender chooses, an
  access unit within the limits, sent with consecutive sequence numbers (the wrap at 65536 included)
  under a new timestamp and with the marker on its last packet, is delivered once, complete and in
  Annex-B form, and nothing else is reported.\<close>
theorem rtp_unit_round_trip:
  assumes "\<forall>pl\<in>set pls. plan_ok pl" "fits (concat (map plan_nals pls))" "concat (map plan_nals pls) \<noteq> []"
    and "rt_sequence s = None \<or> rt_sequence s = Some q \<and> sq = (q + 1) mod 65536" "rt_timestamp s \<noteq> Some ts"
    and "rt_discard s \<or> rt_nals s = [] \<and> rt_fragment s = None"
    and "0 \<le> sq" "sq \<le> 65535" "0 \<le> ts" "ts \<le> 0xffffffff"
  shows "run_out rt_step s (number_packets sq ts (concat (map plan_payloads pls))) =
    [RtpUnit (unit_bytes (concat (map plan_nals pls)))]"
proof -
  have p: "path (Gathered [] None) (concat (map plan_payloads pls)) (Gathered (concat (map plan_nals pls)) None)"
    using path_plans [of pls "[]"] assms(1,2) by simp
  have "pls \<noteq> []" using assms(3) by auto
  then have ne: "concat (map plan_payloads pls) \<noteq> []" using plan_payloads_nonempty by (cases pls) auto
  show ?thesis
    by (rule number_packets_run [OF p ne ready_new_timestamp [OF assms(4-6)] assms(3,7-10)])
qed

lemma rtp_unit_round_trip_witness:
  "run_out rt_step rt_new (number_packets 65534 90000 (concat (map plan_payloads
      [PSingle [0x67, 1], PAggregate [[0x68, 2], [0x06, 3]], PFragments 0x65 [[4, 5], [6], [7]]]))) =
     [RtpUnit [0, 0, 0, 1, 0x67, 1, 0, 0, 0, 1, 0x68, 2, 0, 0, 0, 1, 0x06, 3, 0, 0, 0, 1, 0x65, 4, 5, 6, 7]]"
proof -
  have "run_out rt_step rt_new (number_packets 65534 90000 (concat (map plan_payloads
      [PSingle [0x67, 1], PAggregate [[0x68, 2], [0x06, 3]], PFragments 0x65 [[4, 5], [6], [7]]]))) =
     [RtpUnit (unit_bytes (concat (map plan_nals
       [PSingle [0x67, 1], PAggregate [[0x68, 2], [0x06, 3]], PFragments 0x65 [[4, 5], [6], [7]]])))]"
    by (rule rtp_unit_round_trip)
      (simp_all add: fits_def good_header_def forbidden_def nal_type_def rt_new_def MAX_UNIT_BYTES_def MAX_NALS_def)
  then show ?thesis by (simp add: unit_bytes_def START_def)
qed

text \<open>C28: The assembler's memory is bounded in every reachable state: at most 4 MiB, counted exactly, in at most
  256 NAL units and 8192 fragment pieces, and none while discarding; and after a sequence gap
  no access unit is returned until a packet with another timestamp arrives.\<close>
theorem rtp_bounded_and_lossless:
  assumes "s = run_state rt_step rt_new es"
  shows "rt_bytes s = held s \<and> held s \<le> MAX_UNIT_BYTES \<and> length (rt_nals s) \<le> MAX_NALS \<and>
    (\<forall>ps. rt_fragment s = Some ps \<longrightarrow> length ps \<le> 8192) \<and> (rt_discard s \<longrightarrow> held s = 0) \<and>
    (\<forall>p ps q u. rt_sequence s = Some q \<and> rp_sequence p \<noteq> (q + 1) mod 65536 \<and> rt_valid p \<and>
       (\<forall>p'\<in>set ps. rp_timestamp p' = rp_timestamp p) \<longrightarrow>
       RtpUnit u \<notin> set (run_out rt_step s (map RtpPush (p # ps))))"
proof -
  have i: "rt_inv s" unfolding assms by (rule rtp.run_inv [OF rt_new_inv]) simp
  have "RtpUnit u \<notin> set (run_out rt_step s (map RtpPush (p # ps)))"
    if h: "rt_sequence s = Some q" "rp_sequence p \<noteq> (q + 1) mod 65536" "rt_valid p" "\<forall>p'\<in>set ps. rp_timestamp p' = rp_timestamp p"
    for p ps q u
    using gap_discards [OF h(1-3)] discard_run [OF gap_discards(1,2) [OF h(1-3)] h(4)]
    by (simp add: run_out_Cons del: run.simps rt_step.simps)
  moreover have "rt_bytes s = held s \<and> held s \<le> MAX_UNIT_BYTES \<and> length (rt_nals s) \<le> MAX_NALS \<and>
      (\<forall>ps. rt_fragment s = Some ps \<longrightarrow> length ps \<le> 8192) \<and> (rt_discard s \<longrightarrow> held s = 0)"
    using i by (auto simp: rt_inv_def rt_over_def held_def split: option.splits)
  ultimately show ?thesis by blast
qed

lemma rtp_bounded_and_lossless_witness:
  "\<forall>u. RtpUnit u \<notin> set (run_out rt_step (run_state rt_step rt_new
      [RtpPush \<lparr> rp_sequence = 1, rp_timestamp = 5, rp_marker = False, rp_payload = [0x41] \<rparr>])
      (map RtpPush [\<lparr> rp_sequence = 3, rp_timestamp = 5, rp_marker = True, rp_payload = [0x41] \<rparr>]))"
proof -
  let ?s = "run_state rt_step rt_new [RtpPush \<lparr> rp_sequence = 1, rp_timestamp = 5, rp_marker = False, rp_payload = [0x41] \<rparr>]"
  let ?p = "\<lparr> rp_sequence = 3, rp_timestamp = 5, rp_marker = True, rp_payload = [0x41 :: byte] \<rparr>"
  have "rt_sequence ?s = Some 1 \<and> rp_sequence ?p \<noteq> (1 + 1) mod 65536 \<and> rt_valid ?p \<and> (\<forall>p'\<in>set []. rp_timestamp p' = rp_timestamp ?p)"
    by (simp add: rt_push_def rt_valid_def rt_enter_def rt_new_def rt_reset_def rt_body_def forbidden_def rt_payload_def
      nal_type_def rt_append_def rt_over_def rt_finish_def MAX_UNIT_BYTES_def MAX_NALS_def Let_def)
  with rtp_bounded_and_lossless [OF refl] show ?thesis by blast
qed

end
