(* ===== verification/Js_Value.thy ===== *)
theory Js_Value
  imports Gw_Prelude Js_Map
begin

text \<open>
  The JavaScript values that \<open>JSON.parse\<close> returns and the standard conversions the gateway applies to
  them. A missing property is None; a number is a real (the non-finite results of the conversions are
  None as well, since every use tests for a finite or safe integer). Strings are lists of characters up
  to 255; an object keeps its keys in order.
\<close>

datatype json = JNull | JBool bool | JNum real | JStr string | JArr "json list" | JObj "(string \<times> json) list"

fun isRecord :: "json option \<Rightarrow> bool" where
  "isRecord (Some (JObj _)) = True"
| "isRecord _ = False"

fun js_field :: "json option \<Rightarrow> string \<Rightarrow> json option" where
  "js_field (Some (JObj fs)) k = map_of fs k"
| "js_field _ k = None"

section \<open>Text\<close>

definition js_space :: "char \<Rightarrow> bool" where
  "js_space c \<longleftrightarrow> (of_char c :: nat) \<in> {9, 10, 11, 12, 13, 32, 160}"

definition trim :: "string \<Rightarrow> string" where
  "trim s = rev (dropWhile js_space (rev (dropWhile js_space s)))"

definition lower :: "char \<Rightarrow> char" where
  "lower c = (if 65 \<le> (of_char c :: nat) \<and> (of_char c :: nat) \<le> 90 then char_of (of_char c + 32 :: nat) else c)"

definition upper :: "char \<Rightarrow> char" where
  "upper c = (if 97 \<le> (of_char c :: nat) \<and> (of_char c :: nat) \<le> 122 then char_of (of_char c - 32 :: nat) else c)"

text \<open>\<open>split\<close> on one character.\<close>

fun split_on :: "char \<Rightarrow> string \<Rightarrow> string list" where
  "split_on c [] = [[]]"
| "split_on c (x # xs) = (if x = c then [] # split_on c xs else
     (case split_on c xs of [] \<Rightarrow> [[x]] | p # ps \<Rightarrow> (x # p) # ps))"

text \<open>The groups of digits of a string (\<open>match(/[0-9]+/g)\<close>).\<close>

function digit_groups :: "string \<Rightarrow> string list" where
  "digit_groups s =
     (let rest = dropWhile (\<lambda>c. \<not> is_digit c) s in
      if rest = [] then [] else takeWhile is_digit rest # digit_groups (dropWhile is_digit rest))"
  by pat_completeness auto
termination
proof (relation "measure length")
  fix s rest assume r: "rest = dropWhile (\<lambda>c. \<not> is_digit c) s" "rest \<noteq> []"
  then have "is_digit (hd rest)" using hd_dropWhile [of "\<lambda>c. \<not> is_digit c" s] by simp
  then have "length (dropWhile is_digit rest) < length rest"
    using r(2) by (cases rest) (auto intro: le_imp_less_Suc length_dropWhile_le)
  also have "\<dots> \<le> length s" unfolding r(1) by (rule length_dropWhile_le)
  finally show "(dropWhile is_digit rest, s) \<in> measure length" by simp
qed simp

declare digit_groups.simps [simp del]

section \<open>Numbers\<close>

definition is_integer :: "real \<Rightarrow> bool" where
  "is_integer x \<longleftrightarrow> x = of_int \<lfloor>x\<rfloor>"

lemma is_integer_of_int [simp]: "is_integer (of_int n)"
  by (simp add: is_integer_def)

text \<open>\<open>Number.parseInt(s, 10)\<close>: leading white space, a sign, the longest run of digits.\<close>

fun strip_sign :: "string \<Rightarrow> int \<times> string" where
  "strip_sign [] = (1, [])"
| "strip_sign (c # cs) = (if c = CHR ''-'' then (-1, cs) else if c = CHR ''+'' then (1, cs) else (1, c # cs))"

definition js_parseInt :: "string \<Rightarrow> int option" where
  "js_parseInt s =
     (let (sg, body) = strip_sign (dropWhile js_space s); ds = takeWhile is_digit body in
      if ds = [] then None else Some (sg * int (digits_value ds)))"

definition radix_value :: "nat \<Rightarrow> string \<Rightarrow> real option" where
  "radix_value r ds =
     (if ds \<noteq> [] \<and> list_all (\<lambda>c. case hex_value c of None \<Rightarrow> False | Some n \<Rightarrow> n < r) ds
      then Some (of_nat (foldl (\<lambda>n c. n * r + the (hex_value c)) 0 ds)) else None)"

definition pow10 :: "int \<Rightarrow> real" where
  "pow10 e = (if 0 \<le> e then 10 ^ nat e else 1 / 10 ^ nat (- e))"

text \<open>An unsigned decimal literal: digits, a fraction, an exponent.\<close>

definition decimal_value :: "string \<Rightarrow> real option" where
  "decimal_value s =
     (let a = takeWhile is_digit s; r1 = dropWhile is_digit s;
          dot = (r1 \<noteq> [] \<and> hd r1 = CHR ''.'');
          b = (if dot then takeWhile is_digit (tl r1) else []);
          r2 = (if dot then dropWhile is_digit (tl r1) else r1);
          mantissa = of_nat (digits_value (a @ b)) * pow10 (- int (length b)) in
      if a = [] \<and> b = [] then None
      else if r2 = [] then Some mantissa
      else if hd r2 \<noteq> CHR ''e'' \<and> hd r2 \<noteq> CHR ''E'' then None
      else
        (let (sg, ds) = strip_sign (tl r2) in
         if ds = [] \<or> \<not> list_all is_digit ds then None
         else Some (mantissa * pow10 (sg * int (digits_value ds)))))"

definition js_string_number :: "string \<Rightarrow> real option" where
  "js_string_number s =
     (let t = trim s; p = map lower (take 2 t) in
      if t = [] then Some 0
      else if p = ''0x'' then radix_value 16 (drop 2 t)
      else if p = ''0o'' then radix_value 8 (drop 2 t)
      else if p = ''0b'' then radix_value 2 (drop 2 t)
      else (let (sg, body) = strip_sign t in map_option (\<lambda>x. of_int sg * x) (decimal_value body)))"

text \<open>\<open>Number(value)\<close>: an array is converted through its joined string, which is a number only when it has
  at most one element.\<close>

fun js_number :: "json \<Rightarrow> real option" and js_element_number :: "json \<Rightarrow> real option" where
  "js_number JNull = Some 0"
| "js_number (JBool b) = Some (if b then 1 else 0)"
| "js_number (JNum x) = Some x"
| "js_number (JStr s) = js_string_number s"
| "js_number (JArr []) = Some 0"
| "js_number (JArr [x]) = js_element_number x"
| "js_number (JArr (x # y # xs)) = None"
| "js_number (JObj _) = None"
| "js_element_number JNull = Some 0"
| "js_element_number (JBool b) = None"
| "js_element_number (JNum x) = Some x"
| "js_element_number (JStr s) = js_string_number s"
| "js_element_number (JArr []) = Some 0"
| "js_element_number (JArr [x]) = js_element_number x"
| "js_element_number (JArr (x # y # xs)) = None"
| "js_element_number (JObj _) = None"

definition safe_real :: "real \<Rightarrow> bool" where
  "safe_real x \<longleftrightarrow> is_integer x \<and> safe_int \<lfloor>x\<rfloor>"

text \<open>\<open>Number.isSafeInteger(Number(v)) ? Number(v) : null\<close> on a property that may be absent.\<close>

definition js_safe :: "real option \<Rightarrow> int option" where
  "js_safe v = (case v of None \<Rightarrow> None | Some x \<Rightarrow> if safe_real x then Some \<lfloor>x\<rfloor> else None)"

lemma safe_real_of_int [simp]: "safe_real (of_int n) = safe_int n"
  by (simp add: safe_real_def)

lemma js_safe_int: "js_safe v = Some n \<Longrightarrow> safe_int n"
  by (auto simp: js_safe_def safe_real_def split: option.splits if_splits)

lemma js_safe_of_int [simp]: "safe_int n \<Longrightarrow> js_safe (Some (of_int n)) = Some n"
  by (simp add: js_safe_def)

section \<open>Decimal strings\<close>

lemma is_digit_not_sign: "is_digit c \<Longrightarrow> c \<noteq> CHR ''-'' \<and> c \<noteq> CHR ''+'' \<and> \<not> js_space c"
  by (auto simp: is_digit_def js_space_def)

lemma nat_str_hd: "is_digit (hd (nat_str n))"
  using nat_str_digits [of n] by (cases "nat_str n") (auto simp: nat_str_not_Nil)

lemma strip_sign_digits: "s \<noteq> [] \<Longrightarrow> is_digit (hd s) \<Longrightarrow> strip_sign s = (1, s)"
  by (cases s) (auto dest: is_digit_not_sign)

lemma dropWhile_space_digits: "s \<noteq> [] \<Longrightarrow> is_digit (hd s) \<Longrightarrow> dropWhile js_space (s @ xs) = s @ xs"
  by (cases s) (auto dest: is_digit_not_sign)

lemma takeWhile_digits: "list_all is_digit s \<Longrightarrow> takeWhile is_digit s = s"
  by (simp add: list_all_iff takeWhile_eq_all_conv)

lemma takeWhile_nat_str [simp]: "takeWhile is_digit (nat_str n) = nat_str n"
  by (rule takeWhile_digits [OF nat_str_digits])

lemma js_parseInt_nat_str [simp]: "js_parseInt (nat_str n) = Some (int n)"
  using dropWhile_space_digits [OF nat_str_not_Nil nat_str_hd, of n "[]"]
    strip_sign_digits [OF nat_str_not_Nil nat_str_hd, of n]
  by (simp add: js_parseInt_def Let_def)

lemma js_parseInt_int_str [simp]: "js_parseInt (int_str i) = Some i"
proof (cases "i < 0")
  case True
  have "\<not> js_space CHR ''-''" by (simp add: js_space_def)
  with True show ?thesis by (simp add: js_parseInt_def int_str_def Let_def)
qed (simp add: int_str_def)

lemma split_on_free: "c \<notin> set s \<Longrightarrow> split_on c s = [s]"
  by (induction s) auto

lemma split_on_append: "c \<notin> set s \<Longrightarrow> split_on c (s @ c # t) = s # split_on c t"
  by (induction s) auto

lemma split_on_not_Nil: "split_on c s \<noteq> []"
  by (induction s) (auto split: list.split)

section \<open>Text as bytes\<close>

text \<open>\<open>Buffer.from\<close> of a string (UTF-8), zero padding of a fresh buffer and \<open>copy\<close> into a buffer.\<close>

fun utf8_char :: "char \<Rightarrow> bytes" where
  "utf8_char c = (let n = of_char c :: nat in
     if n < 128 then [word_of_nat n] else [word_of_nat (192 + n div 64), word_of_nat (128 + n mod 64)])"

definition utf8 :: "string \<Rightarrow> bytes" where
  "utf8 s = concat (map utf8_char s)"

section \<open>Decoded documents\<close>

text \<open>UTF-8 decoding and \<open>JSON.parse\<close> (None when it throws) are parameters.\<close>

record text_codec =
  tc_utf8 :: "bytes \<Rightarrow> string"
  tc_json :: "string \<Rightarrow> json option"

definition nullish :: "json option \<Rightarrow> bool" where
  "nullish v \<longleftrightarrow> v = None \<or> v = Some JNull"

text \<open>\<open>a ?? b\<close>.\<close>

definition js_or :: "json option \<Rightarrow> json option \<Rightarrow> json option" where
  "js_or a b = (if nullish a then b else a)"

fun truthy :: "json option \<Rightarrow> bool" where
  "truthy (Some (JBool b)) = b"
| "truthy (Some (JNum x)) = (x \<noteq> 0)"
| "truthy (Some (JStr s)) = (s \<noteq> [])"
| "truthy (Some (JArr _)) = True"
| "truthy (Some (JObj _)) = True"
| "truthy _ = False"

fun js_str :: "json option \<Rightarrow> string option" where
  "js_str (Some (JStr s)) = Some s"
| "js_str _ = None"

fun js_items :: "json option \<Rightarrow> json list" where
  "js_items (Some (JArr xs)) = xs"
| "js_items _ = []"

section \<open>Base 64\<close>

text \<open>\<open>/^[A-Za-z0-9+/]*={0,2}$/\<close> and the decoder it guards; bits left over at the end are dropped.\<close>

definition sextet :: "char \<Rightarrow> nat option" where
  "sextet c = (let n = of_char c :: nat in
     if 65 \<le> n \<and> n \<le> 90 then Some (n - 65) else if 97 \<le> n \<and> n \<le> 122 then Some (n - 71)
     else if 48 \<le> n \<and> n \<le> 57 then Some (n + 4) else if n = 43 then Some 62 else if n = 47 then Some 63 else None)"

definition base64_shape :: "string \<Rightarrow> bool" where
  "base64_shape s \<longleftrightarrow> (let rest = dropWhile (\<lambda>c. sextet c \<noteq> None) s in list_all (\<lambda>c. c = CHR ''='') rest \<and> length rest \<le> 2)"

fun sextet_bytes :: "nat list \<Rightarrow> bytes" where
  "sextet_bytes (a # b # c # d # r) =
     word_of_nat (a * 4 + b div 16) # word_of_nat (b mod 16 * 16 + c div 4) # word_of_nat (c mod 4 * 64 + d) # sextet_bytes r"
| "sextet_bytes [a, b, c] = [word_of_nat (a * 4 + b div 16), word_of_nat (b mod 16 * 16 + c div 4)]"
| "sextet_bytes [a, b] = [word_of_nat (a * 4 + b div 16)]"
| "sextet_bytes _ = []"

definition base64_bytes :: "string \<Rightarrow> bytes" where
  "base64_bytes s = sextet_bytes (map (the \<circ> sextet) (takeWhile (\<lambda>c. sextet c \<noteq> None) s))"

section \<open>Buffers of a fixed length\<close>

definition pad_to :: "nat \<Rightarrow> bytes \<Rightarrow> bytes" where
  "pad_to n v = v @ replicate (n - length v) 0"

definition copy_into :: "nat \<Rightarrow> bytes \<Rightarrow> bytes \<Rightarrow> bytes" where
  "copy_into i src dst = (let n = min (length src) (length dst - i) in take i dst @ take n src @ drop (i + n) dst)"

lemma length_pad_to [simp]: "length (pad_to n v) = max n (length v)"
  by (simp add: pad_to_def)

end
