(* ===== verification/Gateway_State.thy ===== *)
theory Gateway_State
  imports Js_Value Machine
begin

text \<open>
  \<open>GatewayState\<close> of domain/gateway-state.ts: the camera and sensor registries with their detection flags, hold
  timers, recognition names and stream facts. The six timer maps of the class are one map whose keys
  name the map (\<open>timer\<close>); an entry holds the time its callback is due. The wall clock, the occurrence
  times (milliseconds) and the random identifiers are arguments of each call. A call for an unknown
  camera throws (None). Emitted events are outputs; \<open>camera-updated\<close> carries the mutable camera,
  whose field-by-field projection by \<open>getCamera\<close> (defaults for absent identity facts) is left out, as
  are the identity facts no operation reads. HomeBase and lock registries are plain replacements and
  are not modelled.
\<close>

section \<open>Data\<close>

datatype ai_kind = Stranger | Pet | Vehicle | Dog | Crying | Sound | PackageDelivered | PackageTaken | PackageStranded

datatype detection_kind = DkMotion | DkPerson | DkDoorbell | DkAi ai_kind

record detection =
  de_id :: string
  de_kind :: detection_kind
  de_occurredAt :: int
  de_personName :: "string option"
  de_recognized :: bool

record camera_identity =
  ci_serial :: string
  ci_name :: string
  ci_model :: string
  ci_stationSerial :: string
  ci_doorbellSupported :: bool

datatype stream_state = StIdle | StStarting | StStreaming | StStopping | StError

record snapshot_info =
  si_capturedAt :: string
  si_contentType :: string
  si_source :: string
  si_revision :: int

record camera =
  cm_identity :: camera_identity
  cm_rawMotion :: bool
  cm_motion :: bool
  cm_person :: bool
  cm_ai :: "ai_kind \<Rightarrow> bool"
  cm_doorbell :: bool
  cm_lastDetection :: "detection option"
  cm_personEvent :: "string option"
  cm_doorbellEvent :: "string option"
  cm_snapshot :: "snapshot_info option"
  cm_eventImage :: "snapshot_info option"
  cm_streamState :: stream_state
  cm_streamViewers :: nat
  cm_streamStartedAt :: "int option"
  cm_streamLastError :: "string option"

datatype sensor_kind =
  SkMotion | SkCrying | SkSound | SkPet | SkBabyLeft | SkBabyEntered | SkTemperatureHigh | SkTemperatureLow
| SkCareAreaLeft | SkCareAreaEntered | SkBabyActivity

datatype capability =
  CapKind sensor_kind | CapBattery | CapContact | CapLastSeen | CapRssi | CapRoomTemperature | CapCareDiagnostics

definition e21DetectionKinds :: "sensor_kind list" where
  "e21DetectionKinds = [SkMotion, SkCrying, SkSound, SkPet, SkBabyLeft, SkBabyEntered, SkTemperatureHigh,
     SkTemperatureLow, SkCareAreaLeft, SkCareAreaEntered, SkBabyActivity]"

record sensor =
  sn_serial :: string
  sn_capabilities :: "capability list"
  sn_contactOpen :: "bool option"
  sn_detected :: "sensor_kind \<Rightarrow> bool option"

datatype timer =
  TMotion string | TPerson string | TDoorbell string | TDetection string ai_kind
| TSensorMotion string | TSensorDetection string sensor_kind

record gstate =
  gs_cameras :: "(string, camera) jsmap"
  gs_sensors :: "(string, sensor) jsmap"
  gs_timers :: "(timer, int) jsmap"

datatype gateway_out =
  OutCamera camera | OutDetection string detection | OutSensor sensor
| OutSnapshot string snapshot_info | OutEventImage string snapshot_info

definition gs_new :: gstate where
  "gs_new = \<lparr> gs_cameras = [], gs_sensors = [], gs_timers = [] \<rparr>"

section \<open>Names\<close>

definition normalizePersonName :: "string option \<Rightarrow> string option" where
  "normalizePersonName v =
     (case v of
        None \<Rightarrow> None
      | Some s \<Rightarrow>
          (let candidate = trim s in
           if candidate = [] \<or> map lower candidate \<in> {''unknown'', ''unknown person'', ''no person''} then None
           else Some candidate))"

definition isRecentPersonDetection :: "detection option \<Rightarrow> int \<Rightarrow> bool" where
  "isRecentPersonDetection d occurredAt =
     (case d of None \<Rightarrow> False
      | Some d \<Rightarrow> de_kind d = DkPerson \<and> 0 \<le> occurredAt - de_occurredAt d \<and> occurredAt - de_occurredAt d \<le> 10000)"

section \<open>Camera operations\<close>

definition cm_new :: "camera_identity \<Rightarrow> camera" where
  "cm_new identity = \<lparr> cm_identity = identity, cm_rawMotion = False, cm_motion = False, cm_person = False,
     cm_ai = (\<lambda>_. False), cm_doorbell = False, cm_lastDetection = None, cm_personEvent = None,
     cm_doorbellEvent = None, cm_snapshot = None, cm_eventImage = None, cm_streamState = StIdle,
     cm_streamViewers = 0, cm_streamStartedAt = None, cm_streamLastError = None \<rparr>"

text \<open>\<open>#refreshAggregateMotion\<close>: crying and sound are not visual.\<close>

definition refresh :: "camera \<Rightarrow> camera" where
  "refresh c = c\<lparr>cm_motion := cm_rawMotion c \<or> cm_person c \<or> cm_ai c Stranger \<or> cm_ai c Pet \<or> cm_ai c Vehicle \<or>
     cm_ai c Dog \<or> cm_ai c PackageDelivered \<or> cm_ai c PackageTaken \<or> cm_ai c PackageStranded\<rparr>"

definition put_camera :: "string \<Rightarrow> camera \<Rightarrow> gstate \<Rightarrow> gstate" where
  "put_camera serial c g = g\<lparr>gs_cameras := AList.update serial c (gs_cameras g)\<rparr>"

text \<open>\<open>#scheduleDetectionClear\<close>: restart or cancel the hold timer.\<close>

definition schedule :: "int \<Rightarrow> timer \<Rightarrow> bool \<Rightarrow> int \<Rightarrow> gstate \<Rightarrow> gstate" where
  "schedule hold t detected now g =
     (let timers = AList.delete t (gs_timers g) in
      g\<lparr>gs_timers := if detected then AList.update t (now + hold) timers else timers\<rparr>)"

definition registerCamera :: "camera_identity \<Rightarrow> gstate \<Rightarrow> gstate \<times> gateway_out list" where
  "registerCamera identity g =
     (let c = (case map_of (gs_cameras g) (ci_serial identity) of
          None \<Rightarrow> cm_new identity
        | Some c \<Rightarrow>
            (if ci_stationSerial (cm_identity c) \<noteq> ci_stationSerial identity \<or> ci_model (cm_identity c) \<noteq> ci_model identity
             then c\<lparr>cm_personEvent := None, cm_doorbellEvent := None, cm_identity := identity\<rparr>
             else c\<lparr>cm_identity := identity\<rparr>)) in
      (put_camera (ci_serial identity) c g, [OutCamera c]))"

definition recordMotion :: "int \<Rightarrow> string \<Rightarrow> bool \<Rightarrow> int \<Rightarrow> string \<Rightarrow> int \<Rightarrow> gstate \<Rightarrow> (gstate \<times> gateway_out list) option" where
  "recordMotion hold serial detected occurredAt uuid now g =
     (case map_of (gs_cameras g) serial of
        None \<Rightarrow> None
      | Some c \<Rightarrow>
          (let c1 = refresh (c\<lparr>cm_rawMotion := detected\<rparr>);
               g1 = schedule hold (TMotion serial) detected now g;
               d = \<lparr> de_id = uuid, de_kind = DkMotion, de_occurredAt = occurredAt, de_personName = None, de_recognized = False \<rparr>;
               c2 = (if detected \<and> \<not> isRecentPersonDetection (cm_lastDetection c1) occurredAt
                     then c1\<lparr>cm_lastDetection := Some d\<rparr> else c1) in
           Some (put_camera serial c2 g1, (if detected then [OutDetection serial d] else []) @ [OutCamera c2])))"

definition recordPerson :: "int \<Rightarrow> string \<Rightarrow> bool \<Rightarrow> string option \<Rightarrow> int \<Rightarrow> string option \<Rightarrow> string \<Rightarrow> int \<Rightarrow> gstate \<Rightarrow>
    (gstate \<times> gateway_out list) option" where
  "recordPerson hold serial detected personName occurredAt eventIdentity uuid now g =
     (case map_of (gs_cameras g) serial of
        None \<Rightarrow> None
      | Some c \<Rightarrow>
          (let c1 = refresh (c\<lparr>cm_person := detected\<rparr>);
               g1 = schedule hold (TPerson serial) detected now g;
               name = normalizePersonName personName;
               d = \<lparr> de_id = uuid, de_kind = DkPerson, de_occurredAt = occurredAt, de_personName = name, de_recognized = (name \<noteq> None) \<rparr>;
               c2 = (if detected then c1\<lparr>cm_personEvent := eventIdentity, cm_lastDetection := Some d\<rparr> else c1) in
           Some (put_camera serial c2 g1, (if detected then [OutDetection serial d] else []) @ [OutCamera c2])))"

definition enrichName :: "string \<Rightarrow> string \<Rightarrow> string \<Rightarrow> bool \<Rightarrow> gstate \<Rightarrow> (gstate \<times> gateway_out list) option" where
  "enrichName serial eventIdentity personName doorbell g =
     (case map_of (gs_cameras g) serial of
        None \<Rightarrow> None
      | Some c \<Rightarrow>
          (let name = normalizePersonName (Some personName);
               owner = (if doorbell then cm_doorbellEvent c else cm_personEvent c);
               kind = (if doorbell then DkDoorbell else DkPerson) in
           (case cm_lastDetection c of
              None \<Rightarrow> Some (g, [])
            | Some d \<Rightarrow>
                if eventIdentity = [] \<or> owner \<noteq> Some eventIdentity \<or> name = None \<or> de_kind d \<noteq> kind \<or> de_recognized d
                then Some (g, [])
                else (let c1 = c\<lparr>cm_lastDetection := Some (d\<lparr>de_personName := name, de_recognized := True\<rparr>)\<rparr> in
                      Some (put_camera serial c1 g, [OutCamera c1])))))"

definition recordDetection :: "int \<Rightarrow> string \<Rightarrow> ai_kind \<Rightarrow> bool \<Rightarrow> int \<Rightarrow> string \<Rightarrow> int \<Rightarrow> gstate \<Rightarrow>
    (gstate \<times> gateway_out list) option" where
  "recordDetection hold serial kind detected occurredAt uuid now g =
     (case map_of (gs_cameras g) serial of
        None \<Rightarrow> None
      | Some c \<Rightarrow>
          (let c0 = c\<lparr>cm_ai := (cm_ai c)(kind := detected)\<rparr>;
               c1 = (if kind \<noteq> Crying \<and> kind \<noteq> Sound then refresh c0 else c0);
               g1 = schedule hold (TDetection serial kind) detected now g;
               d = \<lparr> de_id = uuid, de_kind = DkAi kind, de_occurredAt = occurredAt, de_personName = None, de_recognized = False \<rparr>;
               c2 = (if detected then c1\<lparr>cm_lastDetection := Some d\<rparr> else c1) in
           Some (put_camera serial c2 g1, (if detected then [OutDetection serial d] else []) @ [OutCamera c2])))"

definition recordDoorbell :: "int \<Rightarrow> string \<Rightarrow> bool \<Rightarrow> int \<Rightarrow> string option \<Rightarrow> string option \<Rightarrow> string \<Rightarrow> int \<Rightarrow> gstate \<Rightarrow>
    (gstate \<times> gateway_out list) option" where
  "recordDoorbell hold serial pressed occurredAt personName eventIdentity uuid now g =
     (case map_of (gs_cameras g) serial of
        None \<Rightarrow> None
      | Some c \<Rightarrow>
          if \<not> ci_doorbellSupported (cm_identity c) then Some (g, [])
          else
            (let c1 = c\<lparr>cm_doorbell := pressed\<rparr>;
                 g1 = schedule hold (TDoorbell serial) pressed now g;
                 name = normalizePersonName personName;
                 d = \<lparr> de_id = uuid, de_kind = DkDoorbell, de_occurredAt = occurredAt, de_personName = name, de_recognized = (name \<noteq> None) \<rparr>;
                 c2 = (if pressed then c1\<lparr>cm_doorbellEvent := eventIdentity\<rparr> else c1);
                 c3 = (if pressed \<and> (eventIdentity \<noteq> None \<or> name \<noteq> None \<or> map_option de_recognized (cm_lastDetection c2) \<noteq> Some True)
                       then c2\<lparr>cm_lastDetection := Some d\<rparr> else c2) in
             Some (put_camera serial c3 g1, (if pressed then [OutDetection serial d] else []) @ [OutCamera c3])))"

definition updateSnapshot :: "string \<Rightarrow> snapshot_info \<Rightarrow> gstate \<Rightarrow> (gstate \<times> gateway_out list) option" where
  "updateSnapshot serial info g =
     (case map_of (gs_cameras g) serial of
        None \<Rightarrow> None
      | Some c \<Rightarrow> (let c1 = c\<lparr>cm_snapshot := Some info\<rparr> in
                   Some (put_camera serial c1 g, [OutSnapshot serial info, OutCamera c1])))"

definition updateEventImage :: "string \<Rightarrow> snapshot_info \<Rightarrow> gstate \<Rightarrow> (gstate \<times> gateway_out list) option" where
  "updateEventImage serial info g =
     (case map_of (gs_cameras g) serial of
        None \<Rightarrow> None
      | Some c \<Rightarrow> (let c1 = c\<lparr>cm_eventImage := Some info\<rparr> in
                   Some (put_camera serial c1 g, [OutEventImage serial info, OutCamera c1])))"

definition updateStream :: "string \<Rightarrow> stream_state \<Rightarrow> nat \<Rightarrow> string option \<Rightarrow> int \<Rightarrow> gstate \<Rightarrow> (gstate \<times> gateway_out list) option" where
  "updateStream serial st viewers error now g =
     (case map_of (gs_cameras g) serial of
        None \<Rightarrow> None
      | Some c \<Rightarrow>
          (let started = (if st = StStreaming \<and> cm_streamStartedAt c = None then Some now
                          else if st = StIdle \<or> st = StError then None else cm_streamStartedAt c);
               c1 = c\<lparr>cm_streamState := st, cm_streamViewers := viewers, cm_streamLastError := error, cm_streamStartedAt := started\<rparr> in
           Some (put_camera serial c1 g, [OutCamera c1])))"

section \<open>Sensor operations\<close>

definition put_sensor :: "string \<Rightarrow> sensor \<Rightarrow> gstate \<Rightarrow> gstate" where
  "put_sensor serial s g = g\<lparr>gs_sensors := AList.update serial s (gs_sensors g)\<rparr>"

definition cancel_timers :: "timer list \<Rightarrow> gstate \<Rightarrow> gstate" where
  "cancel_timers ts g = g\<lparr>gs_timers := fold AList.delete ts (gs_timers g)\<rparr>"

text \<open>A kind the sensor has keeps its retained flag, or takes the reported one; a kind it lacks has none
  (motion, which is always present, is false).\<close>

definition sensor_flag :: "sensor option \<Rightarrow> sensor \<Rightarrow> sensor_kind \<Rightarrow> bool option" where
  "sensor_flag existing s k =
     (if CapKind k \<in> set (sn_capabilities s)
      then (case Option.bind existing (\<lambda>e. sn_detected e k) of
              Some b \<Rightarrow> Some b
            | None \<Rightarrow> (case sn_detected s k of Some b \<Rightarrow> Some b | None \<Rightarrow> Some False))
      else if k = SkMotion then Some False else None)"

definition registerSensor :: "sensor \<Rightarrow> gstate \<Rightarrow> gstate \<times> gateway_out list" where
  "registerSensor s g =
     (let existing = map_of (gs_sensors g) (sn_serial s);
          lacking = filter (\<lambda>k. CapKind k \<notin> set (sn_capabilities s)) e21DetectionKinds;
          g1 = cancel_timers (map (TSensorDetection (sn_serial s)) lacking) g;
          s1 = s\<lparr>sn_detected := sensor_flag existing s\<rparr> in
      (put_sensor (sn_serial s) s1 g1, [OutSensor s1]))"

definition updateSensorContact :: "string \<Rightarrow> bool \<Rightarrow> gstate \<Rightarrow> gstate \<times> gateway_out list" where
  "updateSensorContact serial op g =
     (case map_of (gs_sensors g) serial of
        None \<Rightarrow> (g, [])
      | Some s \<Rightarrow> if CapContact \<notin> set (sn_capabilities s) then (g, [])
                  else registerSensor (s\<lparr>sn_contactOpen := Some op\<rparr>) g)"

definition recordSensorMotion :: "int \<Rightarrow> string \<Rightarrow> bool \<Rightarrow> int \<Rightarrow> gstate \<Rightarrow> gstate \<times> gateway_out list" where
  "recordSensorMotion hold serial detected now g =
     (case map_of (gs_sensors g) serial of
        None \<Rightarrow> (g, [])
      | Some s \<Rightarrow>
          if CapKind SkMotion \<notin> set (sn_capabilities s) then (g, [])
          else (let s1 = s\<lparr>sn_detected := (sn_detected s)(SkMotion := Some detected)\<rparr> in
                (put_sensor serial s1 (schedule hold (TSensorMotion serial) detected now g), [OutSensor s1])))"

definition recordSensorDetection :: "int \<Rightarrow> string \<Rightarrow> sensor_kind \<Rightarrow> bool \<Rightarrow> int \<Rightarrow> gstate \<Rightarrow> gstate \<times> gateway_out list" where
  "recordSensorDetection hold serial kind detected now g =
     (case map_of (gs_sensors g) serial of
        None \<Rightarrow> (g, [])
      | Some s \<Rightarrow>
          if CapKind kind \<notin> set (sn_capabilities s) then (g, [])
          else (let s1 = s\<lparr>sn_detected := (sn_detected s)(kind := Some detected)\<rparr> in
                (put_sensor serial s1 (schedule hold (TSensorDetection serial kind) detected now g), [OutSensor s1])))"

section \<open>Steps\<close>

text \<open>A timer callback first deletes its own entry, then clears the flag.\<close>

definition fire :: "int \<Rightarrow> timer \<Rightarrow> int \<Rightarrow> gstate \<Rightarrow> (gstate \<times> gateway_out list) option" where
  "fire hold t now g =
     (case map_of (gs_timers g) t of
        None \<Rightarrow> None
      | Some due \<Rightarrow>
          if now < due then None
          else
            (let g = cancel_timers [t] g in
             case t of
               TMotion serial \<Rightarrow> recordMotion hold serial False now [] now g
             | TPerson serial \<Rightarrow> recordPerson hold serial False None now None [] now g
             | TDoorbell serial \<Rightarrow> recordDoorbell hold serial False now None None [] now g
             | TDetection serial kind \<Rightarrow> recordDetection hold serial kind False now [] now g
             | TSensorMotion serial \<Rightarrow> Some (recordSensorMotion hold serial False now g)
             | TSensorDetection serial kind \<Rightarrow> Some (recordSensorDetection hold serial kind False now g)))"

definition gs_close :: "gstate \<Rightarrow> gstate" where
  "gs_close g = g\<lparr>gs_timers := []\<rparr>"

datatype gateway_event =
  GRegister camera_identity
| GMotion string bool int string int
| GPerson string bool "string option" int "string option" string int
| GEnrich string string string bool
| GDetection string ai_kind bool int string int
| GDoorbell string bool int "string option" "string option" string int
| GSnapshot string snapshot_info
| GEventImage string snapshot_info
| GStream string stream_state nat "string option" int
| GSensor sensor
| GContact string bool
| GSensorMotion string bool int
| GSensorDetection string sensor_kind bool int
| GFire timer int

fun gs_try :: "int \<Rightarrow> gstate \<Rightarrow> gateway_event \<Rightarrow> (gstate \<times> gateway_out list) option" where
  "gs_try hold g (GRegister i) = Some (registerCamera i g)"
| "gs_try hold g (GMotion s b t u now) = recordMotion hold s b t u now g"
| "gs_try hold g (GPerson s b n t i u now) = recordPerson hold s b n t i u now g"
| "gs_try hold g (GEnrich s i n b) = enrichName s i n b g"
| "gs_try hold g (GDetection s k b t u now) = recordDetection hold s k b t u now g"
| "gs_try hold g (GDoorbell s b t n i u now) = recordDoorbell hold s b t n i u now g"
| "gs_try hold g (GSnapshot s x) = updateSnapshot s x g"
| "gs_try hold g (GEventImage s x) = updateEventImage s x g"
| "gs_try hold g (GStream s st v e now) = updateStream s st v e now g"
| "gs_try hold g (GSensor s) = Some (registerSensor s g)"
| "gs_try hold g (GContact s b) = Some (updateSensorContact s b g)"
| "gs_try hold g (GSensorMotion s b now) = Some (recordSensorMotion hold s b now g)"
| "gs_try hold g (GSensorDetection s k b now) = Some (recordSensorDetection hold s k b now g)"
| "gs_try hold g (GFire t now) = fire hold t now g"

definition gs_step :: "int \<Rightarrow> gstate \<Rightarrow> gateway_event \<Rightarrow> gstate \<times> gateway_out list" where
  "gs_step hold g e = (case gs_try hold g e of None \<Rightarrow> (g, []) | Some r \<Rightarrow> r)"

section \<open>Invariant\<close>

fun timer_serial :: "timer \<Rightarrow> string" where
  "timer_serial (TMotion s) = s"
| "timer_serial (TPerson s) = s"
| "timer_serial (TDoorbell s) = s"
| "timer_serial (TDetection s _) = s"
| "timer_serial (TSensorMotion s) = s"
| "timer_serial (TSensorDetection s _) = s"

fun camera_timer :: "timer \<Rightarrow> bool" where
  "camera_timer (TSensorMotion _) = False"
| "camera_timer (TSensorDetection _ _) = False"
| "camera_timer _ = True"

fun camera_flag :: "camera \<Rightarrow> timer \<Rightarrow> bool" where
  "camera_flag c (TMotion _) = cm_rawMotion c"
| "camera_flag c (TPerson _) = cm_person c"
| "camera_flag c (TDoorbell _) = cm_doorbell c"
| "camera_flag c (TDetection _ k) = cm_ai c k"
| "camera_flag c _ = False"

definition visual :: "camera \<Rightarrow> bool" where
  "visual c \<longleftrightarrow> cm_rawMotion c \<or> cm_person c \<or> (\<exists>k. k \<noteq> Crying \<and> k \<noteq> Sound \<and> cm_ai c k)"

definition ticking :: "gstate \<Rightarrow> timer \<Rightarrow> bool" where
  "ticking g t \<longleftrightarrow> map_of (gs_timers g) t \<noteq> None"

definition camera_ok :: "(string \<Rightarrow> bool) \<Rightarrow> string \<Rightarrow> camera \<Rightarrow> bool" where
  "camera_ok dbs s c \<longleftrightarrow> ci_serial (cm_identity c) = s \<and> ci_doorbellSupported (cm_identity c) = dbs s \<and>
     (cm_doorbell c \<longrightarrow> dbs s) \<and> cm_motion c = visual c"

definition cameras_inv :: "(string \<Rightarrow> bool) \<Rightarrow> gstate \<Rightarrow> bool" where
  "cameras_inv dbs g \<longleftrightarrow>
     (\<forall>s c. map_of (gs_cameras g) s = Some c \<longrightarrow> camera_ok dbs s c) \<and>
     (\<forall>t. camera_timer t \<longrightarrow>
        (ticking g t \<longleftrightarrow> (case map_of (gs_cameras g) (timer_serial t) of None \<Rightarrow> False | Some c \<Rightarrow> camera_flag c t)))"

definition sensors_inv :: "gstate \<Rightarrow> bool" where
  "sensors_inv g \<longleftrightarrow>
     (\<forall>s x. map_of (gs_sensors g) s = Some x \<longrightarrow> sn_serial x = s \<and>
        (\<forall>k. sn_detected x k = Some True \<longrightarrow> CapKind k \<in> set (sn_capabilities x) \<and>
           (ticking g (TSensorDetection s k) \<or> k = SkMotion \<and> ticking g (TSensorMotion s))))"

definition timers_inv :: "int \<Rightarrow> gstate \<Rightarrow> bool" where
  "timers_inv latest g \<longleftrightarrow> js_wf (gs_timers g) \<and> (\<forall>t due. map_of (gs_timers g) t = Some due \<longrightarrow> due \<le> latest)"

text \<open>Admissible events: a camera's doorbell support does not change, a sensor is not registered with a
  flag already raised, and the clock has not passed the given time.\<close>

fun event_time :: "gateway_event \<Rightarrow> int option" where
  "event_time (GMotion s b t u now) = Some now"
| "event_time (GPerson s b n t i u now) = Some now"
| "event_time (GDetection s k b t u now) = Some now"
| "event_time (GDoorbell s b t n i u now) = Some now"
| "event_time (GSensorMotion s b now) = Some now"
| "event_time (GSensorDetection s k b now) = Some now"
| "event_time (GFire t now) = Some now"
| "event_time e = None"

fun admissible :: "(string \<Rightarrow> bool) \<Rightarrow> gateway_event \<Rightarrow> bool" where
  "admissible dbs (GRegister i) = (ci_doorbellSupported i = dbs (ci_serial i))"
| "admissible dbs (GSensor s) = (\<forall>k. sn_detected s k \<noteq> Some True)"
| "admissible dbs e = True"

definition gs_inv :: "int \<Rightarrow> (string \<Rightarrow> bool) \<Rightarrow> int \<Rightarrow> gstate \<Rightarrow> bool" where
  "gs_inv hold dbs latest g \<longleftrightarrow> cameras_inv dbs g \<and> sensors_inv g \<and> timers_inv (latest + hold) g"

lemma ticking_schedule [simp]:
  "ticking (schedule hold t b now g) t' = (if t' = t then b else ticking g t')"
  by (auto simp: ticking_def schedule_def Let_def js_get_update js_get_delete)

lemma schedule_fields [simp]:
  "gs_cameras (schedule hold t b now g) = gs_cameras g" "gs_sensors (schedule hold t b now g) = gs_sensors g"
  by (simp_all add: schedule_def Let_def)

lemma put_camera_fields [simp]:
  "gs_timers (put_camera s c g) = gs_timers g" "gs_sensors (put_camera s c g) = gs_sensors g"
  "map_of (gs_cameras (put_camera s c g)) s' = (if s' = s then Some c else map_of (gs_cameras g) s')"
  "ticking (put_camera s c g) t = ticking g t"
  by (simp_all add: put_camera_def js_get_update ticking_def)

lemma put_sensor_fields [simp]:
  "gs_timers (put_sensor s x g) = gs_timers g" "gs_cameras (put_sensor s x g) = gs_cameras g"
  "map_of (gs_sensors (put_sensor s x g)) s' = (if s' = s then Some x else map_of (gs_sensors g) s')"
  "ticking (put_sensor s x g) t = ticking g t"
  by (simp_all add: put_sensor_def js_get_update ticking_def)

lemma timers_inv_schedule:
  "timers_inv latest g \<Longrightarrow> now + hold \<le> latest \<Longrightarrow> timers_inv latest (schedule hold t b now g)"
  by (auto simp: timers_inv_def schedule_def Let_def js_get_update js_get_delete)

lemma timers_inv_put [simp]:
  "timers_inv latest (put_camera s c g) = timers_inv latest g" "timers_inv latest (put_sensor s x g) = timers_inv latest g"
  by (simp_all add: timers_inv_def)

lemma fold_delete_get: "map_of (fold AList.delete ts m) t = (if t \<in> set ts then None else map_of m t)"
  by (induction ts arbitrary: m) (auto simp: js_get_delete)

lemma fold_delete_wf: "js_wf m \<Longrightarrow> js_wf (fold AList.delete ts m)"
  by (induction ts arbitrary: m) auto

lemma ticking_cancel [simp]: "ticking (cancel_timers ts g) t \<longleftrightarrow> t \<notin> set ts \<and> ticking g t"
  by (simp add: ticking_def cancel_timers_def fold_delete_get)

lemma cancel_fields [simp]:
  "gs_cameras (cancel_timers ts g) = gs_cameras g" "gs_sensors (cancel_timers ts g) = gs_sensors g"
  by (simp_all add: cancel_timers_def)

lemma timers_inv_cancel: "timers_inv latest g \<Longrightarrow> timers_inv latest (cancel_timers ts g)"
  by (simp add: timers_inv_def cancel_timers_def fold_delete_get fold_delete_wf)

text \<open>The one rule behind every camera operation: a new camera that keeps the identity, whose aggregate is
  right and whose only changed flag is the one of the timer that is restarted or cancelled.\<close>

lemma cameras_inv_put:
  assumes "cameras_inv dbs g" "map_of (gs_cameras g) s = Some c" "cm_identity c' = cm_identity c"
    "cm_motion c' = visual c'" "camera_timer t" "timer_serial t = s" "cm_doorbell c' \<Longrightarrow> dbs s"
    "\<And>t'. timer_serial t' = s \<Longrightarrow> camera_timer t' \<Longrightarrow> camera_flag c' t' = (if t' = t then b else camera_flag c t')"
  shows "cameras_inv dbs (put_camera s c' (schedule hold t b now g))"
  using assms by (auto simp: cameras_inv_def camera_ok_def split: option.splits)

lemma cameras_inv_keep:
  assumes "cameras_inv dbs g" "map_of (gs_cameras g) s = Some c" "cm_identity c' = cm_identity c"
    "cm_motion c' = cm_motion c" "cm_rawMotion c' = cm_rawMotion c" "cm_person c' = cm_person c"
    "cm_ai c' = cm_ai c" "cm_doorbell c' = cm_doorbell c"
  shows "cameras_inv dbs (put_camera s c' g)"
proof -
  have "camera_flag c' t = camera_flag c t" for t by (cases t) (simp_all add: assms)
  moreover have "visual c' = visual c" by (simp add: visual_def assms)
  ultimately show ?thesis using assms(1-4,8) by (auto simp: cameras_inv_def camera_ok_def split: option.splits)
qed

lemma sensors_inv_cong:
  "sensors_inv g \<Longrightarrow> gs_sensors g' = gs_sensors g \<Longrightarrow>
     (\<And>s k. ticking g' (TSensorDetection s k) = ticking g (TSensorDetection s k)) \<Longrightarrow>
     (\<And>s. ticking g' (TSensorMotion s) = ticking g (TSensorMotion s)) \<Longrightarrow> sensors_inv g'"
  by (simp add: sensors_inv_def)

lemma cameras_inv_cong:
  "cameras_inv dbs g \<Longrightarrow> gs_cameras g' = gs_cameras g \<Longrightarrow>
     (\<And>t. camera_timer t \<Longrightarrow> ticking g' t = ticking g t) \<Longrightarrow> cameras_inv dbs g'"
  by (simp add: cameras_inv_def)

lemma refresh_visual [simp]: "cm_motion (refresh c) = visual (refresh c)"
  by (auto simp: refresh_def visual_def) (metis ai_kind.exhaust)

lemma refresh_fields [simp]:
  "cm_identity (refresh c) = cm_identity c" "cm_rawMotion (refresh c) = cm_rawMotion c" "cm_person (refresh c) = cm_person c"
  "cm_ai (refresh c) = cm_ai c" "cm_doorbell (refresh c) = cm_doorbell c" "cm_lastDetection (refresh c) = cm_lastDetection c"
  by (simp_all add: refresh_def)

lemma visual_cong: "cm_rawMotion c' = cm_rawMotion c \<Longrightarrow> cm_person c' = cm_person c \<Longrightarrow> cm_ai c' = cm_ai c \<Longrightarrow> visual c' = visual c"
  by (simp add: visual_def)

lemma visual_refresh [simp]: "visual (refresh c) = visual c"
  by (rule visual_cong) simp_all

lemma sensors_inv_schedule:
  "sensors_inv g \<Longrightarrow> camera_timer t \<Longrightarrow> sensors_inv (put_camera s c (schedule hold t b now g))"
  by (rule sensors_inv_cong) auto

lemma camera_doorbell: "cameras_inv dbs g \<Longrightarrow> map_of (gs_cameras g) s = Some c \<Longrightarrow> cm_doorbell c \<Longrightarrow> dbs s"
  by (auto simp: cameras_inv_def camera_ok_def)

lemma recordMotion_cameras:
  assumes "cameras_inv dbs g" "recordMotion hold s b t u now g = Some (g', w)"
  shows "cameras_inv dbs g'"
proof -
  obtain c where c: "map_of (gs_cameras g) s = Some c" using assms(2) by (auto simp: recordMotion_def split: option.splits)
  define c1 where "c1 = refresh (c\<lparr>cm_rawMotion := b\<rparr>)"
  define d where "d = \<lparr> de_id = u, de_kind = DkMotion, de_occurredAt = t, de_personName = None, de_recognized = False \<rparr>"
  define c2 where "c2 = (if b \<and> \<not> isRecentPersonDetection (cm_lastDetection c1) t then c1\<lparr>cm_lastDetection := Some d\<rparr> else c1)"
  have g': "g' = put_camera s c2 (schedule hold (TMotion s) b now g)"
    using assms(2) unfolding recordMotion_def c c1_def [symmetric] Let_def option.case d_def [symmetric] c2_def [symmetric] by simp
  have f: "cm_identity c2 = cm_identity c" "cm_rawMotion c2 = b" "cm_person c2 = cm_person c" "cm_ai c2 = cm_ai c"
    "cm_doorbell c2 = cm_doorbell c" "cm_motion c2 = visual c2"
    by (simp_all add: c2_def c1_def visual_def)
  show ?thesis unfolding g'
  proof (rule cameras_inv_put [OF assms(1) c f(1,6)])
    show "camera_flag c2 t' = (if t' = TMotion s then b else camera_flag c t')" if "timer_serial t' = s" for t'
      using that by (cases t') (simp_all add: f)
  qed (use f camera_doorbell [OF assms(1) c] in simp_all)
qed

lemma recordPerson_cameras:
  assumes "cameras_inv dbs g" "recordPerson hold s b n t i u now g = Some (g', w)"
  shows "cameras_inv dbs g'"
proof -
  obtain c where c: "map_of (gs_cameras g) s = Some c" using assms(2) by (auto simp: recordPerson_def split: option.splits)
  define c1 where "c1 = refresh (c\<lparr>cm_person := b\<rparr>)"
  define d where "d = \<lparr> de_id = u, de_kind = DkPerson, de_occurredAt = t, de_personName = normalizePersonName n,
    de_recognized = (normalizePersonName n \<noteq> None) \<rparr>"
  define c2 where "c2 = (if b then c1\<lparr>cm_personEvent := i, cm_lastDetection := Some d\<rparr> else c1)"
  have g': "g' = put_camera s c2 (schedule hold (TPerson s) b now g)"
    using assms(2) unfolding recordPerson_def c c1_def [symmetric] Let_def option.case d_def [symmetric] c2_def [symmetric] by simp
  have f: "cm_identity c2 = cm_identity c" "cm_rawMotion c2 = cm_rawMotion c" "cm_person c2 = b" "cm_ai c2 = cm_ai c"
    "cm_doorbell c2 = cm_doorbell c" "cm_motion c2 = visual c2"
    by (simp_all add: c2_def c1_def visual_def)
  show ?thesis unfolding g'
  proof (rule cameras_inv_put [OF assms(1) c f(1,6)])
    show "camera_flag c2 t' = (if t' = TPerson s then b else camera_flag c t')" if "timer_serial t' = s" for t'
      using that by (cases t') (simp_all add: f)
  qed (use f camera_doorbell [OF assms(1) c] in simp_all)
qed

lemma recordDetection_cameras:
  assumes "cameras_inv dbs g" "recordDetection hold s k b t u now g = Some (g', w)"
  shows "cameras_inv dbs g'"
proof -
  obtain c where c: "map_of (gs_cameras g) s = Some c" using assms(2) by (auto simp: recordDetection_def split: option.splits)
  define c0 where "c0 = c\<lparr>cm_ai := (cm_ai c)(k := b)\<rparr>"
  define c1 where "c1 = (if k \<noteq> Crying \<and> k \<noteq> Sound then refresh c0 else c0)"
  define d where "d = \<lparr> de_id = u, de_kind = DkAi k, de_occurredAt = t, de_personName = None, de_recognized = False \<rparr>"
  define c2 where "c2 = (if b then c1\<lparr>cm_lastDetection := Some d\<rparr> else c1)"
  have g': "g' = put_camera s c2 (schedule hold (TDetection s k) b now g)"
    using assms(2) unfolding recordDetection_def c option.case Let_def c0_def [symmetric] c1_def [symmetric] d_def [symmetric] c2_def [symmetric]
    by simp
  have v: "cm_motion c = visual c" using assms(1) c by (auto simp: cameras_inv_def camera_ok_def)
  have f: "cm_identity c2 = cm_identity c" "cm_rawMotion c2 = cm_rawMotion c" "cm_person c2 = cm_person c"
    "cm_ai c2 = (cm_ai c)(k := b)" "cm_doorbell c2 = cm_doorbell c"
    by (simp_all add: c2_def c1_def c0_def)
  have "visual c1 = visual c2" by (rule visual_cong) (simp_all add: c2_def)
  moreover have "cm_motion c1 = visual c1"
  proof (cases "k \<noteq> Crying \<and> k \<noteq> Sound")
    case False
    then have "visual c0 = visual c" by (auto simp: visual_def c0_def)
    with False v show ?thesis by (simp add: c1_def c0_def)
  qed (simp add: c1_def)
  moreover have "cm_motion c2 = cm_motion c1" by (simp add: c2_def)
  ultimately have m: "cm_motion c2 = visual c2" by simp
  show ?thesis unfolding g'
  proof (rule cameras_inv_put [OF assms(1) c f(1) m])
    show "camera_flag c2 t' = (if t' = TDetection s k then b else camera_flag c t')" if "timer_serial t' = s" for t'
      using that by (cases t') (auto simp: f)
  qed (use f camera_doorbell [OF assms(1) c] in simp_all)
qed

lemma recordDoorbell_cameras:
  assumes "cameras_inv dbs g" "recordDoorbell hold s b t n i u now g = Some (g', w)" "dbs s"
  shows "cameras_inv dbs g'"
proof -
  obtain c where c: "map_of (gs_cameras g) s = Some c" using assms(2) by (auto simp: recordDoorbell_def split: option.splits)
  have sup: "ci_doorbellSupported (cm_identity c)" using assms(1,3) c by (auto simp: cameras_inv_def camera_ok_def)
  have v: "cm_motion c = visual c" using assms(1) c by (auto simp: cameras_inv_def camera_ok_def)
  define c1 where "c1 = c\<lparr>cm_doorbell := b\<rparr>"
  define d where "d = \<lparr> de_id = u, de_kind = DkDoorbell, de_occurredAt = t, de_personName = normalizePersonName n,
    de_recognized = (normalizePersonName n \<noteq> None) \<rparr>"
  define c2 where "c2 = (if b then c1\<lparr>cm_doorbellEvent := i\<rparr> else c1)"
  define c3 where "c3 = (if b \<and> (i \<noteq> None \<or> normalizePersonName n \<noteq> None \<or>
      map_option de_recognized (cm_lastDetection c2) \<noteq> Some True) then c2\<lparr>cm_lastDetection := Some d\<rparr> else c2)"
  have g': "g' = put_camera s c3 (schedule hold (TDoorbell s) b now g)"
    using assms(2) sup unfolding recordDoorbell_def c option.case Let_def c1_def [symmetric] d_def [symmetric]
      c2_def [symmetric] c3_def [symmetric] by simp
  have f: "cm_identity c3 = cm_identity c" "cm_rawMotion c3 = cm_rawMotion c" "cm_person c3 = cm_person c" "cm_ai c3 = cm_ai c"
      "cm_doorbell c3 = b" "cm_motion c3 = cm_motion c"
    by (simp_all add: c3_def c2_def c1_def)
  have m: "cm_motion c3 = visual c3" using v f visual_cong [OF f(2-4)] by simp
  show ?thesis unfolding g'
  proof (rule cameras_inv_put [OF assms(1) c f(1) m])
    show "camera_flag c3 t' = (if t' = TDoorbell s then b else camera_flag c t')" if "timer_serial t' = s" for t'
      using that by (cases t') (simp_all add: f)
  qed (use assms(3) in simp_all)
qed

text \<open>Every operation leaves the other registry and the timers of its own kind only.\<close>

lemma record_frames:
  "recordMotion hold s b t u now g = Some (g', w) \<Longrightarrow> \<exists>c. g' = put_camera s c (schedule hold (TMotion s) b now g)"
  "recordPerson hold s b n t i u now g = Some (g', w) \<Longrightarrow> \<exists>c. g' = put_camera s c (schedule hold (TPerson s) b now g)"
  "recordDetection hold s k b t u now g = Some (g', w) \<Longrightarrow> \<exists>c. g' = put_camera s c (schedule hold (TDetection s k) b now g)"
  "recordDoorbell hold s b n' i' j u now g = Some (g', w) \<Longrightarrow>
     g' = g \<or> (\<exists>c. g' = put_camera s c (schedule hold (TDoorbell s) b now g))"
  by (auto simp: recordMotion_def recordPerson_def recordDetection_def recordDoorbell_def Let_def
      split: option.splits if_splits)

lemma keep_frames:
  "enrichName s i n b g = Some (g', w) \<Longrightarrow> gs_sensors g' = gs_sensors g \<and> gs_timers g' = gs_timers g"
  "updateSnapshot s x g = Some (g', w) \<Longrightarrow> gs_sensors g' = gs_sensors g \<and> gs_timers g' = gs_timers g"
  "updateEventImage s x g = Some (g', w) \<Longrightarrow> gs_sensors g' = gs_sensors g \<and> gs_timers g' = gs_timers g"
  "updateStream s st v e now g = Some (g', w) \<Longrightarrow> gs_sensors g' = gs_sensors g \<and> gs_timers g' = gs_timers g"
  by (auto simp: enrichName_def updateSnapshot_def updateEventImage_def updateStream_def Let_def
      split: option.splits if_splits)

lemma keep_cameras:
  assumes "cameras_inv dbs g"
  shows "enrichName s i n b g = Some (g', w) \<Longrightarrow> cameras_inv dbs g'"
    "updateSnapshot s x g = Some (g', w) \<Longrightarrow> cameras_inv dbs g'"
    "updateEventImage s x g = Some (g', w) \<Longrightarrow> cameras_inv dbs g'"
    "updateStream s st v e now g = Some (g', w) \<Longrightarrow> cameras_inv dbs g'"
  using assms cameras_inv_keep [OF assms, of s]
  by (auto simp: enrichName_def updateSnapshot_def updateEventImage_def updateStream_def Let_def
      split: option.splits if_splits)

lemma registerCamera_cameras:
  assumes "cameras_inv dbs g" "ci_doorbellSupported i = dbs (ci_serial i)"
  shows "cameras_inv dbs (fst (registerCamera i g))"
proof (cases "map_of (gs_cameras g) (ci_serial i)")
  case None
  have "\<not> camera_flag (cm_new i) t" for t by (cases t) (simp_all add: cm_new_def)
  with None assms show ?thesis
    by (auto simp: registerCamera_def Let_def cameras_inv_def camera_ok_def cm_new_def visual_def split: option.splits)
next
  case (Some c)
  obtain c' where c': "fst (registerCamera i g) = put_camera (ci_serial i) c' g" "cm_identity c' = i" "cm_motion c' = cm_motion c"
    "cm_rawMotion c' = cm_rawMotion c" "cm_person c' = cm_person c" "cm_ai c' = cm_ai c" "cm_doorbell c' = cm_doorbell c"
    by (simp add: registerCamera_def Some Let_def)
  have "camera_flag c' t = camera_flag c t" for t by (cases t) (simp_all add: c')
  moreover have "visual c' = visual c" by (rule visual_cong) (simp_all add: c')
  ultimately show ?thesis using assms Some by (auto simp: c' cameras_inv_def camera_ok_def split: option.splits)
qed

section \<open>Sensors\<close>

lemma sensor_kinds: "k \<in> set e21DetectionKinds"
  by (cases k) (simp_all add: e21DetectionKinds_def)

lemma registerSensor_sensors:
  assumes "sensors_inv g" "\<And>k. sn_detected x k = Some True \<Longrightarrow> map_of (gs_sensors g) (sn_serial x) \<noteq> None \<and>
    sn_detected (the (map_of (gs_sensors g) (sn_serial x))) k = Some True"
  shows "sensors_inv (fst (registerSensor x g))"
proof -
  define e where "e = map_of (gs_sensors g) (sn_serial x)"
  have flag: "CapKind k \<in> set (sn_capabilities x) \<and> (\<exists>y. e = Some y \<and> sn_detected y k = Some True)"
    if "sensor_flag e x k = Some True" for k
    using that assms(2) [of k] unfolding e_def [symmetric]
    by (cases e) (auto simp: sensor_flag_def split: if_splits option.splits)
  let ?ts = "map (TSensorDetection (sn_serial x)) (filter (\<lambda>k. CapKind k \<notin> set (sn_capabilities x)) e21DetectionKinds)"
  let ?x = "x\<lparr>sn_detected := sensor_flag e x\<rparr>"
  have new: "CapKind k \<in> set (sn_capabilities x) \<and>
      (ticking g (TSensorDetection (sn_serial x) k) \<or> k = SkMotion \<and> ticking g (TSensorMotion (sn_serial x)))"
    if h: "sensor_flag e x k = Some True" for k
  proof -
    obtain y where y: "map_of (gs_sensors g) (sn_serial x) = Some y" "sn_detected y k = Some True"
      and c: "CapKind k \<in> set (sn_capabilities x)"
      using flag [OF h] by (auto simp: e_def)
    from assms(1) y have "ticking g (TSensorDetection (sn_serial x) k) \<or> k = SkMotion \<and> ticking g (TSensorMotion (sn_serial x))"
      unfolding sensors_inv_def by blast
    with c show ?thesis by blast
  qed
  have "sensors_inv (put_sensor (sn_serial x) ?x (cancel_timers ?ts g))"
    unfolding sensors_inv_def
  proof (intro allI impI)
    fix s z
    assume z: "map_of (gs_sensors (put_sensor (sn_serial x) ?x (cancel_timers ?ts g))) s = Some z"
    show "sn_serial z = s \<and> (\<forall>k. sn_detected z k = Some True \<longrightarrow> CapKind k \<in> set (sn_capabilities z) \<and>
           (ticking (put_sensor (sn_serial x) ?x (cancel_timers ?ts g)) (TSensorDetection s k) \<or>
            k = SkMotion \<and> ticking (put_sensor (sn_serial x) ?x (cancel_timers ?ts g)) (TSensorMotion s)))"
    proof (cases "s = sn_serial x")
      case True
      with z have z': "z = ?x" by simp
      have "ticking (put_sensor (sn_serial x) ?x (cancel_timers ?ts g)) (TSensorDetection s k) = ticking g (TSensorDetection s k)"
        if "sensor_flag e x k = Some True" for k
        using new [OF that] by auto
      with new show ?thesis unfolding z' True by (auto 4 3)
    next
      case False
      with z have "map_of (gs_sensors g) s = Some z" by simp
      with assms(1) False show ?thesis unfolding sensors_inv_def by auto
    qed
  qed
  then show ?thesis by (simp add: registerSensor_def Let_def e_def)
qed

lemma registerSensor_other:
  "gs_cameras (fst (registerSensor x g)) = gs_cameras g"
  "camera_timer t \<Longrightarrow> ticking (fst (registerSensor x g)) t = ticking g t"
  "timers_inv l g \<Longrightarrow> timers_inv l (fst (registerSensor x g))"
  by (auto simp: registerSensor_def Let_def timers_inv_cancel)

lemma recordSensorMotion_sensors: "sensors_inv g \<Longrightarrow> sensors_inv (fst (recordSensorMotion hold s b now g))"
  unfolding sensors_inv_def by (auto simp: recordSensorMotion_def Let_def split: option.splits if_splits)

lemma recordSensorDetection_sensors: "sensors_inv g \<Longrightarrow> sensors_inv (fst (recordSensorDetection hold s k b now g))"
  unfolding sensors_inv_def by (auto simp: recordSensorDetection_def Let_def split: option.splits if_splits)

lemma sensor_records_other:
  "gs_cameras (fst (recordSensorMotion hold s b now g)) = gs_cameras g"
  "camera_timer t \<Longrightarrow> ticking (fst (recordSensorMotion hold s b now g)) t = ticking g t"
  "timers_inv l g \<Longrightarrow> now + hold \<le> l \<Longrightarrow> timers_inv l (fst (recordSensorMotion hold s b now g))"
  "gs_cameras (fst (recordSensorDetection hold s k b now g)) = gs_cameras g"
  "camera_timer t \<Longrightarrow> ticking (fst (recordSensorDetection hold s k b now g)) t = ticking g t"
  "timers_inv l g \<Longrightarrow> now + hold \<le> l \<Longrightarrow> timers_inv l (fst (recordSensorDetection hold s k b now g))"
  by (auto simp: recordSensorMotion_def recordSensorDetection_def Let_def timers_inv_schedule split: option.splits)

section \<open>Timer callbacks\<close>

lemma schedule_cancel: "schedule hold t b now (cancel_timers [t] g) = schedule hold t b now g"
  by (simp add: schedule_def cancel_timers_def Let_def AList.delete_idem)

lemma record_cancel:
  "recordMotion hold s b t u now (cancel_timers [TMotion s] g) = recordMotion hold s b t u now g"
  "recordPerson hold s b n t i u now (cancel_timers [TPerson s] g) = recordPerson hold s b n t i u now g"
  "recordDetection hold s k b t u now (cancel_timers [TDetection s k] g) = recordDetection hold s k b t u now g"
  by (simp_all add: recordMotion_def recordPerson_def recordDetection_def schedule_cancel split: option.split)

lemma doorbell_cancel:
  assumes "cameras_inv dbs g" "ticking g (TDoorbell s)"
  shows "recordDoorbell hold s b t n i u now (cancel_timers [TDoorbell s] g) = recordDoorbell hold s b t n i u now g" "dbs s"
proof -
  obtain c where c: "map_of (gs_cameras g) s = Some c" "cm_doorbell c"
    using assms by (auto simp: cameras_inv_def split: option.splits)
  then show "dbs s" using camera_doorbell [OF assms(1)] by blast
  then have "ci_doorbellSupported (cm_identity c)" using c assms(1) by (auto simp: cameras_inv_def camera_ok_def)
  then show "recordDoorbell hold s b t n i u now (cancel_timers [TDoorbell s] g) = recordDoorbell hold s b t n i u now g"
    using c by (simp add: recordDoorbell_def schedule_cancel)
qed

text \<open>Cancelling a sensor timer whose flag cannot be raised is harmless.\<close>

lemma sensor_fire:
  assumes "sensors_inv g"
  shows "sensors_inv (fst (recordSensorMotion hold s False now (cancel_timers [TSensorMotion s] g)))"
    "sensors_inv (fst (recordSensorDetection hold s k False now (cancel_timers [TSensorDetection s k] g)))"
  using assms unfolding sensors_inv_def
  by (auto simp: recordSensorMotion_def recordSensorDetection_def Let_def split: option.splits if_splits) blast+

lemma fire_inv:
  assumes "gs_inv hold dbs l g" "fire hold t now g = Some (g', w)" "now \<le> l"
  shows "gs_inv hold dbs l g'"
proof -
  have i: "cameras_inv dbs g" "sensors_inv g" "timers_inv (l + hold) g" using assms(1) by (simp_all add: gs_inv_def)
  have tick: "ticking g t" using assms(2) by (auto simp: fire_def ticking_def split: option.splits)
  have le: "now + hold \<le> l + hold" using assms(3) by simp
  note tc = timers_inv_schedule [OF i(3) le]
  have cc: "cameras_inv dbs (cancel_timers [t] g)" if "\<not> camera_timer t"
    by (rule cameras_inv_cong [OF i(1)]) (use that in auto)
  have g': "Some (g', w) = (case t of
       TMotion serial \<Rightarrow> recordMotion hold serial False now [] now g
     | TPerson serial \<Rightarrow> recordPerson hold serial False None now None [] now g
     | TDoorbell serial \<Rightarrow> recordDoorbell hold serial False now None None [] now g
     | TDetection serial kind \<Rightarrow> recordDetection hold serial kind False now [] now g
     | TSensorMotion serial \<Rightarrow> Some (recordSensorMotion hold serial False now (cancel_timers [t] g))
     | TSensorDetection serial kind \<Rightarrow> Some (recordSensorDetection hold serial kind False now (cancel_timers [t] g)))"
    using assms(2) tick doorbell_cancel(1) [OF i(1)]
    by (cases t) (auto simp: fire_def Let_def record_cancel split: option.splits if_splits)
  show ?thesis
  proof (cases t)
    case (TMotion s)
    then have r: "recordMotion hold s False now [] now g = Some (g', w)" using g' by simp
    from record_frames(1) [OF r] recordMotion_cameras [OF i(1) r] i(2) tc show ?thesis
      by (auto simp: gs_inv_def sensors_inv_schedule)
  next
    case (TPerson s)
    then have r: "recordPerson hold s False None now None [] now g = Some (g', w)" using g' by simp
    from record_frames(2) [OF r] recordPerson_cameras [OF i(1) r] i(2) tc show ?thesis
      by (auto simp: gs_inv_def sensors_inv_schedule)
  next
    case (TDoorbell s)
    then have r: "recordDoorbell hold s False now None None [] now g = Some (g', w)" using g' by simp
    have "dbs s" using doorbell_cancel(2) [OF i(1)] tick TDoorbell by simp
    from record_frames(4) [OF r] recordDoorbell_cameras [OF i(1) r this] i tc show ?thesis
      by (auto simp: gs_inv_def sensors_inv_schedule)
  next
    case (TDetection s k)
    then have r: "recordDetection hold s k False now [] now g = Some (g', w)" using g' by simp
    from record_frames(3) [OF r] recordDetection_cameras [OF i(1) r] i(2) tc show ?thesis
      by (auto simp: gs_inv_def sensors_inv_schedule)
  next
    case (TSensorMotion s)
    then have r: "g' = fst (recordSensorMotion hold s False now (cancel_timers [t] g))" using g' by (auto simp: prod_eq_iff)
    have "cameras_inv dbs g'" unfolding r
      by (rule cameras_inv_cong [OF cc]) (use TSensorMotion in \<open>auto simp: sensor_records_other\<close>)
    moreover have "timers_inv (l + hold) g'" unfolding r
      by (rule sensor_records_other(3)) (use i(3) le in \<open>auto intro: timers_inv_cancel\<close>)
    ultimately show ?thesis using sensor_fire(1) [OF i(2)] r TSensorMotion by (simp add: gs_inv_def)
  next
    case (TSensorDetection s k)
    then have r: "g' = fst (recordSensorDetection hold s k False now (cancel_timers [t] g))" using g' by (auto simp: prod_eq_iff)
    have "cameras_inv dbs g'" unfolding r
      by (rule cameras_inv_cong [OF cc]) (use TSensorDetection in \<open>auto simp: sensor_records_other\<close>)
    moreover have "timers_inv (l + hold) g'" unfolding r
      by (rule sensor_records_other(6)) (use i(3) le in \<open>auto intro: timers_inv_cancel\<close>)
    ultimately show ?thesis using sensor_fire(2) [OF i(2)] r TSensorDetection by (simp add: gs_inv_def)
  qed
qed

lemma gs_step_inv:
  assumes "gs_inv hold dbs l g" "admissible dbs e" "\<And>now. event_time e = Some now \<Longrightarrow> now \<le> l"
  shows "gs_inv hold dbs l (fst (gs_step hold g e))"
proof (cases "gs_try hold g e")
  case None
  with assms(1) show ?thesis by (simp add: gs_step_def)
next
  case (Some r)
  obtain g' w where r: "r = (g', w)" by (cases r)
  have t: "gs_try hold g e = Some (g', w)" using Some r by simp
  have i: "cameras_inv dbs g" "sensors_inv g" "timers_inv (l + hold) g" using assms(1) by (simp_all add: gs_inv_def)
  have le: "now + hold \<le> l + hold" if "event_time e = Some now" for now using assms(3) [OF that] by simp
  have same: "gs_inv hold dbs l g'" if "gs_sensors g' = gs_sensors g \<and> gs_timers g' = gs_timers g" "cameras_inv dbs g'"
    using that i by (simp add: gs_inv_def sensors_inv_def timers_inv_def ticking_def)
  have sen: "gs_inv hold dbs l g'" if "gs_cameras g' = gs_cameras g" "\<And>t. camera_timer t \<Longrightarrow> ticking g' t = ticking g t"
    "sensors_inv g'" "timers_inv (l + hold) g'"
    using that i(1) cameras_inv_cong [of dbs g g'] by (simp add: gs_inv_def)
  have "gs_inv hold dbs l g'"
  proof (cases e)
    case (GRegister x)
    then have "g' = fst (registerCamera x g)" using t by (auto simp: prod_eq_iff)
    then show ?thesis using registerCamera_cameras [OF i(1), of x] assms(2) GRegister
      by (intro same) (auto simp: registerCamera_def Let_def)
  next
    case (GMotion s b x u now)
    then have r: "recordMotion hold s b x u now g = Some (g', w)" using t by simp
    from record_frames(1) [OF r] recordMotion_cameras [OF i(1) r] i(2) timers_inv_schedule [OF i(3) le] GMotion show ?thesis
      by (auto simp: gs_inv_def sensors_inv_schedule)
  next
    case (GPerson s b n x j u now)
    then have r: "recordPerson hold s b n x j u now g = Some (g', w)" using t by simp
    from record_frames(2) [OF r] recordPerson_cameras [OF i(1) r] i(2) timers_inv_schedule [OF i(3) le] GPerson show ?thesis
      by (auto simp: gs_inv_def sensors_inv_schedule)
  next
    case (GEnrich s j n b)
    then have r: "enrichName s j n b g = Some (g', w)" using t by simp
    from keep_frames(1) [OF r] keep_cameras(1) [OF i(1) r] show ?thesis by (rule same)
  next
    case (GDetection s k b x u now)
    then have r: "recordDetection hold s k b x u now g = Some (g', w)" using t by simp
    from record_frames(3) [OF r] recordDetection_cameras [OF i(1) r] i(2) timers_inv_schedule [OF i(3) le] GDetection show ?thesis
      by (auto simp: gs_inv_def sensors_inv_schedule)
  next
    case (GDoorbell s b x n j u now)
    then have r: "recordDoorbell hold s b x n j u now g = Some (g', w)" using t by simp
    show ?thesis
    proof (cases "g' = g")
      case False
      obtain c where c: "map_of (gs_cameras g) s = Some c" using r by (auto simp: recordDoorbell_def split: option.splits)
      have "ci_doorbellSupported (cm_identity c)" using r c False by (auto simp: recordDoorbell_def split: if_splits)
      then have "dbs s" using i(1) c by (auto simp: cameras_inv_def camera_ok_def)
      from record_frames(4) [OF r] recordDoorbell_cameras [OF i(1) r this] False i(2) timers_inv_schedule [OF i(3) le] GDoorbell
      show ?thesis by (auto simp: gs_inv_def sensors_inv_schedule)
    qed (use assms(1) in simp)
  next
    case (GSnapshot s x)
    then have r: "updateSnapshot s x g = Some (g', w)" using t by simp
    from keep_frames(2) [OF r] keep_cameras(2) [OF i(1) r] show ?thesis by (rule same)
  next
    case (GEventImage s x)
    then have r: "updateEventImage s x g = Some (g', w)" using t by simp
    from keep_frames(3) [OF r] keep_cameras(3) [OF i(1) r] show ?thesis by (rule same)
  next
    case (GStream s st v x now)
    then have r: "updateStream s st v x now g = Some (g', w)" using t by simp
    from keep_frames(4) [OF r] keep_cameras(4) [OF i(1) r] show ?thesis by (rule same)
  next
    case (GSensor x)
    then have g': "g' = fst (registerSensor x g)" using t by (auto simp: prod_eq_iff)
    have "sensors_inv g'" unfolding g'
      by (rule registerSensor_sensors [OF i(2)]) (use assms(2) GSensor in simp)
    then show ?thesis using i(3) by (intro sen) (auto simp: g' registerSensor_other)
  next
    case (GContact s b)
    then have g': "g' = fst (updateSensorContact s b g)" using t by (auto simp: prod_eq_iff)
    show ?thesis
    proof (cases "g' = g")
      case False
      then obtain x where x: "map_of (gs_sensors g) s = Some x" "g' = fst (registerSensor (x\<lparr>sn_contactOpen := Some b\<rparr>) g)"
        using g' by (auto simp: updateSensorContact_def split: option.splits if_splits)
      have s: "sn_serial x = s" using i(2) x(1) by (auto simp: sensors_inv_def)
      have "sensors_inv g'" unfolding x(2)
        by (rule registerSensor_sensors [OF i(2)]) (use x(1) s in simp)
      then show ?thesis using i(3) by (intro sen) (auto simp: x(2) registerSensor_other)
    qed (use assms(1) in simp)
  next
    case (GSensorMotion s b now)
    then have g': "g' = fst (recordSensorMotion hold s b now g)" using t by (auto simp: prod_eq_iff)
    show ?thesis using recordSensorMotion_sensors [OF i(2)] i(3) le GSensorMotion
      by (intro sen) (auto simp: g' sensor_records_other)
  next
    case (GSensorDetection s k b now)
    then have g': "g' = fst (recordSensorDetection hold s k b now g)" using t by (auto simp: prod_eq_iff)
    show ?thesis using recordSensorDetection_sensors [OF i(2)] i(3) le GSensorDetection
      by (intro sen) (auto simp: g' sensor_records_other)
  next
    case (GFire x now)
    then have "fire hold x now g = Some (g', w)" using t by simp
    then show ?thesis using fire_inv [OF assms(1)] assms(3) GFire by simp
  qed
  then show ?thesis by (simp add: gs_step_def Some r)
qed

definition event_ok :: "(string \<Rightarrow> bool) \<Rightarrow> int \<Rightarrow> gateway_event \<Rightarrow> bool" where
  "event_ok dbs l e \<longleftrightarrow> admissible dbs e \<and> (case event_time e of None \<Rightarrow> True | Some now \<Rightarrow> now \<le> l)"

interpretation gs: invariant_machine "gs_step hold" "gs_inv hold dbs l" "event_ok dbs l"
  by unfold_locales (auto intro: gs_step_inv simp: event_ok_def)

lemma gs_new_inv: "gs_inv hold dbs l gs_new"
  by (simp add: gs_inv_def cameras_inv_def sensors_inv_def timers_inv_def ticking_def gs_new_def)

text \<open>A callback that is due removes its timer and starts none.\<close>

lemma gs_inv_later: "gs_inv hold dbs l g \<Longrightarrow> l \<le> l' \<Longrightarrow> gs_inv hold dbs l' g"
  by (force simp: gs_inv_def timers_inv_def)

lemma fire_ticking:
  fixes x :: int
  assumes "gs_inv hold dbs l g" "map_of (gs_timers g) t = Some due" "due \<le> now"
  shows "ticking (fst (gs_step hold g (GFire t now))) t' \<longleftrightarrow> t' \<noteq> t \<and> ticking g t'"
    "map_of (gs_timers (fst (gs_step hold g (GFire t now)))) t' = Some x \<Longrightarrow> map_of (gs_timers g) t' = Some x"
proof -
  have i: "cameras_inv dbs g" "sensors_inv g" using assms(1) by (simp_all add: gs_inv_def)
  have tick: "ticking g t" using assms(2) by (simp add: ticking_def)
  have st: "map_of (gs_timers (schedule hold t False now g)) t' = (if t' = t then None else map_of (gs_timers g) t')" for t' g
    by (simp add: schedule_def js_get_delete)
  have ct: "map_of (gs_timers (cancel_timers [t] g)) t' = (if t' = t then None else map_of (gs_timers g) t')" for t' g
    by (simp add: cancel_timers_def js_get_delete)
  have "\<exists>c. map_of (gs_cameras g) (timer_serial t) = Some c" if "camera_timer t"
    using i(1) tick that by (auto simp: cameras_inv_def split: option.splits)
  then have g': "map_of (gs_timers (fst (gs_step hold g (GFire t now)))) t' = (if t' = t then None else map_of (gs_timers g) t')" for t'
    using assms(2,3) st ct
    by (cases t) (auto simp: gs_step_def fire_def Let_def recordMotion_def recordPerson_def recordDoorbell_def recordDetection_def
      recordSensorMotion_def recordSensorDetection_def split: option.split)
  show "ticking (fst (gs_step hold g (GFire t now))) t' \<longleftrightarrow> t' \<noteq> t \<and> ticking g t'" by (simp add: ticking_def g')
  show "map_of (gs_timers (fst (gs_step hold g (GFire t now)))) t' = Some x \<Longrightarrow> map_of (gs_timers g) t' = Some x"
    by (simp add: g' split: if_splits)
qed

definition fire_all :: "int \<Rightarrow> timer list \<Rightarrow> gateway_event list" where
  "fire_all now ts = map (\<lambda>t. GFire t now) ts"

lemma fire_all_ticking:
  "gs_inv hold dbs l g \<Longrightarrow> distinct ts \<Longrightarrow> (\<forall>t\<in>set ts. ticking g t) \<Longrightarrow>
     (\<forall>t due. map_of (gs_timers g) t = Some due \<longrightarrow> due \<le> now) \<Longrightarrow> now \<le> l \<Longrightarrow>
     gs_inv hold dbs l (run_state (gs_step hold) g (fire_all now ts)) \<and>
     (\<forall>t. ticking (run_state (gs_step hold) g (fire_all now ts)) t \<longleftrightarrow> t \<notin> set ts \<and> ticking g t)"
proof (induction ts arbitrary: g)
  case (Cons t ts)
  let ?g = "fst (gs_step hold g (GFire t now))"
  obtain due where due: "map_of (gs_timers g) t = Some due" using Cons.prems(3) by (auto simp: ticking_def)
  then have d: "due \<le> now" using Cons.prems(4) by blast
  note f = fire_ticking [OF Cons.prems(1) due d]
  have i: "gs_inv hold dbs l ?g" by (rule gs_step_inv [OF Cons.prems(1)]) (use Cons.prems(5) in simp_all)
  have "\<forall>t'\<in>set ts. ticking ?g t'" using f(1) Cons.prems(2,3) by auto
  moreover have "\<forall>t due. map_of (gs_timers ?g) t = Some due \<longrightarrow> due \<le> now" using f(2) Cons.prems(4) by blast
  ultimately show ?case using Cons.IH [OF i] Cons.prems(2,5) f(1)
    by (auto simp: fire_all_def run_state_Cons simp del: run.simps)
qed (simp add: fire_all_def)

definition quiet :: "gstate \<Rightarrow> bool" where
  "quiet g \<longleftrightarrow> (\<forall>s c. map_of (gs_cameras g) s = Some c \<longrightarrow>
       \<not> cm_rawMotion c \<and> \<not> cm_motion c \<and> \<not> cm_person c \<and> \<not> cm_doorbell c \<and> (\<forall>k. \<not> cm_ai c k)) \<and>
     (\<forall>s x k. map_of (gs_sensors g) s = Some x \<longrightarrow> sn_detected x k \<noteq> Some True)"

lemma camera_timer_flags:
  assumes "cameras_inv dbs g" "map_of (gs_cameras g) s = Some c"
  shows "ticking g (TMotion s) = cm_rawMotion c" "ticking g (TPerson s) = cm_person c"
    "ticking g (TDoorbell s) = cm_doorbell c" "ticking g (TDetection s k) = cm_ai c k" "cm_motion c = visual c"
proof -
  have t: "ticking g t = camera_flag c t" if "camera_timer t" "timer_serial t = s" for t
    using assms that unfolding cameras_inv_def by auto
  show "ticking g (TMotion s) = cm_rawMotion c" "ticking g (TPerson s) = cm_person c"
    "ticking g (TDoorbell s) = cm_doorbell c" "ticking g (TDetection s k) = cm_ai c k"
    using t [of "TMotion s"] t [of "TPerson s"] t [of "TDoorbell s"] t [of "TDetection s k"] by simp_all
  show "cm_motion c = visual c" using assms by (auto simp: cameras_inv_def camera_ok_def)
qed

lemma idle_quiet:
  assumes "gs_inv hold dbs l g" "\<And>t. \<not> ticking g t"
  shows "quiet g"
proof -
  have c: "cameras_inv dbs g" "sensors_inv g" using assms(1) by (simp_all add: gs_inv_def)
  from camera_timer_flags [OF c(1)] have "\<not> cm_rawMotion x \<and> \<not> cm_motion x \<and> \<not> cm_person x \<and> \<not> cm_doorbell x \<and> (\<forall>k. \<not> cm_ai x k)"
    if "map_of (gs_cameras g) s = Some x" for s x
    using assms(2) that by (metis visual_def)
  moreover have "sn_detected x k \<noteq> Some True" if "map_of (gs_sensors g) s = Some x" for s x k
    using c(2) assms(2) that by (auto simp: sensors_inv_def)
  ultimately show ?thesis by (auto simp: quiet_def)
qed

section \<open>Properties\<close>

text \<open>C29: After any sequence of registrations, detections, enrichments, image and stream updates and timer
  callbacks, with these limits: a camera is registered each time with the same doorbell support, no sensor is registered with a raised flag
  (the providers register sensors with lowered flags, and doorbell support goes with the device type; otherwise the code can leave a flag up with no timer to take it down),
  and no clock reading is later than \<open>l\<close>. Then every camera's motion flag is the disjunction of raw motion, person and the visual
  detections, each detection flag of a camera is up exactly while its hold timer is pending, no timer is due later than one hold after \<open>l\<close>,
  and once all pending timers have fired every camera and sensor is quiet.\<close>

theorem detections_expire:
  fixes hold l :: int and es :: "gateway_event list"
  defines "g \<equiv> run_state (gs_step hold) gs_new es"
  assumes "0 \<le> hold" "\<forall>e\<in>set es. event_ok dbs l e"
  shows "(\<forall>s c. map_of (gs_cameras g) s = Some c \<longrightarrow>
      cm_motion c = visual c \<and> (cm_rawMotion c = ticking g (TMotion s)) \<and> (cm_person c = ticking g (TPerson s)) \<and>
      (cm_doorbell c = ticking g (TDoorbell s)) \<and> (\<forall>k. cm_ai c k = ticking g (TDetection s k))) \<and>
    (\<forall>t due. map_of (gs_timers g) t = Some due \<longrightarrow> due \<le> l + hold) \<and>
    quiet (run_state (gs_step hold) g (fire_all (l + hold) (map fst (gs_timers g))))"
proof -
  have i: "gs_inv hold dbs l g" unfolding g_def by (rule gs.run_inv [OF gs_new_inv assms(3)])
  then have c: "cameras_inv dbs g" and t: "timers_inv (l + hold) g" by (simp_all add: gs_inv_def)
  have tk: "ticking g t \<longleftrightarrow> t \<in> set (map fst (gs_timers g))" for t
    by (auto simp: ticking_def map_of_eq_None_iff)
  have due: "\<forall>t due. map_of (gs_timers g) t = Some due \<longrightarrow> due \<le> l + hold" using t by (simp add: timers_inv_def)
  have d: "distinct (map fst (gs_timers g))" using t by (simp add: timers_inv_def js_wf_def)
  have i': "gs_inv hold dbs (l + hold) g" by (rule gs_inv_later [OF i]) (use assms(2) in simp)
  from fire_all_ticking [OF i' d _ due order_refl] tk
  have "quiet (run_state (gs_step hold) g (fire_all (l + hold) (map fst (gs_timers g))))"
    by (intro idle_quiet) auto
  then show ?thesis using camera_timer_flags [OF c] due by auto
qed

lemma detections_expire_witness:
  "quiet (run_state (gs_step 10) (run_state (gs_step 10) gs_new
     [GRegister \<lparr> ci_serial = ''a'', ci_name = ''n'', ci_model = ''m'', ci_stationSerial = ''s'', ci_doorbellSupported = True \<rparr>,
      GMotion ''a'' True 3 ''u'' 5])
     (fire_all (5 + 10) (map fst (gs_timers (run_state (gs_step 10) gs_new
     [GRegister \<lparr> ci_serial = ''a'', ci_name = ''n'', ci_model = ''m'', ci_stationSerial = ''s'', ci_doorbellSupported = True \<rparr>,
      GMotion ''a'' True 3 ''u'' 5])))))"
  by (rule detections_expire [where dbs = "\<lambda>_. True", THEN conjunct2, THEN conjunct2])
     (simp_all add: event_ok_def)

text \<open>Adding a recognised name never raises or clears a flag, starts or stops a timer, changes another
  camera or emits a detection: it can only fill the name of the last detection, when that is a still
  unrecognised person or doorbell event owned by the given non-empty identity, keeping its id, kind
  and time; a name once set is not replaced.\<close>
theorem enrichment_only_names:
  assumes "gs_step hold g (GEnrich serial ident name doorbell) = (g', w)"
  shows "gs_timers g' = gs_timers g \<and> gs_sensors g' = gs_sensors g \<and>
    (\<forall>s. s \<noteq> serial \<longrightarrow> map_of (gs_cameras g') s = map_of (gs_cameras g) s) \<and>
    (\<forall>s d. OutDetection s d \<notin> set w) \<and>
    (g' = g \<or>
      (\<exists>c d n. map_of (gs_cameras g) serial = Some c \<and> cm_lastDetection c = Some d \<and> \<not> de_recognized d \<and>
         ident \<noteq> [] \<and> (if doorbell then cm_doorbellEvent c else cm_personEvent c) = Some ident \<and>
         de_kind d = (if doorbell then DkDoorbell else DkPerson) \<and> normalizePersonName (Some name) = Some n \<and>
         map_of (gs_cameras g') serial =
           Some (c\<lparr>cm_lastDetection := Some (d\<lparr>de_personName := Some n, de_recognized := True\<rparr>)\<rparr>) \<and>
         (\<forall>ident' name'. fst (gs_step hold g' (GEnrich serial ident' name' doorbell)) = g')))"
proof (cases "enrichName serial ident name doorbell g")
  case None
  with assms show ?thesis by (simp add: gs_step_def)
next
  case (Some r)
  with assms have r: "enrichName serial ident name doorbell g = Some (g', w)" by (simp add: gs_step_def)
  have "gs_timers g' = gs_timers g \<and> gs_sensors g' = gs_sensors g" using keep_frames(1) [OF r] by simp
  moreover have "(\<forall>s. s \<noteq> serial \<longrightarrow> map_of (gs_cameras g') s = map_of (gs_cameras g) s) \<and> (\<forall>s d. OutDetection s d \<notin> set w)"
    using r by (auto simp: enrichName_def Let_def split: option.splits if_splits)
  moreover have "g' = g \<or>
      (\<exists>c d n. map_of (gs_cameras g) serial = Some c \<and> cm_lastDetection c = Some d \<and> \<not> de_recognized d \<and>
         ident \<noteq> [] \<and> (if doorbell then cm_doorbellEvent c else cm_personEvent c) = Some ident \<and>
         de_kind d = (if doorbell then DkDoorbell else DkPerson) \<and> normalizePersonName (Some name) = Some n \<and>
         map_of (gs_cameras g') serial =
           Some (c\<lparr>cm_lastDetection := Some (d\<lparr>de_personName := Some n, de_recognized := True\<rparr>)\<rparr>))"
    using r by (simp add: enrichName_def Let_def split: option.splits if_splits) auto
  moreover have "fst (gs_step hold g' (GEnrich serial ident' name' doorbell)) = g'"
    if "map_of (gs_cameras g') serial = Some (c\<lparr>cm_lastDetection := Some (d\<lparr>de_personName := Some n, de_recognized := True\<rparr>)\<rparr>)"
    for c d n ident' name'
    using that by (simp add: gs_step_def enrichName_def Let_def)
  ultimately show ?thesis by blast
qed

lemma enrichment_only_names_witness:
  "let g = run_state (gs_step 10) gs_new
     [GRegister \<lparr> ci_serial = ''a'', ci_name = ''n'', ci_model = ''m'', ci_stationSerial = ''s'', ci_doorbellSupported = True \<rparr>,
      GPerson ''a'' True None 3 (Some ''e'') ''u'' 5];
    g' = fst (gs_step 10 g (GEnrich ''a'' ''e'' '' Bob '' False)) in
   gs_timers g' = gs_timers g \<and> map_option de_personName (cm_lastDetection (the (map_of (gs_cameras g') ''a''))) = Some (Some ''Bob'')"
proof -
  let ?g = "run_state (gs_step 10) gs_new
     [GRegister \<lparr> ci_serial = ''a'', ci_name = ''n'', ci_model = ''m'', ci_stationSerial = ''s'', ci_doorbellSupported = True \<rparr>,
      GPerson ''a'' True None 3 (Some ''e'') ''u'' 5]"
  have "gs_timers (fst (gs_step 10 ?g (GEnrich ''a'' ''e'' '' Bob '' False))) = gs_timers ?g"
    using enrichment_only_names [OF surjective_pairing] by blast
  moreover have "map_option de_personName (cm_lastDetection (the (map_of (gs_cameras
      (fst (gs_step 10 ?g (GEnrich ''a'' ''e'' '' Bob '' False)))) ''a''))) = Some (Some ''Bob'')"
    by (simp add: gs_step_def enrichName_def recordPerson_def registerCamera_def put_camera_def schedule_def gs_new_def
      refresh_def normalizePersonName_def trim_def js_space_def lower_def Let_def)
  ultimately show ?thesis by (simp only: Let_def)
qed

end
