(* ===== verification/Homebase_Framing.thy ===== *)
theory Homebase_Framing
  imports Ppcs_Framing
begin

text \<open>
  The command parser of \<open>HomeBasePpcsSession\<close> (stream/homebase-ppcs.ts, \<open>#consumeData\<close>). Unlike the
  media parser it resynchronises as often as needed and keeps three bytes of a stream without a marker,
  so it is a total chunk parser: frames, retained bytes and the fatal oversize error do not depend on
  how any byte stream, damaged or not, is cut into datagrams.
\<close>

record hb_frame =
  hf_command :: nat
  hf_channel :: byte
  hf_signCode :: byte
  hf_result :: bool
  hf_payload :: bytes

definition isHomeBaseResultFrame :: "bytes \<Rightarrow> nat \<Rightarrow> bool" where
  "isHomeBaseResultFrame frame payloadLength \<longleftrightarrow> length frame \<ge> 15 \<and> (frame ! 14 = 1 \<or> payloadLength = 4)"

datatype hb_end = HbThrow | HbKeep bytes

definition hb_frame_of :: "bytes \<Rightarrow> hb_frame" where
  "hb_frame_of pending =
     (let n = u32le pending 6 in
      \<lparr> hf_command = u16le pending 4, hf_channel = pending ! 12, hf_signCode = pending ! 13,
        hf_result = isHomeBaseResultFrame pending n, hf_payload = slice 16 (16 + n) pending \<rparr>)"

text \<open>The loop of \<open>#consumeData\<close>: resynchronisations, frames, and what is kept (or the throw).\<close>

function hb_loop :: "bytes \<Rightarrow> nat \<times> hb_frame list \<times> hb_end" where
  "hb_loop p =
     (if length p < 4 then (0, [], HbKeep p)
      else
        (case find_sub MAGIC p of
           None \<Rightarrow> (1, [], HbKeep (drop (length p - 3) p))
         | Some m \<Rightarrow>
             (let q = drop m p; r = (if m = 0 then 0 else 1); n = u32le q 6 in
              if length q < 16 then (r, [], HbKeep q)
              else if n > 16 * 1024 * 1024 then (r, [], HbThrow)
              else if length q < 16 + n then (r, [], HbKeep q)
              else (let (r', fs, e) = hb_loop (drop (16 + n) q) in (r + r', hb_frame_of q # fs, e)))))"
  by pat_completeness auto
termination
  by (relation "measure length") auto

declare hb_loop.simps [simp del]

abbreviation hb_frames :: "bytes \<Rightarrow> hb_frame list" where "hb_frames p \<equiv> fst (snd (hb_loop p))"
abbreviation hb_last :: "bytes \<Rightarrow> hb_end" where "hb_last p \<equiv> snd (snd (hb_loop p))"

lemma hb_short: "length p < 4 \<Longrightarrow> hb_loop p = (0, [], HbKeep p)"
  by (simp add: hb_loop.simps)

lemma hb_none: "\<not> length p < 4 \<Longrightarrow> find_sub MAGIC p = None \<Longrightarrow> hb_loop p = (1, [], HbKeep (drop (length p - 3) p))"
  by (simp add: hb_loop.simps)

lemma find_sub_drop:
  assumes "find_sub pat xs = Some m"
  shows "find_sub pat (drop m xs) = Some 0"
  using find_sub_Some [OF assms] by (intro find_sub_unique) auto

text \<open>From the marker on, the loop is the loop of the rest.\<close>

lemma hb_marker:
  assumes "find_sub MAGIC p = Some m"
  shows "hb_frames p = hb_frames (drop m p)" "hb_last p = hb_last (drop m p)"
proof -
  have b: "m + 4 \<le> length p" using find_sub_bound [OF assms] by simp
  have l: "\<not> length p < 4" "\<not> length (drop m p) < 4" using b by simp_all
  have "hb_frames p = hb_frames (drop m p) \<and> hb_last p = hb_last (drop m p)"
    using l assms find_sub_drop [OF assms]
    by (simp add: hb_loop.simps [of p] hb_loop.simps [of "drop m p"] Let_def split_beta)
  then show "hb_frames p = hb_frames (drop m p)" "hb_last p = hb_last (drop m p)" by simp_all
qed

lemma starts_with_nth: "starts_with pat xs \<longleftrightarrow> length pat \<le> length xs \<and> (\<forall>i<length pat. xs ! i = pat ! i)"
  using starts_with_length [of pat xs]
  by (auto simp: starts_with_def list_eq_iff_nth_eq min_def)

text \<open>Dropping markerless bytes but the last three hides no marker.\<close>

lemma junk_no_marker:
  assumes "find_sub MAGIC xs = None" "j < length xs - 3"
  shows "\<not> starts_with MAGIC (drop j (xs @ ys))"
proof
  assume a: "starts_with MAGIC (drop j (xs @ ys))"
  have "length MAGIC \<le> length (drop j xs)" "j \<le> length xs" using assms(2) by auto
  then have "starts_with MAGIC (drop j xs)" using a starts_with_restrict [of MAGIC "drop j xs" ys] by simp
  then show False using find_sub_None [OF assms(1)] by blast
qed

lemma junk_find:
  assumes "find_sub MAGIC xs = None" "\<not> length xs < 4"
  shows "find_sub MAGIC (xs @ ys) = map_option (\<lambda>m. m + (length xs - 3)) (find_sub MAGIC (drop (length xs - 3) xs @ ys))"
proof -
  define k where "k = length xs - 3"
  have d: "drop k (xs @ ys) = drop k xs @ ys" by (simp add: k_def)
  show ?thesis unfolding k_def [symmetric]
  proof (cases "find_sub MAGIC (drop k xs @ ys)")
    case None
    have "find_sub MAGIC (xs @ ys) = None"
    proof (cases "find_sub MAGIC (xs @ ys)")
      case (Some m)
      then have m: "m \<le> length (xs @ ys)" "starts_with MAGIC (drop m (xs @ ys))" using find_sub_Some by blast+
      then have "\<not> m < k" using junk_no_marker [OF assms(1)] by (auto simp: k_def)
      then have "drop m (xs @ ys) = drop (m - k) (drop k xs @ ys)"
        unfolding d [symmetric] by (simp only: drop_drop le_add_diff_inverse2 not_less)
      with m(2) find_sub_None [OF None] show ?thesis by metis
    qed
    with None show "find_sub MAGIC (xs @ ys) = map_option (\<lambda>m. m + k) (find_sub MAGIC (drop k xs @ ys))" by simp
  next
    case (Some m)
    have "find_sub MAGIC (xs @ ys) = Some (m + k)"
    proof (rule find_sub_unique)
      show "m + k \<le> length (xs @ ys)" using find_sub_Some [OF Some] by (auto simp: k_def)
      show "starts_with MAGIC (drop (m + k) (xs @ ys))"
        using conjunct2 [OF find_sub_Some [OF Some]] by (simp only: d [symmetric] drop_drop)
      fix j assume j: "j < m + k"
      show "\<not> starts_with MAGIC (drop j (xs @ ys))"
      proof (cases "j < k")
        case True
        then show ?thesis using junk_no_marker [OF assms(1)] by (simp add: k_def)
      next
        case False
        then have "drop j (xs @ ys) = drop (j - k) (drop k xs @ ys)"
          unfolding d [symmetric] by (simp only: drop_drop le_add_diff_inverse2 not_less)
        moreover have "j - k < m" using False j by simp
        ultimately show ?thesis using find_sub_least [OF Some] by metis
      qed
    qed
    with Some show "find_sub MAGIC (xs @ ys) = map_option (\<lambda>m. m + k) (find_sub MAGIC (drop k xs @ ys))" by simp
  qed
qed

lemma hb_junk:
  assumes "find_sub MAGIC xs = None" "\<not> length xs < 4"
  shows "hb_frames (xs @ ys) = hb_frames (drop (length xs - 3) xs @ ys)" "hb_last (xs @ ys) = hb_last (drop (length xs - 3) xs @ ys)"
proof -
  define k where "k = length xs - 3"
  have len: "length (drop k xs @ ys) = 3 + length ys" using assms(2) by (simp add: k_def)
  have "hb_frames (xs @ ys) = hb_frames (drop k xs @ ys) \<and> hb_last (xs @ ys) = hb_last (drop k xs @ ys)"
  proof (cases "find_sub MAGIC (drop k xs @ ys)")
    case None
    then have n: "find_sub MAGIC (xs @ ys) = None" using junk_find [OF assms, of ys] by (simp add: k_def)
    have w: "hb_loop (xs @ ys) = (1, [], HbKeep (drop (length (xs @ ys) - 3) (xs @ ys)))"
      by (rule hb_none [OF _ n]) (use assms(2) in simp)
    show ?thesis
    proof (cases "ys = []")
      case True
      then show ?thesis using w len by (simp add: hb_short k_def)
    next
      case False
      then have "hb_loop (drop k xs @ ys) = (1, [], HbKeep (drop (length ys) (drop k xs @ ys)))"
        using hb_none [OF _ None] len by (cases ys) simp_all
      moreover have "drop (length (xs @ ys) - 3) (xs @ ys) = drop (length ys) (drop k xs @ ys)"
      proof -
        have d: "drop k (xs @ ys) = drop k xs @ ys" by (simp add: k_def)
        have "length (xs @ ys) - 3 = length ys + k" using assms(2) by (simp add: k_def)
        then show ?thesis unfolding d [symmetric] by (simp only: drop_drop)
      qed
      ultimately show ?thesis using w by simp
    qed
  next
    case (Some m)
    then have s: "find_sub MAGIC (xs @ ys) = Some (m + k)" using junk_find [OF assms, of ys] by (simp add: k_def)
    have "drop (m + k) (xs @ ys) = drop m (drop k xs @ ys)" using assms(2) by (simp add: k_def add.commute)
    then show ?thesis using hb_marker [OF s] hb_marker [OF Some] by simp
  qed
  then show "hb_frames (xs @ ys) = hb_frames (drop (length xs - 3) xs @ ys)" "hb_last (xs @ ys) = hb_last (drop (length xs - 3) xs @ ys)"
    by (simp_all add: k_def)
qed

lemma u32le_append: "i + 4 \<le> length q \<Longrightarrow> u32le (q @ ys) i = u32le q i"
  by (simp add: u32le_def slice_append_left)

lemma u16le_append: "i + 2 \<le> length q \<Longrightarrow> u16le (q @ ys) i = u16le q i"
  by (simp add: u16le_def slice_append_left)

lemma hb_frame_of_append:
  assumes "16 + u32le q 6 \<le> length q"
  shows "hb_frame_of (q @ ys) = hb_frame_of q"
  using assms
  by (simp add: hb_frame_of_def Let_def u32le_append u16le_append slice_append_left nth_append isHomeBaseResultFrame_def)

text \<open>The loop on a longer stream: the frames of the first part, then the loop on what it kept.\<close>

lemma hb_append:
  "hb_frames (xs @ ys) = (case hb_last xs of HbThrow \<Rightarrow> hb_frames xs | HbKeep k \<Rightarrow> hb_frames xs @ hb_frames (k @ ys)) \<and>
   hb_last (xs @ ys) = (case hb_last xs of HbThrow \<Rightarrow> HbThrow | HbKeep k \<Rightarrow> hb_last (k @ ys))"
proof (induction xs rule: hb_loop.induct)
  case (1 xs)
  show ?case
  proof (cases "length xs < 4")
    case True
    then show ?thesis by (simp add: hb_short)
  next
    case False
    show ?thesis
    proof (cases "find_sub MAGIC xs")
      case None
      then show ?thesis using hb_none [OF False None] hb_junk [OF None False, of ys] by simp
    next
      case (Some m)
      define q where "q = drop m xs"
      have q0: "find_sub MAGIC q = Some 0" unfolding q_def by (rule find_sub_drop [OF Some])
      have qa: "find_sub MAGIC (q @ ys) = Some 0" by (rule find_sub_append [OF q0])
      have l4: "\<not> length q < 4" using find_sub_bound [OF Some] by (simp add: q_def)
      have dq: "drop m (xs @ ys) = q @ ys" using find_sub_bound [OF Some] by (simp add: q_def)
      have e: "hb_frames (xs @ ys) = hb_frames (q @ ys)" "hb_last (xs @ ys) = hb_last (q @ ys)"
        "hb_frames xs = hb_frames q" "hb_last xs = hb_last q"
        using hb_marker [OF Some] hb_marker [OF find_sub_append [OF Some, of ys]] unfolding dq by (simp_all add: q_def)
      show ?thesis
      proof (cases "length q < 16")
        case True
        then have "hb_loop q = (0, [], HbKeep q)" using l4 q0 by (simp add: hb_loop.simps [of q])
        then show ?thesis using e by simp
      next
        case l16: False
        have n: "u32le (q @ ys) 6 = u32le q 6" using l16 by (intro u32le_append) simp
        show ?thesis
        proof (cases "u32le q 6 > 16 * 1024 * 1024")
          case True
          then have "hb_loop q = (0, [], HbThrow)" using l4 q0 l16 by (simp add: hb_loop.simps [of q] Let_def)
          moreover have "hb_loop (q @ ys) = (0, [], HbThrow)"
            using True l4 qa l16 n by (simp add: hb_loop.simps [of "q @ ys"] Let_def)
          ultimately show ?thesis using e by simp
        next
          case small: False
          show ?thesis
          proof (cases "length q < 16 + u32le q 6")
            case True
            then have "hb_loop q = (0, [], HbKeep q)"
              using l4 q0 l16 small by (simp add: hb_loop.simps [of q] Let_def)
            then show ?thesis using e by simp
          next
            case full: False
            let ?r = "drop (16 + u32le q 6) q"
            have dr: "drop (16 + u32le q 6) (q @ ys) = ?r @ ys" using full by simp
            have f: "hb_frame_of (q @ ys) = hb_frame_of q" using full by (intro hb_frame_of_append) simp
            have L: "hb_frames q = hb_frame_of q # hb_frames ?r" "hb_last q = hb_last ?r"
              using l4 q0 l16 small full by (simp_all add: hb_loop.simps [of q] Let_def split_beta)
            have lf: "\<not> length (q @ ys) < 16 + u32le q 6" "\<not> length (q @ ys) < 16" using full l16 by simp_all
            have R: "hb_frames (q @ ys) = hb_frame_of q # hb_frames (?r @ ys)" "hb_last (q @ ys) = hb_last (?r @ ys)"
              using l4 qa lf small n f dr by (simp_all add: hb_loop.simps [of "q @ ys"] Let_def split_beta)
            have ih: "hb_frames (?r @ ys) = (case hb_last ?r of HbThrow \<Rightarrow> hb_frames ?r | HbKeep k \<Rightarrow> hb_frames ?r @ hb_frames (k @ ys)) \<and>
                hb_last (?r @ ys) = (case hb_last ?r of HbThrow \<Rightarrow> HbThrow | HbKeep k \<Rightarrow> hb_last (k @ ys))"
              using 1 [OF False Some q_def refl refl l16 small full] .
            show ?thesis unfolding e L R using ih by (cases "hb_last ?r") simp_all
          qed
        qed
      qed
    qed
  qed
qed

section \<open>One data type\<close>

text \<open>The retained bytes of one type; a throw ends the session, after which nothing is parsed.\<close>

fun hb_feed :: "hb_end \<Rightarrow> bytes \<Rightarrow> hb_end \<times> hb_frame list" where
  "hb_feed HbThrow data = (HbThrow, [])"
| "hb_feed (HbKeep pending) data = (hb_last (pending @ data), hb_frames (pending @ data))"

text \<open>What is kept needs no further work.\<close>

fun hb_rest :: "hb_end \<Rightarrow> bool" where
  "hb_rest HbThrow = True"
| "hb_rest (HbKeep k) = (hb_frames k = [] \<and> hb_last k = HbKeep k)"

lemma hb_last_rest: "hb_rest (hb_last xs)"
proof -
  have "hb_frames (xs @ []) = (case hb_last xs of HbThrow \<Rightarrow> hb_frames xs | HbKeep k \<Rightarrow> hb_frames xs @ hb_frames (k @ []))"
    "hb_last (xs @ []) = (case hb_last xs of HbThrow \<Rightarrow> HbThrow | HbKeep k \<Rightarrow> hb_last (k @ []))"
    using hb_append [of xs "[]"] by simp_all
  note w = this
  show ?thesis
  proof (cases "hb_last xs")
    case (HbKeep k)
    with w have "hb_frames k = []" "hb_last k = HbKeep k" by simp_all
    then show ?thesis unfolding HbKeep by simp
  qed simp
qed

interpretation hb: total_chunk_parser hb_feed hb_rest
proof unfold_locales
  show "hb_feed s [] = (s, [])" if "hb_rest s" for s using that by (cases s) auto
  show "hb_rest (fst (hb_feed s xs))" if "hb_rest s" for s xs by (cases s) (simp_all add: hb_last_rest)
  show "hb_feed s (xs @ ys) = (fst (hb_feed (fst (hb_feed s xs)) ys), snd (hb_feed s xs) @ snd (hb_feed (fst (hb_feed s xs)) ys))"
    if "hb_rest s" for s xs ys
  proof (cases s)
    case (HbKeep p)
    show ?thesis using hb_append [of "p @ xs" ys] by (cases "hb_last (p @ xs)") (simp_all add: HbKeep)
  qed simp
qed simp_all

text \<open>Bounds.\<close>

fun hb_kept :: "hb_end \<Rightarrow> nat" where
  "hb_kept HbThrow = 0"
| "hb_kept (HbKeep k) = length k"

lemma hb_last_bound: "hb_kept (hb_last p) < 16 + 16 * 1024 * 1024"
proof (induction p rule: hb_loop.induct)
  case (1 p)
  show ?case
    using 1 by (subst hb_loop.simps) (auto simp: Let_def split_beta split: option.split)
qed

text \<open>Well-formed frames back to back are read one by one.\<close>

lemma hb_wire_frame:
  assumes "frame_ok (h, b)"
  shows "hb_frames (h @ b @ rest) = hb_frame_of (h @ b) # hb_frames rest" "hb_last (h @ b @ rest) = hb_last rest"
proof -
  have h: "length h = 16" "take 4 h = MAGIC" "u32le h 6 = length b" "length b \<le> 16 * 1024 * 1024"
    using assms by (simp_all add: frame_ok_def MAX_COMMAND_BYTES_def)
  have m: "find_sub MAGIC (h @ b @ rest) = Some 0"
    by (rule find_sub_at_start) (use h in \<open>simp add: starts_with_def\<close>)
  have u: "u32le (h @ b @ rest) 6 = length b" "u32le (h @ b) 6 = length b" using h by (simp_all add: u32le_append)
  have "hb_frame_of ((h @ b) @ rest) = hb_frame_of (h @ b)" by (rule hb_frame_of_append) (use h u in simp)
  then show "hb_frames (h @ b @ rest) = hb_frame_of (h @ b) # hb_frames rest" "hb_last (h @ b @ rest) = hb_last rest"
    using m h u by (simp_all add: hb_loop.simps [of "h @ b @ rest"] Let_def split_beta)
qed

lemma hb_wire_frames:
  "\<forall>f\<in>set fs. frame_ok f \<Longrightarrow>
     hb_frames (frames_wire fs @ rest) = map (\<lambda>(h, b). hb_frame_of (h @ b)) fs @ hb_frames rest \<and>
     hb_last (frames_wire fs @ rest) = hb_last rest"
proof (induction fs)
  case (Cons f fs)
  obtain h b where f: "f = (h, b)" by (cases f)
  with Cons hb_wire_frame [of h b "frames_wire fs @ rest"] show ?case by (simp add: frames_wire_def)
qed (simp add: frames_wire_def)

section \<open>Property\<close>

text \<open>The HomeBase command parser is independent of how the byte stream of a data type is cut into
  datagrams, for every stream, damaged or not: the frames handed on, the bytes retained (always under
  16 MiB and 16 bytes) and whether the oversize error is raised are those of parsing the whole stream at
  once; and frames that follow arbitrary parsed bytes are all recovered, in order.\<close>
theorem homebase_parse_any_cutting:
  "run hb_feed (HbKeep []) xss = hb_feed (HbKeep []) (concat xss) \<and>
   hb_kept (run_state hb_feed (HbKeep []) xss) < 16 + 16 * 1024 * 1024 \<and>
   (\<forall>fs. concat xss = frames_wire fs \<and> (\<forall>f\<in>set fs. frame_ok f) \<longrightarrow>
      run hb_feed (HbKeep []) xss = (HbKeep [], map (\<lambda>(h, b). hb_frame_of (h @ b)) fs))"
proof -
  have r: "hb_rest (HbKeep [])" by (simp add: hb_short)
  have run: "run hb_feed (HbKeep []) xss = hb_feed (HbKeep []) (concat xss)" by (rule hb.any_chunking [OF r])
  have "run hb_feed (HbKeep []) xss = (HbKeep [], map (\<lambda>(h, b). hb_frame_of (h @ b)) fs)"
    if "concat xss = frames_wire fs" "\<forall>f\<in>set fs. frame_ok f" for fs
    using hb_wire_frames [OF that(2), of "[]"] unfolding run that(1) by (simp add: hb_short)
  with run hb_last_bound [of "concat xss"] show ?thesis by simp
qed

lemma homebase_parse_any_cutting_witness:
  "run hb_feed (HbKeep []) [[0x58, 0x5A, 0x59], [0x48, 0x4C, 0x04, 1, 0, 0, 0, 0, 0, 255, 0, 0], [0, 7]] =
     (HbKeep [], [\<lparr> hf_command = 1100, hf_channel = 255, hf_signCode = 0, hf_result = False, hf_payload = [7] \<rparr>])"
proof -
  let ?h = "[0x58, 0x5A, 0x59, 0x48, 0x4C, 0x04, 1, 0, 0, 0, 0, 0, 255, 0, 0, 0] :: bytes"
  let ?xss = "[[0x58, 0x5A, 0x59], [0x48, 0x4C, 0x04, 1, 0, 0, 0, 0, 0, 255, 0, 0], [0, 7]] :: bytes list"
  have "concat ?xss = frames_wire [(?h, [7])] \<and> (\<forall>f\<in>set [(?h, [7])]. frame_ok f)"
    by (simp add: frames_wire_def frame_ok_def MAGIC_def MAX_COMMAND_BYTES_def u32le_def slice_def)
  with homebase_parse_any_cutting [of ?xss]
  have "run hb_feed (HbKeep []) ?xss = (HbKeep [], map (\<lambda>(h, b). hb_frame_of (h @ b)) [(?h, [7])])" by blast
  also have "map (\<lambda>(h, b). hb_frame_of (h @ b)) [(?h, [7])] =
      [\<lparr> hf_command = 1100, hf_channel = 255, hf_signCode = 0, hf_result = False, hf_payload = [7] \<rparr>]"
    by (simp add: hb_frame_of_def u32le_def u16le_def slice_def isHomeBaseResultFrame_def)
  finally show ?thesis .
qed

end
