(* ===== verification/Homebase_Session.thy ===== *)
theory Homebase_Session
  imports Homebase_Framing Js_Value
begin

text \<open>
  The command state of \<open>HomeBasePpcsSession\<close> (stream/homebase-ppcs.ts): the four waiters with their
  timers, frame dispatch, acknowledged writes, read acknowledgements and close. A promise that is
  created, resolved or rejected is an output. The reorder buffer in front of \<open>#consumeData\<close> is the
  component of Ppcs_Reorder; its deliveries and skips are events here. AES-ECB decryption with the
  session key and \<open>JSON.parse\<close> on decoded text are parameters.
\<close>

section \<open>State\<close>

datatype hb_waiter = WCommand | WGateway | WCamera | WStorage

datatype hb_value = HvUnit | HvBytes bytes | HvJson "json option"

datatype hb_failure = FailTimeout | FailRejected int | FailParse | FailClosed | FailBusy | FailUnconnected

datatype hb_out =
  HoStarted hb_waiter
| HoRefused hb_waiter hb_failure
| HoResolve hb_waiter hb_value
| HoReject hb_waiter hb_failure
| HoSend nat nat bytes
| HoEnd

record hb_session =
  hs_closed :: bool
  hs_connected :: bool
  hs_sequence :: nat
  hs_pending :: "(nat, bytes) jsmap"
  hs_frameHeaders :: nat
  hs_resyncs :: nat
  hs_commands :: "nat list"
  hs_readRequests :: nat
  hs_readAcknowledged :: nat
  hs_readSequences :: "nat list"
  hs_command :: "nat option"
  hs_gateway :: bool
  hs_camera :: bool
  hs_storage :: bool

definition hs_new :: "bool \<Rightarrow> hb_session" where
  "hs_new peer = \<lparr> hs_closed = False, hs_connected = peer, hs_sequence = 0, hs_pending = [],
     hs_frameHeaders = 0, hs_resyncs = 0, hs_commands = [], hs_readRequests = 0, hs_readAcknowledged = 0,
     hs_readSequences = [], hs_command = None, hs_gateway = False, hs_camera = False, hs_storage = False \<rparr>"

fun hs_waiting :: "hb_waiter \<Rightarrow> hb_session \<Rightarrow> bool" where
  "hs_waiting WCommand s = (hs_command s \<noteq> None)"
| "hs_waiting WGateway s = hs_gateway s"
| "hs_waiting WCamera s = hs_camera s"
| "hs_waiting WStorage s = hs_storage s"

fun hs_drop :: "hb_waiter \<Rightarrow> hb_session \<Rightarrow> hb_session" where
  "hs_drop WCommand s = s\<lparr>hs_command := None\<rparr>"
| "hs_drop WGateway s = s\<lparr>hs_gateway := False\<rparr>"
| "hs_drop WCamera s = s\<lparr>hs_camera := False\<rparr>"
| "hs_drop WStorage s = s\<lparr>hs_storage := False\<rparr>"

section \<open>Sending and waiting\<close>

definition remember_read :: "nat \<Rightarrow> nat list \<Rightarrow> nat list" where
  "remember_read sq qs =
     (let qs = (if sq \<in> set qs then qs else qs @ [sq]) in if length qs > 8 then tl qs else qs)"

text \<open>\<open>#sendCommand\<close>: None is the throw on an unconnected session.\<close>

definition hb_sendCommand :: "nat \<Rightarrow> bytes \<Rightarrow> hb_session \<Rightarrow> (hb_session \<times> hb_out list) option" where
  "hb_sendCommand command payload s =
     (if \<not> hs_connected s then None
      else
        (let sq = hs_sequence s; s = s\<lparr>hs_sequence := sq + 1\<rparr>;
             s = (if command \<in> {1100, 1103, 1144}
               then s\<lparr>hs_readRequests := hs_readRequests s + 1, hs_readSequences := remember_read sq (hs_readSequences s)\<rparr> else s) in
         Some (s, if hs_closed s then [] else [HoSend command (sq mod 65536) payload])))"

definition hb_wait :: "hb_waiter \<Rightarrow> hb_session \<Rightarrow> hb_session \<times> hb_out list" where
  "hb_wait w s =
     (if hs_waiting w s then (s, [HoRefused w FailBusy])
      else (case w of
          WCommand \<Rightarrow> (s, [])
        | WGateway \<Rightarrow> (s\<lparr>hs_gateway := True\<rparr>, [HoStarted w])
        | WCamera \<Rightarrow> (s\<lparr>hs_camera := True\<rparr>, [HoStarted w])
        | WStorage \<Rightarrow> (s\<lparr>hs_storage := True\<rparr>, [HoStarted w])))"

text \<open>A write: refused when closed or busy; a throwing send leaves the command pending.\<close>

definition hb_sendAcknowledged :: "nat \<Rightarrow> bytes \<Rightarrow> hb_session \<Rightarrow> hb_session \<times> hb_out list" where
  "hb_sendAcknowledged command payload s =
     (if hs_closed s then (s, [HoRefused WCommand FailClosed])
      else if hs_command s \<noteq> None then (s, [HoRefused WCommand FailBusy])
      else
        (let s = s\<lparr>hs_command := Some command\<rparr> in
         case hb_sendCommand command payload s of
           None \<Rightarrow> (s, [HoRefused WCommand FailUnconnected])
         | Some (s', outs) \<Rightarrow> (s', HoStarted WCommand # outs)))"

text \<open>A read is a wait and a send (\<open>connect\<close>, \<open>readState\<close>); a closed session throws first.\<close>

definition hb_read :: "hb_waiter \<Rightarrow> nat \<Rightarrow> bytes \<Rightarrow> hb_session \<Rightarrow> hb_session \<times> hb_out list" where
  "hb_read w command payload s =
     (if hs_closed s then (s, [HoRefused w FailClosed])
      else
        (let (s1, o1) = hb_wait w s in
         case hb_sendCommand command payload s1 of
           None \<Rightarrow> (s1, o1)
         | Some (s2, o2) \<Rightarrow> (s2, o1 @ o2)))"

section \<open>Frames\<close>

definition parseJsonBuffer :: "(bytes \<Rightarrow> json option) \<Rightarrow> bytes \<Rightarrow> json option" where
  "parseJsonBuffer parse v =
     (case parse (takeWhile (\<lambda>b. b \<noteq> 0) v) of None \<Rightarrow> Some JNull | Some j \<Rightarrow> Some j)"

definition storage_value :: "json option \<Rightarrow> json option" where
  "storage_value notification =
     (let p = js_field notification ''payload'' in
      if isRecord p \<and> js_field p ''body'' \<noteq> None then js_field p ''body'' else p)"

definition hb_settle :: "hb_waiter \<Rightarrow> hb_out \<Rightarrow> hb_session \<Rightarrow> hb_session \<times> hb_out list" where
  "hb_settle w out s = (hs_drop w s, [out])"

definition hb_handleFrame :: "(bytes \<Rightarrow> bytes) \<Rightarrow> (bytes \<Rightarrow> json option) \<Rightarrow> hb_frame \<Rightarrow> hb_session \<Rightarrow> hb_session \<times> hb_out list" where
  "hb_handleFrame decrypt parse f s =
     (let clear = (if unat (hf_signCode f) > 0 \<and> hf_payload f \<noteq> [] \<and> length (hf_payload f) mod 16 = 0
                   then decrypt (hf_payload f) else hf_payload f) in
      if hf_command f = 1144 \<and> hs_storage s \<and> length clear \<ge> 12
      then hb_settle WStorage (HoResolve WStorage (HvBytes clear)) s
      else if hf_result f then
        (if hs_command s \<noteq> Some (hf_command f) \<or> length clear < 4 then (s, [])
         else hb_settle WCommand (if i32le clear 0 = 0 then HoResolve WCommand HvUnit
                                  else HoReject WCommand (FailRejected (i32le clear 0))) s)
      else if hf_command f = 1100 \<and> hs_gateway s then hb_settle WGateway (HoResolve WGateway HvUnit) s
      else if hf_command f = 1103 then
        (let v = parseJsonBuffer parse clear in
         if isRecord v \<and> hs_camera s then hb_settle WCamera (HoResolve WCamera (HvJson v)) s else (s, []))
      else if hf_command f \<noteq> 1351 then (s, [])
      else
        (let n = parseJsonBuffer parse clear in
         if \<not> isRecord n \<or> Option.bind (js_field n ''cmd'') js_number \<noteq> Some 1307 \<or> \<not> hs_storage s then (s, [])
         else hb_settle WStorage (HoResolve WStorage (HvJson (storage_value n))) s))"

definition hb_note_frame :: "hb_frame \<Rightarrow> hb_session \<Rightarrow> hb_session" where
  "hb_note_frame f s = s\<lparr>hs_frameHeaders := hs_frameHeaders s + 1,
     hs_commands := (if length (hs_commands s) < 8 \<and> hf_command f \<notin> set (hs_commands s)
                     then hs_commands s @ [hf_command f] else hs_commands s)\<rparr>"

fun hb_handleFrames :: "(bytes \<Rightarrow> bytes) \<Rightarrow> (bytes \<Rightarrow> json option) \<Rightarrow> hb_frame list \<Rightarrow> hb_session \<Rightarrow> hb_session \<times> hb_out list" where
  "hb_handleFrames decrypt parse [] s = (s, [])"
| "hb_handleFrames decrypt parse (f # fs) s =
     (let (s1, o1) = hb_handleFrame decrypt parse f (hb_note_frame f s);
          (s2, o2) = hb_handleFrames decrypt parse fs s1 in (s2, o1 @ o2))"

definition reject_one :: "hb_failure \<Rightarrow> hb_waiter \<Rightarrow> hb_session \<times> hb_out list \<Rightarrow> hb_session \<times> hb_out list" where
  "reject_one e w r = (case r of (s, outs) \<Rightarrow> if hs_waiting w s then (hs_drop w s, outs @ [HoReject w e]) else (s, outs))"

definition hb_rejectPending :: "hb_failure \<Rightarrow> hb_session \<Rightarrow> hb_session \<times> hb_out list" where
  "hb_rejectPending e s = reject_one e WStorage (reject_one e WCamera (reject_one e WGateway (reject_one e WCommand (s, []))))"

definition hb_close :: "hb_session \<Rightarrow> hb_session \<times> hb_out list" where
  "hb_close s =
     (if hs_closed s then (s, [])
      else
        (let (s1, outs) = hb_rejectPending FailClosed (s\<lparr>hs_closed := True\<rparr>) in
         (s1\<lparr>hs_pending := [], hs_readSequences := []\<rparr>, outs @ (if hs_connected s then [HoEnd] else []))))"

text \<open>\<open>#consumeData\<close> with the handler around it: an oversize header rejects everything and closes.\<close>

definition hb_consumeData :: "(bytes \<Rightarrow> bytes) \<Rightarrow> (bytes \<Rightarrow> json option) \<Rightarrow> bytes \<Rightarrow> nat \<Rightarrow> hb_session \<Rightarrow> hb_session \<times> hb_out list" where
  "hb_consumeData decrypt parse data type s =
     (let pending = (case map_of (hs_pending s) type of None \<Rightarrow> [] | Some p \<Rightarrow> p) @ data;
          (r, frames, e) = hb_loop pending;
          (s1, o1) = hb_handleFrames decrypt parse frames (s\<lparr>hs_resyncs := hs_resyncs s + r\<rparr>) in
      case e of
        HbKeep k \<Rightarrow> (s1\<lparr>hs_pending := AList.update type k (hs_pending s1)\<rparr>, o1)
      | HbThrow \<Rightarrow>
          (let (s2, o2) = hb_rejectPending FailParse s1; (s3, o3) = hb_close s2 in (s3, o1 @ o2 @ o3)))"

definition hb_ack :: "nat list \<Rightarrow> hb_session \<Rightarrow> hb_session" where
  "hb_ack sqs s = foldl (\<lambda>s sq. if sq \<in> set (hs_readSequences s)
       then s\<lparr>hs_readSequences := remove1 sq (hs_readSequences s), hs_readAcknowledged := hs_readAcknowledged s + 1\<rparr> else s) s sqs"

definition hb_timeout :: "hb_waiter \<Rightarrow> hb_session \<Rightarrow> hb_session \<times> hb_out list" where
  "hb_timeout w s = (if hs_waiting w s then (hs_drop w s, [HoReject w FailTimeout]) else (s, []))"

datatype hb_event =
  HeWrite nat bytes | HeReadGateway bytes | HeReadCamera bytes | HeReadStorage bytes | HeWaitStorage
| HeData bytes nat | HeSkip nat | HeAck "nat list" | HeTimeout hb_waiter | HeClose

text \<open>A closed session's reorder buffer delivers and skips nothing; its datagram handler returns at once.\<close>

fun hb_step :: "(bytes \<Rightarrow> bytes) \<Rightarrow> (bytes \<Rightarrow> json option) \<Rightarrow> hb_session \<Rightarrow> hb_event \<Rightarrow> hb_session \<times> hb_out list" where
  "hb_step decrypt parse s (HeWrite c p) = hb_sendAcknowledged c p s"
| "hb_step decrypt parse s (HeReadGateway p) = hb_read WGateway 1100 p s"
| "hb_step decrypt parse s (HeReadCamera p) = hb_read WCamera 1103 p s"
| "hb_step decrypt parse s (HeReadStorage p) = hb_read WStorage 1144 p s"
| "hb_step decrypt parse s HeWaitStorage = (if hs_closed s then (s, [HoRefused WStorage FailClosed]) else hb_wait WStorage s)"
| "hb_step decrypt parse s (HeData d t) = (if hs_closed s then (s, []) else hb_consumeData decrypt parse d t s)"
| "hb_step decrypt parse s (HeSkip t) = (if hs_closed s then (s, []) else (s\<lparr>hs_pending := AList.delete t (hs_pending s)\<rparr>, []))"
| "hb_step decrypt parse s (HeAck sqs) = (if hs_closed s then (s, []) else (hb_ack sqs s, []))"
| "hb_step decrypt parse s (HeTimeout w) = hb_timeout w s"
| "hb_step decrypt parse s HeClose = hb_close s"

section \<open>Every promise settles once\<close>

fun started :: "hb_waiter \<Rightarrow> hb_out \<Rightarrow> nat" where
  "started w (HoStarted w') = (if w = w' then 1 else 0)"
| "started w _ = 0"

fun settled :: "hb_waiter \<Rightarrow> hb_out \<Rightarrow> nat" where
  "settled w (HoResolve w' _) = (if w = w' then 1 else 0)"
| "settled w (HoReject w' _) = (if w = w' then 1 else 0)"
| "settled w _ = 0"

definition tally :: "(hb_out \<Rightarrow> nat) \<Rightarrow> hb_out list \<Rightarrow> nat" where
  "tally f outs = (\<Sum>x\<leftarrow>outs. f x)"

lemma tally_simps [simp]: "tally f [] = 0" "tally f (x # xs) = f x + tally f xs" "tally f (xs @ ys) = tally f xs + tally f ys"
  by (simp_all add: tally_def)

definition open_of :: "hb_waiter \<Rightarrow> hb_session \<Rightarrow> nat" where
  "open_of w s = (if hs_waiting w s then 1 else 0)"

text \<open>The balance of one step: opened before plus started is settled plus open after.\<close>

definition balanced :: "hb_session \<Rightarrow> hb_session \<times> hb_out list \<Rightarrow> bool" where
  "balanced s r \<longleftrightarrow> (\<forall>w. open_of w s + tally (started w) (snd r) = tally (settled w) (snd r) + open_of w (fst r))"

lemma balanced_refl [simp]: "balanced s (s, [])"
  by (simp add: balanced_def)

lemma balanced_trans:
  assumes "balanced s (s1, o1)" "balanced s1 (s2, o2)"
  shows "balanced s (s2, o1 @ o2)"
  unfolding balanced_def
proof
  fix w
  have "open_of w s + tally (started w) o1 = tally (settled w) o1 + open_of w s1"
    "open_of w s1 + tally (started w) o2 = tally (settled w) o2 + open_of w s2"
    using assms by (simp_all add: balanced_def)
  then show "open_of w s + tally (started w) (snd (s2, o1 @ o2)) = tally (settled w) (snd (s2, o1 @ o2)) + open_of w (fst (s2, o1 @ o2))"
    by simp
qed

definition same_waiters :: "hb_session \<Rightarrow> hb_session \<Rightarrow> bool" where
  "same_waiters s s' \<longleftrightarrow> hs_command s' = hs_command s \<and> hs_gateway s' = hs_gateway s \<and> hs_camera s' = hs_camera s \<and> hs_storage s' = hs_storage s"

lemma same_open: "same_waiters s s' \<Longrightarrow> open_of w s' = open_of w s"
  by (cases w) (simp_all add: same_waiters_def open_of_def)

lemma balanced_same: "same_waiters s s0 \<Longrightarrow> balanced s0 r \<Longrightarrow> balanced s r"
  by (simp add: balanced_def same_open)

lemma balanced_result: "balanced s (s', outs) \<Longrightarrow> same_waiters s' s'' \<Longrightarrow> balanced s (s'', outs)"
  by (simp add: balanced_def same_open)

lemma waiting_drop [simp]: "hs_waiting w (hs_drop w' s) \<longleftrightarrow> w \<noteq> w' \<and> hs_waiting w s"
  by (cases w; cases w') simp_all

lemma balanced_settle: "hs_waiting w s \<Longrightarrow> settled w out = 1 \<Longrightarrow> (\<And>w'. w' \<noteq> w \<Longrightarrow> settled w' out = 0) \<Longrightarrow>
    (\<And>w'. started w' out = 0) \<Longrightarrow> balanced s (hs_drop w s, [out])"
  by (auto simp: balanced_def open_of_def)

lemma settle_balanced:
  "hs_storage s \<Longrightarrow> balanced s (hb_settle WStorage (HoResolve WStorage v) s)"
  "hs_gateway s \<Longrightarrow> balanced s (hb_settle WGateway (HoResolve WGateway v) s)"
  "hs_camera s \<Longrightarrow> balanced s (hb_settle WCamera (HoResolve WCamera v) s)"
  "hs_command s \<noteq> None \<Longrightarrow> balanced s (hb_settle WCommand (if ok then HoResolve WCommand v else HoReject WCommand e) s)"
  unfolding hb_settle_def by (rule balanced_settle; auto)+

lemma balanced_if: "(c \<Longrightarrow> balanced s a) \<Longrightarrow> (\<not> c \<Longrightarrow> balanced s b) \<Longrightarrow> balanced s (if c then a else b)"
  by simp

lemma handleFrame_balanced: "balanced s (hb_handleFrame decrypt parse f s)"
  unfolding hb_handleFrame_def Let_def
  by (intro balanced_if settle_balanced balanced_refl) (erule conjE | assumption | force)+

lemma handleFrames_balanced: "balanced s (hb_handleFrames decrypt parse fs s)"
proof (induction fs arbitrary: s)
  case (Cons f fs)
  obtain s1 o1 where 1: "hb_handleFrame decrypt parse f (hb_note_frame f s) = (s1, o1)" by fastforce
  obtain s2 o2 where 2: "hb_handleFrames decrypt parse fs s1 = (s2, o2)" by fastforce
  have "balanced s (s1, o1)"
    by (rule balanced_same [of _ "hb_note_frame f s"])
       (use handleFrame_balanced [of "hb_note_frame f s" decrypt parse f] 1 in \<open>simp_all add: same_waiters_def hb_note_frame_def\<close>)
  with Cons.IH [of s1] 1 2 balanced_trans show ?case by simp
qed simp

lemma reject_one_balanced: "balanced s r \<Longrightarrow> balanced s (reject_one e w r)"
proof (cases r)
  case (Pair s' outs)
  assume b: "balanced s r"
  show ?thesis
  proof (cases "hs_waiting w s'")
    case True
    then have "balanced s' (hs_drop w s', [HoReject w e])" by (intro balanced_settle) auto
    from balanced_trans [OF b [unfolded Pair] this] True Pair show ?thesis by (simp add: reject_one_def)
  qed (use b Pair in \<open>simp add: reject_one_def\<close>)
qed

lemma reject_one_waiting: "hs_waiting w' (fst (reject_one e w r)) \<longleftrightarrow> w' \<noteq> w \<and> hs_waiting w' (fst r)"
  by (cases r) (auto simp: reject_one_def)

lemma rejectPending_balanced: "balanced s (hb_rejectPending e s)"
  unfolding hb_rejectPending_def by (intro reject_one_balanced balanced_refl)

lemma rejectPending_idle: "\<not> hs_waiting w (fst (hb_rejectPending e s))"
  by (cases w) (simp_all only: hb_rejectPending_def reject_one_waiting simp_thms)

lemma close_balanced: "balanced s (hb_close s)"
proof -
  obtain s1 o1 where r: "hb_rejectPending FailClosed (s\<lparr>hs_closed := True\<rparr>) = (s1, o1)" by fastforce
  have "balanced s (s1, o1)"
    by (rule balanced_same [of _ "s\<lparr>hs_closed := True\<rparr>"])
       (use rejectPending_balanced [of "s\<lparr>hs_closed := True\<rparr>" FailClosed] r in \<open>simp_all add: same_waiters_def\<close>)
  then have "balanced s (s1, o1 @ (if hs_connected s then [HoEnd] else []))" by (auto simp: balanced_def)
  then have "balanced s (s1\<lparr>hs_pending := [], hs_readSequences := []\<rparr>, o1 @ (if hs_connected s then [HoEnd] else []))"
    by (rule balanced_result) (simp add: same_waiters_def)
  with r show ?thesis by (simp add: hb_close_def)
qed

lemma consumeData_balanced: "balanced s (hb_consumeData decrypt parse d t s)"
proof -
  obtain r fs e where l: "hb_loop ((case map_of (hs_pending s) t of None \<Rightarrow> [] | Some p \<Rightarrow> p) @ d) = (r, fs, e)"
    using prod_cases3 by blast
  obtain s1 o1 where h: "hb_handleFrames decrypt parse fs (s\<lparr>hs_resyncs := hs_resyncs s + r\<rparr>) = (s1, o1)" by fastforce
  have b: "balanced s (s1, o1)"
    by (rule balanced_same [of _ "s\<lparr>hs_resyncs := hs_resyncs s + r\<rparr>"])
       (use handleFrames_balanced [of "s\<lparr>hs_resyncs := hs_resyncs s + r\<rparr>" decrypt parse fs] h in \<open>simp_all add: same_waiters_def\<close>)
  show ?thesis
  proof (cases e)
    case (HbKeep k)
    have "balanced s (s1\<lparr>hs_pending := AList.update t k (hs_pending s1)\<rparr>, o1)"
      by (rule balanced_result [OF b]) (simp add: same_waiters_def)
    with HbKeep l h show ?thesis by (simp add: hb_consumeData_def)
  next
    case HbThrow
    obtain s2 o2 where r: "hb_rejectPending FailParse s1 = (s2, o2)" by fastforce
    obtain s3 o3 where c: "hb_close s2 = (s3, o3)" by fastforce
    have "balanced s (s3, o1 @ o2 @ o3)"
      using balanced_trans [OF b balanced_trans [OF rejectPending_balanced [of s1 FailParse, unfolded r] close_balanced [of s2, unfolded c]]] .
    with HbThrow l h r c show ?thesis by (simp add: hb_consumeData_def)
  qed
qed

section \<open>Invariant\<close>

definition same_transport :: "hb_session \<Rightarrow> hb_session \<Rightarrow> bool" where
  "same_transport s s' \<longleftrightarrow> hs_closed s' = hs_closed s \<and> hs_connected s' = hs_connected s \<and> hs_pending s' = hs_pending s \<and>
     hs_readSequences s' = hs_readSequences s"

lemma same_transport_refl [simp]: "same_transport s s"
  by (simp add: same_transport_def)

lemma same_transport_trans: "same_transport s s1 \<Longrightarrow> same_transport s1 s2 \<Longrightarrow> same_transport s s2"
  by (simp add: same_transport_def)

lemma drop_transport [simp]: "same_transport s (hs_drop w s)" "hs_commands (hs_drop w s) = hs_commands s"
  by (cases w; simp add: same_transport_def)+

lemma handleFrame_shape:
  "fst (hb_handleFrame decrypt parse f s) = s \<or> (\<exists>w. fst (hb_handleFrame decrypt parse f s) = hs_drop w s)"
proof -
  let ?P = "\<lambda>r :: hb_session \<times> hb_out list. fst r = s \<or> (\<exists>w. fst r = hs_drop w s)"
  have i: "?P (if c then a else b)" if "?P a" "?P b" for c a b using that by simp
  have se: "?P (hb_settle w out s)" for w out by (auto simp: hb_settle_def)
  have r: "?P (s, [])" by simp
  show ?thesis unfolding hb_handleFrame_def Let_def by (intro i se r)
qed

lemma handleFrame_transport: "same_transport s (fst (hb_handleFrame decrypt parse f s))"
  "hs_commands (fst (hb_handleFrame decrypt parse f s)) = hs_commands s"
  using handleFrame_shape [of decrypt parse f s] by auto

lemma handleFrames_transport:
  "same_transport s (fst (hb_handleFrames decrypt parse fs s)) \<and>
   (length (hs_commands s) \<le> 8 \<longrightarrow> length (hs_commands (fst (hb_handleFrames decrypt parse fs s))) \<le> 8)"
proof (induction fs arbitrary: s)
  case (Cons f fs)
  let ?s1 = "fst (hb_handleFrame decrypt parse f (hb_note_frame f s))"
  have n: "same_transport s (hb_note_frame f s)" by (simp add: same_transport_def hb_note_frame_def)
  have t: "same_transport s ?s1" by (rule same_transport_trans [OF n handleFrame_transport(1)])
  have l: "length (hs_commands s) \<le> 8 \<longrightarrow> length (hs_commands ?s1) \<le> 8"
    by (simp add: handleFrame_transport(2) hb_note_frame_def)
  show ?case using same_transport_trans [OF t] Cons.IH [of ?s1] l by (simp add: split_beta Let_def)
qed simp

lemma reject_one_shape: "fst (reject_one e w r) = fst r \<or> fst (reject_one e w r) = hs_drop w (fst r)"
  by (cases r) (simp add: reject_one_def)

lemma reject_one_transport: "same_transport s (fst r) \<Longrightarrow> same_transport s (fst (reject_one e w r))"
  "hs_commands (fst (reject_one e w r)) = hs_commands (fst r)"
proof -
  show "same_transport s (fst (reject_one e w r))" if "same_transport s (fst r)"
    using reject_one_shape [of e w r] same_transport_trans [OF that drop_transport(1), of w] that by auto
  show "hs_commands (fst (reject_one e w r)) = hs_commands (fst r)" using reject_one_shape [of e w r] by auto
qed

lemma rejectPending_transport: "same_transport s (fst (hb_rejectPending e s))"
  "hs_commands (fst (hb_rejectPending e s)) = hs_commands s"
  unfolding hb_rejectPending_def by (simp_all add: reject_one_transport)

definition hs_inv :: "hb_session \<Rightarrow> bool" where
  "hs_inv s \<longleftrightarrow> hs_connected s \<and> (hs_closed s \<longrightarrow> (\<forall>w. \<not> hs_waiting w s)) \<and> length (hs_readSequences s) \<le> 8 \<and>
     length (hs_commands s) \<le> 8 \<and> (\<forall>t k. map_of (hs_pending s) t = Some k \<longrightarrow> length k < 16 + 16 * 1024 * 1024)"

lemma close_closed: "hs_closed (fst (hb_close s))"
  using rejectPending_transport(1) [of "s\<lparr>hs_closed := True\<rparr>" FailClosed]
  by (auto simp: hb_close_def same_transport_def split: prod.split)

lemma close_inv:
  assumes "hs_inv s"
  shows "hs_inv (fst (hb_close s))"
proof (cases "hs_closed s")
  case False
  let ?r = "fst (hb_rejectPending FailClosed (s\<lparr>hs_closed := True\<rparr>))"
  have e: "fst (hb_close s) = ?r\<lparr>hs_pending := [], hs_readSequences := []\<rparr>"
    using False by (simp add: hb_close_def split_beta Let_def)
  have w: "hs_waiting w (?r\<lparr>hs_pending := [], hs_readSequences := []\<rparr>) = hs_waiting w ?r" for w by (cases w) simp_all
  show ?thesis
    using assms rejectPending_transport(1) [of "s\<lparr>hs_closed := True\<rparr>" FailClosed] rejectPending_idle
    by (simp add: hs_inv_def e w same_transport_def rejectPending_transport(2))
qed (use assms in \<open>simp add: hb_close_def\<close>)

lemma consumeData_inv:
  assumes "hs_inv s" "\<not> hs_closed s"
  shows "hs_inv (fst (hb_consumeData decrypt parse d t s))"
proof -
  obtain r fs e where l: "hb_loop ((case map_of (hs_pending s) t of None \<Rightarrow> [] | Some p \<Rightarrow> p) @ d) = (r, fs, e)"
    using prod_cases3 by blast
  let ?s0 = "s\<lparr>hs_resyncs := hs_resyncs s + r\<rparr>"
  obtain s1 o1 where h: "hb_handleFrames decrypt parse fs ?s0 = (s1, o1)" by fastforce
  have t: "same_transport s s1" "length (hs_commands s1) \<le> 8"
    using handleFrames_transport [of ?s0 decrypt parse fs] h assms(1) by (auto simp: same_transport_def hs_inv_def)
  have i: "hs_inv s1" using t assms by (simp add: same_transport_def hs_inv_def)
  show ?thesis
  proof (cases e)
    case (HbKeep k)
    have "length k < 16 + 16 * 1024 * 1024" using hb_last_bound [of "(case map_of (hs_pending s) t of None \<Rightarrow> [] | Some p \<Rightarrow> p) @ d"] l HbKeep by simp
    moreover have "\<not> hs_closed s1" using t(1) assms(2) by (simp add: same_transport_def)
    ultimately show ?thesis using i HbKeep l h by (simp add: hb_consumeData_def hs_inv_def js_get_update)
  next
    case HbThrow
    have "hs_inv (fst (hb_rejectPending FailParse s1))"
      using i rejectPending_transport(1) [of s1 FailParse] rejectPending_idle
      by (simp add: hs_inv_def same_transport_def rejectPending_transport(2))
    from close_inv [OF this] HbThrow l h show ?thesis by (simp add: hb_consumeData_def split_beta Let_def)
  qed
qed

lemma remember_read_length: "length qs \<le> 8 \<Longrightarrow> length (remember_read sq qs) \<le> 8"
  by (auto simp: remember_read_def Let_def)

lemma sendCommand_shape:
  assumes "hs_connected s"
  shows "\<exists>s' outs. hb_sendCommand c p s = Some (s', outs) \<and> same_waiters s s' \<and> hs_closed s' = hs_closed s \<and> hs_connected s' \<and>
    hs_commands s' = hs_commands s \<and> hs_pending s' = hs_pending s \<and>
    (length (hs_readSequences s) \<le> 8 \<longrightarrow> length (hs_readSequences s') \<le> 8) \<and> (hs_closed s \<longrightarrow> outs = []) \<and>
    (\<forall>w. tally (started w) outs = 0 \<and> tally (settled w) outs = 0)"
  using assms by (auto simp: hb_sendCommand_def same_waiters_def Let_def remember_read_length)

lemma same_waiting: "same_waiters s s' \<Longrightarrow> hs_waiting w s' = hs_waiting w s"
  by (cases w) (simp_all add: same_waiters_def)

lemma sendAcknowledged_ok:
  assumes "hs_inv s"
  shows "balanced s (hb_sendAcknowledged c p s)" "hs_inv (fst (hb_sendAcknowledged c p s))"
    "hs_closed (fst (hb_sendAcknowledged c p s)) = hs_closed s"
proof -
  have "balanced s (hb_sendAcknowledged c p s) \<and> hs_inv (fst (hb_sendAcknowledged c p s)) \<and>
      hs_closed (fst (hb_sendAcknowledged c p s)) = hs_closed s"
  proof (cases "hs_closed s \<or> hs_command s \<noteq> None")
    case True
    then show ?thesis using assms by (auto simp: hb_sendAcknowledged_def balanced_def)
  next
    case False
    let ?s0 = "s\<lparr>hs_command := Some c\<rparr>"
    have "hs_connected ?s0" using assms by (simp add: hs_inv_def)
    from sendCommand_shape [OF this, of c p] obtain s' outs where s': "hb_sendCommand c p ?s0 = Some (s', outs)"
      "same_waiters ?s0 s'" "hs_closed s' = hs_closed ?s0" "hs_connected s'" "hs_commands s' = hs_commands ?s0" "hs_pending s' = hs_pending ?s0"
      "length (hs_readSequences ?s0) \<le> 8 \<longrightarrow> length (hs_readSequences s') \<le> 8" "\<forall>w. tally (started w) outs = 0 \<and> tally (settled w) outs = 0"
      by blast
    have e: "hb_sendAcknowledged c p s = (s', HoStarted WCommand # outs)"
      using False s'(1) by (simp add: hb_sendAcknowledged_def)
    have "open_of w s + started w (HoStarted WCommand) = open_of w s'" for w
      using False same_open [OF s'(2), of w] by (cases w) (simp_all add: open_of_def)
    then have "balanced s (s', HoStarted WCommand # outs)" using s'(8) by (simp add: balanced_def)
    moreover have "hs_inv s'" using assms False s' by (simp add: hs_inv_def)
    ultimately show ?thesis using e s'(3) by simp
  qed
  then show "balanced s (hb_sendAcknowledged c p s)" "hs_inv (fst (hb_sendAcknowledged c p s))"
    "hs_closed (fst (hb_sendAcknowledged c p s)) = hs_closed s" by simp_all
qed

lemma wait_ok:
  assumes "hs_inv s" "\<not> hs_closed s" "w \<noteq> WCommand"
  shows "balanced s (hb_wait w s)" "hs_inv (fst (hb_wait w s))" "\<not> hs_closed (fst (hb_wait w s))"
proof -
  have "open_of w' s + tally (started w') (snd (hb_wait w s)) = tally (settled w') (snd (hb_wait w s)) + open_of w' (fst (hb_wait w s))" for w'
    using assms(3) by (cases w; cases w') (simp_all add: hb_wait_def open_of_def)
  then show "balanced s (hb_wait w s)" by (simp add: balanced_def)
  show "hs_inv (fst (hb_wait w s))" "\<not> hs_closed (fst (hb_wait w s))"
    using assms by (cases w; simp add: hb_wait_def hs_inv_def)+
qed

lemma read_ok:
  assumes "hs_inv s" "w \<noteq> WCommand"
  shows "balanced s (hb_read w c p s)" "hs_inv (fst (hb_read w c p s))" "hs_closed (fst (hb_read w c p s)) = hs_closed s"
proof -
  have "balanced s (hb_read w c p s) \<and> hs_inv (fst (hb_read w c p s)) \<and> hs_closed (fst (hb_read w c p s)) = hs_closed s"
  proof (cases "hs_closed s")
    case True
    then show ?thesis using assms by (simp add: hb_read_def balanced_def)
  next
    case False
    obtain s1 o1 where w: "hb_wait w s = (s1, o1)" by fastforce
    have i: "hs_inv s1" "\<not> hs_closed s1" "balanced s (s1, o1)" using wait_ok [OF assms(1) False assms(2)] w by simp_all
    then have "hs_connected s1" by (simp add: hs_inv_def)
    from sendCommand_shape [OF this, of c p] obtain s' outs where s': "hb_sendCommand c p s1 = Some (s', outs)"
      "same_waiters s1 s'" "hs_closed s' = hs_closed s1" "hs_connected s'" "hs_commands s' = hs_commands s1" "hs_pending s' = hs_pending s1"
      "length (hs_readSequences s1) \<le> 8 \<longrightarrow> length (hs_readSequences s') \<le> 8" "\<forall>w. tally (started w) outs = 0 \<and> tally (settled w) outs = 0"
      by blast
    have "balanced s1 (s', outs)" using s'(8) same_open [OF s'(2)] by (simp add: balanced_def)
    from balanced_trans [OF i(3) this] have "balanced s (s', o1 @ outs)" .
    moreover have "hs_inv s'" using i s' by (simp add: hs_inv_def same_waiting [OF s'(2)])
    ultimately show ?thesis using False w s'(1,3) i(2) by (simp add: hb_read_def)
  qed
  then show "balanced s (hb_read w c p s)" "hs_inv (fst (hb_read w c p s))" "hs_closed (fst (hb_read w c p s)) = hs_closed s"
    by simp_all
qed

lemma ack_shape: "same_waiters s (hb_ack sqs s) \<and> hs_closed (hb_ack sqs s) = hs_closed s \<and> hs_connected (hb_ack sqs s) = hs_connected s \<and>
   hs_pending (hb_ack sqs s) = hs_pending s \<and> hs_commands (hb_ack sqs s) = hs_commands s \<and>
   length (hs_readSequences (hb_ack sqs s)) \<le> length (hs_readSequences s)"
proof (induction sqs arbitrary: s)
  case (Cons q sqs)
  let ?s = "if q \<in> set (hs_readSequences s)
       then s\<lparr>hs_readSequences := remove1 q (hs_readSequences s), hs_readAcknowledged := hs_readAcknowledged s + 1\<rparr> else s"
  have e: "hb_ack (q # sqs) s = hb_ack sqs ?s" by (simp add: hb_ack_def)
  show ?case unfolding e using Cons.IH [of ?s]
    by (auto simp: same_waiters_def length_remove1 split: if_splits)
qed (simp add: hb_ack_def same_waiters_def)

lemma hb_step_ok:
  assumes "hs_inv s"
  shows "balanced s (hb_step decrypt parse s e) \<and> hs_inv (fst (hb_step decrypt parse s e)) \<and>
    (hs_closed s \<longrightarrow> hs_closed (fst (hb_step decrypt parse s e)))"
proof (cases e)
  case (HeWrite c p)
  then show ?thesis using sendAcknowledged_ok [OF assms, of c p] by simp
next
  case (HeReadGateway p)
  then show ?thesis using read_ok [OF assms, of WGateway 1100 p] by simp
next
  case (HeReadCamera p)
  then show ?thesis using read_ok [OF assms, of WCamera 1103 p] by simp
next
  case (HeReadStorage p)
  then show ?thesis using read_ok [OF assms, of WStorage 1144 p] by simp
next
  case HeWaitStorage
  then show ?thesis using wait_ok [OF assms, of WStorage] assms by (cases "hs_closed s") (auto simp: balanced_def)
next
  case (HeData d t)
  then show ?thesis using consumeData_inv [OF assms] consumeData_balanced assms by auto
next
  case (HeSkip t)
  have "hs_waiting w (s\<lparr>hs_pending := AList.delete t (hs_pending s)\<rparr>) = hs_waiting w s" for w by (cases w) simp_all
  with HeSkip assms show ?thesis by (auto simp: balanced_def open_of_def hs_inv_def js_get_delete)
next
  case (HeAck sqs)
  have w: "hs_waiting w (hb_ack sqs s) = hs_waiting w s" for w using ack_shape [of s sqs] by (simp add: same_waiting)
  with HeAck assms ack_shape [of s sqs] show ?thesis by (auto simp: balanced_def open_of_def hs_inv_def)
next
  case (HeTimeout w)
  have d: "hs_closed (hs_drop w s) = hs_closed s \<and> hs_connected (hs_drop w s) = hs_connected s \<and>
      hs_pending (hs_drop w s) = hs_pending s \<and> hs_readSequences (hs_drop w s) = hs_readSequences s"
    using drop_transport(1) [of s w] by (simp add: same_transport_def)
  have "balanced s (hs_drop w s, [HoReject w FailTimeout])" if "hs_waiting w s"
    using that by (intro balanced_settle) auto
  with HeTimeout assms d show ?thesis by (auto simp: hb_timeout_def hs_inv_def)
next
  case HeClose
  then show ?thesis using close_balanced close_inv [OF assms] close_closed by simp
qed

interpretation hbs: invariant_machine "hb_step decrypt parse" hs_inv "\<lambda>_. True"
  by unfold_locales (simp add: hb_step_ok)

lemma run_balanced: "hs_inv s \<Longrightarrow> balanced s (run (hb_step decrypt parse) s es)"
proof (induction es arbitrary: s)
  case (Cons e es)
  obtain s1 o1 where 1: "hb_step decrypt parse s e = (s1, o1)" by fastforce
  obtain s2 o2 where 2: "run (hb_step decrypt parse) s1 es = (s2, o2)" by fastforce
  have "balanced s (s1, o1)" "hs_inv s1" using hb_step_ok [OF Cons.prems, of decrypt parse e] 1 by simp_all
  with Cons.IH [of s1] 2 balanced_trans [of s s1 o1 s2 o2] 1 show ?case by simp
qed simp

text \<open>A closed session starts, settles and sends nothing.\<close>

fun silent :: "hb_out \<Rightarrow> bool" where
  "silent (HoRefused _ _) = True"
| "silent _ = False"

lemma closed_silent:
  assumes "hs_inv s" "hs_closed s"
  shows "list_all silent (snd (hb_step decrypt parse s e))"
proof -
  have "\<not> hs_waiting w s" for w using assms by (simp add: hs_inv_def)
  with assms(2) show ?thesis
    by (cases e) (auto simp: hb_sendAcknowledged_def hb_read_def hb_timeout_def hb_close_def)
qed

lemma closed_run:
  "hs_inv s \<Longrightarrow> hs_closed s \<Longrightarrow> list_all silent (run_out (hb_step decrypt parse) s es)"
proof (induction es arbitrary: s)
  case (Cons e es)
  have ok: "hs_inv (fst (hb_step decrypt parse s e))" "hs_closed (fst (hb_step decrypt parse s e))"
    using hb_step_ok [OF Cons.prems(1)] Cons.prems(2) by auto
  from Cons.IH [OF ok] closed_silent [OF Cons.prems] show ?case
    by (simp add: run_out_Cons del: run.simps hb_step.simps)
qed simp

lemma hs_new_inv: "hs_inv (hs_new True)"
proof -
  have "\<not> hs_waiting w (hs_new True)" for w by (cases w) (simp_all add: hs_new_def)
  then show ?thesis by (simp add: hs_inv_def) (simp add: hs_new_def)
qed

section \<open>Results\<close>

lemma handleFrame_command:
  assumes "HoResolve WCommand v \<in> set (snd (hb_handleFrame decrypt parse f s))"
  shows "hf_result f \<and> hs_command s = Some (hf_command f)"
  using assms unfolding hb_handleFrame_def Let_def by (auto simp: hb_settle_def split: if_splits)

section \<open>Property\<close>

text \<open>C32: Every HomeBase operation settles exactly once: on a connected session, for every interleaving of
  writes, reads, datagrams, skips, acknowledgements, timeouts and close, the operations started equal
  those resolved or rejected plus the one still pending of each kind; a write is resolved only by a
  result frame of the very command in flight; closing settles all of them, and a closed session never
  starts, settles or sends again. Retained command bytes and read sequences stay bounded.\<close>
theorem homebase_operations_settle:
  fixes es :: "hb_event list" and decrypt :: "bytes \<Rightarrow> bytes" and parse :: "bytes \<Rightarrow> json option"
  defines "s \<equiv> run_state (hb_step decrypt parse) (hs_new True) es"
  shows "(\<forall>w. tally (started w) (run_out (hb_step decrypt parse) (hs_new True) es) =
      tally (settled w) (run_out (hb_step decrypt parse) (hs_new True) es) + (if hs_waiting w s then 1 else 0)) \<and>
    (\<forall>f v. HoResolve WCommand v \<in> set (snd (hb_handleFrame decrypt parse f s)) \<longrightarrow> hf_result f \<and> hs_command s = Some (hf_command f)) \<and>
    (\<forall>w. \<not> hs_waiting w (fst (hb_close s))) \<and>
    (\<forall>fs. list_all silent (run_out (hb_step decrypt parse) (fst (hb_close s)) fs)) \<and>
    length (hs_readSequences s) \<le> 8 \<and> (\<forall>t k. map_of (hs_pending s) t = Some k \<longrightarrow> length k < 16 + 16 * 1024 * 1024)"
proof -
  have i: "hs_inv s" unfolding s_def by (rule hbs.run_inv [OF hs_new_inv]) simp
  have "\<not> hs_waiting w (hs_new True)" for w by (cases w) (simp_all add: hs_new_def)
  then have "tally (started w) (run_out (hb_step decrypt parse) (hs_new True) es) =
      tally (settled w) (run_out (hb_step decrypt parse) (hs_new True) es) + (if hs_waiting w s then 1 else 0)" for w
    using run_balanced [OF hs_new_inv, of decrypt parse es] by (simp add: balanced_def open_of_def s_def)
  moreover have "\<not> hs_waiting w (fst (hb_close s))" for w
    using close_inv [OF i] close_closed [of s] by (simp add: hs_inv_def)
  moreover have "list_all silent (run_out (hb_step decrypt parse) (fst (hb_close s)) fs)" for fs
    by (rule closed_run [OF close_inv [OF i] close_closed])
  moreover have "length (hs_readSequences s) \<le> 8 \<and> (\<forall>t k. map_of (hs_pending s) t = Some k \<longrightarrow> length k < 16 + 16 * 1024 * 1024)"
    using i by (simp add: hs_inv_def)
  ultimately show ?thesis using handleFrame_command by blast
qed

lemma homebase_operations_settle_witness:
  "hf_result \<lparr> hf_command = 1350, hf_channel = 255, hf_signCode = 0, hf_result = True, hf_payload = [0, 0, 0, 0] \<rparr> \<and>
   hs_command (run_state (hb_step id (\<lambda>_. None)) (hs_new True) [HeWrite 1350 [1]]) = Some 1350"
proof -
  let ?f = "\<lparr> hf_command = 1350, hf_channel = 255, hf_signCode = 0, hf_result = True, hf_payload = [0, 0, 0, 0] \<rparr>"
  let ?s = "run_state (hb_step id (\<lambda>_. None)) (hs_new True) [HeWrite 1350 [1]]"
  have "HoResolve WCommand HvUnit \<in> set (snd (hb_handleFrame id (\<lambda>_. None) ?f ?s))"
    by (simp add: hb_handleFrame_def hb_settle_def hb_sendAcknowledged_def hb_sendCommand_def hs_new_def
      i32le_def u32le_def slice_def Let_def)
  with homebase_operations_settle [of id "\<lambda>_. None" "[HeWrite 1350 [1]]"]
  have "hf_result ?f \<and> hs_command ?s = Some (hf_command ?f)" by blast
  then show ?thesis by simp
qed

end
