(* ===== verification/Homebase_State.thy ===== *)
theory Homebase_State
  imports Js_Value
begin

text \<open>
  The values of a HomeBase session (stream/homebase-ppcs.ts): normalising the camera-info and storage
  replies into station state, the firmware gate of the storage query and the command payloads. AES-ECB
  encryption with the session key and \<open>JSON.parse\<close> of a nested text are parameters. Storage sizes are
  exact reals; the products stay exact doubles below 4.6 * 10^9 MiB.
\<close>

section \<open>Checked vals\<close>

definition STATION_CHANNEL :: nat where "STATION_CHANNEL = 255"

definition CHILD_READ_PARAM_TYPES :: "int list" where
  "CHILD_READ_PARAM_TYPES = [1011, 1013, 1020, 1035, 1045, 1101, 1138, 1141, 1198, 1207, 1230, 1240, 1241, 1277,
     1550, 1551, 1605, 2001, 2111, 6012, 6020, 6040]"

definition STORAGE_STATUSES :: "(int \<times> string) list" where
  "STORAGE_STATUSES = [(-1, ''not_present''), (0, ''normal''), (1, ''non_original''), (2, ''mount_failed''),
     (3, ''format_failed''), (4, ''removed''), (5, ''formatting''), (6, ''busy''), (11, ''repairing''),
     (22, ''io_error''), (23, ''at_risk''), (24, ''mounting'')]"

definition storage_status :: "int \<Rightarrow> string" where
  "storage_status n = (case map_of STORAGE_STATUSES n of Some t \<Rightarrow> t | None \<Rightarrow> ''unknown_'' @ int_str n)"

definition allowedMode :: "int option \<Rightarrow> int option" where
  "allowedMode v = (case v of None \<Rightarrow> None | Some n \<Rightarrow> if n \<in> {0, 1, 2, 3, 4, 5, 47, 63} then Some n else None)"

definition bounded :: "int option \<Rightarrow> int \<Rightarrow> int \<Rightarrow> int option" where
  "bounded v lo hi = (case v of None \<Rightarrow> None | Some n \<Rightarrow> if lo \<le> n \<and> n \<le> hi then Some n else None)"

fun safeInteger :: "json option \<Rightarrow> int option" where
  "safeInteger (Some (JNum x)) = js_safe (Some x)"
| "safeInteger (Some (JStr s)) = js_safe (map_option of_int (js_parseInt s))"
| "safeInteger _ = None"

definition nonNegativeInteger :: "json option \<Rightarrow> int option" where
  "nonNegativeInteger v = (case safeInteger v of None \<Rightarrow> None | Some n \<Rightarrow> if 0 \<le> n then Some n else None)"

definition safeText :: "json option \<Rightarrow> nat \<Rightarrow> string option" where
  "safeText v most =
     (let text = (case v of Some (JStr s) \<Rightarrow> trim s | _ \<Rightarrow> []) in
      if text \<noteq> [] \<and> length text \<le> most then Some text else None)"

section \<open>Storage\<close>

record storage_state =
  sg_status :: string
  sg_totalBytes :: "int option"
  sg_freeBytes :: "int option"

record storage_devices =
  sd_sd :: "storage_state option"
  sd_emmc :: "storage_state option"
  sd_hdd :: "storage_state option"

definition parsed_body :: "(string \<Rightarrow> json option) \<Rightarrow> json option \<Rightarrow> json option" where
  "parsed_body parse v =
     (let p = (case v of Some (JStr s) \<Rightarrow> (case parse s of None \<Rightarrow> Some JNull | Some j \<Rightarrow> Some j) | _ \<Rightarrow> v) in
      if isRecord p then p else Some (JObj []))"

definition optional_size :: "json option \<Rightarrow> string option \<Rightarrow> int option" where
  "optional_size v key = (case key of None \<Rightarrow> None | Some k \<Rightarrow> nonNegativeInteger (js_field v k))"

definition storageDevice :: "json option \<Rightarrow> string \<Rightarrow> string \<Rightarrow> string option \<Rightarrow> string option \<Rightarrow> string option \<Rightarrow> storage_state option" where
  "storageDevice v totalKey usedKey usableSizeKey freeSizeKey freeUsedKey =
     (if \<not> isRecord v then None
      else
        (case nonNegativeInteger (js_field v totalKey) of
           None \<Rightarrow> None
         | Some totalMebibytes \<Rightarrow>
             if totalMebibytes = 0 then None
             else
               (let usedMebibytes = nonNegativeInteger (js_field v usedKey);
                    usable = optional_size v usableSizeKey; freeSize = optional_size v freeSizeKey;
                    freeUsed = optional_size v freeUsedKey;
                    hasUsable = (case usable of None \<Rightarrow> False | Some u \<Rightarrow> u > 0);
                    totalBytes = (if hasUsable then js_round (of_int (the usable) * 1000000000 / 1024) else totalMebibytes * 1024 * 1024);
                    usedBytes = map_option (\<lambda>u. if hasUsable then u * 1000000 else u * 1024 * 1024) usedMebibytes;
                    partitionFree = (if hasUsable \<and> freeSize \<noteq> None \<and> freeUsed \<noteq> None
                      then Some (js_round (of_int (max 0 (the freeSize - the freeUsed)) * 1000000000 / 1024)) else None) in
                if \<not> safe_int totalBytes \<or> (case usedBytes of None \<Rightarrow> False | Some u \<Rightarrow> \<not> safe_int u) \<or>
                   (case partitionFree of None \<Rightarrow> False | Some f' \<Rightarrow> \<not> safe_int f') then None
                else Some \<lparr>
                  sg_status = (case safeInteger (js_field v ''work_status'') of None \<Rightarrow> ''reported'' | Some n \<Rightarrow> storage_status n),
                  sg_totalBytes = Some totalBytes,
                  sg_freeBytes = (case partitionFree of Some f' \<Rightarrow> Some f'
                    | None \<Rightarrow> map_option (\<lambda>u. max 0 (totalBytes - u)) usedBytes) \<rparr>)))"

definition parseStorage :: "(string \<Rightarrow> json option) \<Rightarrow> json option \<Rightarrow> storage_devices" where
  "parseStorage parse v =
     (let body = parsed_body parse v in
      \<lparr> sd_sd = None,
        sd_emmc = storageDevice (js_field body ''emmc_info'') ''disk_size'' ''disk_used'' None None None,
        sd_hdd = storageDevice (js_field body ''hdd_info'') ''disk_size'' ''disk_used''
          (Some ''disk_size_1024'') (Some ''video_size'') (Some ''video_used'') \<rparr>)"

definition parseHomeBase2StorageResponse :: "bytes \<Rightarrow> storage_state option" where
  "parseHomeBase2StorageResponse v =
     (if length v < 12 then None
      else if i32le v 0 < -1 then None
      else
        (let totalMebibytes = int (u32le v 4); freeMebibytes = int (u32le v 8);
             totalBytes = (if totalMebibytes > 0 then Some (totalMebibytes * 1024 * 1024) else None);
             freeBytes = (if totalBytes \<noteq> None \<and> freeMebibytes \<le> totalMebibytes then Some (freeMebibytes * 1024 * 1024) else None) in
         if (case totalBytes of None \<Rightarrow> False | Some t \<Rightarrow> \<not> safe_int t) \<or> (case freeBytes of None \<Rightarrow> False | Some f' \<Rightarrow> \<not> safe_int f')
         then None
         else Some \<lparr> sg_status = storage_status (i32le v 0), sg_totalBytes = totalBytes, sg_freeBytes = freeBytes \<rparr>))"

definition homeBase2StorageDiagnostic :: "bytes \<Rightarrow> string list option" where
  "homeBase2StorageDiagnostic v =
     (if length v < 12 then None
      else Some [''result:'' @ int_str (i32le v 0), ''total_mebibytes:'' @ nat_str (u32le v 4), ''free_mebibytes:'' @ nat_str (u32le v 8)])"

section \<open>Station state\<close>

datatype volume_observation = VoMissing | VoInvalid | VoOutOfRange | VoValid

record child_param =
  cp_channel :: int
  cp_type :: int
  cp_value :: json

record homebase_state =
  hb_firmware :: "string option"
  hb_guardMode :: "int option"
  hb_effectiveMode :: "int option"
  hb_alarmVolume :: "int option"
  hb_alarmVolumeObservation :: volume_observation
  hb_promptVolume :: "int option"
  hb_alarmTone :: "int option"
  hb_storageDevices :: "storage_devices option"
  hb_childParams :: "child_param list"

text \<open>One parameter row of the station channel: the value map and the alarm-volume observation.\<close>

definition param_row :: "(int, int) jsmap \<times> volume_observation \<Rightarrow> json \<Rightarrow> (int, int) jsmap \<times> volume_observation" where
  "param_row acc raw =
     (case acc of (vals, ob) \<Rightarrow>
        if \<not> isRecord (Some raw) \<or> Option.bind (js_field (Some raw) ''dev_type'') js_number \<noteq> Some 255 then acc
        else
          (let type = safeInteger (js_field (Some raw) ''param_type''); v = safeInteger (js_field (Some raw) ''param_value'');
               ob = (if type = Some 1235
                     then (case v of None \<Rightarrow> VoInvalid | Some n \<Rightarrow> if n < 1 \<or> n > 26 then VoOutOfRange else VoValid) else ob) in
           (case (type, v) of (Some t, Some n) \<Rightarrow> (AList.update t n vals, ob) | _ \<Rightarrow> (vals, ob))))"

definition child_of :: "json \<Rightarrow> child_param list" where
  "child_of raw =
     (if \<not> isRecord (Some raw) then []
      else
        (case (safeInteger (js_field (Some raw) ''dev_type''), safeInteger (js_field (Some raw) ''param_type''),
               js_field (Some raw) ''param_value'') of
           (Some channel, Some type, Some v) \<Rightarrow>
             if channel = int STATION_CHANNEL \<or> type \<notin> set CHILD_READ_PARAM_TYPES then []
             else (case v of
                 JStr _ \<Rightarrow> [\<lparr> cp_channel = channel, cp_type = type, cp_value = v \<rparr>]
               | JNum _ \<Rightarrow> [\<lparr> cp_channel = channel, cp_type = type, cp_value = v \<rparr>]
               | JBool _ \<Rightarrow> [\<lparr> cp_channel = channel, cp_type = type, cp_value = v \<rparr>]
               | _ \<Rightarrow> [])
         | _ \<Rightarrow> []))"

fun parseChildParams :: "json option \<Rightarrow> child_param list" where
  "parseChildParams (Some (JArr rows)) = concat (map child_of rows)"
| "parseChildParams _ = []"

fun param_rows :: "json option \<Rightarrow> (int, int) jsmap \<times> volume_observation" where
  "param_rows (Some (JArr rows)) = foldl param_row ([], VoMissing) rows"
| "param_rows _ = ([], VoMissing)"

definition parseHomeBaseState :: "(string \<Rightarrow> json option) \<Rightarrow> json option \<Rightarrow> json option \<Rightarrow> bool \<Rightarrow> homebase_state" where
  "parseHomeBaseState parse cameraInfo storage storageObserved =
     (let info = (if isRecord cameraInfo then cameraInfo else Some (JObj []));
          (vals, ob) = param_rows (js_field info ''params'') in
      \<lparr> hb_firmware = safeText (js_field info ''main_sw_version'') 100,
        hb_guardMode = allowedMode (map_of vals 1224),
        hb_effectiveMode = allowedMode (map_of vals 1151),
        hb_alarmVolume = bounded (map_of vals 1235) 1 26,
        hb_alarmVolumeObservation = ob,
        hb_promptVolume = bounded (map_of vals 1292) 0 26,
        hb_alarmTone = bounded (map_of vals 1281) 1 2,
        hb_storageDevices = (if storageObserved then Some (parseStorage parse storage) else None),
        hb_childParams = parseChildParams (js_field info ''params'') \<rparr>)"

section \<open>Ranges\<close>

definition storage_ok :: "storage_state \<Rightarrow> bool" where
  "storage_ok d \<longleftrightarrow> (\<forall>t. sg_totalBytes d = Some t \<longrightarrow> 0 \<le> t \<and> safe_int t) \<and> (\<forall>f. sg_freeBytes d = Some f \<longrightarrow> 0 \<le> f \<and> safe_int f)"

lemma js_round_nonneg: "0 \<le> x \<Longrightarrow> 0 \<le> js_round x"
  by (simp add: js_round_def)

lemma nonNegative_nonneg: "nonNegativeInteger v = Some n \<Longrightarrow> 0 \<le> n"
  by (auto simp: nonNegativeInteger_def split: option.splits if_splits)

lemma storageDevice_ok:
  assumes "storageDevice v a b c d e = Some x"
  shows "storage_ok x"
proof -
  have diff: "safe_int (max 0 (t - u))" if "safe_int t" "0 \<le> t" "0 \<le> u" for t u :: int
    using that by (auto simp: safe_int_def)
  from assms show ?thesis
    unfolding storageDevice_def
    by (auto simp: storage_ok_def Let_def diff nonNegative_nonneg js_round_nonneg
        split: if_splits option.splits)
qed

lemma homeBase2_ok: "parseHomeBase2StorageResponse v = Some x \<Longrightarrow> storage_ok x"
  by (auto simp: parseHomeBase2StorageResponse_def storage_ok_def Let_def split: if_splits)

lemma parseStorage_ok:
  "sd_emmc (parseStorage parse v) = Some x \<Longrightarrow> storage_ok x" "sd_hdd (parseStorage parse v) = Some x \<Longrightarrow> storage_ok x"
  by (auto simp: parseStorage_def Let_def dest: storageDevice_ok)

lemma child_of_ok:
  "p \<in> set (child_of raw) \<Longrightarrow> cp_channel p \<noteq> 255 \<and> cp_type p \<in> set CHILD_READ_PARAM_TYPES"
  by (auto simp: child_of_def STATION_CHANNEL_def split: if_splits option.splits json.splits)

lemma childParams_ok: "p \<in> set (parseChildParams v) \<Longrightarrow> cp_channel p \<noteq> 255 \<and> cp_type p \<in> set CHILD_READ_PARAM_TYPES"
  by (cases v rule: parseChildParams.cases) (auto dest: child_of_ok)

text \<open>The observation describes the last alarm-volume row.\<close>

definition volume_ok :: "(int, int) jsmap \<times> volume_observation \<Rightarrow> bool" where
  "volume_ok r \<longleftrightarrow> (case snd r of
       VoMissing \<Rightarrow> map_of (fst r) 1235 = None
     | VoValid \<Rightarrow> (\<exists>n. map_of (fst r) 1235 = Some n \<and> 1 \<le> n \<and> n \<le> 26)
     | VoOutOfRange \<Rightarrow> (\<exists>n. map_of (fst r) 1235 = Some n \<and> \<not> (1 \<le> n \<and> n \<le> 26))
     | VoInvalid \<Rightarrow> True)"

lemma param_row_ok:
  assumes "volume_ok r"
  shows "volume_ok (param_row r raw)"
proof -
  obtain vals ob where r: "r = (vals, ob)" by (cases r)
  define ty where "ty = safeInteger (js_field (Some raw) ''param_type'')"
  define v where "v = safeInteger (js_field (Some raw) ''param_value'')"
  define ob' where "ob' = (if ty = Some 1235
     then (case v of None \<Rightarrow> VoInvalid | Some n \<Rightarrow> if n < 1 \<or> n > 26 then VoOutOfRange else VoValid) else ob)"
  have c: "param_row r raw = r \<or> param_row r raw = (case (ty, v) of (Some t, Some n) \<Rightarrow> (AList.update t n vals, ob') | _ \<Rightarrow> (vals, ob'))"
    unfolding param_row_def r prod.case Let_def ty_def [symmetric] v_def [symmetric] ob'_def [symmetric] by simp
  have "volume_ok (case (ty, v) of (Some t, Some n) \<Rightarrow> (AList.update t n vals, ob') | _ \<Rightarrow> (vals, ob'))"
  proof (cases "ty = Some 1235")
    case True
    then show ?thesis by (cases v) (simp_all add: ob'_def volume_ok_def js_get_update)
  next
    case False
    then have "ob' = ob" by (simp add: ob'_def)
    with False assms r show ?thesis
      by (cases ty; cases v; cases ob) (simp_all add: volume_ok_def js_get_update)
  qed
  with c assms show ?thesis by auto
qed

lemma param_rows_ok: "volume_ok (param_rows v)"
proof -
  have "volume_ok (foldl param_row r rows)" if "volume_ok r" for r rows
    using that by (induction rows arbitrary: r) (simp_all add: param_row_ok)
  then show ?thesis by (cases v rule: param_rows.cases) (auto simp: volume_ok_def)
qed

section \<open>Firmware gate\<close>

text \<open>The first four digit groups against 3.2.7.6, from the left.\<close>

fun version_at_least :: "nat list \<Rightarrow> nat list \<Rightarrow> bool" where
  "version_at_least (p # ps) (m # ms) = (if p \<noteq> m then p > m else version_at_least ps ms)"
| "version_at_least ps [] = True"
| "version_at_least [] (m # ms) = False"

definition usesModernHomeBase2StorageRequest :: "string option \<Rightarrow> bool" where
  "usesModernHomeBase2StorageRequest firmware =
     (case firmware of
        None \<Rightarrow> False
      | Some f \<Rightarrow>
          if f = [] then False
          else (let parts = map digits_value (take 4 (digit_groups f)) in
                if length parts < 4 then False else version_at_least parts [3, 2, 7, 6]))"

section \<open>Payloads\<close>

definition fixedString :: "string \<Rightarrow> bytes" where
  "fixedString v = pad_to (max 128 ((length (utf8 v) + 127) div 128 * 128)) (utf8 v)"

definition plain_block :: "bytes \<Rightarrow> bytes" where
  "plain_block v = pad_to ((max (length v) 16 + 15) div 16 * 16) v"

text \<open>None is the RangeError of a 16-bit length that does not fit.\<close>

definition encryptedPayload :: "(bytes \<Rightarrow> bytes) \<Rightarrow> bytes \<Rightarrow> nat \<Rightarrow> bytes option" where
  "encryptedPayload encrypt v channel =
     (let encrypted = encrypt (plain_block v) in
      if length encrypted > 65535 then None
      else Some (le_bytes 2 (length encrypted) @ [0, 0] @ le_bytes 2 1 @ [word_of_nat channel, 1, 0, 0] @ encrypted))"

definition uint32 :: "int \<Rightarrow> bytes option" where
  "uint32 v = (if 0 \<le> v \<and> v \<le> 4294967295 then Some (le_bytes 4 (nat v)) else None)"

definition intPayload :: "(bytes \<Rightarrow> bytes) \<Rightarrow> int \<Rightarrow> nat \<Rightarrow> string \<Rightarrow> bytes option" where
  "intPayload encrypt v channel suffix =
     (case uint32 v of None \<Rightarrow> None
      | Some b \<Rightarrow> encryptedPayload encrypt (b @ (if suffix = [] then [] else fixedString suffix)) channel)"

definition twoIntegerPayload :: "(bytes \<Rightarrow> bytes) \<Rightarrow> int \<Rightarrow> int \<Rightarrow> nat \<Rightarrow> string \<Rightarrow> bytes option" where
  "twoIntegerPayload encrypt v sub channel suffix =
     (case (uint32 v, uint32 sub) of
        (Some a, Some b) \<Rightarrow> encryptedPayload encrypt (a @ b @ fixedString suffix) channel
      | _ \<Rightarrow> None)"

definition stringPayload :: "(bytes \<Rightarrow> bytes) \<Rightarrow> string \<Rightarrow> nat \<Rightarrow> bytes option" where
  "stringPayload encrypt v channel = encryptedPayload encrypt (utf8 v) channel"

definition voidPayload :: "nat \<Rightarrow> bytes" where
  "voidPayload channel = [0, 0, 0, 0, 1, 0, word_of_nat channel, 0, 0, 0]"

datatype storage_request_error = NoAccount | BadKey | PayloadRange

definition buildHomeBase2StorageRequestPayload ::
    "(bytes \<Rightarrow> bytes) \<Rightarrow> string option \<Rightarrow> string \<Rightarrow> bytes \<Rightarrow> storage_request_error + bytes" where
  "buildHomeBase2StorageRequestPayload encrypt firmware accountId key =
     (if usesModernHomeBase2StorageRequest firmware then Inr (voidPayload STATION_CHANNEL)
      else if accountId = [] then Inl NoAccount
      else if length key \<noteq> 16 then Inl BadKey
      else (case twoIntegerPayload encrypt 0 0 STATION_CHANNEL accountId of None \<Rightarrow> Inl PayloadRange | Some p \<Rightarrow> Inr p))"

text \<open>\<open>commandKey\<close>, \<open>encodeDid\<close>.\<close>

definition commandKey :: "string \<Rightarrow> string \<Rightarrow> bytes" where
  "commandKey serial did =
     (let dash = length (takeWhile (\<lambda>c. c \<noteq> CHR ''-'') did) in
      utf8 (drop (length serial - 7) serial @
        (if dash < length did then slice dash (dash + 9) did else take 8 did)))"

definition encodeDid :: "string \<Rightarrow> bytes option" where
  "encodeDid v =
     (let parts = split_on (CHR ''-'') v;
          number = (if length parts < 2 then Some 0 else js_string_number (parts ! 1)) in
      case number of
        None \<Rightarrow> None
      | Some x \<Rightarrow>
          if x < 0 \<or> x > 4294967295 then None
          else Some (copy_into 12 (if length parts < 3 then [] else utf8 (parts ! 2))
                 (copy_into 8 (be_bytes 4 (nat \<lfloor>x\<rfloor>)) (copy_into 0 (utf8 (parts ! 0)) (replicate 20 0)))))"

section \<open>Query lemmas\<close>

lemma dropWhile_digits: "list_all is_digit s \<Longrightarrow> dropWhile is_digit (s @ xs) = dropWhile is_digit xs"
  by (simp add: list_all_iff dropWhile_append2)

lemma digit_groups_nat_str:
  "digit_groups (nat_str n) = [nat_str n]"
  "digit_groups (nat_str n @ CHR ''.'' # s) = nat_str n # digit_groups s"
proof -
  have d: "\<not> is_digit CHR ''.''" by (simp add: is_digit_def)
  have hd: "dropWhile (\<lambda>c. \<not> is_digit c) (nat_str n @ xs) = nat_str n @ xs" for xs
    using nat_str_hd [of n] nat_str_not_Nil [of n] by (cases "nat_str n") auto
  have e: "digit_groups (CHR ''.'' # s) = digit_groups s"
    using d by (simp add: digit_groups.simps [of "CHR ''.'' # s"] digit_groups.simps [of s])
  have n: "digit_groups [] = []" by (simp add: digit_groups.simps)
  have t: "takeWhile is_digit (nat_str n @ CHR ''.'' # s) = nat_str n"
    using nat_str_digits [of n] d by (simp add: list_all_iff takeWhile_append2)
  show "digit_groups (nat_str n) = [nat_str n]"
    using hd [of "[]"] nat_str_digits [of n] nat_str_not_Nil [of n] n
    by (subst digit_groups.simps) (simp add: Let_def list_all_iff takeWhile_eq_all_conv dropWhile_eq_Nil_conv [THEN iffD2])
  show "digit_groups (nat_str n @ CHR ''.'' # s) = nat_str n # digit_groups s"
    using hd [of "CHR ''.'' # s"] dropWhile_digits [OF nat_str_digits, of n "CHR ''.'' # s"] e t d
    by (subst digit_groups.simps) (simp add: Let_def)
qed

lemma round_up: "0 < k \<Longrightarrow> n \<le> (n + (k - 1)) div k * k \<and> (n + (k - 1)) div k * k < n + (k :: nat)"
proof -
  assume k: "0 < k"
  have "(n + (k - 1)) div k * k + (n + (k - 1)) mod k = n + (k - 1)" by simp
  moreover have "(n + (k - 1)) mod k < k" using k by simp
  ultimately show ?thesis using k by linarith
qed

lemma fixedString_length: "length (fixedString v) < length (utf8 v) + 256"
  using round_up [of 128 "length (utf8 v)"] by (auto simp: fixedString_def max_def)

lemma plain_block_length: "length v \<le> length (plain_block v) \<and> length (plain_block v) < length v + 32"
  using round_up [of 16 "max (length v) 16"] by (auto simp: plain_block_def)

lemma plain_block_prefix: "take (length v) (plain_block v) = v"
  by (simp add: plain_block_def pad_to_def)

lemma fixedString_prefix: "take (length (utf8 v)) (fixedString v) = utf8 v"
  by (simp add: fixedString_def pad_to_def)

lemma take_fixedString: "take (8 + length (utf8 account)) (plain_block (replicate 8 0 @ fixedString account)) = replicate 8 0 @ utf8 account"
proof -
  define v where "v = replicate 8 (0 :: byte) @ fixedString account"
  have "length (utf8 account) \<le> length (fixedString account)" by (simp add: fixedString_def)
  then have l: "8 + length (utf8 account) \<le> length v" by (simp add: v_def)
  have "take (8 + length (utf8 account)) (plain_block v) = take (8 + length (utf8 account)) (take (length v) (plain_block v))"
    using l by (simp add: min_absorb1)
  also have "\<dots> = take (8 + length (utf8 account)) v" by (simp only: plain_block_prefix)
  also have "\<dots> = replicate 8 0 @ utf8 account" by (simp add: v_def fixedString_prefix)
  finally show ?thesis unfolding v_def .
qed

lemma classic_storage_payload:
  assumes "\<forall>p. length (encrypt p) = length p"
    and h: "\<not> usesModernHomeBase2StorageRequest fw" "account \<noteq> []" "length key = 16" "length (utf8 account) \<le> 65000"
  shows "\<exists>p plain. buildHomeBase2StorageRequestPayload encrypt fw account key = Inr p \<and>
      drop 10 p = encrypt plain \<and> u16le p 0 = length (encrypt plain) \<and> p ! 6 = 255 \<and>
      take (8 + length (utf8 account)) plain = replicate 8 0 @ utf8 account"
proof -
  define v where "v = replicate 8 (0 :: byte) @ fixedString account"
  define e where "e = encrypt (plain_block v)"
  have len: "length e \<le> 65535"
    using assms(1) plain_block_length [of v] fixedString_length [of account] h(4) by (simp add: e_def v_def)
  have z: "le_bytes 4 0 @ le_bytes 4 0 = replicate 8 (0 :: byte)" by code_simp
  have "uint32 0 = Some (le_bytes 4 0)" by (simp add: uint32_def)
  then have "twoIntegerPayload encrypt 0 0 STATION_CHANNEL account = encryptedPayload encrypt v 255"
    unfolding twoIntegerPayload_def v_def
    by (simp only: option.case prod.case append_assoc [symmetric] z STATION_CHANNEL_def)
  then have b: "buildHomeBase2StorageRequestPayload encrypt fw account key =
      Inr (le_bytes 2 (length e) @ [0, 0] @ le_bytes 2 1 @ [255, 1, 0, 0] @ e)"
    using h len by (simp add: buildHomeBase2StorageRequestPayload_def encryptedPayload_def e_def Let_def)
  have u: "u16le (le_bytes 2 (length e) @ [0, 0] @ le_bytes 2 1 @ [255, 1, 0, 0] @ e) 0 = length e"
    using len le_nat_le_bytes [of 2 "length e"] by (simp add: u16le_def slice_def del: le_bytes_numeral)
  have "drop 10 (le_bytes 2 (length e) @ [0, 0] @ le_bytes 2 1 @ [255, 1, 0, 0] @ e) = e"
    "(le_bytes 2 (length e) @ [0, 0] @ le_bytes 2 1 @ [255, 1, 0, 0] @ e) ! 6 = 255"
    by (simp_all add: nth_append)
  with b u take_fixedString [of account] show ?thesis unfolding e_def v_def by blast
qed

section \<open>Properties\<close>

text \<open>C33: Whatever a HomeBase answers, the normalised state holds only values of their documented ranges:
  known guard modes, alarm volume 1 to 26, prompt volume 0 to 26, tone 1 or 2, a firmware text of 1 to
  100 characters, non-negative safe storage sizes, child parameters of the allowlist that are not the
  station's own; a valid alarm-volume observation comes with a volume, and missing or out-of-range
  ones without.\<close>
theorem homebase_state_ranges:
  fixes parse :: "string \<Rightarrow> json option" and info storage :: "json option" and observed :: bool
  defines "h \<equiv> parseHomeBaseState parse info storage observed"
  shows "(\<forall>m. hb_guardMode h = Some m \<or> hb_effectiveMode h = Some m \<longrightarrow> m \<in> {0, 1, 2, 3, 4, 5, 47, 63}) \<and>
    (\<forall>v. hb_alarmVolume h = Some v \<longrightarrow> 1 \<le> v \<and> v \<le> 26) \<and> (\<forall>v. hb_promptVolume h = Some v \<longrightarrow> 0 \<le> v \<and> v \<le> 26) \<and>
    (\<forall>v. hb_alarmTone h = Some v \<longrightarrow> v = 1 \<or> v = 2) \<and>
    (\<forall>f. hb_firmware h = Some f \<longrightarrow> 1 \<le> length f \<and> length f \<le> 100) \<and>
    (\<forall>d x. hb_storageDevices h = Some d \<and> (sd_sd d = Some x \<or> sd_emmc d = Some x \<or> sd_hdd d = Some x) \<longrightarrow> storage_ok x) \<and>
    (\<forall>p\<in>set (hb_childParams h). cp_channel p \<noteq> 255 \<and> cp_type p \<in> set CHILD_READ_PARAM_TYPES) \<and>
    (hb_alarmVolumeObservation h = VoValid \<longrightarrow> hb_alarmVolume h \<noteq> None) \<and>
    (hb_alarmVolumeObservation h \<in> {VoMissing, VoOutOfRange} \<longrightarrow> hb_alarmVolume h = None)"
proof -
  define i where "i = (if isRecord info then info else Some (JObj []))"
  obtain vals ob where r: "param_rows (js_field i ''params'') = (vals, ob)" by fastforce
  have h: "h = \<lparr> hb_firmware = safeText (js_field i ''main_sw_version'') 100,
        hb_guardMode = allowedMode (map_of vals 1224), hb_effectiveMode = allowedMode (map_of vals 1151),
        hb_alarmVolume = bounded (map_of vals 1235) 1 26, hb_alarmVolumeObservation = ob,
        hb_promptVolume = bounded (map_of vals 1292) 0 26, hb_alarmTone = bounded (map_of vals 1281) 1 2,
        hb_storageDevices = (if observed then Some (parseStorage parse storage) else None),
        hb_childParams = parseChildParams (js_field i ''params'') \<rparr>"
    by (simp add: h_def parseHomeBaseState_def i_def [symmetric] r)
  have b: "bounded v lo hi = Some n \<Longrightarrow> lo \<le> n \<and> n \<le> hi" for v lo hi n by (auto simp: bounded_def split: option.splits if_splits)
  have m: "allowedMode v = Some n \<Longrightarrow> n \<in> {0, 1, 2, 3, 4, 5, 47, 63}" for v n
    by (auto simp: allowedMode_def split: option.splits if_splits)
  have f: "safeText v n = Some t \<Longrightarrow> 1 \<le> length t \<and> length t \<le> n" for v n t
    by (auto simp: safeText_def Let_def Suc_le_eq split: if_splits)
  have tone: "bounded v 1 2 = Some n \<Longrightarrow> n = 1 \<or> n = 2" for v n using b [of v 1 2 n] by auto
  have vol: "volume_ok (vals, ob)" using param_rows_ok [of "js_field i ''params''"] by (simp add: r)
  have o1: "ob = VoValid \<longrightarrow> bounded (map_of vals 1235) 1 26 \<noteq> None"
    and o2: "ob \<in> {VoMissing, VoOutOfRange} \<longrightarrow> bounded (map_of vals 1235) 1 26 = None"
    using vol by (auto simp: volume_ok_def bounded_def split: volume_observation.splits option.splits)
  have st: "sd_sd (parseStorage parse storage) = None" by (simp add: parseStorage_def Let_def)
  show ?thesis
    unfolding h
    using m b [of "map_of vals 1235" 1 26] b [of "map_of vals 1292" 0 26] tone f o1 o2 st
      parseStorage_ok [of parse storage] childParams_ok [of _ "js_field i ''params''"]
    by (auto split: if_splits)
qed

lemma homebase_state_ranges_witness:
  "let h = parseHomeBaseState (\<lambda>_. None)
     (Some (JObj [(''params'', JArr [JObj [(''dev_type'', JNum 255), (''param_type'', JNum 1235), (''param_value'', JStr ''20'')]])])) None False
   in hb_alarmVolumeObservation h = VoValid \<and> hb_alarmVolume h \<noteq> None"
proof -
  let ?info = "Some (JObj [(''params'', JArr [JObj [(''dev_type'', JNum 255), (''param_type'', JNum 1235), (''param_value'', JStr ''20'')]])])"
  have "safe_real 1235" using safe_real_of_int [of 1235] by (simp add: safe_int_def max_safe_integer_def)
  moreover have "js_parseInt ''20'' = Some 20"
    by (simp add: js_parseInt_def js_space_def is_digit_def digits_value_def)
  moreover have "safe_real (of_int 20)" by (simp only: safe_real_of_int) (simp add: safe_int_def max_safe_integer_def)
  ultimately have o': "hb_alarmVolumeObservation (parseHomeBaseState (\<lambda>_. None) ?info None False) = VoValid"
    by (simp add: parseHomeBaseState_def param_row_def js_safe_def Let_def)
  with homebase_state_ranges [of "\<lambda>_. None" ?info None False] show ?thesis by (simp add: Let_def)
qed

text \<open>The HomeBase 2 storage query is chosen and built as documented: a firmware written as four dotted
  numbers takes the modern query exactly from 3.2.7.6 on, which is the fixed ten-byte payload; an older
  one needs an account and a 16-byte key, and then gets a payload whose length field, channel and
  encrypted body (two zeros and the account text, zero padded) are the ones of the builder.\<close>
theorem homebase2_storage_query:
  assumes "\<forall>p. length (encrypt p) = length p"
  shows "(usesModernHomeBase2StorageRequest (Some (nat_str a @ ''.'' @ nat_str b @ ''.'' @ nat_str c @ ''.'' @ nat_str d)) \<longleftrightarrow>
      a > 3 \<or> a = 3 \<and> (b > 2 \<or> b = 2 \<and> (c > 7 \<or> c = 7 \<and> d \<ge> 6))) \<and>
    (usesModernHomeBase2StorageRequest fw \<longrightarrow>
      buildHomeBase2StorageRequestPayload encrypt fw account key = Inr [0, 0, 0, 0, 1, 0, 255, 0, 0, 0]) \<and>
    (\<not> usesModernHomeBase2StorageRequest fw \<and> account = [] \<longrightarrow> buildHomeBase2StorageRequestPayload encrypt fw account key = Inl NoAccount) \<and>
    (\<not> usesModernHomeBase2StorageRequest fw \<and> account \<noteq> [] \<and> length key \<noteq> 16 \<longrightarrow>
      buildHomeBase2StorageRequestPayload encrypt fw account key = Inl BadKey) \<and>
    (\<not> usesModernHomeBase2StorageRequest fw \<and> account \<noteq> [] \<and> length key = 16 \<and> length (utf8 account) \<le> 65000 \<longrightarrow>
      (\<exists>p plain. buildHomeBase2StorageRequestPayload encrypt fw account key = Inr p \<and>
         drop 10 p = encrypt plain \<and> u16le p 0 = length (encrypt plain) \<and> p ! 6 = 255 \<and>
         take (8 + length (utf8 account)) plain = replicate 8 0 @ utf8 account))"
proof -
  have gate: "usesModernHomeBase2StorageRequest (Some (nat_str a @ ''.'' @ nat_str b @ ''.'' @ nat_str c @ ''.'' @ nat_str d)) \<longleftrightarrow>
      a > 3 \<or> a = 3 \<and> (b > 2 \<or> b = 2 \<and> (c > 7 \<or> c = 7 \<and> d \<ge> 6))"
    by (auto simp: usesModernHomeBase2StorageRequest_def digit_groups_nat_str)
  have c: "\<exists>p plain. buildHomeBase2StorageRequestPayload encrypt fw account key = Inr p \<and>
      drop 10 p = encrypt plain \<and> u16le p 0 = length (encrypt plain) \<and> p ! 6 = 255 \<and>
      take (8 + length (utf8 account)) plain = replicate 8 0 @ utf8 account"
    if "\<not> usesModernHomeBase2StorageRequest fw" "account \<noteq> []" "length key = 16" "length (utf8 account) \<le> 65000"
    using classic_storage_payload [OF assms that] by blast
  have m: "buildHomeBase2StorageRequestPayload encrypt fw account key = Inr [0, 0, 0, 0, 1, 0, 255, 0, 0, 0]"
    if "usesModernHomeBase2StorageRequest fw"
    using that by (simp add: buildHomeBase2StorageRequestPayload_def voidPayload_def STATION_CHANNEL_def)
  have e1: "buildHomeBase2StorageRequestPayload encrypt fw account key = Inl NoAccount"
    if "\<not> usesModernHomeBase2StorageRequest fw" "account = []"
    using that by (simp add: buildHomeBase2StorageRequestPayload_def)
  have e2: "buildHomeBase2StorageRequestPayload encrypt fw account key = Inl BadKey"
    if "\<not> usesModernHomeBase2StorageRequest fw" "account \<noteq> []" "length key \<noteq> 16"
    using that by (simp add: buildHomeBase2StorageRequestPayload_def)
  show ?thesis by (intro conjI impI gate m e1 e2 c; simp)
qed

lemma homebase2_storage_query_witness:
  "buildHomeBase2StorageRequestPayload id (Some ''3.2.7.6'') ''a'' [] = Inr [0, 0, 0, 0, 1, 0, 255, 0, 0, 0] \<and>
   buildHomeBase2StorageRequestPayload id None [] [] = Inl NoAccount"
proof -
  have s: "nat_str 3 @ ''.'' @ nat_str 2 @ ''.'' @ nat_str 7 @ ''.'' @ nat_str 6 = ''3.2.7.6''"
    by code_simp
  have "\<forall>p :: bytes. length (id p) = length p" by simp
  note q = homebase2_storage_query [OF this]
  have "usesModernHomeBase2StorageRequest (Some ''3.2.7.6'')" using q [of 3 2 7 6] unfolding s by auto
  moreover have "\<not> usesModernHomeBase2StorageRequest None" by (simp add: usesModernHomeBase2StorageRequest_def)
  ultimately show ?thesis using q by blast
qed

end
