(* ===== verification/E30_Lock.thy ===== *)
theory E30_Lock
  imports Js_Value
begin

text \<open>
  The E30 lock protocol of \<open>provider/e30-lock-protocol.ts\<close>: identity checks, the TLV command frames
  and their settings writes, notification modes, and the decoding of correlated replies. Every error
  of the file is the one fixed error \<open>unavailable\<close>, so a throwing function is None. AES-CBC is a pair
  of parameters over key, initialisation vector and data (with its padding), \<open>JSON.parse\<close> of UTF-8
  text is a parameter \<open>parse\<close>, and the monotonic clock is an argument. The closed action type replaces
  the run-time shape checks of the action argument.
\<close>

unbundle bit_operations_syntax

section \<open>Identity and numbers\<close>

record lock_identity =
  li_serial :: string
  li_name :: string
  li_adminUserId :: string
  li_shortUserId :: string
  li_userName :: string
  li_administrator :: bool

definition is_alnum :: "char \<Rightarrow> bool" where
  "is_alnum c \<longleftrightarrow> (let n = of_char c :: nat in 48 \<le> n \<and> n \<le> 57 \<or> 65 \<le> n \<and> n \<le> 90 \<or> 97 \<le> n \<and> n \<le> 122)"

definition is_hex :: "char \<Rightarrow> bool" where
  "is_hex c \<longleftrightarrow> (let n = of_char c :: nat in 48 \<le> n \<and> n \<le> 57 \<or> 65 \<le> n \<and> n \<le> 70 \<or> 97 \<le> n \<and> n \<le> 102)"

definition validateE30Identity :: "lock_identity \<Rightarrow> bool \<Rightarrow> bool" where
  "validateE30Identity identity writing \<longleftrightarrow>
     list_all is_alnum (li_serial identity) \<and> length (li_serial identity) = 16 \<and>
     list_all is_alnum (li_adminUserId identity) \<and>
     12 \<le> length (li_adminUserId identity) \<and> length (li_adminUserId identity) \<le> 128 \<and>
     (writing \<longrightarrow> list_all is_hex (li_shortUserId identity) \<and> length (li_shortUserId identity) = 4 \<and>
        li_userName identity \<noteq> [] \<and> length (utf8 (li_userName identity)) \<le> 255)"

definition is_uint32 :: "int \<Rightarrow> bool" where
  "is_uint32 v \<longleftrightarrow> 0 \<le> v \<and> v \<le> 4294967295"

section \<open>Hexadecimal text\<close>

definition nibble_char :: "nat \<Rightarrow> char" where
  "nibble_char n = (if n < 10 then char_of (48 + n) else char_of (87 + n))"

definition hex_of :: "bytes \<Rightarrow> string" where
  "hex_of bs = concat (map (\<lambda>b. [nibble_char (unat b div 16), nibble_char (unat b mod 16)]) bs)"

section \<open>Commands\<close>

datatype transfer = NotificationTransfer int | LockTransfer nat string int int

record e30_command =
  ec_keyTime :: int
  ec_sequence :: int
  ec_opcode :: nat
  ec_transfer :: transfer

definition lock_checksum :: "bytes \<Rightarrow> byte" where
  "lock_checksum bs = foldl (XOR) 0 bs"

definition cipherIdentity :: "lock_identity \<Rightarrow> int \<Rightarrow> (bytes \<times> bytes) option" where
  "cipherIdentity identity keyTime =
     (let admin = li_adminUserId identity;
          key = utf8 (drop (length admin - 12) admin) @ be_bytes 4 (nat keyTime);
          iv = copy_into 0 (utf8 (li_serial identity)) (replicate 16 0) in
      if length key \<noteq> 16 then None else Some (key, iv))"

fun tlv_encode :: "nat \<Rightarrow> bytes list \<Rightarrow> bytes" where
  "tlv_encode tag [] = []"
| "tlv_encode tag (f # fs) = [word_of_nat tag, word_of_nat (length f)] @ f @ tlv_encode (tag + 1) fs"

definition aligned16 :: "bytes \<Rightarrow> bytes" where
  "aligned16 tlv = pad_to ((length tlv + 15) div 16 * 16) tlv"

definition lock_frame :: "nat \<Rightarrow> bytes \<Rightarrow> bytes" where
  "lock_frame opcode encrypted =
     (let body = [0xff, 0x09] @ le_bytes 2 (10 + length encrypted) @ [3, 0, 2] @ be_bytes 2 opcode @ encrypted in
      body @ [lock_checksum body])"

definition api_command :: "nat \<Rightarrow> nat" where
  "api_command opcode = (if opcode = 34 then 6012 else if opcode = 53 then 6016 else if opcode = 52 then 6015 else 6018)"

definition encodeE30Command ::
    "(bytes \<Rightarrow> bytes \<Rightarrow> bytes \<Rightarrow> bytes) \<Rightarrow> lock_identity \<Rightarrow> nat \<Rightarrow> bytes list \<Rightarrow> int \<Rightarrow> int \<Rightarrow> e30_command option" where
  "encodeE30Command encrypt identity opcode entries keyTime sequence =
     (case cipherIdentity identity keyTime of
        None \<Rightarrow> None
      | Some (key, iv) \<Rightarrow>
          (let frame = lock_frame (0x4000 OR opcode) (encrypt key iv (aligned16 (tlv_encode 0xa1 entries))) in
           Some \<lparr> ec_keyTime = keyTime, ec_sequence = sequence, ec_opcode = opcode,
             ec_transfer = LockTransfer (api_command opcode) (hex_of frame) sequence keyTime \<rparr>))"

section \<open>Notification modes\<close>

datatype notification_setting = NsNotifications | NsLocked | NsUnlocked

definition notificationMode :: "json option \<Rightarrow> int option" where
  "notificationMode v = (case v of
     Some (JNum x) \<Rightarrow> if is_integer x \<and> 0 \<le> x \<and> x \<le> 31 then Some \<lfloor>x\<rfloor> else None | _ \<Rightarrow> None)"

fun notification_mask :: "notification_setting \<Rightarrow> int" where
  "notification_mask NsNotifications = 1"
| "notification_mask NsUnlocked = 2"
| "notification_mask NsLocked = 4"

definition buildE30NotificationCommand ::
    "lock_identity \<Rightarrow> notification_setting \<Rightarrow> bool \<Rightarrow> int \<Rightarrow> int \<Rightarrow> e30_command option" where
  "buildE30NotificationCommand identity setting enabled currentMode sequence =
     (if \<not> li_administrator identity then None
      else if \<not> validateE30Identity identity False then None
      else if \<not> (0 \<le> currentMode \<and> currentMode \<le> 31) \<or> \<not> is_uint32 sequence then None
      else
        (let mask = notification_mask setting;
             mode = (if enabled then currentMode OR mask else currentMode AND NOT mask) AND 31 in
         Some \<lparr> ec_keyTime = 0, ec_sequence = sequence, ec_opcode = 1919, ec_transfer = NotificationTransfer mode \<rparr>))"

text \<open>\<open>/^(0|[1-9][0-9]?)$/\<close>\<close>

definition small_decimal :: "string \<Rightarrow> bool" where
  "small_decimal s \<longleftrightarrow> s = ''0'' \<or> list_all is_digit s \<and> 1 \<le> length s \<and> length s \<le> 2 \<and> hd s \<noteq> CHR ''0''"

definition mode_param :: "json \<Rightarrow> bool" where
  "mode_param item \<longleftrightarrow> js_field (Some item) ''param_type'' = Some (JNum 1919) \<or> js_field (Some item) ''param_type'' = Some (JStr ''1919'')"

definition mode_value :: "json option \<Rightarrow> int option" where
  "mode_value v = (case v of
     Some (JStr s) \<Rightarrow> if small_decimal s then notificationMode (Some (JNum (real (digits_value s)))) else None
   | _ \<Rightarrow> notificationMode v)"

fun mode_loop :: "int option \<Rightarrow> json list \<Rightarrow> int option" where
  "mode_loop mode [] = mode"
| "mode_loop mode (item # items) =
     (if \<not> isRecord (Some item) then None
      else if \<not> mode_param item then mode_loop mode items
      else if mode \<noteq> None \<or> js_field (Some item) ''param_value'' = None then None
      else (case mode_value (js_field (Some item) ''param_value'') of None \<Rightarrow> None | Some m \<Rightarrow> mode_loop (Some m) items))"

fun parseE30NotificationMode :: "json option \<Rightarrow> int option" where
  "parseE30NotificationMode (Some (JArr items)) = mode_loop None items"
| "parseE30NotificationMode _ = None"

section \<open>Settings observations\<close>

record settings_observation =
  so_volume :: nat
  so_fields :: "(nat, bytes) jsmap"
  so_device :: "string option"
  so_owner :: "string option"
  so_observedAt :: real

abbreviation so_get :: "settings_observation \<Rightarrow> nat \<Rightarrow> bytes" where
  "so_get o' tag \<equiv> (case map_of (so_fields o') tag of None \<Rightarrow> [] | Some v \<Rightarrow> v)"

definition E30_AUTO_LOCK_DELAYS :: "int list" where
  "E30_AUTO_LOCK_DELAYS = [30, 60, 90, 120, 150, 180, 300]"

definition validAutoLock :: "settings_observation \<Rightarrow> bool" where
  "validAutoLock o' \<longleftrightarrow>
     list_all (\<lambda>(tag, n). map_option length (map_of (so_fields o') tag) = Some n)
       [(0xa1, 1), (0xa2, 2), (0xa3, 1), (0xa4, 2), (0xa5, 2)] \<and>
     unat (so_get o' 0xa1 ! 0) \<le> 1 \<and> unat (so_get o' 0xa3 ! 0) \<le> 1 \<and> u16le (so_get o' 0xa2) 0 \<noteq> 0 \<and>
     (so_get o' 0xa3 ! 0 = 1 \<longrightarrow>
        list_all (\<lambda>tag. unat (so_get o' tag ! 0) \<le> 23 \<and> unat (so_get o' tag ! 1) \<le> 59) [0xa4, 0xa5])"

definition autoLockEnabled :: "settings_observation \<Rightarrow> bool option" where
  "autoLockEnabled o' = (if validAutoLock o' then Some (so_get o' 0xa1 ! 0 = 1) else None)"

definition autoLockDelaySeconds :: "settings_observation \<Rightarrow> nat option" where
  "autoLockDelaySeconds o' =
     (if \<not> validAutoLock o' then None
      else (let seconds = u16le (so_get o' 0xa2) 0 in if 1 \<le> seconds \<and> seconds \<le> 3600 then Some seconds else None))"

definition validSettingsWrite :: "settings_observation \<Rightarrow> real \<Rightarrow> lock_identity \<Rightarrow> int \<Rightarrow> int \<Rightarrow> int \<Rightarrow> bool" where
  "validSettingsWrite o' now identity unixTime keyTime sequence \<longleftrightarrow>
     validateE30Identity identity False \<and>
     list_all is_uint32 [unixTime, keyTime, sequence] \<and> validAutoLock o' \<and>
     so_device o' = Some (li_serial identity) \<and> so_owner o' = Some (li_adminUserId identity) \<and>
     \<not> (now - so_observedAt o' < 0 \<or> now - so_observedAt o' > 10000)"

definition autoLockCommand ::
    "(bytes \<Rightarrow> bytes \<Rightarrow> bytes \<Rightarrow> bytes) \<Rightarrow> settings_observation \<Rightarrow> real \<Rightarrow> lock_identity \<Rightarrow> bool \<Rightarrow> int \<Rightarrow> int \<Rightarrow> int \<Rightarrow> e30_command option" where
  "autoLockCommand encrypt o' now identity enabled unixTime keyTime sequence =
     (if \<not> validSettingsWrite o' now identity unixTime keyTime sequence then None
      else encodeE30Command encrypt identity 52
        [le_bytes 4 (nat unixTime), utf8 (li_adminUserId identity), [0], [if enabled then 1 else 0],
         so_get o' 0xa2, so_get o' 0xa3, so_get o' 0xa4, so_get o' 0xa5] keyTime sequence)"

definition autoLockDelayCommand ::
    "(bytes \<Rightarrow> bytes \<Rightarrow> bytes \<Rightarrow> bytes) \<Rightarrow> settings_observation \<Rightarrow> real \<Rightarrow> lock_identity \<Rightarrow> int \<Rightarrow> int \<Rightarrow> int \<Rightarrow> int \<Rightarrow> e30_command option" where
  "autoLockDelayCommand encrypt o' now identity seconds unixTime keyTime sequence =
     (if seconds \<notin> set E30_AUTO_LOCK_DELAYS \<or> autoLockDelaySeconds o' = None then None
      else if \<not> validSettingsWrite o' now identity unixTime keyTime sequence then None
      else encodeE30Command encrypt identity 52
        [le_bytes 4 (nat unixTime), utf8 (li_adminUserId identity), [0], so_get o' 0xa1,
         le_bytes 2 (nat seconds), so_get o' 0xa3, so_get o' 0xa4, so_get o' 0xa5] keyTime sequence)"

definition plausibleTime :: "bytes \<Rightarrow> bool" where
  "plausibleTime v \<longleftrightarrow> v = [255, 255] \<or> unat (v ! 0) \<le> 23 \<and> unat (v ! 1) \<le> 59"

definition autoLockTrialPreflight :: "settings_observation \<Rightarrow> bool \<times> nat option" where
  "autoLockTrialPreflight o' =
     (let valid = validAutoLock o' in
      (valid \<and> autoLockEnabled o' = Some False \<and> so_get o' 0xa3 ! 0 = 0 \<and>
         plausibleTime (so_get o' 0xa4) \<and> plausibleTime (so_get o' 0xa5),
       if valid then Some (u16le (so_get o' 0xa2) 0) else None))"

datatype stable_setting = StSound | StAutoLock | StDelay

fun stable_tag :: "stable_setting \<Rightarrow> nat" where
  "stable_tag StSound = 0xab"
| "stable_tag StDelay = 0xa2"
| "stable_tag StAutoLock = 0xa1"

definition stable_step ::
    "stable_setting \<Rightarrow> settings_observation \<Rightarrow> settings_observation \<Rightarrow> settings_observation \<Rightarrow> bool \<times> nat \<Rightarrow> nat \<Rightarrow> bool \<times> nat" where
  "stable_step setting this baseline latest acc tag =
     (case acc of (unchanged, compared) \<Rightarrow>
        if tag = stable_tag setting then acc
        else (case (map_of (so_fields this) tag, map_of (so_fields baseline) tag) of
            (Some first, Some second) \<Rightarrow>
              if first \<noteq> second
              then (unchanged \<and> \<not> (setting = StDelay \<or> setting = StAutoLock \<and> (0xa2 \<le> tag \<and> tag \<le> 0xa5 \<or> tag = 0xab)), compared)
              else (unchanged \<and> map_of (so_fields latest) tag = Some first, compared + 1)
          | _ \<Rightarrow> (False, compared)))"

definition compareStableFields ::
    "stable_setting \<Rightarrow> settings_observation \<Rightarrow> settings_observation \<Rightarrow> settings_observation \<Rightarrow> bool \<times> nat" where
  "compareStableFields setting this baseline latest =
     (let tags = remdups (map fst (so_fields this @ so_fields baseline @ so_fields latest));
          (unchanged, compared) = foldl (stable_step setting this baseline latest) (True, 0) tags in
      (unchanged \<and> compared > 0, compared))"

section \<open>Building\<close>

datatype lock_action = LaQuery | LaSettings | LaLock bool | LaVolume int
  | LaAutoLock bool settings_observation | LaAutoLockDelay int settings_observation

definition buildE30Command ::
    "(bytes \<Rightarrow> bytes \<Rightarrow> bytes \<Rightarrow> bytes) \<Rightarrow> real \<Rightarrow> lock_identity \<Rightarrow> lock_action \<Rightarrow> int \<Rightarrow> int \<Rightarrow> int \<Rightarrow> e30_command option" where
  "buildE30Command encrypt now identity action unixTime keyTime sequence =
     (if \<not> validateE30Identity identity (case action of LaLock _ \<Rightarrow> True | _ \<Rightarrow> False) then None
      else if \<not> list_all is_uint32 [unixTime, keyTime, sequence] then None
      else
        (let entries = [le_bytes 4 (nat unixTime), utf8 (li_adminUserId identity)] in
         case action of
           LaAutoLockDelay seconds settings \<Rightarrow> autoLockDelayCommand encrypt settings now identity seconds unixTime keyTime sequence
         | LaAutoLock enabled settings \<Rightarrow> autoLockCommand encrypt settings now identity enabled unixTime keyTime sequence
         | LaVolume v \<Rightarrow>
             if v \<notin> {1, 2, 3} then None
             else encodeE30Command encrypt identity 52 (entries @ [[4], [word_of_int v]]) keyTime sequence
         | LaQuery \<Rightarrow> encodeE30Command encrypt identity 34 (entries @ [[0]]) keyTime sequence
         | LaSettings \<Rightarrow> encodeE30Command encrypt identity 53 entries keyTime sequence
         | LaLock lock \<Rightarrow>
             encodeE30Command encrypt identity 35
               (entries @ [[if lock then 0 else 1], utf8 (li_userName identity), hex_bytes (li_shortUserId identity)]) keyTime sequence))"

definition e30MqttClientId :: "string \<Rightarrow> string \<Rightarrow> int \<Rightarrow> string option" where
  "e30MqttClientId userId installId unixTime =
     (if \<not> (list_all (\<lambda>c. is_alnum c \<or> c = CHR ''_'' \<or> c = CHR ''-'') userId \<and> 1 \<le> length userId \<and> length userId \<le> 128) \<or>
         \<not> (list_all (\<lambda>c. is_hex c \<and> lower c = c) installId \<and> length installId = 16) \<or> \<not> is_uint32 unixTime
      then None else Some (''android-eufy_security-'' @ userId @ ''-'' @ installId @ ''-'' @ int_str unixTime))"

section \<open>Replies\<close>

definition replyTime :: "json option \<Rightarrow> int option" where
  "replyTime v = (case v of
     Some (JNum x) \<Rightarrow> if is_integer x \<and> is_uint32 \<lfloor>x\<rfloor> then Some \<lfloor>x\<rfloor> else None
   | Some (JStr s) \<Rightarrow> if list_all is_hex s \<and> length s = 8 then Some (int (be_nat (hex_bytes s))) else None
   | _ \<Rightarrow> None)"

text \<open>The TLV loop: None is a malformed entry, otherwise the entries and the rest from the first zero tag.\<close>

function tlv_loop :: "(nat, bytes) jsmap \<Rightarrow> bytes \<Rightarrow> ((nat, bytes) jsmap \<times> bytes) option" where
  "tlv_loop entries rest =
     (if rest = [] \<or> hd rest = 0 then Some (entries, rest)
      else
        (let tag = unat (hd rest) in
         if tag < 0xa1 \<or> length rest < 2 then None
         else
           (let n = unat (rest ! 1) in
            if n = 0 \<or> 2 + n > length rest \<or> map_of entries tag \<noteq> None then None
            else tlv_loop (AList.update tag (slice 2 (2 + n) rest) entries) (drop (2 + n) rest))))"
  by pat_completeness auto
termination
  by (relation "measure (length \<circ> snd)") auto

declare tlv_loop.simps [simp del]

definition frame_shape :: "nat \<Rightarrow> bytes \<Rightarrow> bool" where
  "frame_shape opcode frame \<longleftrightarrow>
     26 \<le> length frame \<and> length frame \<le> 4096 \<and> frame ! 0 = 0xff \<and> frame ! 1 = 9 \<and>
     u16le frame 2 = length frame \<and> frame ! 4 = 3 \<and> frame ! 5 = 0 \<and> frame ! 6 = 2 \<and>
     u16be frame 7 = 0x4800 OR opcode \<and> (length frame - 10) mod 16 = 0 \<and>
     lock_checksum (butlast frame) = last frame"

definition reply_plain :: "bytes \<Rightarrow> (nat, bytes) jsmap option" where
  "reply_plain plain =
     (if plain = [] \<or> hd plain \<noteq> 0 then None
      else (case tlv_loop [] (tl plain) of
          None \<Rightarrow> None
        | Some (entries, rest) \<Rightarrow> if length rest > 15 \<or> \<not> list_all (\<lambda>b. b = 0) rest then None else Some entries))"

definition reply_frame ::
    "(bytes \<Rightarrow> bytes \<Rightarrow> bytes \<Rightarrow> bytes option) \<Rightarrow> lock_identity \<Rightarrow> e30_command \<Rightarrow> bytes \<Rightarrow> (nat, bytes) jsmap option" where
  "reply_frame decrypt identity query frame =
     (if \<not> frame_shape (ec_opcode query) frame then None
      else (case cipherIdentity identity (ec_keyTime query) of
          None \<Rightarrow> None
        | Some (key, iv) \<Rightarrow>
            (case decrypt key iv (drop 9 (butlast frame)) of None \<Rightarrow> None | Some plain \<Rightarrow> reply_plain plain)))"

definition row_matches :: "lock_identity \<Rightarrow> e30_command \<Rightarrow> bool \<Rightarrow> json option \<Rightarrow> bool" where
  "row_matches identity query settings row \<longleftrightarrow>
     replyTime (js_field row ''time'') = Some (ec_keyTime query) \<and>
     (if settings then js_field row ''dev_sn'' = Some (JStr (li_serial identity))
      else js_field row ''dev_sn'' \<in> {None, Some (JStr (li_serial identity))}) \<and>
     js_field row ''seq_num'' \<in> {None, Some (JNum (of_int (ec_sequence query)))}"

text \<open>The nested JSON documents down to the frame.\<close>

definition reply_row :: "(bytes \<Rightarrow> json option) \<Rightarrow> bytes \<Rightarrow> json option" where
  "reply_row parse text =
     (case js_field (parse text) ''payload'' of
        Some (JStr p) \<Rightarrow>
          (case js_field (parse (utf8 p)) ''trans'' of
             Some (JStr tr) \<Rightarrow>
               if length tr > 65536 \<or> \<not> base64_shape tr then None
               else (let inner = parse (base64_bytes tr) in
                     if js_field inner ''cmd'' \<noteq> Some (JNum 1940) then None
                     else if isRecord (js_field inner ''payload'') then js_field inner ''payload'' else None)
           | _ \<Rightarrow> None)
      | _ \<Rightarrow> None)"

definition decodeReplyFields ::
    "(bytes \<Rightarrow> json option) \<Rightarrow> (bytes \<Rightarrow> bytes \<Rightarrow> bytes \<Rightarrow> bytes option) \<Rightarrow> bytes \<Rightarrow> lock_identity \<Rightarrow> e30_command \<Rightarrow> bool \<Rightarrow>
      (nat, bytes) jsmap option" where
  "decodeReplyFields parse decrypt text identity query settings =
     (if length text > 65536 \<or> ec_opcode query \<notin> {34, 53} then None
      else (case reply_row parse text of
          None \<Rightarrow> None
        | Some row \<Rightarrow>
            if \<not> row_matches identity query settings (Some row) then None
            else (case js_field (Some row) ''lock_payload'' of
                Some (JStr payload) \<Rightarrow>
                  if payload \<noteq> [] \<and> list_all is_hex payload \<and> even (length payload)
                  then reply_frame decrypt identity query (hex_bytes payload) else None
              | _ \<Rightarrow> None)))"

record lock_observation =
  lo_rawState :: nat
  lo_batteryPercent :: "nat option"

definition decodeE30QueryReply ::
    "(bytes \<Rightarrow> json option) \<Rightarrow> (bytes \<Rightarrow> bytes \<Rightarrow> bytes \<Rightarrow> bytes option) \<Rightarrow> bytes \<Rightarrow> lock_identity \<Rightarrow> e30_command \<Rightarrow> lock_observation option" where
  "decodeE30QueryReply parse decrypt text identity query =
     (if ec_opcode query \<noteq> 34 then None
      else (case decodeReplyFields parse decrypt text identity query False of
          None \<Rightarrow> None
        | Some entries \<Rightarrow>
            (case (map_of entries 0xa1, map_of entries 0xa2) of
               (Some [battery], Some [state]) \<Rightarrow>
                 Some \<lparr> lo_rawState = unat state, lo_batteryPercent = (if unat battery \<le> 100 then Some (unat battery) else None) \<rparr>
             | _ \<Rightarrow> None)))"

definition decodeE30SettingsReply ::
    "(bytes \<Rightarrow> json option) \<Rightarrow> (bytes \<Rightarrow> bytes \<Rightarrow> bytes \<Rightarrow> bytes option) \<Rightarrow> real \<Rightarrow> bytes \<Rightarrow> lock_identity \<Rightarrow> e30_command \<Rightarrow>
      settings_observation option" where
  "decodeE30SettingsReply parse decrypt now text identity query =
     (if ec_opcode query \<noteq> 53 then None
      else (case decodeReplyFields parse decrypt text identity query True of
          None \<Rightarrow> None
        | Some entries \<Rightarrow>
            (case map_of entries 0xab of
               Some [volume] \<Rightarrow>
                 if unat volume > 3 then None
                 else Some \<lparr> so_volume = unat volume, so_fields = entries, so_device = Some (li_serial identity),
                   so_owner = Some (li_adminUserId identity), so_observedAt = now \<rparr>
             | _ \<Rightarrow> None)))"

section \<open>Codec lemmas\<close>

lemma hex_value_nibble: "n < 16 \<Longrightarrow> hex_value (nibble_char n) = Some n"
  by (simp add: nibble_char_def hex_value_def Let_def of_char_of)

lemma is_nibble_char: "n < 16 \<Longrightarrow> is_hex (nibble_char n)"
  by (simp add: nibble_char_def is_hex_def Let_def of_char_of)

lemma hex_bytes_hex_of [simp]: "hex_bytes (hex_of bs) = bs"
proof (induction bs)
  case (Cons b bs)
  have d: "unat b div 16 < 16" "unat b mod 16 < 16" using unat_byte_bound [of b] by simp_all
  have "hex_of (b # bs) = nibble_char (unat b div 16) # nibble_char (unat b mod 16) # hex_of bs" by (simp add: hex_of_def)
  then have "hex_bytes (hex_of (b # bs)) = word_of_nat (16 * (unat b div 16) + unat b mod 16) # bs"
    using Cons d by (simp add: hex_value_nibble del: of_nat_add of_nat_mult)
  then show ?case by (simp del: of_nat_add of_nat_mult)
qed (simp add: hex_of_def)

lemma is_hex_value: "is_hex c \<Longrightarrow> \<exists>n. hex_value c = Some n"
  by (auto simp: is_hex_def hex_value_def Let_def)

lemma hex_of_shape: "bs \<noteq> [] \<Longrightarrow> hex_of bs \<noteq> [] \<and> list_all is_hex (hex_of bs) \<and> even (length (hex_of bs))"
proof -
  have "list_all is_hex (hex_of bs) \<and> even (length (hex_of bs))"
  proof (induction bs)
    case (Cons b bs)
    have "unat b div 16 < 16" "unat b mod 16 < 16" using unat_byte_bound [of b] by simp_all
    with Cons show ?case by (simp add: hex_of_def is_nibble_char)
  qed (simp add: hex_of_def)
  then show "bs \<noteq> [] \<Longrightarrow> ?thesis" by (cases bs) (simp_all add: hex_of_def)
qed

text \<open>Fields a TLV list can carry.\<close>

definition tlv_ok :: "bytes list \<Rightarrow> bool" where
  "tlv_ok fs \<longleftrightarrow> list_all (\<lambda>f. 1 \<le> length f \<and> length f \<le> 255) fs \<and> length fs \<le> 90"

definition tagged :: "nat \<Rightarrow> bytes list \<Rightarrow> (nat, bytes) jsmap" where
  "tagged tag fs = zip [tag..<tag + length fs] fs"

lemma tagged_Cons: "tagged tag (f # fs) = (tag, f) # tagged (Suc tag) fs"
proof -
  have "[tag..<tag + length (f # fs)] = tag # [Suc tag..<Suc tag + length fs]" by (subst upt_conv_Cons) simp_all
  then show ?thesis by (simp only: tagged_def zip_Cons_Cons)
qed

lemma tlv_loop_encode:
  assumes "list_all (\<lambda>f. 1 \<le> length f \<and> length f \<le> 255) fs" "0xa1 \<le> tag" "tag + length fs \<le> 256"
    "\<forall>t\<in>fst ` set acc. t < tag" "rest = [] \<or> hd rest = 0"
  shows "tlv_loop acc (tlv_encode tag fs @ rest) = Some (acc @ tagged tag fs, rest)"
  using assms
proof (induction fs arbitrary: tag acc)
  case Nil
  then show ?case by (simp add: tlv_loop.simps [of acc rest] tagged_def)
next
  case (Cons f fs)
  define r where "r = tlv_encode (Suc tag) fs @ rest"
  have e: "tlv_encode tag (f # fs) @ rest = word_of_nat tag # word_of_nat (length f) # f @ r" by (simp add: r_def)
  have t: "unat (word_of_nat tag :: byte) = tag" using Cons.prems(3) by (simp add: unat_byte_of_nat)
  have nz: "(word_of_nat tag :: byte) \<noteq> 0"
  proof
    assume "(word_of_nat tag :: byte) = 0"
    with t Cons.prems(2) show False by simp
  qed
  have l: "unat (word_of_nat (length f) :: byte) = length f" "0 < length f" using Cons.prems(1) by (auto simp: unat_byte_of_nat)
  have n: "map_of acc tag = None" using Cons.prems(4) by (auto simp: map_of_eq_None_iff)
  have "tlv_loop acc (word_of_nat tag # word_of_nat (length f) # f @ r) = tlv_loop (acc @ [(tag, f)]) r"
    using Cons.prems(2) t nz l n
    by (subst tlv_loop.simps) (simp add: slice_def js_update_fresh)
  also have "\<dots> = Some ((acc @ [(tag, f)]) @ tagged (Suc tag) fs, rest)"
    unfolding r_def using Cons.prems by (intro Cons.IH) auto
  finally show ?case unfolding e by (simp add: tagged_Cons)
qed

lemma tlv_loop_padded:
  assumes "tlv_ok fs"
  shows "tlv_loop [] (tlv_encode 0xa1 fs @ replicate n 0) = Some (tagged 0xa1 fs, replicate n 0)"
  using tlv_loop_encode [of fs 161 "[]" "replicate n 0"] assms by (cases n) (auto simp: tlv_ok_def)

lemma lock_checksum_snoc: "lock_checksum (bs @ [b]) = lock_checksum bs XOR b"
  by (simp add: lock_checksum_def)

lemma checksum_fold: "foldl (XOR) (a :: byte) bs = a XOR lock_checksum bs"
proof (induction bs arbitrary: a)
  case (Cons b bs)
  have "foldl (XOR) (a XOR b) bs = (a XOR b) XOR lock_checksum bs" "foldl (XOR) b bs = b XOR lock_checksum bs"
    using Cons by blast+
  then show ?case by (simp add: lock_checksum_def xor.assoc)
qed (simp add: lock_checksum_def)

lemma checksum_append: "lock_checksum (as @ bs) = lock_checksum as XOR lock_checksum bs"
  using checksum_fold [of "lock_checksum as" bs] by (simp add: lock_checksum_def)

lemma checksum_update:
  assumes "i < length bs"
  shows "lock_checksum (bs[i := b]) = lock_checksum bs XOR (bs ! i) XOR b"
proof -
  have s: "lock_checksum (x # xs) = x XOR lock_checksum xs" for x xs
    using checksum_fold [of x xs] by (simp add: lock_checksum_def)
  have c: "lock_checksum (take i bs @ y # drop (Suc i) bs) = lock_checksum (take i bs) XOR (y XOR lock_checksum (drop (Suc i) bs))" for y
    by (simp add: checksum_append s)
  show ?thesis
    using c [of b] c [of "bs ! i"] assms
    by (simp add: upd_conv_take_nth_drop id_take_nth_drop [of i bs, symmetric] xor.assoc xor.commute xor.left_commute)
qed

section \<open>Frames\<close>

lemma lock_frame_facts:
  assumes "length enc \<le> 65000" "opcode < 65536"
  defines "f \<equiv> lock_frame opcode enc"
  shows "length f = 10 + length enc" "f ! 0 = 0xff" "f ! 1 = 9" "f ! 4 = 3" "f ! 5 = 0" "f ! 6 = 2"
    "u16le f 2 = length f" "u16be f 7 = opcode" "lock_checksum (butlast f) = last f" "drop 9 (butlast f) = enc" "f \<noteq> []"
proof -
  define n where "n = 10 + length enc"
  define body where "body = [0xff, 0x09] @ le_bytes 2 n @ [3, 0, 2] @ be_bytes 2 opcode @ enc"
  have f: "f = body @ [lock_checksum body]" unfolding f_def lock_frame_def Let_def body_def n_def by (rule refl)
  have e: "body = [0xff, 0x09] @ [le_bytes 2 n ! 0, le_bytes 2 n ! 1] @ [3, 0, 2] @ [be_bytes 2 opcode ! 0, be_bytes 2 opcode ! 1] @ enc"
    unfolding body_def by (simp add: be_bytes_def)
  show "length f = 10 + length enc" by (simp add: f e)
  show "f ! 0 = 0xff" "f ! 1 = 9" "f ! 4 = 3" "f ! 5 = 0" "f ! 6 = 2" unfolding f e by simp_all
  have "slice 2 4 f = le_bytes 2 n" "slice 7 9 f = be_bytes 2 opcode"
    unfolding f e by (simp_all add: slice_def be_bytes_def)
  then show "u16le f 2 = length f" "u16be f 7 = opcode"
    using assms(1, 2) le_nat_le_bytes [of 2 n] be_nat_be_bytes [of 2 opcode]
    by (simp_all add: u16le_def u16be_def n_def f e del: le_bytes_numeral)
  show "lock_checksum (butlast f) = last f" "f \<noteq> []" by (simp_all add: f)
  show "drop 9 (butlast f) = enc" unfolding f butlast_snoc unfolding e by simp
qed

text \<open>AES-CBC with its padding: what the code relies on.\<close>

definition cbc :: "(bytes \<Rightarrow> bytes \<Rightarrow> bytes \<Rightarrow> bytes) \<Rightarrow> (bytes \<Rightarrow> bytes \<Rightarrow> bytes \<Rightarrow> bytes option) \<Rightarrow> bool" where
  "cbc encrypt decrypt \<longleftrightarrow> (\<forall>key iv p. length key = 16 \<and> length iv = 16 \<longrightarrow>
     decrypt key iv (encrypt key iv p) = Some p \<and> length (encrypt key iv p) = (length p div 16 + 1) * 16)"

text \<open>What a lock with the same identity reads from a command.\<close>

definition lock_reads ::
    "(bytes \<Rightarrow> bytes \<Rightarrow> bytes \<Rightarrow> bytes option) \<Rightarrow> lock_identity \<Rightarrow> e30_command \<Rightarrow> (nat \<times> (nat, bytes) jsmap) option" where
  "lock_reads decrypt identity c =
     (case ec_transfer c of
        NotificationTransfer _ \<Rightarrow> None
      | LockTransfer api payload s k \<Rightarrow>
          (let f = hex_bytes payload in
           if \<not> (f ! 0 = 0xff \<and> f ! 1 = 9 \<and> u16le f 2 = length f \<and> lock_checksum (butlast f) = last f) then None
           else (case cipherIdentity identity k of
               None \<Rightarrow> None
             | Some (key, iv) \<Rightarrow>
                 (case decrypt key iv (drop 9 (butlast f)) of
                    None \<Rightarrow> None
                  | Some plain \<Rightarrow>
                      (case tlv_loop [] plain of
                         None \<Rightarrow> None
                       | Some (entries, pad) \<Rightarrow>
                           if length pad < 16 \<and> list_all (\<lambda>b. b = 0) pad then Some (u16be f 7, entries) else None)))))"

lemma utf8_ascii: "list_all is_alnum s \<Longrightarrow> length (utf8 s) = length s"
proof (induction s)
  case (Cons c s)
  then have "length (utf8_char c) = 1" by (auto simp: is_alnum_def Let_def)
  with Cons show ?case by (simp add: utf8_def)
qed (simp add: utf8_def)

lemma length_copy_into [simp]: "length (copy_into i src dst) = length dst"
  by (auto simp: copy_into_def Let_def min_def)

lemma cipherIdentity_valid:
  assumes "validateE30Identity identity writing"
  obtains key iv where "cipherIdentity identity k = Some (key, iv)" "length key = 16" "length iv = 16"
proof -
  let ?admin = "li_adminUserId identity"
  have "list_all is_alnum (drop (length ?admin - 12) ?admin)"
    using assms by (auto simp: validateE30Identity_def list_all_iff dest: in_set_dropD)
  then have "length (utf8 (drop (length ?admin - 12) ?admin)) = 12"
    using assms by (simp add: utf8_ascii validateE30Identity_def)
  then show ?thesis using that by (simp add: cipherIdentity_def Let_def)
qed

lemma validate_weaken: "validateE30Identity identity writing \<Longrightarrow> validateE30Identity identity False"
  by (simp add: validateE30Identity_def)

lemma length_tlv_encode: "tlv_ok fs \<Longrightarrow> length (tlv_encode tag fs) \<le> 257 * length fs"
proof -
  have "list_all (\<lambda>f. 1 \<le> length f \<and> length f \<le> 255) fs \<Longrightarrow> length (tlv_encode tag fs) \<le> 257 * length fs"
    by (induction fs arbitrary: tag) (auto, metis Suc_eq_plus1 add_le_mono)
  then show "tlv_ok fs \<Longrightarrow> ?thesis" by (simp add: tlv_ok_def)
qed

lemma aligned16_padding: "\<exists>n. aligned16 v = v @ replicate n 0 \<and> n < 16"
proof -
  have "(length v + 15) div 16 * 16 + (length v + 15) mod 16 = length v + 15" by (rule div_mult_mod_eq)
  then have "(length v + 15) div 16 * 16 - length v < 16" by simp
  then show ?thesis by (auto simp: aligned16_def pad_to_def)
qed

lemma encoded_command_read:
  assumes "cbc encrypt decrypt" "validateE30Identity identity writing" "tlv_ok fs" "opcode < 256"
  shows "\<exists>c. encodeE30Command encrypt identity opcode fs k s = Some c \<and> ec_keyTime c = k \<and> ec_sequence c = s \<and>
    ec_opcode c = opcode \<and> lock_reads decrypt identity c = Some (0x4000 OR opcode, tagged 0xa1 fs)"
proof -
  obtain key iv where ci: "cipherIdentity identity k = Some (key, iv)" "length key = 16" "length iv = 16"
    by (rule cipherIdentity_valid [OF assms(2)])
  obtain n where n: "aligned16 (tlv_encode 0xa1 fs) = tlv_encode 0xa1 fs @ replicate n 0" "n < 16"
    using aligned16_padding by blast
  define plain where "plain = aligned16 (tlv_encode 0xa1 fs)"
  define enc where "enc = encrypt key iv plain"
  have d: "decrypt key iv enc = Some plain" and le: "length enc = (length plain div 16 + 1) * 16"
    using assms(1) ci(2, 3) by (simp_all add: cbc_def enc_def)
  have "length (tlv_encode 0xa1 fs) \<le> 257 * 90"
    by (rule order_trans [OF length_tlv_encode [OF assms(3)]]) (use assms(3) in \<open>simp add: tlv_ok_def\<close>)
  then have "length plain \<le> 24000" using n by (simp add: plain_def)
  then have l: "length enc \<le> 65000" unfolding le by simp
  have op: "0x4000 OR opcode < (65536 :: nat)" using nat_or_add [of opcode 14 1] assms(4) by simp
  define f where "f = lock_frame (0x4000 OR opcode) enc"
  note ff = lock_frame_facts [OF l op, folded f_def]
  define c where "c = \<lparr> ec_keyTime = k, ec_sequence = s, ec_opcode = opcode,
    ec_transfer = LockTransfer (api_command opcode) (hex_of f) s k \<rparr>"
  have "encodeE30Command encrypt identity opcode fs k s = Some c"
    by (simp add: encodeE30Command_def ci c_def f_def enc_def plain_def Let_def)
  moreover have "tlv_loop [] plain = Some (tagged 0xa1 fs, replicate n 0)"
    unfolding plain_def n(1) by (rule tlv_loop_padded [OF assms(3)])
  then have "lock_reads decrypt identity c = Some (0x4000 OR opcode, tagged 0xa1 fs)"
    using n(2) ff(2, 3, 7-10) d ci(1) by (simp add: lock_reads_def c_def Let_def list_all_iff del: length_greater_0_conv)
  ultimately show ?thesis by (simp add: c_def)
qed

lemma field_lengths:
  assumes "validateE30Identity identity writing"
  shows "1 \<le> length (utf8 (li_adminUserId identity)) \<and> length (utf8 (li_adminUserId identity)) \<le> 255"
    and "writing \<Longrightarrow> 1 \<le> length (utf8 (li_userName identity)) \<and> length (utf8 (li_userName identity)) \<le> 255"
    and "writing \<Longrightarrow> length (hex_bytes (li_shortUserId identity)) = 2"
proof -
  show "1 \<le> length (utf8 (li_adminUserId identity)) \<and> length (utf8 (li_adminUserId identity)) \<le> 255"
    using assms by (auto simp: validateE30Identity_def utf8_ascii)
  assume w: writing
  obtain u us where "li_userName identity = u # us" using assms w by (cases "li_userName identity") (auto simp: validateE30Identity_def)
  then show "1 \<le> length (utf8 (li_userName identity)) \<and> length (utf8 (li_userName identity)) \<le> 255"
    using assms w by (auto simp: validateE30Identity_def utf8_def Let_def)
  have "length (li_shortUserId identity) = 4" using assms w by (simp add: validateE30Identity_def)
  then obtain a b c d where l: "li_shortUserId identity = [a, b, c, d]" by (auto simp: length_Suc_conv eval_nat_numeral)
  then have "is_hex a" "is_hex b" "is_hex c" "is_hex d" using assms w by (simp_all add: validateE30Identity_def)
  then show "length (hex_bytes (li_shortUserId identity)) = 2" unfolding l by (auto dest!: is_hex_value)
qed

lemma opcode_or: "(0x4000 OR 34 :: nat) = 0x4022" "(0x4000 OR 35 :: nat) = 0x4023" "(0x4000 OR 52 :: nat) = 0x4034" "(0x4000 OR 53 :: nat) = 0x4035"
  by simp_all

lemma validAutoLock_lengths:
  assumes "validAutoLock o'"
  shows "length (so_get o' 0xa1) = 1" "length (so_get o' 0xa2) = 2" "length (so_get o' 0xa3) = 1"
    "length (so_get o' 0xa4) = 2" "length (so_get o' 0xa5) = 2"
  using assms by (auto simp: validAutoLock_def split: option.splits)

section \<open>A concrete cipher for the witnesses\<close>

definition toy_pad :: "bytes \<Rightarrow> nat" where "toy_pad p = 16 - length p mod 16"

definition toy_encrypt :: "bytes \<Rightarrow> bytes \<Rightarrow> bytes \<Rightarrow> bytes" where
  "toy_encrypt key iv p = p @ replicate (toy_pad p) (word_of_nat (toy_pad p))"

definition toy_decrypt :: "bytes \<Rightarrow> bytes \<Rightarrow> bytes \<Rightarrow> bytes option" where
  "toy_decrypt key iv c = Some (take (length c - unat (last c)) c)"

lemma toy_cbc: "cbc toy_encrypt toy_decrypt"
proof -
  have "toy_decrypt key iv (toy_encrypt key iv p) = Some p \<and> length (toy_encrypt key iv p) = (length p div 16 + 1) * 16" for key iv p
  proof -
    have t: "1 \<le> toy_pad p" "toy_pad p \<le> 16" using mod_less_divisor [of 16 "length p"] by (simp_all add: toy_pad_def)
    then have "last (toy_encrypt key iv p) = word_of_nat (toy_pad p)" by (simp add: toy_encrypt_def)
    moreover have "unat (word_of_nat (toy_pad p) :: byte) = toy_pad p" using t by (simp add: unat_byte_of_nat)
    moreover have "length p + toy_pad p = (length p div 16 + 1) * 16"
    proof -
      have "length p mod 16 < 16" by simp
      with div_mult_mod_eq [of "length p" 16] show ?thesis unfolding toy_pad_def distrib_right by (simp only: mult_1)
    qed
    ultimately show ?thesis by (simp add: toy_decrypt_def toy_encrypt_def)
  qed
  then show ?thesis by (simp add: cbc_def)
qed

definition demo_identity :: lock_identity where
  "demo_identity = \<lparr> li_serial = replicate 16 CHR ''S'', li_name = ''Door'', li_adminUserId = replicate 12 CHR ''a'',
     li_shortUserId = ''0a1F'', li_userName = ''Ann'', li_administrator = True \<rparr>"

lemma demo_valid: "validateE30Identity demo_identity w"
  by (simp add: demo_identity_def validateE30Identity_def is_alnum_def is_hex_def utf8_def Let_def list_all_iff)

text \<open>A command is built and the lock reads these entries behind time and owner.\<close>

definition command_reads ::
    "(bytes \<Rightarrow> bytes \<Rightarrow> bytes \<Rightarrow> bytes) \<Rightarrow> (bytes \<Rightarrow> bytes \<Rightarrow> bytes \<Rightarrow> bytes option) \<Rightarrow> real \<Rightarrow> lock_identity \<Rightarrow> int \<Rightarrow> int \<Rightarrow> int \<Rightarrow>
      lock_action \<Rightarrow> nat \<Rightarrow> bytes list \<Rightarrow> bool" where
  "command_reads encrypt decrypt now i t k s action opcode entries \<longleftrightarrow>
     (\<exists>c. buildE30Command encrypt now i action t k s = Some c \<and> ec_keyTime c = k \<and> ec_sequence c = s \<and>
        lock_reads decrypt i c = Some (opcode, tagged 0xa1 ([le_bytes 4 (nat t), utf8 (li_adminUserId i)] @ entries)))"

text \<open>The snapshot a settings write may rest on.\<close>

definition write_basis :: "settings_observation \<Rightarrow> real \<Rightarrow> lock_identity \<Rightarrow> bool" where
  "write_basis obs now i \<longleftrightarrow> so_device obs = Some (li_serial i) \<and> so_owner obs = Some (li_adminUserId i) \<and>
     0 \<le> now - so_observedAt obs \<and> now - so_observedAt obs \<le> 10000 \<and> validAutoLock obs"

lemma validSettingsWrite_basis: "validSettingsWrite obs now i t k s \<Longrightarrow> validateE30Identity i False \<and> write_basis obs now i"
  by (auto simp: validSettingsWrite_def write_basis_def)

lemma settings_write_read:
  assumes "cbc encrypt decrypt" "validSettingsWrite obs now i t k s"
    "encodeE30Command encrypt i 52 ([le_bytes 4 (nat t), utf8 (li_adminUserId i), [0]] @ fs) k s = Some c"
    "list_all (\<lambda>f. length f \<in> {1, 2}) fs" "length fs = 5"
  shows "lock_reads decrypt i c = Some (0x4034, tagged 0xa1 ([le_bytes 4 (nat t), utf8 (li_adminUserId i), [0]] @ fs))"
proof -
  have v: "validateE30Identity i False" using validSettingsWrite_basis [OF assms(2)] by simp
  have "tlv_ok ([le_bytes 4 (nat t), utf8 (li_adminUserId i), [0]] @ fs)"
    using field_lengths(1) [OF v] assms(4, 5) by (auto simp: tlv_ok_def list_all_iff)
  from encoded_command_read [OF assms(1) v this, of 52 k s] assms(3) show ?thesis by auto
qed

lemma autoLock_read:
  assumes "cbc encrypt decrypt" "autoLockCommand encrypt obs now i enabled t k s = Some c"
  shows "write_basis obs now i \<and>
    lock_reads decrypt i c = Some (0x4034, tagged 0xa1 ([le_bytes 4 (nat t), utf8 (li_adminUserId i), [0]] @
      [[if enabled then 1 else 0], so_get obs 0xa2, so_get obs 0xa3, so_get obs 0xa4, so_get obs 0xa5]))"
proof -
  have v: "validSettingsWrite obs now i t k s" using assms(2) by (auto simp: autoLockCommand_def split: if_splits)
  have b: "write_basis obs now i" using validSettingsWrite_basis [OF v] by simp
  then have l: "validAutoLock obs" by (simp add: write_basis_def)
  show ?thesis
    using assms(2) v validAutoLock_lengths [OF l]
    by (intro conjI b settings_write_read [OF assms(1) v]) (simp_all add: autoLockCommand_def)
qed

lemma autoLockDelay_read:
  assumes "cbc encrypt decrypt" "autoLockDelayCommand encrypt obs now i d t k s = Some c"
  shows "write_basis obs now i \<and> d \<in> {30, 60, 90, 120, 150, 180, 300} \<and>
    lock_reads decrypt i c = Some (0x4034, tagged 0xa1 ([le_bytes 4 (nat t), utf8 (li_adminUserId i), [0]] @
      [so_get obs 0xa1, le_bytes 2 (nat d), so_get obs 0xa3, so_get obs 0xa4, so_get obs 0xa5]))"
proof -
  have v: "validSettingsWrite obs now i t k s" and d: "d \<in> set E30_AUTO_LOCK_DELAYS"
    using assms(2) by (auto simp: autoLockDelayCommand_def split: if_splits)
  have b: "write_basis obs now i" using validSettingsWrite_basis [OF v] by simp
  then have l: "validAutoLock obs" by (simp add: write_basis_def)
  have "d \<in> {30, 60, 90, 120, 150, 180, 300}" using d by (simp add: E30_AUTO_LOCK_DELAYS_def)
  then show ?thesis
    using assms(2) v validAutoLock_lengths [OF l]
    by (intro conjI b settings_write_read [OF assms(1) v]) (simp_all add: autoLockDelayCommand_def split: if_splits)
qed

section \<open>Properties\<close>

text \<open>C34: A lock command says exactly what was asked for, to the lock it was asked for: for a valid identity and
  32-bit correlation values every query, settings read, lock, unlock and volume command (volumes 1 to 3) is built, and a lock
  that shares the identity decrypts from its hexadecimal payload the direction byte 0x40 with the opcode of
  that action and the time, the owner and the action's own fields (0 to lock, 1 to unlock, the audible
  volume), in order; any other volume is refused, and so is a lock or unlock by an identity that is not valid for writing.\<close>
theorem lock_commands_on_the_wire:
  assumes "cbc encrypt decrypt" "validateE30Identity i True" "list_all is_uint32 [t, k, s]"
  shows "command_reads encrypt decrypt now i t k s LaQuery 0x4022 [[0]] \<and>
    command_reads encrypt decrypt now i t k s LaSettings 0x4035 [] \<and>
    command_reads encrypt decrypt now i t k s (LaLock True) 0x4023 [[0], utf8 (li_userName i), hex_bytes (li_shortUserId i)] \<and>
    command_reads encrypt decrypt now i t k s (LaLock False) 0x4023 [[1], utf8 (li_userName i), hex_bytes (li_shortUserId i)] \<and>
    (v \<in> {1, 2, 3} \<longrightarrow> command_reads encrypt decrypt now i t k s (LaVolume v) 0x4034 [[4], [word_of_int v]]) \<and>
    (v \<notin> {1, 2, 3} \<longrightarrow> buildE30Command encrypt now i (LaVolume v) t k s = None) \<and>
    (\<not> validateE30Identity i' True \<longrightarrow> buildE30Command encrypt now i' (LaLock b) t k s = None)"
proof -
  let ?reads = "command_reads encrypt decrypt now i t k s"
  note fl = field_lengths [OF assms(2)]
  let ?f = "[le_bytes 4 (nat t), utf8 (li_adminUserId i)]"
  have r: "?reads action (0x4000 OR opcode) extra"
    if "buildE30Command encrypt now i action t k s = encodeE30Command encrypt i opcode (?f @ extra) k s"
      "opcode < 256" "tlv_ok (?f @ extra)" for action opcode extra
    using encoded_command_read [OF assms(1, 2) that(3, 2), of k s] that(1) unfolding command_reads_def by auto
  have v: "validateE30Identity i False" by (rule validate_weaken [OF assms(2)])
  have ok: "tlv_ok (?f @ [[0]])" "tlv_ok (?f @ [])" "tlv_ok (?f @ [[d], utf8 (li_userName i), hex_bytes (li_shortUserId i)])"
    "tlv_ok (?f @ [[4], [d]])" for d
    using fl by (auto simp: tlv_ok_def)
  have "?reads LaQuery 0x4022 [[0]]" using r [of LaQuery 34 "[[0]]"] ok v assms(3) by (simp add: buildE30Command_def)
  moreover have "?reads LaSettings 0x4035 []" using r [of LaSettings 53 "[]"] ok v assms(3) by (simp add: buildE30Command_def)
  moreover have l: "?reads (LaLock b) 0x4023 [[if b then 0 else 1], utf8 (li_userName i), hex_bytes (li_shortUserId i)]" for b
    using r [of "LaLock b" 35 "[[if b then 0 else 1], utf8 (li_userName i), hex_bytes (li_shortUserId i)]"] ok(3) [of "if b then 0 else 1"]
      assms(2, 3) by (simp add: buildE30Command_def)
  moreover have "?reads (LaLock True) 0x4023 [[0], utf8 (li_userName i), hex_bytes (li_shortUserId i)]"
    "?reads (LaLock False) 0x4023 [[1], utf8 (li_userName i), hex_bytes (li_shortUserId i)]"
    using l [of True] l [of False] by simp_all
  moreover have "v \<in> {1, 2, 3} \<longrightarrow> ?reads (LaVolume v) 0x4034 [[4], [word_of_int v]]"
  proof
    assume "v \<in> {1, 2, 3}"
    then have "buildE30Command encrypt now i (LaVolume v) t k s = encodeE30Command encrypt i 52 (?f @ [[4], [word_of_int v]]) k s"
      using v assms(3) by (auto simp: buildE30Command_def)
    then show "?reads (LaVolume v) 0x4034 [[4], [word_of_int v]]"
      using r [of "LaVolume v" 52 "[[4], [word_of_int v]]"] ok(4) [of "word_of_int v"] by simp
  qed
  moreover have "v \<notin> {1, 2, 3} \<longrightarrow> buildE30Command encrypt now i (LaVolume v) t k s = None" by (simp add: buildE30Command_def)
  moreover have "\<not> validateE30Identity i' True \<longrightarrow> buildE30Command encrypt now i' (LaLock b) t k s = None"
    by (simp add: buildE30Command_def)
  ultimately show ?thesis by blast
qed

lemma lock_commands_on_the_wire_witness:
  "command_reads toy_encrypt toy_decrypt 0 demo_identity 5 6 7 (LaLock False) 0x4023
     [[1], utf8 (li_userName demo_identity), hex_bytes (li_shortUserId demo_identity)]"
  using lock_commands_on_the_wire [OF toy_cbc demo_valid, of 5 6 7 0] by (simp add: is_uint32_def)

text \<open>A settings write changes only the setting it names: it is built only from an observation of the same lock
  and owner that is at most ten seconds old and whose companion fields are all well formed, and a lock with
  that identity reads from it the requested enablement (or one of the admitted delays) and, byte for byte,
  the observed values of every other auto-lock field.\<close>
theorem lock_settings_write_preserves:
  assumes "cbc encrypt decrypt"
  shows "(autoLockCommand encrypt obs now i enabled t k s = Some c \<longrightarrow> write_basis obs now i \<and>
      lock_reads decrypt i c = Some (0x4034, tagged 0xa1 ([le_bytes 4 (nat t), utf8 (li_adminUserId i), [0]] @
        [[if enabled then 1 else 0], so_get obs 0xa2, so_get obs 0xa3, so_get obs 0xa4, so_get obs 0xa5]))) \<and>
    (autoLockDelayCommand encrypt obs now i d t k s = Some c \<longrightarrow> write_basis obs now i \<and>
      d \<in> {30, 60, 90, 120, 150, 180, 300} \<and>
      lock_reads decrypt i c = Some (0x4034, tagged 0xa1 ([le_bytes 4 (nat t), utf8 (li_adminUserId i), [0]] @
        [so_get obs 0xa1, le_bytes 2 (nat d), so_get obs 0xa3, so_get obs 0xa4, so_get obs 0xa5])))"
  using autoLock_read [OF assms] autoLockDelay_read [OF assms] by blast

definition demo_settings :: settings_observation where
  "demo_settings = \<lparr> so_volume = 1, so_fields = [(0xa1, [0]), (0xa2, [30, 0]), (0xa3, [0]), (0xa4, [255, 255]), (0xa5, [255, 255]), (0xab, [1])],
     so_device = Some (li_serial demo_identity), so_owner = Some (li_adminUserId demo_identity), so_observedAt = 100 \<rparr>"

lemma lock_settings_write_preserves_witness:
  "\<exists>c. autoLockCommand toy_encrypt demo_settings 200 demo_identity True 5 6 7 = Some c \<and>
     lock_reads toy_decrypt demo_identity c = Some (0x4034, tagged 0xa1 ([le_bytes 4 (nat 5), utf8 (li_adminUserId demo_identity), [0]] @
       [[1], [30, 0], [0], [255, 255], [255, 255]]))"
proof -
  have va: "validAutoLock demo_settings" by (simp add: validAutoLock_def demo_settings_def u16le_def slice_def)
  then have v: "validSettingsWrite demo_settings 200 demo_identity 5 6 7"
    by (simp add: validSettingsWrite_def demo_valid is_uint32_def) (simp add: demo_settings_def)
  obtain key iv where "cipherIdentity demo_identity 6 = Some (key, iv)"
    by (rule cipherIdentity_valid [OF demo_valid])
  then obtain c where c: "autoLockCommand toy_encrypt demo_settings 200 demo_identity True 5 6 7 = Some c"
    by (simp add: autoLockCommand_def v encodeE30Command_def Let_def)
  with lock_settings_write_preserves [OF toy_cbc, of demo_settings 200 demo_identity True 5 6 7 c] show ?thesis
    by (simp add: demo_settings_def)
qed

lemma byte_xor_zero: "a XOR b = 0 \<longleftrightarrow> a = (b :: byte)"
proof
  assume "a XOR b = 0"
  then have "(a XOR b) XOR b = b" by simp
  then show "a = b" by (simp add: xor.assoc)
qed simp

lemma opcode_reply_or: "opcode \<in> {34, 53} \<Longrightarrow> (0x4800 OR opcode :: nat) = 0x4800 + opcode"
  by auto

lemma reply_frame_built:
  assumes "cbc encrypt decrypt" "cipherIdentity i (ec_keyTime q) = Some (key, iv)" "ec_opcode q \<in> {34, 53}" "tlv_ok fs"
    "n \<le> 15" "length (tlv_encode 0xa1 fs) \<le> 4000"
  shows "reply_frame decrypt i q (lock_frame (0x4800 OR ec_opcode q) (encrypt key iv (0 # tlv_encode 0xa1 fs @ replicate n 0))) =
    Some (tagged 0xa1 fs)"
proof -
  define plain where "plain = (0 :: byte) # tlv_encode 0xa1 fs @ replicate n 0"
  define enc where "enc = encrypt key iv plain"
  define f where "f = lock_frame (0x4800 OR ec_opcode q) enc"
  have ci: "length key = 16" "length iv = 16" using assms(2) by (auto simp: cipherIdentity_def Let_def split: if_splits)
  have d: "decrypt key iv enc = Some plain" and le: "length enc = (length plain div 16 + 1) * 16"
    using assms(1) ci by (simp_all add: cbc_def enc_def)
  have "length plain \<le> 4016" using assms(5, 6) by (simp add: plain_def)
  then have b: "16 \<le> length enc" "length enc \<le> 4032" unfolding le by simp_all
  have op: "0x4800 OR ec_opcode q < (65536 :: nat)" using assms(3) by (auto simp: opcode_reply_or)
  note ff = lock_frame_facts [OF _ op, of enc, folded f_def]
  have "frame_shape (ec_opcode q) f" unfolding frame_shape_def using ff b by (simp add: le)
  moreover have "reply_plain plain = Some (tagged 0xa1 fs)"
    using tlv_loop_padded [OF assms(4), of n] assms(5) by (simp add: reply_plain_def plain_def list_all_iff)
  ultimately show ?thesis
    using ff b d assms(2) unfolding f_def [symmetric] enc_def [symmetric] plain_def [symmetric] by (simp add: reply_frame_def)
qed

text \<open>C35: A well-formed reply is understood: for a pending read with its key time, a reply whose row matches the request
  and whose frame carries, encrypted under the request's key, a zero status byte and any TLV fields with at
  most fifteen bytes of zero padding decodes to exactly those fields under consecutive tags; a status reply is
  reported as its raw state byte with the battery level, when that is a percentage.\<close>
theorem lock_reply_round_trip:
  assumes "cbc encrypt decrypt" "cipherIdentity i (ec_keyTime q) = Some (key, iv)" "ec_opcode q \<in> {34, 53}" "tlv_ok fs"
    "n \<le> 15" "length (tlv_encode 0xa1 fs) \<le> 4000" "length text \<le> 65536" "reply_row parse text = Some row"
    "row_matches i q settings (Some row)"
    "js_field (Some row) ''lock_payload'' =
      Some (JStr (hex_of (lock_frame (0x4800 OR ec_opcode q) (encrypt key iv (0 # tlv_encode 0xa1 fs @ replicate n 0)))))"
  shows "decodeReplyFields parse decrypt text i q settings = Some (tagged 0xa1 fs) \<and>
    (ec_opcode q = 34 \<and> \<not> settings \<and> fs = [battery] # [state] # others \<longrightarrow>
      decodeE30QueryReply parse decrypt text i q =
        Some \<lparr> lo_rawState = unat state, lo_batteryPercent = (if unat battery \<le> 100 then Some (unat battery) else None) \<rparr>)"
proof -
  define f where "f = lock_frame (0x4800 OR ec_opcode q) (encrypt key iv (0 # tlv_encode 0xa1 fs @ replicate n 0))"
  have "f \<noteq> []" by (simp add: f_def lock_frame_def Let_def)
  then have h: "hex_of f \<noteq> [] \<and> list_all is_hex (hex_of f) \<and> even (length (hex_of f))" by (rule hex_of_shape)
  have r: "reply_frame decrypt i q f = Some (tagged 0xa1 fs)"
    unfolding f_def by (rule reply_frame_built [OF assms(1-6)])
  have "decodeReplyFields parse decrypt text i q settings = Some (tagged 0xa1 fs)"
    using assms(3, 7-10) h r unfolding f_def [symmetric] by (simp add: decodeReplyFields_def)
  then show ?thesis by (auto simp: decodeE30QueryReply_def tagged_Cons)
qed

text \<open>C36: A damaged or misdirected reply is refused: changing any single byte of an accepted frame makes it fail, and one
  message that answers two requests answers requests of the same key time and the same kind, with the same fields,
  so a reply to an earlier request is never taken for a later one.\<close>
theorem lock_reply_integrity:
  shows "(reply_frame decrypt i q f = Some entries \<and> k < length f \<and> b \<noteq> f ! k \<longrightarrow> reply_frame decrypt i q (f[k := b]) = None) \<and>
    (decodeReplyFields parse decrypt text i q1 st1 = Some e1 \<and> decodeReplyFields parse decrypt text i q2 st2 = Some e2 \<longrightarrow>
      ec_keyTime q1 = ec_keyTime q2 \<and> ec_opcode q1 = ec_opcode q2 \<and> e1 = e2)"
proof (rule conjI; rule impI)
  assume h: "reply_frame decrypt i q f = Some entries \<and> k < length f \<and> b \<noteq> f ! k"
  then have fs: "frame_shape (ec_opcode q) f" by (auto simp: reply_frame_def split: if_splits)
  have ne: "f \<noteq> []" using h by auto
  have c: "lock_checksum xs = 0 \<longleftrightarrow> lock_checksum (butlast xs) = last xs" if "xs \<noteq> []" for xs
    using lock_checksum_snoc [of "butlast xs" "last xs"] that by (auto simp: byte_xor_zero)
  have z: "lock_checksum f = 0" using fs c [OF ne] by (simp add: frame_shape_def)
  have "lock_checksum (f[k := b]) = f ! k XOR b" using checksum_update [of k f b] h z by simp
  also have "\<dots> \<noteq> 0" using h by (auto simp: byte_xor_zero)
  finally have "\<not> frame_shape (ec_opcode q) (f[k := b])" using c [of "f[k := b]"] ne by (simp add: frame_shape_def)
  then show "reply_frame decrypt i q (f[k := b]) = None" by (simp add: reply_frame_def)
next
  assume h: "decodeReplyFields parse decrypt text i q1 st1 = Some e1 \<and> decodeReplyFields parse decrypt text i q2 st2 = Some e2"
  have r: "\<exists>row p. reply_row parse text = Some row \<and> js_field (Some row) ''lock_payload'' = Some (JStr p) \<and>
      replyTime (js_field (Some row) ''time'') = Some (ec_keyTime q) \<and> ec_opcode q \<in> {34, 53} \<and>
      reply_frame decrypt i q (hex_bytes p) = Some e"
    if "decodeReplyFields parse decrypt text i q st = Some e" for q st e
    using that by (auto simp: decodeReplyFields_def row_matches_def split: if_splits option.splits json.splits)
  obtain row p where a: "reply_row parse text = Some row" "js_field (Some row) ''lock_payload'' = Some (JStr p)"
    "replyTime (js_field (Some row) ''time'') = Some (ec_keyTime q1)" "ec_opcode q1 \<in> {34, 53}" "reply_frame decrypt i q1 (hex_bytes p) = Some e1"
    using r h by blast
  then have b: "replyTime (js_field (Some row) ''time'') = Some (ec_keyTime q2)" "ec_opcode q2 \<in> {34, 53}"
    "reply_frame decrypt i q2 (hex_bytes p) = Some e2"
    using r [of q2 st2 e2] h by auto
  have k: "ec_keyTime q1 = ec_keyTime q2" using a(3) b(1) by simp
  have "u16be (hex_bytes p) 7 = 0x4800 OR ec_opcode q" if "reply_frame decrypt i q (hex_bytes p) = Some e" for q e
    using that by (auto simp: reply_frame_def frame_shape_def split: if_splits)
  from this [OF a(5)] this [OF b(3)] have "(0x4800 :: nat) OR ec_opcode q1 = 0x4800 OR ec_opcode q2" by simp
  with a(4) b(2) have o: "ec_opcode q1 = ec_opcode q2" by auto
  have "reply_frame decrypt i q1 (hex_bytes p) = reply_frame decrypt i q2 (hex_bytes p)"
    unfolding reply_frame_def k o by (rule refl)
  with a(5) b(3) k o show "ec_keyTime q1 = ec_keyTime q2 \<and> ec_opcode q1 = ec_opcode q2 \<and> e1 = e2" by simp
qed

text \<open>Notification modes.\<close>

lemma notification_mask_bit: "bit (notification_mask setting) j \<longleftrightarrow> 2 ^ j = notification_mask setting"
proof -
  obtain k where k: "notification_mask setting = 2 ^ k"
    using that [of 0] that [of 1] that [of 2] by (cases setting) simp_all
  show ?thesis unfolding k by (auto simp: bit_exp_iff)
qed

lemma small_decimal_nat_str: "n \<le> 31 \<Longrightarrow> small_decimal (nat_str n)"
proof -
  assume n: "n \<le> 31"
  have z: "char_of (48 + d) = CHR ''0'' \<longleftrightarrow> d = 0" if "d < 10" for d :: nat
  proof -
    have "(of_char (char_of (48 + d) :: char) :: nat) = of_char CHR ''0'' \<longleftrightarrow> d = 0" using that by simp
    then show ?thesis by (simp only: of_char_eq_iff)
  qed
  show ?thesis
  proof (cases "n < 10")
    case True
    then show ?thesis using z [of n] by (auto simp: small_decimal_def nat_str.simps [of n])
  next
    case False
    then have "n div 10 < 10" "n div 10 \<noteq> 0" using n by auto
    then show ?thesis using z [of "n div 10"] False
      by (simp add: small_decimal_def nat_str.simps [of n] nat_str.simps [of "n div 10"])
  qed
qed

lemma notification_value:
  assumes "0 \<le> m" "m \<le> 31"
  shows "mode_value (Some (JNum (of_int m))) = Some m" "mode_value (Some (JStr (int_str m))) = Some m"
proof -
  have i: "notificationMode (Some (JNum (of_int m))) = Some m" using assms by (simp add: notificationMode_def is_integer_def)
  then show "mode_value (Some (JNum (of_int m))) = Some m" by (simp add: mode_value_def)
  have "int_str m = nat_str (nat m)" using assms by (simp add: int_str_def)
  then show "mode_value (Some (JStr (int_str m))) = Some m"
    using i assms small_decimal_nat_str [of "nat m"] by (simp add: mode_value_def)
qed

text \<open>A notification write touches one bit: for an administrator's valid request the mode sent has the named bit as
  requested and every other of the five bits as it was, and the projection of a fresh inventory that reports the
  sent mode, as a number or as decimal text, reads that mode back; two reports of the mode read as none.\<close>
theorem notification_write_touches_one_bit:
  assumes "li_administrator i" "validateE30Identity i False" "0 \<le> mode" "mode \<le> 31" "is_uint32 s"
  shows "\<exists>c m. buildE30NotificationCommand i setting enabled mode s = Some c \<and> ec_transfer c = NotificationTransfer m \<and>
    0 \<le> m \<and> m \<le> 31 \<and>
    (\<forall>j < 5. bit m j = (if 2 ^ j = notification_mask setting then enabled else bit mode j)) \<and>
    parseE30NotificationMode (Some (JArr [JObj [(''param_type'', JNum 1919), (''param_value'', JNum (of_int m))]])) = Some m \<and>
    parseE30NotificationMode (Some (JArr [JObj [(''param_type'', JStr ''1919''), (''param_value'', JStr (int_str m))]])) = Some m \<and>
    parseE30NotificationMode (Some (JArr [JObj [(''param_type'', JNum 1919), (''param_value'', JNum (of_int m))],
      JObj [(''param_type'', JNum 1919), (''param_value'', JNum (of_int m))]])) = None"
proof -
  define mk where "mk = notification_mask setting"
  define m where "m = (if enabled then mode OR mk else mode AND NOT mk) AND 31"
  have "take_bit 5 m = m" by (simp add: m_def take_bit_eq_mask and.assoc mask_numeral)
  then have r: "0 \<le> m" "m \<le> 31"
    using take_bit_nonnegative [of 5 m] take_bit_int_less_exp [of 5 m] by simp_all
  have b: "bit m j = (if 2 ^ j = mk then enabled else bit mode j)" if "j < 5" for j
  proof -
    have "bit (31 :: int) j" using that bit_mask_iff [where 'a = int, of 5 j] by (simp add: mask_numeral)
    then show ?thesis using notification_mask_bit [of setting j] by (simp add: m_def mk_def bit_simps)
  qed
  have "buildE30NotificationCommand i setting enabled mode s =
      Some \<lparr> ec_keyTime = 0, ec_sequence = s, ec_opcode = 1919, ec_transfer = NotificationTransfer m \<rparr>"
    using assms by (simp add: buildE30NotificationCommand_def m_def mk_def Let_def)
  then show ?thesis using r b notification_value [OF r] by (simp add: mk_def mode_param_def)
qed

lemma notification_write_touches_one_bit_witness:
  "\<exists>c m. buildE30NotificationCommand demo_identity NsLocked False 7 9 = Some c \<and> ec_transfer c = NotificationTransfer m \<and>
     (\<forall>j < 5. bit m j = (if 2 ^ j = notification_mask NsLocked then False else bit (7 :: int) j))"
proof -
  have "li_administrator demo_identity" by (simp add: demo_identity_def)
  from notification_write_touches_one_bit [OF this demo_valid, of 7 9 NsLocked False] show ?thesis by (auto simp: is_uint32_def)
qed

section \<open>A concrete reply for the witnesses\<close>

definition demo_query :: e30_command where
  "demo_query = \<lparr> ec_keyTime = 6, ec_sequence = 7, ec_opcode = 34, ec_transfer = NotificationTransfer 0 \<rparr>"

definition demo_key :: bytes where "demo_key = utf8 (replicate 12 CHR ''a'') @ be_bytes 4 6"
definition demo_iv :: bytes where "demo_iv = copy_into 0 (utf8 (replicate 16 CHR ''S'')) (replicate 16 0)"

definition demo_frame :: bytes where
  "demo_frame = lock_frame (0x4800 OR ec_opcode demo_query) (toy_encrypt demo_key demo_iv (0 # tlv_encode 0xa1 [[50], [4]] @ replicate 2 0))"

definition demo_row :: json where
  "demo_row = JObj [(''time'', JNum 6), (''lock_payload'', JStr (hex_of demo_frame))]"

definition demo_parse :: "bytes \<Rightarrow> json option" where
  "demo_parse text =
     (if text = [1] then Some (JObj [(''payload'', JStr ''p'')])
      else if text = utf8 ''p'' then Some (JObj [(''trans'', JStr ''AA=='')])
      else Some (JObj [(''cmd'', JNum 1940), (''payload'', demo_row)]))"

lemma demo_cipher: "cipherIdentity demo_identity (ec_keyTime demo_query) = Some (demo_key, demo_iv)"
  by (simp add: cipherIdentity_def demo_identity_def demo_query_def demo_key_def demo_iv_def utf8_def Let_def)

lemma demo_document: "reply_row demo_parse [1] = Some demo_row"
proof -
  have "base64_bytes ''AA=='' = [0]" "base64_shape ''AA==''"
    by (simp_all add: base64_bytes_def base64_shape_def sextet_def Let_def)
  moreover have "utf8 ''p'' = [112]" by (simp add: utf8_def Let_def)
  ultimately show ?thesis by (simp add: reply_row_def demo_parse_def demo_row_def)
qed

lemma demo_matches: "row_matches demo_identity demo_query False (Some demo_row)"
  by (simp add: row_matches_def replyTime_def demo_row_def demo_query_def is_integer_def is_uint32_def)

lemma demo_payload: "js_field (Some demo_row) ''lock_payload'' = Some (JStr (hex_of demo_frame))"
  by (simp add: demo_row_def)

lemma demo_tlv: "tlv_ok [[50], [4]]"
  by (simp add: tlv_ok_def)

lemma lock_reply_round_trip_witness:
  "decodeE30QueryReply demo_parse toy_decrypt [1] demo_identity demo_query = Some \<lparr> lo_rawState = 4, lo_batteryPercent = Some 50 \<rparr>"
  using lock_reply_round_trip [OF toy_cbc demo_cipher _ demo_tlv _ _ _ demo_document demo_matches demo_payload [unfolded demo_frame_def], of 50 4 "[]"]
  by (simp add: demo_query_def)

lemma demo_accepted: "reply_frame toy_decrypt demo_identity demo_query demo_frame = Some (tagged 0xa1 [[50], [4]])"
  unfolding demo_frame_def by (rule reply_frame_built [OF toy_cbc demo_cipher _ demo_tlv]) (simp_all add: demo_query_def)

lemma lock_reply_integrity_witness:
  "reply_frame toy_decrypt demo_identity demo_query (demo_frame[9 := 1]) = None"
proof -
  have "demo_frame ! 9 = 0 \<and> 9 < length demo_frame"
    by (simp add: demo_frame_def lock_frame_def toy_encrypt_def be_bytes_def Let_def)
  with demo_accepted lock_reply_integrity [of toy_decrypt demo_identity demo_query demo_frame "tagged 0xa1 [[50], [4]]" 9 1] show ?thesis by simp
qed

end
