(* ===== verification/Transport_Writer.thy ===== *)
theory Transport_Writer
  imports Machine Ppcs_Audio
begin

text \<open>
  The MPEG-TS writer of \<open>stream/clocked-transport.ts\<close>: program tables with their section
  checksum, PES packets with a presentation timestamp, and the packetiser with adaptation
  stuffing, clock references and per-PID continuity counters. A call that throws is None;
  otherwise it returns the writer and the buffers handed to \<open>output\<close>. Times are finite
  reals (milliseconds) or None for a non-finite number; ticks are integers of 90 kHz.
  The specification side is a demultiplexer: packets, their header fields and payload,
  and the PES header.
\<close>

unbundle bit_operations_syntax

definition VIDEO_PID :: nat where "VIDEO_PID = 0x100"
definition AUDIO_PID :: nat where "AUDIO_PID = 0x101"
definition PMT_PID :: nat where "PMT_PID = 0x1000"
definition TS_MAX_INPUT_BYTES :: nat where "TS_MAX_INPUT_BYTES = 4 * 1024 * 1024"
definition AUD :: bytes where "AUD = [0, 0, 0, 1, 9, 0xf0]"

record ts_writer =
  tw_counters :: "nat \<Rightarrow> nat option"
  tw_started :: bool
  tw_withAudio :: bool

definition tw_new :: "bool \<Rightarrow> ts_writer" where
  "tw_new withAudio = \<lparr> tw_counters = (\<lambda>_. None), tw_started = False, tw_withAudio = withAudio \<rparr>"

section \<open>Fields\<close>

definition crc_bit :: "32 word \<Rightarrow> 32 word" where
  "crc_bit crc = (if crc AND 0x80000000 \<noteq> 0 then push_bit 1 crc XOR 0x04c11db7 else push_bit 1 crc)"

definition crc_byte :: "32 word \<Rightarrow> byte \<Rightarrow> 32 word" where
  "crc_byte crc b = (crc_bit ^^ 8) (crc XOR push_bit 24 (ucast b))"

definition section_crc :: "bytes \<Rightarrow> 32 word" where
  "section_crc data = foldl crc_byte 0xffffffff data"

definition sectionChecksum :: "bytes \<Rightarrow> bytes" where
  "sectionChecksum data = be_bytes 4 (unat (section_crc data))"

definition ts_time :: "int \<Rightarrow> nat" where
  "ts_time ticks = nat (ticks AND 0x1ffffffff)"

definition presentationTimestamp :: "int \<Rightarrow> bytes" where
  "presentationTimestamp ticks =
     (let time = ts_time ticks in
      map word_of_nat [0x21 OR (drop_bit 29 time AND 14), drop_bit 22 time AND 255,
        (drop_bit 14 time AND 254) OR 1, drop_bit 7 time AND 255, (push_bit 1 time AND 254) OR 1])"

definition clockReference :: "int \<Rightarrow> bytes" where
  "clockReference ticks =
     (let time = ts_time ticks in
      map word_of_nat [drop_bit 25 time AND 255, drop_bit 17 time AND 255, drop_bit 9 time AND 255,
        drop_bit 1 time AND 255, push_bit 7 (time AND 1) OR 0x7e, 0])"

section \<open>Packets\<close>

text \<open>One packet of \<open>#pack\<close>: \<open>first\<close> sets the start flag, a clock puts its reference into the stuffing.\<close>

definition ts_packet :: "nat \<Rightarrow> nat \<Rightarrow> bool \<Rightarrow> int option \<Rightarrow> bytes \<Rightarrow> bytes" where
  "ts_packet pid counter first clock chunk =
     (let adaptation = length chunk < 184; stuffing = 183 - length chunk;
          head = map word_of_nat [0x47, (if first then 0x40 else 0) OR (drop_bit 8 pid AND 31), pid AND 255,
            (if adaptation then 0x30 else 0x10) OR counter] in
      if \<not> adaptation then head @ chunk
      else if stuffing = 0 then head @ [0] @ chunk
      else (case clock of
          None \<Rightarrow> head @ [word_of_nat stuffing, 0] @ replicate (stuffing - 1) 0xff @ chunk
        | Some t \<Rightarrow> head @ [word_of_nat stuffing, 0x10] @ clockReference t @ replicate (stuffing - 7) 0xff @ chunk))"

definition counter_of :: "(nat \<Rightarrow> nat option) \<Rightarrow> nat \<Rightarrow> nat" where
  "counter_of counters pid = (case counters pid of None \<Rightarrow> 0 | Some c \<Rightarrow> c)"

function pack_loop :: "nat \<Rightarrow> bool \<Rightarrow> int option \<Rightarrow> bytes \<Rightarrow> (nat \<Rightarrow> nat option) \<Rightarrow> (nat \<Rightarrow> nat option) \<times> bytes list" where
  "pack_loop pid first clock data counters =
     (if data = [] then (counters, [])
      else
        (let n = min (length data) (if first \<and> clock \<noteq> None then 176 else 184);
             counter = counter_of counters pid;
             (counters', packets) = pack_loop pid False clock (drop n data) (counters(pid \<mapsto> (counter + 1) AND 15)) in
         (counters', ts_packet pid counter first (if first then clock else None) (take n data) # packets)))"
  by pat_completeness auto
termination
  by (relation "measure (\<lambda>(_, _, _, data, _). length data)") auto

declare pack_loop.simps [simp del]

text \<open>The packets leave in buffers of at most 256.\<close>

function batches :: "bytes list \<Rightarrow> bytes list" where
  "batches packets = (if packets = [] then [] else concat (take 256 packets) # batches (drop 256 packets))"
  by pat_completeness auto
termination
  by (relation "measure length") auto

declare batches.simps [simp del]

definition tw_pack :: "nat \<Rightarrow> bytes \<Rightarrow> int option \<Rightarrow> ts_writer \<Rightarrow> ts_writer \<times> bytes list" where
  "tw_pack pid data clock w =
     (let (counters, packets) = pack_loop pid True clock data (tw_counters w) in
      (w\<lparr>tw_counters := counters\<rparr>, batches packets))"

definition pes_packet :: "nat \<Rightarrow> bytes \<Rightarrow> int \<Rightarrow> bytes" where
  "pes_packet stream data ticks =
     [0, 0, 1, word_of_nat stream] @ be_bytes 2 (if stream = 0xe0 then 0 else length data + 8) @
     [0x80, 0x80, 5] @ presentationTimestamp ticks @ data"

definition tw_pes :: "nat \<Rightarrow> nat \<Rightarrow> bytes \<Rightarrow> int \<Rightarrow> bool \<Rightarrow> ts_writer \<Rightarrow> ts_writer \<times> bytes list" where
  "tw_pes pid stream data ticks clock w =
     tw_pack pid (pes_packet stream data ticks) (if clock then Some ticks else None) w"

definition pat_section :: bytes where
  "pat_section = [0, 0xb0, 13, 0, 1, 0xc1, 0, 0, 0, 1, 0xf0, 0]"

definition pmt_section :: "bool \<Rightarrow> bytes" where
  "pmt_section withAudio =
     (let streams = [0x1b, 0xe1, 0, 0xf0, 0] @ (if withAudio then [0x0f, 0xe1, 1, 0xf0, 0] else []) in
      [2, 0xb0, word_of_nat (13 + length streams), 0, 1, 0xc1, 0, 0, 0xe1, 0, 0xf0, 0] @ streams)"

definition tw_tables :: "ts_writer \<Rightarrow> ts_writer \<times> bytes list" where
  "tw_tables w =
     (let (w1, o1) = tw_pack 0 ([0] @ pat_section @ sectionChecksum pat_section) None w;
          pmt = pmt_section (tw_withAudio w);
          (w2, o2) = tw_pack PMT_PID ([0] @ pmt @ sectionChecksum pmt) None w1 in
      (w2, o1 @ o2))"

text \<open>\<open>#initialClock\<close>: a packet of adaptation field only, on the video PID.\<close>

definition initial_clock :: "int \<Rightarrow> ts_writer \<Rightarrow> bytes" where
  "initial_clock ticks w =
     map word_of_nat [0x47, drop_bit 8 VIDEO_PID, VIDEO_PID AND 0xff, 0x20 OR counter_of (tw_counters w) VIDEO_PID, 183, 0x10] @
     clockReference ticks @ replicate 176 0xff"

section \<open>Calls\<close>

definition tw_valid :: "bytes \<Rightarrow> real option \<Rightarrow> bool" where
  "tw_valid data ms \<longleftrightarrow> data \<noteq> [] \<and> length data \<le> TS_MAX_INPUT_BYTES \<and>
     (case ms of None \<Rightarrow> False | Some t \<Rightarrow> 0 \<le> t \<and> t < 86400000)"

definition tw_video :: "bytes \<Rightarrow> real option \<Rightarrow> ts_writer \<Rightarrow> (ts_writer \<times> bytes list) option" where
  "tw_video data ms w =
     (if \<not> tw_valid data ms then None
      else
        (let (w1, o1) = tw_tables w;
             (w2, o2) = tw_pes VIDEO_PID 0xe0 (AUD @ data) (js_round (the ms * 90)) True (w1\<lparr>tw_started := True\<rparr>) in
         Some (w2, o1 @ o2)))"

fun tw_units :: "adts_unit list \<Rightarrow> bytes \<Rightarrow> real \<Rightarrow> ts_writer \<Rightarrow> ts_writer \<times> bytes list" where
  "tw_units [] data ticks w = (w, [])"
| "tw_units (u # us) data ticks w =
     (let n = adts_size data;
          (w1, o1) = tw_pes AUDIO_PID 0xc0 (take n data) (js_round ticks) False w;
          (w2, o2) = tw_units us (drop n data) (ticks + real (au_samples u) * 90000 / real (au_sampleRate u)) w1 in
      (w2, o1 @ o2))"

text \<open>The tables and the initial clock before the first audio of a writer.\<close>

definition audio_start :: "real \<Rightarrow> ts_writer \<Rightarrow> ts_writer \<times> bytes list" where
  "audio_start ticks w = (if tw_started w then (w, [])
     else (let (wt, ot) = tw_tables w in (wt\<lparr>tw_started := True\<rparr>, ot @ [initial_clock (js_round ticks) wt])))"

definition tw_audio :: "bytes \<Rightarrow> real option \<Rightarrow> ts_writer \<Rightarrow> (ts_writer \<times> bytes list) option" where
  "tw_audio data ms w =
     (if \<not> tw_valid data ms then None
      else (case parseAdtsAccessUnits data of
          None \<Rightarrow> None
        | Some units \<Rightarrow>
            if \<not> tw_withAudio w then None
            else
              (let ticks = the ms * 90;
                   (w1, o1) = audio_start ticks w;
                   (w2, o2) = tw_units units data ticks w1 in
               Some (w2, o1 @ o2))))"

datatype tw_event = TeVideo bytes "real option" | TeAudio bytes "real option"

text \<open>A call that throws leaves the writer as it was.\<close>

fun tw_step :: "ts_writer \<Rightarrow> tw_event \<Rightarrow> ts_writer \<times> bytes list" where
  "tw_step w (TeVideo data ms) = (case tw_video data ms w of None \<Rightarrow> (w, []) | Some r \<Rightarrow> r)"
| "tw_step w (TeAudio data ms) = (case tw_audio data ms w of None \<Rightarrow> (w, []) | Some r \<Rightarrow> r)"

section \<open>The demultiplexer\<close>

definition ts_ok :: "bytes \<Rightarrow> bool" where
  "ts_ok p \<longleftrightarrow> length p = 188 \<and> p ! 0 = 0x47"

definition ts_pid :: "bytes \<Rightarrow> nat" where
  "ts_pid p = unat (p ! 1) mod 32 * 256 + unat (p ! 2)"

definition ts_start :: "bytes \<Rightarrow> bool" where
  "ts_start p \<longleftrightarrow> unat (p ! 1) div 64 mod 2 = 1"

definition ts_counter :: "bytes \<Rightarrow> nat" where
  "ts_counter p = unat (p ! 3) mod 16"

definition ts_has_payload :: "bytes \<Rightarrow> bool" where
  "ts_has_payload p \<longleftrightarrow> unat (p ! 3) div 16 mod 2 = 1"

definition ts_payload :: "bytes \<Rightarrow> bytes" where
  "ts_payload p = (if unat (p ! 3) div 32 mod 2 = 1 then drop (5 + unat (p ! 4)) p else drop 4 p)"

definition ts_pcr :: "bytes \<Rightarrow> nat option" where
  "ts_pcr p =
     (if unat (p ! 3) div 32 mod 2 = 1 \<and> unat (p ! 4) \<ge> 7 \<and> unat (p ! 5) div 16 mod 2 = 1
      then Some (unat (p ! 6) * 33554432 + unat (p ! 7) * 131072 + unat (p ! 8) * 512 + unat (p ! 9) * 2 + unat (p ! 10) div 128)
      else None)"

function ts_split :: "bytes \<Rightarrow> bytes list" where
  "ts_split bs = (if bs = [] then [] else take 188 bs # ts_split (drop 188 bs))"
  by pat_completeness auto
termination
  by (relation "measure length") auto

declare ts_split.simps [simp del]

text \<open>A PES packet: stream, presentation time and data.\<close>

definition pes_parse :: "bytes \<Rightarrow> (nat \<times> nat \<times> bytes) option" where
  "pes_parse p =
     (if take 3 p = [0, 0, 1] \<and> length p \<ge> 14 \<and> slice 6 9 p = [0x80, 0x80, 5] \<and>
         (u16be p 4 = 0 \<or> u16be p 4 = length p - 6)
      then Some (unat (p ! 3),
        unat (p ! 9) div 2 mod 8 * 1073741824 + unat (p ! 10) * 4194304 + unat (p ! 11) div 2 * 32768 +
          unat (p ! 12) * 128 + unat (p ! 13) div 2,
        drop 14 p)
      else None)"

definition on_pid :: "nat \<Rightarrow> bytes list \<Rightarrow> bytes list" where
  "on_pid pid ps = filter (\<lambda>p. ts_pid p = pid \<and> ts_has_payload p) ps"

section \<open>Field lemmas\<close>

lemma nat_and_even_mask: "(n :: nat) AND (2 * (2 ^ k - 1)) = 2 * (n div 2 mod 2 ^ k)"
  by (subst and_rec) (simp add: nat_and_mask [simplified])

lemma nat_and_14: "(n :: nat) AND 14 = 2 * (n div 2 mod 8)"
  using nat_and_even_mask [of n 3] by simp

lemma nat_and_254: "(n :: nat) AND 254 = 2 * (n div 2 mod 128)"
  using nat_and_even_mask [of n 7] by simp

lemma nat_and_255: "(n :: nat) AND 255 = n mod 256"
  using nat_and_mask [of n 8] by simp

lemma even_or_1: "(2 * n) OR Suc 0 = 2 * n + 1"
  using nat_or_add [of 1 1 n] by (simp add: mult.commute)

lemma or_33: "k < 8 \<Longrightarrow> 33 OR (2 * k) = 33 + 2 * (k :: nat)"
proof -
  assume "k < 8"
  then have "k \<in> {0, 1, 2, 3, 4, 5, 6, 7}" by auto
  then show ?thesis by auto
qed

lemma ts_time_eq: "ts_time ticks = nat (ticks mod 8589934592)"
proof -
  have "ticks AND 0x1ffffffff = ticks AND (2 ^ 33 - 1)" by simp
  also have "\<dots> = ticks mod 2 ^ 33"
    by (simp only: mask_eq_exp_minus_1 [symmetric] take_bit_eq_mask [symmetric] take_bit_eq_mod)
  finally show ?thesis by (simp add: ts_time_def)
qed

lemma ts_time_bound: "ts_time ticks < 8589934592"
  by (simp add: ts_time_eq nat_less_iff)

lemma presentationTimestamp_eq:
  "presentationTimestamp ticks =
     (let t = ts_time ticks in
      map word_of_nat [33 + 2 * (t div 1073741824 mod 8), t div 4194304 mod 256, 2 * (t div 32768 mod 128) + 1,
        t div 128 mod 256, 2 * (t mod 128) + 1])"
  by (simp add: presentationTimestamp_def Let_def drop_bit_eq_div push_bit_eq_mult nat_and_14 nat_and_254
      nat_and_255 even_or_1 or_33 div_mult2_eq [symmetric] mult.commute)

lemma clockReference_eq:
  "clockReference ticks =
     (let t = ts_time ticks in
      map word_of_nat [t div 33554432 mod 256, t div 131072 mod 256, t div 512 mod 256, t div 2 mod 256,
        (t mod 2) * 128 + 126, 0])"
proof -
  have "t * 128 OR 126 = t * 128 + (126 :: nat)" for t using nat_or_add [of 126 7 t] by simp
  then show ?thesis
    by (simp add: clockReference_def Let_def drop_bit_eq_div push_bit_eq_mult nat_and_255 nat_and_1)
qed

lemma length_timestamp [simp]: "length (presentationTimestamp t) = 5"
  by (simp add: presentationTimestamp_def Let_def)

lemma length_clockReference [simp]: "length (clockReference t) = 6"
  by (simp add: clockReference_def Let_def)

lemma timestamp_sum:
  assumes "t < 8589934592"
  shows "t div 1073741824 mod 8 * 1073741824 + t div 4194304 mod 256 * 4194304 +
     t div 32768 mod 128 * 32768 + t div 128 mod 256 * 128 + t mod 128 = (t :: nat)"
  using mod_mult2_eq [of t 128 256] mod_mult2_eq [of t 32768 128] mod_mult2_eq [of t 4194304 256]
    mod_mult2_eq [of t 1073741824 8] mod_less [OF assms] by simp

lemma clock_sum:
  assumes "t < 8589934592"
  shows "t div 33554432 mod 256 * 33554432 + t div 131072 mod 256 * 131072 + t div 512 mod 256 * 512 +
     t div 2 mod 256 * 2 + t mod 2 = (t :: nat)"
  using mod_mult2_eq [of t 2 256] mod_mult2_eq [of t 512 256] mod_mult2_eq [of t 131072 256]
    mod_mult2_eq [of t 33554432 256] mod_less [OF assms] by simp

lemma add_nibble:
  assumes "c < 16"
  shows "(48 + c) mod 16 = c" "(16 + c) mod 16 = (c :: nat)" "(48 + c) div 16 mod 2 = 1" "(16 + c) div 16 mod 2 = 1"
    "(48 + c) div 32 mod 2 = 1" "(16 + c) div 32 mod 2 = 0"
proof -
  show "(48 + c) mod 16 = c" "(16 + c) mod 16 = c"
    using mod_mult_self1 [of c 3 16] mod_mult_self1 [of c 1 16] assms by (simp_all add: add.commute)
  have "(48 + c) div 16 = 3" "(16 + c) div 16 = 1" "(48 + c) div 32 = 1" "(16 + c) div 32 = 0"
    using assms by (auto intro!: div_nat_eqI)
  then show "(48 + c) div 16 mod 2 = 1" "(16 + c) div 16 mod 2 = 1" "(48 + c) div 32 mod 2 = 1" "(16 + c) div 32 mod 2 = 0"
    by simp_all
qed

lemma add64: "q < 32 \<Longrightarrow> (64 + q) mod 32 = q \<and> q mod 32 = q \<and> (64 + q) div 64 mod 2 = 1 \<and> q div 64 = (0 :: nat)"
  using mod_mult_self1 [of q 2 32] by (simp add: add.commute)

lemma packet_head:
  assumes "pid < 8192" "counter < 16"
  shows "map word_of_nat [0x47, (if first then 0x40 else 0) OR (drop_bit 8 pid AND 31), pid AND 255,
      (if adaptation then 0x30 else 0x10) OR counter] =
    [0x47 :: byte, word_of_nat ((if first then 64 else 0) + pid div 256), word_of_nat (pid mod 256),
      word_of_nat ((if adaptation then 48 else 16) + counter)]"
proof -
  have "(64 :: nat) OR pid div 256 = 64 + pid div 256"
    using nat_or_add [of "pid div 256" 6 1] assms(1) by simp
  moreover have "(48 :: nat) OR counter = 48 + counter" "(16 :: nat) OR counter = 16 + counter"
    using nat_or_add [of counter 4 3] nat_or_add [of counter 4 1] assms(2) by simp_all
  ultimately show ?thesis
    using assms(1) by (auto simp: drop_bit_eq_div nat_and_31 nat_and_255)
qed

text \<open>What the demultiplexer reads from one packet.\<close>

lemma ts_packet_fields:
  fixes first :: bool and clock :: "int option"
  assumes "pid < 8192" "counter < 16" "chunk \<noteq> []" "length chunk \<le> (if clock = None then 184 else 176)"
  defines "p \<equiv> ts_packet pid counter first clock chunk"
  shows "ts_ok p" "ts_pid p = pid" "ts_start p = first" "ts_counter p = counter" "ts_has_payload p"
    "ts_payload p = chunk" "ts_pcr p = map_option ts_time clock"
proof -
  define h :: bytes where "h = [0x47, word_of_nat ((if first then 64 else 0) + pid div 256), word_of_nat (pid mod 256),
      word_of_nat ((if length chunk < 184 then 48 else 16) + counter)]"
  have n: "length chunk \<le> 184" using assms(4) by (auto split: if_splits)
  define st where "st = 183 - length chunk"
  have p: "p = (if \<not> length chunk < 184 then h @ chunk else if st = 0 then h @ [0] @ chunk
      else (case clock of None \<Rightarrow> h @ [word_of_nat st, 0] @ replicate (st - 1) 0xff @ chunk
        | Some t \<Rightarrow> h @ [word_of_nat st, 0x10] @ clockReference t @ replicate (st - 7) 0xff @ chunk))"
    unfolding p_def ts_packet_def Let_def packet_head [OF assms(1, 2)] h_def st_def by (rule refl)
  have st: "st < 183" "st = 0 \<or> length chunk + st = 183" "length chunk < 184 \<Longrightarrow> length chunk + st = 183" using assms(3) n by (auto simp: st_def Suc_le_eq)
  have lh: "length h = 4" by (simp add: h_def)
  obtain r where r: "p = h @ r" "length r = 184"
  proof (cases "\<not> length chunk < 184")
    case True
    then show ?thesis using that [of chunk] n by (simp add: p)
  next
    case False
    have "clock \<noteq> None \<Longrightarrow> 7 \<le> st" using assms(4) by (auto simp: st_def split: if_splits)
    then show ?thesis using False st that p by (cases "st = 0"; cases clock) (auto simp: st_def)
  qed
  have pre: "p ! i = h ! i" if "i < 4" for i using that r(1) lh by (simp add: nth_append)
  have b1: "unat (p ! Suc 0) = (if first then 64 else 0) + pid div 256"
    and b2: "unat (p ! 2) = pid mod 256" and b3: "unat (p ! 3) = (if length chunk < 184 then 48 else 16) + counter"
    using assms(1, 2) by (auto simp: pre h_def unat_byte_of_nat numeral_2_eq_2 numeral_3_eq_3 simp del: of_nat_add)
  have m0: "pid div 256 < 32" using assms(1) by simp
  have m: "(64 + pid div 256) mod 32 = pid div 256" "pid div 256 mod 32 = pid div 256"
    "(64 + pid div 256) div 64 mod 2 = 1" "pid div 256 div 64 = 0"
    using add64 [OF m0] by simp_all
  show "ts_ok p" using r lh by (simp add: ts_ok_def pre h_def)
  show "ts_pid p = pid" using m by (simp add: ts_pid_def b1 b2)
  show "ts_start p = first" using m by (simp add: ts_start_def b1)
  show "ts_counter p = counter" unfolding ts_counter_def b3 using add_nibble(1, 2) [OF assms(2)] by (cases "length chunk < 184") (simp_all only: if_True if_False)
  show "ts_has_payload p" unfolding ts_has_payload_def b3 using add_nibble(3, 4) [OF assms(2)] by (cases "length chunk < 184") (simp_all only: if_True if_False)
  have ad: "unat (p ! 3) div 32 mod 2 = 1 \<longleftrightarrow> length chunk < 184" unfolding b3 using add_nibble(5, 6) [OF assms(2)] by (cases "length chunk < 184") (simp_all only: if_True if_False zero_neq_one simp_thms)
  have sb: "unat (word_of_nat st :: byte) = st" using st(1) by (simp add: unat_byte_of_nat)
  have b4: "unat (p ! 4) = st" if c: "length chunk < 184"
  proof -
    obtain q where "p = h @ [word_of_nat st] @ q" using c by (cases "st = 0"; cases clock) (simp_all add: p)
    then show ?thesis using lh sb by (simp add: nth_append)
  qed
  show "ts_payload p = chunk"
  proof (cases "length chunk < 184")
    case True
    have "5 + st = length p - length chunk" using st(3) [OF True] r lh by simp
    moreover obtain q where "p = q @ chunk"
      using True that [of "h @ [0]"] that [of "h @ [word_of_nat st, 0] @ replicate (st - 1) 0xff"] p
        that [of "h @ [word_of_nat st, 0x10] @ clockReference (the clock) @ replicate (st - 7) 0xff"]
      by (cases clock) (simp_all split: if_splits)
    ultimately have "drop (5 + st) p = chunk" by simp
    then show ?thesis using True ad b4 by (simp add: ts_payload_def)
  next
    case False
    then show ?thesis using ad lh by (simp add: ts_payload_def p)
  qed
  show "ts_pcr p = map_option ts_time clock"
  proof (cases clock)
    case None
    then have "length chunk < 184 \<Longrightarrow> st \<ge> 7 \<Longrightarrow> p ! 5 = 0" by (simp add: p nth_append lh)
    then show ?thesis using None ad b4 by (auto simp: ts_pcr_def)
  next
    case (Some t)
    have l: "length chunk < 184" "7 \<le> st" using assms(4) Some by (auto simp: st_def)
    then have q: "p = (h @ [word_of_nat st, 0x10]) @ clockReference t @ replicate (st - 7) 0xff @ chunk"
      using Some by (simp add: p)
    have l6: "length (h @ [word_of_nat st, 0x10]) = 6" using lh by simp
    have at: "p ! (6 + i) = clockReference t ! i" if "i < 5" for i
      unfolding q nth_append l6 using that by simp
    define v where "v = ts_time t"
    have "p ! 5 = 0x10" unfolding q by (simp add: nth_append lh)
    moreover have "p ! 6 = word_of_nat (v div 33554432 mod 256)" "p ! 7 = word_of_nat (v div 131072 mod 256)"
      "p ! 8 = word_of_nat (v div 512 mod 256)" "p ! 9 = word_of_nat (v div 2 mod 256)"
      using at [of 0] at [of 1] at [of 2] at [of 3] by (simp_all add: clockReference_eq Let_def v_def)
    moreover have "unat (p ! 10) div 128 = v mod 2"
    proof -
      have "p ! 10 = word_of_nat (v mod 2 * 128 + 126)"
        using at [of 4] by (simp add: clockReference_eq Let_def v_def del: of_nat_add of_nat_mult)
      then have "unat (p ! 10) = (v mod 2 * 128 + 126) mod 256" by (simp only: unat_byte_of_nat)
      then show ?thesis by (cases "even v") (simp_all add: even_iff_mod_2_eq_zero odd_iff_mod_2_eq_one)
    qed
    ultimately show ?thesis
      using l ad b4 Some clock_sum [OF ts_time_bound, of t] unfolding ts_pcr_def by (simp add: unat_byte_of_nat v_def)
  qed
qed

section \<open>The packetiser\<close>

fun counting :: "nat \<Rightarrow> nat \<Rightarrow> nat list" where
  "counting c 0 = []"
| "counting c (Suc n) = c mod 16 # counting (Suc c) n"

lemma counting_append: "counting c (m + n) = counting c m @ counting (c + m) n"
  by (induction m arbitrary: c) simp_all

lemma counting_mod: "counting (c mod 16) n = counting c n"
  by (induction n arbitrary: c) (simp, metis counting.simps(2) mod_Suc_eq mod_mod_trivial)

abbreviation ctr :: "ts_writer \<Rightarrow> nat \<Rightarrow> nat" where
  "ctr w pid \<equiv> counter_of (tw_counters w) pid"

text \<open>The packets of one transport payload.\<close>

definition carries :: "nat \<Rightarrow> bool \<Rightarrow> int option \<Rightarrow> nat \<Rightarrow> bytes \<Rightarrow> bytes list \<Rightarrow> bool" where
  "carries pid first clock c data ps \<longleftrightarrow>
     (\<forall>p\<in>set ps. ts_ok p \<and> ts_pid p = pid \<and> ts_has_payload p) \<and> concat (map ts_payload ps) = data \<and>
     map ts_counter ps = counting c (length ps) \<and>
     (data \<noteq> [] \<longrightarrow> ps \<noteq> [] \<and> ts_pcr (hd ps) = (if first then map_option ts_time clock else None) \<and>
        map ts_start ps = first # replicate (length ps - 1) False)"

lemma pack_loop_facts:
  assumes "pid < 8192" "counter_of counters pid < 16" "pack_loop pid first clock data counters = (cs, ps)"
  shows "carries pid first clock (counter_of counters pid) data ps \<and>
    counter_of cs pid = (counter_of counters pid + length ps) mod 16 \<and> (\<forall>q. q \<noteq> pid \<longrightarrow> cs q = counters q)"
  using assms
proof (induction pid first clock data counters arbitrary: cs ps rule: pack_loop.induct)
  case (1 pid first clock data counters)
  show ?case
  proof (cases "data = []")
    case True
    with 1(2-) show ?thesis by (simp add: pack_loop.simps carries_def)
  next
    case False
    define n where "n = min (length data) (if first \<and> clock \<noteq> None then 176 else 184)"
    define c where "c = counter_of counters pid"
    define counters1 where "counters1 = counters(pid \<mapsto> (c + 1) AND 15)"
    obtain cs1 ps1 where r: "pack_loop pid False clock (drop n data) counters1 = (cs1, ps1)" by fastforce
    define p where "p = ts_packet pid c first (if first then clock else None) (take n data)"
    have "pack_loop pid first clock data counters = (cs1, p # ps1)"
      using False r unfolding pack_loop.simps [of pid first clock data counters] Let_def n_def [symmetric] c_def [symmetric]
        counters1_def [symmetric] by (simp add: p_def)
    then have eq: "cs = cs1" "ps = p # ps1" using 1(4) by simp_all
    have c1: "counter_of counters1 pid = Suc c mod 16" by (simp add: counters1_def counter_of_def nat_and_15)
    have IH: "carries pid False clock (Suc c mod 16) (drop n data) ps1 \<and>
        counter_of cs1 pid = (Suc c mod 16 + length ps1) mod 16 \<and> (\<forall>q. q \<noteq> pid \<longrightarrow> cs1 q = counters1 q)"
      using 1(1) [OF False n_def c_def, folded counters1_def, OF 1(2) _ r] c1 by simp
    have t: "take n data \<noteq> []" "length (take n data) \<le> (if (if first then clock else None) = None then 184 else 176)"
      using False by (auto simp: n_def min_def)
    have c16: "c < 16" using 1(3) by (simp add: c_def)
    note f = ts_packet_fields [OF 1(2) c16 t, of first, folded p_def]
    have st: "map ts_start ps1 = replicate (length ps1) False"
    proof (cases "drop n data = []")
      case True
      with r show ?thesis by (simp add: pack_loop.simps)
    next
      case nd: False
      with IH have "map ts_start ps1 = False # replicate (length ps1 - 1) False" "ps1 \<noteq> []" by (simp_all add: carries_def)
      then show ?thesis by (cases ps1) simp_all
    qed
    have "carries pid first clock c data ps"
      using IH f st c16 counting_mod [of "Suc c"] by (auto simp: carries_def eq)
    moreover have "counter_of cs pid = (c + length ps) mod 16" using IH by (simp add: eq mod_simps)
    moreover have "\<forall>q. q \<noteq> pid \<longrightarrow> cs q = counters q" using IH by (simp add: eq counters1_def)
    ultimately show ?thesis by (simp add: c_def)
  qed
qed

lemma concat_batches: "concat (batches ps) = concat ps"
proof (induction ps rule: batches.induct)
  case (1 packets)
  then show ?case
    by (cases "packets = []") (simp_all add: batches.simps [of packets] batches.simps [of "[]"] concat_append [symmetric] del: concat_append)
qed

lemma ts_split_concat: "\<forall>p\<in>set ps. ts_ok p \<Longrightarrow> ts_split (concat ps) = ps"
proof (induction ps)
  case Nil
  show ?case by (simp add: ts_split.simps)
next
  case (Cons p ps)
  then have "length p = 188" "p \<noteq> []" by (auto simp: ts_ok_def)
  with Cons show ?case by (simp add: ts_split.simps [of "p @ concat ps"])
qed

text \<open>What a call does: whole packets, each PID's counters continuing where the writer stood.\<close>

definition continues :: "ts_writer \<Rightarrow> bytes list \<Rightarrow> ts_writer \<Rightarrow> bool" where
  "continues w outs w' \<longleftrightarrow> tw_withAudio w' = tw_withAudio w \<and> (\<exists>ps. concat outs = concat ps \<and> (\<forall>p\<in>set ps. ts_ok p) \<and>
     (\<forall>pid. map ts_counter (on_pid pid ps) = counting (ctr w pid) (length (on_pid pid ps)) \<and>
        ctr w' pid = (ctr w pid + length (on_pid pid ps)) mod 16))"

definition tw_inv :: "ts_writer \<Rightarrow> bool" where
  "tw_inv w \<longleftrightarrow> (\<forall>pid. ctr w pid < 16)"

lemma continues_refl: "tw_inv w \<Longrightarrow> continues w [] w"
  unfolding continues_def by (intro conjI exI [of _ "[]"]) (simp_all add: on_pid_def tw_inv_def)

lemma continues_same: "continues w outs w1 \<Longrightarrow> tw_counters w2 = tw_counters w1 \<Longrightarrow> tw_withAudio w2 = tw_withAudio w1 \<Longrightarrow> continues w outs w2"
  by (simp add: continues_def)

lemma continues_trans:
  assumes "continues w o1 w1" "continues w1 o2 w2"
  shows "continues w (o1 @ o2) w2"
proof -
  obtain ps where p: "concat o1 = concat ps" "\<forall>p\<in>set ps. ts_ok p"
    "\<And>pid. map ts_counter (on_pid pid ps) = counting (ctr w pid) (length (on_pid pid ps))"
    "\<And>pid. ctr w1 pid = (ctr w pid + length (on_pid pid ps)) mod 16"
    using assms(1) by (auto simp: continues_def)
  obtain qs where q: "concat o2 = concat qs" "\<forall>p\<in>set qs. ts_ok p"
    "\<And>pid. map ts_counter (on_pid pid qs) = counting (ctr w1 pid) (length (on_pid pid qs))"
    "\<And>pid. ctr w2 pid = (ctr w1 pid + length (on_pid pid qs)) mod 16"
    using assms(2) by (auto simp: continues_def)
  have a: "on_pid pid (ps @ qs) = on_pid pid ps @ on_pid pid qs" for pid by (simp add: on_pid_def)
  show ?thesis unfolding continues_def
    by (intro conjI exI [of _ "ps @ qs"]) (use assms p q in \<open>auto simp: continues_def a counting_append counting_mod mod_simps add.assoc\<close>)
qed

lemma continues_inv: "continues w outs w' \<Longrightarrow> tw_inv w'"
  by (auto simp: continues_def tw_inv_def)

section \<open>Sections\<close>

lemma crc_bit_shift: "\<not> bit c 31 \<Longrightarrow> crc_bit c = push_bit 1 c"
  using and_exp_eq_0_iff_not_bit [of c 31] by (simp add: crc_bit_def)

lemma crc_bits_shift: "(\<And>n. 24 \<le> n \<Longrightarrow> \<not> bit c n) \<Longrightarrow> i \<le> 8 \<Longrightarrow> (crc_bit ^^ i) c = push_bit i c"
proof (induction i)
  case (Suc i)
  then have "(crc_bit ^^ i) c = push_bit i c" by simp
  moreover have "\<not> bit (push_bit i c) 31" using Suc.prems by (simp add: bit_push_bit_iff)
  ultimately show ?case by (simp add: crc_bit_shift)
qed simp

text \<open>Feeding the top byte of the register shifts it out.\<close>

lemma crc_byte_top:
  assumes "b = ucast (drop_bit 24 c)"
  shows "crc_byte c b = push_bit 8 (c :: 32 word)"
proof -
  define x where "x = c XOR push_bit 24 (ucast b)"
  have hi: "\<not> bit x n" if "24 \<le> n" for n
    using that by (auto simp: x_def assms bit_simps dest: bit_imp_le_length)
  have "crc_byte c b = push_bit 8 x"
    unfolding crc_byte_def x_def [symmetric] using hi by (simp add: crc_bits_shift)
  also have "\<dots> = push_bit 8 c"
    by (rule bit_eqI) (auto simp: x_def bit_simps)
  finally show ?thesis .
qed

lemma be_bytes_word:
  "be_bytes 4 (unat (c :: 32 word)) = [ucast (drop_bit 24 c), ucast (drop_bit 16 c), ucast (drop_bit 8 c), ucast c]"
proof -
  have "word_of_nat (unat c div 2 ^ k) = (ucast (drop_bit k c) :: byte)" for k
  proof -
    have "word_of_nat (unat (drop_bit k c)) = (ucast (drop_bit k c) :: byte)" by (rule of_nat_unat)
    then show ?thesis by (simp add: unat_drop_bit_eq drop_bit_eq_div [of k "unat c"])
  qed
  from this [of 0] this [of 8] this [of 16] this [of 24] show ?thesis
    by (simp add: be_bytes_def div_mult2_eq [symmetric])
qed

text \<open>A section followed by its checksum leaves the register zero.\<close>

lemma section_residue: "section_crc (data @ sectionChecksum data) = 0"
proof -
  define c where "c = section_crc data"
  have "ucast (drop_bit 16 c) = (ucast (drop_bit 24 (push_bit 8 c)) :: byte)"
    "ucast (drop_bit 8 c) = (ucast (drop_bit 24 (push_bit 8 (push_bit 8 c))) :: byte)"
    "ucast c = (ucast (drop_bit 24 (push_bit 8 (push_bit 8 (push_bit 8 c)))) :: byte)"
    by (rule bit_eqI; auto simp: bit_simps)+
  then have "foldl crc_byte c (be_bytes 4 (unat c)) = push_bit 8 (push_bit 8 (push_bit 8 (push_bit 8 c)))"
    by (simp add: be_bytes_word crc_byte_top)
  also have "\<dots> = 0" by (rule bit_eqI) (auto simp: bit_simps)
  finally show ?thesis by (simp add: section_crc_def sectionChecksum_def c_def)
qed

section \<open>PES packets\<close>

text \<open>The payload units of one PID: a packet with the start flag opens a unit.\<close>

function pes_units :: "bytes list \<Rightarrow> bytes list" where
  "pes_units [] = []"
| "pes_units (p # ps) =
     concat (map ts_payload (p # takeWhile (\<lambda>q. \<not> ts_start q) ps)) # pes_units (dropWhile (\<lambda>q. \<not> ts_start q) ps)"
  by pat_completeness auto
termination
  by (relation "measure length") (auto simp: less_Suc_eq_le length_dropWhile_le)

lemma pes_units_carries:
  assumes "carries pid True clock c data ps" "data \<noteq> []" "qs = [] \<or> ts_start (hd qs)"
  shows "pes_units (ps @ qs) = data # pes_units qs"
proof -
  obtain p ps' where ps: "ps = p # ps'" and st: "map ts_start ps' = replicate (length ps') False"
    using assms(1, 2) by (cases ps) (auto simp: carries_def)
  have no: "\<forall>q\<in>set ps'. \<not> ts_start q"
  proof -
    have "set (map ts_start ps') \<subseteq> {False}" unfolding st by auto
    then show ?thesis by auto
  qed
  then have "takeWhile (\<lambda>q. \<not> ts_start q) (ps' @ qs) = ps' @ takeWhile (\<lambda>q. \<not> ts_start q) qs"
    "dropWhile (\<lambda>q. \<not> ts_start q) (ps' @ qs) = dropWhile (\<lambda>q. \<not> ts_start q) qs"
    by (simp_all add: takeWhile_append2 dropWhile_append2)
  moreover have "takeWhile (\<lambda>q. \<not> ts_start q) qs = []" "dropWhile (\<lambda>q. \<not> ts_start q) qs = qs"
    using assms(3) by (cases qs; simp)+
  ultimately show ?thesis using assms(1) by (simp add: ps carries_def)
qed

lemma pes_packet_parse:
  assumes "stream = 0xe0 \<or> stream = 0xc0 \<and> length data < 65000"
  shows "pes_parse (pes_packet stream data ticks) = Some (stream, ts_time ticks, data)"
proof -
  define v where "v = ts_time ticks"
  define n where "n = (if stream = 0xe0 then 0 else length data + 8)"
  define p where "p = pes_packet stream data ticks"
  have p: "p = [0, 0, 1, word_of_nat stream] @ be_bytes 2 n @ [0x80, 0x80, 5] @ presentationTimestamp ticks @ data"
    by (simp add: p_def pes_packet_def n_def)
  have b: "be_bytes 2 n = [word_of_nat (n div 256), word_of_nat n]" by (simp add: be_bytes_def)
  have ts: "presentationTimestamp ticks = map word_of_nat [33 + 2 * (v div 1073741824 mod 8), v div 4194304 mod 256,
      2 * (v div 32768 mod 128) + 1, v div 128 mod 256, 2 * (v mod 128) + 1]"
    by (simp add: presentationTimestamp_eq v_def Let_def)
  have len: "length p = 14 + length data" by (simp add: p)
  have "slice 4 6 p = be_bytes 2 n" by (simp add: p b slice_def)
  then have "u16be p 4 = n" using assms be_nat_be_bytes [of 2 n] by (auto simp: u16be_def n_def)
  moreover have "n = 0 \<or> n = length p - 6" by (simp add: n_def len)
  moreover have "take 3 p = [0, 0, 1]" "slice 6 9 p = [0x80, 0x80, 5]" "drop 14 p = data"
    by (simp_all add: p b ts slice_def)
  moreover have "unat (p ! 3) = stream" using assms by (auto simp: p)
  moreover have "p ! 9 = word_of_nat (33 + 2 * (v div 1073741824 mod 8))" "p ! 10 = word_of_nat (v div 4194304 mod 256)"
    "p ! 11 = word_of_nat (2 * (v div 32768 mod 128) + 1)" "p ! 12 = word_of_nat (v div 128 mod 256)"
    "p ! 13 = word_of_nat (2 * (v mod 128) + 1)"
    by (simp_all add: p b ts del: of_nat_add of_nat_mult of_nat_Suc)
  moreover have "(33 + 2 * a) mod 256 div 2 mod 8 = a" if "a < 8" for a :: nat
  proof -
    have "(33 + 2 * a) div 2 = 16 + a" "(33 + 2 * a) mod 256 = 33 + 2 * a" using that by simp_all
    moreover have "(16 + a) mod 8 = (a + 2 * 8) mod 8" by (simp add: add.commute)
    moreover have "(a + 2 * 8) mod 8 = a" using that by (simp only: mod_mult_self1 mod_less)
    ultimately show ?thesis by simp
  qed
  moreover have "(2 * a + 1) mod 256 div 2 = a" if "a < 128" for a :: nat using that by simp
  ultimately have "pes_parse p = Some (stream, v div 1073741824 mod 8 * 1073741824 + v div 4194304 mod 256 * 4194304 +
     v div 32768 mod 128 * 32768 + v div 128 mod 256 * 128 + v mod 128, data)"
    unfolding pes_parse_def by (simp add: len unat_byte_of_nat del: of_nat_add of_nat_mult of_nat_Suc)
  then show ?thesis unfolding p_def v_def by (simp only: timestamp_sum [OF ts_time_bound])
qed

section \<open>Calls\<close>

lemma carries_on_pid: "carries pid first clock c data ps \<Longrightarrow> on_pid q ps = (if q = pid then ps else [])"
  by (auto simp: carries_def on_pid_def filter_id_conv filter_empty_conv)

lemma tw_pack_emits:
  assumes "pid < 8192" "tw_inv w" "tw_pack pid data clock w = (w', outs)"
  shows "\<exists>ps. concat outs = concat ps \<and> carries pid True clock (ctr w pid) data ps \<and> continues w outs w' \<and>
    tw_withAudio w' = tw_withAudio w \<and> tw_started w' = tw_started w"
proof -
  obtain cs ps where r: "pack_loop pid True clock data (tw_counters w) = (cs, ps)" by fastforce
  have c: "ctr w pid < 16" using assms(2) by (simp add: tw_inv_def)
  have w': "w' = w\<lparr>tw_counters := cs\<rparr>" "outs = batches ps" using assms(3) by (simp_all add: tw_pack_def r)
  note f = pack_loop_facts [OF assms(1) c r]
  have "ctr w' q = (ctr w q + length (on_pid q ps)) mod 16" for q
    using f carries_on_pid [of pid True clock "ctr w pid" data ps q] assms(2) by (auto simp: w' tw_inv_def counter_of_def)
  moreover have "map ts_counter (on_pid q ps) = counting (ctr w q) (length (on_pid q ps))" for q
    using f carries_on_pid [of pid True clock "ctr w pid" data ps q] by (auto simp: carries_def)
  ultimately have "continues w outs w'" unfolding continues_def
    using f by (intro conjI exI [of _ ps]) (simp_all add: w' concat_batches carries_def)
  with f show ?thesis by (intro exI [of _ ps]) (simp add: w' concat_batches)
qed

lemma tw_tables_emits:
  assumes "tw_inv w" "tw_tables w = (w', outs)"
  shows "\<exists>p1 p2. concat outs = concat (p1 @ p2) \<and>
    carries 0 True None (ctr w 0) ([0] @ pat_section @ sectionChecksum pat_section) p1 \<and>
    carries PMT_PID True None (ctr w PMT_PID) ([0] @ pmt_section (tw_withAudio w) @ sectionChecksum (pmt_section (tw_withAudio w))) p2 \<and>
    continues w outs w' \<and> tw_withAudio w' = tw_withAudio w \<and> tw_started w' = tw_started w"
proof -
  let ?pat = "[0] @ pat_section @ sectionChecksum pat_section"
  let ?pmt = "[0] @ pmt_section (tw_withAudio w) @ sectionChecksum (pmt_section (tw_withAudio w))"
  obtain w1 o1 where r1: "tw_pack 0 ?pat None w = (w1, o1)" by fastforce
  obtain w2 o2 where r2: "tw_pack PMT_PID ?pmt None w1 = (w2, o2)" by fastforce
  have eq: "w' = w2" "outs = o1 @ o2" using assms(2) r1 r2 by (simp_all add: tw_tables_def Let_def)
  obtain p1 where p1: "concat o1 = concat p1" "carries 0 True None (ctr w 0) ?pat p1" "continues w o1 w1"
    "tw_withAudio w1 = tw_withAudio w" "tw_started w1 = tw_started w"
    using tw_pack_emits [OF _ assms(1) r1] by auto
  have pm: "PMT_PID < 8192" by (simp add: PMT_PID_def)
  obtain p2 where p2: "concat o2 = concat p2" "carries PMT_PID True None (ctr w1 PMT_PID) ?pmt p2" "continues w1 o2 w2"
    "tw_withAudio w2 = tw_withAudio w1" "tw_started w2 = tw_started w1"
    using tw_pack_emits [OF pm continues_inv [OF p1(3)] r2] by auto
  have "ctr w1 PMT_PID = ctr w PMT_PID"
  proof -
    obtain cs ps where r: "pack_loop 0 True None ?pat (tw_counters w) = (cs, ps)" by fastforce
    have "ctr w 0 < 16" using assms(1) by (simp add: tw_inv_def)
    then have "cs PMT_PID = tw_counters w PMT_PID" using pack_loop_facts [OF _ _ r] by (simp add: PMT_PID_def)
    then show ?thesis using r1 r by (simp add: tw_pack_def counter_of_def split_beta del: append_Cons append_Nil) (metis fst_conv ts_writer.select_convs(1) ts_writer.surjective ts_writer.update_convs(1))
  qed
  with p1 p2 eq show ?thesis
    by (intro exI [of _ p1] exI [of _ p2]) (simp add: continues_trans)
qed

lemma tw_video_emits:
  assumes "tw_inv w" "tw_valid data (Some ms)"
  shows "\<exists>w' outs p1 p2 p3. tw_video data (Some ms) w = Some (w', outs) \<and> concat outs = concat (p1 @ p2 @ p3) \<and>
    carries 0 True None (ctr w 0) ([0] @ pat_section @ sectionChecksum pat_section) p1 \<and>
    (\<exists>c. carries PMT_PID True None c ([0] @ pmt_section (tw_withAudio w) @ sectionChecksum (pmt_section (tw_withAudio w))) p2) \<and>
    (\<exists>c. carries VIDEO_PID True (Some (js_round (ms * 90))) c (pes_packet 0xe0 (AUD @ data) (js_round (ms * 90))) p3) \<and>
    continues w outs w'"
proof -
  obtain w1 o1 where r1: "tw_tables w = (w1, o1)" by fastforce
  obtain w2 o2 where r2: "tw_pes VIDEO_PID 0xe0 (AUD @ data) (js_round (ms * 90)) True (w1\<lparr>tw_started := True\<rparr>) = (w2, o2)" by fastforce
  obtain p1 p2 where t: "concat o1 = concat (p1 @ p2)"
    "carries 0 True None (ctr w 0) ([0] @ pat_section @ sectionChecksum pat_section) p1"
    "carries PMT_PID True None (ctr w PMT_PID) ([0] @ pmt_section (tw_withAudio w) @ sectionChecksum (pmt_section (tw_withAudio w))) p2"
    "continues w o1 w1"
    using tw_tables_emits [OF assms(1) r1] by blast
  have v: "VIDEO_PID < 8192" by (simp add: VIDEO_PID_def)
  have c1: "continues w o1 (w1\<lparr>tw_started := True\<rparr>)" by (rule continues_same [OF t(4)]) simp_all
  obtain p3 where p3: "concat o2 = concat p3" "carries VIDEO_PID True (Some (js_round (ms * 90))) (ctr (w1\<lparr>tw_started := True\<rparr>) VIDEO_PID)
      (pes_packet 0xe0 (AUD @ data) (js_round (ms * 90))) p3" "continues (w1\<lparr>tw_started := True\<rparr>) o2 w2"
    using tw_pack_emits [OF v continues_inv [OF c1] r2 [unfolded tw_pes_def if_True]] by auto
  have "tw_video data (Some ms) w = Some (w2, o1 @ o2)" using assms(2) r1 r2 by (simp add: tw_video_def)
  moreover have "concat (o1 @ o2) = concat (p1 @ p2 @ p3)" using t(1) p3(1) by simp
  moreover have "continues w (o1 @ o2) w2" by (rule continues_trans [OF c1 p3(3)])
  ultimately show ?thesis using t(2, 3) p3(2) by blast
qed

text \<open>Presentation times of a batch of ADTS frames.\<close>

fun audio_times :: "real \<Rightarrow> adts_frame list \<Rightarrow> real list" where
  "audio_times t [] = []"
| "audio_times t (f # fs) = t # audio_times (t + real (1024 * (af_blocks f + 1)) * 90000 / real (adts_rates ! af_frequency f)) fs"

lemma tw_units_emits:
  assumes "\<forall>f\<in>set fs. adts_frame_ok f" "tw_inv w"
    "tw_units (map adts_expected fs) (concat (map adts_encode fs)) ticks w = (w', outs)"
  shows "\<exists>ps. concat outs = concat ps \<and> (\<forall>p\<in>set ps. ts_ok p \<and> ts_pid p = AUDIO_PID \<and> ts_has_payload p) \<and>
    (ps = [] \<or> ts_start (hd ps)) \<and> continues w outs w' \<and>
    pes_units ps = map2 (\<lambda>f t. pes_packet 0xc0 (adts_encode f) (js_round t)) fs (audio_times ticks fs)"
  using assms
proof (induction fs arbitrary: ticks w w' outs)
  case Nil
  then show ?case by (intro exI [of _ "[]"]) (auto simp: continues_refl)
next
  case (Cons f fs)
  let ?data = "concat (map adts_encode (f # fs))"
  have f: "adts_frame_ok f" using Cons.prems(1) by simp
  have n: "adts_size ?data = length (adts_encode f)"
    using adts_encode_fields(4) [OF f, of "concat (map adts_encode fs)"] by (simp add: adts_encode_def Let_def)
  have tk: "take (adts_size ?data) ?data = adts_encode f" "drop (adts_size ?data) ?data = concat (map adts_encode fs)"
    unfolding n by simp_all
  define t2 where "t2 = ticks + real (1024 * (af_blocks f + 1)) * 90000 / real (adts_rates ! af_frequency f)"
  obtain w1 o1 where r1: "tw_pes AUDIO_PID 0xc0 (adts_encode f) (js_round ticks) False w = (w1, o1)" by fastforce
  obtain w2 o2 where r2: "tw_units (map adts_expected fs) (concat (map adts_encode fs)) t2 w1 = (w2, o2)" by fastforce
  have t2: "ticks + real (au_samples (adts_expected f)) * 90000 / real (au_sampleRate (adts_expected f)) = t2"
    by (simp add: adts_expected_def t2_def)
  have "tw_units (map adts_expected (f # fs)) ?data ticks w = (w2, o1 @ o2)"
    unfolding list.map tw_units.simps Let_def tk [unfolded list.map] t2 r1 r2 prod.case by (rule refl)
  then have eq: "w' = w2" "outs = o1 @ o2" using Cons.prems(3) by simp_all
  have a: "AUDIO_PID < 8192" by (simp add: AUDIO_PID_def)
  obtain p1 where p1: "concat o1 = concat p1" "carries AUDIO_PID True None (ctr w AUDIO_PID) (pes_packet 0xc0 (adts_encode f) (js_round ticks)) p1"
    "continues w o1 w1"
    using tw_pack_emits [OF a Cons.prems(2) r1 [unfolded tw_pes_def if_False]] by auto
  obtain p2 where p2: "concat o2 = concat p2" "\<forall>p\<in>set p2. ts_ok p \<and> ts_pid p = AUDIO_PID \<and> ts_has_payload p"
    "p2 = [] \<or> ts_start (hd p2)" "continues w1 o2 w2"
    "pes_units p2 = map2 (\<lambda>f t. pes_packet 0xc0 (adts_encode f) (js_round t)) fs (audio_times t2 fs)"
    using Cons.IH [OF _ continues_inv [OF p1(3)] r2] Cons.prems(1) by auto
  have ne: "pes_packet 0xc0 (adts_encode f) (js_round ticks) \<noteq> []" by (simp add: pes_packet_def)
  have "pes_units (p1 @ p2) = pes_packet 0xc0 (adts_encode f) (js_round ticks) # pes_units p2"
    by (rule pes_units_carries [OF p1(2) ne p2(3)])
  moreover have "p1 \<noteq> [] \<and> ts_start (hd p1)" using p1(2) ne by (cases p1) (auto simp: carries_def)
  moreover have "continues w (o1 @ o2) w2" by (rule continues_trans [OF p1(3) p2(4)])
  ultimately show ?case
    using p1 p2 by (intro exI [of _ "p1 @ p2"]) (auto simp: eq t2_def carries_def)
qed

lemma tw_units_continues: "tw_inv w \<Longrightarrow> tw_units us data ticks w = (w', outs) \<Longrightarrow> continues w outs w'"
proof (induction us data ticks w arbitrary: w' outs rule: tw_units.induct)
  case (1 data ticks w)
  then show ?case by (simp add: continues_refl)
next
  case (2 u us data ticks w)
  define t2 where "t2 = ticks + real (au_samples u) * 90000 / real (au_sampleRate u)"
  obtain w1 o1 where r1: "tw_pes AUDIO_PID 0xc0 (take (adts_size data) data) (js_round ticks) False w = (w1, o1)" by fastforce
  obtain w2 o2 where r2: "tw_units us (drop (adts_size data) data) t2 w1 = (w2, o2)" by fastforce
  have eq: "w' = w2" "outs = o1 @ o2" using 2(3) unfolding tw_units.simps Let_def t2_def [symmetric] r1 prod.case r2 by simp_all
  have c1: "continues w o1 w1"
    using tw_pack_emits [OF _ 2(2) r1 [unfolded tw_pes_def if_False]] by (auto simp: AUDIO_PID_def)
  have "continues w1 o2 w2"
    by (rule 2(1) [OF refl r1 [symmetric] refl continues_inv [OF c1] r2 [unfolded t2_def]])
  with c1 show ?case by (simp add: eq continues_trans)
qed

lemma initial_clock_packet:
  assumes "tw_inv w"
  shows "ts_ok (initial_clock ticks w) \<and> \<not> ts_has_payload (initial_clock ticks w)"
proof -
  define c where "c = ctr w VIDEO_PID"
  have c: "c < 16" using assms by (simp add: tw_inv_def c_def)
  have "32 OR c = 32 + c" using nat_or_add [of c 4 2] c by simp
  then have "initial_clock ticks w ! 3 = word_of_nat (32 + c)"
    by (simp add: initial_clock_def c_def [symmetric] del: of_nat_add)
  then have "unat (initial_clock ticks w ! 3) = 32 + c" using c by (simp add: unat_byte_of_nat del: of_nat_add)
  moreover have "(32 + c) div 16 = 2" using c by (auto intro!: div_nat_eqI)
  ultimately have "\<not> ts_has_payload (initial_clock ticks w)" by (simp add: ts_has_payload_def)
  then show ?thesis by (simp add: initial_clock_def ts_ok_def)
qed

lemma initial_clock_continues: "tw_inv w \<Longrightarrow> continues w [initial_clock ticks w] w"
  unfolding continues_def
  by (intro conjI exI [of _ "[initial_clock ticks w]"]) (auto simp: initial_clock_packet on_pid_def tw_inv_def)

lemma audio_start_emits:
  assumes "tw_inv w" "audio_start ticks w = (w1, outs)"
  shows "continues w outs w1 \<and> (\<exists>ps. concat outs = concat ps \<and> (\<forall>p\<in>set ps. ts_ok p \<and> (ts_has_payload p \<longrightarrow> ts_pid p \<noteq> AUDIO_PID)))"
proof (cases "tw_started w")
  case True
  with assms show ?thesis by (auto simp: audio_start_def continues_refl intro: exI [of _ "[]"])
next
  case False
  obtain wt ot where t: "tw_tables w = (wt, ot)" by fastforce
  have eq: "w1 = wt\<lparr>tw_started := True\<rparr>" "outs = ot @ [initial_clock (js_round ticks) wt]"
    using assms(2) False t by (simp_all add: audio_start_def)
  obtain p1 p2 where p: "concat ot = concat (p1 @ p2)" "carries 0 True None (ctr w 0) ([0] @ pat_section @ sectionChecksum pat_section) p1"
    "carries PMT_PID True None (ctr w PMT_PID) ([0] @ pmt_section (tw_withAudio w) @ sectionChecksum (pmt_section (tw_withAudio w))) p2"
    "continues w ot wt"
    using tw_tables_emits [OF assms(1) t] by blast
  have it: "tw_inv wt" by (rule continues_inv [OF p(4)])
  have "continues w outs wt" unfolding eq by (rule continues_trans [OF p(4) initial_clock_continues [OF it]])
  then have "continues w outs w1" by (rule continues_same) (simp_all add: eq)
  moreover have "concat outs = concat (p1 @ p2 @ [initial_clock (js_round ticks) wt])" using p(1) by (simp add: eq)
  moreover have "\<forall>q\<in>set (p1 @ p2 @ [initial_clock (js_round ticks) wt]). ts_ok q \<and> (ts_has_payload q \<longrightarrow> ts_pid q \<noteq> AUDIO_PID)"
    using p(2, 3) initial_clock_packet [OF it] by (auto simp: carries_def AUDIO_PID_def PMT_PID_def)
  ultimately show ?thesis by blast
qed

lemma tw_audio_unfold:
  assumes "tw_valid data (Some ms)" "parseAdtsAccessUnits data = Some units" "tw_withAudio w"
    "audio_start (ms * 90) w = (w1, o1)" "tw_units units data (ms * 90) w1 = (w2, o2)"
  shows "tw_audio data (Some ms) w = Some (w2, o1 @ o2)"
  by (simp add: tw_audio_def assms)

lemma tw_step_continues:
  assumes "tw_inv w"
  shows "continues w (snd (tw_step w e)) (fst (tw_step w e))"
proof (cases e)
  case (TeVideo data ms)
  show ?thesis
  proof (cases "tw_valid data ms")
    case True
    then obtain t where ms: "ms = Some t" by (auto simp: tw_valid_def split: option.splits)
    obtain w' outs where "tw_video data ms w = Some (w', outs)" "continues w outs w'"
      using tw_video_emits [OF assms True [unfolded ms]] ms by blast
    then show ?thesis by (simp add: TeVideo)
  next
    case False
    then show ?thesis using assms by (simp add: TeVideo tw_video_def continues_refl)
  qed
next
  case (TeAudio data ms)
  show ?thesis
  proof (cases "tw_audio data ms w")
    case None
    then show ?thesis using assms by (simp add: TeAudio continues_refl)
  next
    case (Some r)
    then obtain t units where v: "tw_valid data ms" "ms = Some t" "parseAdtsAccessUnits data = Some units" "tw_withAudio w"
      by (auto simp: tw_audio_def tw_valid_def split: if_splits option.splits)
    obtain w1 o1 where r1: "audio_start (t * 90) w = (w1, o1)" by fastforce
    obtain w2 o2 where r2: "tw_units units data (t * 90) w1 = (w2, o2)" by fastforce
    have "r = (w2, o1 @ o2)" using Some tw_audio_unfold [OF v(1) [unfolded v(2)] v(3, 4) r1 r2] by (simp add: v(2))
    moreover have c: "continues w o1 w1" using audio_start_emits [OF assms r1] by blast
    moreover have "continues w1 o2 w2" by (rule tw_units_continues [OF continues_inv [OF c] r2])
    ultimately show ?thesis using Some by (simp add: TeAudio continues_trans)
  qed
qed

lemma tw_inv_new: "tw_inv (tw_new a)"
  by (simp add: tw_inv_def tw_new_def counter_of_def)

interpretation tw: effect_machine tw_step tw_inv "\<lambda>_. True" continues
  by unfold_locales (auto intro: continues_refl continues_trans tw_step_continues continues_inv)

section \<open>Properties\<close>

text \<open>Whatever is written, and whichever calls are refused, the writer's output is a sequence of whole
  transport packets in which the payload packets of every PID carry consecutive continuity counters
  modulo 16, starting at zero.\<close>
theorem continuity_counters_consecutive:
  fixes es :: "tw_event list" and a :: bool and pid :: nat
  defines "ps \<equiv> ts_split (concat (run_out tw_step (tw_new a) es))"
  shows "list_all ts_ok ps \<and> concat ps = concat (run_out tw_step (tw_new a) es) \<and>
    map ts_counter (on_pid pid ps) = counting 0 (length (on_pid pid ps))"
proof -
  have "continues (tw_new a) (run_out tw_step (tw_new a) es) (run_state tw_step (tw_new a) es)"
    by (rule tw.run_effect) (simp_all add: tw_inv_new)
  then obtain qs where q: "concat (run_out tw_step (tw_new a) es) = concat qs" "\<forall>p\<in>set qs. ts_ok p"
    "map ts_counter (on_pid pid qs) = counting 0 (length (on_pid pid qs))"
    by (auto simp: continues_def tw_new_def counter_of_def)
  then have "ps = qs" by (simp add: ps_def ts_split_concat)
  with q show ?thesis by (simp add: list_all_iff)
qed

text \<open>C37: A video unit survives the transport: after any calls, a valid unit is accepted, and the packets it
  produces demultiplex to exactly one video PES packet holding the unit behind an access-unit delimiter
  with the viewer's time in 90 kHz ticks (no wrap within a day), the same time as clock reference of its
  first packet, and complete program tables whose sections check.\<close>
theorem clocked_video_round_trip:
  assumes "data \<noteq> []" "length data \<le> TS_MAX_INPUT_BYTES" "0 \<le> ms" "ms < 86400000"
  shows "\<exists>w' outs ps pat pmt. tw_video data (Some ms) (run_state tw_step (tw_new a) es) = Some (w', outs) \<and>
    ps = ts_split (concat outs) \<and> list_all ts_ok ps \<and>
    map pes_parse (pes_units (on_pid VIDEO_PID ps)) = [Some (0xe0, nat (js_round (ms * 90)), AUD @ data)] \<and>
    ts_pcr (hd (on_pid VIDEO_PID ps)) = Some (nat (js_round (ms * 90))) \<and>
    pes_units (on_pid 0 ps) = [0 # pat] \<and> section_crc pat = 0 \<and>
    pes_units (on_pid PMT_PID ps) = [0 # pmt] \<and> section_crc pmt = 0"
proof -
  define w where "w = run_state tw_step (tw_new a) es"
  have i: "tw_inv w" unfolding w_def by (rule tw.run_inv) (simp_all add: tw_inv_new)
  have v: "tw_valid data (Some ms)" using assms by (simp add: tw_valid_def)
  define t where "t = js_round (ms * 90)"
  obtain w' outs p1 p2 p3 c1 c2 c3 where r: "tw_video data (Some ms) w = Some (w', outs)" "concat outs = concat (p1 @ p2 @ p3)"
    "carries 0 True None c1 ([0] @ pat_section @ sectionChecksum pat_section) p1"
    "carries PMT_PID True None c2 ([0] @ pmt_section (tw_withAudio w) @ sectionChecksum (pmt_section (tw_withAudio w))) p2"
    "carries VIDEO_PID True (Some t) c3 (pes_packet 0xe0 (AUD @ data) t) p3"
    using tw_video_emits [OF i v] unfolding t_def by blast
  have ok: "list_all ts_ok (p1 @ p2 @ p3)" using r(3-5) by (auto simp: carries_def list_all_iff)
  then have ps: "ts_split (concat outs) = p1 @ p2 @ p3" unfolding r(2) by (intro ts_split_concat) (simp only: list_all_iff)
  have o: "on_pid q (p1 @ p2 @ p3) = (if q = 0 then p1 else []) @ (if q = PMT_PID then p2 else []) @ (if q = VIDEO_PID then p3 else [])" for q
    using carries_on_pid [OF r(3)] carries_on_pid [OF r(4)] carries_on_pid [OF r(5)] by (simp add: on_pid_def)
  have one: "carries pid True clk c d xs \<Longrightarrow> d \<noteq> [] \<Longrightarrow> pes_units xs = [d]" for pid clk c d xs
    using pes_units_carries [of pid clk c d xs "[]"] by simp
  have ne: "pes_packet 0xe0 (AUD @ data) t \<noteq> []" by (simp add: pes_packet_def)
  have tb: "0 \<le> t" "t < 8589934592" using assms(3, 4) by (simp_all add: t_def js_round_def)
  then have tt: "ts_time t = nat t" by (simp add: ts_time_eq)
  have "map pes_parse (pes_units p3) = [Some (0xe0, nat t, AUD @ data)]"
    using one [OF r(5) ne] by (simp add: pes_packet_parse tt)
  moreover have "ts_pcr (hd p3) = Some (nat t)" using r(5) ne by (simp add: carries_def tt)
  moreover have "pes_units p1 = [0 # (pat_section @ sectionChecksum pat_section)]" using one [OF r(3)] by simp
  moreover have "pes_units p2 = [0 # (pmt_section (tw_withAudio w) @ sectionChecksum (pmt_section (tw_withAudio w)))]"
    using one [OF r(4)] by simp
  moreover have d: "VIDEO_PID \<noteq> 0" "PMT_PID \<noteq> 0" "VIDEO_PID \<noteq> PMT_PID" by (simp_all add: VIDEO_PID_def PMT_PID_def)
  ultimately show ?thesis
    using r(1) ok ps o [of 0] o [of PMT_PID] o [of VIDEO_PID] section_residue unfolding w_def t_def by auto
qed

lemma clocked_video_round_trip_witness:
  "\<exists>w' outs ps pat pmt. tw_video [0, 0, 0, 1, 0x65] (Some 40) (run_state tw_step (tw_new True) [TeVideo [1] (Some 0)]) = Some (w', outs) \<and>
    ps = ts_split (concat outs) \<and> list_all ts_ok ps \<and>
    map pes_parse (pes_units (on_pid VIDEO_PID ps)) = [Some (0xe0, nat (js_round (40 * 90)), AUD @ [0, 0, 0, 1, 0x65])] \<and>
    ts_pcr (hd (on_pid VIDEO_PID ps)) = Some (nat (js_round (40 * 90))) \<and>
    pes_units (on_pid 0 ps) = [0 # pat] \<and> section_crc pat = 0 \<and>
    pes_units (on_pid PMT_PID ps) = [0 # pmt] \<and> section_crc pmt = 0"
  by (rule clocked_video_round_trip) (simp_all add: TS_MAX_INPUT_BYTES_def)

text \<open>Audio survives the transport with its sample clock: after any calls of a writer that admits audio, a batch
  of valid ADTS frames is accepted, and its packets demultiplex to one audio PES packet per frame, in
  order and with the frame's bytes unchanged, each at the batch's time plus the duration of the frames
  before it.\<close>
theorem clocked_audio_round_trip:
  assumes "fs \<noteq> []" "\<forall>f\<in>set fs. adts_frame_ok f" "length (concat (map adts_encode fs)) \<le> TS_MAX_INPUT_BYTES"
    "0 \<le> ms" "ms < 86400000"
  shows "\<exists>w' outs. tw_audio (concat (map adts_encode fs)) (Some ms) (run_state tw_step (tw_new True) es) = Some (w', outs) \<and>
    map pes_parse (pes_units (on_pid AUDIO_PID (ts_split (concat outs)))) =
      map2 (\<lambda>f t. Some (0xc0, ts_time (js_round t), adts_encode f)) fs (audio_times (ms * 90) fs)"
proof -
  define w where "w = run_state tw_step (tw_new True) es"
  define data where "data = concat (map adts_encode fs)"
  have i: "tw_inv w" unfolding w_def by (rule tw.run_inv) (simp_all add: tw_inv_new)
  have "continues (tw_new True) (run_out tw_step (tw_new True) es) w"
    unfolding w_def by (rule tw.run_effect) (simp_all add: tw_inv_new)
  then have a: "tw_withAudio w" by (simp add: continues_def tw_new_def)
  obtain f fs' where "fs = f # fs'" using assms(1) by (cases fs) auto
  then have "data \<noteq> []" by (simp add: data_def adts_encode_def Let_def)
  then have v: "tw_valid data (Some ms)" using assms(3-5) by (simp add: tw_valid_def data_def)
  have u: "parseAdtsAccessUnits data = Some (map adts_expected fs)"
    using assms(1) adts_loop_batch [OF assms(2)] by (simp add: parseAdtsAccessUnits_def data_def)
  obtain w1 o1 where r1: "audio_start (ms * 90) w = (w1, o1)" by fastforce
  obtain w2 o2 where r2: "tw_units (map adts_expected fs) data (ms * 90) w1 = (w2, o2)" by fastforce
  obtain p1 where p1: "continues w o1 w1" "concat o1 = concat p1" "\<forall>p\<in>set p1. ts_ok p \<and> (ts_has_payload p \<longrightarrow> ts_pid p \<noteq> AUDIO_PID)"
    using audio_start_emits [OF i r1] by blast
  obtain p2 where p2: "concat o2 = concat p2" "\<forall>p\<in>set p2. ts_ok p \<and> ts_pid p = AUDIO_PID \<and> ts_has_payload p"
    "pes_units p2 = map2 (\<lambda>f t. pes_packet 0xc0 (adts_encode f) (js_round t)) fs (audio_times (ms * 90) fs)"
    using tw_units_emits [OF assms(2) continues_inv [OF p1(1)] r2 [unfolded data_def]] by blast
  have "concat (o1 @ o2) = concat (p1 @ p2)" using p1(2) p2(1) by simp
  moreover have "ts_split (concat (p1 @ p2)) = p1 @ p2" by (rule ts_split_concat) (use p1(3) p2(2) in auto)
  moreover have "on_pid AUDIO_PID (p1 @ p2) = p2"
    using p1(3) p2(2) by (auto simp: on_pid_def filter_id_conv filter_empty_conv)
  moreover have "map pes_parse (pes_units p2) =
      map2 (\<lambda>f t. Some (0xc0, ts_time (js_round t), adts_encode f)) fs (audio_times (ms * 90) fs)"
  proof -
    have "pes_parse (pes_packet 0xc0 (adts_encode g) t) = Some (0xc0, ts_time t, adts_encode g)" if "g \<in> set fs" for g t
      using assms(2) that by (intro pes_packet_parse) (auto simp: adts_frame_ok_def adts_encode_def Let_def)
    then show ?thesis unfolding p2(3) map_map by (intro map_cong refl) (auto dest: set_zip_leftD)
  qed
  ultimately show ?thesis using tw_audio_unfold [OF v u a r1 r2] unfolding w_def data_def by simp
qed

lemma clocked_audio_round_trip_witness:
  "\<exists>w' outs. tw_audio (concat (map adts_encode [\<lparr> af_profile = 1, af_frequency = 8, af_channels = 1, af_blocks = 0, af_payload = [1, 2] \<rparr>]))
      (Some 20) (run_state tw_step (tw_new True) []) = Some (w', outs) \<and>
    map pes_parse (pes_units (on_pid AUDIO_PID (ts_split (concat outs)))) =
      map2 (\<lambda>f t. Some (0xc0, ts_time (js_round t), adts_encode f))
        [\<lparr> af_profile = 1, af_frequency = 8, af_channels = 1, af_blocks = 0, af_payload = [1, 2] \<rparr>]
        (audio_times (20 * 90) [\<lparr> af_profile = 1, af_frequency = 8, af_channels = 1, af_blocks = 0, af_payload = [1, 2] \<rparr>])"
  by (rule clocked_audio_round_trip) (simp_all add: adts_frame_ok_def TS_MAX_INPUT_BYTES_def adts_encode_def)

end
