(* ===== verification/Frame_Pacer.thy ===== *)
theory Frame_Pacer
  imports Machine Ppcs_Audio "HOL-Library.Sublist" "HOL-Library.Multiset"
begin

text \<open>
  \<open>LiveFramePacer\<close> of \<open>stream/live-frame-pacer.ts\<close>: the jitter queue of one viewer over qualified video
  clocks (\<open>stream/live-frame-clock.ts\<close>) and the AAC sample clock. A video unit arrives with its qualified
  clock, if it has one: the unsigned 32-bit millisecond word, the epoch and whether the encoder format
  changed. Each call reads the monotonic clock once; its reading is an argument of the event. Times are
  reals. Calls out are outputs; a consumer may close the pacer from a delivery (\<open>stop\<close>).
\<close>

definition BUFFER_MILLISECONDS :: real where "BUFFER_MILLISECONDS = 6000"
definition PACER_MAX_BYTES :: int where "PACER_MAX_BYTES = 4 * 1024 * 1024"
definition PACER_MAX_PACKETS :: nat where "PACER_MAX_PACKETS = 1024"

datatype media_kind = MkVideo | MkAudio

record packet =
  pk_at :: real
  pk_kind :: media_kind
  pk_data :: bytes

record frame_clock =
  fc_timestamp :: nat
  fc_epoch :: nat
  fc_formatChanged :: bool

datatype pacing_failure = PfClockMissing | PfInputLimit | PfEpochChanged | PfDiscontinuity | PfAudioInvalid

datatype pc_out = PoDeliver media_kind bytes real | PoFail pacing_failure | PoAdmission bool

record pacer =
  pc_queue :: "packet list"
  pc_bootstrap :: "bytes list"
  pc_bytes :: int
  pc_maximumBytes :: int
  pc_epoch :: "nat option"
  pc_previousTimestamp :: nat
  pc_videoOrigin :: real
  pc_previousVideoStep :: "nat option"
  pc_videoElapsed :: nat
  pc_audioOrigin :: "real option"
  pc_audioElapsed :: real
  pc_timer :: "real option"
  pc_admissionTimer :: bool
  pc_closed :: bool
  pc_late :: nat
  pc_videoPackets :: nat
  pc_audioPackets :: nat
  pc_clockRebases :: nat
  pc_audioSeen :: bool
  pc_audioDisabled :: bool
  pc_startupWaiting :: bool
  pc_audioTimer :: bool

definition pc_new :: "real \<Rightarrow> pacer" where
  "pc_new audioWait = \<lparr> pc_queue = [], pc_bootstrap = [], pc_bytes = 0, pc_maximumBytes = 0, pc_epoch = None,
     pc_previousTimestamp = 0, pc_videoOrigin = 0, pc_previousVideoStep = None, pc_videoElapsed = 0,
     pc_audioOrigin = None, pc_audioElapsed = 0, pc_timer = None, pc_admissionTimer = True, pc_closed = False,
     pc_late = 0, pc_videoPackets = 0, pc_audioPackets = 0, pc_clockRebases = 0, pc_audioSeen = False,
     pc_audioDisabled = False, pc_startupWaiting = (audioWait > 0), pc_audioTimer = False \<rparr>"

section \<open>Calls\<close>

definition pc_close :: "pacer \<Rightarrow> pacer" where
  "pc_close p = p\<lparr>pc_closed := True, pc_timer := None, pc_admissionTimer := False, pc_audioTimer := False,
     pc_queue := [], pc_bootstrap := [], pc_bytes := 0\<rparr>"

definition pc_reject :: "pacing_failure \<Rightarrow> pacer \<Rightarrow> pacer \<times> pc_out list" where
  "pc_reject reason p = (if pc_closed p then (p, []) else (pc_close p, [PoFail reason]))"

definition pc_full :: "pacer \<Rightarrow> bytes \<Rightarrow> bool" where
  "pc_full p data \<longleftrightarrow> pc_bytes p + int (length data) > PACER_MAX_BYTES \<or>
     length (pc_queue p) + length (pc_bootstrap p) \<ge> PACER_MAX_PACKETS"

text \<open>\<open>#checkLimit\<close>, with its result.\<close>

definition pc_checkLimit :: "pacer \<Rightarrow> (pacer \<times> pc_out list) \<times> bool" where
  "pc_checkLimit p =
     (let p = p\<lparr>pc_maximumBytes := max (pc_maximumBytes p) (pc_bytes p)\<rparr> in
      if pc_bytes p > PACER_MAX_BYTES \<or> length (pc_queue p) + length (pc_bootstrap p) > PACER_MAX_PACKETS
      then (pc_reject PfInputLimit p, False) else ((p, []), True))"

text \<open>\<open>#arm\<close>: the time at which the timer is due.\<close>

definition pc_arm :: "real \<Rightarrow> pacer \<Rightarrow> pacer" where
  "pc_arm now p = p\<lparr>pc_timer :=
     (if pc_closed p \<or> pc_startupWaiting p \<or> pc_queue p = [] \<or> pc_epoch p = None then None
      else Some (now + max 0 (pk_at (hd (pc_queue p)) - now)))\<rparr>"

fun pq_insert :: "packet \<Rightarrow> packet list \<Rightarrow> packet list" where
  "pq_insert x [] = [x]"
| "pq_insert x (y # ys) = (if pk_at y > pk_at x then x # y # ys else y # pq_insert x ys)"

definition pc_enqueue :: "real \<Rightarrow> media_kind \<Rightarrow> bytes \<Rightarrow> real \<Rightarrow> pacer \<Rightarrow> pacer \<times> pc_out list" where
  "pc_enqueue now kind data due p =
     (if pc_closed p then (p, [])
      else if pc_full p data then pc_reject PfInputLimit p
      else
        (let p = p\<lparr>pc_queue := pq_insert \<lparr> pk_at = due, pk_kind = kind, pk_data = data \<rparr> (pc_queue p),
                   pc_bytes := pc_bytes p + int (length data)\<rparr> in
         case pc_checkLimit p of
           (r, False) \<Rightarrow> r
         | ((p, outs), True) \<Rightarrow>
             (let p = (if \<not> pc_startupWaiting p \<and> due < now then p\<lparr>pc_late := pc_late p + 1\<rparr> else p) in
              (pc_arm now p, outs))))"

definition shift_packet :: "real \<Rightarrow> pacer \<Rightarrow> packet \<Rightarrow> packet" where
  "shift_packet origin p x =
     x\<lparr>pk_at := pk_at x + (origin - (if pk_kind x = MkVideo then pc_videoOrigin p else the (pc_audioOrigin p)))\<rparr>"

definition pc_releaseStartup :: "real \<Rightarrow> bool \<Rightarrow> pacer \<Rightarrow> pacer \<times> pc_out list" where
  "pc_releaseStartup now withAudio p =
     (if pc_closed p \<or> \<not> pc_startupWaiting p then (p, [])
      else
        (let p = p\<lparr>pc_startupWaiting := False, pc_audioDisabled := \<not> withAudio, pc_audioTimer := False,
                   pc_queue := sort_key pk_at (map (shift_packet now p) (pc_queue p)),
                   pc_videoOrigin := now, pc_audioOrigin := Some now\<rparr> in
         (pc_arm now p, [PoAdmission withAudio])))"

definition pc_admitStartup :: "real \<Rightarrow> pacer \<Rightarrow> pacer \<times> pc_out list" where
  "pc_admitStartup now p =
     (if pc_closed p \<or> \<not> pc_startupWaiting p \<or> pc_epoch p = None then (p, [])
      else if pc_audioSeen p then pc_releaseStartup now True p
      else (p\<lparr>pc_audioTimer := True\<rparr>, []))"

fun pc_enqueue_bootstrap :: "real \<Rightarrow> bytes list \<Rightarrow> pacer \<Rightarrow> pacer \<times> pc_out list" where
  "pc_enqueue_bootstrap now [] p = (p, [])"
| "pc_enqueue_bootstrap now (b # bs) p =
     (let (p1, o1) = pc_enqueue now MkVideo b (pc_videoOrigin p + BUFFER_MILLISECONDS) (p\<lparr>pc_bytes := pc_bytes p - int (length b)\<rparr>);
          (p2, o2) = pc_enqueue_bootstrap now bs p1 in
      (p2, o1 @ o2))"

definition pc_open_epoch :: "real \<Rightarrow> frame_clock \<Rightarrow> pacer \<Rightarrow> pacer \<times> pc_out list" where
  "pc_open_epoch now clock p =
     pc_enqueue_bootstrap now (pc_bootstrap p)
       (p\<lparr>pc_epoch := Some (fc_epoch clock), pc_previousTimestamp := fc_timestamp clock, pc_videoOrigin := now,
          pc_admissionTimer := False, pc_bootstrap := []\<rparr>)"

text \<open>The step of the source clock: an error, or the interval to schedule and whether it was rebased.\<close>

definition clock_step :: "frame_clock \<Rightarrow> pacer \<Rightarrow> pacing_failure + nat \<times> bool" where
  "clock_step clock p =
     (if Some (fc_epoch clock) \<noteq> pc_epoch p then Inl PfEpochChanged
      else
        (let step = nat ((int (fc_timestamp clock) - int (pc_previousTimestamp p)) mod 4294967296) in
         if step > 5000
         then (if step > 2147483647 \<or> \<not> fc_formatChanged clock then Inl PfDiscontinuity
               else (case pc_previousVideoStep p of None \<Rightarrow> Inl PfDiscontinuity | Some previous \<Rightarrow> Inr (previous, True)))
         else Inr (step, False)))"

definition pc_advance :: "frame_clock \<Rightarrow> nat \<Rightarrow> bool \<Rightarrow> pacer \<Rightarrow> pacer" where
  "pc_advance clock step rebased p =
     p\<lparr>pc_clockRebases := pc_clockRebases p + (if rebased then 1 else 0),
       pc_previousVideoStep := (if step > 0 \<and> step \<le> 1000 then Some step else pc_previousVideoStep p),
       pc_videoElapsed := pc_videoElapsed p + step, pc_previousTimestamp := fc_timestamp clock\<rparr>"

definition pc_schedule_video :: "real \<Rightarrow> bytes \<Rightarrow> pacer \<Rightarrow> pacer \<times> pc_out list" where
  "pc_schedule_video now data p =
     seq_do (pc_enqueue now MkVideo data (pc_videoOrigin p + BUFFER_MILLISECONDS + real (pc_videoElapsed p)) p)
       (pc_admitStartup now)"

definition pc_acceptVideo :: "real \<Rightarrow> frame_clock option \<Rightarrow> bytes \<Rightarrow> pacer \<Rightarrow> pacer \<times> pc_out list" where
  "pc_acceptVideo now clock data p =
     (if pc_closed p \<or> data = [] then (p, [])
      else (case clock of
          None \<Rightarrow>
            if pc_epoch p \<noteq> None then pc_reject PfClockMissing p
            else if pc_full p data then pc_reject PfInputLimit p
            else fst (pc_checkLimit (p\<lparr>pc_bootstrap := pc_bootstrap p @ [data], pc_bytes := pc_bytes p + int (length data)\<rparr>))
        | Some c \<Rightarrow>
            if pc_epoch p = None then seq_do (pc_open_epoch now c p) (pc_schedule_video now data)
            else (case clock_step c p of
                Inl reason \<Rightarrow> pc_reject reason p
              | Inr (step, rebased) \<Rightarrow> pc_schedule_video now data (pc_advance c step rebased p))))"

definition batch_milliseconds :: "adts_unit list \<Rightarrow> real" where
  "batch_milliseconds us = sum_list (map (\<lambda>u. real (au_samples u) / real (au_sampleRate u) * 1000) us)"

definition pc_acceptAudio :: "real \<Rightarrow> bytes \<Rightarrow> pacer \<Rightarrow> pacer \<times> pc_out list" where
  "pc_acceptAudio now data p =
     (if pc_closed p \<or> pc_audioDisabled p \<or> data = [] then (p, [])
      else (case parseAdtsAccessUnits data of
          None \<Rightarrow> pc_reject PfAudioInvalid p
        | Some units \<Rightarrow>
            (let origin = (case pc_audioOrigin p of None \<Rightarrow> now | Some t \<Rightarrow> t);
                 due = origin + BUFFER_MILLISECONDS + pc_audioElapsed p in
             seq_do
               (pc_enqueue now MkAudio data due
                 (p\<lparr>pc_audioOrigin := Some origin, pc_audioElapsed := pc_audioElapsed p + batch_milliseconds units\<rparr>))
               (\<lambda>p. pc_admitStartup now (p\<lparr>pc_audioSeen := True\<rparr>)))))"

definition pc_emit :: "packet \<Rightarrow> pacer \<Rightarrow> pacer \<times> pc_out" where
  "pc_emit x p = (case pk_kind x of
     MkVideo \<Rightarrow> (p\<lparr>pc_videoPackets := pc_videoPackets p + 1\<rparr>, PoDeliver MkVideo (pk_data x) (pk_at x - pc_videoOrigin p))
   | MkAudio \<Rightarrow> (p\<lparr>pc_audioPackets := pc_audioPackets p + 1\<rparr>, PoDeliver MkAudio (pk_data x) (pk_at x - the (pc_audioOrigin p))))"

function pc_drain :: "(pc_out \<Rightarrow> bool) \<Rightarrow> real \<Rightarrow> pacer \<Rightarrow> pacer \<times> pc_out list" where
  "pc_drain stop now p =
     (case pc_queue p of
        [] \<Rightarrow> (p, [])
      | x # xs \<Rightarrow>
          if pc_closed p \<or> pk_at x > now then (p, [])
          else
            (let (p1, w) = pc_emit x (p\<lparr>pc_queue := xs, pc_bytes := pc_bytes p - int (length (pk_data x))\<rparr>);
                 (p2, outs) = pc_drain stop now (if stop w then pc_close p1 else p1) in
             (p2, w # outs)))"
  by pat_completeness auto
termination
  by (relation "measure (\<lambda>(_, _, p). length (pc_queue p))") (auto simp: pc_emit_def pc_close_def split: media_kind.splits)

declare pc_drain.simps [simp del]

definition pc_fire :: "(pc_out \<Rightarrow> bool) \<Rightarrow> real \<Rightarrow> pacer \<Rightarrow> pacer \<times> pc_out list" where
  "pc_fire stop now p =
     (if pc_timer p = None then (p, [])
      else (let (p1, outs) = pc_drain stop now (p\<lparr>pc_timer := None\<rparr>) in (pc_arm now p1, outs)))"

datatype pc_event =
  PvVideo real "frame_clock option" bytes | PvAudio real bytes | PvTimer real | PvAdmissionTimer | PvAudioTimer real | PvClose

fun pc_step :: "(pc_out \<Rightarrow> bool) \<Rightarrow> pacer \<Rightarrow> pc_event \<Rightarrow> pacer \<times> pc_out list" where
  "pc_step stop p (PvVideo now clock data) = pc_acceptVideo now clock data p"
| "pc_step stop p (PvAudio now data) = pc_acceptAudio now data p"
| "pc_step stop p (PvTimer now) = pc_fire stop now p"
| "pc_step stop p PvAdmissionTimer =
     (if pc_admissionTimer p \<and> pc_epoch p = None then pc_reject PfClockMissing p else (p, []))"
| "pc_step stop p (PvAudioTimer now) = (if pc_audioTimer p then pc_releaseStartup now False p else (p, []))"
| "pc_step stop p PvClose = (pc_close p, [])"

section \<open>What is held and what is delivered\<close>

definition datas :: "media_kind \<Rightarrow> packet list \<Rightarrow> bytes list" where
  "datas k q = map pk_data (filter (\<lambda>x. pk_kind x = k) q)"

definition pending :: "media_kind \<Rightarrow> pacer \<Rightarrow> bytes list" where
  "pending k p = datas k (pc_queue p) @ (if k = MkVideo then pc_bootstrap p else [])"

fun delivery :: "media_kind \<Rightarrow> pc_out \<Rightarrow> bytes list" where
  "delivery k (PoDeliver k' d t) = (if k' = k then [d] else [])"
| "delivery k _ = []"

definition delivered :: "media_kind \<Rightarrow> pc_out list \<Rightarrow> bytes list" where
  "delivered k outs = concat (map (delivery k) outs)"

lemma delivered_simps [simp]:
  "delivered k [] = []" "delivered k (w # ws) = delivery k w @ delivered k ws" "delivered k (xs @ ys) = delivered k xs @ delivered k ys"
  by (simp_all add: delivered_def)

definition held_bytes :: "pacer \<Rightarrow> int" where
  "held_bytes p = int (sum_list (map (length \<circ> pk_data) (pc_queue p)) + sum_list (map length (pc_bootstrap p)))"

definition room_ok :: "pacer \<Rightarrow> bool" where
  "room_ok p \<longleftrightarrow> pc_bytes p = held_bytes p \<and> pc_bytes p \<le> PACER_MAX_BYTES \<and>
     length (pc_queue p) + length (pc_bootstrap p) \<le> PACER_MAX_PACKETS"

definition due_ok :: "pacer \<Rightarrow> packet \<Rightarrow> bool" where
  "due_ok p x \<longleftrightarrow> (case pk_kind x of
     MkVideo \<Rightarrow> pc_epoch p \<noteq> None \<and> pk_at x \<le> pc_videoOrigin p + BUFFER_MILLISECONDS + real (pc_videoElapsed p)
   | MkAudio \<Rightarrow> pc_audioSeen p \<and> \<not> pc_audioDisabled p \<and> pc_audioOrigin p \<noteq> None \<and>
       pk_at x \<le> the (pc_audioOrigin p) + BUFFER_MILLISECONDS + pc_audioElapsed p)"

definition queue_ok :: "pacer \<Rightarrow> bool" where
  "queue_ok p \<longleftrightarrow> sorted (map pk_at (pc_queue p)) \<and> (\<forall>x\<in>set (pc_queue p). due_ok p x) \<and>
     (if pc_epoch p = None then pc_videoElapsed p = 0 else pc_bootstrap p = []) \<and> (pc_audioDisabled p \<longrightarrow> \<not> pc_startupWaiting p) \<and>
     (pc_audioTimer p \<longrightarrow> pc_epoch p \<noteq> None \<and> pc_startupWaiting p) \<and> \<not> pc_closed p"

definition armed :: "pacer \<Rightarrow> bool" where
  "armed p \<longleftrightarrow> (\<not> pc_startupWaiting p \<and> pc_queue p \<noteq> [] \<and> pc_epoch p \<noteq> None \<longrightarrow> pc_timer p \<noteq> None)"

text \<open>\<open>pc_core\<close> holds between the parts of a call, \<open>pc_open\<close> after it: audio seen with a clock has been admitted.\<close>

definition pc_core :: "pacer \<Rightarrow> bool" where
  "pc_core p \<longleftrightarrow> queue_ok p \<and> room_ok p"

definition pc_open :: "pacer \<Rightarrow> bool" where
  "pc_open p \<longleftrightarrow> pc_core p \<and> armed p \<and> \<not> (pc_startupWaiting p \<and> pc_audioSeen p \<and> pc_epoch p \<noteq> None)"

definition shut :: "pacer \<Rightarrow> bool" where
  "shut p \<longleftrightarrow> pc_closed p \<and> pc_queue p = [] \<and> pc_bootstrap p = [] \<and> pc_bytes p = 0 \<and> pc_timer p = None \<and>
     \<not> pc_admissionTimer p \<and> \<not> pc_audioTimer p"

definition pc_inv :: "pacer \<Rightarrow> bool" where
  "pc_inv p \<longleftrightarrow> pc_open p \<or> shut p"

text \<open>An outcome: the pacer closed after a prefix, or everything not delivered is still held, in order.\<close>

definition outcome :: "(pacer \<Rightarrow> bool) \<Rightarrow> (media_kind \<Rightarrow> bytes list) \<Rightarrow> (media_kind \<Rightarrow> bytes list) \<Rightarrow> pacer \<times> pc_out list \<Rightarrow> bool" where
  "outcome good before new r \<longleftrightarrow>
     shut (fst r) \<and> (\<forall>k. prefix (delivered k (snd r)) (before k @ new k)) \<or>
     good (fst r) \<and> (\<forall>k. delivered k (snd r) @ pending k (fst r) = before k @ new k)"

lemma outcome_weaken: "outcome good b n r \<Longrightarrow> (\<And>p. good p \<Longrightarrow> good' p) \<Longrightarrow> outcome good' b n r"
  by (auto simp: outcome_def)

lemma outcome_then:
  assumes "outcome good b n r" "\<And>p. good p \<Longrightarrow> outcome good' (\<lambda>k. pending k p) n' (g p)"
    "\<And>p. shut p \<Longrightarrow> shut (fst (g p)) \<and> (\<forall>k. delivered k (snd (g p)) = [])"
  shows "outcome good' b (\<lambda>k. n k @ n' k) (seq_do r g)"
proof -
  obtain p1 o1 where r: "r = (p1, o1)" by fastforce
  obtain p2 o2 where g: "g p1 = (p2, o2)" by fastforce
  have t: "seq_do r g = (p2, o1 @ o2)" by (simp add: seq_do_def r g)
  consider (shut) "shut p1" "\<forall>k. prefix (delivered k o1) (b k @ n k)" | (good) "good p1" "\<forall>k. delivered k o1 @ pending k p1 = b k @ n k"
    using assms(1) by (auto simp: outcome_def r)
  then show ?thesis
  proof cases
    case shut
    have "shut p2 \<and> (\<forall>k. delivered k o2 = [])" using assms(3) [OF shut(1)] by (simp add: g)
    then show ?thesis using shut(2) unfolding t outcome_def by (metis append_assoc append_Nil2 delivered_simps(3) fst_conv prefix_prefix snd_conv)
  next
    case good
    have g2: "outcome good' (\<lambda>k. pending k p1) n' (p2, o2)" using assms(2) [OF good(1)] by (simp add: g)
    have e: "b k @ n k @ n' k = delivered k o1 @ pending k p1 @ n' k" for k
      using good(2) by (metis append_assoc)
    show ?thesis using g2 unfolding t outcome_def by (auto simp: e)
  qed
qed

section \<open>The queue\<close>

lemma set_pq_insert [simp]: "set (pq_insert x q) = insert x (set q)"
  by (induction q) auto

lemma length_pq_insert [simp]: "length (pq_insert x q) = Suc (length q)"
  by (induction q) auto

lemma pq_insert_not_Nil [simp]: "pq_insert x q \<noteq> []"
  by (cases q) auto

lemma sorted_pq_insert: "sorted (map pk_at q) \<Longrightarrow> sorted (map pk_at (pq_insert x q))"
  by (induction q) (auto intro: order_trans)

lemma held_pq_insert: "sum_list (map (length \<circ> pk_data) (pq_insert x q)) = length (pk_data x) + sum_list (map (length \<circ> pk_data) q)"
  by (induction q) auto

lemma datas_pq_insert:
  assumes "sorted (map pk_at q)" "\<forall>y\<in>set q. pk_kind y = pk_kind x \<longrightarrow> pk_at y \<le> pk_at x"
  shows "datas k (pq_insert x q) = datas k q @ (if k = pk_kind x then [pk_data x] else [])"
  using assms
proof (induction q)
  case Nil
  then show ?case by (simp add: datas_def)
next
  case (Cons y ys)
  show ?case
  proof (cases "pk_at y > pk_at x")
    case True
    have "pk_kind z \<noteq> pk_kind x" if "z \<in> set (y # ys)" for z
    proof -
      have "pk_at y \<le> pk_at z" using Cons.prems(1) that by auto
      then show ?thesis using True Cons.prems(2) that by force
    qed
    then have "filter (\<lambda>z. pk_kind z = pk_kind x) (y # ys) = []" by (simp add: filter_empty_conv)
    then show ?thesis using True by (auto simp: datas_def)
  next
    case False
    have "datas k (pq_insert x ys) = datas k ys @ (if k = pk_kind x then [pk_data x] else [])"
      using Cons.prems by (intro Cons.IH) auto
    then show ?thesis using False by (cases "k = pk_kind x") (auto simp: datas_def)
  qed
qed

text \<open>Enqueueing either overflows and closes, or inserts and arms.\<close>

lemma pc_close_shut [simp]: "shut (pc_close p)"
  by (simp add: shut_def pc_close_def)

lemma reject_outcome: "pc_core p \<Longrightarrow> outcome good b n (pc_reject reason p)"
  by (simp add: outcome_def pc_reject_def pc_core_def queue_ok_def)

lemma pc_enqueue_eq:
  assumes "\<not> pc_closed p" "\<not> pc_full p data"
  shows "\<exists>m l. pc_enqueue now kind data due p =
    (pc_arm now (p\<lparr>pc_queue := pq_insert \<lparr> pk_at = due, pk_kind = kind, pk_data = data \<rparr> (pc_queue p),
       pc_bytes := pc_bytes p + int (length data), pc_maximumBytes := m, pc_late := l\<rparr>), [])"
proof -
  define p1 where "p1 = p\<lparr>pc_queue := pq_insert \<lparr> pk_at = due, pk_kind = kind, pk_data = data \<rparr> (pc_queue p),
    pc_bytes := pc_bytes p + int (length data)\<rparr>"
  define m where "m = max (pc_maximumBytes p1) (pc_bytes p1)"
  have c: "pc_checkLimit p1 = ((p1\<lparr>pc_maximumBytes := m\<rparr>, []), True)"
    using assms(2) by (simp add: pc_checkLimit_def m_def Let_def p1_def pc_full_def)
  define p2 where "p2 = p1\<lparr>pc_maximumBytes := m\<rparr>"
  define l where "l = (if \<not> pc_startupWaiting p2 \<and> due < now then pc_late p2 + 1 else pc_late p2)"
  have "(if \<not> pc_startupWaiting p2 \<and> due < now then p2\<lparr>pc_late := pc_late p2 + 1\<rparr> else p2) = p2\<lparr>pc_late := l\<rparr>"
    by (simp add: l_def)
  then have "pc_enqueue now kind data due p = (pc_arm now (p2\<lparr>pc_late := l\<rparr>), [])"
    using assms unfolding pc_enqueue_def Let_def p1_def [symmetric] c p2_def [symmetric] by simp
  then show ?thesis unfolding p2_def p1_def by (intro exI [of _ m] exI [of _ l]) simp
qed

lemma pc_core_arm: "pc_core (pc_arm now p) \<longleftrightarrow> pc_core p"
  by (simp add: pc_core_def queue_ok_def room_ok_def due_ok_def held_bytes_def pc_arm_def cong: media_kind.case_cong)

lemma armed_arm: "\<not> pc_closed p \<Longrightarrow> armed (pc_arm now p)"
  by (simp add: armed_def pc_arm_def)

lemma pending_arm [simp]: "pending k (pc_arm now p) = pending k p"
  by (simp add: pending_def pc_arm_def)

definition audio_ready :: "pacer \<Rightarrow> bool" where
  "audio_ready p \<longleftrightarrow> pc_core p \<and> armed p"

lemma enqueue_outcome:
  assumes "pc_core p" "\<forall>y\<in>set (pc_queue p). pk_kind y = kind \<longrightarrow> pk_at y \<le> due"
    "due_ok p \<lparr> pk_at = due, pk_kind = kind, pk_data = data \<rparr>" "kind = MkVideo \<longrightarrow> pc_bootstrap p = []"
  shows "outcome audio_ready (\<lambda>k. pending k p) (\<lambda>k. if k = kind then [data] else []) (pc_enqueue now kind data due p)"
proof (cases "pc_full p data")
  case True
  then have "pc_enqueue now kind data due p = pc_reject PfInputLimit p"
    using assms(1) by (simp add: pc_enqueue_def pc_core_def queue_ok_def)
  then show ?thesis using reject_outcome [OF assms(1)] by simp
next
  case False
  define x where "x = \<lparr> pk_at = due, pk_kind = kind, pk_data = data \<rparr>"
  have nc: "\<not> pc_closed p" using assms(1) by (simp add: pc_core_def queue_ok_def)
  obtain m l where e: "pc_enqueue now kind data due p = (pc_arm now (p\<lparr>pc_queue := pq_insert x (pc_queue p),
      pc_bytes := pc_bytes p + int (length data), pc_maximumBytes := m, pc_late := l\<rparr>), [])" (is "_ = (pc_arm now ?p, [])")
    using pc_enqueue_eq [OF nc False] unfolding x_def by blast
  have d: "due_ok ?p y \<longleftrightarrow> due_ok p y" for y by (simp add: due_ok_def cong: media_kind.case_cong)
  have q: "queue_ok p" "room_ok p" using assms(1) by (simp_all add: pc_core_def)
  have "sorted (map pk_at (pq_insert x (pc_queue p)))" using q(1) by (intro sorted_pq_insert) (simp add: queue_ok_def)
  then have "queue_ok ?p" using q(1) assms(3) by (simp add: queue_ok_def d x_def [symmetric])
  moreover have "room_ok ?p"
    using q(2) False by (simp add: room_ok_def held_bytes_def held_pq_insert pc_full_def) (simp add: x_def)
  ultimately have "pc_core ?p" by (simp add: pc_core_def)
  then have "audio_ready (pc_arm now ?p)" using nc by (simp add: audio_ready_def pc_core_arm armed_arm)
  moreover have "datas k (pq_insert x (pc_queue p)) = datas k (pc_queue p) @ (if k = kind then [data] else [])" for k
  proof -
    have "sorted (map pk_at (pc_queue p))" using q(1) by (simp add: queue_ok_def)
    moreover have "\<forall>y\<in>set (pc_queue p). pk_kind y = pk_kind x \<longrightarrow> pk_at y \<le> pk_at x" using assms(2) by (simp add: x_def)
    ultimately have "datas k (pq_insert x (pc_queue p)) = datas k (pc_queue p) @ (if k = pk_kind x then [pk_data x] else [])"
      by (rule datas_pq_insert)
    then show ?thesis by (simp add: x_def)
  qed
  then have "pending k ?p = pending k p @ (if k = kind then [data] else [])" for k
    using assms(4) by (auto simp: pending_def)
  ultimately show ?thesis by (simp add: outcome_def e)
qed

section \<open>Admission\<close>

lemma datas_shift:
  assumes "sorted (map pk_at q)"
  shows "datas k (sort_key pk_at (map (shift_packet now p) q)) = datas k q"
proof -
  define d where "d = now - (if k = MkVideo then pc_videoOrigin p else the (pc_audioOrigin p))"
  define qk where "qk = filter (\<lambda>x. pk_kind x = k) q"
  have f: "filter (\<lambda>x. pk_kind x = k) (map (shift_packet now p) q) = map (shift_packet now p) qk"
    by (simp add: filter_map o_def shift_packet_def qk_def)
  have "sorted (map pk_at qk)" unfolding qk_def using assms by (rule sorted_filter)
  moreover have "map pk_at (map (shift_packet now p) qk) = map (\<lambda>t. t + d) (map pk_at qk)"
    by (auto simp: shift_packet_def qk_def d_def)
  moreover have "mono (\<lambda>t. t + d :: real)" by (simp add: mono_def)
  ultimately have "sorted (map pk_at (map (shift_packet now p) qk))" by (simp add: sorted_wrt_map monoD sorted_wrt_mono_rel)
  then have "sort_key pk_at (map (shift_packet now p) qk) = map (shift_packet now p) qk" by (rule sort_key_id_if_sorted)
  then show ?thesis unfolding datas_def filter_sort f by (simp add: qk_def shift_packet_def o_def)
qed

lemma release_outcome:
  assumes "audio_ready p" "pc_startupWaiting p" "pc_epoch p \<noteq> None" "withAudio \<or> \<not> pc_audioSeen p"
  shows "outcome pc_open (\<lambda>k. pending k p) (\<lambda>k. []) (pc_releaseStartup now withAudio p)"
proof -
  define q where "q = sort_key pk_at (map (shift_packet now p) (pc_queue p))"
  define p1 where "p1 = p\<lparr>pc_startupWaiting := False, pc_audioDisabled := \<not> withAudio, pc_audioTimer := False,
    pc_queue := q, pc_videoOrigin := now, pc_audioOrigin := Some now\<rparr>"
  have c: "queue_ok p" "room_ok p" using assms(1) by (simp_all add: audio_ready_def pc_core_def)
  then have nc: "\<not> pc_closed p" by (simp add: queue_ok_def)
  have r: "pc_releaseStartup now withAudio p = (pc_arm now p1, [PoAdmission withAudio])"
    using nc assms(2) by (simp add: pc_releaseStartup_def p1_def q_def Let_def)
  have st: "set q = shift_packet now p ` set (pc_queue p)" by (simp add: q_def)
  have "due_ok p1 (shift_packet now p x)" if x: "x \<in> set (pc_queue p)" for x
  proof -
    have dx: "due_ok p x" using c(1) x by (simp add: queue_ok_def)
    show ?thesis
    proof (cases "pk_kind x")
      case MkVideo
      then show ?thesis using dx assms(3) by (simp add: due_ok_def shift_packet_def p1_def)
    next
      case MkAudio
      then show ?thesis using dx assms(4) by (auto simp: due_ok_def shift_packet_def p1_def)
    qed
  qed
  moreover have "sorted (map pk_at q)" by (simp add: q_def)
  ultimately have "queue_ok p1" using c(1) assms(2, 3) by (auto simp: queue_ok_def p1_def st)
  moreover have "room_ok p1"
  proof -
    have "sum_list (map (length \<circ> pk_data) q) = sum_mset (image_mset (length \<circ> pk_data) (mset q))"
      by (simp add: sum_mset_sum_list [symmetric])
    also have "\<dots> = sum_list (map (length \<circ> pk_data) (pc_queue p))"
      by (simp add: q_def sum_mset_sum_list [symmetric] image_mset.compositionality o_def shift_packet_def)
    finally show ?thesis using c(2) by (simp add: room_ok_def held_bytes_def p1_def q_def)
  qed
  ultimately have "pc_core p1" by (simp add: pc_core_def)
  then have "pc_open (pc_arm now p1)"
    using nc by (simp add: pc_open_def pc_core_arm armed_arm p1_def) (simp add: pc_arm_def)
  moreover have "pending k p1 = pending k p" for k
    using datas_shift [of "pc_queue p" k now p] c(1) by (simp add: pending_def p1_def q_def queue_ok_def)
  ultimately show ?thesis by (simp add: outcome_def r)
qed

lemma admit_outcome:
  assumes "audio_ready p"
  shows "outcome pc_open (\<lambda>k. pending k p) (\<lambda>k. []) (pc_admitStartup now p)"
proof -
  have nc: "\<not> pc_closed p" using assms by (simp add: audio_ready_def pc_core_def queue_ok_def)
  consider (none) "\<not> pc_startupWaiting p \<or> pc_epoch p = None"
    | (release) "pc_startupWaiting p" "pc_epoch p \<noteq> None" "pc_audioSeen p"
    | (wait) "pc_startupWaiting p" "pc_epoch p \<noteq> None" "\<not> pc_audioSeen p" by blast
  then show ?thesis
  proof cases
    case none
    then show ?thesis using assms by (auto simp: pc_admitStartup_def outcome_def pc_open_def audio_ready_def)
  next
    case release
    then show ?thesis using release_outcome [OF assms release(1, 2), of True now] nc by (auto simp: pc_admitStartup_def)
  next
    case wait
    have "pc_open (p\<lparr>pc_audioTimer := True\<rparr>)"
      using assms wait by (auto simp: pc_open_def audio_ready_def pc_core_def queue_ok_def room_ok_def held_bytes_def armed_def due_ok_def
          split: media_kind.splits)
    then show ?thesis using wait nc by (auto simp: pc_admitStartup_def outcome_def pending_def)
  qed
qed

lemma shut_enqueue: "shut p \<Longrightarrow> pc_enqueue now kind data due p = (p, [])"
  by (simp add: shut_def pc_enqueue_def)

lemma shut_admit: "shut p \<Longrightarrow> pc_admitStartup now p = (p, [])"
  by (simp add: shut_def pc_admitStartup_def)

lemma shut_schedule: "shut p \<Longrightarrow> pc_schedule_video now data p = (p, [])"
  by (simp add: pc_schedule_video_def seq_do_def shut_enqueue shut_admit)

section \<open>Video\<close>

lemma schedule_outcome:
  assumes "pc_core p" "pc_epoch p \<noteq> None"
  shows "outcome pc_open (\<lambda>k. pending k p) (\<lambda>k. if k = MkVideo then [data] else []) (pc_schedule_video now data p)"
proof -
  let ?due = "pc_videoOrigin p + BUFFER_MILLISECONDS + real (pc_videoElapsed p)"
  have q: "queue_ok p" using assms(1) by (simp add: pc_core_def)
  have d: "\<forall>y\<in>set (pc_queue p). pk_kind y = MkVideo \<longrightarrow> pk_at y \<le> ?due" using q by (auto simp: queue_ok_def due_ok_def)
  have n: "due_ok p \<lparr> pk_at = ?due, pk_kind = MkVideo, pk_data = data \<rparr>" using assms(2) by (simp add: due_ok_def)
  have b: "MkVideo = MkVideo \<longrightarrow> pc_bootstrap p = []" using q assms(2) by (simp add: queue_ok_def)
  have "outcome pc_open (\<lambda>k. pending k p) (\<lambda>k. (if k = MkVideo then [data] else []) @ [])
      (seq_do (pc_enqueue now MkVideo data ?due p) (pc_admitStartup now))"
    by (rule outcome_then [OF enqueue_outcome [OF assms(1) d n b]]) (simp_all add: admit_outcome shut_admit)
  then show ?thesis by (simp add: pc_schedule_video_def)
qed

definition unloading :: "bytes list \<Rightarrow> pacer \<Rightarrow> bool" where
  "unloading bs p \<longleftrightarrow> queue_ok p \<and> pc_bootstrap p = [] \<and> pc_epoch p \<noteq> None \<and> pc_videoElapsed p = 0 \<and>
     pc_bytes p = held_bytes p + int (sum_list (map length bs)) \<and> pc_bytes p \<le> PACER_MAX_BYTES \<and>
     length (pc_queue p) + length bs \<le> PACER_MAX_PACKETS"

lemma bootstrap_opened:
  "unloading bs p \<Longrightarrow> pc_enqueue_bootstrap now bs p = (p', outs) \<Longrightarrow>
     outs = [] \<and> pc_core p' \<and> pc_epoch p' \<noteq> None \<and> (\<forall>k. pending k p' = pending k p @ (if k = MkVideo then bs else []))"
proof (induction bs arbitrary: p p' outs)
  case Nil
  then show ?case by (auto simp: unloading_def pc_core_def room_ok_def)
next
  case (Cons b bs)
  define p0 where "p0 = p\<lparr>pc_bytes := pc_bytes p - int (length b)\<rparr>"
  let ?due = "pc_videoOrigin p + BUFFER_MILLISECONDS"
  define x where "x = \<lparr> pk_at = ?due, pk_kind = MkVideo, pk_data = b \<rparr>"
  have o: "unloading (b # bs) p" by fact
  then have q: "queue_ok p" and el: "pc_videoElapsed p = 0" "pc_epoch p \<noteq> None" "pc_bootstrap p = []" by (simp_all add: unloading_def)
  have nf: "\<not> pc_full p0 b" using o by (simp add: unloading_def pc_full_def p0_def)
  have nc: "\<not> pc_closed p0" using q by (simp add: queue_ok_def p0_def)
  obtain m l where e: "pc_enqueue now MkVideo b ?due p0 = (pc_arm now (p0\<lparr>pc_queue := pq_insert x (pc_queue p0),
      pc_bytes := pc_bytes p0 + int (length b), pc_maximumBytes := m, pc_late := l\<rparr>), [])"
    using pc_enqueue_eq [OF nc nf] unfolding x_def by blast
  define p1 where "p1 = pc_arm now (p0\<lparr>pc_queue := pq_insert x (pc_queue p0),
      pc_bytes := pc_bytes p0 + int (length b), pc_maximumBytes := m, pc_late := l\<rparr>)"
  have f: "pc_queue p1 = pq_insert x (pc_queue p)" "pc_bootstrap p1 = []" "pc_epoch p1 = pc_epoch p" "pc_videoElapsed p1 = 0"
    "pc_bytes p1 = pc_bytes p" "pc_videoOrigin p1 = pc_videoOrigin p" "pc_audioOrigin p1 = pc_audioOrigin p"
    "pc_audioElapsed p1 = pc_audioElapsed p" "pc_audioSeen p1 = pc_audioSeen p" "pc_audioDisabled p1 = pc_audioDisabled p"
    "pc_startupWaiting p1 = pc_startupWaiting p" "pc_audioTimer p1 = pc_audioTimer p" "pc_closed p1 = pc_closed p"
    using el by (simp_all add: p1_def p0_def pc_arm_def)
  have d: "due_ok p1 y \<longleftrightarrow> due_ok p y" for y using el by (simp add: due_ok_def f cong: media_kind.case_cong)
  have dx: "due_ok p x" using el by (simp add: due_ok_def x_def)
  have srt: "sorted (map pk_at (pc_queue p))" using q by (simp add: queue_ok_def)
  have "queue_ok p1" using q dx sorted_pq_insert [OF srt, of x] by (simp add: queue_ok_def f d el)
  moreover have "pc_bytes p1 = held_bytes p1 + int (sum_list (map length bs))"
    using o by (simp add: unloading_def held_bytes_def f held_pq_insert) (simp add: x_def)
  ultimately have o1: "unloading bs p1" using o by (simp add: unloading_def f)
  obtain p2 o2 where r2: "pc_enqueue_bootstrap now bs p1 = (p2, o2)" by fastforce
  have eq: "p' = p2" "outs = o2" using Cons.prems(2) r2 by (simp_all add: e p0_def [symmetric] p1_def [symmetric])
  have "\<forall>y\<in>set (pc_queue p). pk_kind y = pk_kind x \<longrightarrow> pk_at y \<le> pk_at x" using q el by (auto simp: queue_ok_def due_ok_def x_def)
  then have "datas k (pc_queue p1) = datas k (pc_queue p) @ (if k = MkVideo then [b] else [])" for k
    using datas_pq_insert [OF srt, of x k] by (simp add: f x_def)
  then have "pending k p1 = pending k p @ (if k = MkVideo then [b] else [])" for k by (simp add: pending_def f el)
  with Cons.IH [OF o1 r2] show ?case by (auto simp: eq)
qed

lemma open_epoch_outcome:
  assumes "pc_open p" "pc_epoch p = None"
  shows "outcome (\<lambda>p. pc_core p \<and> pc_epoch p \<noteq> None) (\<lambda>k. pending k p) (\<lambda>k. []) (pc_open_epoch now c p)"
proof -
  define p0 where "p0 = p\<lparr>pc_epoch := Some (fc_epoch c), pc_previousTimestamp := fc_timestamp c, pc_videoOrigin := now,
    pc_admissionTimer := False, pc_bootstrap := []\<rparr>"
  have q: "queue_ok p" "room_ok p" using assms(1) by (simp_all add: pc_open_def pc_core_def)
  have av: "pk_kind x = MkAudio" if "x \<in> set (pc_queue p)" for x
    using q(1) that assms(2) by (cases "pk_kind x") (auto simp: queue_ok_def due_ok_def)
  have "due_ok p0 x" if "x \<in> set (pc_queue p)" for x
  proof -
    have "due_ok p x" using q(1) that by (simp add: queue_ok_def)
    then show ?thesis using av [OF that] by (simp add: due_ok_def p0_def)
  qed
  then have "queue_ok p0" using q(1) assms(2) by (simp add: queue_ok_def p0_def)
  then have o: "unloading (pc_bootstrap p) p0"
    using q assms(2) by (simp add: unloading_def p0_def queue_ok_def room_ok_def held_bytes_def)
  obtain p1 outs where r: "pc_enqueue_bootstrap now (pc_bootstrap p) p0 = (p1, outs)" by fastforce
  have "datas MkVideo (pc_queue p) = []" using av by (auto simp: datas_def filter_empty_conv)
  then have "pending k p0 @ (if k = MkVideo then pc_bootstrap p else []) = pending k p" for k by (simp add: pending_def p0_def)
  with bootstrap_opened [OF o r] show ?thesis by (simp add: outcome_def pc_open_epoch_def p0_def [symmetric] r)
qed

lemma advance_core:
  assumes "pc_core p" "pc_epoch p \<noteq> None"
  shows "pc_core (pc_advance c step rebased p) \<and> pc_epoch (pc_advance c step rebased p) \<noteq> None \<and>
    (\<forall>k. pending k (pc_advance c step rebased p) = pending k p)"
proof -
  define p1 where "p1 = pc_advance c step rebased p"
  have "due_ok p1 x" if "due_ok p x" for x using that by (auto simp: due_ok_def p1_def pc_advance_def split: media_kind.splits)
  then have "queue_ok p1" using assms by (auto simp: pc_core_def queue_ok_def p1_def pc_advance_def)
  moreover have "room_ok p1" using assms(1) by (simp add: pc_core_def room_ok_def held_bytes_def p1_def pc_advance_def)
  ultimately show ?thesis using assms(2) unfolding p1_def [symmetric] by (simp add: pc_core_def) (simp add: p1_def pc_advance_def pending_def)
qed

lemma open_core: "pc_open p \<Longrightarrow> pc_core p"
  by (simp add: pc_open_def)

lemma open_live: "pc_open p \<Longrightarrow> \<not> pc_closed p"
  by (simp add: pc_open_def pc_core_def queue_ok_def)

lemma acceptVideo_outcome:
  assumes "pc_open p" "data \<noteq> []"
  shows "outcome pc_open (\<lambda>k. pending k p) (\<lambda>k. if k = MkVideo then [data] else []) (pc_acceptVideo now clock data p)"
proof -
  have nc: "\<not> pc_closed p" by (rule open_live [OF assms(1)])
  have core: "pc_core p" by (rule open_core [OF assms(1)])
  show ?thesis
  proof (cases clock)
    case None
    show ?thesis
    proof (cases "pc_epoch p \<noteq> None \<or> pc_full p data")
      case True
      then obtain reason where "pc_acceptVideo now clock data p = pc_reject reason p"
        using nc assms(2) None True that [of PfClockMissing] that [of PfInputLimit]
        by (cases "pc_epoch p") (auto simp: pc_acceptVideo_def)
      then show ?thesis using reject_outcome [OF core] by simp
    next
      case False
      define p1 where "p1 = p\<lparr>pc_bootstrap := pc_bootstrap p @ [data], pc_bytes := pc_bytes p + int (length data)\<rparr>"
      have "pc_checkLimit p1 = ((p1\<lparr>pc_maximumBytes := max (pc_maximumBytes p1) (pc_bytes p1)\<rparr>, []), True)"
        using False by (simp add: pc_checkLimit_def Let_def p1_def pc_full_def)
      then have r: "pc_acceptVideo now clock data p = (p1\<lparr>pc_maximumBytes := max (pc_maximumBytes p1) (pc_bytes p1)\<rparr>, [])"
        using nc assms(2) None False by (simp add: pc_acceptVideo_def p1_def)
      have "due_ok (p1\<lparr>pc_maximumBytes := m\<rparr>) x \<longleftrightarrow> due_ok p x" for x m by (simp add: due_ok_def p1_def cong: media_kind.case_cong)
      then have "pc_open (p1\<lparr>pc_maximumBytes := max (pc_maximumBytes p1) (pc_bytes p1)\<rparr>)"
        using assms(1) False by (simp add: pc_open_def pc_core_def queue_ok_def room_ok_def held_bytes_def armed_def)
          (simp add: p1_def pc_full_def)
      then show ?thesis by (simp add: r outcome_def pending_def p1_def)
    qed
  next
    case (Some c)
    show ?thesis
    proof (cases "pc_epoch p")
      case None
      have "outcome pc_open (\<lambda>k. pending k p) (\<lambda>k. [] @ (if k = MkVideo then [data] else []))
          (seq_do (pc_open_epoch now c p) (pc_schedule_video now data))"
        by (rule outcome_then [OF open_epoch_outcome [OF assms(1) None]]) (simp_all add: schedule_outcome shut_schedule)
      then show ?thesis using nc assms(2) Some None by (simp add: pc_acceptVideo_def)
    next
      case epoch: (Some ep)
      show ?thesis
      proof (cases "clock_step c p")
        case (Inl reason)
        then show ?thesis using nc assms(2) Some epoch reject_outcome [OF core] by (simp add: pc_acceptVideo_def)
      next
        case (Inr r)
        obtain step rebased where r: "r = (step, rebased)" by fastforce
        have a: "pc_core (pc_advance c step rebased p)" "pc_epoch (pc_advance c step rebased p) \<noteq> None"
          "pending k (pc_advance c step rebased p) = pending k p" for k
          using advance_core [OF core, of c step rebased] epoch by simp_all
        show ?thesis using schedule_outcome [OF a(1, 2), of data now] nc assms(2) Some epoch Inr r by (simp add: pc_acceptVideo_def a(3))
      qed
    qed
  qed
qed

section \<open>Audio\<close>

lemma batch_nonneg: "0 \<le> batch_milliseconds us"
  unfolding batch_milliseconds_def by (rule sum_list_nonneg) auto

lemma enqueue_seen:
  "pc_enqueue now kind data due (p\<lparr>pc_audioSeen := True\<rparr>) =
     ((fst (pc_enqueue now kind data due p))\<lparr>pc_audioSeen := True\<rparr>, snd (pc_enqueue now kind data due p))"
  by (simp add: pc_enqueue_def pc_full_def pc_reject_def pc_close_def pc_checkLimit_def pc_arm_def Let_def)

lemma acceptAudio_outcome:
  assumes "pc_open p" "data \<noteq> []" "\<not> pc_audioDisabled p"
  shows "outcome pc_open (\<lambda>k. pending k p) (\<lambda>k. if k = MkAudio then [data] else []) (pc_acceptAudio now data p)"
proof -
  have nc: "\<not> pc_closed p" by (rule open_live [OF assms(1)])
  have core: "pc_core p" by (rule open_core [OF assms(1)])
  show ?thesis
  proof (cases "parseAdtsAccessUnits data")
    case None
    then show ?thesis using nc assms(2, 3) reject_outcome [OF core] by (simp add: pc_acceptAudio_def)
  next
    case (Some units)
    define origin where "origin = (case pc_audioOrigin p of None \<Rightarrow> now | Some t \<Rightarrow> t)"
    define due where "due = origin + BUFFER_MILLISECONDS + pc_audioElapsed p"
    define p1 where "p1 = p\<lparr>pc_audioOrigin := Some origin, pc_audioElapsed := pc_audioElapsed p + batch_milliseconds units\<rparr>"
    define p2 where "p2 = p1\<lparr>pc_audioSeen := True\<rparr>"
    have r: "pc_acceptAudio now data p = seq_do (pc_enqueue now MkAudio data due p2) (pc_admitStartup now)"
      using nc assms(2, 3) Some
      by (simp add: pc_acceptAudio_def Let_def origin_def [symmetric] due_def [symmetric] p1_def [symmetric] p2_def enqueue_seen seq_do_def split_beta)
    have q: "queue_ok p" using core by (simp add: pc_core_def)
    have old: "pk_kind x = MkAudio \<longrightarrow> pk_at x \<le> due" and new: "due_ok p2 x" if "x \<in> set (pc_queue p)" for x
    proof -
      have "due_ok p x" using q that by (simp add: queue_ok_def)
      then show "pk_kind x = MkAudio \<longrightarrow> pk_at x \<le> due" "due_ok p2 x"
        using batch_nonneg [of units]
        by (auto simp: due_ok_def p2_def p1_def due_def origin_def split: media_kind.splits option.splits)
    qed
    have "due_ok p2 \<lparr> pk_at = due, pk_kind = MkAudio, pk_data = data \<rparr>"
      using assms(3) batch_nonneg [of units] by (simp add: due_ok_def p2_def p1_def due_def)
    moreover have "pc_core p2"
      using core new by (auto simp: pc_core_def queue_ok_def room_ok_def held_bytes_def p2_def p1_def)
    moreover have "\<forall>y\<in>set (pc_queue p2). pk_kind y = MkAudio \<longrightarrow> pk_at y \<le> due" using old by (simp add: p2_def p1_def)
    ultimately have e: "outcome audio_ready (\<lambda>k. pending k p2) (\<lambda>k. if k = MkAudio then [data] else []) (pc_enqueue now MkAudio data due p2)"
      by (intro enqueue_outcome) simp_all
    have "outcome pc_open (\<lambda>k. pending k p2) (\<lambda>k. (if k = MkAudio then [data] else []) @ [])
        (seq_do (pc_enqueue now MkAudio data due p2) (pc_admitStartup now))"
      by (rule outcome_then [OF e]) (simp_all add: admit_outcome shut_admit)
    moreover have "(\<lambda>k. pending k p2) = (\<lambda>k. pending k p)" by (rule ext) (simp add: pending_def p2_def p1_def)
    ultimately show ?thesis by (simp add: r)
  qed
qed

section \<open>The timer\<close>

text \<open>Draining keeps what the rest of a call relies on.\<close>

definition calm :: "pacer \<Rightarrow> bool" where
  "calm p \<longleftrightarrow> pc_core p \<and> \<not> (pc_startupWaiting p \<and> pc_audioSeen p \<and> pc_epoch p \<noteq> None)"

lemma emit_fields:
  assumes "pc_emit x p = (p1, w)"
  shows "pc_queue p1 = pc_queue p" "pc_bootstrap p1 = pc_bootstrap p" "calm p1 \<longleftrightarrow> calm p"
    "delivery k w = (if pk_kind x = k then [pk_data x] else [])"
proof -
  obtain v a where p1: "p1 = p\<lparr>pc_videoPackets := v, pc_audioPackets := a\<rparr>"
  proof (cases "pk_kind x")
    case MkVideo
    then show ?thesis using that [of "pc_audioPackets p" "pc_videoPackets p + 1"] assms by (cases p) (simp add: pc_emit_def)
  next
    case MkAudio
    then show ?thesis using that [of "pc_audioPackets p + 1" "pc_videoPackets p"] assms by (cases p) (simp add: pc_emit_def)
  qed
  show "pc_queue p1 = pc_queue p" "pc_bootstrap p1 = pc_bootstrap p" by (simp_all add: p1)
  have "due_ok p1 y \<longleftrightarrow> due_ok p y" for y by (simp add: due_ok_def p1 cong: media_kind.case_cong)
  moreover have "pc_queue p1 = pc_queue p" "pc_bootstrap p1 = pc_bootstrap p" "pc_epoch p1 = pc_epoch p"
    "pc_videoElapsed p1 = pc_videoElapsed p" "pc_audioDisabled p1 = pc_audioDisabled p" "pc_audioTimer p1 = pc_audioTimer p"
    "pc_startupWaiting p1 = pc_startupWaiting p" "pc_audioSeen p1 = pc_audioSeen p" "pc_closed p1 = pc_closed p" "pc_bytes p1 = pc_bytes p"
    by (simp_all add: p1)
  ultimately show "calm p1 \<longleftrightarrow> calm p" by (simp add: calm_def pc_core_def queue_ok_def room_ok_def held_bytes_def)
  show "delivery k w = (if pk_kind x = k then [pk_data x] else [])"
    using assms by (auto simp: pc_emit_def split: media_kind.splits)
qed

text \<open>One delivery of the timer: the first packet of the queue, if it is due.\<close>

definition pc_pop :: "real \<Rightarrow> pacer \<Rightarrow> (pacer \<times> pc_out) option" where
  "pc_pop now p = (case pc_queue p of
       [] \<Rightarrow> None
     | x # xs \<Rightarrow> if pc_closed p \<or> pk_at x > now then None
         else Some (pc_emit x (p\<lparr>pc_queue := xs, pc_bytes := pc_bytes p - int (length (pk_data x))\<rparr>)))"

lemma pop_queue: "pc_pop now p = Some (p', w) \<Longrightarrow> pc_queue p = hd (pc_queue p) # pc_queue p'"
  by (auto simp: pc_pop_def pc_emit_def split: list.splits if_splits media_kind.splits)

lemma drain_pop:
  "pc_drain stop now p = (case pc_pop now p of
     None \<Rightarrow> (p, [])
   | Some (p1, w) \<Rightarrow> (let (p2, outs) = pc_drain stop now (if stop w then pc_close p1 else p1) in (p2, w # outs)))"
  by (subst pc_drain.simps) (simp add: pc_pop_def split_beta split: list.split)

lemma pop_calm:
  assumes "calm p" "pc_pop now p = Some (p1, w)"
  shows "calm p1" "pending k p = delivery k w @ pending k p1" "\<exists>kind data time. w = PoDeliver kind data time"
proof -
  obtain x xs where q: "pc_queue p = x # xs" using assms(2) by (auto simp: pc_pop_def split: list.splits)
  define p0 where "p0 = p\<lparr>pc_queue := xs, pc_bytes := pc_bytes p - int (length (pk_data x))\<rparr>"
  have e: "pc_emit x p0 = (p1, w)" using assms(2) q by (auto simp: pc_pop_def p0_def split: if_splits)
  have "due_ok p0 y \<longleftrightarrow> due_ok p y" for y by (simp add: due_ok_def p0_def cong: media_kind.case_cong)
  moreover have "pc_queue p0 = xs" "pc_bootstrap p0 = pc_bootstrap p" "pc_epoch p0 = pc_epoch p"
    "pc_videoElapsed p0 = pc_videoElapsed p" "pc_audioDisabled p0 = pc_audioDisabled p" "pc_audioTimer p0 = pc_audioTimer p"
    "pc_startupWaiting p0 = pc_startupWaiting p" "pc_audioSeen p0 = pc_audioSeen p" "pc_closed p0 = pc_closed p"
    "pc_bytes p0 = pc_bytes p - int (length (pk_data x))"
    by (simp_all add: p0_def)
  ultimately have "calm p0" using assms(1) by (auto simp: calm_def pc_core_def queue_ok_def room_ok_def held_bytes_def q)
  then show "calm p1" using emit_fields(3) [OF e] by simp
  show "pending k p = delivery k w @ pending k p1"
    using emit_fields(1, 2) [OF e] emit_fields(4) [OF e, of k] by (auto simp: pending_def p0_def q datas_def)
  show "\<exists>kind data time. w = PoDeliver kind data time" using e by (auto simp: pc_emit_def split: media_kind.splits)
qed

lemma drain_outcome: "calm p \<or> shut p \<Longrightarrow> outcome calm (\<lambda>k. pending k p) (\<lambda>k. []) (pc_drain stop now p)"
proof (induction "length (pc_queue p)" arbitrary: p rule: less_induct)
  case less
  show ?case
  proof (cases "pc_pop now p")
    case None
    then show ?thesis using less.prems by (subst drain_pop) (auto simp: outcome_def)
  next
    case (Some r)
    obtain p1 w where r: "r = (p1, w)" by (cases r)
    have pop: "pc_pop now p = Some (p1, w)" using Some r by simp
    have "\<not> shut p" using pop by (auto simp: pc_pop_def shut_def split: list.splits)
    then have c: "calm p" using less.prems by blast
    define p2 where "p2 = (if stop w then pc_close p1 else p1)"
    obtain p3 outs where d: "pc_drain stop now p2 = (p3, outs)" by fastforce
    have s: "pc_drain stop now p = (p3, w # outs)" by (subst drain_pop) (simp add: pop p2_def [symmetric] d)
    show ?thesis
    proof (cases "stop w")
      case True
      then have "p3 = p2" "outs = []" "shut p2" using d by (auto simp: p2_def drain_pop [of stop now] pc_pop_def pc_close_def shut_def)
      then show ?thesis unfolding outcome_def s using pop_calm(2) [OF c pop] by auto
    next
      case False
      then have "p2 = p1" by (simp add: p2_def)
      moreover have "length (pc_queue p1) < length (pc_queue p)" using pop_queue [OF pop] by (metis length_Cons lessI)
      ultimately have "outcome calm (\<lambda>k. pending k p1) (\<lambda>k. []) (p3, outs)" using less.hyps [of p1] pop_calm(1) [OF c pop] d by simp
      then show ?thesis unfolding outcome_def s by (auto simp: pop_calm(2) [OF c pop])
    qed
  qed
qed

lemma arm_open:
  assumes c: "calm p"
  shows "pc_open (pc_arm now p)"
proof -
  have "pc_core (pc_arm now p)" using c by (simp add: calm_def pc_core_arm)
  moreover have "armed (pc_arm now p)" using c by (intro armed_arm) (simp add: calm_def pc_core_def queue_ok_def)
  moreover have "pc_startupWaiting (pc_arm now p) = pc_startupWaiting p" "pc_audioSeen (pc_arm now p) = pc_audioSeen p"
    "pc_epoch (pc_arm now p) = pc_epoch p" by (simp_all add: pc_arm_def)
  ultimately show ?thesis using c by (simp add: pc_open_def calm_def)
qed

lemma timer_calm: "pc_open p \<Longrightarrow> calm (p\<lparr>pc_timer := None\<rparr>)" and timer_pending: "pending k (p\<lparr>pc_timer := None\<rparr>) = pending k p"
  by (simp_all add: pc_open_def calm_def pc_core_def queue_ok_def room_ok_def held_bytes_def due_ok_def pending_def
      cong: media_kind.case_cong)

lemma fire_outcome:
  assumes "pc_open p"
  shows "outcome pc_open (\<lambda>k. pending k p) (\<lambda>k. []) (pc_fire stop now p)"
proof (cases "pc_timer p")
  case None
  then show ?thesis using assms by (simp add: pc_fire_def outcome_def)
next
  case (Some t)
  define p0 where "p0 = p\<lparr>pc_timer := None\<rparr>"
  have "calm p0" using timer_calm [OF assms] by (simp add: p0_def)
  moreover obtain p1 outs where d: "pc_drain stop now p0 = (p1, outs)" by fastforce
  ultimately have o: "outcome calm (\<lambda>k. pending k p0) (\<lambda>k. []) (p1, outs)" using drain_outcome [of p0 stop now] by simp
  have r: "pc_fire stop now p = (pc_arm now p1, outs)" using Some d by (simp add: pc_fire_def p0_def)
  have "calm p1 \<Longrightarrow> pc_open (pc_arm now p1)" by (rule arm_open)
  moreover have "shut p1 \<Longrightarrow> shut (pc_arm now p1)" by (simp add: shut_def pc_arm_def)
  moreover have "(\<lambda>k. pending k p0) = (\<lambda>k. pending k p)" by (rule ext) (simp add: pending_def p0_def)
  ultimately show ?thesis using o by (auto simp: outcome_def r)
qed

section \<open>What the calls answer\<close>

text \<open>Outside the timer nothing is delivered, and a pacer that closes itself says why.\<close>

fun is_delivery :: "pc_out \<Rightarrow> bool" where
  "is_delivery (PoDeliver k d t) = True"
| "is_delivery _ = False"

fun is_refusal :: "pc_out \<Rightarrow> bool" where
  "is_refusal (PoFail reason) = True"
| "is_refusal _ = False"

definition answers :: "pacer \<Rightarrow> pacer \<times> pc_out list \<Rightarrow> bool" where
  "answers p r \<longleftrightarrow> list_all (\<lambda>w. \<not> is_delivery w) (snd r) \<and> (pc_closed (fst r) \<longrightarrow> pc_closed p \<or> list_ex is_refusal (snd r))"

lemma answers_same: "pc_closed p = pc_closed q \<Longrightarrow> answers p r = answers q r"
  by (simp add: answers_def)

lemma answers_then: "answers p r \<Longrightarrow> (\<And>q. answers q (g q)) \<Longrightarrow> answers p (seq_do r g)"
  by (auto simp: answers_def seq_do_def split_beta Let_def)

lemma answers_reject: "answers p (pc_reject reason p)"
  by (simp add: answers_def pc_reject_def)

lemma answers_check: "answers p (fst (pc_checkLimit p))"
  by (simp add: answers_def pc_checkLimit_def pc_reject_def Let_def)

lemma answers_enqueue: "answers p (pc_enqueue now kind data due p)"
  by (simp add: answers_def pc_enqueue_def pc_checkLimit_def pc_reject_def Let_def pc_arm_def)

lemma answers_release: "answers p (pc_releaseStartup now b p)"
  by (simp add: answers_def pc_releaseStartup_def pc_arm_def Let_def)

lemma answers_admit: "answers p (pc_admitStartup now p)"
  using answers_release by (simp add: pc_admitStartup_def) (simp add: answers_def)

lemma answers_bootstrap: "answers p (pc_enqueue_bootstrap now bs p)"
proof (induction bs arbitrary: p)
  case (Cons b bs)
  define q where "q = p\<lparr>pc_bytes := pc_bytes p - int (length b)\<rparr>"
  have "pc_enqueue_bootstrap now (b # bs) p = seq_do (pc_enqueue now MkVideo b (pc_videoOrigin p + BUFFER_MILLISECONDS) q) (pc_enqueue_bootstrap now bs)"
    by (simp add: seq_do_def q_def)
  moreover have "answers p (pc_enqueue now MkVideo b due q)" for due
    using answers_enqueue [of q] answers_same [of p q] by (simp add: q_def)
  ultimately show ?case using Cons answers_then by metis
qed (simp add: answers_def)

lemma answers_schedule: "answers p (pc_schedule_video now data p)"
  unfolding pc_schedule_video_def by (rule answers_then [OF answers_enqueue answers_admit])

lemma answers_video: "answers p (pc_acceptVideo now clock data p)"
proof -
  have s: "answers p (pc_schedule_video now data (pc_advance c step rebased p))" for c step rebased
    using answers_schedule [of "pc_advance c step rebased p"] answers_same [of p "pc_advance c step rebased p"] by (simp add: pc_advance_def)
  have o: "answers p (pc_open_epoch now c p)" for c
  proof -
    define q where "q = p\<lparr>pc_epoch := Some (fc_epoch c), pc_previousTimestamp := fc_timestamp c, pc_videoOrigin := now,
          pc_admissionTimer := False, pc_bootstrap := []\<rparr>"
    have "answers p (pc_enqueue_bootstrap now (pc_bootstrap p) q)"
      using answers_bootstrap [of q now "pc_bootstrap p"] answers_same [of p q] by (simp add: q_def)
    then show ?thesis by (simp add: pc_open_epoch_def q_def)
  qed
  have k: "answers p (fst (pc_checkLimit (p\<lparr>pc_bootstrap := x, pc_bytes := y\<rparr>)))" for x y
    using answers_check [of "p\<lparr>pc_bootstrap := x, pc_bytes := y\<rparr>"] answers_same [of p "p\<lparr>pc_bootstrap := x, pc_bytes := y\<rparr>"] by simp
  have n: "answers p (p, [])" by (simp add: answers_def)
  show ?thesis unfolding pc_acceptVideo_def
    by (auto simp: n answers_reject k s intro!: answers_then o answers_schedule split: option.split sum.split)
qed

lemma answers_audio: "answers p (pc_acceptAudio now data p)"
proof -
  have n: "answers p (p, [])" by (simp add: answers_def)
  have e: "answers p (pc_enqueue now MkAudio data due (p\<lparr>pc_audioOrigin := x, pc_audioElapsed := y\<rparr>))" for due x y
    using answers_enqueue [of "p\<lparr>pc_audioOrigin := x, pc_audioElapsed := y\<rparr>"]
      answers_same [of p "p\<lparr>pc_audioOrigin := x, pc_audioElapsed := y\<rparr>"] by simp
  have a: "answers q (pc_admitStartup now (q\<lparr>pc_audioSeen := True\<rparr>))" for q
    using answers_admit [of "q\<lparr>pc_audioSeen := True\<rparr>"] answers_same [of q "q\<lparr>pc_audioSeen := True\<rparr>"] by simp
  show ?thesis unfolding pc_acceptAudio_def Let_def
    by (auto simp: n answers_reject intro!: answers_then e a split: option.split)
qed

section \<open>Calls in sequence\<close>

text \<open>The media a call admits to the viewer: nonempty, to an open pacer, and not audio once muted.\<close>

fun taken :: "pacer \<Rightarrow> pc_event \<Rightarrow> media_kind \<Rightarrow> bytes list" where
  "taken p (PvVideo now clock data) k = (if k = MkVideo \<and> \<not> pc_closed p \<and> data \<noteq> [] then [data] else [])"
| "taken p (PvAudio now data) k = (if k = MkAudio \<and> \<not> pc_closed p \<and> \<not> pc_audioDisabled p \<and> data \<noteq> [] then [data] else [])"
| "taken p _ k = []"

fun accepted_media :: "(pc_out \<Rightarrow> bool) \<Rightarrow> pacer \<Rightarrow> pc_event list \<Rightarrow> media_kind \<Rightarrow> bytes list" where
  "accepted_media stop p [] k = []"
| "accepted_media stop p (e # es) k = taken p e k @ accepted_media stop (fst (pc_step stop p e)) es k"

lemma shut_step: "shut p \<Longrightarrow> shut (fst (pc_step stop p e)) \<and> (\<forall>k. delivered k (snd (pc_step stop p e)) = [] \<and> taken p e k = [])"
  by (cases e) (auto simp: shut_def pc_acceptVideo_def pc_acceptAudio_def pc_fire_def pc_close_def)

lemma step_outcome:
  assumes "pc_open p"
  shows "outcome pc_open (\<lambda>k. pending k p) (taken p e) (pc_step stop p e)"
proof -
  have nc: "\<not> pc_closed p" by (rule open_live [OF assms])
  have id: "outcome pc_open (\<lambda>k. pending k p) (\<lambda>k. []) (p, [])" using assms by (simp add: outcome_def)
  show ?thesis
  proof (cases e)
    case (PvVideo now clock data)
    have "taken p e = (\<lambda>k. if data \<noteq> [] \<and> k = MkVideo then [data] else [])" by (rule ext) (simp add: PvVideo nc)
    then show ?thesis using acceptVideo_outcome [OF assms, of data now clock] id by (cases "data = []") (simp_all add: PvVideo pc_acceptVideo_def)
  next
    case (PvAudio now data)
    have "taken p e = (\<lambda>k. if data \<noteq> [] \<and> \<not> pc_audioDisabled p \<and> k = MkAudio then [data] else [])" by (rule ext) (simp add: PvAudio nc)
    then show ?thesis using acceptAudio_outcome [OF assms, of data now] id
      by (cases "data = [] \<or> pc_audioDisabled p") (auto simp: PvAudio pc_acceptAudio_def)
  next
    case (PvTimer now)
    have "taken p e = (\<lambda>k. [])" by (rule ext) (simp add: PvTimer)
    then show ?thesis using fire_outcome [OF assms, of stop now] by (simp add: PvTimer)
  next
    case PvAdmissionTimer
    have "taken p e = (\<lambda>k. [])" by (rule ext) (simp add: PvAdmissionTimer)
    then show ?thesis using id reject_outcome [OF open_core [OF assms]] by (simp add: PvAdmissionTimer)
  next
    case (PvAudioTimer now)
    have t: "taken p e = (\<lambda>k. [])" by (rule ext) (simp add: PvAudioTimer)
    show ?thesis
    proof (cases "pc_audioTimer p")
      case True
      then have w: "pc_startupWaiting p" "pc_epoch p \<noteq> None" "False \<or> \<not> pc_audioSeen p"
        using assms by (auto simp: pc_open_def pc_core_def queue_ok_def)
      have "audio_ready p" using assms by (simp add: pc_open_def audio_ready_def)
      from release_outcome [OF this w] show ?thesis using True t by (simp add: PvAudioTimer)
    next
      case False
      then show ?thesis using id t by (simp add: PvAudioTimer)
    qed
  next
    case PvClose
    have "taken p e = (\<lambda>k. [])" by (rule ext) (simp add: PvClose)
    then show ?thesis by (simp add: PvClose outcome_def)
  qed
qed

interpretation pc: invariant_machine "pc_step stop" pc_inv "\<lambda>_. True"
proof
  fix p e
  assume "pc_inv p"
  then show "pc_inv (fst (pc_step stop p e))"
    using shut_step [of p stop e] step_outcome [of p e stop] by (auto simp: pc_inv_def outcome_def)
qed

lemma pc_inv_new: "pc_inv (pc_new w)"
  by (simp add: pc_inv_def pc_open_def pc_core_def queue_ok_def room_ok_def held_bytes_def armed_def pc_new_def PACER_MAX_BYTES_def)

lemma run_shut: "shut p \<Longrightarrow> shut (run_state (pc_step stop) p es) \<and> delivered k (run_out (pc_step stop) p es) = [] \<and> accepted_media stop p es k = []"
proof (induction es arbitrary: p)
  case (Cons e es)
  then show ?case using shut_step [of p stop e] by (simp add: run_state_Cons run_out_Cons del: run.simps)
qed simp

lemma run_outcome:
  "pc_open p \<Longrightarrow> outcome pc_open (\<lambda>k. pending k p) (accepted_media stop p es)
     (run_state (pc_step stop) p es, run_out (pc_step stop) p es)"
proof (induction es arbitrary: p)
  case Nil
  then show ?case by (simp add: outcome_def)
next
  case (Cons e es)
  define p1 where "p1 = fst (pc_step stop p e)"
  define o1 where "o1 = snd (pc_step stop p e)"
  have s: "outcome pc_open (\<lambda>k. pending k p) (taken p e) (p1, o1)" using step_outcome [OF Cons.prems, of e stop] by (simp add: p1_def o1_def)
  have r: "run_state (pc_step stop) p (e # es) = run_state (pc_step stop) p1 es"
    "run_out (pc_step stop) p (e # es) = o1 @ run_out (pc_step stop) p1 es"
    "accepted_media stop p (e # es) k = taken p e k @ accepted_media stop p1 es k" for k
    by (simp_all add: run_state_Cons run_out_Cons p1_def o1_def del: run.simps)
  consider (shut) "shut p1" "\<forall>k. prefix (delivered k o1) (pending k p @ taken p e k)"
    | (good) "pc_open p1" "\<forall>k. delivered k o1 @ pending k p1 = pending k p @ taken p e k"
    using s by (auto simp: outcome_def)
  then show ?case
  proof cases
    case shut
    then show ?thesis using run_shut [OF shut(1), of stop es] by (simp add: outcome_def r del: run.simps accepted_media.simps)
  next
    case good
    have z: "pending k p @ taken p e k @ z = delivered k o1 @ pending k p1 @ z" for k z using good(2) by (metis append_assoc)
    show ?thesis
      using Cons.IH [OF good(1)] unfolding outcome_def r fst_conv snd_conv delivered_simps z same_prefix_prefix append_assoc same_append_eq .
  qed
qed

section \<open>Properties\<close>

text \<open>C38: The viewer receives its media unchanged, in order and without invention: whatever clocks, timers, limits and
  closes occur, the video delivered is a prefix of the video admitted, in the order of admission and byte for
  byte, and likewise the audio; while the pacer is open, what was delivered followed by what is still queued is
  exactly what was admitted, so nothing is dropped.\<close>
theorem pacer_delivers_in_order:
  fixes w :: real and es :: "pc_event list" and stop :: "pc_out \<Rightarrow> bool" and k :: media_kind
  defines "outs \<equiv> run_out (pc_step stop) (pc_new w) es" and "p \<equiv> run_state (pc_step stop) (pc_new w) es"
    and "admitted \<equiv> accepted_media stop (pc_new w) es k"
  shows "prefix (delivered k outs) admitted \<and> (pc_closed p \<or> delivered k outs @ pending k p = admitted)"
proof -
  have o: "pc_open (pc_new w)" using pc_inv_new [of w] by (simp add: pc_inv_def shut_def pc_new_def)
  have "pending k (pc_new w) = []" by (simp add: pending_def pc_new_def datas_def)
  with run_outcome [OF o, of stop es] show ?thesis
    unfolding outcome_def outs_def p_def admitted_def fst_conv snd_conv
    by (elim disjE conjE) (auto simp: shut_def dest!: spec [of _ k] intro: prefixI [OF sym])
qed

lemma drain_all:
  "\<lbrakk>\<forall>w. \<not> stop w; \<not> pc_closed p; \<forall>x\<in>set (pc_queue p). pk_at x \<le> now\<rbrakk> \<Longrightarrow>
     pc_queue (fst (pc_drain stop now p)) = [] \<and> \<not> pc_closed (fst (pc_drain stop now p)) \<and>
     pc_bootstrap (fst (pc_drain stop now p)) = pc_bootstrap p"
proof (induction stop now p rule: pc_drain.induct)
  case (1 stop now p)
  show ?case
  proof (cases "pc_queue p")
    case Nil
    then show ?thesis using 1(3) by (subst pc_drain.simps) (simp add: pc_drain.simps [of stop now p])
  next
    case (Cons x xs)
    define p0 where "p0 = p\<lparr>pc_queue := xs, pc_bytes := pc_bytes p - int (length (pk_data x))\<rparr>"
    obtain p1 w where e: "pc_emit x p0 = (p1, w)" by fastforce
    have ns: "\<not> stop w" using 1(2) by simp
    have q1: "pc_queue p1 = xs" using emit_fields(1) [OF e] by (simp add: p0_def)
    have b1: "pc_bootstrap p1 = pc_bootstrap p" using emit_fields(2) [OF e] by (simp add: p0_def)
    have c1: "\<not> pc_closed p1" using e 1(3) by (auto simp: pc_emit_def p0_def split: media_kind.splits)
    obtain p3 outs where d: "pc_drain stop now p1 = (p3, outs)" by fastforce
    have due: "\<not> (pc_closed p \<or> now < pk_at x)" using 1(3, 4) Cons by (simp add: not_less)
    have s: "pc_drain stop now p = (p3, w # outs)"
      using due Cons ns by (subst pc_drain.simps) (simp add: p0_def [symmetric] e d)
    have "pc_queue (fst (pc_drain stop now (if stop w then pc_close p1 else p1))) = [] \<and>
        \<not> pc_closed (fst (pc_drain stop now (if stop w then pc_close p1 else p1))) \<and>
        pc_bootstrap (fst (pc_drain stop now (if stop w then pc_close p1 else p1))) = pc_bootstrap (if stop w then pc_close p1 else p1)"
      by (rule 1(1) [OF Cons due e [symmetric, unfolded p0_def] refl]) (use 1(2, 4) ns q1 c1 Cons in auto)
    then show ?thesis using ns d s b1 by simp
  qed
qed

text \<open>The pacer stays within its budget and never stalls: after any calls it either is closed and holds no media and
  no timer, or it holds at most 4 MiB in at most 1,024 packets; when media is queued, the viewer admitted and
  the clock known, a timer is armed, and when it fires at a time no packet is due after, every queued packet
  is delivered, unless a consumer closes the pacer.\<close>
theorem pacer_bounded_and_live:
  fixes stop :: "pc_out \<Rightarrow> bool" and w now :: real and es :: "pc_event list"
  defines "p \<equiv> run_state (pc_step stop) (pc_new w) es"
  shows "(pc_closed p \<longrightarrow> pc_queue p = [] \<and> pc_bootstrap p = [] \<and> pc_timer p = None \<and> \<not> pc_admissionTimer p \<and> \<not> pc_audioTimer p) \<and>
    (\<not> pc_closed p \<longrightarrow> held_bytes p \<le> 4194304 \<and> length (pc_queue p) + length (pc_bootstrap p) \<le> 1024) \<and>
    (\<not> pc_closed p \<and> pc_queue p \<noteq> [] \<and> \<not> pc_startupWaiting p \<and> pc_epoch p \<noteq> None \<longrightarrow> pc_timer p \<noteq> None \<and>
      ((\<forall>v. \<not> stop v) \<and> (\<forall>x\<in>set (pc_queue p). pk_at x \<le> now) \<longrightarrow>
        (\<forall>k. delivered k (snd (pc_step stop p (PvTimer now))) = pending k p)))"
proof -
  have i: "pc_open p \<or> shut p" using pc.run_inv [OF pc_inv_new, of es stop w] by (simp add: pc_inv_def p_def)
  have a: "pc_queue p = [] \<and> pc_bootstrap p = [] \<and> pc_timer p = None \<and> \<not> pc_admissionTimer p \<and> \<not> pc_audioTimer p" if "pc_closed p"
    using i that open_live by (auto simp: shut_def)
  have b: "held_bytes p \<le> 4194304 \<and> length (pc_queue p) + length (pc_bootstrap p) \<le> 1024" if "\<not> pc_closed p"
    using i that by (auto simp: shut_def pc_open_def pc_core_def room_ok_def PACER_MAX_BYTES_def PACER_MAX_PACKETS_def)
  have t: "pc_timer p \<noteq> None" if "\<not> pc_closed p" "pc_queue p \<noteq> []" "\<not> pc_startupWaiting p" "pc_epoch p \<noteq> None"
    using i that by (auto simp: shut_def pc_open_def armed_def)
  have f: "delivered k (snd (pc_step stop p (PvTimer now))) = pending k p"
    if h: "\<not> pc_closed p" "pc_queue p \<noteq> []" "\<not> pc_startupWaiting p" "pc_epoch p \<noteq> None" "\<forall>v. \<not> stop v" "\<forall>x\<in>set (pc_queue p). pk_at x \<le> now" for k
  proof -
    have o: "pc_open p" using i h(1) by (auto simp: shut_def)
    define p0 where "p0 = p\<lparr>pc_timer := None\<rparr>"
    obtain p1 outs where d: "pc_drain stop now p0 = (p1, outs)" by fastforce
    have r: "pc_step stop p (PvTimer now) = (pc_arm now p1, outs)" using t [OF h(1-4)] d by (auto simp: pc_fire_def p0_def)
    have "pc_queue p1 = []" "\<not> pc_closed p1" using drain_all [OF h(5), of p0 now] h(1, 6) d by (simp_all add: p0_def)
    moreover have "outcome pc_open (\<lambda>k. pending k p) (\<lambda>k. []) (pc_arm now p1, outs)" using fire_outcome [OF o, of stop now] r by simp
    moreover have "pc_closed (pc_arm now p1) = pc_closed p1" by (simp add: pc_arm_def)
    ultimately have "delivered k outs @ pending k p1 = pending k p" and "pc_queue p1 = []"
      by (auto simp: outcome_def shut_def)
    moreover have "pc_bootstrap p1 = []"
      using drain_all [OF h(5), of p0 now] h(1, 4, 6) d o by (auto simp: p0_def pc_open_def pc_core_def queue_ok_def)
    moreover have "pending k p1 = []" using calculation by (simp add: pending_def datas_def)
    ultimately show ?thesis using r by simp
  qed
  show ?thesis using a b t f by blast
qed

lemma pacer_bounded_and_live_witness:
  defines "p \<equiv> run_state (pc_step (\<lambda>_. False)) (pc_new 0) [PvVideo 0 (Some \<lparr> fc_timestamp = 7, fc_epoch = 1, fc_formatChanged = False \<rparr>) [1]]"
  shows "pc_timer p \<noteq> None \<and> delivered MkVideo (snd (pc_step (\<lambda>_. False) p (PvTimer 6000))) = [[1]]"
proof -
  have p: "\<not> pc_closed p" "pc_queue p = [\<lparr> pk_at = 6000, pk_kind = MkVideo, pk_data = [1] \<rparr>]" "\<not> pc_startupWaiting p" "pc_epoch p \<noteq> None"
    "pending MkVideo p = [[1]]"
    by (simp_all add: p_def pc_new_def pc_acceptVideo_def pc_open_epoch_def pc_schedule_video_def seq_do_def pc_enqueue_def pc_full_def
        pc_checkLimit_def pc_arm_def pc_admitStartup_def Let_def PACER_MAX_BYTES_def PACER_MAX_PACKETS_def BUFFER_MILLISECONDS_def
        pending_def datas_def)
  then show ?thesis
    using pacer_bounded_and_live [of "\<lambda>_. False" 0 "[PvVideo 0 (Some \<lparr> fc_timestamp = 7, fc_epoch = 1, fc_formatChanged = False \<rparr>) [1]]" 6000]
    unfolding p_def [symmetric] by simp
qed

end
