(* ===== verification/Startup_Cache.thy ===== *)
theory Startup_Cache
  imports Machine Ppcs_Normalizer "HOL-Library.Sublist"
begin

text \<open>
  \<open>VideoParameterSetCache\<close> and \<open>StreamCadenceTracker\<close> of \<open>stream/live-stream-manager.ts\<close>: the retained decoder
  start of an Annex-B stream that arrives in arbitrary pieces (codec identification, parameter sets, the
  current group of pictures) and the timing counters. Offsets into the stream are integers because the
  code starts them at -1.
\<close>

unbundle bit_operations_syntax

definition MAX_PARAMETER_SET_SCAN_BYTES :: nat where "MAX_PARAMETER_SET_SCAN_BYTES = 1024 * 1024"
definition MAX_STARTUP_GROUP_BYTES :: nat where "MAX_STARTUP_GROUP_BYTES = 1024 * 1024"
definition RANDOM_ACCESS_SCAN_OVERLAP :: nat where "RANDOM_ACCESS_SCAN_OVERLAP = 8"

section \<open>Start codes\<close>

definition start_length :: "bytes \<Rightarrow> nat \<Rightarrow> nat" where
  "start_length data i =
     (if data ! (i + 2) = 1 then 3 else if data ! (i + 2) = 0 \<and> data ! (i + 3) = 1 then 4 else 0)"

function annexb_from :: "nat \<Rightarrow> bytes \<Rightarrow> (nat \<times> nat) list" where
  "annexb_from i data =
     (if \<not> i + 3 < length data then []
      else if data ! i \<noteq> 0 \<or> data ! (i + 1) \<noteq> 0 then annexb_from (i + 1) data
      else (let n = start_length data i in
            if n = 0 then annexb_from (i + 1) data else (i, i + n) # annexb_from (i + n) data))"
  by pat_completeness auto
termination
  by (relation "measure (\<lambda>(i, data). length data - i)") auto

declare annexb_from.simps [simp del]

definition annexBStarts :: "bytes \<Rightarrow> (nat \<times> nat) list" where
  "annexBStarts data = annexb_from 0 data"

definition byte_at :: "bytes \<Rightarrow> nat \<Rightarrow> byte option" where
  "byte_at data i = (if i < length data then Some (data ! i) else None)"

fun nal_kind :: "video_codec \<Rightarrow> byte \<Rightarrow> byte" where
  "nal_kind H264 header = header AND 0x1f"
| "nal_kind H265 header = drop_bit 1 header AND 0x3f"

fun random_access :: "video_codec \<Rightarrow> byte \<Rightarrow> bool" where
  "random_access H264 header = (nal_kind H264 header = 5)"
| "random_access H265 header = (nal_kind H265 header \<ge> 19 \<and> nal_kind H265 header \<le> 21)"

fun slice_offset :: "video_codec \<Rightarrow> nat" where
  "slice_offset H264 = 1"
| "slice_offset H265 = 2"

section \<open>State\<close>

record vcache =
  vc_pending :: bytes
  vc_codec :: "video_codec option"
  vc_observedCodec :: "video_codec option"
  vc_alternateVps :: "bytes option"
  vc_alternateSps :: "bytes option"
  vc_alternatePps :: "bytes option"
  vc_openingChunks :: "bytes list"
  vc_openingBytes :: nat
  vc_openingHeaders :: "bytes option"
  vc_pictureHeadersPayloadOffset :: int
  vc_pictureHeaders :: "bytes option"
  vc_unidentifiedChunks :: "bytes list"
  vc_unidentifiedBytes :: nat
  vc_receivedBytes :: int
  vc_lastScannedPayload :: int
  vc_randomAccessPictures :: nat
  vc_keyframeContinuationNals :: nat
  vc_startupGroupOverflows :: nat
  vc_openingCurrent :: bool
  vc_scanTail :: bytes
  vc_vps :: "bytes option"
  vc_sps :: "bytes option"
  vc_pps :: "bytes option"

definition vc_new :: vcache where
  "vc_new = \<lparr> vc_pending = [], vc_codec = None, vc_observedCodec = None, vc_alternateVps = None, vc_alternateSps = None,
     vc_alternatePps = None, vc_openingChunks = [], vc_openingBytes = 0, vc_openingHeaders = None,
     vc_pictureHeadersPayloadOffset = -1, vc_pictureHeaders = None, vc_unidentifiedChunks = [], vc_unidentifiedBytes = 0,
     vc_receivedBytes = 0, vc_lastScannedPayload = -1, vc_randomAccessPictures = 0, vc_keyframeContinuationNals = 0,
     vc_startupGroupOverflows = 0, vc_openingCurrent = False, vc_scanTail = [], vc_vps = None, vc_sps = None, vc_pps = None \<rparr>"

definition join3 :: "bytes option \<Rightarrow> bytes option \<Rightarrow> bytes option \<Rightarrow> bytes option" where
  "join3 a b c = (case (a, b, c) of (Some x, Some y, Some z) \<Rightarrow> Some (x @ y @ z) | _ \<Rightarrow> None)"

definition vc_bootstrap :: "vcache \<Rightarrow> bytes option" where
  "vc_bootstrap c = (case vc_codec c of
     Some H265 \<Rightarrow> join3 (vc_vps c) (vc_sps c) (vc_pps c)
   | Some H264 \<Rightarrow> join3 (Some []) (vc_sps c) (vc_pps c)
   | None \<Rightarrow> None)"

definition vc_startup :: "vcache \<Rightarrow> bytes option" where
  "vc_startup c =
     (let headers = (case vc_openingHeaders c of None \<Rightarrow> vc_bootstrap c | Some h \<Rightarrow> Some h) in
      case headers of
        None \<Rightarrow> None
      | Some h \<Rightarrow> if vc_openingCurrent c then Some (h @ concat (vc_openingChunks c)) else None)"

definition vc_startupIncludesLatest :: "vcache \<Rightarrow> bool" where
  "vc_startupIncludesLatest c = vc_openingCurrent c"

definition vc_diagnostics :: "vcache \<Rightarrow> nat \<times> nat \<times> nat" where
  "vc_diagnostics c = (vc_randomAccessPictures c, vc_keyframeContinuationNals c, vc_startupGroupOverflows c)"

definition vc_selectCodec :: "video_codec \<Rightarrow> vcache \<Rightarrow> vcache" where
  "vc_selectCodec codec c = c\<lparr>vc_codec := Some codec, vc_observedCodec := None, vc_vps := None, vc_sps := None, vc_pps := None,
     vc_alternateVps := None, vc_alternateSps := None, vc_alternatePps := None, vc_pictureHeaders := None,
     vc_pictureHeadersPayloadOffset := -1, vc_openingChunks := [], vc_openingBytes := 0, vc_openingHeaders := None,
     vc_openingCurrent := False, vc_randomAccessPictures := 0, vc_keyframeContinuationNals := 0, vc_startupGroupOverflows := 0\<rparr>"

section \<open>Parameter sets\<close>

definition vc_capturePictureHeaders :: "bytes \<Rightarrow> nat \<Rightarrow> int \<Rightarrow> vcache \<Rightarrow> vcache" where
  "vc_capturePictureHeaders data payload base c =
     (case (vc_codec c, byte_at data payload) of
        (Some codec, Some header) \<Rightarrow>
          (case byte_at data (payload + slice_offset codec) of
             None \<Rightarrow> c
           | Some sl \<Rightarrow>
               if \<not> random_access codec header \<or> sl AND 0x80 = 0 \<or> base + int payload \<le> vc_pictureHeadersPayloadOffset c then c
               else c\<lparr>vc_pictureHeadersPayloadOffset := base + int payload, vc_pictureHeaders := vc_bootstrap c\<rparr>)
      | _ \<Rightarrow> c)"

definition both :: "'a option \<Rightarrow> 'b option \<Rightarrow> bool" where
  "both a b \<longleftrightarrow> a \<noteq> None \<and> b \<noteq> None"

text \<open>The branches of the loop over complete NAL units, in their order.\<close>

definition accept_h264 :: "byte \<Rightarrow> bytes \<Rightarrow> vcache \<Rightarrow> vcache" where
  "accept_h264 t nal c =
     (let c = (if t = 7 then c\<lparr>vc_sps := Some nal\<rparr> else c\<lparr>vc_pps := Some nal\<rparr>) in
      if both (vc_sps c) (vc_pps c) then c\<lparr>vc_observedCodec := Some H264\<rparr> else c)"

definition accept_h265 :: "byte \<Rightarrow> bytes \<Rightarrow> vcache \<Rightarrow> vcache" where
  "accept_h265 t nal c =
     (let c = (if t = 32 then c\<lparr>vc_vps := Some nal\<rparr> else if t = 33 then c\<lparr>vc_sps := Some nal\<rparr> else c\<lparr>vc_pps := Some nal\<rparr>) in
      if both (vc_vps c) (vc_sps c) \<and> vc_pps c \<noteq> None then c\<lparr>vc_observedCodec := Some H265\<rparr> else c)"

definition alternate_h264 :: "byte \<Rightarrow> bytes \<Rightarrow> vcache \<Rightarrow> vcache" where
  "alternate_h264 t nal c =
     (let c = (if t = 7 then c\<lparr>vc_alternateSps := Some nal\<rparr> else c\<lparr>vc_alternatePps := Some nal\<rparr>) in
      if both (vc_alternateSps c) (vc_alternatePps c)
      then (vc_selectCodec H264 c)\<lparr>vc_sps := vc_alternateSps c, vc_pps := vc_alternatePps c, vc_observedCodec := Some H264\<rparr>
      else c)"

definition alternate_h265 :: "byte \<Rightarrow> bytes \<Rightarrow> vcache \<Rightarrow> vcache" where
  "alternate_h265 t nal c =
     (let c = (if t = 32 then c\<lparr>vc_alternateVps := Some nal\<rparr> else if t = 33 then c\<lparr>vc_alternateSps := Some nal\<rparr>
               else c\<lparr>vc_alternatePps := Some nal\<rparr>) in
      if both (vc_alternateVps c) (vc_alternateSps c) \<and> vc_alternatePps c \<noteq> None
      then (vc_selectCodec H265 c)\<lparr>vc_vps := vc_alternateVps c, vc_sps := vc_alternateSps c, vc_pps := vc_alternatePps c,
        vc_observedCodec := Some H265\<rparr>
      else c)"

definition identify_h265 :: "byte \<Rightarrow> bytes \<Rightarrow> vcache \<Rightarrow> vcache" where
  "identify_h265 t nal c = c\<lparr>vc_codec := Some H265, vc_vps := (if t = 32 then Some nal else None),
     vc_sps := (if t = 33 then Some nal else None), vc_pps := (if t = 34 then Some nal else None)\<rparr>"

definition identify_h264 :: "byte \<Rightarrow> bytes \<Rightarrow> vcache \<Rightarrow> vcache" where
  "identify_h264 t nal c =
     (let c = (if t = 7 then c\<lparr>vc_sps := Some nal\<rparr> else c\<lparr>vc_pps := Some nal\<rparr>) in
      if both (vc_sps c) (vc_pps c) then c\<lparr>vc_codec := Some H264\<rparr> else c)"

definition vc_nal :: "byte \<Rightarrow> bytes \<Rightarrow> vcache \<Rightarrow> vcache" where
  "vc_nal header nal c =
     (let a = nal_kind H264 header; b = nal_kind H265 header; is4 = (a = 7 \<or> a = 8); is5 = (b = 32 \<or> b = 33 \<or> b = 34) in
      if vc_codec c = Some H264 \<and> is4 then accept_h264 a nal c
      else if vc_codec c = Some H265 \<and> is5 then accept_h265 b nal c
      else if vc_codec c = Some H265 \<and> is4 then alternate_h264 a nal c
      else if vc_codec c = Some H264 \<and> header AND 1 = 0 \<and> is5 then alternate_h265 b nal c
      else if vc_codec c = None \<and> header AND 1 = 0 \<and> is5 then identify_h265 b nal c
      else if vc_codec c = None \<and> is4 then identify_h264 a nal c
      else c)"

fun vc_nals :: "bytes \<Rightarrow> int \<Rightarrow> (nat \<times> nat) list \<Rightarrow> vcache \<Rightarrow> vcache" where
  "vc_nals data base ((i, p) # (j, q) # rest) c =
     vc_nals data base ((j, q) # rest) (vc_capturePictureHeaders data p base (vc_nal (data ! p) (slice i j data) c))"
| "vc_nals data base [(i, p)] c = (vc_capturePictureHeaders data p base c)\<lparr>vc_pending := drop i data\<rparr>"
| "vc_nals data base [] c = c"

definition vc_scanParameterSets :: "bytes \<Rightarrow> vcache \<Rightarrow> vcache" where
  "vc_scanParameterSets chunk c =
     (let base = vc_receivedBytes c - int (length (vc_pending c)); data = vc_pending c @ chunk; starts = annexBStarts data in
      if length starts < 2
      then (let c = (case starts of [] \<Rightarrow> c | s # _ \<Rightarrow> vc_capturePictureHeaders data (snd s) base c) in
            c\<lparr>vc_pending := (if length data \<le> MAX_PARAMETER_SET_SCAN_BYTES then data else drop (length data - 3) data)\<rparr>)
      else vc_nals data base starts c)"

section \<open>Pushing a chunk\<close>

fun drop_unidentified :: "bytes list \<Rightarrow> nat \<Rightarrow> bytes list \<times> nat" where
  "drop_unidentified [] n = ([], n)"
| "drop_unidentified (x # xs) n = (if n > MAX_STARTUP_GROUP_BYTES then drop_unidentified xs (n - length x) else (x # xs, n))"

definition picture_step ::
    "video_codec \<Rightarrow> bytes \<Rightarrow> int \<Rightarrow> vcache \<times> (nat \<times> int) option \<Rightarrow> nat \<times> nat \<Rightarrow> vcache \<times> (nat \<times> int) option" where
  "picture_step codec scan base acc start =
     (case (acc, start) of ((c, found), (i, p)) \<Rightarrow>
        (case byte_at scan p of
           None \<Rightarrow> acc
         | Some header \<Rightarrow>
             (let absolute = base + int p in
              case byte_at scan (p + slice_offset codec) of
                None \<Rightarrow> acc
              | Some sl \<Rightarrow>
                  if \<not> random_access codec header \<or> absolute \<le> vc_lastScannedPayload c then acc
                  else if sl AND 0x80 \<noteq> 0
                  then (c\<lparr>vc_lastScannedPayload := absolute, vc_randomAccessPictures := vc_randomAccessPictures c + 1\<rparr>, Some (i, absolute))
                  else (c\<lparr>vc_lastScannedPayload := absolute, vc_keyframeContinuationNals := vc_keyframeContinuationNals c + 1\<rparr>, found))))"

definition vc_retain :: "bytes \<Rightarrow> bytes \<Rightarrow> (nat \<times> int) option \<Rightarrow> vcache \<Rightarrow> vcache" where
  "vc_retain scan chunk found c =
     (case found of
        Some (i, payload) \<Rightarrow>
          c\<lparr>vc_openingChunks := [drop i scan], vc_openingBytes := length scan - i,
            vc_openingHeaders := (if vc_pictureHeadersPayloadOffset c = payload then vc_pictureHeaders c else vc_bootstrap c),
            vc_openingCurrent := True\<rparr>
      | None \<Rightarrow>
          if vc_openingCurrent c
          then c\<lparr>vc_openingChunks := vc_openingChunks c @ [chunk], vc_openingBytes := vc_openingBytes c + length chunk\<rparr> else c)"

definition vc_limit :: "vcache \<Rightarrow> vcache" where
  "vc_limit c =
     (if vc_openingCurrent c \<and> vc_openingBytes c > MAX_STARTUP_GROUP_BYTES
      then c\<lparr>vc_startupGroupOverflows := vc_startupGroupOverflows c + 1, vc_openingChunks := [], vc_openingBytes := 0,
        vc_openingHeaders := None, vc_pictureHeaders := None, vc_pictureHeadersPayloadOffset := -1, vc_openingCurrent := False\<rparr>
      else c)"

definition vc_declare :: "video_codec option \<Rightarrow> vcache \<Rightarrow> vcache" where
  "vc_declare declared c =
     (case declared of
        None \<Rightarrow> c
      | Some d \<Rightarrow> if vc_codec c \<noteq> Some d \<and> vc_bootstrap c = None \<and> vc_observedCodec c = None then vc_selectCodec d c else c)"

definition vc_push :: "bytes \<Rightarrow> video_codec option \<Rightarrow> vcache \<Rightarrow> vcache" where
  "vc_push chunk declared c0 =
     (let c = vc_scanParameterSets chunk (vc_declare declared c0);
          tail = vc_scanTail c; window = tail @ chunk; windowOffset = vc_receivedBytes c - int (length tail);
          c = c\<lparr>vc_receivedBytes := vc_receivedBytes c + int (length chunk),
                vc_scanTail := drop (length window - RANDOM_ACCESS_SCAN_OVERLAP) window\<rparr> in
      case vc_codec c of
        None \<Rightarrow>
          (let (chunks, n) = drop_unidentified (vc_unidentifiedChunks c @ [chunk]) (vc_unidentifiedBytes c + length chunk) in
           c\<lparr>vc_unidentifiedChunks := chunks, vc_unidentifiedBytes := n\<rparr>)
      | Some codec \<Rightarrow>
          (let revisit = vc_codec c0 = None \<and> vc_unidentifiedBytes c > 0;
               scan = (if revisit then concat (vc_unidentifiedChunks c) @ chunk else window);
               scanOffset = (if revisit then vc_receivedBytes c - int (length scan) else windowOffset);
               c = c\<lparr>vc_unidentifiedChunks := [], vc_unidentifiedBytes := 0\<rparr>;
               (c, found) = foldl (picture_step codec scan scanOffset) (c, None) (annexBStarts scan) in
           vc_limit (vc_retain scan chunk found c)))"

section \<open>Cadence\<close>

record cadence =
  cd_firstAt :: "real option"
  cd_lastAt :: "real option"
  cd_samples :: nat
  cd_maximumGap :: real
  cd_gaps500 :: nat
  cd_gaps1000 :: nat
  cd_gaps2000 :: nat

definition cd_new :: cadence where
  "cd_new = \<lparr> cd_firstAt = None, cd_lastAt = None, cd_samples = 0, cd_maximumGap = 0, cd_gaps500 = 0, cd_gaps1000 = 0, cd_gaps2000 = 0 \<rparr>"

text \<open>None is a time that is not finite.\<close>

definition cd_record :: "real option \<Rightarrow> cadence \<Rightarrow> cadence" where
  "cd_record at_ms c =
     (case at_ms of
        None \<Rightarrow> c
      | Some t \<Rightarrow>
          (let c = (if cd_firstAt c = None then c\<lparr>cd_firstAt := Some t\<rparr> else c);
               c = (case cd_lastAt c of
                   None \<Rightarrow> c
                 | Some l \<Rightarrow>
                     (let gap = max 0 (t - l) in
                      c\<lparr>cd_maximumGap := max (cd_maximumGap c) gap,
                        cd_gaps500 := cd_gaps500 c + (if gap \<ge> 500 then 1 else 0),
                        cd_gaps1000 := cd_gaps1000 c + (if gap \<ge> 1000 then 1 else 0),
                        cd_gaps2000 := cd_gaps2000 c + (if gap \<ge> 2000 then 1 else 0)\<rparr>)) in
           c\<lparr>cd_lastAt := Some t, cd_samples := cd_samples c + 1\<rparr>))"

definition cd_summary :: "cadence \<Rightarrow> nat \<times> int \<times> int \<times> nat \<times> nat \<times> nat" where
  "cd_summary c =
     (let duration = (case (cd_firstAt c, cd_lastAt c) of (Some a, Some b) \<Rightarrow> b - a | _ \<Rightarrow> 0) in
      (cd_samples c, js_round duration, js_round (cd_maximumGap c), cd_gaps500 c, cd_gaps1000 c, cd_gaps2000 c))"

section \<open>Start codes are found where they are\<close>

definition start_at :: "bytes \<Rightarrow> nat \<times> nat \<Rightarrow> bool" where
  "start_at data s \<longleftrightarrow> (case s of (i, p) \<Rightarrow> (p = i + 3 \<or> p = i + 4) \<and> p \<le> length data \<and>
     slice i p data = replicate (p - i - 1) 0 @ [1])"

lemma start_length_at:
  assumes "i + 3 < length data" "data ! i = 0" "data ! (i + 1) = 0" "start_length data i \<noteq> 0"
  shows "start_at data (i, i + start_length data i)"
proof -
  have d: "drop i data = data ! i # data ! (i + 1) # data ! (i + 2) # data ! (i + 3) # drop (i + 4) data"
    using assms(1) by (simp add: Cons_nth_drop_Suc eval_nat_numeral)
  consider (three) "data ! (i + 2) = 1" "start_length data i = 3"
    | (four) "data ! (i + 2) = 0" "data ! (i + 3) = 1" "start_length data i = 4"
    using assms(4) by (auto simp: start_length_def split: if_splits)
  then show ?thesis
  proof cases
    case three
    then show ?thesis using assms(1-3) d by (simp add: start_at_def slice_def numeral_2_eq_2)
  next
    case four
    then show ?thesis using assms(1-3) d by (simp add: start_at_def slice_def numeral_3_eq_3)
  qed
qed

lemma annexb_from_sound:
  "(\<forall>s\<in>set (annexb_from i data). start_at data s \<and> i \<le> fst s) \<and> sorted_wrt (\<lambda>s t. snd s \<le> fst t) (annexb_from i data)"
proof (induction i data rule: annexb_from.induct)
  case (1 i data)
  show ?case
  proof (cases "i + 3 < length data")
    case False
    then show ?thesis by (simp add: annexb_from.simps [of i data])
  next
    case inside: True
    show ?thesis
    proof (cases "data ! i \<noteq> 0 \<or> data ! (i + 1) \<noteq> 0")
      case True
      then have "annexb_from i data = annexb_from (i + 1) data" using inside by (subst annexb_from.simps) simp
      then show ?thesis using 1(1) inside True by force
    next
      case z: False
      define n where "n = start_length data i"
      show ?thesis
      proof (cases "n = 0")
        case True
        then have "annexb_from i data = annexb_from (i + 1) data" using inside z by (subst annexb_from.simps) (simp add: n_def)
        then show ?thesis using 1(2) [OF _ _ n_def] inside z True by force
      next
        case False
        then have e: "annexb_from i data = (i, i + n) # annexb_from (i + n) data"
          using inside z by (subst annexb_from.simps) (simp add: n_def Let_def)
        have "start_at data (i, i + n)" using start_length_at [of i data] inside z False by (simp add: n_def)
        then show ?thesis using 1(3) [OF _ _ n_def] inside z False unfolding e by force
      qed
    qed
  qed
qed

lemma annexBStarts_sound: "s \<in> set (annexBStarts data) \<Longrightarrow> start_at data s"
  using annexb_from_sound [of 0 data] by (simp add: annexBStarts_def)

lemma annexBStarts_sorted: "sorted_wrt (\<lambda>s t. snd s \<le> fst t) (annexBStarts data)"
  using annexb_from_sound [of 0 data] by (simp add: annexBStarts_def)

section \<open>Typed parameter sets and decoder starts\<close>

text \<open>A whole NAL unit of the stream received: it begins with a start code and a header byte that is good, holds no further start
  code, and is followed by the next start code in the stream.\<close>

definition begins_nal :: "bytes \<Rightarrow> bool" where
  "begins_nal b \<longleftrightarrow> (\<exists>n. (n = 3 \<or> n = 4) \<and> take n b = replicate (n - 1) 0 @ [1])"

definition nal_of :: "bytes \<Rightarrow> (byte \<Rightarrow> bool) \<Rightarrow> bytes \<Rightarrow> bool" where
  "nal_of S good nal \<longleftrightarrow> (\<exists>n. (n = 3 \<or> n = 4) \<and> n < length nal \<and> take n nal = replicate (n - 1) 0 @ [1] \<and> good (nal ! n) \<and>
     \<not> sublist [0, 0, 1] (drop n nal)) \<and> (\<exists>before after. S = before @ nal @ after \<and> begins_nal after)"

abbreviation param_nal :: "bytes \<Rightarrow> video_codec \<Rightarrow> byte \<Rightarrow> bytes \<Rightarrow> bool" where
  "param_nal S codec t \<equiv> nal_of S (\<lambda>h. nal_kind codec h = t)"

text \<open>The parameter sets a decoder of the codec needs, in its order.\<close>

fun header_ok :: "bytes \<Rightarrow> video_codec \<Rightarrow> bytes \<Rightarrow> bool" where
  "header_ok S H264 h = (\<exists>s p. h = s @ p \<and> param_nal S H264 7 s \<and> param_nal S H264 8 p)"
| "header_ok S H265 h = (\<exists>v s p. h = v @ s @ p \<and> param_nal S H265 32 v \<and> param_nal S H265 33 s \<and> param_nal S H265 34 p)"

lemma begins_nal_append: "begins_nal b \<Longrightarrow> begins_nal (b @ T)"
  unfolding begins_nal_def
proof (elim exE conjE)
  fix n assume n: "n = 3 \<or> n = 4" "take n b = replicate (n - 1) 0 @ [1]"
  have "length (take n b) = n" unfolding n(2) using n(1) by auto
  then have "n \<le> length b" by simp
  then show "\<exists>n. (n = 3 \<or> n = 4) \<and> take n (b @ T) = replicate (n - 1) 0 @ [1]" using n by (intro exI [of _ n]) simp
qed

lemma nal_of_append: "nal_of S good nal \<Longrightarrow> nal_of (S @ T) good nal"
proof -
  assume n: "nal_of S good nal"
  then obtain a b where "S = a @ nal @ b" "begins_nal b" by (auto simp: nal_of_def)
  then have "\<exists>before after. S @ T = before @ nal @ after \<and> begins_nal after"
    using begins_nal_append [of b T] by (intro exI [of _ a] exI [of _ "b @ T"]) simp
  then show ?thesis using n unfolding nal_of_def by blast
qed

lemma header_ok_append: "header_ok S k h \<Longrightarrow> header_ok (S @ T) k h"
proof (cases k)
  case H264
  assume "header_ok S k h"
  then obtain s p where "h = s @ p" "param_nal S H264 7 s" "param_nal S H264 8 p" by (auto simp: H264 simp del: nal_kind.simps)
  then show ?thesis unfolding H264 header_ok.simps using nal_of_append by blast
next
  case H265
  assume "header_ok S k h"
  then obtain v s p where "h = v @ s @ p" "param_nal S H265 32 v" "param_nal S H265 33 s" "param_nal S H265 34 p"
    by (auto simp: H265 simp del: nal_kind.simps)
  then show ?thesis unfolding H265 header_ok.simps using nal_of_append by blast
qed

text \<open>The first slice of a random-access picture.\<close>

definition picture_start :: "video_codec \<Rightarrow> bytes \<Rightarrow> bool" where
  "picture_start codec s \<longleftrightarrow> (\<exists>n. (n = 3 \<or> n = 4) \<and> n + slice_offset codec < length s \<and> take n s = replicate (n - 1) 0 @ [1] \<and>
     random_access codec (s ! n) \<and> s ! (n + slice_offset codec) AND 0x80 \<noteq> 0)"

lemma picture_start_append: "picture_start codec s \<Longrightarrow> picture_start codec (s @ t)"
  by (auto simp: picture_start_def nth_append)

definition sets_ok :: "bytes \<Rightarrow> vcache \<Rightarrow> bool" where
  "sets_ok S c \<longleftrightarrow> (case vc_codec c of
     None \<Rightarrow> pred_option (param_nal S H264 7) (vc_sps c) \<and> pred_option (param_nal S H264 8) (vc_pps c) \<and>
       vc_alternateVps c = None \<and> vc_alternateSps c = None \<and> vc_alternatePps c = None
   | Some H264 \<Rightarrow> pred_option (param_nal S H264 7) (vc_sps c) \<and> pred_option (param_nal S H264 8) (vc_pps c) \<and>
       pred_option (param_nal S H265 32) (vc_alternateVps c) \<and> pred_option (param_nal S H265 33) (vc_alternateSps c) \<and>
       pred_option (param_nal S H265 34) (vc_alternatePps c)
   | Some H265 \<Rightarrow> pred_option (param_nal S H265 32) (vc_vps c) \<and> pred_option (param_nal S H265 33) (vc_sps c) \<and>
       pred_option (param_nal S H265 34) (vc_pps c) \<and>
       pred_option (param_nal S H264 7) (vc_alternateSps c) \<and> pred_option (param_nal S H264 8) (vc_alternatePps c))"

definition heads_ok :: "bytes \<Rightarrow> vcache \<Rightarrow> bool" where
  "heads_ok S c \<longleftrightarrow> (\<forall>h. vc_openingHeaders c = Some h \<or> vc_pictureHeaders c = Some h \<longrightarrow> (\<exists>k. vc_codec c = Some k \<and> header_ok S k h)) \<and>
     (vc_codec c = None \<longrightarrow> \<not> vc_openingCurrent c)"

lemma sets_ok_append: "sets_ok S c \<Longrightarrow> sets_ok (S @ T) c"
  by (auto simp: sets_ok_def nal_of_append split: option.splits video_codec.splits elim!: option.pred_mono_strong)

lemma heads_ok_append: "heads_ok S c \<Longrightarrow> heads_ok (S @ T) c"
  using header_ok_append unfolding heads_ok_def by blast

lemma bootstrap_ok: "sets_ok S c \<Longrightarrow> vc_bootstrap c = Some h \<Longrightarrow> \<exists>k. vc_codec c = Some k \<and> header_ok S k h"
  by (cases "vc_codec c"; cases "the (vc_codec c)")
    (auto simp: sets_ok_def vc_bootstrap_def join3_def split: option.splits)

text \<open>What scanning for parameter sets may change: everything retained of the current group stays, or is dropped with the codec.\<close>

definition scanned :: "bytes \<Rightarrow> vcache \<Rightarrow> vcache \<Rightarrow> bool" where
  "scanned S c c' \<longleftrightarrow> sets_ok S c' \<and> heads_ok S c' \<and> vc_scanTail c' = vc_scanTail c \<and> vc_receivedBytes c' = vc_receivedBytes c \<and>
     vc_unidentifiedChunks c' = vc_unidentifiedChunks c \<and> vc_unidentifiedBytes c' = vc_unidentifiedBytes c \<and>
     (vc_codec c' = None \<longrightarrow> vc_codec c = None) \<and>
     (vc_openingChunks c' = vc_openingChunks c \<and> vc_openingBytes c' = vc_openingBytes c \<and>
        vc_openingCurrent c' = vc_openingCurrent c \<and> (vc_codec c \<noteq> None \<longrightarrow> vc_codec c' = vc_codec c) \<or>
      vc_openingChunks c' = [] \<and> vc_openingBytes c' = 0 \<and> \<not> vc_openingCurrent c')"

lemma scanned_refl: "sets_ok S c \<Longrightarrow> heads_ok S c \<Longrightarrow> scanned S c c"
  by (simp add: scanned_def)

lemma scanned_trans: "scanned S a b \<Longrightarrow> scanned S b c \<Longrightarrow> scanned S a c"
  by (auto simp: scanned_def)

lemma selectCodec_scanned: "scanned S c (vc_selectCodec k c)"
  by (cases k) (simp_all add: scanned_def vc_selectCodec_def sets_ok_def heads_ok_def)

lemma type_both: "nal_kind H264 h = t \<Longrightarrow> t \<noteq> 0 \<Longrightarrow> h \<noteq> 0" "nal_kind H265 h = t \<Longrightarrow> t \<noteq> 0 \<Longrightarrow> h \<noteq> 0"
  by auto

text \<open>One NAL unit, with its header byte known to be the one at its start code.\<close>

definition nal_fits :: "bytes \<Rightarrow> byte \<Rightarrow> bytes \<Rightarrow> bool" where
  "nal_fits S header nal \<longleftrightarrow> (header \<noteq> 0 \<longrightarrow> nal_of S (\<lambda>h. h = header) nal)"

lemma nal_fits_type: "nal_fits S header nal \<Longrightarrow> nal_kind k header = t \<Longrightarrow> t \<noteq> 0 \<Longrightarrow> param_nal S k t nal"
  using type_both [of header t] by (cases k) (auto simp: nal_fits_def nal_of_def)

lemma accept_h264_scanned:
  assumes "sets_ok S c" "heads_ok S c" "vc_codec c = Some H264" "t = 7 \<and> param_nal S H264 7 nal \<or> t = 8 \<and> param_nal S H264 8 nal"
  shows "scanned S c (accept_h264 t nal c)"
  using assms by (auto simp: scanned_def sets_ok_def heads_ok_def accept_h264_def Let_def)

lemma accept_h265_scanned:
  assumes "sets_ok S c" "heads_ok S c" "vc_codec c = Some H265"
    "t = 32 \<and> param_nal S H265 32 nal \<or> t = 33 \<and> param_nal S H265 33 nal \<or> t = 34 \<and> param_nal S H265 34 nal"
  shows "scanned S c (accept_h265 t nal c)"
  using assms by (auto simp: scanned_def sets_ok_def heads_ok_def accept_h265_def Let_def)

lemma alternate_h264_scanned:
  assumes "sets_ok S c" "heads_ok S c" "vc_codec c = Some H265" "t = 7 \<and> param_nal S H264 7 nal \<or> t = 8 \<and> param_nal S H264 8 nal"
  shows "scanned S c (alternate_h264 t nal c)"
  using assms by (auto simp: scanned_def sets_ok_def heads_ok_def alternate_h264_def vc_selectCodec_def Let_def)

lemma alternate_h265_scanned:
  assumes "sets_ok S c" "heads_ok S c" "vc_codec c = Some H264"
    "t = 32 \<and> param_nal S H265 32 nal \<or> t = 33 \<and> param_nal S H265 33 nal \<or> t = 34 \<and> param_nal S H265 34 nal"
  shows "scanned S c (alternate_h265 t nal c)"
  using assms by (auto simp: scanned_def sets_ok_def heads_ok_def alternate_h265_def vc_selectCodec_def Let_def)

lemma identify_h265_scanned:
  assumes "sets_ok S c" "heads_ok S c" "vc_codec c = None"
    "t = 32 \<and> param_nal S H265 32 nal \<or> t = 33 \<and> param_nal S H265 33 nal \<or> t = 34 \<and> param_nal S H265 34 nal"
  shows "scanned S c (identify_h265 t nal c)"
  using assms by (auto simp: scanned_def sets_ok_def heads_ok_def identify_h265_def)

lemma identify_h264_scanned:
  assumes "sets_ok S c" "heads_ok S c" "vc_codec c = None" "t = 7 \<and> param_nal S H264 7 nal \<or> t = 8 \<and> param_nal S H264 8 nal"
  shows "scanned S c (identify_h264 t nal c)"
  using assms by (auto simp: scanned_def sets_ok_def heads_ok_def identify_h264_def Let_def)

lemma vc_nal_scanned:
  assumes "sets_ok S c" "heads_ok S c" "nal_fits S header nal"
  shows "scanned S c (vc_nal header nal c)"
proof -
  define a where "a = nal_kind H264 header"
  define b where "b = nal_kind H265 header"
  note fits = nal_fits_type [OF assms(3)]
  have f4: "a = 7 \<and> param_nal S H264 7 nal \<or> a = 8 \<and> param_nal S H264 8 nal" if "a = 7 \<or> a = 8"
    using that fits [OF a_def [symmetric]] by (elim disjE) (simp_all del: nal_kind.simps)
  have f5: "b = 32 \<and> param_nal S H265 32 nal \<or> b = 33 \<and> param_nal S H265 33 nal \<or> b = 34 \<and> param_nal S H265 34 nal"
    if "b = 32 \<or> b = 33 \<or> b = 34"
    using that fits [OF b_def [symmetric]] by (elim disjE) (simp_all del: nal_kind.simps)
  show ?thesis
    unfolding vc_nal_def Let_def a_def [symmetric] b_def [symmetric]
    using accept_h264_scanned [OF assms(1, 2) _ f4] accept_h265_scanned [OF assms(1, 2) _ f5]
      alternate_h264_scanned [OF assms(1, 2) _ f4] alternate_h265_scanned [OF assms(1, 2) _ f5]
      identify_h265_scanned [OF assms(1, 2) _ f5] identify_h264_scanned [OF assms(1, 2) _ f4] scanned_refl [OF assms(1, 2)]
    by (simp only: split: if_split) blast
qed

lemma capture_scanned:
  assumes "sets_ok S c" "heads_ok S c"
  shows "scanned S c (vc_capturePictureHeaders data p base c)"
proof -
  define c' where "c' = c\<lparr>vc_pictureHeadersPayloadOffset := base + int p, vc_pictureHeaders := vc_bootstrap c\<rparr>"
  have s: "sets_ok S c'" using assms(1) unfolding sets_ok_def c'_def by (simp split: option.splits video_codec.splits)
  have h: "heads_ok S c'" using assms bootstrap_ok [of S c] by (auto simp: heads_ok_def c'_def)
  have "scanned S c c'" unfolding scanned_def by (intro conjI s h) (simp_all add: c'_def)
  moreover have "vc_capturePictureHeaders data p base c = c \<or> vc_capturePictureHeaders data p base c = c'"
    by (auto simp: vc_capturePictureHeaders_def c'_def split: option.splits)
  ultimately show ?thesis using scanned_refl [OF assms] by auto
qed

lemma scanned_sets: "scanned S c c' \<Longrightarrow> sets_ok S c'" and scanned_heads: "scanned S c c' \<Longrightarrow> heads_ok S c'"
  by (simp_all add: scanned_def)

lemma scanned_pending: "scanned S c c' \<Longrightarrow> scanned S c (c'\<lparr>vc_pending := x\<rparr>)"
proof -
  assume a: "scanned S c c'"
  have "sets_ok S (c'\<lparr>vc_pending := x\<rparr>)"
    using scanned_sets [OF a] unfolding sets_ok_def by (simp split: option.splits video_codec.splits)
  moreover have "heads_ok S (c'\<lparr>vc_pending := x\<rparr>)" using scanned_heads [OF a] by (simp add: heads_ok_def)
  ultimately show ?thesis using a by (simp add: scanned_def)
qed

lemma start_at_zero: "start_at data (i, p) \<Longrightarrow> i < length data \<and> data ! i = 0"
proof -
  assume s: "start_at data (i, p)"
  then have l: "i < p" "p \<le> length data" by (auto simp: start_at_def)
  have "slice i p data = replicate (p - i - 1) 0 @ [1]" using s by (simp add: start_at_def)
  moreover have "p - i - 1 > 0" using s by (auto simp: start_at_def)
  ultimately have "slice i p data ! 0 = 0" by (simp add: nth_append)
  moreover have "slice i p data ! 0 = data ! i" using l by (simp add: slice_def)
  ultimately show ?thesis using l by simp
qed

lemma slice_fits:
  assumes "suffix data S" "start_at data (i, p)" "start_at data (j, q)" "p \<le> j" "\<not> sublist [0, 0, 1] (slice p j data)"
  shows "nal_fits S (data ! p) (slice i j data)"
  unfolding nal_fits_def
proof
  assume h: "data ! p \<noteq> 0"
  have z: "j < length data" "data ! j = 0" using start_at_zero [OF assms(3)] by simp_all
  have pj: "p < j" using h assms(4) z(2) by (cases "p = j") auto
  have n: "p - i = 3 \<or> p - i = 4" "i \<le> p" using assms(2) by (auto simp: start_at_def)
  have "take (p - i) (slice i j data) = slice i p data" using pj n by (simp add: slice_def min_def)
  also have "\<dots> = replicate (p - i - 1) 0 @ [1]" using assms(2) by (simp add: start_at_def)
  finally have "take (p - i) (slice i j data) = replicate (p - i - 1) 0 @ [1]" .
  moreover have "slice i j data ! (p - i) = data ! p" "p - i < length (slice i j data)" using pj n z(1) by (auto simp: slice_def)
  moreover have "drop (p - i) (slice i j data) = slice p j data" using pj n by (simp add: slice_def drop_take)
  moreover obtain a where a: "S = a @ data" using assms(1) by (auto simp: suffix_def)
  have "S = (a @ take i data) @ slice i j data @ drop j data"
    using a pj n append_take_drop_id [of i data] append_take_drop_id [of "j - i" "drop i data"] by (simp add: slice_def del: append_take_drop_id)
  moreover have "begins_nal (drop j data)"
    unfolding begins_nal_def using assms(3) by (intro exI [of _ "q - j"]) (auto simp: start_at_def slice_def)
  ultimately show "nal_of S (\<lambda>h. h = data ! p) (slice i j data)" unfolding nal_of_def using n(1) assms(5) by metis
qed

text \<open>Between two consecutive finds there is no start code.\<close>

lemma annexb_next:
  "annexb_from i data = (j, q) # rest \<Longrightarrow>
    rest = annexb_from q data \<and> (\<forall>x. i \<le> x \<longrightarrow> x < j \<longrightarrow> \<not> (data ! x = 0 \<and> data ! (x + 1) = 0 \<and> data ! (x + 2) = 1))"
proof (induction i data rule: annexb_from.induct)
  case (1 i data)
  have l: "i + 3 < length data" using 1(4) by (rule contrapos_pp) (simp add: annexb_from.simps [of i data])
  have step: "?case" if "annexb_from (i + 1) data = (j, q) # rest" "rest = annexb_from q data \<and>
      (\<forall>x. i + 1 \<le> x \<longrightarrow> x < j \<longrightarrow> \<not> (data ! x = 0 \<and> data ! (x + 1) = 0 \<and> data ! (x + 2) = 1))"
      "\<not> (data ! i = 0 \<and> data ! (i + 1) = 0 \<and> data ! (i + 2) = 1)"
  proof (intro conjI allI impI)
    show "rest = annexb_from q data" using that(2) by simp
    fix x assume "i \<le> x" "x < j"
    then show "\<not> (data ! x = 0 \<and> data ! (x + 1) = 0 \<and> data ! (x + 2) = 1)" using that(2, 3) by (cases "x = i") simp_all
  qed
  show ?case
  proof (cases "data ! i \<noteq> 0 \<or> data ! (i + 1) \<noteq> 0")
    case True
    then have e: "annexb_from (i + 1) data = (j, q) # rest" using 1(4) l by (subst (asm) annexb_from.simps) simp
    have c: "\<not> (data ! i = 0 \<and> data ! (i + 1) = 0 \<and> data ! (i + 2) = 1)" using True by blast
    show ?thesis by (rule step [OF e 1(1) [OF _ True e] c]) (use l in simp)
  next
    case z: False
    show ?thesis
    proof (cases "start_length data i = 0")
      case True
      then have e: "annexb_from (i + 1) data = (j, q) # rest" using 1(4) l z by (subst (asm) annexb_from.simps) simp
      have c: "\<not> (data ! i = 0 \<and> data ! (i + 1) = 0 \<and> data ! (i + 2) = 1)" using True by (auto simp: start_length_def)
      show ?thesis by (rule step [OF e 1(2) [OF _ z refl True e] c]) (use l in simp)
    next
      case False
      then show ?thesis using 1(4) l z by (subst (asm) annexb_from.simps) (auto simp: Let_def)
    qed
  qed
qed

lemma no_code_between:
  assumes "\<forall>x. p \<le> x \<longrightarrow> x < j \<longrightarrow> \<not> (data ! x = 0 \<and> data ! (x + 1) = 0 \<and> data ! (x + 2) = 1)" "j \<le> length data"
  shows "\<not> sublist [0, 0, 1] (slice p j data)"
proof
  assume "sublist [0, 0, 1] (slice p j data)"
  then obtain u v where e: "slice p j data = u @ [0, 0, 1] @ v" by (auto simp: sublist_def)
  have "length (slice p j data) = length u + 3 + length v" unfolding e by simp
  then have l: "length u + 3 \<le> j - p" using assms(2) by (simp add: slice_def)
  have n: "data ! (p + length u + k) = (u @ [0, 0, 1] @ v) ! (length u + k)" if "k < 3" for k
    using that l assms(2) unfolding e [symmetric] by (simp add: slice_def add.assoc)
  have "data ! (p + length u) = 0" "data ! (p + length u + 1) = 0" "data ! (p + length u + 2) = 1"
    using n [of 0] n [of 1] n [of 2] by (simp_all add: nth_append)
  then show False using assms(1) l by auto
qed

fun spaced :: "bytes \<Rightarrow> (nat \<times> nat) list \<Rightarrow> bool" where
  "spaced data ((i, p) # (j, q) # rest) = (\<not> sublist [0, 0, 1] (slice p j data) \<and> spaced data ((j, q) # rest))"
| "spaced data starts = True"

lemma annexBStarts_spaced: "spaced data (annexBStarts data)"
proof -
  have "\<forall>s\<in>set starts. start_at data s \<Longrightarrow> annexb_from i data = starts \<Longrightarrow> spaced data starts" for starts i
  proof (induction data starts arbitrary: i rule: spaced.induct)
    case (1 data a p j q rest)
    have r: "annexb_from p data = (j, q) # rest" using annexb_next [OF 1(3)] by simp
    have "j \<le> length data" using 1(2) start_at_zero [of data j q] by simp
    then have "\<not> sublist [0, 0, 1] (slice p j data)" using no_code_between annexb_next [OF r] by blast
    then show ?case using 1(1) [OF _ r] 1(2) by simp
  qed simp_all
  then show ?thesis using annexBStarts_sound by (metis annexBStarts_def)
qed

lemma vc_nals_scanned:
  "\<lbrakk>suffix data S; spaced data starts; \<forall>s\<in>set starts. start_at data s; sorted_wrt (\<lambda>s t. snd s \<le> fst t) starts; sets_ok S c; heads_ok S c\<rbrakk> \<Longrightarrow>
     scanned S c (vc_nals data base starts c)"
proof (induction data base starts c rule: vc_nals.induct)
  case (1 data base i p j q rest c)
  have s: "start_at data (i, p)" "start_at data (j, q)" "p \<le> j" "\<not> sublist [0, 0, 1] (slice p j data)"
    using 1(3, 4, 5) by auto
  have "nal_fits S (data ! p) (slice i j data)" by (rule slice_fits [OF 1(2) s])
  then have a: "scanned S c (vc_nal (data ! p) (slice i j data) c)" by (rule vc_nal_scanned [OF 1(6, 7)])
  have b: "scanned S c (vc_capturePictureHeaders data p base (vc_nal (data ! p) (slice i j data) c))" (is "scanned S c ?c1")
    by (rule scanned_trans [OF a capture_scanned [OF scanned_sets [OF a] scanned_heads [OF a]]])
  have "scanned S ?c1 (vc_nals data base ((j, q) # rest) ?c1)"
    by (rule 1(1)) (use 1(2-5) scanned_sets [OF b] scanned_heads [OF b] in auto)
  then show ?case unfolding vc_nals.simps by (rule scanned_trans [OF b])
next
  case (2 data base i p c)
  then show ?case using capture_scanned [of S c data p base] by (simp add: scanned_pending)
next
  case (3 data base c)
  then show ?case by (simp add: scanned_refl)
qed

lemma scan_scanned:
  assumes "sets_ok S c" "heads_ok S c" "suffix (vc_pending c @ chunk) S"
  shows "scanned S c (vc_scanParameterSets chunk c)"
proof -
  define data where "data = vc_pending c @ chunk"
  have st: "\<forall>s\<in>set (annexBStarts data). start_at data s" using annexBStarts_sound by blast
  have n: "scanned S c (vc_nals data base (annexBStarts data) c)" for base
    by (rule vc_nals_scanned [OF assms(3) [folded data_def] annexBStarts_spaced st annexBStarts_sorted assms(1, 2)])
  have k: "scanned S c ((case annexBStarts data of [] \<Rightarrow> c | s # _ \<Rightarrow> vc_capturePictureHeaders data (snd s) base c)\<lparr>vc_pending := x\<rparr>)" for base x
    by (rule scanned_pending) (use capture_scanned [OF assms(1, 2)] scanned_refl [OF assms(1, 2)] in \<open>cases "annexBStarts data"; simp\<close>)
  show ?thesis unfolding vc_scanParameterSets_def Let_def data_def [symmetric] using n k by simp
qed

lemma vc_nal_pending: "vc_pending (vc_capturePictureHeaders data p base c) = vc_pending c" "vc_pending (vc_nal header nal c) = vc_pending c"
    "vc_pending (vc_declare d c) = vc_pending c"
  by (auto simp: vc_capturePictureHeaders_def vc_nal_def accept_h264_def accept_h265_def alternate_h264_def alternate_h265_def identify_h264_def
      identify_h265_def vc_declare_def vc_selectCodec_def Let_def split: option.split)

lemma vc_nals_pending: "starts \<noteq> [] \<Longrightarrow> suffix (vc_pending (vc_nals data base starts c)) data"
  by (induction data base starts c rule: vc_nals.induct) (simp_all add: suffix_drop)

lemma scan_pending: "suffix (vc_pending (vc_scanParameterSets chunk c)) (vc_pending c @ chunk)"
proof -
  define data where "data = vc_pending c @ chunk"
  have "suffix (vc_pending (vc_nals data base (annexBStarts data) c)) data" if "\<not> length (annexBStarts data) < 2" for base
    using that by (intro vc_nals_pending) auto
  then show ?thesis unfolding vc_scanParameterSets_def Let_def data_def [symmetric] by (simp add: suffix_drop)
qed

lemma declare_scanned: "sets_ok S c \<Longrightarrow> heads_ok S c \<Longrightarrow> scanned S c (vc_declare d c)"
  by (cases d) (auto simp: vc_declare_def intro: scanned_refl selectCodec_scanned)


section \<open>Every retained start is decodable\<close>

text \<open>The state agrees with the bytes received so far.\<close>

definition cache_inv :: "bytes \<Rightarrow> vcache \<Rightarrow> bool" where
  "cache_inv S c \<longleftrightarrow> sets_ok S c \<and> heads_ok S c \<and> suffix (vc_pending c) S \<and> suffix (vc_scanTail c) S \<and>
     (vc_codec c = None \<longrightarrow> suffix (concat (vc_unidentifiedChunks c)) S \<and>
        vc_unidentifiedBytes c = length (concat (vc_unidentifiedChunks c))) \<and>
     (vc_openingCurrent c \<longrightarrow> (\<exists>k. vc_codec c = Some k \<and> picture_start k (concat (vc_openingChunks c))) \<and>
        suffix (concat (vc_openingChunks c)) S \<and> vc_openingBytes c = length (concat (vc_openingChunks c)) \<and>
        vc_openingBytes c \<le> MAX_STARTUP_GROUP_BYTES)"

lemma cache_inv_new: "cache_inv [] vc_new"
  by (simp add: cache_inv_def vc_new_def sets_ok_def heads_ok_def)

lemma drop_unidentified_suffix:
  "n = length (concat xs) \<Longrightarrow> suffix (concat (fst (drop_unidentified xs n))) (concat xs) \<and>
     snd (drop_unidentified xs n) = length (concat (fst (drop_unidentified xs n)))"
proof (induction xs n rule: drop_unidentified.induct)
  case (2 x xs n)
  then show ?case by (auto intro: suffix_appendI)
qed simp

lemma picture_start_found:
  assumes "start_at scan (i, p)" "byte_at scan p = Some header" "random_access codec header"
    "byte_at scan (p + slice_offset codec) = Some sl" "sl AND 0x80 \<noteq> 0"
  shows "picture_start codec (drop i scan)"
proof -
  have n: "p - i = 3 \<or> p - i = 4" "i \<le> p" using assms(1) by (auto simp: start_at_def)
  have "take (p - i) (drop i scan) = replicate (p - i - 1) 0 @ [1]" using assms(1) by (simp add: start_at_def slice_def)
  moreover have "scan ! p = header" "scan ! (p + slice_offset codec) = sl" "p + slice_offset codec < length scan"
    using assms(2, 4) by (auto simp: byte_at_def split: if_splits)
  ultimately show ?thesis unfolding picture_start_def using n assms(3, 5) by (intro exI [of _ "p - i"]) (auto simp: algebra_simps)
qed

text \<open>The scan for pictures only counts, and what it finds is a picture.\<close>

definition counted :: "vcache \<Rightarrow> vcache \<Rightarrow> bool" where
  "counted c c' \<longleftrightarrow> c'\<lparr>vc_lastScannedPayload := 0, vc_randomAccessPictures := 0, vc_keyframeContinuationNals := 0\<rparr> =
     c\<lparr>vc_lastScannedPayload := 0, vc_randomAccessPictures := 0, vc_keyframeContinuationNals := 0\<rparr>"

lemma counted_refl: "counted c c"
  by (simp add: counted_def)

lemma counted_step:
  assumes "counted c0 c"
  shows "counted c0 (c\<lparr>vc_lastScannedPayload := l, vc_randomAccessPictures := r\<rparr>)"
    "counted c0 (c\<lparr>vc_lastScannedPayload := l, vc_keyframeContinuationNals := k\<rparr>)"
  using assms by (cases c0; cases c; simp add: counted_def)+

lemma counted_fields:
  assumes "counted c c'"
  shows "vc_codec c' = vc_codec c"
    "vc_openingChunks c' = vc_openingChunks c"
    "vc_openingBytes c' = vc_openingBytes c"
    "vc_openingCurrent c' = vc_openingCurrent c"
    "vc_scanTail c' = vc_scanTail c"
    "vc_pictureHeaders c' = vc_pictureHeaders c"
    "vc_openingHeaders c' = vc_openingHeaders c"
    "vc_vps c' = vc_vps c"
    "vc_sps c' = vc_sps c"
    "vc_pps c' = vc_pps c"
    "vc_alternateVps c' = vc_alternateVps c"
    "vc_alternateSps c' = vc_alternateSps c"
    "vc_alternatePps c' = vc_alternatePps c"
    "vc_pending c' = vc_pending c"
proof -
  note e = assms [unfolded counted_def]
  show "vc_codec c' = vc_codec c" using arg_cong [OF e, of vc_codec] by simp
  show "vc_openingChunks c' = vc_openingChunks c" using arg_cong [OF e, of vc_openingChunks] by simp
  show "vc_openingBytes c' = vc_openingBytes c" using arg_cong [OF e, of vc_openingBytes] by simp
  show "vc_openingCurrent c' = vc_openingCurrent c" using arg_cong [OF e, of vc_openingCurrent] by simp
  show "vc_scanTail c' = vc_scanTail c" using arg_cong [OF e, of vc_scanTail] by simp
  show "vc_pictureHeaders c' = vc_pictureHeaders c" using arg_cong [OF e, of vc_pictureHeaders] by simp
  show "vc_openingHeaders c' = vc_openingHeaders c" using arg_cong [OF e, of vc_openingHeaders] by simp
  show "vc_vps c' = vc_vps c" using arg_cong [OF e, of vc_vps] by simp
  show "vc_sps c' = vc_sps c" using arg_cong [OF e, of vc_sps] by simp
  show "vc_pps c' = vc_pps c" using arg_cong [OF e, of vc_pps] by simp
  show "vc_alternateVps c' = vc_alternateVps c" using arg_cong [OF e, of vc_alternateVps] by simp
  show "vc_alternateSps c' = vc_alternateSps c" using arg_cong [OF e, of vc_alternateSps] by simp
  show "vc_alternatePps c' = vc_alternatePps c" using arg_cong [OF e, of vc_alternatePps] by simp
  show "vc_pending c' = vc_pending c" using arg_cong [OF e, of vc_pending] by simp
qed

lemma counted_ok:
  assumes "counted c c'"
  shows "sets_ok S c' = sets_ok S c" "heads_ok S c' = heads_ok S c" "vc_bootstrap c' = vc_bootstrap c"
  unfolding sets_ok_def heads_ok_def vc_bootstrap_def counted_fields [OF assms] by (rule refl)+

lemma picture_step_keeps:
  assumes "start_at scan s" "counted c0 c" "pred_option (\<lambda>(i, x). picture_start codec (drop i scan)) found"
    "picture_step codec scan base (c, found) s = (c', found')"
  shows "counted c0 c'" "pred_option (\<lambda>(i, x). picture_start codec (drop i scan)) found'"
proof -
  obtain i p where s: "s = (i, p)" by (cases s)
  have "counted c0 c' \<and> pred_option (\<lambda>(i, x). picture_start codec (drop i scan)) found'"
    using assms picture_start_found [of scan i p _ codec]
    by (auto simp: s picture_step_def Let_def counted_step split: option.splits if_splits)
  then show "counted c0 c'" "pred_option (\<lambda>(i, x). picture_start codec (drop i scan)) found'" by auto
qed

lemma pictures_keep:
  "\<lbrakk>\<forall>s\<in>set starts. start_at scan s; counted c0 c; pred_option (\<lambda>(i, x). picture_start codec (drop i scan)) found;
    foldl (picture_step codec scan base) (c, found) starts = (c', found')\<rbrakk> \<Longrightarrow>
   counted c0 c' \<and> pred_option (\<lambda>(i, x). picture_start codec (drop i scan)) found'"
proof (induction starts arbitrary: c found)
  case (Cons s starts)
  obtain c1 f1 where st: "picture_step codec scan base (c, found) s = (c1, f1)" by (cases "picture_step codec scan base (c, found) s")
  show ?case using Cons.prems picture_step_keeps [OF _ Cons.prems(2, 3) st] by (intro Cons.IH [of c1 f1]) (auto simp: st)
qed simp


lemma limit_inv:
  assumes "sets_ok S c" "heads_ok S c" "suffix (vc_scanTail c) S \<and> suffix (vc_pending c) S" "vc_codec c = Some k" "vc_openingCurrent c \<Longrightarrow>
      picture_start k (concat (vc_openingChunks c)) \<and> suffix (concat (vc_openingChunks c)) S \<and>
      vc_openingBytes c = length (concat (vc_openingChunks c))"
  shows "cache_inv S (vc_limit c)"
proof (cases "vc_openingCurrent c \<and> vc_openingBytes c > MAX_STARTUP_GROUP_BYTES")
  case True
  then have e: "vc_limit c = c\<lparr>vc_startupGroupOverflows := vc_startupGroupOverflows c + 1, vc_openingChunks := [],
    vc_openingBytes := 0, vc_openingHeaders := None, vc_pictureHeaders := None, vc_pictureHeadersPayloadOffset := -1,
    vc_openingCurrent := False\<rparr>" (is "_ = ?c")
    by (simp add: vc_limit_def)
  have "sets_ok S ?c" using assms(1) unfolding sets_ok_def by (simp split: option.splits video_codec.splits)
  moreover have "heads_ok S ?c" using assms(2) by (simp add: heads_ok_def)
  ultimately show ?thesis unfolding e cache_inv_def using assms(3, 4) by simp
next
  case False
  then have "vc_limit c = c" unfolding vc_limit_def by (rule if_not_P)
  then show ?thesis unfolding cache_inv_def using assms False by auto
qed

lemma retain_inv:
  assumes "sets_ok (S @ chunk) c" "heads_ok (S @ chunk) c" "suffix (vc_scanTail c) (S @ chunk) \<and> suffix (vc_pending c) (S @ chunk)" "vc_codec c = Some k"
    "suffix scan (S @ chunk)" "pred_option (\<lambda>(i, x). picture_start k (drop i scan)) found"
    "vc_openingCurrent c \<Longrightarrow> picture_start k (concat (vc_openingChunks c)) \<and> suffix (concat (vc_openingChunks c)) S \<and>
       vc_openingBytes c = length (concat (vc_openingChunks c))"
  shows "cache_inv (S @ chunk) (vc_limit (vc_retain scan chunk found c))"
proof (cases found)
  case None
  show ?thesis
  proof (cases "vc_openingCurrent c")
    case True
    define c' where "c' = c\<lparr>vc_openingChunks := vc_openingChunks c @ [chunk], vc_openingBytes := vc_openingBytes c + length chunk\<rparr>"
    have "vc_retain scan chunk found c = c'" using None True by (simp add: vc_retain_def c'_def)
    moreover have "sets_ok (S @ chunk) c'" using assms(1) unfolding sets_ok_def c'_def by (simp split: option.splits video_codec.splits)
    moreover have "heads_ok (S @ chunk) c'" using assms(2) by (simp add: heads_ok_def c'_def)
    ultimately show ?thesis using limit_inv [of "S @ chunk" c' k] assms(3, 4) assms(7) [OF True] picture_start_append
      by (simp add: c'_def suffix_append)
  next
    case False
    then show ?thesis using None limit_inv [OF assms(1-4)] by (simp add: vc_retain_def)
  qed
next
  case (Some f)
  obtain i x where f: "f = (i, x)" by (cases f)
  define h where "h = (if vc_pictureHeadersPayloadOffset c = x then vc_pictureHeaders c else vc_bootstrap c)"
  define c' where "c' = c\<lparr>vc_openingChunks := [drop i scan], vc_openingBytes := length scan - i, vc_openingHeaders := h,
    vc_openingCurrent := True\<rparr>"
  have e: "vc_retain scan chunk found c = c'" using Some f by (simp add: vc_retain_def c'_def h_def)
  have "sets_ok (S @ chunk) c'" using assms(1) unfolding sets_ok_def c'_def by (simp split: option.splits video_codec.splits)
  moreover have "header_ok (S @ chunk) k y" if "h = Some y" for y
    using that assms(2, 4) bootstrap_ok [OF assms(1), of y] by (auto simp: h_def heads_ok_def split: if_splits)
  then have "heads_ok (S @ chunk) c'" using assms(2, 4) by (auto simp: heads_ok_def c'_def)
  moreover have "suffix (drop i scan) (S @ chunk)" using assms(5) suffix_drop suffix_order.trans by blast
  ultimately show ?thesis unfolding e using limit_inv [of "S @ chunk" c' k] assms(3, 4, 6) Some f by (simp add: c'_def)
qed

lemma push_inv:
  assumes "cache_inv S c0"
  shows "cache_inv (S @ chunk) (vc_push chunk declared c0)"
proof -
  define d where "d = vc_declare declared c0"
  define c where "c = vc_scanParameterSets chunk d"
  have ok: "sets_ok (S @ chunk) c0" "heads_ok (S @ chunk) c0" and t0: "suffix (vc_scanTail c0) S" "suffix (vc_pending c0) S"
    using assms sets_ok_append [of S c0 chunk] heads_ok_append [of S c0 chunk] by (simp_all add: cache_inv_def)
  have sd: "scanned (S @ chunk) c0 d" unfolding d_def by (rule declare_scanned [OF ok])
  have sc: "scanned (S @ chunk) c0 c" unfolding c_def
    by (rule scanned_trans [OF sd scan_scanned [OF scanned_sets [OF sd] scanned_heads [OF sd]]])
      (use t0(2) in \<open>simp add: d_def vc_nal_pending suffix_append\<close>)
  have okc: "sets_ok (S @ chunk) c" "heads_ok (S @ chunk) c" by (rule scanned_sets [OF sc], rule scanned_heads [OF sc])
  define window where "window = vc_scanTail c @ chunk"
  have pd: "suffix (vc_pending c) (S @ chunk)"
    using scan_pending [of chunk d] t0(2) suffix_order.trans unfolding c_def d_def vc_nal_pending by (fastforce simp: suffix_append)
  have w: "suffix window (S @ chunk)" using t0(1) sc by (simp add: window_def scanned_def suffix_append)
  define c1 where "c1 = c\<lparr>vc_receivedBytes := vc_receivedBytes c + int (length chunk),
                vc_scanTail := drop (length window - RANDOM_ACCESS_SCAN_OVERLAP) window\<rparr>"
  have "suffix (vc_scanTail c1) (S @ chunk)" using w suffix_drop suffix_order.trans unfolding c1_def by fastforce
  then have t1: "suffix (vc_scanTail c1) (S @ chunk) \<and> suffix (vc_pending c1) (S @ chunk)" using pd by (simp add: c1_def)
  show ?thesis
  proof (cases "vc_codec c")
    case None
    then have n0: "vc_codec c0 = None" using sc by (simp add: scanned_def)
    have u: "suffix (concat (vc_unidentifiedChunks c)) S" "vc_unidentifiedBytes c = length (concat (vc_unidentifiedChunks c))"
      using assms n0 sc by (auto simp: cache_inv_def scanned_def)
    obtain xs n where dr: "drop_unidentified (vc_unidentifiedChunks c @ [chunk]) (vc_unidentifiedBytes c + length chunk) = (xs, n)"
      by (cases "drop_unidentified (vc_unidentifiedChunks c @ [chunk]) (vc_unidentifiedBytes c + length chunk)")
    have x: "suffix (concat xs) (concat (vc_unidentifiedChunks c) @ chunk)" "n = length (concat xs)"
      using drop_unidentified_suffix [of "vc_unidentifiedBytes c + length chunk" "vc_unidentifiedChunks c @ [chunk]"] u(2) dr by auto
    have xs: "suffix (concat xs) (S @ chunk)" using x(1) u(1) by (meson suffix_append suffix_order.trans same_suffix_suffix)
    define c2 where "c2 = c1\<lparr>vc_unidentifiedChunks := xs, vc_unidentifiedBytes := n\<rparr>"
    have e: "vc_push chunk declared c0 = c2"
      unfolding vc_push_def Let_def d_def [symmetric] c_def [symmetric] window_def [symmetric] c1_def [symmetric]
      using None dr by (simp add: c2_def c1_def)
    have "sets_ok (S @ chunk) c2" using okc(1) None by (simp add: sets_ok_def c2_def c1_def)
    moreover have "heads_ok (S @ chunk) c2" using okc(2) by (simp add: heads_ok_def c2_def c1_def)
    moreover have "\<not> vc_openingCurrent c2" using okc(2) None by (simp add: heads_ok_def c2_def c1_def)
    ultimately show ?thesis unfolding e cache_inv_def using t1 xs x(2) by (simp add: c2_def)
  next
    case (Some k)
    define scan where "scan = (if vc_codec c0 = None \<and> vc_unidentifiedBytes c > 0 then concat (vc_unidentifiedChunks c) @ chunk else window)"
    define c2 where "c2 = c1\<lparr>vc_unidentifiedChunks := [], vc_unidentifiedBytes := 0\<rparr>"
    have s: "suffix scan (S @ chunk)" using w assms sc by (auto simp: scan_def cache_inv_def scanned_def suffix_append)
    define base where "base = (if vc_codec c0 = None \<and> vc_unidentifiedBytes c > 0 then vc_receivedBytes c + int (length chunk) - int (length scan)
      else vc_receivedBytes c - int (length (vc_scanTail c)))"
    obtain c3 found where f: "foldl (picture_step k scan base) (c2, None) (annexBStarts scan) = (c3, found)"
      by (cases "foldl (picture_step k scan base) (c2, None) (annexBStarts scan)")
    have e: "vc_push chunk declared c0 = vc_limit (vc_retain scan chunk found c3)"
      unfolding vc_push_def Let_def d_def [symmetric] c_def [symmetric] window_def [symmetric] c1_def [symmetric]
      using Some f by (simp add: c2_def c1_def scan_def base_def cong: if_cong)
    have p: "counted c2 c3" "pred_option (\<lambda>(i, x). picture_start k (drop i scan)) found"
      using pictures_keep [OF _ counted_refl, of "annexBStarts scan" scan k None, OF _ _ f] annexBStarts_sound by auto
    have k2: "sets_ok (S @ chunk) c2" "heads_ok (S @ chunk) c2" using okc Some
      unfolding sets_ok_def heads_ok_def c2_def c1_def by (simp_all split: option.splits video_codec.splits)
    have k3: "sets_ok (S @ chunk) c3" "heads_ok (S @ chunk) c3" "vc_codec c3 = Some k" "suffix (vc_scanTail c3) (S @ chunk) \<and> suffix (vc_pending c3) (S @ chunk)"
      using k2 counted_ok [OF p(1)] counted_fields(1, 5, 14) [OF p(1)] t1 Some by (simp_all add: c2_def c1_def)
    have o: "vc_openingChunks c3 = vc_openingChunks c" "vc_openingBytes c3 = vc_openingBytes c" "vc_openingCurrent c3 = vc_openingCurrent c"
      using counted_fields(2-4) [OF p(1)] by (simp_all add: c2_def c1_def)
    have "picture_start k (concat (vc_openingChunks c)) \<and> suffix (concat (vc_openingChunks c)) S \<and>
        vc_openingBytes c = length (concat (vc_openingChunks c))" if "vc_openingCurrent c"
      using that sc assms Some by (auto simp: scanned_def cache_inv_def)
    then show ?thesis unfolding e using retain_inv [OF k3(1, 2, 4, 3) s p(2)] o by simp
  qed
qed


text \<open>The cache beside the bytes pushed so far.\<close>

definition cache_step :: "bytes \<times> vcache \<Rightarrow> bytes \<times> video_codec option \<Rightarrow> (bytes \<times> vcache) \<times> unit list" where
  "cache_step s e = ((fst s @ fst e, vc_push (fst e) (snd e) (snd s)), [])"

definition vc_pushes :: "(bytes \<times> video_codec option) list \<Rightarrow> vcache" where
  "vc_pushes es = foldl (\<lambda>c e. vc_push (fst e) (snd e) c) vc_new es"

interpretation vcm: invariant_machine cache_step "\<lambda>s. cache_inv (fst s) (snd s)" "\<lambda>_. True"
  by unfold_locales (simp add: cache_step_def push_inv)

lemma run_cache: "run_state cache_step (S, c) es = (S @ concat (map fst es), foldl (\<lambda>c e. vc_push (fst e) (snd e) c) c es)"
  by (induction es arbitrary: S c) (simp_all only: run_state_Cons, simp_all add: cache_step_def)

lemma pushes_inv: "cache_inv (concat (map fst es)) (vc_pushes es)"
  using vcm.run_inv [of "([], vc_new)" es] cache_inv_new by (simp add: run_cache vc_pushes_def)

lemma startup_parts: "vc_startup c = Some b \<Longrightarrow>
    vc_openingCurrent c \<and> (\<exists>h. b = h @ concat (vc_openingChunks c) \<and> (vc_openingHeaders c = Some h \<or> vc_bootstrap c = Some h))"
  by (auto simp: vc_startup_def Let_def split: option.splits if_splits)

text \<open>C22: whatever pieces the camera's stream arrives in and whatever codec the provider declares, the
  bytes a new decoder is started with are the parameter sets of the selected codec, in decoder order, each a whole NAL unit of
  the received stream (from its start code up to the next start code, with none between), followed by
  an unbroken piece of the received stream that reaches its latest byte, begins at the first slice of a random-access
  picture and is at most a megabyte long.\<close>

theorem startup_is_decodable:
  assumes "vc_startup (vc_pushes es) = Some b"
  shows "\<exists>k h s. vc_codec (vc_pushes es) = Some k \<and> b = h @ s \<and> header_ok (concat (map fst es)) k h \<and> picture_start k s \<and>
    suffix s (concat (map fst es)) \<and> length s \<le> MAX_STARTUP_GROUP_BYTES"
proof -
  note i = pushes_inv [of es, unfolded cache_inv_def]
  obtain h where h: "vc_openingCurrent (vc_pushes es)" "b = h @ concat (vc_openingChunks (vc_pushes es))"
      "vc_openingHeaders (vc_pushes es) = Some h \<or> vc_bootstrap (vc_pushes es) = Some h"
    using startup_parts [OF assms] by blast
  obtain k where k: "vc_codec (vc_pushes es) = Some k" "picture_start k (concat (vc_openingChunks (vc_pushes es)))"
    using i h(1) by blast
  have "header_ok (concat (map fst es)) k h" using h(3) i k(1) bootstrap_ok [of _ "vc_pushes es" h] by (auto simp: heads_ok_def)
  then show ?thesis using i h(1) k
    by (intro exI [of _ k] exI [of _ h] exI [of _ "concat (vc_openingChunks (vc_pushes es))"]) (simp add: h(2))
qed

text \<open>The two limits are compared as integers when the model is evaluated.\<close>

lemma limits_code [code_unfold]:
  "n > MAX_STARTUP_GROUP_BYTES \<longleftrightarrow> int n > 1048576" "n \<le> MAX_PARAMETER_SET_SCAN_BYTES \<longleftrightarrow> int n \<le> 1048576"
  by (simp_all add: MAX_STARTUP_GROUP_BYTES_def MAX_PARAMETER_SET_SCAN_BYTES_def)

text \<open>A small stream cut inside a start code.\<close>

definition sample_pushes :: "(bytes \<times> video_codec option) list" where
  "sample_pushes = [([0, 0, 0, 1, 0x67, 66, 0, 0, 1, 0x68, 7, 0, 0], None), ([0, 1, 0x65, 0x88, 1, 2], None)]"

lemma sample_startup: "vc_startup (vc_pushes sample_pushes) =
    Some [0, 0, 0, 1, 0x67, 66, 0, 0, 1, 0x68, 7, 0, 0, 0, 1, 0x65, 0x88, 1, 2]"
  by code_simp

lemma startup_is_decodable_witness:
  "\<exists>k h s. vc_codec (vc_pushes sample_pushes) = Some k \<and>
     [0, 0, 0, 1, 0x67, 66, 0, 0, 1, 0x68, 7, 0, 0, 0, 1, 0x65, 0x88, 1, 2] = h @ s \<and>
     header_ok (concat (map fst sample_pushes)) k h \<and> picture_start k s \<and> suffix s (concat (map fst sample_pushes)) \<and> length s \<le> MAX_STARTUP_GROUP_BYTES"
  by (rule startup_is_decodable [OF sample_startup])

section \<open>Cadence counters\<close>

lemma cadence_ordered: "let c = foldl (\<lambda>c t. cd_record t c) cd_new ts in
    cd_gaps2000 c \<le> cd_gaps1000 c \<and> cd_gaps1000 c \<le> cd_gaps500 c \<and> cd_gaps500 c \<le> cd_samples c - 1 \<and>
    (cd_lastAt c = None \<longleftrightarrow> cd_samples c = 0)"
proof (induction ts rule: rev_induct)
  case Nil
  then show ?case by (simp add: cd_new_def)
next
  case (snoc t ts)
  define c where "c = foldl (\<lambda>c t. cd_record t c) cd_new ts"
  show ?case using snoc unfolding foldl_append foldl.simps c_def [symmetric]
    by (cases t; cases "cd_lastAt c") (auto simp: cd_record_def Let_def)
qed

end
