(* ===== verification/Startup_Watch.thy ===== *)
theory Startup_Watch
  imports Machine Ppcs_Normalizer
begin

text \<open>
  \<open>observeOwnedStartup\<close> of \<open>stream/owned-startup-recovery.ts\<close>: the observation of a camera session's startup
  until it makes progress, is silent or stalls. The facts of the session and the flags of the stream and the
  signal are read again at every callback, so they are arguments of the events; so are the clock readings.
  A settled promise has no listener and no timer left: the callbacks of the model do nothing then.
\<close>

definition STARTUP_VIDEO_UNITS :: nat where "STARTUP_VIDEO_UNITS = 10"
definition STARTUP_STALL_MILLISECONDS :: real where "STARTUP_STALL_MILLISECONDS = 3000"

record startup_facts =
  sf_camId :: int
  sf_mediaStartAcknowledged :: nat
  sf_mediaStartAttempts :: nat
  sf_gatewayInfoAcknowledged :: nat
  sf_videoFrames :: nat
  sf_videoOutputFrames :: nat
  sf_commands :: "nat list"
  sf_videoCodec :: "video_codec option"
  sf_videoNalTypes :: "nat list"
  sf_closeReason :: string

datatype startup_observation = ObProgress | ObSilent | ObUnacknowledged | ObStalled | ObUnconfirmed

text \<open>The settlement: a resolved observation or one of the two errors.\<close>

datatype startup_settlement = Observed startup_observation | ObCancelled | ObEnded

fun hasDecoderReadyKeyframe :: "video_codec option \<Rightarrow> nat list \<Rightarrow> bool" where
  "hasDecoderReadyKeyframe (Some H264) types \<longleftrightarrow> 7 \<in> set types \<and> 8 \<in> set types \<and> 5 \<in> set types"
| "hasDecoderReadyKeyframe (Some H265) types \<longleftrightarrow>
     32 \<in> set types \<and> 33 \<in> set types \<and> 34 \<in> set types \<and> (19 \<in> set types \<or> 20 \<in> set types)"
| "hasDecoderReadyKeyframe None types \<longleftrightarrow> False"

definition acknowledgedStartupIsSilent :: "startup_facts \<Rightarrow> bool" where
  "acknowledgedStartupIsSilent f \<longleftrightarrow>
     sf_closeReason f = ''open'' \<and> sf_camId f > 0 \<and> sf_mediaStartAcknowledged f > 0 \<and>
     sf_videoFrames f = 0 \<and> sf_videoOutputFrames f = 0 \<and>
     1100 \<in> set (sf_commands f) \<and> list_all (\<lambda>command. command = 1100) (sf_commands f)"

definition unacknowledgedStartupIsSilent :: "startup_facts \<Rightarrow> bool" where
  "unacknowledgedStartupIsSilent f \<longleftrightarrow>
     sf_mediaStartAcknowledged f = 0 \<and> sf_mediaStartAttempts f > 0 \<and> sf_gatewayInfoAcknowledged f > 0 \<and>
     acknowledgedStartupIsSilent (f\<lparr>sf_mediaStartAcknowledged := 1\<rparr>)"

section \<open>The observation\<close>

record startup_watch =
  sw_finished :: bool
  sw_outputUnits :: nat
  sw_lastOutputAt :: "real option"

text \<open>What a callback reads: the signal, the stream, the facts and the clock.\<close>

record startup_reading =
  sr_aborted :: bool
  sr_sourceGone :: bool
  sr_facts :: startup_facts
  sr_now :: real

type_synonym watch_result = "startup_watch \<times> startup_settlement list"

definition sw_finish :: "startup_settlement \<Rightarrow> startup_watch \<Rightarrow> watch_result" where
  "sw_finish value w = (if sw_finished w then (w, []) else (w\<lparr>sw_finished := True\<rparr>, [value]))"

definition sw_progress :: "startup_reading \<Rightarrow> startup_watch \<Rightarrow> watch_result" where
  "sw_progress r w =
     (let f = sr_facts r in
      if sr_aborted r then sw_finish ObCancelled w
      else if sf_closeReason f \<noteq> ''open'' \<or> sr_sourceGone r then sw_finish ObEnded w
      else
        (let w = (if sf_videoOutputFrames f > sw_outputUnits w
                  then w\<lparr>sw_outputUnits := sf_videoOutputFrames f, sw_lastOutputAt := Some (sr_now r)\<rparr> else w) in
         if sw_outputUnits w \<ge> STARTUP_VIDEO_UNITS \<and> hasDecoderReadyKeyframe (sf_videoCodec f) (sf_videoNalTypes f)
         then sw_finish (Observed ObProgress) w else (w, [])))"

text \<open>The verdict at the deadline, with the clock read a second time.\<close>

definition deadline_verdict :: "startup_facts \<Rightarrow> real \<Rightarrow> startup_watch \<Rightarrow> startup_observation" where
  "deadline_verdict f now w =
     (if acknowledgedStartupIsSilent f then ObSilent
      else if unacknowledgedStartupIsSilent f then ObUnacknowledged
      else (case sw_lastOutputAt w of
          Some t \<Rightarrow>
            if sw_outputUnits w > 0 then
              if \<not> now - t \<ge> STARTUP_STALL_MILLISECONDS
              then (if hasDecoderReadyKeyframe (sf_videoCodec f) (sf_videoNalTypes f) then ObProgress else ObUnconfirmed)
              else if sf_camId f > 0 \<and> sf_mediaStartAcknowledged f > 0 \<and> 1100 \<in> set (sf_commands f) then ObStalled
              else ObUnconfirmed
            else ObUnconfirmed
        | None \<Rightarrow> ObUnconfirmed))"

definition sw_deadline :: "startup_reading \<Rightarrow> real \<Rightarrow> startup_watch \<Rightarrow> watch_result" where
  "sw_deadline r now w =
     (let (w1, o1) = sw_progress r w in
      if sw_finished w1 then (w1, o1)
      else (let (w2, o2) = sw_finish (Observed (deadline_verdict (sr_facts r) now w1)) w1 in (w2, o1 @ o2)))"

definition sw_start :: "startup_reading \<Rightarrow> watch_result" where
  "sw_start r =
     (let units = sf_videoOutputFrames (sr_facts r) in
      sw_progress r \<lparr> sw_finished = False, sw_outputUnits = units, sw_lastOutputAt = (if units > 0 then Some (sr_now r) else None) \<rparr>)"

datatype watch_event = WePoll startup_reading | WeDeadline startup_reading real | WeSourceEnded | WeAborted

fun sw_step :: "startup_watch \<Rightarrow> watch_event \<Rightarrow> watch_result" where
  "sw_step w (WePoll r) = (if sw_finished w then (w, []) else sw_progress r w)"
| "sw_step w (WeDeadline r now) = (if sw_finished w then (w, []) else sw_deadline r now w)"
| "sw_step w WeSourceEnded = sw_finish ObEnded w"
| "sw_step w WeAborted = sw_finish ObCancelled w"

definition observeOwnedStartup :: "startup_reading \<Rightarrow> watch_event list \<Rightarrow> watch_result" where
  "observeOwnedStartup r es =
     (let (w, o1) = sw_start r; (w', o2) = run sw_step w es in (w', o1 @ o2))"

section \<open>One settlement\<close>

fun ends_watch :: "watch_event \<Rightarrow> bool" where
  "ends_watch (WePoll r) \<longleftrightarrow> False"
| "ends_watch _ \<longleftrightarrow> True"

text \<open>The settlements of a step are exactly the step from open to finished.\<close>

definition settles :: "startup_watch \<Rightarrow> watch_result \<Rightarrow> bool" where
  "settles w r \<longleftrightarrow> (if sw_finished w then r = (w, []) else length (snd r) = (if sw_finished (fst r) then 1 else 0))"

lemma finish_settles: "settles w (sw_finish v w)"
  by (simp add: settles_def sw_finish_def)

lemma progress_settles: "\<not> sw_finished w \<Longrightarrow> settles w (sw_progress r w)"
  by (simp add: settles_def sw_finish_def sw_progress_def Let_def)

lemma step_settles: "settles w (sw_step w e)"
proof (cases e)
  case (WePoll r)
  then show ?thesis using progress_settles [of w r] by (simp add: settles_def)
next
  case (WeDeadline r now)
  then show ?thesis using progress_settles [of w r] by (auto simp: settles_def sw_deadline_def sw_finish_def split_beta Let_def)
next
  case WeSourceEnded
  then show ?thesis by (simp add: finish_settles)
next
  case WeAborted
  then show ?thesis by (simp add: finish_settles)
qed

lemma step_ends: "ends_watch e \<Longrightarrow> sw_finished (fst (sw_step w e))"
  by (cases e) (auto simp: sw_finish_def sw_deadline_def split_beta Let_def)

lemma run_settles: "settles w (run sw_step w es)"
proof (induction es arbitrary: w)
  case (Cons e es)
  obtain w1 o1 where s: "sw_step w e = (w1, o1)" by fastforce
  obtain w2 o2 where r: "run sw_step w1 es = (w2, o2)" by fastforce
  show ?case using step_settles [of w e] Cons [of w1] by (auto simp: settles_def s r split: if_splits)
qed (simp add: settles_def)

lemma run_ends: "list_ex ends_watch es \<Longrightarrow> sw_finished (run_state sw_step w es)"
proof (induction es arbitrary: w)
  case (Cons e es)
  show ?case
  proof (cases "ends_watch e")
    case True
    then have "sw_finished (fst (sw_step w e))" by (rule step_ends)
    then have "run_state sw_step (fst (sw_step w e)) es = fst (sw_step w e)"
      using run_settles [of "fst (sw_step w e)" es] by (simp add: settles_def)
    then show ?thesis using step_ends [OF True, of w] unfolding run_state_Cons by simp
  next
    case False
    then show ?thesis using Cons unfolding run_state_Cons by simp
  qed
qed simp

lemma observe_settles:
  "length (snd (observeOwnedStartup r es)) = (if sw_finished (fst (observeOwnedStartup r es)) then 1 else 0)"
proof -
  obtain w o1 where s: "sw_start r = (w, o1)" by fastforce
  obtain w' o2 where r: "run sw_step w es = (w', o2)" by fastforce
  have "length o1 = (if sw_finished w then 1 else 0)"
    using progress_settles [of "\<lparr> sw_finished = False, sw_outputUnits = sf_videoOutputFrames (sr_facts r),
        sw_lastOutputAt = (if sf_videoOutputFrames (sr_facts r) > 0 then Some (sr_now r) else None) \<rparr>" r] s
    by (simp add: settles_def sw_start_def Let_def)
  then show ?thesis using run_settles [of w es] by (auto simp: observeOwnedStartup_def s r settles_def split: if_splits)
qed

text \<open>C40: An observation of a camera startup settles at most once, and the deadline, a
  cancellation or the end of the stream always settle it, whatever was read before; from then on its callbacks do
  nothing.\<close>

theorem startup_observation_settles:
  assumes "list_ex ends_watch es"
  shows "\<exists>w v. observeOwnedStartup r es = (w, [v]) \<and> sw_finished w \<and> observeOwnedStartup r (es @ more_events) = (w, [v])"
proof -
  obtain w0 o0 where s: "sw_start r = (w0, o0)" by fastforce
  obtain w vs where o: "observeOwnedStartup r es = (w, vs)" by fastforce
  have f: "sw_finished w" using run_ends [OF assms, of w0] o by (auto simp: observeOwnedStartup_def s split_beta Let_def)
  then obtain v where v: "vs = [v]" using observe_settles [of r es] o by (auto simp: length_Suc_conv)
  have "run_state sw_step w0 es = w" using o by (auto simp: observeOwnedStartup_def s split_beta Let_def)
  then have "run sw_step (run_state sw_step w0 es) more_events = (w, [])"
    using run_settles [of w more_events] f by (simp add: settles_def)
  then have "observeOwnedStartup r (es @ more_events) = (w, vs)"
    using o by (simp add: observeOwnedStartup_def s run_append split_beta Let_def)
  then show ?thesis using o f v by simp
qed

definition quiet_reading :: startup_reading where
  "quiet_reading = \<lparr> sr_aborted = False, sr_sourceGone = False, sr_facts = \<lparr> sf_camId = 1, sf_mediaStartAcknowledged = 1,
     sf_mediaStartAttempts = 1, sf_gatewayInfoAcknowledged = 1, sf_videoFrames = 0, sf_videoOutputFrames = 0, sf_commands = [1100],
     sf_videoCodec = None, sf_videoNalTypes = [], sf_closeReason = ''open'' \<rparr>, sr_now = 0 \<rparr>"

lemma startup_observation_settles_witness:
  "\<exists>w v. observeOwnedStartup quiet_reading [WePoll quiet_reading, WeDeadline quiet_reading 5000] = (w, [v]) \<and> sw_finished w \<and>
     observeOwnedStartup quiet_reading ([WePoll quiet_reading, WeDeadline quiet_reading 5000] @ [WeAborted]) = (w, [v])"
  by (rule startup_observation_settles) simp

section \<open>What a verdict rests on\<close>

text \<open>The readings of the events, and beside each the second clock reading that the deadline takes (a poll takes none).\<close>

fun readings :: "watch_event list \<Rightarrow> startup_reading list" where
  "readings [] = []"
| "readings (WePoll r # es) = r # readings es"
| "readings (WeDeadline r now # es) = r # readings es"
| "readings (e # es) = readings es"

fun clocks :: "watch_event list \<Rightarrow> real option list" where
  "clocks [] = []"
| "clocks (WePoll r # es) = None # clocks es"
| "clocks (WeDeadline r now # es) = Some now # clocks es"
| "clocks (e # es) = clocks es"

lemma clocks_readings: "clocks es = [] \<longleftrightarrow> readings es = []"
  by (induction es rule: readings.induct) simp_all

definition output_of :: "startup_reading \<Rightarrow> nat" where
  "output_of r = sf_videoOutputFrames (sr_facts r)"

definition live_reading :: "startup_reading \<Rightarrow> bool" where
  "live_reading r \<longleftrightarrow> \<not> sr_aborted r \<and> \<not> sr_sourceGone r \<and> sf_closeReason (sr_facts r) = ''open''"

definition decoder_ready :: "startup_reading \<Rightarrow> bool" where
  "decoder_ready r \<longleftrightarrow> hasDecoderReadyKeyframe (sf_videoCodec (sr_facts r)) (sf_videoNalTypes (sr_facts r))"

definition delivered :: "startup_reading \<Rightarrow> bool" where
  "delivered r \<longleftrightarrow> sf_camId (sr_facts r) > 0 \<and> sf_mediaStartAcknowledged (sr_facts r) > 0 \<and> 1100 \<in> set (sf_commands (sr_facts r))"

definition no_media :: "startup_reading \<Rightarrow> bool" where
  "no_media r \<longleftrightarrow> sf_camId (sr_facts r) > 0 \<and> sf_videoFrames (sr_facts r) = 0 \<and> sf_videoOutputFrames (sr_facts r) = 0 \<and> set (sf_commands (sr_facts r)) = {1100}"

text \<open>New media was last seen at a reading: the first one that shows the largest count of all.\<close>

definition latest_output :: "startup_reading list \<Rightarrow> startup_reading \<Rightarrow> bool" where
  "latest_output rs r \<longleftrightarrow> output_of r > 0 \<and>
     (\<exists>a b. rs = a @ r # b \<and> (\<forall>s\<in>set a. output_of s < output_of r) \<and> (\<forall>s\<in>set b. output_of s \<le> output_of r))"

text \<open>The reasons of a verdict: the readings so far, the last one being that of the verdict, and the clock if it is the deadline's.\<close>

fun justified :: "startup_reading list \<Rightarrow> real option \<Rightarrow> startup_observation \<Rightarrow> bool" where
  "justified rs clock ObProgress \<longleftrightarrow> decoder_ready (last rs) \<and>
     (\<exists>r. latest_output rs r \<and>
       (output_of r \<ge> STARTUP_VIDEO_UNITS \<or> (\<exists>now. clock = Some now \<and> now - sr_now r < STARTUP_STALL_MILLISECONDS)))"
| "justified rs clock ObSilent \<longleftrightarrow> clock \<noteq> None \<and> no_media (last rs) \<and> sf_mediaStartAcknowledged (sr_facts (last rs)) > 0"
| "justified rs clock ObUnacknowledged \<longleftrightarrow> clock \<noteq> None \<and> no_media (last rs) \<and> sf_mediaStartAcknowledged (sr_facts (last rs)) = 0 \<and>
     sf_mediaStartAttempts (sr_facts (last rs)) > 0 \<and> sf_gatewayInfoAcknowledged (sr_facts (last rs)) > 0"
| "justified rs clock ObStalled \<longleftrightarrow> delivered (last rs) \<and>
     (\<exists>r now. latest_output rs r \<and> clock = Some now \<and> now - sr_now r \<ge> STARTUP_STALL_MILLISECONDS)"
| "justified rs clock ObUnconfirmed \<longleftrightarrow> (\<exists>now. clock = Some now \<and>
     ((\<forall>r\<in>set rs. output_of r = 0) \<or>
      (\<exists>r. latest_output rs r \<and>
        (if now - sr_now r < STARTUP_STALL_MILLISECONDS then \<not> decoder_ready (last rs) else \<not> delivered (last rs)))))"

definition watch_inv :: "startup_reading list \<Rightarrow> startup_watch \<Rightarrow> bool" where
  "watch_inv rs w \<longleftrightarrow> (\<forall>s\<in>set rs. output_of s \<le> sw_outputUnits w) \<and>
     (case sw_lastOutputAt w of None \<Rightarrow> sw_outputUnits w = 0
      | Some t \<Rightarrow> \<exists>r. latest_output rs r \<and> output_of r = sw_outputUnits w \<and> sr_now r = t)"

lemma latest_new: "\<forall>s\<in>set rs. output_of s < output_of r \<Longrightarrow> output_of r > 0 \<Longrightarrow> latest_output (rs @ [r]) r"
  unfolding latest_output_def by (intro conjI exI [of _ rs] exI [of _ "[]"]) simp_all

lemma latest_old: "latest_output rs s \<Longrightarrow> output_of r \<le> output_of s \<Longrightarrow> latest_output (rs @ [r]) s"
proof -
  assume s: "latest_output rs s" "output_of r \<le> output_of s"
  then obtain a b where "rs = a @ s # b" "\<forall>q\<in>set a. output_of q < output_of s" "\<forall>q\<in>set b. output_of q \<le> output_of s"
    by (auto simp: latest_output_def)
  then show ?thesis using s unfolding latest_output_def by (intro conjI exI [of _ a] exI [of _ "b @ [r]"]) auto
qed

lemma inv_advance:
  fixes r :: startup_reading
  assumes "watch_inv rs w"
  defines "w' \<equiv> (if sf_videoOutputFrames (sr_facts r) > sw_outputUnits w
    then w\<lparr>sw_outputUnits := sf_videoOutputFrames (sr_facts r), sw_lastOutputAt := Some (sr_now r)\<rparr> else w)"
  shows "watch_inv (rs @ [r]) w'"
proof (cases "output_of r > sw_outputUnits w")
  case True
  then have "latest_output (rs @ [r]) r" using assms(1) by (intro latest_new) (auto simp: watch_inv_def)
  then show ?thesis using True assms(1) unfolding watch_inv_def w'_def by (auto simp: output_of_def)
next
  case False
  then have "w' = w" by (simp add: w'_def output_of_def)
  moreover have "\<exists>q. latest_output (rs @ [r]) q \<and> output_of q = sw_outputUnits w \<and> sr_now q = sr_now s"
    if "latest_output rs s" "output_of s = sw_outputUnits w" for s
    using latest_old [OF that(1), of r] that(2) False by auto
  ultimately show ?thesis using False assms(1) unfolding watch_inv_def by (auto simp: not_less split: option.splits)
qed

lemma inv_units:
  assumes "watch_inv rs w" "sw_outputUnits w > 0"
  shows "\<exists>r. latest_output rs r \<and> output_of r = sw_outputUnits w \<and> sw_lastOutputAt w = Some (sr_now r)"
  using assms by (auto simp: watch_inv_def split: option.splits)

text \<open>A reading goes on with the observation, or ends it for a reason it shows.\<close>

lemma progress_result:
  assumes "\<not> sw_finished w" "watch_inv rs w"
  obtains (going) w' where "sw_progress r w = (w', [])" "\<not> sw_finished w'" "watch_inv (rs @ [r]) w'" "live_reading r"
  | (progress) w' where "sw_progress r w = (w', [Observed ObProgress])" "live_reading r" "\<And>clock. justified (rs @ [r]) clock ObProgress"
      "sw_finished w'"
  | (over) w' v where "sw_progress r w = (w', [v])" "v = ObCancelled \<or> v = ObEnded" "sw_finished w'"
proof -
  define f where "f = sr_facts r"
  define w' where "w' = (if sf_videoOutputFrames f > sw_outputUnits w
    then w\<lparr>sw_outputUnits := sf_videoOutputFrames f, sw_lastOutputAt := Some (sr_now r)\<rparr> else w)"
  have i: "watch_inv (rs @ [r]) w'" unfolding w'_def f_def by (rule inv_advance [OF assms(2)])
  have fin: "\<not> sw_finished w'" using assms(1) by (simp add: w'_def)
  show ?thesis
  proof (cases "live_reading r")
    case False
    then have "sw_progress r w = sw_finish (if sr_aborted r then ObCancelled else ObEnded) w"
      by (auto simp: live_reading_def sw_progress_def)
    then show ?thesis using assms(1) by (intro over [of "w\<lparr>sw_finished := True\<rparr>"]) (auto simp: sw_finish_def split: if_splits)
  next
    case live: True
    let ?go = "sw_outputUnits w' \<ge> STARTUP_VIDEO_UNITS \<and> hasDecoderReadyKeyframe (sf_videoCodec f) (sf_videoNalTypes f)"
    have e: "sw_progress r w = (if ?go then sw_finish (Observed ObProgress) w' else (w', []))"
      using live by (simp add: live_reading_def sw_progress_def Let_def w'_def f_def)
    show ?thesis
    proof (cases ?go)
      case True
      then obtain s where "latest_output (rs @ [r]) s" "output_of s = sw_outputUnits w'"
        using inv_units [OF i] by (auto simp: STARTUP_VIDEO_UNITS_def)
      then have "justified (rs @ [r]) clock ObProgress" for clock using True by (auto simp: f_def decoder_ready_def)
      then show ?thesis using progress live e True fin by (simp add: sw_finish_def)
    next
      case False
      then have "sw_progress r w = (w', [])" unfolding e by (rule if_not_P)
      then show ?thesis using going [of w'] live i fin by blast
    qed
  qed
qed

lemma silent_justified: "acknowledgedStartupIsSilent (sr_facts r) \<Longrightarrow> justified (rs @ [r]) (Some now) ObSilent"
  by (auto simp: acknowledgedStartupIsSilent_def list_all_iff no_media_def)

lemma unacknowledged_justified: "unacknowledgedStartupIsSilent (sr_facts r) \<Longrightarrow> justified (rs @ [r]) (Some now) ObUnacknowledged"
  by (auto simp: unacknowledgedStartupIsSilent_def acknowledgedStartupIsSilent_def list_all_iff no_media_def)

lemma verdict_justified:
  assumes "watch_inv (rs @ [r]) w"
  shows "justified (rs @ [r]) (Some now) (deadline_verdict (sr_facts r) now w)"
proof (cases "acknowledgedStartupIsSilent (sr_facts r) \<or> unacknowledgedStartupIsSilent (sr_facts r)")
  case True
  then show ?thesis
    using silent_justified [of r rs now] unacknowledged_justified [of r rs now] by (auto simp: deadline_verdict_def)
next
  case loud: False
  show ?thesis
  proof (cases "sw_outputUnits w > 0")
    case True
    obtain s where "latest_output (rs @ [r]) s" "sw_lastOutputAt w = Some (sr_now s)" using inv_units [OF assms True] by blast
    then show ?thesis using loud True by (auto simp: deadline_verdict_def decoder_ready_def delivered_def not_le)
  next
    case False
    then have "\<forall>s\<in>set (rs @ [r]). output_of s = 0" using assms by (auto simp: watch_inv_def)
    then show ?thesis using loud False by (simp add: deadline_verdict_def split: option.split)
  qed
qed

lemma latest_twice: "latest_output (r # r # rs) q \<Longrightarrow> latest_output (r # rs) q"
proof -
  assume "latest_output (r # r # rs) q"
  then obtain a b where a: "r # r # rs = a @ q # b" "output_of q > 0" "\<forall>s\<in>set a. output_of s < output_of q" "\<forall>s\<in>set b. output_of s \<le> output_of q"
    by (auto simp: latest_output_def)
  show ?thesis
  proof (cases a)
    case Nil
    then show ?thesis using a unfolding latest_output_def by (intro conjI exI [of _ "[]"] exI [of _ rs]) auto
  next
    case (Cons x a')
    then show ?thesis using a unfolding latest_output_def by (intro conjI exI [of _ a'] exI [of _ b]) auto
  qed
qed

text \<open>Only the last reading, the first one with the largest count and the set of counts matter.\<close>

lemma justified_cong:
  assumes "justified rs c u" "last rs = last qs" "set rs = set qs" "\<And>q. latest_output rs q \<Longrightarrow> latest_output qs q"
  shows "justified qs c u"
proof (cases u)
  case ObUnconfirmed
  then show ?thesis using assms unfolding ObUnconfirmed justified.simps by metis
qed (use assms in auto)

text \<open>The verdict falls with the last event of some prefix of the run, and that event's reading justifies it.\<close>

definition falls :: "startup_watch \<Rightarrow> startup_reading list \<Rightarrow> watch_event list \<Rightarrow> startup_observation \<Rightarrow> bool" where
  "falls w rs a v \<longleftrightarrow> readings a \<noteq> [] \<and> run_out sw_step w a = [Observed v] \<and> run_out sw_step w (butlast a) = [] \<and>
     live_reading (last (readings a)) \<and> justified (rs @ readings a) (last (clocks a)) v"

lemma falls_later:
  assumes "falls w' (rs @ [r]) a v" "sw_step w e = (w', [])" "readings [e] = [r]"
  shows "falls w rs (e # a) v"
proof -
  have a: "a \<noteq> []" "clocks a \<noteq> []" "readings a \<noteq> []" using assms(1) clocks_readings [of a] by (auto simp: falls_def)
  have "readings (e # a) = r # readings a" "last (clocks (e # a)) = last (clocks a)" using assms(3) a by (cases e; simp)+
  then show ?thesis using assms a unfolding falls_def by (simp add: split_beta Let_def)
qed

lemma run_justified:
  assumes "\<not> sw_finished w" "watch_inv rs w" "run_out sw_step w es = [Observed v]"
  shows "\<exists>a b. es = a @ b \<and> falls w rs a v"
  using assms
proof (induction es arbitrary: w rs)
  case (Cons e es)
  have tail: "\<exists>a b. e # es = a @ b \<and> falls w rs a v"
    if "sw_step w e = (w', [])" "\<not> sw_finished w'" "watch_inv (rs @ [r]) w'" "readings [e] = [r]" for r w'
  proof -
    have "run_out sw_step w' es = [Observed v]" using Cons.prems(3) that(1) by (simp add: split_beta Let_def)
    from Cons.IH [OF that(2, 3) this] obtain a b where "es = a @ b" "falls w' (rs @ [r]) a v" by blast
    then show ?thesis using falls_later [OF _ that(1, 4)] by (intro exI [of _ "e # a"] exI [of _ b]) simp
  qed
  have stop: "run_out sw_step w (e # es) = os" if "sw_step w e = (w', os)" "sw_finished w'" for w' os
    using that run_settles [of w' es] by (simp add: settles_def)
  have here: "\<exists>a b. e # es = a @ b \<and> falls w rs a v"
    if "sw_step w e = (w', [Observed v])" "readings [e] = [r]" "clocks [e] = [c]" "live_reading r" "justified (rs @ [r]) c v" for w' r c
    using that unfolding falls_def by (intro exI [of _ "[e]"] exI [of _ es]) simp
  show ?case
  proof (cases e)
    case (WePoll r)
    with Cons.prems(1) have e: "sw_step w e = sw_progress r w" by simp
    show ?thesis using Cons.prems(1, 2)
    proof (cases rule: progress_result [where r = r])
      case (going w')
      then show ?thesis using tail [of w' r] e WePoll by simp
    next
      case (progress w')
      then have "v = ObProgress" using stop e Cons.prems(3) by fastforce
      moreover note progress(3) [of None]
      ultimately show ?thesis using here [of w' r None] WePoll e progress(1, 2) by simp
    next
      case (over w' x)
      then show ?thesis using stop e Cons.prems(3) by fastforce
    qed
  next
    case (WeDeadline r now)
    with Cons.prems(1) have e: "sw_step w e = sw_deadline r now w" by simp
    show ?thesis using Cons.prems(1, 2)
    proof (cases rule: progress_result [where r = r])
      case (going w')
      then have d: "sw_step w e = (w'\<lparr>sw_finished := True\<rparr>, [Observed (deadline_verdict (sr_facts r) now w')])"
        by (simp add: e sw_deadline_def sw_finish_def)
      then have "v = deadline_verdict (sr_facts r) now w'" using stop Cons.prems(3) by fastforce
      then show ?thesis using here [of _ r "Some now"] d WeDeadline going(4) verdict_justified [OF going(3), of now] by simp
    next
      case (progress w')
      then have d: "sw_step w e = (w', [Observed ObProgress])" by (simp add: e sw_deadline_def)
      then have "v = ObProgress" using stop progress(4) Cons.prems(3) by fastforce
      moreover note progress(3) [of "Some now"]
      ultimately show ?thesis using here [of w' r "Some now"] d WeDeadline progress(1, 2) by simp
    next
      case (over w' x)
      then show ?thesis using stop e Cons.prems(3) by (fastforce simp: sw_deadline_def)
    qed
  qed (use stop Cons.prems in \<open>fastforce simp: sw_finish_def\<close>)+
qed simp

text \<open>C39: A verdict on a camera startup rests on what was read up to the event that gives it, and on the clock of its deadline. Progress needs codec
  configuration and an IDR in the last reading together with ten output units or, at the deadline, new output less than three seconds before; every
  other verdict falls at the deadline: a peer is called silent only when its start was delivered (or attempted on an authenticated
  peer, without an answer) and it has sent neither media nor any command but the key handshake; stalled only when its start was delivered and it did
  send media, the last new one at least three seconds before; unconfirmed when no media came, or recent media gave no decodable picture,
  or old media came without the delivery proof. The reading of the verdict is of an open session that was not cancelled. (The age of the media is the time
  since the first reading with the largest output count.)\<close>

theorem startup_verdict_justified:
  assumes "snd (observeOwnedStartup r es) = [Observed v]"
  shows "\<exists>a b. es = a @ b \<and> snd (observeOwnedStartup r a) = [Observed v] \<and> (a = [] \<or> snd (observeOwnedStartup r (butlast a)) = []) \<and>
    live_reading (last (r # readings a)) \<and> justified (r # readings a) (last (None # clocks a)) v"
proof -
  define w where "w = \<lparr> sw_finished = False, sw_outputUnits = sf_videoOutputFrames (sr_facts r),
    sw_lastOutputAt = (if sf_videoOutputFrames (sr_facts r) > 0 then Some (sr_now r) else None) \<rparr>"
  have s: "sw_start r = sw_progress r w" by (simp add: sw_start_def w_def Let_def)
  define z where "z = (if output_of r > 0 then [r] else [])"
  have z: "watch_inv z w" "\<not> sw_finished w"
    by (auto simp: w_def z_def watch_inv_def latest_output_def output_of_def Cons_eq_append_conv)
  have l: "latest_output (r # rs) q" if "latest_output (z @ [r] @ rs) q" for rs q
    using that latest_twice [of r rs q] by (simp add: z_def split: if_splits)
  have j: "justified (r # rs) c u" if "justified (z @ [r] @ rs) c u" for rs c u
  proof -
    have "last (z @ [r] @ rs) = last (r # rs)" "set (z @ [r] @ rs) = set (r # rs)" by (auto simp: z_def)
    then show ?thesis using l [of rs] justified_cong [OF that] by blast
  qed
  show ?thesis using z(2, 1)
  proof (cases rule: progress_result [where r = r])
    case (going w')
    have o: "snd (observeOwnedStartup r fs) = run_out sw_step w' fs" for fs
      using s going(1) by (simp add: observeOwnedStartup_def split_beta Let_def)
    obtain a b where a: "es = a @ b" "falls w' (z @ [r]) a v" using run_justified [OF going(2, 3), of es v] assms o by auto
    then have n: "readings a \<noteq> []" "clocks a \<noteq> []" using clocks_readings [of a] by (auto simp: falls_def)
    show ?thesis using a j [of "readings a" "last (clocks a)" v] n by (intro exI [of _ a] exI [of _ b]) (simp add: o falls_def)
  next
    case (progress w')
    have "observeOwnedStartup r fs = (w', [Observed ObProgress])" for fs
      using s progress(1) run_settles [of w' fs] progress(4) by (simp add: observeOwnedStartup_def settles_def)
    then show ?thesis using assms progress(2) progress(3) [of None] j [of "[]" None ObProgress]
      by (intro exI [of _ "[]"] exI [of _ es]) simp
  next
    case (over w' x)
    then show ?thesis using assms s run_settles [of w' es] by (auto simp: observeOwnedStartup_def settles_def)
  qed
qed

text \<open>A stream that stalls after two units, and one that is still moving.\<close>

definition short_reading :: "real \<Rightarrow> nat \<Rightarrow> startup_reading" where
  "short_reading now n = quiet_reading\<lparr>sr_facts := (sr_facts quiet_reading)\<lparr>sf_videoFrames := n, sf_videoOutputFrames := n\<rparr>, sr_now := now\<rparr>"

definition stalled_events :: "watch_event list" where
  "stalled_events = [WePoll (short_reading 1000 2), WeDeadline (short_reading 5000 2) 5000]"

lemma startup_verdict_justified_witness:
  "\<exists>a b. stalled_events = a @ b \<and> snd (observeOwnedStartup quiet_reading a) = [Observed ObStalled] \<and>
     (a = [] \<or> snd (observeOwnedStartup quiet_reading (butlast a)) = []) \<and>
     live_reading (last (quiet_reading # readings a)) \<and> justified (quiet_reading # readings a) (last (None # clocks a)) ObStalled"
  by (rule startup_verdict_justified)
    (simp add: stalled_events_def observeOwnedStartup_def sw_start_def sw_progress_def sw_deadline_def sw_finish_def deadline_verdict_def
      acknowledgedStartupIsSilent_def unacknowledgedStartupIsSilent_def short_reading_def quiet_reading_def STARTUP_VIDEO_UNITS_def
      STARTUP_STALL_MILLISECONDS_def Let_def)

end
