(* ===== verification/Live_Muxer.thy ===== *)
theory Live_Muxer
  imports Frame_Pacer Transport_Writer
begin

text \<open>
  \<open>LiveTransportMuxer\<close> of \<open>stream/live-transport-muxer.ts\<close>: one live viewer, with its startup buffers, its FFmpeg
  process or its pacer and clocked writer (\<open>Frame_Pacer\<close>, \<open>Transport_Writer\<close>), its timers and its cleanup. What
  Node's streams answer (the response's flags and queued length, a pipe's) is read in the order the code reads it:
  the environment gives the n-th reading. Everything done to the outside is an output. A unit of video comes
  with its qualified clock, as in \<open>Frame_Pacer\<close>; a destroyed input emits no data.
\<close>

definition MAX_INPUT_BYTES :: int where "MAX_INPUT_BYTES = 4 * 1024 * 1024"

record mux_reading =
  rd_destroyed :: bool
  rd_ended :: bool
  rd_writable :: bool
  rd_length :: nat

record mux_env =
  me_reads :: "nat \<Rightarrow> mux_reading"
  me_spawned :: bool
  me_audioWait :: real

record mux_process =
  mp_piped :: bool
  mp_audio :: bool

record mux =
  mx_process :: "mux_process option"
  mx_video :: "bytes list"
  mx_audio :: "bytes list"
  mx_bufferedBytes :: int
  mx_timer :: bool
  mx_outputTimer :: bool
  mx_closed :: bool
  mx_starting :: bool
  mx_audioReady :: bool
  mx_pacer :: "pacer option"
  mx_pacingDecided :: bool
  mx_clocked :: "ts_writer option"
  mx_clockedWithAudio :: bool
  mx_headersSent :: bool
  mx_reads :: nat

definition mx_new :: mux where
  "mx_new = \<lparr> mx_process = None, mx_video = [], mx_audio = [], mx_bufferedBytes = 0, mx_timer = False, mx_outputTimer = False,
     mx_closed = False, mx_starting = False, mx_audioReady = False, mx_pacer = None, mx_pacingDecided = False,
     mx_clocked = None, mx_clockedWithAudio = False, mx_headersSent = False, mx_reads = 0 \<rparr>"

datatype mux_reason =
  MrStartupInput | MrInputClosed | MrInputBackpressure | MrOutputBackpressure | MrOutputTimeout | MrTransportInvalid
  | MrProcessError | MrProcessExit | MrVideoInputError | MrAudioInputError | MrPacing pacing_failure | MrCaller string

text \<open>The summary \<open>close\<close> of the pacer returns: late packets, maximum bytes, video and audio packets, rebases.\<close>

type_synonym pacing_summary = "nat \<times> int \<times> nat \<times> nat \<times> nat"

definition pacing_summary :: "pacer \<Rightarrow> pacing_summary" where
  "pacing_summary p = (pc_late p, pc_maximumBytes p, pc_videoPackets p, pc_audioPackets p, pc_clockRebases p)"

datatype mux_out =
  MoHead | MoWrite bytes | MoSpawn bool | MoPipe media_kind bytes | MoKill | MoDestroyInput | MoEnd | MoClosed
  | MoPacing pacing_summary | MoFailure mux_reason

type_synonym mux_result = "mux \<times> mux_out list"

section \<open>Cleanup and output\<close>

definition mx_look :: "mux_env \<Rightarrow> mux \<Rightarrow> mux_reading \<times> mux" where
  "mx_look env m = (me_reads env (mx_reads m), m\<lparr>mx_reads := mx_reads m + 1\<rparr>)"

definition mx_close :: "mux_env \<Rightarrow> mux_reason option \<Rightarrow> mux \<Rightarrow> mux_result" where
  "mx_close env reason m =
     (if mx_closed m then (m, [])
      else
        (let (r, m) = mx_look env m; pacing = map_option pc_close (mx_pacer m) in
         (m\<lparr>mx_closed := True, mx_pacer := pacing, mx_timer := False, mx_outputTimer := False, mx_video := [], mx_audio := [],
            mx_bufferedBytes := 0, mx_clocked := None, mx_process := None\<rparr>,
          (if mx_process m = None then [] else [MoKill]) @ [MoDestroyInput] @ (if rd_destroyed r then [] else [MoEnd]) @ [MoClosed] @
          (case pacing of None \<Rightarrow> [] | Some p \<Rightarrow> [MoPacing (pacing_summary p)]) @
          (case reason of None \<Rightarrow> [] | Some x \<Rightarrow> [MoFailure x]))))"

definition mx_awaitOutput :: "mux \<Rightarrow> mux" where
  "mx_awaitOutput m = (if mx_closed m then m else m\<lparr>mx_outputTimer := True\<rparr>)"

text \<open>\<open>#write\<close> to a pipe of the process: the reading before it, and the queued length after it.\<close>

definition mx_write :: "mux_env \<Rightarrow> media_kind \<Rightarrow> bytes \<Rightarrow> mux \<Rightarrow> mux_result" where
  "mx_write env kind chunk m =
     (let (r, m) = mx_look env m in
      if \<not> rd_writable r \<or> rd_destroyed r then mx_close env (Some MrInputClosed) m
      else
        (let (r, m) = mx_look env m in
         seq_do (m, [MoPipe kind chunk])
           (if int (rd_length r) > MAX_INPUT_BYTES then mx_close env (Some MrInputBackpressure) else (\<lambda>m. (m, [])))))"

text \<open>The output callback of the clocked writer.\<close>

definition mx_packet :: "mux_env \<Rightarrow> bytes \<Rightarrow> mux \<Rightarrow> mux_result" where
  "mx_packet env packet m =
     (if mx_closed m then (m, [])
      else
        (let (r, m) = mx_look env m in
         if rd_destroyed r \<or> rd_ended r then mx_close env None m
         else if int (rd_length r + length packet) > MAX_INPUT_BYTES then mx_close env (Some MrOutputBackpressure) m
         else (mx_awaitOutput (m\<lparr>mx_headersSent := True\<rparr>), (if mx_headersSent m then [] else [MoHead]) @ [MoWrite packet])))"

section \<open>Paced media\<close>

definition clocked_call :: "media_kind \<Rightarrow> bytes \<Rightarrow> real \<Rightarrow> ts_writer \<Rightarrow> (ts_writer \<times> bytes list) option" where
  "clocked_call kind data time w = (case kind of MkVideo \<Rightarrow> tw_video data (Some time) w | MkAudio \<Rightarrow> tw_audio data (Some time) w)"

definition mx_writer :: "mux \<Rightarrow> ts_writer" where
  "mx_writer m = (case mx_clocked m of None \<Rightarrow> tw_new (mx_clockedWithAudio m) | Some w \<Rightarrow> w)"

definition mx_acceptPacedMedia :: "mux_env \<Rightarrow> media_kind \<Rightarrow> bytes \<Rightarrow> real \<Rightarrow> mux \<Rightarrow> mux_result" where
  "mx_acceptPacedMedia env kind data time m =
     (if mx_closed m then (m, [])
      else (case clocked_call kind data time (mx_writer m) of
          None \<Rightarrow> mx_close env (Some MrTransportInvalid) (m\<lparr>mx_clocked := Some (mx_writer m)\<rparr>)
        | Some (w, packets) \<Rightarrow> each_do (mx_packet env) packets (m\<lparr>mx_clocked := Some w\<rparr>)))"

text \<open>What the pacer calls in the muxer.\<close>

fun mx_from_pacer :: "mux_env \<Rightarrow> pc_out \<Rightarrow> mux \<Rightarrow> mux_result" where
  "mx_from_pacer env (PoDeliver kind data time) m = mx_acceptPacedMedia env kind data time m"
| "mx_from_pacer env (PoFail reason) m = mx_close env (Some (MrPacing reason)) m"
| "mx_from_pacer env (PoAdmission available) m = (m\<lparr>mx_clockedWithAudio := available\<rparr>, [])"

definition mx_to_pacer :: "mux_env \<Rightarrow> (pacer \<Rightarrow> pacer \<times> pc_out list) \<Rightarrow> mux \<Rightarrow> mux_result" where
  "mx_to_pacer env call m =
     (case mx_pacer m of
        None \<Rightarrow> (m, [])
      | Some p \<Rightarrow> (let (p', outs) = call p in each_do (mx_from_pacer env) outs (m\<lparr>mx_pacer := Some p'\<rparr>)))"

text \<open>The pacer's timer: due packets leave one by one (\<open>pc_pop\<close>), and a delivery may close the viewer and its pacer.\<close>

lemma close_pacer: "mx_pacer (fst (mx_close env reason m)) = mx_pacer m \<or> mx_pacer (fst (mx_close env reason m)) = map_option pc_close (mx_pacer m)"
  by (simp add: mx_close_def mx_look_def Let_def)

definition queued :: "mux \<Rightarrow> nat" where
  "queued m = (case mx_pacer m of None \<Rightarrow> 0 | Some p \<Rightarrow> length (pc_queue p))"

lemma close_queued: "queued (fst (mx_close env reason m)) \<le> queued m"
  using close_pacer [of env reason m] by (auto simp: queued_def pc_close_def split: option.split)

lemma packet_queued: "queued (fst (mx_packet env packet m)) \<le> queued m"
proof -
  have "queued (fst (mx_close env reason (m\<lparr>mx_reads := n\<rparr>))) \<le> queued m" for reason n
    using close_queued [of env reason "m\<lparr>mx_reads := n\<rparr>"] by (simp add: queued_def)
  then show ?thesis by (simp add: mx_packet_def mx_look_def Let_def mx_awaitOutput_def) (simp add: queued_def)
qed

lemma each_queued: "(\<And>x m. queued (fst (g x m)) \<le> queued m) \<Longrightarrow> queued (fst (each_do g xs m)) \<le> queued m"
proof (induction xs arbitrary: m)
  case (Cons x xs)
  obtain m1 o1 where g: "g x m = (m1, o1)" by fastforce
  have "queued (fst (each_do g xs m1)) \<le> queued m1" "queued m1 \<le> queued m" using Cons.IH Cons.prems [of x m] g by auto (use Cons.prems in blast)
  then show ?case by (simp add: seq_do_def g split_beta Let_def)
qed simp

lemma from_pacer_queued: "queued (fst (mx_from_pacer env w m)) \<le> queued m"
proof (cases w)
  case (PoDeliver kind data time)
  have a: "queued (fst (each_do (mx_packet env) packets (m\<lparr>mx_clocked := c\<rparr>))) \<le> queued m" for packets c
    using each_queued [of "mx_packet env" packets "m\<lparr>mx_clocked := c\<rparr>"] packet_queued by (simp add: queued_def)
  have b: "queued (fst (mx_close env reason (m\<lparr>mx_clocked := c\<rparr>))) \<le> queued m" for reason c
    using close_queued [of env reason "m\<lparr>mx_clocked := c\<rparr>"] by (simp add: queued_def)
  show ?thesis using a b by (simp add: PoDeliver mx_acceptPacedMedia_def split: option.split prod.split)
qed (simp_all add: close_queued, simp add: queued_def)

function mx_drain :: "mux_env \<Rightarrow> real \<Rightarrow> mux \<Rightarrow> mux_result" where
  "mx_drain env now m =
     (case mx_pacer m of
        None \<Rightarrow> (m, [])
      | Some p \<Rightarrow>
          (case pc_pop now p of
             None \<Rightarrow> (m, [])
           | Some (p', w) \<Rightarrow>
               (let (m1, o1) = mx_from_pacer env w (m\<lparr>mx_pacer := Some p'\<rparr>); (m2, o2) = mx_drain env now m1 in (m2, o1 @ o2))))"
  by pat_completeness auto
termination
proof (relation "measure (\<lambda>(_, _, m). queued m)", simp, clarsimp)
  fix env now m p p' w m1 o1
  assume a: "mx_pacer m = Some p" "pc_pop now p = Some (p', w)" "(m1, o1) = mx_from_pacer env w (m\<lparr>mx_pacer := Some p'\<rparr>)"
  have "queued m1 \<le> queued (m\<lparr>mx_pacer := Some p'\<rparr>)"
    using from_pacer_queued [of env w "m\<lparr>mx_pacer := Some p'\<rparr>"] a(3) by (metis fst_conv)
  also have "\<dots> < queued m" using pop_queue [OF a(2)] a(1) by (simp add: queued_def) (metis length_Cons lessI)
  finally show "queued m1 < queued m" .
qed

declare mx_drain.simps [simp del]

definition mx_firePacer :: "mux_env \<Rightarrow> real \<Rightarrow> mux \<Rightarrow> mux_result" where
  "mx_firePacer env now m =
     (case mx_pacer m of
        None \<Rightarrow> (m, [])
      | Some p \<Rightarrow>
          if pc_timer p = None then (m, [])
          else (let (m1, outs) = mx_drain env now (m\<lparr>mx_pacer := Some (p\<lparr>pc_timer := None\<rparr>)\<rparr>) in
                (m1\<lparr>mx_pacer := map_option (pc_arm now) (mx_pacer m1)\<rparr>, outs)))"

section \<open>The process\<close>

definition mx_feed_video :: "mux_env \<Rightarrow> bytes \<Rightarrow> mux \<Rightarrow> mux_result" where
  "mx_feed_video env chunk m = (if me_spawned env \<and> \<not> mx_closed m then mx_write env MkVideo chunk m else (m, []))"

definition chunk_bytes :: "bytes list \<Rightarrow> int" where
  "chunk_bytes chunks = int (sum_list (map length chunks))"

text \<open>The end of \<open>#start\<close>: the audio retained before the process goes to its pipe, whatever happens to the pipe.\<close>

definition mx_feed_audio :: "mux_env \<Rightarrow> bool \<Rightarrow> mux \<Rightarrow> mux_result" where
  "mx_feed_audio env withAudio m =
     (let m = m\<lparr>mx_video := [], mx_bufferedBytes := chunk_bytes (mx_audio m)\<rparr> in
      if withAudio \<and> me_spawned env
      then seq_do (each_do (mx_write env MkAudio) (mx_audio m) (m\<lparr>mx_audioReady := True\<rparr>))
        (\<lambda>m. (m\<lparr>mx_audio := [], mx_bufferedBytes := 0\<rparr>, []))
      else (m, []))"

definition mx_start :: "mux_env \<Rightarrow> bool \<Rightarrow> mux \<Rightarrow> mux_result" where
  "mx_start env withAudio m =
     (if mx_closed m \<or> mx_process m \<noteq> None \<or> mx_starting m \<or> mx_video m = [] then (m, [])
      else
        (let (r, m) = mx_look env (m\<lparr>mx_starting := True\<rparr>) in
         if rd_destroyed r \<or> rd_ended r then mx_close env None m
         else
           (let m = mx_awaitOutput (m\<lparr>mx_timer := False, mx_headersSent := True,
                  mx_process := Some \<lparr> mp_piped = me_spawned env, mp_audio = withAudio \<rparr>\<rparr>) in
            seq_do (m, [MoSpawn withAudio, MoHead])
              (\<lambda>m. seq_do (each_do (mx_feed_video env) (mx_video m) m) (mx_feed_audio env withAudio)))))"

definition mx_plainAudio :: "mux_env \<Rightarrow> bytes \<Rightarrow> mux \<Rightarrow> mux_result" where
  "mx_plainAudio env chunk m =
     (if mx_closed m \<or> chunk = [] then (m, [])
      else (case mx_process m of
          Some p \<Rightarrow> if mx_audioReady m \<and> mp_piped p \<and> mp_audio p then mx_write env MkAudio chunk m else (m, [])
        | None \<Rightarrow>
            (let m = m\<lparr>mx_audio := mx_audio m @ [chunk], mx_bufferedBytes := mx_bufferedBytes m + int (length chunk)\<rparr> in
             if mx_bufferedBytes m > MAX_INPUT_BYTES then mx_close env (Some MrStartupInput) m
             else if mx_video m \<noteq> [] then mx_start env True m else (m, []))))"

definition mx_plainVideo :: "mux_env \<Rightarrow> bytes \<Rightarrow> mux \<Rightarrow> mux_result" where
  "mx_plainVideo env chunk m =
     (if mx_closed m \<or> chunk = [] then (m, [])
      else if (case mx_process m of None \<Rightarrow> False | Some p \<Rightarrow> mp_piped p) then mx_write env MkVideo chunk m
      else
        (let m = m\<lparr>mx_video := mx_video m @ [chunk], mx_bufferedBytes := mx_bufferedBytes m + int (length chunk)\<rparr> in
         if mx_bufferedBytes m > MAX_INPUT_BYTES then mx_close env (Some MrStartupInput) m
         else if mx_audio m \<noteq> [] then mx_start env True m
         else (m\<lparr>mx_timer := True\<rparr>, [])))"

section \<open>Calls\<close>

definition mx_acceptAudio :: "mux_env \<Rightarrow> real \<Rightarrow> bytes \<Rightarrow> mux \<Rightarrow> mux_result" where
  "mx_acceptAudio env now chunk m =
     (case mx_pacer m of Some p \<Rightarrow> mx_to_pacer env (pc_acceptAudio now chunk) m | None \<Rightarrow> mx_plainAudio env chunk m)"

definition mx_readmit :: "mux_env \<Rightarrow> real \<Rightarrow> bytes \<Rightarrow> mux \<Rightarrow> mux_result" where
  "mx_readmit env now audio m =
     mx_to_pacer env (pc_acceptAudio now audio) (m\<lparr>mx_bufferedBytes := mx_bufferedBytes m - int (length audio)\<rparr>)"

definition mx_decide :: "mux_env \<Rightarrow> bool \<Rightarrow> real \<Rightarrow> mux \<Rightarrow> mux_result" where
  "mx_decide env smooth now m =
     (if mx_pacingDecided m then (m, [])
      else if \<not> smooth then (m\<lparr>mx_pacingDecided := True\<rparr>, [])
      else each_do (mx_readmit env now)
        (mx_audio m) (m\<lparr>mx_pacingDecided := True, mx_pacer := Some (pc_new (max 1 (me_audioWait env))), mx_audio := []\<rparr>))"

definition mx_data :: "mux_env \<Rightarrow> bool \<Rightarrow> real \<Rightarrow> frame_clock option \<Rightarrow> bytes \<Rightarrow> mux \<Rightarrow> mux_result" where
  "mx_data env smooth now clock chunk m =
     seq_do (mx_decide env smooth now m)
       (\<lambda>m. case mx_pacer m of Some p \<Rightarrow> mx_to_pacer env (pc_acceptVideo now clock chunk) m | None \<Rightarrow> mx_plainVideo env chunk m)"

datatype mux_event =
  MvVideo bool real "frame_clock option" bytes | MvAudio real bytes | MvAudioWait | MvOutputTimer | MvProcessOutput
  | MvProcess mux_reason | MvPacerTimer real | MvPacerAdmission | MvPacerAudioTimer real | MvGone | MvClose "mux_reason option"

fun mx_step :: "mux_env \<Rightarrow> mux \<Rightarrow> mux_event \<Rightarrow> mux_result" where
  "mx_step env m (MvVideo smooth now clock chunk) = (if mx_closed m then (m, []) else mx_data env smooth now clock chunk m)"
| "mx_step env m (MvAudio now chunk) = mx_acceptAudio env now chunk m"
| "mx_step env m MvAudioWait = (if mx_timer m then mx_start env False m else (m, []))"
| "mx_step env m MvOutputTimer = (if mx_outputTimer m then mx_close env (Some MrOutputTimeout) m else (m, []))"
| "mx_step env m MvProcessOutput = ((if mx_process m = None then m else mx_awaitOutput m), [])"
| "mx_step env m (MvProcess reason) = (if mx_process m = None then (m, []) else mx_close env (Some reason) m)"
| "mx_step env m (MvPacerTimer now) = mx_firePacer env now m"
| "mx_step env m MvPacerAdmission = mx_to_pacer env (\<lambda>p. pc_step (\<lambda>_. False) p PvAdmissionTimer) m"
| "mx_step env m (MvPacerAudioTimer now) = mx_to_pacer env (\<lambda>p. pc_step (\<lambda>_. False) p (PvAudioTimer now)) m"
| "mx_step env m MvGone = mx_close env None m"
| "mx_step env m (MvClose reason) = mx_close env reason m"

section \<open>One release\<close>

text \<open>How often something was done to the outside.\<close>

definition times :: "(mux_out \<Rightarrow> bool) \<Rightarrow> mux_out list \<Rightarrow> nat" where
  "times P os = length (filter P os)"

lemma times_simps [simp]:
  "times P [] = 0" "times P (w # ws) = (if P w then 1 else 0) + times P ws" "times P (xs @ ys) = times P xs + times P ys"
  by (simp_all add: times_def)

fun is_spawn :: "mux_out \<Rightarrow> bool" where
  "is_spawn (MoSpawn a) = True"
| "is_spawn _ = False"

fun is_failure :: "mux_out \<Rightarrow> bool" where
  "is_failure (MoFailure a) = True"
| "is_failure _ = False"

abbreviation flag :: "bool \<Rightarrow> nat" where
  "flag b \<equiv> (if b then 1 else 0)"

text \<open>Each resource is taken and given back once.\<close>

definition life :: "mux \<Rightarrow> mux_out list \<Rightarrow> mux \<Rightarrow> bool" where
  "life s os t \<longleftrightarrow>
     times (\<lambda>w. w = MoClosed) os + flag (mx_closed s) = flag (mx_closed t) \<and>
     times (\<lambda>w. w = MoDestroyInput) os + flag (mx_closed s) = flag (mx_closed t) \<and>
     times is_failure os + flag (mx_closed s) \<le> flag (mx_closed t) \<and>
     times is_spawn os + flag (mx_process s \<noteq> None) = times (\<lambda>w. w = MoKill) os + flag (mx_process t \<noteq> None) \<and>
     times is_spawn os + flag (mx_starting s) \<le> flag (mx_starting t) \<and>
     times (\<lambda>w. w = MoHead) os + flag (mx_headersSent s) = flag (mx_headersSent t)"

lemma life_refl [simp]: "life s [] s"
  by (simp add: life_def)

lemma life_trans: "life s os t \<Longrightarrow> life t os' u \<Longrightarrow> life s (os @ os') u"
  unfolding life_def times_simps by (elim conjE) (intro conjI; linarith)

text \<open>Fields that do not matter here.\<close>

definition same_life :: "mux \<Rightarrow> mux \<Rightarrow> bool" where
  "same_life s t \<longleftrightarrow> mx_closed t = mx_closed s \<and> mx_process t = mx_process s \<and> mx_starting t = mx_starting s \<and>
     mx_headersSent t = mx_headersSent s"

lemma life_same: "same_life s' s \<Longrightarrow> same_life t t' \<Longrightarrow> life s os t \<Longrightarrow> life s' os t'"
  by (simp add: life_def same_life_def)

lemma life_then: "life s (snd r) (fst r) \<Longrightarrow> (\<And>m. life m (snd (g m)) (fst (g m))) \<Longrightarrow> life s (snd (seq_do r g)) (fst (seq_do r g))"
  by (auto simp: seq_do_def split_beta Let_def intro: life_trans)

lemma life_each: "(\<And>x m. life m (snd (g x m)) (fst (g x m))) \<Longrightarrow> life m (snd (each_do g xs m)) (fst (each_do g xs m))"
  by (induction xs arbitrary: m) (auto intro: life_then)

lemma close_life: "life m (snd (mx_close env reason m)) (fst (mx_close env reason m))"
  by (auto simp: mx_close_def mx_look_def Let_def life_def split: option.split)

lemma close_life_same: "same_life s m \<Longrightarrow> life s (snd (mx_close env reason m)) (fst (mx_close env reason m))"
  by (rule life_same [OF _ _ close_life]) (simp_all add: same_life_def)

lemma write_life: "life m (snd (mx_write env kind chunk m)) (fst (mx_write env kind chunk m))"
proof -
  have "life m (snd (seq_do (t, [MoPipe kind chunk]) g)) (fst (seq_do (t, [MoPipe kind chunk]) g))"
    if "same_life m t" "\<And>m. life m (snd (g m)) (fst (g m))" for t g
    using that(1) by (intro life_then that(2)) (simp add: life_def same_life_def)
  then show ?thesis
    by (simp add: mx_write_def mx_look_def Let_def close_life close_life_same same_life_def)
qed

lemma packet_life: "life m (snd (mx_packet env packet m)) (fst (mx_packet env packet m))"
  by (simp add: mx_packet_def mx_look_def Let_def close_life_same same_life_def)
    (simp add: life_def mx_awaitOutput_def)

lemma paced_life: "life m (snd (mx_acceptPacedMedia env kind data time m)) (fst (mx_acceptPacedMedia env kind data time m))"
proof -
  have "life m (snd (each_do (mx_packet env) packets (m\<lparr>mx_clocked := c\<rparr>))) (fst (each_do (mx_packet env) packets (m\<lparr>mx_clocked := c\<rparr>)))"
    for packets c
    by (rule life_same [OF _ _ life_each [of "mx_packet env", OF packet_life]]) (simp_all add: same_life_def)
  then show ?thesis
    by (simp add: mx_acceptPacedMedia_def close_life_same same_life_def split: option.split prod.split)
qed

lemma from_pacer_life: "life m (snd (mx_from_pacer env w m)) (fst (mx_from_pacer env w m))"
  by (cases w) (simp_all add: paced_life close_life, simp add: life_def)

lemma to_pacer_life: "life m (snd (mx_to_pacer env call m)) (fst (mx_to_pacer env call m))"
proof -
  have "life m (snd (each_do (mx_from_pacer env) outs (m\<lparr>mx_pacer := q\<rparr>))) (fst (each_do (mx_from_pacer env) outs (m\<lparr>mx_pacer := q\<rparr>)))"
    for outs q
    by (rule life_same [OF _ _ life_each [of "mx_from_pacer env", OF from_pacer_life]]) (simp_all add: same_life_def)
  then show ?thesis by (simp add: mx_to_pacer_def split: option.split prod.split)
qed

lemma drain_life: "life m (snd (mx_drain env now m)) (fst (mx_drain env now m))"
proof (induction env now m rule: mx_drain.induct)
  case (1 env now m)
  show ?case
  proof (cases "mx_pacer m")
    case None
    then show ?thesis by (simp add: mx_drain.simps)
  next
    case (Some p)
    show ?thesis
    proof (cases "pc_pop now p")
      case None
      then show ?thesis using Some by (simp add: mx_drain.simps)
    next
      case (Some r)
      obtain p' w where r: "r = (p', w)" by (cases r)
      obtain m1 o1 where d: "mx_from_pacer env w (m\<lparr>mx_pacer := Some p'\<rparr>) = (m1, o1)" by fastforce
      have "life (m\<lparr>mx_pacer := Some p'\<rparr>) o1 m1" using from_pacer_life [of "m\<lparr>mx_pacer := Some p'\<rparr>" env w] d by simp
      then have "life m o1 m1" by (rule life_same [rotated 2]) (simp_all add: same_life_def)
      moreover have "life m1 (snd (mx_drain env now m1)) (fst (mx_drain env now m1))"
        using 1 [OF \<open>mx_pacer m = Some p\<close> Some r [symmetric] refl d [symmetric]] .
      ultimately show ?thesis using Some \<open>mx_pacer m = Some p\<close>
        by (subst (1 2) mx_drain.simps) (simp add: r d split_beta Let_def life_trans)
    qed
  qed
qed

lemma fire_life: "life m (snd (mx_firePacer env now m)) (fst (mx_firePacer env now m))"
proof (cases "mx_pacer m")
  case (Some p)
  define s where "s = m\<lparr>mx_pacer := Some (p\<lparr>pc_timer := None\<rparr>)\<rparr>"
  have "life s (snd (mx_drain env now s)) (fst (mx_drain env now s))" by (rule drain_life)
  then have "life m (snd (mx_drain env now s)) ((fst (mx_drain env now s))\<lparr>mx_pacer := q\<rparr>)" for q
    by (rule life_same [rotated 2]) (simp_all add: same_life_def s_def)
  then show ?thesis by (simp add: mx_firePacer_def Some s_def [symmetric] split_beta Let_def)
qed (simp add: mx_firePacer_def)

text \<open>A process is only started before the response has headers.\<close>

lemma start_life:
  assumes "mx_starting m \<or> \<not> mx_headersSent m"
  shows "life m (snd (mx_start env withAudio m)) (fst (mx_start env withAudio m))"
proof (cases "mx_closed m \<or> mx_process m \<noteq> None \<or> mx_starting m \<or> mx_video m = []")
  case True
  then have "mx_start env withAudio m = (m, [])" by (simp add: mx_start_def)
  then show ?thesis by simp
next
  case False
  define r where "r = me_reads env (mx_reads m)"
  define m1 where "m1 = m\<lparr>mx_starting := True, mx_reads := mx_reads m + 1\<rparr>"
  have l: "mx_look env (m\<lparr>mx_starting := True\<rparr>) = (r, m1)" by (simp add: mx_look_def r_def m1_def)
  show ?thesis
  proof (cases "rd_destroyed r \<or> rd_ended r")
    case True
    have s: "mx_start env withAudio m = mx_close env None m1" unfolding mx_start_def l Let_def using False True by simp
    have "life m [] m1" using False by (simp add: life_def m1_def)
    then show ?thesis using life_trans [OF _ close_life [of m1 env None], of m "[]"] by (simp add: s)
  next
    case gone: False
    define m2 where "m2 = mx_awaitOutput (m1\<lparr>mx_timer := False, mx_headersSent := True,
      mx_process := Some \<lparr> mp_piped = me_spawned env, mp_audio = withAudio \<rparr>\<rparr>)"
    define feed where "feed = (\<lambda>m. seq_do (each_do (mx_feed_video env) (mx_video m) m) (mx_feed_audio env withAudio))"
    have s: "mx_start env withAudio m = seq_do (m2, [MoSpawn withAudio, MoHead]) feed"
      unfolding mx_start_def l Let_def feed_def m2_def using False gone by simp
    have v: "life m (snd (mx_feed_video env chunk m)) (fst (mx_feed_video env chunk m))" for chunk m
      by (simp add: mx_feed_video_def write_life)
    have a: "life m (snd (mx_feed_audio env withAudio m)) (fst (mx_feed_audio env withAudio m))" for m
    proof -
      define q where "q = m\<lparr>mx_video := [], mx_bufferedBytes := chunk_bytes (mx_audio m)\<rparr>"
      have "life m [] q" by (simp add: q_def life_def)
      moreover have "life q (snd r) (fst r)"
        if "r = seq_do (each_do (mx_write env MkAudio) (mx_audio q) (q\<lparr>mx_audioReady := True\<rparr>))
          (\<lambda>m. (m\<lparr>mx_audio := [], mx_bufferedBytes := 0\<rparr>, []))" for r
      proof -
        have "life q (snd (each_do (mx_write env MkAudio) xs (q\<lparr>mx_audioReady := True\<rparr>)))
            (fst (each_do (mx_write env MkAudio) xs (q\<lparr>mx_audioReady := True\<rparr>)))" for xs
          by (rule life_same [OF _ _ life_each [of "mx_write env MkAudio", OF write_life]]) (simp_all add: same_life_def)
        then show ?thesis unfolding that by (intro life_then) (simp_all add: life_def)
      qed
      ultimately show ?thesis using life_trans [of m "[]" q]
        unfolding mx_feed_audio_def q_def [symmetric] Let_def by simp
    qed
    have "life m (snd (m2, [MoSpawn withAudio, MoHead])) (fst (m2, [MoSpawn withAudio, MoHead]))"
      using False assms by (simp add: life_def m2_def m1_def mx_awaitOutput_def)
    then show ?thesis unfolding s feed_def by (intro life_then life_each v a)
  qed
qed


section \<open>What has been done with the media\<close>

fun pipe_of :: "media_kind \<Rightarrow> mux_out \<Rightarrow> bytes list" where
  "pipe_of k (MoPipe k' d) = (if k' = k then [d] else [])"
| "pipe_of k _ = []"

fun write_of :: "mux_out \<Rightarrow> bytes list" where
  "write_of (MoWrite d) = [d]"
| "write_of _ = []"

fun media_of :: "media_kind \<Rightarrow> tw_event \<Rightarrow> bytes list" where
  "media_of k (TeVideo d t) = (if k = MkVideo then [d] else [])"
| "media_of k (TeAudio d t) = (if k = MkAudio then [d] else [])"

definition pipes :: "media_kind \<Rightarrow> mux_out list \<Rightarrow> bytes list" where
  "pipes k os = concat (map (pipe_of k) os)"

definition writes :: "mux_out list \<Rightarrow> bytes list" where
  "writes os = concat (map write_of os)"

definition media :: "media_kind \<Rightarrow> tw_event list \<Rightarrow> bytes list" where
  "media k ds = concat (map (media_of k) ds)"

lemma flow_simps [simp]:
  "pipes k [] = []" "pipes k (w # ws) = pipe_of k w @ pipes k ws" "pipes k (xs @ ys) = pipes k xs @ pipes k ys"
  "writes [] = []" "writes (w # ws) = write_of w @ writes ws" "writes (xs @ ys) = writes xs @ writes ys"
  "media k [] = []" "media k (d # ds) = media_of k d @ media k ds" "media k (ds @ es) = media k ds @ media k es"
  by (simp_all add: pipes_def writes_def media_def)

lemma map_pipe [simp]: "pipes k (map (MoPipe k') xs) = (if k = k' then xs else [])" "writes (map (MoPipe k') xs) = []"
  by (induction xs) auto

text \<open>The writer takes every one of the units: no call of it throws.\<close>

fun tw_call :: "ts_writer \<Rightarrow> tw_event \<Rightarrow> (ts_writer \<times> bytes list) option" where
  "tw_call w (TeVideo data ms) = tw_video data ms w"
| "tw_call w (TeAudio data ms) = tw_audio data ms w"

fun tw_takes :: "ts_writer \<Rightarrow> tw_event list \<Rightarrow> bool" where
  "tw_takes w [] \<longleftrightarrow> True"
| "tw_takes w (d # ds) \<longleftrightarrow> tw_call w d \<noteq> None \<and> tw_takes (fst (tw_step w d)) ds"

lemma tw_takes_snoc: "tw_takes w (ds @ [d]) \<longleftrightarrow> tw_takes w ds \<and> tw_call (run_state tw_step w ds) d \<noteq> None"
  by (induction ds arbitrary: w) (simp_all add: run_state_Cons del: run.simps(2))

type_synonym admitted = "media_kind \<Rightarrow> bytes list"

text \<open>Nothing reaches the process or the response but admitted media, in order.\<close>

definition faithful :: "admitted \<Rightarrow> mux_out list \<Rightarrow> bool" where
  "faithful acc os \<longleftrightarrow> prefix (pipes MkVideo os) (acc MkVideo) \<and> subseq (pipes MkAudio os) (acc MkAudio) \<and>
     (\<exists>a ds. prefix (writes os) (run_out tw_step (tw_new a) ds) \<and> tw_takes (tw_new a) ds \<and> (\<forall>k. prefix (media k ds) (acc k)))"

definition idle :: "mux \<Rightarrow> bool" where
  "idle m \<longleftrightarrow> mx_closed m \<and> mx_process m = None \<and> mx_video m = [] \<and> mx_audio m = [] \<and> \<not> mx_timer m \<and> \<not> mx_outputTimer m \<and>
     mx_clocked m = None \<and> pred_option shut (mx_pacer m)"

definition held :: "media_kind \<Rightarrow> mux \<Rightarrow> bytes list" where
  "held k m = (case k of MkVideo \<Rightarrow> mx_video m | MkAudio \<Rightarrow> mx_audio m)"

text \<open>An open viewer without a pacer.\<close>

definition plain :: "mux_env \<Rightarrow> mux \<Rightarrow> bool" where
  "plain env m \<longleftrightarrow> \<not> mx_closed m \<and> mx_pacer m = None \<and> mx_clocked m = None \<and>
     mx_headersSent m = mx_starting m \<and> mx_outputTimer m = mx_starting m \<and> mx_starting m = (mx_process m \<noteq> None) \<and>
     mx_bufferedBytes m = chunk_bytes (mx_video m) + chunk_bytes (mx_audio m) \<and> mx_bufferedBytes m \<le> MAX_INPUT_BYTES \<and>
     (\<not> mx_pacingDecided m \<longrightarrow> mx_video m = [] \<and> mx_process m = None \<and> \<not> mx_timer m)"

definition plain_wait :: "mux_env \<Rightarrow> mux \<Rightarrow> bool" where
  "plain_wait env m \<longleftrightarrow> (case mx_process m of
     None \<Rightarrow> \<not> mx_audioReady m \<and> (mx_video m \<noteq> [] \<longrightarrow> mx_audio m = [] \<and> mx_timer m)
   | Some p \<Rightarrow> mp_piped p = me_spawned env \<and>
       (if me_spawned env then mx_video m = [] \<and> mx_audio m = [] \<and> mx_audioReady m = mp_audio p else \<not> mx_audioReady m))"

definition plain_flow :: "admitted \<Rightarrow> mux_out list \<Rightarrow> mux \<Rightarrow> bool" where
  "plain_flow acc os m \<longleftrightarrow> writes os = [] \<and> (case mx_process m of
     None \<Rightarrow> (\<forall>k. pipes k os = [] \<and> held k m = acc k)
   | Some p \<Rightarrow> \<forall>k. pipes k os = (if mp_piped p then acc k else []))"

text \<open>An open viewer with a pacer, whose writer has made packets of what the pacer delivered.\<close>

definition paced :: "(pacer \<Rightarrow> bool) \<Rightarrow> mux \<Rightarrow> bool" where
  "paced good m \<longleftrightarrow> \<not> mx_closed m \<and> pred_option good (mx_pacer m) \<and> mx_pacer m \<noteq> None \<and> mx_pacingDecided m \<and>
     mx_process m = None \<and> \<not> mx_starting m \<and> \<not> mx_timer m \<and> mx_video m = [] \<and> mx_audio m = [] \<and>
     mx_outputTimer m = mx_headersSent m"

definition clocked_by :: "mux \<Rightarrow> tw_event list \<Rightarrow> mux_out list \<Rightarrow> bool" where
  "clocked_by m ds os \<longleftrightarrow> (case mx_clocked m of
     None \<Rightarrow> ds = [] \<and> writes os = [] | Some w \<Rightarrow> \<exists>a. run tw_step (tw_new a) ds = (w, writes os) \<and> tw_takes (tw_new a) ds)"

definition paced_flow :: "admitted \<Rightarrow> mux_out list \<Rightarrow> mux \<Rightarrow> bool" where
  "paced_flow acc os m \<longleftrightarrow> (\<forall>k. pipes k os = []) \<and>
     (\<exists>ds. clocked_by m ds os \<and> (\<forall>k. media k ds @ pending k (the (mx_pacer m)) = acc k))"

definition hist :: "mux_env \<Rightarrow> (pacer \<Rightarrow> bool) \<Rightarrow> admitted \<Rightarrow> mux_out list \<Rightarrow> mux \<Rightarrow> bool" where
  "hist env good acc os m \<longleftrightarrow> (if mx_closed m then faithful acc os \<and> idle m
     else if mx_pacer m = None then plain env m \<and> plain_wait env m \<and> plain_flow acc os m
     else paced good m \<and> paced_flow acc os m)"

lemma clocked_writer: "clocked_by m ds os \<Longrightarrow> \<exists>a. run tw_step (tw_new a) ds = (mx_writer m, writes os) \<and> tw_takes (tw_new a) ds"
  by (auto simp: clocked_by_def mx_writer_def split: option.splits)

lemma faithful_unwritten:
  assumes "prefix (pipes MkVideo os) (acc MkVideo)" "subseq (pipes MkAudio os) (acc MkAudio)" "writes os = []"
  shows "faithful acc os"
proof -
  have "prefix (writes os) (run_out tw_step (tw_new False) []) \<and> tw_takes (tw_new False) [] \<and> (\<forall>k. prefix (media k []) (acc k))" using assms(3) by simp
  then show ?thesis unfolding faithful_def using assms(1, 2) by blast
qed

lemma faithful_plain: "plain_flow acc os m \<Longrightarrow> faithful acc os"
proof -
  assume f: "plain_flow acc os m"
  then have "pipes k os = [] \<or> pipes k os = acc k" for k by (auto simp: plain_flow_def split: option.splits if_splits)
  then have "prefix (pipes MkVideo os) (acc MkVideo)" "subseq (pipes MkAudio os) (acc MkAudio)"
    by (metis Nil_prefix prefix_order.order_refl, metis list_emb_Nil subseq_order.order_refl)
  then show ?thesis by (rule faithful_unwritten) (use f in \<open>simp add: plain_flow_def\<close>)
qed

lemma faithful_paced: "paced_flow acc os m \<Longrightarrow> faithful acc os"
proof -
  assume f: "paced_flow acc os m"
  then obtain ds where d: "clocked_by m ds os" "\<forall>k. media k ds @ pending k (the (mx_pacer m)) = acc k" by (auto simp: paced_flow_def)
  obtain a where "run tw_step (tw_new a) ds = (mx_writer m, writes os)" "tw_takes (tw_new a) ds" using clocked_writer [OF d(1)] by blast
  then have "prefix (writes os) (run_out tw_step (tw_new a) ds) \<and> tw_takes (tw_new a) ds" by simp
  moreover have "\<forall>k. prefix (media k ds) (acc k)" using d(2) by (metis prefixI)
  ultimately show ?thesis using f by (auto simp: faithful_def paced_flow_def)
qed

lemma hist_faithful: "hist env good acc os m \<Longrightarrow> faithful acc os"
  by (auto simp: hist_def faithful_plain faithful_paced split: if_splits)

lemma faithful_more: "faithful acc os \<Longrightarrow> faithful (\<lambda>k. acc k @ new k) os"
  unfolding faithful_def
  by (meson prefix_prefix list_emb_prefix)

lemma faithful_silent: "faithful acc os \<Longrightarrow> \<forall>k. pipes k os' = [] \<Longrightarrow> writes os' = [] \<Longrightarrow> faithful acc (os @ os')"
  by (simp add: faithful_def)

text \<open>Closing.\<close>

lemma close_silent [simp]: "pipes k (snd (mx_close env reason m)) = []" "writes (snd (mx_close env reason m)) = []"
  by (auto simp: mx_close_def mx_look_def Let_def split: option.split)

lemma close_idle: "\<not> mx_closed m \<Longrightarrow> idle (fst (mx_close env reason m))"
  by (cases "mx_pacer m") (simp_all add: mx_close_def mx_look_def Let_def idle_def)

lemma mx_close_closed: "mx_closed m \<Longrightarrow> mx_close env reason m = (m, [])"
  by (simp add: mx_close_def)

lemma idle_closed: "idle m \<Longrightarrow> mx_closed m"
  by (simp add: idle_def)

lemma hist_close:
  assumes "faithful acc os" "\<not> mx_closed m \<or> idle m"
  shows "hist env good acc (os @ snd (mx_close env reason m)) (fst (mx_close env reason m))"
proof -
  have "idle (fst (mx_close env reason m))" using assms(2) close_idle mx_close_closed by (metis fst_conv idle_closed)
  then show ?thesis using assms(1) faithful_silent [of acc os "snd (mx_close env reason m)"] idle_closed by (simp add: hist_def)
qed


section \<open>The process path keeps the history\<close>

lemma write_cases:
  assumes "\<not> mx_closed m"
  obtains (sent) n where "mx_write env kind chunk m = (m\<lparr>mx_reads := n\<rparr>, [MoPipe kind chunk])"
  | (refused) n reason where "mx_write env kind chunk m = mx_close env reason (m\<lparr>mx_reads := n\<rparr>)"
  | (over) n reason where "mx_write env kind chunk m =
      (fst (mx_close env reason (m\<lparr>mx_reads := n\<rparr>)), MoPipe kind chunk # snd (mx_close env reason (m\<lparr>mx_reads := n\<rparr>)))"
proof -
  define n where "n = mx_reads m"
  have l1: "mx_look env m = (me_reads env n, m\<lparr>mx_reads := n + 1\<rparr>)" by (simp add: mx_look_def n_def)
  have l2: "mx_look env (m\<lparr>mx_reads := n + 1\<rparr>) = (me_reads env (n + 1), m\<lparr>mx_reads := n + 2\<rparr>)" by (simp add: mx_look_def)
  show ?thesis
  proof (cases "\<not> rd_writable (me_reads env n) \<or> rd_destroyed (me_reads env n)")
    case True
    then have "mx_write env kind chunk m = mx_close env (Some MrInputClosed) (m\<lparr>mx_reads := n + 1\<rparr>)" by (simp add: mx_write_def l1)
    then show ?thesis by (rule refused)
  next
    case ok: False
    then have w: "mx_write env kind chunk m = seq_do (m\<lparr>mx_reads := n + 2\<rparr>, [MoPipe kind chunk])
      (if int (rd_length (me_reads env (n + 1))) > MAX_INPUT_BYTES then mx_close env (Some MrInputBackpressure) else (\<lambda>m. (m, [])))"
      unfolding mx_write_def l1 Let_def prod.case l2 by simp
    show ?thesis
    proof (cases "int (rd_length (me_reads env (n + 1))) > MAX_INPUT_BYTES")
      case True
      then show ?thesis using w by (intro over [of "Some MrInputBackpressure" "n + 2"]) (simp add: seq_do_def split_beta Let_def)
    next
      case False
      then show ?thesis using w by (intro sent [of "n + 2"]) (simp add: seq_do_def)
    qed
  qed
qed

lemma other_kind: "k \<noteq> MkVideo \<longleftrightarrow> k = MkAudio" "k \<noteq> MkAudio \<longleftrightarrow> k = MkVideo"
  by (cases k; simp)+

text \<open>A fed pipe: everything sent and the viewer unchanged, or the viewer closed.\<close>

definition fed :: "media_kind \<Rightarrow> bytes list \<Rightarrow> mux \<Rightarrow> mux_result \<Rightarrow> bool" where
  "fed k xs m r \<longleftrightarrow> (\<exists>n. r = (m\<lparr>mx_reads := n\<rparr>, map (MoPipe k) xs)) \<or>
     idle (fst r) \<and> writes (snd r) = [] \<and> (\<forall>k'. k' \<noteq> k \<longrightarrow> pipes k' (snd r) = []) \<and> subseq (pipes k (snd r)) xs \<and>
       (k = MkVideo \<longrightarrow> prefix (pipes k (snd r)) xs)"

lemma write_fed: "\<not> mx_closed m \<Longrightarrow> fed k [x] m (mx_write env k x m)"
proof -
  assume o: "\<not> mx_closed m"
  have i: "idle (fst (mx_close env reason (m\<lparr>mx_reads := n\<rparr>)))" for reason n using o close_idle [of "m\<lparr>mx_reads := n\<rparr>"] by simp
  show ?thesis using o
  proof (cases rule: write_cases [where env = env and kind = k and chunk = x])
    case (sent n)
    then show ?thesis by (auto simp: fed_def)
  next
    case (refused n reason)
    then show ?thesis using i by (simp add: fed_def)
  next
    case (over n reason)
    then show ?thesis using i by (simp add: fed_def)
  qed
qed

lemma write_closed:
  assumes "idle m"
  shows "idle (fst (mx_write env k x m)) \<and> (snd (mx_write env k x m) = [] \<or> snd (mx_write env k x m) = [MoPipe k x])"
proof -
  have "mx_close env reason (m\<lparr>mx_reads := n\<rparr>) = (m\<lparr>mx_reads := n\<rparr>, [])" for reason n
    using assms by (simp add: mx_close_def idle_def)
  moreover have "idle (m\<lparr>mx_reads := n\<rparr>)" for n using assms by (simp add: idle_def)
  ultimately show ?thesis using assms by (simp add: mx_write_def mx_look_def Let_def seq_do_def)
qed

lemma feed_closed:
  assumes "idle m"
  shows "idle (fst (each_do (mx_write env k) xs m)) \<and> writes (snd (each_do (mx_write env k) xs m)) = [] \<and>
    subseq (pipes k (snd (each_do (mx_write env k) xs m))) xs \<and> (\<forall>k'. k' \<noteq> k \<longrightarrow> pipes k' (snd (each_do (mx_write env k) xs m)) = [])"
  using assms
proof (induction xs arbitrary: m)
  case (Cons x xs)
  obtain m1 o1 where w: "mx_write env k x m = (m1, o1)" by fastforce
  have i: "idle m1" "o1 = [] \<or> o1 = [MoPipe k x]" using write_closed [OF Cons.prems, of env k x] w by auto
  obtain m2 o2 where e: "each_do (mx_write env k) xs m1 = (m2, o2)" by fastforce
  have r: "each_do (mx_write env k) (x # xs) m = (m2, o1 @ o2)" by (simp add: seq_do_def w e)
  show ?case unfolding r using Cons.IH [OF i(1)] i(2) e by auto
qed simp

lemma feed_audio_fed: "\<not> mx_closed m \<Longrightarrow> fed MkAudio xs m (each_do (mx_write env MkAudio) xs m)"
proof (induction xs arbitrary: m)
  case Nil
  show ?case by (auto simp: fed_def intro: exI [of _ "mx_reads m"])
next
  case (Cons x xs)
  obtain m1 o1 where w: "mx_write env MkAudio x m = (m1, o1)" by fastforce
  have f: "fed MkAudio [x] m (m1, o1)" using write_fed [OF Cons.prems] w by metis
  obtain m2 o2 where e: "each_do (mx_write env MkAudio) xs m1 = (m2, o2)" by fastforce
  have r: "each_do (mx_write env MkAudio) (x # xs) m = (m2, o1 @ o2)" by (simp add: seq_do_def w e)
  from f consider (sent) n where "m1 = m\<lparr>mx_reads := n\<rparr>" "o1 = [MoPipe MkAudio x]"
    | (closed) "idle m1" "writes o1 = []" "pipes MkVideo o1 = []" "subseq (pipes MkAudio o1) [x]"
    by (auto simp: fed_def)
  then show ?case
  proof cases
    case sent
    then have "fed MkAudio xs m1 (m2, o2)" using Cons.IH [of m1] Cons.prems e by simp
    then show ?thesis unfolding r using sent by (auto simp: fed_def)
  next
    case closed
    have "subseq (pipes MkAudio o1 @ pipes MkAudio o2) ([x] @ xs)"
      using closed(4) feed_closed [OF closed(1), of env MkAudio xs] e by (intro list_emb_append_mono) auto
    then show ?thesis unfolding r fed_def using closed feed_closed [OF closed(1), of env MkAudio xs] e
      by (intro disjI2) (auto simp: other_kind)
  qed
qed

lemma feed_video_fed: "\<not> mx_closed m \<Longrightarrow> fed MkVideo (if me_spawned env then xs else []) m (each_do (mx_feed_video env) xs m)"
proof (induction xs arbitrary: m)
  case Nil
  show ?case by (auto simp: fed_def intro: exI [of _ "mx_reads m"])
next
  case (Cons x xs)
  obtain m1 o1 where w: "mx_feed_video env x m = (m1, o1)" by fastforce
  obtain m2 o2 where e: "each_do (mx_feed_video env) xs m1 = (m2, o2)" by fastforce
  have r: "each_do (mx_feed_video env) (x # xs) m = (m2, o1 @ o2)" by (simp add: seq_do_def w e)
  have idle_feed: "each_do (mx_feed_video env) ys q = (q, [])" if "mx_closed q" for ys q
    using that by (induction ys) (simp_all add: mx_feed_video_def seq_do_def)
  show ?case
  proof (cases "me_spawned env")
    case True
    have "fed MkVideo [x] m (m1, o1)" using write_fed [OF Cons.prems, of MkVideo x env] w True Cons.prems by (simp add: mx_feed_video_def)
    then consider (sent) n where "m1 = m\<lparr>mx_reads := n\<rparr>" "o1 = [MoPipe MkVideo x]"
      | (closed) "idle m1" "writes o1 = []" "pipes MkAudio o1 = []" "prefix (pipes MkVideo o1) [x]"
      by (auto simp: fed_def)
    then show ?thesis
    proof cases
      case sent
      then have "fed MkVideo xs m1 (m2, o2)" using Cons.IH [of m1] Cons.prems e True by simp
      then show ?thesis unfolding r using sent True by (auto simp: fed_def)
    next
      case closed
      then have "m2 = m1" "o2 = []" using idle_feed [of m1 xs] e by (auto simp: idle_def)
      moreover have "prefix (pipes MkVideo o1) (x # xs)" using closed(4) prefix_prefix [of _ "[x]" xs] by simp
      ultimately show ?thesis unfolding r fed_def using closed True prefix_imp_subseq
        by (intro disjI2) (auto simp: other_kind)
    qed
  next
    case False
    then have "m1 = m" "o1 = []" using w by (auto simp: mx_feed_video_def)
    then show ?thesis unfolding r using Cons.IH [OF Cons.prems] e False by simp
  qed
qed


text \<open>Before a start: everything admitted is still held.\<close>

definition startable :: "mux_env \<Rightarrow> bool \<Rightarrow> admitted \<Rightarrow> mux_out list \<Rightarrow> mux \<Rightarrow> bool" where
  "startable env withAudio acc os m \<longleftrightarrow> plain env m \<and> mx_process m = None \<and> \<not> mx_audioReady m \<and> mx_video m \<noteq> [] \<and>
     plain_flow acc os m \<and> (withAudio \<or> mx_audio m = []) \<and> mx_pacingDecided m"

lemma feed_audio_hist:
  assumes "\<not> mx_closed m" "mx_pacer m = None" "mx_clocked m = None" "mx_pacingDecided m"
    "mx_process m = Some \<lparr> mp_piped = me_spawned env, mp_audio = withAudio \<rparr>" "\<not> mx_audioReady m"
    "mx_headersSent m" "mx_outputTimer m" "mx_starting m" "withAudio \<or> mx_audio m = []" "mx_audio m = acc MkAudio"
    "writes os = []" "pipes MkAudio os = []" "pipes MkVideo os = (if me_spawned env then acc MkVideo else [])"
    "chunk_bytes (mx_audio m) \<le> MAX_INPUT_BYTES"
  shows "hist env good acc (os @ snd (mx_feed_audio env withAudio m)) (fst (mx_feed_audio env withAudio m))"
proof -
  define q where "q = m\<lparr>mx_video := [], mx_bufferedBytes := chunk_bytes (mx_audio m)\<rparr>"
  show ?thesis
  proof (cases "withAudio \<and> me_spawned env")
    case False
    have e: "mx_feed_audio env withAudio m = (q, [])" using False by (simp only: mx_feed_audio_def Let_def q_def [symmetric] if_False)
    have "pipes k os = (if me_spawned env then acc k else [])" for k using assms False by (cases k) auto
    then show ?thesis unfolding e
      using assms False by (auto simp: hist_def plain_def plain_wait_def plain_flow_def q_def chunk_bytes_def MAX_INPUT_BYTES_def)
  next
    case True
    define q' where "q' = q\<lparr>mx_audioReady := True\<rparr>"
    obtain m1 o1 where e: "each_do (mx_write env MkAudio) (mx_audio m) q' = (m1, o1)" by fastforce
    have a: "mx_audio q = mx_audio m" by (simp add: q_def)
    have r: "mx_feed_audio env withAudio m = (m1\<lparr>mx_audio := [], mx_bufferedBytes := 0\<rparr>, o1)"
      using True e by (simp add: mx_feed_audio_def Let_def q_def [symmetric] q'_def [symmetric] a seq_do_def)
    have "fed MkAudio (mx_audio m) q' (m1, o1)" using feed_audio_fed [of q' "mx_audio m" env] assms(1) e by (simp add: q'_def q_def)
    then consider (sent) n where "m1 = q'\<lparr>mx_reads := n\<rparr>" "o1 = map (MoPipe MkAudio) (mx_audio m)"
      | (closed) "idle m1" "writes o1 = []" "pipes MkVideo o1 = []" "subseq (pipes MkAudio o1) (mx_audio m)"
      by (auto simp: fed_def)
    then show ?thesis
    proof cases
      case sent
      have "pipes k (os @ o1) = acc k" for k using sent(2) assms True by (cases k) auto
      then show ?thesis unfolding r using sent assms True
        by (simp add: hist_def plain_def plain_wait_def plain_flow_def q'_def q_def chunk_bytes_def MAX_INPUT_BYTES_def)
    next
      case closed
      have "faithful acc (os @ o1)" by (rule faithful_unwritten) (use closed assms True in auto)
      moreover have "idle (m1\<lparr>mx_audio := [], mx_bufferedBytes := 0\<rparr>)" using closed(1) by (simp add: idle_def)
      ultimately show ?thesis unfolding r by (simp add: hist_def idle_closed)
    qed
  qed
qed

lemma start_hist:
  assumes "startable env withAudio acc os m"
  shows "hist env good acc (os @ snd (mx_start env withAudio m)) (fst (mx_start env withAudio m))"
proof -
  have s: "\<not> mx_closed m" "mx_process m = None" "\<not> mx_starting m" "mx_video m \<noteq> []"
    using assms by (auto simp: startable_def plain_def)
  have f: "faithful acc os" using assms faithful_plain by (auto simp: startable_def)
  have p: "pipes k os = []" "held k m = acc k" for k using assms s(2) by (auto simp: startable_def plain_flow_def)
  define r where "r = me_reads env (mx_reads m)"
  define m1 where "m1 = m\<lparr>mx_starting := True, mx_reads := mx_reads m + 1\<rparr>"
  have l: "mx_look env (m\<lparr>mx_starting := True\<rparr>) = (r, m1)" by (simp add: mx_look_def r_def m1_def)
  show ?thesis
  proof (cases "rd_destroyed r \<or> rd_ended r")
    case True
    have e: "mx_start env withAudio m = mx_close env None m1" unfolding mx_start_def l Let_def using s True by simp
    show ?thesis unfolding e by (rule hist_close [OF f]) (use s in \<open>simp add: m1_def\<close>)
  next
    case gone: False
    define m2 where "m2 = mx_awaitOutput (m1\<lparr>mx_timer := False, mx_headersSent := True,
      mx_process := Some \<lparr> mp_piped = me_spawned env, mp_audio = withAudio \<rparr>\<rparr>)"
    have m2: "\<not> mx_closed m2" "mx_video m2 = acc MkVideo" "mx_audio m2 = acc MkAudio"
      using s p(2) [of MkVideo] p(2) [of MkAudio] by (simp_all add: m2_def m1_def mx_awaitOutput_def held_def)
    obtain m3 o3 where v: "each_do (mx_feed_video env) (mx_video m2) m2 = (m3, o3)" by fastforce
    obtain m4 o4 where a: "mx_feed_audio env withAudio m3 = (m4, o4)" by fastforce
    have e: "mx_start env withAudio m = (m4, [MoSpawn withAudio, MoHead] @ o3 @ o4)"
      unfolding mx_start_def l Let_def prod.case m2_def [symmetric] using s gone by (simp add: seq_do_def v a)
    have "fed MkVideo (if me_spawned env then mx_video m2 else []) m2 (m3, o3)"
      using feed_video_fed [OF m2(1), of env "mx_video m2"] unfolding v .
    then have "fed MkVideo (if me_spawned env then acc MkVideo else []) m2 (m3, o3)" unfolding m2(2) .
    then consider (sent) n where "m3 = m2\<lparr>mx_reads := n\<rparr>" "o3 = map (MoPipe MkVideo) (if me_spawned env then acc MkVideo else [])"
      | (closed) "idle m3" "writes o3 = []" "pipes MkAudio o3 = []" "prefix (pipes MkVideo o3) (if me_spawned env then acc MkVideo else [])"
      by (auto simp: fed_def)
    then show ?thesis
    proof cases
      case sent
      have "mx_audio m = acc MkAudio" using p(2) [of MkAudio] by (simp add: held_def)
      then have "hist env good acc ((os @ [MoSpawn withAudio, MoHead] @ o3) @ snd (mx_feed_audio env withAudio m3)) (fst (mx_feed_audio env withAudio m3))"
        using assms sent p(1)
        by (intro feed_audio_hist)
          (auto simp: startable_def plain_def plain_flow_def m2_def m1_def mx_awaitOutput_def chunk_bytes_def split: if_splits)
      then show ?thesis by (simp add: e a)
    next
      case closed
      have "each_do (mx_write env MkAudio) (mx_audio q) q = (q, [])" if "mx_audio q = []" for q using that by simp
      then have a4: "o4 = []" "idle m4"
        using closed(1) a by (auto simp: mx_feed_audio_def Let_def seq_do_def idle_def split: if_splits)
      have "prefix (pipes MkVideo o3) (acc MkVideo)" using closed(4) by (auto split: if_splits)
      moreover have "writes os = []" using assms by (simp add: startable_def plain_flow_def)
      ultimately have "faithful acc (os @ [MoSpawn withAudio, MoHead] @ o3)" using closed p by (intro faithful_unwritten) auto
      then show ?thesis using a4 by (simp add: e hist_def idle_closed)
    qed
  qed
qed

section \<open>Admitted media\<close>

fun mx_taken :: "mux_event \<Rightarrow> mux \<Rightarrow> admitted" where
  "mx_taken (MvVideo smooth now clock chunk) m k = (if k = MkVideo \<and> \<not> mx_closed m \<and> chunk \<noteq> [] then [chunk] else [])"
| "mx_taken (MvAudio now chunk) m k =
     (if k = MkAudio \<and> \<not> mx_closed m \<and> chunk \<noteq> [] \<and>
         (case mx_pacer m of
            Some p \<Rightarrow> \<not> pc_audioDisabled p
          | None \<Rightarrow> (case mx_process m of None \<Rightarrow> True | Some p \<Rightarrow> mx_audioReady m \<and> mp_piped p \<and> mp_audio p))
      then [chunk] else [])"
| "mx_taken _ m k = []"

lemma hist_same: "hist env good acc os m \<Longrightarrow> (\<And>k. acc' k = acc k) \<Longrightarrow> hist env good acc' os m"
proof -
  assume h: "hist env good acc os m" and a: "\<And>k. acc' k = acc k"
  have "acc' = acc" by (rule ext) (rule a)
  then show ?thesis using h by simp
qed

lemma write_hist:
  assumes "hist env good acc os m" "mx_pacer m = None" "\<not> mx_closed m" "mx_process m = Some p" "mp_piped p"
  shows "hist env good (\<lambda>k'. acc k' @ (if k' = k then [chunk] else [])) (os @ snd (mx_write env k chunk m)) (fst (mx_write env k chunk m))"
proof -
  have h: "plain env m" "plain_wait env m" "plain_flow acc os m" using assms by (auto simp: hist_def)
  have pk: "pipes k' os = acc k'" and w: "writes os = []" for k' using h(3) assms(4, 5) by (auto simp: plain_flow_def)
  have f: "faithful (\<lambda>k'. acc k' @ (if k' = k then [chunk] else [])) os" by (rule faithful_more [OF hist_faithful [OF assms(1)]])
  have f1: "faithful (\<lambda>k'. acc k' @ (if k' = k then [chunk] else [])) (os @ [MoPipe k chunk])"
    by (rule faithful_unwritten) (use pk w in \<open>cases k; simp\<close>)+
  show ?thesis using assms(3)
  proof (cases rule: write_cases [where env = env and kind = k and chunk = chunk])
    case (sent n)
    have a: "plain env (m\<lparr>mx_reads := n\<rparr>)" "plain_wait env (m\<lparr>mx_reads := n\<rparr>)"
      using h(1, 2) by (auto simp: plain_def plain_wait_def split: option.splits)
    have "plain_flow (\<lambda>k'. acc k' @ (if k' = k then [chunk] else [])) (os @ [MoPipe k chunk]) (m\<lparr>mx_reads := n\<rparr>)"
      using assms(4, 5) pk w by (auto simp: plain_flow_def)
    then show ?thesis using a assms(2, 3) by (simp add: sent hist_def)
  next
    case (refused n reason)
    then show ?thesis using hist_close [OF f, of "m\<lparr>mx_reads := n\<rparr>"] assms(3) by simp
  next
    case (over n reason)
    then show ?thesis using hist_close [OF f1, of "m\<lparr>mx_reads := n\<rparr>" env good reason] assms(3) by simp
  qed
qed


lemma chunk_bytes_append [simp]: "chunk_bytes (xs @ ys) = chunk_bytes xs + chunk_bytes ys" "chunk_bytes [] = 0"
    "chunk_bytes [x] = int (length x)"
  by (simp_all add: chunk_bytes_def)

lemma plainVideo_hist:
  assumes "hist env good acc os m" "mx_pacer m = None" "\<not> mx_closed m" "mx_pacingDecided m"
  shows "hist env good (\<lambda>k. acc k @ (if k = MkVideo \<and> chunk \<noteq> [] then [chunk] else [])) (os @ snd (mx_plainVideo env chunk m))
    (fst (mx_plainVideo env chunk m))" (is "hist env good ?acc _ _")
proof (cases "chunk = []")
  case True
  then show ?thesis using assms(1) by (simp add: mx_plainVideo_def)
next
  case ne: False
  have h: "plain env m" "plain_wait env m" "plain_flow acc os m" using assms by (auto simp: hist_def)
  show ?thesis
  proof (cases "case mx_process m of None \<Rightarrow> False | Some p \<Rightarrow> mp_piped p")
    case True
    then obtain p where "mx_process m = Some p" "mp_piped p" by (auto split: option.splits)
    from write_hist [OF assms(1-3) this, of MkVideo chunk] show ?thesis
      using True ne assms(3) by (simp add: mx_plainVideo_def)
  next
    case np: False
    define m1 where "m1 = m\<lparr>mx_video := mx_video m @ [chunk], mx_bufferedBytes := mx_bufferedBytes m + int (length chunk)\<rparr>"
    have f: "faithful ?acc os" by (rule faithful_more [OF hist_faithful [OF assms(1)]])
    have e: "mx_plainVideo env chunk m = (if mx_bufferedBytes m1 > MAX_INPUT_BYTES then mx_close env (Some MrStartupInput) m1
         else if mx_audio m1 \<noteq> [] then mx_start env True m1 else (m1\<lparr>mx_timer := True\<rparr>, []))"
      using assms(3) ne np by (simp add: mx_plainVideo_def m1_def Let_def)
    have fl: "plain_flow ?acc os m1"
      using h(3) np ne by (auto simp: plain_flow_def m1_def held_def split: option.splits media_kind.splits)
    have pl: "mx_bufferedBytes m1 \<le> MAX_INPUT_BYTES \<Longrightarrow> plain env m1" using h(1) assms(4) by (auto simp: plain_def m1_def)
    consider (over) "mx_bufferedBytes m1 > MAX_INPUT_BYTES" | (start) "mx_bufferedBytes m1 \<le> MAX_INPUT_BYTES" "mx_audio m1 \<noteq> []"
      | (wait) "mx_bufferedBytes m1 \<le> MAX_INPUT_BYTES" "mx_audio m1 = []"
      by fastforce
    then show ?thesis
    proof cases
      case over
      then have e: "mx_plainVideo env chunk m = mx_close env (Some MrStartupInput) m1" using e by simp
      show ?thesis unfolding e by (rule hist_close [OF f]) (simp add: m1_def assms(3))
    next
      case start
      show ?thesis
      proof (cases "mx_process m")
        case None
        have st: "startable env True ?acc os m1"
          using pl [OF start(1)] fl None h(2) assms(4) by (simp add: startable_def m1_def plain_wait_def)
        have e: "mx_plainVideo env chunk m = mx_start env True m1" using e start by simp
        show ?thesis unfolding e by (rule start_hist [OF st])
      next
        case (Some p)
        then have "mx_plainVideo env chunk m = (m1, [])" using e start by (simp add: mx_start_def m1_def)
        moreover have "plain_wait env m1" using h(2) Some np by (auto simp: plain_wait_def m1_def split: if_splits)
        ultimately show ?thesis using pl [OF start(1)] fl assms(2, 3) by (simp add: hist_def m1_def)
      qed
    next
      case wait
      define m2 where "m2 = m1\<lparr>mx_timer := True\<rparr>"
      have "plain env m2" using pl [OF wait(1)] assms(4) by (simp add: plain_def m2_def m1_def)
      moreover have "plain_wait env m2"
      proof (cases "mx_process m")
        case None
        then show ?thesis using h(2) wait(2) by (simp add: plain_wait_def m2_def m1_def)
      next
        case (Some p)
        then show ?thesis using h(2) np by (simp add: plain_wait_def m2_def m1_def)
      qed
      moreover have hm: "held k m2 = held k m1" "mx_process m2 = mx_process m1" for k
        by (simp_all add: held_def m2_def cong: media_kind.case_cong)
      have "plain_flow ?acc os m2" using fl unfolding plain_flow_def hm .
      moreover have "mx_plainVideo env chunk m = (m2, [])" using e wait by (simp add: m2_def)
      ultimately show ?thesis using assms(2, 3) by (simp add: hist_def m2_def m1_def)
    qed
  qed
qed

lemma plainAudio_hist:
  assumes "hist env good acc os m" "mx_pacer m = None" "\<not> mx_closed m"
  shows "hist env good (\<lambda>k. acc k @ mx_taken (MvAudio now chunk) m k) (os @ snd (mx_plainAudio env chunk m)) (fst (mx_plainAudio env chunk m))"
    (is "hist env good ?acc _ _")
proof (cases "chunk = []")
  case True
  then show ?thesis using assms by (simp add: mx_plainAudio_def)
next
  case ne: False
  have h: "plain env m" "plain_wait env m" "plain_flow acc os m" using assms by (auto simp: hist_def)
  show ?thesis
  proof (cases "mx_process m")
    case (Some p)
    show ?thesis
    proof (cases "mx_audioReady m \<and> mp_piped p \<and> mp_audio p")
      case True
      then show ?thesis using write_hist [OF assms(1-3) Some, of MkAudio chunk] Some ne assms(2, 3)
        by (simp add: mx_plainAudio_def)
    next
      case False
      then show ?thesis using assms Some by (auto simp: mx_plainAudio_def)
    qed
  next
    case None
    define m1 where "m1 = m\<lparr>mx_audio := mx_audio m @ [chunk], mx_bufferedBytes := mx_bufferedBytes m + int (length chunk)\<rparr>"
    have t: "mx_taken (MvAudio now chunk) m k = (if k = MkAudio then [chunk] else [])" for k using ne assms None by simp
    have f: "faithful ?acc os" by (rule faithful_more [OF hist_faithful [OF assms(1)]])
    have e: "mx_plainAudio env chunk m = (if mx_bufferedBytes m1 > MAX_INPUT_BYTES then mx_close env (Some MrStartupInput) m1
         else if mx_video m1 \<noteq> [] then mx_start env True m1 else (m1, []))"
      using assms(3) ne None by (simp add: mx_plainAudio_def m1_def Let_def)
    have fl: "plain_flow ?acc os m1" unfolding t
      using h(3) None by (auto simp: plain_flow_def m1_def held_def split: media_kind.splits)
    have pl: "mx_bufferedBytes m1 \<le> MAX_INPUT_BYTES \<Longrightarrow> plain env m1" using h(1) by (auto simp: plain_def m1_def)
    consider (over) "mx_bufferedBytes m1 > MAX_INPUT_BYTES" | (start) "mx_bufferedBytes m1 \<le> MAX_INPUT_BYTES" "mx_video m1 \<noteq> []"
      | (wait) "mx_bufferedBytes m1 \<le> MAX_INPUT_BYTES" "mx_video m1 = []"
      by fastforce
    then show ?thesis
    proof cases
      case over
      then have e: "mx_plainAudio env chunk m = mx_close env (Some MrStartupInput) m1" using e by simp
      show ?thesis unfolding e by (rule hist_close [OF f]) (simp add: m1_def assms(3))
    next
      case start
      have "mx_pacingDecided m" using h(1) start(2) by (auto simp: plain_def m1_def)
      then have st: "startable env True ?acc os m1"
        using pl [OF start(1)] fl None h(2) start(2) by (simp add: startable_def m1_def plain_wait_def)
      have e: "mx_plainAudio env chunk m = mx_start env True m1" using e start by simp
      show ?thesis unfolding e by (rule start_hist [OF st])
    next
      case wait
      have "plain_wait env m1" using h(2) wait(2) None by (simp add: plain_wait_def m1_def)
      moreover have "mx_plainAudio env chunk m = (m1, [])" using e wait by simp
      ultimately show ?thesis using pl [OF wait(1)] fl assms(2, 3) by (simp add: hist_def m1_def)
    qed
  qed
qed


section \<open>The paced path keeps the history\<close>

text \<open>Between the parts of a call the response fields move together, and everything else stays.\<close>

definition response_only :: "mux \<Rightarrow> mux \<Rightarrow> bool" where
  "response_only m m' \<longleftrightarrow> (\<exists>n b. m' = m\<lparr>mx_reads := n, mx_headersSent := b, mx_outputTimer := b\<rparr>)"

lemma response_only_refl: "mx_outputTimer m = mx_headersSent m \<Longrightarrow> response_only m m"
  unfolding response_only_def by (rule exI [of _ "mx_reads m"], rule exI [of _ "mx_headersSent m"]) simp

lemma packets_result:
  assumes "\<not> mx_closed m" "mx_outputTimer m = mx_headersSent m" "each_do (mx_packet env) ps m = (m', o')"
  shows "(\<forall>k. pipes k o' = []) \<and> (response_only m m' \<and> writes o' = ps \<or>
    mx_closed m' \<and> prefix (writes o') ps \<and> (\<exists>reason q. response_only m q \<and> m' = fst (mx_close env reason q)))"
  using assms
proof (induction ps arbitrary: m m' o')
  case Nil
  then show ?case using response_only_refl by simp
next
  case (Cons x ps)
  have idle_each: "each_do (mx_packet env) ys q = (q, [])" if "mx_closed q" for ys q
    using that by (induction ys) (simp_all add: mx_packet_def seq_do_def)
  define m1 where "m1 = m\<lparr>mx_reads := mx_reads m + 1\<rparr>"
  have ro: "response_only m m1" unfolding response_only_def
    by (rule exI [of _ "mx_reads m + 1"], rule exI [of _ "mx_headersSent m"]) (use Cons.prems(2) in \<open>simp add: m1_def\<close>)
  show ?case
  proof (cases "\<exists>reason. mx_packet env x m = mx_close env reason m1")
    case True
    then obtain reason where p: "mx_packet env x m = mx_close env reason m1" by blast
    obtain m2 o2 where c: "mx_close env reason m1 = (m2, o2)" by fastforce
    have "mx_closed m1 \<longleftrightarrow> False" using Cons.prems(1) by (simp add: m1_def)
    then have "mx_closed m2" using close_idle [of m1 env reason] c by (auto simp: idle_def)
    then have "m' = m2" "o' = o2" using Cons.prems(3) idle_each [of m2 ps] by (auto simp: seq_do_def p c)
    moreover have "pipes k o2 = []" "writes o2 = []" for k using close_silent(1) [of k env reason m1] close_silent(2) [of env reason m1] c by auto
    moreover have "m2 = fst (mx_close env reason m1)" using c by simp
    ultimately show ?thesis using ro \<open>mx_closed m2\<close> by auto
  next
    case False
    have p: "mx_packet env x m = (mx_awaitOutput (m1\<lparr>mx_headersSent := True\<rparr>), (if mx_headersSent m1 then [] else [MoHead]) @ [MoWrite x])"
      using False Cons.prems(1) by (auto simp: mx_packet_def mx_look_def Let_def m1_def split: if_splits)
    define m2 where "m2 = m1\<lparr>mx_headersSent := True, mx_outputTimer := True\<rparr>"
    obtain m3 o3 where e: "each_do (mx_packet env) ps m2 = (m3, o3)" by fastforce
    have "mx_awaitOutput (m1\<lparr>mx_headersSent := True\<rparr>) = m2" using Cons.prems(1) by (simp add: mx_awaitOutput_def m2_def m1_def)
    then have r: "m' = m3" "o' = ((if mx_headersSent m1 then [] else [MoHead]) @ [MoWrite x]) @ o3"
      using Cons.prems(3) by (auto simp: seq_do_def p e)
    have "response_only m2 q \<Longrightarrow> response_only m q" for q by (auto simp: response_only_def m2_def m1_def)
    then show ?thesis using Cons.IH [OF _ _ e] Cons.prems(1) r by (auto simp: m2_def m1_def)
  qed
qed

lemma run_snoc: "run tw_step w ds = (w1, ws) \<Longrightarrow> tw_step w1 e = (w2, ps) \<Longrightarrow> run tw_step w (ds @ [e]) = (w2, ws @ ps)"
  by (simp add: run_append)

definition event_of :: "media_kind \<Rightarrow> bytes \<Rightarrow> real \<Rightarrow> tw_event" where
  "event_of kind data time = (case kind of MkVideo \<Rightarrow> TeVideo data (Some time) | MkAudio \<Rightarrow> TeAudio data (Some time))"

lemma event_media [simp]: "media_of k (event_of kind data time) = delivery k (PoDeliver kind data time)"
  by (cases kind; cases k) (simp_all add: event_of_def)

lemma event_call: "tw_call w (event_of kind data time) = clocked_call kind data time w"
  by (cases kind) (simp_all add: event_of_def clocked_call_def)

lemma event_step: "tw_step w (event_of kind data time) = (case clocked_call kind data time w of None \<Rightarrow> (w, []) | Some r \<Rightarrow> r)"
  by (cases kind) (simp_all add: event_of_def clocked_call_def)

text \<open>A delivery in the timer: the packet has left the pacer and not yet reached the writer.\<close>

definition in_hand :: "admitted \<Rightarrow> mux_out list \<Rightarrow> pc_out \<Rightarrow> mux \<Rightarrow> bool" where
  "in_hand acc os w m \<longleftrightarrow> (\<forall>k. pipes k os = []) \<and>
     (\<exists>ds. clocked_by m ds os \<and> (\<forall>k. media k ds @ delivery k w @ pending k (the (mx_pacer m)) = acc k))"

lemma deliver_hist:
  assumes "paced good m" "in_hand acc os (PoDeliver kind data time) m"
  shows "hist env good acc (os @ snd (mx_acceptPacedMedia env kind data time m)) (fst (mx_acceptPacedMedia env kind data time m))"
proof -
  have o: "\<not> mx_closed m" "mx_pacer m \<noteq> None" using assms(1) by (auto simp: paced_def)
  obtain ds where ds: "clocked_by m ds os" "\<forall>k. media k ds @ delivery k (PoDeliver kind data time) @ pending k (the (mx_pacer m)) = acc k"
    and pk: "\<forall>k. pipes k os = []" using assms(2) by (auto simp: in_hand_def)
  obtain a where a: "run tw_step (tw_new a) ds = (mx_writer m, writes os)" "tw_takes (tw_new a) ds" using clocked_writer [OF ds(1)] by blast
  define ds' where "ds' = ds @ [event_of kind data time]"
  have md: "media k ds' @ pending k (the (mx_pacer m)) = acc k" for k using ds(2) by (simp add: ds'_def)
  have pm: "\<forall>k. prefix (media k ds') (acc k)" using md by (metis prefixI)
  show ?thesis
  proof (cases "clocked_call kind data time (mx_writer m)")
    case None
    have e: "mx_acceptPacedMedia env kind data time m = mx_close env (Some MrTransportInvalid) (m\<lparr>mx_clocked := Some (mx_writer m)\<rparr>)"
      using o None by (simp add: mx_acceptPacedMedia_def)
    have "prefix (writes os) (run_out tw_step (tw_new a) ds)" using a(1) by simp
    moreover have "\<forall>k. prefix (media k ds) (acc k)" using ds(2) by (metis prefixI)
    ultimately have f: "faithful acc os" using a(2) pk unfolding faithful_def by (auto simp del: run.simps)
    show ?thesis unfolding e by (rule hist_close [OF f]) (use o in simp)
  next
    case (Some r)
    obtain w ps where r: "r = (w, ps)" by (cases r)
    define q where "q = m\<lparr>mx_clocked := Some w\<rparr>"
    obtain m' o' where e: "each_do (mx_packet env) ps q = (m', o')" by fastforce
    have x: "mx_acceptPacedMedia env kind data time m = (m', o')" using o Some r e by (simp add: mx_acceptPacedMedia_def q_def)
    have rn: "run tw_step (tw_new a) ds' = (w, writes os @ ps)" using run_snoc [OF a(1)] Some r by (simp add: ds'_def event_step)
    have tk: "tw_takes (tw_new a) ds'" using a Some by (simp add: ds'_def tw_takes_snoc event_call)
    have q: "\<not> mx_closed q" "mx_outputTimer q = mx_headersSent q" using assms(1) by (auto simp: paced_def q_def)
    from packets_result [OF q e] consider (going) "response_only q m'" "writes o' = ps" "\<forall>k. pipes k o' = []"
      | (closed) "prefix (writes o') ps" "\<forall>k. pipes k o' = []" "\<exists>reason p. response_only q p \<and> m' = fst (mx_close env reason p)" by blast
    then show ?thesis
    proof cases
      case going
      then have pg: "paced good m'" using assms(1) by (auto simp: response_only_def paced_def q_def)
      have "clocked_by m' ds' (os @ o')" using going rn tk by (auto simp: response_only_def clocked_by_def q_def)
      moreover have "mx_pacer m' = mx_pacer m" using going(1) by (auto simp: response_only_def q_def)
      ultimately have "paced_flow acc (os @ o') m'" unfolding paced_flow_def using md pk going(3) by auto
      then show ?thesis using pg by (auto simp: x hist_def paced_def)
    next
      case closed
      then obtain reason p where p: "response_only q p" "m' = fst (mx_close env reason p)" by blast
      have "idle m'" using p q(1) close_idle [of p env reason] by (auto simp: response_only_def)
      moreover have "prefix (writes (os @ o')) (run_out tw_step (tw_new a) ds')" using closed(1) by (simp add: rn)
      then have "faithful acc (os @ o')" using pm pk tk closed(2) unfolding faithful_def by (auto simp del: run.simps)
      ultimately show ?thesis by (simp add: x hist_def idle_closed)
    qed
  qed
qed


text \<open>A viewer keeps its pacer.\<close>

lemma close_some: "(mx_pacer (fst (mx_close env reason m)) = None) = (mx_pacer m = None)"
  by (simp add: mx_close_def mx_look_def Let_def)

lemma each_some: "(\<And>x m. (mx_pacer (fst (g x m)) = None) = (mx_pacer m = None)) \<Longrightarrow> (mx_pacer (fst (each_do g xs m)) = None) = (mx_pacer m = None)"
  by (induction xs arbitrary: m) (simp_all add: seq_do_def split_beta Let_def)

lemma packet_some: "(mx_pacer (fst (mx_packet env x m)) = None) = (mx_pacer m = None)"
  by (simp add: mx_packet_def mx_look_def Let_def close_some mx_awaitOutput_def)

lemma from_pacer_some: "(mx_pacer (fst (mx_from_pacer env w m)) = None) = (mx_pacer m = None)"
  by (cases w) (simp_all add: mx_acceptPacedMedia_def close_some each_some packet_some split: option.split prod.split)

lemma drain_some: "(mx_pacer (fst (mx_drain env now m)) = None) = (mx_pacer m = None)"
proof (induction env now m rule: mx_drain.induct)
  case (1 env now m)
  show ?case
  proof (cases "\<exists>p r. mx_pacer m = Some p \<and> pc_pop now p = Some r")
    case False
    then have "mx_drain env now m = (m, [])" by (subst mx_drain.simps) (auto split: option.split)
    then show ?thesis by simp
  next
    case True
    then obtain p p' w where p: "mx_pacer m = Some p" and pop: "pc_pop now p = Some (p', w)" by auto
    obtain m1 o1 where d: "mx_from_pacer env w (m\<lparr>mx_pacer := Some p'\<rparr>) = (m1, o1)" by fastforce
    have "(mx_pacer m1 = None) = False" using from_pacer_some [of env w "m\<lparr>mx_pacer := Some p'\<rparr>"] d by simp
    moreover have "(mx_pacer (fst (mx_drain env now m1)) = None) = (mx_pacer m1 = None)"
      by (rule 1 [OF p pop refl d [symmetric] refl])
    moreover have "mx_drain env now m = (fst (mx_drain env now m1), o1 @ snd (mx_drain env now m1))"
      by (subst mx_drain.simps) (simp add: p pop d split_beta Let_def)
    ultimately show ?thesis using p by simp
  qed
qed

lemma drain_hist: "hist env calm acc os m \<Longrightarrow> hist env calm acc (os @ snd (mx_drain env now m)) (fst (mx_drain env now m))"
proof (induction env now m arbitrary: os rule: mx_drain.induct)
  case (1 env now m)
  show ?case
  proof (cases "\<exists>p r. mx_pacer m = Some p \<and> pc_pop now p = Some r")
    case False
    then have "mx_drain env now m = (m, [])" by (subst mx_drain.simps) (auto split: option.split)
    then show ?thesis using 1(2) by simp
  next
    case True
    then obtain p p' w where p: "mx_pacer m = Some p" and pop: "pc_pop now p = Some (p', w)" by auto
    have "\<not> shut p" using pop by (auto simp: pc_pop_def shut_def split: list.splits)
    then have "\<not> mx_closed m" using 1(2) p by (auto simp: hist_def idle_def)
    then have pg: "paced calm m" "paced_flow acc os m" using 1(2) p by (auto simp: hist_def)
    then have c: "calm p" using p by (simp add: paced_def)
    obtain kind data time where w: "w = PoDeliver kind data time" using pop_calm(3) [OF c pop] by blast
    define q where "q = m\<lparr>mx_pacer := Some p'\<rparr>"
    have "paced calm q" using pg(1) pop_calm(1) [OF c pop] by (simp add: paced_def q_def)
    moreover have "in_hand acc os w q"
      using pg(2) p pop_calm(2) [OF c pop] by (auto simp: paced_flow_def in_hand_def q_def clocked_by_def)
    ultimately have h: "hist env calm acc (os @ snd (mx_from_pacer env w q)) (fst (mx_from_pacer env w q))"
      using deliver_hist by (simp add: w)
    obtain m1 o1 where d: "mx_from_pacer env w q = (m1, o1)" by fastforce
    have "hist env calm acc ((os @ o1) @ snd (mx_drain env now m1)) (fst (mx_drain env now m1))"
      by (rule 1(1) [OF p pop refl d [symmetric, unfolded q_def] refl]) (use h d in simp)
    moreover have "mx_drain env now m = (fst (mx_drain env now m1), o1 @ snd (mx_drain env now m1))"
      by (subst mx_drain.simps) (simp add: p pop q_def [symmetric] d split_beta Let_def)
    ultimately show ?thesis by simp
  qed
qed

lemma fire_hist:
  assumes "hist env pc_open acc os m"
  shows "hist env pc_open acc (os @ snd (mx_firePacer env now m)) (fst (mx_firePacer env now m))"
proof (cases "\<exists>p. mx_pacer m = Some p \<and> pc_timer p \<noteq> None")
  case False
  then have "mx_firePacer env now m = (m, [])" by (auto simp: mx_firePacer_def split: option.split)
  then show ?thesis using assms by simp
next
  case True
  then obtain p where p: "mx_pacer m = Some p" "pc_timer p \<noteq> None" by blast
  have nc: "\<not> mx_closed m" using assms p by (auto simp: hist_def idle_def shut_def)
  then have pg: "paced pc_open m" "paced_flow acc os m" using assms p by (auto simp: hist_def)
  define q where "q = m\<lparr>mx_pacer := Some (p\<lparr>pc_timer := None\<rparr>)\<rparr>"
  have hq: "hist env calm acc os q"
    using pg p nc timer_calm [of p] timer_pending [of _ p]
    by (auto simp: hist_def paced_def paced_flow_def clocked_by_def q_def)
  obtain m1 o1 where d1: "mx_drain env now q = (m1, o1)" by fastforce
  have d: "mx_drain env now q = (m1, o1)" "hist env calm acc (os @ o1) m1" using drain_hist [OF hq, of now] by (simp_all add: d1)
  define m2 where "m2 = m1\<lparr>mx_pacer := map_option (pc_arm now) (mx_pacer m1)\<rparr>"
  have e: "mx_firePacer env now m = (m2, o1)" using p d(1) by (auto simp: mx_firePacer_def q_def [symmetric] m2_def)
  have "mx_pacer m1 \<noteq> None"
    using drain_some [of env now q] d(1) by (simp add: q_def)
  then obtain p1 where p1: "mx_pacer m1 = Some p1" by blast
  show ?thesis
  proof (cases "mx_closed m1")
    case True
    have "shut p1 \<Longrightarrow> shut (pc_arm now p1)" by (simp add: shut_def pc_arm_def)
    then show ?thesis using d(2) True p1 by (simp add: e hist_def idle_def m2_def)
  next
    case False
    then have "paced calm m1" "paced_flow acc (os @ o1) m1" using d(2) p1 by (auto simp: hist_def)
    then show ?thesis using False p1 arm_open [of p1 now]
      by (simp add: e hist_def paced_def paced_flow_def clocked_by_def m2_def)
  qed
qed


lemma each_idle:
  assumes "idle m" "list_all (\<lambda>w. \<not> is_delivery w) outs"
  shows "idle (fst (each_do (mx_from_pacer env) outs m)) \<and> snd (each_do (mx_from_pacer env) outs m) = []"
  using assms
proof (induction outs arbitrary: m)
  case (Cons w outs)
  have "idle (fst (mx_from_pacer env w m)) \<and> snd (mx_from_pacer env w m) = []"
    using Cons.prems by (cases w) (auto simp: mx_close_closed idle_def)
  then show ?case using Cons by (simp add: seq_do_def split_beta Let_def)
qed simp

text \<open>What the pacer reports of itself: whether audio was admitted, or why it closed.\<close>

lemma each_answers:
  assumes "\<not> mx_closed m" "list_all (\<lambda>w. \<not> is_delivery w) outs" "each_do (mx_from_pacer env) outs m = (m', o')"
  shows "if list_ex is_refusal outs then idle m' \<and> writes o' = [] \<and> (\<forall>k. pipes k o' = [])
    else o' = [] \<and> (\<exists>c. m' = m\<lparr>mx_clockedWithAudio := c\<rparr>)"
  using assms
proof (induction outs arbitrary: m m' o')
  case Nil
  then show ?case by (auto intro: exI [of _ "mx_clockedWithAudio m"])
next
  case (Cons w outs)
  show ?case
  proof (cases w)
    case (PoDeliver k d t)
    then show ?thesis using Cons.prems(2) by simp
  next
    case (PoFail reason)
    obtain m1 o1 where c: "mx_close env (Some (MrPacing reason)) m = (m1, o1)" by fastforce
    have i: "idle m1" using close_idle [OF Cons.prems(1), of env "Some (MrPacing reason)"] c by simp
    have "pipes k o1 = []" "writes o1 = []" for k
      using close_silent(1) [of k env "Some (MrPacing reason)" m] close_silent(2) [of env "Some (MrPacing reason)" m] c by simp_all
    then show ?thesis using each_idle [OF i, of outs env] Cons.prems(2, 3) PoFail by (auto simp: seq_do_def c split_beta Let_def)
  next
    case (PoAdmission a)
    obtain m2 o2 where e: "each_do (mx_from_pacer env) outs (m\<lparr>mx_clockedWithAudio := a\<rparr>) = (m2, o2)" by fastforce
    then have "m' = m2" "o' = o2" using Cons.prems(3) PoAdmission by (auto simp: seq_do_def)
    then show ?thesis using Cons.IH [OF _ _ e] Cons.prems(1, 2) PoAdmission by auto
  qed
qed

lemma no_delivery: "\<not> is_delivery w \<Longrightarrow> delivery k w = []"
  by (cases w) auto

lemma to_pacer_hist:
  assumes "hist env pc_open acc os m" "mx_pacer m = Some p"
    "\<not> mx_closed m \<Longrightarrow> outcome pc_open (\<lambda>k. pending k p) new (call p)" "answers p (call p)" "shut p \<Longrightarrow> call p = (p, [])"
  shows "hist env pc_open (\<lambda>k. acc k @ new k) (os @ snd (mx_to_pacer env call m)) (fst (mx_to_pacer env call m))"
proof (cases "mx_closed m")
  case True
  then have "shut p" using assms(1, 2) by (simp add: hist_def idle_def)
  moreover have "m\<lparr>mx_pacer := Some p\<rparr> = m" using assms(2) by simp
  ultimately have "mx_to_pacer env call m = (m, [])" using assms(2, 5) by (simp add: mx_to_pacer_def)
  moreover have "faithful (\<lambda>k. acc k @ new k) os" by (rule faithful_more [OF hist_faithful [OF assms(1)]])
  ultimately show ?thesis using assms(1) True by (simp add: hist_def)
next
  case nc: False
  have pg: "paced pc_open m" "paced_flow acc os m" using assms(1, 2) nc by (auto simp: hist_def)
  have f: "faithful (\<lambda>k. acc k @ new k) os" by (rule faithful_more [OF hist_faithful [OF assms(1)]])
  have po: "pc_open p" using pg(1) assms(2) by (simp add: paced_def)
  obtain p' outs where c: "call p = (p', outs)" by fastforce
  define q where "q = m\<lparr>mx_pacer := Some p'\<rparr>"
  obtain m' o' where e: "each_do (mx_from_pacer env) outs q = (m', o')" by fastforce
  have x: "mx_to_pacer env call m = (m', o')" using assms(2) c e by (simp add: mx_to_pacer_def q_def)
  have nd: "list_all (\<lambda>w. \<not> is_delivery w) outs" using assms(4) c by (simp add: answers_def)
  have dl: "delivered k outs = []" for k
    using nd by (induction outs) (simp_all add: no_delivery)
  have ea: "if list_ex is_refusal outs then idle m' \<and> writes o' = [] \<and> (\<forall>k. pipes k o' = [])
    else o' = [] \<and> (\<exists>c. m' = q\<lparr>mx_clockedWithAudio := c\<rparr>)"
    by (rule each_answers [OF _ nd e]) (use nc in \<open>simp add: q_def\<close>)
  show ?thesis
  proof (cases "list_ex is_refusal outs")
    case True
    then show ?thesis using ea faithful_silent [OF f, of o'] by (simp add: x hist_def idle_closed)
  next
    case False
    then have "\<not> pc_closed p'" using assms(4) c open_live [OF po] by (simp add: answers_def)
    then have oc: "pc_open p'" "pending k p' = pending k p @ new k" for k
      using assms(3) [OF nc] dl by (auto simp: outcome_def c shut_def)
    obtain b where b: "m' = q\<lparr>mx_clockedWithAudio := b\<rparr>" "o' = []" using ea False by auto
    have "paced pc_open m'" using pg(1) oc(1) by (simp add: b q_def paced_def)
    moreover obtain ds where ds: "clocked_by m ds os" "\<forall>k. media k ds @ pending k p = acc k"
      using pg(2) assms(2) by (auto simp: paced_flow_def)
    have "media k ds @ pending k p' = acc k @ new k" for k using ds(2) oc(2) by (metis append_assoc)
    then have "paced_flow (\<lambda>k. acc k @ new k) os m'" using ds(1) pg(2) by (auto simp: paced_flow_def clocked_by_def b q_def)
    ultimately show ?thesis by (auto simp: x b(2) hist_def paced_def)
  qed
qed


section \<open>Every event keeps the history\<close>

lemma shut_calls: "shut p \<Longrightarrow> pc_acceptAudio now data p = (p, [])" "shut p \<Longrightarrow> pc_acceptVideo now clock data p = (p, [])"
  "shut p \<Longrightarrow> pc_step stop p PvAdmissionTimer = (p, [])" "shut p \<Longrightarrow> pc_step stop p (PvAudioTimer now) = (p, [])"
  by (simp_all add: shut_def pc_acceptAudio_def pc_acceptVideo_def)

lemma answers_timers: "answers p (pc_step stop p PvAdmissionTimer)" "answers p (pc_step stop p (PvAudioTimer now))"
  using answers_reject answers_release by (auto simp: answers_def)

lemma audio_call:
  assumes "hist env pc_open acc os m" "mx_pacer m = Some p"
  shows "hist env pc_open (\<lambda>k. acc k @ (if k = MkAudio \<and> \<not> pc_audioDisabled p \<and> data \<noteq> [] then [data] else []))
    (os @ snd (mx_to_pacer env (pc_acceptAudio now data) m)) (fst (mx_to_pacer env (pc_acceptAudio now data) m))"
proof (rule to_pacer_hist [OF assms])
  assume "\<not> mx_closed m"
  then have o: "pc_open p" using assms by (auto simp: hist_def paced_def)
  have "taken p (PvAudio now data) = (\<lambda>k. if k = MkAudio \<and> \<not> pc_audioDisabled p \<and> data \<noteq> [] then [data] else [])"
    by (rule ext) (simp add: open_live [OF o])
  then show "outcome pc_open (\<lambda>k. pending k p) (\<lambda>k. if k = MkAudio \<and> \<not> pc_audioDisabled p \<and> data \<noteq> [] then [data] else []) (pc_acceptAudio now data p)"
    using step_outcome [OF o, of "PvAudio now data"] by simp
qed (simp_all add: answers_audio shut_calls)

lemma video_call:
  assumes "hist env pc_open acc os m" "mx_pacer m = Some p"
  shows "hist env pc_open (\<lambda>k. acc k @ (if k = MkVideo \<and> data \<noteq> [] then [data] else []))
    (os @ snd (mx_to_pacer env (pc_acceptVideo now clock data) m)) (fst (mx_to_pacer env (pc_acceptVideo now clock data) m))"
proof (rule to_pacer_hist [OF assms])
  assume "\<not> mx_closed m"
  then have o: "pc_open p" using assms by (auto simp: hist_def paced_def)
  have "taken p (PvVideo now clock data) = (\<lambda>k. if k = MkVideo \<and> data \<noteq> [] then [data] else [])"
    by (rule ext) (simp add: open_live [OF o])
  then show "outcome pc_open (\<lambda>k. pending k p) (\<lambda>k. if k = MkVideo \<and> data \<noteq> [] then [data] else []) (pc_acceptVideo now clock data p)"
    using step_outcome [OF o, of "PvVideo now clock data"] by simp
qed (simp_all add: answers_video shut_calls)

lemma timer_call:
  assumes "hist env pc_open acc os m" "mx_pacer m = Some p" "e = PvAdmissionTimer \<or> e = PvAudioTimer now"
  shows "hist env pc_open acc (os @ snd (mx_to_pacer env (\<lambda>p. pc_step (\<lambda>_. False) p e) m)) (fst (mx_to_pacer env (\<lambda>p. pc_step (\<lambda>_. False) p e) m))"
proof -
  have "hist env pc_open (\<lambda>k. acc k @ []) (os @ snd (mx_to_pacer env (\<lambda>p. pc_step (\<lambda>_. False) p e) m)) (fst (mx_to_pacer env (\<lambda>p. pc_step (\<lambda>_. False) p e) m))"
  proof (rule to_pacer_hist [OF assms(1, 2)])
    assume "\<not> mx_closed m"
    then have o: "pc_open p" using assms by (auto simp: hist_def paced_def)
    have "taken p e = (\<lambda>k. [])" by (rule ext) (use assms(3) in auto)
    then show "outcome pc_open (\<lambda>k. pending k p) (\<lambda>k. []) (pc_step (\<lambda>_. False) p e)" using step_outcome [OF o, of e] by simp
  qed (use assms(3) answers_timers shut_calls in auto)
  then show ?thesis by simp
qed

text \<open>The first video unit of a paced viewer: the retained audio goes to the pacer, which waits for a clock.\<close>

definition unclocked :: "pacer \<Rightarrow> bool" where
  "unclocked p \<longleftrightarrow> pc_epoch p = None \<and> \<not> pc_audioDisabled p"

lemma audio_unclocked: "unclocked p \<Longrightarrow> unclocked (fst (pc_acceptAudio now data p))"
proof -
  have q: "unclocked q \<Longrightarrow> unclocked (fst (pc_enqueue now k d due q))" for q k d due
    by (simp add: unclocked_def pc_enqueue_def pc_checkLimit_def pc_reject_def pc_close_def pc_arm_def Let_def)
  have a: "unclocked q \<Longrightarrow> unclocked (fst (pc_admitStartup now q))" for q
    by (simp add: unclocked_def pc_admitStartup_def)
  have r: "unclocked q \<Longrightarrow> unclocked (fst (pc_reject reason q))" for q reason
    by (simp add: unclocked_def pc_reject_def pc_close_def)
  have t: "unclocked (fst r) \<Longrightarrow> (\<And>q. unclocked q \<Longrightarrow> unclocked (fst (g q))) \<Longrightarrow> unclocked (fst (seq_do r g))" for r g
    by (simp add: seq_do_def split_beta Let_def)
  show "unclocked p \<Longrightarrow> unclocked (fst (pc_acceptAudio now data p))"
    unfolding pc_acceptAudio_def Let_def
    by (auto simp: r intro!: t q a split: option.split) (auto simp: unclocked_def)
qed

lemma each_unclocked: "list_all (\<lambda>w. \<not> is_delivery w) outs \<Longrightarrow> pred_option unclocked (mx_pacer m) \<Longrightarrow>
    pred_option unclocked (mx_pacer (fst (each_do (mx_from_pacer env) outs m)))"
proof (induction outs arbitrary: m)
  case (Cons w outs)
  have "pred_option unclocked (mx_pacer (fst (mx_from_pacer env w m)))"
  proof (cases w)
    case (PoFail reason)
    have "unclocked p \<Longrightarrow> unclocked (pc_close p)" for p by (simp add: unclocked_def pc_close_def)
    then show ?thesis using Cons.prems(2) close_pacer [of env "Some (MrPacing reason)" m] PoFail
      by (cases "mx_pacer m") auto
  qed (use Cons.prems in auto)
  then show ?case using Cons by (simp add: seq_do_def split_beta Let_def)
qed simp

lemma to_pacer_some: "(mx_pacer (fst (mx_to_pacer env call m)) = None) = (mx_pacer m = None)"
  by (cases "mx_pacer m") (simp_all add: mx_to_pacer_def split_beta Let_def each_some from_pacer_some)

lemma decide_loop:
  assumes "hist env pc_open acc os m" "mx_pacer m = Some p" "unclocked p" "[] \<notin> set xs"
  shows "hist env pc_open (\<lambda>k. acc k @ (if k = MkAudio then xs else [])) (os @ snd (each_do (mx_readmit env now) xs m))
      (fst (each_do (mx_readmit env now) xs m)) \<and> mx_pacer (fst (each_do (mx_readmit env now) xs m)) \<noteq> None"
  using assms
proof (induction xs arbitrary: acc os m p)
  case Nil
  then show ?case by simp
next
  case (Cons x xs)
  define m0 where "m0 = m\<lparr>mx_bufferedBytes := mx_bufferedBytes m - int (length x)\<rparr>"
  obtain m1 o1 where c: "mx_to_pacer env (pc_acceptAudio now x) m0 = (m1, o1)" by fastforce
  have c1: "mx_readmit env now x m = (m1, o1)" using c by (simp add: mx_readmit_def m0_def)
  have "hist env pc_open acc os m0"
    using Cons.prems(1, 2) by (auto simp: hist_def m0_def idle_def paced_def paced_flow_def clocked_by_def)
  moreover have p0: "mx_pacer m0 = Some p" using Cons.prems(2) by (simp add: m0_def)
  ultimately have h: "hist env pc_open (\<lambda>k. acc k @ (if k = MkAudio \<and> \<not> pc_audioDisabled p \<and> x \<noteq> [] then [x] else [])) (os @ o1) m1"
    using audio_call [of env acc os m0 p x now] c by simp
  have "pred_option unclocked (mx_pacer m1)"
  proof -
    obtain p' outs where pa: "pc_acceptAudio now x p = (p', outs)" by fastforce
    have "unclocked p'" using audio_unclocked [OF Cons.prems(3), of now x] pa by simp
    moreover have "list_all (\<lambda>w. \<not> is_delivery w) outs" using answers_audio [of p now x] pa by (simp add: answers_def)
    moreover have "m1 = fst (each_do (mx_from_pacer env) outs (m0\<lparr>mx_pacer := Some p'\<rparr>))"
      using c p0 pa by (simp add: mx_to_pacer_def)
    ultimately show ?thesis using each_unclocked [of outs "m0\<lparr>mx_pacer := Some p'\<rparr>" env] by simp
  qed
  moreover have "mx_pacer m1 \<noteq> None" using to_pacer_some [of env "pc_acceptAudio now x" m0] p0 c by simp
  ultimately obtain p1 where p1: "mx_pacer m1 = Some p1" "unclocked p1" by auto
  have d: "\<not> pc_audioDisabled p" "x \<noteq> []" using Cons.prems(3, 4) by (auto simp: unclocked_def)
  have IH: "hist env pc_open (\<lambda>k. (acc k @ (if k = MkAudio \<and> \<not> pc_audioDisabled p \<and> x \<noteq> [] then [x] else [])) @ (if k = MkAudio then xs else []))
      ((os @ o1) @ snd (each_do (mx_readmit env now) xs m1))
      (fst (each_do (mx_readmit env now) xs m1)) \<and>
    mx_pacer (fst (each_do (mx_readmit env now) xs m1)) \<noteq> None"
    by (rule Cons.IH [OF h p1]) (use Cons.prems(4) in simp)
  have k: "(acc k @ (if k = MkAudio \<and> \<not> pc_audioDisabled p \<and> x \<noteq> [] then [x] else [])) @ (if k = MkAudio then xs else []) =
      acc k @ (if k = MkAudio then x # xs else [])" for k using d by simp
  show ?case using IH unfolding k by (simp add: seq_do_def c1 split_beta Let_def)
qed


text \<open>A closed viewer does nothing any more.\<close>

lemma idle_step: "idle m \<Longrightarrow> mx_step env m e = (m, [])"
proof -
  assume i: "idle m"
  have c: "mx_closed m" "mx_process m = None" "\<not> mx_timer m" "\<not> mx_outputTimer m" using i by (auto simp: idle_def)
  have call: "mx_to_pacer env f m = (m, [])" if "\<And>p. shut p \<Longrightarrow> f p = (p, [])" for f
  proof (cases "mx_pacer m")
    case (Some p)
    then have "shut p" using i by (simp add: idle_def)
    moreover have "m\<lparr>mx_pacer := Some p\<rparr> = m" using Some by simp
    ultimately show ?thesis using Some that by (simp add: mx_to_pacer_def)
  qed (simp add: mx_to_pacer_def)
  have "mx_acceptAudio env now chunk m = (m, [])" for now chunk
    using call [of "pc_acceptAudio now chunk"] shut_calls(1) c by (auto simp: mx_acceptAudio_def mx_plainAudio_def split: option.split)
  moreover have "mx_firePacer env now m = (m, [])" for now
    using i by (auto simp: mx_firePacer_def idle_def shut_def split: option.split)
  moreover have "mx_to_pacer env (\<lambda>p. pc_step stop p PvAdmissionTimer) m = (m, [])"
    "mx_to_pacer env (\<lambda>p. pc_step stop p (PvAudioTimer now)) m = (m, [])" for stop now
    by (rule call, erule shut_calls)+
  ultimately show ?thesis using c by (cases e) (auto simp: mx_close_closed)
qed

lemma idle_taken: "idle m \<Longrightarrow> mx_taken e m k = []"
  by (cases e) (auto simp: idle_def)

lemma decided_hist:
  assumes "hist env pc_open acc os m" "\<not> mx_closed m" "\<not> mx_pacingDecided m"
  shows "plain env m" "plain_flow acc os m" "mx_pacer m = None" "mx_process m = None" "mx_video m = []" "acc MkVideo = []" "acc MkAudio = mx_audio m"
proof -
  show p: "mx_pacer m = None" using assms by (auto simp: hist_def paced_def split: if_splits)
  show f: "plain env m" "plain_flow acc os m" using assms p by (auto simp: hist_def)
  show v: "mx_process m = None" "mx_video m = []" using f(1) assms(3) by (auto simp: plain_def)
  have "\<forall>k. held k m = acc k" using f(2) v(1) by (simp add: plain_flow_def)
  then show "acc MkVideo = []" "acc MkAudio = mx_audio m" using v(2) by (metis held_def media_kind.case(1), metis held_def media_kind.case(2))
qed

lemma decide_hist:
  assumes "hist env pc_open acc os m" "\<not> mx_closed m" "[] \<notin> set (acc MkAudio)" "mx_decide env smooth now m = (m1, o1)"
  shows "hist env pc_open acc (os @ o1) m1" "mx_pacer m1 = None \<Longrightarrow> mx_pacingDecided m1 \<and> \<not> mx_closed m1"
proof -
  have "hist env pc_open acc (os @ o1) m1 \<and> (mx_pacer m1 = None \<longrightarrow> mx_pacingDecided m1 \<and> \<not> mx_closed m1)"
  proof (cases "mx_pacingDecided m")
    case True
    then show ?thesis using assms by (auto simp: mx_decide_def)
  next
    case False
    note d = decided_hist [OF assms(1, 2) False]
    show ?thesis
    proof (cases smooth)
      case F: False
      then have e: "m1 = m\<lparr>mx_pacingDecided := True\<rparr>" "o1 = []" using False assms(4) by (auto simp: mx_decide_def)
      have "plain_wait env m" using assms(1, 2) d(3) by (simp add: hist_def)
      then have "hist env pc_open acc os m1"
        using d assms(2) by (auto simp: e hist_def plain_def plain_wait_def plain_flow_def held_def cong: media_kind.case_cong)
      then show ?thesis using assms(2) by (simp add: e)
    next
      case True
      define p where "p = pc_new (max 1 (me_audioWait env))"
      define m0 where "m0 = m\<lparr>mx_pacingDecided := True, mx_pacer := Some p, mx_audio := []\<rparr>"
      have e: "each_do (mx_readmit env now) (mx_audio m) m0 = (m1, o1)" using True False assms(4) by (simp add: mx_decide_def m0_def p_def)
      have po: "pc_open p" using pc_inv_new [of "max 1 (me_audioWait env)"] by (simp add: pc_inv_def shut_def p_def pc_new_def)
      have pk: "writes os = []" "\<forall>k. pipes k os = []" using d(2, 4) by (auto simp: plain_flow_def)
      have "pending k p = []" for k by (simp add: p_def pending_def pc_new_def datas_def)
      then have "hist env pc_open (\<lambda>_. []) os m0"
        using d(1, 4, 5) po pk False assms(2) by (auto simp: hist_def paced_def paced_flow_def clocked_by_def m0_def plain_def)
      moreover have "unclocked p" by (simp add: unclocked_def p_def pc_new_def)
      moreover have "mx_pacer m0 = Some p" by (simp add: m0_def)
      moreover have "[] \<notin> set (mx_audio m)" using assms(3) d(7) by simp
      ultimately have l: "hist env pc_open (\<lambda>k. [] @ (if k = MkAudio then mx_audio m else [])) (os @ o1) m1" "mx_pacer m1 \<noteq> None"
        using decide_loop [of env "\<lambda>_. []" os m0 p "mx_audio m" now] e by simp_all
      have "acc k = [] @ (if k = MkAudio then mx_audio m else [])" for k using d(6, 7) by (cases k) auto
      then show ?thesis using hist_same [OF l(1)] l(2) by blast
    qed
  qed
  then show "hist env pc_open acc (os @ o1) m1" "mx_pacer m1 = None \<Longrightarrow> mx_pacingDecided m1 \<and> \<not> mx_closed m1" by auto
qed

lemma step_hist:
  assumes "hist env pc_open acc os m" "[] \<notin> set (acc MkAudio)"
  shows "hist env pc_open (\<lambda>k. acc k @ mx_taken e m k) (os @ snd (mx_step env m e)) (fst (mx_step env m e))"
proof (cases "mx_closed m")
  case True
  then have "idle m" using assms(1) by (simp add: hist_def)
  then show ?thesis using assms(1) by (simp add: idle_step idle_taken)
next
  case nc: False
  have c: "hist env pc_open acc (os @ snd (mx_close env reason m)) (fst (mx_close env reason m))" for reason
    by (rule hist_close [OF hist_faithful [OF assms(1)]]) (simp add: nc)
  have id: "hist env pc_open acc (os @ snd (m, [])) (fst (m, []))" using assms(1) by simp
  show ?thesis
  proof (cases e)
    case (MvVideo smooth now clock chunk)
    obtain m1 o1 where d: "mx_decide env smooth now m = (m1, o1)" by fastforce
    note h = decide_hist [OF assms(1) nc assms(2) d]
    have t: "mx_taken e m k = (if k = MkVideo \<and> chunk \<noteq> [] then [chunk] else [])" for k using nc by (simp add: MvVideo)
    show ?thesis
    proof (cases "mx_pacer m1")
      case None
      have "hist env pc_open (\<lambda>k. acc k @ (if k = MkVideo \<and> chunk \<noteq> [] then [chunk] else [])) ((os @ o1) @ snd (mx_plainVideo env chunk m1))
          (fst (mx_plainVideo env chunk m1))"
        by (rule plainVideo_hist [OF h(1) None]) (use h(2) [OF None] in simp_all)
      then show ?thesis unfolding t using nc by (simp add: MvVideo mx_data_def seq_do_def d None split_beta Let_def)
    next
      case (Some p)
      have "hist env pc_open (\<lambda>k. acc k @ (if k = MkVideo \<and> chunk \<noteq> [] then [chunk] else []))
          ((os @ o1) @ snd (mx_to_pacer env (pc_acceptVideo now clock chunk) m1)) (fst (mx_to_pacer env (pc_acceptVideo now clock chunk) m1))"
        by (rule video_call [OF h(1) Some])
      then show ?thesis unfolding t using nc by (simp add: MvVideo mx_data_def seq_do_def d Some split_beta Let_def)
    qed
  next
    case (MvAudio now chunk)
    show ?thesis
    proof (cases "mx_pacer m")
      case None
      show ?thesis unfolding MvAudio using plainAudio_hist [OF assms(1) None nc] by (simp add: mx_acceptAudio_def None del: mx_taken.simps)
    next
      case (Some p)
      have "mx_taken e m k = (if k = MkAudio \<and> \<not> pc_audioDisabled p \<and> chunk \<noteq> [] then [chunk] else [])" for k
        using nc Some by (auto simp: MvAudio)
      then show ?thesis using audio_call [OF assms(1) Some, of chunk now] by (simp add: MvAudio mx_acceptAudio_def Some del: mx_taken.simps)
    qed
  next
    case MvAudioWait
    show ?thesis
    proof (cases "mx_timer m \<and> mx_process m = None \<and> mx_video m \<noteq> []")
      case True
      then have p: "mx_pacer m = None" using assms(1) nc by (auto simp: hist_def paced_def split: if_splits)
      have h: "plain env m" "plain_wait env m" "plain_flow acc os m" using assms(1) nc p by (auto simp: hist_def)
      have "startable env False acc os m"
        using h True by (auto simp: startable_def plain_wait_def) (auto simp: plain_def)
      from start_hist [OF this] show ?thesis using True by (simp add: MvAudioWait)
    next
      case False
      then have "mx_step env m e = (m, [])" using nc by (auto simp: MvAudioWait mx_start_def)
      then show ?thesis using id by (simp add: MvAudioWait)
    qed
  next
    case MvProcessOutput
    have "mx_awaitOutput m = m" if "mx_process m \<noteq> None"
    proof -
      have "mx_pacer m = None" using that assms(1) nc by (auto simp: hist_def paced_def split: if_splits)
      then have "mx_outputTimer m" using that assms(1) nc by (auto simp: hist_def plain_def)
      then show ?thesis using nc by (simp add: mx_awaitOutput_def)
    qed
    then show ?thesis using id by (simp add: MvProcessOutput)
  next
    case (MvPacerTimer now)
    then show ?thesis using fire_hist [OF assms(1)] by simp
  next
    case MvPacerAdmission
    show ?thesis
    proof (cases "mx_pacer m")
      case None
      then show ?thesis using id by (simp add: MvPacerAdmission mx_to_pacer_def)
    next
      case (Some p)
      from timer_call [OF assms(1) Some, of PvAdmissionTimer 0] show ?thesis
        unfolding MvPacerAdmission mx_step.simps mx_taken.simps append_Nil2 by blast
    qed
  next
    case (MvPacerAudioTimer now)
    show ?thesis
    proof (cases "mx_pacer m")
      case None
      then show ?thesis using id by (simp add: MvPacerAudioTimer mx_to_pacer_def)
    next
      case (Some p)
      from timer_call [OF assms(1) Some, of "PvAudioTimer now" now] show ?thesis
        unfolding MvPacerAudioTimer mx_step.simps mx_taken.simps append_Nil2 by blast
    qed
  qed (use c id in auto)
qed


lemma taken_nonempty: "[] \<notin> set (mx_taken e m k)"
  by (cases e) auto

section \<open>Every event keeps the account of resources\<close>

lemma start_life_same:
  assumes "same_life m m'" "mx_starting m \<or> \<not> mx_headersSent m"
  shows "life m (snd (mx_start env a m')) (fst (mx_start env a m'))"
  by (rule life_same [OF _ _ start_life]) (use assms in \<open>simp_all add: same_life_def\<close>)

lemma write_life_same: "same_life m m' \<Longrightarrow> life m (snd (mx_write env k x m')) (fst (mx_write env k x m'))"
  by (rule life_same [OF _ _ write_life]) (simp_all add: same_life_def)

lemma same_life_life: "same_life m m' \<Longrightarrow> life m [] m'"
  by (simp add: same_life_def life_def)

lemma plainVideo_life:
  assumes "mx_starting m \<or> \<not> mx_headersSent m"
  shows "life m (snd (mx_plainVideo env x m)) (fst (mx_plainVideo env x m))"
proof -
  define m1 where "m1 = m\<lparr>mx_video := mx_video m @ [x], mx_bufferedBytes := mx_bufferedBytes m + int (length x)\<rparr>"
  have s: "same_life m m1" "same_life m m" "same_life m (m1\<lparr>mx_timer := True\<rparr>)" by (simp_all add: same_life_def m1_def)
  show ?thesis unfolding mx_plainVideo_def m1_def [symmetric] Let_def
    using write_life_same [OF s(2)] close_life_same [OF s(1)] start_life_same [OF s(1) assms] same_life_life [OF s(3)] by simp
qed

lemma plainAudio_life:
  assumes "mx_starting m \<or> \<not> mx_headersSent m"
  shows "life m (snd (mx_plainAudio env x m)) (fst (mx_plainAudio env x m))"
proof -
  define m1 where "m1 = m\<lparr>mx_audio := mx_audio m @ [x], mx_bufferedBytes := mx_bufferedBytes m + int (length x)\<rparr>"
  have s: "same_life m m1" "same_life m m" by (simp_all add: same_life_def m1_def)
  show ?thesis unfolding mx_plainAudio_def m1_def [symmetric] Let_def
    using write_life_same [OF s(2)] close_life_same [OF s(1)] start_life_same [OF s(1) assms] same_life_life [OF s(1)]
    by (simp split: option.split)
qed

lemma readmit_life: "life m (snd (mx_readmit env now x m)) (fst (mx_readmit env now x m))"
  unfolding mx_readmit_def by (rule life_same [OF _ _ to_pacer_life]) (simp_all add: same_life_def)

lemma decide_life: "life m (snd (mx_decide env smooth now m)) (fst (mx_decide env smooth now m))"
proof -
  have "life m (snd (each_do (mx_readmit env now) xs m1)) (fst (each_do (mx_readmit env now) xs m1))" if "same_life m m1" for xs m1
    by (rule life_same [OF _ _ life_each [of "mx_readmit env now", OF readmit_life]]) (use that in \<open>simp_all add: same_life_def\<close>)
  then show ?thesis by (simp add: mx_decide_def same_life_def same_life_life)
qed

lemma hist_fresh: "hist env good acc os m \<Longrightarrow> \<not> mx_closed m \<Longrightarrow> mx_pacer m = None \<Longrightarrow> mx_starting m \<or> \<not> mx_headersSent m"
  by (auto simp: hist_def plain_def)

lemma step_life:
  assumes "hist env pc_open acc os m" "[] \<notin> set (acc MkAudio)"
  shows "life m (snd (mx_step env m e)) (fst (mx_step env m e))"
proof (cases "mx_closed m")
  case True
  then have "idle m" using assms(1) by (simp add: hist_def)
  then show ?thesis by (simp add: idle_step)
next
  case nc: False
  note fresh = hist_fresh [OF assms(1) nc]
  show ?thesis
  proof (cases e)
    case (MvVideo smooth now clock chunk)
    obtain m1 o1 where d: "mx_decide env smooth now m = (m1, o1)" by fastforce
    note h = decide_hist [OF assms(1) nc assms(2) d]
    have l1: "life m o1 m1" using decide_life [of m env smooth now] d by simp
    have "life m1 (snd r) (fst r)"
      if "r = (case mx_pacer m1 of Some p \<Rightarrow> mx_to_pacer env (pc_acceptVideo now clock chunk) m1 | None \<Rightarrow> mx_plainVideo env chunk m1)" for r
    proof (cases "mx_pacer m1")
      case None
      from plainVideo_life [OF hist_fresh [OF h(1) _ None]] h(2) [OF None] show ?thesis by (simp add: that None)
    qed (simp add: that to_pacer_life)
    from life_trans [OF l1 this [OF refl]] show ?thesis
      using nc by (cases "mx_pacer m1") (simp_all add: MvVideo mx_data_def seq_do_def d split_beta Let_def)
  next
    case (MvAudio now chunk)
    show ?thesis using plainAudio_life fresh to_pacer_life
      by (cases "mx_pacer m") (simp_all add: MvAudio mx_acceptAudio_def)
  next
    case MvAudioWait
    have "mx_pacer m = None" if "mx_timer m" using that assms(1) nc by (auto simp: hist_def paced_def split: if_splits)
    then show ?thesis using start_life fresh by (simp add: MvAudioWait)
  next
    case MvProcessOutput
    then show ?thesis using same_life_life [of m "mx_awaitOutput m"] by (simp add: same_life_def mx_awaitOutput_def)
  next
    case MvPacerAdmission
    then show ?thesis using to_pacer_life [of m env "\<lambda>p. pc_step (\<lambda>_. False) p PvAdmissionTimer"] by (simp only: mx_step.simps)
  next
    case (MvPacerAudioTimer now)
    then show ?thesis using to_pacer_life [of m env "\<lambda>p. pc_step (\<lambda>_. False) p (PvAudioTimer now)"] by (simp only: mx_step.simps)
  qed (simp_all add: close_life fire_life)
qed

section \<open>Viewers\<close>

text \<open>The media admitted to the viewer by a sequence of events.\<close>

fun mx_admitted :: "mux_env \<Rightarrow> mux \<Rightarrow> mux_event list \<Rightarrow> admitted" where
  "mx_admitted env m [] k = []"
| "mx_admitted env m (e # es) k = mx_taken e m k @ mx_admitted env (fst (mx_step env m e)) es k"

definition mx_inv :: "mux_env \<Rightarrow> mux \<Rightarrow> bool" where
  "mx_inv env m \<longleftrightarrow> (\<exists>acc os. hist env pc_open acc os m \<and> [] \<notin> set (acc MkAudio))"

interpretation mux: effect_machine "mx_step env" "mx_inv env" "\<lambda>_. True" life
proof
  fix m e
  assume "mx_inv env m"
  then obtain acc os where h: "hist env pc_open acc os m" "[] \<notin> set (acc MkAudio)" by (auto simp: mx_inv_def)
  show "mx_inv env (fst (mx_step env m e))"
    unfolding mx_inv_def
    by (rule exI [of _ "\<lambda>k. acc k @ mx_taken e m k"], rule exI, rule conjI, rule step_hist [OF h])
      (simp add: h(2) taken_nonempty del: mx_taken.simps)
  show "life m (snd (mx_step env m e)) (fst (mx_step env m e))" by (rule step_life [OF h])
qed (simp_all add: life_trans)

lemma hist_new: "hist env good (\<lambda>_. []) [] mx_new"
  by (simp add: hist_def plain_def plain_wait_def plain_flow_def mx_new_def held_def MAX_INPUT_BYTES_def split: media_kind.split)

lemma mx_inv_new: "mx_inv env mx_new"
  unfolding mx_inv_def using hist_new by fastforce

lemma run_hist: "hist env pc_open acc os m \<Longrightarrow> [] \<notin> set (acc MkAudio) \<Longrightarrow>
    hist env pc_open (\<lambda>k. acc k @ mx_admitted env m es k) (os @ run_out (mx_step env) m es) (run_state (mx_step env) m es)"
proof (induction es arbitrary: acc os m)
  case (Cons e es)
  have "hist env pc_open (\<lambda>k. acc k @ mx_taken e m k) (os @ snd (mx_step env m e)) (fst (mx_step env m e))"
    by (rule step_hist [OF Cons.prems])
  from Cons.IH [OF this] Cons.prems(2) taken_nonempty [of e m MkAudio] show ?case
    by (simp add: run_state_Cons run_out_Cons del: run.simps mx_taken.simps)
qed simp

lemma viewer_hist: "hist env pc_open (mx_admitted env mx_new es) (run_out (mx_step env) mx_new es) (run_state (mx_step env) mx_new es)"
  using run_hist [OF hist_new, of env es] hist_same by fastforce

lemma idle_run: "idle m \<Longrightarrow> run (mx_step env) m es = (m, [])"
  by (induction es) (simp_all add: idle_step)

text \<open>C24: A live viewer releases what it took exactly once: over any sequence of media, timers, process and
  connection events it ends its input and reports its end exactly when it closes, starts at most one FFmpeg process
  and kills it when it closes, writes the response headers at most once, and reports at most one failure, only with
  the end. A closed viewer holds no media, timer, process or writer, its pacer is shut, and nothing it is sent
  afterwards has any effect.\<close>

theorem viewer_released_once:
  fixes env :: mux_env and es fs :: "mux_event list"
  defines "m \<equiv> run_state (mx_step env) mx_new es" and "os \<equiv> run_out (mx_step env) mx_new es"
  shows "times (\<lambda>w. w = MoClosed) os = flag (mx_closed m) \<and> times (\<lambda>w. w = MoDestroyInput) os = flag (mx_closed m) \<and>
    times is_failure os \<le> flag (mx_closed m) \<and> times is_spawn os \<le> 1 \<and>
    times is_spawn os = times (\<lambda>w. w = MoKill) os + flag (mx_process m \<noteq> None) \<and> times (\<lambda>w. w = MoHead) os \<le> 1 \<and>
    (if mx_closed m then mx_process m = None \<and> mx_video m = [] \<and> mx_audio m = [] \<and> \<not> mx_timer m \<and> \<not> mx_outputTimer m \<and>
       mx_clocked m = None \<and> pred_option shut (mx_pacer m) \<and> run (mx_step env) m fs = (m, []) else True)"
proof -
  have l: "life mx_new os m" unfolding os_def m_def by (rule mux.run_effect [OF mx_inv_new]) simp
  have i: "mx_closed m \<Longrightarrow> idle m" using viewer_hist [of env es] by (auto simp: hist_def m_def)
  have c: "times (\<lambda>w. w = MoClosed) os = flag (mx_closed m)" "times (\<lambda>w. w = MoDestroyInput) os = flag (mx_closed m)"
    "times is_failure os \<le> flag (mx_closed m)" "times is_spawn os \<le> flag (mx_starting m)"
    "times is_spawn os = times (\<lambda>w. w = MoKill) os + flag (mx_process m \<noteq> None)" "times (\<lambda>w. w = MoHead) os = flag (mx_headersSent m)"
    using l by (simp_all add: life_def mx_new_def)
  have "times is_spawn os \<le> 1" "times (\<lambda>w. w = MoHead) os \<le> 1" using c(4, 6) by (auto split: if_splits)
  moreover have "if mx_closed m then mx_process m = None \<and> mx_video m = [] \<and> mx_audio m = [] \<and> \<not> mx_timer m \<and> \<not> mx_outputTimer m \<and>
       mx_clocked m = None \<and> pred_option shut (mx_pacer m) \<and> run (mx_step env) m fs = (m, []) else True"
    using i idle_run [of m env fs] by (auto simp: idle_def)
  ultimately show ?thesis using c(1-3, 5) by blast
qed


text \<open>A viewer without a pacer hands FFmpeg the camera's media, in order and byte for byte:
  what its video pipe has received is a prefix of the video admitted and its audio pipe has received admitted audio
  in order; while the viewer is open, everything admitted is either still held (no process yet, at most 4 MiB,
  with the audio wait armed once video is held) or has been written to the process, whose silence is timed.\<close>

theorem process_viewer_media:
  fixes env :: mux_env and es :: "mux_event list"
  defines "m \<equiv> run_state (mx_step env) mx_new es" and "os \<equiv> run_out (mx_step env) mx_new es" and "adm \<equiv> mx_admitted env mx_new es"
  assumes "mx_pacer m = None"
  shows "prefix (pipes MkVideo os) (adm MkVideo) \<and> subseq (pipes MkAudio os) (adm MkAudio) \<and>
    (if mx_closed m then True
     else case mx_process m of
       None \<Rightarrow> (\<forall>k. pipes k os = [] \<and> held k m = adm k) \<and> chunk_bytes (mx_video m) + chunk_bytes (mx_audio m) \<le> 4194304 \<and>
         (mx_video m = [] \<or> mx_timer m)
     | Some p \<Rightarrow> (if mp_piped p then \<forall>k. pipes k os = adm k else True) \<and> mx_outputTimer m)"
proof -
  have h: "hist env pc_open adm os m" unfolding adm_def os_def m_def by (rule viewer_hist)
  have f: "prefix (pipes MkVideo os) (adm MkVideo)" "subseq (pipes MkAudio os) (adm MkAudio)"
    using hist_faithful [OF h] by (auto simp: faithful_def)
  show ?thesis
  proof (cases "mx_closed m")
    case True
    then show ?thesis using f by simp
  next
    case False
    then have "plain env m" "plain_wait env m" "plain_flow adm os m" using h assms(4) by (auto simp: hist_def)
    then show ?thesis using f False
      by (auto simp: plain_def plain_wait_def plain_flow_def MAX_INPUT_BYTES_def split: option.split)
  qed
qed

definition calm_env :: mux_env where
  "calm_env = \<lparr> me_reads = (\<lambda>_. \<lparr> rd_destroyed = False, rd_ended = False, rd_writable = True, rd_length = 0 \<rparr>),
     me_spawned = True, me_audioWait = 2000 \<rparr>"

definition process_events :: "mux_event list" where
  "process_events = [MvVideo False 0 None [1], MvAudio 5 [2, 3], MvVideo False 40 None [4]]"

lemmas mux_evaluation = mx_new_def mx_data_def mx_decide_def seq_do_def mx_plainVideo_def mx_plainAudio_def mx_acceptAudio_def mx_start_def
  mx_look_def mx_awaitOutput_def mx_feed_video_def mx_feed_audio_def mx_write_def chunk_bytes_def MAX_INPUT_BYTES_def calm_env_def

lemma process_events_run: "mx_pacer (run_state (mx_step calm_env) mx_new process_events) = None"
  by (simp add: process_events_def mux_evaluation)

lemma process_viewer_media_witness:
  "let m = run_state (mx_step calm_env) mx_new process_events; os = run_out (mx_step calm_env) mx_new process_events;
       adm = mx_admitted calm_env mx_new process_events in
    prefix (pipes MkVideo os) (adm MkVideo) \<and> subseq (pipes MkAudio os) (adm MkAudio) \<and>
    (if mx_closed m then True
     else case mx_process m of
       None \<Rightarrow> (\<forall>k. pipes k os = [] \<and> held k m = adm k) \<and> chunk_bytes (mx_video m) + chunk_bytes (mx_audio m) \<le> 4194304 \<and>
         (mx_video m = [] \<or> mx_timer m)
     | Some p \<Rightarrow> (if mp_piped p then \<forall>k. pipes k os = adm k else True) \<and> mx_outputTimer m)"
  unfolding Let_def by (rule process_viewer_media [OF process_events_run])

text \<open>C23: The opt-in paced viewer is the frame pacer followed by the clocked transport
  writer: the response receives a prefix of the packets one writer makes of a sequence of timed units, each of which the writer
  takes (none is refused, so each one adds its packets), and those units
  are, for video and for audio, a prefix of what the camera's streams admitted, in order and byte for byte. While the
  viewer is open the response has received all those packets, and everything admitted and not yet delivered is still
  queued in the pacer. (The theorem does not say which times the units carry: they are the pacer's.)\<close>

theorem paced_viewer_media:
  fixes env :: mux_env and es :: "mux_event list"
  defines "m \<equiv> run_state (mx_step env) mx_new es" and "os \<equiv> run_out (mx_step env) mx_new es" and "adm \<equiv> mx_admitted env mx_new es"
  assumes "mx_pacer m \<noteq> None"
  shows "\<exists>a ds. prefix (writes os) (run_out tw_step (tw_new a) ds) \<and> tw_takes (tw_new a) ds \<and> (\<forall>k. prefix (media k ds) (adm k)) \<and>
    (mx_closed m \<or> writes os = run_out tw_step (tw_new a) ds \<and> (\<forall>k. media k ds @ pending k (the (mx_pacer m)) = adm k))"
proof -
  have h: "hist env pc_open adm os m" unfolding adm_def os_def m_def by (rule viewer_hist)
  show ?thesis
  proof (cases "mx_closed m")
    case True
    then show ?thesis using hist_faithful [OF h] unfolding faithful_def by blast
  next
    case False
    then have "paced_flow adm os m" using h assms(4) by (auto simp: hist_def)
    then obtain ds where d: "clocked_by m ds os" "\<forall>k. media k ds @ pending k (the (mx_pacer m)) = adm k" by (auto simp: paced_flow_def)
    obtain a where a: "run tw_step (tw_new a) ds = (mx_writer m, writes os)" "tw_takes (tw_new a) ds" using clocked_writer [OF d(1)] by blast
    have "\<forall>k. prefix (media k ds) (adm k)" using d(2) by (metis prefixI)
    then show ?thesis using a d(2) by (intro exI [of _ a] exI [of _ ds]) simp
  qed
qed

definition paced_events :: "mux_event list" where
  "paced_events = [MvVideo True 0 (Some \<lparr> fc_timestamp = 0, fc_epoch = 1, fc_formatChanged = False \<rparr>) [1], MvPacerAudioTimer 2000]"

lemma paced_events_run: "mx_pacer (run_state (mx_step calm_env) mx_new paced_events) \<noteq> None"
  by (simp only: paced_events_def run_state_Cons run.simps fst_conv mx_step.simps to_pacer_some)
    (simp add: mx_new_def mx_data_def mx_decide_def seq_do_def split_beta Let_def to_pacer_some)

lemma paced_viewer_media_witness:
  "let m = run_state (mx_step calm_env) mx_new paced_events; os = run_out (mx_step calm_env) mx_new paced_events;
       adm = mx_admitted calm_env mx_new paced_events in
    \<exists>a ds. prefix (writes os) (run_out tw_step (tw_new a) ds) \<and> tw_takes (tw_new a) ds \<and> (\<forall>k. prefix (media k ds) (adm k)) \<and>
    (mx_closed m \<or> writes os = run_out tw_step (tw_new a) ds \<and> (\<forall>k. media k ds @ pending k (the (mx_pacer m)) = adm k))"
  unfolding Let_def by (rule paced_viewer_media [OF paced_events_run])

end
