(* ===== verification/Stream_Session.thy ===== *)
theory Stream_Session
  imports Startup_Cache Js_Map
begin

text \<open>
  \<open>LiveStreamManager\<close> of \<open>stream/live-stream-manager.ts\<close> for one camera: viewers and leases share one provider
  source, whose start, retirement, idle stop and quiet deadline the session orders. Viewers, FFmpeg processes,
  starts and recordings are numbers; a promise is a pending start, a pending stop or a list of those waiting for it, and
  what runs after an \<open>await\<close> is an event of its own. What Node answers during one event (the queued length of a
  response after a write, whether a process takes input, the clock, read once) is an argument. Observers of the
  emitted state do not call back. Timing statistics and the private trial mode are left out.
\<close>

section \<open>State\<close>

datatype viewer_profile = Compatible | Native

datatype close_reason = ConsumerClosed | ConsumerError | StartFailed | ProviderStopped | SourceEnded | SourceError
  | GatewayClosed | CodecChanged | ConversionFailed | Backpressure

datatype stream_error = ErrClosed | ErrStillStopping | ErrNotStopped | ErrStartStopped | ErrStartEnded | ErrStartFailed
  | ErrQuiet | ErrSource | ErrStop | ErrViewer | ErrVideoStopped | ErrVideoEnded | ErrAudio | ErrLimit | ErrNoVideo | ErrArguments

datatype phase = Idle | Starting | Streaming | Stopping | Failed

record viewer_delivery =
  dl_closeReason :: "close_reason option"
  dl_sourceAttached :: bool
  dl_profile :: viewer_profile
  dl_startedCodec :: "video_codec option"
  dl_deliveryStarted :: bool
  dl_bytes :: nat
  dl_chunks :: nat

record recording =
  rg_chunks :: "bytes list"
  rg_audioChunks :: "bytes list"
  rg_audioSize :: nat
  rg_duration :: nat
  rg_maximum :: nat
  rg_size :: nat
  rg_started :: bool
  rg_firstAt :: "real option"
  rg_lastAt :: "real option"

datatype waiter = Waiter nat viewer_profile bool

record session =
  ls_clients :: "nat list"
  ls_pending :: "nat list"
  ls_deliveries :: "(nat, viewer_delivery) jsmap"
  ls_headed :: "nat list"
  ls_recordings :: "(nat, recording) jsmap"
  ls_recordingCount :: nat
  ls_audioConsumers :: "nat list"
  ls_cache :: vcache
  ls_phase :: phase
  ls_start :: "nat option"
  ls_starts :: nat
  ls_awaiting :: "nat list"
  ls_failing :: "nat list"
  ls_stop :: bool
  ls_waiters :: "waiter list"
  ls_resumed :: "(waiter \<times> bool) list"
  ls_source :: bool
  ls_audio :: bool
  ls_snapshot :: "nat option"
  ls_viewer :: "nat option"
  ls_processes :: nat
  ls_viewerCache :: vcache
  ls_restarts :: nat
  ls_viewerStartedAt :: real
  ls_lastOutput :: "real option"
  ls_lastPicture :: nat
  ls_stopTimer :: bool
  ls_quiet :: bool
  ls_owned :: bool
  ls_leases :: nat
  ls_closed :: bool

record stream_io =
  io_queued :: "nat \<Rightarrow> nat"
  io_writable :: "nat \<Rightarrow> bool"
  io_now :: real

datatype stream_out =
    SoStart nat
  | SoStartResolved nat
  | SoStartRejected nat stream_error
  | SoStop
  | SoState phase nat "stream_error option"
  | SoRefused stream_error
  | SoHead nat video_codec
  | SoWrite nat bytes
  | SoEnd nat
  | SoDestroy nat
  | SoClientStopped nat close_reason nat nat
  | SoSnapshotProcess nat video_codec
  | SoViewerProcess nat
  | SoInput nat bytes
  | SoTerminate nat
  | SoAudio nat bytes
  | SoRecorded nat bytes bytes "real option"
  | SoRecordFailed nat stream_error

definition MAX_RECORDING_BYTES :: int where "MAX_RECORDING_BYTES = 256 * 1024 * 1024"
definition SILENT_TRANSCODER_RESTART_DELAY_MILLISECONDS :: real where "SILENT_TRANSCODER_RESTART_DELAY_MILLISECONDS = 5000"
definition MAX_SILENT_TRANSCODER_RESTARTS :: nat where "MAX_SILENT_TRANSCODER_RESTARTS = 2"
definition STALLED_TRANSCODER_RESTART_DELAY_MILLISECONDS :: real where "STALLED_TRANSCODER_RESTART_DELAY_MILLISECONDS = 10000"

definition ls_new :: session where
  "ls_new = \<lparr> ls_clients = [], ls_pending = [], ls_deliveries = [], ls_headed = [], ls_recordings = [], ls_recordingCount = 0,
     ls_audioConsumers = [], ls_cache = vc_new, ls_phase = Idle, ls_start = None, ls_starts = 0, ls_awaiting = [], ls_failing = [],
     ls_stop = False, ls_waiters = [], ls_resumed = [], ls_source = False, ls_audio = False, ls_snapshot = None, ls_viewer = None,
     ls_processes = 0, ls_viewerCache = vc_new, ls_restarts = 0, ls_viewerStartedAt = 0, ls_lastOutput = None, ls_lastPicture = 0,
     ls_stopTimer = False, ls_quiet = False, ls_owned = False, ls_leases = 0, ls_closed = False \<rparr>"

text \<open>\<open>Set.add\<close> and \<open>Set.delete\<close> of insertion-ordered sets.\<close>

definition set_add :: "'a \<Rightarrow> 'a list \<Rightarrow> 'a list" where
  "set_add x xs = (if x \<in> set xs then xs else xs @ [x])"

definition set_delete :: "'a \<Rightarrow> 'a list \<Rightarrow> 'a list" where
  "set_delete x xs = filter (\<lambda>y. y \<noteq> x) xs"

section \<open>Viewer bookkeeping\<close>

definition ls_updateState :: "stream_error option \<Rightarrow> session \<Rightarrow> session \<times> stream_out list" where
  "ls_updateState err s = (s, [SoState (ls_phase s) (length (ls_clients s)) err])"

definition ls_delivery :: "nat \<Rightarrow> (viewer_delivery \<Rightarrow> viewer_delivery) \<Rightarrow> session \<Rightarrow> session" where
  "ls_delivery c f s =
     (case map_of (ls_deliveries s) c of
        None \<Rightarrow> s
      | Some d \<Rightarrow> s\<lparr>ls_deliveries := AList.update c (f d) (ls_deliveries s)\<rparr>)"

definition ls_markViewerClose :: "close_reason \<Rightarrow> nat \<Rightarrow> session \<Rightarrow> session" where
  "ls_markViewerClose reason c =
     ls_delivery c (\<lambda>d. d\<lparr>dl_closeReason := (case dl_closeReason d of None \<Rightarrow> Some reason | Some r \<Rightarrow> Some r)\<rparr>)"

definition ls_recordWrite :: "nat \<Rightarrow> bytes \<Rightarrow> session \<Rightarrow> session" where
  "ls_recordWrite c b = ls_delivery c (\<lambda>d. d\<lparr>dl_bytes := dl_bytes d + length b, dl_chunks := dl_chunks d + 1\<rparr>)"

definition ls_profiled :: "viewer_profile \<Rightarrow> nat \<Rightarrow> session \<Rightarrow> bool" where
  "ls_profiled profile c s \<longleftrightarrow> map_option dl_profile (map_of (ls_deliveries s) c) = Some profile"

definition ls_profileClients :: "viewer_profile \<Rightarrow> session \<Rightarrow> nat list" where
  "ls_profileClients profile s = filter (\<lambda>c. ls_profiled profile c s) (ls_clients s)"

definition ls_emitClientSummary :: "nat \<Rightarrow> session \<Rightarrow> session \<times> stream_out list" where
  "ls_emitClientSummary c s =
     (case map_of (ls_deliveries s) c of
        None \<Rightarrow> (s, [])
      | Some d \<Rightarrow> (s\<lparr>ls_deliveries := AList.delete c (ls_deliveries s)\<rparr>,
          [SoClientStopped c (case dl_closeReason d of None \<Rightarrow> ConsumerClosed | Some r \<Rightarrow> r) (dl_bytes d) (dl_chunks d)]))"

definition ls_startClient :: "nat \<Rightarrow> video_codec \<Rightarrow> bytes \<Rightarrow> session \<Rightarrow> session \<times> stream_out list" where
  "ls_startClient c codec b s =
     (ls_recordWrite c b (ls_delivery c (\<lambda>d. d\<lparr>dl_deliveryStarted := True, dl_startedCodec := Some codec\<rparr>)
        (s\<lparr>ls_headed := set_add c (ls_headed s)\<rparr>)),
      (if c \<in> set (ls_headed s) then [] else [SoHead c codec]) @ [SoWrite c b])"

definition ls_skips :: "viewer_profile option \<Rightarrow> nat \<Rightarrow> session \<Rightarrow> bool" where
  "ls_skips profile c s \<longleftrightarrow> (case profile of None \<Rightarrow> False | Some p \<Rightarrow> \<not> ls_profiled p c s)"

definition ls_startPendingClient :: "video_codec \<Rightarrow> bytes \<Rightarrow> viewer_profile option \<Rightarrow> nat \<Rightarrow> session \<Rightarrow> session \<times> stream_out list" where
  "ls_startPendingClient codec b profile c s =
     (if ls_skips profile c s then (s, [])
      else
        (let (s, o1) = (if c \<in> set (ls_clients s) then ls_startClient c codec b s else (s, [])) in
         (s\<lparr>ls_pending := set_delete c (ls_pending s)\<rparr>, o1)))"

definition ls_startPendingClients :: "video_codec \<Rightarrow> bytes \<Rightarrow> viewer_profile option \<Rightarrow> session \<Rightarrow> session \<times> stream_out list" where
  "ls_startPendingClients codec b profile s = each_do (ls_startPendingClient codec b profile) (ls_pending s) s"

definition ls_writeClient :: "bytes \<Rightarrow> viewer_profile option \<Rightarrow> stream_io \<Rightarrow> nat \<Rightarrow> session \<Rightarrow> session \<times> stream_out list" where
  "ls_writeClient chunk profile io c s =
     (if ls_skips profile c s then (s, [])
      else if c \<in> set (ls_pending s) then (s, [])
      else
        (let s = ls_recordWrite c chunk s in
         if int (io_queued io c) > 4 * 1024 * 1024
         then (ls_markViewerClose Backpressure c s, [SoWrite c chunk, SoDestroy c])
         else (s, [SoWrite c chunk])))"

definition ls_writeViewerChunk :: "bytes \<Rightarrow> viewer_profile option \<Rightarrow> stream_io \<Rightarrow> session \<Rightarrow> session \<times> stream_out list" where
  "ls_writeViewerChunk chunk profile io s = each_do (ls_writeClient chunk profile io) (ls_clients s) s"

section \<open>FFmpeg processes\<close>

definition terminate_process :: "nat option \<Rightarrow> stream_out list" where
  "terminate_process p = (case p of None \<Rightarrow> [] | Some i \<Rightarrow> [SoTerminate i])"

definition ls_stopViewerTranscoder :: "session \<Rightarrow> session \<times> stream_out list" where
  "ls_stopViewerTranscoder s =
     (s\<lparr>ls_viewer := None, ls_viewerCache := vc_new, ls_restarts := 0, ls_viewerStartedAt := 0, ls_lastOutput := None,
        ls_lastPicture := 0\<rparr>, terminate_process (ls_viewer s))"

definition process_input :: "stream_io \<Rightarrow> nat option \<Rightarrow> bytes \<Rightarrow> stream_out list" where
  "process_input io p b = (case p of None \<Rightarrow> [] | Some i \<Rightarrow> if io_writable io i then [SoInput i b] else [])"

definition ls_startViewerTranscoder :: "bytes \<Rightarrow> bool \<Rightarrow> stream_io \<Rightarrow> session \<Rightarrow> session \<times> stream_out list" where
  "ls_startViewerTranscoder startup preserve io s =
     (let p = ls_processes s in
      (s\<lparr>ls_processes := p + 1, ls_viewer := Some p, ls_viewerCache := vc_new, ls_restarts := (if preserve then ls_restarts s else 0),
         ls_viewerStartedAt := io_now io, ls_lastOutput := None, ls_lastPicture := vc_randomAccessPictures (ls_cache s)\<rparr>,
       SoViewerProcess p # process_input io (Some p) startup))"

definition ls_shouldRestart :: "stream_io \<Rightarrow> session \<Rightarrow> bool" where
  "ls_shouldRestart io s \<longleftrightarrow>
     (let quietSince = (case ls_lastOutput s of None \<Rightarrow> ls_viewerStartedAt s | Some t \<Rightarrow> t);
          delay = (if ls_lastOutput s = None then SILENT_TRANSCODER_RESTART_DELAY_MILLISECONDS
                   else STALLED_TRANSCODER_RESTART_DELAY_MILLISECONDS) in
      ls_restarts s < MAX_SILENT_TRANSCODER_RESTARTS \<and> vc_randomAccessPictures (ls_cache s) > ls_lastPicture s \<and>
      io_now io - quietSince \<ge> delay)"

definition ls_restartViewerTranscoder :: "bytes \<Rightarrow> stream_io \<Rightarrow> session \<Rightarrow> session \<times> stream_out list" where
  "ls_restartViewerTranscoder startup io s =
     (case ls_viewer s of
        None \<Rightarrow> (s, [])
      | Some p \<Rightarrow>
          (let (s, o1) = ls_startViewerTranscoder startup True io (s\<lparr>ls_viewer := None, ls_restarts := ls_restarts s + 1\<rparr>) in
           (s, SoTerminate p # o1)))"

definition ls_cleanupSource :: "session \<Rightarrow> session \<times> stream_out list" where
  "ls_cleanupSource s =
     seq_do (s\<lparr>ls_quiet := False, ls_source := False, ls_audio := False, ls_snapshot := None\<rparr>, terminate_process (ls_snapshot s))
       ls_stopViewerTranscoder"

section \<open>Recordings\<close>

definition ls_frameRate :: "recording \<Rightarrow> real option" where
  "ls_frameRate r =
     (let elapsed = (case (rg_firstAt r, rg_lastAt r) of (Some a, Some b) \<Rightarrow> b - a | _ \<Rightarrow> 0);
          rate = (real (length (rg_chunks r)) - 1) * 1000 / elapsed in
      if elapsed \<ge> 500 \<and> length (rg_chunks r) \<ge> 10 \<and> 1 \<le> rate \<and> rate \<le> 60 then Some rate else None)"

definition ls_settleRecording :: "stream_error option \<Rightarrow> nat \<Rightarrow> session \<Rightarrow> session \<times> stream_out list" where
  "ls_settleRecording err i s =
     (case map_of (ls_recordings s) i of
        None \<Rightarrow> (s, [])
      | Some r \<Rightarrow> (s\<lparr>ls_recordings := AList.delete i (ls_recordings s)\<rparr>,
          [case err of Some e \<Rightarrow> SoRecordFailed i e
           | None \<Rightarrow> SoRecorded i (concat (rg_chunks r)) (concat (rg_audioChunks r)) (ls_frameRate r)]))"

definition ls_cancelRecording :: "nat \<Rightarrow> session \<Rightarrow> session" where
  "ls_cancelRecording i s = s\<lparr>ls_recordings := AList.delete i (ls_recordings s)\<rparr>"

definition ls_failRecordings :: "stream_error \<Rightarrow> session \<Rightarrow> session \<times> stream_out list" where
  "ls_failRecordings err s = each_do (ls_settleRecording (Some err)) (map fst (ls_recordings s)) s"

definition ls_collectRecording :: "nat \<Rightarrow> nat \<Rightarrow> session \<Rightarrow> session" where
  "ls_collectRecording duration maximum s =
     s\<lparr>ls_recordings := AList.update (ls_recordingCount s)
         \<lparr> rg_chunks = [], rg_audioChunks = [], rg_audioSize = 0, rg_duration = duration, rg_maximum = maximum, rg_size = 0,
           rg_started = False, rg_firstAt = None, rg_lastAt = None \<rparr> (ls_recordings s),
       ls_recordingCount := ls_recordingCount s + 1\<rparr>"

definition ls_appendRecordingChunk :: "bytes \<Rightarrow> stream_io \<Rightarrow> nat \<Rightarrow> session \<Rightarrow> session \<times> stream_out list" where
  "ls_appendRecordingChunk chunk io i s =
     (case map_of (ls_recordings s) i of
        None \<Rightarrow> (s, [])
      | Some r \<Rightarrow>
          if rg_size r + rg_audioSize r + length chunk > rg_maximum r then ls_settleRecording (Some ErrLimit) i s
          else (s\<lparr>ls_recordings := AList.update i
                  (r\<lparr>rg_started := True, rg_firstAt := (if rg_started r then rg_firstAt r else Some (io_now io)),
                     rg_lastAt := Some (io_now io), rg_chunks := rg_chunks r @ [chunk], rg_size := rg_size r + length chunk\<rparr>)
                  (ls_recordings s)\<rparr>, []))"

definition ls_appendRecordingAudio :: "bytes \<Rightarrow> nat \<Rightarrow> session \<Rightarrow> session \<times> stream_out list" where
  "ls_appendRecordingAudio chunk i s =
     (case map_of (ls_recordings s) i of
        None \<Rightarrow> (s, [])
      | Some r \<Rightarrow>
          if \<not> rg_started r then (s, [])
          else if rg_audioSize r + rg_size r + length chunk > rg_maximum r then ls_settleRecording (Some ErrLimit) i s
          else (s\<lparr>ls_recordings := AList.update i
                  (r\<lparr>rg_audioChunks := rg_audioChunks r @ [chunk], rg_audioSize := rg_audioSize r + length chunk\<rparr>)
                  (ls_recordings s)\<rparr>, []))"

section \<open>Starting and retiring the source\<close>

definition ls_cancelStop :: "session \<Rightarrow> session" where
  "ls_cancelStop s = s\<lparr>ls_stopTimer := False\<rparr>"

definition ls_scheduleStopIfUnused :: "session \<Rightarrow> session" where
  "ls_scheduleStopIfUnused s =
     (if ls_closed s then s
      else if ls_clients s = [] \<and> ls_leases s = 0 \<and> ls_owned s \<and> \<not> ls_stopTimer s then s\<lparr>ls_stopTimer := True\<rparr> else s)"

text \<open>Rejecting a start moves the viewers that await it to those about to be destroyed.\<close>

definition ls_retireStart :: "stream_error \<Rightarrow> session \<Rightarrow> session \<times> stream_out list" where
  "ls_retireStart err s =
     (case ls_start s of
        None \<Rightarrow> (s, [])
      | Some n \<Rightarrow> (s\<lparr>ls_start := None, ls_failing := ls_failing s @ ls_awaiting s, ls_awaiting := []\<rparr>, [SoStartRejected n err]))"

definition ls_endClient :: "close_reason \<Rightarrow> nat \<Rightarrow> session \<Rightarrow> session \<times> stream_out list" where
  "ls_endClient reason c s = (ls_markViewerClose reason c s, [SoEnd c])"

definition ls_endClients :: "close_reason \<Rightarrow> session \<Rightarrow> session \<times> stream_out list" where
  "ls_endClients reason s =
     seq_do (each_do (ls_endClient reason) (ls_clients s) s) (\<lambda>s. (s\<lparr>ls_clients := [], ls_pending := []\<rparr>, []))"

definition ls_sourceEnded :: "stream_error option \<Rightarrow> session \<Rightarrow> session \<times> stream_out list" where
  "ls_sourceEnded err s =
     (if ls_phase s = Idle then (s, [])
      else
        seq_do (seq_do (seq_do (seq_do
          (ls_retireStart (case err of None \<Rightarrow> ErrStartEnded | Some e \<Rightarrow> e) (ls_cancelStop s))
          (ls_failRecordings (case err of None \<Rightarrow> ErrVideoEnded | Some e \<Rightarrow> e)))
          ls_cleanupSource)
          (\<lambda>s. ls_endClients (if err = None then SourceEnded else SourceError)
             (s\<lparr>ls_phase := (if err = None then Idle else Failed), ls_owned := False\<rparr>)))
          (ls_updateState err))"

definition ls_stopOwnedSource :: "stream_error option \<Rightarrow> session \<Rightarrow> session \<times> stream_out list" where
  "ls_stopOwnedSource err s =
     (if ls_stop s then (s, [])
      else
        seq_do (seq_do (seq_do
          (case err of
             None \<Rightarrow> (s\<lparr>ls_stop := True\<rparr>, [])
           | Some e \<Rightarrow> seq_do (ls_sourceEnded (Some e) (s\<lparr>ls_stop := True\<rparr>)) (\<lambda>s. (s\<lparr>ls_owned := True\<rparr>, [])))
          (ls_retireStart ErrStartStopped))
          (\<lambda>s. ls_updateState None (s\<lparr>ls_phase := Stopping\<rparr>)))
          (\<lambda>s. (s, [SoStop])))"

text \<open>The rest of \<open>#stopOwnedSource\<close>, when the provider's stop settles, and the viewers it lets go on.\<close>

definition ls_settleStop :: "bool \<Rightarrow> session \<Rightarrow> session \<times> stream_out list" where
  "ls_settleStop stopped s =
     (if \<not> ls_stop s then (s, [])
      else
        seq_do
          (if \<not> stopped then ls_updateState (Some ErrStop) (s\<lparr>ls_phase := Failed\<rparr>)
           else if ls_phase s = Stopping
           then seq_do (ls_cleanupSource s) (\<lambda>s. ls_updateState None (s\<lparr>ls_phase := Idle, ls_owned := False\<rparr>))
           else (s, []))
          (\<lambda>s. (s\<lparr>ls_stop := False, ls_resumed := ls_resumed s @ map (\<lambda>w. (w, stopped)) (ls_waiters s), ls_waiters := []\<rparr>, [])))"

definition ls_stopNowIfUnused :: "session \<Rightarrow> session \<times> stream_out list" where
  "ls_stopNowIfUnused s =
     (if ls_clients s \<noteq> [] \<or> ls_leases s > 0 \<or> \<not> ls_owned s then (s, []) else ls_stopOwnedSource None (ls_cancelStop s))"

datatype start_answer = StartPending | StartReady | StartRefused stream_error

definition ls_ensureStarted :: "session \<Rightarrow> (session \<times> stream_out list) \<times> start_answer" where
  "ls_ensureStarted s =
     (if ls_closed s then ((s, []), StartRefused ErrClosed)
      else if ls_stop s then ((s, []), StartRefused ErrStillStopping)
      else if ls_phase s = Failed \<and> ls_owned s then ((s, []), StartRefused ErrNotStopped)
      else if ls_start s \<noteq> None then ((s, []), StartPending)
      else if ls_phase s \<noteq> Idle \<and> ls_phase s \<noteq> Failed then ((s, []), StartReady)
      else
        (seq_do (ls_updateState None
           (s\<lparr>ls_start := Some (ls_starts s), ls_starts := ls_starts s + 1, ls_phase := Starting, ls_owned := True\<rparr>))
           (\<lambda>t. (t, [SoStart (ls_starts s)])), StartPending))"

definition ls_startSettled :: "nat \<Rightarrow> bool \<Rightarrow> session \<Rightarrow> session \<times> stream_out list" where
  "ls_startSettled n succeeded s =
     (if ls_start s \<noteq> Some n then (s, [])
      else if succeeded then (s\<lparr>ls_start := None, ls_awaiting := []\<rparr>, [SoStartResolved n])
      else
        seq_do (seq_do (seq_do
          (ls_failRecordings ErrStartFailed (s\<lparr>ls_start := None\<rparr>))
          ls_cleanupSource)
          (\<lambda>s. ls_updateState (Some ErrStartFailed) (s\<lparr>ls_phase := Failed, ls_owned := False\<rparr>)))
          (\<lambda>s. (s\<lparr>ls_failing := ls_failing s @ ls_awaiting s, ls_awaiting := []\<rparr>, [SoStartRejected n ErrStartFailed])))"

section \<open>Viewers\<close>

definition ls_removeClient :: "nat \<Rightarrow> session \<Rightarrow> session \<times> stream_out list" where
  "ls_removeClient c s =
     seq_do (seq_do (seq_do
       (ls_emitClientSummary c (s\<lparr>ls_clients := set_delete c (ls_clients s), ls_pending := set_delete c (ls_pending s)\<rparr>))
       (\<lambda>s. if ls_profileClients Compatible s = [] then ls_stopViewerTranscoder s else (s, [])))
       (ls_updateState None))
       (\<lambda>s. (ls_scheduleStopIfUnused s, []))"

definition ls_failCompatibleClient :: "nat \<Rightarrow> session \<Rightarrow> session \<times> stream_out list" where
  "ls_failCompatibleClient c s = seq_do (ls_markViewerClose ConversionFailed c s, [SoDestroy c]) (ls_removeClient c)"

definition ls_failCompatibleClients :: "session \<Rightarrow> session \<times> stream_out list" where
  "ls_failCompatibleClients s =
     seq_do (each_do ls_failCompatibleClient (ls_profileClients Compatible s) s)
       (\<lambda>s. ls_updateState (if ls_clients s \<noteq> [] then None else Some ErrViewer) s)"

text \<open>What a joining viewer is started with: the codec it sees and the retained bytes.\<close>

definition ls_converted :: "viewer_profile \<Rightarrow> session \<Rightarrow> bool" where
  "ls_converted profile s \<longleftrightarrow> vc_codec (ls_cache s) = Some H265 \<and> profile = Compatible"

definition viewer_bootstrap :: "vcache \<Rightarrow> bytes option" where
  "viewer_bootstrap sets =
     (case vc_bootstrap sets of
        None \<Rightarrow> None
      | Some b \<Rightarrow> if vc_startupIncludesLatest sets then Some (case vc_startup sets of Some x \<Rightarrow> x | None \<Rightarrow> b) else Some b)"

definition ls_joinBytes :: "viewer_profile \<Rightarrow> session \<Rightarrow> (video_codec \<times> bytes) option" where
  "ls_joinBytes profile s =
     (let sets = (if ls_converted profile s then ls_viewerCache s else ls_cache s);
          codec = (if ls_converted profile s then Some H264 else vc_codec (ls_cache s)) in
      if ls_source s \<and> ls_phase s = Streaming
      then (case (codec, viewer_bootstrap sets) of (Some k, Some b) \<Rightarrow> Some (k, b) | _ \<Rightarrow> None) else None)"

definition ls_join :: "nat \<Rightarrow> viewer_profile \<Rightarrow> stream_io \<Rightarrow> session \<Rightarrow> session \<times> stream_out list" where
  "ls_join c profile io s =
     (case ls_joinBytes profile s of
        Some (k, b) \<Rightarrow> ls_startClient c k b s
      | None \<Rightarrow>
          (let s' = s\<lparr>ls_pending := set_add c (ls_pending s)\<rparr> in
           case vc_startup (ls_cache s) of
             None \<Rightarrow> (s', [])
           | Some startup \<Rightarrow>
               if ls_converted profile s \<and> ls_viewer s = None then ls_startViewerTranscoder startup False io s' else (s', [])))"

definition ls_enrol :: "nat \<Rightarrow> viewer_profile \<Rightarrow> session \<Rightarrow> session" where
  "ls_enrol c profile s =
     (let s = ls_cancelStop s in
      s\<lparr>ls_clients := set_add c (ls_clients s),
        ls_deliveries := AList.update c \<lparr> dl_closeReason = None, dl_sourceAttached = ls_source s, dl_profile = profile,
          dl_startedCodec = None, dl_deliveryStarted = False, dl_bytes = 0, dl_chunks = 0 \<rparr> (ls_deliveries s)\<rparr>)"

definition ls_awaitStart :: "nat \<Rightarrow> session \<Rightarrow> session \<times> stream_out list" where
  "ls_awaitStart c s =
     (case ls_ensureStarted s of
        (r, StartPending) \<Rightarrow> seq_do r (\<lambda>s. (s\<lparr>ls_awaiting := ls_awaiting s @ [c]\<rparr>, []))
      | (r, StartReady) \<Rightarrow> r
      | (r, StartRefused e) \<Rightarrow> seq_do r (\<lambda>s. (s\<lparr>ls_failing := ls_failing s @ [c]\<rparr>, [])))"

definition ls_register :: "nat \<Rightarrow> viewer_profile \<Rightarrow> stream_io \<Rightarrow> session \<Rightarrow> session \<times> stream_out list" where
  "ls_register c profile io s =
     seq_do (seq_do (ls_join c profile io (ls_enrol c profile s)) (ls_updateState None)) (ls_awaitStart c)"

definition ls_addClient :: "nat \<Rightarrow> viewer_profile \<Rightarrow> bool \<Rightarrow> stream_io \<Rightarrow> session \<Rightarrow> session \<times> stream_out list" where
  "ls_addClient c profile gone io s =
     (if gone then (s, [])
      else if ls_stop s then (s\<lparr>ls_waiters := ls_waiters s @ [Waiter c profile False]\<rparr>, [])
      else ls_register c profile io s)"

definition ls_enrolTransport :: "nat \<Rightarrow> stream_io \<Rightarrow> session \<Rightarrow> session \<times> stream_out list" where
  "ls_enrolTransport c io s =
     ls_addClient c Compatible False io (s\<lparr>ls_audioConsumers := set_add c (ls_audioConsumers s)\<rparr>)"

definition ls_addTransportClient :: "nat \<Rightarrow> bool \<Rightarrow> stream_io \<Rightarrow> session \<Rightarrow> session \<times> stream_out list" where
  "ls_addTransportClient c gone io s =
     (if gone then (s, [])
      else if ls_stop s then (s\<lparr>ls_waiters := ls_waiters s @ [Waiter c Compatible True]\<rparr>, [])
      else ls_enrolTransport c io s)"

text \<open>What a viewer that waited for the stop does next.\<close>

definition ls_resume :: "waiter \<Rightarrow> bool \<Rightarrow> stream_io \<Rightarrow> session \<Rightarrow> session \<times> stream_out list" where
  "ls_resume w gone io s =
     (case w of Waiter c profile transport \<Rightarrow>
        (case map_of (ls_resumed s) w of
           None \<Rightarrow> (s, [])
         | Some stopped \<Rightarrow>
             (let s = s\<lparr>ls_resumed := remove1 (w, stopped) (ls_resumed s)\<rparr> in
              if \<not> stopped \<or> ls_closed s then (s, [SoDestroy c])
              else if gone then (s, [])
              else if transport then ls_enrolTransport c io s
              else ls_register c profile io s)))"

text \<open>The catch of \<open>#addClient\<close>.\<close>

definition ls_startFailed :: "nat \<Rightarrow> session \<Rightarrow> session \<times> stream_out list" where
  "ls_startFailed c s =
     (if c \<notin> set (ls_failing s) then (s, [])
      else (ls_markViewerClose StartFailed c (s\<lparr>ls_failing := remove1 c (ls_failing s)\<rparr>), [SoDestroy c]))"

section \<open>Leases\<close>

definition ls_lease :: "session \<Rightarrow> session" where
  "ls_lease s = (ls_cancelStop s)\<lparr>ls_leases := ls_leases s + 1\<rparr>"

definition refusal :: "(session \<times> stream_out list) \<times> start_answer \<Rightarrow> session \<times> stream_out list" where
  "refusal r = (case r of ((s, outs), StartRefused e) \<Rightarrow> (s, outs @ [SoRefused e]) | (r, _) \<Rightarrow> r)"

definition ls_captureSnapshot :: "session \<Rightarrow> session \<times> stream_out list" where
  "ls_captureSnapshot s =
     (if ls_closed s then (s, [SoRefused ErrClosed])
      else seq_do (ls_updateState None (ls_lease s)) (\<lambda>s. refusal (ls_ensureStarted s)))"

definition ls_withLiveSource :: "session \<Rightarrow> session \<times> stream_out list" where
  "ls_withLiveSource s = (if ls_closed s then (s, [SoRefused ErrClosed]) else ls_updateState None (ls_lease s))"

definition ls_hasActiveViewer :: "session \<Rightarrow> bool" where
  "ls_hasActiveViewer s \<longleftrightarrow> ls_phase s = Streaming \<and> ls_source s \<and> ls_clients s \<noteq> []"

definition ls_hasActiveRecording :: "session \<Rightarrow> bool" where
  "ls_hasActiveRecording s \<longleftrightarrow> ls_recordings s \<noteq> []"

definition ls_hasActiveSession :: "session \<Rightarrow> bool" where
  "ls_hasActiveSession s \<longleftrightarrow> ls_owned s \<or> ls_leases s > 0 \<or> ls_clients s \<noteq> [] \<or> ls_source s"

definition ls_withActiveViewer :: "session \<Rightarrow> session \<times> stream_out list" where
  "ls_withActiveViewer s =
     (if ls_closed s \<or> \<not> ls_hasActiveViewer s then (s, [SoRefused ErrNoVideo]) else (ls_lease s, []))"

definition ls_release :: "session \<Rightarrow> session" where
  "ls_release s = ls_scheduleStopIfUnused (s\<lparr>ls_leases := ls_leases s - 1\<rparr>)"

definition ls_recordClip :: "int \<Rightarrow> int \<Rightarrow> session \<Rightarrow> session \<times> stream_out list" where
  "ls_recordClip seconds maximum s =
     (if seconds < 1 \<or> seconds > 120 \<or> maximum < 1 \<or> maximum > MAX_RECORDING_BYTES then (s, [SoRefused ErrArguments])
      else
        seq_do (seq_do (ls_updateState None (ls_lease s)) (\<lambda>s. (ls_collectRecording (nat seconds * 1000) (nat maximum) s, [])))
          (\<lambda>s. refusal (ls_ensureStarted s)))"

definition ls_recordClipEnds :: "nat \<Rightarrow> session \<Rightarrow> session" where
  "ls_recordClipEnds i s = ls_release (ls_cancelRecording i s)"

section \<open>Source media\<close>

definition ls_attachSource :: "bool \<Rightarrow> session \<Rightarrow> session \<times> stream_out list" where
  "ls_attachSource audio s =
     seq_do (seq_do (ls_cleanupSource s)
       (\<lambda>s. (s\<lparr>ls_source := True, ls_audio := audio, ls_phase := Streaming, ls_cache := vc_new, ls_viewerCache := vc_new,
          ls_deliveries := map (\<lambda>(c, d). (c, d\<lparr>dl_sourceAttached := True\<rparr>)) (ls_deliveries s),
          ls_pending := foldl (\<lambda>xs c. set_add c xs) (ls_pending s) (ls_clients s)\<rparr>, [])))
       (ls_updateState None)"

definition ls_closeChangedClient :: "video_codec \<Rightarrow> nat \<Rightarrow> session \<Rightarrow> session \<times> stream_out list" where
  "ls_closeChangedClient codec c s =
     (case Option.bind (map_of (ls_deliveries s) c) dl_startedCodec of
        Some k \<Rightarrow> if k \<noteq> codec then seq_do (ls_endClient CodecChanged c s) (ls_removeClient c) else (s, [])
      | None \<Rightarrow> (s, []))"

definition ls_closeChanged :: "video_codec \<Rightarrow> session \<Rightarrow> session \<times> stream_out list" where
  "ls_closeChanged codec s = each_do (ls_closeChangedClient codec) (ls_profileClients Native s) s"

definition ls_needsStartup :: "stream_io \<Rightarrow> session \<Rightarrow> bool" where
  "ls_needsStartup io s \<longleftrightarrow>
     (let codec = vc_codec (ls_cache s) in
      ls_snapshot s = None \<or> list_ex (\<lambda>c. ls_profiled Native c s) (ls_pending s) \<or>
      list_ex (\<lambda>c. ls_profiled Compatible c s) (ls_pending s) \<and> \<not> (codec = Some H265 \<and> ls_viewer s \<noteq> None) \<or>
      codec = Some H265 \<and> ls_profileClients Compatible s \<noteq> [] \<and> (ls_viewer s = None \<or> ls_shouldRestart io s))"

text \<open>The snapshot extractor is seeded once per source; the result tells whether this chunk is in the seed.\<close>

definition ls_seedSnapshot :: "video_codec \<Rightarrow> bytes option \<Rightarrow> stream_io \<Rightarrow> session \<Rightarrow> (session \<times> stream_out list) \<times> bool" where
  "ls_seedSnapshot codec startup io s =
     (case startup of
        Some b \<Rightarrow>
          if ls_snapshot s = None
          then ((s\<lparr>ls_snapshot := Some (ls_processes s), ls_processes := ls_processes s + 1\<rparr>,
                 SoSnapshotProcess (ls_processes s) codec # process_input io (Some (ls_processes s)) b),
                vc_startupIncludesLatest (ls_cache s))
          else ((s, []), False)
      | None \<Rightarrow> ((s, []), False))"

definition ls_seedViewer :: "bool \<Rightarrow> bytes option \<Rightarrow> stream_io \<Rightarrow> session \<Rightarrow> (session \<times> stream_out list) \<times> bool" where
  "ls_seedViewer compatible startup io s =
     (case startup of
        Some b \<Rightarrow>
          if compatible \<and> ls_viewer s = None then (ls_startViewerTranscoder b False io s, vc_startupIncludesLatest (ls_cache s))
          else if compatible \<and> ls_shouldRestart io s
          then (ls_restartViewerTranscoder b io s, vc_startupIncludesLatest (ls_cache s))
          else ((s, []), False)
      | None \<Rightarrow> ((s, []), False))"

definition ls_startWith :: "video_codec \<Rightarrow> bytes option \<Rightarrow> viewer_profile option \<Rightarrow> session \<Rightarrow> session \<times> stream_out list" where
  "ls_startWith codec startup profile s =
     (case startup of None \<Rightarrow> (s, []) | Some b \<Rightarrow> ls_startPendingClients codec b profile s)"

definition ls_forward :: "video_codec \<Rightarrow> bool \<Rightarrow> bytes \<Rightarrow> bytes option \<Rightarrow> stream_io \<Rightarrow> session \<Rightarrow> session \<times> stream_out list" where
  "ls_forward codec compatible chunk startup io s =
     (if codec = H265
      then
        (case ls_seedViewer compatible startup io s of (r, seeded) \<Rightarrow>
           seq_do (seq_do (seq_do r
             (\<lambda>s. (s, if seeded then [] else process_input io (ls_viewer s) chunk)))
             (ls_writeViewerChunk chunk (Some Native) io))
             (ls_startWith codec startup (Some Native)))
      else seq_do (ls_writeViewerChunk chunk None io s) (ls_startWith codec startup None))"

definition ls_feed :: "video_codec \<Rightarrow> bytes \<Rightarrow> stream_io \<Rightarrow> session \<Rightarrow> session \<times> stream_out list" where
  "ls_feed codec chunk io s =
     (let startup = (if ls_needsStartup io s then vc_startup (ls_cache s) else None);
          compatible = (ls_profileClients Compatible s \<noteq> []) in
      seq_do (ls_closeChanged codec s) (\<lambda>s.
        (case ls_seedSnapshot codec startup io s of (r, seeded) \<Rightarrow>
           seq_do (seq_do r (ls_forward codec compatible chunk startup io))
             (\<lambda>s. (s, if seeded then [] else process_input io (ls_snapshot s) chunk)))))"

definition ls_data :: "bytes \<Rightarrow> video_codec option \<Rightarrow> stream_io \<Rightarrow> session \<Rightarrow> session \<times> stream_out list" where
  "ls_data chunk hint io s =
     (if \<not> ls_source s \<or> chunk = [] then (s, [])
      else
        (let s = s\<lparr>ls_quiet := True, ls_cache := vc_push chunk hint (ls_cache s)\<rparr> in
         seq_do
           (case (vc_bootstrap (ls_cache s), vc_codec (ls_cache s)) of
              (Some _, Some codec) \<Rightarrow> ls_feed codec chunk io s
            | _ \<Rightarrow> (s, []))
           (\<lambda>s. each_do (ls_appendRecordingChunk chunk io) (map fst (ls_recordings s)) s)))"

definition ls_audioData :: "bytes \<Rightarrow> session \<Rightarrow> session \<times> stream_out list" where
  "ls_audioData chunk s =
     (if \<not> ls_audio s \<or> chunk = [] then (s, [])
      else seq_do (s, map (\<lambda>c. SoAudio c chunk) (ls_audioConsumers s))
        (\<lambda>s. each_do (ls_appendRecordingAudio chunk) (map fst (ls_recordings s)) s))"

text \<open>The deadline after the last byte of a source.\<close>

definition ls_quietFired :: "session \<Rightarrow> session \<times> stream_out list" where
  "ls_quietFired s =
     (if \<not> ls_quiet s then (s, [])
      else
        (let s = s\<lparr>ls_quiet := False\<rparr> in
         if ls_closed s \<or> ls_clients s = [] \<and> ls_leases s = 0 then (s, [])
         else if ls_owned s then ls_stopOwnedSource (Some ErrQuiet) s
         else ls_sourceEnded (Some ErrQuiet) s))"

definition ls_markStopped :: "session \<Rightarrow> session \<times> stream_out list" where
  "ls_markStopped s =
     seq_do (seq_do (seq_do (seq_do
       (ls_retireStart ErrStartStopped (ls_cancelStop s))
       (ls_failRecordings ErrVideoStopped))
       ls_cleanupSource)
       (\<lambda>s. ls_endClients ProviderStopped (s\<lparr>ls_phase := Idle, ls_owned := False\<rparr>)))
       (ls_updateState None)"

text \<open>Converted output of the current viewer process, and its end.\<close>

definition ls_viewerOutput :: "nat \<Rightarrow> bytes \<Rightarrow> stream_io \<Rightarrow> session \<Rightarrow> session \<times> stream_out list" where
  "ls_viewerOutput p chunk io s =
     (if ls_viewer s \<noteq> Some p then (s, [])
      else
        (let s = s\<lparr>ls_lastOutput := Some (io_now io), ls_lastPicture := vc_randomAccessPictures (ls_cache s),
               ls_viewerCache := vc_push chunk (Some H264) (ls_viewerCache s)\<rparr> in
         seq_do (ls_startWith H264 (vc_bootstrap (ls_viewerCache s)) (Some Compatible) s)
           (ls_writeViewerChunk chunk (Some Compatible) io)))"

definition ls_viewerGone :: "nat \<Rightarrow> session \<Rightarrow> session \<times> stream_out list" where
  "ls_viewerGone p s = (if ls_viewer s \<noteq> Some p then (s, []) else ls_failCompatibleClients (s\<lparr>ls_viewer := None\<rparr>))"

definition ls_close :: "session \<Rightarrow> session \<times> stream_out list" where
  "ls_close s =
     (if ls_closed s then (s, [])
      else
        seq_do (seq_do (seq_do (seq_do
          (ls_retireStart ErrClosed (s\<lparr>ls_closed := True\<rparr>))
          ls_cleanupSource)
          (ls_failRecordings ErrClosed))
          (\<lambda>s. seq_do (each_do (ls_endClient GatewayClosed) (ls_clients s) s) (\<lambda>s. (s\<lparr>ls_pending := []\<rparr>, []))))
          (\<lambda>s. if ls_stop s \<or> ls_owned s then ls_stopOwnedSource None s else (s, [])))"

section \<open>Events\<close>

datatype stream_event =
    SeAdd nat viewer_profile bool stream_io
  | SeAddTransport nat bool stream_io
  | SeResume waiter bool stream_io
  | SeClientClosed nat
  | SeClientError nat
  | SeStartFailed nat
  | SeMuxerClosed nat
  | SeCapture
  | SeWithSource
  | SeWithViewer
  | SeRelease
  | SeReleaseNow
  | SeRecord int int
  | SeRecordEnds nat
  | SeRecordTimeout nat
  | SeRecordDone nat
  | SeStartDone nat bool
  | SeAttach bool
  | SeData bytes "video_codec option" stream_io
  | SeAudio bytes
  | SeAudioError
  | SeSourceEnded bool
  | SeQuiet
  | SeStopTimer
  | SeStopSettled bool
  | SeMarkStopped
  | SeViewerOutput nat bytes stream_io
  | SeViewerGone nat
  | SeClose

text \<open>Timers and callbacks of a recording, a source or a lease that is gone do nothing.\<close>

fun ls_step :: "session \<Rightarrow> stream_event \<Rightarrow> session \<times> stream_out list" where
  "ls_step s (SeAdd c profile gone io) = ls_addClient c profile gone io s"
| "ls_step s (SeAddTransport c gone io) = ls_addTransportClient c gone io s"
| "ls_step s (SeResume w gone io) = ls_resume w gone io s"
| "ls_step s (SeClientClosed c) = ls_removeClient c s"
| "ls_step s (SeClientError c) = ls_removeClient c (ls_markViewerClose ConsumerError c s)"
| "ls_step s (SeStartFailed c) = ls_startFailed c s"
| "ls_step s (SeMuxerClosed c) = (s\<lparr>ls_audioConsumers := set_delete c (ls_audioConsumers s)\<rparr>, [])"
| "ls_step s SeCapture = ls_captureSnapshot s"
| "ls_step s SeWithSource = ls_withLiveSource s"
| "ls_step s SeWithViewer = ls_withActiveViewer s"
| "ls_step s SeRelease = (if ls_leases s = 0 then (s, []) else (ls_release s, []))"
| "ls_step s SeReleaseNow = ls_stopNowIfUnused s"
| "ls_step s (SeRecord seconds maximum) = ls_recordClip seconds maximum s"
| "ls_step s (SeRecordEnds i) = (if ls_leases s = 0 then (s, []) else (ls_recordClipEnds i s, []))"
| "ls_step s (SeRecordTimeout i) =
     (if pred_option (\<lambda>r. \<not> rg_started r) (map_of (ls_recordings s) i) then ls_settleRecording (Some ErrNoVideo) i s else (s, []))"
| "ls_step s (SeRecordDone i) =
     (if pred_option rg_started (map_of (ls_recordings s) i) then ls_settleRecording None i s else (s, []))"
| "ls_step s (SeStartDone n succeeded) = ls_startSettled n succeeded s"
| "ls_step s (SeAttach audio) = ls_attachSource audio s"
| "ls_step s (SeData chunk hint io) = ls_data chunk hint io s"
| "ls_step s (SeAudio chunk) = ls_audioData chunk s"
| "ls_step s SeAudioError = (if ls_audio s then ls_failRecordings ErrAudio s else (s, []))"
| "ls_step s (SeSourceEnded failed) = (if ls_source s then ls_sourceEnded (if failed then Some ErrSource else None) s else (s, []))"
| "ls_step s SeQuiet = ls_quietFired s"
| "ls_step s SeStopTimer =
     (if ls_stopTimer s \<and> \<not> ls_closed s then ls_stopOwnedSource None (s\<lparr>ls_stopTimer := False\<rparr>) else (s, []))"
| "ls_step s (SeStopSettled stopped) = ls_settleStop stopped s"
| "ls_step s SeMarkStopped = ls_markStopped s"
| "ls_step s (SeViewerOutput p chunk io) = ls_viewerOutput p chunk io s"
| "ls_step s (SeViewerGone p) = ls_viewerGone p s"
| "ls_step s SeClose = ls_close s"

section \<open>Operations that leave the control state alone\<close>

definition ls_ctl where
  "ls_ctl s = (ls_phase s, ls_start s, ls_starts s, ls_awaiting s, ls_stop s, ls_waiters s, ls_stopTimer s, ls_owned s,
     ls_leases s, ls_closed s, ls_clients s)"

fun provider_call :: "stream_out \<Rightarrow> bool" where
  "provider_call (SoStart n) = True"
| "provider_call SoStop = True"
| "provider_call _ = False"

definition idle_op :: "session \<Rightarrow> session \<times> stream_out list \<Rightarrow> bool" where
  "idle_op s r \<longleftrightarrow> ls_ctl (fst r) = ls_ctl s \<and> list_all (\<lambda>x. \<not> provider_call x) (snd r)"

lemma idle_pure: "ls_ctl t = ls_ctl s \<Longrightarrow> list_all (\<lambda>x. \<not> provider_call x) outs \<Longrightarrow> idle_op s (t, outs)"
  by (simp add: idle_op_def)

lemma idle_seq: "idle_op s r \<Longrightarrow> (\<And>t. idle_op t (g t)) \<Longrightarrow> idle_op s (seq_do r g)"
  by (simp add: idle_op_def fst_seq_do snd_seq_do)

lemma idle_each: "(\<And>x t. idle_op t (g x t)) \<Longrightarrow> idle_op s (each_do g xs s)"
  by (induction xs arbitrary: s) (auto simp: idle_pure intro: idle_seq)

lemma ctl_delivery [simp]: "ls_ctl (ls_delivery c f s) = ls_ctl s"
  by (simp add: ls_delivery_def ls_ctl_def split: option.split)

lemma ctl_mark [simp]: "ls_ctl (ls_markViewerClose r c s) = ls_ctl s"
  by (simp add: ls_markViewerClose_def)

lemma ctl_write [simp]: "ls_ctl (ls_recordWrite c b s) = ls_ctl s"
  by (simp add: ls_recordWrite_def)

lemma ctl_updates [simp]:
  "ls_ctl (s\<lparr>ls_pending := p\<rparr>) = ls_ctl s" "ls_ctl (s\<lparr>ls_headed := p\<rparr>) = ls_ctl s" "ls_ctl (s\<lparr>ls_deliveries := d\<rparr>) = ls_ctl s"
  "ls_ctl (s\<lparr>ls_recordings := r\<rparr>) = ls_ctl s" "ls_ctl (s\<lparr>ls_quiet := b\<rparr>) = ls_ctl s" "ls_ctl (s\<lparr>ls_failing := f\<rparr>) = ls_ctl s"
  by (simp_all add: ls_ctl_def)

named_theorems idle

lemma idle_startClient [idle]: "idle_op s (ls_startClient c k b s)"
  by (simp add: ls_startClient_def idle_op_def)

lemma idle_startPendingClient [idle]: "idle_op s (ls_startPendingClient k b p c s)"
  using idle_startClient [of s c k b] by (simp add: ls_startPendingClient_def idle_op_def split_beta Let_def)

lemma idle_startPendingClients [idle]: "idle_op s (ls_startPendingClients k b p s)"
  unfolding ls_startPendingClients_def by (rule idle_each) (rule idle)

lemma idle_startWith [idle]: "idle_op s (ls_startWith k b p s)"
  by (simp add: ls_startWith_def idle idle_pure split: option.split)

lemma idle_writeClient [idle]: "idle_op s (ls_writeClient chunk p io c s)"
  by (simp add: ls_writeClient_def idle_op_def Let_def)

lemma idle_writeViewerChunk [idle]: "idle_op s (ls_writeViewerChunk chunk p io s)"
  unfolding ls_writeViewerChunk_def by (rule idle_each) (rule idle)

lemma quiet_processes [simp]: "list_all (\<lambda>x. \<not> provider_call x) (process_input io p b)"
    "list_all (\<lambda>x. \<not> provider_call x) (terminate_process p)"
  by (simp_all add: process_input_def terminate_process_def split: option.split)

lemma idle_stopViewerTranscoder [idle]: "idle_op s (ls_stopViewerTranscoder s)"
  by (simp add: ls_stopViewerTranscoder_def idle_op_def ls_ctl_def)

lemma idle_startViewerTranscoder [idle]: "idle_op s (ls_startViewerTranscoder b keep io s)"
  by (simp add: ls_startViewerTranscoder_def idle_op_def ls_ctl_def Let_def)

lemma idle_restartViewerTranscoder [idle]: "idle_op s (ls_restartViewerTranscoder b io s)"
proof (cases "ls_viewer s")
  case (Some p)
  then show ?thesis
    using idle_startViewerTranscoder [of "s\<lparr>ls_viewer := None, ls_restarts := ls_restarts s + 1\<rparr>" b True io]
    by (simp add: ls_restartViewerTranscoder_def idle_op_def ls_ctl_def split_beta Let_def)
qed (simp add: ls_restartViewerTranscoder_def idle_pure)

lemma idle_cleanupSource [idle]: "idle_op s (ls_cleanupSource s)"
  unfolding ls_cleanupSource_def by (rule idle_seq) (simp_all add: idle idle_op_def ls_ctl_def idle_stopViewerTranscoder [unfolded idle_op_def ls_ctl_def])

lemma idle_settleRecording [idle]: "idle_op s (ls_settleRecording err i s)"
  by (simp add: ls_settleRecording_def idle_op_def split: option.split)

lemma idle_failRecordings [idle]: "idle_op s (ls_failRecordings err s)"
  unfolding ls_failRecordings_def by (rule idle_each) (rule idle)

lemma idle_appendRecordingChunk [idle]: "idle_op s (ls_appendRecordingChunk chunk io i s)"
  by (simp add: ls_appendRecordingChunk_def idle idle_pure split: option.split)

lemma idle_appendRecordingAudio [idle]: "idle_op s (ls_appendRecordingAudio chunk i s)"
  by (simp add: ls_appendRecordingAudio_def idle idle_pure split: option.split)

lemma idle_seedSnapshot [idle]: "idle_op s (fst (ls_seedSnapshot k b io s))"
  by (simp add: ls_seedSnapshot_def idle_op_def ls_ctl_def split: option.split)

lemma idle_seedViewer [idle]: "idle_op s (fst (ls_seedViewer m b io s))"
  by (simp add: ls_seedViewer_def idle idle_pure split: option.split)

lemma idle_forward [idle]: "idle_op s (ls_forward k m chunk b io s)"
proof -
  obtain r seeded where r: "ls_seedViewer m b io s = (r, seeded)" by (cases "ls_seedViewer m b io s")
  then have "idle_op s r" using idle_seedViewer [of s m b io] by simp
  then show ?thesis unfolding ls_forward_def r by (auto simp: idle idle_pure simp del: split_paired_All intro!: idle_seq)
qed

lemma idle_updateState [idle]: "idle_op s (ls_updateState err s)"
  by (simp add: ls_updateState_def idle_op_def)

lemma idle_emitClientSummary [idle]: "idle_op s (ls_emitClientSummary c s)"
  by (simp add: ls_emitClientSummary_def idle_op_def split: option.split)

lemma idle_endClient [idle]: "idle_op s (ls_endClient r c s)"
  by (simp add: ls_endClient_def idle_op_def)

lemma idle_join [idle]: "idle_op s (ls_join c p io s)"
proof -
  have "idle_op s (ls_startViewerTranscoder b False io (s\<lparr>ls_pending := set_add c (ls_pending s)\<rparr>))" for b
    using idle_startViewerTranscoder [of "s\<lparr>ls_pending := set_add c (ls_pending s)\<rparr>" b False io] by (simp add: idle_op_def)
  then show ?thesis by (simp add: ls_join_def idle idle_pure Let_def split: option.split prod.split)
qed

lemma idle_audioData [idle]: "idle_op s (ls_audioData chunk s)"
  unfolding ls_audioData_def by (auto simp: idle idle_pure list_all_iff intro!: idle_seq idle_each)

lemma idle_viewerOutput [idle]: "idle_op s (ls_viewerOutput p chunk io s)"
proof -
  have "idle_op t (seq_do (ls_startWith H264 b (Some Compatible) t) (ls_writeViewerChunk chunk (Some Compatible) io))" for t b
    by (intro idle_seq idle)
  from this [of "s\<lparr>ls_lastOutput := Some (io_now io), ls_lastPicture := vc_randomAccessPictures (ls_cache s),
      ls_viewerCache := vc_push chunk (Some H264) (ls_viewerCache s)\<rparr>"]
  show ?thesis by (simp add: ls_viewerOutput_def idle_op_def ls_ctl_def Let_def)
qed

lemma idle_startFailed [idle]: "idle_op s (ls_startFailed c s)"
  by (simp add: ls_startFailed_def idle_op_def)

lemma idle_ctl: "idle_op s r \<Longrightarrow> ls_ctl (fst r) = ls_ctl s"
  by (simp add: idle_op_def)

lemma idle_calls: "idle_op s r \<Longrightarrow> x \<in> set (snd r) \<Longrightarrow> \<not> provider_call x"
  by (auto simp: idle_op_def list_all_iff)

lemma idle_fields:
  assumes "idle_op s r"
  shows "ls_phase (fst r) = ls_phase s" "ls_start (fst r) = ls_start s" "ls_starts (fst r) = ls_starts s"
    "ls_awaiting (fst r) = ls_awaiting s" "ls_stop (fst r) = ls_stop s" "ls_waiters (fst r) = ls_waiters s"
    "ls_stopTimer (fst r) = ls_stopTimer s" "ls_owned (fst r) = ls_owned s" "ls_leases (fst r) = ls_leases s"
    "ls_closed (fst r) = ls_closed s" "ls_clients (fst r) = ls_clients s"
  using assms by (simp_all add: idle_op_def ls_ctl_def)

section \<open>Control operations\<close>

lemmas idle_field_simps = idle_fields [OF idle_failRecordings] idle_fields [OF idle_cleanupSource] idle_fields [OF idle_updateState]
  idle_fields [OF idle_each [OF idle_endClient]]

lemma retire_ctl: "ls_ctl (fst (ls_retireStart err s)) = (ls_phase s, None, ls_starts s,
    if ls_start s = None then ls_awaiting s else [], ls_stop s, ls_waiters s, ls_stopTimer s, ls_owned s, ls_leases s,
    ls_closed s, ls_clients s)"
  by (simp add: ls_retireStart_def ls_ctl_def split: option.split)

lemmas retire_fields = retire_ctl [unfolded ls_ctl_def prod.inject]

lemma sourceEnded_ctl: "ls_ctl (fst (ls_sourceEnded err s)) =
    (if ls_phase s = Idle then ls_ctl s
     else (if err = None then Idle else Failed, None, ls_starts s, if ls_start s = None then ls_awaiting s else [], ls_stop s,
       ls_waiters s, False, False, ls_leases s, ls_closed s, []))"
  by (simp add: ls_sourceEnded_def ls_endClients_def ls_cancelStop_def fst_seq_do idle_field_simps retire_fields ls_ctl_def)

lemmas sourceEnded_fields = sourceEnded_ctl [unfolded ls_ctl_def]

lemma stopOwnedSource_ctl: "ls_ctl (fst (ls_stopOwnedSource err s)) =
    (if ls_stop s then ls_ctl s
     else if err = None \<or> ls_phase s = Idle
     then (Stopping, None, ls_starts s, if ls_start s = None then ls_awaiting s else [], True, ls_waiters s, ls_stopTimer s,
       err \<noteq> None \<or> ls_owned s, ls_leases s, ls_closed s, ls_clients s)
     else (Stopping, None, ls_starts s, if ls_start s = None then ls_awaiting s else [], True, ls_waiters s, False, True,
       ls_leases s, ls_closed s, []))"
proof (cases err)
  case None
  then show ?thesis by (simp add: ls_stopOwnedSource_def fst_seq_do idle_field_simps retire_fields ls_ctl_def)
next
  case (Some e)
  define u where "u = fst (ls_sourceEnded (Some e) (s\<lparr>ls_stop := True\<rparr>))"
  have u: "ls_ctl u = (if ls_phase s = Idle then ls_ctl (s\<lparr>ls_stop := True\<rparr>)
     else (Failed, None, ls_starts s, if ls_start s = None then ls_awaiting s else [], True,
       ls_waiters s, False, False, ls_leases s, ls_closed s, []))"
    by (simp add: u_def sourceEnded_ctl)
  have "ls_ctl (fst (ls_stopOwnedSource err s)) = (if ls_stop s then ls_ctl s else
      ls_ctl ((fst (ls_retireStart ErrStartStopped (u\<lparr>ls_owned := True\<rparr>)))\<lparr>ls_phase := Stopping\<rparr>))"
    by (simp add: Some ls_stopOwnedSource_def fst_seq_do ls_updateState_def u_def)
  with u show ?thesis by (auto simp: ls_ctl_def retire_fields Some)
qed

lemma settleStop_ctl: "ls_ctl (fst (ls_settleStop stopped s)) =
    (if \<not> ls_stop s then ls_ctl s
     else (if \<not> stopped then Failed else if ls_phase s = Stopping then Idle else ls_phase s, ls_start s, ls_starts s, ls_awaiting s,
       False, [], ls_stopTimer s, if stopped \<and> ls_phase s = Stopping then False else ls_owned s, ls_leases s, ls_closed s, ls_clients s))"
  by (simp add: ls_settleStop_def fst_seq_do idle_field_simps ls_ctl_def)

lemma startSettled_ctl: "ls_ctl (fst (ls_startSettled n b s)) =
    (if ls_start s \<noteq> Some n then ls_ctl s
     else (if b then ls_phase s else Failed, None, ls_starts s, [], ls_stop s, ls_waiters s, ls_stopTimer s, b \<and> ls_owned s,
       ls_leases s, ls_closed s, ls_clients s))"
  by (simp add: ls_startSettled_def fst_seq_do idle_field_simps ls_ctl_def)

lemma ensureStarted_ctl: "ls_ctl (fst (fst (ls_ensureStarted s))) =
    (if ls_closed s \<or> ls_stop s \<or> ls_phase s = Failed \<and> ls_owned s \<or> ls_start s \<noteq> None \<or> ls_phase s \<noteq> Idle \<and> ls_phase s \<noteq> Failed
     then ls_ctl s
     else (Starting, Some (ls_starts s), ls_starts s + 1, ls_awaiting s, ls_stop s, ls_waiters s, ls_stopTimer s, True, ls_leases s,
       ls_closed s, ls_clients s))"
  by (simp add: ls_ensureStarted_def fst_seq_do idle_field_simps ls_ctl_def)

lemma ensureStarted_pending: "snd (ls_ensureStarted s) = StartPending \<longleftrightarrow> \<not> ls_closed s \<and> \<not> ls_stop s \<and>
    \<not> (ls_phase s = Failed \<and> ls_owned s) \<and> (ls_start s \<noteq> None \<or> ls_phase s = Idle \<or> ls_phase s = Failed)"
  by (simp add: ls_ensureStarted_def)

lemma schedule_ctl: "ls_ctl (ls_scheduleStopIfUnused s) = (ls_phase s, ls_start s, ls_starts s, ls_awaiting s, ls_stop s, ls_waiters s,
    ls_stopTimer s \<or> \<not> ls_closed s \<and> ls_clients s = [] \<and> ls_leases s = 0 \<and> ls_owned s, ls_owned s, ls_leases s, ls_closed s, ls_clients s)"
  by (auto simp: ls_scheduleStopIfUnused_def ls_ctl_def)

lemma removeClient_ctl: "ls_ctl (fst (ls_removeClient c s)) = (ls_phase s, ls_start s, ls_starts s, ls_awaiting s, ls_stop s, ls_waiters s,
    ls_stopTimer s \<or> \<not> ls_closed s \<and> set_delete c (ls_clients s) = [] \<and> ls_leases s = 0 \<and> ls_owned s, ls_owned s, ls_leases s,
    ls_closed s, set_delete c (ls_clients s))"
proof -
  define t where "t = s\<lparr>ls_clients := set_delete c (ls_clients s), ls_pending := set_delete c (ls_pending s)\<rparr>"
  define u where "u = seq_do (seq_do (ls_emitClientSummary c t)
       (\<lambda>s. if ls_profileClients Compatible s = [] then ls_stopViewerTranscoder s else (s, []))) (ls_updateState None)"
  have u: "ls_ctl (fst u) = ls_ctl t" unfolding u_def by (intro idle_ctl idle_seq idle) (simp add: idle idle_pure)
  have e: "fst (ls_removeClient c s) = ls_scheduleStopIfUnused (fst u)"
    by (simp add: ls_removeClient_def fst_seq_do [of "seq_do a b" for a b] u_def t_def)
  show ?thesis unfolding e schedule_ctl using u by (simp add: ls_ctl_def t_def)
qed

lemma markStopped_ctl: "ls_ctl (fst (ls_markStopped s)) = (Idle, None, ls_starts s, if ls_start s = None then ls_awaiting s else [], ls_stop s,
    ls_waiters s, False, False, ls_leases s, ls_closed s, [])"
  by (simp add: ls_markStopped_def ls_endClients_def ls_cancelStop_def fst_seq_do idle_field_simps retire_fields ls_ctl_def)

lemma attachSource_ctl: "ls_ctl (fst (ls_attachSource audio s)) = (Streaming, ls_start s, ls_starts s, ls_awaiting s, ls_stop s,
    ls_waiters s, ls_stopTimer s, ls_owned s, ls_leases s, ls_closed s, ls_clients s)"
  by (simp add: ls_attachSource_def fst_seq_do idle_field_simps ls_ctl_def)

lemma release_ctl: "ls_ctl (ls_release s) = (ls_phase s, ls_start s, ls_starts s, ls_awaiting s, ls_stop s, ls_waiters s,
    ls_stopTimer s \<or> \<not> ls_closed s \<and> ls_clients s = [] \<and> ls_leases s - 1 = 0 \<and> ls_owned s, ls_owned s, ls_leases s - 1, ls_closed s,
    ls_clients s)"
  by (simp add: ls_release_def schedule_ctl)

section \<open>The invariant\<close>

fun ctl_inv where
  "ctl_inv (ph, st, n, aw, sp, wt, tm, ow, le, cl, cs) \<longleftrightarrow>
     (ph = Idle \<longrightarrow> \<not> ow) \<and> (st \<noteq> None \<longrightarrow> the st < n \<and> ow \<and> \<not> sp \<and> (ph = Starting \<or> ph = Streaming)) \<and>
     (st = None \<longrightarrow> aw = []) \<and> (\<not> sp \<longrightarrow> wt = []) \<and> (ph = Stopping \<longrightarrow> sp) \<and>
     (tm \<longrightarrow> cs = [] \<and> le = (0::nat))"

definition ls_inv :: "session \<Rightarrow> bool" where
  "ls_inv s \<longleftrightarrow> ctl_inv (ls_ctl s)"

text \<open>An owned source that nobody uses is about to be stopped, is being stopped, or failed to stop; and as long as the
  provider attaches no source while it stops one, a stop that ends well releases the source.\<close>

fun ctl_retiring where
  "ctl_retiring (ph, st, n, aw, sp, wt, tm, ow, le, cl, cs) \<longleftrightarrow>
     (ow \<and> cs = [] \<and> le = (0::nat) \<and> \<not> cl \<longrightarrow> tm \<or> sp \<or> ph = Failed) \<and> (sp \<and> ow \<longrightarrow> ph = Stopping)"

definition ls_retiring :: "session \<Rightarrow> bool" where
  "ls_retiring s \<longleftrightarrow> ctl_retiring (ls_ctl s)"

definition ls_ok :: "session \<Rightarrow> bool" where
  "ls_ok s \<longleftrightarrow> ls_inv s \<and> ls_retiring s"

lemma inv_new: "ls_ok ls_new"
  by (simp add: ls_ok_def ls_inv_def ls_retiring_def ls_new_def ls_ctl_def)

lemma inv_each: "(\<And>x t. P t \<Longrightarrow> P (fst (g x t))) \<Longrightarrow> P s \<Longrightarrow> P (fst (each_do g xs s))"
  by (induction xs arbitrary: s) (simp_all add: fst_seq_do)

lemma inv_idle: "idle_op s r \<Longrightarrow> ls_inv s \<Longrightarrow> ls_inv (fst r)" "idle_op s r \<Longrightarrow> ls_ok s \<Longrightarrow> ls_ok (fst r)"
  by (simp_all add: ls_ok_def ls_inv_def ls_retiring_def idle_ctl)

lemmas ok_defs = ls_ok_def ls_inv_def ls_retiring_def

lemma sourceEnded_inv: "ls_inv s \<Longrightarrow> ls_inv (fst (ls_sourceEnded err s))" "ls_ok s \<Longrightarrow> ls_ok (fst (ls_sourceEnded err s))"
  unfolding ok_defs sourceEnded_ctl by (cases "ls_phase s"; cases "ls_start s"; auto simp: ls_ctl_def)+

lemma stopOwnedSource_inv: "ls_inv s \<Longrightarrow> ls_inv (fst (ls_stopOwnedSource err s))"
    "ls_ok s \<Longrightarrow> ls_ok (fst (ls_stopOwnedSource err s))"
  unfolding ok_defs stopOwnedSource_ctl by (cases "ls_phase s"; cases "ls_start s"; auto simp: ls_ctl_def)+

lemma settleStop_inv: "ls_inv s \<Longrightarrow> ls_inv (fst (ls_settleStop b s))" "ls_ok s \<Longrightarrow> ls_ok (fst (ls_settleStop b s))"
  unfolding ok_defs settleStop_ctl by (cases "ls_phase s"; cases "ls_start s"; auto simp: ls_ctl_def)+

lemma startSettled_inv: "ls_inv s \<Longrightarrow> ls_inv (fst (ls_startSettled n b s))" "ls_ok s \<Longrightarrow> ls_ok (fst (ls_startSettled n b s))"
proof -
  obtain ph st k aw sp wt tm ow le cl cs where f: "ls_phase s = ph" "ls_start s = st" "ls_starts s = k" "ls_awaiting s = aw" "ls_stop s = sp" "ls_waiters s = wt"
    "ls_stopTimer s = tm" "ls_owned s = ow" "ls_leases s = le" "ls_closed s = cl" "ls_clients s = cs" by blast
  then have c: "ls_ctl s = (ph, st, k, aw, sp, wt, tm, ow, le, cl, cs)" by (simp add: ls_ctl_def)
  show "ls_inv s \<Longrightarrow> ls_inv (fst (ls_startSettled n b s))"
    unfolding ok_defs startSettled_ctl c f by (cases "st = Some n"; cases b) auto
  show "ls_ok s \<Longrightarrow> ls_ok (fst (ls_startSettled n b s))"
    unfolding ok_defs startSettled_ctl c f by (cases "st = Some n"; cases b; cases ph; cases ow; cases sp; cases tm; simp)
qed

lemma markStopped_inv: "ls_inv s \<Longrightarrow> ls_inv (fst (ls_markStopped s))" "ls_ok s \<Longrightarrow> ls_ok (fst (ls_markStopped s))"
  unfolding ok_defs markStopped_ctl by (cases "ls_phase s"; cases "ls_start s"; auto simp: ls_ctl_def)+

lemma removeClient_inv: "ls_inv s \<Longrightarrow> ls_inv (fst (ls_removeClient c s))" "ls_ok s \<Longrightarrow> ls_ok (fst (ls_removeClient c s))"
  unfolding ok_defs removeClient_ctl by (cases "ls_phase s"; cases "ls_start s"; auto simp: ls_ctl_def set_delete_def)+

lemma release_inv: "ls_inv s \<Longrightarrow> ls_leases s \<noteq> 0 \<Longrightarrow> ls_inv (ls_release s)" "ls_ok s \<Longrightarrow> ls_leases s \<noteq> 0 \<Longrightarrow> ls_ok (ls_release s)"
  unfolding ok_defs release_ctl by (cases "ls_phase s"; cases "ls_start s"; auto simp: ls_ctl_def)+

lemma attachSource_inv: "ls_inv s \<Longrightarrow> ls_inv (fst (ls_attachSource audio s))"
    "ls_ok s \<Longrightarrow> ls_phase s = Starting \<or> ls_phase s = Streaming \<Longrightarrow> ls_ok (fst (ls_attachSource audio s))"
  unfolding ok_defs attachSource_ctl by (cases "ls_phase s"; cases "ls_start s"; auto simp: ls_ctl_def)+

lemma enrol_ctl: "ls_ctl (ls_enrol c p s) = (ls_phase s, ls_start s, ls_starts s, ls_awaiting s, ls_stop s, ls_waiters s, False,
    ls_owned s, ls_leases s, ls_closed s, set_add c (ls_clients s))"
  by (simp add: ls_enrol_def ls_cancelStop_def ls_ctl_def Let_def)

lemma lease_ctl: "ls_ctl (ls_lease s) = (ls_phase s, ls_start s, ls_starts s, ls_awaiting s, ls_stop s, ls_waiters s, False,
    ls_owned s, ls_leases s + 1, ls_closed s, ls_clients s)"
  by (simp add: ls_lease_def ls_cancelStop_def ls_ctl_def)

lemma awaitStart_ctl: "ls_ctl (fst (ls_awaitStart c s)) =
    (let t = fst (fst (ls_ensureStarted s)) in (ls_phase t, ls_start t, ls_starts t,
       if snd (ls_ensureStarted s) = StartPending then ls_awaiting t @ [c] else ls_awaiting t, ls_stop t, ls_waiters t, ls_stopTimer t,
       ls_owned t, ls_leases t, ls_closed t, ls_clients t))"
  by (simp add: ls_awaitStart_def fst_seq_do ls_ctl_def Let_def split: prod.split start_answer.split)

lemmas ensureStarted_fields = ensureStarted_ctl [unfolded ls_ctl_def]

lemma ensureStarted_inv:
  "ls_inv s \<Longrightarrow> ls_stopTimer s = False \<Longrightarrow> ls_inv (fst (fst (ls_ensureStarted s)))"
  "ls_ok s \<Longrightarrow> ls_stopTimer s = False \<Longrightarrow> ls_clients s \<noteq> [] \<or> ls_leases s \<noteq> 0 \<Longrightarrow> ls_ok (fst (fst (ls_ensureStarted s)))"
  unfolding ok_defs ensureStarted_ctl by (cases "ls_phase s"; cases "ls_start s"; auto simp: ls_ctl_def)+

lemma awaitStart_inv:
  "ls_inv s \<Longrightarrow> ls_stopTimer s = False \<Longrightarrow> ls_inv (fst (ls_awaitStart c s))"
  "ls_ok s \<Longrightarrow> ls_stopTimer s = False \<Longrightarrow> ls_clients s \<noteq> [] \<Longrightarrow> ls_ok (fst (ls_awaitStart c s))"
proof -
  define t where "t = fst (fst (ls_ensureStarted s))"
  obtain ph st k aw sp wt tm ow le cl cs where f: "ls_phase t = ph" "ls_start t = st" "ls_starts t = k" "ls_awaiting t = aw" "ls_stop t = sp" "ls_waiters t = wt"
    "ls_stopTimer t = tm" "ls_owned t = ow" "ls_leases t = le" "ls_closed t = cl" "ls_clients t = cs" by blast
  then have c: "ls_ctl t = (ph, st, k, aw, sp, wt, tm, ow, le, cl, cs)" by (simp add: ls_ctl_def)
  have p: "st \<noteq> None" if "snd (ls_ensureStarted s) = StartPending"
    using that ensureStarted_ctl [of s] f(2) unfolding ensureStarted_pending t_def [symmetric] ls_ctl_def by (auto split: if_splits)
  have k: "ctl_inv (ls_ctl t) \<Longrightarrow> ctl_inv (ls_ctl (fst (ls_awaitStart c s)))"
    "ctl_retiring (ls_ctl t) \<Longrightarrow> ctl_retiring (ls_ctl (fst (ls_awaitStart c s)))"
    unfolding awaitStart_ctl Let_def t_def [symmetric] f c using p by auto
  show "ls_inv s \<Longrightarrow> ls_stopTimer s = False \<Longrightarrow> ls_inv (fst (ls_awaitStart c s))"
    using ensureStarted_inv(1) [of s] k(1) by (simp add: ls_inv_def t_def)
  show "ls_ok s \<Longrightarrow> ls_stopTimer s = False \<Longrightarrow> ls_clients s \<noteq> [] \<Longrightarrow> ls_ok (fst (ls_awaitStart c s))"
    using ensureStarted_inv(2) [of s] k by (simp add: ok_defs t_def)
qed

lemma joined_ctl: "ls_ctl (fst (seq_do (ls_join c p io (ls_enrol c p s)) (ls_updateState None))) = ls_ctl (ls_enrol c p s)"
  by (intro idle_ctl idle_seq idle)

lemma enrol_inv: "ls_inv s \<Longrightarrow> ls_inv (ls_enrol c p s)" "ls_ok s \<Longrightarrow> ls_ok (ls_enrol c p s)"
  unfolding ok_defs enrol_ctl by (cases "ls_phase s"; cases "ls_start s"; auto simp: ls_ctl_def set_add_def)+

lemma register_inv: "ls_inv s \<Longrightarrow> ls_inv (fst (ls_register c p io s))" "ls_ok s \<Longrightarrow> ls_ok (fst (ls_register c p io s))"
proof -
  define t where "t = fst (seq_do (ls_join c p io (ls_enrol c p s)) (ls_updateState None))"
  have t: "ls_ctl t = ls_ctl (ls_enrol c p s)" unfolding t_def by (rule joined_ctl)
  have f: "ls_stopTimer t = False" "ls_clients t \<noteq> []" using t unfolding enrol_ctl by (auto simp: ls_ctl_def set_add_def split: if_splits)
  have e: "fst (ls_register c p io s) = fst (ls_awaitStart c t)" by (simp add: ls_register_def fst_seq_do [of "seq_do a b" for a b] t_def)
  show "ls_inv s \<Longrightarrow> ls_inv (fst (ls_register c p io s))"
    unfolding e by (intro awaitStart_inv(1) f) (simp add: ls_inv_def t enrol_inv(1) [unfolded ls_inv_def])
  show "ls_ok s \<Longrightarrow> ls_ok (fst (ls_register c p io s))"
    unfolding e using enrol_inv(2) [of s c p] by (intro awaitStart_inv(2) f) (simp add: ok_defs t)
qed

lemma refusal_fst: "fst (refusal r) = fst (fst r)"
  by (simp add: refusal_def split: prod.split start_answer.split)

lemma leased_inv: "ls_inv s \<Longrightarrow> ls_inv (ls_lease s)" "ls_ok s \<Longrightarrow> ls_ok (ls_lease s)"
  unfolding ok_defs lease_ctl by (cases "ls_phase s"; cases "ls_start s"; auto simp: ls_ctl_def)+

text \<open>A lease, something that leaves the control state alone, and a start.\<close>

lemma leased_start_inv:
  assumes "idle_op (ls_lease s) r"
  shows "ls_inv s \<Longrightarrow> ls_inv (fst (seq_do r (\<lambda>s. refusal (ls_ensureStarted s))))"
    "ls_ok s \<Longrightarrow> ls_ok (fst (seq_do r (\<lambda>s. refusal (ls_ensureStarted s))))"
proof -
  have t: "ls_ctl (fst r) = ls_ctl (ls_lease s)" by (rule idle_ctl [OF assms])
  have f: "ls_stopTimer (fst r) = False" "ls_leases (fst r) \<noteq> 0" using t unfolding lease_ctl by (auto simp: ls_ctl_def)
  show "ls_inv s \<Longrightarrow> ls_inv (fst (seq_do r (\<lambda>s. refusal (ls_ensureStarted s))))"
    unfolding fst_seq_do refusal_fst by (intro ensureStarted_inv(1) f inv_idle(1) [OF assms] leased_inv)
  show "ls_ok s \<Longrightarrow> ls_ok (fst (seq_do r (\<lambda>s. refusal (ls_ensureStarted s))))"
    unfolding fst_seq_do refusal_fst using f(2) by (intro ensureStarted_inv(2) f(1) inv_idle(2) [OF assms] leased_inv) simp_all
qed

lemma addClient_inv: "ls_inv s \<Longrightarrow> ls_inv (fst (ls_addClient c p gone io s))" "ls_ok s \<Longrightarrow> ls_ok (fst (ls_addClient c p gone io s))"
proof -
  have w: "ls_stop s \<Longrightarrow> ls_inv s \<Longrightarrow> ls_inv (s\<lparr>ls_waiters := w\<rparr>)" "ls_stop s \<Longrightarrow> ls_ok s \<Longrightarrow> ls_ok (s\<lparr>ls_waiters := w\<rparr>)" for w
    by (simp_all add: ok_defs ls_ctl_def)
  show "ls_inv s \<Longrightarrow> ls_inv (fst (ls_addClient c p gone io s))" "ls_ok s \<Longrightarrow> ls_ok (fst (ls_addClient c p gone io s))"
    by (simp_all add: ls_addClient_def register_inv w)
qed

lemma addTransport_inv: "ls_inv s \<Longrightarrow> ls_inv (fst (ls_enrolTransport c io s))" "ls_ok s \<Longrightarrow> ls_ok (fst (ls_enrolTransport c io s))"
    "ls_inv s \<Longrightarrow> ls_inv (fst (ls_addTransportClient c gone io s))" "ls_ok s \<Longrightarrow> ls_ok (fst (ls_addTransportClient c gone io s))"
proof -
  have "ls_ctl (s\<lparr>ls_audioConsumers := a\<rparr>) = ls_ctl s" for a by (simp add: ls_ctl_def)
  then have a: "ls_inv (s\<lparr>ls_audioConsumers := a\<rparr>) = ls_inv s" "ls_ok (s\<lparr>ls_audioConsumers := a\<rparr>) = ls_ok s" for a by (simp_all add: ok_defs)
  have w: "ls_stop s \<Longrightarrow> ls_inv s \<Longrightarrow> ls_inv (s\<lparr>ls_waiters := w\<rparr>)" "ls_stop s \<Longrightarrow> ls_ok s \<Longrightarrow> ls_ok (s\<lparr>ls_waiters := w\<rparr>)" for w
    by (simp_all add: ok_defs ls_ctl_def)
  show e: "ls_inv s \<Longrightarrow> ls_inv (fst (ls_enrolTransport c io s))" "ls_ok s \<Longrightarrow> ls_ok (fst (ls_enrolTransport c io s))"
    unfolding ls_enrolTransport_def by (simp_all add: addClient_inv a)
  show "ls_inv s \<Longrightarrow> ls_inv (fst (ls_addTransportClient c gone io s))" "ls_ok s \<Longrightarrow> ls_ok (fst (ls_addTransportClient c gone io s))"
    by (simp_all add: ls_addTransportClient_def e w)
qed

lemma resume_inv: "ls_inv s \<Longrightarrow> ls_inv (fst (ls_resume w gone io s))" "ls_ok s \<Longrightarrow> ls_ok (fst (ls_resume w gone io s))"
proof -
  have "ls_ctl (s\<lparr>ls_resumed := r\<rparr>) = ls_ctl s" for r by (simp add: ls_ctl_def)
  then have r: "ls_inv (s\<lparr>ls_resumed := r\<rparr>) = ls_inv s" "ls_ok (s\<lparr>ls_resumed := r\<rparr>) = ls_ok s" for r by (simp_all add: ok_defs)
  show "ls_inv s \<Longrightarrow> ls_inv (fst (ls_resume w gone io s))" "ls_ok s \<Longrightarrow> ls_ok (fst (ls_resume w gone io s))"
    by (simp_all add: ls_resume_def register_inv addTransport_inv r Let_def split: waiter.split option.split)
qed

lemma closeChanged_inv: "ls_inv s \<Longrightarrow> ls_inv (fst (ls_closeChanged k s))" "ls_ok s \<Longrightarrow> ls_ok (fst (ls_closeChanged k s))"
proof -
  have "ls_inv t \<Longrightarrow> ls_inv (fst (ls_closeChangedClient k c t))" "ls_ok t \<Longrightarrow> ls_ok (fst (ls_closeChangedClient k c t))" for c t
    using inv_idle [OF idle_endClient, of t CodecChanged c]
    by (simp_all add: ls_closeChangedClient_def fst_seq_do removeClient_inv split: option.split)
  then show "ls_inv s \<Longrightarrow> ls_inv (fst (ls_closeChanged k s))" "ls_ok s \<Longrightarrow> ls_ok (fst (ls_closeChanged k s))"
    unfolding ls_closeChanged_def by (simp_all add: inv_each)
qed

lemma idle_fed: "idle_op t (case ls_seedSnapshot k b io t of (r, seeded) \<Rightarrow>
    seq_do (seq_do r (ls_forward k m chunk b io)) (\<lambda>s. (s, if seeded then [] else process_input io (ls_snapshot s) chunk)))"
proof -
  obtain r seeded where r: "ls_seedSnapshot k b io t = (r, seeded)" by (cases "ls_seedSnapshot k b io t")
  then have "idle_op t r" using idle_seedSnapshot [of t k b io] by simp
  then show ?thesis by (simp add: r) (intro idle_seq; simp add: idle idle_pure)
qed

lemma data_inv: "ls_inv s \<Longrightarrow> ls_inv (fst (ls_data chunk hint io s))" "ls_ok s \<Longrightarrow> ls_ok (fst (ls_data chunk hint io s))"
proof -
  define t where "t = s\<lparr>ls_quiet := True, ls_cache := vc_push chunk hint (ls_cache s)\<rparr>"
  define r where "r = (case (vc_bootstrap (ls_cache t), vc_codec (ls_cache t)) of (Some _, Some codec) \<Rightarrow> ls_feed codec chunk io t | _ \<Rightarrow> (t, []))"
  have t: "ls_inv t = ls_inv s" "ls_ok t = ls_ok s" by (simp_all add: t_def ok_defs ls_ctl_def)
  have f: "ls_inv s \<Longrightarrow> ls_inv (fst (ls_feed k chunk io t))" "ls_ok s \<Longrightarrow> ls_ok (fst (ls_feed k chunk io t))" for k
    unfolding ls_feed_def Let_def fst_seq_do [of "ls_closeChanged k t"]
    by (intro inv_idle [OF idle_fed] closeChanged_inv; simp add: t)+
  have r: "ls_inv s \<Longrightarrow> ls_inv (fst r)" "ls_ok s \<Longrightarrow> ls_ok (fst r)"
    by (simp_all add: r_def f t split: option.split)
  have a: "idle_op u (each_do (ls_appendRecordingChunk chunk io) xs u)" for u xs by (rule idle_each) (rule idle)
  have e: "fst (ls_data chunk hint io s) = (if \<not> ls_source s \<or> chunk = [] then s
      else fst (each_do (ls_appendRecordingChunk chunk io) (map fst (ls_recordings (fst r))) (fst r)))"
    unfolding ls_data_def Let_def t_def [symmetric] r_def [symmetric] by (simp add: fst_seq_do)
  show "ls_inv s \<Longrightarrow> ls_inv (fst (ls_data chunk hint io s))" "ls_ok s \<Longrightarrow> ls_ok (fst (ls_data chunk hint io s))"
    unfolding e using r inv_idle [OF a] by simp_all
qed

lemma viewerGone_inv: "ls_inv s \<Longrightarrow> ls_inv (fst (ls_viewerGone p s))" "ls_ok s \<Longrightarrow> ls_ok (fst (ls_viewerGone p s))"
proof -
  have "ls_ctl (s\<lparr>ls_viewer := None\<rparr>) = ls_ctl s" by (simp add: ls_ctl_def)
  then have v: "ls_inv (s\<lparr>ls_viewer := None\<rparr>) = ls_inv s" "ls_ok (s\<lparr>ls_viewer := None\<rparr>) = ls_ok s" by (simp_all add: ok_defs)
  have c: "ls_inv t \<Longrightarrow> ls_inv (fst (ls_failCompatibleClient c t))" "ls_ok t \<Longrightarrow> ls_ok (fst (ls_failCompatibleClient c t))" for c t
    unfolding ls_failCompatibleClient_def fst_seq_do by (intro removeClient_inv; simp add: ok_defs)+
  show "ls_inv s \<Longrightarrow> ls_inv (fst (ls_viewerGone p s))" "ls_ok s \<Longrightarrow> ls_ok (fst (ls_viewerGone p s))"
    unfolding ls_viewerGone_def ls_failCompatibleClients_def
    using inv_idle [OF idle_updateState] by (simp_all add: fst_seq_do inv_each c v)
qed

lemma ended_clients_ctl: "ls_ctl (fst (seq_do (each_do (ls_endClient r) (ls_clients s) s) (\<lambda>s. (s\<lparr>ls_pending := []\<rparr>, [])))) = ls_ctl s"
  by (simp add: fst_seq_do idle_ctl [OF idle_each [OF idle_endClient]])

lemma close_ctl: "ls_ctl (fst (ls_close s)) =
    (if ls_closed s then ls_ctl s
     else if ls_stop s \<or> \<not> ls_owned s
     then (ls_phase s, None, ls_starts s, if ls_start s = None then ls_awaiting s else [], ls_stop s, ls_waiters s, ls_stopTimer s,
       ls_owned s, ls_leases s, True, ls_clients s)
     else (Stopping, None, ls_starts s, if ls_start s = None then ls_awaiting s else [], True, ls_waiters s, ls_stopTimer s, True,
       ls_leases s, True, ls_clients s))"
proof (cases "ls_closed s")
  case True
  then show ?thesis by (simp add: ls_close_def)
next
  case False
  define u where "u = seq_do (seq_do (seq_do (ls_retireStart ErrClosed (s\<lparr>ls_closed := True\<rparr>)) ls_cleanupSource) (ls_failRecordings ErrClosed))
      (\<lambda>s. seq_do (each_do (ls_endClient GatewayClosed) (ls_clients s) s) (\<lambda>s. (s\<lparr>ls_pending := []\<rparr>, [])))"
  define t where "t = fst u"
  have t: "ls_ctl t = (ls_phase s, None, ls_starts s, if ls_start s = None then ls_awaiting s else [], ls_stop s, ls_waiters s, ls_stopTimer s,
       ls_owned s, ls_leases s, True, ls_clients s)"
    unfolding t_def u_def fst_seq_do [of "seq_do a b" for a b] ended_clients_ctl
    by (simp add: idle_ctl [OF idle_failRecordings] idle_ctl [OF idle_cleanupSource] fst_seq_do retire_ctl)
  then have f: "ls_phase t = ls_phase s" "ls_start t = None" "ls_starts t = ls_starts s" "ls_stop t = ls_stop s" "ls_waiters t = ls_waiters s"
    "ls_awaiting t = (if ls_start s = None then ls_awaiting s else [])" "ls_stopTimer t = ls_stopTimer s" "ls_owned t = ls_owned s"
    "ls_leases t = ls_leases s" "ls_closed t = True" "ls_clients t = ls_clients s" by (simp_all add: ls_ctl_def)
  have e: "fst (ls_close s) = (if ls_stop t \<or> ls_owned t then fst (ls_stopOwnedSource None t) else t)"
    unfolding ls_close_def if_not_P [OF False] u_def [symmetric] fst_seq_do [of u] t_def [symmetric] by simp
  show ?thesis
    by (cases "ls_stop t"; cases "ls_owned t") (use False t f in \<open>simp_all add: e stopOwnedSource_ctl\<close>)
qed

lemma ls_close_inv: "ls_inv s \<Longrightarrow> ls_inv (fst (ls_close s))" "ls_ok s \<Longrightarrow> ls_ok (fst (ls_close s))"
  unfolding ok_defs close_ctl by (cases "ls_phase s"; cases "ls_start s"; auto simp: ls_ctl_def)+

text \<open>A stop timer, a quiet deadline or a lease that ends.\<close>

lemma timer_inv: "ls_inv s \<Longrightarrow> ls_inv (fst (ls_stopOwnedSource None (s\<lparr>ls_stopTimer := False\<rparr>)))"
    "ls_ok s \<Longrightarrow> ls_ok (fst (ls_stopOwnedSource None (s\<lparr>ls_stopTimer := False\<rparr>)))"
  unfolding ok_defs stopOwnedSource_ctl by (cases "ls_phase s"; cases "ls_start s"; auto simp: ls_ctl_def)+

lemma stopNow_inv: "ls_inv s \<Longrightarrow> ls_inv (fst (ls_stopNowIfUnused s))" "ls_ok s \<Longrightarrow> ls_ok (fst (ls_stopNowIfUnused s))"
  using timer_inv by (simp_all add: ls_stopNowIfUnused_def ls_cancelStop_def)

lemma quiet_inv: "ls_inv s \<Longrightarrow> ls_inv (fst (ls_quietFired s))" "ls_ok s \<Longrightarrow> ls_ok (fst (ls_quietFired s))"
proof -
  have "ls_ctl (s\<lparr>ls_quiet := False\<rparr>) = ls_ctl s" by (simp add: ls_ctl_def)
  then have q: "ls_inv (s\<lparr>ls_quiet := False\<rparr>) = ls_inv s" "ls_ok (s\<lparr>ls_quiet := False\<rparr>) = ls_ok s" by (simp_all add: ok_defs)
  show "ls_inv s \<Longrightarrow> ls_inv (fst (ls_quietFired s))" "ls_ok s \<Longrightarrow> ls_ok (fst (ls_quietFired s))"
    unfolding ls_quietFired_def Let_def by (simp_all add: q stopOwnedSource_inv sourceEnded_inv)
qed

lemma recordClip_inv: "ls_inv s \<Longrightarrow> ls_inv (fst (ls_recordClip d m s))" "ls_ok s \<Longrightarrow> ls_ok (fst (ls_recordClip d m s))"
proof -
  have "idle_op (ls_lease s) (seq_do (ls_updateState None (ls_lease s)) (\<lambda>s. (ls_collectRecording (nat d * 1000) (nat m) s, [])))"
    by (intro idle_seq idle) (simp add: idle_pure ls_collectRecording_def ls_ctl_def)
  from leased_start_inv [OF this]
  show "ls_inv s \<Longrightarrow> ls_inv (fst (ls_recordClip d m s))" "ls_ok s \<Longrightarrow> ls_ok (fst (ls_recordClip d m s))"
    by (simp_all add: ls_recordClip_def)
qed

lemma leases_inv: "ls_inv s \<Longrightarrow> ls_inv (fst (ls_captureSnapshot s))" "ls_ok s \<Longrightarrow> ls_ok (fst (ls_captureSnapshot s))"
    "ls_inv s \<Longrightarrow> ls_inv (fst (ls_withLiveSource s))" "ls_ok s \<Longrightarrow> ls_ok (fst (ls_withLiveSource s))"
    "ls_inv s \<Longrightarrow> ls_inv (fst (ls_withActiveViewer s))" "ls_ok s \<Longrightarrow> ls_ok (fst (ls_withActiveViewer s))"
  using leased_start_inv [OF idle_updateState [of "ls_lease s" None]] inv_idle [OF idle_updateState [of "ls_lease s" None]] leased_inv [of s]
  by (simp_all add: ls_captureSnapshot_def ls_withLiveSource_def ls_withActiveViewer_def)

lemma recordEnds_inv: "ls_inv s \<Longrightarrow> ls_leases s \<noteq> 0 \<Longrightarrow> ls_inv (ls_recordClipEnds i s)"
    "ls_ok s \<Longrightarrow> ls_leases s \<noteq> 0 \<Longrightarrow> ls_ok (ls_recordClipEnds i s)"
proof -
  have "ls_ctl (ls_cancelRecording i s) = ls_ctl s" by (simp add: ls_cancelRecording_def)
  then have "ls_inv (ls_cancelRecording i s) = ls_inv s" "ls_ok (ls_cancelRecording i s) = ls_ok s" "ls_leases (ls_cancelRecording i s) = ls_leases s"
    by (simp_all add: ok_defs ls_ctl_def)
  then show "ls_inv s \<Longrightarrow> ls_leases s \<noteq> 0 \<Longrightarrow> ls_inv (ls_recordClipEnds i s)"
      "ls_ok s \<Longrightarrow> ls_leases s \<noteq> 0 \<Longrightarrow> ls_ok (ls_recordClipEnds i s)"
    by (simp_all add: ls_recordClipEnds_def release_inv)
qed

text \<open>A provider attaches a source while it starts one, or replaces the running one.\<close>

fun attaches_in_turn :: "session \<Rightarrow> stream_event \<Rightarrow> bool" where
  "attaches_in_turn s (SeAttach audio) \<longleftrightarrow> ls_phase s = Starting \<or> ls_phase s = Streaming"
| "attaches_in_turn s _ \<longleftrightarrow> True"

lemma muxer_inv: "ls_inv (s\<lparr>ls_audioConsumers := a\<rparr>) = ls_inv s" "ls_ok (s\<lparr>ls_audioConsumers := a\<rparr>) = ls_ok s"
  by (simp_all add: ok_defs ls_ctl_def)

lemmas idle_inv_rules = inv_idle [OF idle_startFailed] inv_idle [OF idle_settleRecording] inv_idle [OF idle_audioData]
  inv_idle [OF idle_failRecordings] inv_idle [OF idle_viewerOutput]

lemmas step_inv_rules = idle_inv_rules addClient_inv addTransport_inv resume_inv removeClient_inv leases_inv release_inv stopNow_inv recordClip_inv
  recordEnds_inv startSettled_inv attachSource_inv data_inv sourceEnded_inv quiet_inv timer_inv settleStop_inv markStopped_inv
  viewerGone_inv ls_close_inv

lemma mark_inv: "ls_inv (ls_markViewerClose r c s) = ls_inv s" "ls_ok (ls_markViewerClose r c s) = ls_ok s"
  by (simp_all add: ok_defs)

lemma ls_step_inv: "ls_inv s \<Longrightarrow> ls_inv (fst (ls_step s e))"
  by (cases e) (simp_all add: step_inv_rules muxer_inv mark_inv)

lemma ls_step_ok: "ls_ok s \<Longrightarrow> attaches_in_turn s e \<Longrightarrow> ls_ok (fst (ls_step s e))"
  by (cases e) (simp_all add: step_inv_rules muxer_inv mark_inv)

inductive ls_reachable :: "session \<Rightarrow> bool" where
  new: "ls_reachable ls_new"
| step: "ls_reachable s \<Longrightarrow> attaches_in_turn s e \<Longrightarrow> ls_reachable (fst (ls_step s e))"

lemma reachable_ok: "ls_reachable s \<Longrightarrow> ls_ok s"
  by (induction rule: ls_reachable.induct) (simp_all add: inv_new ls_step_ok)

interpretation lsm: invariant_machine ls_step ls_inv "\<lambda>_. True"
  by unfold_locales (rule ls_step_inv)

section \<open>Calls of the provider\<close>

definition calls :: "session \<times> stream_out list \<Rightarrow> stream_out list" where
  "calls r = filter provider_call (snd r)"

lemma calls_seq: "calls (seq_do r g) = calls r @ calls (g (fst r))"
  by (simp add: calls_def snd_seq_do)

lemma calls_pure [simp]: "calls (t, []) = []" "calls (t, SoDestroy c # outs) = calls (t, outs)" "calls (t, SoEnd c # outs) = calls (t, outs)"
    "calls (t, SoRefused e # outs) = calls (t, outs)" "calls (t, SoStop # outs) = SoStop # calls (t, outs)"
    "calls (t, SoStart n # outs) = SoStart n # calls (t, outs)" "calls (t, SoStartRejected n e # outs) = calls (t, outs)"
    "calls (t, SoStartResolved n # outs) = calls (t, outs)" "calls (t, outs @ outs') = calls (t, outs) @ calls (t, outs')"
  by (simp_all add: calls_def)

lemma calls_idle: "idle_op s r \<Longrightarrow> calls r = []"
  by (auto simp: calls_def idle_op_def list_all_iff filter_empty_conv)

lemma calls_each: "(\<And>x t. calls (g x t) = []) \<Longrightarrow> calls (each_do g xs s) = []"
  by (induction xs arbitrary: s) (simp_all add: calls_seq)

lemmas idle_call_rules = calls_idle [OF idle_startFailed] calls_idle [OF idle_settleRecording] calls_idle [OF idle_audioData]
  calls_idle [OF idle_failRecordings] calls_idle [OF idle_viewerOutput] calls_idle [OF idle_cleanupSource] calls_idle [OF idle_updateState]
  calls_idle [OF idle_join] calls_idle [OF idle_endClient] calls_idle [OF idle_emitClientSummary] calls_idle [OF idle_stopViewerTranscoder]
  calls_idle [OF idle_each [OF idle_endClient]] calls_idle [OF idle_each [OF idle_appendRecordingChunk]] calls_idle [OF idle_fed]

lemma calls_retire: "calls (ls_retireStart err s) = []"
  by (simp add: ls_retireStart_def split: option.split)

lemma calls_sourceEnded: "calls (ls_sourceEnded err s) = []"
  by (simp add: ls_sourceEnded_def ls_endClients_def calls_seq idle_call_rules calls_retire)

lemma calls_stopOwnedSource: "calls (ls_stopOwnedSource err s) = (if ls_stop s then [] else [SoStop])"
  by (simp add: ls_stopOwnedSource_def calls_seq idle_call_rules calls_retire calls_sourceEnded split: option.split)

lemma calls_settle: "calls (ls_settleStop b s) = []" "calls (ls_startSettled n b s) = []" "calls (ls_markStopped s) = []"
    "calls (ls_attachSource audio s) = []"
  by (simp_all add: ls_settleStop_def ls_startSettled_def ls_markStopped_def ls_attachSource_def ls_endClients_def calls_seq idle_call_rules
      calls_retire)

lemma calls_removeClient: "calls (ls_removeClient c s) = []"
  by (simp add: ls_removeClient_def calls_seq idle_call_rules)

definition fresh_start :: "session \<Rightarrow> bool" where
  "fresh_start s \<longleftrightarrow> \<not> ls_closed s \<and> \<not> ls_stop s \<and> \<not> (ls_phase s = Failed \<and> ls_owned s) \<and> ls_start s = None \<and>
     (ls_phase s = Idle \<or> ls_phase s = Failed)"

lemma calls_ensureStarted: "calls (fst (ls_ensureStarted s)) = (if fresh_start s then [SoStart (ls_starts s)] else [])"
  by (auto simp: ls_ensureStarted_def fresh_start_def calls_seq idle_call_rules)

lemma calls_awaitStart: "calls (ls_awaitStart c s) = (if fresh_start s then [SoStart (ls_starts s)] else [])"
  using calls_ensureStarted [of s] by (auto simp: ls_awaitStart_def calls_seq split: prod.split start_answer.split)

lemma fresh_ctl: "ls_ctl t = ls_ctl s \<Longrightarrow> fresh_start t = fresh_start s" "ls_ctl t = ls_ctl s \<Longrightarrow> ls_starts t = ls_starts s"
  by (simp_all add: ls_ctl_def fresh_start_def)

lemma started_ensureStarted: "fresh_start s \<Longrightarrow> ls_owned (fst (fst (ls_ensureStarted s))) \<and>
    ls_start (fst (fst (ls_ensureStarted s))) = Some (ls_starts s)"
  using ensureStarted_ctl [of s] by (auto simp: fresh_start_def ls_ctl_def)

lemma started_awaitStart: "fresh_start s \<Longrightarrow> ls_owned (fst (ls_awaitStart c s)) \<and> ls_start (fst (ls_awaitStart c s)) = Some (ls_starts s)"
  using awaitStart_ctl [of c s] started_ensureStarted [of s] by (simp add: ls_ctl_def Let_def)

lemma calls_register: "calls (ls_register c p io s) = (if fresh_start s then [SoStart (ls_starts s)] else [])"
    "fresh_start s \<Longrightarrow> ls_owned (fst (ls_register c p io s)) \<and> ls_start (fst (ls_register c p io s)) = Some (ls_starts s)"
proof -
  define u where "u = seq_do (ls_join c p io (ls_enrol c p s)) (ls_updateState None)"
  have "ls_ctl (fst u) = ls_ctl (ls_enrol c p s)" unfolding u_def by (rule joined_ctl)
  then have f: "fresh_start (fst u) = fresh_start s" "ls_starts (fst u) = ls_starts s"
    unfolding enrol_ctl by (auto simp: ls_ctl_def fresh_start_def)
  moreover have "calls u = []" by (simp add: u_def calls_seq idle_call_rules)
  ultimately show "calls (ls_register c p io s) = (if fresh_start s then [SoStart (ls_starts s)] else [])"
    unfolding ls_register_def u_def [symmetric] calls_seq calls_awaitStart by simp
  show "fresh_start s \<Longrightarrow> ls_owned (fst (ls_register c p io s)) \<and> ls_start (fst (ls_register c p io s)) = Some (ls_starts s)"
    unfolding ls_register_def u_def [symmetric] fst_seq_do using started_awaitStart [of "fst u"] f by simp
qed

lemma calls_refusal: "calls (refusal r) = calls (fst r)"
  by (simp add: refusal_def split: prod.split start_answer.split)

lemma calls_leased:
  assumes "idle_op (ls_lease s) r"
  shows "calls (seq_do r (\<lambda>s. refusal (ls_ensureStarted s))) = (if fresh_start s then [SoStart (ls_starts s)] else [])"
    "fresh_start s \<Longrightarrow> ls_owned (fst (seq_do r (\<lambda>s. refusal (ls_ensureStarted s)))) \<and>
      ls_start (fst (seq_do r (\<lambda>s. refusal (ls_ensureStarted s)))) = Some (ls_starts s)"
proof -
  have "ls_ctl (fst r) = ls_ctl (ls_lease s)" by (rule idle_ctl [OF assms])
  then have f: "fresh_start (fst r) = fresh_start s" "ls_starts (fst r) = ls_starts s"
    unfolding lease_ctl by (auto simp: ls_ctl_def fresh_start_def)
  show "calls (seq_do r (\<lambda>s. refusal (ls_ensureStarted s))) = (if fresh_start s then [SoStart (ls_starts s)] else [])"
    by (simp add: calls_seq calls_refusal calls_ensureStarted calls_idle [OF assms] f)
  show "fresh_start s \<Longrightarrow> ls_owned (fst (seq_do r (\<lambda>s. refusal (ls_ensureStarted s)))) \<and>
      ls_start (fst (seq_do r (\<lambda>s. refusal (ls_ensureStarted s)))) = Some (ls_starts s)"
    unfolding fst_seq_do refusal_fst using started_ensureStarted [of "fst r"] f by simp
qed

lemma calls_closeChanged: "calls (ls_closeChanged k s) = []"
proof -
  have "calls (ls_closeChangedClient k c t) = []" for c t
    by (simp add: ls_closeChangedClient_def calls_seq idle_call_rules calls_removeClient split: option.split)
  then show ?thesis unfolding ls_closeChanged_def by (rule calls_each)
qed

lemma calls_data: "calls (ls_data chunk hint io s) = []"
  by (simp add: ls_data_def ls_feed_def Let_def calls_seq idle_call_rules calls_closeChanged split: option.split)

lemma calls_viewerGone: "calls (ls_viewerGone p s) = []"
proof -
  have "calls (ls_failCompatibleClient c t) = []" for c t by (simp add: ls_failCompatibleClient_def calls_seq calls_removeClient)
  then show ?thesis by (simp add: ls_viewerGone_def ls_failCompatibleClients_def calls_seq idle_call_rules calls_each)
qed

text \<open>Every step makes at most one call: a start with a new number when nothing is owned or being stopped, or a stop when none is pending.\<close>

definition proper_call :: "session \<Rightarrow> session \<times> stream_out list \<Rightarrow> bool" where
  "proper_call s r \<longleftrightarrow> calls r = [] \<or>
     calls r = [SoStart (ls_starts s)] \<and> fresh_start s \<and> ls_owned (fst r) \<and> ls_start (fst r) = Some (ls_starts s) \<or>
     calls r = [SoStop] \<and> \<not> ls_stop s \<and> ls_stop (fst r)"

lemma stopping_after: "ls_stop (fst (ls_stopOwnedSource err s))"
  using stopOwnedSource_ctl [of err s] by (simp add: ls_ctl_def split: if_splits)

lemma proper_none: "calls r = [] \<Longrightarrow> proper_call s r"
  by (simp add: proper_call_def)

lemma proper_stop: "ls_stop t = ls_stop s \<Longrightarrow> proper_call s (ls_stopOwnedSource err t)"
  by (simp add: proper_call_def calls_stopOwnedSource stopping_after)

lemma calls_quiet: "proper_call s (ls_quietFired s)"
  by (simp add: stopping_after proper_call_def ls_quietFired_def calls_stopOwnedSource calls_sourceEnded Let_def)

lemma calls_close: "proper_call s (ls_close s)"
proof (cases "ls_closed s")
  case False
  define u where "u = seq_do (seq_do (seq_do (ls_retireStart ErrClosed (s\<lparr>ls_closed := True\<rparr>)) ls_cleanupSource) (ls_failRecordings ErrClosed))
      (\<lambda>s. seq_do (each_do (ls_endClient GatewayClosed) (ls_clients s) s) (\<lambda>s. (s\<lparr>ls_pending := []\<rparr>, [])))"
  have "calls u = []" by (simp add: u_def calls_seq idle_call_rules calls_retire)
  moreover have "ls_stop (fst u) = ls_stop s"
    by (simp add: u_def fst_seq_do idle_field_simps retire_fields)
  ultimately show ?thesis unfolding ls_close_def if_not_P [OF False] u_def [symmetric]
    by (simp add: proper_call_def calls_seq calls_stopOwnedSource fst_seq_do stopping_after)
qed (simp add: ls_close_def proper_none)

lemma calls_addClient: "proper_call s (ls_addClient c p gone io s)"
  by (simp add: proper_call_def ls_addClient_def calls_register)

lemma calls_audioConsumers: "fresh_start (s\<lparr>ls_audioConsumers := a\<rparr>) = fresh_start s" "fresh_start (s\<lparr>ls_resumed := r\<rparr>) = fresh_start s"
  by (simp_all add: fresh_start_def)

lemma calls_enrolTransport: "proper_call s (ls_enrolTransport c io s)"
  using calls_addClient [of "s\<lparr>ls_audioConsumers := set_add c (ls_audioConsumers s)\<rparr>" c Compatible False io]
  by (simp add: ls_enrolTransport_def calls_audioConsumers proper_call_def)

lemma calls_resume: "proper_call s (ls_resume w gone io s)"
proof -
  have "proper_call s (ls_enrolTransport c io (s\<lparr>ls_resumed := r\<rparr>))" for c r
    using calls_enrolTransport [of "s\<lparr>ls_resumed := r\<rparr>" c io] by (simp add: calls_audioConsumers proper_call_def)
  then show ?thesis by (simp add: ls_resume_def proper_call_def calls_register calls_audioConsumers Let_def split: waiter.split option.split)
qed

lemma calls_leases: "proper_call s (ls_captureSnapshot s)"
    "proper_call s (ls_withLiveSource s)" "proper_call s (ls_withActiveViewer s)"
    "proper_call s (ls_recordClip d m s)"
proof -
  have r: "idle_op (ls_lease s) (seq_do (ls_updateState None (ls_lease s)) (\<lambda>s. (ls_collectRecording (nat d * 1000) (nat m) s, [])))"
    by (intro idle_seq idle) (simp add: idle_pure ls_collectRecording_def ls_ctl_def)
  show "proper_call s (ls_captureSnapshot s)"
    "proper_call s (ls_withLiveSource s)" "proper_call s (ls_withActiveViewer s)"
    "proper_call s (ls_recordClip d m s)"
    using calls_leased [OF idle_updateState [of "ls_lease s" None]] calls_leased [OF r]
    by (simp_all add: proper_call_def ls_captureSnapshot_def ls_withLiveSource_def ls_withActiveViewer_def ls_recordClip_def idle_call_rules)
qed

lemma step_calls: "proper_call s (ls_step s e)"
  by (cases e)
     (simp_all add: calls_addClient calls_enrolTransport calls_resume calls_leases calls_quiet calls_close proper_stop proper_none
       calls_settle calls_removeClient calls_data calls_viewerGone calls_sourceEnded idle_call_rules
       ls_addTransportClient_def ls_stopNowIfUnused_def ls_cancelStop_def)

section \<open>What only a release ends\<close>

definition kept_stop :: "session \<Rightarrow> session \<Rightarrow> bool" where
  "kept_stop s t \<longleftrightarrow> (ls_stop s \<longrightarrow> ls_stop t)"

definition kept :: "session \<Rightarrow> session \<Rightarrow> bool" where
  "kept s t \<longleftrightarrow> kept_stop s t \<and> (ls_owned s \<longrightarrow> ls_owned t \<and> (ls_start t = ls_start s \<or> ls_start t = None))"

lemma kept_refl [simp]: "kept s s"
  by (simp add: kept_def kept_stop_def)

lemma kept_trans: "kept s t \<Longrightarrow> kept t u \<Longrightarrow> kept s u"
  by (auto simp: kept_def kept_stop_def)

lemma kept_ctl: "ls_ctl t = ls_ctl s \<Longrightarrow> kept s t"
  by (simp add: kept_def kept_stop_def ls_ctl_def)

lemma kept_idle: "idle_op s r \<Longrightarrow> kept s (fst r)"
  by (rule kept_ctl [OF idle_ctl])

lemma kept_each: "(\<And>x t. kept t (fst (g x t))) \<Longrightarrow> kept s (fst (each_do g xs s))"
  by (induction xs arbitrary: s) (auto simp: fst_seq_do intro: kept_trans)

lemma kept_stopOwnedSource: "kept s (fst (ls_stopOwnedSource err s))"
  using stopOwnedSource_ctl [of err s] by (auto simp: kept_def kept_stop_def ls_ctl_def split: if_splits)

lemma kept_sourceEnded: "kept_stop s (fst (ls_sourceEnded err s))" "\<not> ls_owned s \<Longrightarrow> kept s (fst (ls_sourceEnded err s))"
  using sourceEnded_ctl [of err s] by (auto simp: kept_def kept_stop_def ls_ctl_def split: if_splits)

lemma kept_markStopped: "kept_stop s (fst (ls_markStopped s))"
  using markStopped_ctl [of s] by (simp add: kept_stop_def ls_ctl_def)

lemma kept_startSettled: "kept_stop s (fst (ls_startSettled n b s))"
    "\<not> (ls_start s = Some n \<and> \<not> b) \<Longrightarrow> kept s (fst (ls_startSettled n b s))"
  using startSettled_ctl [of n b s] by (auto simp: kept_def kept_stop_def ls_ctl_def split: if_splits)

lemma kept_settleStop: "ls_owned s \<Longrightarrow> ls_owned (fst (ls_settleStop False s)) \<and> ls_start (fst (ls_settleStop False s)) = ls_start s"
  using settleStop_ctl [of False s] by (auto simp: ls_ctl_def split: if_splits)

lemma kept_attach: "kept s (fst (ls_attachSource audio s))"
  using attachSource_ctl [of audio s] by (simp add: kept_def kept_stop_def ls_ctl_def)

lemma kept_removeClient: "kept s (fst (ls_removeClient c s))"
  using removeClient_ctl [of c s] by (simp add: kept_def kept_stop_def ls_ctl_def)

lemma kept_release: "kept s (ls_release s)"
  using release_ctl [of s] by (simp add: kept_def kept_stop_def ls_ctl_def)

lemma owned_not_fresh: "ls_inv s \<Longrightarrow> ls_owned s \<Longrightarrow> \<not> fresh_start s"
  by (auto simp: ls_inv_def ls_ctl_def fresh_start_def)

lemma kept_ensureStarted: "ls_inv s \<Longrightarrow> kept s (fst (fst (ls_ensureStarted s)))"
  using ensureStarted_ctl [of s] owned_not_fresh [of s]
  by (auto simp: kept_def kept_stop_def ls_ctl_def fresh_start_def split: if_splits)

lemma kept_awaitStart: "ls_inv s \<Longrightarrow> kept s (fst (ls_awaitStart c s))"
  using awaitStart_ctl [of c s] kept_ensureStarted [of s] by (simp add: kept_def kept_stop_def ls_ctl_def Let_def)

lemma kept_enrol: "kept s (ls_enrol c p s)" "kept s (ls_lease s)"
  using enrol_ctl [of c p s] lease_ctl [of s] by (simp_all add: kept_def kept_stop_def ls_ctl_def)

lemma kept_register: "ls_inv s \<Longrightarrow> kept s (fst (ls_register c p io s))"
proof -
  assume i: "ls_inv s"
  define t where "t = fst (seq_do (ls_join c p io (ls_enrol c p s)) (ls_updateState None))"
  have t: "ls_ctl t = ls_ctl (ls_enrol c p s)" unfolding t_def by (rule joined_ctl)
  then have "kept s t" "ls_inv t" using kept_enrol(1) kept_ctl [OF t] kept_trans enrol_inv(1) [OF i] by (blast, simp add: ls_inv_def)
  then show ?thesis using kept_awaitStart [of t c] kept_trans
    by (simp add: ls_register_def fst_seq_do [of "seq_do a b" for a b] t_def [symmetric])
qed

lemma kept_leased:
  assumes "idle_op (ls_lease s) r" "ls_inv s"
  shows "kept s (fst (seq_do r (\<lambda>s. refusal (ls_ensureStarted s))))"
proof -
  have "ls_inv (fst r)" by (rule inv_idle(1) [OF assms(1) leased_inv(1) [OF assms(2)]])
  then have "kept (fst r) (fst (fst (ls_ensureStarted (fst r))))" by (rule kept_ensureStarted)
  then show ?thesis unfolding fst_seq_do refusal_fst using kept_idle [OF assms(1)] kept_enrol(2) kept_trans by blast
qed

lemma kept_waiters: "kept s (s\<lparr>ls_waiters := w\<rparr>)"
  by (simp add: kept_def kept_stop_def)

lemma kept_addClient: "ls_inv s \<Longrightarrow> kept s (fst (ls_addClient c p gone io s))"
  by (simp add: ls_addClient_def kept_register kept_waiters)

lemma kept_enrolTransport: "ls_inv s \<Longrightarrow> kept s (fst (ls_enrolTransport c io s))"
  using kept_addClient [of "s\<lparr>ls_audioConsumers := set_add c (ls_audioConsumers s)\<rparr>" c Compatible False io]
  by (simp add: ls_enrolTransport_def muxer_inv kept_def kept_stop_def)

lemma kept_addTransport: "ls_inv s \<Longrightarrow> kept s (fst (ls_addTransportClient c gone io s))"
  by (simp add: ls_addTransportClient_def kept_enrolTransport kept_waiters)

lemma kept_resume: "ls_inv s \<Longrightarrow> kept s (fst (ls_resume w gone io s))"
proof -
  assume i: "ls_inv s"
  have "ls_ctl (s\<lparr>ls_resumed := r\<rparr>) = ls_ctl s" for r by (simp add: ls_ctl_def)
  then have r: "kept s (s\<lparr>ls_resumed := r\<rparr>)" "ls_inv (s\<lparr>ls_resumed := r\<rparr>)" for r using i by (simp_all add: kept_ctl ls_inv_def)
  have "kept s (fst (ls_enrolTransport c io (s\<lparr>ls_resumed := r\<rparr>)))" "kept s (fst (ls_register c p io (s\<lparr>ls_resumed := r\<rparr>)))" for c p r
    using kept_trans [OF r(1) kept_enrolTransport [OF r(2)]] kept_trans [OF r(1) kept_register [OF r(2)]] by blast+
  then show ?thesis by (simp add: ls_resume_def r Let_def split: waiter.split option.split)
qed

lemma kept_leases: assumes "ls_inv s"
  shows "kept s (fst (ls_captureSnapshot s))" "kept s (fst (ls_withLiveSource s))" "kept s (fst (ls_withActiveViewer s))"
    "kept s (fst (ls_recordClip d m s))"
proof -
  have r: "idle_op (ls_lease s) (seq_do (ls_updateState None (ls_lease s)) (\<lambda>s. (ls_collectRecording (nat d * 1000) (nat m) s, [])))"
    by (intro idle_seq idle) (simp add: idle_pure ls_collectRecording_def ls_ctl_def)
  show "kept s (fst (ls_captureSnapshot s))" "kept s (fst (ls_withLiveSource s))" "kept s (fst (ls_withActiveViewer s))"
    "kept s (fst (ls_recordClip d m s))"
    using kept_leased [OF idle_updateState [of "ls_lease s" None] assms] kept_leased [OF r assms]
      kept_trans [OF kept_enrol(2) kept_idle [OF idle_updateState [of "ls_lease s" None]]] kept_enrol(2) [of s]
    by (simp_all add: ls_captureSnapshot_def ls_withLiveSource_def ls_withActiveViewer_def ls_recordClip_def)
qed

lemma kept_closeChanged: "kept s (fst (ls_closeChanged k s))"
proof -
  have "kept t (fst (ls_closeChangedClient k c t))" for c t
    using kept_trans [OF kept_idle [OF idle_endClient] kept_removeClient]
    by (simp add: ls_closeChangedClient_def fst_seq_do split: option.split)
  then show ?thesis unfolding ls_closeChanged_def by (rule kept_each)
qed

lemma kept_data: "kept s (fst (ls_data chunk hint io s))"
proof -
  define t where "t = s\<lparr>ls_quiet := True, ls_cache := vc_push chunk hint (ls_cache s)\<rparr>"
  define r where "r = (case (vc_bootstrap (ls_cache t), vc_codec (ls_cache t)) of (Some _, Some codec) \<Rightarrow> ls_feed codec chunk io t | _ \<Rightarrow> (t, []))"
  have t: "kept s t" by (rule kept_ctl) (simp add: t_def ls_ctl_def)
  have "kept t (fst (ls_feed k chunk io t))" for k
    unfolding ls_feed_def Let_def fst_seq_do [of "ls_closeChanged k t"]
    by (rule kept_trans [OF kept_closeChanged kept_idle [OF idle_fed]])
  then have r: "kept s (fst r)" using t kept_trans [OF t] by (simp add: r_def split: option.split)
  have e: "fst (ls_data chunk hint io s) = (if \<not> ls_source s \<or> chunk = [] then s
      else fst (each_do (ls_appendRecordingChunk chunk io) (map fst (ls_recordings (fst r))) (fst r)))"
    unfolding ls_data_def Let_def t_def [symmetric] r_def [symmetric] by (simp add: fst_seq_do)
  have "kept u (fst (each_do (ls_appendRecordingChunk chunk io) xs u))" for u xs by (intro kept_each kept_idle idle)
  then show ?thesis unfolding e using kept_trans [OF r] by simp
qed

lemma kept_viewerGone: "kept s (fst (ls_viewerGone p s))"
proof -
  have c: "kept t (fst (ls_failCompatibleClient c t))" for c t
    unfolding ls_failCompatibleClient_def fst_seq_do using kept_trans [OF kept_ctl [OF ctl_mark] kept_removeClient] by simp
  have v: "kept s (s\<lparr>ls_viewer := None\<rparr>)" by (rule kept_ctl) (simp add: ls_ctl_def)
  have "kept u (fst (ls_updateState err (fst (each_do ls_failCompatibleClient xs u))))" for u xs err
    by (rule kept_trans [OF kept_each kept_idle [OF idle_updateState]]) (rule c)
  then show ?thesis unfolding ls_viewerGone_def ls_failCompatibleClients_def using kept_trans [OF v] by (simp add: fst_seq_do)
qed

lemma kept_close: "kept s (fst (ls_close s))"
  using close_ctl [of s] by (auto simp: kept_def kept_stop_def ls_ctl_def split: if_splits)

lemma kept_timer: "kept s (fst (ls_stopOwnedSource None (s\<lparr>ls_stopTimer := False\<rparr>)))"
  using kept_stopOwnedSource [of "s\<lparr>ls_stopTimer := False\<rparr>" None] by (simp add: kept_def kept_stop_def)

lemma kept_quiet: "kept s (fst (ls_quietFired s))"
  using kept_stopOwnedSource [of "s\<lparr>ls_quiet := False\<rparr>" "Some ErrQuiet"] kept_sourceEnded(2) [of "s\<lparr>ls_quiet := False\<rparr>" "Some ErrQuiet"]
  by (auto simp: ls_quietFired_def kept_def kept_stop_def Let_def)

lemma kept_simple: "kept s (s\<lparr>ls_audioConsumers := a\<rparr>)" "kept s (ls_recordClipEnds i s)"
    "kept s (fst (ls_removeClient c (ls_markViewerClose r c s)))"
proof -
  show "kept s (s\<lparr>ls_audioConsumers := a\<rparr>)" by (rule kept_ctl) (simp add: ls_ctl_def)
  have "kept s (ls_cancelRecording i s)" by (rule kept_ctl) (simp add: ls_cancelRecording_def)
  then show "kept s (ls_recordClipEnds i s)" unfolding ls_recordClipEnds_def by (rule kept_trans [OF _ kept_release])
  show "kept s (fst (ls_removeClient c (ls_markViewerClose r c s)))" by (rule kept_trans [OF kept_ctl [OF ctl_mark] kept_removeClient])
qed

text \<open>The events that end the ownership of the source of start \<open>n\<close>: the start fails, a stop is confirmed, the source ends, or the
  provider reports it stopped.\<close>

fun releases :: "nat \<Rightarrow> stream_event \<Rightarrow> bool" where
  "releases n (SeStartDone m succeeded) \<longleftrightarrow> m = n \<and> \<not> succeeded"
| "releases n (SeStopSettled stopped) \<longleftrightarrow> stopped"
| "releases n (SeSourceEnded failed) \<longleftrightarrow> True"
| "releases n SeMarkStopped \<longleftrightarrow> True"
| "releases n _ \<longleftrightarrow> False"

fun settles_stop :: "stream_event \<Rightarrow> bool" where
  "settles_stop (SeStopSettled stopped) \<longleftrightarrow> True"
| "settles_stop _ \<longleftrightarrow> False"

lemmas kept_rules = kept_addClient kept_addTransport kept_resume kept_removeClient kept_leases kept_release kept_data kept_viewerGone kept_close
  kept_timer kept_quiet kept_simple kept_attach kept_stopOwnedSource kept_idle [OF idle_startFailed] kept_idle [OF idle_settleRecording]
  kept_idle [OF idle_audioData] kept_idle [OF idle_failRecordings] kept_idle [OF idle_viewerOutput]

lemma step_kept: "ls_inv s \<Longrightarrow> \<not> releases n e \<Longrightarrow> \<not> settles_stop e \<Longrightarrow> ls_start s = None \<or> ls_start s = Some n \<Longrightarrow> kept s (fst (ls_step s e))"
  by (cases e) (auto simp: kept_rules kept_startSettled ls_stopNowIfUnused_def ls_cancelStop_def)

lemma step_keeps_stop: "ls_inv s \<Longrightarrow> \<not> settles_stop e \<Longrightarrow> kept_stop s (fst (ls_step s e))"
proof -
  assume i: "ls_inv s" "\<not> settles_stop e"
  have k: "kept s t \<Longrightarrow> kept_stop s t" for t by (simp add: kept_def)
  show ?thesis
    using kept_rules [THEN k] kept_startSettled(1) kept_markStopped kept_sourceEnded(1) i
    by (cases e) (auto simp: ls_stopNowIfUnused_def ls_cancelStop_def kept_stop_def)
qed

section \<open>One source at a time\<close>

lemma run_inv_new: "ls_inv (run_state ls_step ls_new es)"
  using lsm.run_inv [of ls_new es] inv_new by (simp add: ls_ok_def)

lemma held_until_release:
  "\<lbrakk>ls_inv s; ls_owned s; ls_start s = None \<or> ls_start s = Some n; \<forall>e\<in>set es. \<not> releases n e\<rbrakk> \<Longrightarrow>
   ls_owned (run_state ls_step s es) \<and> (ls_start (run_state ls_step s es) = None \<or> ls_start (run_state ls_step s es) = Some n)"
proof (induction es arbitrary: s)
  case (Cons e es)
  have e: "\<not> releases n e" using Cons.prems by simp
  have "ls_owned (fst (ls_step s e)) \<and> (ls_start (fst (ls_step s e)) = None \<or> ls_start (fst (ls_step s e)) = Some n)"
  proof (cases "settles_stop e")
    case True
    then have "e = SeStopSettled False" using e by (cases e) auto
    then show ?thesis using kept_settleStop [of s] Cons.prems by simp
  next
    case False
    then show ?thesis using step_kept [OF Cons.prems(1) e False Cons.prems(3)] Cons.prems by (auto simp: kept_def)
  qed
  then show ?case using Cons.IH [OF ls_step_inv [OF Cons.prems(1)]] Cons.prems by (simp add: run_state_Cons del: run.simps)
qed simp

lemma stopping_until_settled:
  "\<lbrakk>ls_inv s; ls_stop s; \<forall>e\<in>set es. \<not> settles_stop e\<rbrakk> \<Longrightarrow> ls_stop (run_state ls_step s es)"
proof (induction es arbitrary: s)
  case (Cons e es)
  then have "ls_stop (fst (ls_step s e))" using step_keeps_stop [of s e] by (simp add: kept_stop_def)
  then show ?case using Cons.IH [OF ls_step_inv [OF Cons.prems(1)]] Cons.prems by (simp add: run_state_Cons del: run.simps)
qed simp

lemma in_calls: "provider_call x \<Longrightarrow> x \<in> set (snd r) \<longleftrightarrow> x \<in> set (calls r)"
  by (auto simp: calls_def)

lemma start_call:
  assumes "SoStart n \<in> set (snd (ls_step s e))"
  shows "fresh_start s" "n = ls_starts s" "ls_owned (fst (ls_step s e))" "ls_start (fst (ls_step s e)) = Some n"
  using step_calls [of s e] assms in_calls [of "SoStart n" "ls_step s e"] by (auto simp: proper_call_def)

lemma stop_call: "SoStop \<in> set (snd (ls_step s e)) \<Longrightarrow> ls_stop (fst (ls_step s e))"
  using step_calls [of s e] in_calls [of SoStop "ls_step s e"] by (auto simp: proper_call_def)

text \<open>C2: one source at a time. Take any history of a camera's session in which the provider is asked to start a source, whatever
  the viewers, leases, timers and provider callbacks did before. If it had been asked to start one before, that start had
  failed, or its stop had been confirmed, or its source had ended or been reported stopped, in between; and if it had been
  asked to stop one before, that stop had settled in between.\<close>

theorem one_source_at_a_time:
  assumes "SoStart m \<in> set (snd (ls_step (run_state ls_step ls_new (es @ e # fs)) f))"
  shows "(SoStart n \<in> set (snd (ls_step (run_state ls_step ls_new es) e)) \<longrightarrow> (\<exists>g\<in>set fs. releases n g)) \<and>
    (SoStop \<in> set (snd (ls_step (run_state ls_step ls_new es) e)) \<longrightarrow> (\<exists>g\<in>set fs. settles_stop g))"
proof -
  define s where "s = run_state ls_step ls_new es"
  define t where "t = fst (ls_step s e)"
  have i: "ls_inv t" "ls_inv (run_state ls_step t fs)"
    using ls_step_inv [OF run_inv_new] lsm.run_inv by (simp_all add: s_def t_def)
  have u: "run_state ls_step ls_new (es @ e # fs) = run_state ls_step t fs"
    by (simp add: run_append run_state_Cons s_def t_def del: run.simps)
  note f = start_call(1) [OF assms, unfolded u]
  have "\<exists>g\<in>set fs. releases n g" if "SoStart n \<in> set (snd (ls_step s e))"
    using held_until_release [OF i(1), of n fs] start_call(3, 4) [OF that] owned_not_fresh [OF i(2)] f by (auto simp: t_def)
  moreover have "\<exists>g\<in>set fs. settles_stop g" if "SoStop \<in> set (snd (ls_step s e))"
    using stopping_until_settled [OF i(1), of fs] stop_call [OF that] f by (auto simp: t_def fresh_start_def)
  ultimately show ?thesis by (simp add: s_def)
qed

text \<open>A viewer comes, its source ends, another comes.\<close>

definition sample_io :: stream_io where
  "sample_io = \<lparr> io_queued = (\<lambda>_. 0), io_writable = (\<lambda>_. True), io_now = 0 \<rparr>"

definition sample_delivery :: viewer_delivery where
  "sample_delivery = \<lparr> dl_closeReason = None, dl_sourceAttached = True, dl_profile = Native, dl_startedCodec = None,
     dl_deliveryStarted = False, dl_bytes = 0, dl_chunks = 0 \<rparr>"

definition sample_starting :: session where
  "sample_starting = ls_new\<lparr>ls_clients := [7], ls_pending := [7], ls_deliveries := [(7, sample_delivery\<lparr>dl_sourceAttached := False\<rparr>)],
     ls_phase := Starting, ls_start := Some 0, ls_starts := 1, ls_awaiting := [7], ls_owned := True\<rparr>"

definition sample_streaming :: session where
  "sample_streaming = sample_starting\<lparr>ls_deliveries := [(7, sample_delivery)], ls_phase := Streaming, ls_source := True\<rparr>"

definition sample_ended :: session where
  "sample_ended = sample_streaming\<lparr>ls_clients := [], ls_pending := [], ls_phase := Idle, ls_start := None, ls_awaiting := [],
     ls_failing := [7], ls_source := False, ls_owned := False,
     ls_deliveries := [(7, sample_delivery\<lparr>dl_closeReason := Some SourceEnded\<rparr>)]\<rparr>"

definition sample_idle :: session where
  "sample_idle = sample_streaming\<lparr>ls_clients := [], ls_pending := [], ls_deliveries := [], ls_stopTimer := True\<rparr>"

lemma sample_steps:
  "fst (ls_step ls_new (SeAdd 7 Native False sample_io)) = sample_starting"
  "fst (ls_step sample_starting (SeAttach False)) = sample_streaming"
  "fst (ls_step sample_streaming (SeSourceEnded False)) = sample_ended"
  "fst (ls_step sample_streaming (SeClientClosed 7)) = sample_idle"
  by code_simp+

lemma sample_restart: "SoStart 1 \<in> set (snd (ls_step sample_ended (SeAdd 8 Native False sample_io)))"
  by code_simp

lemma one_source_at_a_time_witness: "\<exists>g\<in>set [SeAttach False, SeSourceEnded False]. releases 0 g"
proof -
  have again: "SoStart 1 \<in> set (snd (ls_step (run_state ls_step ls_new ([] @ SeAdd 7 Native False sample_io # [SeAttach False, SeSourceEnded False]))
      (SeAdd 8 Native False sample_io)))"
    unfolding append_Nil run_state_Cons sample_steps run.simps(1) fst_conv by (rule sample_restart)
  have first: "SoStart 0 \<in> set (snd (ls_step (run_state ls_step ls_new []) (SeAdd 7 Native False sample_io)))"
    by code_simp
  show ?thesis using one_source_at_a_time [OF again, of 0] first by blast
qed

section \<open>Nothing leaks, nobody waits for nothing\<close>

text \<open>C3: as long as the provider attaches sources while it starts or runs them, the idle stop neither leaks a source nor hits one in use. In every
  reachable state the idle timer can only stop a source that no viewer and no lease uses; and an owned source that nobody
  uses has its idle timer armed, or its stop under way, or its stop failed, until the gateway closes.\<close>

theorem idle_source_retires:
  assumes "ls_reachable s"
  shows "(SoStop \<in> set (snd (ls_step s SeStopTimer)) \<longrightarrow> ls_clients s = [] \<and> ls_leases s = 0) \<and>
    (ls_owned s \<and> ls_clients s = [] \<and> ls_leases s = 0 \<and> \<not> ls_closed s \<longrightarrow> ls_stopTimer s \<or> ls_stop s \<or> ls_phase s = Failed)"
proof -
  have "ls_stopTimer s" if "SoStop \<in> set (snd (ls_step s SeStopTimer))" using that by (simp split: if_splits)
  moreover have "ls_stopTimer s \<longrightarrow> ls_clients s = [] \<and> ls_leases s = 0"
    "ls_owned s \<and> ls_clients s = [] \<and> ls_leases s = 0 \<and> \<not> ls_closed s \<longrightarrow> ls_stopTimer s \<or> ls_stop s \<or> ls_phase s = Failed"
    using reachable_ok [OF assms] unfolding ls_ok_def ls_inv_def ls_retiring_def ls_ctl_def ctl_inv.simps ctl_retiring.simps by blast+
  ultimately show ?thesis by blast
qed

lemma sample_idle_reachable: "ls_reachable sample_idle"
proof -
  have "ls_reachable sample_starting" using ls_reachable.step [OF ls_reachable.new, of "SeAdd 7 Native False sample_io"] by (simp add: sample_steps(1) del: ls_step.simps)
  then have "ls_reachable sample_streaming"
    using ls_reachable.step [of sample_starting "SeAttach False", unfolded sample_steps] by (simp add: sample_starting_def)
  then show ?thesis using ls_reachable.step [of sample_streaming "SeClientClosed 7"] by (simp add: sample_steps(4) del: ls_step.simps)
qed

lemma sample_idle_stops: "SoStop \<in> set (snd (ls_step sample_idle SeStopTimer)) \<and> ls_owned sample_idle \<and> \<not> ls_stop sample_idle \<and>
    ls_phase sample_idle = Streaming"
  by (simp add: sample_idle_def sample_streaming_def sample_starting_def ls_new_def ls_stopOwnedSource_def ls_retireStart_def
      ls_updateState_def seq_do_def)

lemma idle_source_retires_witness:
  "SoStop \<in> set (snd (ls_step sample_idle SeStopTimer)) \<and> ls_clients sample_idle = [] \<and> ls_leases sample_idle = 0 \<and>
   (ls_stopTimer sample_idle \<or> ls_stop sample_idle \<or> ls_phase sample_idle = Failed)"
proof -
  have "ls_owned sample_idle" "\<not> ls_closed sample_idle" by code_simp+
  then show ?thesis using idle_source_retires [OF sample_idle_reachable] sample_idle_stops by blast
qed

end
