(* ===== verification/Stream_Delivery.thy ===== *)
theory Stream_Delivery
  imports Stream_Session
begin

text \<open>
  What a viewer of the camera's own stream is sent by the session of \<open>Stream_Session\<close>: the bytes written to it are followed
  beside the chunks the source has delivered since it was attached. Sections: parameter sets once
  complete stay complete, what a viewer's other events leave alone, and the bytes of a native viewer.
\<close>

section \<open>Complete parameter sets stay complete\<close>

lemma nal_keeps_bootstrap:
  assumes "vc_bootstrap c \<noteq> None"
  shows "vc_bootstrap (vc_nal header nal c) \<noteq> None"
proof (cases "vc_codec c")
  case None
  then show ?thesis using assms by (simp add: vc_bootstrap_def)
next
  case (Some k)
  show ?thesis
  proof (cases k)
    case H264
    then have b: "vc_sps c \<noteq> None" "vc_pps c \<noteq> None" using assms Some by (auto simp: vc_bootstrap_def join3_def split: option.splits)
    then have "vc_bootstrap (accept_h264 t nal c) \<noteq> None" "vc_bootstrap (alternate_h265 t nal c) \<noteq> None" for t
      using Some H264 by (auto simp: accept_h264_def alternate_h265_def vc_selectCodec_def vc_bootstrap_def join3_def both_def Let_def)
    then show ?thesis using Some H264 assms by (simp add: vc_nal_def Let_def)
  next
    case H265
    then have b: "vc_vps c \<noteq> None" "vc_sps c \<noteq> None" "vc_pps c \<noteq> None"
      using assms Some by (auto simp: vc_bootstrap_def join3_def split: option.splits)
    then have "vc_bootstrap (accept_h265 t nal c) \<noteq> None" "vc_bootstrap (alternate_h264 t nal c) \<noteq> None" for t
      using Some H265 by (auto simp: accept_h265_def alternate_h264_def vc_selectCodec_def vc_bootstrap_def join3_def both_def Let_def)
    then show ?thesis using Some H265 assms by (simp add: vc_nal_def Let_def)
  qed
qed

lemma capture_keeps_bootstrap: "vc_bootstrap (vc_capturePictureHeaders data p base c) = vc_bootstrap c"
proof -
  have "vc_bootstrap (c\<lparr>vc_pictureHeadersPayloadOffset := x, vc_pictureHeaders := y\<rparr>) = vc_bootstrap c" for x y
    by (simp add: vc_bootstrap_def split: option.split video_codec.split)
  then show ?thesis by (simp add: vc_capturePictureHeaders_def split: option.split)
qed

lemma pending_keeps_bootstrap: "vc_bootstrap (c\<lparr>vc_pending := p\<rparr>) = vc_bootstrap c"
  by (simp add: vc_bootstrap_def split: option.split video_codec.split)

lemma nals_keep_bootstrap: "vc_bootstrap c \<noteq> None \<Longrightarrow> vc_bootstrap (vc_nals data base starts c) \<noteq> None"
  by (induction data base starts c rule: vc_nals.induct) (simp_all add: nal_keeps_bootstrap capture_keeps_bootstrap pending_keeps_bootstrap)

lemma scan_keeps_bootstrap: "vc_bootstrap c \<noteq> None \<Longrightarrow> vc_bootstrap (vc_scanParameterSets chunk c) \<noteq> None"
  unfolding vc_scanParameterSets_def Let_def
  by (simp add: pending_keeps_bootstrap nals_keep_bootstrap capture_keeps_bootstrap del: not_None_eq split: list.split)

lemma limit_keeps_bootstrap: "vc_bootstrap (vc_limit (vc_retain scan chunk found c)) = vc_bootstrap c"
  by (simp add: vc_limit_def vc_retain_def vc_bootstrap_def split: option.split prod.split video_codec.split)

lemma push_keeps_bootstrap:
  assumes "vc_bootstrap c0 \<noteq> None"
  shows "vc_bootstrap (vc_push chunk declared c0) \<noteq> None"
proof -
  define c where "c = vc_scanParameterSets chunk (vc_declare declared c0)"
  have "vc_declare declared c0 = c0" using assms by (auto simp: vc_declare_def split: option.split)
  then have b: "vc_bootstrap c \<noteq> None" unfolding c_def using scan_keeps_bootstrap [OF assms] by simp
  define window where "window = vc_scanTail c @ chunk"
  define c1 where "c1 = c\<lparr>vc_receivedBytes := vc_receivedBytes c + int (length chunk),
                vc_scanTail := drop (length window - RANDOM_ACCESS_SCAN_OVERLAP) window, vc_unidentifiedChunks := [], vc_unidentifiedBytes := 0\<rparr>"
  have b1: "vc_bootstrap c1 \<noteq> None" using b by (simp add: c1_def vc_bootstrap_def split: option.splits video_codec.splits)
  obtain k where k: "vc_codec c = Some k" using b by (auto simp: vc_bootstrap_def split: option.splits)
  define scan where "scan = (if vc_codec c0 = None \<and> vc_unidentifiedBytes c > 0 then concat (vc_unidentifiedChunks c) @ chunk else window)"
  define base where "base = (if vc_codec c0 = None \<and> vc_unidentifiedBytes c > 0 then vc_receivedBytes c + int (length chunk) - int (length scan)
      else vc_receivedBytes c - int (length (vc_scanTail c)))"
  obtain c3 found where f: "foldl (picture_step k scan base) (c1, None) (annexBStarts scan) = (c3, found)"
    by (cases "foldl (picture_step k scan base) (c1, None) (annexBStarts scan)")
  have "counted c1 c3"
    using pictures_keep [OF _ counted_refl, of "annexBStarts scan" scan k None, OF _ _ f] annexBStarts_sound by auto
  then have "vc_bootstrap c3 \<noteq> None" using b1 counted_ok(3) by simp
  moreover have "vc_push chunk declared c0 = vc_limit (vc_retain scan chunk found c3)"
    unfolding vc_push_def Let_def c_def [symmetric] window_def [symmetric]
    using k f by (simp add: c1_def scan_def base_def cong: if_cong)
  ultimately show ?thesis by (simp add: limit_keeps_bootstrap)
qed

lemma pushes_append: "vc_pushes (es @ [e]) = vc_push (fst e) (snd e) (vc_pushes es)"
  by (simp add: vc_pushes_def)

section \<open>One viewer among the others\<close>

definition sent_to :: "nat \<Rightarrow> stream_out list \<Rightarrow> bytes" where
  "sent_to c outs = concat (map (\<lambda>x. case x of SoWrite d b \<Rightarrow> if d = c then b else [] | _ \<Rightarrow> []) outs)"

lemma sent_to_simps [simp]: "sent_to c [] = []" "sent_to c (xs @ ys) = sent_to c xs @ sent_to c ys"
    "sent_to c (SoWrite d b # xs) = (if d = c then b else []) @ sent_to c xs"
  by (simp_all add: sent_to_def)

fun is_write :: "stream_out \<Rightarrow> bool" where
  "is_write (SoWrite c b) = True"
| "is_write _ = False"

lemma sent_to_other [simp]: "\<not> is_write x \<Longrightarrow> sent_to c (x # xs) = sent_to c xs"
  by (cases x) (simp_all add: sent_to_def)

text \<open>What a session knows of a viewer's place in the stream.\<close>

definition ls_place where
  "ls_place c s = (c \<in> set (ls_pending s), map_option (\<lambda>d. (dl_profile d, dl_startedCodec d)) (map_of (ls_deliveries s) c))"

definition follows :: "nat \<Rightarrow> session \<Rightarrow> bool" where
  "follows c s \<longleftrightarrow> ls_source s \<and> c \<in> set (ls_clients s) \<and> ls_profiled Native c s"

definition ls_wf :: "session \<Rightarrow> bool" where
  "ls_wf s \<longleftrightarrow> distinct (ls_clients s) \<and> distinct (ls_pending s) \<and> set (ls_pending s) \<subseteq> set (ls_clients s)"

text \<open>An operation that sends the native viewer \<open>c\<close> nothing and leaves its place alone, unless it ends for it.\<close>

definition aside :: "nat \<Rightarrow> session \<Rightarrow> session \<times> stream_out list \<Rightarrow> bool" where
  "aside c s r \<longleftrightarrow> (ls_wf s \<longrightarrow> ls_wf (fst r) \<and> ls_cache (fst r) = ls_cache s \<and>
     (follows c (fst r) \<longrightarrow> follows c s \<and> ls_place c (fst r) = ls_place c s \<and> sent_to c (snd r) = []))"

lemma aside_refl [simp]: "aside c s (s, [])"
  by (simp add: aside_def)

lemma aside_seq: "aside c s r \<Longrightarrow> (\<And>t. aside c t (g t)) \<Longrightarrow> aside c s (seq_do r g)"
proof -
  assume a: "aside c s r" "\<And>t. aside c t (g t)"
  have b: "aside c (fst r) (g (fst r))" by (rule a(2))
  show ?thesis using a(1) b unfolding aside_def fst_seq_do snd_seq_do sent_to_simps(2) by (intro conjI impI) simp_all
qed

lemma aside_each: "(\<And>x t. aside c t (g x t)) \<Longrightarrow> aside c s (each_do g xs s)"
  by (induction xs arbitrary: s) (auto intro: aside_seq)

text \<open>Operations outside the viewers' fields.\<close>

definition outside :: "session \<Rightarrow> session \<times> stream_out list \<Rightarrow> bool" where
  "outside s r \<longleftrightarrow> ls_clients (fst r) = ls_clients s \<and> ls_pending (fst r) = ls_pending s \<and> ls_deliveries (fst r) = ls_deliveries s \<and>
     ls_cache (fst r) = ls_cache s \<and> (ls_source (fst r) \<longrightarrow> ls_source s) \<and> list_all (\<lambda>x. \<not> is_write x) (snd r)"

lemma sent_none: "list_all (\<lambda>x. \<not> is_write x) xs \<Longrightarrow> sent_to c xs = []"
  by (induction xs) auto

lemma outside_aside: "outside s r \<Longrightarrow> aside c s r"
proof -
  assume o: "outside s r"
  then have f: "ls_clients (fst r) = ls_clients s" "ls_pending (fst r) = ls_pending s" "ls_deliveries (fst r) = ls_deliveries s"
    "ls_cache (fst r) = ls_cache s" "ls_source (fst r) \<Longrightarrow> ls_source s" "sent_to c (snd r) = []" by (simp_all add: outside_def sent_none)
  then show ?thesis unfolding aside_def follows_def ls_place_def ls_wf_def ls_profiled_def f(1-4) by simp
qed

lemma outside_seq: "outside s r \<Longrightarrow> (\<And>t. outside t (g t)) \<Longrightarrow> outside s (seq_do r g)"
  by (simp add: outside_def fst_seq_do snd_seq_do)

lemma outside_refl [simp]: "outside s (s, [])"
  by (simp add: outside_def)

lemma outside_each: "(\<And>x t. outside t (g x t)) \<Longrightarrow> outside s (each_do g xs s)"
  by (induction xs arbitrary: s) (auto intro: outside_seq)

named_theorems outside_rules

lemma no_process_writes [simp]: "list_all (\<lambda>x. \<not> is_write x) (process_input io p b)" "list_all (\<lambda>x. \<not> is_write x) (terminate_process p)"
  by (simp_all add: process_input_def terminate_process_def split: option.split)

lemma outside_update [outside_rules]: "outside s (ls_updateState err s)"
  by (simp add: outside_def ls_updateState_def)

lemma outside_stopViewer [outside_rules]: "outside s (ls_stopViewerTranscoder s)"
  by (simp add: outside_def ls_stopViewerTranscoder_def)

lemma outside_startViewer [outside_rules]: "outside s (ls_startViewerTranscoder b keep io s)"
  by (simp add: outside_def ls_startViewerTranscoder_def Let_def)

lemma outside_restartViewer [outside_rules]: "outside s (ls_restartViewerTranscoder b io s)"
  by (simp add: outside_def ls_restartViewerTranscoder_def ls_startViewerTranscoder_def Let_def split: option.split)

lemma outside_cleanup [outside_rules]: "outside s (ls_cleanupSource s)"
  by (simp add: outside_def ls_cleanupSource_def ls_stopViewerTranscoder_def fst_seq_do snd_seq_do)

lemma outside_settleRecording [outside_rules]: "outside s (ls_settleRecording err i s)"
  by (simp add: outside_def ls_settleRecording_def split: option.split)

lemma outside_failRecordings [outside_rules]: "outside s (ls_failRecordings err s)"
  unfolding ls_failRecordings_def by (rule outside_each) (rule outside_rules)

lemma outside_appendChunk [outside_rules]: "outside s (ls_appendRecordingChunk chunk io i s)"
  using outside_settleRecording [of s "Some ErrLimit" i] by (simp add: ls_appendRecordingChunk_def outside_def split: option.split)

lemma outside_appendAudio [outside_rules]: "outside s (ls_appendRecordingAudio chunk i s)"
  using outside_settleRecording [of s "Some ErrLimit" i] by (simp add: ls_appendRecordingAudio_def outside_def split: option.split)

lemma outside_retire [outside_rules]: "outside s (ls_retireStart err s)"
  by (simp add: ls_retireStart_def outside_def split: option.split)

lemma outside_schedule [outside_rules]: "outside s (ls_scheduleStopIfUnused s, [])"
  by (simp add: ls_scheduleStopIfUnused_def outside_def)

lemma outside_ensureStarted [outside_rules]: "outside s (fst (ls_ensureStarted s))"
  by (simp add: ls_ensureStarted_def outside_def ls_updateState_def fst_seq_do snd_seq_do)

lemma outside_awaitStart [outside_rules]: "outside s (ls_awaitStart c s)"
proof -
  obtain r w where r: "ls_ensureStarted s = (r, w)" by (cases "ls_ensureStarted s")
  then have "outside s r" using outside_ensureStarted [of s] by simp
  then show ?thesis unfolding ls_awaitStart_def r by (cases w) (simp_all add: outside_def fst_seq_do snd_seq_do)
qed

lemma outside_refusal [outside_rules]: "outside s (refusal (ls_ensureStarted s))"
proof -
  obtain t outs w where r: "ls_ensureStarted s = ((t, outs), w)" by (cases "ls_ensureStarted s") auto
  then have "outside s (t, outs)" using outside_ensureStarted [of s] by simp
  then show ?thesis unfolding refusal_def r by (cases w) (simp_all add: outside_def)
qed

lemma outside_lease: "outside s (ls_lease s, [])" "outside s (ls_release s, [])" "outside s (ls_cancelStop s, [])"
    "outside s (ls_recordClipEnds i s, [])"
  by (simp_all add: outside_def ls_lease_def ls_release_def ls_cancelStop_def ls_scheduleStopIfUnused_def ls_recordClipEnds_def ls_cancelRecording_def)

lemma outside_seedSnapshot [outside_rules]: "outside s (fst (ls_seedSnapshot k b io s))"
  by (simp add: ls_seedSnapshot_def outside_def split: option.split)

lemma outside_seedViewer [outside_rules]: "outside s (fst (ls_seedViewer m b io s))"
proof -
  have "outside s (s, [])" by (simp add: outside_def)
  then show ?thesis by (simp add: ls_seedViewer_def outside_startViewer outside_restartViewer split: option.split)
qed

lemma outside_audioData [outside_rules]: "outside s (ls_audioData chunk s)"
proof (cases "\<not> ls_audio s \<or> chunk = []")
  case True
  then show ?thesis by (simp add: ls_audioData_def outside_def)
next
  case False
  have "outside s (s, map (\<lambda>c. SoAudio c chunk) (ls_audioConsumers s))" by (simp add: outside_def list_all_iff)
  then show ?thesis unfolding ls_audioData_def if_not_P [OF False] by (rule outside_seq) (intro outside_each outside_rules)
qed

section \<open>Operations on other viewers, and those that end a viewer\<close>

named_theorems aside_rules

lemmas outside_asides [aside_rules] = outside_rules [THEN outside_aside]

lemma map_of_delivery: "map_of (ls_deliveries (ls_delivery d f s)) c =
    (if c = d then map_option f (map_of (ls_deliveries s) c) else map_of (ls_deliveries s) c)"
  by (auto simp: ls_delivery_def update_conv' split: option.split)

lemma delivery_fields: "ls_clients (ls_delivery d f s) = ls_clients s" "ls_pending (ls_delivery d f s) = ls_pending s"
    "ls_cache (ls_delivery d f s) = ls_cache s" "ls_source (ls_delivery d f s) = ls_source s" "ls_headed (ls_delivery d f s) = ls_headed s"
  by (simp_all add: ls_delivery_def split: option.split)

lemma aside_delivery:
  assumes "\<And>x. dl_profile (f x) = dl_profile x" "\<And>x. dl_startedCodec (f x) = dl_startedCodec x" "sent_to c outs = []"
  shows "aside c s (ls_delivery d f s, outs)"
proof -
  have "map_option dl_profile (map_of (ls_deliveries (ls_delivery d f s)) c) = map_option dl_profile (map_of (ls_deliveries s) c)"
    "map_option (\<lambda>d. (dl_profile d, dl_startedCodec d)) (map_of (ls_deliveries (ls_delivery d f s)) c) =
      map_option (\<lambda>d. (dl_profile d, dl_startedCodec d)) (map_of (ls_deliveries s) c)"
    using assms by (auto simp: map_of_delivery option.map_comp comp_def)
  then show ?thesis using assms(3)
    by (simp add: aside_def follows_def ls_profiled_def ls_place_def ls_wf_def delivery_fields)
qed

lemma aside_mark [aside_rules]: "sent_to c outs = [] \<Longrightarrow> aside c s (ls_markViewerClose r d s, outs)"
  unfolding ls_markViewerClose_def by (rule aside_delivery) simp_all

lemma aside_endClient [aside_rules]: "aside c s (ls_endClient r d s)"
  unfolding ls_endClient_def by (rule aside_mark) simp

lemma aside_endClients [aside_rules]: "aside c s (ls_endClients r s)"
proof -
  have "aside c t (t\<lparr>ls_clients := [], ls_pending := []\<rparr>, [])" for t by (simp add: aside_def follows_def ls_wf_def)
  then show ?thesis unfolding ls_endClients_def by (intro aside_seq aside_each aside_rules)
qed

lemma aside_emitClientSummary [aside_rules]: "aside c s (ls_emitClientSummary d s)"
  by (cases "d = c")
     (auto simp: ls_emitClientSummary_def aside_def follows_def ls_profiled_def ls_place_def ls_wf_def delete_conv' split: option.split)

lemma aside_drop: "aside c s (s\<lparr>ls_clients := set_delete d (ls_clients s), ls_pending := set_delete d (ls_pending s)\<rparr>, [])"
  by (cases "d = c") (auto simp: aside_def follows_def ls_profiled_def ls_place_def ls_wf_def set_delete_def)

lemma aside_removeClient [aside_rules]: "aside c s (ls_removeClient d s)"
proof -
  have e: "aside c s (ls_emitClientSummary d (s\<lparr>ls_clients := set_delete d (ls_clients s), ls_pending := set_delete d (ls_pending s)\<rparr>))"
    using aside_seq [OF aside_drop aside_emitClientSummary, of c s d] by (simp add: seq_do_def split_beta)
  have "aside c t (if ls_profileClients Compatible t = [] then ls_stopViewerTranscoder t else (t, []))" for t by (simp add: aside_rules)
  then show ?thesis unfolding ls_removeClient_def by (intro aside_seq e aside_rules)
qed

lemma aside_fields: "aside c s r \<Longrightarrow> fst r = u \<Longrightarrow> ls_wf v = ls_wf u \<Longrightarrow> ls_cache v = ls_cache u \<Longrightarrow> follows c v = follows c u \<Longrightarrow>
    ls_place c v = ls_place c u \<Longrightarrow> aside c s (v, snd r)"
  by (simp add: aside_def)

lemma aside_pure: "ls_clients t = ls_clients s \<Longrightarrow> ls_pending t = ls_pending s \<Longrightarrow> ls_deliveries t = ls_deliveries s \<Longrightarrow>
    ls_cache t = ls_cache s \<Longrightarrow> ls_source t = ls_source s \<Longrightarrow> list_all (\<lambda>x. \<not> is_write x) outs \<Longrightarrow> aside c s (t, outs)"
  by (rule outside_aside) (simp add: outside_def)

lemma aside_start: "aside c t (g t) \<Longrightarrow> ls_clients t = ls_clients s \<Longrightarrow> ls_pending t = ls_pending s \<Longrightarrow> ls_deliveries t = ls_deliveries s \<Longrightarrow>
    ls_cache t = ls_cache s \<Longrightarrow> ls_source t = ls_source s \<Longrightarrow> aside c s (g t)"
  by (simp add: aside_def follows_def ls_profiled_def ls_place_def ls_wf_def)

lemma aside_sourceEnded [aside_rules]: "aside c s (ls_sourceEnded err s)"
proof -
  have e: "aside c t (ls_endClients r (t\<lparr>ls_phase := p, ls_owned := False\<rparr>))" for t r p
    by (rule aside_start [OF aside_endClients]) simp_all
  have r: "aside c s (ls_retireStart x (ls_cancelStop s))" for x
    by (rule aside_start [OF outside_aside [OF outside_retire]]) (simp_all add: ls_cancelStop_def)
  show ?thesis unfolding ls_sourceEnded_def by (cases "ls_phase s = Idle") (auto intro!: aside_seq aside_rules e r)
qed

lemma aside_stopOwnedSource [aside_rules]: "aside c s (ls_stopOwnedSource err s)"
proof -
  have a: "aside c s (ls_sourceEnded e (s\<lparr>ls_stop := True\<rparr>))" for e
    by (rule aside_start [OF aside_sourceEnded]) simp_all
  have u: "aside c t (ls_updateState None (t\<lparr>ls_phase := Stopping\<rparr>))" for t
    by (rule aside_start [OF outside_aside [OF outside_update]]) simp_all
  have p: "aside c t (t\<lparr>ls_owned := b\<rparr>, [])" "aside c t (t\<lparr>ls_stop := b\<rparr>, [])" "aside c t (t, [SoStop])" for t b
    by (rule aside_pure; simp)+
  show ?thesis unfolding ls_stopOwnedSource_def
    by (cases "ls_stop s"; cases err) (auto intro!: aside_seq aside_rules a u p simp del: fst_conv snd_conv)
qed

lemma aside_settleStop [aside_rules]: "aside c s (ls_settleStop b s)"
proof -
  have u: "aside c t (ls_updateState x (t\<lparr>ls_phase := p, ls_owned := o'\<rparr>))" "aside c t (ls_updateState x (t\<lparr>ls_phase := p\<rparr>))" for t x p o'
    by (rule aside_start [OF outside_aside [OF outside_update]]; simp)+
  have p: "aside c t (t\<lparr>ls_stop := False, ls_resumed := r, ls_waiters := w\<rparr>, [])" for t r w
    by (rule aside_pure) simp_all
  show ?thesis unfolding ls_settleStop_def
    by (cases "ls_stop s"; cases b; cases "ls_phase s = Stopping") (auto intro!: aside_seq aside_rules u p)
qed

lemma aside_startSettled [aside_rules]: "aside c s (ls_startSettled n b s)"
proof -
  have u: "aside c t (ls_updateState x (t\<lparr>ls_phase := p, ls_owned := o'\<rparr>))" for t x p o'
    by (rule aside_start [OF outside_aside [OF outside_update]]; simp)
  have f: "aside c s (ls_failRecordings ErrStartFailed (s\<lparr>ls_start := None\<rparr>))"
    by (rule aside_start [OF outside_aside [OF outside_failRecordings]]) simp_all
  have p: "aside c t (t\<lparr>ls_failing := x, ls_awaiting := y\<rparr>, [SoStartRejected n e])"
    "aside c s (s\<lparr>ls_start := None, ls_awaiting := y\<rparr>, [SoStartResolved n])" for t x y e
    by (rule aside_pure; simp)+
  show ?thesis unfolding ls_startSettled_def
    by (cases "ls_start s = Some n"; cases b) (auto intro!: aside_seq aside_rules u p f)
qed

lemma aside_markStopped [aside_rules]: "aside c s (ls_markStopped s)"
proof -
  have e: "aside c t (ls_endClients r (t\<lparr>ls_phase := p, ls_owned := False\<rparr>))" for t r p
    by (rule aside_start [OF aside_endClients]) simp_all
  have r: "aside c s (ls_retireStart x (ls_cancelStop s))" for x
    by (rule aside_start [OF outside_aside [OF outside_retire]]) (simp_all add: ls_cancelStop_def)
  show ?thesis unfolding ls_markStopped_def by (intro aside_seq aside_rules e r)
qed

lemma aside_close [aside_rules]: "aside c s (ls_close s)"
proof -
  have r: "aside c s (ls_retireStart ErrClosed (s\<lparr>ls_closed := True\<rparr>))"
    by (rule aside_start [OF outside_aside [OF outside_retire]]) simp_all
  have q: "aside c t (t\<lparr>ls_pending := []\<rparr>, [])" if "\<not> ls_source t" for t
    using that by (simp add: aside_def follows_def ls_wf_def)
  define u where "u = seq_do (seq_do (ls_retireStart ErrClosed (s\<lparr>ls_closed := True\<rparr>)) ls_cleanupSource) (ls_failRecordings ErrClosed)"
  have u: "aside c s u" unfolding u_def by (intro aside_seq aside_rules r)
  have off: "\<not> ls_source (fst (each_do (ls_endClient GatewayClosed) xs (fst u)))" for xs
  proof (rule inv_each)
    have "\<not> ls_source (fst (ls_cleanupSource t))" for t
      by (simp add: ls_cleanupSource_def ls_stopViewerTranscoder_def fst_seq_do)
    moreover have "ls_source (fst (ls_failRecordings ErrClosed t)) \<Longrightarrow> ls_source t" for t
      using outside_failRecordings [of t ErrClosed] by (simp add: outside_def)
    ultimately show "\<not> ls_source (fst u)" unfolding u_def fst_seq_do by blast
    show "\<not> ls_source t \<Longrightarrow> \<not> ls_source (fst (ls_endClient GatewayClosed x t))" for x t
      by (simp add: ls_endClient_def ls_markViewerClose_def delivery_fields)
  qed
  define v where "v = seq_do (each_do (ls_endClient GatewayClosed) (ls_clients (fst u)) (fst u)) (\<lambda>s. (s\<lparr>ls_pending := []\<rparr>, []))"
  have e: "aside c (fst u) (each_do (ls_endClient GatewayClosed) xs (fst u))" for xs by (intro aside_each aside_rules)
  have "aside c (fst u) v"
    unfolding v_def using e [of "ls_clients (fst u)"] q [OF off [of "ls_clients (fst u)"]]
    by (simp add: aside_def fst_seq_do snd_seq_do)
  then have w: "aside c s (seq_do u (\<lambda>s. seq_do (each_do (ls_endClient GatewayClosed) (ls_clients s) s) (\<lambda>s. (s\<lparr>ls_pending := []\<rparr>, []))))"
    using u unfolding v_def by (simp add: aside_def fst_seq_do snd_seq_do)
  have "aside c t (if ls_stop t \<or> ls_owned t then ls_stopOwnedSource None t else (t, []))" for t by (simp add: aside_rules)
  then show ?thesis unfolding ls_close_def u_def [symmetric] by (cases "ls_closed s") (auto intro!: aside_seq w)
qed

lemma aside_stopNow [aside_rules]: "aside c s (ls_stopNowIfUnused s)"
proof -
  have "aside c s (ls_stopOwnedSource None (ls_cancelStop s))"
    by (rule aside_start [OF aside_stopOwnedSource]) (simp_all add: ls_cancelStop_def)
  then show ?thesis by (simp add: ls_stopNowIfUnused_def)
qed

lemma aside_timer: "aside c s (ls_stopOwnedSource None (s\<lparr>ls_stopTimer := False\<rparr>))"
  by (rule aside_start [OF aside_stopOwnedSource]) simp_all

lemma aside_quiet [aside_rules]: "aside c s (ls_quietFired s)"
proof -
  have "aside c s (ls_stopOwnedSource e (s\<lparr>ls_quiet := False\<rparr>))" "aside c s (ls_sourceEnded e (s\<lparr>ls_quiet := False\<rparr>))"
    "aside c s (s\<lparr>ls_quiet := False\<rparr>, [])" for e
    by (rule aside_start [OF aside_stopOwnedSource] aside_start [OF aside_sourceEnded] aside_pure; simp)+
  then show ?thesis by (simp add: ls_quietFired_def Let_def)
qed

lemma aside_viewerGone [aside_rules]: "aside c s (ls_viewerGone p s)"
proof -
  have v: "aside c s (s\<lparr>ls_viewer := None\<rparr>, [])" by (rule aside_pure) simp_all
  have f: "aside c t (ls_failCompatibleClient d t)" for d t
    unfolding ls_failCompatibleClient_def by (intro aside_seq aside_rules) simp
  have "aside c t (ls_failCompatibleClients t)" for t
    unfolding ls_failCompatibleClients_def by (intro aside_seq aside_each f) (rule aside_rules)
  then have "aside c s (ls_failCompatibleClients (s\<lparr>ls_viewer := None\<rparr>))" by (rule aside_start) simp_all
  then show ?thesis by (simp add: ls_viewerGone_def)
qed

lemma aside_leases: "aside c s (ls_captureSnapshot s)" "aside c s (ls_withLiveSource s)" "aside c s (ls_withActiveViewer s)"
    "aside c s (ls_recordClip d m s)" "aside c s (ls_startFailed x s)"
proof -
  have l: "aside c s (ls_updateState None (ls_lease s))"
    by (rule aside_start [OF outside_aside [OF outside_update]]) (simp_all add: ls_lease_def ls_cancelStop_def)
  have r: "aside c t (refusal (ls_ensureStarted t))" "aside c t (ls_collectRecording i j t, [])" for t i j
    by (simp_all add: aside_rules) (rule aside_pure; simp add: ls_collectRecording_def)
  have q: "aside c s (s, [SoRefused e])" "aside c s (ls_lease s, [])" for e
    using outside_lease(1) [THEN outside_aside] by (simp_all) (rule aside_pure; simp)
  show "aside c s (ls_captureSnapshot s)" "aside c s (ls_withLiveSource s)" "aside c s (ls_withActiveViewer s)" "aside c s (ls_recordClip d m s)"
    unfolding ls_captureSnapshot_def ls_withLiveSource_def ls_withActiveViewer_def ls_recordClip_def
    by (auto intro!: aside_seq l r q)
  have "aside c s (ls_markViewerClose StartFailed x (s\<lparr>ls_failing := f\<rparr>), [SoDestroy x])" for f
    by (rule aside_start [where g = "\<lambda>t. (ls_markViewerClose StartFailed x t, [SoDestroy x])"]) (simp_all add: aside_mark)
  then show "aside c s (ls_startFailed x s)" by (simp add: ls_startFailed_def)
qed

text \<open>Starting and feeding another viewer, or only compatible ones.\<close>

lemma startClient_place:
  "ls_clients (fst (ls_startClient d k b s)) = ls_clients s" "ls_pending (fst (ls_startClient d k b s)) = ls_pending s"
  "ls_cache (fst (ls_startClient d k b s)) = ls_cache s" "ls_source (fst (ls_startClient d k b s)) = ls_source s"
  "map_option (\<lambda>x. (dl_profile x, dl_startedCodec x)) (map_of (ls_deliveries (fst (ls_startClient d k b s))) c) =
     map_option (\<lambda>x. (dl_profile x, if c = d then Some k else dl_startedCodec x)) (map_of (ls_deliveries s) c)"
  "sent_to c (snd (ls_startClient d k b s)) = (if c = d then b else [])"
  by (simp_all add: ls_startClient_def ls_recordWrite_def delivery_fields map_of_delivery option.map_comp comp_def)

lemma profiled_place: "ls_profiled p c s \<longleftrightarrow> map_option fst (snd (ls_place c s)) = Some p"
  by (simp add: ls_profiled_def ls_place_def option.map_comp comp_def)

lemma startClient_profiled: "ls_profiled p c (fst (ls_startClient d k b s)) = ls_profiled p c s"
  by (auto simp: ls_profiled_def ls_startClient_def ls_recordWrite_def map_of_delivery option.map_comp comp_def)

lemma aside_startClient: "c \<noteq> d \<Longrightarrow> aside c s (ls_startClient d k b s)"
  by (simp add: aside_def follows_def ls_wf_def ls_place_def startClient_place startClient_profiled)

lemma aside_startPendingClient: "d \<noteq> c \<or> ls_skips p c s \<Longrightarrow> aside c s (ls_startPendingClient k b p d s)"
proof -
  assume a: "d \<noteq> c \<or> ls_skips p c s"
  show ?thesis
  proof (cases "ls_skips p d s")
    case True
    then show ?thesis by (simp add: ls_startPendingClient_def)
  next
    case False
    with a have d: "d \<noteq> c" by auto
    have "aside c s (if d \<in> set (ls_clients s) then ls_startClient d k b s else (s, []))" using d by (simp add: aside_startClient)
    moreover have "aside c t (t\<lparr>ls_pending := set_delete d (ls_pending t)\<rparr>, [])" for t
      using d by (auto simp: aside_def follows_def ls_profiled_def ls_place_def ls_wf_def set_delete_def)
    ultimately have "aside c s (seq_do (if d \<in> set (ls_clients s) then ls_startClient d k b s else (s, []))
        (\<lambda>t. (t\<lparr>ls_pending := set_delete d (ls_pending t)\<rparr>, [])))" by (rule aside_seq)
    then show ?thesis using False by (simp add: ls_startPendingClient_def seq_do_def split_beta Let_def)
  qed
qed

lemma writeClient_place: "ls_clients (fst (ls_writeClient chunk p io d s)) = ls_clients s"
    "ls_pending (fst (ls_writeClient chunk p io d s)) = ls_pending s" "ls_cache (fst (ls_writeClient chunk p io d s)) = ls_cache s"
    "ls_source (fst (ls_writeClient chunk p io d s)) = ls_source s" "ls_place c (fst (ls_writeClient chunk p io d s)) = ls_place c s"
    "sent_to c (snd (ls_writeClient chunk p io d s)) = (if c = d \<and> \<not> ls_skips p c s \<and> c \<notin> set (ls_pending s) then chunk else [])"
  by (auto simp: ls_writeClient_def ls_recordWrite_def ls_markViewerClose_def delivery_fields ls_place_def map_of_delivery option.map_comp comp_def Let_def)

lemma writeClient_skips: "ls_skips q c (fst (ls_writeClient chunk p io d s)) = ls_skips q c s"
  by (simp add: ls_skips_def profiled_place writeClient_place split: option.split)

section \<open>The steps that concern a viewer\<close>

lemma set_add_facts: "set (set_add x xs) = insert x (set xs)" "distinct (set_add x xs) = distinct xs"
  by (auto simp: set_add_def)

lemma enrolled: "ls_clients (ls_enrol d p s) = set_add d (ls_clients s)" "ls_pending (ls_enrol d p s) = ls_pending s"
    "ls_cache (ls_enrol d p s) = ls_cache s" "ls_source (ls_enrol d p s) = ls_source s" "ls_phase (ls_enrol d p s) = ls_phase s"
    "map_of (ls_deliveries (ls_enrol d p s)) c = (if c = d then Some \<lparr> dl_closeReason = None, dl_sourceAttached = ls_source s,
       dl_profile = p, dl_startedCodec = None, dl_deliveryStarted = False, dl_bytes = 0, dl_chunks = 0 \<rparr> else map_of (ls_deliveries s) c)"
  by (simp_all add: ls_enrol_def ls_cancelStop_def Let_def update_conv')

text \<open>A viewer that joins is started with the retained bytes, or waits.\<close>

definition joined :: "nat \<Rightarrow> viewer_profile \<Rightarrow> stream_io \<Rightarrow> session \<Rightarrow> session \<times> stream_out list" where
  "joined d p io s = ls_join d p io (ls_enrol d p s)"

lemma join_cases:
  obtains (start) k b where "ls_joinBytes p s = Some (k, b)" "ls_join d p io s = ls_startClient d k b s"
  | (wait) "ls_joinBytes p s = None" "outside (s\<lparr>ls_pending := set_add d (ls_pending s)\<rparr>) (ls_join d p io s)"
proof (cases "ls_joinBytes p s")
  case None
  have "outside (s\<lparr>ls_pending := set_add d (ls_pending s)\<rparr>) (ls_join d p io s)"
    using None outside_startViewer by (simp add: ls_join_def Let_def split: option.split)
  with None show ?thesis by (rule wait)
next
  case (Some kb)
  then show ?thesis by (cases kb) (auto simp: ls_join_def intro: start)
qed

lemma enrol_wf: "ls_wf s \<Longrightarrow> ls_wf (ls_enrol d p s)"
    "ls_wf s \<Longrightarrow> ls_wf ((ls_enrol d p s)\<lparr>ls_pending := set_add d (ls_pending (ls_enrol d p s))\<rparr>)"
  by (auto simp: ls_wf_def enrolled set_add_facts)

lemma joined_wf: "ls_wf s \<Longrightarrow> ls_wf (fst (joined d p io s))"
  unfolding joined_def
  by (rule join_cases [of p "ls_enrol d p s" d io]) (auto simp: ls_wf_def startClient_place outside_def enrolled set_add_facts)

lemma joined_cache: "ls_cache (fst (joined d p io s)) = ls_cache s"
  unfolding joined_def by (rule join_cases [of p "ls_enrol d p s" d io]) (auto simp: startClient_place outside_def enrolled)

lemma aside_joined: "c \<noteq> d \<Longrightarrow> aside c s (joined d p io s)"
proof -
  assume d: "c \<noteq> d"
  have s: "aside c (ls_enrol d p s) (ls_startClient d k b (ls_enrol d p s))" for k b by (rule aside_startClient [OF d])
  have e: "follows c (ls_enrol d p s) = follows c s" "ls_place c (ls_enrol d p s) = ls_place c s"
    using d by (auto simp: follows_def ls_profiled_def ls_place_def enrolled set_add_facts)
  have "follows c (fst (joined d p io s)) \<longrightarrow> follows c s \<and> ls_place c (fst (joined d p io s)) = ls_place c s \<and> sent_to c (snd (joined d p io s)) = []"
    if w: "ls_wf s"
  proof (rule join_cases [of p "ls_enrol d p s" d io])
    fix k b
    assume "ls_joinBytes p (ls_enrol d p s) = Some (k, b)" "ls_join d p io (ls_enrol d p s) = ls_startClient d k b (ls_enrol d p s)"
    then show ?thesis using s [of k b] enrol_wf(1) [OF w, of d p] by (simp add: joined_def aside_def e)
  next
    assume o: "outside ((ls_enrol d p s)\<lparr>ls_pending := set_add d (ls_pending (ls_enrol d p s))\<rparr>) (ls_join d p io (ls_enrol d p s))"
    have f: "follows c (s'\<lparr>ls_pending := set_add d (ls_pending s')\<rparr>) = follows c s'" "ls_place c (s'\<lparr>ls_pending := set_add d (ls_pending s')\<rparr>) = ls_place c s'" for s'
      using d by (auto simp: follows_def ls_profiled_def ls_place_def set_add_facts)
    show ?thesis using outside_aside [OF o, of c] enrol_wf(2) [OF w, of d p] by (simp add: joined_def aside_def f e)
  qed
  then show ?thesis by (simp add: aside_def joined_wf joined_cache)
qed

lemma register_joined: "ls_register d p io s = seq_do (seq_do (joined d p io s) (ls_updateState None)) (ls_awaitStart d)"
  by (simp add: ls_register_def joined_def)

lemma aside_register: "c \<noteq> d \<Longrightarrow> aside c s (ls_register d p io s)"
  unfolding register_joined by (intro aside_seq aside_joined aside_rules)

lemma aside_addClient: "c \<noteq> d \<Longrightarrow> aside c s (ls_addClient d p gone io s)"
proof -
  have "aside c s (s\<lparr>ls_waiters := w\<rparr>, [])" for w by (rule aside_pure) simp_all
  then show "c \<noteq> d \<Longrightarrow> aside c s (ls_addClient d p gone io s)" by (simp add: ls_addClient_def aside_register)
qed

lemma aside_transport: "c \<noteq> d \<Longrightarrow> aside c s (ls_enrolTransport d io s)" "c \<noteq> d \<Longrightarrow> aside c s (ls_addTransportClient d gone io s)"
proof -
  have "aside c s (s\<lparr>ls_waiters := w\<rparr>, [])" for w by (rule aside_pure) simp_all
  moreover show "c \<noteq> d \<Longrightarrow> aside c s (ls_enrolTransport d io s)"
    unfolding ls_enrolTransport_def by (rule aside_start [OF aside_addClient]) simp_all
  ultimately show "c \<noteq> d \<Longrightarrow> aside c s (ls_addTransportClient d gone io s)" by (simp add: ls_addTransportClient_def)
qed

lemma aside_resume: "c \<noteq> d \<Longrightarrow> aside c s (ls_resume (Waiter d p tr) gone io s)"
proof -
  assume d: "c \<noteq> d"
  have "aside c s (s\<lparr>ls_resumed := r\<rparr>, outs)" if "list_all (\<lambda>x. \<not> is_write x) outs" for r outs by (rule aside_pure) (simp_all add: that)
  moreover have "aside c s (ls_enrolTransport d io (s\<lparr>ls_resumed := r\<rparr>))" "aside c s (ls_register d p io (s\<lparr>ls_resumed := r\<rparr>))" for r
    by (rule aside_start [OF aside_transport(1) [OF d]] aside_start [OF aside_register [OF d]]; simp)+
  ultimately show ?thesis by (simp add: ls_resume_def Let_def split: option.split)
qed

section \<open>A chunk of the source\<close>

lemma write_each:
  assumes "distinct xs"
  shows "ls_clients (fst (each_do (ls_writeClient chunk p io) xs s)) = ls_clients s \<and>
    ls_pending (fst (each_do (ls_writeClient chunk p io) xs s)) = ls_pending s \<and>
    ls_cache (fst (each_do (ls_writeClient chunk p io) xs s)) = ls_cache s \<and>
    ls_source (fst (each_do (ls_writeClient chunk p io) xs s)) = ls_source s \<and>
    ls_place c (fst (each_do (ls_writeClient chunk p io) xs s)) = ls_place c s \<and>
    sent_to c (snd (each_do (ls_writeClient chunk p io) xs s)) =
      (if c \<in> set xs \<and> \<not> ls_skips p c s \<and> c \<notin> set (ls_pending s) then chunk else [])"
  using assms
proof (induction xs arbitrary: s)
  case (Cons x xs)
  define t where "t = fst (ls_writeClient chunk p io x s)"
  define u where "u = each_do (ls_writeClient chunk p io) xs t"
  have x: "c \<notin> set xs" if "c = x" using Cons.prems that by simp
  have t: "ls_clients t = ls_clients s" "ls_pending t = ls_pending s" "ls_cache t = ls_cache s" "ls_source t = ls_source s"
    "ls_place c t = ls_place c s" "ls_skips p c t = ls_skips p c s"
    by (simp_all add: t_def writeClient_place writeClient_skips)
  have i: "ls_clients (fst u) = ls_clients s" "ls_pending (fst u) = ls_pending s" "ls_cache (fst u) = ls_cache s" "ls_source (fst u) = ls_source s"
    "ls_place c (fst u) = ls_place c s" "sent_to c (snd u) = (if c \<in> set xs \<and> \<not> ls_skips p c s \<and> c \<notin> set (ls_pending s) then chunk else [])"
    using Cons.IH [of t] Cons.prems by (simp_all add: u_def t)
  have e: "fst (each_do (ls_writeClient chunk p io) (x # xs) s) = fst u"
    "snd (each_do (ls_writeClient chunk p io) (x # xs) s) = snd (ls_writeClient chunk p io x s) @ snd u"
    by (simp_all add: fst_seq_do snd_seq_do u_def t_def)
  show ?case unfolding e sent_to_simps i writeClient_place using x by (cases "c = x") simp_all
qed simp

lemma startPendingClient_place:
  "ls_clients (fst (ls_startPendingClient k b p d s)) = ls_clients s" "ls_cache (fst (ls_startPendingClient k b p d s)) = ls_cache s"
  "ls_source (fst (ls_startPendingClient k b p d s)) = ls_source s"
  "ls_pending (fst (ls_startPendingClient k b p d s)) = (if ls_skips p d s then ls_pending s else set_delete d (ls_pending s))"
  "ls_profiled q c (fst (ls_startPendingClient k b p d s)) = ls_profiled q c s"
  "map_option (\<lambda>x. (dl_profile x, dl_startedCodec x)) (map_of (ls_deliveries (fst (ls_startPendingClient k b p d s))) c) =
     (if c = d \<and> \<not> ls_skips p c s \<and> c \<in> set (ls_clients s)
      then map_option (\<lambda>x. (dl_profile x, Some k)) (map_of (ls_deliveries s) c)
      else map_option (\<lambda>x. (dl_profile x, dl_startedCodec x)) (map_of (ls_deliveries s) c))"
  "sent_to c (snd (ls_startPendingClient k b p d s)) = (if c = d \<and> \<not> ls_skips p c s \<and> c \<in> set (ls_clients s) then b else [])"
proof -
  define t where "t = fst (ls_startClient d k b s)"
  have t: "ls_clients t = ls_clients s" "ls_pending t = ls_pending s" "ls_cache t = ls_cache s" "ls_source t = ls_source s" "ls_profiled q c t = ls_profiled q c s"
    by (simp_all add: t_def startClient_place startClient_profiled)
  have f: "map_option (\<lambda>x. (dl_profile x, dl_startedCodec x)) (map_of (ls_deliveries t) c') =
     map_option (\<lambda>x. (dl_profile x, if c' = d then Some k else dl_startedCodec x)) (map_of (ls_deliveries s) c')" for c'
    by (simp add: t_def startClient_place)
  have u: "ls_profiled q c (v\<lparr>ls_pending := x\<rparr>) = ls_profiled q c v" for v x by (simp add: ls_profiled_def)
  have o: "sent_to c' (snd (ls_startClient d k b s)) = (if c' = d then b else [])" for c' by (rule startClient_place)
  have e: "ls_startPendingClient k b p d s = (if ls_skips p d s then (s, [])
      else ((if d \<in> set (ls_clients s) then t else s)\<lparr>ls_pending := set_delete d (ls_pending s)\<rparr>,
        if d \<in> set (ls_clients s) then snd (ls_startClient d k b s) else []))"
    by (simp add: ls_startPendingClient_def t_def split_beta Let_def startClient_place)
  show "ls_clients (fst (ls_startPendingClient k b p d s)) = ls_clients s" unfolding e by (simp add: t)
  show "ls_cache (fst (ls_startPendingClient k b p d s)) = ls_cache s" unfolding e by (simp add: t)
  show "ls_source (fst (ls_startPendingClient k b p d s)) = ls_source s" unfolding e by (simp add: t)
  show "ls_profiled q c (fst (ls_startPendingClient k b p d s)) = ls_profiled q c s" unfolding e by (simp add: t u)
  show "ls_pending (fst (ls_startPendingClient k b p d s)) = (if ls_skips p d s then ls_pending s else set_delete d (ls_pending s))"
    unfolding e by (simp add: t)
  show "map_option (\<lambda>x. (dl_profile x, dl_startedCodec x)) (map_of (ls_deliveries (fst (ls_startPendingClient k b p d s))) c) =
     (if c = d \<and> \<not> ls_skips p c s \<and> c \<in> set (ls_clients s)
      then map_option (\<lambda>x. (dl_profile x, Some k)) (map_of (ls_deliveries s) c)
      else map_option (\<lambda>x. (dl_profile x, dl_startedCodec x)) (map_of (ls_deliveries s) c))"
    unfolding e using f [of c] by (cases "c = d"; cases "ls_skips p d s"; cases "d \<in> set (ls_clients s)") simp_all
  show "sent_to c (snd (ls_startPendingClient k b p d s)) = (if c = d \<and> \<not> ls_skips p c s \<and> c \<in> set (ls_clients s) then b else [])"
    unfolding e using o [of c] by (cases "c = d"; cases "ls_skips p d s"; cases "d \<in> set (ls_clients s)") simp_all
qed

definition place_after :: "video_codec \<Rightarrow> viewer_profile option \<Rightarrow> bool \<Rightarrow> nat \<Rightarrow> session \<Rightarrow> bool \<times> (viewer_profile \<times> video_codec option) option" where
  "place_after k p served c s =
     (if served \<and> \<not> ls_skips p c s
      then (False, if c \<in> set (ls_clients s) then map_option (\<lambda>x. (fst x, Some k)) (snd (ls_place c s)) else snd (ls_place c s))
      else ls_place c s)"

lemma skips_profiled: "(\<And>q. ls_profiled q c t = ls_profiled q c s) \<Longrightarrow> ls_skips p c t = ls_skips p c s"
  by (simp add: ls_skips_def split: option.split)

lemma start_one:
  fixes k b p d s
  defines "r \<equiv> ls_startPendingClient k b p d s"
  shows "ls_clients (fst r) = ls_clients s" "ls_cache (fst r) = ls_cache s" "ls_source (fst r) = ls_source s"
    "ls_wf s \<Longrightarrow> ls_wf (fst r)" "ls_skips p c (fst r) = ls_skips p c s" "ls_place c (fst r) = place_after k p (c = d) c s"
    "sent_to c (snd r) = (if c = d \<and> \<not> ls_skips p c s \<and> c \<in> set (ls_clients s) then b else [])"
proof -
  note f = startPendingClient_place [where k = k and b = b and p = p and d = d and s = s, folded r_def]
  show "ls_clients (fst r) = ls_clients s" "ls_cache (fst r) = ls_cache s" "ls_source (fst r) = ls_source s" by (rule f)+
  show "ls_wf s \<Longrightarrow> ls_wf (fst r)" by (auto simp: ls_wf_def f set_delete_def)
  show "ls_skips p c (fst r) = ls_skips p c s" by (rule skips_profiled) (rule f)
  show "ls_place c (fst r) = place_after k p (c = d) c s"
    unfolding ls_place_def place_after_def f by (auto simp: set_delete_def option.map_comp comp_def)
  show "sent_to c (snd r) = (if c = d \<and> \<not> ls_skips p c s \<and> c \<in> set (ls_clients s) then b else [])" by (rule f)
qed

lemma start_each:
  fixes xs k b p
  assumes "distinct xs"
  defines "r s \<equiv> each_do (ls_startPendingClient k b p) xs s"
  shows "ls_clients (fst (r s)) = ls_clients s \<and> ls_cache (fst (r s)) = ls_cache s \<and> ls_source (fst (r s)) = ls_source s \<and>
    (ls_wf s \<longrightarrow> ls_wf (fst (r s))) \<and> ls_place c (fst (r s)) = place_after k p (c \<in> set xs) c s \<and>
    sent_to c (snd (r s)) = (if c \<in> set xs \<and> \<not> ls_skips p c s \<and> c \<in> set (ls_clients s) then b else [])"
  using assms(1) unfolding r_def
proof (induction xs arbitrary: s)
  case Nil
  then show ?case by (simp add: place_after_def)
next
  case (Cons x xs)
  define t where "t = fst (ls_startPendingClient k b p x s)"
  define u where "u = each_do (ls_startPendingClient k b p) xs t"
  note t = start_one [where k = k and b = b and p = p and d = x and s = s, folded t_def]
  have x: "c \<notin> set xs" if "c = x" using Cons.prems that by simp
  have i: "ls_clients (fst u) = ls_clients t" "ls_cache (fst u) = ls_cache t" "ls_source (fst u) = ls_source t" "ls_wf t \<Longrightarrow> ls_wf (fst u)"
    "ls_place c (fst u) = place_after k p (c \<in> set xs) c t"
    "sent_to c (snd u) = (if c \<in> set xs \<and> \<not> ls_skips p c t \<and> c \<in> set (ls_clients t) then b else [])"
    using Cons.IH [of t] Cons.prems by (simp_all add: u_def)
  have e: "fst (each_do (ls_startPendingClient k b p) (x # xs) s) = fst u"
    "snd (each_do (ls_startPendingClient k b p) (x # xs) s) = snd (ls_startPendingClient k b p x s) @ snd u"
    by (simp_all add: fst_seq_do snd_seq_do u_def t_def)
  have p: "place_after k p (c \<in> set xs) c t = place_after k p (c \<in> set (x # xs)) c s"
    unfolding place_after_def t(1, 5, 6) using x by (cases "c = x") (simp_all add: place_after_def)
  have o: "(if c = x \<and> \<not> ls_skips p c s \<and> c \<in> set (ls_clients s) then b else []) @
      (if c \<in> set xs \<and> \<not> ls_skips p c s \<and> c \<in> set (ls_clients s) then b else []) =
      (if c \<in> set (x # xs) \<and> \<not> ls_skips p c s \<and> c \<in> set (ls_clients s) then b else [])"
    using x by auto
  show ?case unfolding e sent_to_simps i(1-3, 5, 6) t(1-3, 5, 7) p o using i(4) t(4) by simp
qed

lemma start_with:
  assumes "ls_wf s"
  shows "ls_clients (fst (ls_startWith k startup p s)) = ls_clients s" "ls_cache (fst (ls_startWith k startup p s)) = ls_cache s"
    "ls_source (fst (ls_startWith k startup p s)) = ls_source s" "ls_wf (fst (ls_startWith k startup p s))"
    "ls_place c (fst (ls_startWith k startup p s)) = (if startup = None then ls_place c s else place_after k p (c \<in> set (ls_pending s)) c s)"
    "sent_to c (snd (ls_startWith k startup p s)) =
       (if c \<in> set (ls_pending s) \<and> \<not> ls_skips p c s \<and> c \<in> set (ls_clients s) then case startup of None \<Rightarrow> [] | Some b \<Rightarrow> b else [])"
  using start_each [where xs = "ls_pending s" and k = k and p = p and s = s] assms
  by (cases startup; simp add: ls_startWith_def ls_startPendingClients_def ls_wf_def)+

lemma write_chunk:
  fixes chunk p io s
  assumes "ls_wf s"
  defines "r \<equiv> ls_writeViewerChunk chunk p io s"
  shows "ls_clients (fst r) = ls_clients s" "ls_cache (fst r) = ls_cache s" "ls_source (fst r) = ls_source s" "ls_wf (fst r)"
    "ls_pending (fst r) = ls_pending s" "ls_place c (fst r) = ls_place c s"
    "sent_to c (snd r) = (if c \<in> set (ls_clients s) \<and> \<not> ls_skips p c s \<and> c \<notin> set (ls_pending s) then chunk else [])"
  using write_each [where xs = "ls_clients s" and chunk = chunk and p = p and io = io and s = s] assms(1) by (simp_all add: r_def ls_writeViewerChunk_def ls_wf_def)

lemma skips_place: "ls_place c t = ls_place c s \<Longrightarrow> ls_skips p c t = ls_skips p c s"
  by (rule skips_profiled) (simp add: profiled_place)

lemma native_skips: "ls_profiled Native c s \<Longrightarrow> ls_skips p c s \<longleftrightarrow> p = Some Compatible"
  by (cases "the p"; cases p) (auto simp: ls_skips_def ls_profiled_def)

lemma pending_place: "c \<in> set (ls_pending s) \<longleftrightarrow> fst (ls_place c s)"
  by (simp add: ls_place_def)

text \<open>The chunk and then the startup of the waiting viewers, for one that is not skipped.\<close>

lemma write_then_start:
  fixes chunk p io s k startup
  assumes "ls_wf s" "ls_profiled Native c s" "p \<noteq> Some Compatible"
  defines "r \<equiv> seq_do (ls_writeViewerChunk chunk p io s) (ls_startWith k startup p)"
  shows "ls_clients (fst r) = ls_clients s" "ls_cache (fst r) = ls_cache s" "ls_source (fst r) = ls_source s" "ls_wf (fst r)"
    "ls_place c (fst r) = (if startup = None then ls_place c s else place_after k p (c \<in> set (ls_pending s)) c s)"
    "c \<in> set (ls_clients s) \<Longrightarrow> sent_to c (snd r) =
       (if c \<notin> set (ls_pending s) then chunk else case startup of None \<Rightarrow> [] | Some b \<Rightarrow> b)"
proof -
  define t where "t = fst (ls_writeViewerChunk chunk p io s)"
  note t = write_chunk [OF assms(1), where chunk = chunk and p = p and io = io, folded t_def]
  have k: "ls_skips p c s = False" "ls_skips p c t = False"
    using native_skips [OF assms(2), of p] assms(3) skips_place [OF t(6) [of c]] by simp_all
  have q: "place_after k p (c \<in> set (ls_pending t)) c t = place_after k p (c \<in> set (ls_pending s)) c s"
    unfolding place_after_def t k by (rule refl)
  note u = start_with [OF t(4), where k = k and startup = startup and p = p]
  have e: "fst r = fst (ls_startWith k startup p t)" "snd r = snd (ls_writeViewerChunk chunk p io s) @ snd (ls_startWith k startup p t)"
    by (simp_all add: r_def fst_seq_do snd_seq_do t_def)
  show "ls_clients (fst r) = ls_clients s" "ls_cache (fst r) = ls_cache s" "ls_source (fst r) = ls_source s" "ls_wf (fst r)"
    "ls_place c (fst r) = (if startup = None then ls_place c s else place_after k p (c \<in> set (ls_pending s)) c s)"
    unfolding e u(1-3) u(5) q t(1-3, 6) by (simp_all add: u(4))
  show "c \<in> set (ls_clients s) \<Longrightarrow> sent_to c (snd r) =
       (if c \<notin> set (ls_pending s) then chunk else case startup of None \<Rightarrow> [] | Some b \<Rightarrow> b)"
    unfolding e sent_to_simps u(6) t k by simp
qed

lemma place_after_profile: "map_option fst (snd (place_after k p b c s)) = map_option fst (snd (ls_place c s))"
  by (simp add: place_after_def option.map_comp comp_def)

lemma aside_viewerOutput [aside_rules]: "aside c s (ls_viewerOutput p chunk io s)"
proof -
  define t where "t = s\<lparr>ls_lastOutput := Some (io_now io), ls_lastPicture := vc_randomAccessPictures (ls_cache s),
      ls_viewerCache := vc_push chunk (Some H264) (ls_viewerCache s)\<rparr>"
  define r where "r = ls_startWith H264 (vc_bootstrap (ls_viewerCache t)) (Some Compatible) t"
  have u: "aside c u (ls_startWith H264 x (Some Compatible) u)" if "ls_wf u" for u x
  proof -
    note f = start_with [OF that, where k = H264 and startup = x and p = "Some Compatible"]
    have n: "ls_profiled Native c (fst (ls_startWith H264 x (Some Compatible) u)) = ls_profiled Native c u"
      unfolding profiled_place f(5) by (cases "x = None") (simp_all only: place_after_profile if_True if_False simp_thms)
    have "ls_skips (Some Compatible) c u" if "ls_profiled Native c u" using native_skips [OF that] by blast
    then show ?thesis using that f n by (auto simp: aside_def follows_def place_after_def)
  qed
  have v: "aside c u (ls_writeViewerChunk chunk (Some Compatible) io u)" if "ls_wf u" for u
  proof -
    note f = write_chunk [OF that, where chunk = chunk and p = "Some Compatible" and io = io]
    have "ls_skips (Some Compatible) c u" if "ls_profiled Native c u" using native_skips [OF that] by blast
    moreover have "ls_profiled Native c (fst (ls_writeViewerChunk chunk (Some Compatible) io u)) = ls_profiled Native c u"
      unfolding profiled_place f(6) by (rule refl)
    ultimately show ?thesis using that f by (auto simp: aside_def follows_def)
  qed
  have "aside c t r" unfolding r_def using u [of t] by (simp add: aside_def)
  moreover have "aside c q (ls_writeViewerChunk chunk (Some Compatible) io q)" for q using v [of q] by (simp add: aside_def)
  ultimately have "aside c t (seq_do r (ls_writeViewerChunk chunk (Some Compatible) io))" by (rule aside_seq)
  then have "aside c s (seq_do r (ls_writeViewerChunk chunk (Some Compatible) io))" by (rule aside_start) (simp_all add: t_def)
  then show ?thesis by (simp add: ls_viewerOutput_def t_def r_def Let_def)
qed

lemma aside_closeChangedClient: "aside c s (ls_closeChangedClient k d s)"
proof -
  have "aside c s (seq_do (ls_endClient CodecChanged d s) (ls_removeClient d))" by (intro aside_seq aside_rules)
  then show ?thesis by (simp add: ls_closeChangedClient_def split: option.split)
qed

lemma aside_closeChanged [aside_rules]: "aside c s (ls_closeChanged k s)"
  unfolding ls_closeChanged_def by (rule aside_each) (rule aside_closeChangedClient)

text \<open>After it, no native viewer is left that was started with another codec.\<close>

definition same_codec :: "nat \<Rightarrow> video_codec \<Rightarrow> session \<Rightarrow> bool" where
  "same_codec c k s \<longleftrightarrow> (\<forall>j. follows c s \<longrightarrow> snd (ls_place c s) = Some (Native, Some j) \<longrightarrow> j = k)"

lemma each_establishes:
  assumes "\<And>x t. W t \<Longrightarrow> W (fst (g x t))" "\<And>x t. W t \<Longrightarrow> P t \<Longrightarrow> P (fst (g x t))" "\<And>t. W t \<Longrightarrow> P (fst (g c t))"
  shows "c \<in> set xs \<Longrightarrow> W s \<Longrightarrow> P (fst (each_do g xs s))"
proof (induction xs arbitrary: s)
  case (Cons x xs)
  have k: "W t \<Longrightarrow> P t \<Longrightarrow> P (fst (each_do g ys t))" for ys t
    by (induction ys arbitrary: t) (simp_all add: fst_seq_do assms)
  show ?case
  proof (cases "c = x")
    case True
    then show ?thesis using k [of "fst (g x s)" xs] assms Cons.prems by (simp add: fst_seq_do)
  next
    case False
    then show ?thesis using Cons assms(1) by (simp add: fst_seq_do)
  qed
qed simp

lemma closeChanged_codec: "ls_wf s \<Longrightarrow> same_codec c k (fst (ls_closeChanged k s))"
proof -
  assume w: "ls_wf s"
  have removed: "\<not> follows c (fst (ls_removeClient c t))" for t
  proof -
    have "c \<notin> set (ls_clients (fst (ls_removeClient c t)))"
      using removeClient_ctl [of c t] by (simp add: ls_ctl_def set_delete_def)
    then show ?thesis by (simp add: follows_def)
  qed
  have one: "same_codec c k (fst (ls_closeChangedClient k c t))" for t
  proof (cases "Option.bind (map_of (ls_deliveries t) c) dl_startedCodec = None \<or> Option.bind (map_of (ls_deliveries t) c) dl_startedCodec = Some k")
    case True
    then have "fst (ls_closeChangedClient k c t) = t" by (auto simp: ls_closeChangedClient_def)
    then show ?thesis using True by (auto simp: same_codec_def ls_place_def)
  next
    case False
    then have "fst (ls_closeChangedClient k c t) = fst (ls_removeClient c (fst (ls_endClient CodecChanged c t)))"
      by (auto simp: ls_closeChangedClient_def fst_seq_do)
    then show ?thesis using removed by (simp add: same_codec_def)
  qed
  have keep: "same_codec c k (fst r)" if "aside c t r" "ls_wf t" "same_codec c k t" for t r
    using that by (auto simp: aside_def same_codec_def)
  show ?thesis
  proof (cases "c \<in> set (ls_profileClients Native s)")
    case True
    show ?thesis unfolding ls_closeChanged_def
      by (rule each_establishes [where W = ls_wf, OF _ _ _ True w])
         (use aside_closeChangedClient keep [OF aside_closeChangedClient] one in \<open>auto simp: aside_def\<close>)
  next
    case False
    then have "\<not> follows c s" by (auto simp: follows_def ls_profileClients_def)
    then have "\<not> follows c (fst (ls_closeChanged k s))" using aside_closeChanged [of c s k] w by (auto simp: aside_def)
    then show ?thesis by (simp add: same_codec_def)
  qed
qed

section \<open>The bytes of a native viewer\<close>

type_synonym source_history = "(bytes \<times> video_codec option) list"

text \<open>The chunks up to which the viewer joined (\<open>jh\<close>) and up to which it was started (\<open>sh\<close>): it was started with the bytes retained
  then, at once when it joined or later with a current picture, and has been sent the chunks after that.\<close>

definition started :: "nat \<Rightarrow> source_history \<Rightarrow> source_history \<Rightarrow> source_history \<Rightarrow> bytes \<Rightarrow> video_codec \<Rightarrow> session \<Rightarrow> bool" where
  "started c h jh sh w k s \<longleftrightarrow> snd (ls_place c s) = Some (Native, Some k) \<and>
     (\<exists>suf b. h = sh @ suf \<and> viewer_bootstrap (vc_pushes sh) = Some b \<and> vc_codec (vc_pushes sh) = Some k \<and>
        w = b @ concat (map fst suf)) \<and> (sh = jh \<or> vc_startupIncludesLatest (vc_pushes sh))"

definition ready :: "nat \<Rightarrow> source_history \<Rightarrow> source_history \<Rightarrow> source_history \<Rightarrow> bytes \<Rightarrow> video_codec \<Rightarrow> session \<Rightarrow> bool" where
  "ready c h jh sh w k s \<longleftrightarrow> (follows c s \<longrightarrow> (if c \<in> set (ls_pending s) then w = [] else started c h jh sh w k s))"

definition following :: "nat \<Rightarrow> source_history \<Rightarrow> source_history \<Rightarrow> source_history \<Rightarrow> bytes \<Rightarrow> session \<Rightarrow> bool" where
  "following c h jh sh w s \<longleftrightarrow> ls_wf s \<and> ls_cache s = vc_pushes h \<and>
     (follows c s \<longrightarrow> (if c \<in> set (ls_pending s) then w = [] else \<exists>k. started c h jh sh w k s \<and> vc_codec (ls_cache s) = Some k))"

lemma started_place: "ls_place c t = ls_place c s \<Longrightarrow> started c h jh sh w k t = started c h jh sh w k s"
  by (simp add: started_def)

text \<open>A viewer that waits is started with what is retained after the step.\<close>

definition turns :: "nat \<Rightarrow> source_history \<Rightarrow> source_history \<Rightarrow> source_history \<Rightarrow> session \<Rightarrow> bool" where
  "turns c h sh sh' s \<longleftrightarrow> (follows c s \<longrightarrow> sh' = (if c \<in> set (ls_pending s) then h else sh))"

lemma following_aside: "following c h jh sh w s \<Longrightarrow> aside c s r \<Longrightarrow> following c h jh sh (w @ sent_to c (snd r)) (fst r)"
  using started_place [of c "fst r" s] unfolding following_def aside_def pending_place by auto

lemma following_turns: "following c h jh sh w s \<Longrightarrow> turns c h sh sh' s \<Longrightarrow> following c h jh sh' w s"
  unfolding following_def turns_def by auto

lemma ready_aside: "ls_wf s \<Longrightarrow> ready c h jh sh w k s \<Longrightarrow> aside c s r \<Longrightarrow> ready c h jh sh (w @ sent_to c (snd r)) k (fst r)"
  using started_place [of c "fst r" s] unfolding ready_def aside_def pending_place by auto

lemma turns_aside: "ls_wf s \<Longrightarrow> turns c h sh sh' s \<Longrightarrow> aside c s r \<Longrightarrow> turns c h sh sh' (fst r)"
  unfolding turns_def aside_def pending_place by auto

lemma pushes_keep_bootstrap: "vc_bootstrap (vc_pushes es) \<noteq> None \<Longrightarrow> vc_bootstrap (vc_pushes (es @ fs)) \<noteq> None"
proof (induction fs rule: rev_induct)
  case (snoc f fs)
  then show ?case using push_keeps_bootstrap [of "vc_pushes (es @ fs)" "fst f" "snd f"] pushes_append [of "es @ fs" f] by simp
qed simp

lemma started_bootstrap: "started c h jh sh w k s \<Longrightarrow> vc_bootstrap (vc_pushes (h @ fs)) \<noteq> None"
proof -
  assume "started c h jh sh w k s"
  then obtain suf b where h: "h = sh @ suf" "viewer_bootstrap (vc_pushes sh) = Some b" by (auto simp: started_def)
  then have "vc_bootstrap (vc_pushes sh) \<noteq> None" by (cases "vc_bootstrap (vc_pushes sh)") (simp_all add: viewer_bootstrap_def)
  from pushes_keep_bootstrap [OF this, of "suf @ fs"] show ?thesis by (simp add: h)
qed

lemma bootstrap_codec: "vc_bootstrap c \<noteq> None \<Longrightarrow> vc_codec c \<noteq> None"
  by (auto simp: vc_bootstrap_def split: option.splits)

text \<open>A chunk is forwarded to the started viewers; then the waiting ones are started with a retained start that includes it.\<close>

lemma forwarded:
  fixes io
  assumes w: "ls_wf s" "ls_cache s = vc_pushes (h @ [e])" and r: "ready c h jh sh w k s" and p: "p \<noteq> Some Compatible"
    and tn: "turns c (h @ [e]) sh sh' s"
    and b: "startup = None \<or> startup = vc_startup (ls_cache s)" "vc_bootstrap (ls_cache s) \<noteq> None" "vc_codec (ls_cache s) = Some k"
  defines "r \<equiv> seq_do (ls_writeViewerChunk (fst e) p io s) (ls_startWith k startup p)"
  shows "following c (h @ [e]) jh sh' (w @ sent_to c (snd r)) (fst r)"
proof -
  define t where "t = fst (ls_writeViewerChunk (fst e) p io s)"
  note t = write_chunk [OF w(1), where chunk = "fst e" and p = p and io = io, folded t_def]
  note u = start_with [OF t(4), where k = k and startup = startup and p = p]
  have f: "fst r = fst (ls_startWith k startup p t)" by (simp add: r_def fst_seq_do t_def)
  have wf: "ls_wf (fst r)" "ls_cache (fst r) = vc_pushes (h @ [e])" unfolding f using u(2, 4) t(2) w(2) by simp_all
  have "if c \<in> set (ls_pending (fst r)) then w @ sent_to c (snd r) = []
      else \<exists>k. started c (h @ [e]) jh sh' (w @ sent_to c (snd r)) k (fst r) \<and> vc_codec (ls_cache (fst r)) = Some k"
    if "follows c (fst r)"
  proof -
    have "ls_profiled Native c (fst r) = ls_profiled Native c s"
      unfolding f profiled_place u(5) by (cases "startup = None") (simp_all only: place_after_profile t(6) if_True if_False simp_thms)
    then have n: "ls_profiled Native c s" and c: "c \<in> set (ls_clients s)" and fs: "follows c s"
      using that u(1, 3) t(1, 3) by (auto simp: follows_def f)
    have k: "ls_skips p c s = False" using native_skips [OF n, of p] p by simp
    note g = write_then_start [OF w(1) n p, where chunk = "fst e" and io = io and k = k and startup = startup, folded r_def]
    show ?thesis
    proof (cases "c \<in> set (ls_pending s)")
      case False
      then have pl: "ls_place c (fst r) = ls_place c s" unfolding g(5) by (simp add: place_after_def)
      have st: "started c h jh sh w k s" using r fs False by (simp add: ready_def)
      then obtain suf b where a: "h = sh @ suf" "viewer_bootstrap (vc_pushes sh) = Some b" "vc_codec (vc_pushes sh) = Some k"
        "w = b @ concat (map fst suf)" "sh = jh \<or> vc_startupIncludesLatest (vc_pushes sh)" by (auto simp: started_def)
      have sh: "sh' = sh" using tn fs False by (simp add: turns_def)
      have "started c (h @ [e]) jh sh' (w @ fst e) k (fst r)"
        using a st pl unfolding started_def sh by (intro conjI exI [of _ "suf @ [e]"] exI [of _ b]) simp_all
      moreover have "c \<notin> set (ls_pending (fst r))" using False pl by (simp add: pending_place)
      ultimately show ?thesis using g(6) [OF c] False wf(2) w(2) b(3) by auto
    next
      case True
      then have w0: "w = []" using r fs by (simp add: ready_def)
      show ?thesis
      proof (cases startup)
        case None
        then have "ls_place c (fst r) = ls_place c s" unfolding g(5) by simp
        then show ?thesis using g(6) [OF c] True None w0 by (simp add: pending_place)
      next
        case (Some x)
        have pl: "ls_place c (fst r) = (False, Some (Native, Some k))"
          unfolding g(5) place_after_def using Some True k c n by (auto simp: profiled_place)
        have "vc_startup (vc_pushes (h @ [e])) = Some x" using b(1) Some w(2) by simp
        moreover from this have il: "vc_startupIncludesLatest (vc_pushes (h @ [e]))"
          by (auto simp: vc_startup_def vc_startupIncludesLatest_def Let_def split: option.splits if_splits)
        ultimately have "viewer_bootstrap (vc_pushes (h @ [e])) = Some x"
          using b(2) w(2) by (auto simp: viewer_bootstrap_def)
        then have "started c (h @ [e]) jh sh' x k (fst r)"
          unfolding started_def using pl b(3) w(2) tn fs True il by (intro conjI exI [of _ "[]"] exI [of _ x]) (simp_all add: turns_def)
        then show ?thesis using g(6) [OF c] True Some w0 pl b(3) w(2) wf(2) by (auto simp: pending_place)
      qed
    qed
  qed
  then show ?thesis unfolding following_def using wf by blast
qed

text \<open>Handling a chunk.\<close>

lemma follows_outside: "outside s r \<Longrightarrow> follows c (fst r) \<Longrightarrow> follows c s"
  by (simp add: outside_def follows_def ls_profiled_def)

lemma forward_following:
  assumes w: "ls_wf s" "ls_cache s = vc_pushes (h @ [e])" and r: "ready c h jh sh w k s" and tn: "turns c (h @ [e]) sh sh' s"
    and b: "startup = None \<or> startup = vc_startup (ls_cache s)" "vc_bootstrap (ls_cache s) \<noteq> None" "vc_codec (ls_cache s) = Some k"
  shows "following c (h @ [e]) jh sh' (w @ sent_to c (snd (ls_forward k m (fst e) startup io s))) (fst (ls_forward k m (fst e) startup io s))"
proof (cases "k = H265")
  case False
  have "(None :: viewer_profile option) \<noteq> Some Compatible" by simp
  from forwarded [OF w r this tn b, of io] show ?thesis using False by (simp add: ls_forward_def)
next
  case True
  obtain q seeded where q: "ls_seedViewer m startup io s = (q, seeded)" by (cases "ls_seedViewer m startup io s")
  define v where "v = seq_do q (\<lambda>s. (s, if seeded then [] else process_input io (ls_viewer s) (fst e)))"
  have o: "outside s v" unfolding v_def using outside_seedViewer [of s m startup io] q
    by (intro outside_seq) (simp_all add: outside_def)
  then have a: "aside c s v" by (rule outside_aside)
  have n: "sent_to c (snd v) = []" using o by (simp add: outside_def sent_none)
  have wv: "ls_wf (fst v)" "ls_cache (fst v) = vc_pushes (h @ [e])" using a w by (simp_all add: aside_def)
  have rv: "ready c h jh sh w k (fst v)" using ready_aside [OF w(1) r a] n by simp
  have tv: "turns c (h @ [e]) sh sh' (fst v)" by (rule turns_aside [OF w(1) tn a])
  have p: "Some Native \<noteq> Some Compatible" by simp
  have f: "ls_forward k m (fst e) startup io s = seq_do (seq_do v (ls_writeViewerChunk (fst e) (Some Native) io)) (ls_startWith k startup (Some Native))"
    unfolding ls_forward_def q v_def using True by simp
  have "snd (ls_forward k m (fst e) startup io s) = snd v @
      snd (seq_do (ls_writeViewerChunk (fst e) (Some Native) io (fst v)) (ls_startWith k startup (Some Native)))"
    "fst (ls_forward k m (fst e) startup io s) =
      fst (seq_do (ls_writeViewerChunk (fst e) (Some Native) io (fst v)) (ls_startWith k startup (Some Native)))"
    unfolding f by (simp_all add: fst_seq_do snd_seq_do)
  then show ?thesis using forwarded [OF wv rv p tv, of startup io] b w(2) wv(2) n by simp
qed

lemma feed_following:
  assumes w: "ls_wf s" "ls_cache s = vc_pushes (h @ [e])" and r: "\<And>j. follows c s \<Longrightarrow> c \<notin> set (ls_pending s) \<Longrightarrow> \<exists>j. started c h jh sh w j s"
      "follows c s \<Longrightarrow> c \<in> set (ls_pending s) \<Longrightarrow> w = []" and tn: "turns c (h @ [e]) sh sh' s"
    and b: "vc_bootstrap (ls_cache s) \<noteq> None" "vc_codec (ls_cache s) = Some k"
  shows "following c (h @ [e]) jh sh' (w @ sent_to c (snd (ls_feed k (fst e) io s))) (fst (ls_feed k (fst e) io s))"
proof -
  define startup where "startup = (if ls_needsStartup io s then vc_startup (ls_cache s) else None)"
  define m where "m = (ls_profileClients Compatible s \<noteq> [])"
  define u where "u = ls_closeChanged k s"
  have u: "aside c s u" "same_codec c k (fst u)" using aside_closeChanged closeChanged_codec [OF w(1)] by (simp_all add: u_def)
  have wu: "ls_wf (fst u)" "ls_cache (fst u) = vc_pushes (h @ [e])" using u(1) w by (simp_all add: aside_def)
  have tu: "turns c (h @ [e]) sh sh' (fst u)" by (rule turns_aside [OF w(1) tn u(1)])
  have ru: "ready c h jh sh (w @ sent_to c (snd u)) k (fst u)"
    unfolding ready_def
  proof
    assume fu: "follows c (fst u)"
    then have f: "follows c s" "ls_place c (fst u) = ls_place c s" "sent_to c (snd u) = []" using u(1) w(1) by (auto simp: aside_def)
    show "if c \<in> set (ls_pending (fst u)) then w @ sent_to c (snd u) = [] else started c h jh sh (w @ sent_to c (snd u)) k (fst u)"
    proof (cases "c \<in> set (ls_pending s)")
      case True
      then show ?thesis using r(2) f by (simp add: pending_place)
    next
      case False
      then obtain j where j: "started c h jh sh w j s" using r(1) f(1) by blast
      then have "j = k" using u(2) fu f(2) by (auto simp: same_codec_def started_def)
      then show ?thesis using j f False started_place [OF f(2)] by (simp add: pending_place)
    qed
  qed
  obtain q seeded where q: "ls_seedSnapshot k startup io (fst u) = (q, seeded)" by (cases "ls_seedSnapshot k startup io (fst u)")
  have o: "outside (fst u) q" using outside_seedSnapshot [of "fst u" k startup io] q by simp
  then have a: "aside c (fst u) q" by (rule outside_aside)
  have n: "sent_to c (snd q) = []" using o by (simp add: outside_def sent_none)
  have wq: "ls_wf (fst q)" "ls_cache (fst q) = vc_pushes (h @ [e])" using a wu by (simp_all add: aside_def)
  have rq: "ready c h jh sh (w @ sent_to c (snd u)) k (fst q)" using ready_aside [OF wu(1) ru a] n by simp
  have tq: "turns c (h @ [e]) sh sh' (fst q)" by (rule turns_aside [OF wu(1) tu a])
  have st: "startup = None \<or> startup = vc_startup (ls_cache (fst q))" using w(2) wq(2) by (simp add: startup_def)
  define v where "v = ls_forward k m (fst e) startup io (fst q)"
  have v: "following c (h @ [e]) jh sh' ((w @ sent_to c (snd u)) @ sent_to c (snd v)) (fst v)"
    unfolding v_def using forward_following [OF wq rq tq st] b w(2) wq(2) by simp
  have l: "aside c (fst v) (fst v, if seeded then [] else process_input io (ls_snapshot (fst v)) (fst e))"
    by (rule aside_pure) simp_all
  have s: "sent_to c (process_input io x (fst e)) = []" for x by (rule sent_none) simp
  have e: "ls_feed k (fst e) io s = seq_do u (\<lambda>s. case ls_seedSnapshot k startup io s of (r, seeded) \<Rightarrow>
      seq_do (seq_do r (ls_forward k m (fst e) startup io)) (\<lambda>s. (s, if seeded then [] else process_input io (ls_snapshot s) (fst e))))"
    unfolding ls_feed_def Let_def startup_def m_def u_def by (rule refl)
  have "fst (ls_feed k (fst e) io s) = fst v" "sent_to c (snd (ls_feed k (fst e) io s)) = sent_to c (snd u) @ sent_to c (snd v)"
    unfolding e fst_seq_do snd_seq_do q by (simp_all add: fst_seq_do snd_seq_do v_def n s)
  then show ?thesis using v by simp
qed

lemma data_following:
  assumes "following c h jh sh w s" "ls_source s" "chunk \<noteq> []" "turns c (h @ [(chunk, hint)]) sh sh' s"
  shows "following c (h @ [(chunk, hint)]) jh sh' (w @ sent_to c (snd (ls_data chunk hint io s))) (fst (ls_data chunk hint io s))"
proof -
  define t where "t = s\<lparr>ls_quiet := True, ls_cache := vc_push chunk hint (ls_cache s)\<rparr>"
  define r where "r = (case (vc_bootstrap (ls_cache t), vc_codec (ls_cache t)) of (Some _, Some codec) \<Rightarrow> ls_feed codec chunk io t | _ \<Rightarrow> (t, []))"
  have t: "ls_wf t" "ls_cache t = vc_pushes (h @ [(chunk, hint)])" "ls_place c t = ls_place c s" "follows c t = follows c s"
    using assms(1) by (simp_all add: t_def following_def ls_wf_def pushes_append ls_place_def follows_def ls_profiled_def)
  have p: "c \<in> set (ls_pending t) \<longleftrightarrow> c \<in> set (ls_pending s)" by (simp add: t_def)
  have st: "\<exists>k. started c h jh sh w k t" if "follows c t" "c \<notin> set (ls_pending t)"
    using that assms(1) started_place [OF t(3)] by (auto simp: following_def t(4) p)
  have w0: "w = []" if "follows c t" "c \<in> set (ls_pending t)" using that assms(1) by (simp add: following_def t(4) p)
  have tt: "turns c (h @ [(chunk, hint)]) sh sh' t" using assms(4) by (simp add: turns_def t(4) p)
  have f: "following c (h @ [(chunk, hint)]) jh sh' (w @ sent_to c (snd r)) (fst r)"
  proof (cases "vc_bootstrap (ls_cache t)")
    case None
    then have "c \<in> set (ls_pending t)" if "follows c t"
      using st [OF that] started_bootstrap [of c h jh sh w _ t "[(chunk, hint)]"] t(2) by auto
    then show ?thesis using None w0 t by (auto simp: r_def following_def)
  next
    case (Some b)
    then obtain k where k: "vc_codec (ls_cache t) = Some k" using bootstrap_codec [of "ls_cache t"] by auto
    then have e: "r = ls_feed k chunk io t" using Some by (simp add: r_def)
    show ?thesis unfolding e
      using feed_following [OF t(1, 2), of c jh sh w sh' k io, OF st w0 tt] Some k by simp
  qed
  have a: "aside c u (each_do (ls_appendRecordingChunk chunk io) xs u)" for u xs by (intro aside_each aside_rules)
  have "ls_data chunk hint io s = seq_do r (\<lambda>s. each_do (ls_appendRecordingChunk chunk io) (map fst (ls_recordings s)) s)"
    unfolding ls_data_def Let_def t_def [symmetric] r_def using assms(2, 3) by simp
  then show ?thesis using following_aside [OF f a, of "map fst (ls_recordings (fst r))"] by (simp add: fst_seq_do snd_seq_do)
qed

section \<open>The log of a viewer\<close>

lemma foldl_set_add: "set (foldl (\<lambda>xs c. set_add c xs) ps cs) = set ps \<union> set cs"
    "distinct ps \<Longrightarrow> distinct (foldl (\<lambda>xs c. set_add c xs) ps cs)"
  by (induction cs arbitrary: ps) (auto simp: set_add_facts)

lemma attach_following: "ls_wf s \<Longrightarrow> following c [] jh sh [] (fst (ls_attachSource audio s))" "sent_to c (snd (ls_attachSource audio s)) = []"
proof -
  have o: "outside s (ls_cleanupSource s)" by (rule outside_cleanup)
  define t where "t = fst (ls_cleanupSource s)"
  have t: "ls_clients t = ls_clients s" "ls_pending t = ls_pending s" using o by (simp_all add: outside_def t_def)
  define q where "q = t\<lparr>ls_source := True, ls_audio := audio, ls_phase := Streaming, ls_cache := vc_new, ls_viewerCache := vc_new,
          ls_deliveries := map (\<lambda>(c, d). (c, d\<lparr>dl_sourceAttached := True\<rparr>)) (ls_deliveries t),
          ls_pending := foldl (\<lambda>xs c. set_add c xs) (ls_pending t) (ls_clients t)\<rparr>"
  have e: "ls_attachSource audio s = seq_do (seq_do (ls_cleanupSource s) (\<lambda>_. (q, []))) (ls_updateState None)"
    by (simp add: ls_attachSource_def seq_do_def split_beta Let_def q_def t_def)
  show "sent_to c (snd (ls_attachSource audio s)) = []"
    unfolding e using o by (simp add: snd_seq_do ls_updateState_def outside_def sent_none)
  assume "ls_wf s"
  then show "following c [] jh sh [] (fst (ls_attachSource audio s))"
    unfolding e by (auto simp: fst_seq_do ls_updateState_def q_def following_def ls_wf_def t foldl_set_add vc_pushes_def follows_def)
qed

lemma register_following:
  assumes "ls_wf s" "ls_cache s = vc_pushes h" "c \<notin> set (ls_clients s)"
  shows "following c h h h (sent_to c (snd (ls_register c p io s))) (fst (ls_register c p io s))"
proof -
  have np: "c \<notin> set (ls_pending s)" using assms by (auto simp: ls_wf_def)
  have "following c h h h (sent_to c (snd (joined c p io s))) (fst (joined c p io s))"
  proof (rule join_cases [of p "ls_enrol c p s" c io])
    fix k b
    assume j: "ls_joinBytes p (ls_enrol c p s) = Some (k, b)" "ls_join c p io (ls_enrol c p s) = ls_startClient c k b (ls_enrol c p s)"
    let ?r = "ls_startClient c k b (ls_enrol c p s)"
    have e: "joined c p io s = ?r" by (simp add: joined_def j(2))
    have pl: "snd (ls_place c (fst ?r)) = Some (p, Some k)"
      using startClient_place(5) [of c k b "ls_enrol c p s" c] by (simp add: ls_place_def enrolled)
    have "vc_codec (ls_cache s) = Some k \<and> viewer_bootstrap (ls_cache s) = Some b" if "p = Native"
      using j(1) that by (auto simp: ls_joinBytes_def ls_converted_def enrolled Let_def split: option.splits if_splits)
    moreover have "p = Native" if "follows c (fst ?r)" using that pl by (auto simp: follows_def profiled_place)
    ultimately have "started c h h h b k (fst ?r) \<and> vc_codec (ls_cache s) = Some k" if "follows c (fst ?r)"
      using that pl assms(2) unfolding started_def by (metis append_Nil2 concat.simps(1) list.simps(8))
    then show ?thesis
      unfolding following_def e using joined_wf [OF assms(1), of c p io] joined_cache [of c p io s] assms(2) np
      by (auto simp: e startClient_place enrolled)
  next
    assume o: "outside ((ls_enrol c p s)\<lparr>ls_pending := set_add c (ls_pending (ls_enrol c p s))\<rparr>) (ls_join c p io (ls_enrol c p s))"
    then have "c \<in> set (ls_pending (fst (joined c p io s)))" "sent_to c (snd (joined c p io s)) = []"
      by (simp_all add: joined_def outside_def set_add_facts sent_none)
    then show ?thesis
      unfolding following_def using joined_wf [OF assms(1)] joined_cache [of c p io s] assms(2) by simp
  qed
  then have "following c h h h (sent_to c (snd (joined c p io s)) @ sent_to c (snd (seq_do (ls_updateState None (fst (joined c p io s))) (ls_awaitStart c))))
      (fst (seq_do (ls_updateState None (fst (joined c p io s))) (ls_awaitStart c)))"
    by (rule following_aside) (intro aside_seq aside_rules)
  then show ?thesis by (simp add: register_joined fst_seq_do snd_seq_do)
qed

text \<open>A viewer is enrolled by the call that adds it, or when the stop it waited for has settled.\<close>

fun enrols :: "nat \<Rightarrow> stream_event \<Rightarrow> bool" where
  "enrols c (SeAdd d profile gone io) \<longleftrightarrow> d = c"
| "enrols c (SeAddTransport d gone io) \<longleftrightarrow> d = c"
| "enrols c (SeResume (Waiter d profile transport) gone io) \<longleftrightarrow> d = c"
| "enrols c _ \<longleftrightarrow> False"

fun is_attach :: "stream_event \<Rightarrow> bool" where
  "is_attach (SeAttach audio) = True"
| "is_attach _ = False"

fun history_after :: "source_history \<Rightarrow> session \<Rightarrow> stream_event \<Rightarrow> source_history" where
  "history_after h s (SeAttach audio) = []"
| "history_after h s (SeData chunk hint io) = (if ls_source s \<and> chunk \<noteq> [] then h @ [(chunk, hint)] else h)"
| "history_after h s _ = h"

definition sent_before :: "nat \<Rightarrow> bytes \<Rightarrow> stream_event \<Rightarrow> bytes" where
  "sent_before c w e = (if enrols c e \<or> is_attach e then [] else w)"

text \<open>A chunk history noted again when the viewer is enrolled or the source attached (when it joined the source), or also in
  every step before which it still waits (when it was started).\<close>

definition joined_at :: "nat \<Rightarrow> source_history \<Rightarrow> source_history \<Rightarrow> stream_event \<Rightarrow> source_history" where
  "joined_at c jh h e = (if enrols c e \<or> is_attach e then h else jh)"

definition started_at :: "nat \<Rightarrow> source_history \<Rightarrow> source_history \<Rightarrow> session \<Rightarrow> stream_event \<Rightarrow> source_history" where
  "started_at c sh h s e = (if enrols c e \<or> is_attach e \<or> c \<in> set (ls_pending s) then h else sh)"

text \<open>The chunks since the source was attached, those of them when the viewer joined and when it was started, and the bytes sent to
  it since it joined. The HTTP server enrols a response once.\<close>

inductive viewer_log :: "nat \<Rightarrow> source_history \<Rightarrow> source_history \<Rightarrow> source_history \<Rightarrow> bytes \<Rightarrow> session \<Rightarrow> bool" for c where
  new: "viewer_log c [] [] [] [] ls_new"
| step: "viewer_log c h jh sh w s \<Longrightarrow> (enrols c e \<Longrightarrow> c \<notin> set (ls_clients s)) \<Longrightarrow>
    viewer_log c (history_after h s e) (joined_at c jh (history_after h s e) e) (started_at c sh (history_after h s e) s e)
      (sent_before c w e @ sent_to c (snd (ls_step s e))) (fst (ls_step s e))"

lemma enrol_step:
  assumes "enrols c e" "ls_wf s" "ls_cache s = vc_pushes h" "c \<notin> set (ls_clients s)"
  shows "following c h h h (sent_to c (snd (ls_step s e))) (fst (ls_step s e))"
proof -
  have r: "following c h h h (sent_to c (snd (ls_register c p io t))) (fst (ls_register c p io t))"
    if "ls_clients t = ls_clients s" "ls_pending t = ls_pending s" "ls_cache t = ls_cache s" for p io t
    using that assms(2-4) by (intro register_following) (simp_all add: ls_wf_def)
  have n: "following c h h h (sent_to c outs) t"
    if "ls_clients t = ls_clients s" "ls_pending t = ls_pending s" "ls_cache t = ls_cache s" "list_all (\<lambda>x. \<not> is_write x) outs" for t outs
    using that assms(2-4) by (simp add: following_def ls_wf_def follows_def)
  have a: "following c h h h (sent_to c (snd (ls_addClient c p gone io t))) (fst (ls_addClient c p gone io t))"
    if "ls_clients t = ls_clients s" "ls_pending t = ls_pending s" "ls_cache t = ls_cache s" for p gone io t
    using that r [OF that, of p io] n [of t "[]"] n [of "t\<lparr>ls_waiters := ls_waiters t @ [Waiter c p False]\<rparr>" "[]"] by (simp add: ls_addClient_def)
  have tr: "following c h h h (sent_to c (snd (ls_enrolTransport c io t))) (fst (ls_enrolTransport c io t))"
    if "ls_clients t = ls_clients s" "ls_pending t = ls_pending s" "ls_cache t = ls_cache s" for io t
    unfolding ls_enrolTransport_def using that by (intro a) simp_all
  have "following c h h h (sent_to c (snd (ls_addTransportClient c gone io s))) (fst (ls_addTransportClient c gone io s))" for gone io
    using tr [of s] n [of s "[]"] n [of "s\<lparr>ls_waiters := ls_waiters s @ [Waiter c Compatible True]\<rparr>" "[]"] by (simp add: ls_addTransportClient_def)
  moreover have "following c h h h (sent_to c (snd (ls_resume (Waiter c p x) gone io s))) (fst (ls_resume (Waiter c p x) gone io s))" for p x gone io
    using n [of "s\<lparr>ls_resumed := q\<rparr>" "[SoDestroy c]" for q] n [of "s\<lparr>ls_resumed := q\<rparr>" "[]" for q] n [of s "[]"]
      tr [of "s\<lparr>ls_resumed := q\<rparr>" for q] r [of "s\<lparr>ls_resumed := q\<rparr>" for q]
    by (simp add: ls_resume_def Let_def split: option.split)
  ultimately show ?thesis using assms(1) a [of s] by (cases "(c, e)" rule: enrols.cases) simp_all
qed

lemma other_step:
  assumes "\<not> enrols c e" "\<not> is_attach e" "\<And>chunk hint io. e \<noteq> SeData chunk hint io"
  shows "aside c s (ls_step s e)"
proof -
  have m: "aside c s (s\<lparr>ls_audioConsumers := a\<rparr>, [])" "aside c s (ls_release s, [])" "aside c s (ls_recordClipEnds i s, [])" for a i
    using outside_lease [THEN outside_aside] by (simp_all) (rule aside_pure; simp)
  have e: "aside c s (ls_removeClient d (ls_markViewerClose r d s))" for d r
    using aside_seq [OF aside_mark [of c "[]" s r d] aside_removeClient [of c _ d]] by (simp add: seq_do_def split_beta)
  show ?thesis using assms
    by (cases "(c, e)" rule: enrols.cases)
       (simp_all add: aside_addClient aside_transport aside_resume aside_leases aside_rules aside_timer m e)
qed

lemma quiet_history: "\<not> is_attach e \<Longrightarrow> (\<And>chunk hint io. e \<noteq> SeData chunk hint io) \<Longrightarrow> history_after h s e = h"
  by (cases "(h, s, e)" rule: history_after.cases) auto

lemma log_following: "viewer_log c h jh sh w s \<Longrightarrow> following c h jh sh w s"
proof (induction rule: viewer_log.induct)
  case new
  show ?case by (simp add: following_def ls_wf_def ls_new_def vc_pushes_def follows_def)
next
  case (step h jh sh w s e)
  have wf: "ls_wf s" "ls_cache s = vc_pushes h" using step.IH by (simp_all add: following_def)
  have data: "following c (h @ [(chunk, hint)]) jh (started_at c sh (h @ [(chunk, hint)]) s e) (w @ sent_to c (snd (ls_data chunk hint io s)))
      (fst (ls_data chunk hint io s))" if "e = SeData chunk hint io" "ls_source s" "chunk \<noteq> []" for chunk hint io
    using that by (intro data_following [OF step.IH]) (simp_all add: turns_def started_at_def)
  have other: "following c h jh (started_at c sh h s e) (w @ sent_to c (snd (ls_step s e))) (fst (ls_step s e))"
    if "\<not> enrols c e" "\<not> is_attach e" "\<And>chunk hint io. e \<noteq> SeData chunk hint io"
    using that by (intro following_aside [OF following_turns [OF step.IH] other_step]) (simp_all add: turns_def started_at_def)
  show ?case
  proof (cases "is_attach e")
    case True
    then obtain audio where "e = SeAttach audio" by (cases e) simp_all
    then show ?thesis using attach_following(1) [OF wf(1)] attach_following(2) by (simp add: sent_before_def)
  next
    case att: False
    show ?thesis
    proof (cases "\<exists>chunk hint io. e = SeData chunk hint io")
      case True
      then obtain chunk hint io where e: "e = SeData chunk hint io" by blast
      show ?thesis
      proof (cases "ls_source s \<and> chunk \<noteq> []")
        case True
        then show ?thesis using data [OF e] by (simp add: e sent_before_def joined_at_def)
      next
        case False
        have "following c h jh (started_at c sh h s e) w s"
          by (rule following_turns [OF step.IH]) (simp add: turns_def started_at_def e)
        then show ?thesis using False by (auto simp: e sent_before_def joined_at_def ls_data_def)
      qed
    next
      case False
      have h: "history_after h s e = h" by (rule quiet_history [OF att]) (use False in blast)
      show ?thesis
      proof (cases "enrols c e")
        case True
        then show ?thesis unfolding h using enrol_step [OF True wf step.hyps(2) [OF True]]
          by (simp add: sent_before_def joined_at_def started_at_def)
      next
        case en: False
        then show ?thesis unfolding h using other [OF en att] False by (simp add: sent_before_def joined_at_def att)
      qed
    qed
  qed
qed

text \<open>C1: what a viewer of the camera's own stream receives, whatever viewers, leases, stops, recordings and conversions do around it. Once it
  has been started, the bytes written to it since it joined the source (was enrolled, or the source was attached) are the
  parameter sets of the codec the source now has, each a whole unit of what had been received when it was started, and after them an unbroken piece of
  the source that reaches its latest byte. If a current random-access picture was retained when the viewer was started, the piece starts at a
  random-access picture and includes every later chunk. If none was (no picture had arrived since the parameter sets, or its group
  was over the limit), the viewer was started by the very step with which it joined, and the piece is exactly the chunks that came after it joined,
  which need not begin with a picture.\<close>

theorem native_viewer_stream:
  assumes "viewer_log c h jh sh w s" "follows c s" "c \<notin> set (ls_pending s)"
  shows "\<exists>k hd rest suf. w = hd @ rest \<and> h = sh @ suf \<and> header_ok (concat (map fst sh)) k hd \<and> vc_codec (ls_cache s) = Some k \<and>
    suffix rest (concat (map fst h)) \<and>
    (if vc_startupIncludesLatest (vc_pushes sh) then picture_start k rest \<and> suffix (concat (map fst suf)) rest
     else sh = jh \<and> rest = concat (map fst suf))"
proof -
  obtain k where k: "started c h jh sh w k s" "vc_codec (ls_cache s) = Some k"
    using log_following [OF assms(1)] assms(2, 3) by (auto simp: following_def)
  then obtain suf b where h: "h = sh @ suf" "viewer_bootstrap (vc_pushes sh) = Some b" "vc_codec (vc_pushes sh) = Some k"
    "w = b @ concat (map fst suf)" "sh = jh \<or> vc_startupIncludesLatest (vc_pushes sh)" by (auto simp: started_def)
  note i = pushes_inv [of sh, unfolded cache_inv_def]
  obtain d where d: "vc_bootstrap (vc_pushes sh) = Some d" using h(2) by (cases "vc_bootstrap (vc_pushes sh)") (simp_all add: viewer_bootstrap_def)
  show ?thesis
  proof (cases "vc_startupIncludesLatest (vc_pushes sh)")
    case False
    then have "b = d" using h(2) d by (simp add: viewer_bootstrap_def)
    moreover have "header_ok (concat (map fst sh)) k d" using bootstrap_ok [of _ "vc_pushes sh" d] i h(3) d by auto
    ultimately show ?thesis using h k(2) False
      by (intro exI [of _ k] exI [of _ d] exI [of _ "concat (map fst suf)"] exI [of _ suf]) (auto simp: suffix_def)
  next
    case True
    then have "vc_startup (vc_pushes sh) \<noteq> None"
      using d by (auto simp: vc_startup_def vc_startupIncludesLatest_def Let_def split: option.splits)
    then have st: "vc_startup (vc_pushes sh) = Some b" using True h(2) d by (auto simp: viewer_bootstrap_def)
    obtain x where x: "vc_openingCurrent (vc_pushes sh)" "b = x @ concat (vc_openingChunks (vc_pushes sh))"
        "vc_openingHeaders (vc_pushes sh) = Some x \<or> vc_bootstrap (vc_pushes sh) = Some x"
      using startup_parts [OF st] by blast
    have p: "picture_start k (concat (vc_openingChunks (vc_pushes sh)))" "suffix (concat (vc_openingChunks (vc_pushes sh))) (concat (map fst sh))"
      using i x(1) h(3) by auto
    have "header_ok (concat (map fst sh)) k x" using x(3) i h(3) bootstrap_ok [of _ "vc_pushes sh" x] by (auto simp: heads_ok_def)
    then show ?thesis using x(2) h k(2) p True picture_start_append [OF p(1), of "concat (map fst suf)"]
      by (intro exI [of _ k] exI [of _ x] exI [of _ "concat (vc_openingChunks (vc_pushes sh)) @ concat (map fst suf)"] exI [of _ suf])
         (simp add: suffix_append suffix_def)
  qed
qed

definition sample_chunk :: bytes where
  "sample_chunk = [0, 0, 0, 1, 0x67, 66, 0, 0, 1, 0x68, 7, 0, 0, 1, 0x65, 0x88, 1, 2]"

definition sample_playing :: session where
  "sample_playing = fst (ls_step sample_streaming (SeData sample_chunk None sample_io))"

lemma sample_playing_follows: "follows 7 sample_playing \<and> 7 \<notin> set (ls_pending sample_playing)"
  by code_simp

lemma sample_sent: "sent_to 7 (snd (ls_step sample_streaming (SeData sample_chunk None sample_io))) = sample_chunk"
  by code_simp

lemma sample_playing_log: "viewer_log 7 [(sample_chunk, None)] [] [(sample_chunk, None)] sample_chunk sample_playing"
proof -
  have a: "viewer_log 7 [] [] [] (sent_to 7 (snd (ls_step ls_new (SeAdd 7 Native False sample_io)))) sample_starting"
    using viewer_log.step [OF viewer_log.new, of 7 "SeAdd 7 Native False sample_io", unfolded sample_steps]
    by (simp add: sent_before_def joined_at_def started_at_def ls_new_def [THEN arg_cong, of ls_clients])
  have b: "viewer_log 7 [] [] [] [] sample_streaming"
    using viewer_log.step [OF a, of "SeAttach False", unfolded sample_steps] attach_following(2) by (simp add: sent_before_def joined_at_def started_at_def)
  have "ls_source sample_streaming" "sample_chunk \<noteq> []" "7 \<in> set (ls_pending sample_streaming)" by (simp_all add: sample_streaming_def sample_starting_def sample_chunk_def)
  then show ?thesis
    using viewer_log.step [OF b, of "SeData sample_chunk None sample_io", unfolded sample_sent sample_playing_def [symmetric]]
    by (simp add: sent_before_def joined_at_def started_at_def)
qed

definition sample_history :: source_history where
  "sample_history = [(sample_chunk, None)]"

lemma native_viewer_stream_witness:
  "\<exists>k hd rest suf. sample_chunk = hd @ rest \<and> sample_history = sample_history @ suf \<and> header_ok (concat (map fst sample_history)) k hd \<and>
    vc_codec (ls_cache sample_playing) = Some k \<and> suffix rest (concat (map fst sample_history)) \<and>
    (if vc_startupIncludesLatest (vc_pushes sample_history) then picture_start k rest \<and> suffix (concat (map fst suf)) rest
     else sample_history = [] \<and> rest = concat (map fst suf))"
  by (rule native_viewer_stream [OF sample_playing_log [folded sample_history_def] conjunct1 [OF sample_playing_follows] conjunct2 [OF sample_playing_follows]])

end
