(* ===== verification/Mcs_Parser.thy ===== *)
theory Mcs_Parser
  imports Machine Js_Value
begin

text \<open>
  \<open>mega/android-push/parser.ts\<close>: the frames of the Android push (MCS) byte stream. One version byte opens a
  connection; then each frame is a tag byte, the length as a variable-length integer and that many bytes of
  protobuf. The protobuf library is not part of the program: its integer reader and its message decoder are
  the fields of \<open>protobuf\<close>. What the parser relies on is \<open>reader_ok\<close>: a number once complete is not changed
  by later bytes, and a number that is cut off is shorter than ten bytes (and the reader has then run to the end
  of the buffer, which is the number of bytes seen so far).
\<close>

section \<open>The parser\<close>

datatype mcs_state = VersionTagAndSize | TagAndSize | SizeOnly | ProtoBytes

datatype size_reading = SizeOk int nat | SizeShort | SizeThrow

record protobuf =
  pb_int32 :: "bytes \<Rightarrow> size_reading"
  pb_decode :: "string \<Rightarrow> bytes \<Rightarrow> json option"

datatype mcs_error = BufferOverflow | WrongVersion int | BadFrameSize | ReaderFailed | DecodeFailed

datatype mcs_output = McsMessage int json | McsThrow mcs_error

record mcs_parser =
  mp_data :: bytes
  mp_state :: mcs_state
  mp_tag :: int
  mp_size :: int
  mp_soFar :: nat

definition mp_new :: mcs_parser where
  "mp_new = \<lparr> mp_data = [], mp_state = VersionTagAndSize, mp_tag = 0, mp_size = 0, mp_soFar = 0 \<rparr>"

definition MAX_BUFFER_BYTES :: nat where
  "MAX_BUFFER_BYTES = 4 * 1024 * 1024"

definition MAX_FRAME_BYTES :: int where
  "MAX_FRAME_BYTES = 2 * 1024 * 1024"

definition tag_type :: "int \<Rightarrow> string option" where
  "tag_type t = map_of
     [(0, ''mcs_proto.HeartbeatPing''), (1, ''mcs_proto.HeartbeatAck''), (2, ''mcs_proto.LoginRequest''),
      (3, ''mcs_proto.LoginResponse''), (4, ''mcs_proto.Close''), (7, ''mcs_proto.IqStanza''),
      (8, ''mcs_proto.DataMessageStanza''), (10, ''mcs_proto.StreamErrorStanza'')] t"

fun mp_minBytes :: "mcs_parser \<Rightarrow> int" where
  "mp_minBytes s = (case mp_state s of VersionTagAndSize \<Rightarrow> 3 | TagAndSize \<Rightarrow> 2 | SizeOnly \<Rightarrow> int (mp_soFar s) + 1
     | ProtoBytes \<Rightarrow> mp_size s)"

text \<open>Every handler ends by returning (or throwing), or by calling \<open>waitForData\<close> again.\<close>

datatype mcs_next = Done mcs_parser "mcs_output list" | Again mcs_parser "mcs_output list"

definition mp_onBytes :: "protobuf \<Rightarrow> mcs_parser \<Rightarrow> mcs_next" where
  "mp_onBytes pb s =
     (if mp_size s = 0 then Again (s\<lparr>mp_state := TagAndSize\<rparr>) [McsMessage (mp_tag s) (JObj [])]
      else if int (length (mp_data s)) < mp_size s then Done (s\<lparr>mp_state := ProtoBytes\<rparr>) []
      else
        (let buf = take (nat (mp_size s)) (mp_data s); s = s\<lparr>mp_data := drop (nat (mp_size s)) (mp_data s)\<rparr> in
         case tag_type (mp_tag s) of
           None \<Rightarrow> Again (s\<lparr>mp_state := TagAndSize\<rparr>) [McsMessage (mp_tag s) (JObj [])]
         | Some ty \<Rightarrow>
             (case pb_decode pb ty buf of
                None \<Rightarrow> Done s [McsThrow DecodeFailed]
              | Some ob \<Rightarrow> Again (s\<lparr>mp_state := TagAndSize\<rparr>) [McsMessage (mp_tag s) ob])))"

definition mp_onSize :: "protobuf \<Rightarrow> mcs_parser \<Rightarrow> mcs_next" where
  "mp_onSize pb s =
     (case pb_int32 pb (mp_data s) of
        SizeShort \<Rightarrow> Again (s\<lparr>mp_soFar := length (mp_data s), mp_state := SizeOnly\<rparr>) []
      | SizeThrow \<Rightarrow> Done s [McsThrow ReaderFailed]
      | SizeOk v n \<Rightarrow>
          (if v < 0 \<or> v > MAX_FRAME_BYTES then Done (s\<lparr>mp_size := v\<rparr>) [McsThrow BadFrameSize]
           else
             (let s = s\<lparr>mp_size := v, mp_data := drop n (mp_data s), mp_soFar := 0\<rparr> in
              if v > 0 then Again (s\<lparr>mp_state := ProtoBytes\<rparr>) [] else mp_onBytes pb s)))"

definition mp_onTag :: "protobuf \<Rightarrow> mcs_parser \<Rightarrow> mcs_next" where
  "mp_onTag pb s = mp_onSize pb (s\<lparr>mp_tag := sint (hd (mp_data s)), mp_data := tl (mp_data s)\<rparr>)"

definition mp_onVersion :: "protobuf \<Rightarrow> mcs_parser \<Rightarrow> mcs_next" where
  "mp_onVersion pb s =
     (let version = sint (hd (mp_data s)); s = s\<lparr>mp_data := tl (mp_data s)\<rparr> in
      if version < 38 then Done s [McsThrow (WrongVersion version)] else mp_onTag pb s)"

fun mp_turn :: "protobuf \<Rightarrow> mcs_parser \<Rightarrow> mcs_next" where
  "mp_turn pb s =
     (case mp_state s of
        VersionTagAndSize \<Rightarrow> mp_onVersion pb s
      | TagAndSize \<Rightarrow> mp_onTag pb s
      | SizeOnly \<Rightarrow> mp_onSize pb s
      | ProtoBytes \<Rightarrow> mp_onBytes pb s)"

text \<open>The loop ends: each turn consumes a byte, or goes on to a state that needs less of what is there.\<close>

definition mp_weight :: "mcs_parser \<Rightarrow> nat" where
  "mp_weight s = 6 * length (mp_data s) +
     (case mp_state s of VersionTagAndSize \<Rightarrow> 0 | TagAndSize \<Rightarrow> 0 | ProtoBytes \<Rightarrow> 1
      | SizeOnly \<Rightarrow> if mp_soFar s < length (mp_data s) then 3 else 2)"

lemma onBytes_weight: "mp_onBytes pb s = Again t out \<Longrightarrow> mp_weight t \<le> 6 * length (mp_data s)"
  by (auto simp: mp_onBytes_def mp_weight_def Let_def split: if_splits option.splits)

lemma onSize_weight: "mp_onSize pb s = Again t out \<Longrightarrow> mp_weight t \<le> 6 * length (mp_data s) + 2"
  by (auto simp: mp_onSize_def mp_weight_def Let_def split: if_splits size_reading.splits dest!: onBytes_weight)

lemma onTag_weight: "mp_onTag pb s = Again t out \<Longrightarrow> mp_data s \<noteq> [] \<Longrightarrow> mp_weight t < 6 * length (mp_data s)"
  unfolding mp_onTag_def by (drule onSize_weight) (cases "mp_data s", simp_all)

lemma turn_weight:
  assumes "\<not> int (length (mp_data s)) < mp_minBytes s" "mp_turn pb s = Again t out"
  shows "mp_weight t < mp_weight s"
proof (cases "mp_state s")
  case VersionTagAndSize
  then have "2 < length (mp_data s)" "mp_onVersion pb s = Again t out" using assms by simp_all
  then have "mp_weight t < 6 * length (tl (mp_data s))"
    by (auto simp: mp_onVersion_def Let_def split: if_splits dest!: onTag_weight) (cases "mp_data s"; simp)
  then show ?thesis by (simp add: mp_weight_def)
next
  case TagAndSize
  then have "mp_data s \<noteq> []" "mp_onTag pb s = Again t out" using assms by auto
  then show ?thesis using onTag_weight [of pb s t out] by (simp add: mp_weight_def)
next
  case SizeOnly
  then show ?thesis using assms onSize_weight [of pb s t out] by (simp add: mp_weight_def)
next
  case ProtoBytes
  then show ?thesis using assms onBytes_weight [of pb s t out] by (simp add: mp_weight_def)
qed

function mp_wait :: "protobuf \<Rightarrow> mcs_parser \<Rightarrow> mcs_parser \<times> mcs_output list" where
  "mp_wait pb s =
     (if int (length (mp_data s)) < mp_minBytes s then (s, [])
      else
        (case mp_turn pb s of
           Done t out \<Rightarrow> (t, out)
         | Again t out \<Rightarrow> (let (u, rest) = mp_wait pb t in (u, out @ rest))))"
  by pat_completeness auto
termination
  by (relation "measure (\<lambda>(pb, s). mp_weight s)") (auto simp: turn_weight simp del: mp_minBytes.simps mp_turn.simps)

declare mp_wait.simps [simp del]

definition mp_handleData :: "protobuf \<Rightarrow> mcs_parser \<Rightarrow> bytes \<Rightarrow> mcs_parser \<times> mcs_output list" where
  "mp_handleData pb s chunk =
     (if length (mp_data s) + length chunk > MAX_BUFFER_BYTES then (s, [McsThrow BufferOverflow])
      else mp_wait pb (s\<lparr>mp_data := mp_data s @ chunk\<rparr>))"

section \<open>The cut of the stream does not matter\<close>

definition reader_ok :: "protobuf \<Rightarrow> bool" where
  "reader_ok pb \<longleftrightarrow> (\<forall>xs.
     (case pb_int32 pb xs of
        SizeOk v n \<Rightarrow> 0 < n \<and> n \<le> length xs \<and> (\<forall>ys. pb_int32 pb (xs @ ys) = SizeOk v n)
      | SizeShort \<Rightarrow> length xs < 10
      | SizeThrow \<Rightarrow> \<forall>ys. pb_int32 pb (xs @ ys) = SizeThrow))"

lemma reader_Ok: "reader_ok pb \<Longrightarrow> pb_int32 pb xs = SizeOk v n \<Longrightarrow> 0 < n \<and> n \<le> length xs \<and> pb_int32 pb (xs @ ys) = SizeOk v n"
  and reader_Throw: "reader_ok pb \<Longrightarrow> pb_int32 pb xs = SizeThrow \<Longrightarrow> pb_int32 pb (xs @ ys) = SizeThrow"
  and reader_Short: "reader_ok pb \<Longrightarrow> pb_int32 pb xs = SizeShort \<Longrightarrow> length xs < 10"
  unfolding reader_ok_def by (drule spec [of _ xs], simp)+

abbreviation mp_more :: "bytes \<Rightarrow> mcs_parser \<Rightarrow> mcs_parser" where
  "mp_more ys s \<equiv> s\<lparr>mp_data := mp_data s @ ys\<rparr>"

definition next_more :: "bytes \<Rightarrow> mcs_next \<Rightarrow> mcs_next" where
  "next_more ys r = (case r of Done t out \<Rightarrow> Done (mp_more ys t) out | Again t out \<Rightarrow> Again (mp_more ys t) out)"

lemma next_more_simps [simp]: "next_more ys (Done t out) = Done (mp_more ys t) out" "next_more ys (Again t out) = Again (mp_more ys t) out"
  by (simp_all add: next_more_def)

lemma onBytes_more: "mp_size s \<le> int (length (mp_data s)) \<Longrightarrow> mp_onBytes pb (mp_more ys s) = next_more ys (mp_onBytes pb s)"
  by (auto simp: mp_onBytes_def Let_def nat_le_iff split: option.split)

lemma onSize_more:
  "reader_ok pb \<Longrightarrow> pb_int32 pb (mp_data s) \<noteq> SizeShort \<Longrightarrow> mp_onSize pb (mp_more ys s) = next_more ys (mp_onSize pb s)"
  by (cases "pb_int32 pb (mp_data s)")
     (auto simp: mp_onSize_def Let_def reader_Ok reader_Throw mp_onBytes_def)

lemma onSize_state: "mp_onSize pb (s\<lparr>mp_soFar := a, mp_state := b\<rparr>) = Again t out \<Longrightarrow> mp_onSize pb s = Again t out"
  by (auto simp: mp_onSize_def mp_onBytes_def Let_def split: size_reading.splits if_splits option.splits)

lemma onSize_short: "mp_onSize pb s = Again t out \<Longrightarrow> mp_state t = SizeOnly \<Longrightarrow>
    pb_int32 pb (mp_data s) = SizeShort \<and> t = s\<lparr>mp_soFar := length (mp_data s), mp_state := SizeOnly\<rparr> \<and> out = []"
  by (auto simp: mp_onSize_def mp_onBytes_def Let_def split: size_reading.splits if_splits option.splits)

lemma onSize_done: "mp_onSize pb s = Done t out \<Longrightarrow> \<exists>e. out = [McsThrow e]"
  by (auto simp: mp_onSize_def mp_onBytes_def Let_def split: size_reading.splits if_splits option.splits)

definition holds_back :: "mcs_next \<Rightarrow> bool" where
  "holds_back r \<longleftrightarrow> (case r of Done t out \<Rightarrow> False | Again t out \<Rightarrow> mp_state t = SizeOnly)"

lemma onSize_go: "reader_ok pb \<Longrightarrow> \<not> holds_back (mp_onSize pb s) \<Longrightarrow> mp_onSize pb (mp_more ys s) = next_more ys (mp_onSize pb s)"
  by (cases "pb_int32 pb (mp_data s) = SizeShort") (simp_all add: holds_back_def onSize_more, simp add: mp_onSize_def)

lemma onTag_more:
  assumes "reader_ok pb" "mp_data s \<noteq> []" "\<not> holds_back (mp_onTag pb s)"
  shows "mp_onTag pb (mp_more ys s) = next_more ys (mp_onTag pb s)"
  using onSize_go [of pb "s\<lparr>mp_tag := sint (hd (mp_data s)), mp_data := tl (mp_data s)\<rparr>" ys] assms by (simp add: mp_onTag_def)

lemma onTag_short: "mp_onTag pb s = Again t out \<Longrightarrow> mp_state t = SizeOnly \<Longrightarrow> mp_data s \<noteq> [] \<Longrightarrow>
    out = [] \<and> mp_soFar t = length (mp_data t) \<and> pb_int32 pb (mp_data t) = SizeShort \<and>
    mp_onTag pb (mp_more ys s) = mp_onSize pb ((mp_more ys t)\<lparr>mp_soFar := mp_soFar s, mp_state := mp_state s\<rparr>)"
  unfolding mp_onTag_def by (drule (1) onSize_short) simp

lemma turn_more:
  assumes "reader_ok pb" "\<not> int (length (mp_data s)) < mp_minBytes s" "\<not> holds_back (mp_turn pb s)"
  shows "mp_turn pb (mp_more ys s) = next_more ys (mp_turn pb s)"
proof (cases "mp_state s")
  case VersionTagAndSize
  then have "2 < length (mp_data s)" using assms(2) by simp
  then obtain b c bs where d: "mp_data s = b # c # bs" by (cases "mp_data s"; cases "tl (mp_data s)") auto
  then show ?thesis
    using VersionTagAndSize assms onTag_more [of pb "s\<lparr>mp_data := tl (mp_data s)\<rparr>" ys] by (auto simp: mp_onVersion_def Let_def)
next
  case SizeOnly
  then show ?thesis using assms onSize_go [of pb s ys] by simp
next
  case TagAndSize
  then have "mp_data s \<noteq> []" using assms(2) by auto
  then show ?thesis using TagAndSize assms onTag_more [of pb s ys] by simp
next
  case ProtoBytes
  then show ?thesis using assms(2) onBytes_more [of s pb ys] by simp
qed

lemma turn_short:
  assumes "mp_turn pb s = Again t out" "mp_state t = SizeOnly" "\<not> int (length (mp_data s)) < mp_minBytes s"
  shows "out = [] \<and> mp_soFar t = length (mp_data t) \<and> pb_int32 pb (mp_data t) = SizeShort \<and>
    (\<exists>a b. mp_turn pb (mp_more ys s) = mp_onSize pb ((mp_more ys t)\<lparr>mp_soFar := a, mp_state := b\<rparr>))"
proof (cases "mp_state s")
  case VersionTagAndSize
  then have "2 < length (mp_data s)" using assms(3) by simp
  then obtain b c bs where d: "mp_data s = b # c # bs" by (cases "mp_data s"; cases "tl (mp_data s)") auto
  have "mp_onTag pb (s\<lparr>mp_data := c # bs\<rparr>) = Again t out" "\<not> sint b < 38"
    using assms(1) VersionTagAndSize d by (auto simp: mp_onVersion_def Let_def split: if_splits)
  then show ?thesis
    using onTag_short [of pb "s\<lparr>mp_data := c # bs\<rparr>" t out ys] VersionTagAndSize assms(2) d by (auto simp: mp_onVersion_def Let_def)
next
  case TagAndSize
  then have "mp_data s \<noteq> []" "mp_onTag pb s = Again t out" using assms by auto
  then show ?thesis using onTag_short [of pb s t out ys] TagAndSize assms(2) by auto
next
  case SizeOnly
  then have "mp_onSize pb s = Again t out" using assms(1) by simp
  from onSize_short [OF this assms(2)] show ?thesis
    by (auto simp: SizeOnly intro!: exI [of _ "mp_soFar s"] exI [of _ SizeOnly] arg_cong [where f = "mp_onSize pb"])
next
  case ProtoBytes
  then show ?thesis using assms by (auto simp: mp_onBytes_def Let_def split: if_splits option.splits)
qed

lemma turn_done: "mp_turn pb s = Done t out \<Longrightarrow> \<not> int (length (mp_data s)) < mp_minBytes s \<Longrightarrow> \<exists>e. out = [McsThrow e]"
  by (cases "mp_state s")
     (auto simp: mp_onVersion_def mp_onTag_def mp_onBytes_def Let_def dest: onSize_done split: if_splits option.splits)

definition no_throw :: "mcs_output list \<Rightarrow> bool" where
  "no_throw out \<longleftrightarrow> (\<forall>e. McsThrow e \<notin> set out)"

lemma no_throw_simps [simp]: "no_throw []" "no_throw (McsMessage t m # out) = no_throw out" "\<not> no_throw (McsThrow e # out)"
    "no_throw (out @ out') = (no_throw out \<and> no_throw out')"
  by (auto simp: no_throw_def)

lemma wait_stop: "int (length (mp_data s)) < mp_minBytes s \<Longrightarrow> mp_wait pb s = (s, [])"
  by (subst mp_wait.simps) simp

lemma wait_done: "\<not> int (length (mp_data s)) < mp_minBytes s \<Longrightarrow> mp_turn pb s = Done t out \<Longrightarrow> mp_wait pb s = (t, out)"
  by (subst mp_wait.simps) (simp del: mp_minBytes.simps mp_turn.simps)

lemma wait_again: "\<not> int (length (mp_data s)) < mp_minBytes s \<Longrightarrow> mp_turn pb s = Again t out \<Longrightarrow>
    mp_wait pb s = seq_do (t, out) (mp_wait pb)"
  by (subst mp_wait.simps) (simp add: seq_do_def del: mp_minBytes.simps mp_turn.simps)

lemma minBytes_more [simp]: "mp_minBytes (mp_more ys s) = mp_minBytes s"
  by (simp split: mcs_state.split)

lemma wait_more:
  "reader_ok pb \<Longrightarrow> no_throw (snd (mp_wait pb (mp_more ys s))) \<Longrightarrow>
     mp_wait pb (mp_more ys s) = seq_do (mp_wait pb s) (\<lambda>t. mp_wait pb (mp_more ys t))"
proof (induction pb s rule: mp_wait.induct)
  case (1 pb s)
  show ?case
  proof (cases "int (length (mp_data s)) < mp_minBytes s")
    case True
    then show ?thesis by (simp add: wait_stop seq_do_def)
  next
    case False
    then have m: "\<not> int (length (mp_data (mp_more ys s))) < mp_minBytes (mp_more ys s)"
      unfolding minBytes_more by (simp del: mp_minBytes.simps)
    show ?thesis
    proof (cases "mp_turn pb s")
      case (Done t out)
      then have "mp_wait pb (mp_more ys s) = (mp_more ys t, out)"
        using turn_more [OF 1(2) False, of ys] by (intro wait_done [OF m]) (simp add: holds_back_def del: mp_turn.simps)
      then show ?thesis using 1(3) turn_done [OF Done False] by auto
    next
      case (Again t out)
      have w: "mp_wait pb s = seq_do (t, out) (mp_wait pb)" by (rule wait_again [OF False Again])
      show ?thesis
      proof (cases "mp_state t = SizeOnly")
        case True
        obtain a b where u: "out = []" "mp_soFar t = length (mp_data t)"
            "mp_turn pb (mp_more ys s) = mp_onSize pb ((mp_more ys t)\<lparr>mp_soFar := a, mp_state := b\<rparr>)"
          using turn_short [OF Again True False, of ys] by blast
        have t: "mp_wait pb t = (t, [])" using True u(2) by (intro wait_stop) simp
        show ?thesis
        proof (cases "ys = []")
          case False
          have g: "\<not> int (length (mp_data (mp_more ys t))) < mp_minBytes (mp_more ys t)" using False True u(2) by (cases ys) auto
          show ?thesis
          proof (cases "mp_turn pb (mp_more ys s)")
            case (Done t' out')
            then show ?thesis using 1(3) wait_done [OF m Done] turn_done [OF Done m] by auto
          next
            case (Again t' out')
            have "mp_onSize pb (mp_more ys t) = Again t' out'"
              by (rule onSize_state [of pb b a]) (use Again u(3) in simp)
            then have "mp_turn pb (mp_more ys t) = Again t' out'" using True by simp
            then show ?thesis using wait_again [OF m Again] wait_again [OF g] t w u(1) by (simp add: seq_do_def)
          qed
        qed (simp add: t w u(1) seq_do_def)
      next
        case h: False
        have "mp_turn pb (mp_more ys s) = Again (mp_more ys t) out"
          using turn_more [OF 1(2) False, of ys] Again h by (simp add: holds_back_def del: mp_turn.simps)
        then have e: "mp_wait pb (mp_more ys s) = seq_do (mp_more ys t, out) (mp_wait pb)" by (rule wait_again [OF m])
        then have "no_throw (snd (mp_wait pb (mp_more ys t)))" using 1(3) by (simp add: snd_seq_do)
        from 1(1) [OF False Again 1(2) this] show ?thesis by (simp add: e w seq_do_def split_beta)
      qed
    qed
  qed
qed

text \<open>Between chunks the parser holds less than one frame, so a chunk of at most 2 MiB never overflows the buffer.\<close>

definition sizes_ok :: "mcs_parser \<Rightarrow> bool" where
  "sizes_ok s \<longleftrightarrow> (mp_state s = SizeOnly \<longrightarrow> mp_soFar s < 10) \<and> (mp_state s = ProtoBytes \<longrightarrow> 0 < mp_size s \<and> mp_size s \<le> MAX_FRAME_BYTES)"

definition waits :: "mcs_parser \<Rightarrow> bool" where
  "waits s \<longleftrightarrow> sizes_ok s \<and> int (length (mp_data s)) < mp_minBytes s"

lemma onSize_sizes: "reader_ok pb \<Longrightarrow> mp_onSize pb s = Again t out \<Longrightarrow> sizes_ok t"
  by (auto simp: mp_onSize_def mp_onBytes_def Let_def sizes_ok_def reader_Short split: size_reading.splits if_splits option.splits)

lemma turn_sizes:
  assumes "reader_ok pb" "mp_turn pb s = Again t out"
  shows "sizes_ok t"
proof (cases "mp_state s")
  case VersionTagAndSize
  then show ?thesis
    using assms by (auto simp: mp_onVersion_def mp_onTag_def Let_def split: if_splits elim: onSize_sizes)
next
  case ProtoBytes
  then show ?thesis
    using assms(2) by (auto simp: mp_onBytes_def Let_def sizes_ok_def split: if_splits option.splits)
qed (use assms onSize_sizes [OF assms(1)] in \<open>auto simp: mp_onTag_def\<close>)

lemma wait_waits: "reader_ok pb \<Longrightarrow> sizes_ok s \<Longrightarrow> no_throw (snd (mp_wait pb s)) \<Longrightarrow> waits (fst (mp_wait pb s))"
proof (induction pb s rule: mp_wait.induct)
  case (1 pb s)
  show ?case
  proof (cases "int (length (mp_data s)) < mp_minBytes s")
    case True
    then show ?thesis using 1 by (simp add: wait_stop waits_def)
  next
    case False
    show ?thesis
    proof (cases "mp_turn pb s")
      case (Done t out)
      then show ?thesis using 1(4) wait_done [OF False Done] turn_done [OF Done False] by auto
    next
      case (Again t out)
      then show ?thesis
        using 1(4) 1(1) [OF False Again 1(2) turn_sizes [OF 1(2) Again]] wait_again [OF False Again] by (simp add: fst_seq_do snd_seq_do)
    qed
  qed
qed

lemma waits_small: "waits s \<Longrightarrow> length (mp_data s) < 2 * 1024 * 1024"
  by (cases "mp_state s") (auto simp: waits_def sizes_ok_def MAX_FRAME_BYTES_def)

definition mp_feed :: "protobuf \<Rightarrow> mcs_parser \<Rightarrow> bytes \<Rightarrow> mcs_parser \<times> mcs_output list" where
  "mp_feed pb s xs = mp_wait pb (mp_more xs s)"

definition accepts :: "protobuf \<Rightarrow> mcs_parser \<Rightarrow> bytes \<Rightarrow> bool" where
  "accepts pb s xs \<longleftrightarrow> reader_ok pb \<and> no_throw (snd (mp_feed pb s xs))"

lemma waits_more_ok: "waits s \<Longrightarrow> sizes_ok (mp_more xs s)"
  by (simp add: waits_def sizes_ok_def)

lemma feed_append: "accepts pb s (xs @ ys) \<Longrightarrow> mp_feed pb s (xs @ ys) = seq_do (mp_feed pb s xs) (\<lambda>t. mp_feed pb t ys)"
  using wait_more [of pb "mp_more xs s" ys] by (simp add: accepts_def mp_feed_def)

interpretation mcs: chunk_parser "mp_feed pb" waits "accepts pb" for pb
proof
  fix s xs ys
  assume w: "waits s"
  show "mp_feed pb s [] = (s, [])" using w by (simp add: mp_feed_def wait_stop waits_def)
  show "waits (fst (mp_feed pb s xs))" if "accepts pb s xs"
    using that wait_waits waits_more_ok [OF w] by (simp add: accepts_def mp_feed_def)
  assume a: "accepts pb s (xs @ ys)"
  note f = feed_append [OF a]
  show "accepts pb s xs" "accepts pb (fst (mp_feed pb s xs)) ys" using a f by (simp_all add: accepts_def snd_seq_do)
  show "mp_feed pb s (xs @ ys) =
      (fst (mp_feed pb (fst (mp_feed pb s xs)) ys), snd (mp_feed pb s xs) @ snd (mp_feed pb (fst (mp_feed pb s xs)) ys))"
    by (simp add: f seq_do_def split_beta)
qed

lemma handle_feed: "waits s \<Longrightarrow> length chunk \<le> 2 * 1024 * 1024 \<Longrightarrow> mp_handleData pb s chunk = mp_feed pb s chunk"
  using waits_small [of s] by (simp add: mp_handleData_def mp_feed_def MAX_BUFFER_BYTES_def)

lemma handle_chunks:
  "waits s \<Longrightarrow> accepts pb s (concat chunks) \<Longrightarrow> \<forall>c\<in>set chunks. length c \<le> 2 * 1024 * 1024 \<Longrightarrow>
     run (mp_handleData pb) s chunks = mp_feed pb s (concat chunks)"
proof (induction chunks arbitrary: s)
  case Nil
  then show ?case by (simp add: mcs.feed_nil)
next
  case (Cons c cs)
  have a: "accepts pb s (c @ concat cs)" "waits (fst (mp_feed pb s c))" "accepts pb (fst (mp_feed pb s c)) (concat cs)"
    using Cons.prems mcs.ok_prefix mcs.feed_rest mcs.ok_suffix by auto
  then show ?case
    using Cons.IH [OF a(2, 3)] Cons.prems(1, 3) by (simp add: handle_feed feed_append [OF a(1)] seq_do_def split_beta)
qed

section \<open>The frames of a connection\<close>

record mcs_frame =
  fr_tag :: byte
  fr_length :: bytes
  fr_body :: bytes

definition frame_wire :: "mcs_frame \<Rightarrow> bytes" where
  "frame_wire f = fr_tag f # fr_length f @ fr_body f"

definition frame_object :: "protobuf \<Rightarrow> mcs_frame \<Rightarrow> json option" where
  "frame_object pb f =
     (if fr_body f = [] then Some (JObj [])
      else case tag_type (sint (fr_tag f)) of None \<Rightarrow> Some (JObj []) | Some ty \<Rightarrow> pb_decode pb ty (fr_body f))"

definition mframe_ok :: "protobuf \<Rightarrow> mcs_frame \<Rightarrow> bool" where
  "mframe_ok pb f \<longleftrightarrow> pb_int32 pb (fr_length f) = SizeOk (int (length (fr_body f))) (length (fr_length f)) \<and>
     int (length (fr_body f)) \<le> MAX_FRAME_BYTES \<and> frame_object pb f \<noteq> None"

definition frame_message :: "protobuf \<Rightarrow> mcs_frame \<Rightarrow> mcs_output" where
  "frame_message pb f = McsMessage (sint (fr_tag f)) (the (frame_object pb f))"

lemma onTag_frame:
  assumes pb: "reader_ok pb" and f: "mframe_ok pb f" and d: "mp_data s = frame_wire f @ rest"
  shows "mp_onTag pb s =
    (let s = s\<lparr>mp_tag := sint (fr_tag f), mp_size := int (length (fr_body f)), mp_soFar := 0\<rparr> in
     if fr_body f = [] then Again (s\<lparr>mp_state := TagAndSize, mp_data := rest\<rparr>) [frame_message pb f]
     else Again (s\<lparr>mp_state := ProtoBytes, mp_data := fr_body f @ rest\<rparr>) [])"
proof -
  have "pb_int32 pb (fr_length f @ fr_body f @ rest) = SizeOk (int (length (fr_body f))) (length (fr_length f))"
    using f reader_Ok [OF pb] by (simp add: mframe_ok_def)
  then show ?thesis
    using f d by (auto simp: mp_onTag_def mp_onSize_def mp_onBytes_def frame_wire_def Let_def mframe_ok_def frame_message_def frame_object_def)
qed

lemma onBytes_frame:
  assumes f: "mframe_ok pb f" and b: "fr_body f \<noteq> []"
    and d: "mp_data s = fr_body f @ rest" "mp_size s = int (length (fr_body f))" "mp_tag s = sint (fr_tag f)"
  shows "mp_onBytes pb s = Again (s\<lparr>mp_state := TagAndSize, mp_data := rest\<rparr>) [frame_message pb f]"
  using f b d by (auto simp: mp_onBytes_def Let_def mframe_ok_def frame_message_def frame_object_def split: option.splits)

definition at_tag :: "mcs_parser \<Rightarrow> bytes \<Rightarrow> bool" where
  "at_tag s xs \<longleftrightarrow> mp_state s = TagAndSize \<and> mp_data s = xs"

lemma after_tag:
  assumes pb: "reader_ok pb" and f: "mframe_ok pb f" and d: "mp_data s = frame_wire f @ rest" and t: "mp_onTag pb s = Again t out"
  shows "\<exists>u. at_tag u rest \<and> seq_do (t, out) (mp_wait pb) = seq_do (u, [frame_message pb f]) (mp_wait pb)"
proof (cases "fr_body f = []")
  case True
  then show ?thesis using t onTag_frame [OF pb f d] by (intro exI [of _ t]) (auto simp: at_tag_def Let_def)
next
  case False
  then have v: "mp_state t = ProtoBytes" "mp_data t = fr_body f @ rest" "mp_size t = int (length (fr_body f))" "mp_tag t = sint (fr_tag f)" "out = []"
    using t onTag_frame [OF pb f d] by (auto simp: Let_def)
  have "mp_turn pb t = Again (t\<lparr>mp_state := TagAndSize, mp_data := rest\<rparr>) [frame_message pb f]"
    using onBytes_frame [OF f False v(2-4)] v(1) by simp
  then have "mp_wait pb t = seq_do (t\<lparr>mp_state := TagAndSize, mp_data := rest\<rparr>, [frame_message pb f]) (mp_wait pb)"
    by (intro wait_again) (simp_all add: v)
  then show ?thesis
    by (intro exI [of _ "t\<lparr>mp_state := TagAndSize, mp_data := rest\<rparr>"]) (simp add: at_tag_def seq_do_def v(5))
qed

lemma tag_frame:
  assumes pb: "reader_ok pb" and f: "mframe_ok pb f" and s: "at_tag s (frame_wire f @ rest)"
  shows "\<exists>u. at_tag u rest \<and> mp_wait pb s = seq_do (u, [frame_message pb f]) (mp_wait pb)"
proof -
  have d: "mp_data s = frame_wire f @ rest" using s by (simp add: at_tag_def)
  have "0 < length (fr_length f)" using reader_Ok [OF pb] f by (auto simp: mframe_ok_def)
  then have g: "\<not> int (length (mp_data s)) < mp_minBytes s" using s by (cases "fr_length f") (auto simp: at_tag_def frame_wire_def)
  obtain t out where "mp_onTag pb s = Again t out" using onTag_frame [OF pb f d] by (simp add: Let_def split: if_splits)
  moreover from this have "mp_wait pb s = seq_do (t, out) (mp_wait pb)"
    using s by (intro wait_again [OF g]) (simp add: at_tag_def)
  ultimately show ?thesis using after_tag [OF pb f d] by simp
qed

lemma tag_frames:
  "reader_ok pb \<Longrightarrow> \<forall>f\<in>set fs. mframe_ok pb f \<Longrightarrow> at_tag s (concat (map frame_wire fs) @ rest) \<Longrightarrow>
     \<exists>u. at_tag u rest \<and> mp_wait pb s = seq_do (u, map (frame_message pb) fs) (mp_wait pb)"
proof (induction fs arbitrary: s)
  case Nil
  then show ?case by (intro exI [of _ s]) (simp add: seq_do_def split_beta)
next
  case (Cons f fs)
  then obtain u where u: "at_tag u (concat (map frame_wire fs) @ rest)" "mp_wait pb s = seq_do (u, [frame_message pb f]) (mp_wait pb)"
    using tag_frame [of pb f s "concat (map frame_wire fs) @ rest"] by auto
  then obtain v where "at_tag v rest" "mp_wait pb u = seq_do (v, map (frame_message pb) fs) (mp_wait pb)"
    using Cons.IH [OF Cons.prems(1) _ u(1)] Cons.prems(2) by auto
  then show ?case using u(2) by (intro exI [of _ v]) (simp add: seq_do_def split_beta)
qed

text \<open>A frame that is still arriving produces nothing.\<close>

lemma onTag_partial:
  assumes pb: "reader_ok pb" and g: "mframe_ok pb g" and p: "frame_wire g = mp_data s @ q" "q \<noteq> []" "mp_data s \<noteq> []"
  shows "\<exists>t. mp_onTag pb s = Again t [] \<and> mp_wait pb t = (t, [])"
proof -
  obtain d where d: "mp_data s = fr_tag g # d" "fr_length g @ fr_body g = d @ q"
    using p by (cases "mp_data s") (auto simp: frame_wire_def)
  show ?thesis
  proof (cases "length d < length (fr_length g)")
    case True
    then obtain r where r: "fr_length g = d @ r" "r \<noteq> []" using d(2) by (auto simp: append_eq_append_conv2)
    have "pb_int32 pb d = SizeShort"
    proof (cases "pb_int32 pb d")
      case (SizeOk v n)
      then show ?thesis using reader_Ok [OF pb SizeOk, of r] g r by (auto simp: mframe_ok_def)
    next
      case SizeThrow
      then show ?thesis using reader_Throw [OF pb SizeThrow, of r] g r by (auto simp: mframe_ok_def)
    qed
    then show ?thesis by (auto simp: mp_onTag_def mp_onSize_def d(1) intro: wait_stop)
  next
    case False
    then obtain r where r: "d = fr_length g @ r" "fr_body g = r @ q" using d(2) by (auto simp: append_eq_append_conv2)
    have "pb_int32 pb d = SizeOk (int (length (fr_body g))) (length (fr_length g))"
      using g reader_Ok [OF pb] r by (simp add: mframe_ok_def)
    moreover have "q \<noteq> []" "\<not> MAX_FRAME_BYTES < int (length (fr_body g))" using p(2) g by (simp_all add: mframe_ok_def)
    moreover from this(1) have "0 < int (length (fr_body g))" "\<not> int (length (fr_body g)) < 0" by (cases q; simp add: r(2))+
    ultimately show ?thesis using r p(2) by (auto simp: mp_onTag_def mp_onSize_def d(1) Let_def intro!: wait_stop)
  qed
qed

lemma tag_partial:
  assumes pb: "reader_ok pb" and g: "mframe_ok pb g" and p: "at_tag s p" "frame_wire g = p @ q" "q \<noteq> []"
  shows "snd (mp_wait pb s) = []"
proof (cases "int (length (mp_data s)) < mp_minBytes s")
  case True
  then show ?thesis by (simp add: wait_stop)
next
  case False
  then have "mp_data s \<noteq> []" using p(1) by (auto simp: at_tag_def)
  then obtain t where t: "mp_onTag pb s = Again t []" "mp_wait pb t = (t, [])" using onTag_partial [OF pb g _ p(3)] p(1, 2) by (auto simp: at_tag_def)
  then show ?thesis using wait_again [OF False, of pb t "[]"] p(1) by (simp add: at_tag_def seq_do_def)
qed

lemma connection_frames:
  assumes pb: "reader_ok pb" and v: "38 \<le> sint v" and fs: "\<forall>f\<in>set fs. mframe_ok pb f" and g: "mframe_ok pb g" "frame_wire g = p @ q" "q \<noteq> []"
  shows "snd (mp_feed pb mp_new (v # concat (map frame_wire fs) @ p)) = map (frame_message pb) fs"
proof -
  define xs where "xs = concat (map frame_wire fs) @ p"
  define s where "s = mp_new\<lparr>mp_data := v # xs\<rparr>"
  define s' where "s' = mp_new\<lparr>mp_data := xs, mp_state := TagAndSize\<rparr>"
  have tagged: "snd (mp_wait pb s') = map (frame_message pb) fs"
    using tag_frames [OF pb fs, of s' p] tag_partial [OF pb g(1) _ g(2, 3)] by (auto simp: at_tag_def s'_def xs_def snd_seq_do)
  have "snd (mp_wait pb s) = map (frame_message pb) fs"
  proof (cases "length xs < 2")
    case True
    have "0 < length (fr_length f)" if "mframe_ok pb f" for f using reader_Ok [OF pb] that by (auto simp: mframe_ok_def)
    then have "fs = []" using True fs by (cases fs) (auto simp: xs_def frame_wire_def Suc_le_eq)
    then show ?thesis using True by (simp add: wait_stop s_def mp_new_def)
  next
    case False
    then have n: "\<not> int (length (mp_data s)) < mp_minBytes s" "\<not> int (length (mp_data s')) < mp_minBytes s'"
      by (simp_all add: s_def s'_def mp_new_def)
    obtain t out where a: "mp_onTag pb s' = Again t out"
    proof (cases fs)
      case Nil
      then have "xs = p" "p \<noteq> []" using False by (auto simp: xs_def)
      then show ?thesis using that onTag_partial [OF pb g(1), of s' q] g(2, 3) by (auto simp: s'_def)
    next
      case (Cons f fs')
      then have "mp_data s' = frame_wire f @ concat (map frame_wire fs') @ p" "mframe_ok pb f"
        using fs by (simp_all add: s'_def xs_def)
      then have "\<exists>t out. mp_onTag pb s' = Again t out" using onTag_frame [OF pb] by (cases "fr_body f = []") (simp_all add: Let_def)
      then show ?thesis using that by blast
    qed
    have "mp_onTag pb (mp_new\<lparr>mp_data := xs\<rparr>) = Again t out"
    proof -
      let ?u = "mp_new\<lparr>mp_tag := sint (hd xs), mp_data := tl xs\<rparr>"
      have "mp_onSize pb (?u\<lparr>mp_soFar := 0, mp_state := TagAndSize\<rparr>) = Again t out"
        using a by (simp add: mp_onTag_def s'_def mp_new_def)
      from onSize_state [OF this] show ?thesis by (simp add: mp_onTag_def)
    qed
    then have "mp_turn pb s = Again t out" "mp_turn pb s' = Again t out"
      using a v by (simp_all add: s_def s'_def mp_new_def mp_onVersion_def)
    then show ?thesis using tagged wait_again [OF n(1)] wait_again [OF n(2)] by simp
  qed
  then show ?thesis by (simp add: mp_feed_def s_def xs_def mp_new_def)
qed

lemma frames_delivered:
  assumes "reader_ok pb" and "38 \<le> sint v" and "\<forall>f\<in>set fs. mframe_ok pb f" and "mframe_ok pb g" "frame_wire g = p @ q" "q \<noteq> []"
    and "concat chunks = v # concat (map frame_wire fs) @ p" and "\<forall>c\<in>set chunks. length c \<le> 2 * 1024 * 1024"
  shows "run_out (mp_handleData pb) mp_new chunks = map (frame_message pb) fs"
proof -
  have w: "waits mp_new" by (simp add: waits_def sizes_ok_def mp_new_def)
  have f: "snd (mp_feed pb mp_new (concat chunks)) = map (frame_message pb) fs"
    using connection_frames [OF assms(1-6)] by (simp add: assms(7))
  have "no_throw (map (frame_message pb) fs)" by (induction fs) (simp_all add: frame_message_def)
  then have "accepts pb mp_new (concat chunks)" using assms(1) f by (simp add: accepts_def)
  then show ?thesis using handle_chunks [OF w _ assms(8)] f by simp
qed

text \<open>The push connection delivers exactly the frames that were sent, whatever the cut into TLS chunks. For a stream of an
  accepted version byte and well-formed frames of at most 2 MiB, followed by the beginning of one more frame, and
  for chunks of at most 2 MiB, the parser emits the messages of the complete frames, in order, once each, and
  nothing else: no error, no buffer overflow and nothing of the frame that is still arriving.\<close>

theorem push_frames_survive_cutting:
  assumes "reader_ok pb" and "38 \<le> sint v" and "\<forall>f\<in>set fs. mframe_ok pb f" and "mframe_ok pb g" "frame_wire g = p @ q" "q \<noteq> []"
    and "concat chunks = v # concat (map frame_wire fs) @ p" and "\<forall>c\<in>set chunks. length c \<le> 2 * 1024 * 1024"
  shows "run_out (mp_handleData pb) mp_new chunks = map (frame_message pb) fs"
  by (rule frames_delivered [OF assms])

text \<open>A reader of base-128 numbers of at most five bytes, and a heartbeat and a data stanza in three chunks.\<close>

fun base128 :: "nat \<Rightarrow> nat \<Rightarrow> bytes \<Rightarrow> size_reading" where
  "base128 0 n xs = SizeOk (-1) n"
| "base128 (Suc k) n [] = SizeShort"
| "base128 (Suc k) n (x # xs) =
     (if x < 128 then SizeOk (int (unat x)) (Suc n)
      else (case base128 k (Suc n) xs of SizeOk v m \<Rightarrow> SizeOk (int (unat x) - 128 + 128 * v) m | r \<Rightarrow> r))"

lemma base128_append: "base128 k n xs = SizeOk v m \<Longrightarrow> n \<le> m \<and> m \<le> n + length xs \<and> base128 k n (xs @ ys) = SizeOk v m"
  by (induction k n xs arbitrary: v m rule: base128.induct) (fastforce split: size_reading.splits if_splits)+

lemma base128_short: "base128 k n xs = SizeShort \<Longrightarrow> length xs < k"
  by (induction k n xs rule: base128.induct) (auto split: size_reading.splits if_splits)

lemma base128_no_throw: "base128 k n xs \<noteq> SizeThrow"
  by (induction k n xs rule: base128.induct) (auto split: size_reading.splits)

definition sample_protobuf :: protobuf where
  "sample_protobuf = \<lparr> pb_int32 = (\<lambda>xs. base128 5 0 xs), pb_decode = (\<lambda>ty body. Some (JStr ty)) \<rparr>"

lemma base128_pos: "base128 (Suc k) n xs = SizeOk v m \<Longrightarrow> n < m"
  by (cases xs) (auto split: size_reading.splits if_splits dest: base128_append)

lemma sample_reader: "reader_ok sample_protobuf"
  unfolding reader_ok_def sample_protobuf_def protobuf.simps
proof (rule allI)
  fix xs
  show "case base128 5 0 xs of SizeOk v n \<Rightarrow> 0 < n \<and> n \<le> length xs \<and> (\<forall>ys. base128 5 0 (xs @ ys) = SizeOk v n)
     | SizeShort \<Rightarrow> length xs < 10 | SizeThrow \<Rightarrow> \<forall>ys. base128 5 0 (xs @ ys) = SizeThrow"
  proof (cases "base128 5 0 xs")
    case (SizeOk v n)
    then show ?thesis using base128_append [OF SizeOk] base128_pos [of 4 0 xs v n] by auto
  next
    case SizeShort
    then show ?thesis using base128_short [OF SizeShort] by simp
  next
    case SizeThrow
    then show ?thesis using base128_no_throw by simp
  qed
qed

definition sample_frames :: "mcs_frame list" where
  "sample_frames = [\<lparr> fr_tag = 0, fr_length = [0], fr_body = [] \<rparr>, \<lparr> fr_tag = 8, fr_length = [130, 0], fr_body = [7, 9] \<rparr>]"

lemma push_frames_survive_cutting_witness:
  "run_out (mp_handleData sample_protobuf) mp_new [[41, 0], [0, 8, 130], [0, 7, 9, 8]] =
     [McsMessage 0 (JObj []), McsMessage 8 (JStr ''mcs_proto.DataMessageStanza'')]"
proof -
  have "run_out (mp_handleData sample_protobuf) mp_new [[41, 0], [0, 8, 130], [0, 7, 9, 8]] = map (frame_message sample_protobuf) sample_frames"
  proof (rule push_frames_survive_cutting [OF sample_reader, of 41])
    show "frame_wire \<lparr> fr_tag = 8, fr_length = [1], fr_body = [5] \<rparr> = [8] @ [1, 5]" by (simp add: frame_wire_def)
    show "\<forall>f\<in>set sample_frames. mframe_ok sample_protobuf f" by code_simp
    show "mframe_ok sample_protobuf \<lparr> fr_tag = 8, fr_length = [1], fr_body = [5] \<rparr>" by code_simp
  qed (simp_all add: sample_frames_def frame_wire_def)
  moreover have "map (frame_message sample_protobuf) sample_frames =
      [McsMessage 0 (JObj []), McsMessage 8 (JStr ''mcs_proto.DataMessageStanza'')]" by code_simp
  ultimately show ?thesis by simp
qed

end
