(* ===== verification/Push_Client.thy ===== *)
theory Push_Client
  imports Mcs_Parser
begin

text \<open>
  \<open>mega/android-push/push-client.ts\<close>: the client of the Android push connection. It owns one socket at a
  time, logs in, watches the connection with heartbeats, reconnects with a growing delay, decodes the data
  stanzas into the Eufy envelope and delivers each persistent id once. Sockets are numbers; timers, socket
  events and the caller's operations are events; what the client does to its sockets and tells its listeners
  are outputs. Listeners do not call back while they are told. Text decoding and \<open>JSON.parse\<close> are the fields of
  \<open>text_codec\<close>.
\<close>

section \<open>Values\<close>

text \<open>An assignment to a property of a plain object: a string assigned to \<open>__proto__\<close> leaves no property.\<close>

fun js_set :: "string \<Rightarrow> json \<Rightarrow> (string \<times> json) list \<Rightarrow> (string \<times> json) list" where
  "js_set k v [] = [(k, v)]"
| "js_set k v ((k', v') # fs) = (if k' = k then (k, v) # fs else (k', v') # js_set k v fs)"

lemma map_of_js_set [simp]: "map_of (js_set k v fs) = (map_of fs)(k \<mapsto> v)"
  by (induction k v fs rule: js_set.induct) (auto simp: fun_eq_iff)

section \<open>The application data of a stanza\<close>

definition readNullTerminated :: "text_codec \<Rightarrow> bytes \<Rightarrow> string" where
  "readNullTerminated tc buf = tc_utf8 tc (takeWhile (\<lambda>b. b \<noteq> 0) buf)"

definition nonemptyString :: "json option \<Rightarrow> bool" where
  "nonemptyString v = (case js_str v of None \<Rightarrow> False | Some s \<Rightarrow> trim s \<noteq> [])"

definition app_entry :: "text_codec \<Rightarrow> json \<Rightarrow> (string \<times> json) list \<Rightarrow> (string \<times> json) list" where
  "app_entry tc entry data =
     (case (js_str (js_field (Some entry) ''key''), js_str (js_field (Some entry) ''value'')) of
        (Some key, Some v) \<Rightarrow>
          if length key > 128 then data
          else if key = ''payload'' then
            (if length v > 90000 \<or> \<not> base64_shape v then data
             else
               (let json = readNullTerminated tc (base64_bytes v) in
                if length (utf8 json) > 65536 then data
                else js_set ''payload'' (case tc_json tc json of Some x \<Rightarrow> x | None \<Rightarrow> JStr json) data))
          else if length v \<le> 2048 \<and> key \<noteq> ''__proto__'' then js_set key (JStr v) data
          else data
      | _ \<Rightarrow> data)"

definition decodeMcsAppData :: "text_codec \<Rightarrow> json \<Rightarrow> (string \<times> json) list" where
  "decodeMcsAppData tc ob = foldl (\<lambda>data entry. app_entry tc entry data) [] (take 100 (js_items (js_field (Some ob) ''appData'')))"

section \<open>The reported event\<close>

datatype attribution = ToDevice string | ToStation "string option" | Ambiguous

record push_event =
  pe_deviceSn :: "json option"
  pe_stationSn :: "json option"
  pe_eventType :: "json option"
  pe_thumbnailUrl :: "json option"
  pe_candidate :: "(string \<times> attribution) option"
  pe_cipher :: "json option"
  pe_payload :: json

definition claims :: "json option list \<Rightarrow> string list" where
  "claims vs = List.map_filter js_str (filter nonemptyString vs)"

definition attribute_picture :: "string list \<Rightarrow> string list \<Rightarrow> attribution" where
  "attribute_picture devices stations =
     (if devices \<noteq> [] \<and> (\<forall>d\<in>set devices. d = hd devices) then ToDevice (hd devices)
      else if devices = [] \<and> stations \<noteq> [] then ToStation (if \<forall>c\<in>set stations. c = hd stations then Some (hd stations) else None)
      else Ambiguous)"

definition push_body :: "text_codec \<Rightarrow> json option \<Rightarrow> json" where
  "push_body tc env =
     (case js_or (js_field env ''payload'') env of
        Some (JStr t) \<Rightarrow> (case tc_json tc t of Some (JObj fs) \<Rightarrow> JObj fs | Some (JArr xs) \<Rightarrow> JArr xs | _ \<Rightarrow> JObj [])
      | Some (JObj fs) \<Rightarrow> JObj fs
      | Some (JArr xs) \<Rightarrow> JArr xs
      | _ \<Rightarrow> JObj [])"

definition normalizePushEvent :: "text_codec \<Rightarrow> (string \<times> json) list \<Rightarrow> push_event" where
  "normalizePushEvent tc payload =
     (let env = Some (JObj payload); p = push_body tc env; f = js_field (Some p); e = js_field env;
          url = (if nonemptyString (f ''pic_url'') then js_str (f ''pic_url'')
                 else if nonemptyString (f ''thumbnail'') then js_str (f ''thumbnail'') else None) in
      \<lparr> pe_deviceSn = js_or (js_or (f ''device_sn'') (e ''device_sn'')) (f ''s''),
        pe_stationSn = js_or (f ''station_sn'') (e ''station_sn''),
        pe_eventType = js_or (f ''event_type'') (f ''a''),
        pe_thumbnailUrl = js_or (f ''pic_url'') (f ''thumbnail''),
        pe_candidate = map_option (\<lambda>u. (u, attribute_picture (claims [f ''device_sn'', e ''device_sn''])
            (claims [f ''station_sn'', e ''station_sn'', f ''s'']))) url,
        pe_cipher = js_or (f ''cipher'') (f ''k''),
        pe_payload = p \<rparr>)"

section \<open>The connection\<close>

datatype client_frame = LoginRequest "string list" | HeartbeatPing | HeartbeatAck "json option"

datatype client_error = LoginRejected nat | FrameNotDecoded | SocketFailed

record raw_push =
  rp_object :: json
  rp_payload :: "(string \<times> json) list"

datatype client_out =
    ClConnect nat | ClWrite nat client_frame | ClDestroy nat | ClReconnectIn nat
  | ClError client_error | ClConnected | ClDisconnected | ClMessage raw_push | ClPush push_event

record push_client =
  cl_socket :: "nat option"
  cl_sockets :: nat
  cl_destroyed :: bool
  cl_parser :: mcs_parser
  cl_heartbeat :: bool
  cl_replyTimer :: "nat option"
  cl_loginTimer :: "nat option"
  cl_reconnect :: bool
  cl_currentDelay :: nat
  cl_ids :: "string list"
  cl_loggedIn :: bool
  cl_closing :: bool
  cl_loginFailures :: nat

definition cl_new :: push_client where
  "cl_new = \<lparr> cl_socket = None, cl_sockets = 0, cl_destroyed = False, cl_parser = mp_new, cl_heartbeat = False, cl_replyTimer = None,
     cl_loginTimer = None, cl_reconnect = False, cl_currentDelay = 0, cl_ids = [], cl_loggedIn = False, cl_closing = False,
     cl_loginFailures = 0 \<rparr>"

definition MAX_LOGIN_FAILURES :: nat where "MAX_LOGIN_FAILURES = 3"

definition cl_destroy :: "push_client \<Rightarrow> push_client \<times> client_out list" where
  "cl_destroy s = (case cl_socket s of None \<Rightarrow> (s, []) | Some n \<Rightarrow> (s\<lparr>cl_destroyed := True\<rparr>, [ClDestroy n]))"

definition cl_write :: "client_frame \<Rightarrow> push_client \<Rightarrow> push_client \<times> client_out list" where
  "cl_write f s = (case cl_socket s of None \<Rightarrow> (s, []) | Some n \<Rightarrow> (s, [ClWrite n f]))"

definition cl_connect :: "push_client \<Rightarrow> push_client \<times> client_out list" where
  "cl_connect s =
     (let n = cl_sockets s in
      (s\<lparr>cl_closing := False, cl_parser := mp_new, cl_loggedIn := False, cl_socket := Some n, cl_sockets := Suc n, cl_destroyed := False,
         cl_loginTimer := Some n\<rparr>, [ClConnect n]))"

definition cl_stopHeartbeat :: "push_client \<Rightarrow> push_client" where
  "cl_stopHeartbeat s = s\<lparr>cl_heartbeat := False, cl_replyTimer := None\<rparr>"

definition cl_startHeartbeat :: "push_client \<Rightarrow> push_client" where
  "cl_startHeartbeat s = (cl_stopHeartbeat s)\<lparr>cl_heartbeat := True\<rparr>"

definition cl_heartbeatTick :: "push_client \<Rightarrow> push_client \<times> client_out list" where
  "cl_heartbeatTick s =
     (case cl_socket s of
        None \<Rightarrow> (s, [])
      | Some n \<Rightarrow>
          if \<not> cl_loggedIn s then (s, [])
          else (if cl_replyTimer s \<noteq> None then s else s\<lparr>cl_replyTimer := Some n\<rparr>, [ClWrite n HeartbeatPing]))"

definition cl_onLoginError :: "push_client \<Rightarrow> push_client \<times> client_out list" where
  "cl_onLoginError s =
     (let s = s\<lparr>cl_loginFailures := Suc (cl_loginFailures s)\<rparr> in
      seq_do (s, if cl_loginFailures s \<ge> MAX_LOGIN_FAILURES then [ClError (LoginRejected (cl_loginFailures s))] else []) cl_destroy)"

definition cl_handleDataMessage :: "text_codec \<Rightarrow> json \<Rightarrow> push_client \<Rightarrow> push_client \<times> client_out list" where
  "cl_handleDataMessage tc ob s =
     (let id = js_str (js_field (Some ob) ''persistentId''); data = decodeMcsAppData tc ob;
          out = [ClMessage \<lparr> rp_object = ob, rp_payload = data \<rparr>, ClPush (normalizePushEvent tc data)] in
      case id of
        None \<Rightarrow> (s, out)
      | Some i \<Rightarrow>
          if i \<in> set (cl_ids s) then (s, [])
          else (s\<lparr>cl_ids := drop (length (cl_ids s) - 99) (cl_ids s) @ [i]\<rparr>, out))"

definition cl_onMessage :: "text_codec \<Rightarrow> int \<Rightarrow> json \<Rightarrow> push_client \<Rightarrow> push_client \<times> client_out list" where
  "cl_onMessage tc tag ob s =
     (if tag = 3 then
        (if truthy (js_field (Some ob) ''error'') then cl_onLoginError s
         else (cl_startHeartbeat (s\<lparr>cl_loggedIn := True, cl_loginTimer := None, cl_currentDelay := 0, cl_loginFailures := 0\<rparr>), [ClConnected]))
      else if tag = 8 then cl_handleDataMessage tc ob s
      else if tag = 0 then
        cl_write (HeartbeatAck (let v = js_field (Some ob) ''lastStreamIdReceived'' in if truthy v then v else None)) s
      else if tag = 4 then cl_destroy s
      else (s, []))"

fun cl_parsed :: "text_codec \<Rightarrow> mcs_output \<Rightarrow> push_client \<Rightarrow> push_client \<times> client_out list" where
  "cl_parsed tc (McsMessage tag ob) s = cl_onMessage tc tag ob s"
| "cl_parsed tc (McsThrow e) s = seq_do (s, [ClError FrameNotDecoded]) cl_destroy"

definition cl_onData :: "protobuf \<Rightarrow> text_codec \<Rightarrow> bytes \<Rightarrow> push_client \<Rightarrow> push_client \<times> client_out list" where
  "cl_onData pb tc d s =
     (let (p, out) = mp_handleData pb (cl_parser s) d in each_do (cl_parsed tc) out (s\<lparr>cl_replyTimer := None, cl_parser := p\<rparr>))"

definition cl_scheduleReconnect :: "push_client \<Rightarrow> push_client \<times> client_out list" where
  "cl_scheduleReconnect s =
     (let delay = (if cl_currentDelay s = 0 then 5000 else cl_currentDelay s);
          s = s\<lparr>cl_currentDelay := (if cl_currentDelay s < 60000 then cl_currentDelay s + 10000
                 else if cl_currentDelay s < 600000 then cl_currentDelay s + 60000 else cl_currentDelay s)\<rparr> in
      if cl_reconnect s then (s, []) else (s\<lparr>cl_reconnect := True\<rparr>, [ClReconnectIn delay]))"

definition cl_onClose :: "push_client \<Rightarrow> push_client \<times> client_out list" where
  "cl_onClose s =
     (let s = (cl_stopHeartbeat s)\<lparr>cl_loginTimer := None, cl_loggedIn := False\<rparr> in
      if cl_closing s then (s, []) else seq_do (s, [ClDisconnected]) cl_scheduleReconnect)"

definition cl_close :: "push_client \<Rightarrow> push_client \<times> client_out list" where
  "cl_close s =
     (let (s, out) = cl_destroy ((cl_stopHeartbeat (s\<lparr>cl_closing := True\<rparr>))\<lparr>cl_loginTimer := None, cl_reconnect := False\<rparr>) in
      (s\<lparr>cl_socket := None\<rparr>, out))"

datatype client_event =
    CeSetIds "string list" | CeConnect | CeClose
  | CeSecure nat | CeData nat bytes | CeClosed nat | CeSocketError nat
  | CeLoginTimer | CeHeartbeat | CeReplyTimer | CeReconnect

text \<open>A timer's event happens only while the timer is armed; otherwise it is no event.\<close>

fun cl_step :: "protobuf \<Rightarrow> text_codec \<Rightarrow> push_client \<Rightarrow> client_event \<Rightarrow> push_client \<times> client_out list" where
  "cl_step pb tc s (CeSetIds ids) = (s\<lparr>cl_ids := ids\<rparr>, [])"
| "cl_step pb tc s CeConnect = cl_connect s"
| "cl_step pb tc s CeClose = cl_close s"
| "cl_step pb tc s (CeSecure n) = (if cl_socket s \<noteq> Some n then (s, []) else cl_write (LoginRequest (cl_ids s)) s)"
| "cl_step pb tc s (CeData n d) = (if cl_socket s \<noteq> Some n then (s, []) else cl_onData pb tc d s)"
| "cl_step pb tc s (CeClosed n) = (if cl_socket s \<noteq> Some n then (s, []) else cl_onClose s)"
| "cl_step pb tc s (CeSocketError n) = (if cl_socket s \<noteq> Some n then (s, []) else (s, [ClError SocketFailed]))"
| "cl_step pb tc s CeLoginTimer =
     (case cl_loginTimer s of
        None \<Rightarrow> (s, [])
      | Some n \<Rightarrow> let s = s\<lparr>cl_loginTimer := None\<rparr> in if cl_socket s \<noteq> Some n \<or> cl_loggedIn s then (s, []) else cl_destroy s)"
| "cl_step pb tc s CeHeartbeat = (if cl_heartbeat s then cl_heartbeatTick s else (s, []))"
| "cl_step pb tc s CeReplyTimer =
     (case cl_replyTimer s of
        None \<Rightarrow> (s, [])
      | Some n \<Rightarrow> let s = s\<lparr>cl_replyTimer := None\<rparr> in if cl_socket s \<noteq> Some n then (s, []) else cl_destroy s)"
| "cl_step pb tc s CeReconnect =
     (if cl_reconnect s then (let s = s\<lparr>cl_reconnect := False\<rparr> in if cl_closing s then (s, []) else cl_connect s) else (s, []))"

section \<open>The connection is always supervised\<close>

lemmas cl_ops = cl_connect_def cl_close_def cl_destroy_def cl_write_def cl_stopHeartbeat_def cl_startHeartbeat_def cl_heartbeatTick_def
  cl_onLoginError_def cl_handleDataMessage_def cl_onMessage_def cl_scheduleReconnect_def cl_onClose_def

lemmas cl_splits = if_splits option.splits prod.splits

definition supervised :: "push_client \<Rightarrow> nat \<Rightarrow> bool" where
  "supervised s n \<longleftrightarrow> (cl_reconnect s \<or> cl_destroyed s \<or> cl_loginTimer s = Some n \<or> cl_loggedIn s) \<and>
     (cl_loggedIn s \<longrightarrow> cl_heartbeat s \<and> (cl_replyTimer s = None \<or> cl_replyTimer s = Some n))"

definition delay_ok :: "nat \<Rightarrow> bool" where
  "delay_ok d \<longleftrightarrow> d \<in> {0, 10000, 20000, 30000, 40000, 50000, 60000, 120000, 180000, 240000, 300000, 360000, 420000, 480000, 540000, 600000}"

definition cl_inv :: "push_client \<Rightarrow> bool" where
  "cl_inv s \<longleftrightarrow> (\<forall>n. cl_socket s = Some n \<longrightarrow> \<not> cl_closing s \<longrightarrow> supervised s n) \<and> delay_ok (cl_currentDelay s)"

text \<open>One frame of the stream, whatever it is, keeps the connection supervised.\<close>

lemma parsed_inv: "cl_inv s \<Longrightarrow> cl_inv (fst (cl_parsed tc w s))"
  by (cases w) (auto simp: cl_inv_def supervised_def cl_ops fst_seq_do Let_def delay_ok_def split: cl_splits)

lemma each_inv: "cl_inv s \<Longrightarrow> cl_inv (fst (each_do (cl_parsed tc) ws s))"
  by (induction ws arbitrary: s) (simp_all add: fst_seq_do parsed_inv)

lemma onData_inv: "cl_inv s \<Longrightarrow> cl_inv (fst (cl_onData pb tc d s))"
  unfolding cl_onData_def split_beta Let_def by (rule each_inv) (auto simp: cl_inv_def supervised_def)

lemma delay_step: "delay_ok d \<Longrightarrow> delay_ok (if d < 60000 then d + 10000 else if d < 600000 then d + 60000 else d)"
  by (auto simp: delay_ok_def)

lemma onClose_inv: "cl_inv s \<Longrightarrow> cl_inv (fst (cl_onClose s))"
  using delay_step [of "cl_currentDelay s"]
  by (auto simp: cl_inv_def supervised_def cl_onClose_def cl_stopHeartbeat_def cl_scheduleReconnect_def fst_seq_do Let_def)

lemma cl_step_inv: "cl_inv s \<Longrightarrow> cl_inv (fst (cl_step pb tc s e))"
proof (cases e)
  case (CeData n d)
  then show "cl_inv s \<Longrightarrow> ?thesis" using onData_inv by simp
next
  case (CeClosed n)
  then show "cl_inv s \<Longrightarrow> ?thesis" using onClose_inv by simp
qed (auto simp: cl_inv_def supervised_def cl_ops Let_def split: cl_splits)

interpretation cl: invariant_machine "cl_step pb tc" cl_inv "\<lambda>_. True" for pb tc
  by unfold_locales (rule cl_step_inv)

lemma cl_run_inv: "cl_inv (run_state (cl_step pb tc) cl_new es)"
  by (rule cl.run_inv) (simp_all add: cl_inv_def cl_new_def delay_ok_def)

lemma parsed_no_reconnect: "ClReconnectIn d \<notin> set (snd (cl_parsed tc w s))"
  by (cases w) (auto simp: cl_ops snd_seq_do Let_def split: cl_splits)

lemma reconnect_delay: "cl_inv s \<Longrightarrow> ClReconnectIn d \<in> set (snd (cl_step pb tc s e)) \<Longrightarrow> 5000 \<le> d \<and> d \<le> 600000"
proof (cases e)
  case (CeData n c)
  have "ClReconnectIn d \<notin> set (snd (each_do (cl_parsed tc) ws t))" for ws t
    by (induction ws arbitrary: t) (simp_all add: snd_seq_do parsed_no_reconnect)
  then show "ClReconnectIn d \<in> set (snd (cl_step pb tc s e)) \<Longrightarrow> ?thesis"
    using CeData by (auto simp: cl_onData_def split_beta split: if_splits)
qed (auto simp: cl_ops Let_def snd_seq_do cl_inv_def delay_ok_def split: cl_splits)

text \<open>C9: a push client that is not closed never rests on a dead connection. In every reachable state with a socket, the socket
  is being destroyed, or its login deadline is running, or it is logged in with the heartbeat on, or the reconnect
  timer is running; the login deadline destroys a socket that has not logged in; each heartbeat pings the
  socket and leaves a reply deadline running, which destroys it; the socket's close arms the reconnect
  timer, with a delay between five seconds and ten minutes; and the reconnect timer opens the next socket.\<close>

theorem push_connection_supervised:
  assumes "s = run_state (cl_step pb tc) cl_new es" and "cl_socket s = Some n" and "\<not> cl_closing s"
  shows "(cl_reconnect s \<or> cl_destroyed s \<or> cl_loginTimer s = Some n \<or>
           cl_loggedIn s \<and> cl_heartbeat s \<and> (cl_replyTimer s = None \<or> cl_replyTimer s = Some n)) \<and>
    (cl_loginTimer s = Some n \<and> \<not> cl_loggedIn s \<longrightarrow> snd (cl_step pb tc s CeLoginTimer) = [ClDestroy n]) \<and>
    (cl_loggedIn s \<and> cl_heartbeat s \<longrightarrow> snd (cl_step pb tc s CeHeartbeat) = [ClWrite n HeartbeatPing] \<and>
       cl_replyTimer (fst (cl_step pb tc s CeHeartbeat)) \<noteq> None) \<and>
    (cl_replyTimer s = Some n \<longrightarrow> snd (cl_step pb tc s CeReplyTimer) = [ClDestroy n]) \<and>
    cl_reconnect (fst (cl_step pb tc s (CeClosed n))) \<and>
    (\<forall>e d. ClReconnectIn d \<in> set (snd (cl_step pb tc s e)) \<longrightarrow> 5000 \<le> d \<and> d \<le> 600000) \<and>
    (cl_reconnect s \<longrightarrow> snd (cl_step pb tc s CeReconnect) = [ClConnect (cl_sockets s)])"
proof -
  have i: "cl_inv s" using cl_run_inv assms(1) by simp
  then have "cl_reconnect s \<or> cl_destroyed s \<or> cl_loginTimer s = Some n \<or>
      cl_loggedIn s \<and> cl_heartbeat s \<and> (cl_replyTimer s = None \<or> cl_replyTimer s = Some n)"
    using assms(2, 3) by (auto simp: cl_inv_def supervised_def)
  moreover have "snd (cl_step pb tc s CeLoginTimer) = [ClDestroy n]" if "cl_loginTimer s = Some n" "\<not> cl_loggedIn s"
    using that assms(2) by (simp add: cl_destroy_def Let_def)
  moreover have "snd (cl_step pb tc s CeReplyTimer) = [ClDestroy n]" if "cl_replyTimer s = Some n"
    using that assms(2) by (simp add: cl_destroy_def Let_def)
  moreover have "\<forall>e d. ClReconnectIn d \<in> set (snd (cl_step pb tc s e)) \<longrightarrow> 5000 \<le> d \<and> d \<le> 600000"
    using reconnect_delay [OF i] by blast
  moreover have "cl_reconnect (fst (cl_step pb tc s (CeClosed n)))"
    using assms(2, 3) by (simp add: cl_ops fst_seq_do Let_def)
  moreover have "snd (cl_step pb tc s CeHeartbeat) = [ClWrite n HeartbeatPing] \<and> cl_replyTimer (fst (cl_step pb tc s CeHeartbeat)) \<noteq> None"
    if "cl_loggedIn s" "cl_heartbeat s" using that assms(2) by (simp add: cl_heartbeatTick_def)
  moreover have "snd (cl_step pb tc s CeReconnect) = [ClConnect (cl_sockets s)]" if "cl_reconnect s"
    using that assms(3) by (simp add: cl_connect_def Let_def)
  ultimately show ?thesis by blast
qed

section \<open>One connection at a time\<close>

definition closed_before :: "client_event list \<Rightarrow> push_client \<Rightarrow> bool" where
  "closed_before es s \<longleftrightarrow> (cl_reconnect s \<longrightarrow> (\<exists>n. cl_socket s = Some n \<and> CeClosed n \<in> set es))"

lemma parsed_keeps: "cl_reconnect (fst (cl_parsed tc w s)) = cl_reconnect s" "cl_socket (fst (cl_parsed tc w s)) = cl_socket s"
    "cl_closing (fst (cl_parsed tc w s)) = cl_closing s"
  by (cases w; auto simp: cl_ops fst_seq_do Let_def split: option.split)+

lemma each_keeps: "cl_reconnect (fst (each_do (cl_parsed tc) ws s)) = cl_reconnect s" "cl_socket (fst (each_do (cl_parsed tc) ws s)) = cl_socket s"
    "cl_closing (fst (each_do (cl_parsed tc) ws s)) = cl_closing s"
  by (induction ws arbitrary: s) (simp_all add: fst_seq_do parsed_keeps)

lemma onData_keeps: "cl_reconnect (fst (cl_onData pb tc d s)) = cl_reconnect s" "cl_socket (fst (cl_onData pb tc d s)) = cl_socket s"
  by (simp_all add: cl_onData_def split_beta Let_def each_keeps)

lemma closed_before_step: "closed_before es s \<Longrightarrow> e \<noteq> CeConnect \<Longrightarrow> closed_before (es @ [e]) (fst (cl_step pb tc s e))"
  by (cases e) (auto simp: closed_before_def onData_keeps cl_ops fst_seq_do Let_def split: cl_splits)

lemma closed_before_run: "CeConnect \<notin> set fs \<Longrightarrow> closed_before es s \<Longrightarrow> closed_before (es @ fs) (run_state (cl_step pb tc) s fs)"
proof (induction fs arbitrary: es s)
  case (Cons f fs)
  then have "closed_before (es @ [f]) (fst (cl_step pb tc s f))" using closed_before_step by auto
  from Cons.IH [OF _ this] Cons.prems(1) show ?case by (simp add: run_state_Cons del: run.simps)
qed simp

lemma connects: "ClConnect m \<in> set (snd (cl_step pb tc s e)) \<Longrightarrow> e \<noteq> CeConnect \<Longrightarrow> cl_reconnect s"
proof (cases e)
  case (CeData n d)
  have one: "ClConnect m \<notin> set (snd (cl_parsed tc w t))" for w t
    by (cases w) (auto simp: cl_ops snd_seq_do Let_def split: cl_splits)
  have "ClConnect m \<notin> set (snd (each_do (cl_parsed tc) ws t))" for ws t
    by (induction ws arbitrary: t) (simp_all add: snd_seq_do one)
  then show "ClConnect m \<in> set (snd (cl_step pb tc s e)) \<Longrightarrow> ?thesis"
    using CeData by (auto simp: cl_onData_def split_beta split: if_splits)
qed (auto simp: cl_ops Let_def snd_seq_do split: cl_splits)

definition at_rest :: "push_client \<Rightarrow> bool" where
  "at_rest s \<longleftrightarrow> cl_closing s \<and> cl_socket s = None \<and> \<not> cl_reconnect s \<and> cl_loginTimer s = None \<and> \<not> cl_heartbeat s \<and> cl_replyTimer s = None"

lemma rest_step: "at_rest s \<Longrightarrow> e \<noteq> CeConnect \<Longrightarrow> at_rest (fst (cl_step pb tc s e)) \<and> snd (cl_step pb tc s e) = []"
  by (cases e) (auto simp: at_rest_def cl_close_def cl_destroy_def cl_stopHeartbeat_def)

lemma rest_run: "at_rest s \<Longrightarrow> CeConnect \<notin> set fs \<Longrightarrow> run_out (cl_step pb tc) s fs = []"
proof (induction fs arbitrary: s)
  case (Cons f fs)
  then show ?case using rest_step [of s f pb tc] by (auto simp: run_out_Cons simp del: run.simps)
qed simp

text \<open>The push client never holds two connections, and a closed one is silent. Started once, it opens another socket only
  after the close event of the socket it holds (by number: a new socket always has a new number). And after
  \<open>close\<close>, until \<open>connect\<close> is called again, no timer and no event of an old socket makes it write, connect, destroy,
  or tell its listeners anything.\<close>

theorem push_one_connection:
  assumes "CeConnect \<notin> set es"
  shows "(ClConnect m \<in> set (snd (cl_step pb tc (run_state (cl_step pb tc) cl_new (CeConnect # es)) e)) \<and> e \<noteq> CeConnect \<longrightarrow>
      (\<exists>n. cl_socket (run_state (cl_step pb tc) cl_new (CeConnect # es)) = Some n \<and> CeClosed n \<in> set es)) \<and>
    run_out (cl_step pb tc) (fst (cl_step pb tc s CeClose)) es = []"
proof -
  have "closed_before [] (fst (cl_step pb tc cl_new CeConnect))" by (simp add: closed_before_def cl_connect_def cl_new_def Let_def)
  from closed_before_run [OF assms this]
  have "closed_before es (run_state (cl_step pb tc) cl_new (CeConnect # es))" by (simp add: run_state_Cons del: run.simps cl_step.simps)
  moreover have "at_rest (fst (cl_step pb tc s CeClose))"
    by (simp add: at_rest_def cl_close_def cl_destroy_def cl_stopHeartbeat_def split: option.split)
  ultimately show ?thesis using connects rest_run [OF _ assms] unfolding closed_before_def by blast
qed

section \<open>Each persistent id is delivered once\<close>

definition recent :: "string list \<Rightarrow> string list" where
  "recent ids = drop (length ids - 100) ids"

definition message_id :: "client_out \<Rightarrow> string option" where
  "message_id w = (case w of ClMessage r \<Rightarrow> js_str (js_field (Some (rp_object r)) ''persistentId'') | _ \<Rightarrow> None)"

definition delivered_ids :: "client_out list \<Rightarrow> string list" where
  "delivered_ids out = List.map_filter message_id out"

lemma delivered_ids_simps [simp]: "delivered_ids [] = []" "delivered_ids (out @ out') = delivered_ids out @ delivered_ids out'"
  by (simp_all add: delivered_ids_def map_filter_def)

lemma recent_append: "recent (recent xs @ ys) = recent (xs @ ys)"
  by (simp add: recent_def drop_drop flip: append_assoc) (cases "length xs \<le> 100"; simp add: add.commute)

definition delivers_new :: "push_client \<Rightarrow> client_out list \<Rightarrow> push_client \<Rightarrow> bool" where
  "delivers_new s out t \<longleftrightarrow> cl_ids t = recent (cl_ids s @ delivered_ids out) \<and>
     (\<forall>j < length (delivered_ids out). delivered_ids out ! j \<notin> set (recent (cl_ids s @ take j (delivered_ids out))))"

lemma delivers_trans:
  assumes "delivers_new s out t" "delivers_new t out' u"
  shows "delivers_new s (out @ out') u"
proof -
  let ?ds = "delivered_ids out" and ?es = "delivered_ids out'"
  have t: "cl_ids t = recent (cl_ids s @ ?ds)" using assms(1) by (simp add: delivers_new_def)
  have "(?ds @ ?es) ! j \<notin> set (recent (cl_ids s @ take j (?ds @ ?es)))" if "j < length (?ds @ ?es)" for j
  proof (cases "j < length ?ds")
    case True
    then show ?thesis using assms(1) by (simp add: delivers_new_def nth_append)
  next
    case False
    then have "?es ! (j - length ?ds) \<notin> set (recent (cl_ids t @ take (j - length ?ds) ?es))"
      using assms(2) that by (simp add: delivers_new_def)
    then show ?thesis using False by (simp add: nth_append t recent_append flip: append_assoc)
  qed
  then show ?thesis using assms(2) by (simp add: delivers_new_def t recent_append)
qed

lemma delivers_none: "delivered_ids out = [] \<Longrightarrow> cl_ids t = cl_ids s \<Longrightarrow> length (cl_ids s) \<le> 100 \<Longrightarrow> delivers_new s out t"
  by (simp add: delivers_new_def recent_def)

lemma other_delivered [simp]: "delivered_ids (ClConnect n # out) = delivered_ids out" "delivered_ids (ClWrite n f # out) = delivered_ids out"
    "delivered_ids (ClDestroy n # out) = delivered_ids out" "delivered_ids (ClReconnectIn d # out) = delivered_ids out"
    "delivered_ids (ClError e # out) = delivered_ids out" "delivered_ids (ClConnected # out) = delivered_ids out"
    "delivered_ids (ClDisconnected # out) = delivered_ids out" "delivered_ids (ClPush p # out) = delivered_ids out"
    "delivered_ids (ClMessage r # out) =
       (case js_str (js_field (Some (rp_object r)) ''persistentId'') of None \<Rightarrow> delivered_ids out | Some i \<Rightarrow> i # delivered_ids out)"
  by (simp_all add: delivered_ids_def map_filter_def message_id_def split: option.split)

lemma handle_delivers:
  assumes "length (cl_ids s) \<le> 100"
  shows "delivers_new s (snd (cl_handleDataMessage tc ob s)) (fst (cl_handleDataMessage tc ob s))"
  using assms by (auto simp: cl_handleDataMessage_def Let_def delivers_new_def recent_def split: option.split)

lemma parsed_delivers: "length (cl_ids s) \<le> 100 \<Longrightarrow> delivers_new s (snd (cl_parsed tc w s)) (fst (cl_parsed tc w s))"
proof (cases w)
  case (McsMessage tag ob)
  assume l: "length (cl_ids s) \<le> 100"
  show ?thesis
  proof (cases "tag = 8")
    case True
    then show ?thesis using McsMessage l handle_delivers by (simp add: cl_onMessage_def)
  next
    case False
    then show ?thesis using McsMessage l
      by (intro delivers_none)
        (auto simp: cl_onMessage_def cl_onLoginError_def cl_destroy_def cl_write_def cl_startHeartbeat_def cl_stopHeartbeat_def
          seq_do_def Let_def split: option.split)
  qed
qed (auto simp: cl_destroy_def seq_do_def intro!: delivers_none split: option.split)

lemma delivers_ids: "delivers_new s out t \<Longrightarrow> length (cl_ids t) \<le> 100"
  by (simp add: delivers_new_def recent_def)

lemma each_delivers: "length (cl_ids s) \<le> 100 \<Longrightarrow> delivers_new s (snd (each_do (cl_parsed tc) ws s)) (fst (each_do (cl_parsed tc) ws s))"
proof (induction ws arbitrary: s)
  case Nil
  then show ?case by (simp add: delivers_none)
next
  case (Cons w ws)
  have f: "delivers_new s (snd (cl_parsed tc w s)) (fst (cl_parsed tc w s))" by (rule parsed_delivers [OF Cons.prems])
  show ?case using delivers_trans [OF f Cons.IH [OF delivers_ids [OF f]]] by (simp add: fst_seq_do snd_seq_do)
qed

definition keeps_ids :: "client_event \<Rightarrow> bool" where
  "keeps_ids e \<longleftrightarrow> (case e of CeSetIds ids \<Rightarrow> False | _ \<Rightarrow> True)"

lemma step_delivers:
  assumes l: "length (cl_ids s) \<le> 100" and e: "keeps_ids e"
  shows "delivers_new s (snd (cl_step pb tc s e)) (fst (cl_step pb tc s e))"
proof (cases e)
  case (CeData n d)
  have "delivers_new s (snd (cl_onData pb tc d s)) (fst (cl_onData pb tc d s))"
    using each_delivers [of "s\<lparr>cl_replyTimer := None, cl_parser := fst (mp_handleData pb (cl_parser s) d)\<rparr>"] l
    by (simp add: cl_onData_def split_beta Let_def delivers_new_def)
  then show ?thesis using CeData l by (simp add: delivers_none)
qed (use l e in \<open>auto simp: keeps_ids_def cl_ops seq_do_def Let_def intro!: delivers_none split: cl_splits\<close>)

interpretation ids: effect_machine "cl_step pb tc" "\<lambda>s. length (cl_ids s) \<le> 100" keeps_ids delivers_new for pb tc
proof
  fix s :: push_client and e
  assume "length (cl_ids s) \<le> 100" "keeps_ids e"
  then show "length (cl_ids (fst (cl_step pb tc s e))) \<le> 100" "delivers_new s (snd (cl_step pb tc s e)) (fst (cl_step pb tc s e))"
    using step_delivers delivers_ids by blast+
qed (auto intro: delivers_none delivers_trans)

lemma recent_nth: "i < length xs \<Longrightarrow> length xs \<le> i + 100 \<Longrightarrow> xs ! i \<in> set (recent xs)"
  unfolding recent_def by (auto simp: set_conv_nth intro!: exI [of _ "i - (length xs - 100)"])

text \<open>C10: a persistent id is not delivered again while it is among the last hundred, and nothing else is withheld. Over any
  run of a client that holds at most a hundred ids (as restored from storage), reconnects included, the id of each delivered
  stanza differs from the hundred ids before it, whether delivered or restored; and a data stanza is withheld only
  if its id is among those the client holds.\<close>

theorem push_ids_delivered_once:
  assumes "length (cl_ids s) \<le> 100" and "\<forall>e\<in>set es. keeps_ids e"
    and "ids = cl_ids s @ delivered_ids (run_out (cl_step pb tc) s es)"
    and "i < j" "j < length ids" "length (cl_ids s) \<le> j" "j \<le> i + 100"
  shows "ids ! i \<noteq> ids ! j \<and>
    (snd (cl_handleDataMessage tc ob s) = [] \<longleftrightarrow> (\<exists>k\<in>set (cl_ids s). js_str (js_field (Some ob) ''persistentId'') = Some k))"
proof -
  let ?ds = "delivered_ids (run_out (cl_step pb tc) s es)" and ?k = "j - length (cl_ids s)"
  have "\<forall>j<length ?ds. ?ds ! j \<notin> set (recent (cl_ids s @ take j ?ds))"
    using ids.run_effect [OF assms(1, 2)] by (simp add: delivers_new_def)
  then have "?ds ! ?k \<notin> set (recent (cl_ids s @ take ?k ?ds))" using assms(3, 5, 6) by simp
  moreover have "cl_ids s @ take ?k ?ds = take j ids" using assms(3, 6) by simp
  moreover have "ids ! j = ?ds ! ?k" using assms(3, 6) by (simp add: nth_append)
  moreover have "take j ids ! i \<in> set (recent (take j ids))" using assms(4, 5, 7) by (intro recent_nth) simp_all
  ultimately have "ids ! i \<noteq> ids ! j" using assms(4) by auto
  then show ?thesis by (auto simp: cl_handleDataMessage_def Let_def split: option.splits)
qed

section \<open>What arrives does not depend on how it is cut\<close>

lemma parsed_parser: "cl_parsed tc w (s\<lparr>cl_parser := p\<rparr>) = (fst (cl_parsed tc w s)\<lparr>cl_parser := p\<rparr>, snd (cl_parsed tc w s))"
  by (cases w) (auto simp: cl_onMessage_def cl_onLoginError_def cl_destroy_def cl_write_def cl_startHeartbeat_def cl_stopHeartbeat_def
      cl_handleDataMessage_def seq_do_def Let_def split: option.split)

lemma each_parser: "each_do (cl_parsed tc) ws (s\<lparr>cl_parser := p\<rparr>) =
    (fst (each_do (cl_parsed tc) ws s)\<lparr>cl_parser := p\<rparr>, snd (each_do (cl_parsed tc) ws s))"
  by (induction ws arbitrary: s) (simp_all add: seq_do_def split_beta Let_def parsed_parser)

lemma parsed_reply: "cl_replyTimer s = None \<Longrightarrow> cl_replyTimer (fst (cl_parsed tc w s)) = None"
  by (cases w) (auto simp: cl_ops fst_seq_do Let_def split: option.split)

lemma each_reply: "cl_replyTimer s = None \<Longrightarrow> cl_replyTimer (fst (each_do (cl_parsed tc) ws s)) = None"
  by (induction ws arbitrary: s) (simp_all add: fst_seq_do parsed_reply)

lemma each_append: "each_do g (xs @ ys) s = seq_do (each_do g xs s) (each_do g ys)"
  by (induction xs arbitrary: s) (simp_all add: seq_do_def split_beta Let_def)

lemma data_run:
  "cl_socket s = Some n \<Longrightarrow> cl_replyTimer s = None \<Longrightarrow>
     run (cl_step pb tc) s (map (CeData n) chunks) =
       (let (p, out) = run (mp_handleData pb) (cl_parser s) chunks; (t, told) = each_do (cl_parsed tc) out s in (t\<lparr>cl_parser := p\<rparr>, told))"
proof (induction chunks arbitrary: s)
  case (Cons c cs)
  obtain p out where h: "mp_handleData pb (cl_parser s) c = (p, out)" by force
  obtain t told where e: "each_do (cl_parsed tc) out s = (t, told)" by force
  have u: "s\<lparr>cl_replyTimer := None, cl_parser := p\<rparr> = s\<lparr>cl_parser := p\<rparr>" using Cons.prems(2) by (cases s) simp
  have st: "cl_step pb tc s (CeData n c) = (t\<lparr>cl_parser := p\<rparr>, told)"
    using Cons.prems each_parser [where ws = out and s = s and p = p] e by (simp add: cl_onData_def h Let_def u)
  have k: "cl_socket (t\<lparr>cl_parser := p\<rparr>) = Some n" "cl_replyTimer (t\<lparr>cl_parser := p\<rparr>) = None"
    using each_keeps(2) [of tc out s] each_reply [of s tc out] Cons.prems e by simp_all
  show ?case
    using Cons.IH [OF k] by (simp add: st h split_beta Let_def each_append seq_do_def e each_parser del: cl_step.simps)
qed simp

lemma stream_handled:
  assumes "cl_socket s = Some n" "cl_parser s = mp_new" "cl_replyTimer s = None"
    and "reader_ok pb" "38 \<le> sint v" "\<forall>f\<in>set fs. mframe_ok pb f" "mframe_ok pb g" "frame_wire g = p @ q" "q \<noteq> []"
    and "concat chunks = v # concat (map frame_wire fs) @ p" "\<forall>c\<in>set chunks. length c \<le> 2 * 1024 * 1024"
  shows "run_out (cl_step pb tc) s (map (CeData n) chunks) =
    snd (each_do (\<lambda>f. cl_onMessage tc (sint (fr_tag f)) (the (frame_object pb f))) fs s)"
proof -
  have "run_out (mp_handleData pb) mp_new chunks = map (frame_message pb) fs"
    by (rule frames_delivered [OF assms(4-11)])
  moreover have "each_do (cl_parsed tc) (map (frame_message pb) fs) t = each_do (\<lambda>f. cl_onMessage tc (sint (fr_tag f)) (the (frame_object pb f))) fs t" for t
    by (induction fs arbitrary: t) (simp_all add: frame_message_def seq_do_def split_beta Let_def)
  ultimately show ?thesis using data_run [OF assms(1, 3), of pb tc chunks] assms(2) by (simp add: split_beta Let_def)
qed

text \<open>C8: what the push client does with a stream does not depend on how TLS cuts it. On a new connection (the parser reset, no
  heartbeat reply awaited), for a well-formed stream of frames in chunks of at most 2 MiB and the beginning of
  another frame, the client writes, delivers and reports exactly what its message handler does on
  the frames one after the other.\<close>

theorem push_stream_handled:
  assumes "cl_socket s = Some n" "cl_parser s = mp_new" "cl_replyTimer s = None"
    and "reader_ok pb" "38 \<le> sint v" "\<forall>f\<in>set fs. mframe_ok pb f" "mframe_ok pb g" "frame_wire g = p @ q" "q \<noteq> []"
    and "concat chunks = v # concat (map frame_wire fs) @ p" "\<forall>c\<in>set chunks. length c \<le> 2 * 1024 * 1024"
  shows "run_out (cl_step pb tc) s (map (CeData n) chunks) =
    snd (each_do (\<lambda>f. cl_onMessage tc (sint (fr_tag f)) (the (frame_object pb f))) fs s)"
  by (rule stream_handled [OF assms])

text \<open>Two data stanzas with one-byte bodies, whose text is their persistent id, after a connection is opened.\<close>

definition id_protobuf :: protobuf where
  "id_protobuf = sample_protobuf\<lparr>pb_decode := (\<lambda>ty body. Some (JObj [(''persistentId'', JStr (map (\<lambda>b. char_of (unat b)) body))]))\<rparr>"

definition plain_text :: text_codec where
  "plain_text = \<lparr> tc_utf8 = map (\<lambda>b. char_of (unat b)), tc_json = (\<lambda>_. None) \<rparr>"

definition id_frames :: "mcs_frame list" where
  "id_frames = [\<lparr> fr_tag = 8, fr_length = [1], fr_body = [97] \<rparr>, \<lparr> fr_tag = 8, fr_length = [1], fr_body = [98] \<rparr>]"

definition id_chunks :: "bytes list" where
  "id_chunks = [[41, 8, 1], [97, 8, 1, 98, 8]]"

lemma id_deliveries:
  "delivered_ids (run_out (cl_step id_protobuf plain_text) (fst (cl_connect cl_new)) (map (CeData 0) id_chunks)) = [''a'', ''b'']"
proof -
  have "run_out (cl_step id_protobuf plain_text) (fst (cl_connect cl_new)) (map (CeData 0) id_chunks) =
      snd (each_do (\<lambda>f. cl_onMessage plain_text (sint (fr_tag f)) (the (frame_object id_protobuf f))) id_frames (fst (cl_connect cl_new)))"
  proof (rule stream_handled [of _ _ _ 41])
    have same: "pb_int32 id_protobuf = pb_int32 sample_protobuf" by (simp add: id_protobuf_def)
    show "reader_ok id_protobuf" unfolding reader_ok_def same by (rule sample_reader [unfolded reader_ok_def])
    show "frame_wire \<lparr> fr_tag = 8, fr_length = [1], fr_body = [5] \<rparr> = [8] @ [1, 5]" by (simp add: frame_wire_def)
    show "\<forall>f\<in>set id_frames. mframe_ok id_protobuf f" by code_simp
    show "mframe_ok id_protobuf \<lparr> fr_tag = 8, fr_length = [1], fr_body = [5] \<rparr>" by code_simp
  qed (simp_all add: id_frames_def id_chunks_def frame_wire_def cl_connect_def cl_new_def Let_def)
  moreover have "map (\<lambda>f. the (frame_object id_protobuf f)) id_frames = [JObj [(''persistentId'', JStr ''a'')], JObj [(''persistentId'', JStr ''b'')]]"
    by code_simp
  ultimately show ?thesis
    by (simp add: id_frames_def cl_onMessage_def cl_handleDataMessage_def cl_connect_def cl_new_def Let_def seq_do_def)
qed

lemma push_connection_supervised_witness:
  "cl_loginTimer (fst (cl_connect cl_new)) = Some 0 \<and>
   snd (cl_step id_protobuf plain_text (fst (cl_connect cl_new)) CeLoginTimer) = [ClDestroy 0] \<and>
   cl_reconnect (fst (cl_step id_protobuf plain_text (fst (cl_connect cl_new)) (CeClosed 0)))"
proof -
  have "fst (cl_connect cl_new) = run_state (cl_step id_protobuf plain_text) cl_new [CeConnect]" by simp
  from push_connection_supervised [OF this, of 0] show ?thesis by (simp add: cl_connect_def cl_new_def Let_def)
qed

lemma push_one_connection_witness:
  "run_out (cl_step id_protobuf plain_text) (fst (cl_step id_protobuf plain_text (fst (cl_connect cl_new)) CeClose)) [CeReconnect, CeClosed 0] = [] \<and>
   (\<exists>n. cl_socket (run_state (cl_step id_protobuf plain_text) cl_new [CeConnect, CeReconnect, CeClosed 0]) = Some n \<and>
      CeClosed n \<in> set [CeReconnect, CeClosed 0])"
proof -
  have "ClConnect 1 \<in> set (snd (cl_step id_protobuf plain_text
      (run_state (cl_step id_protobuf plain_text) cl_new [CeConnect, CeReconnect, CeClosed 0]) CeReconnect))"
    by (simp add: cl_new_def cl_connect_def cl_onClose_def cl_stopHeartbeat_def cl_scheduleReconnect_def seq_do_def Let_def)
  moreover have "CeConnect \<notin> set [CeReconnect, CeClosed 0]" "CeReconnect \<noteq> CeConnect" by simp_all
  ultimately show ?thesis using push_one_connection [of "[CeReconnect, CeClosed 0]" 1 id_protobuf plain_text CeReconnect] by blast
qed

lemma push_ids_delivered_once_witness:
  "[''a'', ''b''] ! 0 \<noteq> [''a'', ''b''] ! 1 \<and>
   snd (cl_handleDataMessage plain_text (JObj [(''persistentId'', JStr ''b'')]) (fst (cl_connect cl_new))) \<noteq> []"
proof -
  have "[''a'', ''b''] = cl_ids (fst (cl_connect cl_new)) @
      delivered_ids (run_out (cl_step id_protobuf plain_text) (fst (cl_connect cl_new)) (map (CeData 0) id_chunks))"
    unfolding id_deliveries by (simp add: cl_connect_def cl_new_def Let_def)
  from push_ids_delivered_once [OF _ _ this, of 0 1 "JObj [(''persistentId'', JStr ''b'')]"] show ?thesis
    by (simp add: cl_connect_def cl_new_def id_chunks_def keeps_ids_def Let_def)
qed

lemma push_stream_handled_witness:
  "run_out (cl_step sample_protobuf plain_text) (fst (cl_connect cl_new)) (map (CeData 0) [[41, 0], [0, 8, 130], [0, 7, 9, 8]]) =
     snd (each_do (\<lambda>f. cl_onMessage plain_text (sint (fr_tag f)) (the (frame_object sample_protobuf f))) sample_frames (fst (cl_connect cl_new)))"
proof (rule push_stream_handled [OF _ _ _ sample_reader, of _ _ 41])
  show "frame_wire \<lparr> fr_tag = 8, fr_length = [1], fr_body = [5] \<rparr> = [8] @ [1, 5]" by (simp add: frame_wire_def)
  show "\<forall>f\<in>set sample_frames. mframe_ok sample_protobuf f" by code_simp
  show "mframe_ok sample_protobuf \<lparr> fr_tag = 8, fr_length = [1], fr_body = [5] \<rparr>" by code_simp
qed (simp_all add: sample_frames_def frame_wire_def cl_connect_def cl_new_def Let_def)

end
