(* ===== verification/Push_Event.thy ===== *)
theory Push_Event
  imports Push_Client
begin

text \<open>
  The normalisation of a push delivery (\<open>mega/push.ts\<close>, \<open>mega/push-recording-reference.ts\<close>): the nested
  envelopes are walked to the innermost payload, identity comes from the deepest level that has it, and only the
  listed fields reach the provider. Deliveries are JSON trees, so an envelope is never its own descendant (the
  identity check of the walk cannot fire). Text decoding and \<open>JSON.parse\<close> are the fields of \<open>text_codec\<close>.
\<close>

section \<open>Scalars\<close>

definition push_text :: "json option \<Rightarrow> string option" where
  "push_text v =
     (let result = (case js_str v of Some s \<Rightarrow> trim s | None \<Rightarrow> []) in if 0 < length result \<and> length result \<le> 2048 then Some result else None)"

fun push_integer :: "json option \<Rightarrow> int option" where
  "push_integer (Some (JNum x)) = js_safe (Some x)"
| "push_integer (Some (JStr s)) = js_safe (map_option of_int (js_parseInt s))"
| "push_integer _ = None"

fun safe_number :: "json option \<Rightarrow> int option" where
  "safe_number (Some (JNum x)) = js_safe (Some x)"
| "safe_number _ = None"

definition first_of :: "'a option \<Rightarrow> 'a option \<Rightarrow> 'a option" where
  "first_of a b = (if a \<noteq> None then a else b)"

fun positiveSignal :: "json option \<Rightarrow> bool" where
  "positiveSignal (Some (JBool b)) = b"
| "positiveSignal (Some (JNum x)) = (x > 0)"
| "positiveSignal (Some (JStr s)) = (map lower (trim s) \<notin> {[], ''0'', ''false'', ''none'', ''null''})"
| "positiveSignal _ = False"

definition positiveInteger :: "json option \<Rightarrow> bool" where
  "positiveInteger v = (case push_integer v of Some n \<Rightarrow> n > 0 | None \<Rightarrow> False)"

definition sensorOpen :: "json option \<Rightarrow> bool option" where
  "sensorOpen v =
     (if v = Some (JStr ''1'') \<or> v = Some (JNum 1) then Some True
      else if v = Some (JStr ''0'') \<or> v = Some (JNum 0) then Some False else None)"

section \<open>Envelopes\<close>

text \<open>\<open>toString("base64")\<close> of a buffer.\<close>

definition sextet_char :: "nat \<Rightarrow> char" where
  "sextet_char n = (if n < 26 then char_of (n + 65) else if n < 52 then char_of (n + 71) else if n < 62 then char_of (n - 4)
     else if n = 62 then CHR ''+'' else CHR ''/'')"

fun base64_encode :: "bytes \<Rightarrow> string" where
  "base64_encode (a # b # c # xs) =
     [sextet_char (unat a div 4), sextet_char (unat a mod 4 * 16 + unat b div 16), sextet_char (unat b mod 16 * 4 + unat c div 64),
      sextet_char (unat c mod 64)] @ base64_encode xs"
| "base64_encode [a, b] =
     [sextet_char (unat a div 4), sextet_char (unat a mod 4 * 16 + unat b div 16), sextet_char (unat b mod 16 * 4), CHR ''='']"
| "base64_encode [a] = [sextet_char (unat a div 4), sextet_char (unat a mod 4 * 16), CHR ''='', CHR ''='']"
| "base64_encode [] = []"

fun record_fields :: "json option \<Rightarrow> (string \<times> json) list option" where
  "record_fields (Some (JObj fs)) = Some fs"
| "record_fields _ = None"

definition nestedRecord :: "text_codec \<Rightarrow> json \<Rightarrow> (string \<times> json) list option" where
  "nestedRecord tc v =
     (case v of
        JObj fs \<Rightarrow> Some fs
      | JStr s \<Rightarrow>
          (case tc_json tc s of
             Some parsed \<Rightarrow> record_fields (Some parsed)
           | None \<Rightarrow>
               (let encoded = trim s; decoded = base64_bytes encoded in
                if encoded = [] \<or> length encoded > 87384 \<or> length encoded mod 4 \<noteq> 0 \<or> \<not> base64_shape encoded \<or> sextet (hd encoded) = None
                then None
                else if decoded = [] \<or> length decoded > 65536 \<or> base64_encode decoded \<noteq> encoded then None
                else record_fields (tc_json tc (tc_utf8 tc decoded))))
      | _ \<Rightarrow> None)"

text \<open>The levels from the outermost, with room for so many more; the code stops when it would add an eighteenth.\<close>

fun payload_levels :: "text_codec \<Rightarrow> nat \<Rightarrow> (string \<times> json) list \<Rightarrow> (string \<times> json) list list option" where
  "payload_levels tc room fs =
     (case map_of fs ''payload'' of
        None \<Rightarrow> Some [fs]
      | Some v \<Rightarrow>
          if v = JNull then Some [fs]
          else
            (case room of
               0 \<Rightarrow> None
             | Suc r \<Rightarrow> (case nestedRecord tc v of None \<Rightarrow> None | Some nx \<Rightarrow> map_option ((#) fs) (payload_levels tc r nx))))"

definition pushPayloadLevels :: "text_codec \<Rightarrow> (string \<times> json) list \<Rightarrow> (string \<times> json) list list option" where
  "pushPayloadLevels tc data = payload_levels tc 16 data"

section \<open>Detection evidence\<close>

datatype evidence = EvPerson | EvVehicle | EvPet | EvDog | EvCrying | EvSound

definition add_evidence :: "evidence \<Rightarrow> evidence list \<Rightarrow> evidence list" where
  "add_evidence e es = (if e \<in> set es then es else es @ [e])"

definition add_when :: "bool \<Rightarrow> evidence \<Rightarrow> evidence list \<Rightarrow> evidence list" where
  "add_when b e es = (if b then add_evidence e es else es)"

definition object_evidence :: "json \<Rightarrow> evidence list \<Rightarrow> evidence list" where
  "object_evidence v es =
     (case v of
        JStr s \<Rightarrow>
          (let name = map lower (trim s) in
           if name \<in> {''person'', ''human''} then add_evidence EvPerson es
           else if name \<in> {''vehicle'', ''car'', ''truck'', ''bus'', ''motorcycle'', ''bicycle''} then add_evidence EvVehicle es
           else if name = ''dog'' then add_evidence EvDog es
           else if name \<in> {''pet'', ''animal'', ''cat''} then add_evidence EvPet es
           else if name = ''crying'' then add_evidence EvCrying es
           else if name = ''sound'' then add_evidence EvSound es
           else es)
      | _ \<Rightarrow> es)"

definition object_names :: "json option \<Rightarrow> json list" where
  "object_names v =
     (case v of Some (JArr xs) \<Rightarrow> xs | Some (JObj fs) \<Rightarrow> js_items (map_of fs ''names'') | _ \<Rightarrow> [])"

definition structuredDetectionEvidence :: "(string \<times> json) list \<Rightarrow> evidence list" where
  "structuredDetectionEvidence payload =
     (let f = map_of payload;
          person = (positiveSignal (f ''person'') \<or> positiveInteger (f ''person_count'') \<or> positiveInteger (f ''person_id'') \<or>
            positiveInteger (f ''face_id'') \<or> (\<exists>k\<in>set [''ai_faces'', ''face_ids'', ''familiar_faces'']. js_items (f k) \<noteq> []));
          es = foldl (\<lambda>es v. object_evidence v es) (add_when person EvPerson []) (object_names (f ''objects''));
          es = add_when (js_items (f ''vehicle_types'') \<noteq> []) EvVehicle es;
          dog = (case js_str (f ''pet_type'') of Some s \<Rightarrow> map lower (trim s) = ''dog'' | None \<Rightarrow> False);
          es = add_when (positiveSignal (f ''pet_type'')) (if dog then EvDog else EvPet) es;
          es = add_when (positiveSignal (f ''crying'')) EvCrying es in
      add_when (positiveSignal (f ''sound_detection'') \<or> positiveSignal (f ''sound_type'')) EvSound es)"

section \<open>The recording of a delivery\<close>

definition all_digits :: "nat \<Rightarrow> string \<Rightarrow> bool" where
  "all_digits n s \<longleftrightarrow> length s = n \<and> list_all is_digit s"

definition leap_year :: "nat \<Rightarrow> bool" where
  "leap_year y \<longleftrightarrow> y mod 4 = 0 \<and> (y mod 100 \<noteq> 0 \<or> y mod 400 = 0)"

definition month_days :: "nat \<Rightarrow> nat \<Rightarrow> nat" where
  "month_days y m = (if m = 2 then (if leap_year y then 29 else 28) else if m \<in> {4, 6, 9, 11} then 30 else 31)"

text \<open>A fourteen-digit stamp is an instant when \<open>Date\<close> reads and prints it back unchanged.\<close>

definition stamp_valid :: "string \<Rightarrow> bool" where
  "stamp_valid s =
     (let n = (\<lambda>i j. digits_value (slice i j s)); y = n 0 4; m = n 4 6; d = n 6 8 in
      1 \<le> m \<and> m \<le> 12 \<and> 1 \<le> d \<and> d \<le> month_days y m \<and> n 8 10 \<le> 23 \<and> n 10 12 \<le> 59 \<and> n 12 14 \<le> 59)"

definition recordingPathDate :: "string \<Rightarrow> string option" where
  "recordingPathDate path =
     (if length path > 1024 then None
      else
        (case split_on (CHR ''/'') path of
           [front, zx, disk, camera, month, folder, file] \<Rightarrow>
             if front = [] \<and> zx = ''zx'' \<and> take 8 disk = ''hdd_data'' \<and> drop 8 disk \<noteq> [] \<and> list_all is_digit (drop 8 disk) \<and>
                take 6 camera = ''Camera'' \<and> all_digits 2 (drop 6 camera) \<and> all_digits 6 month \<and> all_digits 14 folder \<and>
                all_digits 14 (take 14 file) \<and> drop 14 file = ''.zxvideo'' \<and>
                month = take 6 folder \<and> take 8 folder = take 8 file \<and> stamp_valid folder \<and> stamp_valid (take 14 file)
             then Some (slice 0 4 folder @ ''-'' @ slice 4 6 folder @ ''-'' @ slice 6 8 folder) else None
         | _ \<Rightarrow> None))"

record recording_reference =
  rr_id :: string
  rr_storagePath :: string
  rr_triggerMilliseconds :: int

definition record_id :: "json option \<Rightarrow> string option" where
  "record_id raw =
     (case safe_number raw of
        Some n \<Rightarrow> Some (int_str n)
      | None \<Rightarrow> js_str raw)"

definition pushRecordingReference :: "(string \<times> json) list \<Rightarrow> recording_reference option" where
  "pushRecordingReference payload =
     (case (record_id (map_of payload ''record_id''), js_str (map_of payload ''file_path''), safe_number (map_of payload ''trigger_time'')) of
        (Some rid, Some path, Some trigger) \<Rightarrow>
          if rid = [] \<or> \<not> list_all is_digit rid \<or> hd rid = CHR ''0'' \<or> length rid > 19 \<or> digits_value rid > 9223372036854775807 \<or>
             length path > 1024 \<or> trigger < 1000000000000 \<or> trigger > 9999999999999 \<or> recordingPathDate path = None
          then None
          else Some \<lparr> rr_id = rid, rr_storagePath = path, rr_triggerMilliseconds = trigger \<rparr>
      | _ \<Rightarrow> None)"

section \<open>The normalised event\<close>

datatype mode_field = StationCurrentMode | CurrentMode | ModeField

record mode_change =
  mo_configured :: int
  mo_effective :: int
  mo_previous :: int

record mega_event =
  me_cameraSerial :: string
  me_stationSerial :: string
  me_cameraName :: "string option"
  me_eventType :: "int option"
  me_messageType :: "int option"
  me_notificationStyle :: "int option"
  me_personName :: "string option"
  me_detectionEvidence :: "evidence list"
  me_content :: "string option"
  me_pictureUrl :: "string option"
  me_filePath :: "string option"
  me_recording :: "recording_reference option"
  me_fetchId :: "int option"
  me_senseId :: "string option"
  me_guardMode :: "int option"
  me_effectiveMode :: "int option"
  me_effectiveModeField :: "mode_field option"
  me_nvrModeChange :: "mode_change option"
  me_alarmType :: "int option"
  me_sensorOpen :: "bool option"
  me_eventId :: "string option"

definition level_field :: "(string \<times> json) list list \<Rightarrow> string \<Rightarrow> string option" where
  "level_field levels key = Option.bind (List.find (\<lambda>fs. push_text (map_of fs key) \<noteq> None) (rev levels)) (\<lambda>fs. push_text (map_of fs key))"

definition nvr_change :: "(string \<times> json) list \<Rightarrow> mode_change option" where
  "nvr_change payload =
     (if first_of (push_integer (map_of payload ''a'')) (push_integer (map_of payload ''event_type'')) = Some 9 then
        (case (safe_number (map_of payload ''arming''), safe_number (map_of payload ''mode''), safe_number (map_of payload ''before_change_mode'')) of
           (Some c, Some e, Some p) \<Rightarrow> Some \<lparr> mo_configured = c, mo_effective = e, mo_previous = p \<rparr>
         | _ \<Rightarrow> None)
      else None)"

definition event_of_levels :: "(string \<times> json) list list \<Rightarrow> mega_event option" where
  "event_of_levels levels =
     (let payload = List.last levels; f = map_of payload; station = level_field levels ''station_sn'' in
      case first_of (level_field levels ''device_sn'') station of
        None \<Rightarrow> None
      | Some camera \<Rightarrow> Some
         \<lparr> me_cameraSerial = camera,
           me_stationSerial = (case station of Some s \<Rightarrow> s | None \<Rightarrow> camera),
           me_cameraName = first_of (push_text (f ''name'')) (first_of (push_text (f ''device_name'')) (push_text (f ''n''))),
           me_eventType = first_of (push_integer (f ''a'')) (push_integer (f ''event_type'')),
           me_messageType = push_integer (f ''msg_type''),
           me_notificationStyle = push_integer (f ''notification_style''),
           me_personName = first_of (push_text (f ''f'')) (push_text (f ''nick_name'')),
           me_detectionEvidence = structuredDetectionEvidence payload,
           me_content = level_field levels ''content'',
           me_pictureUrl = push_text (f ''pic_url''),
           me_filePath = first_of (push_text (f ''file_path'')) (push_text (f ''p'')),
           me_recording = pushRecordingReference payload,
           me_fetchId = first_of (push_integer (f ''fetch_id'')) (push_integer (f ''i'')),
           me_senseId = first_of (push_text (f ''sense_id'')) (push_text (f ''j'')),
           me_guardMode = push_integer (f ''station_guard_mode''),
           me_effectiveMode = first_of (push_integer (f ''station_current_mode'')) (push_integer (f ''current_mode'')),
           me_effectiveModeField =
             (if push_integer (f ''station_current_mode'') \<noteq> None then Some StationCurrentMode
              else if push_integer (f ''current_mode'') \<noteq> None then Some CurrentMode
              else if nvr_change payload \<noteq> None then Some ModeField else None),
           me_nvrModeChange = nvr_change payload,
           me_alarmType = push_integer (f ''alarm_type''),
           me_sensorOpen = sensorOpen (f ''e''),
           me_eventId = level_field levels ''unique_id'' \<rparr>)"

definition parsePushEvent :: "text_codec \<Rightarrow> (string \<times> json) list \<Rightarrow> mega_event option" where
  "parsePushEvent tc data = Option.bind (pushPayloadLevels tc data) event_of_levels"

section \<open>Delivery times\<close>

fun mcsTimestampMilliseconds :: "json option \<Rightarrow> int option" where
  "mcsTimestampMilliseconds (Some (JNum x)) = js_safe (Some x)"
| "mcsTimestampMilliseconds (Some (JStr s)) =
     (if 10 \<le> length s \<and> length s \<le> 16 \<and> list_all is_digit s \<and> int (digits_value s) \<le> max_safe_integer then Some (int (digits_value s)) else None)"
| "mcsTimestampMilliseconds (Some (JObj fs)) =
     (case (map_of fs ''low'', map_of fs ''high'') of
        (Some (JNum low), Some (JNum high)) \<Rightarrow>
          if is_integer low \<and> is_integer high \<and> 0 \<le> high \<and> high \<le> 2147483647 then
            (let parsed = \<lfloor>high\<rfloor> * 2 ^ 32 + \<lfloor>low\<rfloor> mod 2 ^ 32 in if parsed \<le> max_safe_integer then Some parsed else None)
          else None
      | _ \<Rightarrow> None)"
| "mcsTimestampMilliseconds _ = None"

definition isFreshStartupDelivery :: "json option \<Rightarrow> int \<Rightarrow> int \<Rightarrow> bool" where
  "isFreshStartupDelivery v startedAt now =
     (case mcsTimestampMilliseconds v of
        None \<Rightarrow> False
      | Some sent \<Rightarrow> safe_int startedAt \<and> safe_int now \<and> 946684800000 \<le> sent \<and> sent \<le> now + 60000 \<and> startedAt - 5000 \<le> sent)"

section \<open>Base 64 round trip\<close>

fun sextets :: "bytes \<Rightarrow> nat list" where
  "sextets (a # b # c # xs) =
     [unat a div 4, unat a mod 4 * 16 + unat b div 16, unat b mod 16 * 4 + unat c div 64, unat c mod 64] @ sextets xs"
| "sextets [a, b] = [unat a div 4, unat a mod 4 * 16 + unat b div 16, unat b mod 16 * 4]"
| "sextets [a] = [unat a div 4, unat a mod 4 * 16]"
| "sextets [] = []"

definition base64_padding :: "bytes \<Rightarrow> string" where
  "base64_padding bs = (if length bs mod 3 = 0 then [] else if length bs mod 3 = 1 then ''=='' else ''='')"

lemma padding_step: "base64_padding (a # b # c # xs) = base64_padding xs"
  by (simp add: base64_padding_def numeral_3_eq_3 [symmetric] mod_add_right_eq flip: add_Suc)

lemma encode_sextets: "base64_encode bs = map sextet_char (sextets bs) @ base64_padding bs"
  by (induction bs rule: base64_encode.induct) (simp_all add: padding_step, simp_all add: base64_padding_def)

lemma byte_div: "y < 256 \<Longrightarrow> y div 4 < (64 :: nat)" "y < 256 \<Longrightarrow> y div 16 < (16 :: nat)" "y < 256 \<Longrightarrow> y div 64 < (4 :: nat)"
  by (simp_all add: div_less_iff_less_mult)

lemma byte_parts: "x < 256 \<Longrightarrow> x div 4 < (64 :: nat)" "y < 256 \<Longrightarrow> x mod 4 * 16 + y div 16 < (64 :: nat)"
    "z < 256 \<Longrightarrow> y mod 16 * 4 + z div 64 < (64 :: nat)" "x mod 4 * 16 < (64 :: nat)" "y mod 16 * 4 < (64 :: nat)"
  using byte_div [of x] byte_div [of y] byte_div [of z] mod_less_divisor [of 4 x] mod_less_divisor [of 16 y] by linarith+

lemma sextets_bound: "\<forall>n\<in>set (sextets bs). n < 64"
  by (induction bs rule: sextets.induct) (simp_all add: byte_parts unat_byte_bound)

lemma byte_join: "y < 256 \<Longrightarrow> x div 4 * 4 + (x mod 4 * 16 + y div 16) div 16 = (x :: nat)"
    "y < 256 \<Longrightarrow> z < 256 \<Longrightarrow> (x mod 4 * 16 + y div 16) mod 16 * 16 + (y mod 16 * 4 + z div 64) div 4 = (y :: nat)"
    "z < 256 \<Longrightarrow> (y mod 16 * 4 + z div 64) mod 4 * 64 + z mod 64 = (z :: nat)"
    "x div 4 * 4 + x mod 4 * 16 div 16 = (x :: nat)" "y < 256 \<Longrightarrow> (x mod 4 * 16 + y div 16) mod 16 * 16 + y mod 16 * 4 div 4 = (y :: nat)"
  using byte_div [of y] byte_div [of z] by (simp_all add: div_mult_self3 mod_mult_self3)

lemma sextets_bytes: "sextet_bytes (sextets bs) = bs"
  by (induction bs rule: sextets.induct)
     (simp_all only: sextets.simps append.simps sextet_bytes.simps byte_join unat_byte_bound of_nat_unat ucast_id)

lemma sextet_char: "n < 64 \<Longrightarrow> sextet (sextet_char n) = Some n"
  by (auto simp: sextet_def sextet_char_def Let_def)

lemma sextet_not_space: "sextet c \<noteq> None \<Longrightarrow> \<not> js_space c"
  by (auto simp: sextet_def js_space_def Let_def split: if_splits)

lemma encode_digits: "\<forall>c\<in>set (map sextet_char (sextets bs)). sextet c \<noteq> None"
  using sextets_bound [of bs] by (auto simp: sextet_char)

lemma padding_stops: "takeWhile (\<lambda>c. sextet c \<noteq> None) (base64_padding bs) = []" "dropWhile (\<lambda>c. sextet c \<noteq> None) (base64_padding bs) = base64_padding bs"
  by (simp_all add: base64_padding_def sextet_def Let_def)

lemma base64_round_trip: "base64_bytes (base64_encode bs) = bs"
proof -
  have "takeWhile (\<lambda>c. sextet c \<noteq> None) (base64_encode bs) = map sextet_char (sextets bs)"
    using encode_digits [of bs] by (simp add: encode_sextets takeWhile_append2 padding_stops del: set_map not_None_eq)
  moreover have "map (the \<circ> sextet) (map sextet_char (sextets bs)) = sextets bs"
    using sextets_bound [of bs] by (induction "sextets bs") (auto simp: map_idI sextet_char)
  ultimately show ?thesis by (simp add: base64_bytes_def sextets_bytes del: map_map)
qed

lemma base64_encode_shape: "base64_shape (base64_encode bs)"
proof -
  have "dropWhile (\<lambda>c. sextet c \<noteq> None) (base64_encode bs) = base64_padding bs"
    using encode_digits [of bs] by (simp add: encode_sextets dropWhile_append2 padding_stops del: set_map not_None_eq)
  then show ?thesis by (simp add: base64_shape_def base64_padding_def Let_def)
qed

lemma encode_length: "length (base64_encode bs) = (length bs + 2) div 3 * 4"
  by (induction bs rule: base64_encode.induct) (simp_all, presburger)

lemma encode_no_space: "c \<in> set (base64_encode bs) \<Longrightarrow> \<not> js_space c"
proof -
  assume "c \<in> set (base64_encode bs)"
  then have "c \<in> set (map sextet_char (sextets bs)) \<or> c = CHR ''=''"
    unfolding encode_sextets by (auto simp: base64_padding_def split: if_splits)
  then show ?thesis using bspec [OF encode_digits [of bs], of c] sextet_not_space [of c] by (auto simp: js_space_def)
qed

lemma trim_no_space: "(\<And>c. c \<in> set s \<Longrightarrow> \<not> js_space c) \<Longrightarrow> trim s = s"
proof -
  assume n: "\<And>c. c \<in> set s \<Longrightarrow> \<not> js_space c"
  have "dropWhile js_space s = s" "dropWhile js_space (rev s) = rev s" using n by (auto simp: dropWhile_eq_self_iff hd_rev)
  then show ?thesis by (simp add: trim_def)
qed

lemma encode_hd: "bs \<noteq> [] \<Longrightarrow> sextet (hd (base64_encode bs)) \<noteq> None"
  by (cases bs rule: base64_encode.cases) (simp_all add: sextet_char byte_parts unat_byte_bound)

section \<open>Nested envelopes\<close>

text \<open>The ways a payload may be carried: as an object, as JSON text, or as the base 64 of JSON text.\<close>

definition carries_fields :: "text_codec \<Rightarrow> json \<Rightarrow> (string \<times> json) list \<Rightarrow> bool" where
  "carries_fields tc v fs \<longleftrightarrow> v = JObj fs \<or> (\<exists>s. v = JStr s \<and> tc_json tc s = Some (JObj fs)) \<or>
     (\<exists>bs. v = JStr (base64_encode bs) \<and> bs \<noteq> [] \<and> length bs \<le> 65536 \<and> tc_json tc (base64_encode bs) = None \<and>
        tc_json tc (tc_utf8 tc bs) = Some (JObj fs))"

fun enveloped :: "text_codec \<Rightarrow> (string \<times> json) list list \<Rightarrow> bool" where
  "enveloped tc [] = False"
| "enveloped tc [fs] = nullish (map_of fs ''payload'')"
| "enveloped tc (fs # gs # rest) =
     ((\<exists>v. map_of fs ''payload'' = Some v \<and> carries_fields tc v gs) \<and> enveloped tc (gs # rest))"

lemma nested_carried: "carries_fields tc v fs \<Longrightarrow> nestedRecord tc v = Some fs"
proof -
  assume c: "carries_fields tc v fs"
  show ?thesis
  proof (cases "\<exists>bs. v = JStr (base64_encode bs) \<and> bs \<noteq> [] \<and> length bs \<le> 65536 \<and> tc_json tc (base64_encode bs) = None \<and>
        tc_json tc (tc_utf8 tc bs) = Some (JObj fs)")
    case True
    then obtain bs where b: "v = JStr (base64_encode bs)" "bs \<noteq> []" "length bs \<le> 65536" "tc_json tc (base64_encode bs) = None"
        "tc_json tc (tc_utf8 tc bs) = Some (JObj fs)" by blast
    have l: "length (base64_encode bs) \<le> 87384" using b(3) unfolding encode_length by linarith
    have n: "base64_encode bs \<noteq> []" using b(2) by (cases bs rule: base64_encode.cases) simp_all
    have t: "trim (base64_encode bs) = base64_encode bs" by (rule trim_no_space) (rule encode_no_space)
    have m: "length (base64_encode bs) mod 4 = 0" by (simp add: encode_length)
    show ?thesis
      using b(2, 3, 5) n l m encode_hd [OF b(2)]
      by (simp add: nestedRecord_def b(1, 4) t base64_round_trip base64_encode_shape Let_def)
  next
    case False
    then show ?thesis using c by (auto simp: carries_fields_def nestedRecord_def)
  qed
qed

lemma carried_not_null: "carries_fields tc v fs \<Longrightarrow> v \<noteq> JNull"
  by (auto simp: carries_fields_def)

lemma levels_enveloped: "enveloped tc levels \<Longrightarrow>
    payload_levels tc room (hd levels) = (if length levels \<le> Suc room then Some levels else None)"
proof (induction tc levels arbitrary: room rule: enveloped.induct)
  case (2 tc fs)
  then show ?case by (auto simp: nullish_def)
next
  case (3 tc fs gs rest)
  then obtain v where v: "map_of fs ''payload'' = Some v" "carries_fields tc v gs" "enveloped tc (gs # rest)" by auto
  show ?case
    using 3(1) [OF v(3)] carried_not_null [OF v(2)] nested_carried [OF v(2)]
    by (subst payload_levels.simps) (simp add: v(1) del: payload_levels.simps split: nat.split)
qed simp

text \<open>C14: what a push means does not depend on how its envelopes are packed. Whichever of the three encodings (object, JSON
  text, base 64 of JSON text up to 64 KiB) each level uses, a delivery of at most seventeen levels is read as its list of
  levels, from which identity and detail are taken; a deeper one is refused.\<close>

theorem push_envelopes_unwrapped:
  assumes "enveloped tc levels"
  shows "parsePushEvent tc (hd levels) = (if length levels \<le> 17 then event_of_levels levels else None)"
  using levels_enveloped [OF assms, of 16] by (simp add: parsePushEvent_def pushPayloadLevels_def)

text \<open>An event inside JSON text inside base 64, for a JSON reader that knows two texts.\<close>

definition inner_fields :: "(string \<times> json) list" where
  "inner_fields = [(''device_sn'', JStr ''T8010'')]"

definition two_texts :: text_codec where
  "two_texts = \<lparr> tc_utf8 = (\<lambda>bs. if bs = [1, 2] then ''b'' else []),
     tc_json = (\<lambda>s. if s = ''a'' then Some (JObj inner_fields)
       else if s = ''b'' then Some (JObj [(''payload'', JStr ''a''), (''station_sn'', JStr ''T9000'')]) else None) \<rparr>"

lemma push_envelopes_unwrapped_witness:
  "map_option me_cameraSerial (parsePushEvent two_texts [(''payload'', JStr (base64_encode [1, 2]))]) = Some ''T8010'' \<and>
   map_option me_stationSerial (parsePushEvent two_texts [(''payload'', JStr (base64_encode [1, 2]))]) = Some ''T9000''"
proof -
  let ?mid = "[(''payload'', JStr ''a''), (''station_sn'', JStr ''T9000'')]"
  let ?levels = "[[(''payload'', JStr (base64_encode [1, 2]))], ?mid, inner_fields]"
  have "base64_encode [1, 2] = ''AQI=''" by code_simp
  then have "carries_fields two_texts (JStr (base64_encode [1, 2])) ?mid" "carries_fields two_texts (JStr ''a'') inner_fields"
    unfolding carries_fields_def by (auto simp: two_texts_def inner_fields_def intro!: exI [of _ "[1, 2]"])
  then have e: "enveloped two_texts ?levels" by (simp add: inner_fields_def nullish_def)
  have "event_of_levels ?levels \<noteq> None" "map_option me_cameraSerial (event_of_levels ?levels) = Some ''T8010''"
    "map_option me_stationSerial (event_of_levels ?levels) = Some ''T9000''"
    by (simp_all add: event_of_levels_def level_field_def first_of_def push_text_def trim_def js_space_def inner_fields_def Let_def)
  then show ?thesis using push_envelopes_unwrapped [OF e] by simp
qed

end
