(* ===== verification/Push_Receiver.thy ===== *)
theory Push_Receiver
  imports Push_Event
begin

text \<open>
  \<open>mega/push.ts\<close>, \<open>MegaPushReceiver\<close>: it owns one push client at a time, brings up Firebase delivery (load the private
  state, obtain credentials, log in, register the token with Eufy) with a finite number of retries, repeats the
  registration after a reconnect, and passes on deliveries. Each attempt is an asynchronous run that rests
  at one of five places; what it waits for arrives as an event for that run. A lifetime is one \<open>start\<close>: retiring it drops
  its runs, since every one of them ends without effect once its lifetime is aborted. Credentials are their token, and
  \<open>connect\<close> of the push client does not throw.
\<close>

section \<open>State\<close>

datatype receiver_state = Starting | Connected | Disconnected | Stopped | Degraded

datatype run_stage = AtLoad | AtCredentials | AtLogin bool | AtLoginDone | AtRegistration

record receiver_run =
  rn_id :: nat
  rn_initial :: bool
  rn_counted :: bool
  rn_stage :: run_stage

record push_receiver =
  rv_lifetime :: "nat option"
  rv_lifetimes :: nat
  rv_client :: "(nat \<times> nat) option"
  rv_clients :: nat
  rv_runs :: "receiver_run list"
  rv_runCount :: nat
  rv_registered :: bool
  rv_reregister :: bool
  rv_connected :: bool
  rv_connectRequested :: bool
  rv_disconnected :: bool
  rv_credentials :: "string option"
  rv_ids :: "string list"
  rv_retryTimer :: bool
  rv_attempt :: nat
  rv_failed :: bool
  rv_loaded :: bool
  rv_credentialRequest :: bool
  rv_startedAt :: int

definition rv_new :: push_receiver where
  "rv_new = \<lparr> rv_lifetime = None, rv_lifetimes = 0, rv_client = None, rv_clients = 0, rv_runs = [], rv_runCount = 0, rv_registered = False,
     rv_reregister = False, rv_connected = False, rv_connectRequested = False, rv_disconnected = False, rv_credentials = None, rv_ids = [],
     rv_retryTimer = False, rv_attempt = 0, rv_failed = False, rv_loaded = False, rv_credentialRequest = False, rv_startedAt = 0 \<rparr>"

datatype delivery_outcome = Parsed | Empty | Unparsed

datatype receiver_out =
    RoPublish receiver_state | RoLoad nat | RoRegisterFcm nat | RoCreateClient nat string "string list" | RoConnectClient nat | RoCloseClient nat
  | RoRegisterToken nat string | RoRetryIn nat | RoSave "string option" "string list" | RoDelivery delivery_outcome | RoEvent mega_event "int option"

definition RETRY_DELAYS :: "nat list" where
  "RETRY_DELAYS = [15000, 30000, 60000, 120000, 300000]"

section \<open>The private state file\<close>

text \<open>What reading it gives: no file, another error, or its text as parsed (None for text that is not JSON).\<close>

datatype file_read = FileMissing | FileFailed | FileText "json option"

definition isAndroidCredentials :: "json option \<Rightarrow> bool" where
  "isAndroidCredentials v \<longleftrightarrow> isRecord v \<and>
     (\<forall>k\<in>set [''fid'', ''androidId'', ''securityToken'', ''fcmToken'']. push_text (js_field v k) \<noteq> None) \<and>
     safe_number (js_field v ''createdAt'') \<noteq> None"

definition loadState :: "file_read \<Rightarrow> (string option \<times> string list) option" where
  "loadState f =
     (case f of
        FileMissing \<Rightarrow> Some (None, [])
      | FileFailed \<Rightarrow> None
      | FileText None \<Rightarrow> Some (None, [])
      | FileText (Some v) \<Rightarrow>
          if \<not> isRecord (Some v) \<or> js_field (Some v) ''version'' \<noteq> Some (JNum 2) then Some (None, [])
          else
            (let c = js_field (Some v) ''credentials'';
                 ids = List.map_filter (\<lambda>i. js_str (Some i)) (js_items (js_field (Some v) ''persistentIds'')) in
             Some (if isAndroidCredentials c then js_str (js_field c ''fcmToken'') else None, drop (length ids - 100) ids)))"

section \<open>One attempt\<close>

definition rv_await :: "receiver_run \<Rightarrow> run_stage \<Rightarrow> push_receiver \<Rightarrow> push_receiver" where
  "rv_await r g s = s\<lparr>rv_runs := rv_runs s @ [r\<lparr>rn_stage := g\<rparr>]\<rparr>"

definition rv_count :: "receiver_run \<Rightarrow> push_receiver \<Rightarrow> push_receiver" where
  "rv_count r s = (if rn_counted r then s else s\<lparr>rv_attempt := Suc (rv_attempt s)\<rparr>)"

definition rv_persistState :: "push_receiver \<Rightarrow> push_receiver \<times> receiver_out list" where
  "rv_persistState s = (s, [RoSave (rv_credentials s) (rv_ids s)])"

definition rv_register :: "receiver_run \<Rightarrow> push_receiver \<Rightarrow> push_receiver \<times> receiver_out list" where
  "rv_register r s = (rv_await (r\<lparr>rn_counted := True\<rparr>) AtRegistration (rv_count r s),
     [RoRegisterToken (rn_id r) (the (rv_credentials s))])"

definition rv_attachReceiver :: "push_receiver \<Rightarrow> push_receiver \<times> receiver_out list" where
  "rv_attachReceiver s =
     (if rv_client s \<noteq> None then (s, [])
      else (s\<lparr>rv_client := Some (rv_clients s, the (rv_lifetime s)), rv_clients := Suc (rv_clients s)\<rparr>,
        [RoCreateClient (rv_clients s) (the (rv_credentials s)) (rv_ids s)]))"

definition rv_login :: "receiver_run \<Rightarrow> push_receiver \<Rightarrow> push_receiver \<times> receiver_out list" where
  "rv_login r s =
     seq_do (rv_attachReceiver s) (\<lambda>s.
       if rv_connected s then rv_register r s
       else
         (let counted = rn_initial r; s = (if counted then s\<lparr>rv_attempt := Suc (rv_attempt s)\<rparr> else s);
              connect = (\<not> rv_connectRequested s) in
          (rv_await (r\<lparr>rn_counted := counted \<or> rn_counted r\<rparr>) (AtLogin (rn_initial r \<or> connect)) (s\<lparr>rv_connectRequested := True\<rparr>),
           if connect then [RoConnectClient (fst (the (rv_client s)))] else [])))"

definition rv_needCredentials :: "receiver_run \<Rightarrow> push_receiver \<Rightarrow> push_receiver \<times> receiver_out list" where
  "rv_needCredentials r s =
     (if rv_credentials s \<noteq> None then rv_login r s
      else (rv_await r AtCredentials (s\<lparr>rv_credentialRequest := True\<rparr>), if rv_credentialRequest s then [] else [RoRegisterFcm (rn_id r)]))"

definition rv_runAttempt :: "bool \<Rightarrow> push_receiver \<Rightarrow> push_receiver \<times> receiver_out list" where
  "rv_runAttempt initial s =
     (let r = \<lparr> rn_id = rv_runCount s, rn_initial = initial, rn_counted = False, rn_stage = AtLoad \<rparr>;
          s = s\<lparr>rv_runCount := Suc (rv_runCount s)\<rparr> in
      if rv_lifetime s = None then (s, [])
      else if rv_loaded s then rv_needCredentials r s
      else (rv_await r AtLoad s, [RoLoad (rn_id r)]))"

definition rv_fail :: "receiver_run \<Rightarrow> push_receiver \<Rightarrow> push_receiver \<times> receiver_out list" where
  "rv_fail r s =
     (let s = (rv_count r s)\<lparr>rv_failed := True\<rparr>; i = rv_attempt s - 1; retry = (i < length RETRY_DELAYS) in
      (s\<lparr>rv_retryTimer := retry \<or> rv_retryTimer s\<rparr>,
       (if retry then [RoRetryIn (RETRY_DELAYS ! i)] else []) @ (if rv_disconnected s then [] else [RoPublish Degraded])))"

text \<open>An event for a run: the run leaves its place and goes on, if it is there.\<close>

definition rv_resume :: "nat \<Rightarrow> (run_stage \<Rightarrow> bool) \<Rightarrow> (receiver_run \<Rightarrow> push_receiver \<Rightarrow> push_receiver \<times> receiver_out list) \<Rightarrow>
    push_receiver \<Rightarrow> push_receiver \<times> receiver_out list" where
  "rv_resume k place go s =
     (case List.find (\<lambda>r. rn_id r = k \<and> place (rn_stage r)) (rv_runs s) of
        None \<Rightarrow> (s, [])
      | Some r \<Rightarrow> go r (s\<lparr>rv_runs := filter (\<lambda>q. rn_id q \<noteq> k) (rv_runs s)\<rparr>))"

definition rv_stateLoaded :: "file_read \<Rightarrow> receiver_run \<Rightarrow> push_receiver \<Rightarrow> push_receiver \<times> receiver_out list" where
  "rv_stateLoaded result r s =
     (case loadState result of
        None \<Rightarrow> rv_fail r s
      | Some (credentials, ids) \<Rightarrow>
          rv_needCredentials r (s\<lparr>rv_credentials := (if rv_credentials s \<noteq> None then rv_credentials s else credentials), rv_ids := ids, rv_loaded := True\<rparr>))"

definition rv_credentialsArrived :: "string option \<Rightarrow> receiver_run \<Rightarrow> push_receiver \<Rightarrow> push_receiver \<times> receiver_out list" where
  "rv_credentialsArrived result r s =
     (let s = s\<lparr>rv_credentialRequest := False\<rparr> in
      case result of
        None \<Rightarrow> rv_fail r s
      | Some c \<Rightarrow> seq_do (rv_persistState (s\<lparr>rv_credentials := Some c\<rparr>)) (rv_login r))"

definition rv_registrationSettled :: "bool \<Rightarrow> receiver_run \<Rightarrow> push_receiver \<Rightarrow> push_receiver \<times> receiver_out list" where
  "rv_registrationSettled accepted r s =
     (if accepted then (s\<lparr>rv_registered := True\<rparr>, if rv_connected s then [RoPublish Connected] else []) else rv_fail r s)"

section \<open>The push client's events\<close>

definition rv_current :: "nat \<Rightarrow> push_receiver \<Rightarrow> bool" where
  "rv_current c s \<longleftrightarrow> (case rv_client s of None \<Rightarrow> False | Some (d, l) \<Rightarrow> d = c \<and> rv_lifetime s = Some l)"

lemma current_iff: "rv_current c s \<longleftrightarrow> (\<exists>l. rv_client s = Some (c, l) \<and> rv_lifetime s = Some l)"
  by (auto simp: rv_current_def split: option.split)

definition rv_onConnect :: "push_receiver \<Rightarrow> push_receiver \<times> receiver_out list" where
  "rv_onConnect s =
     (let s = s\<lparr>rv_connected := True, rv_disconnected := False\<rparr> in
      if rv_reregister s then rv_runAttempt False (s\<lparr>rv_reregister := False, rv_attempt := 0, rv_failed := False\<rparr>)
      else (s, if rv_registered s then [RoPublish Connected] else if rv_failed s then [RoPublish Degraded] else []))"

text \<open>The listeners of the runs that wait for the login come after the receiver's own.\<close>

definition rv_loginDone :: "receiver_run \<Rightarrow> receiver_run" where
  "rv_loginDone r = (case rn_stage r of AtLogin t \<Rightarrow> r\<lparr>rn_stage := AtLoginDone\<rparr> | _ \<Rightarrow> r)"

definition rv_onDisconnect :: "push_receiver \<Rightarrow> push_receiver \<times> receiver_out list" where
  "rv_onDisconnect s =
     (s\<lparr>rv_reregister := rv_reregister s \<or> rv_registered s, rv_registered := False, rv_connected := False, rv_disconnected := True\<rparr>,
      [RoPublish Disconnected])"

definition rv_recordPersistentId :: "string option \<Rightarrow> push_receiver \<Rightarrow> push_receiver \<times> receiver_out list" where
  "rv_recordPersistentId pid s =
     (case pid of
        None \<Rightarrow> (s, [])
      | Some i \<Rightarrow>
          if i = [] \<or> i \<in> set (rv_ids s) then (s, [])
          else rv_persistState (s\<lparr>rv_ids := drop (length (rv_ids s) - 99) (rv_ids s) @ [i]\<rparr>))"

definition rv_onMessage :: "text_codec \<Rightarrow> raw_push \<Rightarrow> int \<Rightarrow> push_receiver \<Rightarrow> push_receiver \<times> receiver_out list" where
  "rv_onMessage tc m now s =
     (let sent = js_field (Some (rp_object m)) ''sent''; event = parsePushEvent tc (rp_payload m) in
      seq_do (rv_recordPersistentId (js_str (js_field (Some (rp_object m)) ''persistentId'')) s) (\<lambda>s.
        (s,
         (case event of
            None \<Rightarrow> [RoDelivery (if rp_payload m = [] then Empty else Unparsed)]
          | Some ev \<Rightarrow>
              if \<not> rv_registered s \<and> \<not> isFreshStartupDelivery sent (rv_startedAt s) now then [RoDelivery Parsed]
              else [RoDelivery Parsed, RoEvent ev (mcsTimestampMilliseconds sent)]))))"

section \<open>Start and close\<close>

definition rv_retire :: "push_receiver \<Rightarrow> push_receiver \<times> receiver_out list" where
  "rv_retire s =
     (s\<lparr>rv_lifetime := None, rv_runs := [], rv_retryTimer := False, rv_client := None, rv_registered := False, rv_reregister := False,
        rv_connected := False\<rparr>, case rv_client s of None \<Rightarrow> [] | Some (c, l) \<Rightarrow> [RoCloseClient c])"

definition rv_start :: "int \<Rightarrow> push_receiver \<Rightarrow> push_receiver \<times> receiver_out list" where
  "rv_start now s =
     seq_do (rv_retire s) (\<lambda>s.
       seq_do (s\<lparr>rv_lifetime := Some (rv_lifetimes s), rv_lifetimes := Suc (rv_lifetimes s), rv_attempt := 0, rv_failed := False,
            rv_loaded := False, rv_credentialRequest := False, rv_registered := False, rv_reregister := False, rv_connected := False,
            rv_connectRequested := False, rv_disconnected := False, rv_startedAt := now\<rparr>, [RoPublish Starting])
         (rv_runAttempt True))"

definition rv_close :: "push_receiver \<Rightarrow> push_receiver \<times> receiver_out list" where
  "rv_close s = seq_do (rv_retire s) (\<lambda>s. (s, [RoPublish Stopped]))"

datatype receiver_event =
    ReStart int | ReClose
  | ReLoaded nat file_read | ReCredentials nat "string option"
  | ReLoginTimeout nat | ReContinue nat | ReRegistered nat bool | ReRetryTimer
  | ReConnect nat | ReDisconnect nat | ReMessage nat raw_push int

fun rv_step :: "text_codec \<Rightarrow> push_receiver \<Rightarrow> receiver_event \<Rightarrow> push_receiver \<times> receiver_out list" where
  "rv_step tc s (ReStart now) = rv_start now s"
| "rv_step tc s ReClose = rv_close s"
| "rv_step tc s (ReLoaded k result) = rv_resume k (\<lambda>g. g = AtLoad) (rv_stateLoaded result) s"
| "rv_step tc s (ReCredentials k result) = rv_resume k (\<lambda>g. g = AtCredentials) (rv_credentialsArrived result) s"
| "rv_step tc s (ReLoginTimeout k) = rv_resume k (\<lambda>g. g = AtLogin True) rv_fail s"
| "rv_step tc s (ReContinue k) = rv_resume k (\<lambda>g. g = AtLoginDone) rv_register s"
| "rv_step tc s (ReRegistered k accepted) = rv_resume k (\<lambda>g. g = AtRegistration) (rv_registrationSettled accepted) s"
| "rv_step tc s ReRetryTimer = (if rv_retryTimer s then rv_runAttempt False (s\<lparr>rv_retryTimer := False\<rparr>) else (s, []))"
| "rv_step tc s (ReConnect c) =
     (if rv_current c s then seq_do (rv_onConnect s) (\<lambda>s. (s\<lparr>rv_runs := map rv_loginDone (rv_runs s)\<rparr>, [])) else (s, []))"
| "rv_step tc s (ReDisconnect c) = (if rv_current c s then rv_onDisconnect s else (s, []))"
| "rv_step tc s (ReMessage c m now) = (if rv_current c s then rv_onMessage tc m now s else (s, []))"

section \<open>Registration is always in one hand\<close>

definition rv_tokens :: "push_receiver \<Rightarrow> nat" where
  "rv_tokens s = length (rv_runs s) + of_bool (rv_retryTimer s) + of_bool (rv_registered s) + of_bool (rv_reregister s)"

definition run_ok :: "push_receiver \<Rightarrow> receiver_run \<Rightarrow> bool" where
  "run_ok s r \<longleftrightarrow> (rn_counted r \<longrightarrow> 1 \<le> rv_attempt s) \<and> (rn_counted r \<or> rv_attempt s \<le> 5) \<and>
     (rn_stage r = AtLoad \<or> rn_stage r = AtCredentials \<longrightarrow> \<not> rn_counted r) \<and>
     (\<forall>t. rn_stage r = AtLogin t \<longrightarrow> \<not> Option.is_none (rv_client s) \<and> rv_connectRequested s)"

definition rv_inv :: "push_receiver \<Rightarrow> bool" where
  "rv_inv s \<longleftrightarrow> rv_attempt s \<le> 6 \<and> (rv_retryTimer s \<longrightarrow> rv_attempt s \<le> 5) \<and> (\<forall>r\<in>set (rv_runs s). run_ok s r) \<and>
     (Option.is_none (rv_lifetime s) \<and> rv_tokens s = 0 \<and> Option.is_none (rv_client s) \<or>
      \<not> Option.is_none (rv_lifetime s) \<and> rv_tokens s = 1 \<or>
      \<not> Option.is_none (rv_lifetime s) \<and> rv_tokens s = 0 \<and> rv_failed s \<and> rv_attempt s = 6) \<and>
     (\<forall>c l. rv_client s = Some (c, l) \<longrightarrow> rv_lifetime s = Some l)"

definition rv_free :: "push_receiver \<Rightarrow> bool" where
  "rv_free s \<longleftrightarrow> \<not> Option.is_none (rv_lifetime s) \<and> rv_runs s = [] \<and> \<not> rv_retryTimer s \<and> \<not> rv_registered s \<and> \<not> rv_reregister s \<and> rv_attempt s \<le> 6 \<and>
     (\<forall>c l. rv_client s = Some (c, l) \<longrightarrow> rv_lifetime s = Some l)"

definition in_hand :: "receiver_run \<Rightarrow> push_receiver \<Rightarrow> bool" where
  "in_hand r s \<longleftrightarrow> rv_free s \<and> (rn_counted r \<longrightarrow> 1 \<le> rv_attempt s) \<and> (rn_counted r \<or> rv_attempt s \<le> 5)"

lemmas rv_simps = rv_inv_def rv_tokens_def run_ok_def rv_free_def in_hand_def rv_await_def rv_count_def

lemma inv_irrelevant [simp]:
  "rv_inv (s\<lparr>rv_ids := a\<rparr>) = rv_inv s" "rv_inv (s\<lparr>rv_connected := b\<rparr>) = rv_inv s" "rv_inv (s\<lparr>rv_disconnected := b\<rparr>) = rv_inv s"
  "rv_inv (s\<lparr>rv_runCount := n\<rparr>) = rv_inv s"
  by (simp_all add: rv_inv_def rv_tokens_def run_ok_def)

lemma hand_irrelevant [simp]:
  "in_hand r (s\<lparr>rv_credentials := c\<rparr>) = in_hand r s" "in_hand r (s\<lparr>rv_credentialRequest := b\<rparr>) = in_hand r s" "in_hand r (s\<lparr>rv_ids := a\<rparr>) = in_hand r s"
  "in_hand r (s\<lparr>rv_loaded := b\<rparr>) = in_hand r s" "in_hand r (s\<lparr>rv_runCount := n\<rparr>) = in_hand r s"
  by (simp_all add: rv_free_def in_hand_def)

lemma await_inv: "in_hand r s \<Longrightarrow> g = AtLoad \<or> g = AtCredentials \<longrightarrow> \<not> rn_counted r \<Longrightarrow>
    (\<And>t. g = AtLogin t \<Longrightarrow> \<not> Option.is_none (rv_client s) \<and> rv_connectRequested s) \<Longrightarrow> rv_inv (rv_await r g s)"
  by (auto simp: rv_inv_def rv_tokens_def run_ok_def rv_free_def in_hand_def rv_await_def)

lemma rv_register_inv: "in_hand r s \<Longrightarrow> rv_inv (fst (rv_register r s))"
  by (auto simp: rv_register_def rv_simps)

lemma fail_inv: "in_hand r s \<Longrightarrow> rv_inv (fst (rv_fail r s))"
  by (auto simp: rv_fail_def RETRY_DELAYS_def rv_simps Let_def)

lemma attach_hand: "in_hand r s \<Longrightarrow> in_hand r (fst (rv_attachReceiver s)) \<and> \<not> Option.is_none (rv_client (fst (rv_attachReceiver s)))"
  by (auto simp: rv_attachReceiver_def rv_simps Option.is_none_def)

lemma login_inv:
  assumes "in_hand r s" "\<not> rn_counted r"
  shows "rv_inv (fst (rv_login r s))"
proof -
  define t where "t = fst (rv_attachReceiver s)"
  have t: "in_hand r t" "\<not> Option.is_none (rv_client t)" using attach_hand [OF assms(1)] by (simp_all add: t_def)
  show ?thesis
  proof (cases "rv_connected t")
    case True
    then show ?thesis using rv_register_inv [OF t(1)] by (simp add: rv_login_def fst_seq_do flip: t_def)
  next
    case False
    then have e: "fst (rv_login r s) = rv_await (r\<lparr>rn_counted := rn_initial r\<rparr>) (AtLogin (rn_initial r \<or> \<not> rv_connectRequested t))
        ((if rn_initial r then t\<lparr>rv_attempt := Suc (rv_attempt t)\<rparr> else t)\<lparr>rv_connectRequested := True\<rparr>)"
      using assms(2) by (simp add: rv_login_def fst_seq_do Let_def flip: t_def)
    show ?thesis unfolding e
      using t assms(2) by (intro await_inv) (cases "rn_initial r"; simp add: in_hand_def rv_free_def)+
  qed
qed

lemma need_inv: "in_hand r s \<Longrightarrow> \<not> rn_counted r \<Longrightarrow> rv_inv (fst (rv_needCredentials r s))"
  using login_inv [of r s] await_inv [of r "s\<lparr>rv_credentialRequest := True\<rparr>" AtCredentials]
  by (cases "rv_credentials s") (simp_all add: rv_needCredentials_def)

lemma attempt_inv: "rv_free s \<Longrightarrow> rv_attempt s \<le> 5 \<Longrightarrow> rv_inv (fst (rv_runAttempt initial s))"
proof -
  assume f: "rv_free s" "rv_attempt s \<le> 5"
  define r where "r = \<lparr> rn_id = rv_runCount s, rn_initial = initial, rn_counted = False, rn_stage = AtLoad \<rparr>"
  have h: "in_hand r (s\<lparr>rv_runCount := Suc (rv_runCount s)\<rparr>)" using f by (auto simp: rv_simps r_def)
  then have "rv_inv (fst (rv_needCredentials r (s\<lparr>rv_runCount := Suc (rv_runCount s)\<rparr>)))" by (rule need_inv) (simp add: r_def)
  moreover have "rv_inv (rv_await r AtLoad (s\<lparr>rv_runCount := Suc (rv_runCount s)\<rparr>))" using h by (rule await_inv) (simp_all add: r_def)
  moreover have "rv_lifetime s \<noteq> None" using f(1) by (auto simp: rv_free_def Option.is_none_def)
  ultimately show ?thesis using f(1) unfolding rv_runAttempt_def Let_def r_def [symmetric] by auto
qed

lemma loaded_inv: "in_hand r s \<Longrightarrow> \<not> rn_counted r \<Longrightarrow> rv_inv (fst (rv_stateLoaded result r s))"
  by (auto simp: rv_stateLoaded_def split: option.split intro!: need_inv fail_inv)

lemma credentials_inv: "in_hand r s \<Longrightarrow> \<not> rn_counted r \<Longrightarrow> rv_inv (fst (rv_credentialsArrived result r s))"
  by (auto simp: rv_credentialsArrived_def rv_persistState_def fst_seq_do Let_def split: option.split intro!: fail_inv login_inv)

lemma settled_inv: "in_hand r s \<Longrightarrow> rv_inv (fst (rv_registrationSettled accepted r s))"
  using fail_inv [of r s] by (auto simp: rv_registrationSettled_def rv_simps)

lemma rv_resume_inv:
  assumes i: "rv_inv s" and go: "\<And>r t. in_hand r t \<Longrightarrow> place (rn_stage r) \<Longrightarrow> rn_stage r = AtLoad \<or> rn_stage r = AtCredentials \<longrightarrow> \<not> rn_counted r \<Longrightarrow>
      rv_inv (fst (go r t))"
  shows "rv_inv (fst (rv_resume k place go s))"
proof (cases "List.find (\<lambda>r. rn_id r = k \<and> place (rn_stage r)) (rv_runs s)")
  case None
  then show ?thesis using i by (simp add: rv_resume_def)
next
  case (Some r)
  then have r: "r \<in> set (rv_runs s)" "rn_id r = k" "place (rn_stage r)" by (auto simp: find_Some_iff)
  then have "rv_runs s = [r]" "\<not> Option.is_none (rv_lifetime s)" "rv_tokens s = 1"
    using i by (cases "rv_runs s"; auto simp: rv_inv_def rv_tokens_def split: if_splits)+
  moreover from this have "run_ok s r" using i by (simp add: rv_inv_def)
  ultimately have "in_hand r (s\<lparr>rv_runs := filter (\<lambda>q. rn_id q \<noteq> k) (rv_runs s)\<rparr>)" "rn_stage r = AtLoad \<or> rn_stage r = AtCredentials \<longrightarrow> \<not> rn_counted r"
    using i r(2) by (auto simp: rv_simps split: if_splits)
  then show ?thesis using go r(3) Some by (simp add: rv_resume_def)
qed

lemma connect_inv: "rv_inv s \<Longrightarrow> rv_current c s \<Longrightarrow> rv_inv (fst (rv_onConnect s))"
proof (cases "rv_reregister s")
  case True
  assume "rv_inv s" "rv_current c s"
  with True have "rv_free (s\<lparr>rv_connected := True, rv_disconnected := False, rv_reregister := False, rv_attempt := 0, rv_failed := False\<rparr>)"
    by (auto simp: rv_simps current_iff Option.is_none_def)
  from attempt_inv [OF this] True show ?thesis by (simp add: rv_onConnect_def Let_def)
qed (auto simp: rv_onConnect_def rv_simps Let_def)

lemma loginDone_ok: "rv_inv s \<Longrightarrow> rv_inv (s\<lparr>rv_runs := map rv_loginDone (rv_runs s)\<rparr>)"
  by (auto simp: rv_simps rv_loginDone_def split: run_stage.splits if_splits)

lemma message_inv: "rv_inv s \<Longrightarrow> rv_inv (fst (rv_onMessage tc m now s))"
  by (auto simp: rv_onMessage_def rv_recordPersistentId_def rv_persistState_def fst_seq_do Let_def split: option.split)

lemma start_free: "rv_free (fst (rv_retire s)\<lparr>rv_lifetime := Some (rv_lifetimes s), rv_lifetimes := Suc (rv_lifetimes s), rv_attempt := 0, rv_failed := False,
    rv_loaded := False, rv_credentialRequest := False, rv_registered := False, rv_reregister := False, rv_connected := False,
    rv_connectRequested := False, rv_disconnected := False, rv_startedAt := now\<rparr>)"
  by (simp add: rv_free_def rv_retire_def)

lemma rv_step_inv: "rv_inv s \<Longrightarrow> rv_inv (fst (rv_step tc s e))"
proof (cases e)
  case (ReStart now)
  have "rv_lifetimes (fst (rv_retire s)) = rv_lifetimes s" by (simp add: rv_retire_def)
  then show ?thesis using ReStart attempt_inv [OF start_free] by (simp add: rv_start_def fst_seq_do)
next
  case ReClose
  then show "rv_inv s \<Longrightarrow> ?thesis" by (simp add: rv_close_def fst_seq_do rv_retire_def rv_simps)
next
  case ReRetryTimer
  assume i: "rv_inv s"
  show ?thesis
  proof (cases "rv_retryTimer s")
    case True
    then have "rv_free (s\<lparr>rv_retryTimer := False\<rparr>)" "rv_attempt s \<le> 5" using i by (auto simp: rv_simps split: if_splits)
    then show ?thesis using ReRetryTimer True attempt_inv [of "s\<lparr>rv_retryTimer := False\<rparr>"] by simp
  qed (use i ReRetryTimer in simp)
next
  case (ReConnect c)
  then show "rv_inv s \<Longrightarrow> ?thesis" using connect_inv loginDone_ok by (simp add: fst_seq_do)
next
  case (ReDisconnect c)
  then show "rv_inv s \<Longrightarrow> ?thesis" by (auto simp: rv_onDisconnect_def rv_simps split: if_splits)
qed (auto intro!: rv_resume_inv loaded_inv credentials_inv fail_inv rv_register_inv settled_inv message_inv)

interpretation rv: invariant_machine "rv_step tc" rv_inv "\<lambda>_. True" for tc
  by unfold_locales (rule rv_step_inv)

lemma rv_run_inv: "rv_inv (run_state (rv_step tc) rv_new es)"
  by (rule rv.run_inv) (simp_all add: rv_simps rv_new_def)

text \<open>C11: while the receiver is started, its registration is in exactly one hand, and it is given up only after six attempts. In
  every reachable state of a started receiver either one run is under way, or the retry timer runs, or the token is
  registered, or a lost registration waits to be repeated at the next login, and never two of these; or all six attempts
  have failed. A run that waits for the login without a deadline has a client that was told to connect, and a retry timer
  starts the next run.\<close>

theorem push_registration_in_one_hand:
  assumes "s = run_state (rv_step tc) rv_new es" and "rv_lifetime s \<noteq> None"
  shows "(length (rv_runs s) + of_bool (rv_retryTimer s) + of_bool (rv_registered s) + of_bool (rv_reregister s) = (1::nat) \<or>
      rv_runs s = [] \<and> \<not> rv_retryTimer s \<and> \<not> rv_registered s \<and> \<not> rv_reregister s \<and> rv_failed s \<and> rv_attempt s = 6) \<and>
    rv_attempt s \<le> 6 \<and>
    (\<forall>r\<in>set (rv_runs s). \<forall>t. rn_stage r = AtLogin t \<longrightarrow> rv_client s \<noteq> None \<and> rv_connectRequested s) \<and>
    (rv_retryTimer s \<longrightarrow> length (rv_runs (fst (rv_step tc s ReRetryTimer))) = 1)"
proof -
  have i: "rv_inv s" using rv_run_inv assms(1) by simp
  moreover have l: "\<not> Option.is_none (rv_lifetime s)" using assms(2) by (simp add: Option.is_none_def)
  ultimately have t: "rv_tokens s = 1 \<or> rv_tokens s = 0 \<and> rv_failed s \<and> rv_attempt s = 6" by (auto simp: rv_inv_def)
  moreover have "length (rv_runs (fst (rv_step tc s ReRetryTimer))) = 1" if "rv_retryTimer s"
  proof -
    have "rv_inv (fst (rv_step tc s ReRetryTimer))" by (rule rv_step_inv [OF i])
    moreover have "rv_runs s = []" using that t by (auto simp: rv_tokens_def)
    ultimately show ?thesis using that assms(2)
      by (auto simp: rv_runAttempt_def rv_needCredentials_def rv_login_def rv_register_def rv_await_def rv_count_def rv_attachReceiver_def
          fst_seq_do Let_def)
  qed
  moreover have "\<forall>r\<in>set (rv_runs s). \<forall>t. rn_stage r = AtLogin t \<longrightarrow> rv_client s \<noteq> None \<and> rv_connectRequested s"
    using i by (auto simp: rv_inv_def run_ok_def Option.is_none_def)
  ultimately show ?thesis using i by (auto simp: rv_tokens_def rv_inv_def)
qed

section \<open>What the receiver reports\<close>

lemmas rv_ops = rv_start_def rv_retire_def rv_close_def rv_runAttempt_def rv_needCredentials_def rv_login_def rv_register_def rv_attachReceiver_def
  rv_await_def rv_count_def rv_fail_def rv_stateLoaded_def rv_credentialsArrived_def rv_persistState_def rv_registrationSettled_def

definition plain_out :: "receiver_out \<Rightarrow> bool" where
  "plain_out w \<longleftrightarrow> (case w of RoPublish st \<Rightarrow> st \<noteq> Connected \<and> st \<noteq> Disconnected | RoEvent ev t \<Rightarrow> False | _ \<Rightarrow> True)"

lemma attempt_plain: "w \<in> set (snd (rv_needCredentials r s)) \<Longrightarrow> plain_out w" "w \<in> set (snd (rv_login r s)) \<Longrightarrow> plain_out w"
    "w \<in> set (snd (rv_register r s)) \<Longrightarrow> plain_out w" "w \<in> set (snd (rv_fail r s)) \<Longrightarrow> plain_out w"
    "w \<in> set (snd (rv_runAttempt b s)) \<Longrightarrow> plain_out w"
  by (auto simp: plain_out_def rv_runAttempt_def rv_needCredentials_def rv_login_def rv_register_def rv_attachReceiver_def rv_fail_def snd_seq_do Let_def
      split: if_splits)

lemma settled_out: "w \<in> set (snd (rv_registrationSettled a r s)) \<Longrightarrow>
    plain_out w \<or> w = RoPublish Connected \<and> rv_registered (fst (rv_registrationSettled a r s)) \<and> rv_connected (fst (rv_registrationSettled a r s))"
  by (auto simp: rv_registrationSettled_def attempt_plain split: if_splits)

lemma resume_out: "w \<in> set (snd (rv_resume k place go s)) \<Longrightarrow> \<exists>r t. rv_resume k place go s = go r t"
  by (auto simp: rv_resume_def split: option.splits)

lemma step_out:
  assumes "w \<in> set (snd (rv_step tc s e))"
  shows "plain_out w \<or> w = RoPublish Connected \<and> rv_registered (fst (rv_step tc s e)) \<and> rv_connected (fst (rv_step tc s e)) \<or>
    w = RoPublish Disconnected \<and> (\<exists>c. e = ReDisconnect c \<and> rv_current c s) \<or>
    (\<exists>c m now ev t. e = ReMessage c m now \<and> w = RoEvent ev t \<and> rv_current c s \<and> parsePushEvent tc (rp_payload m) = Some ev \<and>
       (rv_registered s \<or> isFreshStartupDelivery (js_field (Some (rp_object m)) ''sent'') (rv_startedAt s) now))"
proof (cases e)
  case (ReLoaded k result)
  then obtain r t where g: "rv_step tc s e = rv_stateLoaded result r t" using resume_out assms by fastforce
  show ?thesis using assms unfolding g by (auto simp: rv_stateLoaded_def attempt_plain split: option.splits prod.splits)
next
  case (ReCredentials k result)
  then obtain r t where g: "rv_step tc s e = rv_credentialsArrived result r t" using resume_out assms by fastforce
  show ?thesis using assms unfolding g
    by (auto simp: rv_credentialsArrived_def rv_persistState_def snd_seq_do Let_def split: option.splits dest: attempt_plain) (auto simp: plain_out_def)
next
  case (ReLoginTimeout k)
  then obtain r t where g: "rv_step tc s e = rv_fail r t" using resume_out assms by fastforce
  show ?thesis using assms attempt_plain(4) unfolding g by blast
next
  case (ReContinue k)
  then obtain r t where g: "rv_step tc s e = rv_register r t" using resume_out assms by fastforce
  show ?thesis using assms attempt_plain(3) unfolding g by blast
next
  case (ReRegistered k accepted)
  then obtain r t where g: "rv_step tc s e = rv_registrationSettled accepted r t" using resume_out assms by fastforce
  show ?thesis using assms settled_out unfolding g by blast
next
  case ReRetryTimer
  then show ?thesis using assms attempt_plain(5) by (auto split: if_splits)
next
  case (ReStart now)
  then show ?thesis using assms attempt_plain(5)
    by (auto simp: rv_start_def rv_retire_def snd_seq_do split: option.splits) (auto simp: plain_out_def)
next
  case ReClose
  then show ?thesis using assms by (auto simp: rv_close_def rv_retire_def snd_seq_do plain_out_def split: option.splits)
next
  case (ReConnect c)
  then show ?thesis using assms attempt_plain(5)
    by (auto simp: rv_onConnect_def snd_seq_do fst_seq_do Let_def split: if_splits) (auto simp: plain_out_def)
next
  case (ReDisconnect c)
  then show ?thesis using assms by (auto simp: rv_onDisconnect_def plain_out_def split: if_splits)
next
  case (ReMessage c m now)
  have "rv_registered (fst (rv_recordPersistentId x s)) = rv_registered s" "rv_startedAt (fst (rv_recordPersistentId x s)) = rv_startedAt s" for x
    by (auto simp: rv_recordPersistentId_def rv_persistState_def split: option.split)
  moreover have "w \<in> set (snd (rv_recordPersistentId x s)) \<Longrightarrow> plain_out w" for x
    by (auto simp: rv_recordPersistentId_def rv_persistState_def plain_out_def split: option.splits if_splits)
  ultimately show ?thesis using assms ReMessage
    by (auto simp: rv_onMessage_def snd_seq_do Let_def split: option.splits if_splits) (auto simp: plain_out_def)
qed

text \<open>A push client starts with at most a hundred ids.\<close>

lemma loadState_ids: "loadState f = Some (c, ids) \<Longrightarrow> length ids \<le> 100"
  by (auto simp: loadState_def Let_def split: file_read.splits option.splits if_splits)

lemma attempt_ids: "rv_ids (fst (rv_needCredentials r s)) = rv_ids s" "rv_ids (fst (rv_login r s)) = rv_ids s"
    "rv_ids (fst (rv_register r s)) = rv_ids s" "rv_ids (fst (rv_fail r s)) = rv_ids s" "rv_ids (fst (rv_runAttempt b s)) = rv_ids s"
  by (auto simp: rv_runAttempt_def rv_needCredentials_def rv_login_def rv_register_def rv_attachReceiver_def rv_fail_def rv_await_def rv_count_def
      fst_seq_do Let_def)

lemma resume_ids: "(\<And>r t. length (rv_ids t) \<le> 100 \<Longrightarrow> length (rv_ids (fst (go r t))) \<le> 100) \<Longrightarrow> length (rv_ids s) \<le> 100 \<Longrightarrow>
    length (rv_ids (fst (rv_resume k place go s))) \<le> 100"
  by (auto simp: rv_resume_def split: option.split)

lemma step_ids: "length (rv_ids s) \<le> 100 \<Longrightarrow> length (rv_ids (fst (rv_step tc s e))) \<le> 100"
  by (cases e)
     (auto simp: rv_start_def rv_close_def rv_retire_def rv_stateLoaded_def rv_credentialsArrived_def rv_persistState_def rv_registrationSettled_def
       rv_onConnect_def rv_onDisconnect_def rv_onMessage_def rv_recordPersistentId_def attempt_ids fst_seq_do Let_def loadState_ids
       intro!: resume_ids split: option.split)

lemma run_ids: "length (rv_ids (run_state (rv_step tc) rv_new es)) \<le> 100"
proof -
  have "length (rv_ids s) \<le> 100 \<Longrightarrow> length (rv_ids (run_state (rv_step tc) s es)) \<le> 100" for s
    by (induction es arbitrary: s) (simp_all add: run_state_Cons step_ids del: run.simps(2) rv_step.simps)
  then show ?thesis by (simp add: rv_new_def)
qed

lemma attempt_created: "RoCreateClient n c ids \<in> set (snd (rv_needCredentials r s)) \<Longrightarrow> ids = rv_ids s"
    "RoCreateClient n c ids \<in> set (snd (rv_login r s)) \<Longrightarrow> ids = rv_ids s" "RoCreateClient n c ids \<in> set (snd (rv_runAttempt b s)) \<Longrightarrow> ids = rv_ids s"
    "RoCreateClient n c ids \<notin> set (snd (rv_register r s))" "RoCreateClient n c ids \<notin> set (snd (rv_fail r s))"
  by (auto simp: rv_runAttempt_def rv_needCredentials_def rv_login_def rv_register_def rv_attachReceiver_def rv_fail_def snd_seq_do Let_def split: if_splits)

lemma resume_created: "(\<And>r t. RoCreateClient n c ids \<in> set (snd (go r t)) \<Longrightarrow> ids = rv_ids (fst (go r t))) \<Longrightarrow>
    RoCreateClient n c ids \<in> set (snd (rv_resume k place go s)) \<Longrightarrow> ids = rv_ids (fst (rv_resume k place go s))"
  by (auto simp: rv_resume_def split: option.splits)

lemma step_created: "RoCreateClient n c ids \<in> set (snd (rv_step tc s e)) \<Longrightarrow> ids = rv_ids (fst (rv_step tc s e))"
proof (cases e)
  case (ReLoaded k f)
  assume "RoCreateClient n c ids \<in> set (snd (rv_step tc s e))"
  then show ?thesis unfolding ReLoaded rv_step.simps
    by (rule resume_created [rotated]) (auto simp: rv_stateLoaded_def attempt_ids attempt_created split: option.splits dest: attempt_created(1-3))
next
  case (ReCredentials k f)
  assume "RoCreateClient n c ids \<in> set (snd (rv_step tc s e))"
  then show ?thesis unfolding ReCredentials rv_step.simps
    by (rule resume_created [rotated])
      (auto simp: rv_credentialsArrived_def rv_persistState_def attempt_ids attempt_created fst_seq_do snd_seq_do Let_def split: option.splits dest: attempt_created(1-3))
next
  case (ReLoginTimeout k)
  then show "RoCreateClient n c ids \<in> set (snd (rv_step tc s e)) \<Longrightarrow> ?thesis" using resume_created [where go = rv_fail] by (auto simp: attempt_created)
next
  case (ReContinue k)
  then show "RoCreateClient n c ids \<in> set (snd (rv_step tc s e)) \<Longrightarrow> ?thesis" using resume_created [where go = rv_register] by (auto simp: attempt_created)
next
  case (ReRegistered k a)
  assume "RoCreateClient n c ids \<in> set (snd (rv_step tc s e))"
  then show ?thesis unfolding ReRegistered rv_step.simps
    by (rule resume_created [rotated]) (auto simp: rv_registrationSettled_def attempt_created split: if_splits)
qed (auto simp: rv_start_def rv_close_def rv_retire_def rv_onConnect_def rv_onDisconnect_def rv_onMessage_def rv_recordPersistentId_def rv_persistState_def
    attempt_ids fst_seq_do snd_seq_do Let_def dest!: attempt_created(1-3) split: option.splits if_splits)

lemma retired_silent: "rv_inv s \<Longrightarrow> rv_lifetime s = None \<Longrightarrow> (\<forall>now. e \<noteq> ReStart now) \<Longrightarrow> e \<noteq> ReClose \<Longrightarrow> rv_step tc s e = (s, [])"
  by (cases e) (auto simp: rv_inv_def rv_tokens_def current_iff rv_resume_def)

text \<open>The registration and the login as the events show them. A run asked for the registration when it put out the request; the
  answer is for that request when the receiver was not started anew or closed in between and it had no answer yet. An accepted registration and a login hold until a start, a close or a reported disconnection.\<close>

definition lifelong :: "receiver_event list \<Rightarrow> bool" where
  "lifelong es \<longleftrightarrow> (\<forall>e\<in>set es. case e of ReStart now \<Rightarrow> False | ReClose \<Rightarrow> False | _ \<Rightarrow> True)"

definition undisturbed :: "text_codec \<Rightarrow> push_receiver \<Rightarrow> receiver_event list \<Rightarrow> bool" where
  "undisturbed tc s es \<longleftrightarrow> lifelong es \<and> RoPublish Disconnected \<notin> set (run_out (rv_step tc) s es)"

definition asked_in :: "text_codec \<Rightarrow> nat \<Rightarrow> receiver_event list \<Rightarrow> bool" where
  "asked_in tc n es \<longleftrightarrow> (\<exists>a x b token. es = a @ x # b \<and> RoRegisterToken n token \<in> set (snd (rv_step tc (run_state (rv_step tc) rv_new a) x)) \<and>
     lifelong b \<and> ReRegistered n True \<notin> set b \<and> ReRegistered n False \<notin> set b)"

definition accepted_in :: "text_codec \<Rightarrow> receiver_event list \<Rightarrow> bool" where
  "accepted_in tc es \<longleftrightarrow> (\<exists>a n b. es = a @ ReRegistered n True # b \<and> asked_in tc n a \<and>
     undisturbed tc (run_state (rv_step tc) rv_new (a @ [ReRegistered n True])) b)"

definition logged_in :: "text_codec \<Rightarrow> receiver_event list \<Rightarrow> bool" where
  "logged_in tc es \<longleftrightarrow> (\<exists>a c b. es = a @ ReConnect c # b \<and> rv_current c (run_state (rv_step tc) rv_new a) \<and>
     undisturbed tc (run_state (rv_step tc) rv_new (a @ [ReConnect c])) b)"

definition last_start :: "receiver_event list \<Rightarrow> int" where
  "last_start es = foldl (\<lambda>t e. case e of ReStart now \<Rightarrow> now | _ \<Rightarrow> t) 0 es"

lemma lifelong_simps [simp]: "lifelong []" "lifelong (es @ [e]) \<longleftrightarrow> lifelong es \<and> lifelong [e]"
  by (auto simp: lifelong_def)

lemma attempt_frame:
  "rv_registered (fst (rv_needCredentials r s)) = rv_registered s" "rv_connected (fst (rv_needCredentials r s)) = rv_connected s"
  "rv_startedAt (fst (rv_needCredentials r s)) = rv_startedAt s"
  "rv_registered (fst (rv_login r s)) = rv_registered s" "rv_connected (fst (rv_login r s)) = rv_connected s"
  "rv_startedAt (fst (rv_login r s)) = rv_startedAt s"
  "rv_registered (fst (rv_register r s)) = rv_registered s" "rv_connected (fst (rv_register r s)) = rv_connected s"
  "rv_startedAt (fst (rv_register r s)) = rv_startedAt s"
  "rv_registered (fst (rv_fail r s)) = rv_registered s" "rv_connected (fst (rv_fail r s)) = rv_connected s"
  "rv_startedAt (fst (rv_fail r s)) = rv_startedAt s"
  "rv_registered (fst (rv_runAttempt b s)) = rv_registered s" "rv_connected (fst (rv_runAttempt b s)) = rv_connected s"
  "rv_startedAt (fst (rv_runAttempt b s)) = rv_startedAt s"
  by (auto simp: rv_runAttempt_def rv_needCredentials_def rv_login_def rv_register_def rv_attachReceiver_def rv_fail_def rv_await_def rv_count_def
      fst_seq_do Let_def)

lemma loaded_frame:
  "rv_registered (fst (rv_stateLoaded f r s)) = rv_registered s" "rv_connected (fst (rv_stateLoaded f r s)) = rv_connected s"
  "rv_startedAt (fst (rv_stateLoaded f r s)) = rv_startedAt s"
  "rv_registered (fst (rv_credentialsArrived c r s)) = rv_registered s" "rv_connected (fst (rv_credentialsArrived c r s)) = rv_connected s"
  "rv_startedAt (fst (rv_credentialsArrived c r s)) = rv_startedAt s"
  by (auto simp: rv_stateLoaded_def rv_credentialsArrived_def rv_persistState_def attempt_frame fst_seq_do Let_def split: option.split)

text \<open>A run that waits for its registration has asked for it in this step, or waited already.\<close>

definition asks :: "receiver_run list \<Rightarrow> push_receiver \<times> receiver_out list \<Rightarrow> bool" where
  "asks old q \<longleftrightarrow> (\<forall>r\<in>set (rv_runs (fst q)). rn_stage r = AtRegistration \<longrightarrow> r \<in> set old \<or> (\<exists>token. RoRegisterToken (rn_id r) token \<in> set (snd q)))"

lemma attempt_asks: "asks (rv_runs s) (rv_needCredentials r s)" "asks (rv_runs s) (rv_login r s)" "asks (rv_runs s) (rv_register r s)"
    "asks (rv_runs s) (rv_fail r s)" "asks (rv_runs s) (rv_runAttempt b s)"
  by (auto simp: asks_def rv_runAttempt_def rv_needCredentials_def rv_login_def rv_register_def rv_attachReceiver_def rv_fail_def rv_await_def rv_count_def
      fst_seq_do snd_seq_do Let_def split: if_splits)

lemma loaded_asks: "asks (rv_runs s) (rv_stateLoaded f r s)" "asks (rv_runs s) (rv_credentialsArrived c r s)" "asks (rv_runs s) (rv_registrationSettled a r s)"
proof -
  have n: "asks (rv_runs s) (rv_needCredentials r (s\<lparr>rv_credentials := x, rv_ids := ids, rv_loaded := True\<rparr>))" for x ids
    using attempt_asks(1) [of "s\<lparr>rv_credentials := x, rv_ids := ids, rv_loaded := True\<rparr>"] by simp
  show "asks (rv_runs s) (rv_stateLoaded f r s)"
    using n attempt_asks(4) [of s] by (auto simp: rv_stateLoaded_def split: option.split)
  have l: "asks (rv_runs s) (rv_login r (s\<lparr>rv_credentialRequest := False, rv_credentials := x\<rparr>))" for x
    using attempt_asks(2) [of "s\<lparr>rv_credentialRequest := False, rv_credentials := x\<rparr>"] by simp
  have f: "asks (rv_runs s) (rv_fail r (s\<lparr>rv_credentialRequest := False\<rparr>))" using attempt_asks(4) [of "s\<lparr>rv_credentialRequest := False\<rparr>"] by simp
  show "asks (rv_runs s) (rv_credentialsArrived c r s)"
    using l f by (auto simp: rv_credentialsArrived_def rv_persistState_def asks_def fst_seq_do snd_seq_do Let_def split: option.split)
  show "asks (rv_runs s) (rv_registrationSettled a r s)"
    using attempt_asks(4) [of s] by (auto simp: rv_registrationSettled_def asks_def)
qed

lemma resume_asks:
  assumes "\<And>r t. asks (rv_runs t) (go r t)" "r \<in> set (rv_runs (fst (rv_resume k place go s)))" "rn_stage r = AtRegistration"
  shows "r \<in> set (rv_runs s) \<and> (place AtRegistration \<longrightarrow> rn_id r \<noteq> k) \<or> (\<exists>token. RoRegisterToken (rn_id r) token \<in> set (snd (rv_resume k place go s)))"
  using assms(1) [of "s\<lparr>rv_runs := filter (\<lambda>q. rn_id q \<noteq> k) (rv_runs s)\<rparr>"] assms(2, 3)
  by (fastforce simp: rv_resume_def asks_def find_None_iff split: option.splits)

lemma step_asks:
  assumes "r \<in> set (rv_runs (fst (rv_step tc s e)))" "rn_stage r = AtRegistration"
  shows "r \<in> set (rv_runs s) \<and> lifelong [e] \<and> (\<forall>a. e \<noteq> ReRegistered (rn_id r) a) \<or> (\<exists>token. RoRegisterToken (rn_id r) token \<in> set (snd (rv_step tc s e)))"
proof (cases e)
  case (ReStart now)
  define t where "t = fst (rv_retire s)\<lparr>rv_lifetime := Some (rv_lifetimes s), rv_lifetimes := Suc (rv_lifetimes s), rv_attempt := 0, rv_failed := False,
    rv_loaded := False, rv_credentialRequest := False, rv_registered := False, rv_reregister := False, rv_connected := False,
    rv_connectRequested := False, rv_disconnected := False, rv_startedAt := now\<rparr>"
  have "rv_runs t = []" by (simp add: t_def rv_retire_def)
  moreover have "fst (rv_start now s) = fst (rv_runAttempt True t)" "set (snd (rv_runAttempt True t)) \<subseteq> set (snd (rv_start now s))"
    by (auto simp: rv_start_def t_def fst_seq_do snd_seq_do rv_retire_def)
  ultimately show ?thesis using assms ReStart attempt_asks(5) [of t True] by (fastforce simp: asks_def)
next
  case ReClose
  then show ?thesis using assms by (simp add: rv_close_def rv_retire_def fst_seq_do)
next
  case ReRetryTimer
  then show ?thesis using assms attempt_asks(5) [of "s\<lparr>rv_retryTimer := False\<rparr>" False] by (auto simp: asks_def lifelong_def split: if_splits)
next
  case (ReConnect c)
  show ?thesis
  proof (cases "rv_current c s")
    case True
    have d: "rn_stage (rv_loginDone q) = AtRegistration \<Longrightarrow> rv_loginDone q = q" for q by (auto simp: rv_loginDone_def split: run_stage.splits)
    obtain q where "q \<in> set (rv_runs (fst (rv_onConnect s)))" "r = rv_loginDone q" using assms(1) ReConnect True by (auto simp: fst_seq_do)
    then have "r \<in> set (rv_runs (fst (rv_onConnect s)))" using d [of q] assms(2) by metis
    moreover have "asks (rv_runs s) (rv_onConnect s)"
      using attempt_asks(5) [of "s\<lparr>rv_connected := True, rv_disconnected := False, rv_reregister := False, rv_attempt := 0, rv_failed := False\<rparr>" False]
      by (auto simp: rv_onConnect_def asks_def Let_def)
    ultimately show ?thesis using assms(2) ReConnect True by (fastforce simp: asks_def snd_seq_do lifelong_def)
  qed (use assms ReConnect in \<open>simp add: lifelong_def\<close>)
next
  case (ReDisconnect c)
  then show ?thesis using assms by (auto simp: rv_onDisconnect_def lifelong_def split: if_splits)
next
  case (ReMessage c m now)
  then show ?thesis using assms
    by (auto simp: rv_onMessage_def rv_recordPersistentId_def rv_persistState_def fst_seq_do lifelong_def Let_def split: if_splits option.splits)
next
  case (ReRegistered k a)
  then show ?thesis using assms resume_asks [of "rv_registrationSettled a" r k "\<lambda>g. g = AtRegistration" s] loaded_asks(3) by (auto simp: lifelong_def)
next
  case (ReLoaded k f)
  then show ?thesis using assms resume_asks [of "rv_stateLoaded f" r k "\<lambda>g. g = AtLoad" s] loaded_asks(1) by (auto simp: lifelong_def)
next
  case (ReCredentials k c)
  then show ?thesis using assms resume_asks [of "rv_credentialsArrived c" r k "\<lambda>g. g = AtCredentials" s] loaded_asks(2) by (auto simp: lifelong_def)
next
  case (ReLoginTimeout k)
  then show ?thesis using assms resume_asks [of rv_fail r k "\<lambda>g. g = AtLogin True" s] attempt_asks(4) by (auto simp: lifelong_def)
next
  case (ReContinue k)
  then show ?thesis using assms resume_asks [of rv_register r k "\<lambda>g. g = AtLoginDone" s] attempt_asks(3) by (auto simp: lifelong_def)
qed

text \<open>The two flags are set by the answer and by the login only, and hold as long as nothing disturbs them.\<close>

lemma settled_frame: "rv_connected (fst (rv_registrationSettled a r s)) = rv_connected s" "rv_startedAt (fst (rv_registrationSettled a r s)) = rv_startedAt s"
  by (simp_all add: rv_registrationSettled_def attempt_frame)

lemma resume_connected: "(\<And>r t. rv_connected (fst (go r t)) = rv_connected t) \<Longrightarrow> rv_connected (fst (rv_resume k place go s)) = rv_connected s"
    "(\<And>r t. rv_registered (fst (go r t)) = rv_registered t) \<Longrightarrow> rv_registered (fst (rv_resume k place go s)) = rv_registered s"
    "(\<And>r t. rv_startedAt (fst (go r t)) = rv_startedAt t) \<Longrightarrow> rv_startedAt (fst (rv_resume k place go s)) = rv_startedAt s"
  by (auto simp: rv_resume_def split: option.split)

lemma message_frame: "rv_registered (fst (rv_onMessage tc m now s)) = rv_registered s" "rv_connected (fst (rv_onMessage tc m now s)) = rv_connected s"
    "rv_startedAt (fst (rv_onMessage tc m now s)) = rv_startedAt s"
  by (auto simp: rv_onMessage_def rv_recordPersistentId_def rv_persistState_def fst_seq_do Let_def split: option.split)

lemma start_flags: "\<not> rv_registered (fst (rv_start now s))" "\<not> rv_connected (fst (rv_start now s))" "rv_startedAt (fst (rv_start now s)) = now"
  by (simp_all add: rv_start_def fst_seq_do attempt_frame)

lemma step_connected: "rv_connected (fst (rv_step tc s e)) \<Longrightarrow> (\<exists>c. e = ReConnect c \<and> rv_current c s) \<or> rv_connected s \<and> (\<forall>c. e = ReDisconnect c \<longrightarrow> \<not> rv_current c s) \<and> lifelong [e]"
  by (cases e)
    (auto simp: resume_connected loaded_frame attempt_frame settled_frame message_frame start_flags rv_close_def rv_retire_def rv_onDisconnect_def fst_seq_do
      lifelong_def split: if_splits)

lemma step_registered: "rv_registered (fst (rv_step tc s e)) \<Longrightarrow>
    (\<exists>r\<in>set (rv_runs s). e = ReRegistered (rn_id r) True \<and> rn_stage r = AtRegistration) \<or> rv_registered s \<and> (\<forall>c. e = ReDisconnect c \<longrightarrow> \<not> rv_current c s) \<and> lifelong [e]"
proof (cases e)
  case (ReRegistered k a)
  then show "rv_registered (fst (rv_step tc s e)) \<Longrightarrow> ?thesis"
    by (auto simp: rv_resume_def rv_registrationSettled_def attempt_frame find_Some_iff lifelong_def split: option.splits if_splits)
next
  case (ReConnect c)
  then show "rv_registered (fst (rv_step tc s e)) \<Longrightarrow> ?thesis"
    by (auto simp: rv_onConnect_def attempt_frame fst_seq_do lifelong_def Let_def split: if_splits)
qed (auto simp: resume_connected loaded_frame attempt_frame message_frame start_flags rv_close_def rv_retire_def rv_onDisconnect_def fst_seq_do
      lifelong_def split: if_splits)

lemma step_started: "rv_startedAt (fst (rv_step tc s e)) = (case e of ReStart now \<Rightarrow> now | _ \<Rightarrow> rv_startedAt s)"
  by (cases e)
    (auto simp: resume_connected loaded_frame attempt_frame settled_frame message_frame start_flags rv_close_def rv_retire_def rv_onConnect_def
      rv_onDisconnect_def fst_seq_do Let_def)

lemma not_disconnected: "\<forall>c. e = ReDisconnect c \<longrightarrow> \<not> rv_current c s \<Longrightarrow> RoPublish Disconnected \<notin> set (snd (rv_step tc s e))"
  using step_out [of "RoPublish Disconnected" tc s e] by (auto simp: plain_out_def)

lemma undisturbed_snoc: "undisturbed tc s es \<Longrightarrow> lifelong [e] \<Longrightarrow> \<forall>c. e = ReDisconnect c \<longrightarrow> \<not> rv_current c (run_state (rv_step tc) s es) \<Longrightarrow>
    undisturbed tc s (es @ [e])"
  using not_disconnected [of e "run_state (rv_step tc) s es" tc] by (simp add: undisturbed_def run_append del: run.simps(2))

lemma accepted_snoc: "accepted_in tc es \<Longrightarrow> lifelong [e] \<Longrightarrow> \<forall>c. e = ReDisconnect c \<longrightarrow> \<not> rv_current c (run_state (rv_step tc) rv_new es) \<Longrightarrow>
    accepted_in tc (es @ [e])"
proof -
  assume h: "accepted_in tc es" "lifelong [e]" "\<forall>c. e = ReDisconnect c \<longrightarrow> \<not> rv_current c (run_state (rv_step tc) rv_new es)"
  then obtain a n b where e: "es = a @ ReRegistered n True # b" "asked_in tc n a"
    "undisturbed tc (run_state (rv_step tc) rv_new (a @ [ReRegistered n True])) b" by (auto simp: accepted_in_def)
  have r: "run_state (rv_step tc) rv_new es = run_state (rv_step tc) (run_state (rv_step tc) rv_new (a @ [ReRegistered n True])) b"
    using run_append [of "rv_step tc" rv_new "a @ [ReRegistered n True]" b] by (simp add: e(1) del: run.simps(2))
  have "undisturbed tc (run_state (rv_step tc) rv_new (a @ [ReRegistered n True])) (b @ [e])"
    using undisturbed_snoc [OF e(3) h(2)] h(3) r by simp
  then show ?thesis unfolding accepted_in_def using e(1, 2) by (intro exI [of _ a] exI [of _ n] exI [of _ "b @ [e]"]) simp
qed

lemma logged_snoc: "logged_in tc es \<Longrightarrow> lifelong [e] \<Longrightarrow> \<forall>c. e = ReDisconnect c \<longrightarrow> \<not> rv_current c (run_state (rv_step tc) rv_new es) \<Longrightarrow>
    logged_in tc (es @ [e])"
proof -
  assume h: "logged_in tc es" "lifelong [e]" "\<forall>c. e = ReDisconnect c \<longrightarrow> \<not> rv_current c (run_state (rv_step tc) rv_new es)"
  then obtain a c b where e: "es = a @ ReConnect c # b" "rv_current c (run_state (rv_step tc) rv_new a)"
    "undisturbed tc (run_state (rv_step tc) rv_new (a @ [ReConnect c])) b" by (auto simp: logged_in_def)
  have r: "run_state (rv_step tc) rv_new es = run_state (rv_step tc) (run_state (rv_step tc) rv_new (a @ [ReConnect c])) b"
    using run_append [of "rv_step tc" rv_new "a @ [ReConnect c]" b] by (simp add: e(1) del: run.simps(2))
  have "undisturbed tc (run_state (rv_step tc) rv_new (a @ [ReConnect c])) (b @ [e])"
    using undisturbed_snoc [OF e(3) h(2)] h(3) r by simp
  then show ?thesis unfolding logged_in_def using e(1, 2) by (intro exI [of _ a] exI [of _ c] exI [of _ "b @ [e]"]) simp
qed

lemma asked_snoc: "asked_in tc n es \<Longrightarrow> lifelong [e] \<Longrightarrow> \<forall>a. e \<noteq> ReRegistered n a \<Longrightarrow> asked_in tc n (es @ [e])"
  unfolding asked_in_def by (elim exE conjE, rule_tac x = a in exI, rule_tac x = x in exI, rule_tac x = "b @ [e]" in exI) auto

text \<open>What the state says is what has happened.\<close>

definition true_to :: "text_codec \<Rightarrow> receiver_event list \<Rightarrow> bool" where
  "true_to tc es \<longleftrightarrow> (let s = run_state (rv_step tc) rv_new es in
     (rv_registered s \<longrightarrow> accepted_in tc es) \<and> (rv_connected s \<longrightarrow> logged_in tc es) \<and> rv_startedAt s = last_start es \<and>
     (\<forall>r\<in>set (rv_runs s). rn_stage r = AtRegistration \<longrightarrow> asked_in tc (rn_id r) es))"

lemma history: "true_to tc es"
proof (induction es rule: rev_induct)
  case Nil
  then show ?case by (simp add: true_to_def rv_new_def last_start_def)
next
  case (snoc e es)
  define s where "s = run_state (rv_step tc) rv_new es"
  have t: "run_state (rv_step tc) rv_new (es @ [e]) = fst (rv_step tc s e)" by (simp add: run_append s_def)
  note ih = snoc.IH [unfolded true_to_def Let_def s_def [symmetric]]
  have reg: "accepted_in tc (es @ [e])" if r: "rv_registered (fst (rv_step tc s e))"
  proof (cases "\<exists>r\<in>set (rv_runs s). e = ReRegistered (rn_id r) True \<and> rn_stage r = AtRegistration")
    case True
    then obtain r where x: "r \<in> set (rv_runs s)" "e = ReRegistered (rn_id r) True" "rn_stage r = AtRegistration" by auto
    then have "asked_in tc (rn_id r) es" using ih by simp
    then show ?thesis unfolding accepted_in_def using x(2) by (intro exI [of _ es] exI [of _ "rn_id r"] exI [of _ "[]"]) (simp add: undisturbed_def)
  next
    case False
    then show ?thesis using step_registered [OF r] accepted_snoc [of tc es e] ih by (auto simp: s_def)
  qed
  have con: "logged_in tc (es @ [e])" if r: "rv_connected (fst (rv_step tc s e))"
  proof (cases "\<exists>c. e = ReConnect c \<and> rv_current c s")
    case True
    then obtain c where x: "e = ReConnect c" "rv_current c s" by auto
    then show ?thesis unfolding logged_in_def by (intro exI [of _ es] exI [of _ c] exI [of _ "[]"]) (simp add: undisturbed_def s_def)
  next
    case False
    then show ?thesis using step_connected [OF r] logged_snoc [of tc es e] ih by (auto simp: s_def)
  qed
  have ask: "asked_in tc (rn_id r) (es @ [e])" if r: "r \<in> set (rv_runs (fst (rv_step tc s e)))" "rn_stage r = AtRegistration" for r
  proof (cases "\<exists>token. RoRegisterToken (rn_id r) token \<in> set (snd (rv_step tc s e))")
    case True
    then obtain token where "RoRegisterToken (rn_id r) token \<in> set (snd (rv_step tc s e))" by auto
    then show ?thesis unfolding asked_in_def
      by (intro exI [of _ es] exI [of _ e] exI [of _ "[]"] exI [of _ token]) (simp add: s_def)
  next
    case False
    then show ?thesis using step_asks [OF r] asked_snoc ih r(2) by blast
  qed
  have "rv_startedAt (fst (rv_step tc s e)) = last_start (es @ [e])"
    using ih by (simp add: step_started last_start_def split: receiver_event.split)
  then show ?case unfolding true_to_def t Let_def using reg con ask by blast
qed

text \<open>C12: the receiver reports ready only with an accepted registration, and passes on an event only when it may. After
  any history: it publishes "connected" only when the history holds a login of its current client, and a request to register its token that
  was answered with an acceptance, and neither was followed by a reported disconnection or by a start or close (a start or close also cancels the request); a device event is passed on only from a message of the client it holds, as normalised,
  with such a registration or when the send time shows that the event belongs to this startup; each push client starts with at most a hundred ids
  to recognise; and after close, until
  the next start, no event has any effect. (The request may have been put out before the last disconnection: see the finding.)\<close>

theorem push_receiver_reports:
  assumes "s = run_state (rv_step tc) rv_new es"
  shows "(RoPublish Connected \<in> set (snd (rv_step tc s e)) \<longrightarrow> rv_registered (fst (rv_step tc s e)) \<and> rv_connected (fst (rv_step tc s e)) \<and>
      accepted_in tc (es @ [e]) \<and> logged_in tc (es @ [e])) \<and>
    (RoEvent ev t \<in> set (snd (rv_step tc s e)) \<longrightarrow>
      (\<exists>c m now. e = ReMessage c m now \<and> rv_current c s \<and> parsePushEvent tc (rp_payload m) = Some ev \<and>
         (rv_registered s \<and> accepted_in tc es \<or> isFreshStartupDelivery (js_field (Some (rp_object m)) ''sent'') (last_start es) now))) \<and>
    (RoCreateClient n c ids \<in> set (snd (rv_step tc s e)) \<longrightarrow> length ids \<le> 100) \<and>
    (rv_lifetime s = None \<and> (\<forall>now. e \<noteq> ReStart now) \<and> e \<noteq> ReClose \<longrightarrow> rv_step tc s e = (s, []))"
proof -
  have "rv_inv s" using rv_run_inv assms by simp
  moreover have "length (rv_ids (fst (rv_step tc s e))) \<le> 100" using run_ids step_ids assms by blast
  moreover have "run_state (rv_step tc) rv_new (es @ [e]) = fst (rv_step tc s e)" by (simp add: run_append assms)
  ultimately show ?thesis
    using step_created [of n c ids tc s e] step_out [of "RoPublish Connected" tc s e] step_out [of "RoEvent ev t" tc s e] retired_silent [of s e tc]
      history [of tc es] history [of tc "es @ [e]"]
    by (auto simp: plain_out_def true_to_def Let_def assms)
qed

text \<open>A start with stored credentials up to the registration request.\<close>

definition sample_file :: file_read where
  "sample_file = FileText (Some (JObj [(''version'', JNum 2), (''credentials'', JObj [(''fid'', JStr ''f''), (''androidId'', JStr ''1''),
     (''securityToken'', JStr ''s''), (''fcmToken'', JStr ''token''), (''createdAt'', JNum 0)])]))"

lemma sample_loaded: "loadState sample_file = Some (Some ''token'', [])"
  by (simp add: loadState_def sample_file_def isAndroidCredentials_def push_text_def trim_def js_space_def js_safe_def safe_real_def is_integer_def
      safe_int_def max_safe_integer_def map_filter_def Let_def)

definition sample_start :: "receiver_event list" where
  "sample_start = [ReStart 0, ReLoaded 0 sample_file, ReConnect 0, ReContinue 0]"

lemma sample_registering: "run_out (rv_step plain_text) rv_new sample_start =
    [RoPublish Starting, RoLoad 0, RoCreateClient 0 ''token'' [], RoConnectClient 0, RoRegisterToken 0 ''token'']"
  by code_simp

lemma push_registration_in_one_hand_witness:
  "rv_attempt (run_state (rv_step plain_text) rv_new sample_start) \<le> 6 \<and>
   length (rv_runs (run_state (rv_step plain_text) rv_new sample_start)) = 1"
proof -
  let ?s = "run_state (rv_step plain_text) rv_new sample_start"
  have "rv_lifetime ?s = Some 0" "\<not> rv_retryTimer ?s" "\<not> rv_registered ?s" "\<not> rv_reregister ?s" "\<not> rv_failed ?s" by code_simp+
  then show ?thesis using push_registration_in_one_hand [OF refl, of plain_text sample_start] by auto
qed

lemma push_receiver_reports_witness:
  "accepted_in plain_text (sample_start @ [ReRegistered 0 True]) \<and>
   rv_registered (fst (rv_step plain_text (run_state (rv_step plain_text) rv_new sample_start) (ReRegistered 0 True))) \<and>
   rv_connected (fst (rv_step plain_text (run_state (rv_step plain_text) rv_new sample_start) (ReRegistered 0 True)))"
proof -
  have "RoPublish Connected \<in> set (snd (rv_step plain_text (run_state (rv_step plain_text) rv_new sample_start) (ReRegistered 0 True)))"
    by code_simp
  then show ?thesis using push_receiver_reports [OF refl, of plain_text sample_start "ReRegistered 0 True"] by blast
qed

text \<open>A registration that was requested before the connection was lost makes the receiver ready after the reconnect, and
  is not repeated, although the binding may have been discarded in between.\<close>

lemma registration_across_reconnect:
  "run_out (rv_step plain_text) rv_new (sample_start @ [ReDisconnect 0, ReRegistered 0 True, ReConnect 0]) =
    run_out (rv_step plain_text) rv_new sample_start @ [RoPublish Disconnected, RoPublish Connected]"
  by code_simp

end
