(* ===== verification/Jpeg_Stream.thy ===== *)
theory Jpeg_Stream
  imports Machine
begin

text \<open>
  \<open>stream/jpeg-parser.ts\<close>: the images in the output of the snapshot process, which arrives in arbitrary chunks.
  The unfinished suffix is kept between chunks. The parser accepts every stream, and what it finds does not
  depend on the cut.
\<close>

definition SOI :: bytes where "SOI = [0xff, 0xd8]"
definition EOI :: bytes where "EOI = [0xff, 0xd9]"

function jp_loop :: "bytes \<Rightarrow> bytes \<times> bytes list" where
  "jp_loop pending =
     (case find_sub SOI pending of
        None \<Rightarrow> (drop (length pending - 1) pending, [])
      | Some start \<Rightarrow>
          (case find_sub EOI (drop (start + 2) pending) of
             None \<Rightarrow> (drop start pending, [])
           | Some e \<Rightarrow> (let end_at = start + 2 + e; (kept, images) = jp_loop (drop (end_at + 2) pending) in
               (kept, slice start (end_at + 2) pending # images))))"
  by pat_completeness auto
termination
  by (relation "measure length") (auto dest!: find_sub_bound simp: SOI_def)

declare jp_loop.simps [simp del]

definition jp_push :: "bytes \<Rightarrow> bytes \<Rightarrow> bytes \<times> bytes list" where
  "jp_push pending chunk = jp_loop (pending @ chunk)"

lemma loop_none: "find_sub SOI p = None \<Longrightarrow> jp_loop p = (drop (length p - 1) p, [])"
  and loop_partial: "find_sub SOI p = Some n \<Longrightarrow> find_sub EOI (drop (n + 2) p) = None \<Longrightarrow> jp_loop p = (drop n p, [])"
  and loop_image: "find_sub SOI p = Some n \<Longrightarrow> find_sub EOI (drop (n + 2) p) = Some e \<Longrightarrow>
      jp_loop p = (fst (jp_loop (drop (n + 2 + e + 2) p)), slice n (n + 2 + e + 2) p # snd (jp_loop (drop (n + 2 + e + 2) p)))"
  by (subst jp_loop.simps; simp add: Let_def split_beta)+

text \<open>Dropping bytes before which no marker starts moves the first marker by as much.\<close>

lemma find_sub_skip:
  assumes "\<And>j. j < k \<Longrightarrow> \<not> starts_with pat (drop j xs)" and "k \<le> length xs"
  shows "find_sub pat xs = map_option ((+) k) (find_sub pat (drop k xs))"
proof (cases "find_sub pat (drop k xs)")
  case None
  have "\<not> starts_with pat (drop j xs)" for j
    using assms(1) [of j] find_sub_None [OF None, of "j - k"] by (cases "j < k") simp_all
  then show ?thesis using None find_sub_Some by (cases "find_sub pat xs") auto
next
  case (Some i)
  have "find_sub pat xs = Some (k + i)"
  proof (rule find_sub_unique)
    show "k + i \<le> length xs" "starts_with pat (drop (k + i) xs)" using find_sub_Some [OF Some] assms(2) by (auto simp: add.commute)
    show "\<not> starts_with pat (drop j xs)" if "j < k + i" for j
      using assms(1) [of j] find_sub_least [OF Some, of "j - k"] that by (cases "j < k") simp_all
  qed
  then show ?thesis using Some by simp
qed

lemma no_start_before:
  assumes "find_sub SOI p = None" "j < length p - 1"
  shows "\<not> starts_with SOI (drop j (p @ ys))"
proof -
  have "\<not> starts_with SOI (drop j p)" by (rule find_sub_None [OF assms(1)])
  moreover have "length SOI \<le> length (drop j p)" "j \<le> length p" using assms(2) by (simp_all add: SOI_def)
  ultimately show ?thesis using starts_with_restrict [of SOI "drop j p" ys] by auto
qed

lemma loop_tail:
  assumes "find_sub SOI p = Some (k + m)" "find_sub SOI (drop k p) = Some m" "k \<le> length p"
  shows "jp_loop p = jp_loop (drop k p)"
proof (cases "find_sub EOI (drop (k + m + 2) p)")
  case None
  then show ?thesis
    using loop_partial [OF assms(1)] loop_partial [OF assms(2)] by (simp add: add_ac)
next
  case (Some e)
  then show ?thesis
    using loop_image [OF assms(1) Some] loop_image [OF assms(2)] by (simp add: add_ac slice_def)
qed

lemma loop_append: "jp_loop (p @ ys) = (fst (jp_loop (fst (jp_loop p) @ ys)), snd (jp_loop p) @ snd (jp_loop (fst (jp_loop p) @ ys)))"
proof (induction p rule: jp_loop.induct)
  case (1 p)
  show ?case
  proof (cases "find_sub SOI p")
    case None
    let ?k = "length p - 1"
    have s: "find_sub SOI (p @ ys) = map_option ((+) ?k) (find_sub SOI (drop ?k (p @ ys)))"
      by (rule find_sub_skip) (use no_start_before [OF None] in auto)
    have "jp_loop (p @ ys) = jp_loop (drop ?k (p @ ys))"
    proof (cases "find_sub SOI (drop ?k (p @ ys))")
      case n: None
      then have "jp_loop (p @ ys) = (drop (length (p @ ys) - 1) (p @ ys), [])" using s by (intro loop_none) simp
      moreover have "jp_loop (drop ?k (p @ ys)) = (drop (length (p @ ys) - 1) (p @ ys), [])" using loop_none [OF n] by (cases p) (simp_all add: add.commute)
      ultimately show ?thesis by simp
    next
      case (Some m)
      then show ?thesis using s loop_tail [of "p @ ys" ?k m] by simp
    qed
    then show ?thesis using loop_none [OF None] by simp
  next
    case (Some n)
    note start = this
    then have sp: "find_sub SOI (p @ ys) = Some n" by (rule find_sub_append)
    have b: "n + 2 \<le> length p" using find_sub_bound [OF Some] by (simp add: SOI_def)
    show ?thesis
    proof (cases "find_sub EOI (drop (n + 2) p)")
      case None
      have "starts_with SOI (drop n (p @ ys))" using find_sub_Some [OF sp] by simp
      then have "find_sub SOI (drop n (p @ ys)) = Some 0" by (rule find_sub_at_start)
      then have "jp_loop (p @ ys) = jp_loop (drop n (p @ ys))" using sp b loop_tail [of "p @ ys" n 0] by simp
      then show ?thesis using loop_partial [OF start None] b by simp
    next
      case (Some e)
      then have "find_sub EOI (drop (n + 2) (p @ ys)) = Some e" using b find_sub_append by fastforce
      moreover have "n + 2 + e + 2 \<le> length p" using find_sub_bound [OF Some] b by (simp add: EOI_def)
      ultimately show ?thesis
        using loop_image [OF sp] loop_image [OF start Some] 1 [OF start Some refl] by (simp add: slice_append_left)
    qed
  qed
qed

lemma loop_kept: "jp_loop (fst (jp_loop p)) = (fst (jp_loop p), [])"
  using loop_append [of p "[]"] by (simp add: prod_eq_iff)

interpretation jpeg: total_chunk_parser jp_push "\<lambda>p. jp_loop p = (p, [])"
proof
  fix p xs ys :: bytes
  assume r: "jp_loop p = (p, [])"
  show "jp_push p [] = (p, [])" using r by (simp add: jp_push_def)
  show "jp_loop (fst (jp_push p xs)) = (fst (jp_push p xs), [])" by (simp add: jp_push_def loop_kept)
  show "jp_push p (xs @ ys) = (fst (jp_push (fst (jp_push p xs)) ys), snd (jp_push p xs) @ snd (jp_push (fst (jp_push p xs)) ys))"
    using loop_append [of "p @ xs" ys] by (simp add: jp_push_def)
qed simp_all

text \<open>An image: the start marker, bytes without an end marker (also across their end), the end marker.\<close>

definition jpeg_image :: "bytes \<Rightarrow> bool" where
  "jpeg_image i \<longleftrightarrow> (\<exists>body. i = SOI @ body @ EOI \<and> find_sub EOI (body @ EOI) = Some (length body))"

definition jpeg_gap :: "bytes \<Rightarrow> bool" where
  "jpeg_gap g \<longleftrightarrow> find_sub SOI (g @ SOI) = Some (length g)"

lemma loop_images:
  "\<forall>(g, i)\<in>set gs. jpeg_gap g \<and> jpeg_image i \<Longrightarrow> snd (jp_loop (concat (map (\<lambda>(g, i). g @ i) gs))) = map snd gs"
proof (induction gs)
  case Nil
  then show ?case by (simp add: loop_none SOI_def)
next
  case (Cons gi gs)
  obtain g i where gi: "gi = (g, i)" by force
  then obtain body where i: "i = SOI @ body @ EOI" "find_sub EOI (body @ EOI) = Some (length body)" and g: "find_sub SOI (g @ SOI) = Some (length g)"
    using Cons.prems by (auto simp: jpeg_image_def jpeg_gap_def)
  let ?rest = "concat (map (\<lambda>(g, i). g @ i) gs)" and ?p = "concat (map (\<lambda>(g, i). g @ i) (gi # gs))"
  have p: "?p = g @ SOI @ body @ EOI @ ?rest" by (simp add: gi i(1))
  have "find_sub SOI ?p = Some (length g)" using find_sub_append [OF g, of "body @ EOI @ ?rest"] unfolding p by simp
  moreover have "find_sub EOI (drop (length g + 2) ?p) = Some (length body)"
    using find_sub_append [OF i(2), of ?rest] unfolding p by (simp add: SOI_def)
  moreover have "drop (length g + 2 + length body + 2) ?p = ?rest" "slice (length g) (length g + 2 + length body + 2) ?p = i"
    unfolding p by (simp_all add: i(1) SOI_def EOI_def slice_def eval_nat_numeral)
  ultimately show ?case using loop_image [of ?p "length g" "length body"] Cons by (simp add: gi)
qed

text \<open>Every image that the process writes is found, whole and once, whatever surrounds it and however its output is cut
  into chunks; and on any output at all the images do not depend on the cut.\<close>

theorem jpeg_images_any_cutting:
  assumes "\<forall>(g, i)\<in>set gs. jpeg_gap g \<and> jpeg_image i" and "concat chunks = concat (map (\<lambda>(g, i). g @ i) gs)"
  shows "run_out jp_push [] chunks = map snd gs \<and> (concat xss = concat yss \<longrightarrow> run jp_push [] xss = run jp_push [] yss)"
proof -
  have r: "jp_loop [] = ([], [])" by (simp add: loop_none SOI_def)
  have "run_out jp_push [] chunks = map snd gs"
    unfolding jpeg.any_chunking [OF r, of chunks] assms(2) jp_push_def append_Nil by (rule loop_images [OF assms(1)])
  moreover have "run jp_push [] xss = run jp_push [] yss" if "concat xss = concat yss"
    using that by (rule jpeg.chunking_irrelevant [OF r TrueI])
  ultimately show ?thesis by blast
qed

lemma jpeg_images_any_cutting_witness:
  "run_out jp_push [] [[1, 0xff], [0xd8, 7, 0xff], [0xd9]] = [[0xff, 0xd8, 7, 0xff, 0xd9]]"
proof -
  have "jpeg_gap [1]" by code_simp
  moreover have "find_sub EOI ([7] @ EOI) = Some (length [7 :: byte])" by code_simp
  then have "jpeg_image [0xff, 0xd8, 7, 0xff, 0xd9]" unfolding jpeg_image_def by (intro exI [of _ "[7]"] conjI) (simp_all only: SOI_def EOI_def append.simps)
  ultimately have "\<forall>(g, i)\<in>set [([1], [0xff, 0xd8, 7, 0xff, 0xd9])]. jpeg_gap g \<and> jpeg_image i" by simp
  from jpeg_images_any_cutting [OF this, of "[[1, 0xff], [0xd8, 7, 0xff], [0xd9]]"] show ?thesis
    by (simp del: run.simps)
qed

end
