(* ===== verification/Camera_Deadline.thy ===== *)
theory Camera_Deadline
  imports Machine
begin

text \<open>
  \<open>provider/camera-control-deadline.ts\<close>: the scope of one confirmed camera operation. Its phases run inside \<open>wait\<close>, the
  resources it owns are registered for retirement, and the first setting datagram is marked. The deadline or
  the caller's signal aborts the scope. Phases and cleanups are numbers; phase 0 is the operation itself. What the
  operation does with its scope, the timer, the caller's signal and the microtask that begins a phase are
  events. A cleanup does not call back into the scope.
\<close>

section \<open>The scope\<close>

datatype control_error = NotStarted | OutcomeUnknown

datatype phase_stage = Queued | Running

datatype control_out = CdCleanup nat | CdPhase nat | CdReject nat control_error | CdResolve nat bool

record control_scope =
  cd_aborted :: "control_error option"
  cd_cleanups :: "nat list"
  cd_dispatched :: bool
  cd_timer :: bool
  cd_parent :: bool
  cd_waits :: "(nat \<times> phase_stage) list"

definition cd_reason :: "bool \<Rightarrow> control_error" where
  "cd_reason dispatched = (if dispatched then OutcomeUnknown else NotStarted)"

text \<open>The outermost \<open>finally\<close>, once the operation's own wait has settled.\<close>

definition cd_finish :: "control_scope \<Rightarrow> control_scope" where
  "cd_finish s = s\<lparr>cd_timer := False, cd_parent := False, cd_cleanups := []\<rparr>"

definition cd_abort :: "control_scope \<Rightarrow> control_scope \<times> control_out list" where
  "cd_abort s =
     (if cd_aborted s \<noteq> None then (s, [])
      else
        (let reason = cd_reason (cd_dispatched s); over = (\<exists>w\<in>set (cd_waits s). fst w = 0);
             t = s\<lparr>cd_aborted := Some reason, cd_waits := []\<rparr> in
         (if over then cd_finish t else t, map CdCleanup (cd_cleanups s) @ map (\<lambda>w. CdReject (fst w) reason) (cd_waits s))))"

definition cd_onAbort :: "nat \<Rightarrow> control_scope \<Rightarrow> control_scope \<times> control_out list" where
  "cd_onAbort c s =
     (if cd_aborted s \<noteq> None then (s, [CdCleanup c])
      else (s\<lparr>cd_cleanups := (if c \<in> set (cd_cleanups s) then cd_cleanups s else cd_cleanups s @ [c])\<rparr>, []))"

definition cd_wait :: "nat \<Rightarrow> control_scope \<Rightarrow> control_scope \<times> control_out list" where
  "cd_wait w s =
     (case cd_aborted s of
        Some reason \<Rightarrow> (if w = 0 then cd_finish s else s, [CdReject w reason])
      | None \<Rightarrow> (s\<lparr>cd_waits := cd_waits s @ [(w, Queued)]\<rparr>, []))"

definition cd_begins :: "nat \<Rightarrow> control_scope \<Rightarrow> control_scope \<times> control_out list" where
  "cd_begins w s =
     (if (w, Queued) \<in> set (cd_waits s)
      then (s\<lparr>cd_waits := map (\<lambda>x. if x = (w, Queued) then (w, Running) else x) (cd_waits s)\<rparr>, [CdPhase w]) else (s, []))"

definition cd_settles :: "nat \<Rightarrow> bool \<Rightarrow> control_scope \<Rightarrow> control_scope \<times> control_out list" where
  "cd_settles w ok s =
     (if (w, Running) \<in> set (cd_waits s)
      then (let t = s\<lparr>cd_waits := filter (\<lambda>x. fst x \<noteq> w) (cd_waits s)\<rparr> in (if w = 0 then cd_finish t else t, [CdResolve w ok]))
      else (s, []))"

datatype control_event =
    CeDispatched | CeOnAbort nat | CeDeregister nat | CeWait nat | CeBegins nat | CeSettles nat bool | CeDeadline | CeParentAborts

fun cd_step :: "control_scope \<Rightarrow> control_event \<Rightarrow> control_scope \<times> control_out list" where
  "cd_step s CeDispatched = (s\<lparr>cd_dispatched := True\<rparr>, [])"
| "cd_step s (CeOnAbort c) = cd_onAbort c s"
| "cd_step s (CeDeregister c) = (s\<lparr>cd_cleanups := filter (\<lambda>x. x \<noteq> c) (cd_cleanups s)\<rparr>, [])"
| "cd_step s (CeWait w) = cd_wait w s"
| "cd_step s (CeBegins w) = cd_begins w s"
| "cd_step s (CeSettles w ok) = cd_settles w ok s"
| "cd_step s CeDeadline = (if cd_timer s then cd_abort (s\<lparr>cd_timer := False\<rparr>) else (s, []))"
| "cd_step s CeParentAborts = (if cd_parent s then cd_abort (s\<lparr>cd_parent := False\<rparr>) else (s, []))"

text \<open>The call: a deadline outside its range is refused before anything is set up.\<close>

definition withCameraControlDeadline :: "int \<Rightarrow> bool \<Rightarrow> (control_scope \<times> control_out list) option" where
  "withCameraControlDeadline milliseconds parentAborted =
     (if \<not> safe_int milliseconds \<or> milliseconds < 1 \<or> milliseconds > 90000 then None
      else
        (let s = \<lparr> cd_aborted = None, cd_cleanups = [], cd_dispatched = False, cd_timer = True, cd_parent = True, cd_waits = [] \<rparr> in
         Some (seq_do (if parentAborted then cd_abort s else (s, [])) (cd_wait 0))))"

section \<open>Outcomes are truthful and resources retire first\<close>

lemma abort_out: "cd_aborted s = None \<Longrightarrow> snd (cd_abort s) = map CdCleanup (cd_cleanups s) @ map (\<lambda>w. CdReject (fst w) (cd_reason (cd_dispatched s))) (cd_waits s)"
  by (simp add: cd_abort_def Let_def)

lemma abort_aborts: "cd_aborted (fst (cd_abort s)) \<noteq> None"
  by (auto simp: cd_abort_def cd_finish_def Let_def)

lemma aborted_stays: "cd_aborted s = Some r \<Longrightarrow> cd_aborted (fst (cd_step s e)) = Some r"
  by (cases e) (auto simp: cd_abort_def cd_onAbort_def cd_wait_def cd_begins_def cd_settles_def cd_finish_def Let_def)

lemma aborted_no_phase: "cd_aborted s \<noteq> None \<Longrightarrow> cd_waits s = [] \<Longrightarrow>
    cd_waits (fst (cd_step s e)) = [] \<and> CdPhase w \<notin> set (snd (cd_step s e)) \<and> CdResolve w ok \<notin> set (snd (cd_step s e))"
  by (cases e) (auto simp: cd_abort_def cd_onAbort_def cd_wait_def cd_begins_def cd_settles_def cd_finish_def Let_def)

lemma abort_waits: "cd_aborted s = None \<or> cd_waits s = [] \<Longrightarrow> cd_waits (fst (cd_abort s)) = []"
  by (auto simp: cd_abort_def cd_finish_def Let_def)

lemma dispatched_step: "cd_dispatched (fst (cd_step s e)) \<longleftrightarrow> cd_dispatched s \<or> e = CeDispatched"
  by (cases e) (auto simp: cd_abort_def cd_onAbort_def cd_wait_def cd_begins_def cd_settles_def cd_finish_def Let_def split: option.split)

lemma dispatched_run: "cd_dispatched (run_state cd_step s es) \<longleftrightarrow> cd_dispatched s \<or> CeDispatched \<in> set es"
  by (induction es arbitrary: s) (auto simp: run_state_Cons dispatched_step simp del: run.simps(2) cd_step.simps)

text \<open>An aborted scope has no phase left; while the operation itself is pending the deadline runs; a cleanup is registered once.\<close>

definition quiet_scope :: "control_scope \<Rightarrow> bool" where
  "quiet_scope s \<longleftrightarrow> distinct (cd_cleanups s) \<and> (cd_aborted s \<noteq> None \<longrightarrow> cd_waits s = []) \<and> ((\<exists>g. (0, g) \<in> set (cd_waits s)) \<longrightarrow> cd_timer s)"

lemma quiet_step: "quiet_scope s \<Longrightarrow> e \<noteq> CeWait 0 \<Longrightarrow> quiet_scope (fst (cd_step s e))"
  by (cases e) (auto simp: quiet_scope_def cd_abort_def cd_onAbort_def cd_wait_def cd_begins_def cd_settles_def cd_finish_def Let_def image_iff
      split: option.splits if_splits)

interpretation cd: invariant_machine cd_step quiet_scope "\<lambda>e. e \<noteq> CeWait 0"
  by unfold_locales (rule quiet_step)

lemma begin_quiet: "withCameraControlDeadline ms pa = Some (s, out) \<Longrightarrow> quiet_scope s \<and> \<not> cd_dispatched s"
  by (auto simp: withCameraControlDeadline_def quiet_scope_def cd_abort_def cd_wait_def cd_finish_def seq_do_def Let_def split: if_splits)

lemma reject_aborts: "CdReject w err \<in> set (snd (cd_step s e)) \<Longrightarrow> cd_aborted s = None \<Longrightarrow>
    \<exists>t. cd_step s e = cd_abort t \<and> cd_aborted t = None \<and> cd_cleanups t = cd_cleanups s \<and> cd_waits t = cd_waits s \<and> cd_dispatched t = cd_dispatched s"
  by (cases e) (auto simp: cd_onAbort_def cd_wait_def cd_begins_def cd_settles_def Let_def split: if_splits
      intro: exI [of _ "s\<lparr>cd_timer := False\<rparr>"] exI [of _ "s\<lparr>cd_parent := False\<rparr>"])

lemma aborted_reject: "cd_aborted s = Some r \<Longrightarrow> CdReject w err \<in> set (snd (cd_step s e)) \<Longrightarrow> err = r"
  by (cases e) (auto simp: cd_abort_def cd_onAbort_def cd_wait_def cd_begins_def cd_settles_def Let_def split: if_splits)

lemma aborted_run: "cd_aborted s = Some r \<Longrightarrow> cd_waits s = [] \<Longrightarrow> x \<in> set (run_out cd_step s es) \<Longrightarrow>
    (\<exists>c. x = CdCleanup c) \<or> (\<exists>w. x = CdReject w r)"
proof (induction es arbitrary: s)
  case (Cons e es)
  have n: "cd_aborted (fst (cd_step s e)) = Some r" "cd_waits (fst (cd_step s e)) = []"
    using aborted_stays [OF Cons.prems(1)] aborted_no_phase [OF _ Cons.prems(2)] Cons.prems(1) by auto
  show ?case
  proof (cases "x \<in> set (snd (cd_step s e))")
    case True
    moreover have "x \<noteq> CdPhase w" "x \<noteq> CdResolve w ok" for w ok
      using True aborted_no_phase [OF _ Cons.prems(2), of e w ok] Cons.prems(1) by auto
    ultimately show ?thesis using aborted_reject [OF Cons.prems(1)] by - (cases x; use True in auto)
  next
    case False
    then show ?thesis using Cons.IH [OF n] Cons.prems(3) by (simp add: run_out_Cons del: run.simps cd_step.simps)
  qed
qed simp

text \<open>C13: the deadline of a camera operation tells the truth and leaves nothing behind. Whatever the operation does with its scope:
  the first rejection says "not started" exactly when no setting datagram was marked before it, and otherwise "outcome
  unknown"; the registered resources are retired in that same step, each once and before any phase is rejected; afterwards
  no phase begins or resolves and every rejection repeats the same error; and while the operation is pending its
  deadline is running and rejects it.\<close>

theorem control_deadline_truthful:
  assumes "withCameraControlDeadline ms pa = Some (s0, out0)" and "\<forall>e\<in>set es. e \<noteq> CeWait 0"
    and "s = run_state cd_step s0 es" and "cd_aborted s = None"
  shows "(CdReject w err \<in> set (snd (cd_step s e)) \<longrightarrow>
      err = (if CeDispatched \<in> set es then OutcomeUnknown else NotStarted) \<and>
      snd (cd_step s e) = map CdCleanup (cd_cleanups s) @ map (\<lambda>v. CdReject (fst v) err) (cd_waits s) \<and> distinct (cd_cleanups s) \<and>
      (\<forall>x\<in>set (run_out cd_step (fst (cd_step s e)) fs). (\<exists>c. x = CdCleanup c) \<or> (\<exists>v. x = CdReject v err))) \<and>
    ((0, g) \<in> set (cd_waits s) \<longrightarrow> (\<exists>r. CdReject 0 r \<in> set (snd (cd_step s CeDeadline))))"
proof -
  have q: "quiet_scope s" using cd.run_inv assms(2, 3) begin_quiet [OF assms(1)] by simp
  have d: "cd_dispatched s \<longleftrightarrow> CeDispatched \<in> set es" using assms(3) dispatched_run begin_quiet [OF assms(1)] by simp
  have "err = (if CeDispatched \<in> set es then OutcomeUnknown else NotStarted) \<and>
      snd (cd_step s e) = map CdCleanup (cd_cleanups s) @ map (\<lambda>v. CdReject (fst v) err) (cd_waits s) \<and>
      (\<forall>x\<in>set (run_out cd_step (fst (cd_step s e)) fs). (\<exists>c. x = CdCleanup c) \<or> (\<exists>v. x = CdReject v err))"
    if r: "CdReject w err \<in> set (snd (cd_step s e))"
  proof -
    obtain t where t: "cd_step s e = cd_abort t" "cd_aborted t = None" "cd_cleanups t = cd_cleanups s" "cd_waits t = cd_waits s"
        "cd_dispatched t = cd_dispatched s"
      using reject_aborts [OF r assms(4)] by blast
    then have e: "err = cd_reason (cd_dispatched s)" using r abort_out [OF t(2)] by auto
    have "cd_aborted (fst (cd_abort t)) = Some err" using t(2) by (simp add: cd_abort_def cd_finish_def e t(5) Let_def)
    then show ?thesis
      using aborted_run [of "fst (cd_abort t)" err] abort_waits [of t] abort_out [OF t(2)] t e d by (simp add: cd_reason_def)
  qed
  moreover have "\<exists>r. CdReject 0 r \<in> set (snd (cd_step s CeDeadline))" if "(0, g) \<in> set (cd_waits s)"
  proof -
    have "cd_timer s" using q that by (auto simp: quiet_scope_def)
    then have "snd (cd_step s CeDeadline) = map CdCleanup (cd_cleanups s) @ map (\<lambda>v. CdReject (fst v) (cd_reason (cd_dispatched s))) (cd_waits s)"
      using abort_out [of "s\<lparr>cd_timer := False\<rparr>"] assms(4) by simp
    then show ?thesis using that by force
  qed
  ultimately show ?thesis using q by (simp add: quiet_scope_def)
qed

definition sample_scope :: control_scope where
  "sample_scope = \<lparr> cd_aborted = None, cd_cleanups = [5], cd_dispatched = True, cd_timer = True, cd_parent = True, cd_waits = [(0, Running)] \<rparr>"

lemma control_deadline_truthful_witness: "snd (cd_step sample_scope CeDeadline) = [CdCleanup 5, CdReject 0 OutcomeUnknown]"
proof -
  let ?es = "[CeBegins 0, CeOnAbort 5, CeDispatched]"
  obtain s0 out0 where b: "withCameraControlDeadline 90000 False = Some (s0, out0)" "run_state cd_step s0 ?es = sample_scope"
    by (simp add: withCameraControlDeadline_def safe_int_def max_safe_integer_def seq_do_def cd_wait_def cd_begins_def cd_onAbort_def sample_scope_def)
  moreover have "CdReject 0 OutcomeUnknown \<in> set (snd (cd_step sample_scope CeDeadline))" by code_simp
  ultimately show ?thesis
    using control_deadline_truthful [OF b(1), of ?es sample_scope 0 OutcomeUnknown CeDeadline "[]"] by (simp add: sample_scope_def)
qed

end
