(* ===== verification/Ppcs_Wire.thy ===== *)
theory Ppcs_Wire
  imports Ppcs_Framing Ppcs_Decode Js_Value
begin

text \<open>
  What a camera session of \<open>stream/first-party-ppcs.ts\<close> puts on the wire and reads outside the media path: datagram
  and command envelopes, the two protection levels, the JSON and binary command bodies, lookup candidates. Node's
  ciphers are the parameter \<open>sealing\<close> (their inverses are in \<open>crypto\<close>), the random nonce is an argument. A function that
  throws returns None: the two-byte fields are written by Node methods that refuse larger values.
\<close>

section \<open>Opcodes and envelopes\<close>

definition REQ_lookup :: bytes where "REQ_lookup = [0xf1, 0x26]"
definition REQ_lookup2 :: bytes where "REQ_lookup2 = [0xf1, 0x6a]"
definition REQ_localLookup :: bytes where "REQ_localLookup = [0xf1, 0x30]"
definition REQ_check :: bytes where "REQ_check = [0xf1, 0x41]"
definition REQ_ping :: bytes where "REQ_ping = [0xf1, 0xe0]"
definition REQ_pong :: bytes where "REQ_pong = [0xf1, 0xe1]"
definition REQ_data :: bytes where "REQ_data = [0xf1, 0xd0]"
definition REQ_ack :: bytes where "REQ_ack = [0xf1, 0xd1]"
definition REQ_end :: bytes where "REQ_end = [0xf1, 0xf0]"
definition RESP_lookupAddr :: bytes where "RESP_lookupAddr = [0xf1, 0x40]"
definition RESP_lookupAddr2 :: bytes where "RESP_lookupAddr2 = [0xf1, 0x82]"
definition RESP_localLookup :: bytes where "RESP_localLookup = [0xf1, 0x41]"
definition RESP_camId :: bytes where "RESP_camId = [0xf1, 0x42]"
definition RESP_turnServerCamId :: bytes where "RESP_turnServerCamId = [0xf1, 0x84]"
definition RESP_ping :: bytes where "RESP_ping = [0xf1, 0xe0]"
definition RESP_pong :: bytes where "RESP_pong = [0xf1, 0xe1]"
definition RESP_data :: bytes where "RESP_data = [0xf1, 0xd0]"
definition DATA_data :: bytes where "DATA_data = [0xd1, 0]"
definition DATA_video :: bytes where "DATA_video = [0xd1, 1]"

lemmas opcodes = REQ_lookup_def REQ_lookup2_def REQ_localLookup_def REQ_check_def REQ_ping_def REQ_pong_def REQ_data_def REQ_ack_def
  REQ_end_def RESP_lookupAddr_def RESP_lookupAddr2_def RESP_localLookup_def RESP_camId_def RESP_turnServerCamId_def RESP_ping_def
  RESP_pong_def RESP_data_def DATA_data_def DATA_video_def

definition has :: "bytes \<Rightarrow> bytes \<Rightarrow> bool" where
  "has value header \<longleftrightarrow> take 2 value = header"

definition u16 :: "nat \<Rightarrow> bytes option" where
  "u16 v = (if v > 65535 then None else Some (be_bytes 2 v))"

text \<open>\<open>#send\<close>: the outer type and length.\<close>

definition datagram :: "bytes \<Rightarrow> bytes \<Rightarrow> bytes option" where
  "datagram type payload = map_option (\<lambda>n. type @ n @ payload) (u16 (length payload))"

definition commandHeader :: "nat \<Rightarrow> nat \<Rightarrow> bytes option" where
  "commandHeader sequence command = map_option (\<lambda>n. DATA_data @ n @ MAGIC @ le_bytes 2 command) (u16 sequence)"

definition rawPayload :: "bytes \<Rightarrow> int \<Rightarrow> nat \<Rightarrow> nat \<times> nat \<Rightarrow> nat \<Rightarrow> bytes option" where
  "rawPayload data channel signCode magic streamId =
     (if length data > 65535 then None
      else Some (le_bytes 2 (length data) @
        [0, 0, word_of_nat (fst magic), word_of_nat (snd magic), word_of_int channel, word_of_nat signCode, word_of_nat streamId, 0] @ data))"

definition cameraVoidPayload :: "int \<Rightarrow> bytes" where
  "cameraVoidPayload channel = [0, 0, 0, 0, 1, 0, word_of_int channel, 0, 0, 0]"

section \<open>Protection\<close>

record sealing =
  sk_ecb :: "bytes \<Rightarrow> bytes \<Rightarrow> bytes"
  sk_gcm :: "bytes \<Rightarrow> bytes \<Rightarrow> bytes \<Rightarrow> bytes \<Rightarrow> bytes \<times> bytes"

definition encryptLevel1 :: "sealing \<Rightarrow> bytes \<Rightarrow> bytes \<Rightarrow> bytes" where
  "encryptLevel1 sk plaintext key = sk_ecb sk key (pad_to ((max (length plaintext) 16 + 15) div 16 * 16) plaintext)"

definition encryptLevel2 :: "sealing \<Rightarrow> bytes \<Rightarrow> bytes \<Rightarrow> bytes \<Rightarrow> nat \<Rightarrow> bytes" where
  "encryptLevel2 sk nonce plaintext key sequence =
     (case sk_gcm sk key nonce eufy_aad plaintext of (tag, ciphertext) \<Rightarrow>
        tag @ nonce @ [word_of_nat (sequence mod 256), 3, 2, 1] @ ciphertext)"

definition decryptLevel2 :: "crypto \<Rightarrow> bytes \<Rightarrow> bytes \<Rightarrow> nat \<Rightarrow> bytes option" where
  "decryptLevel2 cr payload key signCode =
     (let ciphertextOffset = (if signCode = 8 then 32 else 28) in
      if length payload < ciphertextOffset then None
      else cr_gcm cr key (slice 16 28 payload) eufy_aad (take 16 payload) (drop ciphertextOffset payload))"

definition unwrapGatewayInfo :: "crypto \<Rightarrow> bytes \<Rightarrow> string \<Rightarrow> bytes option" where
  "unwrapGatewayInfo cr envelope privateKeyHex =
     (if length envelope < 129 then None
      else
        (case cr_ecdh cr (hex_bytes privateKeyHex) (take 33 envelope) of
           None \<Rightarrow> None
         | Some shared \<Rightarrow>
             (case ecies_derive (cr_hmac cr) shared 2 ECIES [] of
                None \<Rightarrow> None
              | Some key \<Rightarrow> cr_cbc cr (take 16 key) (slice 33 49 envelope) (slice 49 97 envelope))))"

definition cameraCommandKey :: "string \<Rightarrow> string \<Rightarrow> bytes" where
  "cameraCommandKey serial did =
     utf8 (drop (length serial - 7) serial @
       (if CHR ''-'' \<in> set did then take 9 (dropWhile (\<lambda>c. c \<noteq> CHR ''-'') did) else take 8 did))"

section \<open>Lookup\<close>

text \<open>An endpoint is a host text and a port.\<close>

type_synonym endpoint = "string \<times> int"

definition ppcsLookupCandidate :: "bytes \<Rightarrow> endpoint option" where
  "ppcsLookupCandidate message =
     (if \<not> (has message RESP_lookupAddr \<or> has message RESP_lookupAddr2 \<or> has message RESP_localLookup) \<or> length message < 12 then None
      else
        (let n = (\<lambda>i. nat_str (unat (message ! i))) in
         Some (n 11 @ ''.'' @ n 10 @ ''.'' @ n 9 @ ''.'' @ n 8, int (u16le message 6))))"

definition isPpcsCameraIdentity :: "bytes \<Rightarrow> bool" where
  "isPpcsCameraIdentity message \<longleftrightarrow> has message RESP_camId \<or> has message RESP_turnServerCamId"

definition ppcsCandidatePorts :: "int \<Rightarrow> int list" where
  "ppcsCandidatePorts port = filter (\<lambda>candidate. candidate > 0 \<and> candidate \<le> 65535) [port - 3 .. port + 3]"

definition ppcsLocalLookupTargets :: "string option \<Rightarrow> endpoint list" where
  "ppcsLocalLookupTargets localAddress =
     (''255.255.255.255'', 32108) # (case localAddress of None \<Rightarrow> [] | Some a \<Rightarrow> if a = [] then [] else [(a, 32108)])"

text \<open>The caller's own address is given as its four octets and the port; the identity is the encoded DID.\<close>

definition buildPpcsCloudLookup :: "bytes \<Rightarrow> string \<Rightarrow> ((byte \<times> byte \<times> byte \<times> byte) \<times> nat) option \<Rightarrow> bytes \<times> bytes" where
  "buildPpcsCloudLookup did dskKey selfAddress =
     (case selfAddress of
        None \<Rightarrow> (REQ_lookup2, did @ utf8 dskKey @ [0, 0, 0, 0])
      | Some ((a, b, c, d), port) \<Rightarrow>
          (REQ_lookup, did @ ([0, 2] @ le_bytes 2 port @ [d, c, b, a] @ replicate 8 0) @ [2, 5, 1, 5] @ utf8 dskKey @ [0, 0, 0, 0]))"

section \<open>JSON text\<close>

text \<open>\<open>JSON.stringify\<close> on values whose numbers are integers, as all those the session writes are.\<close>

definition hex_digit :: "nat \<Rightarrow> char" where
  "hex_digit n = char_of (if n < 10 then 48 + n else 87 + n)"

definition json_char :: "char \<Rightarrow> string" where
  "json_char c = (let n = of_char c :: nat in
     if n = 34 then [char_of (92 :: nat), c] else if n = 92 then [c, c]
     else if n = 8 then [char_of (92 :: nat), CHR ''b''] else if n = 9 then [char_of (92 :: nat), CHR ''t'']
     else if n = 10 then [char_of (92 :: nat), CHR ''n''] else if n = 12 then [char_of (92 :: nat), CHR ''f'']
     else if n = 13 then [char_of (92 :: nat), CHR ''r'']
     else if n < 32 then char_of (92 :: nat) # ''u00'' @ [hex_digit (n div 16), hex_digit (n mod 16)] else [c])"

definition json_string :: "string \<Rightarrow> string" where
  "json_string s = CHR 0x22 # concat (map json_char s) @ [CHR 0x22]"

fun commas :: "string list \<Rightarrow> string" where
  "commas [] = []"
| "commas [x] = x"
| "commas (x # y # r) = x @ CHR '','' # commas (y # r)"

fun stringify :: "json \<Rightarrow> string" and stringify_fields :: "(string \<times> json) list \<Rightarrow> string list" and stringify_list :: "json list \<Rightarrow> string list" where
  "stringify JNull = ''null''"
| "stringify (JBool b) = (if b then ''true'' else ''false'')"
| "stringify (JNum x) = int_str \<lfloor>x\<rfloor>"
| "stringify (JStr s) = json_string s"
| "stringify (JArr xs) = CHR ''['' # commas (stringify_list xs) @ '']''"
| "stringify (JObj fs) = CHR ''{'' # commas (stringify_fields fs) @ ''}''"
| "stringify_fields [] = []"
| "stringify_fields ((k, v) # fs) = (json_string k @ CHR '':'' # stringify v) # stringify_fields fs"
| "stringify_list [] = []"
| "stringify_list (x # xs) = stringify x # stringify_list xs"

abbreviation JInt :: "int \<Rightarrow> json" where "JInt n \<equiv> JNum (of_int n)"

section \<open>Command bodies\<close>

text \<open>\<open>Number.isSafeInteger(now)\<close> and thirteen digits.\<close>

definition epoch_millis :: "int \<Rightarrow> bool" where
  "epoch_millis now \<longleftrightarrow> 1000000000000 \<le> now \<and> now \<le> 9999999999999"

definition transaction_field :: "int \<Rightarrow> string \<times> json" where
  "transaction_field now = (''transaction'', JStr (int_str now))"

text \<open>The level-two envelope shared by the settings, and the SET_PAYLOAD and typed wrappers of their JSON.\<close>

definition level2_payload :: "sealing \<Rightarrow> bytes \<Rightarrow> bytes \<Rightarrow> bytes \<Rightarrow> nat \<Rightarrow> int \<Rightarrow> bytes option" where
  "level2_payload sk nonce clear key sequence channel = rawPayload (encryptLevel2 sk nonce clear key sequence) channel 8 (8, 0) 0"

definition set_payload_text :: "string \<Rightarrow> int \<Rightarrow> (string \<times> json) list \<Rightarrow> string" where
  "set_payload_text accountId cmd payload =
     stringify (JObj [(''account_id'', JStr accountId), (''cmd'', JInt cmd), (''mChannel'', JInt 0), (''mValue3'', JInt 0), (''payload'', JObj payload)])"

definition buildCameraControlQueryValue :: "int \<Rightarrow> (string \<times> json) list \<Rightarrow> string option" where
  "buildCameraControlQueryValue commandType data =
     (if \<not> safe_int commandType \<or> commandType \<le> 0 then None
      else Some (stringify (JObj [(''commandType'', JInt commandType), (''data'', JObj data)])))"

definition buildSoloCamMotionDetectionPayload :: "sealing \<Rightarrow> bytes \<Rightarrow> bool \<Rightarrow> bytes \<Rightarrow> nat \<Rightarrow> int \<Rightarrow> bytes option" where
  "buildSoloCamMotionDetectionPayload sk nonce enabled key sequence now =
     (if \<not> epoch_millis now then None
      else level2_payload sk nonce
        (utf8 (stringify (JObj [(''commandType'', JInt 6040), (''data'', JObj [(''status'', JInt (if enabled then 1 else 0)), transaction_field now])]))) key sequence 0)"

definition buildSoloCamAudioRecordingPayload :: "sealing \<Rightarrow> bytes \<Rightarrow> bool \<Rightarrow> bytes \<Rightarrow> nat \<Rightarrow> int \<Rightarrow> bytes option" where
  "buildSoloCamAudioRecordingPayload sk nonce enabled key sequence now =
     (if \<not> epoch_millis now then None
      else level2_payload sk nonce
        (utf8 (stringify (JObj [(''commandType'', JInt 6012), (''data'', JObj [(''enable'', JInt (if enabled then 1 else 0)), transaction_field now])]))) key sequence 0)"

definition buildSoloCamStreamingQualityPayload :: "sealing \<Rightarrow> bytes \<Rightarrow> int \<Rightarrow> string \<Rightarrow> bytes \<Rightarrow> nat \<Rightarrow> int \<Rightarrow> bytes option" where
  "buildSoloCamStreamingQualityPayload sk nonce quality accountId key sequence now =
     (if quality < 0 \<or> quality > 3 \<or> accountId = [] \<or> \<not> epoch_millis now then None
      else level2_payload sk nonce
        (utf8 (set_payload_text accountId 2730
          [(''quality'', JInt quality), (''mode'', JInt 0), (''primary_view'', JInt 0), (''channel'', JInt 0), transaction_field now])) key sequence 0)"

definition buildStandaloneC31StreamingQualityPayload :: "sealing \<Rightarrow> bytes \<Rightarrow> int \<Rightarrow> string \<Rightarrow> bytes \<Rightarrow> nat \<Rightarrow> int \<Rightarrow> bytes option" where
  "buildStandaloneC31StreamingQualityPayload sk nonce quality accountId key sequence now =
     (if quality \<notin> {0, 2, 3} \<or> accountId = [] \<or> \<not> epoch_millis now then None
      else level2_payload sk nonce
        (utf8 (set_payload_text accountId 2730
          [(''quality'', JInt quality), (''mode'', JInt (-1)), (''primary_view'', JInt (-1)), transaction_field now])) key sequence 0)"

definition buildStandaloneC31NightVisionPayload :: "sealing \<Rightarrow> bytes \<Rightarrow> int \<Rightarrow> string \<Rightarrow> bytes \<Rightarrow> nat \<Rightarrow> int \<Rightarrow> bytes option" where
  "buildStandaloneC31NightVisionPayload sk nonce mode accountId key sequence now =
     (if mode \<notin> {0, 1, 2} \<or> accountId = [] \<or> \<not> epoch_millis now then None
      else level2_payload sk nonce
        (utf8 (set_payload_text accountId 1277 [(''night_sion'', JInt mode), (''channel'', JInt 0), transaction_field now])) key sequence 0)"

definition buildStandaloneC31EnabledPayload :: "sealing \<Rightarrow> bytes \<Rightarrow> int \<Rightarrow> string \<Rightarrow> bytes \<Rightarrow> nat \<Rightarrow> int \<Rightarrow> bytes option" where
  "buildStandaloneC31EnabledPayload sk nonce rawValue accountId key sequence now =
     (if rawValue \<notin> {0, 1} \<or> accountId = [] \<or> \<not> epoch_millis now then None
      else level2_payload sk nonce (utf8 (set_payload_text accountId 6250 [(''switch'', JInt rawValue), transaction_field now])) key sequence 0)"

definition buildStandaloneC31SirenStartPayload :: "sealing \<Rightarrow> bytes \<Rightarrow> string \<Rightarrow> bytes \<Rightarrow> nat \<Rightarrow> int \<Rightarrow> bytes option" where
  "buildStandaloneC31SirenStartPayload sk nonce accountId key sequence now =
     (if accountId = [] \<or> \<not> epoch_millis now then None
      else level2_payload sk nonce
        (utf8 (set_payload_text accountId 1201
          [(''channel'', JInt 0), (''type'', JInt 10), (''time_out'', JInt 30), (''user_name'', JStr []), transaction_field now])) key sequence 0)"

definition buildStandaloneC31SirenStopPayload :: "sealing \<Rightarrow> bytes \<Rightarrow> nat \<Rightarrow> bytes \<Rightarrow> nat \<Rightarrow> bytes option" where
  "buildStandaloneC31SirenStopPayload sk nonce command key sequence =
     (if command \<notin> {1201, 1202} then None
      else level2_payload sk nonce (le_bytes 4 (if command = 1201 then 10 else 255) @ [0, 0, 0, 0]) key sequence 255)"

text \<open>\<open>body.write(text, 8, "ascii")\<close> keeps the low byte of each character.\<close>

definition buildCameraEnableBody :: "int \<Rightarrow> int \<Rightarrow> string \<Rightarrow> bytes option" where
  "buildCameraEnableBody channel val accountId =
     (if accountId = [] \<or> channel < 0 \<or> channel > 4294967295 \<or> val < 0 \<or> val > 4294967295 then None
      else Some (le_bytes 4 (nat channel) @ le_bytes 4 (nat val) @ pad_to 128 (map (\<lambda>c. word_of_nat (of_char c)) (take 128 accountId))))"

definition buildIntStringCommandBody :: "sealing \<Rightarrow> int \<Rightarrow> int \<Rightarrow> string \<Rightarrow> bytes \<Rightarrow> bytes option" where
  "buildIntStringCommandBody sk val valueSub accountId key =
     rawPayload (encryptLevel1 sk (le_bytes 4 (nat (valueSub mod 4294967296)) @ le_bytes 4 (nat (val mod 4294967296)) @ pad_to 128 (take 128 (utf8 accountId))) key)
       valueSub 1 (1, 0) 0"

definition buildAutoNightVisionCommandBody :: "sealing \<Rightarrow> int \<Rightarrow> bool \<Rightarrow> string \<Rightarrow> bytes \<Rightarrow> bytes option" where
  "buildAutoNightVisionCommandBody sk channel enabled accountId key =
     (if accountId = [] \<or> channel < 0 \<or> channel > 255 \<or> length key \<noteq> 16 then None
      else buildIntStringCommandBody sk (if enabled then 1 else 0) channel accountId key)"

definition buildStandaloneCameraLightBody :: "sealing \<Rightarrow> int \<Rightarrow> bool \<Rightarrow> string \<Rightarrow> bytes \<Rightarrow> bytes option" where
  "buildStandaloneCameraLightBody sk channel enabled accountId key =
     (if accountId = [] \<or> channel < 0 \<or> channel > 255 \<or> length key \<noteq> 16 then None
      else buildIntStringCommandBody sk (if enabled then 1 else 0) channel accountId key)"

definition buildStandaloneGuardModeValue :: "string \<Rightarrow> string \<Rightarrow> int \<Rightarrow> string option" where
  "buildStandaloneGuardModeValue accountId userName mode =
     (if accountId = [] \<or> userName = [] \<or> mode \<notin> {0, 1, 63} then None
      else Some (set_payload_text accountId 1224 [(''mode_type'', JInt mode), (''user_name'', JStr userName)]))"

definition buildNightVisionBody :: "int \<Rightarrow> int \<Rightarrow> string \<Rightarrow> bytes option" where
  "buildNightVisionBody channel mode accountId =
     (if accountId = [] \<or> channel < 0 \<or> channel > 255 \<or> mode < 0 \<or> mode > 3 then None
      else Some (utf8 (set_payload_text accountId 1277 [(''channel'', JInt channel), (''night_sion'', JInt mode)])))"

definition buildStandaloneJsonControlPayload :: "sealing \<Rightarrow> string \<Rightarrow> int \<Rightarrow> bytes \<Rightarrow> nat \<Rightarrow> bytes option" where
  "buildStandaloneJsonControlPayload sk val channel key frameType = rawPayload (encryptLevel1 sk (utf8 val) key) channel 1 (1, 0) frameType"

definition buildManualFloodlightControlValue :: "bool \<Rightarrow> string" where
  "buildManualFloodlightControlValue enabled =
     (let n = (if enabled then 1 else 0) in
      stringify (JObj [(''commandType'', JInt 1400), (''data'', JObj [(''value'', JInt n), (''open'', JInt n), (''type'', JInt 2)])]))"

definition buildTimedCameraLightControlValue :: "bool \<Rightarrow> string" where
  "buildTimedCameraLightControlValue enabled =
     stringify (JObj [(''commandType'', JInt 1400), (''data'', JObj [(''time'', JInt 0), (''type'', JInt 2), (''value'', JInt (if enabled then 1 else 0))])])"

definition buildSoloCamPanControlData :: "int \<Rightarrow> int option \<Rightarrow> int \<Rightarrow> (string \<times> json) list option" where
  "buildSoloCamPanControlData command val transaction =
     (if \<not> epoch_millis transaction then None
      else if command = 6034 then (if val \<noteq> None then None else Some [transaction_field transaction])
      else if command \<noteq> 6035 \<and> command \<noteq> 6016 then None
      else
        (case val of
           None \<Rightarrow> None
         | Some v \<Rightarrow> if v < 0 \<or> v > (if command = 6016 then 1 else 9) then None else Some [(''value'', JInt v), transaction_field transaction]))"

definition buildSoloCamPanControlPayload :: "sealing \<Rightarrow> bytes \<Rightarrow> int \<Rightarrow> int option \<Rightarrow> bytes \<Rightarrow> nat \<Rightarrow> int \<Rightarrow> bytes option" where
  "buildSoloCamPanControlPayload sk nonce command val key sequence transaction =
     (case buildSoloCamPanControlData command val transaction of
        None \<Rightarrow> None
      | Some data \<Rightarrow>
          (case buildCameraControlQueryValue command data of
             None \<Rightarrow> None | Some body \<Rightarrow> level2_payload sk nonce (utf8 body) key sequence 0))"

definition buildStandaloneC31ControlPayload :: "sealing \<Rightarrow> bytes \<Rightarrow> int \<Rightarrow> bool \<Rightarrow> bytes \<Rightarrow> nat \<Rightarrow> int \<Rightarrow> bytes option" where
  "buildStandaloneC31ControlPayload sk nonce command enabled key sequence transaction =
     (if command \<notin> {6016, 6031, 1400} then None
      else
        (case buildSoloCamPanControlData 6016 (Some (if enabled then 1 else 0)) transaction of
           None \<Rightarrow> None
         | Some preference \<Rightarrow>
             (let n = JInt (if enabled then 1 else 0);
                  data = (if command = 1400 then [(''value'', n), (''open'', n), (''type'', JInt 2), transaction_field transaction] else preference) in
              (case buildCameraControlQueryValue command data of
                 None \<Rightarrow> None | Some body \<Rightarrow> level2_payload sk nonce (utf8 body) key sequence 0))))"

definition buildAiTrackingControlData :: "bool \<Rightarrow> int \<Rightarrow> (string \<times> json) list option" where
  "buildAiTrackingControlData enabled transaction =
     (if \<not> safe_int transaction \<or> transaction < 0 then None
      else Some [(''enable'', JInt 0), (''index'', JInt 0), (''status'', JInt 0), (''type'', JInt 0),
        (''value'', JInt (if enabled then 1 else 0)), (''voiceID'', JInt 0), (''zonecount'', JInt 0), transaction_field transaction])"

section \<open>Media requests\<close>

record media_route =
  mr_cameraModel :: string
  mr_cameraDeviceType :: "int option"
  mr_stationModel :: "string option"
  mr_homeBaseAttached :: bool

definition usesT8171AttachedMediaProfile :: "int \<Rightarrow> 'a media_route_scheme \<Rightarrow> bool" where
  "usesT8171AttachedMediaProfile channel route \<longleftrightarrow> channel = 1 \<and> mr_homeBaseAttached route \<and> mr_cameraModel route = ''T8171'' \<and>
     mr_cameraDeviceType route = Some 88 \<and> mr_stationModel route = Some ''T8030''"

definition usesT8210StationHeartbeatProfile :: "'a media_route_scheme \<Rightarrow> bool" where
  "usesT8210StationHeartbeatProfile route \<longleftrightarrow> mr_homeBaseAttached route \<and> mr_cameraModel route = ''T8210'' \<and>
     mr_cameraDeviceType route = Some 7 \<and> mr_stationModel route = Some ''T8030''"

definition usesT8210DirectMediaStop :: "int \<Rightarrow> 'a media_route_scheme \<Rightarrow> bool" where
  "usesT8210DirectMediaStop channel route \<longleftrightarrow> channel = 4 \<and> usesT8210StationHeartbeatProfile route"

text \<open>The transaction of a T8171 stop is the current time.\<close>

definition attached_media_payload :: "nat \<Rightarrow> bool \<Rightarrow> int \<Rightarrow> string \<Rightarrow> string \<Rightarrow> int \<Rightarrow> (string \<times> json) list" where
  "attached_media_payload command nativeT8171 channel accountId publicKey now =
     (if command = 1003 then
        (if nativeT8171 then
           [(''streamtype'', JInt 0), (''camera_type'', JInt 0), (''entrytype'', JInt 0), (''accountId'', JStr accountId),
            (''chn_list'', JArr [JObj [(''cameraType'', JInt 0), (''chn'', JInt channel), (''index'', JInt 0), (''sensor'', JInt 0)]]),
            (''view_mode'', JInt (-1)), (''extValue'', JInt 1000), (''ClientOS'', JStr ''ANDROID''), (''station_video_type'', JInt 0),
            (''audio_chn'', JInt channel), (''pip_cord'', JStr []), (''stitch_mode'', JInt 1), (''key'', JStr publicKey)]
         else
           [(''ClientOS'', JStr ''Android''), (''accountId'', JStr accountId), (''camera_type'', JInt 0), (''entrytype'', JInt 0),
            (''key'', JStr publicKey), (''streamtype'', JInt 2)])
      else if nativeT8171 then [(''channel'', JInt channel), (''transaction'', JStr (int_str now))] else [])"

definition buildAttachedMediaControlValue :: "nat \<Rightarrow> int \<Rightarrow> string \<Rightarrow> string \<Rightarrow> 'a media_route_scheme \<Rightarrow> int \<Rightarrow> bytes option" where
  "buildAttachedMediaControlValue command channel accountId publicKey route now =
     (if command = 1003 \<and> publicKey = [] then None
      else
        (let nativeT8171 = usesT8171AttachedMediaProfile channel route in
         Some (utf8 (stringify (JObj
           [(''account_id'', JStr accountId), (''cmd'', JInt (int command)), (''mChannel'', JInt channel),
            (''mValue3'', JInt (if nativeT8171 \<and> command = 1004 then 0 else int command)),
            (''payload'', JObj (attached_media_payload command nativeT8171 channel accountId publicKey now))])))))"

definition buildLegacyAttachedMediaStopPayload :: "sealing \<Rightarrow> int \<Rightarrow> bytes \<Rightarrow> bytes option" where
  "buildLegacyAttachedMediaStopPayload sk channel key =
     (if channel < 0 \<or> channel > 4294967295 then None
      else rawPayload (encryptLevel1 sk (le_bytes 4 (nat channel)) key) channel 1 (1, 0) 0)"

definition buildStandaloneLiveStartValue :: "string \<Rightarrow> int \<Rightarrow> string \<Rightarrow> string \<Rightarrow> int \<Rightarrow> string" where
  "buildStandaloneLiveStartValue model channel accountId publicKey timestamp =
     stringify (JObj [(''commandType'', JInt 1000), (''data'', JObj (
       [(''cmd'', JInt 1000), (''account_id'', JStr accountId), (''accountId'', JStr accountId), (''mValueStrSub'', JStr accountId),
        (''mChannel'', JInt channel), (''mValue3'', JInt 0), (''mValue5'', JInt 0), (''msg_id'', JInt 1), (''camera_type'', JInt 0), (''entrytype'', JInt 0)] @
       (if model = ''T8423'' then [] else [(''extValue'', JInt 1000)]) @
       [(''ivalue'', JInt 1), (''restore'', JInt 0), (''streamtype'', JInt 2), (''video_type'', JInt 12),
        (''timestamp'', JInt timestamp), (''transaction'', JStr (int_str timestamp)), (''encryptkey'', JStr publicKey)]))])"

definition buildT8200LiveStartValue :: "string \<Rightarrow> string \<Rightarrow> int \<Rightarrow> string option" where
  "buildT8200LiveStartValue accountId publicKey timestamp =
     (if accountId = [] \<or> publicKey = [] \<or> \<not> safe_int timestamp \<or> timestamp < 0 then None
      else Some (stringify (JObj [(''commandType'', JInt 1000), (''data'', JObj
        [(''accountId'', JStr accountId), (''camera_type'', JInt 0), (''encryptkey'', JStr publicKey), (''entrytype'', JInt 0),
         (''msg_id'', JInt 3), (''streamtype'', JInt 1), (''timestamp'', JInt timestamp)])])))"

definition buildT8200LiveStartPayload :: "string \<Rightarrow> bytes option" where
  "buildT8200LiveStartPayload val = rawPayload (utf8 val) 0 0 (1, 0) 13"

definition buildStandaloneLiveStartPayload :: "sealing \<Rightarrow> string \<Rightarrow> int \<Rightarrow> bytes \<Rightarrow> bytes option" where
  "buildStandaloneLiveStartPayload sk val channel key = buildStandaloneJsonControlPayload sk val channel key 11"

definition buildStandaloneLevel2LiveStartPayload :: "sealing \<Rightarrow> bytes \<Rightarrow> string \<Rightarrow> int \<Rightarrow> bytes \<Rightarrow> nat \<Rightarrow> bytes option" where
  "buildStandaloneLevel2LiveStartPayload sk nonce val channel key sequence = rawPayload (encryptLevel2 sk nonce (utf8 val) key sequence) channel 8 (8, 0) 10"

section \<open>Replies\<close>

definition decodeModelControlTrialResult :: "crypto \<Rightarrow> bytes \<Rightarrow> nat \<Rightarrow> bytes \<Rightarrow> bytes option \<Rightarrow> int option" where
  "decodeModelControlTrialResult cr payload signCode key level2Key =
     (let clear =
        (if signCode = 0 \<and> length payload = 4 then Some payload
         else if signCode = 8 \<or> signCode = 2 then (case level2Key of None \<Rightarrow> None | Some k \<Rightarrow> decryptLevel2 cr payload k signCode)
         else if signCode = 1 \<and> payload \<noteq> [] \<and> length payload mod 16 = 0 then cr_ecb cr key payload
         else None) in
      (case clear of None \<Rightarrow> None | Some c \<Rightarrow> if length c \<ge> 4 then Some (i32le c 0) else None))"

definition decodeModelControlTrialAcknowledgement ::
  "crypto \<Rightarrow> bytes \<Rightarrow> bytes \<Rightarrow> nat \<Rightarrow> int \<Rightarrow> bytes \<Rightarrow> bytes option \<Rightarrow> int option" where
  "decodeModelControlTrialAcknowledgement cr header payload command channel key level2Key =
     (if map_option uint (ppcsFrameChannel header) \<noteq> Some channel \<or> header ! 14 \<noteq> 1 \<or> u16le header 4 \<noteq> command then None
      else decodeModelControlTrialResult cr payload (unat (header ! 13)) key level2Key)"

text \<open>The text between the paddings: trailing zeros, then PKCS7 when all of its bytes agree.\<close>

definition control_record_end :: "bytes \<Rightarrow> bytes" where
  "control_record_end val =
     (let body = rev (dropWhile (\<lambda>b. b = 0) (rev val));
          padding = (if body = [] then 0 else unat (last body)) in
      if 0 < padding \<and> padding \<le> 16 \<and> padding \<le> length body \<and> list_all (\<lambda>b. unat b = padding) (drop (length body - padding) body)
      then take (length body - padding) body else body)"

definition json_record :: "text_codec \<Rightarrow> string \<Rightarrow> (string \<times> json) list option" where
  "json_record tc text = (case tc_json tc text of Some (JObj fs) \<Rightarrow> Some fs | _ \<Rightarrow> None)"

definition parsePpcsControlRecord :: "text_codec \<Rightarrow> bytes \<Rightarrow> (string \<times> json) list option" where
  "parsePpcsControlRecord tc val =
     (let text = trim (tc_utf8 tc (control_record_end val)) in
      if \<not> starts_with ''{'' text then None else json_record tc text)"

definition decodePpcsControlRecord :: "crypto \<Rightarrow> text_codec \<Rightarrow> bytes \<Rightarrow> nat \<Rightarrow> bytes \<Rightarrow> bytes option \<Rightarrow> (string \<times> json) list option" where
  "decodePpcsControlRecord cr tc payload signCode level1Key level2Key =
     (let clear =
        (if signCode = 0 then Some payload
         else if signCode = 2 \<or> signCode = 8 then (case level2Key of None \<Rightarrow> None | Some k \<Rightarrow> decryptLevel2 cr payload k signCode)
         else if signCode = 1 \<and> payload \<noteq> [] \<and> length payload mod 16 = 0 then cr_ecb cr level1Key payload
         else None) in
      (case clear of None \<Rightarrow> None | Some c \<Rightarrow> parsePpcsControlRecord tc c))"

definition jsonRecord :: "text_codec \<Rightarrow> json option \<Rightarrow> (string \<times> json) list option" where
  "jsonRecord tc v =
     (case v of
        Some (JObj fs) \<Rightarrow> Some fs
      | Some (JStr s) \<Rightarrow> if starts_with ''{'' (dropWhile js_space s) then json_record tc s else None
      | _ \<Rightarrow> None)"

definition cameraInfoDocumentText :: "text_codec \<Rightarrow> bytes \<Rightarrow> string" where
  "cameraInfoDocumentText tc clear = trim (tc_utf8 tc (takeWhile (\<lambda>b. b \<noteq> 0) clear))"

text \<open>One parameter row: an integer identifier and a scalar.\<close>

definition camera_info_row :: "json \<Rightarrow> (int \<times> json) option" where
  "camera_info_row candidate =
     (case (js_field (Some candidate) ''param_type'', js_field (Some candidate) ''param_value'') of
        (Some (JNum t), Some v) \<Rightarrow>
          (if safe_real t \<and> (case v of JStr _ \<Rightarrow> True | JNum _ \<Rightarrow> True | JBool _ \<Rightarrow> True | _ \<Rightarrow> False) then Some (\<lfloor>t\<rfloor>, v) else None)
      | _ \<Rightarrow> None)"

record preset_position =
  pp_index :: int
  pp_enabled :: bool
  pp_isDefault :: bool

definition integerValue :: "json option \<Rightarrow> int option" where
  "integerValue v =
     (case v of Some (JNum x) \<Rightarrow> js_safe (Some x) | Some (JStr s) \<Rightarrow> js_safe (js_string_number s) | _ \<Rightarrow> None)"

definition booleanFlag :: "json option \<Rightarrow> bool" where
  "booleanFlag v \<longleftrightarrow> v = Some (JBool True) \<or> v = Some (JNum 1) \<or> v = Some (JStr ''1'')"

definition preset_of :: "json \<Rightarrow> preset_position option" where
  "preset_of point =
     (if \<not> isRecord (Some point) then None
      else
        (let f = js_field (Some point) in
         (case integerValue (js_or (js_or (f ''index'') (f ''id'')) (f ''value'')) of
            None \<Rightarrow> None
          | Some index \<Rightarrow>
              if index < 0 \<or> index > 255 then None
              else Some \<lparr> pp_index = index, pp_enabled = booleanFlag (js_or (f ''enable'') (f ''enabled'')),
                          pp_isDefault = booleanFlag (js_or (f ''isdefault'') (f ''isDefault'')) \<rparr>)))"

definition parseCameraPresetPositions :: "json option \<Rightarrow> preset_position list" where
  "parseCameraPresetPositions payload = List.map_filter preset_of (js_items (js_field payload ''points''))"

section \<open>A command reads back\<close>

definition seals :: "crypto \<Rightarrow> sealing \<Rightarrow> bool" where
  "seals cr sk \<longleftrightarrow> (\<forall>key nonce clear. length key = 32 \<longrightarrow> length nonce = 12 \<longrightarrow>
     (case sk_gcm sk key nonce eufy_aad clear of (tag, c) \<Rightarrow> length tag = 16 \<and> cr_gcm cr key nonce eufy_aad tag c = Some clear))"

lemma level2_reads_back:
  assumes "seals cr sk" "length key = 32" "length nonce = 12"
  shows "decryptLevel2 cr (encryptLevel2 sk nonce clear key n) key 8 = Some clear"
proof -
  obtain tag c where s: "sk_gcm sk key nonce eufy_aad clear = (tag, c)" by (cases "sk_gcm sk key nonce eufy_aad clear")
  then have "length tag = 16" "cr_gcm cr key nonce eufy_aad tag c = Some clear"
    using assms(1) [unfolded seals_def, rule_format, OF assms(2, 3), of clear] by simp_all
  then show ?thesis using s assms(3) by (simp add: decryptLevel2_def encryptLevel2_def slice_def)
qed

lemma command_frame:
  assumes "rawPayload data ch sign magic stream = Some p" "command < 65536"
  shows "\<exists>header. MAGIC @ le_bytes 2 command @ p = header @ data \<and> frame_ok (header, data) \<and> u16le header 4 = command \<and>
    ppcsFrameChannel header = Some (word_of_int ch) \<and> header ! 13 = word_of_nat sign \<and> header ! 14 = word_of_nat stream"
proof -
  define header where "header = MAGIC @ le_bytes 2 command @ le_bytes 2 (length data) @
    [0, 0, word_of_nat (fst magic), word_of_nat (snd magic), word_of_int ch, word_of_nat sign, word_of_nat stream, 0]"
  have p: "length data \<le> 65535" "MAGIC @ le_bytes 2 command @ p = header @ data"
    using assms(1) by (auto simp: rawPayload_def header_def split: if_splits)
  have l: "length header = 16" "take 4 header = MAGIC" by (simp_all add: header_def)
  have c: "slice 4 6 header = le_bytes 2 command" "slice 6 8 header = le_bytes 2 (length data)" "slice 6 10 header = le_bytes 2 (length data) @ [0, 0]"
    by (simp_all add: header_def slice_def)
  have z: "le_nat (bs @ [0, 0]) = le_nat bs" for bs by (induction bs) simp_all
  have "u32le header 6 = length data" using p(1) c(3) z [of "le_bytes 2 (length data)"] by (simp only: u32le_def) (simp add: le_nat_le_bytes del: le_bytes_numeral)
  moreover have "u16le header 4 = command" using assms(2) c(1) by (simp only: u16le_def) (simp add: le_nat_le_bytes del: le_bytes_numeral)
  moreover have "header ! 12 = word_of_int ch" "header ! 13 = word_of_nat sign" "header ! 14 = word_of_nat stream"
    by (simp_all add: header_def MAGIC_def nth_append)
  ultimately show ?thesis using l p by (intro exI [of _ header]) (auto simp: frame_ok_def ppcsFrameChannel_def MAX_COMMAND_BYTES_def)
qed

text \<open>C17: A protected command a session sends reads back at its peer: the datagram announces its own length and carries the
  sequence number it was given; the command parser finds exactly one frame in it, with the command, the channel and the
  protection level as given; and authenticated decryption of its body returns the clear request.\<close>

theorem commands_read_back:
  assumes "seals cr sk" "length key = 32" "length nonce = 12" "command < 65536"
    and "rawPayload (encryptLevel2 sk nonce clear key n) ch 8 magic stream = Some p"
    and "commandHeader seq command = Some h" "datagram REQ_data (h @ p) = Some w"
  shows "has w RESP_data \<and> u16be w 2 + 4 = length w \<and> slice 4 6 w = DATA_data \<and> u16be w 6 = seq \<and>
    (\<exists>header body. frames_loop (drop 8 w) = ([(header, body)], Leftover []) \<and> u16le header 4 = command \<and>
       ppcsFrameChannel header = Some (word_of_int ch) \<and> header ! 13 = 8 \<and> decryptLevel2 cr body key 8 = Some clear)"
proof -
  let ?data = "encryptLevel2 sk nonce clear key n"
  obtain header where f: "MAGIC @ le_bytes 2 command @ p = header @ ?data" "frame_ok (header, ?data)" "u16le header 4 = command"
      "ppcsFrameChannel header = Some (word_of_int ch)" "header ! 13 = 8"
    using command_frame [OF assms(5, 4)] by auto
  have h: "seq \<le> 65535" "h = DATA_data @ be_bytes 2 seq @ MAGIC @ le_bytes 2 command"
    using assms(6) by (auto simp: commandHeader_def u16_def split: if_splits)
  have w: "length (h @ p) \<le> 65535" "w = REQ_data @ be_bytes 2 (length (h @ p)) @ h @ p"
    using assms(7) by (auto simp: datagram_def u16_def split: if_splits)
  have d: "drop 8 w = frames_wire [(header, ?data)]" using f(1) by (simp add: w(2) h(2) opcodes)
  have "frames_loop (drop 8 w) = ([(header, ?data)], Leftover [])" unfolding d by (rule frames_loop_wire) (simp add: f(2))
  moreover have "slice 2 4 w = be_bytes 2 (length (h @ p))" "slice 6 8 w = be_bytes 2 seq" "slice 4 6 w = DATA_data"
    by (simp_all add: w(2) h(2) opcodes slice_def del: length_append)
  moreover have "u16be w 2 = length (h @ p)" "u16be w 6 = seq"
    using calculation(2, 3) w(1) h(1) by (simp_all add: u16be_def be_nat_be_bytes del: length_append)
  moreover have "length w = length (h @ p) + 4" "has w RESP_data" by (simp_all add: w(2) has_def opcodes)
  ultimately show ?thesis using f level2_reads_back [OF assms(1-3)] by auto
qed

text \<open>A cipher that keeps the text clear, with a tag of the key and the nonce.\<close>

definition clear_sealing :: sealing where
  "clear_sealing = \<lparr> sk_ecb = (\<lambda>key p. p), sk_gcm = (\<lambda>key nonce aad p. (take 16 (key @ nonce), p)) \<rparr>"

definition clear_crypto :: crypto where
  "clear_crypto = toy_crypto\<lparr>cr_gcm := (\<lambda>key nonce aad tag c. if tag = take 16 (key @ nonce) then Some c else None)\<rparr>"

lemma clear_seals: "seals clear_crypto clear_sealing"
  by (simp add: seals_def clear_sealing_def clear_crypto_def)

lemma commands_read_back_witness:
  "\<exists>header body. frames_loop (drop 8 (the (datagram REQ_data (the (commandHeader 7 1350) @
      the (rawPayload (encryptLevel2 clear_sealing (replicate 12 1) [1, 2, 3] (replicate 32 9) 5) 2 8 (8, 0) 10))))) = ([(header, body)], Leftover []) \<and>
    u16le header 4 = 1350 \<and> ppcsFrameChannel header = Some 2 \<and> header ! 13 = 8 \<and> decryptLevel2 clear_crypto body (replicate 32 9) 8 = Some [1, 2, 3]"
proof -
  let ?d = "encryptLevel2 clear_sealing (replicate 12 1) [1, 2, 3] (replicate 32 9) 5"
  have d: "length ?d = 35" by (simp add: encryptLevel2_def clear_sealing_def)
  obtain p where p: "rawPayload ?d 2 8 (8, 0) 10 = Some p" "length p = 45" using d by (simp add: rawPayload_def)
  obtain h where h: "commandHeader 7 1350 = Some h" "length h = 10" by (simp add: commandHeader_def u16_def opcodes MAGIC_def)
  obtain w where w: "datagram REQ_data (h @ p) = Some w" using p(2) h(2) by (simp add: datagram_def u16_def)
  show ?thesis using commands_read_back [OF clear_seals _ _ _ p(1) h(1) w] p(1) h(1) w by simp
qed

end
