(* ===== verification/Ppcs_Session.thy ===== *)
theory Ppcs_Session
  imports Ppcs_Wire Ppcs_Reorder Media_Start Access_Units Ppcs_Normalizer Ppcs_Audio Startup_Watch
begin

text \<open>
  \<open>FirstPartyPpcsSession\<close> of \<open>stream/first-party-ppcs.ts\<close>: the local session with one camera or HomeBase, composed of the
  reorder buffer, the command parser, the access-unit assembler, the decoder, the normalizer and the two start
  trackers. Modelled are the media and the control purpose without an owned reader (saved recordings, event names
  and pictures, lock status, C31 index and speaker, alarm read) and without sensor callbacks. Sockets are numbers, and a datagram event
  names one from which the pool forwards (the primary, or a bound probe); datagrams, timer expiries, the key lookup's settlement and the caller's requests are events that carry the clock reading; the
  microtasks a datagram starts run before the next event. \<open>SsThrow\<close> ends the operation that raised it.
  Statistics that nothing but a log reads are left out.
\<close>

section \<open>Policies\<close>

definition ATTACHED_MEDIA_STALL_MILLISECONDS :: int where "ATTACHED_MEDIA_STALL_MILLISECONDS = 10000"

definition needsAttachedMediaReassert :: "int option \<Rightarrow> int \<Rightarrow> bool" where
  "needsAttachedMediaReassert lastDeliveredFrameAt now =
     (case lastDeliveredFrameAt of None \<Rightarrow> True | Some t \<Rightarrow> now - t \<ge> ATTACHED_MEDIA_STALL_MILLISECONDS)"

datatype stall_action = StallReassert | StallWait | StallClose

definition attachedMediaStallRecoveryAction :: "int option \<Rightarrow> int option \<Rightarrow> int \<Rightarrow> stall_action option" where
  "attachedMediaStallRecoveryAction lastDeliveredFrameAt lastReassertAt now =
     (if \<not> needsAttachedMediaReassert lastDeliveredFrameAt now then None
      else
        (case (lastDeliveredFrameAt, lastReassertAt) of
           (Some d, Some r) \<Rightarrow>
             if d \<ge> r then Some StallReassert
             else if now - r \<ge> ATTACHED_MEDIA_STALL_MILLISECONDS then Some StallClose else Some StallWait
         | _ \<Rightarrow> Some StallReassert))"

definition needsStandaloneMediaReassert :: "bool \<Rightarrow> int option \<Rightarrow> int \<Rightarrow> bool" where
  "needsStandaloneMediaReassert homeBaseAttached lastDeliveredFrameAt now \<longleftrightarrow>
     \<not> homeBaseAttached \<and> needsAttachedMediaReassert lastDeliveredFrameAt now"

datatype purpose = PurposeMedia | PurposeControl

text \<open>The caller's options, and the surroundings: ciphers, the nonce of the n-th envelope, text decoding, local ports,
  and how many listeners the audio output has when the n-th audio frame arrives.\<close>

record session_env = media_route +
  so_purpose :: purpose
  so_channel :: int
  so_accountId :: string
  so_commandKey :: bytes
  so_resolves :: bool
  so_trial :: bool
  so_did :: bytes
  so_dskKey :: string
  so_cloudHosts :: "string list"
  so_localAddress :: "string option"
  so_publicKey :: string
  so_crypto :: crypto
  so_sealing :: sealing
  so_nonce :: "nat \<Rightarrow> bytes"
  so_codec :: text_codec
  so_port :: "nat \<Rightarrow> nat"
  so_audioListeners :: "nat \<Rightarrow> nat"

definition acceptsAttachedCameraMedia :: "nat \<Rightarrow> int \<Rightarrow> int \<Rightarrow> bool" where
  "acceptsAttachedCameraMedia command frameChannel requestedChannel \<longleftrightarrow> command \<noteq> 1300 \<or> frameChannel = requestedChannel"

definition acceptsSoloCamAudio :: "string \<Rightarrow> bool \<Rightarrow> int \<Rightarrow> int \<Rightarrow> purpose \<Rightarrow> bool" where
  "acceptsSoloCamAudio cameraModel homeBaseAttached requestedChannel frameChannel p \<longleftrightarrow>
     (cameraModel = ''T8171'' \<or> cameraModel \<in> {''T817L'', ''T8354''} \<and> \<not> homeBaseAttached) \<and>
     safe_int requestedChannel \<and> requestedChannel \<ge> 0 \<and> frameChannel = requestedChannel \<and>
     (homeBaseAttached \<or> requestedChannel = 0) \<and> p \<noteq> PurposeControl"

definition ppcsVideoCodec :: "nat \<Rightarrow> video_codec option" where
  "ppcsVideoCodec streamType = (if streamType = 1 then Some H264 else if streamType = 2 then Some H265 else None)"

section \<open>The session\<close>

datatype session_close_reason = ClientStop | FirstFrameTimeout | MediaStall | MaxDuration | Replaced | StartFailed
datatype start_failure = LookupTimeout | LookupCancelled | SocketFailed | StartThrew
datatype level2_failure = GatewayDecrypt | CipherLookupError | CipherMissingKey | CipherUnwrapFailed | KeyRetired | AccountMissing
datatype video_result = VrIncomplete | VrShort | VrRejected bool "decode_failure option" | VrBuffered | VrWritten protection framing

text \<open>The key negotiation in progress: waiting for the key of the decrypted details, or settled in this very turn.\<close>

datatype gateway_wait = GwSettled | GwLookup bytes

record pending_control =
  ctl_id :: nat
  ctl_command :: nat
  ctl_strict :: "int option"
  ctl_authenticated :: bool

record lookup_pool =
  lp_sockets :: "nat list"
  lp_bound :: "nat list"
  lp_closed :: bool

record ppcs_session =
  ss_closed :: bool
  ss_closeReason :: "session_close_reason option"
  ss_starting :: bool
  ss_remote :: "endpoint option"
  ss_socket :: nat
  ss_pool :: "lookup_pool option"
  ss_selfAddress :: "(byte \<times> byte \<times> byte \<times> byte) option"
  ss_lookupTimer :: bool
  ss_maximumDurationTimer :: bool
  ss_firstFrameTimer :: bool
  ss_heartbeat :: bool
  ss_restartTimer :: bool
  ss_ending :: bool
  ss_seq :: nat
  ss_level2Seq :: nat
  ss_level2Key :: "bytes option"
  ss_level2Error :: "level2_failure option"
  ss_gateway :: "gateway_wait option"
  ss_mediaStart :: media_start
  ss_gatewayRequest :: media_start
  ss_order :: reorder
  ss_demux :: demux
  ss_assembler :: assembler
  ss_decoder :: decoder
  ss_normalizer :: normalizer
  ss_clockFormat :: "(int \<times> int) option"
  ss_t8200Sent :: bool
  ss_startAttempts :: nat
  ss_stopAttempts :: nat
  ss_camId :: nat
  ss_videoFrames :: nat
  ss_outputFrames :: nat
  ss_foreignVideo :: nat
  ss_audioFrames :: nat
  ss_foreignAudio :: nat
  ss_guardMode :: "int option"
  ss_lastDelivered :: "int option"
  ss_lastReassert :: "int option"
  ss_videoResults :: "video_result list"
  ss_control :: "pending_control option"
  ss_query :: "(nat \<times> int) option"
  ss_info :: "nat option"

datatype request_failure = FailBusy | FailTimeout | FailClosed | FailResult int

datatype ss_out =
    SsSend nat endpoint bytes
  | SsVideo bytes "(nat \<times> bool) option"
  | SsAudio bytes
  | SsControlDone nat
  | SsControlFailed nat request_failure
  | SsQueryDone nat "(string \<times> json) list"
  | SsQueryFailed nat request_failure
  | SsInfoDone nat "(int \<times> json) list"
  | SsInfoFailed nat request_failure
  | SsResolveKey nat
  | SsConnected
  | SsStartFailed start_failure
  | SsEnded
  | SsCloseSockets
  | SsThrow

type_synonym ss_result = "ppcs_session \<times> ss_out list"

text \<open>Statements in sequence: an exception skips the rest.\<close>

definition and_then :: "ss_result \<Rightarrow> (ppcs_session \<Rightarrow> ss_result) \<Rightarrow> ss_result" where
  "and_then r g = (if SsThrow \<in> set (snd r) then r else seq_do r g)"

fun each_then :: "('a \<Rightarrow> ppcs_session \<Rightarrow> ss_result) \<Rightarrow> 'a list \<Rightarrow> ppcs_session \<Rightarrow> ss_result" where
  "each_then g [] s = (s, [])"
| "each_then g (x # xs) s = and_then (g x s) (each_then g xs)"

section \<open>Sending\<close>

definition ss_send :: "bytes \<Rightarrow> bytes \<Rightarrow> endpoint \<Rightarrow> nat \<Rightarrow> ppcs_session \<Rightarrow> ss_result" where
  "ss_send type payload address socket s =
     (s, case datagram type payload of None \<Rightarrow> [SsThrow] | Some w \<Rightarrow> [SsSend socket address w])"

text \<open>\<open>transmitStartup\<close>: the sender of both trackers.\<close>

definition ss_transmit :: "ppcs_session \<Rightarrow> bytes \<Rightarrow> ss_out list" where
  "ss_transmit s packet =
     (case ss_remote s of None \<Rightarrow> [] | Some r \<Rightarrow> if ss_closed s then [] else [SsSend (ss_socket s) r packet])"

definition ss_sendMediaStart :: "int \<Rightarrow> bytes \<Rightarrow> ppcs_session \<Rightarrow> ss_result" where
  "ss_sendMediaStart now payload s =
     (case datagram REQ_data payload of
        None \<Rightarrow> (s, [SsThrow])
      | Some packet \<Rightarrow>
          (case ms_start (int (u16be payload 2)) packet now (ss_mediaStart s) of
             StartThrows \<Rightarrow> (s, [SsThrow])
           | StartRefused \<Rightarrow> (s, [])
           | StartSent m \<Rightarrow> (let s = s\<lparr>ss_mediaStart := m\<rparr> in (s, ss_transmit s packet))))"

text \<open>The payload is None when building it raised.\<close>

definition ss_sendCommand :: "int \<Rightarrow> nat \<Rightarrow> bytes option \<Rightarrow> bool \<Rightarrow> ppcs_session \<Rightarrow> ss_result" where
  "ss_sendCommand now command payload mediaStart s =
     (case payload of
        None \<Rightarrow> (s, [SsThrow])
      | Some body \<Rightarrow>
          (case ss_remote s of
             None \<Rightarrow> (s, [])
           | Some r \<Rightarrow>
               (let t = s\<lparr>ss_seq := ss_seq s + 1\<rparr> in
                (case commandHeader (ss_seq s) command of
                   None \<Rightarrow> (t, [SsThrow])
                 | Some header \<Rightarrow>
                     if mediaStart then ss_sendMediaStart now (header @ body) t else ss_send REQ_data (header @ body) r (ss_socket t) t))))"

section \<open>Media starts and stops\<close>

definition level2_envelope :: "session_env \<Rightarrow> bytes \<Rightarrow> bytes \<Rightarrow> nat \<Rightarrow> bytes" where
  "level2_envelope env key clear n = encryptLevel2 (so_sealing env) (so_nonce env n) clear key n"

definition media_stream_id :: "session_env \<Rightarrow> nat \<Rightarrow> nat \<Rightarrow> nat" where
  "media_stream_id env command level2Seq =
     (if usesT8171AttachedMediaProfile (so_channel env) env then (if command = 1003 then 10 else 0)
      else if so_channel env = 0 \<or> so_channel env = 255 then 0 else 10 + level2Seq mod 128)"

definition ss_sendAttachedMediaControl :: "session_env \<Rightarrow> int \<Rightarrow> nat \<Rightarrow> ppcs_session \<Rightarrow> ss_result" where
  "ss_sendAttachedMediaControl env now command s0 =
     (case (ss_remote s0, ss_level2Key s0) of
        (Some r, Some key) \<Rightarrow>
          (let s = (if command = 1003 then s0\<lparr>ss_startAttempts := ss_startAttempts s0 + 1\<rparr> else s0\<lparr>ss_stopAttempts := ss_stopAttempts s0 + 1\<rparr>) in
           (case buildAttachedMediaControlValue command (so_channel env) (so_accountId env) (so_publicKey env) env now of
              None \<Rightarrow> (s, [SsThrow])
            | Some val \<Rightarrow>
                (let n = ss_level2Seq s; body = level2_envelope env key val n;
                     t = s\<lparr>ss_level2Seq := n + 1, ss_seq := ss_seq s + 1\<rparr> in
                 (case (commandHeader (ss_seq s) 1350, rawPayload body (so_channel env) 8 (8, 0) (media_stream_id env command (n + 1))) of
                    (Some header, Some payload) \<Rightarrow>
                      if command = 1003 then ss_sendMediaStart now (header @ payload) t else ss_send REQ_data (header @ payload) r (ss_socket t) t
                  | _ \<Rightarrow> (t, [SsThrow])))))
      | _ \<Rightarrow> (s0, []))"

definition ss_stopAttachedMedia :: "session_env \<Rightarrow> int \<Rightarrow> ppcs_session \<Rightarrow> ss_result" where
  "ss_stopAttachedMedia env now s0 =
     (let s = s0\<lparr>ss_mediaStart := ms_stop (ss_mediaStart s0)\<rparr>; t = s\<lparr>ss_stopAttempts := ss_stopAttempts s + 1\<rparr> in
      (case ss_level2Key s of
         None \<Rightarrow> (s, [])
       | Some key \<Rightarrow>
           if ss_remote s = None \<or> ss_startAttempts s = 0 then (s, [])
           else if usesT8210DirectMediaStop (so_channel env) env then
             ss_sendCommand now 1004
               (rawPayload (level2_envelope env key (le_bytes 4 (nat (so_channel env))) (ss_level2Seq t)) (so_channel env) 8 (8, 0) 0) False
               (t\<lparr>ss_level2Seq := ss_level2Seq t + 1\<rparr>)
           else if mr_stationModel env = Some ''T8010'' then
             ss_sendCommand now 1004 (buildLegacyAttachedMediaStopPayload (so_sealing env) (so_channel env) (so_commandKey env)) False t
           else ss_sendAttachedMediaControl env now 1004 s))"

definition ss_restartAttachedMedia :: "session_env \<Rightarrow> int \<Rightarrow> ppcs_session \<Rightarrow> ss_result" where
  "ss_restartAttachedMedia env now s =
     (if ss_restartTimer s \<or> ms_pending (ss_mediaStart s) then (s, [])
      else and_then (ss_stopAttachedMedia env now s) (\<lambda>s. (s\<lparr>ss_restartTimer := True\<rparr>, [])))"

definition ss_startAttachedMedia :: "session_env \<Rightarrow> int \<Rightarrow> ppcs_session \<Rightarrow> ss_result" where
  "ss_startAttachedMedia env now s =
     (if ss_remote s = None \<or> ss_level2Key s = None \<or> ms_pending (ss_mediaStart s) then (s, [])
      else if ss_startAttempts s > 0 then ss_restartAttachedMedia env now s
      else ss_sendAttachedMediaControl env now 1003 s)"

text \<open>The callback of the restart timer.\<close>

definition ss_restartDue :: "session_env \<Rightarrow> int \<Rightarrow> ppcs_session \<Rightarrow> ss_result" where
  "ss_restartDue env now s0 =
     (let s = s0\<lparr>ss_restartTimer := False\<rparr> in
      if ss_closed s \<or> ms_pending (ss_mediaStart s) then (s, [])
      else ss_sendAttachedMediaControl env now 1003 (s\<lparr>ss_lastReassert := Some now\<rparr>))"

definition ss_startOwnMedia :: "session_env \<Rightarrow> int \<Rightarrow> bool \<Rightarrow> ppcs_session \<Rightarrow> ss_result" where
  "ss_startOwnMedia env now upgrade s =
     (if ss_closed s \<or> ss_remote s = None \<or> (\<not> upgrade \<and> ms_pending (ss_mediaStart s)) then (s, [])
      else if mr_cameraModel env = ''T8200'' then
        (if ss_t8200Sent s then (s, [])
         else if so_accountId env = [] then (s\<lparr>ss_level2Error := Some AccountMissing\<rparr>, [])
         else
           (case buildT8200LiveStartValue (so_accountId env) (so_publicKey env) now of
              None \<Rightarrow> (s, [SsThrow])
            | Some val \<Rightarrow>
                ss_sendCommand now 1700 (buildT8200LiveStartPayload val) True
                  (s\<lparr>ss_t8200Sent := True, ss_startAttempts := ss_startAttempts s + 1\<rparr>)))
      else
        (let t = s\<lparr>ss_startAttempts := ss_startAttempts s + 1\<rparr>;
             val = buildStandaloneLiveStartValue (mr_cameraModel env) (so_channel env) (so_accountId env) (so_publicKey env) now in
         (case ss_level2Key t of
            Some key \<Rightarrow>
              ss_sendCommand now 1700
                (buildStandaloneLevel2LiveStartPayload (so_sealing env) (so_nonce env (ss_level2Seq t)) val (so_channel env) key (ss_level2Seq t)) True
                (t\<lparr>ss_level2Seq := ss_level2Seq t + 1\<rparr>)
          | None \<Rightarrow>
              ss_sendCommand now 1700 (buildStandaloneLiveStartPayload (so_sealing env) val (so_channel env) (so_commandKey env)) True t)))"

section \<open>Lookup\<close>

definition ss_checkCandidate :: "session_env \<Rightarrow> endpoint \<Rightarrow> nat \<Rightarrow> ppcs_session \<Rightarrow> ss_result" where
  "ss_checkCandidate env address socket =
     each_then (\<lambda>port. ss_send REQ_check (so_did env @ [0, 0, 0]) (fst address, port) socket) (ppcsCandidatePorts (snd address))"

definition ss_lookup_from :: "session_env \<Rightarrow> nat \<Rightarrow> ppcs_session \<Rightarrow> ss_result" where
  "ss_lookup_from env socket s =
     (case buildPpcsCloudLookup (so_did env) (so_dskKey env) (map_option (\<lambda>host. (host, so_port env socket)) (ss_selfAddress s)) of
        (type, payload) \<Rightarrow> each_then (\<lambda>host. ss_send type payload (host, 32100) socket) (so_cloudHosts env) s)"

definition ss_lookup :: "session_env \<Rightarrow> ppcs_session \<Rightarrow> ss_result" where
  "ss_lookup env s =
     (if ss_remote s \<noteq> None then (s, [])
      else and_then
        (each_then (\<lambda>address. ss_send REQ_localLookup [0, 0] address (ss_socket s)) (ppcsLocalLookupTargets (so_localAddress env)) s)
        (each_then (ss_lookup_from env) (case ss_pool s of None \<Rightarrow> [ss_socket s] | Some p \<Rightarrow> lp_bound p)))"

text \<open>\<open>PpcsLookupSocketPool\<close>: \<open>adopt\<close>, a probe that is bound or has failed, and \<open>close\<close>.\<close>

definition lp_adopt :: "nat \<Rightarrow> lookup_pool \<Rightarrow> lookup_pool option" where
  "lp_adopt winner p =
     (if lp_closed p \<or> winner \<notin> set (lp_bound p) then None else Some (p\<lparr>lp_sockets := [winner], lp_bound := [winner]\<rparr>))"

definition lp_close :: "lookup_pool \<Rightarrow> lookup_pool" where
  "lp_close p = p\<lparr>lp_closed := True, lp_sockets := [], lp_bound := []\<rparr>"

section \<open>Close\<close>

definition ss_recordVideoResult :: "video_result \<Rightarrow> ppcs_session \<Rightarrow> ppcs_session" where
  "ss_recordVideoResult result s =
     (if result \<in> set (ss_videoResults s) \<or> length (ss_videoResults s) \<ge> 8 then s
      else s\<lparr>ss_videoResults := ss_videoResults s @ [result]\<rparr>)"

definition ss_rejections :: "request_failure \<Rightarrow> ppcs_session \<Rightarrow> ss_out list" where
  "ss_rejections failure s =
     (case ss_control s of None \<Rightarrow> [] | Some c \<Rightarrow> [SsControlFailed (ctl_id c) failure]) @
     (case ss_query s of None \<Rightarrow> [] | Some q \<Rightarrow> [SsQueryFailed (fst q) failure]) @
     (case ss_info s of None \<Rightarrow> [] | Some i \<Rightarrow> [SsInfoFailed i failure])"

text \<open>What the first half of \<open>close\<close> retires, up to the farewell.\<close>

definition ss_retire :: "session_close_reason \<Rightarrow> ppcs_session \<Rightarrow> ss_result" where
  "ss_retire reason s =
     (let dropped = (as_open (ss_assembler s) \<noteq> None);
          t = s\<lparr>ss_mediaStart := ms_close (ss_mediaStart s), ss_gatewayRequest := ms_close (ss_gatewayRequest s), ss_closed := True,
                ss_starting := False, ss_closeReason := Some reason, ss_maximumDurationTimer := False, ss_firstFrameTimer := False,
                ss_heartbeat := False, ss_restartTimer := False, ss_lookupTimer := False, ss_control := None, ss_query := None,
                ss_info := None, ss_assembler := fst (as_discard (ss_assembler s)), ss_order := rb_close (ss_order s),
                ss_demux := dm_updatePendingBytes ((ss_demux s)\<lparr>dm_pending := []\<rparr>)\<rparr> in
      (if dropped then ss_recordVideoResult VrIncomplete t else t,
       (if ss_starting s then [SsStartFailed LookupCancelled] else []) @ ss_rejections FailClosed s))"

definition ss_closePool :: "ppcs_session \<Rightarrow> ppcs_session" where
  "ss_closePool s = s\<lparr>ss_pool := map_option lp_close (ss_pool s)\<rparr>"

text \<open>The END datagram keeps the sockets open until its send completed, or 500 ms.\<close>

definition ss_farewell :: "ppcs_session \<Rightarrow> ss_result" where
  "ss_farewell s =
     (case ss_remote s of
        None \<Rightarrow> (ss_closePool s, [SsCloseSockets, SsEnded])
      | Some r \<Rightarrow> (s\<lparr>ss_ending := True\<rparr>, [SsSend (ss_socket s) r (REQ_end @ [0, 0]), SsEnded]))"

definition ss_close :: "session_env \<Rightarrow> int \<Rightarrow> session_close_reason \<Rightarrow> ppcs_session \<Rightarrow> ss_result" where
  "ss_close env now reason s =
     (if ss_closed s then (s, [])
      else and_then (and_then (ss_retire reason s)
          (\<lambda>s. if so_purpose env = PurposeMedia \<and> mr_homeBaseAttached env then ss_stopAttachedMedia env now s else (s, [])))
        ss_farewell)"

definition ss_endSent :: "ppcs_session \<Rightarrow> ss_result" where
  "ss_endSent s = (if ss_ending s then (ss_closePool (s\<lparr>ss_ending := False\<rparr>), [SsCloseSockets]) else (s, []))"

section \<open>Media frames\<close>

definition emits_chunks :: "session_env \<Rightarrow> bool" where
  "emits_chunks env \<longleftrightarrow> mr_cameraModel env = ''T8200'' \<and> \<not> mr_homeBaseAttached env \<and> so_purpose env = PurposeMedia"

text \<open>The clock marks of an S340 source: the unit's timestamp and whether the picture format changed.\<close>

definition ss_clockMark :: "session_env \<Rightarrow> access_unit \<Rightarrow> ppcs_session \<Rightarrow> ppcs_session \<times> (nat \<times> bool) option" where
  "ss_clockMark env u s =
     (if nz_codec (ss_normalizer s) = Some H264 \<and> usesT8171AttachedMediaProfile (so_channel env) env \<and> so_purpose env = PurposeMedia
      then
        (let validFormat = (un_width u > 0 \<and> un_height u > 0);
             formatChanged = (validFormat \<and> un_keyframe u \<and>
               (case ss_clockFormat s of None \<Rightarrow> False | Some (w, h) \<Rightarrow> w \<noteq> un_width u \<or> h \<noteq> un_height u)) in
         (if validFormat then s\<lparr>ss_clockFormat := Some (un_width u, un_height u)\<rparr> else s, Some (un_timestamp u, formatChanged)))
      else (s, None))"

definition ss_writeUnit :: "session_env \<Rightarrow> protection \<Rightarrow> access_unit \<Rightarrow> ppcs_session \<Rightarrow> ss_result" where
  "ss_writeUnit env p u s0 =
     (case nz_push (ss_normalizer s0) (un_data u) (ppcsVideoCodec (un_streamType u)) of (nz, normalized) \<Rightarrow>
       (let s = s0\<lparr>ss_normalizer := nz\<rparr> in
        if normalized = [] then (ss_recordVideoResult VrBuffered s, [])
        else
          (case ss_clockMark env u s of (s, mark) \<Rightarrow>
            (ss_recordVideoResult (VrWritten p (nz_mode nz)) (s\<lparr>ss_outputFrames := ss_outputFrames s + 1\<rparr>), [SsVideo normalized mark]))))"

fun emitted_units :: "au_out list \<Rightarrow> access_unit list" where
  "emitted_units [] = []"
| "emitted_units (AuEmit u # ws) = u # emitted_units ws"
| "emitted_units (AuDropped _ _ _ # ws) = emitted_units ws"

definition ss_writeVideo :: "session_env \<Rightarrow> bytes \<Rightarrow> nat \<Rightarrow> ppcs_session \<Rightarrow> ss_result" where
  "ss_writeVideo env frame signCode s0 =
     (if length frame < 22 then (ss_recordVideoResult VrShort s0, [])
      else
        (case decodeFrame (so_crypto env) (ss_decoder s0) frame signCode of (d, decoded) \<Rightarrow>
          (case as_push (emits_chunks env) (\<lambda>_. map_option fst decoded) (ss_assembler s0) frame of (a, outs) \<Rightarrow>
            (let s1 = s0\<lparr>ss_decoder := d, ss_assembler := a\<rparr>;
                 s = (if list_ex is_drop outs then ss_recordVideoResult VrIncomplete s1 else s1) in
             (case decoded of
                None \<Rightarrow> (ss_recordVideoResult (VrRejected (signCode > 0) (vd_lastFailure d)) s, [])
              | Some (data, p) \<Rightarrow>
                  if data = [] then (ss_recordVideoResult (VrRejected (signCode > 0) (vd_lastFailure d)) s, [])
                  else each_do (ss_writeUnit env p) (emitted_units outs) s)))))"

definition wrote_video :: "ss_out list \<Rightarrow> bool" where
  "wrote_video outs \<longleftrightarrow> (\<exists>v\<in>set outs. case v of SsVideo _ _ \<Rightarrow> True | _ \<Rightarrow> False)"

definition ss_decoderReady :: "ppcs_session \<Rightarrow> bool" where
  "ss_decoderReady s = hasDecoderReadyKeyframe (nz_codec (ss_normalizer s)) (map unat (nz_nalTypes (ss_normalizer s)))"

definition ss_videoDelivered :: "session_env \<Rightarrow> int \<Rightarrow> ppcs_session \<Rightarrow> ppcs_session" where
  "ss_videoDelivered env now s =
     s\<lparr>ss_mediaStart := ms_mediaReceived (ss_mediaStart s), ss_lastDelivered := Some now,
       ss_firstFrameTimer := (ss_firstFrameTimer s \<and> mr_homeBaseAttached env \<and> \<not> ss_decoderReady s)\<rparr>"

definition ss_handleVideo :: "session_env \<Rightarrow> int \<Rightarrow> bytes \<Rightarrow> nat \<Rightarrow> ppcs_session \<Rightarrow> ss_result" where
  "ss_handleVideo env now payload signCode s =
     (case ss_writeVideo env payload signCode (s\<lparr>ss_videoFrames := ss_videoFrames s + 1\<rparr>) of (s, outs) \<Rightarrow>
        (if wrote_video outs then ss_videoDelivered env now s else s, outs))"

definition ss_handleAudio :: "session_env \<Rightarrow> int \<Rightarrow> bytes \<Rightarrow> nat \<Rightarrow> ppcs_session \<Rightarrow> ss_result" where
  "ss_handleAudio env frameChannel payload signCode s0 =
     (let s = s0\<lparr>ss_audioFrames := ss_audioFrames s0 + 1\<rparr> in
      if frameChannel \<noteq> so_channel env then (s\<lparr>ss_foreignAudio := ss_foreignAudio s + 1\<rparr>, [])
      else if signCode \<noteq> 0 then (s, [])
      else
        (case decodePpcsAac payload of
           None \<Rightarrow> (s, [])
         | Some audio \<Rightarrow>
             if acceptsSoloCamAudio (mr_cameraModel env) (mr_homeBaseAttached env) (so_channel env) frameChannel (so_purpose env) \<and>
                so_audioListeners env (ss_audioFrames s) > 0
             then (s, [SsAudio audio]) else (s, [])))"

section \<open>Replies\<close>

text \<open>The settled control: its slot is freed first.\<close>

definition ss_settleControl :: "pending_control \<Rightarrow> int \<Rightarrow> ppcs_session \<Rightarrow> ss_result" where
  "ss_settleControl c result s =
     (s\<lparr>ss_control := None\<rparr>, [if result = 0 then SsControlDone (ctl_id c) else SsControlFailed (ctl_id c) (FailResult result)])"

definition control_clear :: "session_env \<Rightarrow> bytes \<Rightarrow> nat \<Rightarrow> bytes option \<Rightarrow> bytes" where
  "control_clear env payload signCode level2Key =
     (if signCode = 8 \<and> level2Key \<noteq> None then (case decryptLevel2 (so_crypto env) payload (the level2Key) signCode of None \<Rightarrow> payload | Some c \<Rightarrow> c)
      else if signCode > 0 \<and> length payload mod 16 = 0 then (case cr_ecb (so_crypto env) (so_commandKey env) payload of None \<Rightarrow> payload | Some c \<Rightarrow> c)
      else payload)"

definition ss_controlResult :: "session_env \<Rightarrow> bytes \<Rightarrow> bytes \<Rightarrow> pending_control \<Rightarrow> ppcs_session \<Rightarrow> ss_result" where
  "ss_controlResult env header payload c s =
     (let signCode = unat (header ! 13) in
      if ctl_authenticated c \<and> signCode \<noteq> 8 then (s, [])
      else
        (case ctl_strict c of
           Some channel \<Rightarrow>
             (case decodeModelControlTrialAcknowledgement (so_crypto env) header payload (ctl_command c) channel (so_commandKey env) (ss_level2Key s) of
                None \<Rightarrow> (s, []) | Some result \<Rightarrow> ss_settleControl c result s)
         | None \<Rightarrow>
             (let clear = control_clear env payload signCode (ss_level2Key s) in
              if length clear \<ge> 4 then ss_settleControl c (i32le clear 0) s else (s, []))))"

definition ss_queryReply :: "session_env \<Rightarrow> bytes \<Rightarrow> bytes \<Rightarrow> ppcs_session \<Rightarrow> (nat \<times> (string \<times> json) list) option" where
  "ss_queryReply env header payload s =
     (case ss_query s of
        None \<Rightarrow> None
      | Some (i, command) \<Rightarrow>
          (case decodePpcsControlRecord (so_crypto env) (so_codec env) payload (unat (header ! 13)) (so_commandKey env) (ss_level2Key s) of
             None \<Rightarrow> None
           | Some decoded \<Rightarrow>
               if map_of decoded ''cmd'' = Some (JInt command)
               then map_option (Pair i) (jsonRecord (so_codec env) (map_of decoded ''payload'')) else None))"

definition ss_failLevel2 :: "level2_failure \<Rightarrow> ppcs_session \<Rightarrow> ppcs_session" where
  "ss_failLevel2 phase s = (if ss_closed s then s else s\<lparr>ss_level2Error := Some phase\<rparr>)"

text \<open>The first turn of \<open>#handleGatewayInfo\<close> and \<open>#deriveLevel2\<close>.\<close>

definition ss_handleGatewayInfo :: "session_env \<Rightarrow> bytes \<Rightarrow> ppcs_session \<Rightarrow> ss_result" where
  "ss_handleGatewayInfo env payload s =
     (if ss_closed s \<or> ss_gateway s \<noteq> None \<or> ss_level2Key s \<noteq> None \<or> \<not> so_resolves env \<or> length payload < 133 then (s, [])
      else
        (case cr_ecb (so_crypto env) (so_commandKey env) payload of
           None \<Rightarrow> ((ss_failLevel2 GatewayDecrypt s)\<lparr>ss_gateway := Some GwSettled\<rparr>, [])
         | Some plain \<Rightarrow> (s\<lparr>ss_gateway := Some (GwLookup plain)\<rparr>, [SsResolveKey (u16le plain 0)])))"

datatype key_outcome = KeyFound string | KeyMissing | KeyLookupFailed | KeyLookupRetired

definition ss_deriveLevel2 :: "session_env \<Rightarrow> int \<Rightarrow> bytes \<Rightarrow> key_outcome \<Rightarrow> ppcs_session \<Rightarrow> ss_result" where
  "ss_deriveLevel2 env now plain outcome s0 =
     (if ss_closed s0 then (s0, [])
      else
        (case outcome of
           KeyMissing \<Rightarrow> (ss_failLevel2 CipherMissingKey s0, [])
         | KeyLookupFailed \<Rightarrow> (ss_failLevel2 CipherLookupError s0, [])
         | KeyLookupRetired \<Rightarrow> (ss_failLevel2 KeyRetired s0, [])
         | KeyFound key \<Rightarrow>
             if key = [] then (ss_failLevel2 CipherMissingKey s0, [])
             else
               (let s = s0\<lparr>ss_decoder := setEccPrivateKey key (ss_decoder s0)\<rparr> in
                (case unwrapGatewayInfo (so_crypto env) (slice 4 133 plain) key of
                   None \<Rightarrow> (ss_failLevel2 CipherUnwrapFailed s, [])
                 | Some clear \<Rightarrow>
                     if length clear < 32 then (ss_failLevel2 CipherUnwrapFailed s, [])
                     else
                       (let t = s\<lparr>ss_level2Key := Some (take 32 clear)\<rparr> in
                        if so_purpose env \<noteq> PurposeMedia then (t, [])
                        else if mr_homeBaseAttached env then ss_startAttachedMedia env now t
                        else ss_startOwnMedia env now True t)))))"

definition ss_keyResolved :: "session_env \<Rightarrow> int \<Rightarrow> key_outcome \<Rightarrow> ppcs_session \<Rightarrow> ss_result" where
  "ss_keyResolved env now outcome s =
     (case ss_gateway s of
        Some (GwLookup plain) \<Rightarrow>
          (case ss_deriveLevel2 env now plain outcome s of (s, outs) \<Rightarrow> (s\<lparr>ss_gateway := None\<rparr>, outs))
      | _ \<Rightarrow> (s, []))"

definition camera_info_clear :: "session_env \<Rightarrow> bytes \<Rightarrow> nat \<Rightarrow> bytes option \<Rightarrow> bytes option" where
  "camera_info_clear env payload signCode level2Key =
     (if signCode = 2 \<or> signCode = 8 then (case level2Key of None \<Rightarrow> None | Some k \<Rightarrow> decryptLevel2 (so_crypto env) payload k signCode)
      else if signCode = 1 \<and> payload \<noteq> [] \<and> length payload mod 16 = 0 then cr_ecb (so_crypto env) (so_commandKey env) payload
      else if signCode = 0 then Some payload else None)"

definition camera_info_params :: "session_env \<Rightarrow> bytes \<Rightarrow> (int \<times> json) list option" where
  "camera_info_params env clear =
     (let text = cameraInfoDocumentText (so_codec env) clear in
      if \<not> starts_with ''{'' text then None
      else
        (case json_record (so_codec env) text of
           None \<Rightarrow> None
         | Some document \<Rightarrow>
             (case map_of document ''params'' of Some (JArr rows) \<Rightarrow> Some (List.map_filter camera_info_row rows) | _ \<Rightarrow> None)))"

definition guard_mode_of :: "(int \<times> json) list \<Rightarrow> int option \<Rightarrow> int option" where
  "guard_mode_of params previous =
     (case map_of params 1224 of
        None \<Rightarrow> previous
      | Some v \<Rightarrow>
          (case js_number v of
             None \<Rightarrow> previous
           | Some x \<Rightarrow> if x \<in> {0, 1, 2, 3, 4, 5, 6, 47, 63} then Some \<lfloor>x\<rfloor> else previous))"

definition ss_inspectCameraInfo :: "session_env \<Rightarrow> bytes \<Rightarrow> nat \<Rightarrow> ppcs_session \<Rightarrow> ss_result" where
  "ss_inspectCameraInfo env payload signCode s =
     (case camera_info_clear env payload signCode (ss_level2Key s) of
        None \<Rightarrow> (s, [])
      | Some clear \<Rightarrow>
          (case camera_info_params env clear of
             None \<Rightarrow> (s, [])
           | Some params \<Rightarrow>
               (s\<lparr>ss_guardMode := guard_mode_of params (ss_guardMode s), ss_info := None\<rparr>,
                case ss_info s of None \<Rightarrow> [] | Some i \<Rightarrow> [SsInfoDone i params])))"

section \<open>Frames\<close>

definition frame_channel :: "bytes \<Rightarrow> int" where
  "frame_channel header = (case ppcsFrameChannel header of None \<Rightarrow> -1 | Some c \<Rightarrow> uint c)"

definition ss_dispatch :: "session_env \<Rightarrow> int \<Rightarrow> bytes \<Rightarrow> bytes \<Rightarrow> ppcs_session \<Rightarrow> ss_result" where
  "ss_dispatch env now header payload s =
     (let command = u16le header 4; frameChannel = frame_channel header; signCode = unat (header ! 13) in
      if command = 1100 \<and> signCode = 1 then
        ss_handleGatewayInfo env payload (s\<lparr>ss_gatewayRequest := ms_close (ss_gatewayRequest s)\<rparr>)
      else if command = 1103 \<and> (\<not> so_trial env \<or> frameChannel = so_channel env) then ss_inspectCameraInfo env payload signCode s
      else if command = 1300 \<and> (\<not> mr_homeBaseAttached env \<or> acceptsAttachedCameraMedia command frameChannel (so_channel env)) then
        ss_handleVideo env now payload signCode s
      else if command = 1301 then ss_handleAudio env frameChannel payload signCode s
      else if command = 1300 \<and> mr_homeBaseAttached env then (s\<lparr>ss_foreignVideo := ss_foreignVideo s + 1\<rparr>, [])
      else (s, []))"

definition ss_handleFrame :: "session_env \<Rightarrow> int \<Rightarrow> bytes \<times> bytes \<Rightarrow> ppcs_session \<Rightarrow> ss_result" where
  "ss_handleFrame env now frame s =
     (case frame of (header, payload) \<Rightarrow>
       (let command = u16le header 4 in
        (case (if header ! 14 = 1 \<and> map_option ctl_command (ss_control s) = Some command then ss_control s else None) of
           Some c \<Rightarrow> ss_controlResult env header payload c s
         | None \<Rightarrow>
             (case (if command = 1351 \<and> (mr_cameraModel env \<noteq> ''T814X'' \<or> frame_channel header = so_channel env)
                    then ss_queryReply env header payload s else None) of
                Some (i, reply) \<Rightarrow> (s\<lparr>ss_query := None\<rparr>, [SsQueryDone i reply])
              | None \<Rightarrow> ss_dispatch env now header payload s))))"

text \<open>A callback of the reorder buffer.\<close>

fun ss_emission :: "session_env \<Rightarrow> int \<Rightarrow> ro_out \<Rightarrow> ppcs_session \<Rightarrow> ss_result" where
  "ss_emission env now (RoDeliver data _ type) s =
     (case dm_consumeData (ss_demux s) data type of (dm, frames) \<Rightarrow> each_do (ss_handleFrame env now) frames (s\<lparr>ss_demux := dm\<rparr>))"
| "ss_emission env now (RoSkip type _) s = (s\<lparr>ss_demux := dm_skip (ss_demux s) type\<rparr>, [])"
| "ss_emission env now (RoRepeat _) s = (s, [])"

section \<open>Datagrams\<close>

definition ss_identity :: "session_env \<Rightarrow> int \<Rightarrow> nat \<Rightarrow> endpoint \<Rightarrow> ppcs_session \<Rightarrow> ss_result" where
  "ss_identity env now socket info s =
     (let t = s\<lparr>ss_socket := socket, ss_lookupTimer := False, ss_camId := ss_camId s + 1, ss_remote := Some info\<rparr>;
          repairAttachedSetup = (mr_homeBaseAttached env \<and>
            (so_purpose env = PurposeMedia \<or> mr_stationModel env = Some ''T8010'' \<and> mr_cameraModel env = ''T8113-Z'')) in
      and_then (and_then (ss_send REQ_ping [] info socket t)
        (\<lambda>s. if repairAttachedSetup then
               (let n = ss_seq s; u = s\<lparr>ss_seq := n + 1\<rparr> in
                case commandHeader n 1100 of
                  None \<Rightarrow> (u, [SsThrow])
                | Some header \<Rightarrow>
                    (case datagram REQ_data (header @ cameraVoidPayload 255) of
                       None \<Rightarrow> (u, [SsThrow])
                     | Some packet \<Rightarrow>
                         (case ms_start (int n) packet now (ss_gatewayRequest u) of
                            StartThrows \<Rightarrow> (u, [SsThrow])
                          | StartRefused \<Rightarrow> (u, [])
                          | StartSent m \<Rightarrow> (let v = u\<lparr>ss_gatewayRequest := m\<rparr> in (v, ss_transmit v packet)))))
             else ss_sendCommand now 1100 (Some (cameraVoidPayload 255)) False s))
        (\<lambda>s. if \<not> mr_homeBaseAttached env \<and> so_purpose env = PurposeMedia then ss_startOwnMedia env now False s else (s, [])))"

text \<open>The rest of \<open>start\<close> once the identity arrived: its promise settles and the lifetime timers start.\<close>

definition ss_connected :: "session_env \<Rightarrow> ppcs_session \<Rightarrow> ss_result" where
  "ss_connected env s =
     (s\<lparr>ss_starting := False, ss_maximumDurationTimer := True, ss_firstFrameTimer := (so_purpose env = PurposeMedia), ss_heartbeat := True\<rparr>, [SsConnected])"

definition ss_adopt :: "nat \<Rightarrow> ppcs_session \<Rightarrow> ppcs_session option" where
  "ss_adopt socket s =
     (case ss_pool s of
        None \<Rightarrow> Some s
      | Some p \<Rightarrow> (case lp_adopt socket p of None \<Rightarrow> None | Some p \<Rightarrow> Some (s\<lparr>ss_pool := Some p\<rparr>)))"

definition ack_sequences :: "bytes \<Rightarrow> nat list" where
  "ack_sequences message = map (\<lambda>i. u16be message (8 + i * 2)) [0..<u16be message 6]"

definition ss_acknowledged :: "nat list \<Rightarrow> ppcs_session \<Rightarrow> ppcs_session" where
  "ss_acknowledged sequences s =
     s\<lparr>ss_mediaStart := fold (ms_acknowledge \<circ> int) sequences (ss_mediaStart s),
       ss_gatewayRequest := fold (ms_acknowledge \<circ> int) sequences (ss_gatewayRequest s)\<rparr>"

definition reorder_wait :: "session_env \<Rightarrow> nat" where
  "reorder_wait env = (if usesT8171AttachedMediaProfile (so_channel env) env \<and> so_purpose env = PurposeMedia then 2000 else 250)"

definition ss_ordered :: "session_env \<Rightarrow> int \<Rightarrow> reorder \<times> ro_out list \<Rightarrow> ppcs_session \<Rightarrow> ss_result" where
  "ss_ordered env now r s = (case r of (b, emissions) \<Rightarrow> each_do (ss_emission env now) emissions (s\<lparr>ss_order := b\<rparr>))"

text \<open>A data datagram too short for its sequence number raises while it is read.\<close>

definition ss_data :: "session_env \<Rightarrow> int \<Rightarrow> bytes \<Rightarrow> endpoint \<Rightarrow> ppcs_session \<Rightarrow> ss_result" where
  "ss_data env now message remote s =
     (if length message < 8 then (s, [SsThrow])
      else
        (let type = slice 4 6 message; sequence = u16be message 6; dataType = unat (message ! 5) in
         and_then (ss_send REQ_ack (type @ be_bytes 2 1 @ be_bytes 2 sequence) remote (ss_socket s) s)
           (\<lambda>s. if type = DATA_video \<or> type = DATA_data \<or> dataType = 2
                then ss_ordered env now (rb_push (reorder_wait env) never (ss_order s) (drop 8 message) (word_of_nat sequence) dataType) s
                else (s, []))))"

definition same_peer :: "endpoint \<Rightarrow> ppcs_session \<Rightarrow> bool" where
  "same_peer info s \<longleftrightarrow> ss_remote s = Some info"

definition ss_handle :: "session_env \<Rightarrow> int \<Rightarrow> nat \<Rightarrow> endpoint \<Rightarrow> bytes \<Rightarrow> ppcs_session \<Rightarrow> ss_result" where
  "ss_handle env now socket info message s =
     (if ss_closed s \<or> (ss_remote s \<noteq> None \<and> socket \<noteq> ss_socket s) then (s, [])
      else if has message RESP_localLookup then
        and_then (ss_checkCandidate env info socket s)
          (\<lambda>s. case ppcsLookupCandidate message of
             None \<Rightarrow> (s, [])
           | Some advertised \<Rightarrow>
               if fst advertised \<noteq> ''0.0.0.0'' \<and> advertised \<noteq> info then ss_checkCandidate env advertised socket s else (s, []))
      else
        (case ppcsLookupCandidate message of
           Some candidate \<Rightarrow> if fst candidate \<noteq> ''0.0.0.0'' then ss_checkCandidate env candidate socket s else (s, [])
         | None \<Rightarrow>
             if isPpcsCameraIdentity message then
               (if ss_remote s \<noteq> None then (s, [])
                else
                  (case ss_adopt socket s of
                     None \<Rightarrow> (s, [])
                   | Some t \<Rightarrow> and_then (ss_identity env now socket info t) (ss_connected env)))
             else if has message RESP_ping then
               (if same_peer info s \<and> length message = 4 \<and> u16be message 2 = 0 then ss_send REQ_pong [] info (ss_socket s) s else (s, []))
             else if has message RESP_pong then (s, [])
             else if has message REQ_ack \<and> same_peer info s \<and> length message \<ge> 10 \<and> u16be message 2 = length message - 4 \<and>
               slice 4 6 message = DATA_data then
               (if 1 \<le> u16be message 6 \<and> u16be message 6 \<le> 64 \<and> length message = 8 + u16be message 6 * 2
                then (ss_acknowledged (ack_sequences message) s, []) else (s, []))
             else if has message RESP_data then
               (case ss_remote s of None \<Rightarrow> (s, []) | Some remote \<Rightarrow> ss_data env now message remote s)
             else (s, [])))"

text \<open>\<open>onMessage\<close>: an exception rejects a start that is still waiting; then the microtasks run.\<close>

definition ss_caught :: "ss_result \<Rightarrow> ss_result" where
  "ss_caught r =
     (case r of (s, outs) \<Rightarrow>
        if SsThrow \<in> set outs \<and> ss_starting s then (s\<lparr>ss_starting := False\<rparr>, outs @ [SsStartFailed StartThrew]) else (s, outs))"

definition ss_microtasks :: "ss_result \<Rightarrow> ss_result" where
  "ss_microtasks r = (case r of (s, outs) \<Rightarrow> (if ss_gateway s = Some GwSettled then s\<lparr>ss_gateway := None\<rparr> else s, outs))"

definition ss_onMessage :: "session_env \<Rightarrow> int \<Rightarrow> nat \<Rightarrow> endpoint \<Rightarrow> bytes \<Rightarrow> ppcs_session \<Rightarrow> ss_result" where
  "ss_onMessage env now socket info message s = ss_microtasks (ss_caught (ss_handle env now socket info message s))"

section \<open>Timers and requests\<close>

definition ss_recover :: "session_env \<Rightarrow> int \<Rightarrow> ppcs_session \<Rightarrow> ss_result" where
  "ss_recover env now s =
     (if mr_homeBaseAttached env \<and> ss_level2Key s \<noteq> None then
        (let awaitingAcknowledgedStartup = (so_purpose env = PurposeMedia \<and> ss_outputFrames s = 0 \<and> ss_startAttempts s = 1 \<and>
               ms_acknowledged (ss_mediaStart s) = 1);
             recovery = (if awaitingAcknowledgedStartup then None
               else attachedMediaStallRecoveryAction (ss_lastDelivered s) (ss_lastReassert s) now) in
         if recovery = Some StallClose then ss_close env now MediaStall s
         else if recovery = Some StallReassert then ss_startAttachedMedia env now s else (s, []))
      else if needsStandaloneMediaReassert (mr_homeBaseAttached env) (ss_lastDelivered s) now then ss_startOwnMedia env now False s
      else if \<not> mr_homeBaseAttached env then ss_sendCommand now 1139 (Some (cameraVoidPayload (so_channel env))) False s
      else (s, []))"

definition ss_heartbeatTick :: "session_env \<Rightarrow> int \<Rightarrow> ppcs_session \<Rightarrow> ss_result" where
  "ss_heartbeatTick env now s =
     (case ss_remote s of
        None \<Rightarrow> (s, [])
      | Some remote \<Rightarrow>
          and_then (ss_send REQ_ping [] remote (ss_socket s) s)
            (\<lambda>s. if so_purpose env \<noteq> PurposeMedia \<and> ss_startAttempts s = 0 then (s, [])
                 else and_then
                   (if usesT8210StationHeartbeatProfile env then ss_sendCommand now 1139 (Some (cameraVoidPayload 255)) False s else (s, []))
                   (ss_recover env now)))"

definition ss_retried :: "(ppcs_session \<Rightarrow> media_start) \<Rightarrow> (media_start \<Rightarrow> ppcs_session \<Rightarrow> ppcs_session) \<Rightarrow> int \<Rightarrow> ppcs_session \<Rightarrow> ss_result" where
  "ss_retried get put now s =
     (case ms_step (get s) (MsTick now) of (m, packets) \<Rightarrow> (let t = put m s in (t, concat (map (ss_transmit t) packets))))"

definition put_mediaStart :: "media_start \<Rightarrow> ppcs_session \<Rightarrow> ppcs_session" where
  "put_mediaStart m s = s\<lparr>ss_mediaStart := m\<rparr>"

definition put_gatewayRequest :: "media_start \<Rightarrow> ppcs_session \<Rightarrow> ppcs_session" where
  "put_gatewayRequest m s = s\<lparr>ss_gatewayRequest := m\<rparr>"

text \<open>The bind callback creates the pool; lookups begin at once, or when the probes are bound.\<close>

definition ss_beginLookup :: "session_env \<Rightarrow> ppcs_session \<Rightarrow> ss_result" where
  "ss_beginLookup env s =
     (if ss_closed s then (s, []) else and_then (ss_lookup env s) (\<lambda>s. (s\<lparr>ss_lookupTimer := True\<rparr>, [])))"

definition ss_bound :: "session_env \<Rightarrow> ppcs_session \<Rightarrow> ss_result" where
  "ss_bound env s =
     (if ss_closed s \<or> ss_pool s \<noteq> None then (s, [])
      else
        (let t = s\<lparr>ss_pool := Some \<lparr> lp_sockets = [ss_socket s], lp_bound = [ss_socket s], lp_closed = False \<rparr>\<rparr> in
         if so_cloudHosts env \<noteq> [] then (t, []) else ss_beginLookup env t))"

definition lp_probeBound :: "nat \<Rightarrow> lookup_pool \<Rightarrow> lookup_pool" where
  "lp_probeBound socket p =
     (if lp_closed p \<or> socket \<notin> set (lp_sockets p) \<or> socket \<in> set (lp_bound p) then p else p\<lparr>lp_bound := lp_bound p @ [socket]\<rparr>)"

definition ss_socketError :: "session_env \<Rightarrow> int \<Rightarrow> ppcs_session \<Rightarrow> ss_result" where
  "ss_socketError env now s =
     (let waiting = ss_starting s in
      and_then (ss_close env now StartFailed (s\<lparr>ss_starting := False\<rparr>)) (\<lambda>s. (s, if waiting then [SsStartFailed SocketFailed] else [])))"

text \<open>An error of a probe removes it; an error of the adopted probe ends the session.\<close>

definition ss_probeFailed :: "session_env \<Rightarrow> int \<Rightarrow> nat \<Rightarrow> ppcs_session \<Rightarrow> ss_result" where
  "ss_probeFailed env now socket s =
     (case ss_pool s of
        None \<Rightarrow> (s, [])
      | Some p \<Rightarrow>
          (let t = s\<lparr>ss_pool := Some (p\<lparr>lp_sockets := removeAll socket (lp_sockets p), lp_bound := removeAll socket (lp_bound p)\<rparr>)\<rparr> in
           if \<not> lp_closed p \<and> ss_remote s \<noteq> None \<and> ss_socket s = socket then ss_socketError env now t else (t, [])))"

definition ss_lookupTimeout :: "session_env \<Rightarrow> int \<Rightarrow> ppcs_session \<Rightarrow> ss_result" where
  "ss_lookupTimeout env now s =
     (if \<not> ss_starting s then (s, [])
      else and_then (ss_close env now StartFailed (s\<lparr>ss_starting := False\<rparr>)) (\<lambda>s. (s, [SsStartFailed LookupTimeout])))"

definition ss_waitForControlResult :: "nat \<Rightarrow> nat \<Rightarrow> int option \<Rightarrow> bool \<Rightarrow> ppcs_session \<Rightarrow> ss_result" where
  "ss_waitForControlResult i command strictChannel authenticatedOnly s =
     (if ss_control s \<noteq> None then (s, [SsControlFailed i FailBusy])
      else (s\<lparr>ss_control := Some \<lparr> ctl_id = i, ctl_command = command, ctl_strict = strictChannel, ctl_authenticated = authenticatedOnly \<rparr>\<rparr>, []))"

definition ss_controlTimeout :: "nat \<Rightarrow> ppcs_session \<Rightarrow> ss_result" where
  "ss_controlTimeout i s =
     (if map_option ctl_id (ss_control s) = Some i then (s\<lparr>ss_control := None\<rparr>, [SsControlFailed i FailTimeout]) else (s, []))"

definition ss_beginQuery :: "nat \<Rightarrow> int \<Rightarrow> ppcs_session \<Rightarrow> ss_result" where
  "ss_beginQuery i command s =
     (if ss_query s \<noteq> None \<or> ss_control s \<noteq> None then (s, [SsQueryFailed i FailBusy]) else (s\<lparr>ss_query := Some (i, command)\<rparr>, []))"

definition ss_queryTimeout :: "nat \<Rightarrow> ppcs_session \<Rightarrow> ss_result" where
  "ss_queryTimeout i s =
     (if map_option fst (ss_query s) = Some i then (s\<lparr>ss_query := None\<rparr>, [SsQueryFailed i FailTimeout]) else (s, []))"

text \<open>\<open>readCameraInfo\<close> from the moment its route is ready.\<close>

definition ss_readCameraInfo :: "session_env \<Rightarrow> int \<Rightarrow> nat \<Rightarrow> ppcs_session \<Rightarrow> ss_result" where
  "ss_readCameraInfo env now i s =
     (if ss_info s \<noteq> None then (s, [SsInfoFailed i FailBusy])
      else ss_sendCommand now 1103
        (if mr_cameraModel env = ''T817L'' \<and> so_channel env = 0 then rawPayload (le_bytes 4 255) 255 0 (1, 0) 0 else Some (cameraVoidPayload (so_channel env)))
        False (s\<lparr>ss_info := Some i\<rparr>))"

definition ss_infoTimeout :: "nat \<Rightarrow> ppcs_session \<Rightarrow> ss_result" where
  "ss_infoTimeout i s = (if ss_info s = Some i then (s\<lparr>ss_info := None\<rparr>, [SsInfoFailed i FailTimeout]) else (s, []))"

datatype ss_event =
    SeMessage int nat endpoint bytes | SeBound | SeProbeCreated nat | SeProbeBound nat | SeProbeFailed int nat | SeProbesBound | SeSelfAddress "byte \<times> byte \<times> byte \<times> byte"
  | SeLookupTick | SeLookupTimeout int | SeSocketError int | SeMaximumDuration int | SeFirstFrame int | SeHeartbeat int
  | SeRestart int | SeStartRetry int | SeGatewayRetry int | SeReorder int nat | SeKey int key_outcome | SeClose int session_close_reason | SeEndSent
  | SeWaitControl nat nat "int option" bool | SeControlTimeout nat | SeQuery nat int | SeQueryTimeout nat
  | SeInfo int nat | SeInfoTimeout nat | SeCommand int nat "bytes option"

fun ss_step :: "session_env \<Rightarrow> ppcs_session \<Rightarrow> ss_event \<Rightarrow> ss_result" where
  "ss_step env s (SeMessage now socket info message) = ss_onMessage env now socket info message s"
| "ss_step env s SeBound = ss_bound env s"
| "ss_step env s (SeProbeCreated socket) =
     (s\<lparr>ss_pool := map_option (\<lambda>p. if lp_closed p \<or> lp_sockets p = [] \<or> ss_remote s \<noteq> None then p else p\<lparr>lp_sockets := lp_sockets p @ [socket]\<rparr>) (ss_pool s)\<rparr>, [])"
| "ss_step env s (SeProbeBound socket) = (s\<lparr>ss_pool := map_option (lp_probeBound socket) (ss_pool s)\<rparr>, [])"
| "ss_step env s (SeProbeFailed now socket) = ss_probeFailed env now socket s"
| "ss_step env s SeProbesBound = (if ss_pool s = None \<or> so_cloudHosts env = [] then (s, []) else ss_beginLookup env s)"
| "ss_step env s (SeSelfAddress host) = (if ss_closed s then s else s\<lparr>ss_selfAddress := Some host\<rparr>, [])"
| "ss_step env s SeLookupTick = (if ss_lookupTimer s then ss_lookup env s else (s, []))"
| "ss_step env s (SeLookupTimeout now) = ss_lookupTimeout env now s"
| "ss_step env s (SeSocketError now) = ss_socketError env now s"
| "ss_step env s (SeMaximumDuration now) =
     (if ss_maximumDurationTimer s then ss_close env now MaxDuration (s\<lparr>ss_maximumDurationTimer := False\<rparr>) else (s, []))"
| "ss_step env s (SeFirstFrame now) = (if ss_firstFrameTimer s then ss_close env now FirstFrameTimeout (s\<lparr>ss_firstFrameTimer := False\<rparr>) else (s, []))"
| "ss_step env s (SeHeartbeat now) = (if ss_heartbeat s then ss_heartbeatTick env now s else (s, []))"
| "ss_step env s (SeRestart now) = (if ss_restartTimer s then ss_restartDue env now s else (s, []))"
| "ss_step env s (SeStartRetry now) = ss_retried ss_mediaStart put_mediaStart now s"
| "ss_step env s (SeGatewayRetry now) = ss_retried ss_gatewayRequest put_gatewayRequest now s"
| "ss_step env s (SeReorder now type) = ss_microtasks (ss_ordered env now (rb_expire (reorder_wait env) never (ss_order s) type) s)"
| "ss_step env s (SeKey now outcome) = ss_keyResolved env now outcome s"
| "ss_step env s (SeClose now reason) = ss_close env now reason s"
| "ss_step env s SeEndSent = ss_endSent s"
| "ss_step env s (SeWaitControl i command strict authenticated) = ss_waitForControlResult i command strict authenticated s"
| "ss_step env s (SeControlTimeout i) = ss_controlTimeout i s"
| "ss_step env s (SeQuery i command) = ss_beginQuery i command s"
| "ss_step env s (SeQueryTimeout i) = ss_queryTimeout i s"
| "ss_step env s (SeInfo now i) = ss_readCameraInfo env now i s"
| "ss_step env s (SeInfoTimeout i) = ss_infoTimeout i s"
| "ss_step env s (SeCommand now command payload) = ss_sendCommand now command payload False s"

definition ss_new :: "nat \<Rightarrow> string option \<Rightarrow> ppcs_session" where
  "ss_new socket initialKey =
     \<lparr> ss_closed = False, ss_closeReason = None, ss_starting = True, ss_remote = None, ss_socket = socket, ss_pool = None, ss_selfAddress = None,
       ss_lookupTimer = False, ss_maximumDurationTimer = False, ss_firstFrameTimer = False, ss_heartbeat = False, ss_restartTimer = False,
       ss_ending = False, ss_seq = 0, ss_level2Seq = 0, ss_level2Key = None, ss_level2Error = None, ss_gateway = None,
       ss_mediaStart = ms_new, ss_gatewayRequest = ms_new, ss_order = rb_new, ss_demux = dm_new, ss_assembler = as_new,
       ss_decoder = (case initialKey of None \<Rightarrow> vd_new | Some key \<Rightarrow> setEccPrivateKey key vd_new), ss_normalizer = nz_new,
       ss_clockFormat = None, ss_t8200Sent = False, ss_startAttempts = 0, ss_stopAttempts = 0, ss_camId = 0, ss_videoFrames = 0,
       ss_outputFrames = 0, ss_foreignVideo = 0, ss_audioFrames = 0, ss_foreignAudio = 0, ss_guardMode = None, ss_lastDelivered = None,
       ss_lastReassert = None, ss_videoResults = [], ss_control = None, ss_query = None, ss_info = None \<rparr>"

section \<open>What sending leaves alone\<close>

text \<open>Every field but the counters of sent commands and the start tracker.\<close>

definition idle :: "ppcs_session \<Rightarrow> ppcs_session" where
  "idle s = s\<lparr>ss_seq := 0, ss_level2Seq := 0, ss_mediaStart := ms_new, ss_startAttempts := 0, ss_stopAttempts := 0, ss_t8200Sent := False,
     ss_level2Error := None\<rparr>"

named_theorems sends \<open>operations that only send\<close>

lemma idle_selects:
  "ss_closed (idle s) = ss_closed s" "ss_heartbeat (idle s) = ss_heartbeat s" "ss_remote (idle s) = ss_remote s" "ss_level2Key (idle s) = ss_level2Key s"
  "ss_lastDelivered (idle s) = ss_lastDelivered s" "ss_lastReassert (idle s) = ss_lastReassert s" "ss_restartTimer (idle s) = ss_restartTimer s" "ss_maximumDurationTimer (idle s) = ss_maximumDurationTimer s"
  "ss_firstFrameTimer (idle s) = ss_firstFrameTimer s" "ss_starting (idle s) = ss_starting s" "ss_outputFrames (idle s) = ss_outputFrames s" "ss_gateway (idle s) = ss_gateway s"
  "ss_closeReason (idle s) = ss_closeReason s" "ss_lookupTimer (idle s) = ss_lookupTimer s" "ss_order (idle s) = ss_order s" "ss_control (idle s) = ss_control s"
  "ss_query (idle s) = ss_query s" "ss_info (idle s) = ss_info s" "ss_ending (idle s) = ss_ending s" "ss_gatewayRequest (idle s) = ss_gatewayRequest s"
  "ss_socket (idle s) = ss_socket s" "ss_pool (idle s) = ss_pool s"
  by (simp_all add: idle_def)

lemma rest_fields:
  assumes "idle t = idle s"
  shows "ss_closed t = ss_closed s" "ss_heartbeat t = ss_heartbeat s" "ss_remote t = ss_remote s" "ss_level2Key t = ss_level2Key s"
    "ss_lastDelivered t = ss_lastDelivered s" "ss_lastReassert t = ss_lastReassert s" "ss_restartTimer t = ss_restartTimer s" "ss_maximumDurationTimer t = ss_maximumDurationTimer s"
    "ss_firstFrameTimer t = ss_firstFrameTimer s" "ss_starting t = ss_starting s" "ss_outputFrames t = ss_outputFrames s" "ss_gateway t = ss_gateway s"
    "ss_closeReason t = ss_closeReason s" "ss_lookupTimer t = ss_lookupTimer s" "ss_order t = ss_order s" "ss_control t = ss_control s"
    "ss_query t = ss_query s" "ss_info t = ss_info s" "ss_ending t = ss_ending s" "ss_gatewayRequest t = ss_gatewayRequest s"
    "ss_socket t = ss_socket s" "ss_pool t = ss_pool s"
  by (metis assms idle_selects)+

lemma idle_updates [simp]:
  "idle (s\<lparr>ss_seq := a\<rparr>) = idle s" "idle (s\<lparr>ss_level2Seq := a\<rparr>) = idle s" "idle (s\<lparr>ss_mediaStart := m\<rparr>) = idle s"
  "idle (s\<lparr>ss_startAttempts := a\<rparr>) = idle s" "idle (s\<lparr>ss_stopAttempts := a\<rparr>) = idle s" "idle (s\<lparr>ss_t8200Sent := b\<rparr>) = idle s"
  "idle (s\<lparr>ss_level2Error := x\<rparr>) = idle s"
  by (simp_all add: idle_def)

lemma idle_and_then: "(\<And>s. idle (fst (g s)) = idle s) \<Longrightarrow> idle (fst (and_then r g)) = idle (fst r)"
  by (simp add: and_then_def fst_seq_do)

lemma idle_each_then: "(\<And>x s. idle (fst (g x s)) = idle s) \<Longrightarrow> idle (fst (each_then g xs s)) = idle s"
  by (induction xs arbitrary: s) (simp_all add: and_then_def fst_seq_do)

lemma idle_send [sends]: "idle (fst (ss_send type payload a k s)) = idle s"
  by (simp add: ss_send_def)

lemma idle_sendMediaStart [sends]: "idle (fst (ss_sendMediaStart now payload s)) = idle s"
  by (simp add: ss_sendMediaStart_def Let_def split: option.split start_result.split)

lemma idle_sendCommand [sends]: "idle (fst (ss_sendCommand now command payload m s)) = idle s"
  by (simp add: ss_sendCommand_def sends Let_def split: option.split)

lemma idle_sendAttached [sends]: "idle (fst (ss_sendAttachedMediaControl env now command s)) = idle s"
  by (simp add: ss_sendAttachedMediaControl_def sends Let_def split: option.split)

lemma idle_stopAttached [sends]: "idle (fst (ss_stopAttachedMedia env now s)) = idle s"
  by (simp add: ss_stopAttachedMedia_def sends Let_def split: option.split)

lemma idle_startOwn [sends]: "idle (fst (ss_startOwnMedia env now upgrade s)) = idle s"
  by (simp add: ss_startOwnMedia_def sends Let_def split: option.split)

lemma idle_checkCandidate [sends]: "idle (fst (ss_checkCandidate env a k s)) = idle s"
  by (simp add: ss_checkCandidate_def idle_each_then sends)

lemma idle_lookup [sends]: "idle (fst (ss_lookup env s)) = idle s"
proof -
  have "idle (fst (ss_lookup_from env k s)) = idle s" for k s
    by (simp add: ss_lookup_from_def idle_each_then sends split: prod.split)
  then show ?thesis by (simp add: ss_lookup_def idle_and_then idle_each_then sends)
qed

section \<open>What receiving leaves alone\<close>

text \<open>The facts of the connection; \<open>bond\<close> adds the key negotiation, which only gateway details move.\<close>

definition link where
  "link s = ((ss_closed s, ss_remote s, ss_socket s, ss_starting s, ss_level2Key s, ss_order s, ss_closeReason s, ss_pool s),
     (ss_heartbeat s, ss_maximumDurationTimer s, ss_restartTimer s, ss_lastReassert s, ss_lookupTimer s, ss_ending s),
     (ss_startAttempts s, ss_seq s, ss_level2Seq s))"

definition bond where "bond s = (link s, ss_gateway s)"

named_theorems receives \<open>operations on received frames\<close>

lemma link_updates [simp]:
  "link (s\<lparr>ss_normalizer := a1\<rparr>) = link s" "link (s\<lparr>ss_clockFormat := a2\<rparr>) = link s" "link (s\<lparr>ss_outputFrames := a3\<rparr>) = link s"
  "link (s\<lparr>ss_videoResults := a4\<rparr>) = link s" "link (s\<lparr>ss_decoder := a5\<rparr>) = link s" "link (s\<lparr>ss_assembler := a6\<rparr>) = link s"
  "link (s\<lparr>ss_videoFrames := a7\<rparr>) = link s" "link (s\<lparr>ss_mediaStart := a8\<rparr>) = link s" "link (s\<lparr>ss_lastDelivered := a9\<rparr>) = link s"
  "link (s\<lparr>ss_firstFrameTimer := b1\<rparr>) = link s" "link (s\<lparr>ss_audioFrames := b2\<rparr>) = link s" "link (s\<lparr>ss_foreignAudio := b3\<rparr>) = link s"
  "link (s\<lparr>ss_control := b4\<rparr>) = link s" "link (s\<lparr>ss_query := b5\<rparr>) = link s" "link (s\<lparr>ss_info := b6\<rparr>) = link s"
  "link (s\<lparr>ss_level2Error := b7\<rparr>) = link s" "link (s\<lparr>ss_gateway := b8\<rparr>) = link s" "link (s\<lparr>ss_gatewayRequest := b9\<rparr>) = link s"
  "link (s\<lparr>ss_guardMode := c1\<rparr>) = link s" "link (s\<lparr>ss_foreignVideo := c2\<rparr>) = link s" "link (s\<lparr>ss_demux := c3\<rparr>) = link s"
  by (simp_all add: link_def)

lemma bond_record [receives]: "bond (ss_recordVideoResult x s) = bond s"
  by (simp add: ss_recordVideoResult_def bond_def)

lemma bond_writeUnit [receives]: "bond (fst (ss_writeUnit env p u s)) = bond s"
  by (simp add: ss_writeUnit_def ss_clockMark_def bond_def ss_recordVideoResult_def Let_def split: prod.split)

lemma bond_each: "(\<And>x s. bond (fst (g x s)) = bond s) \<Longrightarrow> bond (fst (each_do g xs s)) = bond s"
  by (induction xs arbitrary: s) (simp_all add: fst_seq_do)

lemma bond_writeVideo [receives]: "bond (fst (ss_writeVideo env frame sign s)) = bond s"
proof -
  have u: "bond (s\<lparr>ss_decoder := x, ss_assembler := y\<rparr>) = bond s" for s x y by (simp add: bond_def)
  show ?thesis by (simp add: ss_writeVideo_def receives u bond_each Let_def split: prod.split option.split)
qed

lemma bond_handleVideo [receives]: "bond (fst (ss_handleVideo env now payload sign s)) = bond s"
proof -
  have d: "bond (ss_videoDelivered env now t) = bond t" for t by (simp add: ss_videoDelivered_def bond_def)
  have v: "bond (s\<lparr>ss_videoFrames := k\<rparr>) = bond s" for k by (simp add: bond_def)
  show ?thesis using bond_writeVideo [of env payload sign "s\<lparr>ss_videoFrames := Suc (ss_videoFrames s)\<rparr>"]
    by (simp add: ss_handleVideo_def split_beta d v)
qed

lemma bond_handleAudio [receives]: "bond (fst (ss_handleAudio env ch payload sign s)) = bond s"
  by (simp add: ss_handleAudio_def bond_def Let_def split: option.split)

lemma bond_controlResult [receives]: "bond (fst (ss_controlResult env header payload c s)) = bond s"
  by (simp add: ss_controlResult_def ss_settleControl_def bond_def Let_def split: option.split)

lemma bond_inspect [receives]: "bond (fst (ss_inspectCameraInfo env payload sign s)) = bond s"
  by (simp add: ss_inspectCameraInfo_def bond_def Let_def split: option.split)

lemma link_gateway [receives]: "link (fst (ss_handleGatewayInfo env payload s)) = link s"
  by (simp add: ss_handleGatewayInfo_def ss_failLevel2_def split: option.split)

lemma link_handleFrame [receives]: "link (fst (ss_handleFrame env now f s)) = link s"
proof -
  have b: "bond t = bond u \<Longrightarrow> link t = link u" for t u by (simp add: bond_def)
  show ?thesis
    by (simp add: ss_handleFrame_def ss_dispatch_def Let_def receives bond_handleVideo [THEN b] bond_handleAudio [THEN b]
        bond_controlResult [THEN b] bond_inspect [THEN b] split: prod.split option.split)
qed

lemma link_each: "(\<And>x s. link (fst (g x s)) = link s) \<Longrightarrow> link (fst (each_do g xs s)) = link s"
  by (induction xs arbitrary: s) (simp_all add: fst_seq_do)

lemma link_emission [receives]: "link (fst (ss_emission env now e s)) = link s"
  by (cases e) (simp_all add: link_each receives split: prod.split)

text \<open>Without a negotiation to begin, received frames leave the negotiation alone.\<close>

definition negotiated :: "session_env \<Rightarrow> ppcs_session \<Rightarrow> bool" where
  "negotiated env s \<longleftrightarrow> ss_level2Key s \<noteq> None \<or> \<not> so_resolves env"

lemma bond_handleFrame: "negotiated env s \<Longrightarrow> bond (fst (ss_handleFrame env now f s)) = bond s"
proof -
  assume n: "negotiated env s"
  have g: "bond (fst (ss_handleGatewayInfo env payload (s\<lparr>ss_gatewayRequest := x\<rparr>))) = bond s" for payload x
    using n by (auto simp: ss_handleGatewayInfo_def negotiated_def bond_def)
  have q: "bond (s\<lparr>ss_query := x\<rparr>) = bond s" "bond (s\<lparr>ss_foreignVideo := k\<rparr>) = bond s" for x k by (simp_all add: bond_def)
  show ?thesis by (simp add: ss_handleFrame_def ss_dispatch_def Let_def receives g q split: prod.split option.split)
qed

lemma negotiated_bond: "bond t = bond s \<Longrightarrow> negotiated env t = negotiated env s"
  by (simp add: negotiated_def bond_def link_def)

lemma bond_each_if:
  assumes "\<And>x s. negotiated env s \<Longrightarrow> bond (fst (g x s)) = bond s" "negotiated env s"
  shows "bond (fst (each_do g xs s)) = bond s"
  using assms(2)
proof (induction xs arbitrary: s)
  case (Cons x xs)
  have "bond (fst (g x s)) = bond s" by (rule assms(1) [OF Cons.prems])
  then show ?case using Cons.IH [of "fst (g x s)"] Cons.prems negotiated_bond [of "fst (g x s)" s env] by (simp add: fst_seq_do)
qed simp

lemma bond_emission: "negotiated env s \<Longrightarrow> bond (fst (ss_emission env now e s)) = bond s"
proof (cases e)
  case (RoDeliver data sq type)
  define t where "t = s\<lparr>ss_demux := fst (dm_consumeData (ss_demux s) data type)\<rparr>"
  assume "negotiated env s"
  moreover have "bond t = bond s" by (simp add: bond_def t_def)
  ultimately show ?thesis
    using RoDeliver bond_each_if [of env "ss_handleFrame env now" t] bond_handleFrame [of env] negotiated_bond [of t s env]
    by (simp add: split_beta t_def)
qed (simp_all add: bond_def)

section \<open>What received frames put out\<close>

fun from_frame :: "ss_out \<Rightarrow> bool" where
  "from_frame (SsVideo _ _) = True"
| "from_frame (SsAudio _) = True"
| "from_frame (SsControlDone _) = True"
| "from_frame (SsControlFailed _ _) = True"
| "from_frame (SsQueryDone _ _) = True"
| "from_frame (SsInfoDone _ _) = True"
| "from_frame (SsResolveKey _) = True"
| "from_frame _ = False"

named_theorems frame_outs

lemma outs_each: "(\<And>x s. list_all from_frame (snd (g x s))) \<Longrightarrow> list_all from_frame (snd (each_do g xs s))"
  by (induction xs arbitrary: s) (simp_all add: snd_seq_do)

lemma outs_writeUnit [frame_outs]: "list_all from_frame (snd (ss_writeUnit env p u s))"
  by (simp add: ss_writeUnit_def Let_def split: prod.split)

lemma outs_writeVideo [frame_outs]: "list_all from_frame (snd (ss_writeVideo env payload sign s))"
  by (simp add: ss_writeVideo_def outs_each frame_outs Let_def split: prod.split option.split)

lemma outs_handleVideo [frame_outs]: "list_all from_frame (snd (ss_handleVideo env now payload sign s))"
  by (simp add: ss_handleVideo_def split_beta frame_outs)

lemma outs_control [frame_outs]: "list_all from_frame (snd (ss_controlResult env header payload c s))"
  by (simp add: ss_controlResult_def ss_settleControl_def Let_def split: option.split)

lemma outs_gateway [frame_outs]: "list_all from_frame (snd (ss_handleGatewayInfo env payload s))"
  by (simp add: ss_handleGatewayInfo_def split: option.split)

lemma outs_info [frame_outs]: "list_all from_frame (snd (ss_inspectCameraInfo env payload sign s))"
  by (simp add: ss_inspectCameraInfo_def split: option.split)

lemma outs_audio [frame_outs]: "list_all from_frame (snd (ss_handleAudio env ch payload sign s))"
  by (simp add: ss_handleAudio_def Let_def split: option.split)

lemma outs_frame [frame_outs]: "list_all from_frame (snd (ss_handleFrame env now f s))"
  by (simp add: ss_handleFrame_def ss_dispatch_def Let_def frame_outs split: prod.split option.split)

lemma outs_emission [frame_outs]: "list_all from_frame (snd (ss_emission env now e s))"
  by (cases e) (simp_all add: outs_each frame_outs split_beta)

lemma outs_ordered [frame_outs]: "list_all from_frame (snd (ss_ordered env now r s))"
  by (simp add: ss_ordered_def outs_each frame_outs split_beta)

text \<open>The surroundings of the examples: an attached camera behind its HomeBase, ciphers that leave the text as it is.\<close>

definition sample_env :: session_env where
  "sample_env = \<lparr> mr_cameraModel = ''T8113'', mr_cameraDeviceType = None, mr_stationModel = Some ''T8030'', mr_homeBaseAttached = True,
     so_purpose = PurposeControl, so_channel = 2, so_accountId = ''owner'', so_commandKey = replicate 16 0, so_resolves = False, so_trial = False,
     so_did = replicate 20 0, so_dskKey = [], so_cloudHosts = [], so_localAddress = None, so_publicKey = ''a1'', so_crypto = clear_crypto,
     so_sealing = clear_sealing, so_nonce = (\<lambda>n. replicate 12 1), so_codec = \<lparr> tc_utf8 = map (\<lambda>b. char_of (unat b)), tc_json = (\<lambda>_. None) \<rparr>,
     so_port = (\<lambda>k. 40000 + k),
     so_audioListeners = (\<lambda>_. 1) \<rparr>"

end
