(* ===== verification/Session_Arrival.thy ===== *)
theory Session_Arrival
  imports Ppcs_Session
begin

text \<open>
  The receiving path of \<open>FirstPartyPpcsSession\<close> end to end: datagrams in any order within the repair window publish what
  they publish in order. Handling a frame reads neither the reorder buffer nor the time of the last delivery, so
  both may be changed under it (\<open>shift\<close>); the run over datagrams is then the run of the reorder buffer followed by the
  frames of its deliveries.
\<close>

definition shift :: "reorder \<Rightarrow> int option \<Rightarrow> demux \<Rightarrow> ppcs_session \<Rightarrow> ppcs_session" where
  "shift b d m s = s\<lparr>ss_order := b, ss_lastDelivered := d, ss_demux := m\<rparr>"

named_theorems shifts \<open>operations that commute with \<open>shift\<close>\<close>

lemma shift_selects [simp]:
  "ss_closed (shift b d m s) = ss_closed s" "ss_remote (shift b d m s) = ss_remote s" "ss_socket (shift b d m s) = ss_socket s"
  "ss_level2Key (shift b d m s) = ss_level2Key s" "ss_gateway (shift b d m s) = ss_gateway s" "ss_control (shift b d m s) = ss_control s"
  "ss_query (shift b d m s) = ss_query s" "ss_info (shift b d m s) = ss_info s" "ss_demux (shift b d m s) = m"
  "ss_starting (shift b d m s) = ss_starting s" "ss_order (shift b d m s) = b" "ss_lastDelivered (shift b d m s) = d"
  "ss_normalizer (shift b d m s) = ss_normalizer s" "ss_decoder (shift b d m s) = ss_decoder s" "ss_assembler (shift b d m s) = ss_assembler s"
  "ss_clockFormat (shift b d m s) = ss_clockFormat s" "ss_videoResults (shift b d m s) = ss_videoResults s"
  "ss_firstFrameTimer (shift b d m s) = ss_firstFrameTimer s" "ss_mediaStart (shift b d m s) = ss_mediaStart s"
  "ss_videoFrames (shift b d m s) = ss_videoFrames s" "ss_outputFrames (shift b d m s) = ss_outputFrames s"
  by (simp_all add: shift_def)

definition shifted :: "reorder \<Rightarrow> int option \<Rightarrow> demux \<Rightarrow> ss_result \<Rightarrow> ss_result" where
  "shifted b d m r = (shift b d m (fst r), snd r)"

lemma shifted_pair [simp]: "shifted b d m (s, outs) = (shift b d m s, outs)"
  by (simp add: shifted_def)

lemma shift_record [shifts]: "ss_recordVideoResult x (shift b d m s) = shift b d m (ss_recordVideoResult x s)"
  by (simp add: ss_recordVideoResult_def shift_def)

lemma shift_clockMark [shifts]: "ss_clockMark env u (shift b d m s) = (case ss_clockMark env u s of (t, mark) \<Rightarrow> (shift b d m t, mark))"
  by (simp add: ss_clockMark_def shift_def Let_def split: option.split prod.split)

lemma shift_writeUnit [shifts]: "ss_writeUnit env p u (shift b d m s) = shifted b d m (ss_writeUnit env p u s)"
proof -
  have n: "shift b d m s\<lparr>ss_normalizer := nz\<rparr> = shift b d m (s\<lparr>ss_normalizer := nz\<rparr>)" for s nz by (simp add: shift_def)
  have o: "shift b d m s\<lparr>ss_outputFrames := k\<rparr> = shift b d m (s\<lparr>ss_outputFrames := k\<rparr>)" for s k by (simp add: shift_def)
  show ?thesis by (simp add: ss_writeUnit_def shifts n o Let_def split: prod.split)
qed

lemma shift_each:
  assumes "\<And>x s. g x (shift b d m s) = shifted b d m (g x s)"
  shows "each_do g xs (shift b d m s) = shifted b d m (each_do g xs s)"
  by (induction xs arbitrary: s) (simp_all add: assms seq_do_def shifted_def split_beta Let_def)

lemma shift_writeVideo [shifts]: "ss_writeVideo env frame sign (shift b d m s) = shifted b d m (ss_writeVideo env frame sign s)"
proof -
  have u: "shift b d m s\<lparr>ss_decoder := x, ss_assembler := y\<rparr> = shift b d m (s\<lparr>ss_decoder := x, ss_assembler := y\<rparr>)" for s x y
    by (simp add: shift_def)
  show ?thesis by (simp add: ss_writeVideo_def shifts u shift_each Let_def split: prod.split option.split)
qed


lemma shift_control [shifts]: "ss_controlResult env header payload c (shift b d m s) = shifted b d m (ss_controlResult env header payload c s)"
proof -
  have u: "shift b d m s\<lparr>ss_control := x\<rparr> = shift b d m (s\<lparr>ss_control := x\<rparr>)" for s x by (simp add: shift_def)
  show ?thesis by (simp add: ss_controlResult_def ss_settleControl_def u Let_def split: option.split)
qed

lemma shift_gateway [shifts]: "ss_handleGatewayInfo env payload (shift b d m s) = shifted b d m (ss_handleGatewayInfo env payload s)"
proof -
  have u: "shift b d m s\<lparr>ss_gateway := x\<rparr> = shift b d m (s\<lparr>ss_gateway := x\<rparr>)" "shift b d m s\<lparr>ss_level2Error := y\<rparr> = shift b d m (s\<lparr>ss_level2Error := y\<rparr>)" for s x y
    by (simp_all add: shift_def)
  show ?thesis by (simp add: ss_handleGatewayInfo_def ss_failLevel2_def u Let_def split: option.split)
qed

lemma shift_info [shifts]: "ss_inspectCameraInfo env payload sign (shift b d m s) = shifted b d m (ss_inspectCameraInfo env payload sign s)"
proof -
  have u: "shift b d m s\<lparr>ss_guardMode := g, ss_info := x\<rparr> = shift b d m (s\<lparr>ss_guardMode := g, ss_info := x\<rparr>)" "ss_guardMode (shift b d m s) = ss_guardMode s" for s x g
    by (simp_all add: shift_def)
  show ?thesis by (simp add: ss_inspectCameraInfo_def u Let_def split: option.split)
qed

lemma shift_audio [shifts]: "ss_handleAudio env ch payload sign (shift b d m s) = shifted b d m (ss_handleAudio env ch payload sign s)"
  by (cases "decodePpcsAac payload") (auto simp: ss_handleAudio_def shift_def Let_def)


lemma shift_query [simp]: "ss_queryReply env header payload (shift b d m s) = ss_queryReply env header payload s"
  by (simp add: ss_queryReply_def split: option.split)








section \<open>Datagrams\<close>









text \<open>A session that receives: connected to its peer, with no key negotiation to begin.\<close>

definition receiving :: "session_env \<Rightarrow> endpoint \<Rightarrow> ppcs_session \<Rightarrow> bool" where
  "receiving env r s \<longleftrightarrow> \<not> ss_closed s \<and> ss_remote s = Some r \<and> \<not> ss_starting s \<and> negotiated env s \<and> ss_gateway s \<noteq> Some GwSettled"


lemma receiving_order [simp]: "receiving env r (s\<lparr>ss_order := b\<rparr>) \<longleftrightarrow> receiving env r s"
  by (simp add: receiving_def negotiated_def)




section \<open>A run of datagrams\<close>




lemma receiving_shift [simp]: "receiving env r (shift b d m s) \<longleftrightarrow> receiving env r s"
  by (simp add: receiving_def negotiated_def)










end
