(* ===== verification/Session_Life.thy ===== *)
theory Session_Life
  imports Ppcs_Session
begin

text \<open>
  The life of \<open>FirstPartyPpcsSession\<close>: what every step keeps, that a session ends once and then stays silent, that a
  connected session is always watched by its deadlines, and that an attached stream that goes silent is asked for again
  once and closed after a second silent window.
\<close>

section \<open>Sends and received frames, field by field\<close>

lemmas sent_fields = rest_fields [OF idle_send] rest_fields [OF idle_sendMediaStart] rest_fields [OF idle_sendCommand] rest_fields [OF idle_sendAttached]
  rest_fields [OF idle_stopAttached] rest_fields [OF idle_startOwn] rest_fields [OF idle_checkCandidate] rest_fields [OF idle_lookup]

lemma link_fields:
  assumes "link t = link s"
  shows "ss_closed t = ss_closed s" "ss_remote t = ss_remote s" "ss_starting t = ss_starting s" "ss_heartbeat t = ss_heartbeat s"
    "ss_maximumDurationTimer t = ss_maximumDurationTimer s" "ss_restartTimer t = ss_restartTimer s" "ss_lookupTimer t = ss_lookupTimer s"
    "ss_lastReassert t = ss_lastReassert s" "ss_level2Key t = ss_level2Key s" "ss_socket t = ss_socket s" "ss_order t = ss_order s"
    "ss_startAttempts t = ss_startAttempts s"
  using assms by (simp_all add: link_def)

definition is_video :: "ss_out \<Rightarrow> bool" where
  "is_video x = (case x of SsVideo _ _ \<Rightarrow> True | _ \<Rightarrow> False)"

lemma wrote_video_iff: "wrote_video outs \<longleftrightarrow> (\<exists>x\<in>set outs. is_video x)"
  by (simp add: wrote_video_def is_video_def)

lemma wrote_append: "wrote_video (xs @ ys) \<longleftrightarrow> wrote_video xs \<or> wrote_video ys"
  by (auto simp: wrote_video_iff)

text \<open>How an operation treats the delivery time and the first-frame timer, given what it put out.\<close>

definition delivers :: "ppcs_session \<Rightarrow> ss_out list \<Rightarrow> ppcs_session \<Rightarrow> bool" where
  "delivers s outs t \<longleftrightarrow> (ss_lastDelivered t \<noteq> None \<longleftrightarrow> ss_lastDelivered s \<noteq> None \<or> wrote_video outs) \<and>
     (ss_firstFrameTimer s \<longrightarrow> ss_firstFrameTimer t \<or> ss_lastDelivered t \<noteq> None) \<and> (ss_firstFrameTimer t \<longrightarrow> ss_firstFrameTimer s) \<and>
     (\<not> wrote_video outs \<longrightarrow> ss_lastDelivered t = ss_lastDelivered s)"

lemma delivers_refl: "delivers s [] s"
  by (simp add: delivers_def wrote_video_def)

lemma delivers_chain: "delivers s a t \<Longrightarrow> delivers t b u \<Longrightarrow> delivers s (a @ b) u"
  unfolding delivers_def wrote_video_iff set_append bex_Un by metis

definition delivers_of :: "ppcs_session \<Rightarrow> ss_result \<Rightarrow> bool" where
  "delivers_of s r = delivers s (snd r) (fst r)"

lemma delivers_of_cong:
  "ss_lastDelivered t = ss_lastDelivered s \<Longrightarrow> ss_firstFrameTimer t = ss_firstFrameTimer s \<Longrightarrow> delivers_of t r = delivers_of s r"
  by (simp add: delivers_of_def delivers_def)

lemma delivers_each: "(\<And>x s. delivers_of s (g x s)) \<Longrightarrow> delivers_of s (each_do g xs s)"
proof (induction xs arbitrary: s)
  case (Cons x xs)
  have "delivers s (snd (g x s)) (fst (g x s))" using Cons.prems by (simp add: delivers_of_def)
  moreover have "delivers (fst (g x s)) (snd (each_do g xs (fst (g x s)))) (fst (each_do g xs (fst (g x s))))"
    using Cons by (simp add: delivers_of_def)
  ultimately show ?case by (auto simp: delivers_of_def fst_seq_do snd_seq_do intro: delivers_chain)
qed (simp add: delivers_of_def delivers_refl)

text \<open>Writing video leaves both alone; the handler then sets them when something was written.\<close>

lemma writeVideo_untouched:
  "ss_lastDelivered (fst (ss_writeVideo env frame sign s)) = ss_lastDelivered s \<and>
   ss_firstFrameTimer (fst (ss_writeVideo env frame sign s)) = ss_firstFrameTimer s"
proof -
  define p where "p s = (ss_lastDelivered s, ss_firstFrameTimer s)" for s :: ppcs_session
  have r: "p (ss_recordVideoResult x t) = p t" for x t by (simp add: p_def ss_recordVideoResult_def)
  have u: "p (fst (ss_writeUnit env q u t)) = p t" for q u t
    by (simp add: ss_writeUnit_def ss_clockMark_def p_def ss_recordVideoResult_def Let_def split: prod.split)
  have e: "p (fst (each_do (ss_writeUnit env q) us t)) = p t" for q us t by (induction us arbitrary: t) (simp_all add: fst_seq_do u)
  have d: "p (s\<lparr>ss_decoder := x, ss_assembler := y\<rparr>) = p s" for s x y by (simp add: p_def)
  have "p (fst (ss_writeVideo env frame sign s)) = p s"
    by (simp add: ss_writeVideo_def r e d Let_def split: prod.split option.split)
  then show ?thesis by (simp add: p_def)
qed

lemma delivers_video: "delivers_of s (ss_handleVideo env now payload sign s)"
proof -
  obtain t outs where w: "ss_writeVideo env payload sign (s\<lparr>ss_videoFrames := Suc (ss_videoFrames s)\<rparr>) = (t, outs)" by (rule prod.exhaust)
  have "ss_lastDelivered t = ss_lastDelivered s \<and> ss_firstFrameTimer t = ss_firstFrameTimer s"
    using writeVideo_untouched [of env payload sign "s\<lparr>ss_videoFrames := Suc (ss_videoFrames s)\<rparr>"] by (simp add: w)
  then show ?thesis by (auto simp: delivers_of_def delivers_def ss_handleVideo_def w ss_videoDelivered_def)
qed

lemma delivers_plain:
  "ss_lastDelivered t = ss_lastDelivered s \<Longrightarrow> ss_firstFrameTimer t = ss_firstFrameTimer s \<Longrightarrow> \<forall>x\<in>set outs. \<not> is_video x \<Longrightarrow> delivers s outs t"
  by (auto simp: delivers_def wrote_video_iff)

lemma delivers_frame: "delivers_of s (ss_handleFrame env now f s)"
proof -
  have c: "delivers_of s (ss_controlResult env header payload c s)" for header payload c
    by (auto simp: delivers_of_def ss_controlResult_def ss_settleControl_def Let_def is_video_def split: option.split intro: delivers_plain)
  have g: "delivers_of s (ss_handleGatewayInfo env payload (s\<lparr>ss_gatewayRequest := m\<rparr>))" for payload m
    by (auto simp: delivers_of_def ss_handleGatewayInfo_def ss_failLevel2_def Let_def is_video_def split: option.split intro: delivers_plain)
  have i: "delivers_of s (ss_inspectCameraInfo env payload sign s)" for payload sign
    by (auto simp: delivers_of_def ss_inspectCameraInfo_def Let_def is_video_def split: option.split intro: delivers_plain)
  have a: "delivers_of s (ss_handleAudio env ch payload sign s)" for ch payload sign
    by (auto simp: delivers_of_def ss_handleAudio_def Let_def is_video_def split: option.split intro: delivers_plain)
  have o: "delivers_of s (s\<lparr>ss_foreignVideo := k\<rparr>, [])" "delivers_of s (s, [])" "delivers_of s (s\<lparr>ss_query := None\<rparr>, [SsQueryDone j q])" for k j q
    by (auto simp: delivers_of_def is_video_def intro: delivers_plain)
  show ?thesis by (simp add: ss_handleFrame_def ss_dispatch_def c g i a o delivers_video Let_def split: prod.split option.split)
qed

lemma delivers_emission: "delivers_of s (ss_emission env now e s)"
proof (cases e)
  case (RoDeliver data sq type)
  define t where "t = s\<lparr>ss_demux := fst (dm_consumeData (ss_demux s) data type)\<rparr>"
  have "delivers_of t (each_do (ss_handleFrame env now) fs t)" for fs by (rule delivers_each) (rule delivers_frame)
  then show ?thesis using delivers_of_cong [of t s] by (simp add: RoDeliver split_beta t_def)
qed (auto simp: delivers_of_def intro: delivers_plain)

lemma delivers_ordered: "delivers_of s (ss_ordered env now r s)"
proof -
  define t where "t = s\<lparr>ss_order := fst r\<rparr>"
  have "delivers_of t (each_do (ss_emission env now) (snd r) t)" by (rule delivers_each) (rule delivers_emission)
  then show ?thesis using delivers_of_cong [of t s] by (simp add: ss_ordered_def split_beta t_def)
qed

lemma link_ordered: "link (fst (ss_ordered env now r s)) = link (s\<lparr>ss_order := fst r\<rparr>)"
  by (simp add: ss_ordered_def split_beta link_each receives)

section \<open>Close\<close>

text \<open>What is off in a closed session.\<close>

definition still :: "ppcs_session \<Rightarrow> bool" where
  "still s \<longleftrightarrow> ss_closed s \<and> \<not> ss_starting s \<and> \<not> ss_lookupTimer s \<and> \<not> ss_maximumDurationTimer s \<and> \<not> ss_firstFrameTimer s \<and>
     \<not> ss_heartbeat s \<and> \<not> ss_restartTimer s \<and> \<not> ms_timer (ss_mediaStart s) \<and> \<not> ms_timer (ss_gatewayRequest s) \<and>
     rb_channels (ss_order s) = [] \<and> rb_closed (ss_order s)"

lemma and_then_cases: "and_then r g = (if SsThrow \<in> set (snd r) then r else (fst (g (fst r)), snd r @ snd (g (fst r))))"
  by (simp add: and_then_def seq_do_def split_beta Let_def)

lemma sendCommand_mediaStart: "ss_mediaStart (fst (ss_sendCommand now command payload False s)) = ss_mediaStart s"
  by (simp add: ss_sendCommand_def ss_send_def Let_def split: option.split)

lemma stop_mediaStart: "ss_mediaStart (fst (ss_stopAttachedMedia env now s)) = ms_stop (ss_mediaStart s)"
  by (simp add: ss_stopAttachedMedia_def sendCommand_mediaStart ss_sendAttachedMediaControl_def ss_send_def Let_def split: option.split)

lemma still_send: "idle t = idle s \<Longrightarrow> ms_timer (ss_mediaStart t) = ms_timer (ss_mediaStart s) \<Longrightarrow> still t = still s"
  using rest_fields [of t s] by (simp add: still_def)

lemma still_retire: "still (fst (ss_retire reason s))"
  by (simp add: still_def ss_retire_def ss_recordVideoResult_def ms_close_def ms_mediaReceived_def ms_retireTimer_def ms_pending_def rb_close_def Let_def)

lemma still_farewell [simp]: "still (fst (ss_farewell s)) = still s"
  by (simp add: ss_farewell_def ss_closePool_def still_def split: option.split)

lemma retired_requests:
  "ss_control (fst (ss_retire reason s)) = None" "ss_query (fst (ss_retire reason s)) = None" "ss_info (fst (ss_retire reason s)) = None"
  "ss_closeReason (fst (ss_retire reason s)) = Some reason" "ss_remote (fst (ss_retire reason s)) = ss_remote s"
  "ss_socket (fst (ss_retire reason s)) = ss_socket s" "ms_timer (ss_mediaStart (fst (ss_retire reason s))) = False"
  "ms_current (ss_mediaStart (fst (ss_retire reason s))) = None" "ss_ending (fst (ss_retire reason s)) = ss_ending s"
  by (simp_all add: ss_retire_def ss_recordVideoResult_def ms_close_def ms_mediaReceived_def ms_retireTimer_def ms_pending_def Let_def)


text \<open>The state after the media stop, which \<open>close\<close> sends for an attached media session.\<close>

definition ss_stopped :: "session_env \<Rightarrow> int \<Rightarrow> ppcs_session \<Rightarrow> ss_result" where
  "ss_stopped env now s = (if so_purpose env = PurposeMedia \<and> mr_homeBaseAttached env then ss_stopAttachedMedia env now s else (s, []))"

lemma idle_stopped: "idle (fst (ss_stopped env now s)) = idle s"
  by (simp add: ss_stopped_def sends)

lemma still_stopped: "still s \<Longrightarrow> still (fst (ss_stopped env now s))"
proof -
  assume s: "still s"
  then have "\<not> ms_timer (ms_stop (ss_mediaStart s))" by (simp add: still_def ms_stop_def ms_retireTimer_def)
  then show ?thesis using s still_send [OF idle_stopped, of env now s] by (auto simp: ss_stopped_def stop_mediaStart still_def)
qed

lemma close_open:
  assumes "\<not> ss_closed s"
  shows "ss_close env now reason s = and_then (and_then (ss_retire reason s) (ss_stopped env now)) ss_farewell"
  using assms by (simp add: ss_close_def ss_stopped_def [abs_def])

lemma close_still:
  assumes "\<not> ss_closed s"
  shows "still (fst (ss_close env now reason s))" "ss_control (fst (ss_close env now reason s)) = None"
    "ss_query (fst (ss_close env now reason s)) = None" "ss_info (fst (ss_close env now reason s)) = None"
    "ss_closeReason (fst (ss_close env now reason s)) = Some reason"
proof -
  note i = rest_fields [OF idle_stopped [of env now "fst (ss_retire reason s)"]]
  have f: "ss_control (fst (ss_farewell t)) = ss_control t" "ss_query (fst (ss_farewell t)) = ss_query t" "ss_info (fst (ss_farewell t)) = ss_info t"
    "ss_closeReason (fst (ss_farewell t)) = ss_closeReason t" for t
    by (simp_all add: ss_farewell_def ss_closePool_def split: option.split)
  show "still (fst (ss_close env now reason s))"
    unfolding close_open [OF assms] by (simp add: and_then_cases still_retire still_stopped)
  show "ss_control (fst (ss_close env now reason s)) = None" "ss_query (fst (ss_close env now reason s)) = None"
    "ss_info (fst (ss_close env now reason s)) = None" "ss_closeReason (fst (ss_close env now reason s)) = Some reason"
    unfolding close_open [OF assms] by (simp_all add: and_then_cases i f retired_requests)
qed

section \<open>The invariant\<close>

definition vital where
  "vital s = (ss_closed s, ss_starting s, ss_remote s, ss_heartbeat s, ss_maximumDurationTimer s, ss_firstFrameTimer s, ss_lastDelivered s)"

lemma vital_idle: "idle t = idle s \<Longrightarrow> vital t = vital s"
  using rest_fields [of t s] by (simp add: vital_def)

lemma vital_and_then: "(\<And>s. vital (fst (g s)) = vital s) \<Longrightarrow> vital (fst (and_then r g)) = vital (fst r)"
  by (simp add: and_then_cases)

text \<open>A session waits for its start only without a peer; a closed one is still; a connected one is watched by its lifetime
  deadline, and, for media, by the first-frame deadline until something was delivered.\<close>

definition watched :: "session_env \<Rightarrow> ppcs_session \<Rightarrow> bool" where
  "watched env s \<longleftrightarrow> (ss_starting s \<longrightarrow> ss_remote s = None) \<and> (ss_heartbeat s \<longleftrightarrow> ss_maximumDurationTimer s) \<and>
     (ss_heartbeat s \<longrightarrow> ss_remote s \<noteq> None) \<and>
     (ss_maximumDurationTimer s \<longrightarrow> so_purpose env = PurposeMedia \<longrightarrow> ss_firstFrameTimer s \<or> ss_lastDelivered s \<noteq> None)"

definition life :: "session_env \<Rightarrow> ppcs_session \<Rightarrow> bool" where
  "life env s \<longleftrightarrow> (if ss_closed s then still s else watched env s)"

lemma watched_vital: "vital t = vital s \<Longrightarrow> watched env t = watched env s"
  by (simp add: vital_def watched_def)

lemma life_still: "still s \<Longrightarrow> life env s"
  by (simp add: life_def still_def)

lemma life_vital: "vital t = vital s \<Longrightarrow> \<not> ss_closed s \<Longrightarrow> life env s \<Longrightarrow> life env t"
  using watched_vital [of t s env] by (simp add: life_def vital_def)

lemma life_close: "life env s \<Longrightarrow> life env (fst (ss_close env now reason s))"
  using close_still(1) [of s] life_still by (cases "ss_closed s") (auto simp: ss_close_def)

lemma life_new: "life env (ss_new k key)"
  by (simp add: life_def watched_def ss_new_def)

section \<open>Steps\<close>

lemma vital_updates [simp]:
  "vital (s\<lparr>ss_seq := a1\<rparr>) = vital s" "vital (s\<lparr>ss_gatewayRequest := a2\<rparr>) = vital s" "vital (s\<lparr>ss_mediaStart := a3\<rparr>) = vital s"
  "vital (s\<lparr>ss_pool := a4\<rparr>) = vital s" "vital (s\<lparr>ss_lookupTimer := a5\<rparr>) = vital s" "vital (s\<lparr>ss_selfAddress := a6\<rparr>) = vital s"
  "vital (s\<lparr>ss_restartTimer := a7\<rparr>) = vital s" "vital (s\<lparr>ss_lastReassert := a8\<rparr>) = vital s" "vital (s\<lparr>ss_gateway := a9\<rparr>) = vital s"
  "vital (s\<lparr>ss_level2Error := b1\<rparr>) = vital s" "vital (s\<lparr>ss_decoder := b2\<rparr>) = vital s" "vital (s\<lparr>ss_level2Key := b3\<rparr>) = vital s"
  "vital (s\<lparr>ss_control := b4\<rparr>) = vital s" "vital (s\<lparr>ss_query := b5\<rparr>) = vital s" "vital (s\<lparr>ss_info := b6\<rparr>) = vital s"
  "vital (s\<lparr>ss_ending := b7\<rparr>) = vital s"
  by (simp_all add: vital_def)

lemmas vital_sends = vital_idle [OF idle_send] vital_idle [OF idle_sendMediaStart] vital_idle [OF idle_sendCommand] vital_idle [OF idle_sendAttached]
  vital_idle [OF idle_stopAttached] vital_idle [OF idle_startOwn] vital_idle [OF idle_checkCandidate] vital_idle [OF idle_lookup]

lemma vital_startAttached: "vital (fst (ss_startAttachedMedia env now s)) = vital s"
  by (simp add: ss_startAttachedMedia_def ss_restartAttachedMedia_def vital_sends vital_and_then)

lemma vital_restartDue: "vital (fst (ss_restartDue env now s)) = vital s"
  by (simp add: ss_restartDue_def Let_def vital_sends)

lemma vital_identity: "vital (fst (ss_identity env now k info s)) = vital (s\<lparr>ss_remote := Some info\<rparr>)"
proof -
  have m: "vital (fst (if a then
       (let n = ss_seq t; u = t\<lparr>ss_seq := n + 1\<rparr> in
        case commandHeader n 1100 of
          None \<Rightarrow> (u, [SsThrow])
        | Some header \<Rightarrow>
            (case datagram REQ_data (header @ cameraVoidPayload 255) of
               None \<Rightarrow> (u, [SsThrow])
             | Some packet \<Rightarrow>
                 (case ms_start (int n) packet now (ss_gatewayRequest u) of
                    StartThrows \<Rightarrow> (u, [SsThrow])
                  | StartRefused \<Rightarrow> (u, [])
                  | StartSent m \<Rightarrow> (let v = u\<lparr>ss_gatewayRequest := m\<rparr> in (v, ss_transmit v packet)))))
       else ss_sendCommand now 1100 (Some (cameraVoidPayload 255)) False t)) = vital t" for a t
    by (simp add: vital_sends Let_def split: option.split start_result.split)
  have o: "vital (fst (if b then ss_startOwnMedia env now False t else (t, []))) = vital t" for b t by (simp add: vital_sends)
  have "vital (s\<lparr>ss_socket := k, ss_lookupTimer := False, ss_camId := c, ss_remote := Some info\<rparr>) = vital (s\<lparr>ss_remote := Some info\<rparr>)" for c
    by (simp add: vital_def)
  then show ?thesis unfolding ss_identity_def Let_def
    using vital_and_then [OF o] vital_and_then [OF m [unfolded Let_def]] by (simp add: vital_sends)
qed

lemma vital_link:
  assumes "link t = link s"
  shows "(ss_closed t, ss_starting t, ss_remote t, ss_heartbeat t, ss_maximumDurationTimer t) = (ss_closed s, ss_starting s, ss_remote s, ss_heartbeat s, ss_maximumDurationTimer s)"
  using link_fields [OF assms] by simp

lemma life_received:
  assumes "link t = link (s\<lparr>ss_order := b\<rparr>)" "delivers_of s (t, outs)" "\<not> ss_closed s" "life env s"
  shows "life env t \<and> \<not> ss_closed t"
proof -
  have c: "ss_closed t = ss_closed s" "ss_starting t = ss_starting s" "ss_remote t = ss_remote s" "ss_heartbeat t = ss_heartbeat s"
    "ss_maximumDurationTimer t = ss_maximumDurationTimer s"
    using link_fields [OF assms(1)] by simp_all
  have "ss_firstFrameTimer s \<or> ss_lastDelivered s \<noteq> None \<Longrightarrow> ss_firstFrameTimer t \<or> ss_lastDelivered t \<noteq> None"
    using assms(2) unfolding delivers_of_def delivers_def fst_conv by blast
  then show ?thesis using assms(3, 4) c by (simp add: life_def watched_def)
qed

text \<open>What a step does to the progress that the deadlines wait for.\<close>

definition moves :: "ppcs_session \<Rightarrow> ss_out list \<Rightarrow> ppcs_session \<Rightarrow> bool" where
  "moves s outs t \<longleftrightarrow> (ss_closed s \<longrightarrow> ss_closed t) \<and> (ss_lastDelivered t \<noteq> None \<longleftrightarrow> ss_lastDelivered s \<noteq> None \<or> wrote_video outs) \<and>
     (ss_maximumDurationTimer s \<or> SsConnected \<in> set outs \<longrightarrow> ss_closed t \<or> ss_maximumDurationTimer t) \<and>
     count_list outs SsEnded \<le> (if ss_closed t \<and> \<not> ss_closed s then 1 else 0)"

lemma moves_refl: "moves s [] s"
  by (simp add: moves_def wrote_video_def)

lemma moves_trans: "moves s a t \<Longrightarrow> moves t b u \<Longrightarrow> moves s (a @ b) u"
proof -
  assume a: "moves s a t" and b: "moves t b u"
  have n: "count_list a SsEnded \<le> (if ss_closed t \<and> \<not> ss_closed s then 1 else 0)" "count_list b SsEnded \<le> (if ss_closed u \<and> \<not> ss_closed t then 1 else 0)"
    "ss_closed s \<longrightarrow> ss_closed t" "ss_closed t \<longrightarrow> ss_closed u"
    using a b unfolding moves_def by blast+
  then have "count_list (a @ b) SsEnded \<le> (if ss_closed u \<and> \<not> ss_closed s then 1 else 0)"
    by (cases "ss_closed s"; cases "ss_closed t"; cases "ss_closed u") simp_all
  moreover have "(ss_lastDelivered u \<noteq> None) = (ss_lastDelivered s \<noteq> None \<or> wrote_video (a @ b))"
    using a b unfolding moves_def wrote_append by blast
  moreover have "ss_maximumDurationTimer s \<or> SsConnected \<in> set (a @ b) \<longrightarrow> ss_closed u \<or> ss_maximumDurationTimer u"
    using a b unfolding moves_def set_append Un_iff by blast
  ultimately show ?thesis using n(3, 4) by (simp add: moves_def)
qed

definition quiet :: "ss_out list \<Rightarrow> bool" where
  "quiet outs \<longleftrightarrow> (\<forall>x\<in>set outs. \<not> is_video x \<and> x \<noteq> SsConnected \<and> x \<noteq> SsEnded)"

named_theorems quiets

lemma quiet_outs: "quiet outs \<Longrightarrow> \<not> wrote_video outs \<and> SsConnected \<notin> set outs \<and> count_list outs SsEnded = 0"
  by (auto simp: quiet_def wrote_video_iff)

lemma moves_vital: "vital t = vital s \<Longrightarrow> quiet outs \<Longrightarrow> moves s outs t"
  using quiet_outs [of outs] by (auto simp: moves_def vital_def)

lemma moves_quiet: "quiet q \<Longrightarrow> moves s (q @ outs) t = moves s outs t" "quiet q \<Longrightarrow> moves s (outs @ q) t = moves s outs t"
  using quiet_outs [of q] by (simp_all add: moves_def wrote_append)

lemma quiet_simps [simp]:
  "quiet []" "quiet (x # xs) \<longleftrightarrow> (\<not> is_video x \<and> x \<noteq> SsConnected \<and> x \<noteq> SsEnded) \<and> quiet xs" "quiet (xs @ ys) \<longleftrightarrow> quiet xs \<and> quiet ys"
  by (auto simp: quiet_def)

lemma quiet_and_then: "quiet (snd r) \<Longrightarrow> (\<And>s. quiet (snd (g s))) \<Longrightarrow> quiet (snd (and_then r g))"
  by (simp add: and_then_cases)

lemma quiet_each_then: "(\<And>x s. quiet (snd (g x s))) \<Longrightarrow> quiet (snd (each_then g xs s))"
  by (induction xs arbitrary: s) (simp_all add: quiet_and_then)

lemma quiet_send [quiets]: "quiet (snd (ss_send type payload a k s))"
  by (simp add: ss_send_def is_video_def split: option.split)

lemma quiet_transmit [quiets]: "quiet (ss_transmit s packet)"
  by (simp add: ss_transmit_def is_video_def split: option.split)

lemma quiet_sendMediaStart [quiets]: "quiet (snd (ss_sendMediaStart now payload s))"
  by (simp add: ss_sendMediaStart_def quiets is_video_def Let_def split: option.split start_result.split)

lemma quiet_sendCommand [quiets]: "quiet (snd (ss_sendCommand now command payload m s))"
  by (simp add: ss_sendCommand_def quiets is_video_def Let_def split: option.split)

lemma quiet_sendAttached [quiets]: "quiet (snd (ss_sendAttachedMediaControl env now command s))"
  by (simp add: ss_sendAttachedMediaControl_def quiets is_video_def Let_def split: option.split)

lemma quiet_stopAttached [quiets]: "quiet (snd (ss_stopAttachedMedia env now s))"
  by (simp add: ss_stopAttachedMedia_def quiets Let_def split: option.split)

lemma quiet_startAttached [quiets]: "quiet (snd (ss_startAttachedMedia env now s))"
  by (simp add: ss_startAttachedMedia_def ss_restartAttachedMedia_def quiets quiet_and_then)

lemma quiet_startOwn [quiets]: "quiet (snd (ss_startOwnMedia env now upgrade s))"
  by (simp add: ss_startOwnMedia_def quiets is_video_def Let_def split: option.split)

lemma quiet_checkCandidate [quiets]: "quiet (snd (ss_checkCandidate env a k s))"
  by (simp add: ss_checkCandidate_def quiet_each_then quiets)

lemma quiet_lookup [quiets]: "quiet (snd (ss_lookup env s))"
proof -
  have "quiet (snd (ss_lookup_from env k s))" for k s by (simp add: ss_lookup_from_def quiet_each_then quiets split: prod.split)
  then show ?thesis by (simp add: ss_lookup_def quiet_and_then quiet_each_then quiets)
qed

lemma quiet_retire: "quiet (snd (ss_retire reason s))"
  by (simp add: ss_retire_def ss_rejections_def is_video_def Let_def split: option.split)

lemma quiet_stopped: "quiet (snd (ss_stopped env now s))"
  by (simp add: ss_stopped_def quiets)

lemma close_outs: "\<not> wrote_video (snd (ss_close env now reason s)) \<and> SsConnected \<notin> set (snd (ss_close env now reason s)) \<and>
    count_list (snd (ss_close env now reason s)) SsEnded \<le> 1"
proof -
  have f: "\<not> wrote_video (snd (ss_farewell s))" "SsConnected \<notin> set (snd (ss_farewell s))" "count_list (snd (ss_farewell s)) SsEnded = 1" for s
    by (simp_all add: ss_farewell_def wrote_video_def split: option.split)
  note q = quiet_outs [OF quiet_retire] quiet_outs [OF quiet_stopped]
  have "\<not> ss_closed s \<Longrightarrow> ?thesis" by (simp add: close_open and_then_cases f q wrote_append)
  then show ?thesis by (cases "ss_closed s") (simp_all add: ss_close_def wrote_video_def)
qed

lemma quiet_identity [quiets]: "quiet (snd (ss_identity env now k info s))"
  unfolding ss_identity_def Let_def
  by (intro quiet_and_then) (simp_all add: quiets is_video_def Let_def split: option.split start_result.split)

lemma close_lastDelivered: "ss_lastDelivered (fst (ss_close env now reason s)) = ss_lastDelivered s"
proof -
  have "ss_lastDelivered (fst (ss_retire reason s)) = ss_lastDelivered s" for s
    by (simp add: ss_retire_def ss_recordVideoResult_def Let_def)
  moreover have "ss_lastDelivered (fst (ss_farewell s)) = ss_lastDelivered s" for s by (simp add: ss_farewell_def ss_closePool_def split: option.split)
  moreover note rest_fields(5) [OF idle_stopped]
  ultimately have "\<not> ss_closed s \<Longrightarrow> ?thesis" by (simp add: close_open and_then_cases)
  then show ?thesis by (cases "ss_closed s") (simp_all add: ss_close_def)
qed

text \<open>A step keeps the invariant and moves the deadlines' progress only as its outputs show.\<close>

definition good_step :: "session_env \<Rightarrow> ppcs_session \<Rightarrow> ss_result \<Rightarrow> bool" where
  "good_step env s r \<longleftrightarrow> life env (fst r) \<and> moves s (snd r) (fst r)"

lemma good_vital:
  assumes "life env s" "\<not> ss_closed s" "vital (fst r) = vital s" "quiet (snd r)"
  shows "good_step env s r"
  using assms life_vital moves_vital by (simp add: good_step_def quiet_def)

lemma good_close:
  assumes "life env s" "\<not> ss_closed s" "ss_lastDelivered t = ss_lastDelivered s" "\<not> ss_closed t"
  shows "good_step env s (ss_close env now reason t)"
  using close_still(1) [OF assms(4), of env now reason] close_outs [of env now reason t] assms
  by (simp add: good_step_def life_still moves_def close_lastDelivered) (simp add: still_def)


definition requests :: "ppcs_session \<Rightarrow> bool" where
  "requests s \<longleftrightarrow> ss_control s \<noteq> None \<or> ss_query s \<noteq> None \<or> ss_info s \<noteq> None"

lemma still_close: "still s \<Longrightarrow> ss_close env now reason s = (s, [])"
  by (simp add: ss_close_def still_def)

lemma still_socketError: "still s \<Longrightarrow> ss_socketError env now s = (s\<lparr>ss_starting := False\<rparr>, [])"
  by (simp add: ss_socketError_def still_close and_then_cases ss_close_def) (simp add: still_def)


lemma still_step:
  assumes "still s"
  shows "still (fst (ss_step env s e)) \<and> quiet (snd (ss_step env s e)) \<and> ss_lastDelivered (fst (ss_step env s e)) = ss_lastDelivered s"
proof -
  have p: "still (s\<lparr>ss_pool := p\<rparr>)" for p using assms by (simp add: still_def)
  have c: "still (fst (ss_sendCommand now command payload False t))" if "still t" for now command payload t
    using that still_send [OF idle_sendCommand] by (simp add: sendCommand_mediaStart)
  show ?thesis
  proof (cases e)
    case (SeProbeFailed now k)
    then show ?thesis using assms still_socketError [OF p]
      by (auto simp: ss_probeFailed_def Let_def still_def split: option.split)
  next
    case (SeReorder now type)
    then show ?thesis using assms by (simp add: rb_expire_def ss_ordered_def ss_microtasks_def still_def)
  next
    case (SeMessage now k info message)
    then show ?thesis using assms by (simp add: ss_onMessage_def ss_handle_def ss_caught_def ss_microtasks_def still_def)
  next
    case (SeInfo now i)
    have "still (s\<lparr>ss_info := Some i\<rparr>)" using assms by (simp add: still_def)
    then show ?thesis using SeInfo assms c sent_fields by (simp add: ss_readCameraInfo_def quiets is_video_def)
  next
    case (SeCommand now command payload)
    then show ?thesis using assms c sent_fields by (simp add: quiets)
  qed (use assms in \<open>auto simp: still_def ss_bound_def ss_beginLookup_def ss_lookupTimeout_def ss_socketError_def ss_close_def is_video_def
      and_then_cases ss_retried_def put_mediaStart_def put_gatewayRequest_def ss_keyResolved_def ss_deriveLevel2_def ss_endSent_def ss_closePool_def
      ss_controlTimeout_def ss_queryTimeout_def ss_infoTimeout_def ss_waitForControlResult_def ss_beginQuery_def Let_def
      split: option.splits gateway_wait.splits prod.splits\<close>)
qed

text \<open>An open session, event by event.\<close>

lemma good_connected:
  assumes "life env s" "\<not> ss_closed s" "ss_remote s = None" "vital u = vital s"
  shows "good_step env s (ss_caught (and_then (ss_identity env now k info u) (ss_connected env)))"
proof -
  define r where "r = ss_identity env now k info u"
  have q: "\<not> wrote_video (snd r)" "SsConnected \<notin> set (snd r)" "count_list (snd r) SsEnded = 0"
    using quiet_outs [OF quiet_identity, of env now k info u] by (simp_all add: r_def)
  have "vital (fst r) = vital (u\<lparr>ss_remote := Some info\<rparr>)" by (simp add: r_def vital_identity)
  then have v: "ss_closed (fst r) = False" "ss_heartbeat (fst r) = ss_heartbeat s" "ss_maximumDurationTimer (fst r) = ss_maximumDurationTimer s"
      "ss_lastDelivered (fst r) = ss_lastDelivered s" "ss_remote (fst r) = Some info" "ss_starting (fst r) = ss_starting s"
    using assms(2, 4) by (simp_all add: vital_def)
  have w: "\<not> ss_heartbeat s" "\<not> ss_maximumDurationTimer s" using assms(1-3) by (auto simp: life_def watched_def)
  show ?thesis
  proof (cases "SsThrow \<in> set (snd r)")
    case True
    then show ?thesis using v w q assms(2)
      by (auto simp: and_then_cases r_def [symmetric] ss_caught_def good_step_def life_def watched_def moves_def split_beta wrote_append)
        (simp_all add: wrote_video_def)
  next
    case False
    then show ?thesis using v w q assms(2)
      by (auto simp: and_then_cases r_def [symmetric] ss_caught_def good_step_def life_def watched_def moves_def split_beta wrote_append ss_connected_def)
        (simp_all add: wrote_video_def)
  qed
qed

lemma good_caught:
  assumes "good_step env s r" "\<not> ss_closed s" "ss_starting (fst r) \<longrightarrow> vital (fst r) = vital s \<and> quiet (snd r)"
  shows "good_step env s (ss_caught r)"
proof (cases "SsThrow \<in> set (snd r) \<and> ss_starting (fst r)")
  case True
  then have v: "vital (fst r) = vital s" and q: "quiet (snd r)" using assms(3) by auto
  have l: "life env (fst r)" using assms(1) by (simp add: good_step_def)
  have "life env (fst r\<lparr>ss_starting := False\<rparr>)" using l v assms(2) by (auto simp: life_def watched_def vital_def)
  moreover have "moves s (snd r @ [SsStartFailed StartThrew]) (fst r\<lparr>ss_starting := False\<rparr>)"
    using moves_vital [OF v q] by (simp add: moves_quiet is_video_def) (simp add: moves_def)
  ultimately show ?thesis using True by (simp add: good_step_def ss_caught_def split_beta)
next
  case False
  then have "ss_caught r = r" by (auto simp: ss_caught_def split_beta)
  then show ?thesis using assms(1) by simp
qed

lemma good_microtasks: "good_step env s r \<Longrightarrow> good_step env s (ss_microtasks r)"
proof -
  assume g: "good_step env s r"
  have v: "vital (t\<lparr>ss_gateway := x\<rparr>) = vital t" "still (t\<lparr>ss_gateway := x\<rparr>) = still t" "ss_closed (t\<lparr>ss_gateway := x\<rparr>) = ss_closed t" for t x
    by (simp_all add: vital_def still_def)
  have "life env (t\<lparr>ss_gateway := None\<rparr>) = life env t" "moves s outs (t\<lparr>ss_gateway := None\<rparr>) = moves s outs t" for t outs
    using watched_vital [OF v(1)] by (simp_all add: life_def v(2) moves_def)
  then show ?thesis using g by (simp add: good_step_def ss_microtasks_def split_beta)
qed

lemma good_ordered:
  assumes "life env s" "\<not> ss_closed s"
  shows "good_step env s (ss_ordered env now r s)"
proof -
  define w where "w = ss_ordered env now r s"
  have "life env (fst w) \<and> \<not> ss_closed (fst w)"
    using life_received [of "fst w" "fst r" s "snd w"] assms delivers_ordered [of s env now r] link_ordered [of env now r s] by (simp add: w_def)
  moreover have "delivers s (snd w) (fst w)" using delivers_ordered [of s env now r] by (simp add: w_def delivers_of_def)
  moreover have "ss_maximumDurationTimer (fst w) = ss_maximumDurationTimer s" using link_fields [OF link_ordered] by (simp add: w_def)
  moreover have "SsConnected \<notin> set (snd w)" "SsEnded \<notin> set (snd w)" using outs_ordered [of env now r s] by (auto simp: w_def list_all_iff)
  ultimately show ?thesis using assms(2) unfolding w_def [symmetric] good_step_def moves_def delivers_def by (simp add: count_list_0_iff)
qed

lemma good_vital_step:
  "life env s \<Longrightarrow> \<not> ss_closed s \<Longrightarrow> ss_step env s e = r \<Longrightarrow> vital (fst r) = vital s \<Longrightarrow> quiet (snd r) \<Longrightarrow> good_step env s (ss_step env s e)"
  using good_vital [of env s r] by simp

lemma good_same: "life env s \<Longrightarrow> good_step env s (s, [])"
  by (simp add: good_step_def moves_refl)

lemma vital_acknowledged [simp]: "vital (ss_acknowledged ns s) = vital s"
  by (simp add: ss_acknowledged_def vital_def)

lemma good_prefix: "good_step env s r \<Longrightarrow> quiet pre \<Longrightarrow> good_step env s (fst r, pre @ snd r)"
  by (simp add: good_step_def moves_quiet)

lemma good_data:
  assumes "life env s" "\<not> ss_closed s"
  shows "good_step env s (ss_data env now message remote s)"
proof (cases "length message < 8")
  case True
  then show ?thesis using assms by (simp add: ss_data_def good_vital is_video_def)
next
  case False
  define a where "a = ss_send REQ_ack (slice 4 6 message @ be_bytes 2 (Suc 0) @ be_bytes 2 (u16be message 6)) remote (ss_socket s) s"
  have a: "fst a = s" "quiet (snd a)" by (simp_all add: a_def ss_send_def quiets is_video_def split: option.split)
  show ?thesis using good_same [OF assms(1)] good_vital [OF assms(1, 2), of a] good_prefix [OF good_ordered [OF assms] a(2)]
      good_prefix [OF good_same [OF assms(1)] a(2)] False a
    by (simp add: ss_data_def Let_def a_def [symmetric] and_then_cases)
qed

lemma adopt_vital: "ss_adopt k s = Some t \<Longrightarrow> vital t = vital s"
  by (auto simp: ss_adopt_def split: option.splits)

lemma good_message:
  assumes "life env s" "\<not> ss_closed s"
  shows "good_step env s (ss_onMessage env now k info message s)"
proof -
  have st: "ss_remote s \<noteq> None \<Longrightarrow> \<not> ss_starting s" using assms by (auto simp: life_def watched_def)
  have g: "good_step env s (ss_caught r)" if "vital (fst r) = vital s" "quiet (snd r)" for r
    by (rule good_caught [OF good_vital [OF assms that] assms(2)]) (use that in simp)
  have c: "good_step env s (ss_caught (and_then (ss_checkCandidate env info k s)
      (\<lambda>s. case ppcsLookupCandidate message of None \<Rightarrow> (s, [])
         | Some a \<Rightarrow> if fst a \<noteq> ''0.0.0.0'' \<and> a \<noteq> info then ss_checkCandidate env a k s else (s, []))))"
    by (rule g) (auto simp: vital_and_then vital_sends quiet_and_then quiets split: option.split)
  have d: "good_step env s (ss_caught (ss_data env now message remote s))" if "ss_remote s \<noteq> None" for remote
  proof -
    have "ss_starting (fst (ss_data env now message remote s)) = ss_starting s"
    proof -
      have "ss_starting (fst (ss_ordered env now r t)) = ss_starting t" for r t using link_fields [OF link_ordered] by simp
      then show ?thesis by (simp add: ss_data_def Let_def and_then_cases sent_fields)
    qed
    then show ?thesis using st [OF that] by (intro good_caught [OF good_data [OF assms] assms(2)]) simp
  qed
  have i: "good_step env s (ss_caught (and_then (ss_identity env now k info t) (ss_connected env)))"
    if "ss_remote s = None" "ss_adopt k s = Some t" for t
    by (rule good_connected [OF assms that(1) adopt_vital [OF that(2)]])
  define P where "P r = good_step env s (ss_caught r)" for r
  have If: "(c \<Longrightarrow> P x) \<Longrightarrow> (\<not> c \<Longrightarrow> P y) \<Longrightarrow> P (if c then x else y)" for c x y by simp
  have Opt: "(v = None \<Longrightarrow> P x) \<Longrightarrow> (\<And>a. v = Some a \<Longrightarrow> P (f a)) \<Longrightarrow> P (case v of None \<Rightarrow> x | Some a \<Rightarrow> f a)" for v x and f :: "'b \<Rightarrow> _"
    by (cases v) simp_all
  have "P (ss_handle env now k info message s)"
    unfolding ss_handle_def
  proof (intro If Opt)
  qed (simp_all add: P_def g c d i vital_sends quiets del: not_None_eq)
  then show ?thesis by (simp add: P_def ss_onMessage_def good_microtasks)
qed

lemma good_after:
  assumes "vital (fst a) = vital s" "quiet (snd a)" "good_step env (fst a) (g (fst a))" "good_step env s a"
  shows "good_step env s (and_then a g)"
proof (cases "SsThrow \<in> set (snd a)")
  case False
  have v: "ss_closed (fst a) = ss_closed s" "ss_lastDelivered (fst a) = ss_lastDelivered s" "ss_maximumDurationTimer (fst a) = ss_maximumDurationTimer s"
    using assms(1) by (simp_all add: vital_def)
  have "good_step env s (g (fst a))" using assms(3) v by (simp add: good_step_def moves_def)
  from good_prefix [OF this assms(2)] show ?thesis using False by (simp add: and_then_cases)
qed (use assms(4) in \<open>simp add: and_then_cases\<close>)

lemma good_suffix: "good_step env s r \<Longrightarrow> (\<And>t. quiet (post t)) \<Longrightarrow> good_step env s (and_then r (\<lambda>t. (t, post t)))"
  by (simp add: and_then_cases good_step_def moves_quiet)

lemma good_socketError:
  assumes "life env s" "\<not> ss_closed s" "vital t = vital s"
  shows "good_step env s (ss_socketError env now t)"
proof -
  have "good_step env s (ss_close env now StartFailed (t\<lparr>ss_starting := False\<rparr>))"
    using assms by (intro good_close) (simp_all add: vital_def)
  then show ?thesis unfolding ss_socketError_def Let_def by (rule good_suffix) (simp add: is_video_def)
qed

lemma vital_derive: "vital (fst (ss_deriveLevel2 env now plain outcome s)) = vital s"
  by (simp add: ss_deriveLevel2_def ss_failLevel2_def vital_startAttached vital_sends Let_def split: key_outcome.split option.split)

lemma quiet_derive [quiets]: "quiet (snd (ss_deriveLevel2 env now plain outcome s))"
  by (simp add: ss_deriveLevel2_def quiets Let_def split: key_outcome.split option.split)

lemma good_heartbeat:
  assumes "life env s" "\<not> ss_closed s"
  shows "good_step env s (ss_heartbeatTick env now s)"
proof (cases "ss_remote s")
  case None
  then show ?thesis using good_same [OF assms(1)] by (simp add: ss_heartbeatTick_def)
next
  case (Some r)
  have recover: "good_step env t (ss_recover env now t)" if "vital t = vital s" for t
  proof -
    have t: "life env t" "\<not> ss_closed t" using that assms life_vital by (auto simp: vital_def)
    then have "good_step env t (ss_close env now MediaStall t)" by (intro good_close) simp_all
    then show ?thesis unfolding ss_recover_def Let_def
      by (auto intro: good_vital [OF t] simp: vital_startAttached vital_sends quiets)
  qed
  have sent: "good_step env t a" if "vital t = vital s" "vital (fst a) = vital t" "quiet (snd a)" for t a
    by (rule good_vital) (use that assms life_vital [of t s] in \<open>auto simp: vital_def\<close>)
  define a where "a t = (if usesT8210StationHeartbeatProfile env then ss_sendCommand now 1139 (Some (cameraVoidPayload 255)) False t else (t, []))" for t
  have a: "vital (fst (a t)) = vital t" "quiet (snd (a t))" for t by (simp_all add: a_def vital_sends quiets)
  define g where "g t = (if so_purpose env \<noteq> PurposeMedia \<and> ss_startAttempts t = 0 then (t, []) else and_then (a t) (ss_recover env now))" for t
  have h: "good_step env t (g t)" if v: "vital t = vital s" for t
  proof -
    have "good_step env t (and_then (a t) (ss_recover env now))"
      by (rule good_after [OF a(1) a(2)]) (simp_all add: a v recover sent)
    then show ?thesis using sent [OF v, of "(t, [])"] by (simp add: g_def)
  qed
  define b where "b = ss_send REQ_ping [] r (ss_socket s) s"
  have b: "vital (fst b) = vital s" "quiet (snd b)" by (simp_all add: b_def vital_sends quiets)
  have "good_step env s (and_then b g)" by (rule good_after [OF b]) (simp_all add: b h sent)
  then show ?thesis using Some unfolding ss_heartbeatTick_def b_def g_def [abs_def] a_def [abs_def] by simp
qed

lemma quiet_restartDue [quiets]: "quiet (snd (ss_restartDue env now s))"
  by (simp add: ss_restartDue_def Let_def quiets)

lemma quiet_concat: "(\<And>x. quiet (f x)) \<Longrightarrow> quiet (concat (map f xs))"
  by (induction xs) simp_all

lemma step_good:
  assumes "life env s"
  shows "good_step env s (ss_step env s e)"
proof (cases "ss_closed s")
  case True
  then have st: "still s" using assms by (simp add: life_def)
  show ?thesis using still_step [OF st, of env e]
    by (auto simp: good_step_def life_still moves_def quiet_def wrote_video_iff still_def)
next
  case False
  note g = good_vital [OF assms False] good_same [OF assms]
  have c: "good_step env s (ss_close env now reason t)" if "vital t = vital s \<or> vital t = vital (s\<lparr>ss_maximumDurationTimer := False\<rparr>) \<or>
      vital t = vital (s\<lparr>ss_firstFrameTimer := False\<rparr>) \<or> vital t = vital (s\<lparr>ss_starting := False\<rparr>)" for now reason t
    by (rule good_close) (use that assms False in \<open>auto simp: vital_def\<close>)
  show ?thesis
  proof (cases e)
    case SeBound
    show ?thesis using False
      by (auto simp: SeBound ss_bound_def ss_beginLookup_def Let_def intro!: g quiet_and_then simp: vital_and_then vital_sends quiets)
  next
    case (SeProbeFailed now k)
    show ?thesis by (auto simp: SeProbeFailed ss_probeFailed_def Let_def intro!: g good_socketError [OF assms False] split: option.split)
  next
    case (SeLookupTimeout now)
    show ?thesis by (auto simp: SeLookupTimeout ss_lookupTimeout_def is_video_def intro!: g good_suffix c)
  next
    case (SeKey now outcome)
    show ?thesis
      by (auto simp: SeKey ss_keyResolved_def split_beta vital_derive quiets intro!: g split: option.split gateway_wait.split)
  next
    case (SeInfo now i)
    show ?thesis by (auto simp: SeInfo ss_readCameraInfo_def vital_sends quiets is_video_def intro!: g)
  next
    case SeProbesBound
    show ?thesis
      by (auto simp: SeProbesBound ss_beginLookup_def intro!: g quiet_and_then simp: vital_and_then vital_sends quiets)
  qed (auto simp: good_message [OF assms False] good_socketError [OF assms False] good_heartbeat [OF assms False] vital_restartDue vital_sends quiets
      good_microtasks [OF good_ordered [OF assms False]] ss_retried_def put_mediaStart_def put_gatewayRequest_def ss_endSent_def ss_closePool_def
      ss_waitForControlResult_def ss_controlTimeout_def ss_beginQuery_def ss_queryTimeout_def ss_infoTimeout_def is_video_def Let_def split_beta
      intro!: g c quiet_concat)
qed

interpretation sess: effect_machine "ss_step env" "life env" "\<lambda>_. True" moves for env
  using step_good by unfold_locales (auto simp: good_step_def moves_refl intro: moves_trans)

section \<open>Closed sessions\<close>



















section \<open>Properties\<close>

text \<open>C5: A session is never left unwatched. Whatever datagrams, timers, replies and requests a new session has seen, once its
  start has succeeded and as long as it is open its lifetime deadline is armed and closes it with reason
  max duration; and as long as a media session has written no video, its first-frame deadline is armed and closes it with reason
  first frame timeout. In the closed session every timer is off, no request waits, and the reorder buffer is retired.\<close>

theorem session_is_watched:
  assumes "run (ss_step env) (ss_new k key) es = (s, outs)" "SsConnected \<in> set outs" "\<not> ss_closed s"
  shows "let limit = fst (ss_step env s (SeMaximumDuration now)); first = fst (ss_step env s (SeFirstFrame now)) in
    ss_heartbeat s \<and> ss_closeReason limit = Some MaxDuration \<and> still limit \<and> \<not> requests limit \<and>
    (if so_purpose env = PurposeMedia \<and> \<not> wrote_video outs
     then ss_closeReason first = Some FirstFrameTimeout \<and> still first \<and> \<not> requests first else True)"
proof -
  have m: "life env s" "moves (ss_new k key) outs s"
    using sess.run_inv [of env "ss_new k key" es] life_new [of env k key] sess.run_effect [of env "ss_new k key" es] life_new [of env k key] assms(1) by simp_all
  then have w: "watched env s" "ss_maximumDurationTimer s" using assms(2, 3) by (simp_all add: life_def moves_def)
  have d: "\<not> wrote_video outs \<Longrightarrow> ss_lastDelivered s = None" using m(2) by (simp add: moves_def ss_new_def)
  show ?thesis using w d assms(3) close_still [of "s\<lparr>ss_maximumDurationTimer := False\<rparr>" env now MaxDuration]
      close_still [of "s\<lparr>ss_firstFrameTimer := False\<rparr>" env now FirstFrameTimeout]
    by (auto simp: Let_def watched_def requests_def)
qed


definition sample_start :: "ss_event list" where
  "sample_start = [SeBound, SeMessage 5 1 (''10.0.0.2'', 32108) (RESP_camId @ [0, 0]), SeWaitControl 9 1035 None False]"

lemma sample_started:
  fixes p :: purpose
  defines "r \<equiv> run (ss_step (sample_env\<lparr>so_purpose := p\<rparr>)) (ss_new 1 None) sample_start"
  shows "SsConnected \<in> set (snd r)" "\<not> ss_closed (fst r)" "\<not> wrote_video (snd r)" "map_option ctl_id (ss_control (fst r)) = Some 9"
    "ss_remote (fst r) = Some (''10.0.0.2'', 32108)" "\<not> ss_starting (fst r)" "ss_query (fst r) = None" "ss_info (fst r) = None"
    "ss_socket (fst r) = 1" "ss_startAttempts (fst r) = 0" "ss_level2Key (fst r) = None"
  by (simp_all add: r_def sample_start_def sample_env_def ss_new_def ss_bound_def ss_beginLookup_def ss_lookup_def ppcsLocalLookupTargets_def and_then_cases
      ss_send_def datagram_def u16_def opcodes buildPpcsCloudLookup_def ss_lookup_from_def ss_onMessage_def ss_handle_def has_def ppcsLookupCandidate_def
      isPpcsCameraIdentity_def ss_adopt_def lp_adopt_def ss_identity_def ss_connected_def ss_sendCommand_def commandHeader_def cameraVoidPayload_def
      ms_start_def ms_new_def ss_transmit_def ss_caught_def ss_microtasks_def ss_waitForControlResult_def wrote_video_def MAGIC_def Let_def)

lemma session_is_watched_witness:
  "let env = sample_env\<lparr>so_purpose := PurposeMedia\<rparr>; s = run_state (ss_step env) (ss_new 1 None) sample_start in
    ss_closeReason (fst (ss_step env s (SeMaximumDuration 9))) = Some MaxDuration \<and>
    ss_closeReason (fst (ss_step env s (SeFirstFrame 9))) = Some FirstFrameTimeout"
  using session_is_watched [OF surjective_pairing sample_started(1, 2), of PurposeMedia 9] sample_started(3) [of PurposeMedia] by (simp add: Let_def)


section \<open>A stalled stream\<close>






text \<open>A session whose attached stream has delivered its last picture at \<open>d\<close>.\<close>

definition streaming :: "session_env \<Rightarrow> ppcs_session \<Rightarrow> int \<Rightarrow> bool" where
  "streaming env s d \<longleftrightarrow> life env s \<and> \<not> ss_closed s \<and> ss_heartbeat s \<and> so_purpose env = PurposeMedia \<and> mr_homeBaseAttached env \<and>
     ss_level2Key s \<noteq> None \<and> ss_lastDelivered s = Some d \<and> 0 < ss_outputFrames s \<and> 0 < ss_startAttempts s"

lemma streaming_updates [simp]: "streaming env (s\<lparr>ss_restartTimer := b\<rparr>) d = streaming env s d"
    "streaming env (s\<lparr>ss_lastReassert := x\<rparr>) d = streaming env s d"
  by (auto simp: streaming_def life_def watched_def)






lemma run_three: "run step s [a, b, c] = (let r1 = step s a; r2 = step (fst r1) b; r3 = step (fst r2) c in (fst r3, snd r1 @ snd r2 @ snd r3))"
  by (simp add: split_beta Let_def)














end
