(* ===== verification/Spec2Isabelle.thy ===== *)
theory Spec2Isabelle
  imports Ppcs_Reorder Ppcs_Framing Ppcs_Normalizer Ppcs_Audio Access_Units Ppcs_Decode Nvr_Ptcs Observations Recording_Cache Media_Start Doorbell_Rtp Gateway_State
    Homebase_Framing Homebase_Session Homebase_State E30_Lock Transport_Writer Frame_Pacer Startup_Cache Startup_Watch Live_Muxer Stream_Session Stream_Delivery Push_Receiver Jpeg_Stream Camera_Deadline
    Session_Arrival Session_Life
begin

text \<open>
  Verification development of the Eufy event gateway (\<open>src/eufy_event_gateway/src\<close>, TypeScript).

  \<^bold>\<open>The program.\<close> The gateway keeps cloud, push and local sessions with security cameras, HomeBases and locks,
  and republishes their state and live video to Home Assistant. The development follows the data through it.
  Datagrams of a camera session (\<open>stream/first-party-ppcs.ts\<close>) are put in order, cut into command frames, assembled
  into access units, decrypted and normalised to Annex-B video and ADTS audio; recorders of the NVR family
  use their own fragments, doorbells RTP. The live-stream side retains a decoder startup, paces frames against their
  source clock, writes MPEG-TS and serves viewers. The control side holds the HomeBase command session and
  the lock protocol. The state side deduplicates deliveries, resolves competing observations, keeps detection flags
  with their hold times and caches recordings.

  \<^bold>\<open>Theories and code.\<close>
  \<^item> \<open>Gw_Prelude\<close>, \<open>Js_Map\<close>, \<open>Js_Value\<close>, \<open>Machine\<close>: buffers as lists of 8-bit words with Node's readers and writers, JavaScript
    maps (insertion-ordered association lists) and JSON values, and the interfaces below.
  \<^item> \<open>Ppcs_Reorder\<close>: \<open>PpcsDatagramReorderBuffer\<close>. \<open>Ppcs_Framing\<close>: the XZYH parser \<open>#consumeData\<close>. \<open>Access_Units\<close>:
    \<open>stream/ppcs-access-unit-assembler.ts\<close>. \<open>Ppcs_Decode\<close>: \<open>PpcsVideoFrameDecoder\<close> and the envelopes of \<open>crypto/media-key.ts\<close>.
    \<open>Ppcs_Normalizer\<close>: \<open>PpcsVideoStreamNormalizer\<close>. \<open>Ppcs_Audio\<close>: \<open>stream/ppcs-audio.ts\<close>. \<open>Media_Start\<close>: \<open>stream/ppcs-media-start.ts\<close>.
    \<open>Startup_Watch\<close>: \<open>stream/owned-startup-recovery.ts\<close>.
  \<^item> \<open>Ppcs_Wire\<close>: the opcodes, envelopes, lookup requests, command bodies and replies of \<open>stream/first-party-ppcs.ts\<close>, and
    \<open>stream/ppcs-lookup.ts\<close>. \<open>Ppcs_Session\<close>: \<open>FirstPartyPpcsSession\<close> with \<open>stream/ppcs-lookup-sockets.ts\<close>, composed of the components
    above: lookup, key negotiation, media starts and stops, heartbeat, datagrams and frames, requests, close. \<open>Session_Arrival\<close>: the path of a
    datagram from the wire to the outputs. \<open>Session_Life\<close>: what every step of a session keeps, its end, its deadlines, its stall recovery.
  \<^item> \<open>Nvr_Ptcs\<close>: the packetiser of \<open>stream/nvr-protocol.ts\<close> and \<open>stream/nvr-ptcs-reassembly.ts\<close>. \<open>Doorbell_Rtp\<close>: \<open>stream/doorbell-rtp.ts\<close>.
  \<^item> \<open>Startup_Cache\<close>: \<open>VideoParameterSetCache\<close> and \<open>StreamCadenceTracker\<close> of \<open>stream/live-stream-manager.ts\<close>.
    \<open>Frame_Pacer\<close>: \<open>stream/live-frame-pacer.ts\<close>. \<open>Transport_Writer\<close>: \<open>stream/clocked-transport.ts\<close>. \<open>Live_Muxer\<close>:
    \<open>stream/live-transport-muxer.ts\<close>, composed of the two before. \<open>Stream_Session\<close>, \<open>Stream_Delivery\<close>: one camera's session of
    \<open>stream/live-stream-manager.ts\<close>, its ownership of the source (start, leases, idle and quiet stops, retirement) and the
    delivery of the source's media to its viewers. \<open>Jpeg_Stream\<close>: \<open>stream/jpeg-parser.ts\<close>.
  \<^item> \<open>Mcs_Parser\<close>, \<open>Push_Client\<close>: \<open>mega/android-push/parser.ts\<close> and \<open>push-client.ts\<close>, with the protobuf decoder and the text
    decoder as parameters. \<open>Push_Event\<close>: the event normalisation of \<open>mega/push.ts\<close> and \<open>mega/push-recording-reference.ts\<close>.
    \<open>Push_Receiver\<close>: \<open>MegaPushReceiver\<close> of \<open>mega/push.ts\<close>, its registration attempts, reports and private state.
  \<^item> \<open>Homebase_Framing\<close>, \<open>Homebase_Session\<close>, \<open>Homebase_State\<close>: \<open>stream/homebase-ppcs.ts\<close>. \<open>E30_Lock\<close>: \<open>provider/e30-lock-protocol.ts\<close>.
    \<open>Camera_Deadline\<close>: \<open>provider/camera-control-deadline.ts\<close>.
  \<^item> \<open>Observations\<close>: push deduplication, the cloud motion clock and the observed-state registry under \<open>provider/\<close>.
    \<open>Gateway_State\<close>: \<open>domain/gateway-state.ts\<close>. \<open>Recording_Cache\<close>: \<open>storage/recording-cache.ts\<close>.

  Each class is a record with a field per private member, each method a definition named after it (with a
  short prefix per class), and each component with a life of its own a step function over an event datatype: calls of the owner,
  timer expiries and callbacks are events, and what the code sends, resolves, rejects, calls back or logs is a list of outputs.
  A throw is None or a constructor of an error type. Definitions compute, so that witnesses evaluate them.

  \<^bold>\<open>Interfaces.\<close> \<open>Machine\<close> has the locales \<open>invariant_machine\<close> (an invariant kept by each admissible event),
  \<open>output_machine\<close> (outputs that are good whenever the invariant holds), \<open>effect_machine\<close> (a transitive relation between a
  state, the outputs since and the state now), \<open>chunk_parser\<close> and \<open>total_chunk_parser\<close> (a parser whose result does not depend on how the
  stream was cut); \<open>Js_Map\<close> has \<open>keyed_store\<close>, the laws of a map with an accounted total. Each is interpreted on the
  model of the code in the component's theory, and the properties about runs rest on the interpretations.

  \<^bold>\<open>What the lemmas show.\<close> Session: what the camera sent is
  what the session handles, whatever the cutting and the order of arrival, as long as no repair timer expires; a session is always watched by a deadline,
  ends once, rejects who waits and is silent afterwards; a stalled stream is stopped, asked for once more and then given up. Transport: delivery in order whatever the arrival order, budgets of every retained
  quantity, timers that end every wait, parsing independent of the cutting, resynchronisation after damage, round trips from
  each encoder through its decoder. Protection: media reaches the output only after authentication, keys change only then,
  replayed frames are refused. Live path: the retained startup is decodable, units are delivered in order,
  the transport stream carries exactly the accepted media with consecutive counters, a viewer's resources are
  released once, one source runs at a time and an unused one is stopped. Push: the stream is parsed however it is cut, a silent
  connection is replaced, an identifier is delivered once, one attempt at a time registers. Control: each HomeBase operation settles once, a lock write changes only its field, replies are accepted only
  whole. State: detection flags expire, the freshest observation wins, deliveries pulse once, the cache agrees with an abstract one.

  \<^bold>\<open>Bounds and fuel.\<close> Loops are structural or have a length measure. The only fuel is in \<open>ecies_derive\<close>
  (two rounds of 32 bytes give the 48 needed, proved in its theory) and in the drain loop of \<open>Frame_Pacer\<close>, where the queue length is the
  measure. Constants are those of the code; integers that the code keeps below 2^53 are nat or int, wire fields are words.

  \<^bold>\<open>Parameters and hypotheses.\<close> Node's cipher, ECDH and HMAC functions, Zstandard, \<open>JSON.parse\<close>, the decoders handed in by a caller,
  clock readings, random identifiers and what Node's streams answer are arguments. Hypotheses about them state documented behaviour (decryption
  inverts encryption, a decoded buffer has the declared length). Doubles that hold times are exact reals, and None when not
  finite; strings have characters up to 255; equality of authentication tags stands for the constant-time comparison.

  \<^bold>\<open>Not modelled.\<close> Sockets, HTTP routing and rendering (\<open>server.ts\<close>, \<open>main.ts\<close>, \<open>diagnostics\<close>), the account
  client and its TLS sessions (\<open>mega/client.ts\<close>), the provider that wires devices to
  sessions (\<open>provider/eufy-provider.ts\<close>), WebRTC sessions over third-party stacks, device-specific trials, generated tables. Of a camera session, the
  owned readers (stored recordings, event pictures, lock status, alarm state, speaker), the passive purpose and the
  writing methods per setting are left out: their sends, waits and timeouts are events of the modelled session. The manifest
  lists each with its reason. Diagnostics counters are kept where an operation reads them and left out elsewhere.

  \<^bold>\<open>Findings.\<close> A first piece of four bytes settles the video framing before it can be known (\<open>Ppcs_Normalizer\<close>, proved), and
  length-prefixed H.265 that begins with a video parameter set is passed on unconverted; the byte
  bound stated for the reorder buffer is a bound on when it gives up a hole, not on what it then keeps (\<open>Ppcs_Reorder\<close>).
\<close>

end
